(* ===== verification/Prelude.thy ===== *)
theory Prelude
  imports Main "HOL-Library.Word" "HOL-Library.List_Lexorder"
begin

text \<open>
  Shared vocabulary of the development: the outcome of a Rust call (a value, an error value or
  a panic), the fact collections the component theories extend, ordered maps in the shape of
  \<open>std::collections::BTreeMap\<close> with the interface they promise, and the list lemmas
  that several components use.
\<close>

named_theorems outcome_simps \<open>rewriting the outcome of a Rust call\<close>
named_theorems wf_intros \<open>introduction rules of well-formedness invariants\<close>

section \<open>Outcomes of Rust calls\<close>

text \<open>
  \<open>Ok\<close> and \<open>Err\<close> are the constructors of \<open>Result\<close>; \<open>Panic\<close> is a call that does not return
  because an \<open>assert!\<close>, \<open>unwrap\<close>, \<open>todo!\<close>, \<open>unreachable!\<close>, an index out of range or an
  arithmetic overflow check stopped the thread.
\<close>

datatype ('a, 'e) outcome = Ok 'a | Err 'e | Panic

fun bind_o :: "('a, 'e) outcome \<Rightarrow> ('a \<Rightarrow> ('b, 'e) outcome) \<Rightarrow> ('b, 'e) outcome" where
  "bind_o (Ok x) f = f x"
| "bind_o (Err e) f = Err e"
| "bind_o Panic f = Panic"

fun unwrap :: "('a, 'e) outcome \<Rightarrow> ('a, 'f) outcome" where
  "unwrap (Ok x) = Ok x"
| "unwrap (Err e) = Panic"
| "unwrap Panic = Panic"

fun map_err :: "('e \<Rightarrow> 'f) \<Rightarrow> ('a, 'e) outcome \<Rightarrow> ('a, 'f) outcome" where
  "map_err f (Ok x) = Ok x"
| "map_err f (Err e) = Err (f e)"
| "map_err f Panic = Panic"

fun ok_or :: "'e \<Rightarrow> 'a option \<Rightarrow> ('a, 'e) outcome" where
  "ok_or e (Some x) = Ok x"
| "ok_or e None = Err e"

definition assert_o :: "bool \<Rightarrow> (unit, 'e) outcome" where
  "assert_o b = (if b then Ok () else Panic)"

lemma bind_o_Ok_iff: "bind_o m f = Ok y \<longleftrightarrow> (\<exists>x. m = Ok x \<and> f x = Ok y)"
  by (cases m) auto

lemma bind_o_Err_iff:
  "bind_o m f = Err e \<longleftrightarrow> m = Err e \<or> (\<exists>x. m = Ok x \<and> f x = Err e)"
  by (cases m) auto

lemma bind_o_assoc: "bind_o (bind_o m f) g = bind_o m (\<lambda>x. bind_o (f x) g)"
  by (cases m) auto

lemma bind_o_cong [fundef_cong]:
  "m = m' \<Longrightarrow> (\<And>x. m' = Ok x \<Longrightarrow> f x = f' x) \<Longrightarrow> bind_o m f = bind_o m' f'"
  by (cases m') auto

lemma unwrap_Ok_iff [simp]: "unwrap m = Ok x \<longleftrightarrow> m = Ok x"
  by (cases m) auto

lemma ok_or_Ok_iff [simp]: "ok_or e m = Ok x \<longleftrightarrow> m = Some x"
  by (cases m) auto

lemma assert_o_Ok_iff [simp]: "assert_o b = Ok u \<longleftrightarrow> b"
  by (auto simp: assert_o_def)

lemma assert_o_True [simp]: "assert_o True = Ok ()"
  by (simp add: assert_o_def)

lemma assert_o_False [simp]: "assert_o False = Panic"
  by (simp add: assert_o_def)

lemmas [outcome_simps] = bind_o_Ok_iff bind_o_Err_iff bind_o_assoc

text \<open>The \<open>for\<close> loop whose body may return early with \<open>?\<close>.\<close>

fun fold_o :: "('s \<Rightarrow> 'a \<Rightarrow> ('s, 'e) outcome) \<Rightarrow> 's \<Rightarrow> 'a list \<Rightarrow> ('s, 'e) outcome" where
  "fold_o f s [] = Ok s"
| "fold_o f s (x # xs) = bind_o (f s x) (\<lambda>s'. fold_o f s' xs)"

lemma fold_o_append: "fold_o f s (xs @ ys) = bind_o (fold_o f s xs) (\<lambda>s'. fold_o f s' ys)"
  by (induction xs arbitrary: s) (auto simp: bind_o_assoc)

lemma fold_o_invariant:
  assumes "fold_o f s xs = Ok s'" and "P s"
    and "\<And>s x s'. x \<in> set xs \<Longrightarrow> P s \<Longrightarrow> f s x = Ok s' \<Longrightarrow> P s'"
  shows "P s'"
  using assms by (induction xs arbitrary: s) (auto simp: bind_o_Ok_iff)


section \<open>Ordered maps\<close>

text \<open>
  A \<open>BTreeMap\<close> is an association list with strictly increasing keys: iteration visits the keys
  in order, and no key occurs twice.
\<close>

type_synonym ('k, 'v) btree = "('k \<times> 'v) list"

definition bt_keys :: "('k, 'v) btree \<Rightarrow> 'k list" where
  "bt_keys m = map fst m"

definition bt_inv :: "('k::linorder, 'v) btree \<Rightarrow> bool" where
  "bt_inv m \<longleftrightarrow> sorted_wrt (<) (bt_keys m)"

definition bt_get :: "('k, 'v) btree \<Rightarrow> 'k \<Rightarrow> 'v option" where
  "bt_get m k = map_of m k"

definition bt_contains_key :: "('k, 'v) btree \<Rightarrow> 'k \<Rightarrow> bool" where
  "bt_contains_key m k \<longleftrightarrow> k \<in> set (bt_keys m)"

fun bt_insert :: "'k::linorder \<Rightarrow> 'v \<Rightarrow> ('k, 'v) btree \<Rightarrow> ('k, 'v) btree" where
  "bt_insert k v [] = [(k, v)]"
| "bt_insert k v ((k', v') # m) =
     (if k < k' then (k, v) # (k', v') # m
      else if k = k' then (k, v) # m
      else (k', v') # bt_insert k v m)"

fun bt_remove :: "'k \<Rightarrow> ('k, 'v) btree \<Rightarrow> ('k, 'v) btree" where
  "bt_remove k [] = []"
| "bt_remove k ((k', v') # m) = (if k = k' then m else (k', v') # bt_remove k m)"

definition bt_retain :: "('k \<Rightarrow> 'v \<Rightarrow> bool) \<Rightarrow> ('k, 'v) btree \<Rightarrow> ('k, 'v) btree" where
  "bt_retain p m = filter (\<lambda>(k, v). p k v) m"

lemma bt_keys_simps [simp]:
  "bt_keys [] = []" "bt_keys (kv # m) = fst kv # bt_keys m"
  "bt_keys (m @ m') = bt_keys m @ bt_keys m'"
  by (simp_all add: bt_keys_def)

lemma bt_inv_Nil [simp, wf_intros]: "bt_inv []"
  by (simp add: bt_inv_def)

lemma bt_inv_Cons [simp]:
  "bt_inv (kv # m) \<longleftrightarrow> (\<forall>k \<in> set (bt_keys m). fst kv < k) \<and> bt_inv m"
  by (auto simp: bt_inv_def)

lemma set_bt_keys_insert [simp]: "set (bt_keys (bt_insert k v m)) = insert k (set (bt_keys m))"
  by (induction k v m rule: bt_insert.induct) auto

lemma bt_inv_insert [simp, wf_intros]: "bt_inv m \<Longrightarrow> bt_inv (bt_insert k v m)"
  by (induction k v m rule: bt_insert.induct) auto

lemma bt_get_insert: "bt_get (bt_insert k v m) = (bt_get m)(k \<mapsto> v)"
  by (induction k v m rule: bt_insert.induct) (auto simp: bt_get_def fun_eq_iff)

lemma bt_keys_remove_subset: "set (bt_keys (bt_remove k m)) \<subseteq> set (bt_keys m)"
  by (induction k m rule: bt_remove.induct) auto

lemma bt_inv_remove [simp, wf_intros]: "bt_inv m \<Longrightarrow> bt_inv (bt_remove k m)"
  using bt_keys_remove_subset by (induction k m rule: bt_remove.induct) fastforce+

lemma set_bt_keys_remove [simp]:
  "bt_inv m \<Longrightarrow> set (bt_keys (bt_remove k m)) = set (bt_keys m) - {k}"
  by (induction k m rule: bt_remove.induct) auto

lemma bt_contains_key_iff [simp]: "bt_contains_key m k \<longleftrightarrow> bt_get m k \<noteq> None"
  by (auto simp: bt_contains_key_def bt_get_def bt_keys_def map_of_eq_None_iff)

lemma bt_get_None_iff: "bt_get m k = None \<longleftrightarrow> k \<notin> set (bt_keys m)"
  by (auto simp: bt_get_def bt_keys_def map_of_eq_None_iff)

lemma bt_get_remove: "bt_inv m \<Longrightarrow> bt_get (bt_remove k m) = (bt_get m)(k := None)"
proof (induction k m rule: bt_remove.induct)
  case (2 k k' v' m)
  then show ?case
    by (auto simp: bt_get_def fun_eq_iff bt_keys_def map_of_eq_None_iff)
qed (auto simp: bt_get_def)

lemma bt_distinct_keys: "bt_inv m \<Longrightarrow> distinct (bt_keys m)"
  by (simp add: bt_inv_def strict_sorted_iff)

text \<open>The contract of an ordered map, as its clients use it.\<close>

locale ordered_map =
  fixes empty :: "'m"
    and insert :: "'k::linorder \<Rightarrow> 'v \<Rightarrow> 'm \<Rightarrow> 'm"
    and remove :: "'k \<Rightarrow> 'm \<Rightarrow> 'm"
    and lookup :: "'m \<Rightarrow> 'k \<Rightarrow> 'v option"
    and keys :: "'m \<Rightarrow> 'k list"
    and inv :: "'m \<Rightarrow> bool"
  assumes empty_lookup: "lookup empty = Map.empty"
    and insert_lookup: "inv m \<Longrightarrow> lookup (insert k v m) = (lookup m)(k \<mapsto> v)"
    and remove_lookup: "inv m \<Longrightarrow> lookup (remove k m) = (lookup m)(k := None)"
    and keys_lookup: "inv m \<Longrightarrow> set (keys m) = dom (lookup m)"
    and keys_sorted: "inv m \<Longrightarrow> sorted_wrt (<) (keys m)"
    and inv_empty: "inv empty"
    and inv_insert: "inv m \<Longrightarrow> inv (insert k v m)"
    and inv_remove: "inv m \<Longrightarrow> inv (remove k m)"
begin

lemma inv_fold_insert: "inv m \<Longrightarrow> inv (fold (\<lambda>kv. insert (fst kv) (snd kv)) kvs m)"
  by (induction kvs arbitrary: m) (auto intro: inv_insert)

lemma inv_fold_remove: "inv m \<Longrightarrow> inv (fold remove ks m)"
  by (induction ks arbitrary: m) (auto intro: inv_remove)

lemma lookup_fold_insert:
  "inv m \<Longrightarrow> lookup (fold (\<lambda>kv. insert (fst kv) (snd kv)) kvs m) = lookup m ++ map_of (rev kvs)"
  by (induction kvs arbitrary: m)
     (auto simp: insert_lookup inv_insert map_add_def fun_eq_iff split: option.splits)

lemma lookup_fold_remove: "inv m \<Longrightarrow> lookup (fold remove ks m) = (lookup m) |` (- set ks)"
  by (induction ks arbitrary: m)
     (auto simp: remove_lookup inv_remove restrict_map_def fun_eq_iff)

lemma same_lookup_same_keys:
  assumes "inv m" and "inv m'" and "lookup m = lookup m'"
  shows "keys m = keys m'"
proof (rule sorted_distinct_set_unique)
  from keys_sorted [OF assms(1)] show "sorted (keys m)" "distinct (keys m)"
    by (simp_all add: strict_sorted_iff)
  from keys_sorted [OF assms(2)] show "sorted (keys m')" "distinct (keys m')"
    by (simp_all add: strict_sorted_iff)
  from assms show "set (keys m) = set (keys m')"
    by (simp add: keys_lookup)
qed

end

lemma bt_keys_dom: "set (bt_keys m) = dom (bt_get m)"
  by (simp add: set_eq_iff domIff bt_get_None_iff)

interpretation btree: ordered_map "[]" bt_insert bt_remove bt_get bt_keys bt_inv
proof unfold_locales
  show "bt_get [] = Map.empty"
    by (simp add: bt_get_def fun_eq_iff)
qed (simp_all add: bt_get_insert bt_get_remove bt_keys_dom,
     simp_all add: bt_inv_def)


section \<open>Lists and numbers\<close>

lemma one_lessE:
  assumes "1 < (n::nat)"
  obtains k where "n = Suc (Suc k)"
proof
  show "n = Suc (Suc (n - 2))" using assms by arith
qed

lemma map_of_rev_distinct: "distinct (map fst kvs) \<Longrightarrow> map_of (rev kvs) = map_of kvs"
  by (rule map_of_eqI) (auto simp: map_of_is_SomeI rev_map [symmetric])

lemma find_Some_prop: "find P xs = Some x \<Longrightarrow> P x \<and> x \<in> set xs"
  by (induction xs) (auto split: if_splits)

lemma find_None_iff': "find P xs = None \<longleftrightarrow> (\<forall>x \<in> set xs. \<not> P x)"
  by (induction xs) auto

lemma find_exists: "\<exists>x \<in> set xs. P x \<Longrightarrow> \<exists>y. find P xs = Some y \<and> P y \<and> y \<in> set xs"
  by (induction xs) auto

lemma find_unique:
  assumes "x \<in> set xs" and "P x" and "\<And>y. y \<in> set xs \<Longrightarrow> P y \<Longrightarrow> y = x"
  shows "find P xs = Some x"
proof -
  from assms(1,2) obtain y where "find P xs = Some y" "P y" "y \<in> set xs"
    using find_exists [of xs P] by blast
  with assms(3) show ?thesis by simp
qed

end
