(* ===== verification/Element.thy ===== *)
theory Element
  imports Prelude
begin

unbundle bit_operations_syntax

text \<open>
  The crate \<open>element\<close>: 256-bit unsigned integers (\<open>Element(U256)\<close>), their bytes, words and
  least significant bits, the arithmetic operators and the collision test of a Merkle tree.
  A slice index that is out of range panics in the code; the functions on least significant
  bits are total here and are used under \<open>count \<le> 256\<close>, which every tree depth up to 257 gives.
\<close>

section \<open>The type and its constants\<close>

type_synonym element = "256 word"
type_synonym u8 = "8 word"
type_synonym u64 = "64 word"
type_synonym u128 = "128 word"

abbreviation ZERO :: element where "ZERO \<equiv> 0"
abbreviation ONE :: element where "ONE \<equiv> 1"

definition NULL_HASH :: element where
  "NULL_HASH = ZERO"

definition BYTE_HASH_IV :: element where
  "BYTE_HASH_IV = 2"

definition MODULUS :: element where
  "MODULUS = 0x30644E72E131A029B85045B68181585D2833E84879B9709143E1F593F0000001"

definition el_new :: "u64 \<Rightarrow> element" where
  "el_new i = ucast i"

definition as_bool :: "element \<Rightarrow> bool option" where
  "as_bool e = (if e = ZERO then Some False else if e = ONE then Some True else None)"

definition from_bool :: "bool \<Rightarrow> element" where
  "from_bool b = (if b then ONE else ZERO)"

lemma as_bool_from_bool: "as_bool (from_bool b) = Some b"
  by (simp add: as_bool_def from_bool_def)

section \<open>Words and bytes\<close>

definition to_words :: "element \<Rightarrow> u128 \<times> u128" where
  "to_words e = (ucast (drop_bit 128 e), ucast e)"

definition from_words :: "u128 \<times> u128 \<Rightarrow> element" where
  "from_words w = push_bit 128 (ucast (fst w)) OR ucast (snd w)"

definition from_u64_array :: "u64 \<times> u64 \<times> u64 \<times> u64 \<Rightarrow> element" where
  "from_u64_array arr = (case arr of (a0, a1, a2, a3) \<Rightarrow>
     let low = (ucast a0 :: u128) OR push_bit 64 (ucast a1);
         high = (ucast a2 :: u128) OR push_bit 64 (ucast a3)
     in from_words (high, low))"

definition to_u64_array :: "element \<Rightarrow> u64 \<times> u64 \<times> u64 \<times> u64" where
  "to_u64_array e = (case to_words e of (high, low) \<Rightarrow>
     (ucast low, ucast (drop_bit 64 low), ucast high, ucast (drop_bit 64 high)))"

definition to_le_bytes :: "element \<Rightarrow> u8 list" where
  "to_le_bytes e = map (\<lambda>i. ucast (drop_bit (8 * i) e)) [0..<32]"

definition to_be_bytes :: "element \<Rightarrow> u8 list" where
  "to_be_bytes e = rev (to_le_bytes e)"

fun from_le_bytes :: "u8 list \<Rightarrow> element" where
  "from_le_bytes [] = 0"
| "from_le_bytes (b # bs) = ucast b OR push_bit 8 (from_le_bytes bs)"

definition from_be_bytes :: "u8 list \<Rightarrow> element" where
  "from_be_bytes bs = from_le_bytes (rev bs)"

definition decompose_be :: "element \<Rightarrow> element \<times> element" where
  "decompose_be e =
     (let bytes = to_be_bytes e; high_bytes = take 16 bytes; low_bytes = drop 16 bytes
      in (from_be_bytes (replicate 16 0 @ high_bytes), from_be_bytes (replicate 16 0 @ low_bytes)))"

definition decompose_le :: "element \<Rightarrow> element \<times> element" where
  "decompose_le e =
     (let bytes = to_le_bytes e; low_bytes = take 16 bytes; high_bytes = drop 16 bytes
      in (from_le_bytes (high_bytes @ replicate 16 0), from_le_bytes (low_bytes @ replicate 16 0)))"

lemma bit_from_le_bytes:
  "length bs \<le> 32 \<Longrightarrow>
   bit (from_le_bytes bs) n \<longleftrightarrow> n < 8 * length bs \<and> bit (bs ! (n div 8)) (n mod 8)"
proof (induction bs arbitrary: n)
  case (Cons b bs)
  show ?case
  proof (cases "n < 8")
    case True
    then show ?thesis by (simp add: bit_or_iff bit_push_bit_iff bit_ucast_iff)
  next
    case False
    then obtain m where n: "n = m + 8"
      by (metis add.commute le_Suc_ex not_less)
    have "\<not> bit b (m + 8)"
      using bit_imp_le_length [of b "m + 8"] by auto
    then have "bit (from_le_bytes (b # bs)) n \<longleftrightarrow> m < 248 \<and> bit (from_le_bytes bs) m"
      by (simp add: n bit_or_iff bit_push_bit_iff bit_ucast_iff)
    also have "\<dots> \<longleftrightarrow> m < 8 * length bs \<and> bit (bs ! (m div 8)) (m mod 8)"
      using Cons.IH [of m] Cons.prems by auto
    also have "\<dots> \<longleftrightarrow> n < 8 * length (b # bs) \<and> bit ((b # bs) ! (n div 8)) (n mod 8)"
      by (simp add: n div_add_self2)
    finally show ?thesis .
  qed
qed simp

lemma length_to_le_bytes [simp]: "length (to_le_bytes e) = 32"
  by (simp add: to_le_bytes_def)

lemma length_to_be_bytes [simp]: "length (to_be_bytes e) = 32"
  by (simp add: to_be_bytes_def)

lemma bit_to_le_bytes: "i < 32 \<Longrightarrow> j < 8 \<Longrightarrow> bit (to_le_bytes e ! i) j = bit e (8 * i + j)"
  by (simp add: to_le_bytes_def bit_ucast_iff bit_drop_bit_eq add.commute)

lemma from_to_le_bytes [simp]: "from_le_bytes (to_le_bytes e) = e"
  by (rule bit_word_eqI) (simp add: bit_from_le_bytes bit_to_le_bytes)

lemma from_to_be_bytes [simp]: "from_be_bytes (to_be_bytes e) = e"
  by (simp add: from_be_bytes_def to_be_bytes_def)

lemma to_from_le_bytes: 
  assumes "length bs = 32"
  shows "to_le_bytes (from_le_bytes bs) = bs"
proof (rule nth_equalityI)
  show "length (to_le_bytes (from_le_bytes bs)) = length bs"
    using assms by simp
next
  fix i assume "i < length (to_le_bytes (from_le_bytes bs))"
  then have i: "i < 32" by simp
  show "to_le_bytes (from_le_bytes bs) ! i = bs ! i"
    by (rule bit_word_eqI) (use i assms in \<open>simp add: bit_to_le_bytes bit_from_le_bytes\<close>)
qed

lemma to_from_be_bytes: "length bs = 32 \<Longrightarrow> to_be_bytes (from_be_bytes bs) = bs"
  by (simp add: to_be_bytes_def from_be_bytes_def to_from_le_bytes)

section \<open>Least significant bits\<close>

text \<open>\<open>BitArray<[u8; 32], Msb0>\<close>: the bits of the bytes, each most significant bit first.\<close>

definition byte_bits :: "u8 \<Rightarrow> bool list" where
  "byte_bits b = map (bit b) (rev [0..<8])"

definition to_be_bits :: "element \<Rightarrow> bool list" where
  "to_be_bits e = concat (map byte_bits (to_be_bytes e))"

text \<open>\<open>Lsb\<close> holds all bits and a count; \<open>as_slice\<close> is its suffix of that length.\<close>

record lsb_handle =
  bits :: "bool list"
  count :: nat

definition lsb_of :: "element \<Rightarrow> nat \<Rightarrow> lsb_handle" where
  "lsb_of e n = \<lparr>bits = to_be_bits e, count = n\<rparr>"

definition as_slice :: "lsb_handle \<Rightarrow> bool list" where
  "as_slice l = drop (length (bits l) - count l) (bits l)"

definition lsb :: "element \<Rightarrow> nat \<Rightarrow> bool list" where
  "lsb e n = as_slice (lsb_of e n)"

definition collides_with :: "nat \<Rightarrow> element \<Rightarrow> element \<Rightarrow> bool" where
  "collides_with depth e e' \<longleftrightarrow> lsb e (depth - 1) = lsb e' (depth - 1)"

lemma to_be_bits_eq: "to_be_bits e = map (bit e) (rev [0..<256])"
proof -
  have byte: "byte_bits (ucast (drop_bit (8 * i) e)) = map (bit e) (rev [8 * i..<8 * i + 8])"
    if "i < 32" for i
    using that
    by (simp add: byte_bits_def bit_ucast_iff bit_drop_bit_eq upt_rec add.commute)
  have "to_be_bits e = concat (map (\<lambda>i. map (bit e) (rev [8 * i..<8 * i + 8])) (rev [0..<32]))"
    unfolding to_be_bits_def to_be_bytes_def to_le_bytes_def
    by (auto simp: rev_map byte intro!: arg_cong [where f = concat])
  also have "\<dots> = map (bit e) (concat (map (\<lambda>i. rev [8 * i..<8 * i + 8]) (rev [0..<32])))"
    by (simp add: map_concat comp_def)
  also have "concat (map (\<lambda>i. rev [8 * i..<8 * i + 8]) (rev [0..<n])) = rev [0..<8 * n]" for n :: nat
  proof (induction n)
    case (Suc n)
    have "rev [0..<8 * n + 8] = rev [8 * n..<8 * n + 8] @ rev [0..<8 * n]"
      using upt_add_eq_append [of 0 "8 * n" 8] by simp
    with Suc show ?case by (simp add: add.commute)
  qed simp
  finally show ?thesis by simp
qed

lemma lsb_eq: "n \<le> 256 \<Longrightarrow> lsb e n = map (bit e) (rev [0..<n])"
proof -
  assume n: "n \<le> 256"
  have "drop (256 - n) (rev [0..<256]) = rev [0..<n]"
    using n by (simp add: drop_rev take_upt)
  then show ?thesis
    using n by (simp add: lsb_def as_slice_def lsb_of_def to_be_bits_eq drop_map)
qed

lemma length_lsb [simp]: "n \<le> 256 \<Longrightarrow> length (lsb e n) = n"
  by (simp add: lsb_eq)

lemma lsb_nth: "n \<le> 256 \<Longrightarrow> i < n \<Longrightarrow> lsb e n ! i = bit e (n - Suc i)"
  by (simp add: lsb_eq rev_nth)

lemma lsb_eq_iff: "n \<le> 256 \<Longrightarrow> lsb a n = lsb b n \<longleftrightarrow> take_bit n a = take_bit n b"
  by (auto simp: lsb_eq bit_eq_iff bit_take_bit_iff) (meson less_le_trans)+

lemma lsb_Suc: "Suc n \<le> 256 \<Longrightarrow> lsb e (Suc n) = bit e n # lsb e n"
  by (simp add: lsb_eq)

lemma lsb_256_inj: "lsb a 256 = lsb b 256 \<longleftrightarrow> a = b"
  by (simp add: lsb_eq_iff take_bit_word_eq_self)

lemma collides_with_iff:
  "1 \<le> d \<Longrightarrow> d \<le> 257 \<Longrightarrow> collides_with d a b \<longleftrightarrow> take_bit (d - 1) a = take_bit (d - 1) b"
  by (simp add: collides_with_def lsb_eq_iff)

end
