(* ===== verification/Merkle_Hash.thy ===== *)
theory Merkle_Hash
  imports Element
begin

text \<open>
  The crate \<open>hash\<close> and \<open>smirk/src/hash.rs\<close>: merging of hashes, hashing of bytes, Merkle roots
  and Merkle paths, and the table of empty-tree hashes. The Poseidon permutation is code outside
  the repository: it is the parameter \<open>P\<close>, a function on lists of field elements. The functions
  on trees take the two-to-one hash \<open>H\<close> that \<open>hash_merge\<close> gives for two inputs.
\<close>

section \<open>Merging\<close>

type_synonym base = int

definition to_base :: "element \<Rightarrow> base" where
  "to_base e = uint e mod uint MODULUS"

definition from_base :: "base \<Rightarrow> element" where
  "from_base b = word_of_int b"

definition hash_merge :: "(base list \<Rightarrow> base) \<Rightarrow> element list \<Rightarrow> element" where
  "hash_merge P es = from_base (P (map to_base es))"

definition hash2 :: "(base list \<Rightarrow> base) \<Rightarrow> element \<Rightarrow> element \<Rightarrow> element" where
  "hash2 P l r = hash_merge P [l, r]"

lemma uint_MODULUS:
  "uint MODULUS = 0x30644E72E131A029B85045B68181585D2833E84879B9709143E1F593F0000001"
  by (simp add: MODULUS_def)

lemma from_to_base: "e < MODULUS \<Longrightarrow> from_base (to_base e) = e"
  by (simp add: from_base_def to_base_def word_less_def)

lemma to_base_bounds: "0 \<le> to_base e" "to_base e < uint MODULUS"
  by (simp_all add: to_base_def uint_MODULUS)

lemma to_base_alias:
  assumes "uint e + uint MODULUS < 2 ^ 256"
  shows "to_base (e + MODULUS) = to_base e"
proof -
  have "uint (e + MODULUS) = uint e + uint MODULUS"
    using assms by (simp add: uint_word_ariths)
  then show ?thesis by (simp add: to_base_def)
qed

section \<open>Hashing bytes\<close>

fun chunks :: "nat \<Rightarrow> 'a list \<Rightarrow> 'a list list" where
  "chunks n [] = []"
| "chunks n (x # xs) = (if n = 0 then [] else take n (x # xs) # chunks n (drop n (x # xs)))"

definition bytes_to_element :: "u8 list \<Rightarrow> element" where
  "bytes_to_element bs = from_be_bytes (replicate 16 0 @ bs @ replicate (16 - length bs) 0)"

definition hash_bytes :: "(element \<Rightarrow> element \<Rightarrow> element) \<Rightarrow> u8 list \<Rightarrow> element" where
  "hash_bytes H bs = foldl H BYTE_HASH_IV (map bytes_to_element (chunks 16 bs))"

section \<open>Merkle roots and paths\<close>

definition least_significant_bits :: "element \<Rightarrow> nat \<Rightarrow> bool list" where
  "least_significant_bits e depth = rev (lsb e depth)"

fun compute_merkle_root_from_iter ::
    "(element \<Rightarrow> element \<Rightarrow> element) \<Rightarrow> element \<Rightarrow> (element \<times> bool) list \<Rightarrow> element" where
  "compute_merkle_root_from_iter H leaf [] = leaf"
| "compute_merkle_root_from_iter H leaf ((sibling, b) # sbs) =
     compute_merkle_root_from_iter H (if b then H sibling leaf else H leaf sibling) sbs"

definition compute_merkle_root ::
    "(element \<Rightarrow> element \<Rightarrow> element) \<Rightarrow> element \<Rightarrow> element \<Rightarrow> element list \<Rightarrow> element" where
  "compute_merkle_root H leaf path_element siblings =
     compute_merkle_root_from_iter H leaf
       (zip siblings (least_significant_bits path_element (length siblings)))"

definition compute_null_root ::
    "(element \<Rightarrow> element \<Rightarrow> element) \<Rightarrow> element \<Rightarrow> element list \<Rightarrow> element" where
  "compute_null_root H leaf siblings =
     compute_merkle_root_from_iter H NULL_HASH
       (zip siblings (least_significant_bits leaf (length siblings)))"

fun merkle_path_loop ::
    "(element \<Rightarrow> element \<Rightarrow> element) \<Rightarrow> element list \<Rightarrow> element \<Rightarrow> (element \<times> bool) list \<Rightarrow> element list"
where
  "merkle_path_loop H path hash [] = path"
| "merkle_path_loop H path hash ((sibling, b) # sbs) =
     (let hash' = (if b then H sibling hash else H hash sibling)
      in merkle_path_loop H (path @ [hash']) hash' sbs)"

definition compute_merkle_path_for_leaf ::
    "(element \<Rightarrow> element \<Rightarrow> element) \<Rightarrow> element \<Rightarrow> element list \<Rightarrow> element list" where
  "compute_merkle_path_for_leaf H leaf siblings =
     merkle_path_loop H [leaf] leaf
       (zip siblings (least_significant_bits leaf (length siblings)))"

definition empty_tree_root :: "(element \<Rightarrow> element \<Rightarrow> element) \<Rightarrow> nat \<Rightarrow> (element, 'e) outcome" where
  "empty_tree_root H depth =
     (if depth = 0 then Panic
      else Ok (compute_merkle_root_from_iter H NULL_HASH
                 (map (\<lambda>_. (NULL_HASH, False)) [1..<depth])))"

section \<open>Empty trees\<close>

definition COMPUTE_DEPTH :: nat where
  "COMPUTE_DEPTH = 257"

fun cache_loop :: "(element \<Rightarrow> element \<Rightarrow> element) \<Rightarrow> nat \<Rightarrow> element list \<Rightarrow> element list" where
  "cache_loop H 0 vec = vec"
| "cache_loop H (Suc k) vec = cache_loop H k (vec @ [H (last vec) (last vec)])"

definition get_cache :: "(element \<Rightarrow> element \<Rightarrow> element) \<Rightarrow> element list" where
  "get_cache H = cache_loop H (COMPUTE_DEPTH - 1) [NULL_HASH]"

fun fallback :: "(element \<Rightarrow> element \<Rightarrow> element) \<Rightarrow> nat \<Rightarrow> (element, 'e) outcome" where
  "fallback H 0 = Panic"
| "fallback H (Suc n) =
     (if Suc n \<le> COMPUTE_DEPTH then Ok (get_cache H ! n)
      else bind_o (fallback H n) (\<lambda>hashed. Ok (H hashed hashed)))"

definition empty_tree_hash :: "(element \<Rightarrow> element \<Rightarrow> element) \<Rightarrow> nat \<Rightarrow> (element, 'e) outcome" where
  "empty_tree_hash H depth =
     (if depth = 0 then Panic
      else if depth - 1 < length (get_cache H) then Ok (get_cache H ! (depth - 1))
      else fallback H depth)"

text \<open>The recursion the documentation of \<open>empty_tree_hash\<close> states.\<close>

fun empty_hash :: "(element \<Rightarrow> element \<Rightarrow> element) \<Rightarrow> nat \<Rightarrow> element" where
  "empty_hash H (Suc (Suc n)) = H (empty_hash H (Suc n)) (empty_hash H (Suc n))"
| "empty_hash H _ = NULL_HASH"

section \<open>Lemmas\<close>

lemma length_cache_loop: "length (cache_loop H k vec) = length vec + k"
  by (induction H k vec rule: cache_loop.induct) auto

lemma cache_loop_spec:
  assumes "vec = map (\<lambda>i. empty_hash H (Suc i)) [0..<Suc n]"
  shows "cache_loop H k vec = map (\<lambda>i. empty_hash H (Suc i)) [0..<Suc n + k]"
  using assms
proof (induction k arbitrary: n vec)
  case (Suc k)
  have "last vec = empty_hash H (Suc n)"
    using Suc.prems by simp
  then have "vec @ [H (last vec) (last vec)] = map (\<lambda>i. empty_hash H (Suc i)) [0..<Suc (Suc n)]"
    using Suc.prems by simp
  from Suc.IH [OF this] show ?case by simp
qed simp

lemma get_cache_spec: "get_cache H = map (\<lambda>i. empty_hash H (Suc i)) [0..<COMPUTE_DEPTH]"
  using cache_loop_spec [of "[NULL_HASH]" H 0 "COMPUTE_DEPTH - 1"]
  by (simp add: get_cache_def COMPUTE_DEPTH_def)

lemma length_get_cache [simp]: "length (get_cache H) = COMPUTE_DEPTH"
  by (simp add: get_cache_spec)

lemma fallback_spec: "fallback H (Suc n) = Ok (empty_hash H (Suc n))"
proof (induction n)
  case 0
  show ?case by (simp add: get_cache_spec COMPUTE_DEPTH_def)
next
  case (Suc n)
  then show ?case by (auto simp: get_cache_spec simp del: upt_Suc)
qed

lemma empty_tree_hash_Suc [simp]: "empty_tree_hash H (Suc n) = Ok (empty_hash H (Suc n))"
  by (auto simp: empty_tree_hash_def get_cache_spec fallback_spec simp del: fallback.simps)

lemma empty_tree_hash_0 [simp]: "empty_tree_hash H 0 = Panic"
  by (simp add: empty_tree_hash_def)

lemma empty_tree_hash_pos: "0 < d \<Longrightarrow> empty_tree_hash H d = Ok (empty_hash H d)"
  by (cases d) simp_all

lemma merkle_iter_append:
  "compute_merkle_root_from_iter H leaf (xs @ ys) =
   compute_merkle_root_from_iter H (compute_merkle_root_from_iter H leaf xs) ys"
  by (induction H leaf xs rule: compute_merkle_root_from_iter.induct) auto

lemma merkle_path_loop_spec:
  "merkle_path_loop H path hash sbs =
     path @ map (\<lambda>i. compute_merkle_root_from_iter H hash (take (Suc i) sbs)) [0..<length sbs]"
proof (induction sbs arbitrary: path hash)
  case (Cons sb sbs)
  show ?case
    by (cases sb) (simp add: Cons Let_def upt_conv_Cons map_Suc_upt [symmetric] comp_def
                         del: upt_Suc)
qed simp

end
