(* ===== verification/Smirk_Cache.thy ===== *)
theory Smirk_Cache
  imports Merkle_Hash "HOL-Library.Product_Lexorder"
begin

text \<open>
  \<open>smirk/src/hash_cache\<close>: the trait \<open>HashCache\<close>, whose implementations must return what
  \<open>hash_merge\<close> returns, the cache that stores nothing, and the cache that keeps a sorted table
  of known hashes and a map of computed ones. The trait is the locale \<open>hash_cache\<close>; both
  implementations are interpretations of it.
\<close>

section \<open>The interface\<close>

locale hash_cache =
  fixes H :: "element \<Rightarrow> element \<Rightarrow> element"
    and chash :: "'c \<Rightarrow> element \<Rightarrow> element \<Rightarrow> element \<times> 'c"
    and cinv :: "'c \<Rightarrow> bool"
  assumes chash_value: "cinv c \<Longrightarrow> fst (chash c l r) = H l r"
    and chash_inv: "cinv c \<Longrightarrow> cinv (snd (chash c l r))"
begin

lemma chashE:
  assumes "cinv c"
  obtains c' where "chash c l r = (H l r, c')" and "cinv c'"
  using chash_value [OF assms, of l r] chash_inv [OF assms, of l r]
  by (cases "chash c l r") auto

end

section \<open>No cache\<close>

definition noop_hash :: "(element \<Rightarrow> element \<Rightarrow> element) \<Rightarrow> unit \<Rightarrow> element \<Rightarrow> element \<Rightarrow> element \<times> unit"
where
  "noop_hash H c l r = (H l r, ())"

interpretation noop: hash_cache H "noop_hash H" "\<lambda>_. True" for H
  by unfold_locales (simp_all add: noop_hash_def)

section \<open>Binary search\<close>

text \<open>The loop of \<open>slice::binary_search_by\<close>: \<open>base\<close> moves to \<open>mid\<close> unless that key is greater.\<close>

function bsearch_loop :: "'k::linorder \<Rightarrow> 'k list \<Rightarrow> nat \<Rightarrow> nat \<Rightarrow> nat" where
  "bsearch_loop key ks base sz =
     (if 1 < sz
      then let half = sz div 2; mid = base + half
           in bsearch_loop key ks (if key < ks ! mid then base else mid) (sz - half)
      else base)"
  by pat_completeness auto
termination
  by (relation "measure (\<lambda>(key, ks, base, sz). sz)") auto

declare bsearch_loop.simps [simp del]

definition binary_search :: "'k::linorder \<Rightarrow> 'k list \<Rightarrow> nat option" where
  "binary_search key ks =
     (if ks = [] then None
      else let base = bsearch_loop key ks 0 (length ks)
           in if ks ! base = key then Some base else None)"

lemma binary_search_Some: "binary_search key ks = Some i \<Longrightarrow> ks ! i = key"
  by (auto simp: binary_search_def Let_def split: if_splits)

lemma bsearch_loop_bound:
  "0 < sz \<Longrightarrow> base + sz \<le> length ks \<Longrightarrow> bsearch_loop key ks base sz < length ks"
proof (induction key ks base sz rule: bsearch_loop.induct)
  case (1 key ks base sz)
  show ?case
  proof (cases "1 < sz")
    case True
    with 1 show ?thesis
      by (subst bsearch_loop.simps) (auto simp: Let_def)
  next
    case False
    with 1 show ?thesis by (subst bsearch_loop.simps) auto
  qed
qed

lemma binary_search_bound: "binary_search key ks = Some i \<Longrightarrow> i < length ks"
  using bsearch_loop_bound [of "length ks" 0 ks key]
  by (auto simp: binary_search_def Let_def split: if_splits)

text \<open>On a sorted slice a key that occurs is found.\<close>

lemma bsearch_loop_finds:
  assumes "sorted ks" and "0 < sz" and "base + sz \<le> length ks"
    and "\<exists>i. base \<le> i \<and> i < base + sz \<and> ks ! i = key"
  shows "ks ! bsearch_loop key ks base sz = key"
  using assms
proof (induction key ks base sz rule: bsearch_loop.induct)
  case (1 key ks base sz)
  from "1.prems"(4) obtain i where i: "base \<le> i" "i < base + sz" "ks ! i = key"
    by blast
  show ?case
  proof (cases "1 < sz")
    case False
    with i have "i = base" by simp
    with i False show ?thesis by (subst bsearch_loop.simps) simp
  next
    case True
    let ?half = "sz div 2"
    let ?base = "if key < ks ! (base + ?half) then base else base + ?half"
    have "\<exists>j. ?base \<le> j \<and> j < ?base + (sz - ?half) \<and> ks ! j = key"
    proof (cases "key < ks ! (base + ?half)")
      case less: True
      have "i < base + ?half"
      proof (rule ccontr)
        assume "\<not> i < base + ?half"
        then have "ks ! (base + ?half) \<le> ks ! i"
          using "1.prems"(1,3) i by (intro sorted_nth_mono) auto
        with i less show False by simp
      qed
      with i less show ?thesis by (intro exI [of _ i]) auto
    next
      case ge: False
      show ?thesis
      proof (cases "base + ?half \<le> i")
        case True
        with i ge show ?thesis by (intro exI [of _ i]) auto
      next
        case False
        then have "ks ! i \<le> ks ! (base + ?half)"
          using "1.prems"(1,3) \<open>1 < sz\<close> by (intro sorted_nth_mono) auto
        with i ge have "ks ! (base + ?half) = key" by simp
        with ge show ?thesis by (intro exI [of _ "base + ?half"]) (use True in auto)
      qed
    qed
    then have "ks ! bsearch_loop key ks ?base (sz - ?half) = key"
      using True "1.prems" by (intro "1.IH") (auto simp: Let_def)
    with True show ?thesis by (subst bsearch_loop.simps) (simp add: Let_def)
  qed
qed

lemma binary_search_complete: "sorted ks \<Longrightarrow> key \<in> set ks \<Longrightarrow> binary_search key ks \<noteq> None"
  using bsearch_loop_finds [of ks "length ks" 0 key]
  by (auto simp: binary_search_def Let_def in_set_conv_nth)

section \<open>The simple cache\<close>

record known_hash =
  kh_left :: element
  kh_right :: element
  kh_result :: element

record cache_metrics =
  hashes :: u64
  cache_hits :: u64
  cache_misses :: u64

record simple_hash_cache =
  inner :: "element \<times> element \<rightharpoonup> element"
  initial :: "known_hash list"
  metrics :: cache_metrics

definition incr_hashes :: "cache_metrics \<Rightarrow> cache_metrics" where
  "incr_hashes m = m\<lparr>hashes := hashes m + 1\<rparr>"

definition incr_cache_hits :: "cache_metrics \<Rightarrow> cache_metrics" where
  "incr_cache_hits m = m\<lparr>cache_hits := cache_hits m + 1\<rparr>"

definition incr_cache_misses :: "cache_metrics \<Rightarrow> cache_metrics" where
  "incr_cache_misses m = m\<lparr>cache_misses := cache_misses m + 1\<rparr>"

definition kh_key :: "known_hash \<Rightarrow> element \<times> element" where
  "kh_key k = (kh_left k, kh_right k)"

definition simple_new :: simple_hash_cache where
  "simple_new = \<lparr>inner = Map.empty, initial = [],
     metrics = \<lparr>hashes = 0, cache_hits = 0, cache_misses = 0\<rparr>\<rparr>"

definition simple_hash ::
    "(element \<Rightarrow> element \<Rightarrow> element) \<Rightarrow> simple_hash_cache \<Rightarrow> element \<Rightarrow> element \<Rightarrow>
     element \<times> simple_hash_cache" where
  "simple_hash H c l r =
     (let c = c\<lparr>metrics := incr_hashes (metrics c)\<rparr>
      in case binary_search (l, r) (map kh_key (initial c)) of
           Some i \<Rightarrow> (kh_result (initial c ! i), c\<lparr>metrics := incr_cache_hits (metrics c)\<rparr>)
         | None \<Rightarrow>
             (case inner c (l, r) of
                Some h \<Rightarrow> (h, c\<lparr>metrics := incr_cache_hits (metrics c)\<rparr>)
              | None \<Rightarrow>
                  let h = H l r
                  in (h, c\<lparr>metrics := incr_cache_misses (metrics c),
                         inner := (inner c)((l, r) \<mapsto> h)\<rparr>)))"

definition provide_known_hashes ::
    "simple_hash_cache \<Rightarrow> known_hash list \<Rightarrow> (simple_hash_cache, 'e) outcome" where
  "provide_known_hashes c hs =
     (let hs = sort_key kh_key hs
      in if initial c = [] then Ok (c\<lparr>initial := hs\<rparr>) else Panic)"

definition evict :: "simple_hash_cache \<Rightarrow> element \<Rightarrow> element \<Rightarrow> simple_hash_cache" where
  "evict c l r = c\<lparr>inner := (inner c)((l, r) := None)\<rparr>"

definition evict_all :: "simple_hash_cache \<Rightarrow> simple_hash_cache" where
  "evict_all c = c\<lparr>inner := Map.empty\<rparr>"

text \<open>Every stored result is the hash of its key; the known hashes are sorted.\<close>

definition kh_valid :: "(element \<Rightarrow> element \<Rightarrow> element) \<Rightarrow> known_hash \<Rightarrow> bool" where
  "kh_valid H k \<longleftrightarrow> kh_result k = H (kh_left k) (kh_right k)"

definition simple_inv :: "(element \<Rightarrow> element \<Rightarrow> element) \<Rightarrow> simple_hash_cache \<Rightarrow> bool" where
  "simple_inv H c \<longleftrightarrow>
     sorted (map kh_key (initial c)) \<and> (\<forall>k \<in> set (initial c). kh_valid H k) \<and>
     (\<forall>l r h. inner c (l, r) = Some h \<longrightarrow> h = H l r) \<and>
     hashes (metrics c) = cache_hits (metrics c) + cache_misses (metrics c)"

lemma simple_inv_new [wf_intros]: "simple_inv H simple_new"
  by (simp add: simple_inv_def simple_new_def)

lemma simple_inv_provide [wf_intros]:
  assumes "simple_inv H c" and "\<forall>k \<in> set hs. kh_valid H k" and "provide_known_hashes c hs = Ok c'"
  shows "simple_inv H c'"
  using assms
  by (auto simp: provide_known_hashes_def simple_inv_def Let_def split: if_splits)

lemma simple_inv_evict [wf_intros]: "simple_inv H c \<Longrightarrow> simple_inv H (evict c l r)"
  by (simp add: simple_inv_def evict_def)

lemma simple_inv_evict_all [wf_intros]: "simple_inv H c \<Longrightarrow> simple_inv H (evict_all c)"
  by (simp add: simple_inv_def evict_all_def)

lemma simple_hash_initial:
  assumes "simple_inv H c" and "binary_search (l, r) (map kh_key (initial c)) = Some i"
  shows "kh_result (initial c ! i) = H l r"
proof -
  have i: "i < length (initial c)"
    using binary_search_bound [OF assms(2)] by simp
  have "kh_key (initial c ! i) = (l, r)"
    using binary_search_Some [OF assms(2)] i by simp
  moreover have "kh_valid H (initial c ! i)"
    using assms(1) i by (simp add: simple_inv_def)
  ultimately show ?thesis by (simp add: kh_valid_def kh_key_def)
qed

lemma simple_hash_value: "simple_inv H c \<Longrightarrow> fst (simple_hash H c l r) = H l r"
  by (auto simp: simple_hash_def Let_def simple_hash_initial split: option.splits)
     (auto simp: simple_inv_def)

lemma simple_hash_inv [wf_intros]: "simple_inv H c \<Longrightarrow> simple_inv H (snd (simple_hash H c l r))"
  by (auto simp: simple_hash_def Let_def simple_inv_def incr_hashes_def incr_cache_hits_def
      incr_cache_misses_def split: option.splits)

interpretation simple: hash_cache H "simple_hash H" "simple_inv H" for H
  by unfold_locales (simp_all add: simple_hash_value simple_hash_inv)

end
