(* ===== verification/Smirk_Node.thy ===== *)
theory Smirk_Node
  imports Smirk_Cache
begin

text \<open>
  \<open>smirk/src/tree/tree_repr.rs\<close>: the node representation of a sparse Merkle tree, insertion
  and removal without hashing, the recalculation of dirty hashes and the hash of a tree with
  changes that are not applied. A list of changes and the parallel list of their bit paths is
  one list of pairs here: every caller builds both by unzipping one vector and the code slices
  both at the same index. \<open>rayon::join\<close> runs the two halves of a recalculation in an order the
  scheduler chooses; the model runs the left half first.
\<close>

section \<open>Collisions\<close>

datatype struct_name = Batch | Tree

record collision =
  in_tree :: element
  inserted :: element
  col_depth :: nat
  struct_name :: struct_name

type_synonym collision_error = "collision list"

section \<open>Nodes\<close>

datatype node =
    Leaf element
  | Empty nat
  | Parent node node element bool

datatype change = Insert | Remove

type_synonym change_entry = "(change \<times> element) \<times> bool list"

fun node_hash :: "(element \<Rightarrow> element \<Rightarrow> element) \<Rightarrow> node \<Rightarrow> (element, collision) outcome" where
  "node_hash H (Leaf h) = Ok h"
| "node_hash H (Parent l r h d) = Ok h"
| "node_hash H (Empty depth) = empty_tree_hash H depth"

text \<open>\<open>bits.iter().position(|b| b[path_depth]).unwrap_or(bits.len())\<close>\<close>

fun rights_start :: "nat \<Rightarrow> change_entry list \<Rightarrow> (nat, collision) outcome" where
  "rights_start pd [] = Ok 0"
| "rights_start pd (x # es) =
     (if pd < length (snd x)
      then if snd x ! pd then Ok 0 else bind_o (rights_start pd es) (\<lambda>k. Ok (Suc k))
      else Panic)"

text \<open>A measure under which splitting an empty tree makes it smaller.\<close>

fun node_measure :: "node \<Rightarrow> nat" where
  "node_measure (Leaf e) = 1"
| "node_measure (Empty d) = 3 ^ d"
| "node_measure (Parent l r h d) = Suc (node_measure l + node_measure r)"

lemma node_measure_pos [simp]: "0 < node_measure n"
  by (cases n) auto

lemma node_measure_split: "Suc (3 ^ Suc d + 3 ^ Suc d) < (3::nat) ^ Suc (Suc d)"
proof -
  have "(1::nat) \<le> 3 ^ d" by simp
  then show ?thesis unfolding power_Suc by linarith
qed

section \<open>Hash with pending changes\<close>

function (sequential) hash_with_inner ::
    "nat \<Rightarrow> (element \<Rightarrow> element \<Rightarrow> element) \<Rightarrow> ('c \<Rightarrow> element \<Rightarrow> element \<Rightarrow> element \<times> 'c) \<Rightarrow>
     node \<Rightarrow> 'c \<Rightarrow> change_entry list \<Rightarrow> nat \<Rightarrow> (element \<times> 'c, collision) outcome" where
  "hash_with_inner N H chash (Leaf current) c es pd =
     (if 1 < length es then Panic
      else case es of
        [] \<Rightarrow> Ok (current, c)
      | ((Insert, new), _) # _ \<Rightarrow>
          if lsb current (N - 1) = lsb new (N - 1) then Ok (new, c) else Panic
      | ((Remove, removed), _) # _ \<Rightarrow>
          if current = removed then bind_o (empty_tree_hash H 1) (\<lambda>h. Ok (h, c))
          else Ok (current, c))"
| "hash_with_inner N H chash (Parent l r _ _) c es pd =
     bind_o (rights_start pd es) (\<lambda>k.
     bind_o (hash_with_inner N H chash l c (take k es) (pd + 1)) (\<lambda>lc.
     bind_o (hash_with_inner N H chash r (snd lc) (drop k es) (pd + 1)) (\<lambda>rc.
     Ok (chash (snd rc) (fst lc) (fst rc)))))"
| "hash_with_inner N H chash (Empty (Suc 0)) c es pd =
     (if 1 < length es then Panic
      else case es of
        ((Insert, e), _) # _ \<Rightarrow> Ok (e, c)
      | _ \<Rightarrow> bind_o (empty_tree_hash H 1) (\<lambda>h. Ok (h, c)))"
| "hash_with_inner N H chash (Empty 0) c es pd = Panic"
| "hash_with_inner N H chash (Empty (Suc (Suc d))) c es pd =
     (if es = [] then bind_o (empty_tree_hash H (Suc (Suc d))) (\<lambda>h. Ok (h, c))
      else
        bind_o (rights_start pd es) (\<lambda>k.
        bind_o (hash_with_inner N H chash (Empty (Suc d)) c (take k es) (pd + 1)) (\<lambda>lc.
        bind_o (hash_with_inner N H chash (Empty (Suc d)) (snd lc) (drop k es) (pd + 1)) (\<lambda>rc.
        Ok (chash (snd rc) (fst lc) (fst rc))))))"
  by pat_completeness auto
termination
  by (relation "measure (\<lambda>(N, H, chash, n, c, es, pd). node_measure n)") auto

definition change_entries :: "nat \<Rightarrow> element list \<Rightarrow> element list \<Rightarrow> change_entry list" where
  "change_entries N ins rem =
     sort_key snd (map (\<lambda>e. ((Insert, e), lsb e (N - 1))) ins @
                   map (\<lambda>e. ((Remove, e), lsb e (N - 1))) rem)"

definition hash_with ::
    "nat \<Rightarrow> (element \<Rightarrow> element \<Rightarrow> element) \<Rightarrow> ('c \<Rightarrow> element \<Rightarrow> element \<Rightarrow> element \<times> 'c) \<Rightarrow>
     node \<Rightarrow> 'c \<Rightarrow> element list \<Rightarrow> element list \<Rightarrow> (element \<times> 'c, collision) outcome" where
  "hash_with N H chash n c ins rem = hash_with_inner N H chash n c (change_entries N ins rem) 0"

section \<open>Insertion and removal without hashing\<close>

text \<open>
  The end of the \<open>Parent\<close> case. \<open>a\<close> and \<open>b\<close> are the values of the local variables \<open>left\<close> and
  \<open>right\<close> of the code: when both halves have changes, \<open>left\<close> holds the result of the right half.
\<close>

definition join_inserts ::
    "node \<Rightarrow> node \<Rightarrow> element \<Rightarrow> (bool, collision) outcome \<Rightarrow> (bool, collision) outcome \<Rightarrow>
     node \<times> (bool, collision) outcome" where
  "join_inserts l r h a b =
     (let dirty = (b = Ok True \<or> a = Ok True)
      in (Parent l r h dirty,
          if a = Panic \<or> b = Panic then Panic
          else bind_o b (\<lambda>_. bind_o a (\<lambda>_. Ok dirty))))"

function (sequential) insert_node ::
    "(element \<Rightarrow> element \<Rightarrow> element) \<Rightarrow> nat \<Rightarrow> node \<Rightarrow> change_entry list \<Rightarrow> nat \<Rightarrow>
     node \<times> (bool, collision) outcome" where
  "insert_node H N (Leaf e) es pd =
     (case find (\<lambda>x. e = snd (fst x)) es of
        Some ((Insert, _), _) \<Rightarrow> (Leaf e, Ok False)
      | Some ((Remove, _), _) \<Rightarrow> (Empty 1, Ok True)
      | None \<Rightarrow>
          if \<exists>x \<in> set es. snd x = lsb e (N - 1)
          then (case find (\<lambda>x. lsb e (N - 1) = lsb (snd (fst x)) (N - 1)) es of
                  Some x \<Rightarrow> (Leaf e, Err \<lparr>in_tree = e, inserted = snd (fst x), col_depth = N,
                                         struct_name = Tree\<rparr>)
                | None \<Rightarrow> (Leaf e, Panic))
          else (Leaf e, Panic))"
| "insert_node H N (Parent l r h dirty) es pd =
     (case rights_start pd es of
        Ok k \<Rightarrow>
          (let lefts = take k es; rights = drop k es
           in if lefts = [] \<and> rights = [] then (Parent l r h dirty, Ok False)
              else if rights = [] then
                (case insert_node H N l lefts (pd + 1) of
                   (l', a) \<Rightarrow> join_inserts l' r h a (Ok False))
              else if lefts = [] then
                (case insert_node H N r rights (pd + 1) of
                   (r', b) \<Rightarrow> join_inserts l r' h (Ok False) b)
              else
                (case insert_node H N r rights (pd + 1) of
                   (r', a) \<Rightarrow>
                     (case insert_node H N l lefts (pd + 1) of
                        (l', b) \<Rightarrow> join_inserts l' r' h a b)))
      | Err e \<Rightarrow> (Parent l r h dirty, Err e)
      | Panic \<Rightarrow> (Parent l r h dirty, Panic))"
| "insert_node H N (Empty (Suc 0)) es pd =
     (case es of
        [((Insert, e), _)] \<Rightarrow> (Leaf e, Ok True)
      | [((Remove, _), _)] \<Rightarrow> (Empty 1, Ok False)
      | _ \<Rightarrow> (Empty 1, Panic))"
| "insert_node H N (Empty 0) es pd = (Empty 0, Panic)"
| "insert_node H N (Empty (Suc (Suc d))) es pd =
     (case empty_tree_hash H (Suc (Suc d)) of
        Ok h \<Rightarrow> insert_node H N (Parent (Empty (Suc d)) (Empty (Suc d)) h False) es pd
      | Err e \<Rightarrow> (Empty (Suc (Suc d)), Err e)
      | Panic \<Rightarrow> (Empty (Suc (Suc d)), Panic))"
  by pat_completeness auto
termination
  by (relation "measure (\<lambda>(H, N, n, es, pd). node_measure n)")
     (auto intro: node_measure_split simp del: power_Suc)

section \<open>Recalculating hashes\<close>

datatype hash_event = HashRemove element element | HashSet element element element

fun recalculate_hashes ::
    "(element \<Rightarrow> element \<Rightarrow> element) \<Rightarrow> ('c \<Rightarrow> element \<Rightarrow> element \<Rightarrow> element \<times> 'c) \<Rightarrow>
     node \<Rightarrow> 'c \<Rightarrow> (node \<times> 'c \<times> hash_event list, collision) outcome" where
  "recalculate_hashes H chash (Parent l r h dirty) c =
     (if \<not> dirty then Ok (Parent l r h dirty, c, [])
      else
        bind_o (node_hash H l) (\<lambda>left_before.
        bind_o (node_hash H r) (\<lambda>right_before.
        bind_o (recalculate_hashes H chash l c) (\<lambda>(l', c1, ev1).
        bind_o (recalculate_hashes H chash r c1) (\<lambda>(r', c2, ev2).
        bind_o (node_hash H l') (\<lambda>left_hash.
        bind_o (node_hash H r') (\<lambda>right_hash.
        (case chash c2 left_hash right_hash of (h', c3) \<Rightarrow>
          Ok (Parent l' r' h' False, c3,
              HashRemove left_before right_before # ev1 @ ev2 @
              [HashSet left_hash right_hash h'])))))))))"
| "recalculate_hashes H chash n c = Ok (n, c, [])"

section \<open>Known hashes\<close>

fun known_hashes_inner ::
    "(element \<Rightarrow> element \<Rightarrow> element) \<Rightarrow> node \<Rightarrow> known_hash list \<Rightarrow> (known_hash list, collision) outcome" where
  "known_hashes_inner H (Parent l r h dirty) hs =
     bind_o (assert_o (\<not> dirty)) (\<lambda>_.
     bind_o (node_hash H l) (\<lambda>lh.
     bind_o (node_hash H r) (\<lambda>rh.
     bind_o (known_hashes_inner H l (hs @ [\<lparr>kh_left = lh, kh_right = rh, kh_result = h\<rparr>]))
       (\<lambda>hs'. known_hashes_inner H r hs'))))"
| "known_hashes_inner H n hs = Ok hs"

end
