(* ===== verification/Smirk_Node_Props.thy ===== *)
theory Smirk_Node_Props
  imports Smirk_Node
begin

text \<open>
  The invariant of nodes, the abstract Merkle root of a set of slots, and the correctness of
  insertion, recalculation and hashing with pending changes against them.
\<close>

section \<open>Invariant\<close>

text \<open>\<open>p\<close> is the path from the root to the node and \<open>d\<close> the depth of the tree below it.\<close>

fun wf_node :: "nat \<Rightarrow> bool list \<Rightarrow> nat \<Rightarrow> node \<Rightarrow> bool" where
  "wf_node N p d (Leaf e) \<longleftrightarrow> d = 1 \<and> lsb e (N - 1) = p \<and> e \<noteq> NULL_HASH"
| "wf_node N p d (Empty k) \<longleftrightarrow> 0 < d \<and> k = d"
| "wf_node N p d (Parent l r h dirty) \<longleftrightarrow>
     1 < d \<and> wf_node N (p @ [False]) (d - 1) l \<and> wf_node N (p @ [True]) (d - 1) r"

fun node_elems :: "node \<Rightarrow> element list" where
  "node_elems (Leaf e) = [e]"
| "node_elems (Empty d) = []"
| "node_elems (Parent l r h d) = node_elems l @ node_elems r"

text \<open>The stored hash, and the hash recomputed from the leaves.\<close>

fun stored_hash :: "(element \<Rightarrow> element \<Rightarrow> element) \<Rightarrow> node \<Rightarrow> element" where
  "stored_hash H (Leaf e) = e"
| "stored_hash H (Empty d) = empty_hash H d"
| "stored_hash H (Parent l r h d) = h"

fun full_hash :: "(element \<Rightarrow> element \<Rightarrow> element) \<Rightarrow> node \<Rightarrow> element" where
  "full_hash H (Leaf e) = e"
| "full_hash H (Empty d) = empty_hash H d"
| "full_hash H (Parent l r h d) = H (full_hash H l) (full_hash H r)"

fun clean :: "(element \<Rightarrow> element \<Rightarrow> element) \<Rightarrow> node \<Rightarrow> bool" where
  "clean H (Parent l r h dirty) \<longleftrightarrow>
     \<not> dirty \<and> h = H (stored_hash H l) (stored_hash H r) \<and> clean H l \<and> clean H r"
| "clean H n \<longleftrightarrow> True"

text \<open>A node whose stored hashes are right below every parent that is not dirty.\<close>

fun dirty_ok :: "(element \<Rightarrow> element \<Rightarrow> element) \<Rightarrow> node \<Rightarrow> bool" where
  "dirty_ok H (Parent l r h dirty) \<longleftrightarrow>
     (if dirty then dirty_ok H l \<and> dirty_ok H r else clean H (Parent l r h dirty))"
| "dirty_ok H n \<longleftrightarrow> True"

lemma clean_stored_hash: "clean H n \<Longrightarrow> stored_hash H n = full_hash H n"
  by (induction n) auto

lemma clean_dirty_ok: "clean H n \<Longrightarrow> dirty_ok H n"
  by (cases n) auto

lemma wf_node_depth: "wf_node N p d n \<Longrightarrow> 0 < d"
  by (cases n) auto

lemma wf_node_hash: "wf_node N p d n \<Longrightarrow> node_hash H n = Ok (stored_hash H n)"
  by (cases n) (auto simp: empty_tree_hash_pos)

lemma wf_node_prefix:
  "wf_node N p d n \<Longrightarrow> e \<in> set (node_elems n) \<Longrightarrow>
     e \<noteq> NULL_HASH \<and> (\<exists>q. lsb e (N - 1) = p @ q \<and> Suc (length q) = d)"
proof (induction N p d n rule: wf_node.induct)
  case (3 N p d l r h dirty)
  then have "e \<in> set (node_elems l) \<or> e \<in> set (node_elems r)" by auto
  then obtain b q where "e \<noteq> NULL_HASH" "lsb e (N - 1) = (p @ [b]) @ q" "Suc (length q) = d - 1"
    using 3 by (metis wf_node.simps(3))
  then show ?case using 3 by (auto intro!: exI [of _ "b # q"])
qed auto

section \<open>The abstract Merkle root\<close>

text \<open>
  A tree of depth \<open>N\<close> assigns an element to each path of \<open>N - 1\<close> bits; the slots that no element
  of the set occupies hold \<open>NULL_HASH\<close>. The root hashes the slots pairwise, level by level.
\<close>

definition slot :: "nat \<Rightarrow> element list \<Rightarrow> bool list \<Rightarrow> element" where
  "slot N es p = (case find (\<lambda>e. lsb e (N - 1) = p) es of Some e \<Rightarrow> e | None \<Rightarrow> NULL_HASH)"

fun smt_root :: "(element \<Rightarrow> element \<Rightarrow> element) \<Rightarrow> (bool list \<Rightarrow> element) \<Rightarrow> bool list \<Rightarrow> nat \<Rightarrow> element"
where
  "smt_root H f p (Suc (Suc d)) =
     H (smt_root H f (p @ [False]) (Suc d)) (smt_root H f (p @ [True]) (Suc d))"
| "smt_root H f p _ = f p"

text \<open>Elements of one tree occupy different slots.\<close>

definition slots_distinct :: "nat \<Rightarrow> element set \<Rightarrow> bool" where
  "slots_distinct N S \<longleftrightarrow> inj_on (\<lambda>e. lsb e (N - 1)) S"

lemma smt_root_cong:
  "(\<And>q. Suc (length q) = d \<Longrightarrow> f (p @ q) = g (p @ q)) \<Longrightarrow> 0 < d \<Longrightarrow>
   smt_root H f p d = smt_root H g p d"
proof (induction H f p d rule: smt_root.induct)
  case (1 H f p d)
  have "smt_root H f (p @ [b]) (Suc d) = smt_root H g (p @ [b]) (Suc d)" for b
    by (cases b) (auto intro!: 1(1,2) simp: "1.prems"(1) [of "_ # _", simplified])
  then show ?case by simp
qed auto

lemma smt_root_null:
  "(\<And>q. Suc (length q) = d \<Longrightarrow> f (p @ q) = NULL_HASH) \<Longrightarrow> 0 < d \<Longrightarrow>
   smt_root H f p d = empty_hash H d"
proof (induction H f p d rule: smt_root.induct)
  case (1 H f p d)
  have "smt_root H f (p @ [b]) (Suc d) = empty_hash H (Suc d)" for b
    by (cases b) (auto intro!: 1(1,2) simp: "1.prems"(1) [of "_ # _", simplified])
  then show ?case by simp
qed auto

lemma slot_unique:
  assumes "slots_distinct N (set es)" and "e \<in> set es"
  shows "slot N es (lsb e (N - 1)) = e"
  using find_unique [of e es "\<lambda>x. lsb x (N - 1) = lsb e (N - 1)"] assms
  by (auto simp: slot_def slots_distinct_def inj_on_def)

lemma slot_empty: "(\<And>e. e \<in> set es \<Longrightarrow> lsb e (N - 1) \<noteq> p) \<Longrightarrow> slot N es p = NULL_HASH"
  by (auto simp: slot_def split: option.splits dest: find_Some_prop)

lemma slot_set_cong:
  assumes "slots_distinct N (set es)" and "set es = set es'"
  shows "slot N es p = slot N es' p"
proof (cases "\<exists>e \<in> set es. lsb e (N - 1) = p")
  case True
  then obtain e where "e \<in> set es" "lsb e (N - 1) = p" by blast
  then show ?thesis
    using slot_unique [of N es e] slot_unique [of N es' e] assms by simp
next
  case False
  then have "slot N es p = NULL_HASH" and "slot N es' p = NULL_HASH"
    using assms(2) by (auto intro!: slot_empty)
  then show ?thesis by simp
qed

lemma wf_node_not_null: "wf_node N p d n \<Longrightarrow> NULL_HASH \<notin> set (node_elems n)"
  by (induction N p d n rule: wf_node.induct) auto

lemma wf_node_distinct: "wf_node N p d n \<Longrightarrow> slots_distinct N (set (node_elems n))"
proof (induction N p d n rule: wf_node.induct)
  case (3 N p d l r h dirty)
  have "lsb a (N - 1) \<noteq> lsb b (N - 1)"
    if "a \<in> set (node_elems l)" "b \<in> set (node_elems r)" for a b
    using wf_node_prefix [of N "p @ [False]" "d - 1" l a]
      wf_node_prefix [of N "p @ [True]" "d - 1" r b] that "3.prems" by auto
  then show ?case
    using 3 by (auto simp: slots_distinct_def inj_on_Un)
qed (auto simp: slots_distinct_def)

lemma slot_append:
  "slot N (xs @ ys) p = (if \<exists>e \<in> set xs. lsb e (N - 1) = p then slot N xs p else slot N ys p)"
proof -
  have "find P (xs @ ys) = (case find P xs of None \<Rightarrow> find P ys | Some x \<Rightarrow> Some x)" for P
    by (induction xs) auto
  then show ?thesis
    by (auto simp: slot_def find_None_iff' split: option.splits dest: find_Some_prop)
qed

lemma slot_other:
  assumes "wf_node N p d n" and "length p = length q" and "p \<noteq> q"
  shows "slot N (node_elems n) (q @ s) = NULL_HASH"
  using wf_node_prefix [OF assms(1)] assms(2,3) by (intro slot_empty) fastforce

lemma slot_parent:
  assumes "wf_node N p d (Parent l r h dirty)"
  shows "slot N (node_elems (Parent l r h dirty)) ((p @ [b]) @ q) =
     slot N (node_elems (if b then r else l)) ((p @ [b]) @ q)"
proof -
  have wl: "wf_node N (p @ [False]) (d - 1) l" and wr: "wf_node N (p @ [True]) (d - 1) r"
    using assms by simp_all
  have nol: "lsb e (N - 1) \<noteq> (p @ [True]) @ q" if "e \<in> set (node_elems l)" for e q
    using wf_node_prefix [OF wl that] by auto
  have nor: "slot N (node_elems r) ((p @ [False]) @ q) = NULL_HASH" for q
    by (rule slot_other [OF wr]) auto
  show ?thesis
    using nol nor by (cases b) (auto simp: slot_append slot_empty)
qed

lemma full_hash_spec: "wf_node N p d n \<Longrightarrow> full_hash H n = smt_root H (slot N (node_elems n)) p d"
proof (induction N p d n rule: wf_node.induct)
  case (1 N p d e)
  then show ?case by (simp add: slot_def)
next
  case (2 N p d k)
  then show ?case by (simp add: smt_root_null slot_def)
next
  case (3 N p d l r h dirty)
  then have "1 < d" by simp
  then obtain k where d: "d = Suc (Suc k)" by (rule one_lessE)
  let ?f = "slot N (node_elems (Parent l r h dirty))"
  have "smt_root H (slot N (node_elems (if b then r else l))) (p @ [b]) (Suc k) =
      smt_root H ?f (p @ [b]) (Suc k)" for b
    using slot_parent [OF "3.prems", of b] by (intro smt_root_cong) simp_all
  from this [of False] this [of True] show ?case
    using "3.IH" "3.prems" by (simp add: d)
qed

section \<open>Sorted changes\<close>

text \<open>
  The changes that reach a node at path \<open>p\<close>: strictly sorted by their bits, which start with
  \<open>p\<close>. They apply when inserted elements find a free slot and removed elements are present.
\<close>

definition entries_ok :: "nat \<Rightarrow> bool list \<Rightarrow> change_entry list \<Rightarrow> bool" where
  "entries_ok N p es \<longleftrightarrow> sorted_wrt (<) (map snd es) \<and>
     (\<forall>x \<in> set es. snd x = lsb (snd (fst x)) (N - 1) \<and>
        (\<exists>q. snd x = p @ q \<and> Suc (length p + length q) = N))"

definition inserts_of :: "change_entry list \<Rightarrow> element set" where
  "inserts_of es = {e. (Insert, e) \<in> fst ` set es}"

definition removes_of :: "change_entry list \<Rightarrow> element set" where
  "removes_of es = {e. (Remove, e) \<in> fst ` set es}"

definition applicable :: "nat \<Rightarrow> node \<Rightarrow> change_entry list \<Rightarrow> bool" where
  "applicable N n es \<longleftrightarrow>
     (\<forall>e \<in> inserts_of es. e \<noteq> NULL_HASH \<and>
        (\<forall>e' \<in> set (node_elems n). lsb e' (N - 1) \<noteq> lsb e (N - 1))) \<and>
     removes_of es \<subseteq> set (node_elems n)"

lemma inserts_of_append: "inserts_of (xs @ ys) = inserts_of xs \<union> inserts_of ys"
  by (auto simp: inserts_of_def image_Un)

lemma removes_of_append: "removes_of (xs @ ys) = removes_of xs \<union> removes_of ys"
  by (auto simp: removes_of_def image_Un)

lemma changes_Nil [simp]: "inserts_of [] = {}" "removes_of [] = {}"
  by (simp_all add: inserts_of_def removes_of_def)

lemma bits_less_same_prefix: "p @ True # a < p @ b # c \<Longrightarrow> b"
  by (auto simp: list_less_def lexord_same_pref_iff)

lemma rights_start_takeWhile:
  "\<forall>x \<in> set es. pd < length (snd x) \<Longrightarrow>
   rights_start pd es = Ok (length (takeWhile (\<lambda>x. \<not> snd x ! pd) es))"
  by (induction es) auto

lemma entries_ok_split:
  assumes "entries_ok N p es" and "Suc (length p) < N"
  obtains ls rs where "es = ls @ rs" and "rights_start (length p) es = Ok (length ls)"
    and "entries_ok N (p @ [False]) ls" and "entries_ok N (p @ [True]) rs"
proof
  let ?P = "\<lambda>x :: change_entry. \<not> snd x ! length p"
  let ?ls = "takeWhile ?P es" and ?rs = "dropWhile ?P es"
  have shape: "\<exists>b q. snd x = p @ b # q \<and> Suc (Suc (length p + length q)) = N"
    if "x \<in> set es" for x
  proof -
    from assms(1) that obtain q where q: "snd x = p @ q" "Suc (length p + length q) = N"
      unfolding entries_ok_def by blast
    with assms(2) obtain b q' where "q = b # q'" by (cases q) auto
    with q show ?thesis by auto
  qed
  show "es = ?ls @ ?rs" by simp
  show "rights_start (length p) es = Ok (length ?ls)"
    using shape by (intro rights_start_takeWhile) fastforce
  have sorted: "sorted_wrt (<) (map snd ?ls)" "sorted_wrt (<) (map snd ?rs)"
    using assms(1) unfolding entries_ok_def
    by (metis map_append sorted_wrt_append takeWhile_dropWhile_id)+
  have "snd x = lsb (snd (fst x)) (N - 1)" if "x \<in> set es" for x
    using assms(1) that by (auto simp: entries_ok_def)
  moreover have "\<exists>q. snd x = (p @ [False]) @ q \<and> Suc (length (p @ [False]) + length q) = N"
    if "x \<in> set ?ls" for x
    using shape [of x] set_takeWhileD [OF that] by (auto simp: nth_append)
  ultimately show "entries_ok N (p @ [False]) ?ls"
    using sorted(1) by (simp add: entries_ok_def) (metis set_takeWhileD)
  have "\<exists>q. snd x = (p @ [True]) @ q \<and> Suc (length (p @ [True]) + length q) = N"
    if x: "x \<in> set ?rs" for x
  proof (cases ?rs)
    case (Cons y ys)
    have "y \<in> set es" using Cons by (metis list.set_intros(1) set_dropWhileD)
    moreover have "snd y ! length p"
      using hd_dropWhile [of ?P es] Cons by auto
    ultimately obtain q where y: "snd y = p @ True # q"
      using shape by (metis nth_append_length)
    obtain b q' where xb: "snd x = p @ b # q'" "Suc (Suc (length p + length q')) = N"
      using shape [OF set_dropWhileD [OF x]] by blast
    have "x = y \<or> snd y < snd x"
      using sorted(2) x by (auto simp: Cons)
    then have b
      using y xb bits_less_same_prefix [of p q b q'] by auto
    with xb show ?thesis by auto
  next
    case Nil
    with x show ?thesis by (simp only: list.set empty_iff)
  qed
  moreover have "snd x = lsb (snd (fst x)) (N - 1)" if "x \<in> set ?rs" for x
    using assms(1) set_dropWhileD [OF that] by (auto simp: entries_ok_def)
  ultimately show "entries_ok N (p @ [True]) ?rs"
    using sorted(2) unfolding entries_ok_def by blast
qed

text \<open>At the bottom of the tree at most one change is left.\<close>

lemma entries_ok_leaf:
  assumes "entries_ok N p es" and "Suc (length p) = N" and "es \<noteq> []"
  obtains c e where "es = [((c, e), p)]" and "lsb e (N - 1) = p"
proof (cases es)
  case (Cons x xs)
  have "snd y = p \<and> lsb (snd (fst y)) (N - 1) = p" if "y \<in> set es" for y
    using assms(1,2) that by (auto simp: entries_ok_def)
  moreover have "xs = []"
  proof (rule ccontr)
    assume "xs \<noteq> []"
    then obtain y ys where "xs = y # ys" by (cases xs) auto
    with assms(1) calculation show False
      by (auto simp: entries_ok_def Cons)
  qed
  ultimately show thesis
    using that [of "fst (fst x)" "snd (fst x)"] Cons by (cases x) auto
qed (use assms in simp)

lemma entries_ok_prefix:
  "entries_ok N p es \<Longrightarrow> e \<in> inserts_of es \<union> removes_of es \<Longrightarrow> \<exists>q. lsb e (N - 1) = p @ q"
  by (auto simp: entries_ok_def inserts_of_def removes_of_def)

lemma applicable_split:
  assumes "applicable N (Parent l r h dirty) (ls @ rs)"
    and "wf_node N (p @ [False]) d l" and "wf_node N (p @ [True]) d r"
    and "entries_ok N (p @ [False]) ls" and "entries_ok N (p @ [True]) rs"
  shows "applicable N l ls" and "applicable N r rs"
proof -
  have "set (node_elems r) \<inter> removes_of ls = {}"
    using entries_ok_prefix [OF assms(4)] wf_node_prefix [OF assms(3)] by fastforce
  moreover have "set (node_elems l) \<inter> removes_of rs = {}"
    using entries_ok_prefix [OF assms(5)] wf_node_prefix [OF assms(2)] by fastforce
  ultimately show "applicable N l ls" and "applicable N r rs"
    using assms(1) by (auto simp: applicable_def inserts_of_append removes_of_append)
qed


section \<open>Insertion, removal and pending hashes\<close>

text \<open>What applying \<open>es\<close> to \<open>n\<close> must give.\<close>

definition insert_result ::
    "(element \<Rightarrow> element \<Rightarrow> element) \<Rightarrow> nat \<Rightarrow> bool list \<Rightarrow> nat \<Rightarrow> node \<Rightarrow> change_entry list \<Rightarrow> node \<Rightarrow> bool"
where
  "insert_result H N p d n es n' \<longleftrightarrow>
     insert_node H N n es (length p) = (n', Ok True) \<and> wf_node N p d n' \<and> dirty_ok H n' \<and>
     set (node_elems n') = (set (node_elems n) \<union> inserts_of es) - removes_of es"

lemma insert_result_leaf:
  assumes "wf_node N p d (Leaf e)" and "length p + d = N"
    and "entries_ok N p es" and "applicable N (Leaf e) es" and "es \<noteq> []"
  shows "insert_result H N p d (Leaf e) es (Empty 1) \<and> es = [((Remove, e), p)]"
proof -
  from assms(1,2) have "Suc (length p) = N" by simp
  then obtain c e' where es: "es = [((c, e'), p)]" and "lsb e' (N - 1) = p"
    using entries_ok_leaf assms(3,5) by metis
  then have "c = Remove" "e' = e"
    using assms(1,4)
    by (cases c; auto simp: applicable_def inserts_of_def removes_of_def)+
  then show ?thesis
    using assms(1,2)
    by (auto simp: es insert_result_def removes_of_def inserts_of_def)
qed

lemma insert_result_empty1:
  assumes "Suc (length p) = N"
    and "entries_ok N p es" and "applicable N (Empty 1) es" and "es \<noteq> []"
  obtains e where "insert_result H N p 1 (Empty 1) es (Leaf e)" and "es = [((Insert, e), p)]"
proof -
  from assms obtain c e where es: "es = [((c, e), p)]" and e: "lsb e (N - 1) = p"
    using entries_ok_leaf by metis
  then have "c = Insert" "e \<noteq> NULL_HASH"
    using assms(3)
    by (cases c; auto simp: applicable_def inserts_of_def removes_of_def)+
  with e have "insert_result H N p 1 (Empty 1) es (Leaf e)"
    by (auto simp: es insert_result_def removes_of_def inserts_of_def)
  with \<open>c = Insert\<close> es that show thesis by blast
qed

text \<open>The \<open>Parent\<close> case, from the results for the halves that have changes.\<close>

lemma insert_result_parent:
  assumes wf: "wf_node N p d (Parent l r h False)" "length p + d = N"
    and cl: "clean H (Parent l r h False)"
    and es: "es = ls @ rs" "es \<noteq> []"
      "rights_start (length p) es = Ok (length ls)"
    and ok: "entries_ok N (p @ [False]) ls" "entries_ok N (p @ [True]) rs"
    and l': "if ls = [] then l' = l else insert_result H N (p @ [False]) (d - 1) l ls l'"
    and r': "if rs = [] then r' = r else insert_result H N (p @ [True]) (d - 1) r rs r'"
  shows "insert_result H N p d (Parent l r h False) es (Parent l' r' h True)"
proof -
  have ins: "insert_node H N l ls (Suc (length p)) = (l', Ok True)" if "ls \<noteq> []"
    using l' that by (simp add: insert_result_def)
  have ins': "insert_node H N r rs (Suc (length p)) = (r', Ok True)" if "rs \<noteq> []"
    using r' that by (simp add: insert_result_def)
  have "insert_node H N (Parent l r h False) es (length p) = (Parent l' r' h True, Ok True)"
    using es l' r' ins ins' by (auto simp: Let_def join_inserts_def)
  moreover have "wf_node N p d (Parent l' r' h True)"
    using wf l' r' by (auto simp: insert_result_def split: if_splits)
  moreover have "dirty_ok H (Parent l' r' h True)"
    using cl l' r' by (auto simp: insert_result_def clean_dirty_ok split: if_splits)
  moreover have "set (node_elems (Parent l' r' h True)) =
      (set (node_elems (Parent l r h False)) \<union> inserts_of es) - removes_of es"
  proof -
    have L: "\<exists>q. lsb e (N - 1) = (p @ [False]) @ q"
      if "e \<in> set (node_elems l) \<union> inserts_of ls \<union> removes_of ls" for e
      using entries_ok_prefix [OF ok(1), of e] wf_node_prefix [of N "p @ [False]" "d - 1" l e]
        wf(1) that by auto
    have R: "\<exists>q. lsb e (N - 1) = (p @ [True]) @ q"
      if "e \<in> set (node_elems r) \<union> inserts_of rs \<union> removes_of rs" for e
      using entries_ok_prefix [OF ok(2), of e] wf_node_prefix [of N "p @ [True]" "d - 1" r e]
        wf(1) that by auto
    have "e \<notin> removes_of rs" if "e \<in> set (node_elems l) \<union> inserts_of ls" for e
      using L [of e] R [of e] that by auto
    moreover have "e \<notin> removes_of ls" if "e \<in> set (node_elems r) \<union> inserts_of rs" for e
      using L [of e] R [of e] that by auto
    moreover have "set (node_elems l') = (set (node_elems l) \<union> inserts_of ls) - removes_of ls"
      and "set (node_elems r') = (set (node_elems r) \<union> inserts_of rs) - removes_of rs"
      using l' r' by (auto simp: insert_result_def split: if_splits)
    ultimately show ?thesis
      by (auto simp: es(1) inserts_of_append removes_of_append)
  qed
  ultimately show ?thesis by (simp add: insert_result_def)
qed

lemma clean_empty_split:
  "clean H (Parent (Empty (Suc d)) (Empty (Suc d)) (empty_hash H (Suc (Suc d))) False)"
  by simp

context hash_cache
begin

lemma hash_with_inner_none:
  assumes "wf_node N p d n" and "cinv c"
  shows "\<exists>c'. hash_with_inner N H chash n c [] pd = Ok (full_hash H n, c') \<and> cinv c'"
  using assms
proof (induction N p d n arbitrary: c pd rule: wf_node.induct)
  case (2 N p d k)
  then consider "k = Suc 0" | i where "k = Suc (Suc i)"
    by (metis One_nat_def Suc_lessI one_lessE wf_node.simps(2))
  then show ?case using 2 by cases auto
next
  case (3 N p d l r h dirty)
  obtain c1 where 1: "hash_with_inner N H chash l c [] (Suc pd) = Ok (full_hash H l, c1)" "cinv c1"
    using "3.IH"(1) [of c "Suc pd"] "3.prems" by auto
  obtain c2 where 2: "hash_with_inner N H chash r c1 [] (Suc pd) = Ok (full_hash H r, c2)" "cinv c2"
    using "3.IH"(2) [of c1 "Suc pd"] "3.prems" 1(2) by auto
  obtain c3 where "chash c2 (full_hash H l) (full_hash H r) = (H (full_hash H l) (full_hash H r), c3)"
    "cinv c3" using 2(2) by (rule chashE)
  with 1 2 show ?case by simp
qed simp

text \<open>The two recursive calls of an inner node, with the split the changes give.\<close>

lemma hash_with_inner_join:
  assumes "cinv c"
    and "\<And>c. cinv c \<Longrightarrow> \<exists>c'. hash_with_inner N H chash l c ls pd = Ok (a, c') \<and> cinv c'"
    and "\<And>c. cinv c \<Longrightarrow> \<exists>c'. hash_with_inner N H chash r c rs pd = Ok (b, c') \<and> cinv c'"
  shows "\<exists>c'. bind_o (hash_with_inner N H chash l c ls pd) (\<lambda>lc.
     bind_o (hash_with_inner N H chash r (snd lc) rs pd) (\<lambda>rc.
     Ok (chash (snd rc) (fst lc) (fst rc)))) = Ok (H a b, c') \<and> cinv c'"
proof -
  obtain c1 where 1: "hash_with_inner N H chash l c ls pd = Ok (a, c1)" "cinv c1"
    using assms(1,2) by blast
  obtain c2 where 2: "hash_with_inner N H chash r c1 rs pd = Ok (b, c2)" "cinv c2"
    using assms(3) 1(2) by blast
  obtain c3 where "chash c2 a b = (H a b, c3)" "cinv c3"
    using 2(2) by (rule chashE)
  with 1 2 show ?thesis by simp
qed

text \<open>
  Applying the changes gives the node \<open>n'\<close>; hashing with the changes pending gives the
  recomputed hash of \<open>n'\<close>. Both are shown by one induction over the shape of the node.
\<close>

definition goal :: "nat \<Rightarrow> bool list \<Rightarrow> nat \<Rightarrow> node \<Rightarrow> change_entry list \<Rightarrow> node \<Rightarrow> bool" where
  "goal N p d n es n' \<longleftrightarrow> insert_result H N p d n es n' \<and>
     (\<forall>c. cinv c \<longrightarrow> (\<exists>c'. hash_with_inner N H chash n c es (length p) =
        Ok (full_hash H n', c') \<and> cinv c'))"

lemma goal_parent:
  assumes wf: "wf_node N p d (Parent l r h False)" "length p + d = N"
    and cl: "clean H (Parent l r h False)"
    and ok: "entries_ok N p es" and app: "applicable N (Parent l r h False) es" and ne: "es \<noteq> []"
    and l: "\<And>es. entries_ok N (p @ [False]) es \<Longrightarrow> applicable N l es \<Longrightarrow> es \<noteq> [] \<Longrightarrow>
      \<exists>n'. goal N (p @ [False]) (d - 1) l es n'"
    and r: "\<And>es. entries_ok N (p @ [True]) es \<Longrightarrow> applicable N r es \<Longrightarrow> es \<noteq> [] \<Longrightarrow>
      \<exists>n'. goal N (p @ [True]) (d - 1) r es n'"
  shows "\<exists>n'. goal N p d (Parent l r h False) es n'"
proof -
  have "Suc (length p) < N" using wf by simp
  with ok obtain ls rs where es: "es = ls @ rs"
    and rs: "rights_start (length p) es = Ok (length ls)"
    and okl: "entries_ok N (p @ [False]) ls" and okr: "entries_ok N (p @ [True]) rs"
    by (rule entries_ok_split)
  have wl: "wf_node N (p @ [False]) (d - 1) l" and wr: "wf_node N (p @ [True]) (d - 1) r"
    using wf(1) by simp_all
  note appl = applicable_split [OF app [unfolded es] wl wr okl okr]
  obtain l' where l': "if ls = [] then l' = l else goal N (p @ [False]) (d - 1) l ls l'"
    using l [OF okl appl(1)] by (cases "ls = []") auto
  obtain r' where r': "if rs = [] then r' = r else goal N (p @ [True]) (d - 1) r rs r'"
    using r [OF okr appl(2)] by (cases "rs = []") auto
  have "insert_result H N p d (Parent l r h False) es (Parent l' r' h True)"
    using l' r'
    by (intro insert_result_parent [OF wf cl es ne rs okl okr]) (auto simp: goal_def split: if_splits)
  moreover have "\<exists>c'. hash_with_inner N H chash l c ls (Suc (length p)) =
      Ok (full_hash H l', c') \<and> cinv c'" if "cinv c" for c
    using l' that hash_with_inner_none [OF wl that] by (auto simp: goal_def split: if_splits)
  moreover have "\<exists>c'. hash_with_inner N H chash r c rs (Suc (length p)) =
      Ok (full_hash H r', c') \<and> cinv c'" if "cinv c" for c
    using r' that hash_with_inner_none [OF wr that] by (auto simp: goal_def split: if_splits)
  ultimately show ?thesis
    using hash_with_inner_join [of _ N l ls "Suc (length p)" "full_hash H l'" r rs "full_hash H r'"]
    by (intro exI [of _ "Parent l' r' h True"]) (auto simp: goal_def es rs [unfolded es])
qed

lemma goal_empty:
  "0 < d \<Longrightarrow> length p + d = N \<Longrightarrow> entries_ok N p es \<Longrightarrow> applicable N (Empty d) es \<Longrightarrow> es \<noteq> [] \<Longrightarrow>
   \<exists>n'. goal N p d (Empty d) es n'"
proof (induction d arbitrary: p es)
  case (Suc k)
  show ?case
  proof (cases k)
    case 0
    with Suc.prems obtain e where e: "insert_result H N p 1 (Empty 1) es (Leaf e)"
      and es: "es = [((Insert, e), p)]"
      using insert_result_empty1 [of p N es H] by auto
    then show ?thesis
      by (intro exI [of _ "Leaf e"]) (simp add: goal_def 0 es)
  next
    case (Suc i)
    let ?n = "Parent (Empty (Suc i)) (Empty (Suc i)) (empty_hash H (Suc (Suc i))) False"
    have half: "\<exists>n'. goal N (p @ [b]) (Suc i) (Empty (Suc i)) es n'"
      if "entries_ok N (p @ [b]) es" "applicable N (Empty (Suc i)) es" "es \<noteq> []" for b es
      using Suc.IH [of "p @ [b]" es] Suc.prems that Suc by simp
    have "\<exists>n'. goal N p (Suc k) ?n es n'"
    proof (rule goal_parent)
      show "applicable N ?n es"
        using Suc.prems(4) by (simp add: applicable_def)
    qed (use Suc.prems half Suc in simp_all)
    then obtain n' where "goal N p (Suc k) ?n es n'" ..
    then have "goal N p (Suc k) (Empty (Suc k)) es n'"
      using Suc.prems(5) by (simp add: goal_def insert_result_def Suc)
    then show ?thesis ..
  qed
qed simp

theorem insert_and_hash:
  assumes "wf_node N p d n" and "length p + d = N" and "clean H n"
    and "entries_ok N p es" and "applicable N n es" and "es \<noteq> []"
  shows "\<exists>n'. goal N p d n es n'"
  using assms
proof (induction n arbitrary: p d es)
  case (Leaf e)
  then have "insert_result H N p d (Leaf e) es (Empty 1)" "es = [((Remove, e), p)]"
    using insert_result_leaf [of N p d e es H] by auto
  then show ?case
    by (intro exI [of _ "Empty 1"]) (simp add: goal_def)
next
  case (Empty k)
  then show ?case using goal_empty by simp
next
  case (Parent l r h dirty)
  from Parent.prems(3) have [simp]: "dirty = False" by simp
  have "\<exists>n'. goal N (p @ [False]) (d - 1) l es n'"
    if "entries_ok N (p @ [False]) es" "applicable N l es" "es \<noteq> []" for es
    using Parent.IH(1) [of "p @ [False]" "d - 1" es] Parent.prems that by simp
  moreover have "\<exists>n'. goal N (p @ [True]) (d - 1) r es n'"
    if "entries_ok N (p @ [True]) es" "applicable N r es" "es \<noteq> []" for es
    using Parent.IH(2) [of "p @ [True]" "d - 1" es] Parent.prems that by simp
  ultimately show ?case
    using Parent.prems goal_parent [of N p d l r h es] by simp
qed

section \<open>Recalculation\<close>

text \<open>
  Recalculating a node whose clean parts are right gives a clean node with the same elements,
  and every event of a stored hash reports a hash that the merge function gives.
\<close>

fun event_ok :: "hash_event \<Rightarrow> bool" where
  "event_ok (HashSet l r h) \<longleftrightarrow> h = H l r"
| "event_ok (HashRemove l r) \<longleftrightarrow> True"

theorem recalculate_correct:
  assumes "wf_node N p d n" and "dirty_ok H n" and "cinv c"
  shows "\<exists>n' c' ev. recalculate_hashes H chash n c = Ok (n', c', ev) \<and> cinv c' \<and>
     wf_node N p d n' \<and> clean H n' \<and> node_elems n' = node_elems n \<and> list_all event_ok ev"
  using assms
proof (induction n arbitrary: p d c)
  case (Parent l r h dirty)
  show ?case
  proof (cases dirty)
    case False
    with Parent.prems show ?thesis by simp
  next
    case True
    have wl: "wf_node N (p @ [False]) (d - 1) l" and wr: "wf_node N (p @ [True]) (d - 1) r"
      using Parent.prems(1) by simp_all
    obtain l' c1 ev1 where l': "recalculate_hashes H chash l c = Ok (l', c1, ev1)" "cinv c1"
      "wf_node N (p @ [False]) (d - 1) l'" "clean H l'" "node_elems l' = node_elems l"
      "list_all event_ok ev1"
      using Parent.IH(1) [OF wl] Parent.prems True by fastforce
    obtain r' c2 ev2 where r': "recalculate_hashes H chash r c1 = Ok (r', c2, ev2)" "cinv c2"
      "wf_node N (p @ [True]) (d - 1) r'" "clean H r'" "node_elems r' = node_elems r"
      "list_all event_ok ev2"
      using Parent.IH(2) [OF wr] Parent.prems l'(2) True by fastforce
    obtain c3 where "chash c2 (stored_hash H l') (stored_hash H r') =
      (H (stored_hash H l') (stored_hash H r'), c3)" "cinv c3"
      using r'(2) by (rule chashE)
    then show ?thesis
      using True l' r' Parent.prems(1) wf_node_hash [OF wl] wf_node_hash [OF wr]
        wf_node_hash [OF l'(3)] wf_node_hash [OF r'(3)]
      by simp
  qed
qed simp_all

end

lemma known_hashes_valid:
  assumes "wf_node N p d n" and "clean H n"
  shows "\<exists>ks. known_hashes_inner H n hs = Ok (hs @ ks) \<and> list_all (kh_valid H) ks"
  using assms
proof (induction n arbitrary: p d hs)
  case (Parent l r h dirty)
  have wl: "wf_node N (p @ [False]) (d - 1) l" and wr: "wf_node N (p @ [True]) (d - 1) r"
    using Parent.prems(1) by simp_all
  let ?k = "\<lparr>kh_left = stored_hash H l, kh_right = stored_hash H r, kh_result = h\<rparr>"
  have k: "kh_valid H ?k"
    using Parent.prems(2) by (simp add: kh_valid_def)
  obtain ks where 1: "known_hashes_inner H l (hs @ [?k]) = Ok ((hs @ [?k]) @ ks)"
    "list_all (kh_valid H) ks"
    using Parent.IH(1) [OF wl] Parent.prems(2) by fastforce
  obtain ks' where 2: "known_hashes_inner H r ((hs @ [?k]) @ ks) = Ok (((hs @ [?k]) @ ks) @ ks')"
    "list_all (kh_valid H) ks'"
    using Parent.IH(2) [OF wr] Parent.prems(2) by fastforce
  show ?case
    using 1 2 k wf_node_hash [OF wl] wf_node_hash [OF wr] Parent.prems(2)
    by (intro exI [of _ "?k # ks @ ks'"]) simp
qed simp_all

end
