(* ===== verification/Smirk_Batch.thy ===== *)
theory Smirk_Batch
  imports Smirk_Node_Props
begin

text \<open>
  \<open>smirk/src/batch\<close>: a batch of elements to insert and to remove, which refuses two elements
  with the same \<open>DEPTH - 1\<close> least significant bits. The \<open>HashSet\<close> of bits is a list without
  duplicates; its iteration order, which the code does not fix, is the order of insertion.
\<close>

record 'v batch =
  b_entries :: "(element \<times> 'v) list"
  b_remove_entries :: "element list"
  b_lsbs :: "bool list list"

definition batch_new :: "'v batch" where
  "batch_new = \<lparr>b_entries = [], b_remove_entries = [], b_lsbs = []\<rparr>"

definition batch_is_empty :: "'v batch \<Rightarrow> bool" where
  "batch_is_empty b \<longleftrightarrow> b_entries b = [] \<and> b_remove_entries b = []"

definition insert_elements :: "'v batch \<Rightarrow> element list" where
  "insert_elements b = map fst (b_entries b)"

definition remove_elements :: "'v batch \<Rightarrow> element list" where
  "remove_elements b = b_remove_entries b"

definition find_element_with_lsb :: "nat \<Rightarrow> 'v batch \<Rightarrow> bool list \<Rightarrow> element option" where
  "find_element_with_lsb d b l =
     find (\<lambda>e. lsb e (d - 1) = l) (insert_elements b @ remove_elements b)"

definition batch_insert ::
    "nat \<Rightarrow> 'v batch \<Rightarrow> element \<Rightarrow> 'v \<Rightarrow> ('v batch, collision_error) outcome" where
  "batch_insert d b e v =
     (let l = lsb e (d - 1)
      in if l \<in> set (b_lsbs b)
         then (case find_element_with_lsb d b l of
                 Some x \<Rightarrow> Err [\<lparr>in_tree = x, inserted = e, col_depth = d,
                                      struct_name = Batch\<rparr>]
               | None \<Rightarrow> Panic)
         else Ok (b\<lparr>b_lsbs := b_lsbs b @ [l], b_entries := b_entries b @ [(e, v)]\<rparr>))"

definition batch_remove ::
    "nat \<Rightarrow> 'v batch \<Rightarrow> element \<Rightarrow> ('v batch, collision_error) outcome" where
  "batch_remove d b e =
     (let l = lsb e (d - 1)
      in if l \<in> set (b_lsbs b)
         then (case find_element_with_lsb d b l of
                 Some x \<Rightarrow> Err [\<lparr>in_tree = x, inserted = e, col_depth = d,
                                      struct_name = Batch\<rparr>]
               | None \<Rightarrow> Panic)
         else Ok (b\<lparr>b_lsbs := b_lsbs b @ [l], b_remove_entries := b_remove_entries b @ [e]\<rparr>))"

definition from_entries ::
    "nat \<Rightarrow> (element \<times> 'v) list \<Rightarrow> element list \<Rightarrow> ('v batch, collision_error) outcome" where
  "from_entries d entries remove_entries =
     bind_o (fold_o (\<lambda>b ev. batch_insert d b (fst ev) (snd ev)) batch_new entries)
       (\<lambda>b. fold_o (batch_remove d) b remove_entries)"

fun merge_collisions ::
    "nat \<Rightarrow> 'v batch \<Rightarrow> 'v batch \<Rightarrow> bool list list \<Rightarrow> (collision_error, collision_error) outcome" where
  "merge_collisions d b b' [] = Ok []"
| "merge_collisions d b b' (l # ls) =
     (case (find_element_with_lsb d b l, find_element_with_lsb d b' l) of
        (Some e, Some e') \<Rightarrow>
          bind_o (merge_collisions d b b' ls) (\<lambda>cs.
            Ok (\<lparr>in_tree = e, inserted = e', col_depth = d, struct_name = Batch\<rparr> # cs))
      | _ \<Rightarrow> Panic)"

definition batch_merge :: "nat \<Rightarrow> 'v batch \<Rightarrow> 'v batch \<Rightarrow> ('v batch, collision_error) outcome" where
  "batch_merge d b b' =
     (let colliding = filter (\<lambda>l. l \<in> set (b_lsbs b')) (b_lsbs b)
      in if length colliding \<noteq> 0
         then bind_o (merge_collisions d b b' colliding) Err
         else Ok (b\<lparr>b_entries := b_entries b @ b_entries b', b_lsbs := b_lsbs b @ b_lsbs b'\<rparr>))"

section \<open>Invariant\<close>

text \<open>The recorded bits are those of the elements, and no two elements share them.\<close>

definition batch_elements :: "'v batch \<Rightarrow> element list" where
  "batch_elements b = insert_elements b @ remove_elements b"

definition batch_inv :: "nat \<Rightarrow> 'v batch \<Rightarrow> bool" where
  "batch_inv d b \<longleftrightarrow>
     set (b_lsbs b) = (\<lambda>e. lsb e (d - 1)) ` set (batch_elements b) \<and>
     distinct (map (\<lambda>e. lsb e (d - 1)) (batch_elements b))"

lemma batch_inv_new [wf_intros]: "batch_inv d batch_new"
  by (simp add: batch_inv_def batch_new_def batch_elements_def insert_elements_def remove_elements_def)

lemma batch_inv_find:
  "batch_inv d b \<Longrightarrow> l \<in> set (b_lsbs b) \<Longrightarrow>
   \<exists>e. find_element_with_lsb d b l = Some e \<and> e \<in> set (batch_elements b) \<and> lsb e (d - 1) = l"
  using find_exists [of "batch_elements b" "\<lambda>e. lsb e (d - 1) = l"]
  by (auto simp: batch_inv_def find_element_with_lsb_def batch_elements_def [symmetric])

lemma batch_inv_no_panic:
  assumes "batch_inv d b"
  shows "batch_insert d b e v \<noteq> Panic" and "batch_remove d b e \<noteq> Panic"
  using batch_inv_find [OF assms, of "lsb e (d - 1)"]
  by (auto simp: batch_insert_def batch_remove_def Let_def)

lemma batch_inv_add:
  assumes "batch_inv d b" and "lsb e (d - 1) \<notin> set (b_lsbs b)"
    and "batch_elements b = xs @ ys" and "batch_elements b' = xs @ e # ys"
    and "b_lsbs b' = b_lsbs b @ [lsb e (d - 1)]"
  shows "batch_inv d b'"
  using assms by (auto simp: batch_inv_def)

lemma batch_inv_insert [wf_intros]:
  assumes "batch_inv d b" and "batch_insert d b e v = Ok b'"
  shows "batch_inv d b'"
proof (rule batch_inv_add [OF assms(1)])
  show "batch_elements b = insert_elements b @ remove_elements b"
    by (simp add: batch_elements_def)
qed (use assms(2) in \<open>auto simp: batch_insert_def batch_elements_def insert_elements_def
       remove_elements_def Let_def split: if_splits option.splits\<close>)

lemma batch_inv_remove [wf_intros]:
  assumes "batch_inv d b" and "batch_remove d b e = Ok b'"
  shows "batch_inv d b'"
proof (rule batch_inv_add [OF assms(1)])
  show "batch_elements b = batch_elements b @ []"
    by simp
qed (use assms(2) in \<open>auto simp: batch_remove_def batch_elements_def insert_elements_def
       remove_elements_def Let_def split: if_splits option.splits\<close>)

lemma batch_insert_Ok_iff:
  assumes "batch_inv d b"
  shows "(\<exists>b'. batch_insert d b e v = Ok b') \<longleftrightarrow>
     (\<forall>e' \<in> set (batch_elements b). lsb e' (d - 1) \<noteq> lsb e (d - 1))"
  using assms
  by (auto simp: batch_insert_def batch_inv_def Let_def image_iff split: option.splits)

lemma from_entries_inv: "from_entries d es rs = Ok b \<Longrightarrow> batch_inv d b"
  unfolding from_entries_def
  by (auto simp: bind_o_Ok_iff intro: wf_intros elim!: fold_o_invariant [where P = "batch_inv d"])

lemma fold_batch_insert_entries:
  "fold_o (\<lambda>b ev. batch_insert d b (fst ev) (snd ev)) b es = Ok b' \<Longrightarrow>
   b_entries b' = b_entries b @ es \<and> b_remove_entries b' = b_remove_entries b"
  by (induction es arbitrary: b)
     (fastforce simp: bind_o_Ok_iff batch_insert_def Let_def split: if_splits option.splits)+

lemma fold_batch_remove_entries:
  "fold_o (batch_remove d) b rs = Ok b' \<Longrightarrow>
   b_entries b' = b_entries b \<and> b_remove_entries b' = b_remove_entries b @ rs"
  by (induction rs arbitrary: b)
     (fastforce simp: bind_o_Ok_iff batch_remove_def Let_def split: if_splits option.splits)+

lemma from_entries_contents:
  "from_entries d es rs = Ok b \<Longrightarrow> b_entries b = es \<and> b_remove_entries b = rs"
  by (auto simp: from_entries_def bind_o_Ok_iff batch_new_def
      dest!: fold_batch_insert_entries fold_batch_remove_entries)

lemma batch_insert_new: "batch_insert d batch_new e v = Ok \<lparr>b_entries = [(e, v)], b_remove_entries = [], b_lsbs = [lsb e (d - 1)]\<rparr>"
  by (simp add: batch_insert_def batch_new_def Let_def)

lemma batch_remove_new: "batch_remove d batch_new e = Ok \<lparr>b_entries = [], b_remove_entries = [e], b_lsbs = [lsb e (d - 1)]\<rparr>"
  by (simp add: batch_remove_def batch_new_def Let_def)

end
