(* ===== verification/Smirk_Tree.thy ===== *)
theory Smirk_Tree
  imports Smirk_Batch "HOL-Library.Multiset"
begin

text \<open>
  \<open>smirk/src/tree\<close>: the sparse Merkle tree, its nodes and its entries updated together, batched
  insertion with the collision check, and the root hash. The build-time switch \<open>TEMP_NOIR\<close> is
  the argument \<open>temp_noir\<close>.
\<close>

section \<open>Trees\<close>

record ('v, 'c) smirk_tree =
  tr_node :: node
  tr_entries :: "(element, 'v) btree"
  tr_cache :: 'c

definition new_with_cache :: "nat \<Rightarrow> 'c \<Rightarrow> ('v, 'c) smirk_tree" where
  "new_with_cache d c = \<lparr>tr_node = Empty d, tr_entries = [], tr_cache = c\<rparr>"

definition tree_len :: "('v, 'c) smirk_tree \<Rightarrow> nat" where
  "tree_len t = length (tr_entries t)"

definition tree_is_empty :: "('v, 'c) smirk_tree \<Rightarrow> bool" where
  "tree_is_empty t \<longleftrightarrow> tr_entries t = []"

definition contains_element :: "('v, 'c) smirk_tree \<Rightarrow> element \<Rightarrow> bool" where
  "contains_element t e \<longleftrightarrow> bt_contains_key (tr_entries t) e"

definition tree_get :: "('v, 'c) smirk_tree \<Rightarrow> element \<Rightarrow> 'v option" where
  "tree_get t e = bt_get (tr_entries t) e"

definition tree_elements :: "('v, 'c) smirk_tree \<Rightarrow> element list" where
  "tree_elements t = bt_keys (tr_entries t)"

definition root_hash :: "(element \<Rightarrow> element \<Rightarrow> element) \<Rightarrow> ('v, 'c) smirk_tree \<Rightarrow> (element, collision) outcome"
where
  "root_hash H t = node_hash H (tr_node t)"

definition root_hash_with ::
    "nat \<Rightarrow> (element \<Rightarrow> element \<Rightarrow> element) \<Rightarrow> ('c \<Rightarrow> element \<Rightarrow> element \<Rightarrow> element \<times> 'c) \<Rightarrow>
     ('v, 'c) smirk_tree \<Rightarrow> element list \<Rightarrow> element list \<Rightarrow> (element \<times> 'c, collision) outcome" where
  "root_hash_with d H chash t ins rem = hash_with d H chash (tr_node t) (tr_cache t) ins rem"

definition tree_known_hashes ::
    "(element \<Rightarrow> element \<Rightarrow> element) \<Rightarrow> ('v, 'c) smirk_tree \<Rightarrow> (known_hash list, collision) outcome"
where
  "tree_known_hashes H t = known_hashes_inner H (tr_node t) []"

section \<open>Batched insertion\<close>

fun tree_collisions :: "nat \<Rightarrow> 'v batch \<Rightarrow> element list \<Rightarrow> (collision_error, collision_error) outcome" where
  "tree_collisions d b [] = Ok []"
| "tree_collisions d b (e # es) =
     (if lsb e (d - 1) \<in> (\<lambda>x. lsb x (d - 1)) ` set (insert_elements b)
      then (case find (\<lambda>x. lsb x (d - 1) = lsb e (d - 1)) (insert_elements b @ remove_elements b) of
              Some x \<Rightarrow> bind_o (tree_collisions d b es) (\<lambda>cs.
                Ok (\<lparr>in_tree = e, inserted = x, col_depth = d, struct_name = Tree\<rparr> # cs))
            | None \<Rightarrow> Panic)
      else tree_collisions d b es)"

fun removal_errors ::
    "bool \<Rightarrow> nat \<Rightarrow> bool list list \<Rightarrow> element list \<Rightarrow> (collision_error, collision_error) outcome" where
  "removal_errors temp_noir d tree_lsbs [] = Ok []"
| "removal_errors temp_noir d tree_lsbs (e # es) =
     (if lsb e (d - 1) \<notin> set tree_lsbs
      then if \<not> temp_noir then Panic
           else bind_o (removal_errors temp_noir d tree_lsbs es) (\<lambda>cs.
             Ok (\<lparr>in_tree = ZERO, inserted = e, col_depth = d, struct_name = Tree\<rparr> # cs))
      else removal_errors temp_noir d tree_lsbs es)"

definition check_collisions ::
    "bool \<Rightarrow> nat \<Rightarrow> ('v, 'c) smirk_tree \<Rightarrow> 'v batch \<Rightarrow> (unit, collision_error) outcome" where
  "check_collisions temp_noir d t b =
     bind_o (tree_collisions d b (tree_elements t)) (\<lambda>cs.
     bind_o (removal_errors temp_noir d (map (\<lambda>e. lsb e (d - 1)) (tree_elements t))
               (remdups (remove_elements b))) (\<lambda>cs'.
     if cs @ cs' \<noteq> [] then Err (cs @ cs') else Ok ()))"

text \<open>
  The only caller unwraps the result, so an \<open>Err\<close> stops the thread and the partly changed tree
  it leaves behind is not part of the result.
\<close>

definition insert_without_hashing ::
    "(element \<Rightarrow> element \<Rightarrow> element) \<Rightarrow> nat \<Rightarrow> ('v, 'c) smirk_tree \<Rightarrow> (element \<times> 'v) list \<Rightarrow> element list \<Rightarrow>
     (('v, 'c) smirk_tree, collision) outcome" where
  "insert_without_hashing H d t insert_entries remove_entries =
     (let insert_elements = map fst insert_entries
      in if insert_elements = [] \<and> remove_entries = [] then Ok t
         else if NULL_HASH \<in> set (insert_elements @ remove_entries) then
           Err \<lparr>in_tree = NULL_HASH, inserted = NULL_HASH, col_depth = d, struct_name = Tree\<rparr>
         else case find (bt_contains_key (tr_entries t)) insert_elements of
           Some e \<Rightarrow> Err \<lparr>in_tree = e, inserted = e, col_depth = d, struct_name = Tree\<rparr>
         | None \<Rightarrow>
             if \<exists>e \<in> set remove_entries. \<not> bt_contains_key (tr_entries t) e then Panic
             else case insert_node H d (tr_node t) (change_entries d insert_elements remove_entries) 0 of
               (n, Ok True) \<Rightarrow>
                 Ok (t\<lparr>tr_node := n,
                       tr_entries := fold bt_remove remove_entries
                         (fold (\<lambda>ev. bt_insert (fst ev) (snd ev)) insert_entries (tr_entries t))\<rparr>)
             | (n, Ok False) \<Rightarrow> Panic
             | (n, Err e) \<Rightarrow> Err e
             | (n, Panic) \<Rightarrow> Panic)"

definition insert_batch ::
    "bool \<Rightarrow> nat \<Rightarrow> (element \<Rightarrow> element \<Rightarrow> element) \<Rightarrow> ('c \<Rightarrow> element \<Rightarrow> element \<Rightarrow> element \<times> 'c) \<Rightarrow>
     ('v, 'c) smirk_tree \<Rightarrow> 'v batch \<Rightarrow> (('v, 'c) smirk_tree \<times> hash_event list, collision_error) outcome"
where
  "insert_batch temp_noir d H chash t b =
     bind_o (check_collisions temp_noir d t b) (\<lambda>_.
     bind_o (unwrap (insert_without_hashing H d t (b_entries b) (b_remove_entries b))) (\<lambda>t'.
     bind_o (unwrap (recalculate_hashes H chash (tr_node t') (tr_cache t'))) (\<lambda>(n, c, ev).
     Ok (t'\<lparr>tr_node := n, tr_cache := c\<rparr>, ev))))"

definition tree_insert ::
    "bool \<Rightarrow> nat \<Rightarrow> (element \<Rightarrow> element \<Rightarrow> element) \<Rightarrow> ('c \<Rightarrow> element \<Rightarrow> element \<Rightarrow> element \<times> 'c) \<Rightarrow>
     ('v, 'c) smirk_tree \<Rightarrow> element \<Rightarrow> 'v \<Rightarrow> (('v, 'c) smirk_tree, collision_error) outcome" where
  "tree_insert temp_noir d H chash t e v =
     bind_o (unwrap (batch_insert d batch_new e v)) (\<lambda>b.
     bind_o (insert_batch temp_noir d H chash t b) (\<lambda>(t', ev). Ok t'))"

definition tree_remove ::
    "bool \<Rightarrow> nat \<Rightarrow> (element \<Rightarrow> element \<Rightarrow> element) \<Rightarrow> ('c \<Rightarrow> element \<Rightarrow> element \<Rightarrow> element \<times> 'c) \<Rightarrow>
     ('v, 'c) smirk_tree \<Rightarrow> element \<Rightarrow> (('v, 'c) smirk_tree, collision_error) outcome" where
  "tree_remove temp_noir d H chash t e =
     bind_o (batch_remove d batch_new e) (\<lambda>b.
     bind_o (insert_batch temp_noir d H chash t b) (\<lambda>(t', ev). Ok t'))"

section \<open>Invariant\<close>

definition valid_depth :: "nat \<Rightarrow> bool" where
  "valid_depth d \<longleftrightarrow> 1 \<le> d \<and> d \<le> 257"

definition tree_inv ::
    "(element \<Rightarrow> element \<Rightarrow> element) \<Rightarrow> ('c \<Rightarrow> bool) \<Rightarrow> nat \<Rightarrow> ('v, 'c) smirk_tree \<Rightarrow> bool" where
  "tree_inv H cinv d t \<longleftrightarrow> valid_depth d \<and> wf_node d [] d (tr_node t) \<and> clean H (tr_node t) \<and>
     set (node_elems (tr_node t)) = set (tree_elements t) \<and> bt_inv (tr_entries t) \<and>
     cinv (tr_cache t)"

text \<open>A batch fits a tree: no null element, free slots for insertions, removals present.\<close>

definition batch_fits :: "nat \<Rightarrow> ('v, 'c) smirk_tree \<Rightarrow> 'w batch \<Rightarrow> bool" where
  "batch_fits d t b \<longleftrightarrow>
     NULL_HASH \<notin> set (batch_elements b) \<and>
     (\<forall>e \<in> set (insert_elements b). \<forall>e' \<in> set (tree_elements t). \<not> collides_with d e' e) \<and>
     set (remove_elements b) \<subseteq> set (tree_elements t)"

lemma tree_inv_new [wf_intros]: "valid_depth d \<Longrightarrow> cinv c \<Longrightarrow> tree_inv H cinv d (new_with_cache d c)"
  by (simp add: tree_inv_def new_with_cache_def tree_elements_def valid_depth_def)

lemma root_hash_spec:
  assumes "tree_inv H cinv d t"
  shows "root_hash H t = Ok (smt_root H (slot d (tree_elements t)) [] d)"
proof -
  have wf: "wf_node d [] d (tr_node t)" and cl: "clean H (tr_node t)"
    using assms by (simp_all add: tree_inv_def)
  have "root_hash H t = Ok (full_hash H (tr_node t))"
    using wf_node_hash [OF wf] clean_stored_hash [OF cl] by (simp add: root_hash_def)
  also have "full_hash H (tr_node t) = smt_root H (slot d (node_elems (tr_node t))) [] d"
    by (rule full_hash_spec [OF wf])
  also have "slot d (node_elems (tr_node t)) = slot d (tree_elements t)"
    using slot_set_cong [OF wf_node_distinct [OF wf], of "tree_elements t"] assms
    by (auto simp: tree_inv_def)
  finally show ?thesis .
qed

lemma tree_inv_sorted:
  assumes "tree_inv H cinv d t"
  shows "sorted (tree_elements t)" and "distinct (tree_elements t)"
  using assms by (simp_all add: tree_inv_def bt_inv_def strict_sorted_iff tree_elements_def)

lemma root_hash_same_elements:
  assumes "tree_inv H cinv d t" and "tree_inv H cinv' d t'"
    and "set (tree_elements t) = set (tree_elements t')"
  shows "root_hash H t = root_hash H t'"
  using root_hash_spec [OF assms(1)] root_hash_spec [OF assms(2)]
    sorted_distinct_set_unique [OF tree_inv_sorted [OF assms(1)] tree_inv_sorted [OF assms(2)] assms(3)]
  by simp

lemma tree_inv_not_null: "tree_inv H cinv d t \<Longrightarrow> NULL_HASH \<notin> set (tree_elements t)"
  using wf_node_not_null [of d "[]" d "tr_node t"] by (auto simp: tree_inv_def)

lemma tree_inv_slots: "tree_inv H cinv d t \<Longrightarrow> slots_distinct d (set (tree_elements t))"
  using wf_node_distinct [of d "[]" d "tr_node t"] by (simp add: tree_inv_def)

lemma tree_collisions_none:
  "(\<forall>e \<in> set (insert_elements b). \<forall>e' \<in> set es. lsb e' (d - 1) \<noteq> lsb e (d - 1)) \<Longrightarrow>
   tree_collisions d b es = Ok []"
  by (induction es) (auto simp: image_iff)

lemma removal_errors_none:
  "(\<forall>e \<in> set es. lsb e (d - 1) \<in> set ls) \<Longrightarrow> removal_errors tn d ls es = Ok []"
  by (induction es) auto

lemma batch_fits_check: "batch_fits d t b \<Longrightarrow> check_collisions tn d t b = Ok ()"
  by (auto simp: check_collisions_def batch_fits_def collides_with_def
      tree_collisions_none removal_errors_none subset_iff)

subsection \<open>The sorted changes of a batch\<close>

lemma change_entries_sets:
  "inserts_of (change_entries d ins rem) = set ins" "removes_of (change_entries d ins rem) = set rem"
  by (auto simp: change_entries_def inserts_of_def removes_of_def image_Un image_image)

lemma change_entries_Nil_iff: "change_entries d ins rem = [] \<longleftrightarrow> ins = [] \<and> rem = []"
proof -
  have "length (change_entries d ins rem) = length ins + length rem"
    by (simp add: change_entries_def)
  then show ?thesis by (metis add_is_0 length_0_conv)
qed

lemma change_entries_ok:
  assumes "valid_depth d" and "distinct (map (\<lambda>e. lsb e (d - 1)) (ins @ rem))"
  shows "entries_ok d [] (change_entries d ins rem)"
proof -
  let ?xs = "map (\<lambda>e. ((Insert, e), lsb e (d - 1))) ins @ map (\<lambda>e. ((Remove, e), lsb e (d - 1))) rem"
  have "distinct (map snd (change_entries d ins rem)) = distinct (map snd ?xs)"
    unfolding change_entries_def
    by (rule mset_eq_imp_distinct_iff) (simp only: mset_map mset_sort)
  also have "\<dots>" using assms(2) by (simp add: comp_def)
  finally have "sorted_wrt (<) (map snd (change_entries d ins rem))"
    by (simp add: strict_sorted_iff change_entries_def)
  moreover have "snd x = lsb (snd (fst x)) (d - 1) \<and> Suc (length (snd x)) = d"
    if "x \<in> set (change_entries d ins rem)" for x
    using that assms(1) by (auto simp: change_entries_def valid_depth_def)
  ultimately show ?thesis
    unfolding entries_ok_def by auto
qed


subsection \<open>Batched insertion\<close>

context hash_cache
begin

lemma insert_without_hashing_ok:
  assumes inv: "tree_inv H cinv d t" and b: "batch_inv d b" and fits: "batch_fits d t b"
    and ne: "\<not> batch_is_empty b"
  shows "\<exists>n'. goal d [] d (tr_node t) (change_entries d (insert_elements b) (remove_elements b)) n' \<and>
     insert_without_hashing H d t (b_entries b) (b_remove_entries b) =
       Ok (t\<lparr>tr_node := n',
             tr_entries := fold bt_remove (b_remove_entries b)
               (fold (\<lambda>ev. bt_insert (fst ev) (snd ev)) (b_entries b) (tr_entries t))\<rparr>)"
proof -
  let ?es = "change_entries d (insert_elements b) (remove_elements b)"
  have elems: "set (node_elems (tr_node t)) = set (tree_elements t)"
    using inv by (simp add: tree_inv_def)
  have "entries_ok d [] ?es"
    using inv b by (intro change_entries_ok) (simp_all add: tree_inv_def batch_inv_def batch_elements_def)
  moreover have "applicable d (tr_node t) ?es"
    using fits elems
    by (auto simp: applicable_def change_entries_sets batch_fits_def collides_with_def batch_elements_def)
  moreover have "?es \<noteq> []"
    using ne by (simp add: change_entries_Nil_iff batch_is_empty_def insert_elements_def remove_elements_def)
  ultimately obtain n' where n': "goal d [] d (tr_node t) ?es n'"
    using insert_and_hash [of d "[]" d "tr_node t" ?es] inv by (auto simp: tree_inv_def)
  have keys: "bt_contains_key (tr_entries t) e \<longleftrightarrow> e \<in> set (tree_elements t)" for e
    by (simp only: bt_contains_key_def tree_elements_def)
  have free: "e \<notin> set (tree_elements t)" if "e \<in> fst ` set (b_entries b)" for e
    using fits that by (auto simp: batch_fits_def collides_with_def insert_elements_def)
  then have none: "find (bt_contains_key (tr_entries t)) (map fst (b_entries b)) = None"
    by (auto simp only: find_None_iff' keys set_map)
  have "insert_without_hashing H d t (b_entries b) (b_remove_entries b) =
       Ok (t\<lparr>tr_node := n',
             tr_entries := fold bt_remove (b_remove_entries b)
               (fold (\<lambda>ev. bt_insert (fst ev) (snd ev)) (b_entries b) (tr_entries t))\<rparr>)"
    using ne fits n'
    by (auto simp: insert_without_hashing_def Let_def none keys batch_fits_def batch_elements_def
        insert_elements_def remove_elements_def batch_is_empty_def goal_def insert_result_def
        simp del: bt_contains_key_iff)
  with n' show ?thesis by blast
qed

lemma tree_elements_update:
  assumes "bt_inv m"
  shows "set (bt_keys (fold bt_remove rs (fold (\<lambda>ev. bt_insert (fst ev) (snd ev)) es m))) =
     (set (bt_keys m) \<union> fst ` set es) - set rs"
  using assms
  by (simp add: btree.keys_lookup btree.lookup_fold_remove btree.lookup_fold_insert
      btree.inv_fold_insert btree.inv_fold_remove dom_restrict dom_map_of_conv_image_fst)
     auto

theorem insert_batch_ok:
  assumes inv: "tree_inv H cinv d t" and b: "batch_inv d b" and fits: "batch_fits d t b"
  shows "\<exists>t' ev. insert_batch tn d H chash t b = Ok (t', ev) \<and> tree_inv H cinv d t' \<and>
     tree_get t' = (tree_get t ++ map_of (rev (b_entries b))) |` (- set (b_remove_entries b)) \<and>
     list_all event_ok ev \<and>
     (\<exists>r c'. root_hash H t' = Ok r \<and>
        root_hash_with d H chash t (insert_elements b) (remove_elements b) = Ok (r, c') \<and> cinv c')"
proof (cases "batch_is_empty b")
  case True
  then have e: "b_entries b = []" "b_remove_entries b = []" by (simp_all add: batch_is_empty_def)
  have wf: "wf_node d [] d (tr_node t)" and cl: "clean H (tr_node t)" and c: "cinv (tr_cache t)"
    using inv by (simp_all add: tree_inv_def)
  have "recalculate_hashes H chash (tr_node t) (tr_cache t) = Ok (tr_node t, tr_cache t, [])"
    using cl by (cases "tr_node t") auto
  then have "insert_batch tn d H chash t b = Ok (t, [])"
    by (simp add: insert_batch_def batch_fits_check [OF fits] insert_without_hashing_def e)
  moreover have "root_hash H t = Ok (full_hash H (tr_node t))"
    using wf_node_hash [OF wf] clean_stored_hash [OF cl] by (simp add: root_hash_def)
  moreover have "change_entries d [] [] = []" by (simp add: change_entries_Nil_iff)
  ultimately show ?thesis
    using hash_with_inner_none [OF wf c, of 0] inv
    by (auto simp: root_hash_with_def hash_with_def insert_elements_def remove_elements_def e
        restrict_map_def)
next
  case False
  let ?es = "change_entries d (insert_elements b) (remove_elements b)"
  let ?m = "fold bt_remove (b_remove_entries b)
    (fold (\<lambda>ev. bt_insert (fst ev) (snd ev)) (b_entries b) (tr_entries t))"
  obtain n' where g: "goal d [] d (tr_node t) ?es n'"
    and ins: "insert_without_hashing H d t (b_entries b) (b_remove_entries b) =
      Ok (t\<lparr>tr_node := n', tr_entries := ?m\<rparr>)"
    using insert_without_hashing_ok [OF inv b fits False] by blast
  have c: "cinv (tr_cache t)" and m: "bt_inv (tr_entries t)"
    and el: "set (node_elems (tr_node t)) = set (tree_elements t)" and v: "valid_depth d"
    using inv by (simp_all add: tree_inv_def)
  have n': "wf_node d [] d n'" "dirty_ok H n'"
    "set (node_elems n') = (set (tree_elements t) \<union> set (insert_elements b)) - set (remove_elements b)"
    using g el by (simp_all add: goal_def insert_result_def change_entries_sets)
  obtain n'' c' ev where rc: "recalculate_hashes H chash n' (tr_cache t) = Ok (n'', c', ev)" "cinv c'"
    "wf_node d [] d n''" "clean H n''" "node_elems n'' = node_elems n'" "list_all event_ok ev"
    using recalculate_correct [OF n'(1,2) c] by blast
  let ?t = "t\<lparr>tr_node := n'', tr_entries := ?m, tr_cache := c'\<rparr>"
  have "insert_batch tn d H chash t b = Ok (?t, ev)"
    by (simp add: insert_batch_def batch_fits_check [OF fits] ins rc)
  moreover have "tree_inv H cinv d ?t"
    using rc n'(3) v m
    by (simp add: tree_inv_def tree_elements_def tree_elements_update insert_elements_def
        remove_elements_def btree.inv_fold_insert btree.inv_fold_remove)
  moreover have "tree_get ?t = (tree_get t ++ map_of (rev (b_entries b))) |` (- set (b_remove_entries b))"
    using m by (simp add: tree_get_def [abs_def] btree.lookup_fold_remove btree.lookup_fold_insert
        btree.inv_fold_insert)
  moreover have "root_hash H ?t = Ok (full_hash H n')"
  proof -
    have "full_hash H n'' = full_hash H n'"
      using full_hash_spec [OF rc(3)] full_hash_spec [OF n'(1)] rc(5) by simp
    then show ?thesis
      using wf_node_hash [OF rc(3)] clean_stored_hash [OF rc(4)] by (simp add: root_hash_def)
  qed
  ultimately show ?thesis
    using g c rc(6) by (fastforce simp: root_hash_with_def hash_with_def goal_def)
qed

text \<open>Single insertion and removal.\<close>

lemma tree_insert_ok:
  assumes inv: "tree_inv H cinv d t" and "e \<noteq> NULL_HASH"
    and "\<forall>e' \<in> set (tree_elements t). \<not> collides_with d e' e"
  shows "\<exists>t'. tree_insert tn d H chash t e v = Ok t' \<and> tree_inv H cinv d t' \<and>
     tree_get t' = (tree_get t)(e \<mapsto> v)"
proof -
  let ?b = "\<lparr>b_entries = [(e, v)], b_remove_entries = [], b_lsbs = [lsb e (d - 1)]\<rparr>"
  have b: "batch_inv d ?b" and f: "batch_fits d t ?b"
    using assms by (simp_all add: batch_inv_def batch_fits_def batch_elements_def insert_elements_def
        remove_elements_def)
  from insert_batch_ok [OF inv b f, of tn] show ?thesis
    by (auto simp: tree_insert_def batch_insert_new restrict_map_def fun_eq_iff)
qed

lemma tree_remove_ok:
  assumes inv: "tree_inv H cinv d t" and mem: "e \<in> set (tree_elements t)"
  shows "\<exists>t'. tree_remove tn d H chash t e = Ok t' \<and> tree_inv H cinv d t' \<and>
     tree_get t' = (tree_get t)(e := None)"
proof -
  let ?b = "\<lparr>b_entries = [] :: (element \<times> 'a) list, b_remove_entries = [e], b_lsbs = [lsb e (d - 1)]\<rparr>"
  have "e \<noteq> NULL_HASH"
    using inv mem wf_node_prefix [of d "[]" d "tr_node t" e] by (simp add: tree_inv_def)
  with assms have b: "batch_inv d ?b" and f: "batch_fits d t ?b"
    by (simp_all add: batch_inv_def batch_fits_def batch_elements_def insert_elements_def
        remove_elements_def)
  from insert_batch_ok [OF inv b f, of tn] show ?thesis
    by (auto simp: tree_remove_def batch_remove_new restrict_map_def fun_eq_iff)
qed

end

section \<open>Refusals\<close>

text \<open>The reported collisions are exactly the elements of the tree whose slot is taken.\<close>

lemma tree_collisions_spec:
  assumes "batch_inv d b"
  shows "\<exists>cs. tree_collisions d b es = Ok cs \<and>
     map in_tree cs = filter (\<lambda>e. \<exists>x \<in> set (insert_elements b). collides_with d e x) es \<and>
     (\<forall>c \<in> set cs. inserted c \<in> set (insert_elements b) \<and> collides_with d (in_tree c) (inserted c) \<and>
        col_depth c = d \<and> struct_name c = Tree)"
proof (induction es)
  case (Cons e es)
  then obtain cs where cs: "tree_collisions d b es = Ok cs"
    "map in_tree cs = filter (\<lambda>e. \<exists>x \<in> set (insert_elements b). collides_with d e x) es"
    "\<forall>c \<in> set cs. inserted c \<in> set (insert_elements b) \<and> collides_with d (in_tree c) (inserted c) \<and>
        col_depth c = d \<and> struct_name c = Tree"
    by blast
  show ?case
  proof (cases "\<exists>x \<in> set (insert_elements b). collides_with d e x")
    case True
    then obtain x where x: "x \<in> set (insert_elements b)" "lsb x (d - 1) = lsb e (d - 1)"
      by (auto simp: collides_with_def)
    have inj: "inj_on (\<lambda>e. lsb e (d - 1)) (set (insert_elements b @ remove_elements b))"
      using assms by (simp only: batch_inv_def batch_elements_def distinct_map)
    have "y = x" if "y \<in> set (insert_elements b @ remove_elements b)" "lsb y (d - 1) = lsb e (d - 1)" for y
      by (rule inj_onD [OF inj]) (use x that in simp_all)
    then have "find (\<lambda>x. lsb x (d - 1) = lsb e (d - 1)) (insert_elements b @ remove_elements b) = Some x"
      using x by (intro find_unique) auto
    with True x cs show ?thesis
      by (auto simp: collides_with_def image_iff)
  next
    case False
    with cs show ?thesis
      by (auto simp: collides_with_def image_iff)
  qed
qed simp

lemma check_collisions_Err:
  assumes "batch_inv d b" and "set (remove_elements b) \<subseteq> set (tree_elements t)"
    and "e \<in> set (tree_elements t)" and "x \<in> set (insert_elements b)" and "collides_with d e x"
  shows "\<exists>cs. check_collisions tn d t b = Err cs \<and> e \<in> in_tree ` set cs"
proof -
  obtain cs where cs: "tree_collisions d b (tree_elements t) = Ok cs"
    "map in_tree cs = filter (\<lambda>e. \<exists>x \<in> set (insert_elements b). collides_with d e x) (tree_elements t)"
    using tree_collisions_spec [OF assms(1)] by blast
  have "e \<in> set (map in_tree cs)"
    using assms(3-5) unfolding cs(2) by auto
  moreover have "removal_errors tn d (map (\<lambda>e. lsb e (d - 1)) (tree_elements t))
      (remdups (remove_elements b)) = Ok []"
    using assms(2) by (intro removal_errors_none) auto
  ultimately show ?thesis
    using cs(1) by (auto simp: check_collisions_def)
qed

end
