(* ===== verification/Smirk_Path.thy ===== *)
theory Smirk_Path
  imports Smirk_Tree
begin

text \<open>
  \<open>smirk/src/tree/path.rs\<close> and the insertion with paths of \<open>insert.rs\<close>: Merkle paths of a
  tree, the root a path computes for a leaf, and paths that link the root before an insertion
  to the root after it.
\<close>

record path =
  siblings :: "element list"
  path_element :: element
  actual_root_hash :: element

definition compute_root_hash :: "(element \<Rightarrow> element \<Rightarrow> element) \<Rightarrow> path \<Rightarrow> element \<Rightarrow> element" where
  "compute_root_hash H p e = compute_merkle_root H e (path_element p) (siblings p)"

definition proves :: "(element \<Rightarrow> element \<Rightarrow> element) \<Rightarrow> path \<Rightarrow> element \<Rightarrow> bool" where
  "proves H p e \<longleftrightarrow> compute_root_hash H p e = actual_root_hash p"

definition path_lsb :: "path \<Rightarrow> bool list" where
  "path_lsb p = lsb (path_element p) (length (siblings p))"

definition set_sibling :: "element list \<Rightarrow> nat \<Rightarrow> element \<Rightarrow> (element list, collision) outcome" where
  "set_sibling sibs i h = (if i < length sibs then Ok (sibs[i := h]) else Panic)"

text \<open>\<open>for (i, depth) in (1..*depth).rev().enumerate()\<close>\<close>

definition fill_empty ::
    "(element \<Rightarrow> element \<Rightarrow> element) \<Rightarrow> nat \<Rightarrow> nat \<Rightarrow> element list \<Rightarrow> (element list, collision) outcome" where
  "fill_empty H depth index sibs =
     fold_o (\<lambda>sibs (i, depth). bind_o (node_hash H (Empty depth)) (set_sibling sibs (index + i)))
       sibs (enumerate 0 (rev [1..<depth]))"

fun path_loop ::
    "(element \<Rightarrow> element \<Rightarrow> element) \<Rightarrow> node \<Rightarrow> bool list \<Rightarrow> nat \<Rightarrow> element list \<Rightarrow>
     (element list, collision) outcome" where
  "path_loop H n [] index sibs = Ok sibs"
| "path_loop H (Parent l r h dirty) (b # bs) index sibs =
     bind_o (node_hash H (if b then l else r)) (\<lambda>s.
     bind_o (set_sibling sibs index s) (\<lambda>sibs'.
     path_loop H (if b then r else l) bs (index + 1) sibs'))"
| "path_loop H (Empty depth) (b # bs) index sibs = fill_empty H depth index sibs"
| "path_loop H (Leaf e) (b # bs) index sibs = Panic"

definition path_for ::
    "nat \<Rightarrow> (element \<Rightarrow> element \<Rightarrow> element) \<Rightarrow> ('v, 'c) smirk_tree \<Rightarrow> element \<Rightarrow> (path, collision) outcome" where
  "path_for d H t e =
     bind_o (path_loop H (tr_node t) (lsb e (d - 1)) 0 (replicate (d - 1) NULL_HASH)) (\<lambda>sibs.
     bind_o (root_hash H t) (\<lambda>r.
     Ok \<lparr>siblings = rev sibs, path_element = e, actual_root_hash = r\<rparr>))"

fun insert_with_paths ::
    "bool \<Rightarrow> nat \<Rightarrow> (element \<Rightarrow> element \<Rightarrow> element) \<Rightarrow> ('c \<Rightarrow> element \<Rightarrow> element \<Rightarrow> element \<times> 'c) \<Rightarrow>
     ('v, 'c) smirk_tree \<Rightarrow> (element \<times> 'v) list \<Rightarrow> path list \<Rightarrow>
     ('v, 'c) smirk_tree \<times> (path list, collision_error) outcome" where
  "insert_with_paths tn d H chash t [] result = (t, Ok result)"
| "insert_with_paths tn d H chash t (ev # evs) result =
     (case tree_insert tn d H chash t (fst ev) (snd ev) of
        Ok t' \<Rightarrow>
          (case path_for d H t' (fst ev) of
             Ok p \<Rightarrow> insert_with_paths tn d H chash t' evs (result @ [p])
           | _ \<Rightarrow> (t', Panic))
      | Err e \<Rightarrow> (t, Err e)
      | Panic \<Rightarrow> (t, Panic))"

section \<open>The siblings of a slot\<close>

fun sibling_roots ::
    "(element \<Rightarrow> element \<Rightarrow> element) \<Rightarrow> (bool list \<Rightarrow> element) \<Rightarrow> bool list \<Rightarrow> bool list \<Rightarrow> element list" where
  "sibling_roots H f p [] = []"
| "sibling_roots H f p (b # bs) =
     smt_root H f (p @ [\<not> b]) (Suc (length bs)) # sibling_roots H f (p @ [b]) bs"

lemma length_sibling_roots [simp]: "length (sibling_roots H f p bs) = length bs"
  by (induction bs arbitrary: p) auto

lemma sibling_roots_cong:
  "(\<And>q. length q = length bs \<Longrightarrow> f (p @ q) = g (p @ q)) \<Longrightarrow>
   sibling_roots H f p bs = sibling_roots H g p bs"
proof (induction bs arbitrary: p)
  case (Cons b bs)
  have h: "f ((p @ [c]) @ q) = g ((p @ [c]) @ q)" if "length q = length bs" for c q
    using Cons.prems [of "c # q"] that by simp
  show ?case
    using Cons.IH [of "p @ [b]"] h by (auto intro!: smt_root_cong)
qed simp

lemma sibling_roots_null:
  "(\<And>q. length q = length bs \<Longrightarrow> f (p @ q) = NULL_HASH) \<Longrightarrow>
   sibling_roots H f p bs = map (empty_hash H) (rev [1..<Suc (length bs)])"
proof (induction bs arbitrary: p)
  case (Cons b bs)
  have h: "f ((p @ [c]) @ q) = NULL_HASH" if "length q = length bs" for c q
    using Cons.prems [of "c # q"] that by simp
  then have "smt_root H f (p @ [\<not> b]) (Suc (length bs)) = empty_hash H (Suc (length bs))"
    by (intro smt_root_null) auto
  with Cons.IH [of "p @ [b]"] h show ?case by simp
qed simp

text \<open>Hashing a leaf upwards over the siblings of its slot gives the root with that leaf.\<close>

lemma merkle_root_update:
  "compute_merkle_root_from_iter H x (rev (zip (sibling_roots H f p bs) bs)) =
   smt_root H (f(p @ bs := x)) p (Suc (length bs))"
proof (induction bs arbitrary: p)
  case (Cons b bs)
  define g where "g = f(p @ b # bs := x)"
  have "smt_root H g (p @ [\<not> b]) (Suc (length bs)) = smt_root H f (p @ [\<not> b]) (Suc (length bs))"
    by (rule smt_root_cong) (auto simp: g_def)
  moreover have "compute_merkle_root_from_iter H x (rev (zip (sibling_roots H f (p @ [b]) bs) bs)) =
      smt_root H g (p @ [b]) (Suc (length bs))"
    using Cons [of "p @ [b]"] by (simp only: g_def append_assoc append_Cons append_Nil)
  ultimately show ?case
    unfolding g_def [symmetric] by (cases b) (simp_all add: merkle_iter_append)
qed simp

section \<open>Paths of a tree\<close>

lemma fold_set_siblings:
  assumes "index + length ds \<le> length sibs" and "\<forall>x \<in> set ds. 0 < x"
  shows "fold_o (\<lambda>sibs (i, depth). bind_o (node_hash H (Empty depth)) (set_sibling sibs (index + i)))
       sibs (enumerate k ds) =
     (if index + k + length ds \<le> length sibs
      then Ok (take (index + k) sibs @ map (empty_hash H) ds @ drop (index + k + length ds) sibs)
      else fold_o (\<lambda>sibs (i, depth). bind_o (node_hash H (Empty depth)) (set_sibling sibs (index + i)))
       sibs (enumerate k ds))"
  using assms
proof (induction ds arbitrary: k sibs)
  case (Cons x ds)
  show ?case
  proof (cases "index + k + length (x # ds) \<le> length sibs")
    case True
    then show ?thesis
      using Cons.IH [of "sibs[index + k := empty_hash H x]" "Suc k"] Cons.prems
      by (simp add: set_sibling_def empty_tree_hash_pos take_Suc_conv_app_nth)
  next
    case False
    then show ?thesis by simp
  qed
qed simp

lemma fill_empty_ok:
  assumes "length sibs = index + k"
  shows "fill_empty H (Suc k) index sibs = Ok (take index sibs @ map (empty_hash H) (rev [1..<Suc k]))"
  using fold_set_siblings [of index "rev [1..<Suc k]" sibs H 0] assms
  by (auto simp: fill_empty_def)

lemma path_loop_ok:
  assumes "wf_node N p d n" and "clean H n" and "Suc (length bs) = d"
    and "length sibs = index + length bs"
  shows "path_loop H n bs index sibs =
     Ok (take index sibs @ sibling_roots H (slot N (node_elems n)) p bs)"
  using assms
proof (induction bs arbitrary: p d n index sibs)
  case (Cons b bs)
  show ?case
  proof (cases n)
    case (Empty k)
    then have "sibling_roots H (slot N (node_elems n)) p (b # bs) =
        map (empty_hash H) (rev [1..<Suc (length (b # bs))])"
      by (intro sibling_roots_null) (simp add: slot_def)
    then show ?thesis
      using Cons.prems Empty fill_empty_ok [of sibs index "length (b # bs)" H]
      by (simp del: upt_Suc sibling_roots.simps)
  next
    case (Leaf e)
    with Cons.prems show ?thesis by simp
  next
    case (Parent l r h dirty)
    let ?f = "slot N (node_elems n)"
    let ?c = "\<lambda>b. if b then r else l"
    have wf: "wf_node N (p @ [c]) (Suc (length bs)) (?c c)" "clean H (?c c)" for c
      using Cons.prems Parent by auto
    have sp: "slot N (node_elems (?c c)) ((p @ [c]) @ q) = ?f ((p @ [c]) @ q)" for c q
      using slot_parent [of N p d l r h dirty c q] Cons.prems(1) Parent by simp
    let ?s = "smt_root H ?f (p @ [\<not> b]) (Suc (length bs))"
    have "node_hash H (?c (\<not> b)) = Ok (full_hash H (?c (\<not> b)))"
      using wf_node_hash [OF wf(1)] clean_stored_hash [OF wf(2)] by simp
    also have "full_hash H (?c (\<not> b)) = ?s"
      using full_hash_spec [OF wf(1), of H "\<not> b"] sp
      by (simp add: smt_root_cong [where f = "slot N (node_elems (?c (\<not> b)))" and g = ?f])
    finally have s: "node_hash H (?c (\<not> b)) = Ok ?s" .
    have "path_loop H (?c b) bs (Suc index) (sibs[index := ?s]) =
        Ok (take (Suc index) (sibs[index := ?s]) @
          sibling_roots H (slot N (node_elems (?c b))) (p @ [b]) bs)"
      using Cons.prems(4) by (intro Cons.IH [OF wf]) auto
    also have "sibling_roots H (slot N (node_elems (?c b))) (p @ [b]) bs =
        sibling_roots H ?f (p @ [b]) bs"
      by (rule sibling_roots_cong) (simp only: sp)
    finally show ?thesis
      using s Cons.prems(4)
      by (cases b) (simp_all add: Parent set_sibling_def take_Suc_conv_app_nth)
  qed
qed simp

lemma path_for_ok:
  assumes "tree_inv H cinv d t"
  shows "\<exists>r. path_for d H t e = Ok \<lparr>siblings = rev (sibling_roots H (slot d (tree_elements t)) [] (lsb e (d - 1))),
      path_element = e, actual_root_hash = r\<rparr> \<and> root_hash H t = Ok r"
proof -
  have v: "valid_depth d" and wf: "wf_node d [] d (tr_node t)" and cl: "clean H (tr_node t)"
    and el: "set (node_elems (tr_node t)) = set (tree_elements t)"
    using assms by (simp_all add: tree_inv_def)
  have len: "length (lsb e (d - 1)) = d - 1" and "0 < d"
    using v by (auto simp: valid_depth_def)
  have "path_loop H (tr_node t) (lsb e (d - 1)) 0 (replicate (d - 1) NULL_HASH) =
      Ok (sibling_roots H (slot d (node_elems (tr_node t))) [] (lsb e (d - 1)))"
    using path_loop_ok [OF wf cl, of "lsb e (d - 1)" "replicate (d - 1) NULL_HASH" 0] len \<open>0 < d\<close>
    by simp
  also have "slot d (node_elems (tr_node t)) = slot d (tree_elements t)"
    using slot_set_cong [OF wf_node_distinct [OF wf] el] by blast
  finally show ?thesis
    using root_hash_spec [OF assms] by (simp add: path_for_def)
qed

text \<open>What a path computes, for any leaf.\<close>

lemma compute_root_hash_spec:
  assumes "tree_inv H cinv d t" and "path_for d H t e = Ok p"
  shows "compute_root_hash H p x = smt_root H ((slot d (tree_elements t))(lsb e (d - 1) := x)) [] d"
proof -
  let ?bs = "lsb e (d - 1)" and ?f = "slot d (tree_elements t)"
  have len: "length ?bs = d - 1" "0 < d"
    using assms(1) by (auto simp: tree_inv_def valid_depth_def)
  have p: "siblings p = rev (sibling_roots H ?f [] ?bs)" "path_element p = e"
    using path_for_ok [OF assms(1), of e] assms(2) by auto
  have "compute_root_hash H p x =
      compute_merkle_root_from_iter H x (rev (zip (sibling_roots H ?f [] ?bs) ?bs))"
    using len by (simp add: compute_root_hash_def compute_merkle_root_def p
        least_significant_bits_def zip_rev)
  also have "\<dots> = smt_root H (?f(?bs := x)) [] d"
    using merkle_root_update [of H x ?f "[]" ?bs] len by simp
  finally show ?thesis .
qed

lemma tree_slot:
  assumes "tree_inv H cinv d t" and "e \<in> set (tree_elements t)"
  shows "slot d (tree_elements t) (lsb e (d - 1)) = e"
proof (rule slot_unique [OF _ assms(2)])
  show "slots_distinct d (set (tree_elements t))"
    using assms(1) wf_node_distinct [of d "[]" d "tr_node t"] by (simp add: tree_inv_def)
qed

lemma slot_insert:
  assumes "tree_inv H cinv d t" and "tree_inv H cinv d t'"
    and "set (tree_elements t') = insert e (set (tree_elements t))"
    and "\<forall>e' \<in> set (tree_elements t). \<not> collides_with d e' e"
  shows "slot d (tree_elements t) = (slot d (tree_elements t'))(lsb e (d - 1) := NULL_HASH)"
proof
  fix q
  show "slot d (tree_elements t) q = ((slot d (tree_elements t'))(lsb e (d - 1) := NULL_HASH)) q"
  proof (cases "\<exists>x \<in> set (tree_elements t). lsb x (d - 1) = q")
    case True
    then obtain x where x: "x \<in> set (tree_elements t)" "lsb x (d - 1) = q" by blast
    then have "q \<noteq> lsb e (d - 1)"
      using assms(4) by (auto simp: collides_with_def)
    then show ?thesis
      using x tree_slot [OF assms(1), of x] tree_slot [OF assms(2), of x] assms(3) by simp
  next
    case False
    then have "slot d (tree_elements t) q = NULL_HASH" by (intro slot_empty) auto
    moreover have "slot d (tree_elements t') q = NULL_HASH" if "q \<noteq> lsb e (d - 1)"
      using False that assms(3) by (intro slot_empty) auto
    ultimately show ?thesis by simp
  qed
qed

end
