(* ===== verification/Smirk_Theorems.thy ===== *)
theory Smirk_Theorems
  imports Smirk_Path
begin

text \<open>
  The properties of the sparse Merkle tree, stated for the cache the node uses
  (\<open>SimpleHashCache\<close>) and an arbitrary two-to-one hash \<open>H\<close>, and witnesses of their hypotheses
  on a tree of depth 4 over a small concrete hash.
\<close>

section \<open>A concrete tree\<close>

definition demo_hash :: "element \<Rightarrow> element \<Rightarrow> element" where
  "demo_hash l r = 3 * l + 5 * r + 7"

definition demo_tree :: "(nat, simple_hash_cache) smirk_tree" where
  "demo_tree = new_with_cache 4 simple_new"

definition demo_batch :: "nat batch" where
  "demo_batch = \<lparr>b_entries = [(5, 50), (2, 20)], b_remove_entries = [],
     b_lsbs = [lsb 5 3, lsb 2 3]\<rparr>"

definition demo_tree_1 :: "(nat, simple_hash_cache) smirk_tree" where
  "demo_tree_1 = \<lparr>
     tr_node = Parent (Parent (Empty 2) (Parent (Leaf 2) (Empty 1) (demo_hash 2 0) False)
                         (demo_hash (demo_hash 0 0) (demo_hash 2 0)) False)
                      (Empty 3)
                      (demo_hash (demo_hash (demo_hash 0 0) (demo_hash 2 0))
                         (demo_hash (demo_hash 0 0) (demo_hash 0 0))) False,
     tr_entries = [(2, 20)], tr_cache = simple_new\<rparr>"

lemma demo_lsb [simp]:
  "lsb 2 3 = [False, True, False]" "lsb 5 3 = [True, False, True]"
  "lsb 10 3 = [False, True, False]" "lsb 0 3 = [False, False, False]"
  by (simp_all add: lsb_eq numeral_3_eq_3)

lemmas demo_lsb_Suc [simp] = demo_lsb [unfolded numeral_3_eq_3]

lemma demo_tree_inv: "tree_inv demo_hash (simple_inv demo_hash) 4 demo_tree"
  unfolding demo_tree_def by (intro tree_inv_new simple_inv_new) (simp add: valid_depth_def)

lemma demo_tree_1_inv: "tree_inv demo_hash (simple_inv demo_hash) 4 demo_tree_1"
  using simple_inv_new [of demo_hash]
  by (simp add: tree_inv_def demo_tree_1_def valid_depth_def tree_elements_def NULL_HASH_def
      numeral_eq_Suc)


lemma demo_batch_ok: "batch_inv 4 demo_batch" "batch_fits 4 demo_tree demo_batch"
  by (simp_all add: batch_inv_def batch_fits_def demo_batch_def batch_elements_def insert_elements_def
      remove_elements_def demo_tree_def new_with_cache_def tree_elements_def NULL_HASH_def)

section \<open>Batched insertion\<close>

text \<open>
  C2. A batch without null elements whose insertions find free slots and whose removals are
  present is applied: the tree returned satisfies the invariant and its entries are the old ones
  updated by the insertions, without the removed elements.
\<close>

theorem insert_batch_refines_map:
  assumes "tree_inv H (simple_inv H) d t" and "batch_inv d b" and "batch_fits d t b"
  shows "\<exists>t' ev. insert_batch tn d H (simple_hash H) t b = Ok (t', ev) \<and>
     tree_inv H (simple_inv H) d t' \<and>
     tree_get t' = (tree_get t ++ map_of (b_entries b)) |` (- set (b_remove_entries b))"
proof -
  have "distinct (map fst (b_entries b))"
    using assms(2) distinct_map [of "\<lambda>e. lsb e (d - 1)" "map fst (b_entries b)"]
    by (simp add: batch_inv_def batch_elements_def insert_elements_def)
  then show ?thesis
    using simple.insert_batch_ok [OF assms, of tn] by (auto simp: map_of_rev_distinct)
qed

theorem insert_batch_refines_map_witness:
  "\<exists>t' ev. insert_batch True 4 demo_hash (simple_hash demo_hash) demo_tree demo_batch = Ok (t', ev) \<and>
     tree_inv demo_hash (simple_inv demo_hash) 4 t' \<and>
     tree_get t' = (tree_get demo_tree ++ map_of (b_entries demo_batch)) |` (- set (b_remove_entries demo_batch))"
  by (rule insert_batch_refines_map [OF demo_tree_inv demo_batch_ok])

text \<open>
  C16. The root hash is a function of the set of elements alone: it is the Merkle root of the
  slots the elements occupy, and two trees with the same elements have the same root, whatever
  the order and the batches in which the elements arrived.
\<close>

theorem root_hash_canonical:
  assumes "tree_inv H cinv d t" and "tree_inv H cinv' d t'"
    and "set (tree_elements t) = set (tree_elements t')"
  shows "root_hash H t = Ok (smt_root H (slot d (tree_elements t)) [] d) \<and>
     root_hash H t' = root_hash H t"
proof -
  have "tree_elements t = tree_elements t'"
    unfolding tree_elements_def
  proof (rule sorted_distinct_set_unique)
    show "sorted (bt_keys (tr_entries t))" "distinct (bt_keys (tr_entries t))"
      using assms(1) by (simp_all add: tree_inv_def bt_inv_def strict_sorted_iff)
    show "sorted (bt_keys (tr_entries t'))" "distinct (bt_keys (tr_entries t'))"
      using assms(2) by (simp_all add: tree_inv_def bt_inv_def strict_sorted_iff)
    show "set (bt_keys (tr_entries t)) = set (bt_keys (tr_entries t'))"
      using assms(3) by (simp add: tree_elements_def)
  qed
  then show ?thesis
    using root_hash_spec [OF assms(1)] root_hash_spec [OF assms(2)] by simp
qed

theorem root_hash_canonical_witness:
  "root_hash demo_hash demo_tree_1 = Ok (smt_root demo_hash (slot 4 (tree_elements demo_tree_1)) [] 4) \<and>
   root_hash demo_hash demo_tree_1 = root_hash demo_hash demo_tree_1"
  by (rule root_hash_canonical [OF demo_tree_1_inv demo_tree_1_inv refl])

text \<open>
  C17. \<open>root_hash_with\<close> predicts: hashing with a batch pending gives the root hash of the tree
  after the batch is inserted, without changing the tree.
\<close>

theorem root_hash_with_predicts:
  assumes "tree_inv H (simple_inv H) d t" and "batch_inv d b" and "batch_fits d t b"
    and "insert_batch tn d H (simple_hash H) t b = Ok (t', ev)"
  shows "\<exists>r c. root_hash_with d H (simple_hash H) t (insert_elements b) (remove_elements b) = Ok (r, c) \<and>
     root_hash H t' = Ok r"
  using simple.insert_batch_ok [OF assms(1-3), of tn] assms(4) by auto

theorem root_hash_with_predicts_witness:
  "\<exists>t' ev r c. insert_batch True 4 demo_hash (simple_hash demo_hash) demo_tree demo_batch = Ok (t', ev) \<and>
     root_hash_with 4 demo_hash (simple_hash demo_hash) demo_tree (insert_elements demo_batch)
       (remove_elements demo_batch) = Ok (r, c) \<and> root_hash demo_hash t' = Ok r"
  using simple.insert_batch_ok [OF demo_tree_inv demo_batch_ok, of True]
    root_hash_with_predicts [OF demo_tree_inv demo_batch_ok, of True] by blast

section \<open>Paths\<close>

lemma path_for_props:
  assumes "tree_inv H cinv d t"
  shows "\<exists>p. path_for d H t e = Ok p \<and> path_element p = e \<and> length (siblings p) = d - 1 \<and>
     root_hash H t = Ok (actual_root_hash p) \<and>
     (e \<in> set (tree_elements t) \<longrightarrow> proves H p e) \<and>
     ((\<forall>e' \<in> set (tree_elements t). \<not> collides_with d e' e) \<longrightarrow> proves H p NULL_HASH)"
proof -
  obtain r where p: "path_for d H t e = Ok \<lparr>siblings =
      rev (sibling_roots H (slot d (tree_elements t)) [] (lsb e (d - 1))), path_element = e,
      actual_root_hash = r\<rparr>" (is "_ = Ok ?p") and r: "root_hash H t = Ok r"
    using path_for_ok [OF assms] by blast
  have "d - 1 \<le> 256" using assms by (auto simp: tree_inv_def valid_depth_def)
  have root: "r = smt_root H (slot d (tree_elements t)) [] d"
    using r root_hash_spec [OF assms] by simp
  have pv: "proves H ?p x" if "slot d (tree_elements t) (lsb e (d - 1)) = x" for x
    using compute_root_hash_spec [OF assms p, of x] that root by (simp add: proves_def fun_upd_idem)
  have "proves H ?p e" if "e \<in> set (tree_elements t)"
    by (rule pv) (rule tree_slot [OF assms that])
  moreover have "proves H ?p NULL_HASH" if "\<forall>e' \<in> set (tree_elements t). \<not> collides_with d e' e"
    by (rule pv, rule slot_empty) (use that in \<open>auto simp: collides_with_def\<close>)
  ultimately show ?thesis
    using p r \<open>d - 1 \<le> 256\<close> by auto
qed

text \<open>
  C21. Completeness of paths: \<open>path_for\<close> never fails on a valid tree, its path has \<open>DEPTH - 1\<close>
  siblings and the root of the tree, it proves the element if the tree holds it, and proves the
  null element if no element of the tree occupies its slot.
\<close>

theorem path_for_complete:
  assumes "tree_inv H cinv d t"
  shows "\<exists>p. path_for d H t e = Ok p \<and> path_element p = e \<and> length (siblings p) = d - 1 \<and>
     root_hash H t = Ok (actual_root_hash p) \<and>
     (e \<in> set (tree_elements t) \<longrightarrow> proves H p e) \<and>
     ((\<forall>e' \<in> set (tree_elements t). \<not> collides_with d e' e) \<longrightarrow> proves H p NULL_HASH)"
  by (rule path_for_props [OF assms])

theorem path_for_complete_witness:
  "(\<exists>p. path_for 4 demo_hash demo_tree_1 2 = Ok p \<and> proves demo_hash p 2) \<and>
   (\<exists>p. path_for 4 demo_hash demo_tree_1 5 = Ok p \<and> proves demo_hash p NULL_HASH)"
  using path_for_complete [OF demo_tree_1_inv, of 2] path_for_complete [OF demo_tree_1_inv, of 5]
  by (simp add: demo_tree_1_def tree_elements_def collides_with_def) blast

text \<open>
  A collision of the hash from two leaves with different siblings and the same bits: walking upwards,
  the first level at which the two pairs of children differ and their hashes agree.
\<close>

fun merkle_collision ::
    "(element \<Rightarrow> element \<Rightarrow> element) \<Rightarrow> element \<Rightarrow> element \<Rightarrow> ((element \<times> element) \<times> bool) list \<Rightarrow>
     ((element \<times> element) \<times> (element \<times> element)) option" where
  "merkle_collision H x y [] = None"
| "merkle_collision H x y (((s, u), b) # sbs) =
     (let p = (if b then (s, x) else (x, s)); q = (if b then (u, y) else (y, u));
          x' = H (fst p) (snd p); y' = H (fst q) (snd q)
      in if x' = y' then Some (p, q) else merkle_collision H x' y' sbs)"

lemma merkle_collision_found:
  assumes "length ss = length us" and "length us = length bs" and "x \<noteq> y"
    and "compute_merkle_root_from_iter H x (zip ss bs) = compute_merkle_root_from_iter H y (zip us bs)"
  shows "\<exists>p q. merkle_collision H x y (zip (zip ss us) bs) = Some (p, q) \<and> p \<noteq> q \<and>
     H (fst p) (snd p) = H (fst q) (snd q)"
  using assms
proof (induction ss us bs arbitrary: x y rule: list_induct3)
  case (Cons s ss u us b bs)
  then show ?case by (cases b) (simp_all add: Let_def)
qed simp

text \<open>The leaf of a slot: the element of the tree with these bits, or the null element.\<close>

lemma slot_leaf:
  assumes "tree_inv H cinv d t" and "x \<noteq> NULL_HASH \<Longrightarrow> x \<notin> set (tree_elements t) \<or> \<not> collides_with d x e"
    and "x = NULL_HASH \<Longrightarrow> \<exists>e' \<in> set (tree_elements t). e' \<noteq> NULL_HASH \<and> collides_with d e' e"
  shows "slot d (tree_elements t) (lsb e (d - 1)) \<noteq> x"
    and "slot d (tree_elements t) (lsb e (d - 1)) \<in> insert NULL_HASH (set (tree_elements t))"
proof -
  show "slot d (tree_elements t) (lsb e (d - 1)) \<noteq> x"
  proof (cases "\<exists>e' \<in> set (tree_elements t). collides_with d e' e")
    case True
    then obtain e' where "e' \<in> set (tree_elements t)" "lsb e' (d - 1) = lsb e (d - 1)"
      by (auto simp: collides_with_def)
    then have "slot d (tree_elements t) (lsb e (d - 1)) = e'" using tree_slot [OF assms(1), of e'] by simp
    then show ?thesis
      using assms(2,3) tree_slot [OF assms(1)] \<open>lsb e' (d - 1) = lsb e (d - 1)\<close> \<open>e' \<in> set (tree_elements t)\<close>
      by (fastforce simp: collides_with_def)
  next
    case False
    then have "slot d (tree_elements t) (lsb e (d - 1)) = NULL_HASH"
      by (intro slot_empty) (auto simp: collides_with_def)
    then show ?thesis using assms(3) False by blast
  qed
  show "slot d (tree_elements t) (lsb e (d - 1)) \<in> insert NULL_HASH (set (tree_elements t))"
    by (auto simp: slot_def split: option.splits dest: find_Some_prop)
qed

text \<open>
  C22. Soundness of paths: take any path of the length of the tree's paths, whoever made it, that
  names the root of the tree. If it proves a leaf that the slot of its element does not hold (an
  element that is not in the tree, an element of another slot, or the null element where the slot is
  taken), the hash has a collision, and walking that path beside the one the tree gives finds it.
\<close>

theorem path_proves_sound:
  assumes "tree_inv H cinv d t" and "root_hash H t = Ok (actual_root_hash p)"
    and "length (siblings p) = d - 1" and "proves H p x"
    and "x \<noteq> NULL_HASH \<Longrightarrow> x \<notin> set (tree_elements t) \<or> \<not> collides_with d x (path_element p)"
    and "x = NULL_HASH \<Longrightarrow> \<exists>e \<in> set (tree_elements t). e \<noteq> NULL_HASH \<and> collides_with d e (path_element p)"
  shows "\<exists>q y a b. path_for d H t (path_element p) = Ok q \<and> proves H q y \<and>
     y \<in> insert NULL_HASH (set (tree_elements t)) \<and>
     merkle_collision H x y (zip (zip (siblings p) (siblings q))
       (least_significant_bits (path_element p) (d - 1))) = Some (a, b) \<and>
     a \<noteq> b \<and> H (fst a) (snd a) = H (fst b) (snd b)"
proof -
  let ?e = "path_element p" and ?y = "slot d (tree_elements t) (lsb (path_element p) (d - 1))"
  obtain q where q: "path_for d H t ?e = Ok q" "path_element q = ?e" "length (siblings q) = d - 1"
    "root_hash H t = Ok (actual_root_hash q)"
    using path_for_props [OF assms(1)] by blast
  have y: "compute_root_hash H q ?y = actual_root_hash q"
    using compute_root_hash_spec [OF assms(1) q(1), of ?y] root_hash_spec [OF assms(1)] q(4) by simp
  have "length (least_significant_bits ?e (d - 1)) = d - 1"
    using assms(1) by (auto simp: tree_inv_def valid_depth_def least_significant_bits_def)
  moreover have "compute_root_hash H p x = compute_root_hash H q ?y"
    using assms(2,4) q(4) y by (simp add: proves_def)
  ultimately show ?thesis
    using merkle_collision_found [of "siblings p" "siblings q" "least_significant_bits ?e (d - 1)" x ?y H]
      slot_leaf [OF assms(1,5,6)] assms(3) q y
    by (fastforce simp: proves_def compute_root_hash_def compute_merkle_root_def)
qed

definition demo_path :: path where
  "demo_path = \<lparr>siblings = [0, 12, 63], path_element = 2, actual_root_hash = 601\<rparr>"

theorem path_proves_sound_witness:
  "proves demo_hash demo_path 1 \<and> root_hash demo_hash demo_tree_1 = Ok (actual_root_hash demo_path) \<and>
   1 \<notin> set (tree_elements demo_tree_1) \<and>
   (\<exists>q y a b. path_for 4 demo_hash demo_tree_1 2 = Ok q \<and> proves demo_hash q y \<and>
     merkle_collision demo_hash 1 y (zip (zip (siblings demo_path) (siblings q)) (least_significant_bits 2 3)) = Some (a, b) \<and>
     a \<noteq> b \<and> demo_hash (fst a) (snd a) = demo_hash (fst b) (snd b))"
proof -
  have p: "proves demo_hash demo_path 1" "root_hash demo_hash demo_tree_1 = Ok (actual_root_hash demo_path)"
    "1 \<notin> set (tree_elements demo_tree_1)"
    by (simp_all add: proves_def demo_path_def compute_root_hash_def compute_merkle_root_def demo_hash_def
        least_significant_bits_def numeral_3_eq_3 root_hash_def demo_tree_1_def tree_elements_def)
  have l: "length (siblings demo_path) = 4 - 1" "path_element demo_path = 2" "(1::element) \<noteq> NULL_HASH"
    by (simp_all add: demo_path_def NULL_HASH_def)
  show ?thesis
    using path_proves_sound [OF demo_tree_1_inv p(2) l(1) p(1)] p l(2,3) by (simp del: split_paired_Ex) blast
qed

text \<open>The paths returned by an insertion: each starts at the root the previous one ended at.\<close>

fun linked :: "(element \<Rightarrow> element \<Rightarrow> element) \<Rightarrow> element \<Rightarrow> (element \<times> 'v) list \<Rightarrow> path list \<Rightarrow> bool" where
  "linked H r [] [] \<longleftrightarrow> True"
| "linked H r (ev # evs) (p # ps) \<longleftrightarrow>
     compute_root_hash H p NULL_HASH = r \<and> proves H p (fst ev) \<and> linked H (actual_root_hash p) evs ps"
| "linked H r _ _ \<longleftrightarrow> False"

lemma insert_path_links:
  assumes inv: "tree_inv H (simple_inv H) d t" and "e \<noteq> NULL_HASH"
    and free: "\<forall>e' \<in> set (tree_elements t). \<not> collides_with d e' e"
  shows "\<exists>t' p r. tree_insert tn d H (simple_hash H) t e v = Ok t' \<and> tree_inv H (simple_inv H) d t' \<and>
     set (tree_elements t') = insert e (set (tree_elements t)) \<and> path_for d H t' e = Ok p \<and>
     root_hash H t = Ok r \<and> compute_root_hash H p NULL_HASH = r \<and> proves H p e \<and>
     root_hash H t' = Ok (actual_root_hash p)"
proof -
  obtain t' where t': "tree_insert tn d H (simple_hash H) t e v = Ok t'"
    "tree_inv H (simple_inv H) d t'" "tree_get t' = (tree_get t)(e \<mapsto> v)"
    using simple.tree_insert_ok [OF assms] by blast
  have "set (tree_elements t') = dom (tree_get t')" "set (tree_elements t) = dom (tree_get t)"
    by (simp_all add: tree_elements_def tree_get_def [abs_def] bt_keys_dom)
  then have el: "set (tree_elements t') = insert e (set (tree_elements t))"
    by (simp add: t'(3))
  obtain p where p: "path_for d H t' e = Ok p" "root_hash H t' = Ok (actual_root_hash p)"
    "proves H p e"
    using path_for_props [OF t'(2), of e] el by auto
  have "compute_root_hash H p NULL_HASH = smt_root H (slot d (tree_elements t)) [] d"
    using compute_root_hash_spec [OF t'(2) p(1), of NULL_HASH] slot_insert [OF inv t'(2) el free] by simp
  then show ?thesis
    using root_hash_spec [OF inv] t' el p by auto
qed

text \<open>
  \<open>insert_with_paths\<close> returns one path for each element, in order; each path gives the root
  before its insertion for the null leaf and the root after it for the element, so the paths
  form a chain from the old root hash to the new one.
\<close>

lemma insert_with_paths_linked:
  assumes "tree_inv H (simple_inv H) d t" and "root_hash H t = Ok r"
    and "NULL_HASH \<notin> set (map fst evs)" and "distinct (map (\<lambda>ev. lsb (fst ev) (d - 1)) evs)"
    and "\<forall>e \<in> set (tree_elements t). \<forall>ev \<in> set evs. \<not> collides_with d e (fst ev)"
  shows "\<exists>t' ps. insert_with_paths tn d H (simple_hash H) t evs [] = (t', Ok ps) \<and>
     tree_inv H (simple_inv H) d t' \<and> linked H r evs ps \<and>
     set (tree_elements t') = set (tree_elements t) \<union> set (map fst evs)"
proof -
  have "\<exists>t' ps. insert_with_paths tn d H (simple_hash H) t evs acc = (t', Ok (acc @ ps)) \<and>
     tree_inv H (simple_inv H) d t' \<and> linked H r evs ps \<and>
     set (tree_elements t') = set (tree_elements t) \<union> set (map fst evs)" for acc
    using assms
  proof (induction evs arbitrary: t r acc)
    case (Cons ev evs)
    obtain t1 p where 1: "tree_insert tn d H (simple_hash H) t (fst ev) (snd ev) = Ok t1"
      "tree_inv H (simple_inv H) d t1" "set (tree_elements t1) = insert (fst ev) (set (tree_elements t))"
      "path_for d H t1 (fst ev) = Ok p" "compute_root_hash H p NULL_HASH = r" "proves H p (fst ev)"
      "root_hash H t1 = Ok (actual_root_hash p)"
      using insert_path_links [of H d t "fst ev" tn "snd ev"] Cons.prems by auto
    have "\<forall>e \<in> set (tree_elements t1). \<forall>ev' \<in> set evs. \<not> collides_with d e (fst ev')"
      using Cons.prems(4,5) by (auto simp: 1(3) collides_with_def image_iff)
    then obtain t' ps where "insert_with_paths tn d H (simple_hash H) t1 evs (acc @ [p]) = (t', Ok ((acc @ [p]) @ ps))"
      "tree_inv H (simple_inv H) d t'" "linked H (actual_root_hash p) evs ps"
      "set (tree_elements t') = set (tree_elements t1) \<union> set (map fst evs)"
      using Cons.IH [OF 1(2) 1(7), of "acc @ [p]"] Cons.prems(3,4) by auto
    with 1 show ?case by (intro exI [of _ t'] exI [of _ "p # ps"]) simp
  qed simp
  from this [of "[]"] show ?thesis by simp
qed

section \<open>Refusals\<close>

text \<open>
  A batch with an element whose slot is taken is refused: \<open>insert_batch\<close> returns the error
  that lists the element of the tree, and there is no new tree.
\<close>

lemma insert_batch_collision:
  assumes "batch_inv d b" and "set (remove_elements b) \<subseteq> set (tree_elements t)"
    and "e \<in> set (tree_elements t)" and "x \<in> set (insert_elements b)" and "collides_with d e x"
  shows "\<exists>cs. insert_batch tn d H chash t b = Err cs \<and> e \<in> in_tree ` set cs"
  using check_collisions_Err [OF assms, of tn] by (auto simp: insert_batch_def)

definition demo_clash :: "nat batch" where
  "demo_clash = \<lparr>b_entries = [(10, 1)], b_remove_entries = [], b_lsbs = [lsb 10 3]\<rparr>"

text \<open>
  Inserting the null element into a tree whose first slot is free panics: the collision
  check passes, and the error of the insertion without hashing is unwrapped.
\<close>

lemma insert_null_panics:
  assumes "\<forall>e \<in> set (tree_elements t). \<not> collides_with d e NULL_HASH"
  shows "tree_insert tn d H chash t NULL_HASH v = Panic"
proof -
  let ?b = "\<lparr>b_entries = [(NULL_HASH, v)], b_remove_entries = [], b_lsbs = [lsb NULL_HASH (d - 1)]\<rparr>"
  have "check_collisions tn d t ?b = Ok ()"
    using assms
    by (simp add: check_collisions_def tree_collisions_none insert_elements_def remove_elements_def
        collides_with_def)
  then show ?thesis
    by (simp add: tree_insert_def batch_insert_new insert_batch_def insert_without_hashing_def)
qed

section \<open>Batches, caches and empty trees\<close>

text \<open>
  A batch accepts an element exactly when no element it holds has the same slot, never
  panics, and every batch built from entries holds exactly these entries in order.
\<close>

lemma batch_insert_accepts:
  assumes "batch_inv d b"
  shows "(\<exists>b'. batch_insert d b e v = Ok b' \<and> batch_inv d b' \<and> b_entries b' = b_entries b @ [(e, v)]) \<longleftrightarrow>
     (\<forall>e' \<in> set (batch_elements b). \<not> collides_with d e' e)"
  using batch_insert_Ok_iff [OF assms, of e v] batch_inv_insert [OF assms, of e v]
  by (auto simp: collides_with_def batch_insert_def Let_def split: if_splits option.splits)

text \<open>
  \<open>Batch::merge\<close> forgets the removals of the other batch: the merged batch has the removals
  of the first batch only, while the bits of the forgotten elements stay reserved.
\<close>

lemma batch_merge_drops_removals:
  assumes "batch_merge d b b' = Ok m"
  shows "b_entries m = b_entries b @ b_entries b' \<and> b_remove_entries m = b_remove_entries b \<and>
     b_lsbs m = b_lsbs b @ b_lsbs b'"
  using assms
  by (auto simp: batch_merge_def Let_def bind_o_Ok_iff split: if_splits)

text \<open>
  The simple cache returns what the hash function returns, keeps its invariant, and counts
  every call as a hit or a miss.
\<close>

lemma simple_hash_cache_correct:
  assumes "simple_inv H c"
  shows "fst (simple_hash H c l r) = H l r \<and> simple_inv H (snd (simple_hash H c l r)) \<and>
     hashes (metrics (snd (simple_hash H c l r))) = hashes (metrics c) + 1"
  using simple_hash_value [OF assms] simple_hash_inv [OF assms]
  by (simp add: simple_hash_def Let_def incr_hashes_def incr_cache_hits_def incr_cache_misses_def
      split: option.splits)

text \<open>
  The table of empty-tree hashes and its fallback give, for every depth from 1 on, the
  recursion the documentation states; depth 0 panics.
\<close>

lemma empty_tree_hash_recursion:
  "empty_tree_hash H 0 = Panic \<and> empty_tree_hash H 1 = Ok NULL_HASH \<and>
   (\<exists>h. empty_tree_hash H (Suc n) = Ok h \<and> empty_tree_hash H (Suc (Suc n)) = Ok (H h h))"
  by simp

text \<open>
  \<open>hash::empty_tree_root\<close>, documented with the same recursion, merges with the null hash at
  every level instead: at depth 3 it agrees with the recursion only if the hash of two different
  pairs is the same.
\<close>

lemma empty_tree_root_depth_3:
  "empty_tree_root H 3 = Ok (H (H NULL_HASH NULL_HASH) NULL_HASH) \<and>
   empty_tree_hash H 3 = Ok (H (H NULL_HASH NULL_HASH) (H NULL_HASH NULL_HASH))"
  by (simp add: empty_tree_root_def numeral_3_eq_3 upt_rec)

end
