(* ===== verification/Smirk_Storage.thy ===== *)
theory Smirk_Storage
  imports Smirk_Theorems "HOL-Library.AList"
begin

text \<open>
  The persistent tree (\<open>smirk/src/storage\<close>): an in-memory tree over a \<open>SimpleHashCache\<close> and a
  RocksDB database of elements and known hashes. RocksDB is a third-party store; a database is
  the association list of its contents, decoded, in an order that stands for the byte order in
  which it is iterated. \<open>write_ok\<close> says whether the one atomic write of an operation succeeds.
\<close>

section \<open>Database format\<close>

datatype key_v2 = KElement element | KKnownHash element element

datatype key_format = KeyV1 element | KeyV2 key_v2

datatype 'v value_v2 = Metadata 'v | VKnownHash element

datatype 'v value_format = ValueV1 'v | ValueV2 "'v value_v2"

datatype storage_error = Rocksdb | Collision collision_error | DatabaseConsistency

datatype 'v rocksdb_entry = SmirkKV element 'v | KnownHashEntry known_hash

type_synonym 'v smirk_db = "(key_format \<times> 'v value_format) list"

record 'v persistent =
  pe_tree :: "('v, simple_hash_cache) smirk_tree"
  pe_db :: "'v smirk_db"

text \<open>\<open>WriteBatch\<close>: puts and deletes applied in order\<close>

definition db_write :: "'v smirk_db \<Rightarrow> (key_format \<times> 'v value_format option) list \<Rightarrow> 'v smirk_db" where
  "db_write db ops =
     fold (\<lambda>(k, v) db. case v of Some v \<Rightarrow> AList.update k v db | None \<Rightarrow> AList.delete k db) ops db"

section \<open>Operations\<close>

definition persistent_new :: "nat \<Rightarrow> 'v persistent" where
  "persistent_new d = \<lparr>pe_tree = new_with_cache d simple_new, pe_db = []\<rparr>"

text \<open>The map of hash changes the two callbacks of \<open>insert_batch\<close> fill.\<close>

fun record_event ::
    "hash_event \<Rightarrow> ((element \<times> element) \<times> element option) list \<Rightarrow> ((element \<times> element) \<times> element option) list"
where
  "record_event (HashRemove l r) m = AList.update (l, r) None m"
| "record_event (HashSet l r h) m = AList.update (l, r) (Some h) m"

definition batch_ops ::
    "(element \<times> 'v) list \<Rightarrow> element list \<Rightarrow> ((element \<times> element) \<times> element option) list \<Rightarrow>
     (key_format \<times> 'v value_format option) list" where
  "batch_ops new_kv_pairs removed_elements hash_changes =
     concat (map (\<lambda>(key, value). [(KeyV2 (KElement key), Some (ValueV2 (Metadata value))), (KeyV1 key, None)])
               new_kv_pairs) @
     concat (map (\<lambda>key. [(KeyV2 (KElement key), None), (KeyV1 key, None)]) removed_elements) @
     map (\<lambda>((left, right), _). (KeyV2 (KKnownHash left right), None))
       (filter (\<lambda>c. snd c = None) hash_changes) @
     map (\<lambda>((left, right), result). (KeyV2 (KKnownHash left right), Some (ValueV2 (VKnownHash (the result)))))
       (filter (\<lambda>c. snd c \<noteq> None) hash_changes)"

definition persistent_insert_batch ::
    "bool \<Rightarrow> bool \<Rightarrow> nat \<Rightarrow> (element \<Rightarrow> element \<Rightarrow> element) \<Rightarrow> 'v persistent \<Rightarrow> 'v batch \<Rightarrow>
     'v persistent \<times> (unit, storage_error) outcome" where
  "persistent_insert_batch write_ok tn d H p b =
     (if batch_is_empty b then (p, Ok ())
      else case insert_batch tn d H (simple_hash H) (pe_tree p) b of
        Err e \<Rightarrow> (p, Err (Collision e))
      | Panic \<Rightarrow> (p, Panic)
      | Ok (t, ev) \<Rightarrow>
          let p' = p\<lparr>pe_tree := t\<rparr>;
              ops = batch_ops (b_entries b) (remove_elements b) (fold record_event ev [])
          in if write_ok then (p'\<lparr>pe_db := db_write (pe_db p') ops\<rparr>, Ok ()) else (p', Err Rocksdb))"

definition persistent_insert ::
    "bool \<Rightarrow> bool \<Rightarrow> nat \<Rightarrow> (element \<Rightarrow> element \<Rightarrow> element) \<Rightarrow> 'v persistent \<Rightarrow> element \<Rightarrow> 'v \<Rightarrow>
     'v persistent \<times> (unit, storage_error) outcome" where
  "persistent_insert write_ok tn d H p e v =
     (case batch_insert d batch_new e v of
        Ok b \<Rightarrow> persistent_insert_batch write_ok tn d H p b
      | _ \<Rightarrow> (p, Panic))"

fun db_entry :: "key_format \<times> 'v value_format \<Rightarrow> ('v rocksdb_entry, storage_error) outcome" where
  "db_entry (KeyV1 key, ValueV1 m) = Ok (SmirkKV key m)"
| "db_entry (KeyV1 key, ValueV2 (Metadata m)) = Ok (SmirkKV key m)"
| "db_entry (KeyV2 (KElement key), ValueV1 m) = Ok (SmirkKV key m)"
| "db_entry (KeyV2 (KElement key), ValueV2 (Metadata m)) = Ok (SmirkKV key m)"
| "db_entry (KeyV2 (KKnownHash l r), ValueV2 (VKnownHash h)) =
     Ok (KnownHashEntry \<lparr>kh_left = l, kh_right = r, kh_result = h\<rparr>)"
| "db_entry _ = Err DatabaseConsistency"

definition collect_entry ::
    "known_hash list \<times> (element \<times> 'v) list \<Rightarrow> key_format \<times> 'v value_format \<Rightarrow>
     (known_hash list \<times> (element \<times> 'v) list, storage_error) outcome" where
  "collect_entry acc kv =
     bind_o (db_entry kv) (\<lambda>e. case e of
         KnownHashEntry h \<Rightarrow> Ok (fst acc @ [h], snd acc)
       | SmirkKV k v \<Rightarrow> Ok (fst acc, snd acc @ [(k, v)]))"

definition load_tree ::
    "bool \<Rightarrow> nat \<Rightarrow> (element \<Rightarrow> element \<Rightarrow> element) \<Rightarrow> 'v smirk_db \<Rightarrow>
     (('v, simple_hash_cache) smirk_tree, storage_error) outcome" where
  "load_tree tn d H db =
     bind_o (fold_o collect_entry ([], []) db) (\<lambda>(known_hashes, smirk_kv).
     bind_o (provide_known_hashes simple_new known_hashes) (\<lambda>cache.
     bind_o (map_err Collision (fold_o (\<lambda>b ev. batch_insert d b (fst ev) (snd ev)) batch_new smirk_kv)) (\<lambda>b.
     bind_o (map_err Collision (insert_batch tn d H (simple_hash H) (new_with_cache d cache) b)) (\<lambda>(t, ev).
     Ok t))))"

definition persistent_load ::
    "bool \<Rightarrow> nat \<Rightarrow> (element \<Rightarrow> element \<Rightarrow> element) \<Rightarrow> 'v smirk_db \<Rightarrow> ('v persistent, storage_error) outcome" where
  "persistent_load tn d H db = bind_o (load_tree tn d H db) (\<lambda>t. Ok \<lparr>pe_tree = t, pe_db = db\<rparr>)"

definition db_known_hashes :: "'v smirk_db \<Rightarrow> known_hash list" where
  "db_known_hashes db =
     concat (map (\<lambda>(k, v). case (k, v) of
         (KeyV2 (KKnownHash l r), ValueV2 (VKnownHash h)) \<Rightarrow> [\<lparr>kh_left = l, kh_right = r, kh_result = h\<rparr>]
       | _ \<Rightarrow> []) db)"

definition synchronize_hashes ::
    "bool \<Rightarrow> (element \<Rightarrow> element \<Rightarrow> element) \<Rightarrow> 'v persistent \<Rightarrow> 'v persistent \<times> (unit, storage_error) outcome" where
  "synchronize_hashes write_ok H p =
     (case tree_known_hashes H (pe_tree p) of
        Ok hs \<Rightarrow>
          let hashes_to_insert = filter (\<lambda>h. h \<notin> set (db_known_hashes (pe_db p))) hs;
              ops = map (\<lambda>h. (KeyV2 (KKnownHash (kh_left h) (kh_right h)),
                              Some (ValueV2 (VKnownHash (kh_result h))))) hashes_to_insert
          in if write_ok then (p\<lparr>pe_db := db_write (pe_db p) ops\<rparr>, Ok ()) else (p, Err Rocksdb)
      | _ \<Rightarrow> (p, Panic))"

section \<open>Consistency of tree and database\<close>

fun value_data :: "'v value_format \<Rightarrow> 'v option" where
  "value_data (ValueV1 m) = Some m"
| "value_data (ValueV2 (Metadata m)) = Some m"
| "value_data (ValueV2 (VKnownHash h)) = None"

text \<open>What a database holds for an element, under its current or its first key format.\<close>

definition db_value :: "(key_format \<Rightarrow> 'v value_format option) \<Rightarrow> element \<Rightarrow> 'v option" where
  "db_value m e = (case m (KeyV2 (KElement e)) of
       Some v \<Rightarrow> value_data v
     | None \<Rightarrow> Option.bind (m (KeyV1 e)) value_data)"

definition db_consistent ::
    "(element \<Rightarrow> element \<Rightarrow> element) \<Rightarrow> (key_format \<Rightarrow> 'v value_format option) \<Rightarrow> bool" where
  "db_consistent H m \<longleftrightarrow>
     (\<forall>e v. m (KeyV1 e) = Some v \<longrightarrow> value_data v \<noteq> None) \<and>
     (\<forall>e v. m (KeyV2 (KElement e)) = Some v \<longrightarrow> value_data v \<noteq> None) \<and>
     (\<forall>e. m (KeyV1 e) = None \<or> m (KeyV2 (KElement e)) = None) \<and>
     (\<forall>l r v. m (KeyV2 (KKnownHash l r)) = Some v \<longrightarrow> v = ValueV2 (VKnownHash (H l r)))"

definition persistent_inv :: "nat \<Rightarrow> (element \<Rightarrow> element \<Rightarrow> element) \<Rightarrow> 'v persistent \<Rightarrow> bool" where
  "persistent_inv d H p \<longleftrightarrow>
     tree_inv H (simple_inv H) d (pe_tree p) \<and> distinct (map fst (pe_db p)) \<and>
     db_consistent H (map_of (pe_db p)) \<and> db_value (map_of (pe_db p)) = tree_get (pe_tree p)"

lemma map_of_db_write: "map_of (db_write db ops) = fold (\<lambda>(k, v) m. m(k := v)) ops (map_of db)"
proof (induction ops arbitrary: db)
  case (Cons op ops)
  obtain k v where op: "op = (k, v)" by fastforce
  then show ?case
    using Cons by (cases v) (simp_all add: db_write_def update_conv' delete_conv')
qed (simp add: db_write_def)

lemma distinct_db_write: "distinct (map fst db) \<Longrightarrow> distinct (map fst (db_write db ops))"
proof (induction ops arbitrary: db)
  case (Cons op ops)
  obtain k v where op: "op = (k, v)" by fastforce
  then show ?case
    using Cons by (cases v) (simp_all add: db_write_def distinct_update distinct_delete)
qed (simp add: db_write_def)

abbreviation upds :: "(key_format \<times> 'v value_format option) list \<Rightarrow> (key_format \<Rightarrow> 'v value_format option) \<Rightarrow>
    key_format \<Rightarrow> 'v value_format option" where
  "upds ops m \<equiv> fold (\<lambda>(k, v) m. m(k := v)) ops m"

lemma upds_snoc: "upds (ops @ [(k, v)]) m = (upds ops m)(k := v)"
  by simp

lemma upds_puts:
  "upds (concat (map (\<lambda>(key, value). [(KeyV2 (KElement key), Some (ValueV2 (Metadata value))), (KeyV1 key, None)]) kvs)) m k =
     (case k of
        KeyV2 (KElement e) \<Rightarrow> (case map_of (rev kvs) e of Some v \<Rightarrow> Some (ValueV2 (Metadata v)) | None \<Rightarrow> m k)
      | KeyV1 e \<Rightarrow> if e \<in> fst ` set kvs then None else m k
      | KeyV2 (KKnownHash l r) \<Rightarrow> m k)"
proof (induction kvs rule: rev_induct)
  case (snoc kv kvs)
  then show ?case by (cases kv) (auto split: key_format.splits key_v2.splits)
qed (auto split: key_format.splits key_v2.splits)

lemma upds_dels:
  "upds (concat (map (\<lambda>key. [(KeyV2 (KElement key), None), (KeyV1 key, None)]) es)) m k =
     (case k of
        KeyV2 (KElement e) \<Rightarrow> if e \<in> set es then None else m k
      | KeyV1 e \<Rightarrow> if e \<in> set es then None else m k
      | KeyV2 (KKnownHash l r) \<Rightarrow> m k)"
proof (induction es rule: rev_induct)
  case (snoc e es)
  then show ?case by (auto split: key_format.splits key_v2.splits)
qed (auto split: key_format.splits key_v2.splits)

lemma upds_hashes:
  assumes "\<And>k v. (k, v) \<in> set ops \<Longrightarrow> \<exists>l r. k = KeyV2 (KKnownHash l r)"
  shows "upds ops m (KeyV1 e) = m (KeyV1 e)" "upds ops m (KeyV2 (KElement e)) = m (KeyV2 (KElement e))"
proof -
  have "upds ops m (KeyV1 e) = m (KeyV1 e) \<and> upds ops m (KeyV2 (KElement e)) = m (KeyV2 (KElement e))"
    using assms
  proof (induction ops arbitrary: m)
    case (Cons op ops)
    obtain l r v where op: "op = (KeyV2 (KKnownHash l r), v)"
      using Cons.prems [of "fst op" "snd op"] by (cases op) auto
    have "\<exists>l r. k = KeyV2 (KKnownHash l r)" if "(k, v) \<in> set ops" for k v
      using Cons.prems [of k v] that by simp
    then show ?case using Cons.IH [of "m(KeyV2 (KKnownHash l r) := v)"] by (simp add: op)
  qed simp
  then show "upds ops m (KeyV1 e) = m (KeyV1 e)" "upds ops m (KeyV2 (KElement e)) = m (KeyV2 (KElement e))"
    by simp_all
qed

lemma upds_known:
  assumes "upds ops m k = Some v"
  shows "(k, Some v) \<in> set ops \<or> m k = Some v"
  using assms
proof (induction ops arbitrary: m)
  case (Cons op ops)
  obtain k' v' where op: "op = (k', v')" by fastforce
  have "(k, Some v) \<in> set ops \<or> (m(k' := v')) k = Some v"
    using Cons.IH [of "m(k' := v')"] Cons.prems by (simp add: op)
  then show ?case by (cases "k = k'") (auto simp: op)
qed simp

lemma set_alist_update:
  "distinct (map fst m) \<Longrightarrow> (x, y) \<in> set (AList.update k v m) \<longleftrightarrow> (if x = k then y = v else (x, y) \<in> set m)"
  using map_of_eq_Some_iff [of "AList.update k v m" x y] map_of_eq_Some_iff [of m x y]
  by (simp add: distinct_update update_conv') auto

lemma upds_batch_ops:
  fixes kvs :: "(element \<times> 'v) list"
  defines "m' \<equiv> \<lambda>m rs ch. upds (batch_ops kvs rs ch) m"
  assumes "distinct (map fst kvs)"
  shows "m' m rs ch (KeyV2 (KElement e)) = (if e \<in> set rs then None else
      case map_of kvs e of Some v \<Rightarrow> Some (ValueV2 (Metadata v)) | None \<Rightarrow> m (KeyV2 (KElement e)))"
    and "m' m rs ch (KeyV1 e) = (if e \<in> set rs \<or> e \<in> fst ` set kvs then None else m (KeyV1 e))"
    and "m' m rs ch (KeyV2 (KKnownHash l r)) = Some v \<Longrightarrow>
      (\<exists>h. ((l, r), Some h) \<in> set ch \<and> v = ValueV2 (VKnownHash h)) \<or> m (KeyV2 (KKnownHash l r)) = Some v"
proof -
  let ?del = "map (\<lambda>((left, right), _). (KeyV2 (KKnownHash left right), None :: 'v value_format option))
       (filter (\<lambda>c. snd c = None) ch)"
  let ?put = "map (\<lambda>((left, right), result). (KeyV2 (KKnownHash left right), Some (ValueV2 (VKnownHash (the result)))))
       (filter (\<lambda>c. snd c \<noteq> None) ch) :: (key_format \<times> 'v value_format option) list"
  have kh: "\<exists>l r. k = KeyV2 (KKnownHash l r)" if "(k, v) \<in> set (?del @ ?put)" for k v
    using that by auto
  let ?m = "upds (concat (map (\<lambda>key. [(KeyV2 (KElement key), None), (KeyV1 key, None)]) rs))
    (upds (concat (map (\<lambda>(key, value). [(KeyV2 (KElement key), Some (ValueV2 (Metadata value))), (KeyV1 key, None)]) kvs)) m)"
  have m': "m' m rs ch = upds (?del @ ?put) ?m"
    unfolding m'_def batch_ops_def by simp
  have el: "m' m rs ch (KeyV2 (KElement e)) = ?m (KeyV2 (KElement e))"
    and v1: "m' m rs ch (KeyV1 e) = ?m (KeyV1 e)"
    unfolding m' by (rule upds_hashes; erule kh)+
  show "m' m rs ch (KeyV2 (KElement e)) = (if e \<in> set rs then None else
      case map_of kvs e of Some v \<Rightarrow> Some (ValueV2 (Metadata v)) | None \<Rightarrow> m (KeyV2 (KElement e)))"
    by (simp only: el upds_dels upds_puts) (simp add: map_of_rev_distinct [OF assms(2)])
  show "m' m rs ch (KeyV1 e) = (if e \<in> set rs \<or> e \<in> fst ` set kvs then None else m (KeyV1 e))"
    by (simp only: v1 upds_dels upds_puts) simp
  show "(\<exists>h. ((l, r), Some h) \<in> set ch \<and> v = ValueV2 (VKnownHash h)) \<or> m (KeyV2 (KKnownHash l r)) = Some v"
    if "m' m rs ch (KeyV2 (KKnownHash l r)) = Some v"
  proof -
    from upds_known [OF that [unfolded m']] show ?thesis
      by (simp only: upds_dels upds_puts) auto
  qed
qed

context hash_cache
begin

lemma fold_record_event:
  assumes "list_all event_ok ev" and "\<forall>l r h. ((l, r), Some h) \<in> set m \<longrightarrow> h = H l r"
    and "distinct (map fst m)"
  shows "\<forall>l r h. ((l, r), Some h) \<in> set (fold record_event ev m) \<longrightarrow> h = H l r"
  using assms
proof (induction ev arbitrary: m)
  case (Cons e ev)
  have "\<forall>l r h. ((l, r), Some h) \<in> set (record_event e m) \<longrightarrow> h = H l r"
    using Cons.prems by (cases e) (simp_all add: set_alist_update)
  moreover have "distinct (map fst (record_event e m))"
    using Cons.prems(3) by (cases e) (simp_all add: distinct_update)
  ultimately show ?case
    using Cons.IH [of "record_event e m"] Cons.prems(1) by simp
qed simp

end

section \<open>Inserting a batch keeps tree and database together\<close>

lemma batch_inv_distinct:
  assumes "batch_inv d b"
  shows "distinct (map fst (b_entries b))" and "fst ` set (b_entries b) \<inter> set (b_remove_entries b) = {}"
proof -
  have "distinct (batch_elements b)"
    using assms distinct_map [of "\<lambda>e. lsb e (d - 1)" "batch_elements b"] by (simp add: batch_inv_def)
  then show "distinct (map fst (b_entries b))" "fst ` set (b_entries b) \<inter> set (b_remove_entries b) = {}"
    by (simp_all add: batch_elements_def insert_elements_def remove_elements_def)
qed

lemma db_value_batch:
  assumes "db_consistent H m" and "distinct (map fst kvs)"
  shows "db_value (upds (batch_ops kvs rs ch) m) = (db_value m ++ map_of kvs) |` (- set rs)"
proof
  fix e
  show "db_value (upds (batch_ops kvs rs ch) m) e = ((db_value m ++ map_of kvs) |` (- set rs)) e"
    using map_of_eq_None_iff [of kvs e]
    by (auto simp: db_value_def upds_batch_ops [OF assms(2)] restrict_map_def map_add_def split: option.splits)
qed

lemma db_consistent_batch:
  assumes "db_consistent H m" and d: "distinct (map fst kvs)"
    and ch: "\<forall>l r h. ((l, r), Some h) \<in> set ch \<longrightarrow> h = H l r"
  shows "db_consistent H (upds (batch_ops kvs rs ch) m)"
proof -
  note u = upds_batch_ops [OF d]
  have "v = ValueV2 (VKnownHash (H l r))"
    if "upds (batch_ops kvs rs ch) m (KeyV2 (KKnownHash l r)) = Some v" for l r v
    using u(3) [OF that] ch assms(1) by (auto simp: db_consistent_def)
  moreover have "value_data v \<noteq> None" if "upds (batch_ops kvs rs ch) m (KeyV2 (KElement e)) = Some v" for e v
    using that assms(1) unfolding u(1) db_consistent_def by (auto split: if_splits option.splits)
  moreover have "value_data v \<noteq> None" if "upds (batch_ops kvs rs ch) m (KeyV1 e) = Some v" for e v
    using that assms(1) unfolding u(2) db_consistent_def by (auto split: if_splits)
  moreover have "upds (batch_ops kvs rs ch) m (KeyV1 e) = None \<or>
      upds (batch_ops kvs rs ch) m (KeyV2 (KElement e)) = None" for e
    using assms(1) map_of_eq_None_iff [of kvs e]
    unfolding u(1,2) db_consistent_def by (auto split: if_splits option.splits)
  ultimately show ?thesis unfolding db_consistent_def by blast
qed

lemma persistent_batch_tree:
  assumes "persistent_inv d H p" and "batch_inv d b" and "batch_fits d (pe_tree p) b"
  shows "\<exists>t' ev. insert_batch tn d H (simple_hash H) (pe_tree p) b = Ok (t', ev) \<and> tree_inv H (simple_inv H) d t' \<and>
     tree_get t' = (tree_get (pe_tree p) ++ map_of (b_entries b)) |` (- set (b_remove_entries b)) \<and>
     list_all (simple.event_ok H) ev \<and>
     (\<exists>r c. root_hash H t' = Ok r \<and>
        root_hash_with d H (simple_hash H) (pe_tree p) (insert_elements b) (remove_elements b) = Ok (r, c))"
  using simple.insert_batch_ok [OF _ assms(2,3), of H tn] assms(1) batch_inv_distinct [OF assms(2)]
  by (auto simp: map_of_rev_distinct persistent_inv_def)

lemma persistent_insert_batch_ok:
  assumes inv: "persistent_inv d H p" and b: "batch_inv d b" and fits: "batch_fits d (pe_tree p) b"
  shows "\<exists>p'. persistent_insert_batch True tn d H p b = (p', Ok ()) \<and> persistent_inv d H p' \<and>
     tree_get (pe_tree p') = (tree_get (pe_tree p) ++ map_of (b_entries b)) |` (- set (b_remove_entries b)) \<and>
     (\<exists>r c. root_hash H (pe_tree p') = Ok r \<and>
        root_hash_with d H (simple_hash H) (pe_tree p) (insert_elements b) (remove_elements b) = Ok (r, c))"
proof -
  have t: "tree_inv H (simple_inv H) d (pe_tree p)" and db: "distinct (map fst (pe_db p))"
    "db_consistent H (map_of (pe_db p))" "db_value (map_of (pe_db p)) = tree_get (pe_tree p)"
    using inv by (simp_all add: persistent_inv_def)
  have dist: "distinct (map fst (b_entries b))" using batch_inv_distinct [OF b] by simp
  obtain t' ev where ib: "insert_batch tn d H (simple_hash H) (pe_tree p) b = Ok (t', ev)"
    and t': "tree_inv H (simple_inv H) d t'"
    "tree_get t' = (tree_get (pe_tree p) ++ map_of (b_entries b)) |` (- set (b_remove_entries b))"
    and ev: "list_all (simple.event_ok H) ev"
    and rh: "\<exists>r c. root_hash H t' = Ok r \<and>
        root_hash_with d H (simple_hash H) (pe_tree p) (insert_elements b) (remove_elements b) = Ok (r, c)"
    using persistent_batch_tree [OF inv b fits, of tn] by blast
  show ?thesis
  proof (cases "batch_is_empty b")
    case True
    then have e: "b_entries b = []" "b_remove_entries b = []" by (simp_all add: batch_is_empty_def)
    then have "tree_get t' = tree_get (pe_tree p)" using t'(2) by (simp add: restrict_map_def)
    then have "set (tree_elements t') = set (tree_elements (pe_tree p))"
      by (simp add: tree_elements_def bt_keys_dom tree_get_def [abs_def])
    then have "root_hash H t' = root_hash H (pe_tree p)"
      by (rule root_hash_same_elements [OF t'(1) t])
    then show ?thesis
      using True inv e rh by (simp add: persistent_insert_batch_def restrict_map_def)
  next
    case False
    let ?ch = "fold record_event ev []"
    let ?p = "p\<lparr>pe_tree := t', pe_db := db_write (pe_db p) (batch_ops (b_entries b) (remove_elements b) ?ch)\<rparr>"
    have "persistent_insert_batch True tn d H p b = (?p, Ok ())"
      using False ib by (simp add: persistent_insert_batch_def Let_def)
    moreover have "\<forall>l r h. ((l, r), Some h) \<in> set ?ch \<longrightarrow> h = H l r"
      by (rule simple.fold_record_event [OF ev]) simp_all
    then have "persistent_inv d H ?p"
      using t' db db_consistent_batch [OF db(2) dist] db_value_batch [OF db(2) dist]
      by (simp add: persistent_inv_def map_of_db_write distinct_db_write remove_elements_def)
    ultimately show ?thesis using t'(2) rh by auto
  qed
qed

section \<open>Loading\<close>

fun entry_hash :: "key_format \<times> 'v value_format \<Rightarrow> known_hash list" where
  "entry_hash (KeyV2 (KKnownHash l r), ValueV2 (VKnownHash h)) = [\<lparr>kh_left = l, kh_right = r, kh_result = h\<rparr>]"
| "entry_hash _ = []"

fun entry_kv :: "key_format \<times> 'v value_format \<Rightarrow> (element \<times> 'v) list" where
  "entry_kv (KeyV1 e, v) = (case value_data v of Some m \<Rightarrow> [(e, m)] | None \<Rightarrow> [])"
| "entry_kv (KeyV2 (KElement e), v) = (case value_data v of Some m \<Rightarrow> [(e, m)] | None \<Rightarrow> [])"
| "entry_kv _ = []"

fun entry_consistent :: "key_format \<times> 'v value_format \<Rightarrow> bool" where
  "entry_consistent (KeyV1 e, v) \<longleftrightarrow> value_data v \<noteq> None"
| "entry_consistent (KeyV2 (KElement e), v) \<longleftrightarrow> value_data v \<noteq> None"
| "entry_consistent (KeyV2 (KKnownHash l r), v) \<longleftrightarrow> value_data v = None"

lemma value_data_cases:
  "value_data v = None \<Longrightarrow> \<exists>h. v = ValueV2 (VKnownHash h)"
  "value_data v = Some m \<Longrightarrow> v = ValueV1 m \<or> v = ValueV2 (Metadata m)"
  by (cases v rule: value_data.cases; simp)+

lemma collect_entry_consistent:
  "entry_consistent kv \<Longrightarrow> collect_entry acc kv = Ok (fst acc @ entry_hash kv, snd acc @ entry_kv kv)"
  by (cases kv rule: entry_consistent.cases)
     (auto simp: collect_entry_def dest!: value_data_cases)

lemma collect_entries:
  "list_all entry_consistent db \<Longrightarrow>
   fold_o collect_entry acc db = Ok (fst acc @ concat (map entry_hash db), snd acc @ concat (map entry_kv db))"
  by (induction db arbitrary: acc) (simp_all add: collect_entry_consistent)

lemma entry_kv_key: "(e, v) \<in> set (entry_kv (k, x)) \<longleftrightarrow>
    (k = KeyV1 e \<or> k = KeyV2 (KElement e)) \<and> value_data x = Some v"
  by (cases "(k, x)" rule: entry_kv.cases) (auto split: option.splits)

lemma distinct_entry_kvs:
  assumes "distinct (map fst db)"
    and "\<forall>e. KeyV1 e \<notin> fst ` set db \<or> KeyV2 (KElement e) \<notin> fst ` set db"
  shows "distinct (map fst (concat (map entry_kv db)))"
  using assms
proof (induction db)
  case (Cons kx db)
  obtain k x where kx: "kx = (k, x)" by fastforce
  have "\<forall>e. KeyV1 e \<notin> fst ` set db \<or> KeyV2 (KElement e) \<notin> fst ` set db"
    using Cons.prems(2) by (simp add: kx) blast
  then have "distinct (map fst (concat (map entry_kv db)))"
    using Cons by simp
  moreover have "distinct (map fst (entry_kv kx))"
    unfolding kx by (cases "(k, x)" rule: entry_kv.cases) (auto split: option.splits)
  moreover have "e \<notin> fst ` set (concat (map entry_kv db))" if "(e, v) \<in> set (entry_kv kx)" for e v
  proof
    assume "e \<in> fst ` set (concat (map entry_kv db))"
    then obtain k' x' v' where k': "(k', x') \<in> set db" "(e, v') \<in> set (entry_kv (k', x'))" by fastforce
    have "k' \<in> fst ` set db" using k'(1) by force
    moreover have "k \<notin> fst ` set db"
      "KeyV1 e \<notin> insert k (fst ` set db) \<or> KeyV2 (KElement e) \<notin> insert k (fst ` set db)"
      using Cons.prems unfolding kx by simp_all
    ultimately show False
      using that k'(2) unfolding entry_kv_key kx by (elim conjE disjE) simp_all
  qed
  then have "fst ` set (entry_kv kx) \<inter> fst ` set (concat (map entry_kv db)) = {}"
    unfolding disjoint_iff by (metis imageE prod.collapse)
  ultimately show ?case by (simp only: list.map concat.simps map_append distinct_append set_map)
qed simp

lemma db_entries:
  assumes "distinct (map fst db)" and "db_consistent H (map_of db)"
  shows "list_all entry_consistent db"
    and "\<forall>h \<in> set (concat (map entry_hash db)). kh_valid H h"
    and "distinct (map fst (concat (map entry_kv db)))"
    and "map_of (concat (map entry_kv db)) = db_value (map_of db)"
proof -
  have mo: "(k, v) \<in> set db \<longleftrightarrow> map_of db k = Some v" for k v
    using assms(1) by simp
  have "entry_consistent (k, v)" if "(k, v) \<in> set db" for k v
    using that assms(2) unfolding mo db_consistent_def
    by (cases "(k, v)" rule: entry_consistent.cases) fastforce+
  then show "list_all entry_consistent db" by (auto simp: list_all_iff)
  have "kh_valid H h" if "(k, v) \<in> set db" "h \<in> set (entry_hash (k, v))" for k v h
    using that assms(2) unfolding mo db_consistent_def kh_valid_def
    by (cases "(k, v)" rule: entry_hash.cases) fastforce+
  then show "\<forall>h \<in> set (concat (map entry_hash db)). kh_valid H h" by fastforce
  show d: "distinct (map fst (concat (map entry_kv db)))"
    using assms by (intro distinct_entry_kvs) (auto simp: db_consistent_def map_of_eq_None_iff)
  have "(e, v) \<in> set (concat (map entry_kv db)) \<longleftrightarrow> db_value (map_of db) e = Some v" for e v
  proof -
    have "(e, v) \<in> set (concat (map entry_kv db)) \<longleftrightarrow>
        (\<exists>k x. map_of db k = Some x \<and> (k = KeyV1 e \<or> k = KeyV2 (KElement e)) \<and> value_data x = Some v)"
      by (simp add: mo [symmetric] entry_kv_key [symmetric] split: prod.splits) force
    moreover have "map_of db (KeyV1 e) = None \<or> map_of db (KeyV2 (KElement e)) = None"
      using assms(2) by (simp add: db_consistent_def)
    ultimately show ?thesis
      by (auto simp: db_value_def bind_eq_Some_conv split: option.splits simp del: set_concat)
  qed
  then show "map_of (concat (map entry_kv db)) = db_value (map_of db)"
    using d by (intro ext) (metis map_of_eq_Some_iff not_Some_eq)
qed

lemma fold_batch_insert_ok:
  assumes "batch_inv d b" and "b_remove_entries b = []"
    and "distinct (map (\<lambda>e. lsb e (d - 1)) (batch_elements b @ map fst kvs))"
  shows "\<exists>b'. fold_o (\<lambda>b ev. batch_insert d b (fst ev) (snd ev)) b kvs = Ok b'"
  using assms
proof (induction kvs arbitrary: b)
  case (Cons ev kvs)
  have "\<forall>e' \<in> set (batch_elements b). lsb e' (d - 1) \<noteq> lsb (fst ev) (d - 1)"
    using Cons.prems(3) by (force simp: image_iff)
  then obtain b' where b': "batch_insert d b (fst ev) (snd ev) = Ok b'"
    using batch_insert_Ok_iff [OF Cons.prems(1)] by blast
  then have "b_remove_entries b' = []" "batch_elements b' = batch_elements b @ [fst ev]"
    using Cons.prems(2)
    by (auto simp: batch_insert_def batch_elements_def insert_elements_def remove_elements_def Let_def
        split: if_splits option.splits)
  then show ?case
    using Cons.IH [of b'] Cons.prems(3) batch_inv_insert [OF Cons.prems(1) b'] b' by simp
qed simp

lemma load_tree_ok:
  assumes "persistent_inv d H p"
  shows "\<exists>t. load_tree tn d H (pe_db p) = Ok t \<and> tree_inv H (simple_inv H) d t \<and>
     tree_get t = tree_get (pe_tree p) \<and> root_hash H t = root_hash H (pe_tree p)"
proof -
  let ?db = "pe_db p" and ?t = "pe_tree p"
  let ?hs = "concat (map entry_hash ?db)" and ?kvs = "concat (map entry_kv ?db)"
  have t: "tree_inv H (simple_inv H) d ?t" and db: "distinct (map fst ?db)" "db_consistent H (map_of ?db)"
    and val: "db_value (map_of ?db) = tree_get ?t"
    using assms by (simp_all add: persistent_inv_def)
  note e = db_entries [OF db]
  obtain cache where c: "provide_known_hashes simple_new ?hs = (Ok cache :: (simple_hash_cache, storage_error) outcome)"
    "provide_known_hashes simple_new ?hs = (Ok cache :: (simple_hash_cache, collision) outcome)"
    by (simp add: provide_known_hashes_def simple_new_def Let_def)
  have ci: "simple_inv H cache"
    by (rule simple_inv_provide [OF simple_inv_new e(2) c(2)])
  have elems: "fst ` set ?kvs = set (tree_elements ?t)"
    using dom_map_of_conv_image_fst [of ?kvs]
    by (simp only: e(4) val tree_elements_def bt_keys_dom tree_get_def [abs_def])
  have "inj_on (\<lambda>e. lsb e (d - 1)) (fst ` set ?kvs)"
    using tree_inv_slots [OF t] unfolding elems slots_distinct_def inj_on_def by blast
  then have "distinct (map (\<lambda>e. lsb e (d - 1)) (map fst ?kvs))"
    using e(3) by (simp only: distinct_map [of _ "map fst ?kvs"] set_map)
  then obtain b where b: "fold_o (\<lambda>b ev. batch_insert d b (fst ev) (snd ev)) batch_new ?kvs = Ok b"
    using fold_batch_insert_ok [OF batch_inv_new, of d ?kvs]
    by (auto simp: batch_new_def batch_elements_def insert_elements_def remove_elements_def)
  have bi: "batch_inv d b"
    using fold_o_invariant [OF b, of "batch_inv d"] by (auto intro: wf_intros)
  have bc: "b_entries b = ?kvs" "b_remove_entries b = []"
    using fold_batch_insert_entries [OF b] by (simp_all add: batch_new_def)
  have "valid_depth d" using t by (simp add: tree_inv_def)
  then have nt: "tree_inv H (simple_inv H) d (new_with_cache d cache :: ('a, simple_hash_cache) smirk_tree)"
    using ci by (rule tree_inv_new)
  have "batch_fits d (new_with_cache d cache :: ('a, simple_hash_cache) smirk_tree) b"
    using tree_inv_not_null [OF t] elems
    by (simp add: batch_fits_def batch_elements_def insert_elements_def remove_elements_def bc
        new_with_cache_def tree_elements_def bt_keys_def)
  then obtain t' ev where t': "insert_batch tn d H (simple_hash H) (new_with_cache d cache) b = Ok (t', ev)"
    "tree_inv H (simple_inv H) d t'"
    "tree_get t' = (tree_get (new_with_cache d cache) ++ map_of (rev (b_entries b))) |` (- set (b_remove_entries b))"
    using simple.insert_batch_ok [OF nt bi, of tn] by blast
  have "tree_get t' = tree_get ?t"
    using t'(3) e(3,4) val
    by (simp add: bc map_of_rev_distinct new_with_cache_def tree_get_def [abs_def] restrict_map_def bt_get_def)
  moreover from this have "set (tree_elements t') = set (tree_elements ?t)"
    by (simp add: tree_elements_def bt_keys_dom tree_get_def [abs_def])
  then have "root_hash H t' = root_hash H ?t" by (rule root_hash_same_elements [OF t'(2) t])
  moreover have "load_tree tn d H ?db = Ok t'"
    using b c(1) t'(1) collect_entries [OF e(1), of "([], [])"] by (simp add: load_tree_def)
  ultimately show ?thesis using t'(2) by blast
qed

section \<open>Synchronising hashes\<close>

lemma upds_known_hashes:
  defines "ops \<equiv> \<lambda>hs. map (\<lambda>h. (KeyV2 (KKnownHash (kh_left h) (kh_right h)), Some (ValueV2 (VKnownHash (kh_result h))))) hs"
  assumes "db_consistent H m" and "\<forall>h \<in> set hs. kh_valid H h"
  shows "db_consistent H (upds (ops hs) m)" and "db_value (upds (ops hs) m) = db_value m"
proof -
  have kh: "\<exists>l r. k = KeyV2 (KKnownHash l r)" if "(k, v) \<in> set (ops hs)" for k v
    using that by (auto simp: ops_def)
  have v1: "upds (ops hs) m (KeyV1 e) = m (KeyV1 e)"
    and v2: "upds (ops hs) m (KeyV2 (KElement e)) = m (KeyV2 (KElement e))" for e
    by (rule upds_hashes; erule kh)+
  have "v = ValueV2 (VKnownHash (H l r))" if "upds (ops hs) m (KeyV2 (KKnownHash l r)) = Some v" for l r v
    using upds_known [OF that] assms(2,3) by (auto simp: ops_def db_consistent_def kh_valid_def)
  then show "db_consistent H (upds (ops hs) m)"
    using assms(2) unfolding db_consistent_def v1 v2 by simp
  show "db_value (upds (ops hs) m) = db_value m"
    by (rule ext) (simp add: db_value_def v1 v2 split: option.splits)
qed

lemma synchronize_hashes_ok:
  assumes "persistent_inv d H p"
  shows "\<exists>p'. synchronize_hashes True H p = (p', Ok ()) \<and> persistent_inv d H p' \<and> pe_tree p' = pe_tree p"
proof -
  have inv: "tree_inv H (simple_inv H) d (pe_tree p)" "distinct (map fst (pe_db p))"
    "db_consistent H (map_of (pe_db p))" "db_value (map_of (pe_db p)) = tree_get (pe_tree p)"
    using assms by (simp_all add: persistent_inv_def)
  obtain hs where hs: "tree_known_hashes H (pe_tree p) = Ok hs" "list_all (kh_valid H) hs"
    using known_hashes_valid [of d "[]" d "tr_node (pe_tree p)" H "[]"] inv(1)
    by (auto simp: tree_inv_def tree_known_hashes_def)
  let ?hs = "filter (\<lambda>h. h \<notin> set (db_known_hashes (pe_db p))) hs"
  have "\<forall>h \<in> set ?hs. kh_valid H h" using hs(2) by (auto simp: list_all_iff)
  then show ?thesis
    using upds_known_hashes [OF inv(3)] hs(1) inv
    by (simp add: synchronize_hashes_def Let_def persistent_inv_def map_of_db_write distinct_db_write)
qed

section \<open>Properties\<close>

lemma persistent_new_inv: "valid_depth d \<Longrightarrow> persistent_inv d H (persistent_new d)"
  using tree_inv_new [of d "simple_inv H" simple_new H] simple_inv_new [of H]
  by (simp add: persistent_inv_def persistent_new_def db_consistent_def new_with_cache_def
      db_value_def [abs_def] tree_get_def [abs_def] bt_get_def)

lemma demo_persistent_ok:
  "persistent_inv 4 demo_hash (persistent_new 4 :: nat persistent)"
  "batch_fits 4 (pe_tree (persistent_new 4 :: nat persistent)) demo_batch"
  using demo_batch_ok(2) persistent_new_inv [of 4 demo_hash]
  by (simp_all add: valid_depth_def) (simp add: persistent_new_def demo_tree_def)

text \<open>
  Loading the database of a consistent persistent tree succeeds and gives back the same
  entries and the same root hash, over a cache of valid known hashes; the known hashes stored
  with the tree never change a hash.
\<close>

lemma persistent_load_roundtrip:
  assumes "persistent_inv d H p"
  shows "\<exists>p'. persistent_load tn d H (pe_db p) = Ok p' \<and> persistent_inv d H p' \<and>
     tree_get (pe_tree p') = tree_get (pe_tree p) \<and> root_hash H (pe_tree p') = root_hash H (pe_tree p)"
  using load_tree_ok [OF assms, of tn] assms by (auto simp: persistent_load_def persistent_inv_def)

text \<open>
  A batch that meets the tree: an element to insert finds its slot taken, or the slot of an element to
  remove is free. With the feature \<open>temp_noir\<close> both are reported as collisions; without it the second is a
  failed assertion.
\<close>

definition batch_clashes :: "nat \<Rightarrow> ('v, 'c) smirk_tree \<Rightarrow> 'w batch \<Rightarrow> bool" where
  "batch_clashes d t b \<longleftrightarrow>
     (\<exists>e \<in> set (tree_elements t). \<exists>x \<in> set (insert_elements b). collides_with d e x) \<or>
     (\<exists>x \<in> set (remove_elements b). \<forall>e \<in> set (tree_elements t). \<not> collides_with d e x)"

definition removals_present :: "nat \<Rightarrow> ('v, 'c) smirk_tree \<Rightarrow> 'w batch \<Rightarrow> bool" where
  "removals_present d t b \<longleftrightarrow> (\<forall>x \<in> set (remove_elements b). \<exists>e \<in> set (tree_elements t). collides_with d e x)"

lemma removal_errors_spec:
  assumes "tn \<or> (\<forall>e \<in> set es. lsb e (d - 1) \<in> set ls)"
  shows "\<exists>cs. removal_errors tn d ls es = Ok cs \<and> (cs = [] \<longleftrightarrow> (\<forall>e \<in> set es. lsb e (d - 1) \<in> set ls))"
  using assms by (induction es) auto

lemma insert_batch_refused:
  assumes "batch_inv d b" and "batch_clashes d t b" and "tn \<or> removals_present d t b"
  shows "\<exists>cs. insert_batch tn d H chash t b = Err cs"
proof -
  let ?ls = "map (\<lambda>e. lsb e (d - 1)) (tree_elements t)"
  obtain cs where cs: "tree_collisions d b (tree_elements t) = Ok cs"
    "map in_tree cs = filter (\<lambda>e. \<exists>x \<in> set (insert_elements b). collides_with d e x) (tree_elements t)"
    using tree_collisions_spec [OF assms(1)] by blast
  have "tn \<or> (\<forall>e \<in> set (remdups (remove_elements b)). lsb e (d - 1) \<in> set ?ls)"
    using assms(3) by (simp add: removals_present_def collides_with_def image_iff) metis
  from removal_errors_spec [OF this]
  obtain cs' where cs': "removal_errors tn d ?ls (remdups (remove_elements b)) = Ok cs'"
    "cs' = [] \<longleftrightarrow> (\<forall>e \<in> set (remdups (remove_elements b)). lsb e (d - 1) \<in> set ?ls)"
    by blast
  have "cs @ cs' \<noteq> []"
  proof
    assume e: "cs @ cs' = []"
    then have "\<not> (\<exists>e \<in> set (tree_elements t). \<exists>x \<in> set (insert_elements b). collides_with d e x)"
      using cs(2) [symmetric] by (auto simp: filter_empty_conv)
    moreover have "removals_present d t b"
      using e cs'(2) by (force simp: removals_present_def collides_with_def)
    ultimately show False using assms(2) by (auto simp: batch_clashes_def removals_present_def)
  qed
  then show ?thesis using cs(1) cs'(1) by (simp add: insert_batch_def check_collisions_def)
qed


definition demo_persistent :: "nat persistent" where
  "demo_persistent = \<lparr>pe_tree = demo_tree_1, pe_db = [(KeyV1 2, ValueV1 20)]\<rparr>"

lemma demo_persistent_inv: "persistent_inv 4 demo_hash demo_persistent"
  using demo_tree_1_inv
  by (auto simp: persistent_inv_def demo_persistent_def demo_tree_1_def db_consistent_def db_value_def [abs_def]
      tree_get_def [abs_def] bt_get_def fun_eq_iff)


end
