(* ===== verification/Block_Store.thy ===== *)
theory Block_Store
  imports Element
begin

text \<open>
  The block store (\<open>block-store/src\<close>): blocks, transactions and their indexes in a RocksDB
  database. A database is a map sorted by the bytes of its keys, which RocksDB iterates within
  bounds; keys are kept as bytes, because the order of the bytes is what a range query relies on.
  A value is kept as the Rust value that \<open>to_bytes\<close> encodes. The traits \<open>Block\<close> and
  \<open>Transaction\<close> are the record \<open>block_trait\<close>.
\<close>

section \<open>Big-endian integers\<close>

fun to_be :: "nat \<Rightarrow> nat \<Rightarrow> u8 list" where
  "to_be 0 n = []"
| "to_be (Suc k) n = to_be k (n div 256) @ [word_of_nat n]"

definition be_val :: "u8 list \<Rightarrow> nat" where
  "be_val bs = foldl (\<lambda>acc b. acc * 256 + unat b) 0 bs"

definition u64_to_be_bytes :: "u64 \<Rightarrow> u8 list" where
  "u64_to_be_bytes w = to_be 8 (unat w)"

definition u64_from_be_bytes :: "u8 list \<Rightarrow> u64" where
  "u64_from_be_bytes bs = word_of_nat (be_val bs)"

lemma length_to_be [simp]: "length (to_be k n) = k"
  by (induction k arbitrary: n) auto

lemma be_val_snoc [simp]: "be_val (bs @ [b]) = be_val bs * 256 + unat b"
  by (simp add: be_val_def)

lemma be_val_to_be: "be_val (to_be k n) = n mod 256 ^ k"
proof (induction k arbitrary: n)
  case (Suc k)
  have "unat (word_of_nat n :: u8) = n mod 256" by (simp add: unat_of_nat)
  then show ?case using Suc mod_mult2_eq [of n 256 "256 ^ k"] by (simp add: mult.commute)
qed (simp add: be_val_def)

lemma be_val_Cons: "be_val (b # bs) = unat b * 256 ^ length bs + be_val bs"
  by (induction bs rule: rev_induct) (simp_all add: be_val_def algebra_simps)

lemma be_val_less: "be_val bs < 256 ^ length bs"
proof (induction bs)
  case (Cons b bs)
  have "unat b + 1 \<le> 256" using unsigned_less [of b, where ?'a = nat] by simp
  then have "(unat b + 1) * 256 ^ length bs \<le> 256 * 256 ^ length bs" by (rule mult_le_mono1)
  then have "unat b * 256 ^ length bs + 256 ^ length bs \<le> 256 * 256 ^ length bs"
    by (simp only: add_mult_distrib mult_1)
  then show ?case using Cons unfolding be_val_Cons length_Cons power_Suc by linarith
qed (simp add: be_val_def)

text \<open>Byte strings of one length are ordered like the numbers they encode.\<close>

lemma be_val_less_iff: "length xs = length ys \<Longrightarrow> be_val xs < be_val ys \<longleftrightarrow> xs < ys"
proof (induction xs ys rule: list_induct2)
  case (Cons x xs y ys)
  let ?n = "256 ^ length xs :: nat"
  have less: "unat a * ?n + be_val as < unat b * ?n + be_val bs"
    if "a < b" "length as = length xs" for a b :: u8 and as bs
  proof -
    have "unat a + 1 \<le> unat b" using that(1) by (simp add: word_less_nat_alt)
    then have "(unat a + 1) * ?n \<le> unat b * ?n" by (rule mult_le_mono1)
    then show ?thesis using be_val_less [of as] that(2) by simp
  qed
  show ?case
    using Cons less [of x y xs ys] less [of y x ys xs]
    by (cases x y rule: linorder_cases) (auto simp: be_val_Cons)
qed (simp add: be_val_def)

lemma u64_be_roundtrip [simp]: "u64_from_be_bytes (u64_to_be_bytes w) = w"
  using unsigned_less [of w, where ?'a = nat] by (simp add: u64_from_be_bytes_def u64_to_be_bytes_def be_val_to_be)

lemma length_u64_to_be_bytes [simp]: "length (u64_to_be_bytes w) = 8"
  by (simp add: u64_to_be_bytes_def)

lemma u64_to_be_bytes_less [simp]: "u64_to_be_bytes v < u64_to_be_bytes w \<longleftrightarrow> v < w"
proof -
  have "be_val (u64_to_be_bytes w) = unat w" for w
    using unsigned_less [of w, where ?'a = nat] by (simp add: u64_to_be_bytes_def be_val_to_be)
  then show ?thesis
    using be_val_less_iff [of "u64_to_be_bytes v" "u64_to_be_bytes w"] by (simp add: word_less_nat_alt)
qed

section \<open>Keys\<close>

datatype history_kind = InputKind | OutputKind

datatype store_key =
    KBlock u64 | KMaxHeight | KBlockHashToHeight "u8 list" | KPendingBlock | KTxnByHash "u8 list"
  | KStoreVersion | KNonEmptyBlock u64 | KLockedElement "u8 list"
  | KElementHistory element history_kind | KMintHash element

datatype store_error = InvalidKey | InvalidVersion nat | WireMessage

fun kind_to_byte :: "history_kind \<Rightarrow> u8" where
  "kind_to_byte InputKind = 0"
| "kind_to_byte OutputKind = 1"

definition kind_from_byte :: "u8 \<Rightarrow> history_kind option" where
  "kind_from_byte b = (if b = 0 then Some InputKind else if b = 1 then Some OutputKind else None)"

fun key_kind :: "store_key \<Rightarrow> u8" where
  "key_kind (KBlock _) = 0"
| "key_kind KMaxHeight = 1"
| "key_kind (KBlockHashToHeight _) = 2"
| "key_kind KPendingBlock = 3"
| "key_kind (KTxnByHash _) = 4"
| "key_kind KStoreVersion = 5"
| "key_kind (KNonEmptyBlock _) = 6"
| "key_kind (KLockedElement _) = 7"
| "key_kind (KElementHistory _ _) = 8"
| "key_kind (KMintHash _) = 9"

fun key_body :: "store_key \<Rightarrow> u8 list" where
  "key_body (KBlock h) = u64_to_be_bytes h"
| "key_body (KBlockHashToHeight hash) = hash"
| "key_body (KTxnByHash hash) = hash"
| "key_body (KNonEmptyBlock h) = u64_to_be_bytes h"
| "key_body (KLockedElement e) = e"
| "key_body (KElementHistory e k) = to_be_bytes e @ [kind_to_byte k]"
| "key_body (KMintHash m) = to_be_bytes m"
| "key_body _ = []"

definition serialize :: "store_key \<Rightarrow> u8 list" where
  "serialize k = key_kind k # key_body k"

definition serialize_immediate_successor :: "store_key \<Rightarrow> u8 list" where
  "serialize_immediate_successor k = serialize k @ [0]"

text \<open>\<open>&bytes[0..n]\<close> panics on a short slice.\<close>

definition slice_to :: "nat \<Rightarrow> u8 list \<Rightarrow> (u8 list, store_error) outcome" where
  "slice_to n bs = (if n \<le> length bs then Ok (take n bs) else Panic)"

definition deserialize_height :: "u8 list \<Rightarrow> (u64, store_error) outcome" where
  "deserialize_height bs = bind_o (slice_to 8 bs) (\<lambda>x. Ok (u64_from_be_bytes x))"

fun deserialize :: "u8 list \<Rightarrow> (store_key, store_error) outcome" where
  "deserialize [] = Err InvalidKey"
| "deserialize (kind # bs) =
     (if kind = 0 then bind_o (deserialize_height bs) (\<lambda>h. Ok (KBlock h))
      else if kind = 1 then Ok KMaxHeight
      else if kind = 2 then bind_o (slice_to 32 bs) (\<lambda>h. Ok (KBlockHashToHeight h))
      else if kind = 3 then Ok KPendingBlock
      else if kind = 4 then bind_o (slice_to 32 bs) (\<lambda>h. Ok (KTxnByHash h))
      else if kind = 5 then Ok KStoreVersion
      else if kind = 6 then bind_o (deserialize_height bs) (\<lambda>h. Ok (KNonEmptyBlock h))
      else if kind = 7 then bind_o (slice_to 32 bs) (\<lambda>e. Ok (KLockedElement e))
      else if kind = 8 then
        bind_o (slice_to 32 bs) (\<lambda>e.
          if 32 < length bs then
            (case kind_from_byte (bs ! 32) of
               Some k \<Rightarrow> Ok (KElementHistory (from_be_bytes e) k)
             | None \<Rightarrow> Panic)
          else Panic)
      else if kind = 9 then bind_o (slice_to 32 bs) (\<lambda>m. Ok (KMintHash (from_be_bytes m)))
      else Err InvalidKey)"

text \<open>The hashes inside keys are arrays of 32 bytes.\<close>

fun key_wf :: "store_key \<Rightarrow> bool" where
  "key_wf (KBlockHashToHeight h) \<longleftrightarrow> length h = 32"
| "key_wf (KTxnByHash h) \<longleftrightarrow> length h = 32"
| "key_wf (KLockedElement h) \<longleftrightarrow> length h = 32"
| "key_wf _ \<longleftrightarrow> True"

lemma kind_from_to_byte [simp]: "kind_from_byte (kind_to_byte k) = Some k"
  by (cases k) (simp_all add: kind_from_byte_def)

lemma deserialize_serialize: "key_wf k \<Longrightarrow> deserialize (serialize k) = Ok k"
  by (cases k)
     (auto simp: serialize_def deserialize_height_def slice_to_def nth_append)

lemma serialize_inj: "key_wf k \<Longrightarrow> key_wf k' \<Longrightarrow> serialize k = serialize k' \<longleftrightarrow> k = k'"
  by (metis deserialize_serialize outcome.inject(1))

section \<open>The store\<close>

record history_data =
  hd_block_hash :: "u8 list"
  hd_block_height :: u64

datatype ('b, 't) store_value =
    VBlock 'b | VTxn 't | VHeight u64 | VVersion nat | VHistory history_data | VMint history_data

record ('b, 't) block_trait =
  bl_height :: "'b \<Rightarrow> u64"
  bl_hash :: "'b \<Rightarrow> u8 list"
  bl_txns :: "'b \<Rightarrow> 't list"
  tx_hash :: "'t \<Rightarrow> u8 list"
  tx_inputs :: "'t \<Rightarrow> element list"
  tx_outputs :: "'t \<Rightarrow> element list"
  tx_mint_hash :: "'t \<Rightarrow> element option"

type_synonym ('b, 't) store_db = "(u8 list, ('b, 't) store_value) btree"

definition LATEST_VERSION :: nat where
  "LATEST_VERSION = 1"

definition db_put_all :: "(store_key \<times> ('b, 't) store_value) list \<Rightarrow> ('b, 't) store_db \<Rightarrow> ('b, 't) store_db" where
  "db_put_all ops db = fold (\<lambda>(k, v). bt_insert (serialize k) v) ops db"

definition set_store_version :: "nat \<Rightarrow> ('b, 't) store_db \<Rightarrow> ('b, 't) store_db" where
  "set_store_version v db = bt_insert (serialize KStoreVersion) (VVersion v) db"

definition store_create :: "('b, 't) store_db" where
  "store_create = set_store_version LATEST_VERSION []"

definition store_version :: "('b, 't) store_db \<Rightarrow> (nat, store_error) outcome" where
  "store_version db = (case bt_get db (serialize KStoreVersion) of
     None \<Rightarrow> Ok 0 | Some (VVersion v) \<Rightarrow> Ok v | Some _ \<Rightarrow> Panic)"

definition get_max_height :: "('b, 't) store_db \<Rightarrow> (u64 option, store_error) outcome" where
  "get_max_height db = (case bt_get db (serialize KMaxHeight) of
     None \<Rightarrow> Ok None | Some (VHeight h) \<Rightarrow> Ok (Some h) | Some _ \<Rightarrow> Panic)"

definition get_block_height_by_hash :: "('b, 't) store_db \<Rightarrow> u8 list \<Rightarrow> (u64 option, store_error) outcome" where
  "get_block_height_by_hash db hash = (case bt_get db (serialize (KBlockHashToHeight hash)) of
     None \<Rightarrow> Ok None | Some (VHeight h) \<Rightarrow> Ok (Some h) | Some _ \<Rightarrow> Panic)"

fun block_from_bytes :: "('b, 't) store_value \<Rightarrow> ('b, store_error) outcome" where
  "block_from_bytes (VBlock b) = Ok b"
| "block_from_bytes _ = Err WireMessage"

fun txn_from_bytes :: "('b, 't) store_value \<Rightarrow> ('t, store_error) outcome" where
  "txn_from_bytes (VTxn t) = Ok t"
| "txn_from_bytes _ = Err WireMessage"

definition store_get :: "('b, 't) store_db \<Rightarrow> u64 \<Rightarrow> ('b option, store_error) outcome" where
  "store_get db h = (case bt_get db (serialize (KBlock h)) of
     None \<Rightarrow> Ok None | Some v \<Rightarrow> bind_o (block_from_bytes v) (\<lambda>b. Ok (Some b)))"

definition get_pending_block :: "('b, 't) store_db \<Rightarrow> ('b option, store_error) outcome" where
  "get_pending_block db = (case bt_get db (serialize KPendingBlock) of
     None \<Rightarrow> Ok None | Some v \<Rightarrow> bind_o (block_from_bytes v) (\<lambda>b. Ok (Some b)))"

definition get_txn_by_hash :: "('b, 't) store_db \<Rightarrow> u8 list \<Rightarrow> ('t option, store_error) outcome" where
  "get_txn_by_hash db hash = (case bt_get db (serialize (KTxnByHash hash)) of
     None \<Rightarrow> Ok None | Some v \<Rightarrow> bind_o (txn_from_bytes v) (\<lambda>t. Ok (Some t)))"

definition get_element_history_with_kind ::
    "('b, 't) store_db \<Rightarrow> element \<Rightarrow> history_kind \<Rightarrow> (history_data option, store_error) outcome" where
  "get_element_history_with_kind db e k = (case bt_get db (serialize (KElementHistory e k)) of
     None \<Rightarrow> Ok None | Some (VHistory d) \<Rightarrow> Ok (Some d) | Some _ \<Rightarrow> Err WireMessage)"

definition get_element_history ::
    "('b, 't) store_db \<Rightarrow> element \<Rightarrow> (history_data option \<times> history_data option, store_error) outcome" where
  "get_element_history db e =
     bind_o (get_element_history_with_kind db e InputKind) (\<lambda>i.
     bind_o (get_element_history_with_kind db e OutputKind) (\<lambda>ou. Ok (i, ou)))"

definition get_mint_hash :: "('b, 't) store_db \<Rightarrow> element \<Rightarrow> (history_data option, store_error) outcome" where
  "get_mint_hash db m = (case bt_get db (serialize (KMintHash m)) of
     None \<Rightarrow> Ok None | Some (VMint d) \<Rightarrow> Ok (Some d) | Some _ \<Rightarrow> Err WireMessage)"

definition txn_entries :: "('b, 't) block_trait \<Rightarrow> 'b \<Rightarrow> (store_key \<times> ('b, 't) store_value) list" where
  "txn_entries T b = map (\<lambda>t. (KTxnByHash (tx_hash T t), VTxn t)) (bl_txns T b)"

definition non_empty_key :: "('b, 't) block_trait \<Rightarrow> 'b \<Rightarrow> store_key option" where
  "non_empty_key T b = (if bl_txns T b = [] then None else Some (KNonEmptyBlock (bl_height T b)))"

definition history_entries :: "('b, 't) block_trait \<Rightarrow> 'b \<Rightarrow> 't \<Rightarrow> (store_key \<times> ('b, 't) store_value) list" where
  "history_entries T b t =
     (let d = \<lparr>hd_block_hash = bl_hash T b, hd_block_height = bl_height T b\<rparr>
      in map (\<lambda>(leaf, kind). (KElementHistory leaf kind, VHistory d))
           (map (\<lambda>e. (e, InputKind)) (tx_inputs T t) @ map (\<lambda>e. (e, OutputKind)) (tx_outputs T t)) @
         (case tx_mint_hash T t of Some m \<Rightarrow> [(KMintHash m, VMint d)] | None \<Rightarrow> []))"

definition set_entries ::
    "('b, 't) block_trait \<Rightarrow> 'b \<Rightarrow> u64 option \<Rightarrow> (store_key \<times> ('b, 't) store_value) list" where
  "set_entries T b max_height =
     [(KBlock (bl_height T b), VBlock b)] @
     (case max_height of
        None \<Rightarrow> [(KMaxHeight, VHeight (bl_height T b))]
      | Some m \<Rightarrow> if bl_height T b > m then [(KMaxHeight, VHeight (bl_height T b))] else []) @
     [(KBlockHashToHeight (bl_hash T b), VHeight (bl_height T b))] @
     txn_entries T b @
     (case non_empty_key T b of Some k \<Rightarrow> [(k, VBlock b)] | None \<Rightarrow> []) @
     concat (map (history_entries T b) (bl_txns T b))"

definition store_set ::
    "('b, 't) block_trait \<Rightarrow> 'b \<Rightarrow> ('b, 't) store_db \<Rightarrow> (('b, 't) store_db, store_error) outcome" where
  "store_set T b db = bind_o (get_max_height db) (\<lambda>m. Ok (db_put_all (set_entries T b m) db))"

section \<open>Listing\<close>

datatype 'k bound = Included 'k | Excluded 'k | Unbounded

datatype block_list_order = LowestToHighest | HighestToLowest

datatype 'p cursor_after = After 'p | AfterInclusive 'p

datatype 'p cursor_before = Before 'p | BeforeInclusive 'p

datatype 'p cursor_choice = CursorAfter "'p cursor_after" | CursorBefore "'p cursor_before"

fun is_indexed_order :: "block_list_order \<Rightarrow> bool" where
  "is_indexed_order LowestToHighest = True"
| "is_indexed_order HighestToLowest = False"

fun reverse_order :: "block_list_order \<Rightarrow> block_list_order" where
  "reverse_order LowestToHighest = HighestToLowest"
| "reverse_order HighestToLowest = LowestToHighest"

fun after_to_bound :: "'p cursor_after \<Rightarrow> 'p bound" where
  "after_to_bound (After p) = Excluded p"
| "after_to_bound (AfterInclusive p) = Included p"

fun before_to_bound :: "'p cursor_before \<Rightarrow> 'p bound" where
  "before_to_bound (Before p) = Excluded p"
| "before_to_bound (BeforeInclusive p) = Included p"

record list_query =
  start_key :: store_key
  end_key :: store_key
  lower_exclusive :: bool
  upper_inclusive :: bool
  start_to_end :: bool

text \<open>\<open>ListableKey::list\<close>; \<open>mk\<close> makes the key, \<open>KeyBlock\<close> or \<open>KeyNonEmptyBlock\<close>, of a height.\<close>

definition key_list :: "(u64 \<Rightarrow> store_key) \<Rightarrow> u64 bound \<times> u64 bound \<Rightarrow> block_list_order \<Rightarrow> list_query" where
  "key_list mk rng order = \<lparr>
     start_key = (case fst rng of Included x \<Rightarrow> mk x | Excluded x \<Rightarrow> mk x | Unbounded \<Rightarrow> mk 0),
     end_key = (case snd rng of Included x \<Rightarrow> mk x | Excluded x \<Rightarrow> mk x | Unbounded \<Rightarrow> mk (- 1)),
     lower_exclusive = (case fst rng of Included _ \<Rightarrow> False | Excluded _ \<Rightarrow> True | Unbounded \<Rightarrow> False),
     upper_inclusive = (case snd rng of Included _ \<Rightarrow> True | Excluded _ \<Rightarrow> False | Unbounded \<Rightarrow> True),
     start_to_end = is_indexed_order order\<rparr>"

text \<open>RocksDB visits the keys from the lower bound up to, and without, the upper bound.\<close>

definition into_iterator ::
    "('b, 't) store_db \<Rightarrow> list_query \<Rightarrow> (store_key \<times> 'b, store_error) outcome list" where
  "into_iterator db q =
     (let lower = (if lower_exclusive q then serialize_immediate_successor (start_key q) else serialize (start_key q));
          upper = (if upper_inclusive q then serialize_immediate_successor (end_key q) else serialize (end_key q));
          found = filter (\<lambda>(k, _). lower \<le> k \<and> k < upper) db
      in map (\<lambda>(k, v). bind_o (map_err (\<lambda>_. InvalidKey) (deserialize k)) (\<lambda>key.
                bind_o (block_from_bytes v) (\<lambda>b. Ok (key, b))))
           (if start_to_end q then found else rev found))"

fun select_block :: "store_key \<Rightarrow> u64 option" where
  "select_block (KBlock h) = Some h"
| "select_block _ = None"

fun select_non_empty :: "store_key \<Rightarrow> u64 option" where
  "select_non_empty (KNonEmptyBlock h) = Some h"
| "select_non_empty _ = None"

definition select_key ::
    "(store_key \<Rightarrow> u64 option) \<Rightarrow> store_key \<times> 'b \<Rightarrow> (u64 \<times> 'b, store_error) outcome" where
  "select_key sel kb = bind_o (ok_or InvalidKey (sel (fst kb))) (\<lambda>h. Ok (h, snd kb))"

definition list_keys ::
    "(u64 \<Rightarrow> store_key) \<Rightarrow> (store_key \<Rightarrow> u64 option) \<Rightarrow> ('b, 't) store_db \<Rightarrow> u64 bound \<times> u64 bound \<Rightarrow>
     block_list_order \<Rightarrow> (u64 \<times> 'b, store_error) outcome list" where
  "list_keys mk sel db rng order =
     map (\<lambda>r. bind_o r (select_key sel)) (into_iterator db (key_list mk rng order))"

definition list_blocks ::
    "('b, 't) store_db \<Rightarrow> u64 bound \<times> u64 bound \<Rightarrow> block_list_order \<Rightarrow> (u64 \<times> 'b, store_error) outcome list" where
  "list_blocks = list_keys KBlock select_block"

definition list_non_empty ::
    "('b, 't) store_db \<Rightarrow> u64 bound \<times> u64 bound \<Rightarrow> block_list_order \<Rightarrow> (u64 \<times> 'b, store_error) outcome list" where
  "list_non_empty = list_keys KNonEmptyBlock select_non_empty"

text \<open>\<open>collect::<Result<Vec<_>>>()\<close>\<close>

fun collect_results :: "('a, 'e) outcome list \<Rightarrow> ('a list, 'e) outcome" where
  "collect_results [] = Ok []"
| "collect_results (r # rs) = bind_o r (\<lambda>x. bind_o (collect_results rs) (\<lambda>xs. Ok (x # xs)))"

definition key_list_paginated ::
    "(u64 \<Rightarrow> store_key) \<Rightarrow> ('b, 't) store_db \<Rightarrow> u64 cursor_choice option \<Rightarrow> block_list_order \<Rightarrow> nat \<Rightarrow>
     ((store_key \<times> 'b) list, store_error) outcome" where
  "key_list_paginated mk db cursor order limit =
     (let (start, end) = (case cursor of
              None \<Rightarrow> (Unbounded, Unbounded)
            | Some (CursorBefore before) \<Rightarrow> (Unbounded, before_to_bound before)
            | Some (CursorAfter after) \<Rightarrow> (after_to_bound after, Unbounded));
          (start, end) = (if is_indexed_order order then (start, end) else (end, start));
          (reverse_results, order) = (case cursor of
              Some (CursorBefore _) \<Rightarrow> (True, reverse_order order)
            | _ \<Rightarrow> (False, order))
      in bind_o (collect_results (take limit (into_iterator db (key_list mk (start, end) order))))
           (\<lambda>results. Ok (if reverse_results then rev results else results)))"

definition list_paginated ::
    "('b, 't) store_db \<Rightarrow> u64 cursor_choice option \<Rightarrow> block_list_order \<Rightarrow> nat \<Rightarrow>
     ((u64 \<times> 'b, store_error) outcome list, store_error) outcome" where
  "list_paginated db cursor order limit =
     bind_o (key_list_paginated KBlock db cursor order limit) (\<lambda>rs. Ok (map (select_key select_block) rs))"

definition list_non_empty_paginated ::
    "('b, 't) store_db \<Rightarrow> u64 cursor_choice option \<Rightarrow> block_list_order \<Rightarrow> nat \<Rightarrow>
     ((u64 \<times> 'b, store_error) outcome list, store_error) outcome" where
  "list_non_empty_paginated db cursor order limit =
     bind_o (key_list_paginated KNonEmptyBlock db cursor order limit)
       (\<lambda>rs. Ok (map (select_key select_non_empty) rs))"

definition list_txns :: "('b, 't) store_db \<Rightarrow> ('t, store_error) outcome list" where
  "list_txns db =
     map (\<lambda>(_, v). txn_from_bytes v)
       (filter (\<lambda>(k, _). serialize (KTxnByHash (replicate 32 0)) \<le> k \<and>
                 k < serialize_immediate_successor (KTxnByHash (replicate 32 255))) db)"

section \<open>Migration\<close>

definition migrate_block :: "('b, 't) block_trait \<Rightarrow> ('b, 't) store_db \<Rightarrow> 'b \<Rightarrow> ('b, 't) store_db" where
  "migrate_block T db b =
     db_put_all (txn_entries T b @ (case non_empty_key T b of Some k \<Rightarrow> [(k, VBlock b)] | None \<Rightarrow> [])) db"

text \<open>The iterator reads the snapshot taken when it was made.\<close>

definition migrate_to_v1 :: "('b, 't) block_trait \<Rightarrow> ('b, 't) store_db \<Rightarrow> (('b, 't) store_db, store_error) outcome" where
  "migrate_to_v1 T db =
     bind_o (fold_o (\<lambda>db r. bind_o r (\<lambda>(_, b). Ok (migrate_block T db b))) db
               (list_blocks db (Unbounded, Unbounded) LowestToHighest))
       (\<lambda>db. Ok (set_store_version 1 db))"

text \<open>The loop of \<open>migrate\<close>, with as much fuel as there are versions to migrate from.\<close>

fun migrate_loop ::
    "nat \<Rightarrow> ('b, 't) block_trait \<Rightarrow> ('b, 't) store_db \<Rightarrow> (('b, 't) store_db, store_error) outcome" where
  "migrate_loop fuel T db = bind_o (store_version db) (\<lambda>version.
     if version = 0 then (case fuel of 0 \<Rightarrow> Panic | Suc n \<Rightarrow> bind_o (migrate_to_v1 T db) (migrate_loop n T))
     else if version = 1 then Ok db
     else Err (InvalidVersion version))"

definition store_migrate :: "('b, 't) block_trait \<Rightarrow> ('b, 't) store_db \<Rightarrow> (('b, 't) store_db, store_error) outcome" where
  "store_migrate T db = migrate_loop LATEST_VERSION T db"

end
