(* ===== verification/Block_Store_Props.thy ===== *)
theory Block_Store_Props
  imports Block_Store
begin

text \<open>
  Correctness of the block store: the invariant that every stored value fits its key, what
  \<open>set\<close> makes readable, range queries and pages as functions of the stored blocks.
\<close>

section \<open>Invariant\<close>

fun value_matches :: "('b, 't) block_trait \<Rightarrow> store_key \<Rightarrow> ('b, 't) store_value \<Rightarrow> bool" where
  "value_matches T (KBlock h) (VBlock b) \<longleftrightarrow> bl_height T b = h"
| "value_matches T (KNonEmptyBlock h) (VBlock b) \<longleftrightarrow> bl_height T b = h"
| "value_matches T KPendingBlock (VBlock b) \<longleftrightarrow> True"
| "value_matches T KMaxHeight (VHeight h) \<longleftrightarrow> True"
| "value_matches T (KBlockHashToHeight x) (VHeight h) \<longleftrightarrow> True"
| "value_matches T (KTxnByHash x) (VTxn t) \<longleftrightarrow> tx_hash T t = x"
| "value_matches T KStoreVersion (VVersion v) \<longleftrightarrow> True"
| "value_matches T (KElementHistory e k) (VHistory d) \<longleftrightarrow> True"
| "value_matches T (KMintHash m) (VMint d) \<longleftrightarrow> True"
| "value_matches T _ _ \<longleftrightarrow> False"

definition store_inv :: "('b, 't) block_trait \<Rightarrow> ('b, 't) store_db \<Rightarrow> bool" where
  "store_inv T db \<longleftrightarrow> bt_inv db \<and>
     (\<forall>bs v. bt_get db bs = Some v \<longrightarrow> (\<exists>k. key_wf k \<and> bs = serialize k \<and> value_matches T k v))"

text \<open>Block and transaction hashes are arrays of 32 bytes.\<close>

definition trait_ok :: "('b, 't) block_trait \<Rightarrow> bool" where
  "trait_ok T \<longleftrightarrow> (\<forall>b. length (bl_hash T b) = 32) \<and> (\<forall>t. length (tx_hash T t) = 32)"

definition stored :: "('b, 't) store_db \<Rightarrow> store_key \<Rightarrow> ('b, 't) store_value option" where
  "stored db k = bt_get db (serialize k)"

lemma store_inv_matches:
  assumes "store_inv T db" and "stored db k = Some v" and "key_wf k"
  shows "value_matches T k v"
  using assms unfolding store_inv_def stored_def by (metis serialize_inj)

section \<open>Writing\<close>

lemma db_put_all_Cons: "db_put_all ((k, v) # ops) db = db_put_all ops (bt_insert (serialize k) v db)"
  by (simp add: db_put_all_def)

lemma store_inv_insert:
  assumes "store_inv T db" and "key_wf k" and "value_matches T k v"
  shows "store_inv T (bt_insert (serialize k) v db)"
  using assms btree.insert_lookup [of db "serialize k" v] btree.inv_insert [of db "serialize k" v]
  by (auto simp: store_inv_def)

lemma stored_insert:
  assumes "store_inv T db" and "key_wf k" and "key_wf k'"
  shows "stored (bt_insert (serialize k) v db) k' = (if k' = k then Some v else stored db k')"
  using assms btree.insert_lookup [of db "serialize k" v]
  by (auto simp: store_inv_def stored_def serialize_inj)

definition ops_ok :: "('b, 't) block_trait \<Rightarrow> (store_key \<times> ('b, 't) store_value) list \<Rightarrow> bool" where
  "ops_ok T ops \<longleftrightarrow> (\<forall>(k, v) \<in> set ops. key_wf k \<and> value_matches T k v)"

lemma store_inv_put_all: "store_inv T db \<Longrightarrow> ops_ok T ops \<Longrightarrow> store_inv T (db_put_all ops db)"
proof (induction ops arbitrary: db)
  case (Cons op ops)
  then show ?case
    by (cases op) (simp add: db_put_all_Cons ops_ok_def store_inv_insert)
qed (simp add: db_put_all_def)

lemma stored_put_all_other:
  "store_inv T db \<Longrightarrow> ops_ok T ops \<Longrightarrow> key_wf k \<Longrightarrow> k \<notin> fst ` set ops \<Longrightarrow>
     stored (db_put_all ops db) k = stored db k"
proof (induction ops arbitrary: db)
  case (Cons op ops)
  then show ?case
    by (cases op) (simp add: db_put_all_Cons ops_ok_def store_inv_insert stored_insert)
qed (simp add: db_put_all_def)

lemma stored_put_all_same:
  assumes "store_inv T db" and "ops_ok T ops" and "key_wf k" and "(k, v) \<in> set ops"
    and "\<forall>v'. (k, v') \<in> set ops \<longrightarrow> v' = v"
  shows "stored (db_put_all ops db) k = Some v"
  using assms
proof (induction ops arbitrary: db)
  case (Cons op ops)
  obtain k' v' where op: "op = (k', v')" by fastforce
  have inv: "store_inv T (bt_insert (serialize k') v' db)" and ok: "ops_ok T ops" "key_wf k'"
    using Cons.prems(1,2) by (auto simp: op ops_ok_def intro: store_inv_insert)
  show ?case
  proof (cases "k \<in> fst ` set ops")
    case True
    then obtain v'' where "(k, v'') \<in> set ops" by force
    moreover have all: "\<forall>v'. (k, v') \<in> set ops \<longrightarrow> v' = v"
      using Cons.prems(5) by (meson list.set_intros(2))
    ultimately have "(k, v) \<in> set ops" by blast
    then show ?thesis
      using Cons.IH [OF inv ok(1) Cons.prems(3) _ all] by (simp only: op db_put_all_Cons)
  next
    case False
    then have "(k, v) \<notin> set ops" by (metis fst_conv imageI)
    then have "k' = k" "v' = v" using Cons.prems(4) op by simp_all
    then show ?thesis
      using stored_put_all_other [OF inv ok(1) Cons.prems(3) False]
        stored_insert [OF Cons.prems(1) ok(2) Cons.prems(3), of v'] by (simp add: op db_put_all_Cons)
  qed
qed simp

lemma ops_ok_append [simp]: "ops_ok T (xs @ ys) \<longleftrightarrow> ops_ok T xs \<and> ops_ok T ys"
  by (auto simp: ops_ok_def)

lemma set_entries_ok:
  assumes "trait_ok T"
  shows "ops_ok T (set_entries T b m)"
  using assms
  by (auto simp: set_entries_def ops_ok_def txn_entries_def non_empty_key_def history_entries_def Let_def
      trait_ok_def split: option.splits if_splits)

lemma set_entries_mem:
  "(KBlock h, v) \<in> set (set_entries T b m) \<longleftrightarrow> h = bl_height T b \<and> v = VBlock b"
  "(KMaxHeight, v) \<in> set (set_entries T b m) \<longleftrightarrow>
     (\<forall>x. m = Some x \<longrightarrow> x < bl_height T b) \<and> v = VHeight (bl_height T b)"
  "(KBlockHashToHeight x, v) \<in> set (set_entries T b m) \<longleftrightarrow> x = bl_hash T b \<and> v = VHeight (bl_height T b)"
  "(KNonEmptyBlock h, v) \<in> set (set_entries T b m) \<longleftrightarrow>
     bl_txns T b \<noteq> [] \<and> h = bl_height T b \<and> v = VBlock b"
  "(KStoreVersion, v) \<notin> set (set_entries T b m)"
  by (auto simp: set_entries_def txn_entries_def non_empty_key_def history_entries_def Let_def
      split: option.splits if_splits)

lemma history_entries_mem:
  "(KElementHistory e k, v) \<in> set (history_entries T b t) \<longleftrightarrow>
     v = VHistory \<lparr>hd_block_hash = bl_hash T b, hd_block_height = bl_height T b\<rparr> \<and>
     e \<in> set (if k = InputKind then tx_inputs T t else tx_outputs T t)"
  "(KMintHash h, v) \<in> set (history_entries T b t) \<longleftrightarrow>
     v = VMint \<lparr>hd_block_hash = bl_hash T b, hd_block_height = bl_height T b\<rparr> \<and> tx_mint_hash T t = Some h"
  by (cases k; cases "tx_mint_hash T t"; auto simp: history_entries_def Let_def)+

lemma set_entries_index:
  assumes "k = KElementHistory e kd \<or> k = KMintHash h"
  shows "(k, v) \<in> set (set_entries T b m) \<longleftrightarrow> (\<exists>t \<in> set (bl_txns T b). (k, v) \<in> set (history_entries T b t))"
  using assms
  by (auto simp: set_entries_def txn_entries_def non_empty_key_def split: option.splits if_splits)

lemma set_entries_history:
  "(KElementHistory e k, v) \<in> set (set_entries T b m) \<longleftrightarrow>
     v = VHistory \<lparr>hd_block_hash = bl_hash T b, hd_block_height = bl_height T b\<rparr> \<and>
     (\<exists>t \<in> set (bl_txns T b). e \<in> set (if k = InputKind then tx_inputs T t else tx_outputs T t))"
  using set_entries_index [of "KElementHistory e k" e k undefined v T b m]
  by (simp only: history_entries_mem) blast

lemma set_entries_mint:
  "(KMintHash h, v) \<in> set (set_entries T b m) \<longleftrightarrow>
     v = VMint \<lparr>hd_block_hash = bl_hash T b, hd_block_height = bl_height T b\<rparr> \<and>
     (\<exists>t \<in> set (bl_txns T b). tx_mint_hash T t = Some h)"
  using set_entries_index [of "KMintHash h" undefined undefined h v T b m]
  by (simp only: history_entries_mem) blast

text \<open>A key whose new values all agree: its value after \<open>set\<close>.\<close>

lemma stored_set:
  assumes T: "trait_ok T" and inv: "store_inv T db" and k: "key_wf k"
    and "\<And>v. (k, v) \<in> set (set_entries T b m) \<longleftrightarrow> C \<and> v = w"
  shows "stored (db_put_all (set_entries T b m) db) k = (if C then Some w else stored db k)"
proof (cases C)
  case True
  have "(k, w) \<in> set (set_entries T b m)" using assms(4) [of w] True by blast
  moreover have "\<forall>v'. (k, v') \<in> set (set_entries T b m) \<longrightarrow> v' = w" using assms(4) by blast
  ultimately have "stored (db_put_all (set_entries T b m) db) k = Some w"
    by (rule stored_put_all_same [OF inv set_entries_ok [OF T] k])
  then show ?thesis using True by (simp only: if_True)
next
  case False
  then have "k \<notin> fst ` set (set_entries T b m)" using assms(4) by auto
  then show ?thesis
    using stored_put_all_other [OF inv set_entries_ok [OF T] k, of b m] False by simp
qed

lemma get_max_height_ok:
  assumes "store_inv T db"
  shows "\<exists>m. get_max_height db = Ok m \<and> stored db KMaxHeight = map_option VHeight m"
proof (cases "stored db KMaxHeight")
  case (Some v)
  then have "value_matches T KMaxHeight v" using store_inv_matches [OF assms] by simp
  then obtain h where "v = VHeight h" by (cases v) auto
  then have "get_max_height db = Ok (Some h)" "stored db KMaxHeight = map_option VHeight (Some h)"
    using Some by (simp_all add: get_max_height_def stored_def)
  then show ?thesis by blast
qed (simp add: get_max_height_def stored_def)

lemma store_set_ok:
  assumes T: "trait_ok T" and inv: "store_inv T db"
  shows "\<exists>db' m. store_set T b db = Ok db' \<and> store_inv T db' \<and> get_max_height db = Ok m \<and>
     db' = db_put_all (set_entries T b m) db"
  using get_max_height_ok [OF inv] store_inv_put_all [OF inv set_entries_ok [OF T]]
  by (auto simp: store_set_def)

lemma store_set_reads:
  assumes T: "trait_ok T" and inv: "store_inv T db" and set: "store_set T b db = Ok db'"
    and max: "get_max_height db = Ok m"
  shows "store_get db' h = (if h = bl_height T b then Ok (Some b) else store_get db h)"
    and "get_max_height db' = Ok (Some (case m of None \<Rightarrow> bl_height T b | Some x \<Rightarrow> max x (bl_height T b)))"
    and "get_block_height_by_hash db' (bl_hash T b) = Ok (Some (bl_height T b))"
    and "get_element_history_with_kind db' e k =
      (if \<exists>t \<in> set (bl_txns T b). e \<in> set (if k = InputKind then tx_inputs T t else tx_outputs T t)
       then Ok (Some \<lparr>hd_block_hash = bl_hash T b, hd_block_height = bl_height T b\<rparr>)
       else get_element_history_with_kind db e k)"
    and "get_mint_hash db' mh =
      (if \<exists>t \<in> set (bl_txns T b). tx_mint_hash T t = Some mh
       then Ok (Some \<lparr>hd_block_hash = bl_hash T b, hd_block_height = bl_height T b\<rparr>)
       else get_mint_hash db mh)"
proof -
  have db': "db' = db_put_all (set_entries T b m) db"
    using set max by (simp add: store_set_def)
  note st = stored_set [OF T inv]
  have "stored db' (KBlock h) = (if h = bl_height T b then Some (VBlock b) else stored db (KBlock h))"
    unfolding db' by (rule st) (simp_all add: set_entries_mem)
  then show "store_get db' h = (if h = bl_height T b then Ok (Some b) else store_get db h)"
    by (simp add: store_get_def stored_def)
  have "stored db KMaxHeight = map_option VHeight m"
    using get_max_height_ok [OF inv] max by auto
  moreover have "stored db' KMaxHeight = (if \<forall>x. m = Some x \<longrightarrow> x < bl_height T b
      then Some (VHeight (bl_height T b)) else stored db KMaxHeight)"
    unfolding db' by (rule st) (simp_all add: set_entries_mem)
  ultimately show "get_max_height db' = Ok (Some (case m of None \<Rightarrow> bl_height T b | Some x \<Rightarrow> max x (bl_height T b)))"
    by (cases m) (auto simp: get_max_height_def stored_def max_def)
  have "stored db' (KBlockHashToHeight (bl_hash T b)) =
      (if True then Some (VHeight (bl_height T b)) else stored db (KBlockHashToHeight (bl_hash T b)))"
    unfolding db' by (rule st) (use T in \<open>simp_all add: set_entries_mem trait_ok_def\<close>)
  then show "get_block_height_by_hash db' (bl_hash T b) = Ok (Some (bl_height T b))"
    by (simp add: get_block_height_by_hash_def stored_def)
  let ?H = "\<exists>t \<in> set (bl_txns T b). e \<in> set (if k = InputKind then tx_inputs T t else tx_outputs T t)"
  let ?d = "\<lparr>hd_block_hash = bl_hash T b, hd_block_height = bl_height T b\<rparr>"
  have "stored db' (KElementHistory e k) = (if ?H then Some (VHistory ?d) else stored db (KElementHistory e k))"
    unfolding db' by (rule st) (auto simp: set_entries_history)
  then show "get_element_history_with_kind db' e k =
      (if ?H then Ok (Some ?d) else get_element_history_with_kind db e k)"
    by (simp add: get_element_history_with_kind_def stored_def)
  have "stored db' (KMintHash mh) = (if \<exists>t \<in> set (bl_txns T b). tx_mint_hash T t = Some mh
      then Some (VMint ?d) else stored db (KMintHash mh))"
    unfolding db' by (rule st) (auto simp: set_entries_mint)
  then show "get_mint_hash db' mh = (if \<exists>t \<in> set (bl_txns T b). tx_mint_hash T t = Some mh
      then Ok (Some ?d) else get_mint_hash db mh)"
    by (simp add: get_mint_hash_def stored_def)
qed

text \<open>The last of the values put under a key is the one that is read.\<close>

lemma stored_put_all:
  assumes "store_inv T db" and "ops_ok T ops" and "key_wf k"
  shows "stored (db_put_all ops db) k = (case map_of (rev ops) k of Some v \<Rightarrow> Some v | None \<Rightarrow> stored db k)"
  using assms
proof (induction ops arbitrary: db)
  case (Cons op ops)
  obtain k' v' where op: "op = (k', v')" by fastforce
  have "stored (db_put_all ops (bt_insert (serialize k') v' db)) k =
      (case map_of (rev ops) k of Some v \<Rightarrow> Some v | None \<Rightarrow> stored (bt_insert (serialize k') v' db) k)"
    using Cons by (intro Cons.IH) (auto simp: op ops_ok_def intro: store_inv_insert)
  then show ?case
    using Cons.prems stored_insert [OF Cons.prems(1), of k' k v']
    by (auto simp: op db_put_all_Cons ops_ok_def map_add_def split: option.splits)
qed (simp add: db_put_all_def)

lemma map_of_txn_entries:
  "map_of (rev (txn_entries T b)) (KTxnByHash x) = map_option VTxn (find (\<lambda>t. tx_hash T t = x) (rev (bl_txns T b)))"
proof -
  have "map_of (map (\<lambda>t. (KTxnByHash (tx_hash T t), VTxn t)) ts) (KTxnByHash x) =
      map_option VTxn (find (\<lambda>t. tx_hash T t = x) ts)" for ts
    by (induction ts) auto
  then show ?thesis by (simp add: txn_entries_def rev_map)
qed

lemma map_of_set_entries:
  "map_of (rev (set_entries T b m)) (KTxnByHash x) = map_option VTxn (find (\<lambda>t. tx_hash T t = x) (rev (bl_txns T b)))"
proof -
  let ?A = "[(KBlock (bl_height T b), VBlock b)] @
     (case m of None \<Rightarrow> [(KMaxHeight, VHeight (bl_height T b))]
      | Some m \<Rightarrow> if bl_height T b > m then [(KMaxHeight, VHeight (bl_height T b))] else []) @
     [(KBlockHashToHeight (bl_hash T b), VHeight (bl_height T b))]"
  let ?B = "(case non_empty_key T b of Some k \<Rightarrow> [(k, VBlock b)] | None \<Rightarrow> []) @
     concat (map (history_entries T b) (bl_txns T b))"
  have "map_of (rev ?A) (KTxnByHash x) = None"
    by (auto simp: map_of_eq_None_iff split: option.splits)
  moreover have "map_of (rev ?B) (KTxnByHash x) = None"
    by (auto simp: map_of_eq_None_iff non_empty_key_def history_entries_def Let_def split: option.splits if_splits)
  moreover have "rev (set_entries T b m) = rev ?B @ rev (txn_entries T b) @ rev ?A"
    by (simp add: set_entries_def)
  ultimately show ?thesis
    by (simp only: map_of_append map_add_def map_of_txn_entries option.case_eq_if) (auto split: option.splits)
qed

lemma store_set_txns:
  assumes T: "trait_ok T" and inv: "store_inv T db" and set: "store_set T b db = Ok db'" and x: "length x = 32"
  shows "get_txn_by_hash db' x = (case find (\<lambda>t. tx_hash T t = x) (rev (bl_txns T b)) of
      Some t \<Rightarrow> Ok (Some t) | None \<Rightarrow> get_txn_by_hash db x)"
    and "get_block_height_by_hash db' x =
      (if x = bl_hash T b then Ok (Some (bl_height T b)) else get_block_height_by_hash db x)"
    and "get_pending_block db' = get_pending_block db" and "store_version db' = store_version db"
proof -
  obtain m where db': "db' = db_put_all (set_entries T b m) db"
    using store_set_ok [OF T inv, of b] set by auto
  note st = stored_set [OF T inv]
  have "stored db' (KTxnByHash x) = (case find (\<lambda>t. tx_hash T t = x) (rev (bl_txns T b)) of
      Some t \<Rightarrow> Some (VTxn t) | None \<Rightarrow> stored db (KTxnByHash x))"
    unfolding db' using stored_put_all [OF inv set_entries_ok [OF T], of "KTxnByHash x"] x
    by (simp add: map_of_set_entries split: option.splits)
  then show "get_txn_by_hash db' x = (case find (\<lambda>t. tx_hash T t = x) (rev (bl_txns T b)) of
      Some t \<Rightarrow> Ok (Some t) | None \<Rightarrow> get_txn_by_hash db x)"
    by (auto simp: get_txn_by_hash_def stored_def split: option.splits)
  have "stored db' (KBlockHashToHeight x) =
      (if x = bl_hash T b then Some (VHeight (bl_height T b)) else stored db (KBlockHashToHeight x))"
    unfolding db' by (rule st) (use x in \<open>simp_all add: set_entries_mem\<close>)
  then show "get_block_height_by_hash db' x =
      (if x = bl_hash T b then Ok (Some (bl_height T b)) else get_block_height_by_hash db x)"
    by (simp add: get_block_height_by_hash_def stored_def)
  have "stored db' k = (if False then Some (VBlock b) else stored db k)" if "k = KPendingBlock \<or> k = KStoreVersion" for k
    unfolding db' using that by (intro st)
      (auto simp: set_entries_def txn_entries_def non_empty_key_def history_entries_def Let_def
         split: option.splits if_splits)
  then have "stored db' KPendingBlock = stored db KPendingBlock" "stored db' KStoreVersion = stored db KStoreVersion"
    by simp_all
  then show "get_pending_block db' = get_pending_block db" "store_version db' = store_version db"
    by (simp_all add: get_pending_block_def store_version_def stored_def)
qed

section \<open>Range queries\<close>

fun in_lower :: "'k::linorder bound \<Rightarrow> 'k \<Rightarrow> bool" where
  "in_lower (Included x) h \<longleftrightarrow> x \<le> h"
| "in_lower (Excluded x) h \<longleftrightarrow> x < h"
| "in_lower Unbounded h \<longleftrightarrow> True"

fun in_upper :: "'k::linorder bound \<Rightarrow> 'k \<Rightarrow> bool" where
  "in_upper (Included x) h \<longleftrightarrow> h \<le> x"
| "in_upper (Excluded x) h \<longleftrightarrow> h < x"
| "in_upper Unbounded h \<longleftrightarrow> True"

definition in_range :: "u64 bound \<times> u64 bound \<Rightarrow> u64 \<Rightarrow> bool" where
  "in_range rng h \<longleftrightarrow> in_lower (fst rng) h \<and> in_upper (snd rng) h"

fun value_block :: "('b, 't) store_value \<Rightarrow> 'b" where
  "value_block (VBlock b) = b"

text \<open>The heights and blocks stored under the keys of kind \<open>c\<close>, in the order of the database.\<close>

definition height_entries :: "u8 \<Rightarrow> ('b, 't) store_db \<Rightarrow> (u64 \<times> 'b) list" where
  "height_entries c db =
     map (\<lambda>(bs, v). (u64_from_be_bytes (tl bs), value_block v)) (filter (\<lambda>(bs, _). hd bs = c) db)"

text \<open>The two families of keys that are made of a height.\<close>

definition height_key :: "(u64 \<Rightarrow> store_key) \<Rightarrow> u8 \<Rightarrow> bool" where
  "height_key mk c \<longleftrightarrow> mk = KBlock \<and> c = 0 \<or> mk = KNonEmptyBlock \<and> c = 6"

lemma height_key_simps:
  assumes "height_key mk c"
  shows "serialize (mk h) = c # u64_to_be_bytes h" "key_wf (mk h)" "deserialize (serialize (mk h)) = Ok (mk h)"
    and "key_kind k = c \<longleftrightarrow> (\<exists>h. k = mk h)"
    and "value_matches T (mk h) v \<longleftrightarrow> (\<exists>b. v = VBlock b \<and> bl_height T b = h)"
proof -
  show "serialize (mk h) = c # u64_to_be_bytes h" "key_wf (mk h)"
    using assms by (auto simp: height_key_def serialize_def)
  then show "deserialize (serialize (mk h)) = Ok (mk h)" by (intro deserialize_serialize)
  show "key_kind k = c \<longleftrightarrow> (\<exists>h. k = mk h)"
    using assms by (cases k) (auto simp: height_key_def)
  show "value_matches T (mk h) v \<longleftrightarrow> (\<exists>b. v = VBlock b \<and> bl_height T b = h)"
    using assms by (cases v) (auto simp: height_key_def)
qed

lemma less_append_one:
  "length xs = length ys \<Longrightarrow> xs < ys @ [z :: u8] \<longleftrightarrow> xs \<le> ys"
  "length xs = length ys \<Longrightarrow> ys @ [z :: u8] \<le> xs \<longleftrightarrow> ys < xs"
  by (induction xs ys rule: list_induct2) auto

lemma u64_to_be_bytes_le [simp]: "u64_to_be_bytes v \<le> u64_to_be_bytes w \<longleftrightarrow> v \<le> w"
  by (simp add: linorder_not_less [symmetric])

lemma height_key_range:
  assumes mk: "height_key mk c" and q: "q = key_list mk rng order" and k: "key_wf k"
  defines "lower \<equiv> if lower_exclusive q then serialize_immediate_successor (start_key q) else serialize (start_key q)"
    and "upper \<equiv> if upper_inclusive q then serialize_immediate_successor (end_key q) else serialize (end_key q)"
  shows "lower \<le> serialize k \<and> serialize k < upper \<longleftrightarrow> (\<exists>h. k = mk h \<and> in_range rng h)"
proof -
  note simps = height_key_simps(1) [OF mk]
  obtain lo hi where rng: "rng = (lo, hi)" by fastforce
  obtain x where lower: "lower = c # x"
    by (cases lo) (simp_all add: lower_def q key_list_def serialize_immediate_successor_def simps rng)
  obtain y where upper: "upper = c # y"
    by (cases hi) (simp_all add: upper_def q key_list_def serialize_immediate_successor_def simps rng)
  have lo: "lower \<le> serialize (mk h) \<longleftrightarrow> in_lower lo h" for h
    by (cases lo) (simp_all add: lower_def q key_list_def serialize_immediate_successor_def simps rng
        less_append_one)
  have hi: "serialize (mk h) < upper \<longleftrightarrow> in_upper hi h" for h
    by (cases hi) (simp_all add: upper_def q key_list_def serialize_immediate_successor_def simps rng
        less_append_one word_order.extremum)
  show ?thesis
  proof (cases "key_kind k = c")
    case True
    then obtain h where "k = mk h" using height_key_simps(4) [OF mk] by blast
    moreover have "mk h = mk h' \<longleftrightarrow> h = h'" for h h' using mk by (auto simp: height_key_def)
    ultimately show ?thesis using lo hi by (auto simp: in_range_def rng)
  next
    case False
    then have "\<not> (lower \<le> serialize k \<and> serialize k < upper)"
      by (auto simp: lower upper serialize_def)
    then show ?thesis using False height_key_simps(4) [OF mk, of k] by blast
  qed
qed

lemma height_entries_mem:
  assumes mk: "height_key mk c" and inv: "store_inv T db" and db: "(bs, v) \<in> set db"
  shows "hd bs = c \<longleftrightarrow> (\<exists>h b. bs = serialize (mk h) \<and> v = VBlock b \<and> bl_height T b = h)"
proof -
  have "bt_get db bs = Some v"
    using inv db bt_distinct_keys [of db] by (simp add: store_inv_def bt_get_def bt_keys_def)
  then obtain k where k: "key_wf k" "bs = serialize k" "value_matches T k v"
    using inv unfolding store_inv_def by blast
  have kc: "hd bs = key_kind k" by (simp add: k(2) serialize_def)
  show ?thesis
  proof
    assume "hd bs = c"
    then obtain h where "k = mk h" using kc height_key_simps(4) [OF mk, of k] by auto
    then show "\<exists>h b. bs = serialize (mk h) \<and> v = VBlock b \<and> bl_height T b = h"
      using k(2,3) height_key_simps(5) [OF mk, of T h v] by auto
  next
    assume "\<exists>h b. bs = serialize (mk h) \<and> v = VBlock b \<and> bl_height T b = h"
    then show "hd bs = c" using height_key_simps(1) [OF mk] by auto
  qed
qed

lemma into_iterator_spec:
  assumes mk: "height_key mk c" and inv: "store_inv T db"
  shows "into_iterator db (key_list mk rng order) =
    map (\<lambda>(h, b). Ok (mk h, b))
      ((if is_indexed_order order then (\<lambda>xs. xs) else rev) (filter (\<lambda>(h, _). in_range rng h) (height_entries c db)))"
proof -
  let ?q = "key_list mk rng order"
  let ?lower = "if lower_exclusive ?q then serialize_immediate_successor (start_key ?q) else serialize (start_key ?q)"
  let ?upper = "if upper_inclusive ?q then serialize_immediate_successor (end_key ?q) else serialize (end_key ?q)"
  let ?dec = "\<lambda>(k, v). bind_o (map_err (\<lambda>_. InvalidKey) (deserialize k)) (\<lambda>key.
                bind_o (block_from_bytes v) (\<lambda>b. Ok (key, b)))"
  let ?P = "\<lambda>(bs, v). hd bs = c \<and> in_range rng (u64_from_be_bytes (tl bs))"
  note simps = height_key_simps [OF mk]
  have dec: "?dec (bs, v) = Ok (mk (u64_from_be_bytes (tl bs)), value_block v)"
    if "(bs, v) \<in> set db" "?P (bs, v)" for bs v
  proof -
    note asm = that
    obtain h b where h: "bs = serialize (mk h)" "v = VBlock b"
      using height_entries_mem [OF mk inv asm(1)] asm(2) by auto
    have "deserialize bs = Ok (mk h)" "u64_from_be_bytes (tl bs) = h"
      unfolding h(1) using simps(3) [of h] by (simp_all add: simps(1))
    then show ?thesis by (simp add: h(2))
  qed
  have found: "?lower \<le> bs \<and> bs < ?upper \<longleftrightarrow> ?P (bs, v)" if "(bs, v) \<in> set db" for bs v
  proof -
    have "bt_get db bs = Some v"
      using inv that bt_distinct_keys [of db] by (simp add: store_inv_def bt_get_def bt_keys_def)
    then obtain k where k: "key_wf k" "bs = serialize k"
      using inv unfolding store_inv_def by blast
    have kc: "hd bs = c \<longleftrightarrow> (\<exists>h. k = mk h)" using simps(4) [of k] by (simp add: k(2) serialize_def)
    show ?thesis
      unfolding k(2) height_key_range [OF mk refl k(1)]
      using kc by (auto simp: k(2) simps(1))
  qed
  have fil: "filter (\<lambda>(k, _). ?lower \<le> k \<and> k < ?upper) db = filter ?P db"
  proof (rule filter_cong [OF refl])
    fix x assume "x \<in> set db"
    then show "(case x of (k, _) \<Rightarrow> ?lower \<le> k \<and> k < ?upper) = ?P x"
      using found [of "fst x" "snd x"] by (simp only: split_beta prod.collapse fst_conv snd_conv)
  qed
  have it: "into_iterator db ?q = map ?dec ((if is_indexed_order order then (\<lambda>xs. xs) else rev) (filter ?P db))"
    unfolding into_iterator_def Let_def fil by (simp add: key_list_def)
  have ent: "filter (\<lambda>(h, _). in_range rng h) (height_entries c db) =
      map (\<lambda>(bs, v). (u64_from_be_bytes (tl bs), value_block v)) (filter ?P db)"
    by (simp add: height_entries_def filter_map comp_def case_prod_unfold conj_commute)
  have "map ?dec (filter ?P db) =
      map (\<lambda>(h, b). Ok (mk h, b)) (filter (\<lambda>(h, _). in_range rng h) (height_entries c db))"
    unfolding ent map_map by (rule map_cong) (use dec in \<open>auto simp: comp_def\<close>)
  then show ?thesis unfolding it by (simp add: rev_map [symmetric])
qed

lemma height_entries_sorted:
  assumes mk: "height_key mk c" and inv: "store_inv T db"
  shows "sorted_wrt (<) (map fst (height_entries c db))"
proof -
  let ?f = "\<lambda>bs. u64_from_be_bytes (tl bs)"
  have "sorted_wrt (\<lambda>x y. fst x < fst y) db"
    using inv by (simp add: store_inv_def bt_inv_def bt_keys_def sorted_wrt_map)
  then have "sorted_wrt (\<lambda>x y. fst x < fst y) (filter (\<lambda>(bs, _). hd bs = c) db)"
    by (rule sorted_wrt_filter)
  then have "sorted_wrt (\<lambda>x y. ?f (fst x) < ?f (fst y)) (filter (\<lambda>(bs, _). hd bs = c) db)"
  proof (rule sorted_wrt_mono_rel [rotated])
    fix x y
    assume "x \<in> set (filter (\<lambda>(bs, _). hd bs = c) db)" "y \<in> set (filter (\<lambda>(bs, _). hd bs = c) db)"
    then obtain h h' where "fst x = serialize (mk h)" "fst y = serialize (mk h')"
      using height_entries_mem [OF mk inv, of "fst x" "snd x"] height_entries_mem [OF mk inv, of "fst y" "snd y"]
      by (auto simp: split_beta)
    moreover assume "fst x < fst y"
    ultimately show "?f (fst x) < ?f (fst y)" by (simp add: height_key_simps(1) [OF mk])
  qed
  then show ?thesis by (simp add: height_entries_def sorted_wrt_map case_prod_unfold)
qed

lemma height_entries_stored:
  assumes mk: "height_key mk c" and inv: "store_inv T db"
  shows "(h, b) \<in> set (height_entries c db) \<longleftrightarrow> stored db (mk h) = Some (VBlock b)"
proof -
  have mem: "(bs, v) \<in> set db \<longleftrightarrow> bt_get db bs = Some v" for bs v
    using inv bt_distinct_keys [of db] by (simp add: store_inv_def bt_get_def bt_keys_def)
  have tl: "u64_from_be_bytes (tl (serialize (mk h))) = h" "hd (serialize (mk h)) = c" for h
    by (simp_all add: height_key_simps(1) [OF mk])
  have "(h, b) \<in> set (height_entries c db) \<longleftrightarrow>
      (\<exists>bs v. (bs, v) \<in> set db \<and> hd bs = c \<and> h = u64_from_be_bytes (tl bs) \<and> b = value_block v)"
    by (force simp: height_entries_def)
  also have "\<dots> \<longleftrightarrow> (serialize (mk h), VBlock b) \<in> set db"
  proof
    assume "\<exists>bs v. (bs, v) \<in> set db \<and> hd bs = c \<and> h = u64_from_be_bytes (tl bs) \<and> b = value_block v"
    then obtain bs v where bv: "(bs, v) \<in> set db" "hd bs = c" "h = u64_from_be_bytes (tl bs)" "b = value_block v"
      by blast
    then obtain h' b' where "bs = serialize (mk h')" "v = VBlock b'"
      using height_entries_mem [OF mk inv bv(1)] by blast
    then show "(serialize (mk h), VBlock b) \<in> set db" using bv tl by simp
  next
    assume "(serialize (mk h), VBlock b) \<in> set db"
    then show "\<exists>bs v. (bs, v) \<in> set db \<and> hd bs = c \<and> h = u64_from_be_bytes (tl bs) \<and> b = value_block v"
      using tl by force
  qed
  finally show ?thesis by (simp add: mem stored_def)
qed

lemma list_keys_spec:
  assumes mk: "height_key mk c" and inv: "store_inv T db" and sel: "\<And>h. sel (mk h) = Some h"
  shows "list_keys mk sel db rng order = map Ok ((if is_indexed_order order then (\<lambda>xs. xs) else rev)
     (filter (\<lambda>(h, _). in_range rng h) (height_entries c db)))"
  unfolding list_keys_def into_iterator_spec [OF mk inv] map_map
  by (rule map_cong) (auto simp: select_key_def sel)

section \<open>Pages\<close>

text \<open>
  A page over the entries listed in the order asked for: the first \<open>limit\<close> entries after the
  cursor, or the last \<open>limit\<close> entries before it.
\<close>

definition beyond :: "block_list_order \<Rightarrow> u64 bound \<Rightarrow> u64 \<Rightarrow> bool" where
  "beyond order bnd h = (if is_indexed_order order then in_lower bnd h else in_upper bnd h)"

definition short_of :: "block_list_order \<Rightarrow> u64 bound \<Rightarrow> u64 \<Rightarrow> bool" where
  "short_of order bnd h = (if is_indexed_order order then in_upper bnd h else in_lower bnd h)"

definition page :: "(u64 \<times> 'b) list \<Rightarrow> u64 cursor_choice option \<Rightarrow> block_list_order \<Rightarrow> nat \<Rightarrow> (u64 \<times> 'b) list" where
  "page entries cursor order limit =
     (let listed = (if is_indexed_order order then entries else rev entries)
      in case cursor of
           None \<Rightarrow> take limit listed
         | Some (CursorAfter a) \<Rightarrow> take limit (filter (\<lambda>(h, _). beyond order (after_to_bound a) h) listed)
         | Some (CursorBefore a) \<Rightarrow>
             (let before = filter (\<lambda>(h, _). short_of order (before_to_bound a) h) listed
              in drop (length before - limit) before))"

lemma collect_results_Ok [simp]: "collect_results (map Ok xs) = Ok xs"
  by (induction xs) simp_all

lemma collect_results_map_Ok [simp]: "collect_results (map (\<lambda>x. Ok (f x)) xs) = Ok (map f xs)"
  by (induction xs) simp_all

lemma rev_take_rev: "rev (take n (rev xs)) = drop (length xs - n) xs"
  by (simp add: rev_take)

lemma length_filter_rev: "length (filter P (rev xs)) = length (filter P xs)"
  by (simp flip: rev_filter)

lemma key_list_paginated_spec:
  assumes mk: "height_key mk c" and inv: "store_inv T db"
  shows "key_list_paginated mk db cursor order limit =
     Ok (map (\<lambda>(h, b). (mk h, b)) (page (height_entries c db) cursor order limit))"
proof -
  have *: "collect_results (take n (map (\<lambda>(h, b). Ok (mk h, b)) xs)) = Ok (map (\<lambda>(h, b). (mk h, b)) (take n xs))"
    for n and xs :: "(u64 \<times> 'a) list"
    by (simp add: take_map case_prod_unfold)
  note simps = key_list_paginated_def into_iterator_spec [OF mk inv] * page_def Let_def beyond_def
    short_of_def in_range_def rev_map rev_take_rev rev_filter length_filter_rev
  consider "cursor = None" | a where "cursor = Some (CursorAfter a)" | a where "cursor = Some (CursorBefore a)"
    by (metis cursor_choice.exhaust option.exhaust)
  then show ?thesis
  proof cases
    case 1
    then show ?thesis by (cases order) (simp_all add: simps)
  next
    case (2 a)
    then show ?thesis by (cases order) (simp_all add: simps)
  next
    case (3 a)
    have "rev (take limit xs) = drop (length xs - limit) (rev xs)" for xs :: "(u64 \<times> 'a) list"
      by (simp add: rev_take)
    with 3 show ?thesis by (cases order) (simp_all add: simps)
  qed
qed

text \<open>The page after the last entry of a page continues where that page ended.\<close>

lemma filter_after_sorted:
  assumes "sorted_wrt R (map fst xs)" and "0 < n" and "n \<le> length xs"
    and "\<And>x y. R x y \<Longrightarrow> Q x y" and "\<And>x. \<not> Q x x" and "\<And>x y. R x y \<Longrightarrow> \<not> Q y x"
  shows "filter (\<lambda>(h, _). Q (fst (xs ! (n - 1))) h) xs = drop n xs"
proof -
  let ?p = "fst (xs ! (n - 1))"
  have R: "R (fst (xs ! i)) (fst (xs ! j))" if "i < j" "j < length xs" for i j
    using assms(1) that by (simp add: sorted_wrt_iff_nth_less)
  have "filter (\<lambda>(h, _). Q ?p h) (take n xs) = []"
  proof -
    have "\<not> Q ?p (fst (xs ! i))" if "i < n" for i
      using that R [of i "n - 1"] assms(2,3,5) assms(6) [of "fst (xs ! i)" ?p]
      by (cases "i = n - 1") auto
    then show ?thesis by (fastforce simp: filter_empty_conv in_set_conv_nth split_beta)
  qed
  moreover have "filter (\<lambda>(h, _). Q ?p h) (drop n xs) = drop n xs"
  proof -
    have "Q ?p (fst (drop n xs ! i))" if "i < length (drop n xs)" for i
      using that R [of "n - 1" "n + i"] assms(2,4) by simp
    then show ?thesis by (intro filter_True) (fastforce simp: in_set_conv_nth split_beta)
  qed
  ultimately show ?thesis by (metis append_Nil append_take_drop_id filter_append)
qed

lemma page_continues:
  fixes entries :: "(u64 \<times> 'b) list" and order :: block_list_order
  assumes "sorted_wrt (<) (map fst entries)" and "0 < limit" and "limit \<le> length entries"
  defines "listed \<equiv> if is_indexed_order order then entries else rev entries"
  shows "page entries (Some (CursorAfter (After (fst (listed ! (limit - 1)))))) order limit' =
     take limit' (drop limit listed)"
proof (cases order)
  case LowestToHighest
  then show ?thesis
    using filter_after_sorted [OF assms(1-3), of "(<)"] by (simp add: page_def listed_def beyond_def)
next
  case HighestToLowest
  have "sorted_wrt (>) (map fst (rev entries))"
    using assms(1) by (simp add: rev_map [symmetric] sorted_wrt_rev)
  from filter_after_sorted [OF this assms(2), of "(>)"] show ?thesis
    using HighestToLowest assms(3) by (simp add: page_def listed_def beyond_def)
qed

lemma filter_before_sorted:
  assumes "sorted_wrt R (map fst xs)" and "n < length xs"
    and "\<And>x y. R x y \<Longrightarrow> Q x y" and "\<And>x. \<not> Q x x" and "\<And>x y. R x y \<Longrightarrow> \<not> Q y x"
  shows "filter (\<lambda>(h, _). Q h (fst (xs ! n))) xs = take n xs"
proof -
  let ?p = "fst (xs ! n)"
  have R: "R (fst (xs ! i)) (fst (xs ! j))" if "i < j" "j < length xs" for i j
    using assms(1) that by (simp add: sorted_wrt_iff_nth_less)
  have "\<not> Q (fst (drop n xs ! i)) ?p" if "i < length (drop n xs)" for i
    using that R [of n "n + i"] assms(4) assms(5) [of ?p "fst (xs ! (n + i))"] by (cases "i = 0") auto
  then have "filter (\<lambda>(h, _). Q h ?p) (drop n xs) = []"
    by (fastforce simp: filter_empty_conv in_set_conv_nth split_beta)
  moreover have "Q (fst (take n xs ! i)) ?p" if "i < length (take n xs)" for i
    using that R [of i n] assms(2,3) by simp
  then have "filter (\<lambda>(h, _). Q h ?p) (take n xs) = take n xs"
    by (intro filter_True) (fastforce simp: in_set_conv_nth split_beta)
  ultimately show ?thesis by (metis append_Nil2 append_take_drop_id filter_append)
qed

lemma page_before:
  fixes entries :: "(u64 \<times> 'b) list" and order :: block_list_order
  assumes "sorted_wrt (<) (map fst entries)" and "n < length entries"
  defines "listed \<equiv> if is_indexed_order order then entries else rev entries"
  shows "page entries (Some (CursorBefore (Before (fst (listed ! n))))) order limit = drop (n - limit) (take n listed)"
proof (cases order)
  case LowestToHighest
  then show ?thesis
    using filter_before_sorted [OF assms(1,2), of "(<)"] assms(2)
    by (simp add: page_def listed_def short_of_def Let_def)
next
  case HighestToLowest
  have "sorted_wrt (>) (map fst (rev entries))"
    using assms(1) by (simp add: rev_map [symmetric] sorted_wrt_rev)
  from filter_before_sorted [OF this, of n "(>)"] show ?thesis
    using HighestToLowest assms(2) by (simp add: page_def listed_def short_of_def Let_def)
qed

section \<open>Migration\<close>

lemma store_version_set:
  "store_inv T db \<Longrightarrow> store_version (set_store_version v db) = Ok v"
  using btree.insert_lookup [of db "serialize KStoreVersion" "VVersion v"]
  by (simp add: set_store_version_def store_version_def store_inv_def)

lemma store_inv_set_version: "store_inv T db \<Longrightarrow> store_inv T (set_store_version v db)"
  unfolding set_store_version_def by (rule store_inv_insert) simp_all

lemma migrate_block_ok:
  assumes "trait_ok T" and "store_inv T db"
  shows "store_inv T (migrate_block T db b)"
    and "key_wf k \<Longrightarrow> (\<forall>x. k \<noteq> KTxnByHash x) \<Longrightarrow> (\<forall>h. k \<noteq> KNonEmptyBlock h) \<Longrightarrow>
      stored (migrate_block T db b) k = stored db k"
proof -
  let ?ops = "txn_entries T b @ (case non_empty_key T b of Some k \<Rightarrow> [(k, VBlock b)] | None \<Rightarrow> [])"
  have ok: "ops_ok T ?ops"
    using assms(1) by (auto simp: ops_ok_def txn_entries_def non_empty_key_def trait_ok_def)
  show "store_inv T (migrate_block T db b)"
    unfolding migrate_block_def by (rule store_inv_put_all [OF assms(2) ok])
  show "stored (migrate_block T db b) k = stored db k"
    if "key_wf k" "\<forall>x. k \<noteq> KTxnByHash x" "\<forall>h. k \<noteq> KNonEmptyBlock h"
    unfolding migrate_block_def
    by (rule stored_put_all_other [OF assms(2) ok that(1)])
       (use that(2,3) in \<open>auto simp: txn_entries_def non_empty_key_def split: if_splits\<close>)
qed

lemma migrate_fold_ok:
  fixes db :: "('b, 't) store_db" and xs :: "(u64 \<times> 'b) list"
  assumes "trait_ok T" and "store_inv T db"
  shows "\<exists>db'. fold_o (\<lambda>db r. bind_o r (\<lambda>(_, b). Ok (migrate_block T db b))) db
       (map Ok xs :: (u64 \<times> 'b, store_error) outcome list) = Ok db' \<and>
     store_inv T db' \<and>
     (\<forall>k. key_wf k \<longrightarrow> (\<forall>x. k \<noteq> KTxnByHash x) \<longrightarrow> (\<forall>h. k \<noteq> KNonEmptyBlock h) \<longrightarrow> stored db' k = stored db k)"
  using assms(2)
proof (induction xs arbitrary: db)
  case (Cons x xs)
  note m = migrate_block_ok [OF assms(1) Cons.prems, where b = "snd x"]
  obtain db' where db': "fold_o (\<lambda>db r. bind_o r (\<lambda>(_, b). Ok (migrate_block T db b)))
      (migrate_block T db (snd x)) (map Ok xs :: (u64 \<times> 'b, store_error) outcome list) = Ok db'" "store_inv T db'"
    "\<forall>k. key_wf k \<longrightarrow> (\<forall>x. k \<noteq> KTxnByHash x) \<longrightarrow> (\<forall>h. k \<noteq> KNonEmptyBlock h) \<longrightarrow>
       stored db' k = stored (migrate_block T db (snd x)) k"
    using Cons.IH [OF m(1)] by blast
  then show ?case using m(2) by (cases x) auto
qed simp

lemma migrate_ok:
  assumes T: "trait_ok T" and inv: "store_inv T db" and v: "store_version db = Ok 0"
  shows "\<exists>db'. store_migrate T db = Ok db' \<and> store_inv T db' \<and> store_version db' = Ok 1 \<and>
     (\<forall>k. key_wf k \<longrightarrow> (\<forall>x. k \<noteq> KTxnByHash x) \<longrightarrow> (\<forall>h. k \<noteq> KNonEmptyBlock h) \<longrightarrow> k \<noteq> KStoreVersion \<longrightarrow>
        stored db' k = stored db k)"
proof -
  have hk: "height_key KBlock 0" by (simp add: height_key_def)
  obtain xs where "list_blocks db (Unbounded, Unbounded) LowestToHighest = map Ok xs"
    unfolding list_blocks_def using list_keys_spec [OF hk inv, of select_block] by auto
  then obtain db1 where db1: "fold_o (\<lambda>db r. bind_o r (\<lambda>(_, b). Ok (migrate_block T db b))) db
      (list_blocks db (Unbounded, Unbounded) LowestToHighest) = Ok db1" "store_inv T db1"
    "\<forall>k. key_wf k \<longrightarrow> (\<forall>x. k \<noteq> KTxnByHash x) \<longrightarrow> (\<forall>h. k \<noteq> KNonEmptyBlock h) \<longrightarrow> stored db1 k = stored db k"
    using migrate_fold_ok [OF T inv, of xs] by auto
  let ?db = "set_store_version 1 db1"
  have "migrate_to_v1 T db = Ok ?db" by (simp add: migrate_to_v1_def db1(1))
  moreover have v1: "store_version ?db = Ok 1" by (rule store_version_set [OF db1(2)])
  ultimately have "store_migrate T db = Ok ?db"
    using v by (simp add: store_migrate_def LATEST_VERSION_def)
  moreover have "stored ?db k = stored db1 k" if "key_wf k" "k \<noteq> KStoreVersion" for k
    using stored_insert [OF db1(2), of KStoreVersion k] that by (simp add: set_store_version_def)
  ultimately show ?thesis
    using v1 db1(3) store_inv_set_version [OF db1(2)] by auto
qed

section \<open>Properties\<close>

definition demo_trait :: "(u64 \<times> nat list, nat) block_trait" where
  "demo_trait = \<lparr>bl_height = fst, bl_hash = (\<lambda>b. replicate 32 (ucast (fst b))), bl_txns = snd,
     tx_hash = (\<lambda>t. replicate 32 (word_of_nat t)), tx_inputs = (\<lambda>t. []),
     tx_outputs = (\<lambda>t. [word_of_nat t]), tx_mint_hash = (\<lambda>t. Some (word_of_nat t))\<rparr>"

lemma demo_trait_ok: "trait_ok demo_trait"
  by (simp add: trait_ok_def demo_trait_def)

lemma store_create_inv: "store_inv T store_create"
  unfolding store_create_def
  by (rule store_inv_set_version) (simp add: store_inv_def bt_get_def)

text \<open>
  Keys survive their encoding: the bytes of a key decode to the key, so different keys never
  share a database entry, and the bytes of block keys are ordered like the heights.
\<close>

lemma key_roundtrip:
  assumes "key_wf k"
  shows "deserialize (serialize k) = Ok k \<and>
     (\<forall>k'. key_wf k' \<and> serialize k' = serialize k \<longrightarrow> k' = k) \<and>
     (serialize (KBlock h) < serialize (KBlock h') \<longleftrightarrow> h < h')"
  using deserialize_serialize [OF assms] serialize_inj [OF _ assms] by (auto simp: serialize_def)

text \<open>The index of non-empty blocks gets the block when it has transactions.\<close>

lemma list_non_empty_mem:
  assumes "store_inv T db"
  shows "Ok (h, x) \<in> set (list_non_empty db rng order) \<longleftrightarrow> stored db (KNonEmptyBlock h) = Some (VBlock x) \<and> in_range rng h"
proof -
  have hk: "height_key KNonEmptyBlock 6" by (simp add: height_key_def)
  show ?thesis
    unfolding list_non_empty_def
    using list_keys_spec [OF hk assms, of select_non_empty rng order] height_entries_stored [OF hk assms, of h x]
    by (auto split: if_splits)
qed

lemma store_set_non_empty:
  assumes T: "trait_ok T" and inv: "store_inv T db" and set: "store_set T b db = Ok db'"
  shows "Ok (h, x) \<in> set (list_non_empty db' rng order) \<longleftrightarrow>
    (if h = bl_height T b \<and> bl_txns T b \<noteq> [] then x = b \<and> in_range rng h
     else Ok (h, x) \<in> set (list_non_empty db rng order))"
proof -
  obtain m where db': "db' = db_put_all (set_entries T b m) db" "store_inv T db'"
    using store_set_ok [OF T inv, of b] set by auto
  have "stored db' (KNonEmptyBlock h) = (if h = bl_height T b \<and> bl_txns T b \<noteq> [] then Some (VBlock b)
      else stored db (KNonEmptyBlock h))"
    unfolding db'(1) by (rule stored_set [OF T inv]) (auto simp: set_entries_mem)
  then show ?thesis using list_non_empty_mem [OF db'(2)] list_non_empty_mem [OF inv] by auto
qed

text \<open>
  C19. Storing a block succeeds and makes it readable by height and by hash, and its transactions by
  their hashes (of several transactions with one hash the last is read); it raises the maximum
  height when the block is higher, lists the block among the non-empty ones when it has transactions, and indexes its inputs,
  outputs and mint hashes with the block's hash and height. Every other answer of the store, for
  other heights, hashes, transactions, elements and mint hashes, the pending block and the version, is
  as it was.
\<close>

theorem store_set_spec:
  assumes "trait_ok T" and "store_inv T db"
  shows "\<exists>db' m. store_set T b db = Ok db' \<and> store_inv T db' \<and> get_max_height db = Ok m \<and>
     (\<forall>h. store_get db' h = (if h = bl_height T b then Ok (Some b) else store_get db h)) \<and>
     get_max_height db' = Ok (Some (case m of None \<Rightarrow> bl_height T b | Some x \<Rightarrow> max x (bl_height T b))) \<and>
     (\<forall>x. length x = 32 \<longrightarrow> get_block_height_by_hash db' x =
        (if x = bl_hash T b then Ok (Some (bl_height T b)) else get_block_height_by_hash db x)) \<and>
     (\<forall>x. length x = 32 \<longrightarrow> get_txn_by_hash db' x =
        (case find (\<lambda>t. tx_hash T t = x) (rev (bl_txns T b)) of
           Some t \<Rightarrow> Ok (Some t) | None \<Rightarrow> get_txn_by_hash db x)) \<and>
     (\<forall>h x rng order. Ok (h, x) \<in> set (list_non_empty db' rng order) \<longleftrightarrow>
        (if h = bl_height T b \<and> bl_txns T b \<noteq> [] then x = b \<and> in_range rng h
         else Ok (h, x) \<in> set (list_non_empty db rng order))) \<and>
     (\<forall>e k. get_element_history_with_kind db' e k =
        (if \<exists>t \<in> set (bl_txns T b). e \<in> set (if k = InputKind then tx_inputs T t else tx_outputs T t)
         then Ok (Some \<lparr>hd_block_hash = bl_hash T b, hd_block_height = bl_height T b\<rparr>)
         else get_element_history_with_kind db e k)) \<and>
     (\<forall>mh. get_mint_hash db' mh =
        (if \<exists>t \<in> set (bl_txns T b). tx_mint_hash T t = Some mh
         then Ok (Some \<lparr>hd_block_hash = bl_hash T b, hd_block_height = bl_height T b\<rparr>)
         else get_mint_hash db mh)) \<and>
     get_pending_block db' = get_pending_block db \<and> store_version db' = store_version db"
proof -
  obtain db' m where s: "store_set T b db = Ok db'" "store_inv T db'" "get_max_height db = Ok m"
    using store_set_ok [OF assms] by blast
  note other = store_set_txns [OF assms s(1)]
  have "get_pending_block db' = get_pending_block db" "store_version db' = store_version db"
    by (rule other(3,4) [of "replicate 32 0"], simp)+
  then show ?thesis
    using s store_set_reads [OF assms s(1) s(3)] store_set_non_empty [OF assms s(1)] other(1,2) by blast
qed

theorem store_set_spec_witness:
  "\<exists>db'. store_set demo_trait (3, [8]) store_create = Ok db' \<and> store_inv demo_trait db' \<and>
     store_get db' 3 = Ok (Some (3, [8])) \<and> get_txn_by_hash db' (replicate 32 8) = Ok (Some 8) \<and>
     get_block_height_by_hash db' (replicate 32 3) = Ok (Some 3) \<and>
     Ok (3, (3, [8])) \<in> set (list_non_empty db' (Unbounded, Unbounded) LowestToHighest) \<and> store_version db' = Ok LATEST_VERSION"
proof -
  have d: "bl_height demo_trait (3, [8]) = 3" "bl_hash demo_trait (3, [8]) = replicate 32 3"
    "bl_txns demo_trait (3, [8]) = [8]" "tx_hash demo_trait 8 = replicate 32 8"
    by (simp_all add: demo_trait_def)
  have v: "store_version store_create = Ok LATEST_VERSION"
    by (simp add: store_create_def set_store_version_def store_version_def bt_get_def)
  obtain db' where db': "store_set demo_trait (3, [8]) store_create = Ok db'" "store_inv demo_trait db'"
    "store_get db' 3 = Ok (Some (3, [8]))" "get_block_height_by_hash db' (replicate 32 3) = Ok (Some 3)"
    "get_txn_by_hash db' (replicate 32 8) = Ok (Some 8)"
    "Ok (3, (3, [8])) \<in> set (list_non_empty db' (Unbounded, Unbounded) LowestToHighest)"
    "store_version db' = Ok LATEST_VERSION"
    using store_set_spec [OF demo_trait_ok store_create_inv, of "(3, [8])"] unfolding d v
    by (auto simp: in_range_def d(4))
  then show ?thesis by blast
qed

text \<open>
  A range query lists exactly the stored blocks whose height is in the range, each once,
  in increasing order of height, or in decreasing order when asked for; no decoding error occurs.
\<close>

lemma list_blocks_range:
  assumes "store_inv T db"
  shows "\<exists>xs. list_blocks db rng LowestToHighest = map Ok xs \<and>
     list_blocks db rng HighestToLowest = map Ok (rev xs) \<and> sorted_wrt (<) (map fst xs) \<and>
     (\<forall>h b. (h, b) \<in> set xs \<longleftrightarrow> store_get db h = Ok (Some b) \<and> in_range rng h)"
proof -
  let ?xs = "filter (\<lambda>(h, _). in_range rng h) (height_entries 0 db)"
  have hk: "height_key KBlock 0" by (simp add: height_key_def)
  have "list_blocks db rng LowestToHighest = map Ok ?xs" "list_blocks db rng HighestToLowest = map Ok (rev ?xs)"
    unfolding list_blocks_def using list_keys_spec [OF hk assms, of select_block] by simp_all
  moreover have "sorted_wrt (<) (map fst ?xs)"
    using height_entries_sorted [OF hk assms] by (simp add: sorted_wrt_map sorted_wrt_filter)
  moreover have "store_get db h = Ok (Some b) \<longleftrightarrow> stored db (KBlock h) = Some (VBlock b)" for h b
    by (auto simp: store_get_def stored_def bind_o_Ok_iff elim: block_from_bytes.elims split: option.splits)
  then have "(h, b) \<in> set ?xs \<longleftrightarrow> store_get db h = Ok (Some b) \<and> in_range rng h" for h b
    using height_entries_stored [OF hk assms] by auto
  ultimately show ?thesis by blast
qed

text \<open>
  Pages tile the listing: the first page is its first \<open>limit\<close> entries, the page after the last
  entry of a page is the next stretch of the listing, and the page before an entry is the stretch
  that ends just before it, in both orders.
\<close>

lemma list_paginated_tiles:
  assumes "store_inv T db" and "list_blocks db (Unbounded, Unbounded) order = map Ok listed"
  shows "list_paginated db None order limit = Ok (map Ok (take limit listed)) \<and>
     (\<forall>n < length listed.
        list_paginated db (Some (CursorAfter (After (fst (listed ! n))))) order limit =
          Ok (map Ok (take limit (drop (Suc n) listed))) \<and>
        list_paginated db (Some (CursorBefore (Before (fst (listed ! n))))) order limit =
          Ok (map Ok (drop (n - limit) (take n listed))))"
proof -
  let ?es = "height_entries 0 db"
  have hk: "height_key KBlock 0" by (simp add: height_key_def)
  have sorted: "sorted_wrt (<) (map fst ?es)" by (rule height_entries_sorted [OF hk assms(1)])
  have "map Ok listed = (map Ok (if is_indexed_order order then ?es else rev ?es) :: (u64 \<times> 'a, store_error) outcome list)"
    using assms(2) list_keys_spec [OF hk assms(1), of select_block "(Unbounded, Unbounded)" order]
    by (auto simp: list_blocks_def in_range_def)
  then have listed: "listed = (if is_indexed_order order then ?es else rev ?es)"
    by (simp only: inj_map_eq_map [of "Ok :: _ \<Rightarrow> (u64 \<times> 'a, store_error) outcome"] inj_def outcome.inject simp_thms)
  have lp: "list_paginated db cursor order limit = Ok (map Ok (page ?es cursor order limit))" for cursor limit
    unfolding list_paginated_def key_list_paginated_spec [OF hk assms(1)]
    by (simp add: select_key_def case_prod_unfold)
  have len: "length listed = length ?es" by (simp add: listed)
  show ?thesis
    unfolding lp
    using page_continues [OF sorted, of "Suc _" order] page_before [OF sorted, of _ order]
    by (simp add: len listed [symmetric]) (simp add: page_def listed Let_def)
qed

text \<open>
  The migration from version 0 always ends at version 1 and keeps every stored block, but it
  does not build the element-history and mint-hash indexes: an old block's mint stays unknown.
\<close>

lemma migrate_leaves_history_empty:
  assumes "trait_ok T" and "store_inv T db" and "store_version db = Ok 0"
  shows "\<exists>db'. store_migrate T db = Ok db' \<and> store_inv T db' \<and> store_version db' = Ok 1 \<and>
     (\<forall>h. store_get db' h = store_get db h) \<and> (\<forall>m. get_mint_hash db' m = get_mint_hash db m) \<and>
     (\<forall>e. get_element_history db' e = get_element_history db e)"
proof -
  obtain db' where db': "store_migrate T db = Ok db'" "store_inv T db'" "store_version db' = Ok 1"
    "\<forall>k. key_wf k \<longrightarrow> (\<forall>x. k \<noteq> KTxnByHash x) \<longrightarrow> (\<forall>h. k \<noteq> KNonEmptyBlock h) \<longrightarrow> k \<noteq> KStoreVersion \<longrightarrow>
        stored db' k = stored db k"
    using migrate_ok [OF assms] by blast
  have "stored db' (KBlock h) = stored db (KBlock h)" "stored db' (KMintHash m) = stored db (KMintHash m)"
    "stored db' (KElementHistory e k) = stored db (KElementHistory e k)" for h m e k
    using db'(4) by simp_all
  then show ?thesis
    using db'(1-3) unfolding stored_def
    by (simp add: store_get_def get_mint_hash_def get_element_history_def get_element_history_with_kind_def)
qed

end
