(* ===== verification/Node_Mempool.thy ===== *)
theory Node_Mempool
  imports Prelude "HOL-Library.AList"
begin

text \<open>
  The mempool of the node (\<open>node/src/mempool.rs\<close>): pending transactions with the commitments
  they change, the queue of keys that may be proposed, and the keys leased to a block height.
  The \<open>Mutex\<close> makes every operation atomic, so an operation is a function on the state. Hash maps
  and hash sets are association lists and lists, whose order stands for the unspecified iteration
  order. A \<open>oneshot::Sender\<close> is an identifier; what is sent is returned as a list.
\<close>

section \<open>State\<close>

datatype 'c add_error = Conflict 'c | DuplicateKey

record ('t, 'c) mempool_txn =
  mt_txn :: 't
  mt_sender :: "nat option"
  mt_changes :: "'c list"

record ('k, 't, 'l, 'c) mempool =
  mp_txns :: "('k \<times> ('t, 'c) mempool_txn) list"
  mp_pool :: "'k list"
  mp_leased :: "('l \<times> 'k list) list"

definition mp_default :: "('k, 't, 'l, 'c) mempool" where
  "mp_default = \<lparr>mp_txns = [], mp_pool = [], mp_leased = []\<rparr>"

section \<open>Operations\<close>

definition mp_add ::
    "('k, 't, 'l, 'c) mempool \<Rightarrow> 'k \<Rightarrow> 't \<Rightarrow> 'c list \<Rightarrow> nat option \<Rightarrow>
     (('k, 't, 'l, 'c) mempool, 'c add_error) outcome" where
  "mp_add s key txn changes sender =
     (case find (\<lambda>change. \<exists>kt \<in> set (mp_txns s). change \<in> set (mt_changes (snd kt))) changes of
        Some conflict \<Rightarrow> Err (Conflict conflict)
      | None \<Rightarrow>
          if map_of (mp_txns s) key \<noteq> None then Err DuplicateKey
          else Ok (s\<lparr>mp_txns := AList.update key
                               \<lparr>mt_txn = txn, mt_sender = sender, mt_changes = changes\<rparr> (mp_txns s),
                      mp_pool := mp_pool s @ [key]\<rparr>))"

text \<open>\<open>leased.entry(lease).or_default().insert(key)\<close> on a map of sets\<close>

definition set_insert :: "'k \<Rightarrow> 'k list \<Rightarrow> 'k list" where
  "set_insert k ks = (if k \<in> set ks then ks else ks @ [k])"

definition lease_insert :: "'l \<Rightarrow> 'k \<Rightarrow> ('l \<times> 'k list) list \<Rightarrow> ('l \<times> 'k list) list" where
  "lease_insert lease key ls =
     AList.update lease (set_insert key (case map_of ls lease of None \<Rightarrow> [] | Some ks \<Rightarrow> ks)) ls"

text \<open>One round of the loop of \<open>commit\<close>: the new state and what is sent to the waiting caller.\<close>

definition commit_key ::
    "'l \<Rightarrow> ('k, 't, 'l, 'c) mempool \<Rightarrow> 'k \<Rightarrow> 'r \<Rightarrow> ('k, 't, 'l, 'c) mempool \<times> (nat \<times> 'r) list" where
  "commit_key lease s key result =
     (s\<lparr>mp_txns := AList.delete key (mp_txns s),
        mp_leased := (case map_of (mp_leased s) lease of
                        None \<Rightarrow> mp_leased s
                      | Some ks \<Rightarrow> AList.update lease (removeAll key ks) (mp_leased s)),
        mp_pool := remove1 key (mp_pool s)\<rparr>,
      case map_of (mp_txns s) key of
        Some t \<Rightarrow> (case mt_sender t of Some ch \<Rightarrow> [(ch, result)] | None \<Rightarrow> [])
      | None \<Rightarrow> [])"

fun commit_loop ::
    "'l \<Rightarrow> ('k, 't, 'l, 'c) mempool \<Rightarrow> ('k \<times> 'r) list \<Rightarrow> ('k, 't, 'l, 'c) mempool \<times> (nat \<times> 'r) list" where
  "commit_loop lease s [] = (s, [])"
| "commit_loop lease s ((key, result) # rest) =
     (case commit_key lease s key result of
        (s1, out1) \<Rightarrow> (case commit_loop lease s1 rest of (s2, out2) \<Rightarrow> (s2, out1 @ out2)))"

definition mp_free :: "('k, 't, 'l, 'c) mempool \<Rightarrow> 'l \<Rightarrow> ('k, 't, 'l, 'c) mempool" where
  "mp_free s lease =
     (let ks = (case map_of (mp_leased s) lease of None \<Rightarrow> [] | Some ks \<Rightarrow> ks)
      in s\<lparr>mp_leased := AList.delete lease (mp_leased s),
           mp_pool := fold (\<lambda>k pool. k # pool) ks (mp_pool s)\<rparr>)"

definition mp_commit ::
    "('k, 't, 'l, 'c) mempool \<Rightarrow> 'l \<Rightarrow> ('k \<times> 'r) list \<Rightarrow> ('k, 't, 'l, 'c) mempool \<times> (nat \<times> 'r) list" where
  "mp_commit s lease keys_with_results =
     (case commit_loop lease s keys_with_results of (s', out) \<Rightarrow> (mp_free s' lease, out))"

definition lease_txns :: "('k, 't, 'l, 'c) mempool \<Rightarrow> 'l \<Rightarrow> 'k list \<Rightarrow> ('k, 't, 'l, 'c) mempool" where
  "lease_txns s lease keys =
     fold (\<lambda>key s. s\<lparr>mp_pool := remove1 key (mp_pool s),
                     mp_leased := lease_insert lease key (mp_leased s)\<rparr>) keys s"

text \<open>
  The loop of \<open>lease_batch\<close> pops keys from the front of the pool; \<open>expect\<close> panics on a key that
  has no transaction. The result is the rest of the pool, the leases, the batch and the
  discarded keys.
\<close>

fun lease_loop ::
    "('k \<times> ('t, 'c) mempool_txn) list \<Rightarrow> 'l \<Rightarrow> nat \<Rightarrow> 'k list \<Rightarrow> ('l \<times> 'k list) list \<Rightarrow> ('k \<times> 't) list \<Rightarrow>
     'k list \<Rightarrow> 'c list \<Rightarrow> ('k list \<times> ('l \<times> 'k list) list \<times> ('k \<times> 't) list \<times> 'k list, unit) outcome" where
  "lease_loop ts lease max_count [] leased txns discard check = Ok ([], leased, txns, discard)"
| "lease_loop ts lease max_count (key # pool) leased txns discard check =
     (case map_of ts key of
        None \<Rightarrow> Panic
      | Some t \<Rightarrow>
          if \<exists>c \<in> set (mt_changes t). c \<in> set check
          then lease_loop ts lease max_count pool leased txns (discard @ [key]) check
          else
            let leased' = lease_insert lease key leased;
                txns' = txns @ [(key, mt_txn t)]
            in if max_count \<le> length txns' then Ok (pool, leased', txns', discard)
               else lease_loop ts lease max_count pool leased' txns' discard (check @ mt_changes t))"

definition lease_batch ::
    "('k, 't, 'l, 'c) mempool \<Rightarrow> 'l \<Rightarrow> nat \<Rightarrow> (('k, 't, 'l, 'c) mempool \<times> ('k \<times> 't) list, unit) outcome" where
  "lease_batch s lease max_count =
     bind_o (lease_loop (mp_txns s) lease max_count (mp_pool s) (mp_leased s) [] [] [])
       (\<lambda>(pool, leased, txns, discard).
          Ok (s\<lparr>mp_pool := pool @ discard, mp_leased := leased\<rparr>, txns))"

section \<open>Invariant\<close>

definition leased_of :: "('k, 't, 'l, 'c) mempool \<Rightarrow> 'l \<Rightarrow> 'k list" where
  "leased_of s l = (case map_of (mp_leased s) l of None \<Rightarrow> [] | Some ks \<Rightarrow> ks)"

text \<open>
  Every transaction is in the pool or in exactly one lease, every key of the pool or of a lease
  has a transaction, and different transactions change different commitments.
\<close>

definition changes_disjoint :: "('k \<times> ('t, 'c) mempool_txn) list \<Rightarrow> bool" where
  "changes_disjoint ts \<longleftrightarrow>
     (\<forall>k t k' t'. map_of ts k = Some t \<longrightarrow> map_of ts k' = Some t' \<longrightarrow> k \<noteq> k' \<longrightarrow>
        set (mt_changes t) \<inter> set (mt_changes t') = {})"

definition mp_inv :: "('k, 't, 'l, 'c) mempool \<Rightarrow> bool" where
  "mp_inv s \<longleftrightarrow>
     distinct (map fst (mp_txns s)) \<and> distinct (mp_pool s) \<and>
     (\<forall>l. distinct (leased_of s l)) \<and>
     (\<forall>l k. k \<in> set (leased_of s l) \<longrightarrow> k \<notin> set (mp_pool s)) \<and>
     (\<forall>l l' k. k \<in> set (leased_of s l) \<longrightarrow> k \<in> set (leased_of s l') \<longrightarrow> l = l') \<and>
     (\<forall>k. map_of (mp_txns s) k \<noteq> None \<longleftrightarrow> k \<in> set (mp_pool s) \<or> (\<exists>l. k \<in> set (leased_of s l))) \<and>
     changes_disjoint (mp_txns s)"

lemma mp_inv_default [simp, intro]: "mp_inv mp_default"
  by (simp add: mp_inv_def mp_default_def leased_of_def changes_disjoint_def)

lemma set_set_insert [simp]: "set (set_insert k ks) = insert k (set ks)"
  by (auto simp: set_insert_def)

lemma distinct_set_insert [simp]: "distinct (set_insert k ks) = distinct ks"
  by (auto simp: set_insert_def)

lemma map_of_lease_insert:
  "map_of (lease_insert l k ls) =
     (map_of ls)(l \<mapsto> set_insert k (case map_of ls l of None \<Rightarrow> [] | Some ks \<Rightarrow> ks))"
  by (simp add: lease_insert_def update_conv')

lemma leased_of_lease_insert:
  "leased_of (s\<lparr>mp_pool := p, mp_leased := lease_insert l k (mp_leased s)\<rparr>) l' =
     (if l' = l then set_insert k (leased_of s l) else leased_of s l')"
  by (simp add: leased_of_def map_of_lease_insert)

lemma leased_of_simps [simp]:
  "leased_of (s\<lparr>mp_pool := p\<rparr>) = leased_of s"
  "leased_of (s\<lparr>mp_txns := t\<rparr>) = leased_of s"
  by (auto simp: leased_of_def fun_eq_iff)

lemma leased_of_fold_insert:
  "leased_of (s\<lparr>mp_leased := fold (lease_insert l) ks ls\<rparr>) l' =
     (if l' = l then fold set_insert ks (leased_of (s\<lparr>mp_leased := ls\<rparr>) l)
      else leased_of (s\<lparr>mp_leased := ls\<rparr>) l')"
  by (induction ks arbitrary: ls) (auto simp: leased_of_def map_of_lease_insert)

lemma set_fold_set_insert [simp]: "set (fold set_insert ks xs) = set ks \<union> set xs"
  by (induction ks arbitrary: xs) auto

lemma distinct_fold_set_insert [simp]: "distinct (fold set_insert ks xs) = distinct xs"
  by (induction ks arbitrary: xs) auto

section \<open>Adding\<close>

lemma mp_add_ok:
  assumes "mp_inv s" and "mp_add s key txn changes sender = Ok s'"
  shows "mp_inv s'"
    and "map_of (mp_txns s') =
      (map_of (mp_txns s))(key \<mapsto> \<lparr>mt_txn = txn, mt_sender = sender, mt_changes = changes\<rparr>)"
    and "mp_pool s' = mp_pool s @ [key]" and "key \<notin> dom (map_of (mp_txns s))"
proof -
  have fnd: "find (\<lambda>change. \<exists>kt \<in> set (mp_txns s). change \<in> set (mt_changes (snd kt))) changes = None"
    and new: "map_of (mp_txns s) key = None"
    and s': "s' = s\<lparr>mp_txns := AList.update key
        \<lparr>mt_txn = txn, mt_sender = sender, mt_changes = changes\<rparr> (mp_txns s),
        mp_pool := mp_pool s @ [key]\<rparr>"
    using assms(2) by (auto simp: mp_add_def split: option.splits if_splits)
  have fresh: "set changes \<inter> set (mt_changes t) = {}" if "map_of (mp_txns s) k = Some t" for k t
    using fnd map_of_SomeD [OF that] by (fastforce simp: find_None_iff)
  have dis: "changes_disjoint (mp_txns s)" using assms(1) by (simp add: mp_inv_def)
  have "changes_disjoint (mp_txns s')"
    unfolding changes_disjoint_def s'
    using dis fresh by (simp add: update_conv' changes_disjoint_def disjoint_iff) blast
  moreover have "key \<notin> set (mp_pool s)" "\<And>l. key \<notin> set (leased_of s l)"
    using assms(1) new unfolding mp_inv_def by blast+
  ultimately show "mp_inv s'"
    using assms(1) new by (auto simp: mp_inv_def s' update_conv' distinct_update)
  show "map_of (mp_txns s') =
      (map_of (mp_txns s))(key \<mapsto> \<lparr>mt_txn = txn, mt_sender = sender, mt_changes = changes\<rparr>)"
    "mp_pool s' = mp_pool s @ [key]" "key \<notin> dom (map_of (mp_txns s))"
    using new by (simp_all add: s' update_conv' domIff)
qed

section \<open>Leasing a batch\<close>

lemma lease_loop_spec:
  assumes "distinct pool" and "set pool \<subseteq> dom (map_of ts)" and "changes_disjoint ts"
    and "\<And>k t. k \<in> set pool \<Longrightarrow> map_of ts k = Some t \<Longrightarrow> set (mt_changes t) \<inter> set check = {}"
  shows "lease_loop ts lease max_count pool leased txns discard check =
    (let j = (if max_count \<le> length txns + 1 then 1 else max_count - length txns)
     in Ok (drop j pool, fold (lease_insert lease) (take j pool) leased,
            txns @ map (\<lambda>k. (k, mt_txn (the (map_of ts k)))) (take j pool), discard))"
  using assms
proof (induction pool arbitrary: leased txns check)
  case Nil
  then show ?case by (simp add: Let_def)
next
  case (Cons key pool)
  obtain t where t: "map_of ts key = Some t" using Cons.prems(2) by auto
  have no: "\<not> (\<exists>c \<in> set (mt_changes t). c \<in> set check)"
    using Cons.prems(4) [of key t] t by auto
  have dis: "set (mt_changes t') \<inter> set (check @ mt_changes t) = {}"
    if "k \<in> set pool" "map_of ts k = Some t'" for k t'
  proof -
    have "k \<noteq> key" using that(1) Cons.prems(1) by auto
    then have "set (mt_changes t') \<inter> set (mt_changes t) = {}"
      using Cons.prems(3) that(2) t by (auto simp: changes_disjoint_def)
    moreover have "set (mt_changes t') \<inter> set check = {}"
      using Cons.prems(4) [of k t'] that by auto
    ultimately show ?thesis by auto
  qed
  show ?case
  proof (cases "max_count \<le> length txns + 1")
    case True
    then show ?thesis using t no by (simp add: Let_def)
  next
    case False
    then have "\<exists>n. max_count - length txns = Suc (Suc n)" by presburger
    then obtain n where n: "max_count - length txns = Suc (Suc n)" ..
    have ih: "lease_loop ts lease max_count pool (lease_insert lease key leased) (txns @ [(key, mt_txn t)])
        discard (check @ mt_changes t) =
      (let j = (if max_count \<le> length (txns @ [(key, mt_txn t)]) + 1 then 1
                else max_count - length (txns @ [(key, mt_txn t)]))
       in Ok (drop j pool, fold (lease_insert lease) (take j pool) (lease_insert lease key leased),
            (txns @ [(key, mt_txn t)]) @ map (\<lambda>k. (k, mt_txn (the (map_of ts k)))) (take j pool), discard))"
      by (rule Cons.IH) (use Cons.prems(1-3) dis in auto)
    have "(if max_count \<le> length (txns @ [(key, mt_txn t)]) + 1 then 1
                else max_count - length (txns @ [(key, mt_txn t)])) = Suc n"
      using n by auto
    then show ?thesis using False t no ih n by (simp add: Let_def)
  qed
qed

lemma mp_inv_lease:
  assumes inv: "mp_inv s" and ks: "distinct ks" "set ks \<subseteq> set (mp_pool s)"
    and p: "set p = set (mp_pool s) - set ks" "distinct p"
  shows "mp_inv (s\<lparr>mp_pool := p, mp_leased := fold (lease_insert l) ks (mp_leased s)\<rparr>)"
proof -
  let ?s = "s\<lparr>mp_pool := p, mp_leased := fold (lease_insert l) ks (mp_leased s)\<rparr>"
  have lo: "leased_of ?s l' = (if l' = l then fold set_insert ks (leased_of s l) else leased_of s l')" for l'
    using leased_of_fold_insert [where s = "s\<lparr>mp_pool := p\<rparr>" and ls = "mp_leased s"]
    by (simp add: leased_of_def)
  have "(\<exists>l'. k \<in> set (leased_of ?s l')) \<longleftrightarrow> k \<in> set ks \<or> (\<exists>l'. k \<in> set (leased_of s l'))" for k
    by (auto simp: lo)
  then have "map_of (mp_txns s) k \<noteq> None \<longleftrightarrow> k \<in> set p \<or> (\<exists>l'. k \<in> set (leased_of ?s l'))" for k
    using inv ks(2) p(1) unfolding mp_inv_def by blast
  moreover have "distinct (leased_of ?s l')" for l'
    using inv by (simp add: lo mp_inv_def)
  moreover have "k \<notin> set p" if "k \<in> set (leased_of ?s l')" for k l'
    using inv that p(1) unfolding lo mp_inv_def by (auto split: if_splits)
  moreover have "l1 = l2" if "k \<in> set (leased_of ?s l1)" "k \<in> set (leased_of ?s l2)" for k l1 l2
    using inv ks(2) that unfolding lo mp_inv_def by (auto split: if_splits)
  ultimately show ?thesis
    using inv p(2) unfolding mp_inv_def by simp
qed

lemma mp_inv_pool: "mp_inv s \<Longrightarrow> set (mp_pool s) \<subseteq> dom (map_of (mp_txns s))"
  unfolding mp_inv_def by blast

lemma lease_batch_spec:
  fixes s :: "('k, 't, 'l, 'c) mempool" and max_count :: nat
  assumes "mp_inv s"
  defines "n \<equiv> max 1 max_count"
  shows "lease_batch s l max_count =
      Ok (s\<lparr>mp_pool := drop n (mp_pool s),
            mp_leased := fold (lease_insert l) (take n (mp_pool s)) (mp_leased s)\<rparr>,
          map (\<lambda>k. (k, mt_txn (the (map_of (mp_txns s) k)))) (take n (mp_pool s)))"
proof -
  have "lease_loop (mp_txns s) l max_count (mp_pool s) (mp_leased s) [] [] [] =
      Ok (drop n (mp_pool s), fold (lease_insert l) (take n (mp_pool s)) (mp_leased s),
          map (\<lambda>k. (k, mt_txn (the (map_of (mp_txns s) k)))) (take n (mp_pool s)), [])"
    using assms(1) lease_loop_spec [of "mp_pool s" "mp_txns s" "[]" l max_count "mp_leased s" "[]" "[]"]
      mp_inv_pool [OF assms(1)]
    by (auto simp: mp_inv_def n_def Let_def max_def not_less_eq_eq split: if_splits)
  then show ?thesis by (simp add: lease_batch_def)
qed

lemma lease_batch_inv:
  assumes "mp_inv s" and "lease_batch s l max_count = Ok (s', batch)"
  shows "mp_inv s'"
proof -
  let ?n = "max 1 max_count"
  have d: "distinct (mp_pool s)" using assms(1) by (simp add: mp_inv_def)
  then have "set (drop ?n (mp_pool s)) = set (mp_pool s) - set (take ?n (mp_pool s))"
    using set_take_disj_set_drop_if_distinct [OF d, of ?n ?n]
    by (metis Un_Diff_cancel2 Diff_cancel Diff_triv Un_Diff append_take_drop_id inf_commute le_refl
        set_append sup_bot_left)
  then show ?thesis
    using assms lease_batch_spec [OF assms(1), of l max_count]
      mp_inv_lease [OF assms(1), of "take ?n (mp_pool s)" "drop ?n (mp_pool s)" l] d
    by (auto simp: set_take_subset)
qed

section \<open>Committing\<close>

lemma commit_key_leased [simp]:
  "leased_of (fst (commit_key l s k r)) l' =
     (if l' = l then removeAll k (leased_of s l) else leased_of s l')"
  by (simp add: commit_key_def leased_of_def update_conv' split: option.splits)

lemma commit_key_txns [simp]:
  "map_of (mp_txns (fst (commit_key l s k r))) = (map_of (mp_txns s))(k := None)"
  "distinct (map fst (mp_txns s)) \<Longrightarrow> distinct (map fst (mp_txns (fst (commit_key l s k r))))"
  "mp_pool (fst (commit_key l s k r)) = remove1 k (mp_pool s)"
  by (simp_all add: commit_key_def delete_conv' distinct_delete)

lemma commit_loop_leased:
  "leased_of (fst (commit_loop l s krs)) l' =
     (if l' = l then filter (\<lambda>k. k \<notin> fst ` set krs) (leased_of s l) else leased_of s l')"
proof (induction l s krs rule: commit_loop.induct)
  case (2 lease s key result rest)
  obtain s1 out1 where c: "commit_key lease s key result = (s1, out1)" by fastforce
  have "leased_of s1 lease = removeAll key (leased_of s lease)" "lease \<noteq> l' \<Longrightarrow> leased_of s1 l' = leased_of s l'"
    using commit_key_leased [of lease s key result] c by (auto split: if_splits)
  then show ?case
    using 2 [OF c [symmetric]] c by (auto simp: removeAll_filter_not_eq split: prod.splits intro!: filter_cong)
qed simp

lemma commit_loop_txns:
  "map_of (mp_txns (fst (commit_loop l s krs))) = map_of (mp_txns s) |` (- fst ` set krs) \<and>
   (distinct (map fst (mp_txns s)) \<longrightarrow> distinct (map fst (mp_txns (fst (commit_loop l s krs))))) \<and>
   (distinct (mp_pool s) \<longrightarrow>
      mp_pool (fst (commit_loop l s krs)) = filter (\<lambda>k. k \<notin> fst ` set krs) (mp_pool s))"
proof (induction l s krs rule: commit_loop.induct)
  case (2 lease s key result rest)
  obtain s1 out1 where c: "commit_key lease s key result = (s1, out1)" by fastforce
  have s1: "map_of (mp_txns s1) = (map_of (mp_txns s))(key := None)"
    "distinct (map fst (mp_txns s)) \<Longrightarrow> distinct (map fst (mp_txns s1))"
    "mp_pool s1 = remove1 key (mp_pool s)"
    using c by (auto simp: commit_key_def delete_conv' distinct_delete)
  have "map_of (mp_txns s1) |` (- fst ` set rest) = map_of (mp_txns s) |` (- fst ` set ((key, result) # rest))"
    by (auto simp: s1(1) restrict_map_def fun_eq_iff)
  moreover have "filter (\<lambda>k. k \<notin> fst ` set rest) (remove1 key (mp_pool s)) =
      filter (\<lambda>k. k \<notin> fst ` set ((key, result) # rest)) (mp_pool s)" if "distinct (mp_pool s)"
    using that by (simp add: distinct_remove1_removeAll removeAll_filter_not_eq)
      (metis (lifting) filter_cong)
  moreover obtain s2 out2 where c2: "commit_loop lease s1 rest = (s2, out2)" by fastforce
  then have "commit_loop lease s ((key, result) # rest) = (s2, out1 @ out2)" using c by simp
  moreover have "distinct (mp_pool s) \<Longrightarrow> distinct (mp_pool s1)" by (simp add: s1(3))
  ultimately show ?case
    using 2 [OF c [symmetric]] s1(2) by (simp only: c2 fst_conv s1(3)) simp
qed (auto simp: restrict_map_def)

definition sender_results :: "('k \<times> ('t, 'c) mempool_txn) list \<Rightarrow> ('k \<times> 'r) list \<Rightarrow> (nat \<times> 'r) list" where
  "sender_results ts krs =
     concat (map (\<lambda>(k, r). case map_of ts k of
                             None \<Rightarrow> []
                           | Some t \<Rightarrow> (case mt_sender t of None \<Rightarrow> [] | Some ch \<Rightarrow> [(ch, r)])) krs)"

lemma commit_loop_sent:
  "distinct (map fst krs) \<Longrightarrow> snd (commit_loop l s krs) = sender_results (mp_txns s) krs"
proof (induction l s krs rule: commit_loop.induct)
  case (2 lease s key result rest)
  obtain s1 out1 where c: "commit_key lease s key result = (s1, out1)" by fastforce
  have s1: "map_of (mp_txns s1) = (map_of (mp_txns s))(key := None)"
    and out1: "out1 = sender_results (mp_txns s) [(key, result)]"
    using c by (auto simp: commit_key_def delete_conv' sender_results_def split: option.splits)
  have "sender_results (mp_txns s1) rest = sender_results (mp_txns s) rest"
    unfolding sender_results_def s1
    using "2.prems" by (intro arg_cong [where f = concat] map_cong) (force split: prod.splits)+
  then show ?case
    using 2 c out1 by (auto simp: sender_results_def split: prod.splits)
qed (simp add: sender_results_def)

lemma mp_commit_spec:
  assumes "mp_inv s" and "distinct (map fst krs)"
    and "\<And>l' k. l' \<noteq> l \<Longrightarrow> k \<in> set (leased_of s l') \<Longrightarrow> k \<notin> fst ` set krs"
    and "mp_commit s l krs = (s', out)"
  shows "mp_inv s'"
    and "map_of (mp_txns s') = map_of (mp_txns s) |` (- fst ` set krs)"
    and "mp_pool s' = rev (filter (\<lambda>k. k \<notin> fst ` set krs) (leased_of s l)) @
       filter (\<lambda>k. k \<notin> fst ` set krs) (mp_pool s)"
    and "leased_of s' = (leased_of s)(l := [])"
    and "out = sender_results (mp_txns s) krs"
proof -
  let ?K = "fst ` set krs"
  let ?s1 = "fst (commit_loop l s krs)"
  have s': "s' = mp_free ?s1 l" and out: "out = snd (commit_loop l s krs)"
    using assms(4) by (auto simp: mp_commit_def split: prod.splits)
  have inv: "distinct (map fst (mp_txns s))" "distinct (mp_pool s)" "changes_disjoint (mp_txns s)"
    using assms(1) by (simp_all add: mp_inv_def)
  note t = commit_loop_txns [of l s krs] and lo = commit_loop_leased [of l s krs]
  show txns: "map_of (mp_txns s') = map_of (mp_txns s) |` (- ?K)"
    using t by (simp add: s' mp_free_def)
  have "leased_of ?s1 l = filter (\<lambda>k. k \<notin> ?K) (leased_of s l)" using lo by simp
  then show pool: "mp_pool s' = rev (filter (\<lambda>k. k \<notin> ?K) (leased_of s l)) @ filter (\<lambda>k. k \<notin> ?K) (mp_pool s)"
    using t inv(2) by (simp add: s' mp_free_def fold_Cons_rev leased_of_def [symmetric])
  have "leased_of s' l' = (if l' = l then [] else leased_of ?s1 l')" for l'
    by (simp add: s' mp_free_def leased_of_def delete_conv')
  then show leased: "leased_of s' = (leased_of s)(l := [])"
    by (auto simp: lo fun_eq_iff)
  show "out = sender_results (mp_txns s) krs"
    using commit_loop_sent [OF assms(2), of l s] by (simp add: out)
  have cd: "changes_disjoint (mp_txns s')"
    using inv(3) unfolding changes_disjoint_def txns by (simp add: restrict_map_def)
  have dist: "distinct (map fst (mp_txns s'))"
    using t inv(1) by (simp add: s' mp_free_def)
  have home: "map_of (mp_txns s') k \<noteq> None \<longleftrightarrow> k \<in> set (mp_pool s') \<or> (\<exists>l. k \<in> set (leased_of s' l))" for k
  proof -
    have "map_of (mp_txns s) k \<noteq> None \<longleftrightarrow> k \<in> set (mp_pool s) \<or> (\<exists>l. k \<in> set (leased_of s l))"
      using assms(1) unfolding mp_inv_def by blast
    then show ?thesis
      using assms(3) [of _ k] unfolding txns pool leased by (auto simp: restrict_map_def)
  qed
  have "distinct (mp_pool s')" "\<And>l k. k \<in> set (leased_of s' l) \<Longrightarrow> k \<notin> set (mp_pool s')"
    using assms(1) unfolding pool leased mp_inv_def by (auto split: if_splits)
  then show "mp_inv s'"
    using dist cd home assms(1) unfolding mp_inv_def leased by auto
qed

section \<open>Leasing the transactions of a received block\<close>

lemma leased_of_lease_txns:
  "leased_of (lease_txns s l ks) l' = (if l' = l then fold set_insert ks (leased_of s l) else leased_of s l')"
proof (induction ks arbitrary: s)
  case (Cons k ks)
  let ?s = "s\<lparr>mp_pool := remove1 k (mp_pool s), mp_leased := lease_insert l k (mp_leased s)\<rparr>"
  have "lease_txns s l (k # ks) = lease_txns ?s l ks" by (simp add: lease_txns_def)
  then show ?case using Cons [of ?s] by (simp add: leased_of_lease_insert)
qed (simp add: lease_txns_def)

lemma lease_txns_fields:
  "mp_txns (lease_txns s l ks) = mp_txns s"
  "distinct (mp_pool s) \<Longrightarrow> mp_pool (lease_txns s l ks) = filter (\<lambda>k. k \<notin> set ks) (mp_pool s)"
proof -
  have "mp_txns (lease_txns s l ks) = mp_txns s \<and>
     (distinct (mp_pool s) \<longrightarrow> mp_pool (lease_txns s l ks) = filter (\<lambda>k. k \<notin> set ks) (mp_pool s))"
  proof (induction ks arbitrary: s)
    case (Cons k ks)
    let ?s = "s\<lparr>mp_pool := remove1 k (mp_pool s), mp_leased := lease_insert l k (mp_leased s)\<rparr>"
    have "lease_txns s l (k # ks) = lease_txns ?s l ks" by (simp add: lease_txns_def)
    then show ?case
      using Cons [of ?s] by (auto simp: distinct_remove1_removeAll removeAll_filter_not_eq intro!: filter_cong)
  qed (simp add: lease_txns_def)
  then show "mp_txns (lease_txns s l ks) = mp_txns s"
    "distinct (mp_pool s) \<Longrightarrow> mp_pool (lease_txns s l ks) = filter (\<lambda>k. k \<notin> set ks) (mp_pool s)"
    by auto
qed

lemma lease_txns_inv:
  assumes inv: "mp_inv s" and ks: "set ks \<subseteq> set (mp_pool s) \<union> set (leased_of s l)"
  shows "mp_inv (lease_txns s l ks)"
proof -
  let ?s = "lease_txns s l ks"
  have d: "distinct (mp_pool s)" using inv by (simp add: mp_inv_def)
  note lo = leased_of_lease_txns [of s l ks] and f = lease_txns_fields(1) [of s l ks]
    lease_txns_fields(2) [OF d, of l ks]
  have mem: "(\<exists>l'. k \<in> set (leased_of ?s l')) \<longleftrightarrow> k \<in> set ks \<or> (\<exists>l'. k \<in> set (leased_of s l'))" for k
    by (auto simp: lo)
  have dom: "map_of (mp_txns s) k \<noteq> None \<longleftrightarrow> k \<in> set (mp_pool s) \<or> (\<exists>l'. k \<in> set (leased_of s l'))" for k
    using inv unfolding mp_inv_def by blast
  have "map_of (mp_txns ?s) k \<noteq> None \<longleftrightarrow> k \<in> set (mp_pool ?s) \<or> (\<exists>l'. k \<in> set (leased_of ?s l'))" for k
    unfolding mem f dom using ks by auto
  moreover have "k \<notin> set (mp_pool ?s)" if "k \<in> set (leased_of ?s l')" for k l'
    using inv that ks unfolding lo f mp_inv_def by (auto split: if_splits)
  moreover have "l1 = l2" if "k \<in> set (leased_of ?s l1)" "k \<in> set (leased_of ?s l2)" for k l1 l2
  proof -
    have mem: "k \<in> set (leased_of ?s l') \<Longrightarrow> k \<in> set (leased_of s l') \<or> l' = l \<and> k \<in> set ks" for l'
      by (auto simp: lo split: if_splits)
    have home: "k \<in> set ks \<Longrightarrow> k \<in> set (leased_of s l') \<Longrightarrow> l' = l" for l'
      using inv ks unfolding mp_inv_def by blast
    have one: "k \<in> set (leased_of s l1) \<Longrightarrow> k \<in> set (leased_of s l2) \<Longrightarrow> l1 = l2"
      using inv unfolding mp_inv_def by blast
    show ?thesis using mem [OF that(1)] mem [OF that(2)] home one by blast
  qed
  moreover have "distinct (leased_of ?s l')" for l'
    using inv by (simp add: lo mp_inv_def)
  moreover have "distinct (map fst (mp_txns ?s))" "changes_disjoint (mp_txns ?s)" "distinct (mp_pool ?s)"
    using inv d by (simp_all add: f mp_inv_def)
  ultimately show ?thesis unfolding mp_inv_def by blast
qed

section \<open>Runs\<close>

text \<open>
  The histories of a mempool, with the channels registered by callers and the results sent so
  far: the operations in any order, with any arguments. A listener's channel is new. A batch that
  panics on a key without a transaction leaves some pool and some leases behind.
\<close>

inductive mp_run :: "('k, 't, 'l, 'c) mempool \<Rightarrow> nat list \<Rightarrow> (nat \<times> 'r) list \<Rightarrow> bool" where
  run_default: "mp_run mp_default [] []"
| run_add: "mp_run s regs sent \<Longrightarrow> mp_add s k t cs None = Ok s' \<Longrightarrow> mp_run s' regs sent"
| run_add_with_listener: "mp_run s regs sent \<Longrightarrow> ch \<notin> set regs \<Longrightarrow>
     mp_add s k t cs (Some ch) = Ok s' \<Longrightarrow> mp_run s' (regs @ [ch]) sent"
| run_lease_batch: "mp_run s regs sent \<Longrightarrow> lease_batch s l n = Ok (s', batch) \<Longrightarrow> mp_run s' regs sent"
| run_lease_panic: "mp_run s regs sent \<Longrightarrow> lease_batch s l n = Panic \<Longrightarrow>
     mp_run (s\<lparr>mp_pool := pool, mp_leased := leased\<rparr>) regs sent"
| run_lease_txns: "mp_run s regs sent \<Longrightarrow> mp_run (lease_txns s l ks) regs sent"
| run_commit: "mp_run s regs sent \<Longrightarrow> mp_commit s l krs = (s', out) \<Longrightarrow> mp_run s' regs (sent @ out)"

text \<open>
  The histories in which moreover a commit names keys that no other lease holds, each once, and a block
  leases keys that are in the pool or in its lease already. They keep the invariant.
\<close>

inductive mp_reachable :: "('k, 't, 'l, 'c) mempool \<Rightarrow> (nat \<times> 'r) list \<Rightarrow> bool" where
  reach_default: "mp_reachable mp_default []"
| reach_add: "mp_reachable s sent \<Longrightarrow> mp_add s k t cs sender = Ok s' \<Longrightarrow> mp_reachable s' sent"
| reach_lease_batch: "mp_reachable s sent \<Longrightarrow> lease_batch s l n = Ok (s', batch) \<Longrightarrow> mp_reachable s' sent"
| reach_lease_txns: "mp_reachable s sent \<Longrightarrow> set ks \<subseteq> set (mp_pool s) \<union> set (leased_of s l) \<Longrightarrow>
     mp_reachable (lease_txns s l ks) sent"
| reach_commit: "mp_reachable s sent \<Longrightarrow> distinct (map fst krs) \<Longrightarrow>
     (\<forall>l' k. l' \<noteq> l \<longrightarrow> k \<in> set (leased_of s l') \<longrightarrow> k \<notin> fst ` set krs) \<Longrightarrow>
     mp_commit s l krs = (s', out) \<Longrightarrow> mp_reachable s' (sent @ out)"

lemma mp_reachable_inv: "mp_reachable s sent \<Longrightarrow> mp_inv s"
proof (induction rule: mp_reachable.induct)
  case (reach_commit s sent krs l s' out)
  then show ?case using mp_commit_spec(1) [of s krs l s' out] by blast
qed (auto intro: mp_add_ok(1) lease_batch_inv lease_txns_inv)

text \<open>The channels of callers still waiting; no two transactions share one.\<close>

definition waiting :: "('k \<Rightarrow> ('t, 'c) mempool_txn option) \<Rightarrow> nat set" where
  "waiting ts = {ch. \<exists>k t. ts k = Some t \<and> mt_sender t = Some ch}"

definition senders_distinct :: "('k \<Rightarrow> ('t, 'c) mempool_txn option) \<Rightarrow> bool" where
  "senders_distinct ts \<longleftrightarrow> (\<forall>k t k' t' ch. ts k = Some t \<longrightarrow> ts k' = Some t' \<longrightarrow>
     mt_sender t = Some ch \<longrightarrow> mt_sender t' = Some ch \<longrightarrow> k = k')"

definition chan_ok ::
    "('k \<Rightarrow> ('t, 'c) mempool_txn option) \<Rightarrow> nat list \<Rightarrow> (nat \<times> 'r) list \<Rightarrow> bool" where
  "chan_ok ts regs sent \<longleftrightarrow>
     distinct (map fst sent) \<and> set regs = fst ` set sent \<union> waiting ts \<and>
     fst ` set sent \<inter> waiting ts = {} \<and> senders_distinct ts"

lemma sender_results_Cons:
  "sender_results ts ((k, r) # krs) =
     (case Option.bind (map_of ts k) mt_sender of None \<Rightarrow> [] | Some ch \<Rightarrow> [(ch, r)]) @ sender_results ts krs"
  by (simp add: sender_results_def split: option.splits bind_splits)

lemma set_sender_results:
  "fst ` set (sender_results ts krs) = {ch. \<exists>k \<in> fst ` set krs. Option.bind (map_of ts k) mt_sender = Some ch}"
proof (induction krs)
  case Nil
  then show ?case by (simp add: sender_results_def)
next
  case (Cons kr krs)
  then show ?case
    by (cases kr) (auto simp: sender_results_Cons split: option.splits)
qed

lemma waiting_bind: "waiting ts = {ch. \<exists>k. Option.bind (ts k) mt_sender = Some ch}"
  by (auto simp: waiting_def bind_eq_Some_conv)

lemma senders_distinct_bind:
  "senders_distinct ts \<longleftrightarrow> (\<forall>k k' ch. Option.bind (ts k) mt_sender = Some ch \<longrightarrow>
     Option.bind (ts k') mt_sender = Some ch \<longrightarrow> k = k')"
  by (auto simp: senders_distinct_def bind_eq_Some_conv)

lemma distinct_sender_results:
  "distinct (map fst krs) \<Longrightarrow> senders_distinct (map_of ts) \<Longrightarrow>
     distinct (map fst (sender_results ts krs))"
proof (induction krs)
  case (Cons kr krs)
  obtain k r where kr: "kr = (k, r)" by fastforce
  have "ch \<notin> fst ` set (sender_results ts krs)" if "Option.bind (map_of ts k) mt_sender = Some ch" for ch
    using Cons.prems that unfolding set_sender_results senders_distinct_bind kr by auto
  then show ?case using Cons by (auto simp: kr sender_results_Cons split: option.splits)
qed (simp add: sender_results_def)

lemma waiting_upd:
  "ts k = None \<Longrightarrow> waiting (ts(k \<mapsto> t)) = waiting ts \<union> set_option (mt_sender t)"
  by (auto simp: waiting_bind split: if_splits) (metis bind.bind_lunit option.distinct(1) Option.bind.simps(1))

lemma chan_ok_add:
  assumes "ts k = None" and "chan_ok ts regs sent" and "set_option (mt_sender t) \<inter> set regs = {}"
  shows "chan_ok (ts(k \<mapsto> t)) (regs @ (case mt_sender t of None \<Rightarrow> [] | Some ch \<Rightarrow> [ch])) sent"
proof -
  have "senders_distinct (ts(k \<mapsto> t))"
    using assms unfolding chan_ok_def senders_distinct_bind waiting_bind
    by (cases "mt_sender t") auto
  then show ?thesis
    using assms by (cases "mt_sender t") (auto simp: chan_ok_def waiting_upd)
qed

lemma chan_ok_commit:
  assumes "chan_ok (map_of ts) regs sent" and "distinct (map fst krs)"
  shows "chan_ok (map_of ts |` (- fst ` set krs)) regs (sent @ sender_results ts krs)"
proof -
  let ?K = "fst ` set krs" and ?out = "sender_results ts krs"
  have sd: "senders_distinct (map_of ts)" using assms(1) by (simp add: chan_ok_def)
  have b: "Option.bind ((map_of ts |` (- ?K)) k) mt_sender = Some ch \<longleftrightarrow>
      k \<notin> ?K \<and> Option.bind (map_of ts k) mt_sender = Some ch" for k ch
    by (simp add: restrict_map_def)
  have "waiting (map_of ts) = waiting (map_of ts |` (- ?K)) \<union> fst ` set ?out"
    unfolding waiting_bind set_sender_results b by blast
  moreover have "waiting (map_of ts |` (- ?K)) \<inter> fst ` set ?out = {}"
    using sd unfolding waiting_bind set_sender_results b senders_distinct_bind by blast
  moreover have "senders_distinct (map_of ts |` (- ?K))"
    using sd unfolding senders_distinct_bind b by blast
  ultimately show ?thesis
    using assms(1) distinct_sender_results [OF assms(2) sd] unfolding chan_ok_def by auto
qed

lemma chan_ok_commit_loop:
  "chan_ok (map_of (mp_txns s)) regs sent \<Longrightarrow>
     chan_ok (map_of (mp_txns (fst (commit_loop l s krs)))) regs (sent @ snd (commit_loop l s krs))"
proof (induction l s krs arbitrary: sent rule: commit_loop.induct)
  case (2 lease s key result rest)
  obtain s1 out1 where c: "commit_key lease s key result = (s1, out1)" by fastforce
  have "map_of (mp_txns s1) = map_of (mp_txns s) |` (- fst ` set [(key, result)])"
    using c by (auto simp: commit_key_def delete_conv' restrict_map_def fun_eq_iff)
  moreover have "out1 = sender_results (mp_txns s) [(key, result)]"
    using c by (auto simp: commit_key_def sender_results_def split: option.splits)
  ultimately have "chan_ok (map_of (mp_txns s1)) regs (sent @ out1)"
    using chan_ok_commit [OF "2.prems", of "[(key, result)]"] by simp
  from "2.IH" [OF c [symmetric] this] show ?case using c by (auto split: prod.splits)
qed simp

lemma mp_run_channels: "mp_run s regs sent \<Longrightarrow> chan_ok (map_of (mp_txns s)) regs sent"
proof (induction rule: mp_run.induct)
  case run_default
  then show ?case by (simp add: mp_default_def chan_ok_def waiting_def senders_distinct_def)
next
  case (run_add s regs sent k t cs s')
  then show ?case
    using chan_ok_add [OF _ run_add.IH, of k "\<lparr>mt_txn = t, mt_sender = None, mt_changes = cs\<rparr>"]
    by (auto simp: mp_add_def update_conv' fun_upd_def split: option.splits if_splits)
next
  case (run_add_with_listener s regs sent ch k t cs s')
  then show ?case
    using chan_ok_add [OF _ run_add_with_listener.IH, of k "\<lparr>mt_txn = t, mt_sender = Some ch, mt_changes = cs\<rparr>"]
    by (auto simp: mp_add_def update_conv' fun_upd_def split: option.splits if_splits)
next
  case (run_lease_batch s regs sent l n s' batch)
  then have "mp_txns s' = mp_txns s" by (auto simp: lease_batch_def bind_o_Ok_iff)
  then show ?case using run_lease_batch.IH by simp
next
  case (run_commit s regs sent l krs s' out)
  then have "mp_txns s' = mp_txns (fst (commit_loop l s krs))" "out = snd (commit_loop l s krs)"
    by (auto simp: mp_commit_def mp_free_def split: prod.splits)
  then show ?case using chan_ok_commit_loop [OF run_commit.IH] by simp
qed (simp_all add: lease_txns_fields(1))

section \<open>Properties\<close>

text \<open>
  Leasing a batch from a reachable mempool never panics: it takes the oldest keys of the
  pool in order, at most \<open>max_count\<close> of them (one when \<open>max_count\<close> is 0), each with its
  transaction, skips none for a conflict, and moves exactly these keys from the pool to the lease.
\<close>

lemma mempool_lease_batch_fifo:
  assumes "mp_reachable s sent"
  shows "\<exists>s' batch. lease_batch s l max_count = Ok (s', batch) \<and>
     map fst batch = take (max 1 max_count) (mp_pool s) \<and>
     (\<forall>k t. (k, t) \<in> set batch \<longrightarrow> (\<exists>m. map_of (mp_txns s) k = Some m \<and> mt_txn m = t)) \<and>
     mp_pool s' = drop (max 1 max_count) (mp_pool s) \<and>
     set (leased_of s' l) = set (leased_of s l) \<union> set (map fst batch) \<and> mp_txns s' = mp_txns s"
proof -
  have inv: "mp_inv s" by (rule mp_reachable_inv [OF assms])
  let ?n = "max 1 max_count" and ?f = "\<lambda>k. (k, mt_txn (the (map_of (mp_txns s) k)))"
  let ?s = "s\<lparr>mp_pool := drop ?n (mp_pool s), mp_leased := fold (lease_insert l) (take ?n (mp_pool s)) (mp_leased s)\<rparr>"
  have "\<exists>m. map_of (mp_txns s) k = Some m \<and> mt_txn m = t"
    if "(k, t) \<in> set (map ?f (take ?n (mp_pool s)))" for k t
    using that mp_inv_pool [OF inv] in_set_takeD [of k ?n "mp_pool s"] by auto
  moreover have "set (leased_of ?s l) = set (take ?n (mp_pool s)) \<union> set (leased_of s l)"
    using leased_of_fold_insert [where s = "s\<lparr>mp_pool := drop ?n (mp_pool s)\<rparr>" and ls = "mp_leased s"]
    by (simp add: leased_of_def)
  ultimately show ?thesis
    using lease_batch_spec [OF inv, of l max_count] by (auto simp: comp_def image_image)
qed

text \<open>
  Committing a lease removes exactly the committed transactions and puts the keys of the
  lease that were not committed back at the front of the pool; the lease is gone, the other
  leases are unchanged and the invariant holds.
\<close>

lemma mempool_commit_returns_rest:
  assumes "mp_inv s" and "distinct (map fst krs)"
    and "\<forall>l' k. l' \<noteq> l \<longrightarrow> k \<in> set (leased_of s l') \<longrightarrow> k \<notin> fst ` set krs"
    and "mp_commit s l krs = (s', out)"
  shows "mp_inv s' \<and> map_of (mp_txns s') = map_of (mp_txns s) |` (- fst ` set krs) \<and>
     mp_pool s' = rev (filter (\<lambda>k. k \<notin> fst ` set krs) (leased_of s l)) @
       filter (\<lambda>k. k \<notin> fst ` set krs) (mp_pool s) \<and>
     leased_of s' = (leased_of s)(l := [])"
  using mp_commit_spec(1-4) [OF assms(1,2) _ assms(4)] assms(3) by blast

text \<open>
  C32. Whatever operations run, in any order and with any keys (also keys that are not in the mempool,
  or twice in a commit), every caller that waits for its transaction gets at most one result:
  the channels on which results were sent are distinct, and the registered channels are exactly
  those served and those still waiting with a pending transaction.
\<close>

theorem mempool_results_once:
  assumes "mp_run s regs sent"
  shows "distinct (map fst sent) \<and>
     set regs = fst ` set sent \<union> {ch. \<exists>k t. map_of (mp_txns s) k = Some t \<and> mt_sender t = Some ch} \<and>
     fst ` set sent \<inter> {ch. \<exists>k t. map_of (mp_txns s) k = Some t \<and> mt_sender t = Some ch} = {}"
  using mp_run_channels [OF assms] unfolding chan_ok_def waiting_def by blast

text \<open>
  A caller waits on channel 7 for the transaction 1; a block leases 1 and the unknown key 9 and
  commits 1, named twice; another caller waits on channel 8 for the transaction 2.
\<close>

definition demo_mempool :: "(nat, string, nat, nat) mempool" where
  "demo_mempool = \<lparr>mp_txns = [(2, \<lparr>mt_txn = ''b'', mt_sender = Some 8, mt_changes = [12]\<rparr>)],
     mp_pool = [9, 2], mp_leased = []\<rparr>"

lemma demo_mempool_run: "mp_run demo_mempool [7, 8] [(7, True)]"
proof -
  let ?s1 = "mp_default\<lparr>mp_txns := [(1, \<lparr>mt_txn = ''a'', mt_sender = Some 7, mt_changes = [10, 11]\<rparr>)],
      mp_pool := [1]\<rparr> :: (nat, string, nat, nat) mempool"
  have "mp_run ?s1 ([] @ [7]) ([] :: (nat \<times> bool) list)"
    by (rule run_add_with_listener [OF run_default, where k = 1 and t = "''a''" and cs = "[10, 11]"])
       (simp_all add: mp_add_def mp_default_def)
  from run_lease_txns [OF this, of 5 "[1, 9]"]
  have "mp_run (mp_default\<lparr>mp_pool := [9]\<rparr> :: (nat, string, nat, nat) mempool) ([] @ [7]) ([] @ [(7, True)])"
    by (rule run_commit [where l = 5 and krs = "[(1, True), (1, False)]"])
       (simp add: lease_txns_def lease_insert_def set_insert_def mp_default_def mp_commit_def commit_key_def mp_free_def)
  then have "mp_run demo_mempool (([] @ [7]) @ [8]) ([] @ [(7, True)])"
    by (rule run_add_with_listener [where k = 2 and t = "''b''" and cs = "[12]"])
       (simp_all add: mp_add_def mp_default_def demo_mempool_def)
  then show ?thesis by simp
qed

theorem mempool_results_once_witness:
  "distinct (map fst [(7, True)]) \<and>
   {7, 8} = {7} \<union> {ch. \<exists>k t. map_of (mp_txns demo_mempool) k = Some t \<and> mt_sender t = Some ch} \<and>
   7 \<notin> {ch. \<exists>k t. map_of (mp_txns demo_mempool) k = Some t \<and> mt_sender t = Some ch}"
  using mempool_results_once [OF demo_mempool_run] by simp

text \<open>
  A key without a transaction that a received block leased reaches the pool when another
  block of the same height commits, and the next \<open>lease_batch\<close> panics on it.
\<close>

lemma mempool_unknown_lease_panics:
  fixes s :: "('k, 't, 'l, 'c) mempool"
  assumes "mp_inv s" and "map_of (mp_txns s) k = None"
  shows "lease_batch (fst (mp_commit (lease_txns s l [k]) l ([] :: ('k \<times> 'r) list))) l' n = Panic"
proof -
  let ?s = "lease_txns s l [k]"
  have "k \<notin> set (leased_of s l)" using assms unfolding mp_inv_def by blast
  then have "leased_of ?s l = leased_of s l @ [k]"
    by (simp add: leased_of_lease_txns set_insert_def)
  then have "mp_pool (fst (mp_commit ?s l ([] :: ('k \<times> 'r) list))) = k # rev (leased_of s l) @ mp_pool ?s"
    "mp_txns (fst (mp_commit ?s l ([] :: ('k \<times> 'r) list))) = mp_txns s"
    by (simp_all add: mp_commit_def mp_free_def fold_Cons_rev leased_of_def [symmetric] lease_txns_fields(1))
  then show ?thesis using assms(2) by (simp add: lease_batch_def)
qed

end
