(* ===== verification/Utxo.thy ===== *)
theory Utxo
  imports Merkle_Hash
begin

text \<open>
  Notes and UTXO transactions (\<open>zk-primitives/src/note.rs\<close>, \<open>input_note.rs\<close>, \<open>utxo.rs\<close>,
  \<open>util.rs\<close>): commitments, the public inputs of a transaction and the messages that carry a mint
  or a burn. \<open>P\<close> is the Poseidon hash over field elements. Element arithmetic panics on overflow.
\<close>

section \<open>Notes\<close>

datatype utxo_error = NoError

type_synonym 'a checked = "('a, utxo_error) outcome"

definition el_add :: "element \<Rightarrow> element \<Rightarrow> element checked" where
  "el_add a b = (if unat a + unat b < 2 ^ 256 then Ok (a + b) else Panic)"

definition el_sub :: "element \<Rightarrow> element \<Rightarrow> element checked" where
  "el_sub a b = (if b \<le> a then Ok (a - b) else Panic)"

record Note =
  n_kind :: element
  n_contract :: element
  n_address :: element
  n_psi :: element
  n_value :: element

record InputNote =
  in_note :: Note
  in_secret_key :: element

text \<open>
  The kind of a bridged token: a format tag, the chain and the 20 bytes of the token contract, big
  endian, with two bytes of padding. \<open>Sha\<close> is SHA3-256.
\<close>

definition u64_be_bytes :: "u64 \<Rightarrow> u8 list" where
  "u64_be_bytes w = map (\<lambda>i. ucast (drop_bit (8 * i) w)) (rev [0..<8])"

definition generate_note_kind_bridge_evm :: "u64 \<Rightarrow> u8 list \<Rightarrow> element" where
  "generate_note_kind_bridge_evm chain address =
     from_be_bytes ([0, 2] @ u64_be_bytes chain @ address @ [0, 0])"

definition bridged_polygon_usdc_note_kind :: element where
  "bridged_polygon_usdc_note_kind = generate_note_kind_bridge_evm 137
     [0x3c, 0x49, 0x9c, 0x54, 0x2c, 0xef, 0x5e, 0x38, 0x11, 0xe1,
      0x19, 0x2c, 0xe7, 0x0d, 0x8c, 0xc0, 0x3d, 0x5c, 0x33, 0x59]"

definition get_address_for_private_key :: "(base list \<Rightarrow> base) \<Rightarrow> element \<Rightarrow> element" where
  "get_address_for_private_key P private_key = hash_merge P [private_key, ZERO]"

definition hash_private_key_for_psi :: "(u8 list \<Rightarrow> u8 list) \<Rightarrow> element \<Rightarrow> element" where
  "hash_private_key_for_psi Sha private_key = from_be_bytes (Sha (to_be_bytes private_key))"

definition note_new_with_psi :: "element \<Rightarrow> element \<Rightarrow> element \<Rightarrow> Note" where
  "note_new_with_psi address v psi = \<lparr>n_kind = el_new 2, n_contract = bridged_polygon_usdc_note_kind,
     n_address = address, n_psi = psi, n_value = v\<rparr>"

definition note_new_from_ephemeral_private_key ::
    "(base list \<Rightarrow> base) \<Rightarrow> (u8 list \<Rightarrow> u8 list) \<Rightarrow> element \<Rightarrow> element \<Rightarrow> Note" where
  "note_new_from_ephemeral_private_key P Sha private_key v =
     (let address = get_address_for_private_key P private_key;
          psi = hash_private_key_for_psi Sha private_key
      in \<lparr>n_kind = el_new 2, n_contract = bridged_polygon_usdc_note_kind, n_address = address,
          n_psi = psi, n_value = v\<rparr>)"

definition padding_note :: Note where
  "padding_note = \<lparr>n_kind = el_new 2, n_contract = ZERO, n_address = ZERO, n_psi = ZERO, n_value = ZERO\<rparr>"

definition is_padding_note :: "Note \<Rightarrow> bool" where
  "is_padding_note n \<longleftrightarrow> n_contract n = ZERO \<and> n_value n = ZERO"

definition commitment :: "(base list \<Rightarrow> base) \<Rightarrow> Note \<Rightarrow> element" where
  "commitment P n =
     (if n_value n = ZERO then ZERO
      else hash_merge P [n_kind n, n_contract n, n_value n, n_address n, n_psi n, ZERO, ZERO])"

definition padding_input_note :: InputNote where
  "padding_input_note = \<lparr>in_note = padding_note, in_secret_key = ZERO\<rparr>"

definition new_from_ephemeral_private_key ::
    "(base list \<Rightarrow> base) \<Rightarrow> (u8 list \<Rightarrow> u8 list) \<Rightarrow> element \<Rightarrow> element \<Rightarrow> InputNote" where
  "new_from_ephemeral_private_key P Sha private_key v =
     \<lparr>in_note = note_new_from_ephemeral_private_key P Sha private_key v, in_secret_key = private_key\<rparr>"

section \<open>Transactions\<close>

datatype utxo_kind = Null | Send | Mint | Burn | NoSub

fun kind_to_u8 :: "utxo_kind \<Rightarrow> u8" where
  "kind_to_u8 Send = 1"
| "kind_to_u8 Mint = 2"
| "kind_to_u8 Burn = 3"
| "kind_to_u8 NoSub = 4"
| "kind_to_u8 Null = 0"

definition kind_from_u8 :: "u8 \<Rightarrow> utxo_kind" where
  "kind_from_u8 v = (if v = 1 then Send else if v = 2 then Mint else if v = 3 then Burn
     else if v = 4 then NoSub else Null)"

definition kind_to_element :: "utxo_kind \<Rightarrow> element" where
  "kind_to_element k = ucast (kind_to_u8 k)"

record utxo =
  u_kind :: utxo_kind
  u_input_notes :: "InputNote \<times> InputNote"
  u_output_notes :: "Note \<times> Note"
  u_burn_address :: "element option"

record public_input =
  input_commitments :: "element \<times> element"
  output_commitments :: "element \<times> element"
  messages :: "element \<times> element \<times> element \<times> element \<times> element"

record utxo_proof =
  up_proof :: "u8 list"
  up_public_inputs :: public_input

definition new_send :: "InputNote \<times> InputNote \<Rightarrow> Note \<times> Note \<Rightarrow> utxo" where
  "new_send ins outs = \<lparr>u_kind = Send, u_input_notes = ins, u_output_notes = outs, u_burn_address = None\<rparr>"

definition new_burn :: "InputNote \<times> InputNote \<Rightarrow> element \<Rightarrow> utxo" where
  "new_burn ins evm_address = \<lparr>u_kind = Burn, u_input_notes = ins,
     u_output_notes = (padding_note, padding_note), u_burn_address = Some evm_address\<rparr>"

definition new_burn_no_sub :: "InputNote \<times> InputNote \<Rightarrow> element \<Rightarrow> utxo" where
  "new_burn_no_sub ins evm_address = \<lparr>u_kind = NoSub, u_input_notes = ins,
     u_output_notes = (padding_note, padding_note), u_burn_address = Some evm_address\<rparr>"

definition new_mint :: "Note \<times> Note \<Rightarrow> utxo" where
  "new_mint outs = \<lparr>u_kind = Mint, u_input_notes = (padding_input_note, padding_input_note),
     u_output_notes = outs, u_burn_address = None\<rparr>"

definition new_padding :: utxo where
  "new_padding = \<lparr>u_kind = Null, u_input_notes = (padding_input_note, padding_input_note),
     u_output_notes = (padding_note, padding_note), u_burn_address = None\<rparr>"

definition mint_hash :: "(base list \<Rightarrow> base) \<Rightarrow> utxo \<Rightarrow> element" where
  "mint_hash P u = hash_merge P [n_psi (fst (u_output_notes u)), n_psi (snd (u_output_notes u))]"

definition burn_hash :: "(base list \<Rightarrow> base) \<Rightarrow> utxo \<Rightarrow> element" where
  "burn_hash P u = commitment P (in_note (fst (u_input_notes u)))"

definition input_value :: "utxo \<Rightarrow> element checked" where
  "input_value u = el_add (n_value (in_note (fst (u_input_notes u)))) (n_value (in_note (snd (u_input_notes u))))"

definition output_value :: "utxo \<Rightarrow> element checked" where
  "output_value u = el_add (n_value (fst (u_output_notes u))) (n_value (snd (u_output_notes u)))"

definition leaf_elements :: "(base list \<Rightarrow> base) \<Rightarrow> utxo \<Rightarrow> element \<times> element \<times> element \<times> element" where
  "leaf_elements P u =
     (commitment P (in_note (fst (u_input_notes u))), commitment P (in_note (snd (u_input_notes u))),
      commitment P (fst (u_output_notes u)), commitment P (snd (u_output_notes u)))"

definition burn_messages ::
    "(base list \<Rightarrow> base) \<Rightarrow> element \<Rightarrow> utxo \<Rightarrow> (element \<times> element \<times> element \<times> element \<times> element) checked" where
  "burn_messages P k u =
     bind_o (input_value u) (\<lambda>i.
     bind_o (output_value u) (\<lambda>ou.
     bind_o (el_sub i ou) (\<lambda>v.
     case u_burn_address u of
       Some a \<Rightarrow> Ok (k, n_contract (in_note (fst (u_input_notes u))), v, burn_hash P u, a)
     | None \<Rightarrow> Panic)))"

definition utxo_messages ::
    "(base list \<Rightarrow> base) \<Rightarrow> utxo \<Rightarrow> (element \<times> element \<times> element \<times> element \<times> element) checked" where
  "utxo_messages P u =
     (case u_kind u of
        Send \<Rightarrow> Ok (el_new 1, ZERO, ZERO, ZERO, ZERO)
      | Mint \<Rightarrow>
          bind_o (output_value u) (\<lambda>ou.
          bind_o (input_value u) (\<lambda>i.
          bind_o (el_sub ou i) (\<lambda>v.
          Ok (el_new 2, n_contract (fst (u_output_notes u)), v, mint_hash P u, ZERO))))
      | Burn \<Rightarrow> burn_messages P (el_new 3) u
      | NoSub \<Rightarrow> burn_messages P (el_new 4) u
      | Null \<Rightarrow> Ok (ZERO, ZERO, ZERO, ZERO, ZERO))"

definition public_inputs :: "(base list \<Rightarrow> base) \<Rightarrow> utxo \<Rightarrow> public_input checked" where
  "public_inputs P u =
     bind_o (utxo_messages P u) (\<lambda>m. Ok \<lparr>
       input_commitments = (commitment P (in_note (fst (u_input_notes u))),
                            commitment P (in_note (snd (u_input_notes u)))),
       output_commitments = (commitment P (fst (u_output_notes u)), commitment P (snd (u_output_notes u))),
       messages = m\<rparr>)"

section \<open>Public inputs\<close>

definition pi_fields :: "public_input \<Rightarrow> element list" where
  "pi_fields p = (case (input_commitments p, output_commitments p, messages p) of
     ((i0, i1), (o0, o1), (m0, m1, m2, m3, m4)) \<Rightarrow> [i0, i1, o0, o1, m0, m1, m2, m3, m4])"

definition pi_to_bytes :: "public_input \<Rightarrow> u8 list" where
  "pi_to_bytes p = concat (map to_be_bytes (pi_fields p))"

definition commitments :: "public_input \<Rightarrow> element list" where
  "commitments p = [fst (input_commitments p), snd (input_commitments p),
     fst (output_commitments p), snd (output_commitments p)]"

definition commit_hash :: "(base list \<Rightarrow> base) \<Rightarrow> public_input \<Rightarrow> element" where
  "commit_hash P p = hash_merge P (commitments p)"

definition pi_hash :: "(base list \<Rightarrow> base) \<Rightarrow> public_input \<Rightarrow> element" where
  "pi_hash P p = hash_merge P (pi_fields p)"

definition pi_kind :: "public_input \<Rightarrow> utxo_kind" where
  "pi_kind p = kind_from_u8 (to_be_bytes (fst (messages p)) ! 31)"

record burn_msgs =
  bm_utxo_kind :: element
  bm_note_kind :: element
  bm_value :: element
  bm_burn_hash :: element
  bm_burn_address :: element

record mint_msgs =
  mm_note_kind :: element
  mm_value :: element
  mm_mint_hash :: element

datatype kind_msgs = NoMessages | BurnMessages burn_msgs | MintMessages mint_msgs

definition kind_messages :: "public_input \<Rightarrow> kind_msgs" where
  "kind_messages p =
     (case messages p of (m0, m1, m2, m3, m4) \<Rightarrow>
        (case pi_kind p of
           Null \<Rightarrow> NoMessages
         | Send \<Rightarrow> NoMessages
         | Mint \<Rightarrow> MintMessages \<lparr>mm_note_kind = m1, mm_value = m2, mm_mint_hash = m3\<rparr>
         | _ \<Rightarrow> BurnMessages \<lparr>bm_utxo_kind = m0, bm_note_kind = m1, bm_value = m2, bm_burn_hash = m3,
                             bm_burn_address = m4\<rparr>))"

definition mint_burn_hash :: "public_input \<Rightarrow> element option" where
  "mint_burn_hash p = (case kind_messages p of
     MintMessages m \<Rightarrow> Some (mm_mint_hash m) | BurnMessages b \<Rightarrow> Some (bm_burn_hash b) | NoMessages \<Rightarrow> None)"

definition proof_hash :: "(base list \<Rightarrow> base) \<Rightarrow> utxo_proof \<Rightarrow> element" where
  "proof_hash P t = pi_hash P (up_public_inputs t)"

definition bytes_to_elements :: "u8 list \<Rightarrow> element list checked" where
  "bytes_to_elements bs =
     (if length bs mod 32 = 0 then Ok (map from_be_bytes (chunks 32 bs)) else Panic)"

section \<open>Merkle paths\<close>

text \<open>\<open>zk-primitives/src/merkle_path.rs\<close>: a path for a tree of depth \<open>d\<close> holds \<open>d - 1\<close> siblings.\<close>

definition merkle_path_default :: "nat \<Rightarrow> element list" where
  "merkle_path_default d = map (\<lambda>_. ZERO) [1..<d]"

definition merkle_path_new :: "nat \<Rightarrow> element list \<Rightarrow> element list checked" where
  "merkle_path_new d siblings = (if d - 1 = length siblings then Ok siblings else Panic)"

definition compute_before_root :: "(element \<Rightarrow> element \<Rightarrow> element) \<Rightarrow> element list \<Rightarrow> element \<Rightarrow> element" where
  "compute_before_root H siblings h = compute_merkle_root H h h siblings"

definition compute_after_root :: "(element \<Rightarrow> element \<Rightarrow> element) \<Rightarrow> element list \<Rightarrow> element \<Rightarrow> element" where
  "compute_after_root H siblings h = compute_null_root H h siblings"

definition apply_leaf :: "(element \<Rightarrow> element \<Rightarrow> element) \<Rightarrow> element list \<Rightarrow> element \<Rightarrow> element list" where
  "apply_leaf H siblings leaf = compute_merkle_path_for_leaf H leaf siblings"

section \<open>Aggregates\<close>

text \<open>\<open>zk-primitives/src/agg_utxo.rs\<close>: three proofs with the paths of the leaves they touch.\<close>

record proof_bundle =
  b_utxo_proof :: utxo_proof
  b_input_merkle_paths :: "element list \<times> element list"
  b_output_merkle_paths :: "element list \<times> element list"

record agg_utxo =
  ag_proofs :: "proof_bundle \<times> proof_bundle \<times> proof_bundle"
  ag_old_root :: element
  ag_new_root :: element

definition bundle_new ::
    "utxo_proof \<Rightarrow> element list \<times> element list \<times> element list \<times> element list \<Rightarrow> proof_bundle" where
  "bundle_new t ps = (case ps of (p0, p1, p2, p3) \<Rightarrow>
     \<lparr>b_utxo_proof = t, b_input_merkle_paths = (p0, p1), b_output_merkle_paths = (p2, p3)\<rparr>)"

definition agg_proofs :: "agg_utxo \<Rightarrow> utxo_proof list" where
  "agg_proofs a = (case ag_proofs a of (p0, p1, p2) \<Rightarrow> [b_utxo_proof p0, b_utxo_proof p1, b_utxo_proof p2])"

definition agg_commit_hash :: "(base list \<Rightarrow> base) \<Rightarrow> agg_utxo \<Rightarrow> element" where
  "agg_commit_hash P a = hash_merge P (map (\<lambda>t. commit_hash P (up_public_inputs t)) (agg_proofs a))"

definition proof_messages :: "utxo_proof \<Rightarrow> element list" where
  "proof_messages t =
     (case messages (up_public_inputs t) of (m0, m1, m2, m3, m4) \<Rightarrow>
        (case pi_kind (up_public_inputs t) of
           Null \<Rightarrow> [] | Send \<Rightarrow> []
         | Mint \<Rightarrow> [m0, m1, m2, m3]
         | _ \<Rightarrow> [m0, m1, m2, m3, m4]))"

text \<open>The two nested loops of \<open>messages\<close>: a write past the fifteenth slot panics.\<close>

definition write_message :: "element list \<times> nat \<Rightarrow> element \<Rightarrow> (element list \<times> nat) checked" where
  "write_message s m = (case s of (ms, index) \<Rightarrow>
     if index < length ms then Ok (ms[index := m], index + 1) else Panic)"

definition agg_messages :: "agg_utxo \<Rightarrow> element list checked" where
  "agg_messages a =
     bind_o (fold_o (\<lambda>s t. fold_o write_message s (proof_messages t)) (replicate 15 ZERO, 0) (agg_proofs a))
       (\<lambda>s. Ok (fst s))"

section \<open>Lemmas\<close>

lemma el_add_Ok_iff:
  "el_add a b = Ok c \<longleftrightarrow> unat a + unat b < 2 ^ 256 \<and> unat c = unat a + unat b"
proof -
  have "unat (a + b) = unat a + unat b" if "unat a + unat b < 2 ^ 256"
    using that by (simp add: unat_word_ariths)
  then show ?thesis
    by (auto simp: el_add_def) (metis unsigned_word_eqI)
qed

lemma el_sub_Ok_iff: "el_sub a b = Ok c \<longleftrightarrow> unat a = unat c + unat b"
proof
  assume "el_sub a b = Ok c"
  then show "unat a = unat c + unat b"
    by (auto simp: el_sub_def unat_sub word_le_nat_alt split: if_splits)
next
  assume a: "unat a = unat c + unat b"
  then have "b \<le> a" and "unat (a - b) = unat c"
    by (simp_all add: word_le_nat_alt unat_sub)
  then show "el_sub a b = Ok c"
    by (simp add: el_sub_def) (metis unsigned_word_eqI)
qed

lemma el_no_Err [simp]: "el_add a b \<noteq> Err e" "el_sub a b \<noteq> Err e"
  by (simp_all add: el_add_def el_sub_def)

lemma last_be_byte: "to_be_bytes e ! 31 = ucast e"
  by (simp add: to_be_bytes_def to_le_bytes_def rev_nth)

lemma kind_from_to_u8 [simp]: "kind_from_u8 (kind_to_u8 k) = k"
  by (cases k) (simp_all add: kind_from_u8_def)

lemma pi_kind_of_element:
  "fst (messages p) = kind_to_element k \<Longrightarrow> pi_kind p = k"
  by (cases k) (simp_all add: pi_kind_def last_be_byte kind_to_element_def kind_from_u8_def)

lemma utxo_messages_kind:
  "utxo_messages P u = Ok m \<Longrightarrow> fst m = kind_to_element (u_kind u)"
  by (auto simp: utxo_messages_def burn_messages_def bind_o_Ok_iff kind_to_element_def el_new_def
           split: utxo_kind.splits option.splits)

lemma public_inputs_kind: "public_inputs P u = Ok p \<Longrightarrow> pi_kind p = u_kind u"
  by (rule pi_kind_of_element) (auto simp: public_inputs_def bind_o_Ok_iff dest: utxo_messages_kind)

lemma chunks_concat:
  assumes "\<And>x. x \<in> set xs \<Longrightarrow> length x = n" and "0 < n"
  shows "chunks n (concat xs) = xs"
  using assms(1)
proof (induction xs)
  case (Cons x xs)
  then have n: "length x = n" by simp
  with assms(2) obtain y ys where x: "x = y # ys" by (cases x) auto
  with n have n': "n = Suc (length ys)" by simp
  then have "take n (y # ys @ concat xs) = y # ys" "drop n (y # ys @ concat xs) = concat xs"
    by simp_all
  with Cons assms(2) x show ?case by simp
qed simp

lemma bytes_to_elements_concat: "bytes_to_elements (concat (map to_be_bytes es)) = Ok es"
proof -
  have "length (concat (map to_be_bytes es)) = 32 * length es"
    by (induction es) simp_all
  then show ?thesis
    using chunks_concat [of "map to_be_bytes es" 32]
    by (fastforce simp: bytes_to_elements_def comp_def)
qed

lemma write_messages:
  "index + length ms \<le> length out \<Longrightarrow>
   fold_o write_message (out, index) ms = Ok (take index out @ ms @ drop (index + length ms) out, index + length ms)"
proof (induction ms arbitrary: out index)
  case (Cons m ms)
  then have "fold_o write_message (out[index := m], index + 1) ms =
      Ok (take (index + 1) (out[index := m]) @ ms @ drop (index + 1 + length ms) (out[index := m]),
          index + 1 + length ms)"
    by simp
  moreover have "write_message (out, index) m = Ok (out[index := m], index + 1)"
    using Cons.prems by (simp add: write_message_def)
  ultimately show ?case
    using Cons.prems by (simp add: take_Suc_conv_app_nth)
qed simp

lemma write_proofs:
  "index + length (concat (map proof_messages ts)) \<le> length out \<Longrightarrow>
   fold_o (\<lambda>s t. fold_o write_message s (proof_messages t)) (out, index) ts =
     Ok (take index out @ concat (map proof_messages ts) @ drop (index + length (concat (map proof_messages ts))) out,
         index + length (concat (map proof_messages ts)))"
proof (induction ts arbitrary: out index)
  case (Cons t ts)
  then show ?case by (simp add: write_messages ac_simps)
qed simp

lemma length_proof_messages: "length (proof_messages t) \<le> 5"
  by (simp add: proof_messages_def split: prod.splits utxo_kind.splits)

lemma merkle_path_default_ok: "merkle_path_new d (merkle_path_default d) = Ok (merkle_path_default d)"
  by (simp add: merkle_path_new_def merkle_path_default_def)

text \<open>
  \<open>apply_leaf\<close> stores the hashes along the path of the leaf, leaf and root included: one entry more
  than a path of the same depth may have, so the constructor refuses what \<open>apply_leaf\<close> builds.
\<close>

lemma apply_leaf_size:
  "length siblings \<le> 256 \<Longrightarrow> merkle_path_new (length siblings + 1) (apply_leaf H siblings leaf) = Panic"
  by (simp add: merkle_path_new_def apply_leaf_def compute_merkle_path_for_leaf_def
        merkle_path_loop_spec least_significant_bits_def)

section \<open>Properties\<close>

definition input_total :: "utxo \<Rightarrow> nat" where
  "input_total u = unat (n_value (in_note (fst (u_input_notes u)))) + unat (n_value (in_note (snd (u_input_notes u))))"

definition output_total :: "utxo \<Rightarrow> nat" where
  "output_total u = unat (n_value (fst (u_output_notes u))) + unat (n_value (snd (u_output_notes u)))"

lemma input_value_Ok_iff: "input_value u = Ok v \<longleftrightarrow> input_total u < 2 ^ 256 \<and> unat v = input_total u"
  by (simp add: input_value_def input_total_def el_add_Ok_iff)

lemma output_value_Ok_iff: "output_value u = Ok v \<longleftrightarrow> output_total u < 2 ^ 256 \<and> unat v = output_total u"
  by (simp add: output_value_def output_total_def el_add_Ok_iff)

lemma element_of_nat: "n < 2 ^ 256 \<Longrightarrow> \<exists>v :: element. unat v = n"
  by (rule exI [of _ "of_nat n"]) (simp add: unat_of_nat)

lemma checked_difference:
  assumes "\<And>v. a = Ok v \<longleftrightarrow> m < 2 ^ 256 \<and> unat v = m" and "\<And>v. b = Ok v \<longleftrightarrow> n < 2 ^ 256 \<and> unat v = n"
  shows "(\<exists>x. a = Ok x \<and> (\<exists>y. b = Ok y \<and> (\<exists>z. el_sub x y = Ok z))) \<longleftrightarrow> m < 2 ^ 256 \<and> n \<le> m"
proof
  assume "m < 2 ^ 256 \<and> n \<le> m"
  moreover from this obtain x y z :: element where "unat x = m" "unat y = n" "unat z = m - n"
    using element_of_nat [of m] element_of_nat [of n] element_of_nat [of "m - n"]
    by (meson le_less_trans diff_le_self)
  ultimately have "a = Ok x" "b = Ok y" "el_sub x y = Ok z"
    by (simp_all add: assms el_sub_Ok_iff)
  then show "\<exists>x. a = Ok x \<and> (\<exists>y. b = Ok y \<and> (\<exists>z. el_sub x y = Ok z))"
    by blast
qed (auto simp: assms el_sub_Ok_iff)

lemmas value_simps = input_value_Ok_iff output_value_Ok_iff el_sub_Ok_iff bind_o_Ok_iff

text \<open>
  The public inputs of a transaction carry its kind and its four leaves, and its messages state
  the exact amount that enters or leaves the rollup: a mint with the hash of its output notes and
  \<open>inputs + value = outputs\<close>, a burn with the hash of its first input, its address and
  \<open>outputs + value = inputs\<close>, as natural numbers, so that no message reports a wrapped amount.
\<close>

lemma public_inputs_carry_value:
  assumes "public_inputs P u = Ok p"
  shows "pi_kind p = u_kind u \<and> (case leaf_elements P u of (i0, i1, o0, o1) \<Rightarrow> commitments p = [i0, i1, o0, o1]) \<and>
    (case u_kind u of
       Mint \<Rightarrow> \<exists>v. kind_messages p = MintMessages \<lparr>mm_note_kind = n_contract (fst (u_output_notes u)),
                  mm_value = v, mm_mint_hash = mint_hash P u\<rparr> \<and> input_total u + unat v = output_total u
     | Null \<Rightarrow> kind_messages p = NoMessages
     | Send \<Rightarrow> kind_messages p = NoMessages
     | _ \<Rightarrow> \<exists>v a. u_burn_address u = Some a \<and>
             kind_messages p = BurnMessages \<lparr>bm_utxo_kind = kind_to_element (u_kind u),
               bm_note_kind = n_contract (in_note (fst (u_input_notes u))), bm_value = v,
               bm_burn_hash = burn_hash P u, bm_burn_address = a\<rparr> \<and>
             output_total u + unat v = input_total u)"
proof -
  have k: "pi_kind p = u_kind u" by (rule public_inputs_kind) (rule assms)
  from assms obtain m where m: "utxo_messages P u = Ok m" "messages p = m"
    "commitments p = [commitment P (in_note (fst (u_input_notes u))), commitment P (in_note (snd (u_input_notes u))),
       commitment P (fst (u_output_notes u)), commitment P (snd (u_output_notes u))]"
    by (auto simp: public_inputs_def commitments_def bind_o_Ok_iff)
  obtain m0 m1 m2 m3 m4 where "m = (m0, m1, m2, m3, m4)" by (cases m) auto
  with m k show ?thesis
    by (cases "u_kind u")
       (auto simp: kind_messages_def utxo_messages_def burn_messages_def value_simps leaf_elements_def
        kind_to_element_def el_new_def split: option.splits)
qed

definition demo_P :: "base list \<Rightarrow> base" where
  "demo_P bs = foldl (\<lambda>acc b. (acc * 31 + b + 7) mod 1000003) 1 bs"

definition demo_mint :: utxo where
  "demo_mint = new_mint (note_new_with_psi 5 30 8, note_new_with_psi 6 12 9)"

lemma demo_mint_public_inputs: "\<exists>p. public_inputs demo_P demo_mint = Ok p"
  by (simp add: public_inputs_def utxo_messages_def demo_mint_def new_mint_def output_value_def input_value_def
      padding_input_note_def padding_note_def note_new_with_psi_def el_add_def el_sub_def)

text \<open>
  The public inputs exist exactly when the sums fit 256 bits and the amount is not negative, and,
  for a burn, when an address is given; in every other case the computation panics. Padding and send
  transactions always have them.
\<close>

lemma public_inputs_defined_iff:
  "(\<exists>p. public_inputs P u = Ok p) \<longleftrightarrow>
    (case u_kind u of
       Null \<Rightarrow> True | Send \<Rightarrow> True
     | Mint \<Rightarrow> output_total u < 2 ^ 256 \<and> input_total u \<le> output_total u
     | _ \<Rightarrow> u_burn_address u \<noteq> None \<and> input_total u < 2 ^ 256 \<and> output_total u \<le> input_total u)"
proof -
  have Ok_iff: "(\<exists>p. public_inputs P u = Ok p) \<longleftrightarrow> (\<exists>m. utxo_messages P u = Ok m)"
    by (auto simp: public_inputs_def bind_o_Ok_iff)
  note d = checked_difference [of "output_value u" "output_total u" "input_value u" "input_total u",
      OF output_value_Ok_iff input_value_Ok_iff]
    checked_difference [of "input_value u" "input_total u" "output_value u" "output_total u",
      OF input_value_Ok_iff output_value_Ok_iff]
  have burn: "(\<exists>m. burn_messages P k u = Ok m) \<longleftrightarrow> u_burn_address u \<noteq> None \<and>
      (\<exists>x. input_value u = Ok x \<and> (\<exists>y. output_value u = Ok y \<and> (\<exists>z. el_sub x y = Ok z)))" for k
    by (cases "u_burn_address u") (auto simp: burn_messages_def bind_o_Ok_iff)
  have mint: "(\<exists>m. bind_o (output_value u) (\<lambda>ou. bind_o (input_value u) (\<lambda>i. bind_o (el_sub ou i) (\<lambda>v. Ok (f v)))) = Ok m)
      \<longleftrightarrow> (\<exists>x. output_value u = Ok x \<and> (\<exists>y. input_value u = Ok y \<and> (\<exists>z. el_sub x y = Ok z)))"
    for f :: "element \<Rightarrow> element \<times> element \<times> element \<times> element \<times> element"
    by (auto simp: bind_o_Ok_iff simp del: split_paired_Ex)
  show ?thesis
    unfolding Ok_iff utxo_messages_def
    by (cases "u_kind u") (simp_all only: utxo_kind.case burn mint d, simp_all)
qed

text \<open>The bytes handed to the prover split back into the nine fields of the public inputs.\<close>

lemma public_inputs_bytes_roundtrip: "bytes_to_elements (pi_to_bytes p) = Ok (pi_fields p)"
  by (simp add: pi_to_bytes_def bytes_to_elements_concat)

text \<open>
  The messages of an aggregate are the messages of its three proofs one after the other, padded
  with zeros to fifteen: the index never leaves the array.
\<close>

lemma agg_messages_packed:
  "agg_messages a =
     (let ms = concat (map proof_messages (agg_proofs a)) in Ok (ms @ replicate (15 - length ms) ZERO))"
proof -
  obtain p0 p1 p2 where p: "ag_proofs a = (p0, p1, p2)" by (cases "ag_proofs a") auto
  have "length (concat (map proof_messages (agg_proofs a))) \<le> 15"
    using length_proof_messages [of "b_utxo_proof p0"] length_proof_messages [of "b_utxo_proof p1"]
      length_proof_messages [of "b_utxo_proof p2"]
    by (simp add: agg_proofs_def p)
  then show ?thesis
    by (simp add: agg_messages_def write_proofs Let_def)
qed

end
