(* ===== verification/Note_Url.thy ===== *)
theory Note_Url
  imports Utxo
begin

text \<open>
  Note links (\<open>zk-primitives/src/note_url.rs\<close>, the link functions of \<open>input_note.rs\<close>): the payload
  of a link, its bytes and the way back. Base58, Keccak-256, SHA3-256 and the parsing of hexadecimal
  digits are code outside the repository: they are the fields of \<open>url_env\<close>. A Rust \<open>String\<close> is
  its UTF-8 bytes.
\<close>

section \<open>Strings\<close>

definition cont :: "u8 \<Rightarrow> bool" where
  "cont b \<longleftrightarrow> 0x80 \<le> b \<and> b \<le> 0xBF"

text \<open>Well-formed UTF-8: no overlong form, no surrogate, nothing above \<open>U+10FFFF\<close>.\<close>

fun valid_utf8 :: "u8 list \<Rightarrow> bool" where
  "valid_utf8 [] = True"
| "valid_utf8 (b # bs) =
     (if b \<le> 0x7F then valid_utf8 bs
      else if 0xC2 \<le> b \<and> b \<le> 0xDF then
        (case bs of c # cs \<Rightarrow> cont c \<and> valid_utf8 cs | _ \<Rightarrow> False)
      else if 0xE0 \<le> b \<and> b \<le> 0xEF then
        (case bs of c # d # cs \<Rightarrow>
           cont c \<and> cont d \<and> (b = 0xE0 \<longrightarrow> 0xA0 \<le> c) \<and> (b = 0xED \<longrightarrow> c \<le> 0x9F) \<and> valid_utf8 cs
         | _ \<Rightarrow> False)
      else if 0xF0 \<le> b \<and> b \<le> 0xF4 then
        (case bs of c # d # e # cs \<Rightarrow>
           cont c \<and> cont d \<and> cont e \<and> (b = 0xF0 \<longrightarrow> 0x90 \<le> c) \<and> (b = 0xF4 \<longrightarrow> c \<le> 0x8F) \<and> valid_utf8 cs
         | _ \<Rightarrow> False)
      else False)"

section \<open>Payloads\<close>

record url_env =
  bs58_encode :: "u8 list \<Rightarrow> string"
  bs58_decode :: "string \<Rightarrow> u8 list option"
  keccak256 :: "u8 list \<Rightarrow> u8 list"
  sha3_256 :: "u8 list \<Rightarrow> u8 list"
  from_hex_of :: "u8 list \<Rightarrow> element option"
  poseidon :: "base list \<Rightarrow> base"

record payload =
  p_version :: u8
  p_private_key :: element
  p_psi :: "element option"
  p_value :: element
  p_referral_code :: "u8 list"

definition input_note_of_payload :: "url_env \<Rightarrow> payload \<Rightarrow> InputNote" where
  "input_note_of_payload E p =
     (let psi = (case p_psi p of Some psi \<Rightarrow> psi
                 | None \<Rightarrow> hash_private_key_for_psi (sha3_256 E) (p_private_key p))
      in \<lparr>in_note = \<lparr>n_kind = el_new 2, n_contract = bridged_polygon_usdc_note_kind,
            n_address = get_address_for_private_key (poseidon E) (p_private_key p),
            n_psi = psi, n_value = p_value p\<rparr>,
          in_secret_key = p_private_key p\<rparr>)"

definition payload_of_input_note :: "InputNote \<Rightarrow> payload" where
  "payload_of_input_note i = \<lparr>p_version = 2, p_private_key = in_secret_key i, p_psi = None,
     p_value = n_value (in_note i), p_referral_code = []\<rparr>"

definition payload_address :: "url_env \<Rightarrow> payload \<Rightarrow> element" where
  "payload_address E p = n_address (in_note (input_note_of_payload E p))"

definition payload_commitment :: "url_env \<Rightarrow> payload \<Rightarrow> element" where
  "payload_commitment E p = commitment (poseidon E) (in_note (input_note_of_payload E p))"

definition unwrap_opt :: "'a option \<Rightarrow> 'a checked" where
  "unwrap_opt x = (case x of Some v \<Rightarrow> Ok v | None \<Rightarrow> Panic)"

definition payload_psi :: "url_env \<Rightarrow> payload \<Rightarrow> element checked" where
  "payload_psi E p =
     (if p_version p = 0 then unwrap_opt (p_psi p)
      else if p_version p = 1 then unwrap_opt (from_hex_of E (keccak256 E (to_be_bytes (p_private_key p))))
      else if p_version p = 2 then Ok (hash_private_key_for_psi (sha3_256 E) (p_private_key p))
      else Panic)"

definition leading_zeros :: "u8 list \<Rightarrow> nat" where
  "leading_zeros bs = length (takeWhile (\<lambda>b. b = 0) bs)"

definition encode_value :: "element \<Rightarrow> u8 list" where
  "encode_value v =
     (let value_bytes = to_be_bytes v; z = leading_zeros value_bytes in of_nat z # drop z value_bytes)"

definition payload_bytes :: "payload \<Rightarrow> u8 list" where
  "payload_bytes p =
     [p_version p] @ to_be_bytes (p_private_key p) @
     (case p_psi p of Some psi \<Rightarrow> if p_version p = 0 then to_be_bytes psi else [] | None \<Rightarrow> []) @
     encode_value (p_value p) @
     p_referral_code p"

definition encode_activity_url_payload :: "url_env \<Rightarrow> payload \<Rightarrow> string" where
  "encode_activity_url_payload E p = bs58_encode E (payload_bytes p)"

text \<open>The slices of the decoder: \<open>rest[..n]\<close> with the remainder, and \<open>rest[0]\<close> with the rest.\<close>

definition split_slice :: "nat \<Rightarrow> u8 list \<Rightarrow> (u8 list \<times> u8 list) checked" where
  "split_slice n bs = (if n \<le> length bs then Ok (take n bs, drop n bs) else Panic)"

fun split_byte :: "u8 list \<Rightarrow> (u8 \<times> u8 list) checked" where
  "split_byte [] = Panic"
| "split_byte (b # bs) = Ok (b, bs)"

definition decode_psi :: "url_env \<Rightarrow> u8 \<Rightarrow> u8 list \<Rightarrow> u8 list \<Rightarrow> (element \<times> u8 list) checked" where
  "decode_psi E version private_key_bytes rest =
     (if version = 0 then bind_o (split_slice 32 rest) (\<lambda>(psi, rest). Ok (from_be_bytes psi, rest))
      else if version = 1 then
        bind_o (unwrap_opt (from_hex_of E (keccak256 E private_key_bytes))) (\<lambda>psi. Ok (psi, rest))
      else if version = 2 then
        Ok (hash_private_key_for_psi (sha3_256 E) (from_be_bytes private_key_bytes), rest)
      else Panic)"

definition decode_value :: "u8 list \<Rightarrow> (element \<times> u8 list) checked" where
  "decode_value rest =
     bind_o (split_byte rest) (\<lambda>(z, rest).
     if 32 < unat z then Panic
     else bind_o (split_slice (32 - unat z) rest) (\<lambda>(v, rest).
       Ok (from_be_bytes (replicate (unat z) 0 @ v), rest)))"

definition decode_activity_url_payload :: "url_env \<Rightarrow> string \<Rightarrow> payload checked" where
  "decode_activity_url_payload E link =
     bind_o (unwrap_opt (bs58_decode E link)) (\<lambda>rest.
     bind_o (split_byte rest) (\<lambda>(version, rest).
     bind_o (split_slice 32 rest) (\<lambda>(private_key_bytes, rest).
     bind_o (decode_psi E version private_key_bytes rest) (\<lambda>(psi, rest).
     bind_o (decode_value rest) (\<lambda>(v, rest).
     if valid_utf8 rest
     then Ok \<lparr>p_version = version, p_private_key = from_be_bytes private_key_bytes, p_psi = Some psi,
             p_value = v, p_referral_code = rest\<rparr>
     else Panic)))))"

definition new_from_link :: "url_env \<Rightarrow> string \<Rightarrow> InputNote checked" where
  "new_from_link E link =
     bind_o (decode_activity_url_payload E link) (\<lambda>p. Ok (input_note_of_payload E p))"

definition generate_link :: "url_env \<Rightarrow> InputNote \<Rightarrow> string" where
  "generate_link E i = encode_activity_url_payload E (payload_of_input_note i)"

section \<open>Lemmas\<close>

lemma split_slice_append [simp]: "length xs = n \<Longrightarrow> split_slice n (xs @ ys) = Ok (xs, ys)"
  by (auto simp: split_slice_def)

lemma leading_zeros_le: "leading_zeros bs \<le> length bs"
  by (simp add: leading_zeros_def length_takeWhile_le)

lemma leading_zeros_restore: "replicate (leading_zeros bs) 0 @ drop (leading_zeros bs) bs = bs"
proof -
  have "takeWhile (\<lambda>b. b = 0) bs = replicate (leading_zeros bs) 0"
    by (auto simp: leading_zeros_def intro!: replicate_eqI dest: set_takeWhileD)
  then show ?thesis
    by (metis leading_zeros_def dropWhile_eq_drop takeWhile_dropWhile_id)
qed

lemma decode_value_encoded:
  "decode_value (encode_value v @ rest) = Ok (v, rest)"
proof -
  define z where "z = leading_zeros (to_be_bytes v)"
  have z: "z \<le> 32" using leading_zeros_le [of "to_be_bytes v"] by (simp add: z_def)
  then have "unat (of_nat z :: u8) = z" by (simp add: unat_of_nat)
  moreover have "replicate z 0 @ drop z (to_be_bytes v) = to_be_bytes v"
    by (simp add: z_def leading_zeros_restore)
  ultimately show ?thesis
    using z by (simp add: decode_value_def encode_value_def z_def [symmetric] Let_def)
qed

definition url_env_ok :: "url_env \<Rightarrow> bool" where
  "url_env_ok E \<longleftrightarrow> (\<forall>bs. bs58_decode E (bs58_encode E bs) = Some bs) \<and>
     (\<forall>bs. from_hex_of E (keccak256 E bs) \<noteq> None)"

lemma url_env_ok_hex: "url_env_ok E \<Longrightarrow> \<exists>e. from_hex_of E (keccak256 E bs) = Some e"
  by (simp add: url_env_ok_def)

lemma decode_psi_encoded:
  assumes "url_env_ok E" and "p_version p \<le> 2" and "p_version p = 0 \<longrightarrow> p_psi p \<noteq> None"
  shows "\<exists>psi. payload_psi E p = Ok psi \<and>
    (\<forall>rest. decode_psi E (p_version p) (to_be_bytes (p_private_key p))
      ((case p_psi p of Some psi \<Rightarrow> if p_version p = 0 then to_be_bytes psi else [] | None \<Rightarrow> []) @ rest)
    = Ok (psi, rest))"
proof -
  have "unat (p_version p) \<le> 2" using assms(2) by (simp add: word_le_nat_alt)
  then have "unat (p_version p) = unat (0 :: u8) \<or> unat (p_version p) = unat (1 :: u8)
      \<or> unat (p_version p) = unat (2 :: u8)" by simp arith
  then have "p_version p = 0 \<or> p_version p = 1 \<or> p_version p = 2"
    by (metis unsigned_word_eqI)
  then show ?thesis
    using assms(1,3) url_env_ok_hex [OF assms(1), of "to_be_bytes (p_private_key p)"]
    by (auto simp: payload_psi_def decode_psi_def unwrap_opt_def split: option.splits)
qed

lemma decode_encode:
  assumes "url_env_ok E" and "p_version p \<le> 2" and "p_version p = 0 \<longrightarrow> p_psi p \<noteq> None"
    and "valid_utf8 (p_referral_code p)"
  shows "\<exists>psi. payload_psi E p = Ok psi \<and>
    decode_activity_url_payload E (encode_activity_url_payload E p) = Ok (p\<lparr>p_psi := Some psi\<rparr>)"
proof -
  have dec: "bs58_decode E (bs58_encode E bs) = Some bs" for bs
    using assms(1) by (simp add: url_env_ok_def)
  obtain psi where psi: "payload_psi E p = Ok psi"
    "\<And>rest. decode_psi E (p_version p) (to_be_bytes (p_private_key p))
      ((case p_psi p of Some psi \<Rightarrow> if p_version p = 0 then to_be_bytes psi else [] | None \<Rightarrow> []) @ rest)
    = Ok (psi, rest)"
    using decode_psi_encoded [OF assms(1-3)] by blast
  show ?thesis
    using assms(4)
    by (simp add: decode_activity_url_payload_def encode_activity_url_payload_def payload_bytes_def dec psi
        decode_value_encoded unwrap_opt_def)
qed

lemma link_read_back:
  assumes "url_env_ok E"
  shows "new_from_link E (generate_link E i) =
      Ok (new_from_ephemeral_private_key (poseidon E) (sha3_256 E) (in_secret_key i) (n_value (in_note i)))"
  using decode_encode [OF assms, of "payload_of_input_note i"]
  by (auto simp: payload_of_input_note_def new_from_link_def generate_link_def payload_psi_def
      input_note_of_payload_def new_from_ephemeral_private_key_def note_new_from_ephemeral_private_key_def Let_def)

section \<open>Properties\<close>

text \<open>
  A payload of version 0, 1 or 2 (version 0 with its explicit psi) survives its link: decoding
  the encoded payload gives it back with the psi its version defines filled in.
\<close>

lemma note_url_roundtrip:
  assumes "url_env_ok E" and "p_version p \<le> 2" and "p_version p = 0 \<longrightarrow> p_psi p \<noteq> None"
    and "valid_utf8 (p_referral_code p)"
  shows "\<exists>psi. payload_psi E p = Ok psi \<and>
    decode_activity_url_payload E (encode_activity_url_payload E p) = Ok (p\<lparr>p_psi := Some psi\<rparr>)"
  using assms by (rule decode_encode)

definition demo_env :: url_env where
  "demo_env = \<lparr>bs58_encode = map (\<lambda>b. char_of (unat b)), bs58_decode = (\<lambda>s. Some (map (\<lambda>c. of_nat (of_char c)) s)),
     keccak256 = id, sha3_256 = rev, from_hex_of = Some \<circ> from_be_bytes, poseidon = demo_P\<rparr>"

definition demo_payload :: payload where
  "demo_payload = \<lparr>p_version = 0, p_private_key = 101, p_psi = Some 7, p_value = 1000,
     p_referral_code = [0x68, 0xC3, 0xA9]\<rparr>"

lemma of_char_of_unat: "(of_nat (of_char (char_of (unat b))) :: u8) = b"
proof -
  have "unat b < 256" using unsigned_less [of b, where ?'a = nat] by simp
  then have "of_char (char_of (unat b)) = unat b" by simp
  then show ?thesis by simp
qed

lemma demo_env_ok: "url_env_ok demo_env"
  by (simp add: url_env_ok_def demo_env_def comp_def of_char_of_unat del: of_char_of)

text \<open>
  A link keeps the secret key and the value of a note and nothing else: reading it back yields
  the ephemeral note of that key and value, so a note survives its link exactly when it is one. A
  note of another token, or with another psi, comes back as a different note.
\<close>

lemma note_link_keeps_key_and_value:
  assumes "url_env_ok E"
  shows "new_from_link E (generate_link E i) =
      Ok (new_from_ephemeral_private_key (poseidon E) (sha3_256 E) (in_secret_key i) (n_value (in_note i))) \<and>
    (n_contract (in_note i) \<noteq> bridged_polygon_usdc_note_kind \<longrightarrow> new_from_link E (generate_link E i) \<noteq> Ok i)"
  unfolding link_read_back [OF assms] outcome.inject new_from_ephemeral_private_key_def
    note_new_from_ephemeral_private_key_def Let_def
  by (metis InputNote.select_convs(1) Note.select_convs(2))

definition demo_foreign_note :: InputNote where
  "demo_foreign_note = \<lparr>in_note = \<lparr>n_kind = 2, n_contract = 77, n_address = 3, n_psi = 4, n_value = 500\<rparr>,
     in_secret_key = 65\<rparr>"

lemma usdc_kind_not_77: "bridged_polygon_usdc_note_kind \<noteq> 77"
proof
  assume "bridged_polygon_usdc_note_kind = 77"
  then have "to_be_bytes bridged_polygon_usdc_note_kind ! 1 = to_be_bytes 77 ! 1" by simp
  then show False
    by (simp add: bridged_polygon_usdc_note_kind_def generate_note_kind_bridge_evm_def to_from_be_bytes
        u64_be_bytes_def) (simp add: to_be_bytes_def to_le_bytes_def rev_nth)
qed

end
