(* ===== verification/Signed_Element.thy ===== *)
theory Signed_Element
  imports Element "HOL-Library.Signed_Division"
begin

text \<open>
  Signed 256-bit integers (\<open>element/src/signed_element.rs\<close>): a magnitude and a sign. The abstraction
  \<open>sval\<close> reads them as integers, and every operation is shown to be the integer operation wherever
  it returns. Element arithmetic panics on overflow; an \<open>i64\<close> is a 64-bit word read with \<open>sint\<close>.
\<close>

section \<open>The type\<close>

record signed_element =
  se_value :: element
  se_negative :: bool

datatype never = Never

type_synonym 'a total = "('a, never) outcome"

datatype ordering = Less | Equal | Greater

definition se_new :: "element \<Rightarrow> bool \<Rightarrow> signed_element" where
  "se_new v neg = (if v = ZERO then \<lparr>se_value = v, se_negative = False\<rparr> else \<lparr>se_value = v, se_negative = neg\<rparr>)"

definition se_positive :: "element \<Rightarrow> signed_element" where
  "se_positive v = se_new v False"

definition se_negative_of :: "element \<Rightarrow> signed_element" where
  "se_negative_of v = se_new v True"

definition SE_ZERO :: signed_element where "SE_ZERO = \<lparr>se_value = ZERO, se_negative = False\<rparr>"
definition SE_ONE :: signed_element where "SE_ONE = \<lparr>se_value = ONE, se_negative = False\<rparr>"
definition SE_NEG_ONE :: signed_element where "SE_NEG_ONE = \<lparr>se_value = ONE, se_negative = True\<rparr>"

definition se_is_zero :: "signed_element \<Rightarrow> bool" where
  "se_is_zero a \<longleftrightarrow> se_value a = ZERO"

definition is_positive :: "signed_element \<Rightarrow> bool" where
  "is_positive a \<longleftrightarrow> \<not> se_negative a \<and> se_value a \<noteq> ZERO"

definition signum :: "signed_element \<Rightarrow> signed_element" where
  "signum a = (if se_is_zero a then SE_ZERO else if se_negative a then SE_NEG_ONE else SE_ONE)"

definition se_from_element :: "element \<Rightarrow> signed_element" where
  "se_from_element v = se_new v False"

definition se_from_u64 :: "u64 \<Rightarrow> signed_element" where
  "se_from_u64 v = se_new (el_new v) False"

text \<open>\<open>i64::unsigned_abs\<close>.\<close>

definition unsigned_abs :: "64 word \<Rightarrow> u64" where
  "unsigned_abs v = (if sint v < 0 then - v else v)"

definition se_from_i64 :: "64 word \<Rightarrow> signed_element" where
  "se_from_i64 v = (if sint v < 0 then se_new (el_new (unsigned_abs v)) True
     else se_new (el_new (unsigned_abs v)) False)"

section \<open>Arithmetic\<close>

definition checked_add :: "element \<Rightarrow> element \<Rightarrow> element total" where
  "checked_add a b = (if unat a + unat b < 2 ^ 256 then Ok (a + b) else Panic)"

definition checked_mul :: "element \<Rightarrow> element \<Rightarrow> element total" where
  "checked_mul a b = (if unat a * unat b < 2 ^ 256 then Ok (a * b) else Panic)"

definition se_neg :: "signed_element \<Rightarrow> signed_element" where
  "se_neg a = (if se_is_zero a then a else se_new (se_value a) (\<not> se_negative a))"

definition el_cmp :: "'a::linorder \<Rightarrow> 'a \<Rightarrow> ordering" where
  "el_cmp a b = (if a < b then Less else if a = b then Equal else Greater)"

definition se_add :: "signed_element \<Rightarrow> signed_element \<Rightarrow> signed_element total" where
  "se_add a b =
     (if se_negative a = se_negative b
      then bind_o (checked_add (se_value a) (se_value b)) (\<lambda>v. Ok (se_new v (se_negative a)))
      else (case el_cmp (se_value a) (se_value b) of
              Equal \<Rightarrow> Ok SE_ZERO
            | Greater \<Rightarrow> Ok (se_new (se_value a - se_value b) (se_negative a))
            | Less \<Rightarrow> Ok (se_new (se_value b - se_value a) (se_negative b))))"

definition se_sub :: "signed_element \<Rightarrow> signed_element \<Rightarrow> signed_element total" where
  "se_sub a b = se_add a (se_neg b)"

definition se_mul :: "signed_element \<Rightarrow> signed_element \<Rightarrow> signed_element total" where
  "se_mul a b = bind_o (checked_mul (se_value a) (se_value b))
     (\<lambda>v. Ok (se_new v (se_negative a \<noteq> se_negative b)))"

definition se_div :: "signed_element \<Rightarrow> signed_element \<Rightarrow> signed_element total" where
  "se_div a b =
     (if se_is_zero b then Panic
      else Ok (se_new (se_value a div se_value b) (se_negative a \<noteq> se_negative b)))"

section \<open>Comparison and conversion\<close>

definition se_cmp :: "signed_element \<Rightarrow> signed_element \<Rightarrow> ordering" where
  "se_cmp a b =
     (case (se_negative a, se_negative b) of
        (False, False) \<Rightarrow> el_cmp (se_value a) (se_value b)
      | (True, True) \<Rightarrow> el_cmp (se_value b) (se_value a)
      | (True, False) \<Rightarrow> Less
      | (False, True) \<Rightarrow> Greater)"

definition cmp_element :: "signed_element \<Rightarrow> element \<Rightarrow> ordering" where
  "cmp_element a b = (if se_negative a then Less else el_cmp (se_value a) b)"

definition cmp_u64 :: "signed_element \<Rightarrow> u64 \<Rightarrow> ordering" where
  "cmp_u64 a b = (if se_negative a then Less else el_cmp (se_value a) (ucast b))"

fun reverse_ord :: "ordering \<Rightarrow> ordering" where
  "reverse_ord Less = Greater"
| "reverse_ord Equal = Equal"
| "reverse_ord Greater = Less"

text \<open>The comparison with a negative \<open>i64\<close> reads the magnitude with \<open>as_u64\<close>, its low 64 bits.\<close>

definition cmp_i64 :: "signed_element \<Rightarrow> 64 word \<Rightarrow> ordering" where
  "cmp_i64 a b =
     (if sint b < 0 then
        (if se_negative a then reverse_ord (el_cmp (ucast (se_value a) :: u64) (unsigned_abs b)) else Greater)
      else (if se_negative a then Less else el_cmp (se_value a) (ucast b)))"

definition eq_i64 :: "signed_element \<Rightarrow> 64 word \<Rightarrow> bool" where
  "eq_i64 a b =
     (if sint b < 0 then se_negative a \<and> se_value a = el_new (unsigned_abs b)
      else \<not> se_negative a \<and> se_value a = el_new b)"

definition to_i64 :: "signed_element \<Rightarrow> (64 word) option" where
  "to_i64 a =
     (if el_new (2 ^ 63 - 1) < se_value a then None
      else let unsigned_val = ucast (se_value a) :: u64
           in if \<not> se_negative a \<and> 2 ^ 63 - 1 < unsigned_val then None
              else Some (if se_negative a then - unsigned_val else unsigned_val))"

definition fits_in_i64 :: "signed_element \<Rightarrow> bool" where
  "fits_in_i64 a \<longleftrightarrow> to_i64 a \<noteq> None"

section \<open>Integers as the specification\<close>

definition sval :: "signed_element \<Rightarrow> int" where
  "sval a = (if se_negative a then - uint (se_value a) else uint (se_value a))"

definition se_wf :: "signed_element \<Rightarrow> bool" where
  "se_wf a \<longleftrightarrow> (se_negative a \<longrightarrow> se_value a \<noteq> ZERO)"

definition int_cmp :: "int \<Rightarrow> int \<Rightarrow> ordering" where
  "int_cmp a b = (if a < b then Less else if a = b then Equal else Greater)"

lemma se_new_wf [simp]: "se_wf (se_new v n)"
  by (simp add: se_new_def se_wf_def)

lemma sval_new [simp]: "sval (se_new v n) = (if n then - uint v else uint v)"
  by (simp add: sval_def se_new_def)

definition se_of :: "int \<Rightarrow> signed_element" where
  "se_of z = se_new (word_of_int \<bar>z\<bar>) (z < 0)"

lemma uint_bounds: "0 \<le> uint (w :: element)" "uint (w :: element) < 2 ^ 256"
  using uint_lt2p [of w] by simp_all

lemma se_of_uint [simp]: "se_of (uint v) = se_new v False"
  by (simp add: se_of_def)

lemma se_of_neg_uint [simp]: "se_of (- uint v) = se_new v True"
proof (cases "v = 0")
  case False
  then have "0 < uint v" using uint_bounds(1) [of v] by (simp add: uint_0_iff order_less_le)
  then show ?thesis by (simp add: se_of_def)
qed (simp add: se_of_def se_new_def)

lemma se_of_sval: "se_wf a \<Longrightarrow> se_of (sval a) = a"
  by (cases a) (auto simp: sval_def se_wf_def se_new_def)

lemma sval_se_of: "\<bar>z\<bar> < 2 ^ 256 \<Longrightarrow> sval (se_of z) = z"
proof -
  assume "\<bar>z\<bar> < 2 ^ 256"
  then have "uint (word_of_int \<bar>z\<bar> :: element) = \<bar>z\<bar>" by (simp only: uint_word_of_int) simp
  then show ?thesis by (simp only: se_of_def sval_new) simp
qed

lemma se_of_wf [simp]: "se_wf (se_of z)"
  by (simp add: se_of_def)

lemma fits_iff:
  fixes a b :: element
  shows "unat a + unat b < 2 ^ 256 \<longleftrightarrow> uint a + uint b < 2 ^ 256"
    and "unat a * unat b < 2 ^ 256 \<longleftrightarrow> uint a * uint b < 2 ^ 256"
  by (simp_all add: uint_nat [symmetric] of_nat_less_iff [symmetric, where ?'a = int])

lemma checked_add_cases:
  "(\<exists>v. checked_add a b = Ok v \<and> uint v = uint a + uint b) \<and> uint a + uint b < 2 ^ 256 \<or>
   checked_add a b = Panic \<and> \<not> uint a + uint b < 2 ^ 256"
proof (cases "uint a + uint b < 2 ^ 256")
  case True
  then have "uint (a + b) = uint a + uint b" by (simp add: uint_word_ariths)
  with True show ?thesis by (simp add: checked_add_def fits_iff(1) [simplified])
qed (simp add: checked_add_def fits_iff(1) [simplified])

lemma checked_mul_cases:
  "(\<exists>v. checked_mul a b = Ok v \<and> uint v = uint a * uint b) \<and> uint a * uint b < 2 ^ 256 \<or>
   checked_mul a b = Panic \<and> \<not> uint a * uint b < 2 ^ 256"
proof (cases "uint a * uint b < 2 ^ 256")
  case True
  then have "uint (a * b) = uint a * uint b" by (simp add: uint_word_ariths)
  with True show ?thesis by (simp add: checked_mul_def fits_iff(2) [simplified])
qed (simp add: checked_mul_def fits_iff(2) [simplified])

lemma el_cmp_uint: "el_cmp a b = int_cmp (uint a) (uint b)"
  by (auto simp: el_cmp_def int_cmp_def word_less_def intro: unsigned_word_eqI)

lemma int_cmp_simps [simp]:
  "int_cmp a b = Less \<longleftrightarrow> a < b" "int_cmp a b = Equal \<longleftrightarrow> a = b" "int_cmp a b = Greater \<longleftrightarrow> b < a"
  by (auto simp: int_cmp_def)

lemma reverse_int_cmp: "reverse_ord (int_cmp a b) = int_cmp (- a) (- b)"
  by (simp add: int_cmp_def)

lemma sval_neg [simp]: "sval (se_neg a) = - sval a"
  by (simp add: se_neg_def se_is_zero_def) (simp add: sval_def)

lemma se_neg_wf: "se_wf a \<Longrightarrow> se_wf (se_neg a)"
  by (simp add: se_neg_def)

lemma uint_diff: "b \<le> a \<Longrightarrow> uint (a - b) = uint a - uint b"
  by (simp add: uint_sub_if_size word_le_def)

lemma se_new_True: "w = - uint v \<Longrightarrow> se_new v True = se_of w"
  by simp

lemma se_new_False: "w = uint v \<Longrightarrow> se_new v False = se_of w"
  by simp

lemma se_add_same:
  assumes "se_negative a = se_negative b"
  shows "se_add a b = (if \<bar>sval a + sval b\<bar> < 2 ^ 256 then Ok (se_of (sval a + sval b)) else Panic)"
proof -
  define x y where "x = uint (se_value a)" and "y = uint (se_value b)"
  have xy: "0 \<le> x" "0 \<le> y" by (simp_all add: x_def y_def)
  have s: "sval a + sval b = (if se_negative a then - (x + y) else x + y)"
    using assms by (simp add: sval_def x_def y_def)
  with xy have abs: "\<bar>sval a + sval b\<bar> = x + y" by simp
  from checked_add_cases [of "se_value a" "se_value b"] show ?thesis
    unfolding se_add_def abs x_def [symmetric] y_def [symmetric]
    using assms by (auto simp: s simp del: se_of_uint se_of_neg_uint intro!: se_new_True se_new_False)
qed

lemma se_add_diff:
  assumes "se_negative a \<noteq> se_negative b"
  shows "se_add a b = Ok (se_of (sval a + sval b)) \<and> \<bar>sval a + sval b\<bar> < 2 ^ 256"
proof -
  define x y where "x = uint (se_value a)" and "y = uint (se_value b)"
  have xy: "0 \<le> x" "0 \<le> y" "x < 2 ^ 256" "y < 2 ^ 256"
    using uint_bounds [of "se_value a"] uint_bounds [of "se_value b"] by (simp_all only: x_def y_def)
  have s: "sval a + sval b = (if se_negative a then y - x else x - y)"
    using assms by (simp add: sval_def x_def y_def)
  with xy have abs: "\<bar>sval a + sval b\<bar> < 2 ^ 256" by (simp add: abs_if)
  consider "x < y" | "x = y" | "y < x" by linarith
  then have "se_add a b = Ok (se_of (sval a + sval b))"
  proof cases
    case 1
    then have "se_value a < se_value b" by (simp add: word_less_def x_def y_def)
    then show ?thesis
      using assms uint_diff [of "se_value a" "se_value b"]
      by (cases "se_negative b") (auto simp: se_add_def el_cmp_def s x_def y_def simp del: se_of_uint se_of_neg_uint
          intro!: se_new_True se_new_False)
  next
    case 2
    then have "se_value a = se_value b" by (simp add: x_def y_def unsigned_word_eqI)
    then show ?thesis
      using assms 2 by (simp add: se_add_def el_cmp_def s se_of_def se_new_def SE_ZERO_def)
  next
    case 3
    then have "se_value b < se_value a" by (simp add: word_less_def x_def y_def)
    then show ?thesis
      using assms uint_diff [of "se_value b" "se_value a"]
      by (cases "se_negative a") (auto simp: se_add_def el_cmp_def s x_def y_def simp del: se_of_uint se_of_neg_uint
          intro!: se_new_True se_new_False)
  qed
  with abs show ?thesis by blast
qed

lemma se_add_spec:
  "se_add a b = (if \<bar>sval a + sval b\<bar> < 2 ^ 256 then Ok (se_of (sval a + sval b)) else Panic)"
  using se_add_same se_add_diff by (cases "se_negative a = se_negative b") simp_all

lemma se_mul_spec:
  "se_mul a b = (if \<bar>sval a * sval b\<bar> < 2 ^ 256 then Ok (se_of (sval a * sval b)) else Panic)"
proof -
  define x y where "x = uint (se_value a)" and "y = uint (se_value b)"
  have xy: "0 \<le> x * y" by (simp add: x_def y_def)
  have s: "sval a * sval b = (if se_negative a \<noteq> se_negative b then - (x * y) else x * y)"
    by (simp add: sval_def x_def y_def)
  with xy have abs: "\<bar>sval a * sval b\<bar> = x * y" by simp
  from checked_mul_cases [of "se_value a" "se_value b"] show ?thesis
    unfolding se_mul_def abs x_def [symmetric] y_def [symmetric]
    by (auto simp: s simp del: se_of_uint se_of_neg_uint intro!: se_new_True se_new_False)
qed

lemma se_div_spec:
  assumes "sval b \<noteq> 0"
  shows "se_div a b = Ok (se_of (sval a sdiv sval b))"
proof -
  define x y where "x = uint (se_value a)" and "y = uint (se_value b)"
  have xy: "0 \<le> x" "0 < y"
    using assms uint_bounds(1) [of "se_value b"] by (auto simp: x_def y_def sval_def order_less_le split: if_splits)
  have s: "sval a sdiv sval b = (if se_negative a \<noteq> se_negative b then - (x div y) else x div y)"
    using xy by (auto simp: sval_def signed_divide_int_def x_def [symmetric] y_def [symmetric] sgn_if abs_if)
  have "se_value b \<noteq> 0" using xy by (auto simp: y_def)
  then show ?thesis
    unfolding se_div_def s x_def y_def
    by (auto simp: se_is_zero_def uint_div simp del: se_of_uint se_of_neg_uint intro!: se_new_True se_new_False)
qed

lemma se_cmp_spec:
  assumes "se_wf a" and "se_wf b"
  shows "se_cmp a b = int_cmp (sval a) (sval b)"
proof -
  have pos: "0 \<le> uint (se_value a)" "0 \<le> uint (se_value b)" by simp_all
  have neg: "se_negative a \<Longrightarrow> sval a < 0" "se_negative b \<Longrightarrow> sval b < 0"
    using assms pos by (auto simp: se_wf_def sval_def uint_0_iff order_less_le)
  have nonneg: "\<not> se_negative a \<Longrightarrow> 0 \<le> sval a" "\<not> se_negative b \<Longrightarrow> 0 \<le> sval b"
    by (simp_all add: sval_def)
  show ?thesis
    using neg nonneg
    by (cases "se_negative a"; cases "se_negative b")
       (auto simp: se_cmp_def el_cmp_uint int_cmp_def, auto simp: sval_def)
qed

lemma sval_div_bound: "\<bar>sval a sdiv z\<bar> < 2 ^ 256"
proof -
  have "\<bar>sval a\<bar> < 2 ^ 256"
    using uint_bounds [of "se_value a"] by (simp add: sval_def)
  moreover have "\<bar>sval a sdiv z\<bar> \<le> \<bar>sval a\<bar>"
    using sdiv_int_range [of "sval a" z] by auto
  ultimately show ?thesis by linarith
qed

lemma u64_bounds: "0 \<le> uint (v :: 64 word)" "uint (v :: 64 word) < 2 ^ 64"
  using uint_lt2p [of v] by simp_all

lemma sint_u64: "sint (v :: 64 word) = (if uint v < 2 ^ 63 then uint v else uint v - 2 ^ 64)"
proof -
  have "sint v = (uint v + 2 ^ 63) mod 2 ^ 64 - 2 ^ 63"
    by (simp add: sint_uint signed_take_bit_eq_take_bit_shift take_bit_eq_mod)
  moreover have "(uint v + 2 ^ 63) mod 2 ^ 64 = (if uint v < 2 ^ 63 then uint v + 2 ^ 63 else uint v - 2 ^ 63)"
  proof (cases "uint v < 2 ^ 63")
    case False
    have "(uint v + 2 ^ 63) mod 2 ^ 64 = (uint v - 2 ^ 63) mod 2 ^ 64"
      using mod_add_self2 [of "uint v - 2 ^ 63" "2 ^ 64"] by (simp add: add.commute)
    with False u64_bounds [of v] show ?thesis by simp
  qed (use u64_bounds [of v] in simp)
  ultimately show ?thesis by (simp split: if_splits)
qed

lemma uint_unsigned_abs: "uint (unsigned_abs v) = \<bar>sint v\<bar>"
proof (cases "sint v < 0")
  case True
  then have "uint v \<noteq> 0" by (auto simp: sint_u64)
  with True u64_bounds [of v] show ?thesis
    by (simp add: unsigned_abs_def sint_u64 uint_word_ariths zmod_zminus1_eq_if split: if_splits)
qed (use u64_bounds [of v] in \<open>auto simp: unsigned_abs_def sint_u64 split: if_splits\<close>)

lemma uint_el_new: "uint (el_new v) = uint v"
  by (simp add: el_new_def unsigned_ucast_eq take_bit_int_eq_self order_less_le_trans [OF u64_bounds(2)])

lemma sval_from_i64: "sval (se_from_i64 v) = sint v"
  by (simp add: se_from_i64_def uint_el_new uint_unsigned_abs)

lemma uint_low64: "uint (ucast (w :: element) :: u64) = uint w mod 2 ^ 64"
  by (simp add: unsigned_ucast_eq take_bit_eq_mod)

lemma cmp_i64_spec:
  assumes "se_wf a" and "\<bar>sval a\<bar> < 2 ^ 64"
  shows "cmp_i64 a b = int_cmp (sval a) (sint b)"
proof -
  have low: "uint (ucast (se_value a) :: u64) = uint (se_value a)"
    using assms(2) by (simp add: uint_low64 sval_def split: if_splits)
  have neg: "sval a < 0" if "se_negative a"
    using assms(1) that uint_bounds(1) [of "se_value a"] by (auto simp: se_wf_def sval_def order_less_le uint_0_iff)
  have pos: "0 \<le> sval a" if "\<not> se_negative a"
    using that by (simp add: sval_def)
  show ?thesis
  proof (cases "sint b < 0")
    case True
    show ?thesis
    proof (cases "se_negative a")
      case True
      with \<open>sint b < 0\<close> show ?thesis
        by (simp add: cmp_i64_def el_cmp_uint low uint_unsigned_abs reverse_int_cmp) (simp add: sval_def)
    qed (use True pos in \<open>simp add: cmp_i64_def int_cmp_def\<close>)
  next
    case False
    then have "uint (ucast b :: element) = sint b"
      using u64_bounds [of b] by (simp add: uint_el_new [unfolded el_new_def] sint_u64 split: if_splits)
    with False neg show ?thesis
      by (cases "se_negative a") (auto simp: cmp_i64_def el_cmp_uint int_cmp_def sval_def)
  qed
qed

lemma to_i64_spec: "to_i64 a = (if \<bar>sval a\<bar> < 2 ^ 63 then Some (word_of_int (sval a)) else None)"
proof -
  have i64_max: "el_new (2 ^ 63 - 1) < se_value a \<longleftrightarrow> \<not> \<bar>sval a\<bar> < 2 ^ 63"
    by (auto simp: word_less_def uint_el_new sval_def)
  have low: "uint (ucast (se_value a) :: u64) = uint (se_value a)" if "\<bar>sval a\<bar> < 2 ^ 63"
    using that by (simp add: uint_low64 sval_def split: if_splits)
  show ?thesis
  proof (cases "\<bar>sval a\<bar> < 2 ^ 63")
    case True
    then have "\<not> (2 ^ 63 - 1 < (ucast (se_value a) :: u64))"
      using low by (auto simp: word_less_def sval_def split: if_splits)
    with True i64_max show ?thesis
      by (auto simp: to_i64_def Let_def sval_def)
  next
    case False
    with i64_max have "el_new (2 ^ 63 - 1) < se_value a" by blast
    with False show ?thesis unfolding to_i64_def by (simp only: if_True if_False)
  qed
qed

section \<open>Properties\<close>

text \<open>An operation returns an integer: exactly when it fits 257 signed bits, and normalised.\<close>

definition returns :: "signed_element total \<Rightarrow> int \<Rightarrow> bool" where
  "returns m z = (if \<bar>z\<bar> < 2 ^ 256 then (\<exists>c. m = Ok c \<and> se_wf c \<and> sval c = z) else m = Panic)"

lemma returns_spec: "m = (if \<bar>z\<bar> < 2 ^ 256 then Ok (se_of z) else Panic) \<Longrightarrow> returns m z"
  by (simp add: returns_def sval_se_of)

text \<open>
  C37. Addition, subtraction, multiplication and division are the operations on integers (division
  truncates towards zero): each returns the exact result, with zero never negative, whenever it is
  below \<open>2 ^ 256\<close> in magnitude, and panics otherwise; division by zero panics.
\<close>

theorem signed_arith_exact:
  "returns (se_add a b) (sval a + sval b) \<and> returns (se_sub a b) (sval a - sval b) \<and>
   returns (se_mul a b) (sval a * sval b) \<and>
   (if sval b = 0 then se_div a b = Panic else returns (se_div a b) (sval a sdiv sval b))"
proof -
  have "se_div a b = Panic" if "sval b = 0"
    using that by (auto simp: se_div_def se_is_zero_def sval_def uint_0_iff split: if_splits)
  moreover have "returns (se_div a b) (sval a sdiv sval b)" if "sval b \<noteq> 0"
    using se_div_spec [OF that, of a] sval_div_bound [of a] by (intro returns_spec) simp
  ultimately show ?thesis
    using se_add_spec [of a "se_neg b"]
    by (auto simp: se_add_spec se_mul_spec se_sub_def intro!: returns_spec)
qed

text \<open>
  The order of signed elements is the order of the integers they stand for, and equality of
  normalised values is equality of those integers. The comparison with an \<open>i64\<close> agrees with it
  for magnitudes below \<open>2 ^ 64\<close>; above, it looks at the low 64 bits only, and \<open>- (2 ^ 64 + 1)\<close>
  is reported as greater than \<open>- 2\<close>.
\<close>

lemma signed_compare:
  assumes "se_wf a" and "se_wf b"
  shows "se_cmp a b = int_cmp (sval a) (sval b) \<and> (a = b \<longleftrightarrow> sval a = sval b) \<and>
    (\<bar>sval a\<bar> < 2 ^ 64 \<longrightarrow> cmp_i64 a c = int_cmp (sval a) (sint c)) \<and>
    cmp_i64 (se_negative_of (2 ^ 64 + 1)) (- 2) = Greater"
proof -
  have "cmp_i64 (se_negative_of (2 ^ 64 + 1)) (- 2) = Greater"
    by (simp add: cmp_i64_def se_negative_of_def se_new_def unsigned_abs_def el_cmp_def)
  moreover have "a = b \<longleftrightarrow> sval a = sval b"
    using se_of_sval [OF assms(1)] se_of_sval [OF assms(2)] by metis
  ultimately show ?thesis
    using se_cmp_spec [OF assms] cmp_i64_spec [OF assms(1)] by blast
qed

text \<open>
  Conversion from \<open>i64\<close> is exact, and the way back returns the value exactly when its magnitude
  is below \<open>2 ^ 63\<close>: every \<open>i64\<close> survives the round trip but \<open>i64::MIN\<close>, which comes back as
  \<open>None\<close>.
\<close>

lemma signed_i64_roundtrip:
  "sval (se_from_i64 v) = sint v \<and>
   to_i64 a = (if \<bar>sval a\<bar> < 2 ^ 63 then Some (word_of_int (sval a)) else None) \<and>
   to_i64 (se_from_i64 v) = (if sint v = - (2 ^ 63) then None else Some v)"
proof -
  have "- (2 ^ 63) \<le> sint v" "sint v < 2 ^ 63"
    using sint_greater_eq [of v] sint_less [of v] by simp_all
  then have "\<bar>sint v\<bar> < 2 ^ 63 \<longleftrightarrow> sint v \<noteq> - (2 ^ 63)"
    by linarith
  then show ?thesis
    by (simp add: sval_from_i64 to_i64_spec)
qed

end
