(* ===== verification/Node_Block.thy ===== *)
theory Node_Block
  imports Smirk_Storage Block_Store_Props Utxo
begin

text \<open>
  Blocks and their validation (\<open>node/src/block.rs\<close>, \<open>node/src/utxo.rs\<close>,
  \<open>node/src/node/block.rs\<close>, \<open>block_format.rs\<close>, \<open>txn_format.rs\<close>, \<open>primitives/src/sig.rs\<close>). The cryptographic
  primitives are code outside the repository: Poseidon, Keccak-256, the Borsh bytes of a header, the
  proof verifier and ECDSA recovery are the fields of \<open>node_env\<close>, with the validators the rollup
  contract reports for a height. \<open>root_hash_with\<close> fills the memo of the hash cache through a shared
  reference; those entries change no result and are dropped here.
\<close>

section \<open>Data\<close>

type_synonym crypto_hash = "u8 list"
type_synonym signature = "u8 list"
type_synonym address = "u8 list"

record block_header =
  bh_height :: u64
  bh_last_block_hash :: crypto_hash
  bh_epoch_id :: u64
  bh_last_final_block_hash :: crypto_hash
  bh_approvals :: "signature list"

record block_state =
  bs_root_hash :: element
  bs_txns :: "utxo_proof list"

record block_content =
  bc_header :: block_header
  bc_state :: block_state

record block =
  bk_content :: block_content
  bk_signature :: signature

datatype block_format = BlockV1 block | BlockV2 block "u64 option"

record txn_metadata =
  tm_block_height :: u64
  tm_block_time :: "u64 option"
  tm_block_hash :: crypto_hash
  tm_block_txn_index :: "32 word"

datatype txn_format = TxnV1 utxo_proof txn_metadata

record node_env =
  ne_poseidon :: "base list \<Rightarrow> base"
  ne_keccak :: "u8 list \<Rightarrow> u8 list"
  ne_borsh_header :: "block_header \<Rightarrow> u8 list"
  ne_verify_proof :: "utxo_proof \<Rightarrow> bool"
  ne_compact_ok :: "u8 list \<Rightarrow> bool"
  ne_recover :: "u8 list \<Rightarrow> u8 list \<Rightarrow> nat \<Rightarrow> address option"
  ne_validators :: "u64 \<Rightarrow> address list"

datatype node_error =
    InvalidProof
  | ConflictingElementsInBlock "element list"
  | TxnOutputCommitmentsExist "element list"
  | TxnInputCommitmentsNotInTree "element list"
  | TxnOutputCommitmentsExistedRecently "element list"
  | MintHashAlreadyExists element
  | TxnDuplicateInputCommitments "element list"
  | TxnDuplicateOutputCommitments "element list"
  | InvalidElementSize element
  | ElementNotFound element
  | InvalidSignature
  | InvalidTransaction element
  | InvalidBlockRoot element element
  | BlockStoreError store_error
  | SmirkError storage_error
  | SmirkCollision collision_error
  | NoteAlreadySpent element element
  | LeafAlreadyInsertedInTheSameBlock element element element
  | MintIsNotInTheContract element
  | MintIsAlreadySpent "element list"
  | MintInContractIsDifferent element element element element
  | TxnCommitmentAlreadyPending "element list"
  | FailedToGetEthBlockNumber
  | ContractsError
  | DoomslugError
  | IoError

section \<open>Hashes and signatures\<close>

definition merkle_tree_depth :: nat where
  "merkle_tree_depth = 161"

definition tree_hash :: "node_env \<Rightarrow> element \<Rightarrow> element \<Rightarrow> element" where
  "tree_hash E = hash2 (ne_poseidon E)"

definition crypto_hash_default :: crypto_hash where
  "crypto_hash_default = replicate 32 0"

definition content_genesis :: block_content where
  "content_genesis = \<lparr>
     bc_header = \<lparr>bh_height = 0, bh_last_block_hash = crypto_hash_default, bh_epoch_id = 0,
                  bh_last_final_block_hash = crypto_hash_default, bh_approvals = []\<rparr>,
     bc_state = \<lparr>bs_root_hash = ZERO, bs_txns = []\<rparr>\<rparr>"

definition block_genesis :: block where
  "block_genesis = \<lparr>bk_content = content_genesis, bk_signature = replicate 65 0\<rparr>"

definition header_hash :: "node_env \<Rightarrow> block_content \<Rightarrow> crypto_hash" where
  "header_hash E c = ne_keccak E (ne_borsh_header E (bc_header c))"

definition content_hash :: "node_env \<Rightarrow> block_content \<Rightarrow> crypto_hash" where
  "content_hash E c =
     ne_keccak E (to_be_bytes (bs_root_hash (bc_state c)) @
                  to_be_bytes (ucast (bh_height (bc_header c))) @
                  header_hash E c)"

definition block_hash :: "node_env \<Rightarrow> block \<Rightarrow> crypto_hash" where
  "block_hash E b = content_hash E (bk_content b)"

abbreviation block_height :: "block \<Rightarrow> u64" where
  "block_height b \<equiv> bh_height (bc_header (bk_content b))"

abbreviation block_root :: "block \<Rightarrow> element" where
  "block_root b \<equiv> bs_root_hash (bc_state (bk_content b))"

abbreviation block_txns :: "block \<Rightarrow> utxo_proof list" where
  "block_txns b \<equiv> bs_txns (bc_state (bk_content b))"

definition NETWORK :: "u8 list" where
  "NETWORK = map (\<lambda>c. of_nat (of_char c)) ''Ciphera''"

definition signed_digest :: "node_env \<Rightarrow> crypto_hash \<Rightarrow> u8 list" where
  "signed_digest E msg = ne_keccak E (u64_to_be_bytes (of_nat (length NETWORK)) @ NETWORK @ msg)"

text \<open>\<open>Signature::verify\<close>: an unknown recovery id is \<open>None\<close>, 64 bytes that are no signature panic.\<close>

definition sig_verify :: "node_env \<Rightarrow> signature \<Rightarrow> crypto_hash \<Rightarrow> (address option, node_error) outcome" where
  "sig_verify E sig msg =
     (if length sig < 65 then Panic
      else let recovery_id = unat (sig ! 64)
           in if 3 < recovery_id then Ok None
              else if \<not> ne_compact_ok E (take 64 sig) then Panic
              else Ok (ne_recover E (signed_digest E msg) (take 64 sig) recovery_id))"

section \<open>Stored formats\<close>

fun into_block :: "block_format \<Rightarrow> block" where
  "into_block (BlockV1 b) = b"
| "into_block (BlockV2 b _) = b"

fun format_metadata :: "block_format \<Rightarrow> u64 option" where
  "format_metadata (BlockV1 _) = None"
| "format_metadata (BlockV2 _ m) = m"

fun format_version :: "block_format \<Rightarrow> nat" where
  "format_version (BlockV1 _) = 1"
| "format_version (BlockV2 _ _) = 2"

fun upgrade_once :: "block_format \<Rightarrow> (block_format, store_error) outcome" where
  "upgrade_once (BlockV1 b) = Ok (BlockV2 b None)"
| "upgrade_once (BlockV2 _ _) = Err WireMessage"

definition txns_of_block :: "node_env \<Rightarrow> block \<Rightarrow> txn_format list" where
  "txns_of_block E b =
     map (\<lambda>(i, t). TxnV1 t \<lparr>tm_block_height = block_height b, tm_block_time = None,
                            tm_block_hash = block_hash E b, tm_block_txn_index = of_nat i\<rparr>)
       (enumerate 0 (block_txns b))"

fun set_block_time :: "u64 option \<Rightarrow> txn_format \<Rightarrow> txn_format" where
  "set_block_time time (TxnV1 t m) = TxnV1 t (m\<lparr>tm_block_time := time\<rparr>)"

fun format_txns :: "node_env \<Rightarrow> block_format \<Rightarrow> txn_format list" where
  "format_txns E (BlockV1 b) = txns_of_block E b"
| "format_txns E (BlockV2 b time) = map (set_block_time time) (txns_of_block E b)"

definition pair_list :: "'a \<times> 'a \<Rightarrow> 'a list" where
  "pair_list p = [fst p, snd p]"

definition txn_inputs :: "utxo_proof \<Rightarrow> element list" where
  "txn_inputs t = pair_list (input_commitments (up_public_inputs t))"

definition txn_outputs :: "utxo_proof \<Rightarrow> element list" where
  "txn_outputs t = pair_list (output_commitments (up_public_inputs t))"

definition non_zero :: "element list \<Rightarrow> element list" where
  "non_zero es = filter (\<lambda>e. e \<noteq> ZERO) es"

fun format_proof :: "txn_format \<Rightarrow> utxo_proof" where
  "format_proof (TxnV1 t _) = t"

definition txn_mint_hash :: "utxo_proof \<Rightarrow> element option" where
  "txn_mint_hash t = (case kind_messages (up_public_inputs t) of
     MintMessages m \<Rightarrow> Some (mm_mint_hash m) | BurnMessages _ \<Rightarrow> None | NoMessages \<Rightarrow> None)"

definition node_trait :: "node_env \<Rightarrow> (block_format, txn_format) block_trait" where
  "node_trait E = \<lparr>
     bl_height = (\<lambda>f. block_height (into_block f)),
     bl_hash = (\<lambda>f. block_hash E (into_block f)),
     bl_txns = format_txns E,
     tx_hash = (\<lambda>t. to_be_bytes (proof_hash (ne_poseidon E) (format_proof t))),
     tx_inputs = (\<lambda>t. non_zero (txn_inputs (format_proof t))),
     tx_outputs = (\<lambda>t. non_zero (txn_outputs (format_proof t))),
     tx_mint_hash = (\<lambda>t. txn_mint_hash (format_proof t))\<rparr>"

type_synonym node_db = "(block_format, txn_format) store_db"
type_synonym notes_tree = "u64 persistent"

section \<open>Validation of a transaction\<close>

definition check_output ::
    "node_db \<Rightarrow> notes_tree \<Rightarrow> unit \<Rightarrow> element \<Rightarrow> (unit, node_error) outcome" where
  "check_output db p u leaf =
     (if MODULUS \<le> leaf then Err (InvalidElementSize leaf)
      else if leaf = ZERO then Ok ()
      else if contains_element (pe_tree p) leaf then Err (TxnOutputCommitmentsExist [leaf])
      else bind_o (map_err BlockStoreError (get_element_history db leaf)) (\<lambda>(_, output_history).
        if output_history \<noteq> None then Err (TxnOutputCommitmentsExistedRecently [leaf]) else Ok ()))"

definition check_input :: "notes_tree \<Rightarrow> unit \<Rightarrow> element \<Rightarrow> (unit, node_error) outcome" where
  "check_input p u leaf =
     (if MODULUS \<le> leaf then Err (InvalidElementSize leaf)
      else if leaf \<noteq> ZERO \<and> \<not> contains_element (pe_tree p) leaf then Err (TxnInputCommitmentsNotInTree [leaf])
      else Ok ())"

definition validate_txn ::
    "node_env \<Rightarrow> node_db \<Rightarrow> notes_tree \<Rightarrow> utxo_proof \<Rightarrow> (unit, node_error) outcome" where
  "validate_txn E db p t =
     (if \<not> ne_verify_proof E t then Err InvalidProof
      else let (input_0, input_1) = input_commitments (up_public_inputs t);
               (output_0, output_1) = output_commitments (up_public_inputs t)
      in if input_0 \<noteq> ZERO \<and> input_0 = input_1 then Err (TxnDuplicateInputCommitments [input_0])
      else if output_0 \<noteq> ZERO \<and> output_0 = output_1 then Err (TxnDuplicateOutputCommitments [output_0])
      else bind_o (fold_o (check_output db p) () (txn_outputs t)) (\<lambda>_.
           bind_o (fold_o (check_input p) () (txn_inputs t)) (\<lambda>_.
           case txn_mint_hash t of
             None \<Rightarrow> Ok ()
           | Some m \<Rightarrow> bind_o (map_err BlockStoreError (get_mint_hash db m)) (\<lambda>mint_hash_in_db.
               if mint_hash_in_db \<noteq> None then Err (MintHashAlreadyExists m) else Ok ()))))"

section \<open>Validation of a block\<close>

text \<open>
  The two hash maps of \<open>BlockContent::validate\<close>, from the leaves seen so far to the transaction
  that has them.
\<close>

type_synonym leaf_maps = "(element \<times> element) list \<times> (element \<times> element) list"

definition leaf_seen :: "leaf_maps \<Rightarrow> element \<Rightarrow> bool" where
  "leaf_seen ms leaf \<longleftrightarrow> map_of (fst ms) leaf \<noteq> None \<or> map_of (snd ms) leaf \<noteq> None"

definition see_output :: "element \<Rightarrow> leaf_maps \<Rightarrow> element \<Rightarrow> (leaf_maps, node_error) outcome" where
  "see_output txn_hash ms leaf =
     (if leaf = ZERO then Ok ms
      else if leaf_seen ms leaf then Err (ConflictingElementsInBlock [leaf])
      else Ok (AList.update leaf txn_hash (fst ms), snd ms))"

definition see_input :: "element \<Rightarrow> leaf_maps \<Rightarrow> element \<Rightarrow> (leaf_maps, node_error) outcome" where
  "see_input txn_hash ms leaf =
     (if leaf = ZERO then Ok ms
      else if leaf_seen ms leaf then Err (ConflictingElementsInBlock [leaf])
      else Ok (fst ms, AList.update leaf txn_hash (snd ms)))"

definition see_txn ::
    "node_env \<Rightarrow> node_db \<Rightarrow> notes_tree \<Rightarrow> leaf_maps \<Rightarrow> utxo_proof \<Rightarrow> (leaf_maps, node_error) outcome" where
  "see_txn E db p ms t =
     (let h = proof_hash (ne_poseidon E) t
      in bind_o (fold_o (see_output h) ms (txn_outputs t)) (\<lambda>ms.
         bind_o (fold_o (see_input h) ms (txn_inputs t)) (\<lambda>ms.
         bind_o (validate_txn E db p t) (\<lambda>_. Ok ms))))"

definition new_root_hash ::
    "node_env \<Rightarrow> notes_tree \<Rightarrow> element list \<Rightarrow> element list \<Rightarrow> (element, node_error) outcome" where
  "new_root_hash E p ins rem =
     (if ins = [] \<and> rem = [] then unwrap (root_hash (tree_hash E) (pe_tree p))
      else bind_o (unwrap (root_hash_with merkle_tree_depth (tree_hash E) (simple_hash (tree_hash E)) (pe_tree p) ins rem))
             (\<lambda>(r, _). Ok r))"

definition content_validate ::
    "node_env \<Rightarrow> node_db \<Rightarrow> notes_tree \<Rightarrow> block_content \<Rightarrow> (unit, node_error) outcome" where
  "content_validate E db p c =
     bind_o (fold_o (see_txn E db p) ([], []) (bs_txns (bc_state c))) (\<lambda>(insert_txn_leaves, remove_txn_leaves).
     bind_o (new_root_hash E p (map fst insert_txn_leaves) (map fst remove_txn_leaves)) (\<lambda>r.
     if r \<noteq> bs_root_hash (bc_state c) then Err (InvalidBlockRoot r (bs_root_hash (bc_state c))) else Ok ()))"

definition get_leader_for_block_height :: "node_env \<Rightarrow> u64 \<Rightarrow> (address, node_error) outcome" where
  "get_leader_for_block_height E height =
     (let validators = ne_validators E height
      in if validators = [] then Panic else Ok (validators ! (unat height mod length validators)))"

definition validate_block ::
    "node_env \<Rightarrow> u64 list \<Rightarrow> node_db \<Rightarrow> notes_tree \<Rightarrow> block \<Rightarrow> (unit, node_error) outcome" where
  "validate_block E bad_blocks db p b =
     (if block_height b \<in> set bad_blocks then Ok ()
      else bind_o (get_leader_for_block_height E (block_height b)) (\<lambda>validator.
           bind_o (sig_verify E (bk_signature b) (block_hash E b)) (\<lambda>recovered.
           bind_o (ok_or InvalidSignature recovered) (\<lambda>signed_by.
           if signed_by \<noteq> validator then Err InvalidSignature
           else content_validate E db p (bk_content b)))))"

definition block_outputs :: "block_state \<Rightarrow> element list" where
  "block_outputs s = non_zero (concat (map txn_outputs (bs_txns s)))"

definition block_inputs :: "block_state \<Rightarrow> element list" where
  "block_inputs s = non_zero (concat (map txn_inputs (bs_txns s)))"

definition apply_block_to_tree ::
    "bool \<Rightarrow> bool \<Rightarrow> node_env \<Rightarrow> notes_tree \<Rightarrow> block_state \<Rightarrow> u64 \<Rightarrow> notes_tree \<times> (unit, node_error) outcome" where
  "apply_block_to_tree write_ok tn E p s current_height =
     (case from_entries merkle_tree_depth (map (\<lambda>e. (e, current_height)) (block_outputs s)) (block_inputs s) of
        Ok b \<Rightarrow> (case persistent_insert_batch write_ok tn merkle_tree_depth (tree_hash E) p b of
                   (p', r) \<Rightarrow> (p', map_err SmirkError r))
      | Err e \<Rightarrow> (p, Err (SmirkCollision e))
      | Panic \<Rightarrow> (p, Panic))"

end
