(* ===== verification/Node_Block_Props.thy ===== *)
theory Node_Block_Props
  imports Node_Block
begin

text \<open>
  What a validated block is, and what applying it to the tree does: validation accepts exactly the
  blocks whose commitments are pairwise different, whose transactions are valid and whose root is the
  root of the tree after the block; applying such a block succeeds and gives that root.
\<close>

section \<open>Valid transactions\<close>

lemma fold_unit_Ok:
  "fold_o f () xs = Ok u \<longleftrightarrow> (\<forall>x \<in> set xs. f () x = Ok ())"
  by (induction xs) (auto simp: bind_o_Ok_iff)

lemma map_err_Ok_iff [simp]: "map_err g m = Ok x \<longleftrightarrow> m = Ok x"
  by (cases m) auto

lemma check_output_Ok:
  "check_output db p u leaf = Ok v \<longleftrightarrow> leaf < MODULUS \<and>
     (leaf = ZERO \<or> \<not> contains_element (pe_tree p) leaf \<and> (\<exists>i. get_element_history db leaf = Ok (i, None)))"
  by (auto simp: check_output_def bind_o_Ok_iff not_le split: if_splits)

lemma check_input_Ok:
  "check_input p u leaf = Ok v \<longleftrightarrow> leaf < MODULUS \<and> (leaf = ZERO \<or> contains_element (pe_tree p) leaf)"
  by (auto simp: check_input_def not_le)

text \<open>The conditions under which a transaction is accepted.\<close>

definition txn_valid :: "node_env \<Rightarrow> node_db \<Rightarrow> notes_tree \<Rightarrow> utxo_proof \<Rightarrow> bool" where
  "txn_valid E db p t \<longleftrightarrow> ne_verify_proof E t \<and>
     distinct (non_zero (txn_inputs t)) \<and> distinct (non_zero (txn_outputs t)) \<and>
     (\<forall>leaf \<in> set (txn_inputs t) \<union> set (txn_outputs t). leaf < MODULUS) \<and>
     (\<forall>leaf \<in> set (non_zero (txn_outputs t)). \<not> contains_element (pe_tree p) leaf \<and>
        (\<exists>i. get_element_history db leaf = Ok (i, None))) \<and>
     (\<forall>leaf \<in> set (non_zero (txn_inputs t)). contains_element (pe_tree p) leaf) \<and>
     (\<forall>m. txn_mint_hash t = Some m \<longrightarrow> get_mint_hash db m = Ok None)"

lemma validate_txn_Ok: "validate_txn E db p t = Ok u \<longleftrightarrow> txn_valid E db p t"
proof -
  obtain i0 i1 o0 o1 where io: "input_commitments (up_public_inputs t) = (i0, i1)"
    "output_commitments (up_public_inputs t) = (o0, o1)" by (meson surj_pair)
  have dist: "distinct (non_zero [a, b]) \<longleftrightarrow> \<not> (a \<noteq> ZERO \<and> a = b)" for a b
    by (auto simp: non_zero_def)
  have outs: "fold_o (check_output db p) () (txn_outputs t) = Ok () \<longleftrightarrow>
      (\<forall>leaf \<in> set (txn_outputs t). leaf < MODULUS) \<and>
      (\<forall>leaf \<in> set (non_zero (txn_outputs t)). \<not> contains_element (pe_tree p) leaf \<and>
        (\<exists>i. get_element_history db leaf = Ok (i, None)))"
    unfolding fold_unit_Ok check_output_Ok by (auto simp: non_zero_def)
  have ins: "fold_o (check_input p) () (txn_inputs t) = Ok () \<longleftrightarrow>
      (\<forall>leaf \<in> set (txn_inputs t). leaf < MODULUS) \<and>
      (\<forall>leaf \<in> set (non_zero (txn_inputs t)). contains_element (pe_tree p) leaf)"
    unfolding fold_unit_Ok check_input_Ok by (auto simp: non_zero_def)
  have mint: "(case txn_mint_hash t of None \<Rightarrow> Ok ()
      | Some m \<Rightarrow> bind_o (map_err BlockStoreError (get_mint_hash db m)) (\<lambda>x.
          if x \<noteq> None then Err (MintHashAlreadyExists m) else Ok ())) = Ok u
    \<longleftrightarrow> (\<forall>m. txn_mint_hash t = Some m \<longrightarrow> get_mint_hash db m = Ok None)"
    by (auto simp: bind_o_Ok_iff split: option.splits)
  have io': "txn_inputs t = [i0, i1]" "txn_outputs t = [o0, o1]"
    by (simp_all add: txn_inputs_def txn_outputs_def pair_list_def io)
  show ?thesis
    unfolding validate_txn_def txn_valid_def Let_def io prod.case
    using outs ins mint dist [of i0 i1] dist [of o0 o1]
    by (auto simp: bind_o_Ok_iff io' ball_Un simp del: fold_o.simps)
qed

section \<open>Valid blocks\<close>

lemma alist_update_fresh: "map_of m k = None \<Longrightarrow> AList.update k v m = m @ [(k, v)]"
  by (induction m) (auto split: if_splits)

text \<open>The two loops over the leaves of a transaction, by the side of the pair they extend.\<close>

lemma see_outputs_Ok:
  "fold_o (see_output h) ms es = Ok ms' \<longleftrightarrow>
     distinct (non_zero es) \<and> set (non_zero es) \<inter> (fst ` set (fst ms) \<union> fst ` set (snd ms)) = {} \<and>
     ms' = (fst ms @ map (\<lambda>e. (e, h)) (non_zero es), snd ms)"
proof (induction es arbitrary: ms)
  case (Cons e es)
  show ?case
  proof (cases "e = ZERO \<or> leaf_seen ms e")
    case False
    then have u: "see_output h ms e = Ok (fst ms @ [(e, h)], snd ms)" and
      f: "e \<notin> fst ` set (fst ms)" "e \<notin> fst ` set (snd ms)"
      by (simp_all add: see_output_def leaf_seen_def alist_update_fresh map_of_eq_None_iff)
    show ?thesis
      using False f by (simp add: u Cons.IH non_zero_def) (auto simp: non_zero_def)
  next
    case True
    then show ?thesis
      using Cons.IH [of ms]
      by (auto simp: see_output_def non_zero_def leaf_seen_def map_of_eq_None_iff)
  qed
qed (auto simp: non_zero_def)

lemma see_inputs_Ok:
  "fold_o (see_input h) ms es = Ok ms' \<longleftrightarrow>
     distinct (non_zero es) \<and> set (non_zero es) \<inter> (fst ` set (fst ms) \<union> fst ` set (snd ms)) = {} \<and>
     ms' = (fst ms, snd ms @ map (\<lambda>e. (e, h)) (non_zero es))"
proof (induction es arbitrary: ms)
  case (Cons e es)
  show ?case
  proof (cases "e = ZERO \<or> leaf_seen ms e")
    case False
    then have u: "see_input h ms e = Ok (fst ms, snd ms @ [(e, h)])" and
      f: "e \<notin> fst ` set (fst ms)" "e \<notin> fst ` set (snd ms)"
      by (simp_all add: see_input_def leaf_seen_def alist_update_fresh map_of_eq_None_iff)
    show ?thesis
      using False f by (simp add: u Cons.IH non_zero_def) (auto simp: non_zero_def)
  next
    case True
    then show ?thesis
      using Cons.IH [of ms]
      by (auto simp: see_input_def non_zero_def leaf_seen_def map_of_eq_None_iff)
  qed
qed (auto simp: non_zero_def)

definition maps_leaves :: "leaf_maps \<Rightarrow> element list" where
  "maps_leaves ms = map fst (fst ms) @ map fst (snd ms)"

definition outputs_of :: "utxo_proof list \<Rightarrow> element list" where
  "outputs_of ts = non_zero (concat (map txn_outputs ts))"

definition inputs_of :: "utxo_proof list \<Rightarrow> element list" where
  "inputs_of ts = non_zero (concat (map txn_inputs ts))"

lemma leaves_Cons [simp]:
  "outputs_of (t # ts) = non_zero (txn_outputs t) @ outputs_of ts"
  "inputs_of (t # ts) = non_zero (txn_inputs t) @ inputs_of ts"
  "outputs_of [] = []" "inputs_of [] = []"
  by (simp_all add: outputs_of_def inputs_of_def non_zero_def)

lemma see_txn_Ok:
  "see_txn E db p ms t = Ok ms' \<longleftrightarrow> txn_valid E db p t \<and>
     distinct (non_zero (txn_outputs t) @ non_zero (txn_inputs t)) \<and>
     set (non_zero (txn_outputs t) @ non_zero (txn_inputs t)) \<inter> set (maps_leaves ms) = {} \<and>
     ms' = (fst ms @ map (\<lambda>e. (e, proof_hash (ne_poseidon E) t)) (non_zero (txn_outputs t)),
            snd ms @ map (\<lambda>e. (e, proof_hash (ne_poseidon E) t)) (non_zero (txn_inputs t)))"
  unfolding see_txn_def Let_def bind_o_Ok_iff see_outputs_Ok see_inputs_Ok validate_txn_Ok maps_leaves_def
  by (auto simp: image_Un image_image)

lemma see_txns_leaves:
  "fold_o (see_txn E db p) ms ts = Ok ms' \<Longrightarrow>
     map fst (fst ms') = map fst (fst ms) @ outputs_of ts \<and> map fst (snd ms') = map fst (snd ms) @ inputs_of ts"
proof (induction ts arbitrary: ms)
  case (Cons t ts)
  then obtain ms1 where "see_txn E db p ms t = Ok ms1" "fold_o (see_txn E db p) ms1 ts = Ok ms'"
    by (auto simp: bind_o_Ok_iff)
  with Cons.IH [of ms1] show ?case by (simp add: see_txn_Ok comp_def)
qed simp

lemma see_txns_Ok:
  assumes "distinct (maps_leaves ms)"
  shows "(\<exists>ms'. fold_o (see_txn E db p) ms ts = Ok ms') \<longleftrightarrow>
     (\<forall>t \<in> set ts. txn_valid E db p t) \<and> distinct (maps_leaves ms @ outputs_of ts @ inputs_of ts)"
  using assms
proof (induction ts arbitrary: ms)
  case (Cons t ts)
  let ?no = "non_zero (txn_outputs t)" and ?ni = "non_zero (txn_inputs t)"
  let ?ms = "(fst ms @ map (\<lambda>e. (e, proof_hash (ne_poseidon E) t)) ?no,
     snd ms @ map (\<lambda>e. (e, proof_hash (ne_poseidon E) t)) ?ni)"
  let ?step = "txn_valid E db p t \<and> distinct (?no @ ?ni) \<and> set (?no @ ?ni) \<inter> set (maps_leaves ms) = {}"
  have ml: "set (maps_leaves ?ms) = set (maps_leaves ms) \<union> set ?no \<union> set ?ni"
    by (auto simp: maps_leaves_def image_Un image_image)
  have d: "distinct (maps_leaves ?ms)" if ?step
    using that Cons.prems by (auto simp: maps_leaves_def comp_def)
  have "(\<exists>ms'. fold_o (see_txn E db p) ms (t # ts) = Ok ms') \<longleftrightarrow>
      ?step \<and> (\<exists>ms'. fold_o (see_txn E db p) ?ms ts = Ok ms')"
    unfolding fold_o.simps bind_o_Ok_iff see_txn_Ok by blast
  also have "\<dots> \<longleftrightarrow> ?step \<and> (\<forall>t \<in> set ts. txn_valid E db p t) \<and>
      distinct (maps_leaves ?ms @ outputs_of ts @ inputs_of ts)"
    using Cons.IH [OF d] by blast
  also have "\<dots> \<longleftrightarrow> ?step \<and> (\<forall>t \<in> set ts. txn_valid E db p t) \<and>
      distinct (outputs_of ts @ inputs_of ts) \<and>
      (set (maps_leaves ms) \<union> set ?no \<union> set ?ni) \<inter> set (outputs_of ts @ inputs_of ts) = {}"
    using d ml by (auto simp only: distinct_append)
  also have "\<dots> \<longleftrightarrow> (\<forall>t \<in> set (t # ts). txn_valid E db p t) \<and>
      distinct (maps_leaves ms @ outputs_of (t # ts) @ inputs_of (t # ts))"
    using Cons.prems by auto
  finally show ?case .
qed simp

lemma block_leaves [simp]:
  "block_outputs s = outputs_of (bs_txns s)" "block_inputs s = inputs_of (bs_txns s)"
  by (simp_all add: block_outputs_def block_inputs_def outputs_of_def inputs_of_def)

lemma content_validate_Ok:
  "content_validate E db p c = Ok () \<longleftrightarrow>
     (\<forall>t \<in> set (bs_txns (bc_state c)). txn_valid E db p t) \<and>
     distinct (block_outputs (bc_state c) @ block_inputs (bc_state c)) \<and>
     new_root_hash E p (block_outputs (bc_state c)) (block_inputs (bc_state c)) = Ok (bs_root_hash (bc_state c))"
proof -
  have "content_validate E db p c = Ok () \<longleftrightarrow>
      (\<exists>ms'. fold_o (see_txn E db p) ([], []) (bs_txns (bc_state c)) = Ok ms' \<and>
         new_root_hash E p (map fst (fst ms')) (map fst (snd ms')) = Ok (bs_root_hash (bc_state c)))"
    by (auto simp: content_validate_def bind_o_Ok_iff split: prod.splits if_splits)
  also have "\<dots> \<longleftrightarrow> (\<exists>ms'. fold_o (see_txn E db p) ([], []) (bs_txns (bc_state c)) = Ok ms') \<and>
      new_root_hash E p (block_outputs (bc_state c)) (block_inputs (bc_state c)) = Ok (bs_root_hash (bc_state c))"
    using see_txns_leaves [of E db p "([], [])" "bs_txns (bc_state c)"] by fastforce
  finally show ?thesis
    using see_txns_Ok [of "([], [])" E db p "bs_txns (bc_state c)"] by (simp add: maps_leaves_def)
qed

section \<open>Applying a block\<close>

lemma fold_batch_remove_ok:
  assumes "batch_inv d b" and "distinct (map (\<lambda>e. lsb e (d - 1)) (batch_elements b @ rs))"
  shows "\<exists>b'. fold_o (batch_remove d) b rs = Ok b'"
  using assms
proof (induction rs arbitrary: b)
  case (Cons e rs)
  have "lsb e (d - 1) \<notin> set (b_lsbs b)"
    using Cons.prems by (auto simp: batch_inv_def)
  then obtain b' where b': "batch_remove d b e = Ok b'"
    by (simp add: batch_remove_def Let_def)
  then have "batch_elements b' = batch_elements b @ [e]"
    by (auto simp: batch_remove_def Let_def batch_elements_def insert_elements_def remove_elements_def
        split: if_splits option.splits)
  with Cons.IH [of b'] batch_inv_remove [OF Cons.prems(1) b'] Cons.prems(2) b' show ?case
    by simp
qed simp

lemma from_entries_ok:
  fixes es :: "(element \<times> 'v) list"
  assumes "distinct (map (\<lambda>e. lsb e (d - 1)) (map fst es @ rs))"
  shows "\<exists>b. from_entries d es rs = Ok b \<and> batch_inv d b \<and> b_entries b = es \<and> b_remove_entries b = rs"
proof -
  have new: "batch_elements (batch_new :: 'v batch) = []" "b_remove_entries (batch_new :: 'v batch) = []"
    by (simp_all add: batch_new_def batch_elements_def insert_elements_def remove_elements_def)
  obtain b1 where b1: "fold_o (\<lambda>b ev. batch_insert d b (fst ev) (snd ev)) batch_new es = Ok b1"
    using fold_batch_insert_ok [OF batch_inv_new, of d es] assms new by auto
  have inv: "batch_inv d b1"
    by (rule fold_o_invariant [where P = "batch_inv d", OF b1 batch_inv_new]) (rule batch_inv_insert)
  have "batch_elements b1 = map fst es"
    using fold_batch_insert_entries [OF b1]
    by (simp add: batch_elements_def insert_elements_def remove_elements_def batch_new_def)
  then obtain b where "from_entries d es rs = Ok b"
    using fold_batch_remove_ok [OF inv, of rs] assms b1 by (auto simp: from_entries_def)
  then show ?thesis using from_entries_inv from_entries_contents by blast
qed

lemma contains_element_iff: "contains_element t e \<longleftrightarrow> e \<in> set (tree_elements t)"
  by (simp add: contains_element_def bt_contains_key_def tree_elements_def del: bt_contains_key_iff)

lemma tree_elements_dom: "set (tree_elements t) = dom (tree_get t)"
  by (simp add: tree_elements_def tree_get_def [abs_def] bt_keys_dom)

text \<open>
  What applying a block needs: commitments pairwise different and not null, outputs that are new,
  inputs that are present, and different slots (the low 160 bits) for the commitments in the tree
  and the new ones, which is the collision resistance of the commitments.
\<close>

definition state_fits :: "notes_tree \<Rightarrow> block_state \<Rightarrow> bool" where
  "state_fits p s \<longleftrightarrow> distinct (block_outputs s @ block_inputs s) \<and>
     set (block_outputs s) \<inter> set (tree_elements (pe_tree p)) = {} \<and>
     set (block_inputs s) \<subseteq> set (tree_elements (pe_tree p)) \<and>
     slots_distinct merkle_tree_depth (set (tree_elements (pe_tree p)) \<union> set (block_outputs s))"

lemma zero_not_leaf: "ZERO \<notin> set (outputs_of ts)" "ZERO \<notin> set (inputs_of ts)"
  by (simp_all add: outputs_of_def inputs_of_def non_zero_def)

lemma valid_txns_fit:
  assumes "\<forall>t \<in> set (bs_txns s). txn_valid E db p t" and "distinct (block_outputs s @ block_inputs s)"
    and "slots_distinct merkle_tree_depth (set (tree_elements (pe_tree p)) \<union> set (block_outputs s))"
  shows "state_fits p s"
proof -
  have "e \<notin> set (tree_elements (pe_tree p))" if "e \<in> set (outputs_of (bs_txns s))" for e
    using assms(1) that by (auto simp: outputs_of_def non_zero_def txn_valid_def contains_element_iff)
  moreover have "e \<in> set (tree_elements (pe_tree p))" if "e \<in> set (inputs_of (bs_txns s))" for e
    using assms(1) that by (auto simp: inputs_of_def non_zero_def txn_valid_def contains_element_iff)
  ultimately show ?thesis using assms(2,3) unfolding state_fits_def block_leaves by blast
qed

lemma content_validate_fits:
  assumes "content_validate E db p c = Ok ()"
    and "slots_distinct merkle_tree_depth (set (tree_elements (pe_tree p)) \<union> set (block_outputs (bc_state c)))"
  shows "state_fits p (bc_state c)"
  using valid_txns_fit [OF _ _ assms(2), of E db] assms(1) unfolding content_validate_Ok by blast

lemma state_fits_batch:
  assumes "state_fits p s"
  shows "\<exists>b. from_entries merkle_tree_depth (map (\<lambda>e. (e, h)) (block_outputs s)) (block_inputs s) = Ok b \<and>
    batch_inv merkle_tree_depth b \<and> batch_fits merkle_tree_depth (pe_tree p) b \<and>
    insert_elements b = block_outputs s \<and> remove_elements b = block_inputs s \<and>
    b_entries b = map (\<lambda>e. (e, h)) (block_outputs s)"
proof -
  let ?d = merkle_tree_depth and ?T = "set (tree_elements (pe_tree p))"
  have d: "distinct (block_outputs s @ block_inputs s)" and new: "set (block_outputs s) \<inter> ?T = {}"
    and old: "set (block_inputs s) \<subseteq> ?T" and slots: "slots_distinct ?d (?T \<union> set (block_outputs s))"
    using assms by (simp_all add: state_fits_def)
  have inj: "inj_on (\<lambda>e. lsb e (?d - 1)) (set (block_outputs s @ block_inputs s))"
    using slots old by (auto simp: slots_distinct_def intro: inj_on_subset)
  have dl: "distinct (map (\<lambda>e. lsb e (?d - 1)) (map fst (map (\<lambda>e. (e, h)) (block_outputs s)) @ block_inputs s))"
    using d inj by (simp only: map_map comp_def fst_conv map_ident distinct_map)
  obtain b where b: "from_entries ?d (map (\<lambda>e. (e, h)) (block_outputs s)) (block_inputs s) = Ok b"
    "batch_inv ?d b" "b_entries b = map (\<lambda>e. (e, h)) (block_outputs s)" "b_remove_entries b = block_inputs s"
    using from_entries_ok [OF dl] by blast
  then have el: "insert_elements b = block_outputs s" "remove_elements b = block_inputs s"
    by (simp_all add: insert_elements_def remove_elements_def comp_def)
  have "\<not> collides_with ?d e' e" if "e \<in> set (block_outputs s)" "e' \<in> ?T" for e e'
    using slots new that unfolding slots_distinct_def inj_on_def collides_with_def by blast
  then have "batch_fits ?d (pe_tree p) b"
    using old el zero_not_leaf by (auto simp: batch_fits_def batch_elements_def NULL_HASH_def)
  with b el show ?thesis by blast
qed

lemma apply_block_ok:
  assumes inv: "persistent_inv merkle_tree_depth (tree_hash E) p" and fits: "state_fits p s"
    and root: "new_root_hash E p (block_outputs s) (block_inputs s) = Ok (bs_root_hash s)"
  shows "\<exists>p'. apply_block_to_tree True tn E p s h = (p', Ok ()) \<and>
     persistent_inv merkle_tree_depth (tree_hash E) p' \<and>
     root_hash (tree_hash E) (pe_tree p') = Ok (bs_root_hash s) \<and>
     set (tree_elements (pe_tree p')) = set (tree_elements (pe_tree p)) \<union> set (block_outputs s) - set (block_inputs s)"
proof -
  obtain b where b: "from_entries merkle_tree_depth (map (\<lambda>e. (e, h)) (block_outputs s)) (block_inputs s) = Ok b"
    "batch_inv merkle_tree_depth b" "batch_fits merkle_tree_depth (pe_tree p) b"
    "insert_elements b = block_outputs s" "remove_elements b = block_inputs s"
    "b_entries b = map (\<lambda>e. (e, h)) (block_outputs s)"
    using state_fits_batch [OF fits, of h] by blast
  obtain p' r c where p': "persistent_insert_batch True tn merkle_tree_depth (tree_hash E) p b = (p', Ok ())"
    "persistent_inv merkle_tree_depth (tree_hash E) p'"
    "tree_get (pe_tree p') = (tree_get (pe_tree p) ++ map_of (b_entries b)) |` (- set (b_remove_entries b))"
    "root_hash (tree_hash E) (pe_tree p') = Ok r"
    "root_hash_with merkle_tree_depth (tree_hash E) (simple_hash (tree_hash E)) (pe_tree p)
       (insert_elements b) (remove_elements b) = Ok (r, c)"
    using persistent_insert_batch_ok [OF inv b(2,3), of tn] by blast
  have els: "set (tree_elements (pe_tree p')) = set (tree_elements (pe_tree p)) \<union> set (block_outputs s) - set (block_inputs s)"
    using b(5,6) unfolding tree_elements_dom p'(3)
    by (simp add: dom_restrict remove_elements_def dom_map_of_conv_image_fst image_image) blast
  have r: "r = bs_root_hash s"
  proof (cases "block_outputs s = [] \<and> block_inputs s = []")
    case True
    then have "batch_is_empty b"
      using b(4,5) by (simp add: batch_is_empty_def insert_elements_def remove_elements_def)
    then have "p' = p" using p'(1) by (simp add: persistent_insert_batch_def)
    then show ?thesis using root True p'(4) by (simp add: new_root_hash_def)
  next
    case False
    then show ?thesis using root p'(5) b(4,5) by (auto simp: new_root_hash_def)
  qed
  show ?thesis
    using b(1) p' els r by (simp add: apply_block_to_tree_def)
qed

lemma new_root_hash_ok:
  assumes "persistent_inv merkle_tree_depth (tree_hash E) p" and "state_fits p s"
  shows "\<exists>r. new_root_hash E p (block_outputs s) (block_inputs s) = Ok r"
proof -
  obtain b :: "u64 batch" where b: "batch_inv merkle_tree_depth b" "batch_fits merkle_tree_depth (pe_tree p) b"
    "insert_elements b = block_outputs s" "remove_elements b = block_inputs s"
    using state_fits_batch [OF assms(2), where h = "0 :: u64"] by blast
  obtain r0 where r0: "root_hash (tree_hash E) (pe_tree p) = Ok r0"
    using root_hash_spec [of "tree_hash E" _ merkle_tree_depth "pe_tree p"] assms(1)
    unfolding persistent_inv_def by blast
  obtain r c where "root_hash_with merkle_tree_depth (tree_hash E) (simple_hash (tree_hash E)) (pe_tree p)
      (insert_elements b) (remove_elements b) = Ok (r, c)"
    using persistent_insert_batch_ok [OF assms(1) b(1,2)] by blast
  then have "new_root_hash E p (block_outputs s) (block_inputs s) =
      Ok (if block_outputs s = [] \<and> block_inputs s = [] then r0 else r)"
    by (simp only: new_root_hash_def b(3,4) r0 unwrap.simps bind_o.simps prod.case split: if_split) auto
  then show ?thesis by blast
qed

section \<open>Properties\<close>

text \<open>The notes after a block, and the root of the tree that has exactly these.\<close>

definition notes_after :: "notes_tree \<Rightarrow> block_state \<Rightarrow> element list" where
  "notes_after p s = filter (\<lambda>e. e \<notin> set (block_inputs s)) (tree_elements (pe_tree p) @ block_outputs s)"

lemma new_root_hash_notes:
  assumes "persistent_inv merkle_tree_depth (tree_hash E) p" and "state_fits p s"
  shows "new_root_hash E p (block_outputs s) (block_inputs s) =
    Ok (smt_root (tree_hash E) (slot merkle_tree_depth (notes_after p s)) [] merkle_tree_depth)"
proof -
  obtain r where r: "new_root_hash E p (block_outputs s) (block_inputs s) = Ok r"
    using new_root_hash_ok [OF assms] by blast
  let ?s = "s\<lparr>bs_root_hash := r\<rparr>"
  have "state_fits p ?s" using assms(2) by (simp add: state_fits_def)
  then obtain p' :: notes_tree where p': "persistent_inv merkle_tree_depth (tree_hash E) p'" "root_hash (tree_hash E) (pe_tree p') = Ok r"
    "set (tree_elements (pe_tree p')) = set (tree_elements (pe_tree p)) \<union> set (block_outputs s) - set (block_inputs s)"
    using apply_block_ok [OF assms(1), of ?s True 0] r by auto
  have t: "tree_inv (tree_hash E) (simple_inv (tree_hash E)) merkle_tree_depth (pe_tree p')"
    using p'(1) by (simp add: persistent_inv_def)
  have "slot merkle_tree_depth (tree_elements (pe_tree p')) = slot merkle_tree_depth (notes_after p s)"
  proof (rule ext, rule slot_set_cong)
    show "slots_distinct merkle_tree_depth (set (tree_elements (pe_tree p')))"
      using assms(2) p'(3) by (auto simp: state_fits_def slots_distinct_def intro: inj_on_subset)
    show "set (tree_elements (pe_tree p')) = set (notes_after p s)"
      using p'(3) by (auto simp: notes_after_def)
  qed
  then show ?thesis using root_hash_spec [OF t] p'(2) r by simp
qed

lemma bind_no_panic: "m \<noteq> Panic \<Longrightarrow> (\<And>x. f x \<noteq> Panic) \<Longrightarrow> bind_o m f \<noteq> Panic"
  by (cases m) auto

lemma map_err_no_panic [simp]: "map_err g m = Panic \<longleftrightarrow> m = Panic"
  by (cases m) auto

lemma fold_o_no_panic: "(\<And>s x. f s x \<noteq> Panic) \<Longrightarrow> fold_o f s xs \<noteq> Panic"
proof (induction xs arbitrary: s)
  case (Cons x xs)
  then show ?case by (cases "f s x") auto
qed simp

lemma history_no_panic: "get_element_history db e \<noteq> Panic" "get_mint_hash db e \<noteq> Panic"
proof -
  have k: "get_element_history_with_kind db e k \<noteq> Panic" for k
    by (simp add: get_element_history_with_kind_def split: option.splits store_value.splits)
  show "get_element_history db e \<noteq> Panic"
    unfolding get_element_history_def by (intro bind_no_panic k) simp
  show "get_mint_hash db e \<noteq> Panic"
    by (simp add: get_mint_hash_def split: option.splits store_value.splits)
qed

lemma check_no_panic: "check_output db p u e \<noteq> Panic" "check_input p u e \<noteq> Panic"
proof -
  have "bind_o (map_err BlockStoreError (get_element_history db e)) (\<lambda>(_, h).
      if h \<noteq> None then Err (TxnOutputCommitmentsExistedRecently [e]) else Ok ()) \<noteq> Panic"
    by (rule bind_no_panic) (simp_all add: history_no_panic split: prod.splits)
  then show "check_output db p u e \<noteq> Panic" unfolding check_output_def by (simp only: split: if_split) simp
  show "check_input p u e \<noteq> Panic" by (simp add: check_input_def)
qed

lemma validate_txn_no_panic: "validate_txn E db p t \<noteq> Panic"
proof -
  have "(case txn_mint_hash t of None \<Rightarrow> Ok ()
      | Some m \<Rightarrow> bind_o (map_err BlockStoreError (get_mint_hash db m)) (\<lambda>x.
          if x \<noteq> None then Err (MintHashAlreadyExists m) else Ok ())) \<noteq> (Panic :: (unit, node_error) outcome)"
  proof (cases "txn_mint_hash t")
    case (Some m)
    have "bind_o (map_err BlockStoreError (get_mint_hash db m)) (\<lambda>x.
        if x \<noteq> None then Err (MintHashAlreadyExists m) else Ok ()) \<noteq> Panic"
      by (rule bind_no_panic) (simp_all add: history_no_panic)
    then show ?thesis using Some by simp
  qed simp
  then have "bind_o (fold_o (check_output db p) () (txn_outputs t)) (\<lambda>_.
      bind_o (fold_o (check_input p) () (txn_inputs t)) (\<lambda>_.
      case txn_mint_hash t of None \<Rightarrow> Ok ()
      | Some m \<Rightarrow> bind_o (map_err BlockStoreError (get_mint_hash db m)) (\<lambda>x.
          if x \<noteq> None then Err (MintHashAlreadyExists m) else Ok ()))) \<noteq> Panic"
    by (intro bind_no_panic fold_o_no_panic check_no_panic)
  then show ?thesis unfolding validate_txn_def Let_def by (simp only: split: if_split prod.splits) simp
qed

lemma see_txn_no_panic: "see_txn E db p ms t \<noteq> Panic"
  unfolding see_txn_def Let_def
  by (intro bind_no_panic fold_o_no_panic validate_txn_no_panic) (simp_all add: see_output_def see_input_def)

text \<open>
  C20. On a consistent tree, and with different slots for the commitments in use, validation of a block
  never panics, and accepts exactly the blocks in which no commitment occurs twice, as an input or as an
  output, in any of the transactions, every transaction is valid against the tree and the history
  (proof verified, inputs in the tree, outputs neither in the tree nor ever an output before, mint
  hash unused), and the stated root is the Merkle root of the notes after the block: the
  elements of the tree and the outputs, without the inputs, each in its slot.
\<close>

theorem block_validate_iff:
  assumes "persistent_inv merkle_tree_depth (tree_hash E) p"
    and "slots_distinct merkle_tree_depth (set (tree_elements (pe_tree p)) \<union> set (block_outputs (bc_state c)))"
  shows "content_validate E db p c \<noteq> Panic \<and>
    (content_validate E db p c = Ok () \<longleftrightarrow>
       list_all (txn_valid E db p) (bs_txns (bc_state c)) \<and>
       distinct (block_outputs (bc_state c) @ block_inputs (bc_state c)) \<and>
       bs_root_hash (bc_state c) =
         smt_root (tree_hash E) (slot merkle_tree_depth (notes_after p (bc_state c))) [] merkle_tree_depth)"
proof
  let ?s = "bc_state c"
  let ?seen = "fold_o (see_txn E db p) ([], []) (bs_txns ?s)"
  have root: "new_root_hash E p (block_outputs ?s) (block_inputs ?s) =
      Ok (smt_root (tree_hash E) (slot merkle_tree_depth (notes_after p ?s)) [] merkle_tree_depth)"
    if "\<forall>t \<in> set (bs_txns ?s). txn_valid E db p t" "distinct (block_outputs ?s @ block_inputs ?s)"
    by (rule new_root_hash_notes [OF assms(1) valid_txns_fit [OF that assms(2)]])
  show "content_validate E db p c = Ok () \<longleftrightarrow>
       list_all (txn_valid E db p) (bs_txns ?s) \<and> distinct (block_outputs ?s @ block_inputs ?s) \<and>
       bs_root_hash ?s = smt_root (tree_hash E) (slot merkle_tree_depth (notes_after p ?s)) [] merkle_tree_depth"
    unfolding content_validate_Ok list_all_iff using root by (auto simp del: block_leaves)
  have "?seen \<noteq> Panic" by (rule fold_o_no_panic) (rule see_txn_no_panic)
  moreover have "content_validate E db p c \<noteq> Panic" if "?seen = Ok ms" for ms
  proof -
    have "\<forall>t \<in> set (bs_txns ?s). txn_valid E db p t" "distinct (block_outputs ?s @ block_inputs ?s)"
      using that see_txns_Ok [of "([], [])" E db p "bs_txns ?s"] by (auto simp: maps_leaves_def)
    then show ?thesis
      using root see_txns_leaves [OF that] that
      by (cases ms) (simp add: content_validate_def)
  qed
  ultimately show "content_validate E db p c \<noteq> Panic"
    by (cases ?seen) (simp_all add: content_validate_def)
qed

text \<open>
  C14. A validated block can be applied: the batch of its commitments is accepted, the inputs leave
  the tree and the outputs enter it, the tree and its database stay consistent, and the root of the
  tree becomes the root the block states.
\<close>

theorem validated_block_applies:
  assumes "persistent_inv merkle_tree_depth (tree_hash E) p"
    and "validate_block E bad_blocks db p b = Ok ()" and "block_height b \<notin> set bad_blocks"
    and "slots_distinct merkle_tree_depth (set (tree_elements (pe_tree p)) \<union> set (block_outputs (bc_state (bk_content b))))"
  shows "\<exists>p'. apply_block_to_tree True tn E p (bc_state (bk_content b)) (block_height b) = (p', Ok ()) \<and>
     persistent_inv merkle_tree_depth (tree_hash E) p' \<and>
     root_hash (tree_hash E) (pe_tree p') = Ok (block_root b) \<and>
     set (tree_elements (pe_tree p')) = set (tree_elements (pe_tree p)) \<union>
       set (block_outputs (bc_state (bk_content b))) - set (block_inputs (bc_state (bk_content b)))"
proof -
  have v: "content_validate E db p (bk_content b) = Ok ()"
    using assms(2,3) by (auto simp: validate_block_def bind_o_Ok_iff split: if_splits)
  show ?thesis
    by (rule apply_block_ok [OF assms(1) content_validate_fits [OF v assms(4)]])
       (use v in \<open>simp only: content_validate_Ok\<close>)
qed

definition demo_node_env :: node_env where
  "demo_node_env = \<lparr>ne_poseidon = demo_P, ne_keccak = (\<lambda>_. replicate 32 0), ne_borsh_header = (\<lambda>_. []),
     ne_verify_proof = (\<lambda>_. True), ne_compact_ok = (\<lambda>bs. hd bs = 0), ne_recover = (\<lambda>_ _ _. Some [1]),
     ne_validators = (\<lambda>_. [[1]])\<rparr>"

definition demo_mint_txn :: "element \<Rightarrow> element \<Rightarrow> utxo_proof" where
  "demo_mint_txn a b = \<lparr>up_proof = [], up_public_inputs = \<lparr>input_commitments = (0, 0),
     output_commitments = (a, b), messages = (2, 1, 8, 77, 0)\<rparr>\<rparr>"

definition demo_header :: block_header where
  "demo_header = \<lparr>bh_height = 1, bh_last_block_hash = crypto_hash_default, bh_epoch_id = 0,
     bh_last_final_block_hash = crypto_hash_default, bh_approvals = []\<rparr>"

definition demo_block :: "utxo_proof list \<Rightarrow> element \<Rightarrow> block" where
  "demo_block ts r = \<lparr>bk_content = \<lparr>bc_header = demo_header, bc_state = \<lparr>bs_root_hash = r, bs_txns = ts\<rparr>\<rparr>,
     bk_signature = replicate 65 0\<rparr>"

abbreviation demo_notes :: notes_tree where
  "demo_notes \<equiv> persistent_new merkle_tree_depth"

lemma demo_notes_inv: "persistent_inv merkle_tree_depth (tree_hash E) demo_notes"
  by (rule persistent_new_inv) (simp add: valid_depth_def merkle_tree_depth_def)

lemma demo_notes_empty: "tree_elements (pe_tree demo_notes) = []"
  by (simp add: persistent_new_def new_with_cache_def tree_elements_def)

lemma demo_txn_valid:
  assumes "a \<noteq> b" "a \<noteq> 0" "b \<noteq> 0" "a < MODULUS" "b < MODULUS"
  shows "txn_valid demo_node_env [] demo_notes (demo_mint_txn a b)"
proof -
  have "(0 :: element) < MODULUS" by (simp add: MODULUS_def)
  then show ?thesis
    using assms
    by (simp add: txn_valid_def demo_node_env_def demo_mint_txn_def txn_inputs_def txn_outputs_def pair_list_def
      non_zero_def contains_element_iff demo_notes_empty get_element_history_def get_element_history_with_kind_def
      get_mint_hash_def bt_get_def)
qed

lemma demo_leaves:
  "outputs_of [demo_mint_txn a b] = non_zero [a, b]" "inputs_of [demo_mint_txn a b] = []"
  by (simp_all add: outputs_of_def inputs_of_def demo_mint_txn_def txn_inputs_def txn_outputs_def pair_list_def non_zero_def)

lemma demo_slots: "slots_distinct merkle_tree_depth {3, 5, 6, 9}"
  by (auto simp: slots_distinct_def inj_on_def merkle_tree_depth_def lsb_eq_iff)

lemma demo_block_validates:
  assumes "list_all (txn_valid demo_node_env [] demo_notes) ts" and "distinct (outputs_of ts @ inputs_of ts)"
    and "set (outputs_of ts) \<subseteq> {3, 5, 6, 9}" and "inputs_of ts = []"
  shows "\<exists>r. validate_block demo_node_env [] [] demo_notes (demo_block ts r) = Ok () \<and>
     slots_distinct merkle_tree_depth (set (tree_elements (pe_tree demo_notes)) \<union> set (outputs_of ts))"
proof -
  let ?s = "\<lparr>bs_root_hash = 0, bs_txns = ts\<rparr>"
  have sl: "slots_distinct merkle_tree_depth (set (tree_elements (pe_tree demo_notes)) \<union> set (outputs_of ts))"
    using inj_on_subset [OF demo_slots [unfolded slots_distinct_def] assms(3)]
    by (simp add: demo_notes_empty slots_distinct_def)
  have "state_fits demo_notes ?s"
    using assms sl by (simp add: state_fits_def demo_notes_empty)
  then obtain r where "new_root_hash demo_node_env demo_notes (outputs_of ts) (inputs_of ts) = Ok r"
    using new_root_hash_ok [OF demo_notes_inv, of ?s demo_node_env] by auto
  then have "content_validate demo_node_env [] demo_notes (bk_content (demo_block ts r)) = Ok ()"
    using assms(1,2) by (simp add: content_validate_Ok demo_block_def list_all_iff)
  moreover have "sig_verify demo_node_env (replicate 65 0) h = Ok (Some [1])" for h
    by (simp add: sig_verify_def demo_node_env_def)
  ultimately have "validate_block demo_node_env [] [] demo_notes (demo_block ts r) = Ok ()"
    by (simp add: validate_block_def get_leader_for_block_height_def demo_block_def)
       (simp add: demo_node_env_def)
  with sl show ?thesis by blast
qed

lemma demo_block_sel [simp]:
  "bc_state (bk_content (demo_block ts r)) = \<lparr>bs_root_hash = r, bs_txns = ts\<rparr>"
  "bc_header (bk_content (demo_block ts r)) = demo_header"
  by (simp_all add: demo_block_def)

theorem validated_block_applies_witness:
  "\<exists>r p'. apply_block_to_tree True True demo_node_env demo_notes \<lparr>bs_root_hash = r, bs_txns = [demo_mint_txn 3 5]\<rparr> 1 = (p', Ok ()) \<and>
     root_hash (tree_hash demo_node_env) (pe_tree p') = Ok r \<and> set (tree_elements (pe_tree p')) = {3, 5}"
proof -
  have v: "txn_valid demo_node_env [] demo_notes (demo_mint_txn 3 5)"
    by (rule demo_txn_valid) (simp_all add: MODULUS_def)
  obtain r where r: "validate_block demo_node_env [] [] demo_notes (demo_block [demo_mint_txn 3 5] r) = Ok ()"
    "slots_distinct merkle_tree_depth (set (tree_elements (pe_tree demo_notes)) \<union> set (outputs_of [demo_mint_txn 3 5]))"
    using demo_block_validates [of "[demo_mint_txn 3 5]"] v by (auto simp: demo_leaves non_zero_def simp del: leaves_Cons)
  show ?thesis
    using validated_block_applies [OF demo_notes_inv r(1), of True] r(2)
    by (auto simp: demo_leaves non_zero_def demo_notes_empty demo_header_def simp del: leaves_Cons)
qed

theorem block_validate_iff_witness:
  "content_validate demo_node_env [] demo_notes \<lparr>bc_header = demo_header, bc_state = \<lparr>bs_root_hash =
       smt_root (tree_hash demo_node_env) (slot merkle_tree_depth [3, 5]) [] merkle_tree_depth,
       bs_txns = [demo_mint_txn 3 5]\<rparr>\<rparr> = Ok () \<and>
   content_validate demo_node_env [] demo_notes \<lparr>bc_header = demo_header, bc_state = \<lparr>bs_root_hash =
       smt_root (tree_hash demo_node_env) (slot merkle_tree_depth [3, 5]) [] merkle_tree_depth + 1,
       bs_txns = [demo_mint_txn 3 5]\<rparr>\<rparr> \<noteq> Ok ()"
proof -
  have v: "txn_valid demo_node_env [] demo_notes (demo_mint_txn 3 5)"
    by (rule demo_txn_valid) (simp_all add: MODULUS_def)
  have sl: "slots_distinct merkle_tree_depth {3, 5}"
    using demo_slots by (auto simp: slots_distinct_def intro: inj_on_subset)
  have iff: "content_validate demo_node_env [] demo_notes
      \<lparr>bc_header = demo_header, bc_state = \<lparr>bs_root_hash = r, bs_txns = [demo_mint_txn 3 5]\<rparr>\<rparr> = Ok () \<longleftrightarrow>
      r = smt_root (tree_hash demo_node_env) (slot merkle_tree_depth [3, 5]) [] merkle_tree_depth" for r
    using block_validate_iff [OF demo_notes_inv, where c = "\<lparr>bc_header = demo_header,
      bc_state = \<lparr>bs_root_hash = r, bs_txns = [demo_mint_txn 3 5]\<rparr>\<rparr>" and db = "[]" and E = demo_node_env] v sl
    by (simp add: notes_after_def demo_leaves demo_notes_empty non_zero_def del: leaves_Cons)
  show ?thesis unfolding iff by simp
qed

text \<open>
  C40. Nothing in the validation of a block compares the mint hashes of its transactions with each
  other: two valid mints of the same deposit, with different commitments, form a valid block.
\<close>

theorem double_mint_validates:
  assumes "persistent_inv merkle_tree_depth (tree_hash E) p"
    and "validate_txn E db p t1 = Ok ()" and "validate_txn E db p t2 = Ok ()"
    and "txn_mint_hash t1 = Some m" and "txn_mint_hash t2 = Some m"
    and "distinct (outputs_of [t1, t2] @ inputs_of [t1, t2])"
    and "slots_distinct merkle_tree_depth (set (tree_elements (pe_tree p)) \<union> set (outputs_of [t1, t2]))"
  shows "\<exists>r. content_validate E db p \<lparr>bc_header = h, bc_state = \<lparr>bs_root_hash = r, bs_txns = [t1, t2]\<rparr>\<rparr> = Ok ()"
proof -
  let ?s = "\<lparr>bs_root_hash = 0, bs_txns = [t1, t2]\<rparr>"
  have v: "txn_valid E db p t1" "txn_valid E db p t2" using assms(2,3) by (simp_all add: validate_txn_Ok)
  then have "state_fits p ?s"
    using assms(6,7) unfolding state_fits_def block_leaves
    by (auto simp: txn_valid_def contains_element_iff)
  then obtain r where "new_root_hash E p (outputs_of [t1, t2]) (inputs_of [t1, t2]) = Ok r"
    using new_root_hash_ok [OF assms(1), of ?s] by auto
  then show ?thesis
    using v assms(6) by (intro exI [of _ r]) (simp add: content_validate_Ok)
qed

theorem double_mint_validates_witness:
  "\<exists>r. content_validate demo_node_env [] demo_notes
     \<lparr>bc_header = demo_header, bc_state = \<lparr>bs_root_hash = r, bs_txns = [demo_mint_txn 3 5, demo_mint_txn 6 9]\<rparr>\<rparr> = Ok ()"
proof (rule double_mint_validates [OF demo_notes_inv])
  show "validate_txn demo_node_env [] demo_notes (demo_mint_txn 3 5) = Ok ()"
    "validate_txn demo_node_env [] demo_notes (demo_mint_txn 6 9) = Ok ()"
    unfolding validate_txn_Ok by (rule demo_txn_valid; simp add: MODULUS_def)+
  show "txn_mint_hash (demo_mint_txn 3 5) = Some 77" "txn_mint_hash (demo_mint_txn 6 9) = Some 77"
    by (simp_all add: txn_mint_hash_def kind_messages_def demo_mint_txn_def pi_kind_def last_be_byte kind_from_u8_def)
qed (use demo_slots in \<open>simp_all add: demo_mint_txn_def txn_inputs_def txn_outputs_def pair_list_def non_zero_def
       demo_notes_empty insert_commute\<close>)

text \<open>A received block whose 64 signature bytes are not a signature stops the node.\<close>

lemma malformed_signature_panics:
  assumes "block_height b \<notin> set bad_blocks" and "ne_validators E (block_height b) \<noteq> []"
    and "length (bk_signature b) = 65" and "unat (bk_signature b ! 64) \<le> 3"
    and "\<not> ne_compact_ok E (take 64 (bk_signature b))"
  shows "validate_block E bad_blocks db p b = Panic"
  using assms by (simp add: validate_block_def get_leader_for_block_height_def sig_verify_def Let_def)

text \<open>The hash that is signed depends on the header and the root, not on the transactions.\<close>

lemma block_hash_ignores_txns:
  "block_hash E (b\<lparr>bk_content := (bk_content b)\<lparr>bc_state := (bc_state (bk_content b))\<lparr>bs_txns := ts\<rparr>\<rparr>\<rparr>) = block_hash E b"
  by (simp add: block_hash_def content_hash_def header_hash_def)

end
