(* ===== verification/Node_Cache.thy ===== *)
theory Node_Cache
  imports Node_Block
begin

text \<open>
  The block cache of the node (\<open>node/src/cache.rs\<close>): the last confirmed block and the blocks above
  it that wait to be committed, by hash, with the hash of each height. Block heights are 64-bit
  words; \<open>+\<close> on them panics on overflow. A \<open>BTreeMap\<close> range whose start is above its end panics.
\<close>

section \<open>State and operations\<close>

record block_cache =
  ca_height :: u64
  ca_max_height :: u64
  ca_blocks :: "(crypto_hash \<times> block) list"
  ca_hash_heights :: "(u64, crypto_hash) btree"
  ca_max_cache_size :: nat

definition height_add :: "u64 \<Rightarrow> u64 \<Rightarrow> (u64, node_error) outcome" where
  "height_add a b = (if unat a + unat b < 2 ^ 64 then Ok (a + b) else Panic)"

definition cache_remove :: "block_cache \<Rightarrow> crypto_hash \<Rightarrow> block_cache" where
  "cache_remove c hash =
     (case map_of (ca_blocks c) hash of
        None \<Rightarrow> c
      | Some b \<Rightarrow> c\<lparr>ca_blocks := AList.delete hash (ca_blocks c),
                     ca_hash_heights := bt_remove (block_height b) (ca_hash_heights c)\<rparr>)"

definition cache_last :: "block_cache \<Rightarrow> u64 \<times> crypto_hash" where
  "cache_last c = (if ca_hash_heights c = [] then (0, crypto_hash_default) else last (ca_hash_heights c))"

definition cache_insert :: "node_env \<Rightarrow> block \<Rightarrow> block_cache \<Rightarrow> block_cache" where
  "cache_insert E b c =
     (let height = block_height b; hash = block_hash E b
      in if height < ca_height c then c
         else let c = (if ca_max_height c < height then c\<lparr>ca_max_height := height\<rparr> else c);
                  (max_height, max_hash) = cache_last c;
                  cache_at_capacity = (ca_max_cache_size c \<le> length (ca_blocks c))
              in if cache_at_capacity \<and> max_height < height then c
                 else let c = (if cache_at_capacity then cache_remove c max_hash else c)
                      in c\<lparr>ca_hash_heights := bt_insert height hash (ca_hash_heights c),
                           ca_blocks := AList.update hash b (ca_blocks c)\<rparr>)"

definition cache_new :: "node_env \<Rightarrow> block \<Rightarrow> nat \<Rightarrow> block_cache" where
  "cache_new E start_block max_cache_size =
     cache_insert E start_block
       \<lparr>ca_height = block_height start_block, ca_max_height = block_height start_block,
        ca_blocks = [], ca_hash_heights = [], ca_max_cache_size = max_cache_size\<rparr>"

definition cache_hash :: "block_cache \<Rightarrow> (crypto_hash, node_error) outcome" where
  "cache_hash c = (case bt_get (ca_hash_heights c) (ca_height c) of Some h \<Rightarrow> Ok h | None \<Rightarrow> Panic)"

definition drop_height :: "u64 \<Rightarrow> block_cache \<Rightarrow> block_cache" where
  "drop_height h c =
     (case bt_get (ca_hash_heights c) h of
        None \<Rightarrow> c
      | Some hash \<Rightarrow> c\<lparr>ca_hash_heights := bt_remove h (ca_hash_heights c),
                        ca_blocks := AList.delete hash (ca_blocks c)\<rparr>)"

definition confirm :: "u64 \<Rightarrow> block_cache \<Rightarrow> block_cache" where
  "confirm height c =
     (let heights_to_remove = filter (\<lambda>h. h < height) (bt_keys (ca_hash_heights c))
      in fold drop_height heights_to_remove (c\<lparr>ca_height := height\<rparr>))"

definition get_range :: "block_cache \<Rightarrow> u64 \<Rightarrow> u64 \<Rightarrow> (block list, node_error) outcome" where
  "get_range c s e =
     (if e < s then Panic
      else Ok (List.map_filter (\<lambda>(h, hash). if s \<le> h \<and> h < e then map_of (ca_blocks c) hash else None)
                 (ca_hash_heights c)))"

definition get_by_height :: "block_cache \<Rightarrow> u64 \<Rightarrow> block option" where
  "get_by_height c height =
     Option.bind (bt_get (ca_hash_heights c) height) (map_of (ca_blocks c))"

definition is_out_of_sync :: "block_cache \<Rightarrow> (bool, node_error) outcome" where
  "is_out_of_sync c =
     (if ca_hash_heights c = [] then Panic
      else if fst (last (ca_hash_heights c)) < ca_max_height c then Ok True
      else bind_o (height_add (ca_height c) 1) (\<lambda>first.
        Ok (\<exists>h \<in> set (map of_nat [unat first..<Suc (unat (ca_max_height c))]).
              \<not> bt_contains_key (ca_hash_heights c) h)))"

definition get_next_commit_block :: "block_cache \<Rightarrow> (block option, node_error) outcome" where
  "get_next_commit_block c = bind_o (height_add (ca_height c) 1) (\<lambda>next_height. Ok (get_by_height c next_height))"

section \<open>Invariant\<close>

text \<open>Every height of the cache has its block.\<close>

definition cache_inv :: "node_env \<Rightarrow> block_cache \<Rightarrow> bool" where
  "cache_inv E c \<longleftrightarrow> bt_inv (ca_hash_heights c) \<and> distinct (map fst (ca_blocks c)) \<and>
     (\<forall>hash b. map_of (ca_blocks c) hash = Some b \<longrightarrow> hash = block_hash E b) \<and>
     (\<forall>h hash. bt_get (ca_hash_heights c) h = Some hash \<longrightarrow>
        (\<exists>b. map_of (ca_blocks c) hash = Some b \<and> block_height b = h))"

text \<open>Collision resistance of the block hash, as far as the cache relies on it.\<close>

definition hash_fixes_height :: "node_env \<Rightarrow> bool" where
  "hash_fixes_height E \<longleftrightarrow> (\<forall>b b'. block_hash E b = block_hash E b' \<longrightarrow> block_height b = block_height b')"

lemma last_key:
  assumes "bt_inv m" and "m \<noteq> []"
  shows "bt_get m (fst (last m)) = Some (snd (last m))" and "\<forall>k \<in> set (bt_keys m). k \<le> fst (last m)"
proof -
  have d: "distinct (map fst m)" using bt_distinct_keys [OF assms(1)] by (simp add: bt_keys_def)
  have l: "last m \<in> set m" using assms(2) by simp
  show "bt_get m (fst (last m)) = Some (snd (last m))"
    unfolding bt_get_def using map_of_is_SomeI [OF d, of "fst (last m)" "snd (last m)"] l by simp
  have "sorted (bt_keys m)" using assms(1) by (simp add: bt_inv_def strict_sorted_iff)
  then show "\<forall>k \<in> set (bt_keys m). k \<le> fst (last m)"
    using assms(2) by (induction m rule: rev_induct) (auto simp: sorted_append)
qed

lemma cache_invD:
  assumes "cache_inv E c" and "bt_get (ca_hash_heights c) h = Some hash"
  obtains b where "map_of (ca_blocks c) hash = Some b" "block_height b = h" "hash = block_hash E b"
  using assms unfolding cache_inv_def by blast

lemma cache_invI:
  assumes "bt_inv (ca_hash_heights c)" and "distinct (map fst (ca_blocks c))"
    and "\<And>hash b. map_of (ca_blocks c) hash = Some b \<Longrightarrow> hash = block_hash E b"
    and "\<And>h hash. bt_get (ca_hash_heights c) h = Some hash \<Longrightarrow>
       \<exists>b. map_of (ca_blocks c) hash = Some b \<and> block_height b = h"
  shows "cache_inv E c"
  using assms unfolding cache_inv_def by blast

lemma get_by_height_Some:
  assumes "cache_inv E c" and "get_by_height c h = Some b"
  shows "block_height b = h" and "bt_get (ca_hash_heights c) h = Some (block_hash E b)"
proof -
  obtain hash where hash: "bt_get (ca_hash_heights c) h = Some hash" "map_of (ca_blocks c) hash = Some b"
    using assms(2) by (auto simp only: get_by_height_def bind_eq_Some_conv)
  then show "block_height b = h" "bt_get (ca_hash_heights c) h = Some (block_hash E b)"
    using cache_invD [OF assms(1) hash(1)] by fastforce+
qed

lemma cache_inv_None:
  assumes "cache_inv E c" shows "get_by_height c h = None \<longleftrightarrow> bt_get (ca_hash_heights c) h = None"
proof (cases "bt_get (ca_hash_heights c) h")
  case (Some hash)
  obtain b where "map_of (ca_blocks c) hash = Some b" using cache_invD [OF assms Some] by blast
  then show ?thesis by (simp add: get_by_height_def Some)
qed (simp add: get_by_height_def)

text \<open>Taking one height out, by its hash (\<open>remove\<close>) or by itself (the loop of \<open>confirm\<close>).\<close>

lemma drop_height_ok:
  assumes inv: "cache_inv E c" and hf: "hash_fixes_height E"
  shows "cache_inv E (drop_height h c)"
    and "get_by_height (drop_height h c) k = (if k = h then None else get_by_height c k)"
    and "set (bt_keys (ca_hash_heights (drop_height h c))) = set (bt_keys (ca_hash_heights c)) - {h}"
proof -
  have bt: "bt_inv (ca_hash_heights c)" and d: "distinct (map fst (ca_blocks c))"
    using inv by (simp_all add: cache_inv_def)
  note [simp] = bt_get_remove [OF bt] delete_conv'
  have "cache_inv E (drop_height h c) \<and> get_by_height (drop_height h c) k = (if k = h then None else get_by_height c k) \<and>
      set (bt_keys (ca_hash_heights (drop_height h c))) = set (bt_keys (ca_hash_heights c)) - {h}"
  proof (cases "bt_get (ca_hash_heights c) h")
    case None
    then have "drop_height h c = c" "h \<notin> set (bt_keys (ca_hash_heights c))" "get_by_height c h = None"
      by (simp_all add: drop_height_def bt_get_None_iff [symmetric] get_by_height_def)
    then show ?thesis using inv by auto
  next
    case (Some hash)
    obtain b where b: "block_height b = h" "hash = block_hash E b" using cache_invD [OF inv Some] by blast
    have other: "x \<noteq> hash" if "bt_get (ca_hash_heights c) k = Some x" "k \<noteq> h" for x k
      using cache_invD [OF inv that(1)] b that(2) hf unfolding hash_fixes_height_def by metis
    have "cache_inv E (drop_height h c)"
    proof (rule cache_invI)
      fix k x assume "bt_get (ca_hash_heights (drop_height h c)) k = Some x"
      then have k: "k \<noteq> h" "bt_get (ca_hash_heights c) k = Some x"
        by (auto simp: drop_height_def Some split: if_splits)
      then show "\<exists>b. map_of (ca_blocks (drop_height h c)) x = Some b \<and> block_height b = k"
        using cache_invD [OF inv k(2)] other [OF k(2,1)] by (auto simp: drop_height_def Some)
    next
      fix x b assume "map_of (ca_blocks (drop_height h c)) x = Some b"
      then have "map_of (ca_blocks c) x = Some b" by (auto simp: drop_height_def Some split: if_splits)
      then show "x = block_hash E b" using inv unfolding cache_inv_def by blast
    qed (use bt d in \<open>simp_all add: drop_height_def Some distinct_delete\<close>)
    moreover have "get_by_height (drop_height h c) k = (if k = h then None else get_by_height c k)"
      using other [of k] by (cases "bt_get (ca_hash_heights c) k") (auto simp: get_by_height_def drop_height_def Some)
    moreover have "set (bt_keys (ca_hash_heights (drop_height h c))) = set (bt_keys (ca_hash_heights c)) - {h}"
      using bt by (simp add: drop_height_def Some)
    ultimately show ?thesis by blast
  qed
  then show "cache_inv E (drop_height h c)"
    "get_by_height (drop_height h c) k = (if k = h then None else get_by_height c k)"
    "set (bt_keys (ca_hash_heights (drop_height h c))) = set (bt_keys (ca_hash_heights c)) - {h}" by blast+
qed

lemma cache_remove_last:
  assumes inv: "cache_inv E c" and ne: "ca_hash_heights c \<noteq> []"
  shows "cache_remove c (snd (cache_last c)) = drop_height (fst (cache_last c)) c"
proof -
  let ?l = "last (ca_hash_heights c)"
  have l: "bt_get (ca_hash_heights c) (fst ?l) = Some (snd ?l)"
    using last_key(1) [OF _ ne] inv by (simp add: cache_inv_def)
  obtain b where "map_of (ca_blocks c) (snd ?l) = Some b" "block_height b = fst ?l"
    using cache_invD [OF inv l] by blast
  then show ?thesis using l ne by (simp add: cache_remove_def drop_height_def cache_last_def)
qed

lemma drop_height_blocks:
  "length (ca_blocks (drop_height h c)) \<le> length (ca_blocks c)"
  "ca_height (drop_height h c) = ca_height c" "ca_max_cache_size (drop_height h c) = ca_max_cache_size c"
  by (auto simp: drop_height_def AList.delete_eq split: option.splits)

lemma drop_height_shrinks:
  assumes "cache_inv E c" and "bt_get (ca_hash_heights c) h \<noteq> None"
  shows "length (ca_blocks (drop_height h c)) < length (ca_blocks c)"
proof -
  obtain hash where hash: "bt_get (ca_hash_heights c) h = Some hash" using assms(2) by blast
  obtain b where "(hash, b) \<in> set (ca_blocks c)"
    using cache_invD [OF assms(1) hash] map_of_SomeD by metis
  then show ?thesis
    by (simp add: drop_height_def hash AList.delete_eq length_filter_less [of "(hash, b)"])
qed

text \<open>Putting one block in.\<close>

definition put_block :: "node_env \<Rightarrow> block \<Rightarrow> block_cache \<Rightarrow> block_cache" where
  "put_block E b c = c\<lparr>ca_hash_heights := bt_insert (block_height b) (block_hash E b) (ca_hash_heights c),
     ca_blocks := AList.update (block_hash E b) b (ca_blocks c)\<rparr>"

lemma put_block_ok:
  assumes inv: "cache_inv E c" and hf: "hash_fixes_height E"
  shows "cache_inv E (put_block E b c)"
    and "get_by_height (put_block E b c) k = (if k = block_height b then Some b else get_by_height c k)"
proof -
  let ?h = "block_height b" and ?x = "block_hash E b"
  have bt: "bt_inv (ca_hash_heights c)" and d: "distinct (map fst (ca_blocks c))"
    using inv by (simp_all add: cache_inv_def)
  have get: "bt_get (ca_hash_heights (put_block E b c)) k = (if k = ?h then Some ?x else bt_get (ca_hash_heights c) k)"
    "map_of (ca_blocks (put_block E b c)) x = (if x = ?x then Some b else map_of (ca_blocks c) x)" for k x
    by (simp_all add: put_block_def bt_get_insert update_conv')
  have other: "x \<noteq> ?x" if "bt_get (ca_hash_heights c) k = Some x" "k \<noteq> ?h" for x k
    using cache_invD [OF inv that(1)] that(2) hf unfolding hash_fixes_height_def by metis
  show "cache_inv E (put_block E b c)"
  proof (rule cache_invI)
    fix k x assume k: "bt_get (ca_hash_heights (put_block E b c)) k = Some x"
    show "\<exists>b'. map_of (ca_blocks (put_block E b c)) x = Some b' \<and> block_height b' = k"
    proof (cases "k = ?h")
      case False
      then have k': "bt_get (ca_hash_heights c) k = Some x" using k by (simp add: get)
      then show ?thesis using cache_invD [OF inv k'] other [OF k' False] by (auto simp: get)
    qed (use k in \<open>simp add: get\<close>)
  next
    fix x b' assume "map_of (ca_blocks (put_block E b c)) x = Some b'"
    then show "x = block_hash E b'" using inv unfolding cache_inv_def get by (auto split: if_splits)
  qed (use bt d in \<open>simp_all add: put_block_def distinct_update\<close>)
  show "get_by_height (put_block E b c) k = (if k = ?h then Some b else get_by_height c k)"
    using other [of k] by (cases "bt_get (ca_hash_heights c) k") (auto simp: get_by_height_def get)
qed

lemma cache_inv_max [simp]: "cache_inv E (c\<lparr>ca_max_height := m\<rparr>) = cache_inv E c"
  "cache_inv E (c\<lparr>ca_height := h\<rparr>) = cache_inv E c"
  "get_by_height (c\<lparr>ca_max_height := m\<rparr>) = get_by_height c" "get_by_height (c\<lparr>ca_height := h\<rparr>) = get_by_height c"
  by (simp_all add: cache_inv_def get_by_height_def [abs_def])

lemma cache_insert_eq:
  "cache_insert E b c =
    (if block_height b < ca_height c then c
     else let c' = c\<lparr>ca_max_height := max (ca_max_height c) (block_height b)\<rparr>;
              full = (ca_max_cache_size c \<le> length (ca_blocks c))
          in if full \<and> fst (cache_last c) < block_height b then c'
             else put_block E b (if full then cache_remove c' (snd (cache_last c)) else c'))"
proof -
  let ?c = "c\<lparr>ca_max_height := max (ca_max_height c) (block_height b)\<rparr>"
  have c: "(if ca_max_height c < block_height b then c\<lparr>ca_max_height := block_height b\<rparr> else c) = ?c"
    by (auto simp: max_def)
  have "cache_last ?c = cache_last c" by (simp add: cache_last_def)
  then show ?thesis
    unfolding cache_insert_def Let_def c by (simp add: case_prod_beta put_block_def)
qed

lemma cache_insert_cases:
  assumes "cache_inv E c" and "ca_hash_heights c \<noteq> []"
  defines "full \<equiv> ca_max_cache_size c \<le> length (ca_blocks c)" and "m \<equiv> fst (last (ca_hash_heights c))"
  shows "cache_insert E b c =
    (if block_height b < ca_height c then c
     else let c' = c\<lparr>ca_max_height := max (ca_max_height c) (block_height b)\<rparr>
          in if full \<and> m < block_height b then c'
             else put_block E b (if full then drop_height m c' else c'))"
proof -
  let ?c = "c\<lparr>ca_max_height := max (ca_max_height c) (block_height b)\<rparr>"
  have inv: "cache_inv E ?c" using assms(1) by simp
  have "cache_remove ?c (snd (cache_last c)) = drop_height m ?c"
    using cache_remove_last [OF inv] assms(2) by (simp add: cache_last_def m_def)
  then show ?thesis
    using assms(2) by (simp add: cache_insert_eq Let_def cache_last_def full_def m_def)
qed

lemma confirm_ok:
  assumes "cache_inv E c" and "hash_fixes_height E"
  shows "cache_inv E (confirm h c)" and "get_by_height (confirm h c) k = (if k < h then None else get_by_height c k)"
    and "ca_height (confirm h c) = h"
proof -
  have fold: "cache_inv E (fold drop_height ks c) \<and> ca_height (fold drop_height ks c) = ca_height c \<and>
      (\<forall>k. get_by_height (fold drop_height ks c) k = (if k \<in> set ks then None else get_by_height c k))"
    if "cache_inv E c" for ks c
    using that
  proof (induction ks arbitrary: c)
    case (Cons h ks)
    show ?case
      using Cons.IH [OF drop_height_ok(1) [OF Cons.prems assms(2), of h]]
        drop_height_ok(2) [OF Cons.prems assms(2), of h] by (auto simp: drop_height_blocks)
  qed simp
  have none: "get_by_height c k = None" if "k \<notin> set (bt_keys (ca_hash_heights c))" for k
    using that by (simp add: get_by_height_def bt_get_None_iff [symmetric])
  note f = fold [of "c\<lparr>ca_height := h\<rparr>" "filter (\<lambda>k. k < h) (bt_keys (ca_hash_heights c))"]
  show "cache_inv E (confirm h c)" "get_by_height (confirm h c) k = (if k < h then None else get_by_height c k)"
    "ca_height (confirm h c) = h"
    using f assms(1) none [of k] by (auto simp: confirm_def Let_def)
qed

lemma length_alist_update: "length (AList.update k v m) = (if k \<in> fst ` set m then length m else Suc (length m))"
  by (induction m) auto

lemma length_alist_delete:
  "distinct (map fst m) \<Longrightarrow> k \<in> fst ` set m \<Longrightarrow> Suc (length (AList.delete k m)) = length m"
proof (induction m)
  case (Cons x m)
  have "AList.delete k m = m" if "k \<notin> fst ` set m"
    using that by (force simp: AList.delete_eq filter_id_conv)
  with Cons show ?case by (auto simp: AList.delete_eq)
qed simp

text \<open>The cache after any number of different blocks of the confirmed height.\<close>

definition spammed :: "node_env \<Rightarrow> block list \<Rightarrow> block_cache \<Rightarrow> bool" where
  "spammed E seen c \<longleftrightarrow> 1 \<le> ca_max_cache_size c \<and>
     length (ca_blocks c) = min (ca_max_cache_size c) (length seen) \<and> distinct (map fst (ca_blocks c)) \<and>
     fst ` set (ca_blocks c) \<subseteq> block_hash E ` set seen \<and>
     (\<exists>b. map_of (ca_blocks c) (block_hash E b) = Some b \<and> block_height b = ca_height c \<and>
        ca_hash_heights c = [(ca_height c, block_hash E b)])"

lemma spammed_insert:
  assumes "spammed E seen c" and "block_height b = ca_height c" and "block_hash E b \<notin> block_hash E ` set seen"
  shows "spammed E (b # seen) (cache_insert E b c)" and "ca_height (cache_insert E b c) = ca_height c"
    and "ca_max_cache_size (cache_insert E b c) = ca_max_cache_size c"
proof -
  obtain x where x: "map_of (ca_blocks c) (block_hash E x) = Some x" "block_height x = ca_height c"
    "ca_hash_heights c = [(ca_height c, block_hash E x)]"
    using assms(1) by (auto simp: spammed_def)
  let ?blocks = "if ca_max_cache_size c \<le> length (ca_blocks c) then AList.delete (block_hash E x) (ca_blocks c) else ca_blocks c"
  define c' where "c' = c\<lparr>ca_max_height := max (ca_max_height c) (block_height b),
    ca_hash_heights := [(ca_height c, block_hash E b)], ca_blocks := AList.update (block_hash E b) b ?blocks\<rparr>"
  have ins: "cache_insert E b c = c'"
    using assms(2) x by (simp add: cache_insert_eq cache_last_def cache_remove_def put_block_def c'_def Let_def)
  have new: "block_hash E b \<notin> fst ` set (ca_blocks c)" using assms(1,3) by (auto simp: spammed_def)
  have sub: "fst ` set ?blocks \<subseteq> fst ` set (ca_blocks c)" by (auto simp: AList.delete_eq)
  have x_in: "block_hash E x \<in> fst ` set (ca_blocks c)" using map_of_SomeD [OF x(1)] by force
  have d: "distinct (map fst (ca_blocks c))" using assms(1) by (simp add: spammed_def)
  have len: "length (AList.update (block_hash E b) b ?blocks) = min (ca_max_cache_size c) (length (b # seen))"
    using new sub length_alist_delete [OF d x_in] assms(1)
    by (auto simp: length_alist_update spammed_def split: if_splits)
  have keys: "fst ` set (AList.update (block_hash E b) b ?blocks) \<subseteq> block_hash E ` set (b # seen)"
  proof -
    have "fst ` set (ca_blocks c) \<subseteq> block_hash E ` set seen" using assms(1) unfolding spammed_def by blast
    from order_trans [OF sub this] show ?thesis unfolding dom_update by (simp only: set_simps image_insert) blast
  qed
  have dis: "distinct (map fst (AList.update (block_hash E b) b ?blocks))"
    using d by (simp add: distinct_update distinct_delete)
  show "spammed E (b # seen) (cache_insert E b c)"
    unfolding ins spammed_def
    using len dis keys assms(1,2) by (auto simp: c'_def spammed_def update_conv' intro!: exI [of _ b])
  show "ca_height (cache_insert E b c) = ca_height c" "ca_max_cache_size (cache_insert E b c) = ca_max_cache_size c"
    by (simp_all add: ins c'_def)
qed

section \<open>Properties\<close>

text \<open>
  C31. The cache is a bounded map from heights to blocks. Inserting a block of a height that is not
  yet confirmed sets that height, evicting the highest one when the cache is full, unless the cache
  is full and the block is above all others; confirming a height drops exactly the blocks below it.
  The number of blocks never grows beyond the maximum.
\<close>

theorem cache_refines_map:
  assumes inv: "cache_inv E c" and hf: "hash_fixes_height E" and ne: "ca_hash_heights c \<noteq> []"
  shows "cache_inv E (cache_insert E b c) \<and>
    length (ca_blocks (cache_insert E b c)) \<le> max (ca_max_cache_size c) (length (ca_blocks c)) \<and>
    get_by_height (cache_insert E b c) =
      (let m = fst (last (ca_hash_heights c)); full = (ca_max_cache_size c \<le> length (ca_blocks c))
       in if block_height b < ca_height c \<or> full \<and> m < block_height b then get_by_height c
          else (if full then (get_by_height c)(m := None) else get_by_height c)(block_height b \<mapsto> b)) \<and>
    cache_inv E (confirm h c) \<and> ca_height (confirm h c) = h \<and>
    get_by_height (confirm h c) = get_by_height c |` {k. h \<le> k}"
proof -
  let ?m = "fst (last (ca_hash_heights c))" and ?full = "ca_max_cache_size c \<le> length (ca_blocks c)"
  let ?c = "c\<lparr>ca_max_height := max (ca_max_height c) (block_height b)\<rparr>"
  let ?d = "if ?full then drop_height ?m ?c else ?c"
  have inv': "cache_inv E ?c" using inv by simp
  have put: "length (ca_blocks (put_block E b c)) \<le> Suc (length (ca_blocks c))" for c
    by (simp add: put_block_def length_alist_update)
  have m: "bt_get (ca_hash_heights ?c) ?m \<noteq> None"
    using last_key(1) [OF _ ne] inv by (simp add: cache_inv_def)
  have d: "cache_inv E ?d" "get_by_height ?d = (if ?full then (get_by_height c)(?m := None) else get_by_height c)"
    using inv drop_height_ok [OF inv' hf, of ?m] by (auto simp: fun_eq_iff)
  have len: "length (ca_blocks (put_block E b ?d)) \<le> max (ca_max_cache_size c) (length (ca_blocks c))"
    using put [of ?d] drop_height_shrinks [OF inv' m] by (auto simp: max_def split: if_splits)
  have get: "get_by_height (put_block E b ?d) = (get_by_height ?d)(block_height b \<mapsto> b)"
    using put_block_ok(2) [OF d(1) hf] by (auto simp: fun_eq_iff)
  have ins: "cache_insert E b c = (if block_height b < ca_height c then c
      else if ?full \<and> ?m < block_height b then ?c else put_block E b ?d)"
    using cache_insert_cases [OF inv ne, of b] by (simp only: Let_def)
  have conf: "get_by_height (confirm h c) = get_by_height c |` {k. h \<le> k}"
    using confirm_ok(2) [OF inv hf, of h] by (auto simp: fun_eq_iff restrict_map_def not_less)
  show ?thesis
    using inv len get d put_block_ok(1) [OF d(1) hf] confirm_ok(1,3) [OF inv hf] conf
    by (simp only: ins Let_def) (simp add: cache_inv_max)
qed

lemma spammed_new:
  assumes "1 \<le> n"
  shows "spammed E [b] (cache_new E b n)" and "ca_height (cache_new E b n) = block_height b"
    and "ca_max_cache_size (cache_new E b n) = n"
  using assms by (auto simp: cache_new_def cache_insert_eq Let_def put_block_def spammed_def intro!: exI [of _ b])

lemma spammed_fold:
  assumes "spammed E seen c" and "\<forall>b \<in> set bs. block_height b = ca_height c"
    and "distinct (map (block_hash E) bs)" and "block_hash E ` set bs \<inter> block_hash E ` set seen = {}"
  shows "spammed E (rev bs @ seen) (fold (cache_insert E) bs c) \<and> ca_height (fold (cache_insert E) bs c) = ca_height c \<and>
     ca_max_cache_size (fold (cache_insert E) bs c) = ca_max_cache_size c"
  using assms
proof (induction bs arbitrary: seen c)
  case (Cons b bs)
  have b: "block_hash E b \<notin> block_hash E ` set seen" "block_height b = ca_height c" using Cons.prems by auto
  note i = spammed_insert [OF Cons.prems(1) b(2,1)]
  show ?case
    using Cons.IH [OF i(1)] i(2,3) Cons.prems by (auto simp: disjoint_iff)
qed simp

text \<open>
  A block that replaces another one of the same height leaves the old one behind, unreachable and
  never freed. As many different blocks of the confirmed height as the cache has room for fill it for
  good: afterwards every block above that height is refused, and no block is offered for commit.
\<close>

lemma cache_spam_stalls:
  assumes "1 \<le> n" and "n \<le> length bs + 1" and "\<forall>x \<in> set bs. block_height x = block_height b0"
    and "distinct (map (block_hash E) (b0 # bs))" and "block_height b0 < block_height b"
  shows "get_by_height (cache_insert E b (fold (cache_insert E) bs (cache_new E b0 n))) (block_height b) = None"
proof -
  let ?c = "fold (cache_insert E) bs (cache_new E b0 n)"
  have c: "spammed E (rev bs @ [b0]) ?c \<and> ca_height ?c = block_height b0 \<and> ca_max_cache_size ?c = n"
    using spammed_fold [of E "[b0]" "cache_new E b0 n" bs] spammed_new [OF assms(1), of E b0] assms(3,4) by auto
  then have full: "n \<le> length (ca_blocks ?c)" using assms(2) by (simp add: spammed_def)
  obtain x where x: "ca_hash_heights ?c = [(block_height b0, x)]" using c by (auto simp: spammed_def)
  have "\<not> block_height b < block_height b0" using assms(5) by simp
  then have "cache_insert E b ?c = ?c\<lparr>ca_max_height := max (ca_max_height ?c) (block_height b)\<rparr>"
    using c full assms(5) by (simp add: cache_insert_eq Let_def cache_last_def x)
  then show ?thesis
    using x assms(5) by (simp add: get_by_height_def bt_get_def)
qed

definition demo_cache_env :: node_env where
  "demo_cache_env = \<lparr>ne_poseidon = demo_P, ne_keccak = take 64, ne_borsh_header = (\<lambda>_. []),
     ne_verify_proof = (\<lambda>_. True), ne_compact_ok = (\<lambda>_. True), ne_recover = (\<lambda>_ _ _. Some [1]),
     ne_validators = (\<lambda>_. [[1]])\<rparr>"

definition demo_cached :: "u64 \<Rightarrow> element \<Rightarrow> block" where
  "demo_cached h r = \<lparr>bk_content = \<lparr>bc_header = \<lparr>bh_height = h, bh_last_block_hash = crypto_hash_default,
     bh_epoch_id = 0, bh_last_final_block_hash = crypto_hash_default, bh_approvals = []\<rparr>,
     bc_state = \<lparr>bs_root_hash = r, bs_txns = []\<rparr>\<rparr>, bk_signature = replicate 65 0\<rparr>"

lemma demo_cached_hash:
  "block_hash demo_cache_env b = to_be_bytes (block_root b) @ to_be_bytes (ucast (block_height b))"
  by (simp add: block_hash_def content_hash_def demo_cache_env_def)

lemma ucast_up_ucast_id_64: "ucast (ucast h :: element) = (h :: u64)"
  by (rule bit_word_eqI) (simp add: bit_ucast_iff)

lemma demo_hash_inj:
  "block_hash demo_cache_env b = block_hash demo_cache_env b' \<longleftrightarrow>
     block_root b = block_root b' \<and> block_height b = block_height b'"
proof -
  have "ucast (block_height b) = (ucast (block_height b') :: element) \<longleftrightarrow> block_height b = block_height b'"
    by (metis ucast_up_ucast_id_64)
  then show ?thesis
    unfolding demo_cached_hash by (auto simp: append_eq_append_conv) (metis from_to_be_bytes)+
qed

theorem cache_refines_map_witness:
  "get_by_height (cache_insert demo_cache_env (demo_cached 6 1) (cache_new demo_cache_env (demo_cached 5 0) 3)) 6
     = Some (demo_cached 6 1) \<and>
   get_by_height (confirm 6 (cache_new demo_cache_env (demo_cached 5 0) 3)) 5 = None"
proof -
  let ?c = "cache_new demo_cache_env (demo_cached 5 0) 3"
  have c: "?c = \<lparr>ca_height = 5, ca_max_height = 5,
      ca_blocks = [(block_hash demo_cache_env (demo_cached 5 0), demo_cached 5 0)],
      ca_hash_heights = [(5, block_hash demo_cache_env (demo_cached 5 0))], ca_max_cache_size = 3\<rparr>"
    by (simp add: cache_new_def cache_insert_eq Let_def put_block_def) (simp add: demo_cached_def)
  have h: "block_height (demo_cached h r) = h" for h r by (simp add: demo_cached_def)
  have inv: "cache_inv demo_cache_env ?c"
    unfolding c cache_inv_def by (auto simp: bt_get_def h split: if_splits)
  have hf: "hash_fixes_height demo_cache_env"
    by (simp add: hash_fixes_height_def demo_hash_inj)
  show ?thesis
    using cache_refines_map [OF inv hf, of "demo_cached 6 1" 6] unfolding c by (simp add: h)
qed

end
