(* ===== verification/Node_State.thy ===== *)
theory Node_State
  imports Node_Block_Props Node_Cache Node_Mempool
begin

text \<open>
  The operations of the node (\<open>node/src/node.rs\<close>, \<open>node/proposal.rs\<close>, \<open>node/transaction.rs\<close>,
  \<open>node/load.rs\<close>, \<open>node/tick_worker.rs\<close>, \<open>doomslug/src/approval.rs\<close>) on its shared state: mempool,
  block cache, block store and notes tree. What an operation sends (answers to waiting callers,
  commit notifications, network messages) is a list of outputs. Clocks, random numbers, the
  Ethereum client and the outcome of writes are arguments; a result is returned with the state it
  leaves, also when it is an error. Channels are numbers and \<open>op ch\<close> says that the receiver of
  \<open>ch\<close> still exists.
\<close>

section \<open>Data\<close>

datatype mode = ModeValidator | ModeNode | ModeProver | ModeMockProver

definition is_prover :: "mode \<Rightarrow> bool" where
  "is_prover m \<longleftrightarrow> m = ModeProver \<or> m = ModeMockProver"

record node_config =
  cf_mode :: mode
  cf_bad_blocks :: "u64 list"
  cf_block_txns_count :: nat
  cf_safe_eth_height_offset :: u64
  cf_address :: address
  cf_min_block_duration :: nat
  cf_sign_ecdsa :: "u8 list \<Rightarrow> signature"

datatype approval_inner = Endorsement crypto_hash | Skip u64

record approval_content =
  ap_inner :: approval_inner
  ap_target_height :: u64

record approval =
  ap_content :: approval_content
  ap_signature :: signature

record approval_validated =
  av_content :: approval_content
  av_signature :: signature
  av_validator :: address

record approval_stake =
  as_validator :: address
  as_stake_this_epoch :: nat
  as_stake_next_epoch :: nat

datatype snapshot_kind = Slow | Fast

record snapshot_request =
  sq_snapshot_id :: u64
  sq_from_height :: u64
  sq_to_height :: u64
  sq_kind :: snapshot_kind

datatype snapshot_chunk =
    ChunkSlow u64 "block list"
  | ChunkFast u64 "block option" "element list"

datatype network_event =
    NetApproval approval
  | NetBlock block
  | NetTransaction utxo_proof
  | NetSnapshotRequest snapshot_request
  | NetSnapshotOffer u64
  | NetSnapshotAccept snapshot_request
  | NetSnapshotChunk snapshot_chunk

type_synonym peer_id = nat
type_synonym node_pool = "(element, utxo_proof, u64, element) mempool"

datatype sync_message =
    MsgOutOfSync u64
  | MsgSnapshotOffer peer_id u64
  | MsgSnapshotChunk peer_id snapshot_chunk

datatype node_out =
    TxnResult nat "node_error + block"
  | Committed nat block
  | SendAll network_event
  | SendTo peer_id network_event
  | SyncChannel sync_message
  | OnApproval approval_validated "(approval_stake \<times> bool) list"
  | Tick

record node_state =
  ns_mempool :: node_pool
  ns_cache :: block_cache
  ns_store :: node_db
  ns_tree :: notes_tree
  ns_last_commit :: "nat option"
  ns_listeners :: "nat list"

text \<open>What the clock, the disk and the environment contribute to one commit.\<close>

record commit_io =
  ci_now :: nat
  ci_unix_s :: u64
  ci_write_ok :: bool
  ci_temp_noir :: bool

text \<open>What the Ethereum client answers: the block number, and the mint of a hash at a height.\<close>

record eth_mint =
  em_amount :: element
  em_note_kind :: element
  em_spent :: bool

record eth_view =
  ev_block_number :: "u64 option"
  ev_get_mint :: "u64 \<Rightarrow> element \<Rightarrow> eth_mint option option"

abbreviation txn_hash :: "node_env \<Rightarrow> utxo_proof \<Rightarrow> element" where
  "txn_hash E t \<equiv> proof_hash (ne_poseidon E) t"

section \<open>Signatures and approvals\<close>

definition peer_sign :: "node_env \<Rightarrow> node_config \<Rightarrow> crypto_hash \<Rightarrow> signature" where
  "peer_sign E cf msg = cf_sign_ecdsa cf (signed_digest E msg)"

definition to_block :: "node_env \<Rightarrow> node_config \<Rightarrow> block_content \<Rightarrow> block" where
  "to_block E cf c = \<lparr>bk_content = c, bk_signature = peer_sign E cf (content_hash E c)\<rparr>"

definition new_endorsement :: "crypto_hash \<Rightarrow> u64 \<Rightarrow> approval_content" where
  "new_endorsement parent_hash target_height = \<lparr>ap_inner = Endorsement parent_hash, ap_target_height = target_height\<rparr>"

definition approval_inner_new :: "crypto_hash \<Rightarrow> u64 \<Rightarrow> u64 \<Rightarrow> (approval_inner, node_error) outcome" where
  "approval_inner_new parent_hash parent_height target_height =
     bind_o (height_add parent_height 1) (\<lambda>h.
       Ok (if target_height = h then Endorsement parent_hash else Skip parent_height))"

definition approval_content_new :: "crypto_hash \<Rightarrow> u64 \<Rightarrow> u64 \<Rightarrow> (approval_content, node_error) outcome" where
  "approval_content_new parent_hash parent_height target_height =
     bind_o (approval_inner_new parent_hash parent_height target_height) (\<lambda>i.
       Ok \<lparr>ap_inner = i, ap_target_height = target_height\<rparr>)"

text \<open>The hash of a skip is a \<open>todo!()\<close>.\<close>

definition approval_hash :: "node_env \<Rightarrow> approval_content \<Rightarrow> (crypto_hash, node_error) outcome" where
  "approval_hash E a = (case ap_inner a of
     Endorsement h \<Rightarrow> Ok (ne_keccak E (to_be_bytes (ucast (ap_target_height a)) @ h))
   | Skip _ \<Rightarrow> Panic)"

definition to_approval :: "node_env \<Rightarrow> node_config \<Rightarrow> approval_content \<Rightarrow> (approval, node_error) outcome" where
  "to_approval E cf a = bind_o (approval_hash E a) (\<lambda>h.
     Ok \<lparr>ap_content = a, ap_signature = peer_sign E cf h\<rparr>)"

definition to_approval_validated ::
    "node_env \<Rightarrow> node_config \<Rightarrow> approval_content \<Rightarrow> (approval_validated, node_error) outcome" where
  "to_approval_validated E cf a = bind_o (approval_hash E a) (\<lambda>h.
     Ok \<lparr>av_content = a, av_signature = peer_sign E cf h, av_validator = cf_address cf\<rparr>)"

definition approval_try_into :: "node_env \<Rightarrow> approval \<Rightarrow> (approval_validated, node_error) outcome" where
  "approval_try_into E a =
     bind_o (approval_hash E (ap_content a)) (\<lambda>h.
     bind_o (sig_verify E (ap_signature a) h) (\<lambda>v.
     bind_o (ok_or DoomslugError v) (\<lambda>validator.
     Ok \<lparr>av_content = ap_content a, av_signature = ap_signature a, av_validator = validator\<rparr>)))"

section \<open>Commit\<close>

definition commit_proposal ::
    "node_env \<Rightarrow> commit_io \<Rightarrow> (nat \<Rightarrow> bool) \<Rightarrow> node_state \<Rightarrow> block \<Rightarrow>
     node_state \<times> node_out list \<times> (unit, node_error) outcome" where
  "commit_proposal E io op s b =
     (let st = bc_state (bk_content b);
          height = block_height b;
          s = s\<lparr>ns_last_commit := Some (ci_now io)\<rparr>;
          keys = map (txn_hash E) (bs_txns st)
      in if list_ex (\<lambda>e. \<not> contains_element (pe_tree (ns_tree s)) e) (block_inputs st) then (s, [], Panic)
         else case store_set (node_trait E) (BlockV2 b (Some (ci_unix_s io))) (ns_store s) of
           Panic \<Rightarrow> (s, [], Panic)
         | Err e \<Rightarrow> (s, [], Err (BlockStoreError e))
         | Ok db \<Rightarrow>
             (case apply_block_to_tree (ci_write_ok io) (ci_temp_noir io) E (ns_tree s) st height of
                (p, Panic) \<Rightarrow> (s\<lparr>ns_store := db, ns_tree := p\<rparr>, [], Panic)
              | (p, Err e) \<Rightarrow> (s\<lparr>ns_store := db, ns_tree := p\<rparr>, [], Err e)
              | (p, Ok _) \<Rightarrow>
                  (case mp_commit (ns_mempool s) height (map (\<lambda>k. (k, Inr b)) keys) of
                     (mp, sent) \<Rightarrow>
                       let listeners = filter op (ns_listeners s)
                       in (s\<lparr>ns_store := db, ns_tree := p, ns_mempool := mp, ns_listeners := listeners\<rparr>,
                           map (\<lambda>(ch, r). TxnResult ch r) sent @ map (\<lambda>ch. Committed ch b) listeners,
                           Ok ()))))"

definition node_receive_proposal ::
    "node_env \<Rightarrow> node_config \<Rightarrow> node_state \<Rightarrow> block \<Rightarrow> (node_state, node_error) outcome" where
  "node_receive_proposal E cf s b =
     (if cf_mode cf = ModeValidator then Panic
      else let keys = map (txn_hash E) (block_txns b)
           in Ok (s\<lparr>ns_cache := cache_insert E b (ns_cache s),
                    ns_mempool := lease_txns (ns_mempool s) (block_height b) keys\<rparr>))"

section \<open>Transactions\<close>

definition safe_eth_height :: "node_config \<Rightarrow> u64 \<Rightarrow> u64" where
  "safe_eth_height cf eth_block =
     (let offset = cf_safe_eth_height_offset cf in if eth_block < offset then 0 else eth_block - offset)"

definition check_mint ::
    "node_config \<Rightarrow> eth_view \<Rightarrow> mint_msgs \<Rightarrow> element list \<Rightarrow> (unit, node_error) outcome" where
  "check_mint cf eth m outputs =
     bind_o (ok_or FailedToGetEthBlockNumber (ev_block_number eth)) (\<lambda>eth_block.
     bind_o (ok_or ContractsError (ev_get_mint eth (safe_eth_height cf eth_block) (mm_mint_hash m))) (\<lambda>res.
     case res of
       None \<Rightarrow> Err (MintIsNotInTheContract (mm_mint_hash m))
     | Some x \<Rightarrow>
         if em_spent x then Err (MintIsAlreadySpent outputs)
         else if em_amount x \<noteq> mm_value m \<or> em_note_kind x \<noteq> mm_note_kind m
         then Err (MintInContractIsDifferent (em_amount x) (em_note_kind x) (mm_value m) (mm_note_kind m))
         else Ok ()))"

definition validate_transaction ::
    "node_env \<Rightarrow> node_config \<Rightarrow> eth_view \<Rightarrow> node_state \<Rightarrow> utxo_proof \<Rightarrow> (unit, node_error) outcome" where
  "validate_transaction E cf eth s t =
     bind_o (case kind_messages (up_public_inputs t) of
               MintMessages m \<Rightarrow> check_mint cf eth m (txn_outputs t)
             | BurnMessages _ \<Rightarrow> Ok () | NoMessages \<Rightarrow> Ok ()) (\<lambda>_.
     validate_txn E (ns_store s) (ns_tree s) t)"

definition push_change :: "element \<Rightarrow> element list \<Rightarrow> element list" where
  "push_change e changes = (if e = ZERO then changes else if e \<in> set changes then changes else changes @ [e])"

definition txn_changes :: "utxo_proof \<Rightarrow> element list" where
  "txn_changes t = fold push_change (txn_inputs t @ txn_outputs t) []"

definition receive_transaction ::
    "node_env \<Rightarrow> node_config \<Rightarrow> eth_view \<Rightarrow> node_state \<Rightarrow> utxo_proof \<Rightarrow> node_state \<times> (unit, node_error) outcome" where
  "receive_transaction E cf eth s t =
     (case validate_transaction E cf eth s t of
        Panic \<Rightarrow> (s, Panic)
      | Err _ \<Rightarrow> (s, Ok ())
      | Ok _ \<Rightarrow>
          (case mp_add (ns_mempool s) (txn_hash E t) t (txn_changes t) None of
             Ok mp \<Rightarrow> (s\<lparr>ns_mempool := mp\<rparr>, Ok ())
           | Err (Conflict c) \<Rightarrow> (s, Err (TxnCommitmentAlreadyPending [c]))
           | Err DuplicateKey \<Rightarrow> (s, Ok ())
           | Panic \<Rightarrow> (s, Panic)))"

text \<open>
  \<open>submit_transaction_and_wait\<close>. Each round of the loop observes the Ethereum client, the block
  number it reports after a missing mint, and the state of the node; \<open>Waiting\<close> is a loop that
  needs another round.
\<close>

datatype submit_wait = Validated | Rejected node_error | SubmitPanic | Waiting "u64 option"

fun submit_loop ::
    "node_env \<Rightarrow> node_config \<Rightarrow> utxo_proof \<Rightarrow> u64 option \<Rightarrow> (eth_view \<times> u64 option \<times> node_state) list \<Rightarrow> submit_wait" where
  "submit_loop E cf t started [] = Waiting started"
| "submit_loop E cf t started ((eth, current, s) # rounds) =
     (case validate_transaction E cf eth s t of
        Ok _ \<Rightarrow> Validated
      | Panic \<Rightarrow> SubmitPanic
      | Err (MintIsNotInTheContract m) \<Rightarrow>
          (case current of
             None \<Rightarrow> Rejected FailedToGetEthBlockNumber
           | Some current_eth_block \<Rightarrow>
               let started_at = (case started of None \<Rightarrow> current_eth_block | Some x \<Rightarrow> x)
               in if current_eth_block < started_at then SubmitPanic
                  else if cf_safe_eth_height_offset cf = 0 \<or>
                          cf_safe_eth_height_offset cf < current_eth_block - started_at
                  then Rejected (MintIsNotInTheContract m)
                  else submit_loop E cf t (Some started_at) rounds)
      | Err e \<Rightarrow> Rejected e)"

definition submit_enqueue ::
    "node_env \<Rightarrow> node_state \<Rightarrow> utxo_proof \<Rightarrow> nat \<Rightarrow> node_state \<times> node_out list \<times> (nat, node_error) outcome" where
  "submit_enqueue E s t ch =
     (case mp_add (ns_mempool s) (txn_hash E t) t (txn_changes t) (Some ch) of
        Ok mp \<Rightarrow> (s\<lparr>ns_mempool := mp\<rparr>, [SendAll (NetTransaction t)], Ok ch)
      | Err (Conflict c) \<Rightarrow> (s, [SendAll (NetTransaction t)], Err (TxnCommitmentAlreadyPending [c]))
      | Err DuplicateKey \<Rightarrow> (s, [SendAll (NetTransaction t)], Err (TxnCommitmentAlreadyPending []))
      | Panic \<Rightarrow> (s, [SendAll (NetTransaction t)], Panic))"

section \<open>Proposing\<close>

text \<open>
  The loop of \<open>create_proposal\<close> over the leased transactions; \<open>eths i\<close> is what the Ethereum client
  answers to the i-th validation.
\<close>

fun validate_leased ::
    "node_env \<Rightarrow> node_config \<Rightarrow> (nat \<Rightarrow> eth_view) \<Rightarrow> node_state \<Rightarrow> nat \<Rightarrow> utxo_proof list \<Rightarrow>
     (unit, utxo_proof \<times> node_error) outcome" where
  "validate_leased E cf eths s i [] = Ok ()"
| "validate_leased E cf eths s i (t # ts) =
     (case validate_transaction E cf (eths i) s t of
        Ok _ \<Rightarrow> validate_leased E cf eths s (Suc i) ts
      | Err e \<Rightarrow> Err (t, e)
      | Panic \<Rightarrow> Panic)"

definition commit_errors ::
    "node_state \<Rightarrow> u64 \<Rightarrow> (element \<times> (node_error + block)) list \<Rightarrow> node_state \<times> node_out list" where
  "commit_errors s height krs =
     (case mp_commit (ns_mempool s) height krs of
        (mp, sent) \<Rightarrow> (s\<lparr>ns_mempool := mp\<rparr>, map (\<lambda>(ch, r). TxnResult ch r) sent))"

text \<open>Which callers learn that the proposed block is invalid, and why.\<close>

fun rejected_keys :: "element list \<Rightarrow> node_error \<Rightarrow> (element \<times> (node_error + block)) list" where
  "rejected_keys keys (LeafAlreadyInsertedInTheSameBlock leaf txn failing) =
     [(failing, Inl (LeafAlreadyInsertedInTheSameBlock leaf txn failing))]"
| "rejected_keys keys (NoteAlreadySpent note failing) = [(failing, Inl (NoteAlreadySpent note failing))]"
| "rejected_keys keys e = map (\<lambda>k. (k, Inl e)) keys"

text \<open>The part of \<open>create_proposal\<close> after the block is signed: validate, commit, cache and send it.\<close>

definition propose_block ::
    "node_env \<Rightarrow> node_config \<Rightarrow> commit_io \<Rightarrow> (nat \<Rightarrow> bool) \<Rightarrow> node_state \<Rightarrow> block \<Rightarrow>
     node_state \<times> node_out list \<times> (block, node_error) outcome" where
  "propose_block E cf io op s b =
     (case validate_block E (cf_bad_blocks cf) (ns_store s) (ns_tree s) b of
        Panic \<Rightarrow> (s, [], Panic)
      | Err e \<Rightarrow>
          (case commit_errors s (block_height b) (rejected_keys (map (txn_hash E) (block_txns b)) e) of
             (s, out) \<Rightarrow> (s, out, Err e))
      | Ok _ \<Rightarrow>
          (case commit_proposal E io op s b of
             (s, out, Panic) \<Rightarrow> (s, out, Panic)
           | (s, out, Err e) \<Rightarrow> (s, out, Err e)
           | (s, out, Ok _) \<Rightarrow>
               (s\<lparr>ns_cache := confirm (block_height b) (cache_insert E b (ns_cache s))\<rparr>,
                out @ [SendAll (NetBlock b)], Ok b)))"

definition create_proposal ::
    "node_env \<Rightarrow> node_config \<Rightarrow> (nat \<Rightarrow> eth_view) \<Rightarrow> commit_io \<Rightarrow> (nat \<Rightarrow> bool) \<Rightarrow> node_state \<Rightarrow> crypto_hash \<Rightarrow> u64 \<Rightarrow>
     approval_validated list \<Rightarrow> node_state \<times> node_out list \<times> (block, node_error) outcome" where
  "create_proposal E cf eths io op s last_block_hash height accepts =
     (case lease_batch (ns_mempool s) height (cf_block_txns_count cf) of
        Panic \<Rightarrow> (s, [], Panic)
      | Err _ \<Rightarrow> (s, [], Panic)
      | Ok (mp, utxos) \<Rightarrow>
          let s = s\<lparr>ns_mempool := mp\<rparr>; txns = map snd utxos
          in case validate_leased E cf eths s 0 txns of
               Panic \<Rightarrow> (s, [], Panic)
             | Err (t, e) \<Rightarrow>
                 (case commit_errors s height [(txn_hash E t, Inl e)] of
                    (s, out) \<Rightarrow> (s, out, Err (InvalidTransaction (txn_hash E t))))
             | Ok _ \<Rightarrow>
                 (case new_root_hash E (ns_tree s) (non_zero (concat (map txn_outputs txns)))
                         (non_zero (concat (map txn_inputs txns))) of
                    Err e \<Rightarrow> (s, [], Err e)
                  | Panic \<Rightarrow> (s, [], Panic)
                  | Ok root \<Rightarrow>
                      propose_block E cf io op s (to_block E cf \<lparr>
                        bc_header = \<lparr>bh_height = height, bh_last_block_hash = last_block_hash, bh_epoch_id = 0,
                                     bh_last_final_block_hash = last_block_hash,
                                     bh_approvals = map av_signature accepts\<rparr>,
                        bc_state = \<lparr>bs_root_hash = root, bs_txns = txns\<rparr>\<rparr>)))"

section \<open>The tick of the worker\<close>

definition is_validator_for_height :: "node_env \<Rightarrow> node_config \<Rightarrow> u64 \<Rightarrow> bool" where
  "is_validator_for_height E cf height \<longleftrightarrow> cf_mode cf = ModeValidator \<and> cf_address cf \<in> set (ne_validators E height)"

datatype round_end = RoundDone | RoundAgain | RoundStop | RoundPanic

text \<open>One round of the commit loop: the next block of the cache is validated, confirmed and committed.\<close>

definition tick_round ::
    "node_env \<Rightarrow> node_config \<Rightarrow> commit_io \<Rightarrow> (nat \<Rightarrow> bool) \<Rightarrow> node_state \<Rightarrow> node_state \<times> node_out list \<times> round_end" where
  "tick_round E cf io op s =
     (case get_next_commit_block (ns_cache s) of
        Panic \<Rightarrow> (s, [], RoundPanic)
      | Err _ \<Rightarrow> (s, [], RoundPanic)
      | Ok None \<Rightarrow> (s, [], RoundDone)
      | Ok (Some b) \<Rightarrow>
          (case validate_block E (cf_bad_blocks cf) (ns_store s) (ns_tree s) b of
             Panic \<Rightarrow> (s, [], RoundPanic)
           | Err _ \<Rightarrow> (s\<lparr>ns_cache := cache_remove (ns_cache s) (block_hash E b)\<rparr>, [], RoundAgain)
           | Ok _ \<Rightarrow>
               (case commit_proposal E io op (s\<lparr>ns_cache := confirm (block_height b) (ns_cache s)\<rparr>) b of
                  (s, out, Ok _) \<Rightarrow> (s, out, RoundAgain)
                | (s, out, Err _) \<Rightarrow> (s, out, RoundStop)
                | (s, out, Panic) \<Rightarrow> (s, out, RoundPanic))))"

fun tick_loop ::
    "nat \<Rightarrow> node_env \<Rightarrow> node_config \<Rightarrow> (nat \<Rightarrow> commit_io) \<Rightarrow> (nat \<Rightarrow> bool) \<Rightarrow> node_state \<Rightarrow> node_state \<times> node_out list \<times> round_end" where
  "tick_loop 0 E cf ios op s = (s, [], RoundAgain)"
| "tick_loop (Suc n) E cf ios op s =
     (case tick_round E cf (ios n) op s of
        (s1, out1, RoundAgain) \<Rightarrow>
          (case tick_loop n E cf ios op s1 of (s2, out2, r) \<Rightarrow> (s2, out1 @ out2, r))
      | (s1, out1, r) \<Rightarrow> (s1, out1, r))"

definition tick_fuel :: "node_state \<Rightarrow> nat" where
  "tick_fuel s = Suc (length (ca_hash_heights (ns_cache s)))"

datatype tick_end = TickPaused | TickIn nat | TickPanic | TickOutOfFuel

definition node_tick ::
    "node_env \<Rightarrow> node_config \<Rightarrow> (nat \<Rightarrow> eth_view) \<Rightarrow> (nat \<Rightarrow> commit_io) \<Rightarrow> (nat \<Rightarrow> bool) \<Rightarrow> node_state \<Rightarrow>
     node_state \<times> node_out list \<times> tick_end" where
  "node_tick E cf eths ios op s =
     (case height_add (ca_height (ns_cache s)) 1 of
        Err _ \<Rightarrow> (s, [], TickPanic)
      | Panic \<Rightarrow> (s, [], TickPanic)
      | Ok target_height \<Rightarrow>
          if \<not> is_validator_for_height E cf target_height
          then (case tick_loop (tick_fuel s) E cf ios op s of
                  (s, out, RoundStop) \<Rightarrow> (s, out, TickPaused)
                | (s, out, RoundPanic) \<Rightarrow> (s, out, TickPanic)
                | (s, out, RoundAgain) \<Rightarrow> (s, out, TickOutOfFuel)
                | (s, out, RoundDone) \<Rightarrow>
                    (case is_out_of_sync (ns_cache s) of
                       Ok True \<Rightarrow> (s, out @ [SyncChannel (MsgOutOfSync (ca_max_height (ns_cache s)))], TickIn 5000)
                     | Ok False \<Rightarrow> (s, out, if cf_mode cf = ModeValidator then TickIn 60000 else TickPaused)
                     | _ \<Rightarrow> (s, out, TickPanic)))
          else case cache_hash (ns_cache s) of
                 Err _ \<Rightarrow> (s, [], TickPanic)
               | Panic \<Rightarrow> (s, [], TickPanic)
               | Ok last_confirmed \<Rightarrow>
                   (case to_approval_validated E cf (new_endorsement last_confirmed target_height) of
                      Err _ \<Rightarrow> (s, [], TickPanic)
                    | Panic \<Rightarrow> (s, [], TickPanic)
                    | Ok approval \<Rightarrow>
                        (case create_proposal E cf eths (ios 0) op s last_confirmed target_height [approval] of
                           (s, out, Panic) \<Rightarrow> (s, out, TickPanic)
                         | (s, out, _) \<Rightarrow> (s, out, TickIn (cf_min_block_duration cf)))))"

section \<open>Loading\<close>

record loaded_data =
  ld_store :: node_db
  ld_tree :: notes_tree
  ld_block :: block

definition empty_notes_root :: "node_env \<Rightarrow> (element, node_error) outcome" where
  "empty_notes_root E = unwrap (root_hash (tree_hash E) (pe_tree (persistent_new merkle_tree_depth :: notes_tree)))"

definition load_smirk :: "node_env \<Rightarrow> bool \<Rightarrow> u64 smirk_db \<Rightarrow> (notes_tree, node_error) outcome" where
  "load_smirk E tn sdb = map_err SmirkError (persistent_load tn merkle_tree_depth (tree_hash E) sdb)"

definition load_reset ::
    "node_env \<Rightarrow> bool \<Rightarrow> bool \<Rightarrow> node_db \<Rightarrow> (loaded_data, node_error) outcome" where
  "load_reset E tn renamed db =
     (if \<not> renamed then Err IoError
      else bind_o (load_smirk E tn []) (\<lambda>p.
           bind_o (unwrap (root_hash (tree_hash E) (pe_tree p))) (\<lambda>r.
           bind_o (empty_notes_root E) (\<lambda>r0.
           bind_o (assert_o (r = r0)) (\<lambda>_.
           Ok \<lparr>ld_store = db, ld_tree = p, ld_block = block_genesis\<rparr>)))))"

definition load_db_and_smirk ::
    "node_env \<Rightarrow> commit_io \<Rightarrow> bool \<Rightarrow> node_db \<Rightarrow> u64 smirk_db \<Rightarrow> (loaded_data, node_error) outcome" where
  "load_db_and_smirk E io renamed db sdb =
     bind_o (load_smirk E (ci_temp_noir io) sdb) (\<lambda>p.
     bind_o (map_err BlockStoreError (get_max_height db)) (\<lambda>max.
     case max of
       None \<Rightarrow> load_reset E (ci_temp_noir io) renamed db
     | Some max_height \<Rightarrow>
         bind_o (map_err BlockStoreError (store_get db max_height)) (\<lambda>f.
         case f of
           None \<Rightarrow> Panic
         | Some f \<Rightarrow>
             let b = into_block f
             in bind_o (unwrap (root_hash (tree_hash E) (pe_tree p))) (\<lambda>r.
                if r = block_root b then Ok \<lparr>ld_store = db, ld_tree = p, ld_block = b\<rparr>
                else if max_height = 0 then Panic
                else bind_o (map_err BlockStoreError (store_get db (max_height - 1))) (\<lambda>f'.
                case f' of
                  None \<Rightarrow> Panic
                | Some f' \<Rightarrow>
                    if r = block_root (into_block f')
                    then (case apply_block_to_tree (ci_write_ok io) (ci_temp_noir io) E p (bc_state (bk_content b)) max_height of
                            (p', res) \<Rightarrow>
                              bind_o res (\<lambda>_.
                              bind_o (unwrap (root_hash (tree_hash E) (pe_tree p'))) (\<lambda>r'.
                              bind_o (assert_o (r' = block_root b)) (\<lambda>_.
                              Ok \<lparr>ld_store = db, ld_tree = p', ld_block = b\<rparr>))))
                    else load_reset E (ci_temp_noir io) renamed store_create)))))"

definition node_new ::
    "node_env \<Rightarrow> commit_io \<Rightarrow> bool \<Rightarrow> node_db \<Rightarrow> u64 smirk_db \<Rightarrow> (node_state, node_error) outcome" where
  "node_new E io renamed db sdb =
     bind_o (load_db_and_smirk E io renamed db sdb) (\<lambda>d.
     bind_o (map_err BlockStoreError (store_migrate (node_trait E) (ld_store d))) (\<lambda>db.
     Ok \<lparr>ns_mempool = mp_default, ns_cache = cache_new E (ld_block d) 10000, ns_store = db,
         ns_tree = ld_tree d, ns_last_commit = None, ns_listeners = []\<rparr>))"

section \<open>Queries and approvals\<close>

definition get_merkle_paths ::
    "node_env \<Rightarrow> node_state \<Rightarrow> element list \<Rightarrow> (element list list, node_error) outcome" where
  "get_merkle_paths E s es =
     collect_results (map (\<lambda>e.
       if \<not> contains_element (pe_tree (ns_tree s)) e then Err (ElementNotFound e)
       else bind_o (unwrap (path_for merkle_tree_depth (tree_hash E) (pe_tree (ns_tree s)) e)) (\<lambda>p. Ok (siblings p))) es)"

record element_seen_info =
  si_input_height :: "u64 option"
  si_output_height :: u64
  si_input_block_hash :: "crypto_hash option"
  si_output_block_hash :: crypto_hash
  si_spent :: bool

definition get_element_seen_info ::
    "node_state \<Rightarrow> element \<Rightarrow> (element_seen_info option, node_error) outcome" where
  "get_element_seen_info s e =
     bind_o (map_err BlockStoreError (get_element_history (ns_store s) e)) (\<lambda>(input_hist, output_hist).
     Ok (map_option (\<lambda>out. \<lparr>si_input_height = map_option hd_block_height input_hist,
            si_output_height = hd_block_height out, si_input_block_hash = map_option hd_block_hash input_hist,
            si_output_block_hash = hd_block_hash out, si_spent = (input_hist \<noteq> None)\<rparr>) output_hist))"

definition node_get_block :: "node_state \<Rightarrow> u64 \<Rightarrow> (block_format option, node_error) outcome" where
  "node_get_block s height = map_err BlockStoreError (store_get (ns_store s) height)"

definition get_block_by_hash :: "node_state \<Rightarrow> crypto_hash \<Rightarrow> (block_format option, node_error) outcome" where
  "get_block_by_hash s hash =
     bind_o (map_err BlockStoreError (get_block_height_by_hash (ns_store s) hash)) (\<lambda>h.
     case h of None \<Rightarrow> Ok None | Some height \<Rightarrow> node_get_block s height)"

definition get_txn :: "node_state \<Rightarrow> u8 list \<Rightarrow> ((utxo_proof \<times> txn_metadata) option, node_error) outcome" where
  "get_txn s hash =
     bind_o (map_err BlockStoreError (get_txn_by_hash (ns_store s) hash)) (\<lambda>t.
     Ok (map_option (\<lambda>f. case f of TxnV1 t m \<Rightarrow> (t, m)) t))"

definition fetch_blocks ::
    "node_state \<Rightarrow> u64 bound \<times> u64 bound \<Rightarrow> block_list_order \<Rightarrow> (block_format, node_error) outcome list" where
  "fetch_blocks s rng order =
     map (\<lambda>r. bind_o (map_err BlockStoreError r) (\<lambda>(_, f). Ok f)) (list_blocks (ns_store s) rng order)"

definition fetch_blocks_non_empty ::
    "node_state \<Rightarrow> u64 bound \<times> u64 bound \<Rightarrow> block_list_order \<Rightarrow> (block_format, node_error) outcome list" where
  "fetch_blocks_non_empty s rng order =
     map (\<lambda>r. bind_o (map_err BlockStoreError r) (\<lambda>(_, f). Ok f)) (list_non_empty (ns_store s) rng order)"

definition estimate_block_time :: "u64 \<Rightarrow> u64 \<Rightarrow> u64 \<Rightarrow> (u64, node_error) outcome" where
  "estimate_block_time now height max_height =
     (let d = (if max_height < height then 0 else max_height - height)
      in if now < d then Panic else Ok (now - d))"

definition send_accept ::
    "node_env \<Rightarrow> node_config \<Rightarrow> node_state \<Rightarrow> approval_content \<Rightarrow> (node_out list, node_error) outcome" where
  "send_accept E cf s a =
     (if cf_mode cf \<noteq> ModeValidator then Ok []
      else bind_o (is_out_of_sync (ns_cache s)) (\<lambda>oos.
        if oos then Ok []
        else bind_o (to_approval E cf a) (\<lambda>approval. Ok [SendAll (NetApproval approval)])))"

definition node_receive_accept ::
    "node_env \<Rightarrow> node_config \<Rightarrow> approval \<Rightarrow> (node_out list, node_error) outcome" where
  "node_receive_accept E cf a =
     (if cf_mode cf \<noteq> ModeValidator then Ok []
      else let target_height = ap_target_height (ap_content a)
      in bind_o (get_leader_for_block_height E target_height) (\<lambda>leader.
         if leader \<noteq> cf_address cf then Ok []
         else bind_o (approval_try_into E a) (\<lambda>validated.
           Ok [OnApproval validated
                 (map (\<lambda>v. (\<lparr>as_validator = v, as_stake_this_epoch = 1, as_stake_next_epoch = 1\<rparr>, False))
                    (ne_validators E target_height))])))"

end
