(* ===== verification/Node_Ledger.thy ===== *)
theory Node_Ledger
  imports Node_State
begin

text \<open>
  The chain a node has committed, as a list of blocks: what the block store and the notes tree hold
  of it. \<open>chain_ok\<close> is the ledger property, no commitment created or spent twice; \<open>store_chain\<close> and
  \<open>tree_chain\<close> relate the two databases to the chain. A validated block extends all three, and loading
  the databases gives the chain back, also after a stop between the two writes of a commit.
\<close>

section \<open>The chain and its databases\<close>

abbreviation outs :: "block \<Rightarrow> element list" where
  "outs b \<equiv> block_outputs (bc_state (bk_content b))"

abbreviation ins :: "block \<Rightarrow> element list" where
  "ins b \<equiv> block_inputs (bc_state (bk_content b))"

definition chain_outputs :: "block list \<Rightarrow> element list" where
  "chain_outputs bs = concat (map outs bs)"

definition chain_inputs :: "block list \<Rightarrow> element list" where
  "chain_inputs bs = concat (map ins bs)"

definition unspent :: "block list \<Rightarrow> element set" where
  "unspent bs = set (chain_outputs bs) - set (chain_inputs bs)"

definition block_mints :: "block \<Rightarrow> element set" where
  "block_mints b = {m. \<exists>t \<in> set (block_txns b). txn_mint_hash t = Some m}"

definition chain_mints :: "block list \<Rightarrow> element set" where
  "chain_mints bs = \<Union> (block_mints ` set bs)"

definition chain_ok :: "block list \<Rightarrow> bool" where
  "chain_ok bs \<longleftrightarrow> distinct (chain_outputs bs) \<and> distinct (chain_inputs bs) \<and>
     set (chain_inputs bs) \<subseteq> set (chain_outputs bs) \<and>
     (\<forall>i < length bs. unat (block_height (bs ! i)) = Suc i) \<and>
     (\<forall>i < length bs. \<forall>j < i. block_mints (bs ! i) \<inter> block_mints (bs ! j) = {})"

definition chain_at :: "block list \<Rightarrow> u64 \<Rightarrow> block option" where
  "chain_at bs k = (if 0 < k \<and> unat k \<le> length bs then Some (bs ! (unat k - 1)) else None)"

definition non_empty_at :: "block list \<Rightarrow> u64 \<Rightarrow> block option" where
  "non_empty_at bs k = (case chain_at bs k of Some b \<Rightarrow> if block_txns b = [] then None else Some b | None \<Rightarrow> None)"

definition store_chain :: "node_env \<Rightarrow> node_db \<Rightarrow> block list \<Rightarrow> bool" where
  "store_chain E db bs \<longleftrightarrow> store_inv (node_trait E) db \<and> store_version db = Ok LATEST_VERSION \<and>
     get_max_height db = Ok (if bs = [] then None else Some (block_height (last bs))) \<and>
     (\<forall>k. \<exists>f. store_get db k = Ok f \<and> map_option into_block f = chain_at bs k) \<and>
     (\<forall>e. get_element_history_with_kind db e OutputKind = Ok None \<longleftrightarrow> e \<notin> set (chain_outputs bs)) \<and>
     (\<forall>e. get_element_history_with_kind db e InputKind = Ok None \<longleftrightarrow> e \<notin> set (chain_inputs bs)) \<and>
     (\<forall>m. get_mint_hash db m = Ok None \<longleftrightarrow> m \<notin> chain_mints bs) \<and>
     (\<forall>k. \<exists>f. stored db (KNonEmptyBlock k) = map_option VBlock f \<and> map_option into_block f = non_empty_at bs k)"

definition tree_chain :: "node_env \<Rightarrow> notes_tree \<Rightarrow> block list \<Rightarrow> bool" where
  "tree_chain E p bs \<longleftrightarrow> persistent_inv merkle_tree_depth (tree_hash E) p \<and>
     set (tree_elements (pe_tree p)) = unspent bs \<and>
     (bs \<noteq> [] \<longrightarrow> root_hash (tree_hash E) (pe_tree p) = Ok (block_root (last bs)))"

lemma chain_snoc [simp]:
  "chain_outputs [] = []" "chain_inputs [] = []"
  "chain_outputs (bs @ [b]) = chain_outputs bs @ outs b" "chain_inputs (bs @ [b]) = chain_inputs bs @ ins b"
  "chain_mints [] = {}" "chain_mints (bs @ [b]) = chain_mints bs \<union> block_mints b"
  by (auto simp: chain_outputs_def chain_inputs_def chain_mints_def)

lemma chain_height:
  assumes "chain_ok bs" and "bs \<noteq> []"
  shows "unat (block_height (last bs)) = length bs"
  using assms by (simp add: chain_ok_def last_conv_nth)

lemma chain_at_last:
  assumes "chain_ok bs" and "bs \<noteq> []"
  shows "chain_at bs (block_height (last bs)) = Some (last bs)"
proof -
  have "0 < block_height (last bs)"
    using chain_height [OF assms] assms(2) by (metis length_greater_0_conv unat_gt_0 word_neq_0_conv)
  then show ?thesis using chain_height [OF assms] assms(2) by (simp add: chain_at_def last_conv_nth)
qed

lemma chain_at_snoc:
  assumes "unat (block_height b) = Suc (length bs)"
  shows "chain_at (bs @ [b]) k = (if k = block_height b then Some b else chain_at bs k)"
proof (cases "k = block_height b")
  case True
  then have "0 < k" using assms by (metis unat_eq_zero word_neq_0_conv old.nat.distinct(2))
  then show ?thesis using True assms by (simp add: chain_at_def nth_append)
next
  case False
  then have "unat k \<noteq> Suc (length bs)" using assms by (metis word_unat_eq_iff)
  moreover have "0 < unat k" if "0 < k" using that by (simp add: unat_gt_0)
  ultimately show ?thesis using False by (auto simp: chain_at_def nth_append)
qed

section \<open>Extending the chain by a validated block\<close>

text \<open>The premises under which the next block of the chain is committed.\<close>

definition extends_chain :: "node_env \<Rightarrow> element set \<Rightarrow> node_db \<Rightarrow> notes_tree \<Rightarrow> block list \<Rightarrow> block \<Rightarrow> bool" where
  "extends_chain E U db p bs b \<longleftrightarrow> content_validate E db p (bk_content b) = Ok () \<and>
     unat (block_height b) = Suc (length bs) \<and> set (outs b) \<subseteq> U \<and> set (chain_outputs bs) \<subseteq> U \<and>
     slots_distinct merkle_tree_depth U"

lemma extends_fits:
  assumes "tree_chain E p bs" and "extends_chain E U db p bs b"
  shows "state_fits p (bc_state (bk_content b))"
proof (rule content_validate_fits)
  show "content_validate E db p (bk_content b) = Ok ()" using assms(2) by (simp add: extends_chain_def)
  have "set (tree_elements (pe_tree p)) \<union> set (outs b) \<subseteq> U"
    using assms unfolding extends_chain_def tree_chain_def unspent_def by blast
  then show "slots_distinct merkle_tree_depth (set (tree_elements (pe_tree p)) \<union> set (outs b))"
    using assms(2) unfolding extends_chain_def slots_distinct_def by (blast intro: inj_on_subset)
qed

lemma extends_new_outputs:
  assumes "store_chain E db bs" and "extends_chain E U db p bs b"
  shows "set (outs b) \<inter> set (chain_outputs bs) = {}"
proof -
  have "get_element_history_with_kind db e OutputKind = Ok None" if e: "e \<in> set (outs b)" for e
  proof -
    obtain t where "t \<in> set (block_txns b)" "e \<in> set (non_zero (txn_outputs t))"
      using e by (auto simp: outputs_of_def non_zero_def)
    then obtain i where "get_element_history db e = Ok (i, None)"
      using assms(2) unfolding extends_chain_def content_validate_Ok txn_valid_def by blast
    then show ?thesis by (auto simp: get_element_history_def bind_o_Ok_iff)
  qed
  then show ?thesis using assms(1) unfolding store_chain_def by blast
qed

lemma extends_new_mints:
  assumes "store_chain E db bs" and "extends_chain E U db p bs b"
  shows "block_mints b \<inter> chain_mints bs = {}"
proof -
  have "get_mint_hash db m = Ok None" if "m \<in> block_mints b" for m
    using that assms(2) unfolding extends_chain_def content_validate_Ok txn_valid_def block_mints_def by blast
  then show ?thesis using assms(1) unfolding store_chain_def by blast
qed

lemma chain_ok_extend:
  assumes "chain_ok bs" and "store_chain E db bs" and "tree_chain E p bs" and "extends_chain E U db p bs b"
  shows "chain_ok (bs @ [b])" and "unspent (bs @ [b]) = unspent bs \<union> set (outs b) - set (ins b)"
proof -
  have f: "distinct (outs b @ ins b)" "set (outs b) \<inter> unspent bs = {}" "set (ins b) \<subseteq> unspent bs"
    using extends_fits [OF assms(3,4)] assms(3) unfolding state_fits_def tree_chain_def by simp_all
  note n = extends_new_outputs [OF assms(2,4)]
  have h: "unat (block_height b) = Suc (length bs)" using assms(4) by (simp add: extends_chain_def)
  have mints: "block_mints b \<inter> block_mints (bs ! j) = {}" if "j < length bs" for j
    using extends_new_mints [OF assms(2,4)] nth_mem [OF that] unfolding chain_mints_def by blast
  show "chain_ok (bs @ [b])"
    unfolding chain_ok_def
  proof (intro conjI)
    show "distinct (chain_outputs (bs @ [b]))" "distinct (chain_inputs (bs @ [b]))"
      using assms(1) f n by (auto simp: chain_ok_def unspent_def simp del: block_leaves)
    show "set (chain_inputs (bs @ [b])) \<subseteq> set (chain_outputs (bs @ [b]))"
      using assms(1) f by (auto simp: chain_ok_def unspent_def simp del: block_leaves)
    show "\<forall>i<length (bs @ [b]). unat (block_height ((bs @ [b]) ! i)) = Suc i"
      using assms(1) h by (auto simp: chain_ok_def nth_append less_Suc_eq)
    show "\<forall>i<length (bs @ [b]). \<forall>j<i. block_mints ((bs @ [b]) ! i) \<inter> block_mints ((bs @ [b]) ! j) = {}"
      using assms(1) mints by (simp add: chain_ok_def nth_append less_Suc_eq)
  qed
  show "unspent (bs @ [b]) = unspent bs \<union> set (outs b) - set (ins b)"
    using assms(1) n unfolding unspent_def chain_ok_def by (auto simp del: block_leaves)
qed

lemma tree_chain_apply:
  assumes "tree_chain E p bs" and "extends_chain E U db p bs b" and "chain_ok bs" and "store_chain E db bs"
  shows "\<exists>p'. apply_block_to_tree True tn E p (bc_state (bk_content b)) h = (p', Ok ()) \<and> tree_chain E p' (bs @ [b])"
proof -
  let ?st = "bc_state (bk_content b)"
  have inv: "persistent_inv merkle_tree_depth (tree_hash E) p" and el: "set (tree_elements (pe_tree p)) = unspent bs"
    using assms(1) by (simp_all add: tree_chain_def)
  have root: "new_root_hash E p (block_outputs ?st) (block_inputs ?st) = Ok (bs_root_hash ?st)"
    using assms(2) by (simp only: extends_chain_def content_validate_Ok)
  obtain p' where p': "apply_block_to_tree True tn E p ?st h = (p', Ok ())"
    "persistent_inv merkle_tree_depth (tree_hash E) p'" "root_hash (tree_hash E) (pe_tree p') = Ok (bs_root_hash ?st)"
    "set (tree_elements (pe_tree p')) = set (tree_elements (pe_tree p)) \<union> set (block_outputs ?st) - set (block_inputs ?st)"
    using apply_block_ok [OF inv extends_fits [OF assms(1,2)] root, of tn h] by blast
  have "tree_chain E p' (bs @ [b])"
    using p'(2-4) el chain_ok_extend(2) [OF assms(3,4,1,2)] by (simp add: tree_chain_def)
  with p'(1) show ?thesis by blast
qed

text \<open>Every block of the chain was validated by a node that had the blocks before it.\<close>

definition validated :: "node_env \<Rightarrow> element set \<Rightarrow> block list \<Rightarrow> bool" where
  "validated E U bs \<longleftrightarrow> (\<forall>i < length bs. \<exists>db p. store_chain E db (take i bs) \<and> tree_chain E p (take i bs) \<and>
     extends_chain E U db p (take i bs) (bs ! i))"

lemma validated_Nil [simp]: "validated E U []"
  by (simp add: validated_def)

lemma validated_snoc:
  assumes "validated E U bs" and "store_chain E db bs" and "tree_chain E p bs" and "extends_chain E U db p bs b"
  shows "validated E U (bs @ [b])"
  using assms by (auto simp: validated_def nth_append less_Suc_eq)

lemma validated_chain_ok:
  assumes "validated E U bs" and "i \<le> length bs"
  shows "chain_ok (take i bs)"
  using assms(2)
proof (induction i)
  case 0
  then show ?case by (simp add: chain_ok_def)
next
  case (Suc i)
  then obtain db p where "store_chain E db (take i bs)" "tree_chain E p (take i bs)" "extends_chain E U db p (take i bs) (bs ! i)"
    using assms(1) unfolding validated_def by (meson Suc_le_lessD)
  then show ?case using chain_ok_extend(1) [of "take i bs" E db p U "bs ! i"] Suc by (simp add: take_Suc_conv_app_nth)
qed

lemma format_proofs: "map format_proof (format_txns E (BlockV2 b ts)) = block_txns b"
proof -
  have "format_proof (set_block_time ts t) = format_proof t" for t by (cases t) simp
  then show ?thesis by (simp add: txns_of_block_def comp_def case_prod_beta')
qed

lemma node_entries:
  "(\<exists>t \<in> set (bl_txns (node_trait E) (BlockV2 b ts)). e \<in> set (tx_outputs (node_trait E) t)) \<longleftrightarrow> e \<in> set (outs b)"
  "(\<exists>t \<in> set (bl_txns (node_trait E) (BlockV2 b ts)). e \<in> set (tx_inputs (node_trait E) t)) \<longleftrightarrow> e \<in> set (ins b)"
  "(\<exists>t \<in> set (bl_txns (node_trait E) (BlockV2 b ts)). tx_mint_hash (node_trait E) t = Some m) \<longleftrightarrow> m \<in> block_mints b"
proof -
  have r: "(\<exists>t \<in> set (bl_txns (node_trait E) (BlockV2 b ts)). P (format_proof t)) \<longleftrightarrow> (\<exists>t \<in> set (block_txns b). P t)" for P
    unfolding format_proofs [of E b ts, symmetric] by (simp only: node_trait_def block_trait.simps set_map bex_simps)
  show "(\<exists>t \<in> set (bl_txns (node_trait E) (BlockV2 b ts)). e \<in> set (tx_outputs (node_trait E) t)) \<longleftrightarrow> e \<in> set (outs b)"
    using r [of "\<lambda>t. e \<in> set (non_zero (txn_outputs t))"] by (auto simp: node_trait_def outputs_of_def non_zero_def)
  show "(\<exists>t \<in> set (bl_txns (node_trait E) (BlockV2 b ts)). e \<in> set (tx_inputs (node_trait E) t)) \<longleftrightarrow> e \<in> set (ins b)"
    using r [of "\<lambda>t. e \<in> set (non_zero (txn_inputs t))"] by (auto simp: node_trait_def inputs_of_def non_zero_def)
  show "(\<exists>t \<in> set (bl_txns (node_trait E) (BlockV2 b ts)). tx_mint_hash (node_trait E) t = Some m) \<longleftrightarrow> m \<in> block_mints b"
    using r [of "\<lambda>t. txn_mint_hash t = Some m"] by (auto simp: node_trait_def block_mints_def)
qed

lemma store_chain_set:
  assumes T: "trait_ok (node_trait E)" and c: "store_chain E db bs" and ok: "chain_ok bs"
    and h: "unat (block_height b) = Suc (length bs)"
  shows "\<exists>db'. store_set (node_trait E) (BlockV2 b ts) db = Ok db' \<and> store_chain E db' (bs @ [b])"
proof -
  let ?T = "node_trait E"
  have inv: "store_inv ?T db" using c by (simp add: store_chain_def)
  have bh: "bl_height ?T (BlockV2 b ts) = block_height b" by (simp add: node_trait_def)
  obtain db' m where s: "store_set ?T (BlockV2 b ts) db = Ok db'" "store_inv ?T db'" "get_max_height db = Ok m"
    "db' = db_put_all (set_entries ?T (BlockV2 b ts) m) db"
    using store_set_ok [OF T inv] by blast
  note r = store_set_reads [OF T inv s(1,3)]
  have m: "m = (if bs = [] then None else Some (block_height (last bs)))"
    using c s(3) by (simp add: store_chain_def)
  have "block_height (last bs) < block_height b" if "bs \<noteq> []"
    using chain_height [OF ok that] h by (simp add: word_less_nat_alt)
  then have mx: "get_max_height db' = Ok (Some (block_height b))"
    using r(2) by (auto simp: m bh max_def)
  have "stored db' KStoreVersion = stored db KStoreVersion"
    unfolding s(4) by (rule stored_put_all_other [OF inv set_entries_ok [OF T]])
      (auto simp: set_entries_def txn_entries_def history_entries_def non_empty_key_def Let_def split: option.splits if_splits)
  then have v: "store_version db' = Ok LATEST_VERSION"
    using c by (simp add: store_chain_def store_version_def stored_def)
  have g: "\<exists>f. store_get db' k = Ok f \<and> map_option into_block f = chain_at (bs @ [b]) k" for k
    using r(1) [of k] c by (auto simp: bh chain_at_snoc [OF h] store_chain_def)
  have "bl_txns ?T (BlockV2 b ts) \<noteq> [] \<longleftrightarrow> block_txns b \<noteq> []"
    using format_proofs [of E b ts] by (auto simp: node_trait_def)
  then have ne: "stored db' (KNonEmptyBlock k) = (if block_txns b \<noteq> [] \<and> k = block_height b then Some (VBlock (BlockV2 b ts))
      else stored db (KNonEmptyBlock k))" for k
    unfolding s(4) by (intro stored_set [OF T inv]) (auto simp: set_entries_mem bh)
  have fresh: "non_empty_at bs (block_height b) = None" by (simp add: non_empty_at_def chain_at_def h)
  have n: "\<exists>f. stored db' (KNonEmptyBlock k) = map_option VBlock f \<and> map_option into_block f = non_empty_at (bs @ [b]) k" for k
  proof -
    obtain f where f: "stored db (KNonEmptyBlock k) = map_option VBlock f" "map_option into_block f = non_empty_at bs k"
      using c unfolding store_chain_def by blast
    have "non_empty_at (bs @ [b]) k = (if k = block_height b \<and> block_txns b \<noteq> [] then Some b else non_empty_at bs k)"
      using fresh by (auto simp: non_empty_at_def chain_at_snoc [OF h])
    then show ?thesis using f ne [of k]
      by (cases "k = block_height b \<and> block_txns b \<noteq> []") (auto intro: exI [of _ "Some (BlockV2 b ts)"])
  qed
  note c' = c [unfolded store_chain_def]
  have "get_element_history_with_kind db' e OutputKind = Ok None \<longleftrightarrow> e \<notin> set (chain_outputs (bs @ [b]))"
    "get_element_history_with_kind db' e InputKind = Ok None \<longleftrightarrow> e \<notin> set (chain_inputs (bs @ [b]))"
    "get_mint_hash db' m = Ok None \<longleftrightarrow> m \<notin> chain_mints (bs @ [b])" for e m
    using r(4) [of e OutputKind] r(4) [of e InputKind] r(5) [of m] c'
    by (simp_all add: node_entries del: block_leaves)
  then show ?thesis
    using s(1,2) v mx g n by (simp add: store_chain_def)
qed

section \<open>Loading the databases\<close>

lemma tree_chain_load:
  assumes "tree_chain E p bs"
  shows "\<exists>p'. load_smirk E tn (pe_db p) = Ok p' \<and> tree_chain E p' bs"
proof -
  have inv: "persistent_inv merkle_tree_depth (tree_hash E) p" using assms by (simp add: tree_chain_def)
  obtain t where t: "load_tree tn merkle_tree_depth (tree_hash E) (pe_db p) = Ok t"
    "tree_inv (tree_hash E) (simple_inv (tree_hash E)) merkle_tree_depth t"
    "tree_get t = tree_get (pe_tree p)" "root_hash (tree_hash E) t = root_hash (tree_hash E) (pe_tree p)"
    using load_tree_ok [OF inv, of tn] by blast
  let ?p = "\<lparr>pe_tree = t, pe_db = pe_db p\<rparr>"
  have "load_smirk E tn (pe_db p) = Ok ?p" by (simp add: load_smirk_def persistent_load_def t(1))
  moreover have "tree_chain E ?p bs"
    using assms inv t(2-4) by (simp add: tree_chain_def persistent_inv_def tree_elements_dom)
  ultimately show ?thesis by blast
qed

text \<open>Two trees of the same chain have the same root and accept the same next blocks.\<close>

lemma tree_chain_root:
  assumes "tree_chain E p bs" and "tree_chain E p' bs"
  shows "root_hash (tree_hash E) (pe_tree p) = root_hash (tree_hash E) (pe_tree p')"
  using assms by (auto simp: tree_chain_def persistent_inv_def intro: root_hash_same_elements)

lemma tree_chain_root_Ok:
  assumes "tree_chain E p bs"
  obtains r where "root_hash (tree_hash E) (pe_tree p) = Ok r"
  using assms root_hash_spec [of "tree_hash E" _ merkle_tree_depth "pe_tree p"]
  unfolding tree_chain_def persistent_inv_def by blast

lemma new_root_hash_same:
  assumes "tree_chain E p bs" and "tree_chain E p' bs" and "state_fits p st"
  shows "new_root_hash E p' (block_outputs st) (block_inputs st) = new_root_hash E p (block_outputs st) (block_inputs st)"
proof -
  have inv: "persistent_inv merkle_tree_depth (tree_hash E) p" "persistent_inv merkle_tree_depth (tree_hash E) p'"
    and el: "set (tree_elements (pe_tree p')) = set (tree_elements (pe_tree p))"
    using assms(1,2) by (simp_all add: tree_chain_def)
  have fits': "state_fits p' st" using assms(3) el by (simp add: state_fits_def)
  obtain r r' where r: "new_root_hash E p (block_outputs st) (block_inputs st) = Ok r"
    "new_root_hash E p' (block_outputs st) (block_inputs st) = Ok r'"
    using new_root_hash_ok [OF inv(1) assms(3)] new_root_hash_ok [OF inv(2) fits'] by blast
  let ?s = "\<lambda>r. st\<lparr>bs_root_hash := r\<rparr>"
  have f: "state_fits p (?s r)" "state_fits p' (?s r')" using assms(3) fits' by (simp_all add: state_fits_def)
  obtain q :: notes_tree where q: "persistent_inv merkle_tree_depth (tree_hash E) q" "root_hash (tree_hash E) (pe_tree q) = Ok r"
    "set (tree_elements (pe_tree q)) = set (tree_elements (pe_tree p)) \<union> set (block_outputs st) - set (block_inputs st)"
    using apply_block_ok [OF inv(1) f(1), of True 0] r(1) by simp blast
  obtain q' :: notes_tree where q': "persistent_inv merkle_tree_depth (tree_hash E) q'" "root_hash (tree_hash E) (pe_tree q') = Ok r'"
    "set (tree_elements (pe_tree q')) = set (tree_elements (pe_tree p)) \<union> set (block_outputs st) - set (block_inputs st)"
    using apply_block_ok [OF inv(2) f(2), of True 0] r(2) el by simp blast
  have "root_hash (tree_hash E) (pe_tree q) = root_hash (tree_hash E) (pe_tree q')"
    using q q' by (intro root_hash_same_elements) (auto simp: persistent_inv_def)
  then show ?thesis using r q(2) q'(2) by simp
qed

lemma extends_same:
  assumes "tree_chain E p bs" and "tree_chain E p' bs" and "extends_chain E U db p bs b"
  shows "extends_chain E U db p' bs b"
proof -
  have "contains_element (pe_tree p') e \<longleftrightarrow> contains_element (pe_tree p) e" for e
    using assms(1,2) by (simp add: contains_element_iff tree_chain_def)
  then have "txn_valid E db p' t \<longleftrightarrow> txn_valid E db p t" for t by (simp add: txn_valid_def)
  then have "content_validate E db p' (bk_content b) = Ok () \<longleftrightarrow> content_validate E db p (bk_content b) = Ok ()"
    using new_root_hash_same [OF assms(1,2) extends_fits [OF assms(1,3)]] by (simp add: content_validate_Ok)
  then show ?thesis using assms(3) by (simp add: extends_chain_def)
qed

lemma tree_chain_new: "tree_chain E (persistent_new merkle_tree_depth) []"
  using demo_notes_inv demo_notes_empty by (simp add: tree_chain_def unspent_def)

lemma load_reset_ok:
  "\<exists>p. load_reset E tn True db = Ok \<lparr>ld_store = db, ld_tree = p, ld_block = block_genesis\<rparr> \<and> tree_chain E p []"
proof -
  let ?p0 = "persistent_new merkle_tree_depth :: notes_tree"
  have db: "pe_db ?p0 = []" by (simp add: persistent_new_def)
  obtain p where p: "load_smirk E tn [] = Ok p" "tree_chain E p []"
    using tree_chain_load [OF tree_chain_new, of E tn] unfolding db by blast
  obtain r where r: "root_hash (tree_hash E) (pe_tree p) = Ok r" using tree_chain_root_Ok [OF p(2)] .
  then have "root_hash (tree_hash E) (pe_tree ?p0) = Ok r" using tree_chain_root [OF p(2) tree_chain_new] by simp
  with r have "load_reset E tn True db = Ok \<lparr>ld_store = db, ld_tree = p, ld_block = block_genesis\<rparr>"
    by (simp add: load_reset_def p(1) empty_notes_root_def)
  with p(2) show ?thesis by blast
qed

lemma store_chain_get:
  assumes "store_chain E db bs" and "chain_at bs k = Some b"
  obtains f where "store_get db k = Ok (Some f)" "into_block f = b"
  using assms unfolding store_chain_def by (metis map_option_eq_Some)

lemma load_clean:
  assumes "store_chain E db bs" and "tree_chain E p bs" and "chain_ok bs"
  shows "\<exists>d. load_db_and_smirk E io True db (pe_db p) = Ok d \<and> ld_store d = db \<and> tree_chain E (ld_tree d) bs \<and>
     ld_block d = (if bs = [] then block_genesis else last bs)"
proof -
  obtain p' where p': "load_smirk E (ci_temp_noir io) (pe_db p) = Ok p'" "tree_chain E p' bs"
    using tree_chain_load [OF assms(2)] by blast
  show ?thesis
  proof (cases "bs = []")
    case True
    then have "get_max_height db = Ok None" using assms(1) by (simp add: store_chain_def)
    then show ?thesis
      using True load_reset_ok [of E "ci_temp_noir io" db] by (auto simp: load_db_and_smirk_def p'(1))
  next
    case False
    then have m: "get_max_height db = Ok (Some (block_height (last bs)))" using assms(1) by (simp add: store_chain_def)
    obtain f where f: "store_get db (block_height (last bs)) = Ok (Some f)" "into_block f = last bs"
      using store_chain_get [OF assms(1) chain_at_last [OF assms(3) False]] .
    have "root_hash (tree_hash E) (pe_tree p') = Ok (block_root (last bs))"
      using p'(2) False by (simp add: tree_chain_def)
    then show ?thesis using False p'(2) by (simp add: load_db_and_smirk_def p'(1) m f)
  qed
qed

text \<open>
  The node stopped between the two writes of a commit: the store has the block, the tree does not.
\<close>

lemma chain_at_previous:
  assumes "chain_ok (bs @ [b])" and "bs \<noteq> []"
  shows "chain_at (bs @ [b]) (block_height b - 1) = Some (last bs)"
proof -
  have h: "unat (block_height b) = Suc (length bs)"
    using chain_height [OF assms(1)] by simp
  then have "unat (block_height b - 1) = length bs"
    by (metis One_nat_def Suc_eq_plus1 add_diff_cancel_right' unat_minus_one unat_0 nat.distinct(1))
  moreover from this have "0 < block_height b - 1"
    using assms(2) by (metis length_greater_0_conv unat_gt_0 word_neq_0_conv)
  ultimately show ?thesis using assms(2) by (simp add: chain_at_def nth_append last_conv_nth)
qed

lemma load_crashed:
  assumes "store_chain E db bs" and "tree_chain E p bs" and "chain_ok bs" and "extends_chain E U db p bs b"
    and set: "store_chain E db' (bs @ [b])" and "bs \<noteq> []" and io: "ci_write_ok io"
    and chg: "root_hash (tree_hash E) (pe_tree p) = Ok (block_root b) \<longrightarrow> outs b = [] \<and> ins b = []"
  shows "\<exists>d. load_db_and_smirk E io rn db' (pe_db p) = Ok d \<and> ld_store d = db' \<and>
     tree_chain E (ld_tree d) (bs @ [b]) \<and> ld_block d = b"
proof -
  obtain p' where p': "load_smirk E (ci_temp_noir io) (pe_db p) = Ok p'" "tree_chain E p' bs"
    using tree_chain_load [OF assms(2)] by blast
  note ext = extends_same [OF assms(2) p'(2) assms(4)]
  have ok: "chain_ok (bs @ [b])" and un: "unspent (bs @ [b]) = unspent bs \<union> set (outs b) - set (ins b)"
    by (rule chain_ok_extend [OF assms(3,1,2,4)])+
  have root: "root_hash (tree_hash E) (pe_tree p') = Ok (block_root (last bs))"
    using p'(2) assms(6) by (simp add: tree_chain_def)
  have m: "get_max_height db' = Ok (Some (block_height b))" using set by (simp add: store_chain_def)
  obtain f where f: "store_get db' (block_height b) = Ok (Some f)" "into_block f = b"
    using store_chain_get [OF set chain_at_last [OF ok]] by auto
  obtain f' where f': "store_get db' (block_height b - 1) = Ok (Some f')" "into_block f' = last bs"
    using store_chain_get [OF set chain_at_previous [OF ok assms(6)]] .
  have "block_height b \<noteq> 0" using assms(4) by (auto simp: extends_chain_def)
  show ?thesis
  proof (cases "block_root (last bs) = block_root b")
    case True
    then have "outs b = []" "ins b = []" using chg root tree_chain_root [OF assms(2) p'(2)] by simp_all
    then have "tree_chain E p' (bs @ [b])" using p'(2) root True un by (simp add: tree_chain_def)
    then show ?thesis using True by (simp add: load_db_and_smirk_def p'(1) m f root)
  next
    case False
    obtain q where q: "apply_block_to_tree True (ci_temp_noir io) E p' (bc_state (bk_content b)) (block_height b) = (q, Ok ())"
      "tree_chain E q (bs @ [b])"
      using tree_chain_apply [OF p'(2) ext assms(3,1)] by blast
    have "root_hash (tree_hash E) (pe_tree q) = Ok (block_root b)" using q(2) by (simp add: tree_chain_def)
    then show ?thesis
      using False \<open>block_height b \<noteq> 0\<close> q io by (simp add: load_db_and_smirk_def p'(1) m f f' root)
  qed
qed

lemma load_first_crashed:
  assumes "tree_chain E p []" and "chain_ok [b]" and "store_chain E db' [b]"
    and "root_hash (tree_hash E) (pe_tree p) \<noteq> Ok (block_root b)"
  shows "load_db_and_smirk E io rn db' (pe_db p) = Panic"
proof -
  obtain p' where p': "load_smirk E (ci_temp_noir io) (pe_db p) = Ok p'" "tree_chain E p' []"
    using tree_chain_load [OF assms(1)] by blast
  obtain r where r: "root_hash (tree_hash E) (pe_tree p') = Ok r" using tree_chain_root_Ok [OF p'(2)] .
  then have "r \<noteq> block_root b" using assms(4) tree_chain_root [OF assms(1) p'(2)] by simp
  moreover have "unat (block_height b) = 1" using chain_height [OF assms(2)] by simp
  then have h: "block_height b = 1" by (metis unat_1 word_unat_eq_iff)
  have m: "get_max_height db' = Ok (Some 1)" using assms(3) by (simp add: store_chain_def h)
  have "chain_at [b] 1 = Some b" "chain_at [b] 0 = None" by (simp_all add: chain_at_def)
  then obtain f where f: "store_get db' 1 = Ok (Some f)" "into_block f = b" "store_get db' 0 = Ok None"
    using store_chain_get [OF assms(3)] assms(3) unfolding store_chain_def by (metis map_option_is_None)
  ultimately show ?thesis by (simp add: load_db_and_smirk_def p'(1) m f r)
qed

end
