(* ===== verification/Node_Run.thy ===== *)
theory Node_Run
  imports Node_Ledger
begin

text \<open>
  Runs of a node: transactions and proposals arrive, the worker ticks, the node is stopped and
  started again, also in the middle of a commit. In every state of a run the two databases hold one
  chain without double spends and the block cache stands at its end.
\<close>

section \<open>The cache and the mempool keep their contents within a set\<close>

definition cache_within :: "node_env \<Rightarrow> element set \<Rightarrow> block_cache \<Rightarrow> bool" where
  "cache_within E U c \<longleftrightarrow> cache_inv E c \<and> (\<forall>k b. get_by_height c k = Some b \<longrightarrow> set (outs b) \<subseteq> U)"

definition pool_within :: "element set \<Rightarrow> node_pool \<Rightarrow> bool" where
  "pool_within U mp \<longleftrightarrow> (\<forall>k t. map_of (mp_txns mp) k = Some t \<longrightarrow> set (non_zero (txn_outputs (mt_txn t))) \<subseteq> U)"

lemma cache_remove_ok:
  assumes inv: "cache_inv E c" and b: "map_of (ca_blocks c) hash = Some b"
  shows "cache_inv E (cache_remove c hash)"
    and "get_by_height (cache_remove c hash) k = (if k = block_height b then None else get_by_height c k)"
    and "set (bt_keys (ca_hash_heights (cache_remove c hash))) = set (bt_keys (ca_hash_heights c)) - {block_height b}"
    and "ca_height (cache_remove c hash) = ca_height c"
proof -
  let ?c = "cache_remove c hash"
  have bt: "bt_inv (ca_hash_heights c)" and d: "distinct (map fst (ca_blocks c))"
    using inv by (simp_all add: cache_inv_def)
  note get = bt_get_remove [OF bt]
  have c: "ca_hash_heights ?c = bt_remove (block_height b) (ca_hash_heights c)"
    "ca_blocks ?c = AList.delete hash (ca_blocks c)" "ca_height ?c = ca_height c"
    by (simp_all add: cache_remove_def b)
  have other: "h = block_height b" if "bt_get (ca_hash_heights c) h = Some hash" for h
    using cache_invD [OF inv that] b by (metis option.inject)
  show "cache_inv E ?c"
  proof (rule cache_invI)
    show "bt_inv (ca_hash_heights ?c)" "distinct (map fst (ca_blocks ?c))"
      using bt_inv_remove [OF bt] d by (simp_all add: c distinct_delete)
    show "hash' = block_hash E b'" if "map_of (ca_blocks ?c) hash' = Some b'" for hash' b'
      using that inv by (auto simp: c delete_conv' cache_inv_def split: if_splits)
    fix h x assume x: "bt_get (ca_hash_heights ?c) h = Some x"
    then have h: "h \<noteq> block_height b" "bt_get (ca_hash_heights c) h = Some x" by (auto simp: c get split: if_splits)
    then have "x \<noteq> hash" using other by blast
    then show "\<exists>b. map_of (ca_blocks ?c) x = Some b \<and> block_height b = h"
      using cache_invD [OF inv h(2)] by (auto simp: c delete_conv')
  qed
  show "get_by_height ?c k = (if k = block_height b then None else get_by_height c k)"
    using other by (auto simp: get_by_height_def c get delete_conv' split: bind_splits)
  show "set (bt_keys (ca_hash_heights ?c)) = set (bt_keys (ca_hash_heights c)) - {block_height b}"
    using set_bt_keys_remove [OF bt] by (simp add: c)
  show "ca_height ?c = ca_height c" by (rule c)
qed

lemma cache_remove_within:
  assumes "cache_within E U c" shows "cache_within E U (cache_remove c hash)"
proof (cases "map_of (ca_blocks c) hash")
  case (Some b)
  then show ?thesis
    using assms cache_remove_ok [of E c hash b] by (auto simp: cache_within_def split: if_splits)
qed (use assms in \<open>simp add: cache_remove_def\<close>)

lemma put_block_within:
  assumes "cache_within E U c" and "hash_fixes_height E" and "set (outs b) \<subseteq> U"
  shows "cache_within E U (put_block E b c)"
  using assms put_block_ok [of E c b] by (auto simp: cache_within_def simp del: block_leaves split: if_splits)

lemma cache_remove_height: "ca_height (cache_remove c hash) = ca_height c"
  by (simp add: cache_remove_def split: option.splits)

lemma cache_within_max [simp]:
  "cache_within E U (c\<lparr>ca_max_height := m\<rparr>) = cache_within E U c"
  "cache_within E U (c\<lparr>ca_height := h\<rparr>) = cache_within E U c"
  by (simp_all add: cache_within_def)

lemma cache_insert_within:
  assumes "cache_within E U c" and "hash_fixes_height E" and "set (outs b) \<subseteq> U"
  shows "cache_within E U (cache_insert E b c)" and "ca_height (cache_insert E b c) = ca_height c"
proof -
  have put: "cache_within E U (put_block E b c)" if "cache_within E U c" for c
    by (rule put_block_within [OF that assms(2,3)])
  show "cache_within E U (cache_insert E b c)"
    using assms(1) by (simp add: cache_insert_eq Let_def put cache_remove_within)
  show "ca_height (cache_insert E b c) = ca_height c"
    by (simp add: cache_insert_eq Let_def cache_remove_height put_block_def)
qed

lemma confirm_within:
  assumes "cache_within E U c" and "hash_fixes_height E"
  shows "cache_within E U (confirm h c)" and "ca_height (confirm h c) = h"
  using assms confirm_ok [of E c h] by (auto simp: cache_within_def split: if_splits)

lemma pool_within_commit:
  assumes "pool_within U mp" and "mp_commit mp l krs = (mp', sent)"
  shows "pool_within U mp'"
proof -
  have "map_of (mp_txns mp') = map_of (mp_txns mp) |` (- fst ` set krs)"
    using assms(2) commit_loop_txns [of l mp krs] by (auto simp: mp_commit_def mp_free_def Let_def split: prod.splits)
  then show ?thesis using assms(1) by (auto simp: pool_within_def restrict_map_def split: if_splits)
qed

lemma pool_within_add:
  assumes "pool_within U mp" and "set (non_zero (txn_outputs t)) \<subseteq> U" and "mp_add mp k t changes ch = Ok mp'"
  shows "pool_within U mp'"
proof -
  have "mp_txns mp' = AList.update k \<lparr>mt_txn = t, mt_sender = ch, mt_changes = changes\<rparr> (mp_txns mp)"
    using assms(3) by (auto simp: mp_add_def split: option.splits if_splits)
  then show ?thesis using assms(1,2) by (simp add: pool_within_def update_conv')
qed

lemma lease_loop_txns:
  "lease_loop ts lease n pool leased txns discard check = Ok (pool', leased', txns', discard') \<Longrightarrow>
     x \<in> set txns' \<Longrightarrow> x \<in> set txns \<or> (\<exists>t. map_of ts (fst x) = Some t \<and> snd x = mt_txn t)"
proof (induction ts lease n pool leased txns discard check rule: lease_loop.induct)
  case (2 ts lease n key pool leased txns discard check)
  then show ?case by (fastforce simp: Let_def split: option.splits if_splits)
qed simp

lemma lease_batch_within:
  assumes "pool_within U mp" and "lease_batch mp l n = Ok (mp', utxos)"
  shows "pool_within U mp'" and "\<forall>t \<in> set (map snd utxos). set (non_zero (txn_outputs t)) \<subseteq> U"
proof -
  obtain pool leased discard where l: "lease_loop (mp_txns mp) l n (mp_pool mp) (mp_leased mp) [] [] [] = Ok (pool, leased, utxos, discard)"
    and mp': "mp_txns mp' = mp_txns mp"
    using assms(2) by (auto simp: lease_batch_def bind_o_Ok_iff)
  show "pool_within U mp'" using assms(1) mp' by (simp add: pool_within_def)
  show "\<forall>t \<in> set (map snd utxos). set (non_zero (txn_outputs t)) \<subseteq> U"
    using lease_loop_txns [OF l] assms(1) unfolding pool_within_def by fastforce
qed

section \<open>The invariant\<close>

text \<open>
  What is assumed of the environment: block hashes have 32 bytes and determine the height, the
  commitments in use have different slots in the tree, and no height is exempt from validation.
\<close>

definition node_setup :: "node_env \<Rightarrow> node_config \<Rightarrow> element set \<Rightarrow> bool" where
  "node_setup E cf U \<longleftrightarrow> (\<forall>bs. length (ne_keccak E bs) = 32) \<and> hash_fixes_height E \<and>
     slots_distinct merkle_tree_depth U \<and> cf_bad_blocks cf = []"

definition ledger :: "node_env \<Rightarrow> element set \<Rightarrow> node_state \<Rightarrow> block list \<Rightarrow> bool" where
  "ledger E U s bs \<longleftrightarrow> chain_ok bs \<and> store_chain E (ns_store s) bs \<and> tree_chain E (ns_tree s) bs \<and>
     set (chain_outputs bs) \<subseteq> U \<and> validated E U bs"

definition node_inv :: "node_env \<Rightarrow> element set \<Rightarrow> node_state \<Rightarrow> block list \<Rightarrow> bool" where
  "node_inv E U s bs \<longleftrightarrow> ledger E U s bs \<and> unat (ca_height (ns_cache s)) = length bs \<and>
     cache_within E U (ns_cache s) \<and> pool_within U (ns_mempool s)"

lemma node_trait_ok: "node_setup E cf U \<Longrightarrow> trait_ok (node_trait E)"
  by (simp add: node_setup_def trait_ok_def node_trait_def block_hash_def content_hash_def)

lemma ledger_fields [simp]:
  "ledger E U (s\<lparr>ns_cache := c\<rparr>) = ledger E U s" "ledger E U (s\<lparr>ns_mempool := mp\<rparr>) = ledger E U s"
  "ledger E U (s\<lparr>ns_last_commit := t\<rparr>) = ledger E U s" "ledger E U (s\<lparr>ns_listeners := ls\<rparr>) = ledger E U s"
  by (simp_all add: ledger_def fun_eq_iff)

lemma validate_block_content:
  assumes "validate_block E bad db p b = Ok ()" and "bad = []"
  shows "content_validate E db p (bk_content b) = Ok ()"
  using assms by (auto simp: validate_block_def bind_o_Ok_iff split: if_splits)

lemma next_extends:
  assumes "node_setup E cf U" and "ledger E U s bs" and "unat (block_height b) = Suc (length bs)"
    and "set (outs b) \<subseteq> U" and "validate_block E (cf_bad_blocks cf) (ns_store s) (ns_tree s) b = Ok ()"
  shows "extends_chain E U (ns_store s) (ns_tree s) bs b"
  using assms validate_block_content [OF assms(5)]
  by (simp add: extends_chain_def node_setup_def ledger_def)

section \<open>Committing a block\<close>

lemma commit_ok:
  assumes su: "node_setup E cf U" and led: "ledger E U s bs" and io: "ci_write_ok io"
    and ext: "extends_chain E U (ns_store s) (ns_tree s) bs b"
  shows "\<exists>s' out. commit_proposal E io op s b = (s', out, Ok ()) \<and> ledger E U s' (bs @ [b]) \<and>
     ns_cache s' = ns_cache s \<and> ns_listeners s' = filter op (ns_listeners s) \<and>
     (\<exists>sent. mp_commit (ns_mempool s) (block_height b) (map (\<lambda>t. (txn_hash E t, Inr b)) (block_txns b)) = (ns_mempool s', sent) \<and>
        out = map (\<lambda>(ch, r). TxnResult ch r) sent @ map (\<lambda>ch. Committed ch b) (filter op (ns_listeners s))) \<and>
     store_get (ns_store s') (block_height b) = Ok (Some (BlockV2 b (Some (ci_unix_s io))))"
proof -
  have l: "chain_ok bs" "store_chain E (ns_store s) bs" "tree_chain E (ns_tree s) bs" "set (chain_outputs bs) \<subseteq> U" "validated E U bs"
    using led by (simp_all add: ledger_def)
  have h: "unat (block_height b) = Suc (length bs)" "set (outs b) \<subseteq> U" using ext by (simp_all add: extends_chain_def)
  note T = node_trait_ok [OF su]
  obtain db where db: "store_set (node_trait E) (BlockV2 b (Some (ci_unix_s io))) (ns_store s) = Ok db"
    "store_chain E db (bs @ [b])"
    using store_chain_set [OF T l(2,1) h(1)] by blast
  obtain p where p: "apply_block_to_tree True (ci_temp_noir io) E (ns_tree s) (bc_state (bk_content b)) (block_height b) = (p, Ok ())"
    "tree_chain E p (bs @ [b])"
    using tree_chain_apply [OF l(3) ext l(1,2)] by blast
  have ins: "\<not> list_ex (\<lambda>e. \<not> contains_element (pe_tree (ns_tree s)) e) (ins b)"
    using extends_fits [OF l(3) ext] by (auto simp: state_fits_def list_ex_iff contains_element_iff)
  obtain mp and sent :: "(nat \<times> (node_error + block)) list" where mp: "mp_commit (ns_mempool s) (block_height b) (map (\<lambda>t. (txn_hash E t, Inr b)) (block_txns b)) = (mp, sent)"
    by fastforce
  let ?s = "s\<lparr>ns_last_commit := Some (ci_now io), ns_store := db, ns_tree := p, ns_mempool := mp,
    ns_listeners := filter op (ns_listeners s)\<rparr>"
  let ?out = "map (\<lambda>(ch, r). TxnResult ch r) sent @ map (\<lambda>ch. Committed ch b) (filter op (ns_listeners s))"
  have "commit_proposal E io op s b = (?s, ?out, Ok ())"
    using ins db(1) p(1) mp io by (simp add: commit_proposal_def Let_def comp_def del: block_leaves)
  moreover have "ledger E U ?s (bs @ [b])"
    using db(2) p(2) chain_ok_extend(1) [OF l(1-3) ext] l(4) h(2) validated_snoc [OF l(5,2,3) ext]
    by (simp add: ledger_def del: block_leaves)
  moreover have "store_inv (node_trait E) (ns_store s)" "\<exists>m. get_max_height (ns_store s) = Ok m"
    using l(2) by (simp_all add: store_chain_def)
  then have "store_get db (block_height b) = Ok (Some (BlockV2 b (Some (ci_unix_s io))))"
    using store_set_reads(1) [OF T _ db(1)] by (auto simp: node_trait_def)
  ultimately show ?thesis
    using mp by (intro exI [of _ ?s] exI [of _ ?out] exI [of _ sent] conjI) simp_all
qed

section \<open>The worker\<close>

lemma height_add_unat: "height_add a b = Ok c \<Longrightarrow> unat c = unat a + unat b"
  by (auto simp: height_add_def unat_word_ariths split: if_splits)

lemma next_block:
  assumes inv: "node_inv E U s bs" and nxt: "get_next_commit_block (ns_cache s) = Ok (Some b)"
  shows "unat (block_height b) = Suc (length bs)" and "set (outs b) \<subseteq> U"
    and "get_by_height (ns_cache s) (block_height b) = Some b" and "ca_height (ns_cache s) < block_height b"
    and "map_of (ca_blocks (ns_cache s)) (block_hash E b) = Some b"
    and "block_height b \<in> set (bt_keys (ca_hash_heights (ns_cache s)))"
proof -
  let ?c = "ns_cache s"
  obtain h where h: "height_add (ca_height ?c) 1 = Ok h" "get_by_height ?c h = Some b"
    using nxt by (auto simp: get_next_commit_block_def bind_o_Ok_iff)
  have c: "cache_inv E ?c" and within: "cache_within E U ?c" and len: "unat (ca_height ?c) = length bs"
    using inv by (simp_all add: node_inv_def cache_within_def)
  have b: "block_height b = h" "bt_get (ca_hash_heights ?c) h = Some (block_hash E b)"
    by (rule get_by_height_Some [OF c h(2)])+
  show "unat (block_height b) = Suc (length bs)" "ca_height ?c < block_height b"
    using height_add_unat [OF h(1)] len by (simp_all add: b(1) word_less_nat_alt)
  show "set (outs b) \<subseteq> U" "get_by_height ?c (block_height b) = Some b"
    using within h(2) b(1) unfolding cache_within_def by blast+
  show "map_of (ca_blocks ?c) (block_hash E b) = Some b" using h(2) b(2) by (simp add: get_by_height_def)
  have "bt_inv (ca_hash_heights ?c)" using c by (simp add: cache_inv_def)
  then show "block_height b \<in> set (bt_keys (ca_hash_heights ?c))"
    using b bt_get_None_iff [of "ca_hash_heights ?c" h] by auto
qed

text \<open>The blocks of the cache above the confirmed one: each round of the loop uses one up.\<close>

definition pending_blocks :: "node_state \<Rightarrow> nat" where
  "pending_blocks s = card {k \<in> set (bt_keys (ca_hash_heights (ns_cache s))). ca_height (ns_cache s) < k}"

lemma pending_less:
  assumes "set (bt_keys (ca_hash_heights (ns_cache s'))) \<subseteq> set (bt_keys (ca_hash_heights (ns_cache s)))"
    and "ca_height (ns_cache s) \<le> ca_height (ns_cache s')" and "k \<in> set (bt_keys (ca_hash_heights (ns_cache s)))"
    and "ca_height (ns_cache s) < k"
    and "k \<in> set (bt_keys (ca_hash_heights (ns_cache s'))) \<Longrightarrow> k \<le> ca_height (ns_cache s')"
  shows "pending_blocks s' < pending_blocks s"
  unfolding pending_blocks_def
proof (rule psubset_card_mono)
  show "finite {k \<in> set (bt_keys (ca_hash_heights (ns_cache s))). ca_height (ns_cache s) < k}" by simp
  have "k \<notin> {k \<in> set (bt_keys (ca_hash_heights (ns_cache s'))). ca_height (ns_cache s') < k}"
    using assms(5) by (auto simp: not_less)
  then show "{k \<in> set (bt_keys (ca_hash_heights (ns_cache s'))). ca_height (ns_cache s') < k}
      \<subset> {k \<in> set (bt_keys (ca_hash_heights (ns_cache s))). ca_height (ns_cache s) < k}"
    using assms(1-4) by (auto intro: le_less_trans)
qed

lemma confirm_keys:
  assumes "cache_inv E c" and "hash_fixes_height E"
  shows "set (bt_keys (ca_hash_heights (confirm h c))) \<subseteq> set (bt_keys (ca_hash_heights c))"
proof
  fix k assume "k \<in> set (bt_keys (ca_hash_heights (confirm h c)))"
  moreover note confirm_ok(1,2) [OF assms, where h = h]
  ultimately have "get_by_height (confirm h c) k \<noteq> None"
    using cache_inv_None [of E "confirm h c" k] bt_get_None_iff [of "ca_hash_heights (confirm h c)" k]
    by (auto simp: cache_inv_def)
  then have "get_by_height c k \<noteq> None" using confirm_ok(2) [OF assms, of h k] by (auto split: if_splits)
  then show "k \<in> set (bt_keys (ca_hash_heights c))"
    using cache_inv_None [OF assms(1), of k] bt_get_None_iff [of "ca_hash_heights c" k] assms(1)
    by (auto simp: cache_inv_def)
qed

lemma commit_inv:
  assumes su: "node_setup E cf U" and inv: "node_inv E U s bs" and io: "ci_write_ok io"
    and b: "unat (block_height b) = Suc (length bs)" "set (outs b) \<subseteq> U"
    and v: "validate_block E (cf_bad_blocks cf) (ns_store s) (ns_tree s) b = Ok ()"
    and c: "cache_within E U c" "ca_height c = block_height b"
  shows "\<exists>s' out. commit_proposal E io op (s\<lparr>ns_cache := c\<rparr>) b = (s', out, Ok ()) \<and>
     node_inv E U s' (bs @ [b]) \<and> ns_cache s' = c"
proof -
  let ?s = "s\<lparr>ns_cache := c\<rparr>"
  have led: "ledger E U ?s bs" and pool: "pool_within U (ns_mempool s)" using inv by (simp_all add: node_inv_def)
  have ext: "extends_chain E U (ns_store ?s) (ns_tree ?s) bs b"
    using next_extends [OF su led b] v by simp
  obtain s' out sent where s': "commit_proposal E io op ?s b = (s', out, Ok ())" "ledger E U s' (bs @ [b])" "ns_cache s' = c"
    "mp_commit (ns_mempool s) (block_height b) (map (\<lambda>t. (txn_hash E t, Inr b)) (block_txns b) :: (_ \<times> (node_error + block)) list)
       = (ns_mempool s', sent)"
    using commit_ok [OF su led io ext, of op] by auto
  have "node_inv E U s' (bs @ [b])"
    using s'(2,3) c b(1) pool_within_commit [OF pool s'(4)] by (simp add: node_inv_def)
  with s'(1,3) show ?thesis by blast
qed

lemma round_cases:
  assumes su: "node_setup E cf U" and inv: "node_inv E U s bs" and io: "ci_write_ok io"
    and r: "tick_round E cf io op s = (s', out, r)"
  shows "(r = RoundDone \<or> r = RoundPanic) \<and> s' = s \<or>
     r = RoundAgain \<and> pending_blocks s' < pending_blocks s \<and> (\<exists>bs'. node_inv E U s' (bs @ bs') \<and> length bs' \<le> 1)"
proof (cases "\<exists>b. get_next_commit_block (ns_cache s) = Ok (Some b) \<and>
    validate_block E (cf_bad_blocks cf) (ns_store s) (ns_tree s) b \<noteq> Panic")
  case False
  then show ?thesis using r by (auto simp: tick_round_def split: outcome.splits option.splits)
next
  case True
  then obtain b where nb: "get_next_commit_block (ns_cache s) = Ok (Some b)"
    and np: "validate_block E (cf_bad_blocks cf) (ns_store s) (ns_tree s) b \<noteq> Panic" by blast
  note n = next_block [OF inv nb]
  have hf: "hash_fixes_height E" using su by (simp add: node_setup_def)
  have cw: "cache_within E U (ns_cache s)" "cache_inv E (ns_cache s)" using inv by (simp_all add: node_inv_def cache_within_def)
  show ?thesis
  proof (cases "validate_block E (cf_bad_blocks cf) (ns_store s) (ns_tree s) b")
    case (Err e)
    let ?c = "cache_remove (ns_cache s) (block_hash E b)"
    have s': "s' = s\<lparr>ns_cache := ?c\<rparr>" "r = RoundAgain" using r nb Err by (simp_all add: tick_round_def)
    note rm = cache_remove_ok [OF cw(2) n(5)]
    have "node_inv E U s' bs"
      using inv cache_remove_within [OF cw(1)] by (simp add: node_inv_def s' rm(4))
    moreover have "pending_blocks s' < pending_blocks s"
      by (rule pending_less [where k = "block_height b"]) (use n(4,6) rm(3,4) in \<open>auto simp: s'\<close>)
    ultimately show ?thesis using s'(2) by (auto intro!: exI [of _ "[]"])
  next
    case (Ok u)
    let ?c = "confirm (block_height b) (ns_cache s)"
    note cf = confirm_within [OF cw(1) hf, of "block_height b"]
    obtain s1 out1 where s1: "commit_proposal E io op (s\<lparr>ns_cache := ?c\<rparr>) b = (s1, out1, Ok ())"
      "node_inv E U s1 (bs @ [b])" "ns_cache s1 = ?c"
      using commit_inv [OF su inv io n(1,2) _ cf, of op] Ok by auto
    then have s': "s' = s1" "r = RoundAgain" using r nb Ok by (simp_all add: tick_round_def)
    have "pending_blocks s' < pending_blocks s"
      by (rule pending_less [where k = "block_height b"])
         (use n(4,6) cf(2) confirm_keys [OF cw(2) hf, of "block_height b"] s1(3) s' in auto)
    then show ?thesis using s1(2) s' by (auto intro!: exI [of _ "[b]"])
  qed (use np in simp)
qed

lemma tick_loop_cases:
  assumes su: "node_setup E cf U" and io: "\<And>i. ci_write_ok (ios i)"
  shows "node_inv E U s bs \<Longrightarrow> pending_blocks s < n \<Longrightarrow> tick_loop n E cf ios op s = (s', out, r) \<Longrightarrow>
     (r = RoundDone \<or> r = RoundPanic) \<and> (\<exists>bs'. node_inv E U s' (bs @ bs'))"
proof (induction n arbitrary: s bs out)
  case (Suc n)
  obtain s1 out1 r1 where t: "tick_round E cf (ios n) op s = (s1, out1, r1)" by (metis prod_cases3)
  show ?case
  proof (cases "r1 = RoundAgain")
    case True
    then obtain bs1 where s1: "pending_blocks s1 < pending_blocks s" "node_inv E U s1 (bs @ bs1)"
      using round_cases [OF su Suc.prems(1) io t] by auto
    obtain out2 where "tick_loop n E cf ios op s1 = (s', out2, r)"
      using Suc.prems(3) t True by (auto split: prod.splits)
    then show ?thesis using Suc.IH [OF s1(2)] s1(1) Suc.prems(2) by fastforce
  next
    case False
    then have "s1 = s'" "r1 = r" using Suc.prems(3) t by (cases r1; simp)+
    then show ?thesis
      using round_cases [OF su Suc.prems(1) io t] False Suc.prems(1) by (auto intro!: exI [of _ "[]"])
  qed
qed simp

lemma pending_fuel: "pending_blocks s < tick_fuel s"
proof -
  have "pending_blocks s \<le> card (set (bt_keys (ca_hash_heights (ns_cache s))))"
    unfolding pending_blocks_def by (rule card_mono) auto
  also have "\<dots> \<le> length (ca_hash_heights (ns_cache s))"
    using card_length [of "bt_keys (ca_hash_heights (ns_cache s))"] by (simp add: bt_keys_def)
  finally show ?thesis by (simp add: tick_fuel_def)
qed

section \<open>Proposing\<close>

lemma inv_mempool:
  "node_inv E U s bs \<Longrightarrow> pool_within U mp \<Longrightarrow> node_inv E U (s\<lparr>ns_mempool := mp\<rparr>) bs"
  by (simp add: node_inv_def)

lemma inv_commit_errors:
  assumes "node_inv E U s bs" and "commit_errors s h krs = (s', out)"
  shows "node_inv E U s' bs"
proof -
  obtain mp sent where mp: "mp_commit (ns_mempool s) h krs = (mp, sent)" by fastforce
  have "pool_within U (ns_mempool s)" using assms(1) by (simp add: node_inv_def)
  then have "node_inv E U (s\<lparr>ns_mempool := mp\<rparr>) bs"
    using inv_mempool [OF assms(1)] pool_within_commit [OF _ mp] by blast
  then show ?thesis using assms(2) mp by (simp add: commit_errors_def)
qed

text \<open>What a proposal does to the chain: nothing, or it appends the block it returns.\<close>

definition chain_step :: "node_env \<Rightarrow> element set \<Rightarrow> node_state \<Rightarrow> block list \<Rightarrow> (block, node_error) outcome \<Rightarrow> bool" where
  "chain_step E U s bs r \<longleftrightarrow> (case r of Ok b \<Rightarrow> node_inv E U s (bs @ [b]) | _ \<Rightarrow> node_inv E U s bs)"

lemma propose_block_inv:
  assumes su: "node_setup E cf U" and inv: "node_inv E U s bs" and io: "ci_write_ok io"
    and h: "unat (block_height b) = Suc (length bs)" and ob: "set (outs b) \<subseteq> U"
    and r: "propose_block E cf io op s b = (s', out, r)"
  shows "chain_step E U s' bs r"
proof (cases "validate_block E (cf_bad_blocks cf) (ns_store s) (ns_tree s) b")
  case (Err e)
  then show ?thesis
    using r inv_commit_errors [OF inv] by (auto simp: propose_block_def chain_step_def split: prod.splits)
next
  case Panic
  then show ?thesis using r inv by (simp add: propose_block_def chain_step_def)
next
  case (Ok u)
  have led: "ledger E U s bs" and cw: "cache_within E U (ns_cache s)" and pw: "pool_within U (ns_mempool s)"
    using inv by (simp_all add: node_inv_def)
  have hf: "hash_fixes_height E" using su by (simp add: node_setup_def)
  have ext: "extends_chain E U (ns_store s) (ns_tree s) bs b"
    using next_extends [OF su led h ob] Ok by simp
  let ?k = "confirm (block_height b) (cache_insert E b (ns_cache s))"
  have k: "cache_within E U ?k" "ca_height ?k = block_height b"
    by (rule confirm_within [OF cache_insert_within(1) [OF cw hf ob] hf])+
  obtain s1 out1 where s1: "commit_proposal E io op s b = (s1, out1, Ok ())" "ledger E U s1 (bs @ [b])"
    "ns_cache s1 = ns_cache s" "pool_within U (ns_mempool s1)"
    using commit_ok [OF su led io ext, of op] pool_within_commit [OF pw] by blast
  have "s' = s1\<lparr>ns_cache := ?k\<rparr>" "r = Ok b" using r s1(1,3) Ok by (auto simp: propose_block_def)
  then show ?thesis using s1(2,4) k h by (simp add: chain_step_def node_inv_def)
qed

lemma create_proposal_inv:
  assumes su: "node_setup E cf U" and inv: "node_inv E U s bs" and io: "ci_write_ok io"
    and h: "unat h = Suc (length bs)"
    and r: "create_proposal E cf eths io op s lh h accepts = (s', out, r)"
  shows "chain_step E U s' bs r"
proof (cases "lease_batch (ns_mempool s) h (cf_block_txns_count cf)")
  case (Ok mpu)
  obtain mp utxos where mpu: "mpu = (mp, utxos)" by fastforce
  note lease = Ok [unfolded mpu]
  let ?s = "s\<lparr>ns_mempool := mp\<rparr>" and ?ts = "map snd utxos"
  have pool: "pool_within U (ns_mempool s)" using inv by (simp add: node_inv_def)
  have inv1: "node_inv E U ?s bs" by (rule inv_mempool [OF inv lease_batch_within(1) [OF pool lease]])
  have outs: "set (outputs_of ?ts) \<subseteq> U"
    using lease_batch_within(2) [OF pool lease] by (auto simp: outputs_of_def non_zero_def)
  show ?thesis
  proof (cases "validate_leased E cf eths ?s 0 ?ts")
    case (Ok u)
    let ?b = "\<lambda>root. to_block E cf \<lparr>bc_header = \<lparr>bh_height = h, bh_last_block_hash = lh, bh_epoch_id = 0,
         bh_last_final_block_hash = lh, bh_approvals = map av_signature accepts\<rparr>,
         bc_state = \<lparr>bs_root_hash = root, bs_txns = ?ts\<rparr>\<rparr>"
    have b: "unat (block_height (?b root)) = Suc (length bs)" "set (outs (?b root)) \<subseteq> U" for root
      using h outs by (simp_all add: to_block_def)
    show ?thesis
      using r lease Ok inv1 propose_block_inv [OF su inv1 io b]
      by (auto simp: create_proposal_def Let_def chain_step_def [of _ _ _ _ Panic] chain_step_def [of _ _ _ _ "Err _"]
          split: outcome.splits)
  qed (use r lease inv1 inv_commit_errors [OF inv1] in
      \<open>auto simp: create_proposal_def Let_def chain_step_def split: prod.splits\<close>)
qed (use r inv in \<open>auto simp: create_proposal_def chain_step_def\<close>)

section \<open>Ticks\<close>

lemma node_tick_inv:
  assumes su: "node_setup E cf U" and inv: "node_inv E U s bs" and io: "\<And>i. ci_write_ok (ios i)"
    and t: "node_tick E cf eths ios op s = (s', out, e)"
  shows "e \<noteq> TickOutOfFuel \<and> (\<exists>bs'. node_inv E U s' (bs @ bs'))"
proof (cases "height_add (ca_height (ns_cache s)) 1")
  case (Ok th)
  have h: "unat th = Suc (length bs)" using height_add_unat [OF Ok] inv by (simp add: node_inv_def)
  have self: "\<exists>bs'. node_inv E U s (bs @ bs')" using inv by (intro exI [of _ "[]"]) simp
  show ?thesis
  proof (cases "is_validator_for_height E cf th")
    case False
    obtain s1 out1 r where l: "tick_loop (tick_fuel s) E cf ios op s = (s1, out1, r)" by (metis prod_cases3)
    have "(r = RoundDone \<or> r = RoundPanic) \<and> (\<exists>bs'. node_inv E U s1 (bs @ bs'))"
      by (rule tick_loop_cases [OF su io inv pending_fuel l])
    then show ?thesis
      using t Ok False l by (auto simp: node_tick_def split: outcome.splits bool.splits if_splits)
  next
    case True
    have step: "\<exists>bs'. node_inv E U s1 (bs @ bs')"
      if "create_proposal E cf eths (ios 0) op s lh th acc = (s1, out1, r)" for s1 out1 r lh acc
      using create_proposal_inv [OF su inv io h that] by (auto simp: chain_step_def intro: exI [of _ "[]"] split: outcome.splits)
    show ?thesis
      using t Ok True self step by (auto simp: node_tick_def split: outcome.splits prod.splits)
  qed
qed (use t inv in \<open>auto simp: node_tick_def intro!: exI [of _ "[]"]\<close>)

section \<open>Starting\<close>

lemma cache_new_within:
  assumes "hash_fixes_height E" and "set (outs b) \<subseteq> U"
  shows "cache_within E U (cache_new E b n)" and "ca_height (cache_new E b n) = block_height b"
proof -
  let ?c = "\<lparr>ca_height = block_height b, ca_max_height = block_height b, ca_blocks = [], ca_hash_heights = [],
     ca_max_cache_size = n\<rparr>"
  have "cache_within E U ?c" by (simp add: cache_within_def cache_inv_def get_by_height_def bt_get_def)
  note c = cache_insert_within [OF this assms]
  show "cache_within E U (cache_new E b n)" using c(1) by (simp add: cache_new_def del: block_leaves)
  show "ca_height (cache_new E b n) = block_height b" using c(2) by (simp add: cache_new_def del: block_leaves)
qed

definition loads_chain :: "node_env \<Rightarrow> loaded_data \<Rightarrow> block list \<Rightarrow> bool" where
  "loads_chain E d bs \<longleftrightarrow> store_chain E (ld_store d) bs \<and> tree_chain E (ld_tree d) bs \<and>
     ld_block d = (if bs = [] then block_genesis else last bs)"

lemma node_new_inv:
  assumes su: "node_setup E cf U" and d: "load_db_and_smirk E io rn db sdb = Ok d" "loads_chain E d bs"
    and ok: "chain_ok bs" "set (chain_outputs bs) \<subseteq> U" "validated E U bs"
  shows "\<exists>s. node_new E io rn db sdb = Ok s \<and> node_inv E U s bs"
proof -
  have c: "store_chain E (ld_store d) bs" "tree_chain E (ld_tree d) bs" using d(2) by (simp_all add: loads_chain_def)
  have gen: "block_height block_genesis = 0" "outs block_genesis = []"
    by (simp_all add: block_genesis_def content_genesis_def)
  have "set (outs (ld_block d)) \<subseteq> U"
    using d(2) ok(2) gen(2) by (cases bs rule: rev_cases) (auto simp: loads_chain_def simp del: block_leaves)
  note cache = cache_new_within [OF _ this, of E 10000]
  have len: "unat (block_height (ld_block d)) = length bs"
    using d(2) chain_height [OF ok(1)] by (auto simp: loads_chain_def gen(1))
  have "store_migrate (node_trait E) (ld_store d) = Ok (ld_store d)"
    using c(1) by (simp add: store_chain_def store_migrate_def LATEST_VERSION_def)
  moreover have "pool_within U mp_default" by (simp add: pool_within_def mp_default_def)
  ultimately show ?thesis
    using d(1) c ok cache len su by (simp add: node_new_def node_inv_def ledger_def node_setup_def)
qed

lemma load_start: "\<exists>d. load_db_and_smirk E io True store_create [] = Ok d \<and> loads_chain E d []"
proof -
  have "store_chain E store_create []"
    using store_create_inv [of "node_trait E"]
    by (auto simp: store_chain_def store_create_def set_store_version_def store_version_def get_max_height_def
        store_get_def bt_get_def chain_at_def serialize_def unat_gt_0
        get_element_history_with_kind_def get_mint_hash_def stored_def non_empty_at_def)
  from load_clean [OF this tree_chain_new, of io] show ?thesis
    by (auto simp: chain_ok_def persistent_new_def loads_chain_def \<open>store_chain E store_create []\<close>)
qed

lemma load_restart:
  assumes "ledger E U s bs"
  shows "\<exists>d. load_db_and_smirk E io True (ns_store s) (pe_db (ns_tree s)) = Ok d \<and> loads_chain E d bs"
  using load_clean [of E "ns_store s" bs "ns_tree s" io] assms by (auto simp: ledger_def loads_chain_def)

text \<open>A tree that a block does not change is already the tree after the block.\<close>

lemma load_crash:
  assumes su: "node_setup E cf U" and led: "ledger E U s bs" and ext: "extends_chain E U (ns_store s) (ns_tree s) bs b"
    and set: "store_set (node_trait E) (BlockV2 b ts) (ns_store s) = Ok db" and io: "ci_write_ok io"
    and chg: "root_hash (tree_hash E) (pe_tree (ns_tree s)) = Ok (block_root b) \<longrightarrow> outs b = [] \<and> ins b = []"
  shows "if bs = [] \<and> root_hash (tree_hash E) (pe_tree (ns_tree s)) \<noteq> Ok (block_root b)
     then load_db_and_smirk E io True db (pe_db (ns_tree s)) = Panic
     else \<exists>d. load_db_and_smirk E io True db (pe_db (ns_tree s)) = Ok d \<and> loads_chain E d (bs @ [b])"
proof -
  have l: "chain_ok bs" "store_chain E (ns_store s) bs" "tree_chain E (ns_tree s) bs" using led by (simp_all add: ledger_def)
  have h: "unat (block_height b) = Suc (length bs)" using ext by (simp add: extends_chain_def)
  have db: "store_chain E db (bs @ [b])" using store_chain_set [OF node_trait_ok [OF su] l(2,1) h, of ts] set by auto
  note ok = chain_ok_extend [OF l(1-3) ext]
  consider "bs \<noteq> []" | "bs = []" "root_hash (tree_hash E) (pe_tree (ns_tree s)) = Ok (block_root b)"
    | "bs = []" "root_hash (tree_hash E) (pe_tree (ns_tree s)) \<noteq> Ok (block_root b)" by blast
  then show ?thesis
  proof cases
    case 1
    then show ?thesis using load_crashed [OF l(2,3,1) ext db 1 io chg, of True] db by (auto simp: loads_chain_def)
  next
    case 2
    then have "tree_chain E (ns_tree s) (bs @ [b])" using l(3) chg ok(2) by (simp add: tree_chain_def)
    then show ?thesis using load_clean [OF db _ ok(1), of "ns_tree s" io] 2 db by (auto simp: loads_chain_def)
  next
    case 3
    then show ?thesis using load_first_crashed [of E "ns_tree s" b db] l(3) ok(1) db by simp
  qed
qed

end
