(* ===== verification/Node_Theorems.thy ===== *)
theory Node_Theorems
  imports Node_Run
begin

text \<open>
  Runs of a node as an inductive predicate, and what holds in every state of a run: the stored
  blocks form one chain without double spends, the notes tree is that chain's set of unspent
  commitments and has the root the last block states. Ticks end and make progress, and a restart
  recovers from a stop inside a commit, except for the first block.
\<close>

section \<open>Runs\<close>

text \<open>
  \<open>U\<close> is the set of commitments that occur. Writes to disk succeed; \<open>run_crash\<close> is a stop after the
  first of the two writes of a commit, followed by a start. The events of the network and the chunks of slow
  snapshots are sequences of these steps (\<open>run_event\<close> and \<open>run_snapshot_chunk\<close> of \<open>Node_Sync\<close>). Applying
  a fast snapshot, which a prover far behind the contract asks for, is not a step: it changes the tree and
  confirms the cache without storing the blocks below, so the runs are those of nodes that applied none.
\<close>

inductive node_run :: "node_env \<Rightarrow> node_config \<Rightarrow> element set \<Rightarrow> node_state \<Rightarrow> bool"
  for E :: node_env and cf :: node_config and U :: "element set" where
  run_start: "node_new E io True store_create [] = Ok s \<Longrightarrow> node_run E cf U s"
| run_transaction: "node_run E cf U s \<Longrightarrow> set (non_zero (txn_outputs t)) \<subseteq> U \<Longrightarrow>
    receive_transaction E cf eth s t = (s', r) \<Longrightarrow> node_run E cf U s'"
| run_submit: "node_run E cf U s \<Longrightarrow> set (non_zero (txn_outputs t)) \<subseteq> U \<Longrightarrow>
    submit_enqueue E s t ch = (s', out, r') \<Longrightarrow> node_run E cf U s'"
| run_proposal: "node_run E cf U s \<Longrightarrow> set (outs b) \<subseteq> U \<Longrightarrow>
    node_receive_proposal E cf s b = Ok s' \<Longrightarrow> node_run E cf U s'"
| run_listener: "node_run E cf U s \<Longrightarrow> node_run E cf U (s\<lparr>ns_listeners := ns_listeners s @ [ch]\<rparr>)"
| run_round: "node_run E cf U s \<Longrightarrow> ci_write_ok io \<Longrightarrow>
    tick_round E cf io op s = (s', out, re) \<Longrightarrow> node_run E cf U s'"
| run_tick: "node_run E cf U s \<Longrightarrow> \<forall>i. ci_write_ok (ios i) \<Longrightarrow>
    node_tick E cf eths ios op s = (s', out, te) \<Longrightarrow> node_run E cf U s'"
| run_restart: "node_run E cf U s \<Longrightarrow>
    node_new E io True (ns_store s) (pe_db (ns_tree s)) = Ok s' \<Longrightarrow> node_run E cf U s'"
| run_crash: "node_run E cf U s \<Longrightarrow> get_next_commit_block (ns_cache s) = Ok (Some b) \<Longrightarrow>
    validate_block E (cf_bad_blocks cf) (ns_store s) (ns_tree s) b = Ok () \<Longrightarrow>
    store_set (node_trait E) (BlockV2 b ts) (ns_store s) = Ok db \<Longrightarrow> ci_write_ok io \<Longrightarrow>
    (root_hash (tree_hash E) (pe_tree (ns_tree s)) = Ok (block_root b) \<longrightarrow> outs b = [] \<and> ins b = []) \<Longrightarrow>
    node_new E io True db (pe_db (ns_tree s)) = Ok s' \<Longrightarrow> node_run E cf U s'"

lemma receive_transaction_inv:
  assumes "node_inv E U s bs" and "set (non_zero (txn_outputs t)) \<subseteq> U" and "receive_transaction E cf eth s t = (s', r)"
  shows "node_inv E U s' bs"
proof -
  have "pool_within U (ns_mempool s)" using assms(1) by (simp add: node_inv_def)
  note add = pool_within_add [OF this assms(2)]
  show ?thesis
    using assms(1,3) inv_mempool [OF assms(1) add]
    by (auto simp: receive_transaction_def split: outcome.splits add_error.splits)
qed

lemma submit_enqueue_inv:
  assumes "node_inv E U s bs" and "set (non_zero (txn_outputs t)) \<subseteq> U" and "submit_enqueue E s t ch = (s', out, r)"
  shows "node_inv E U s' bs"
proof -
  have "pool_within U (ns_mempool s)" using assms(1) by (simp add: node_inv_def)
  note add = pool_within_add [OF this assms(2)]
  show ?thesis
    using assms(1,3) inv_mempool [OF assms(1) add]
    by (auto simp: submit_enqueue_def split: outcome.splits add_error.splits)
qed

lemma node_receive_proposal_inv:
  assumes "hash_fixes_height E" and "node_inv E U s bs" and "set (outs b) \<subseteq> U" and "node_receive_proposal E cf s b = Ok s'"
  shows "node_inv E U s' bs"
proof -
  have s': "s' = s\<lparr>ns_cache := cache_insert E b (ns_cache s),
      ns_mempool := lease_txns (ns_mempool s) (block_height b) (map (txn_hash E) (block_txns b))\<rparr>"
    using assms(4) by (auto simp: node_receive_proposal_def Let_def split: if_splits)
  have "pool_within U (lease_txns (ns_mempool s) (block_height b) (map (txn_hash E) (block_txns b)))"
    using assms(2) by (simp add: node_inv_def pool_within_def lease_txns_fields(1))
  then show ?thesis
    using assms(2) cache_insert_within [OF _ assms(1,3), of "ns_cache s"] by (simp add: s' node_inv_def)
qed

lemma crash_inv:
  assumes su: "node_setup E cf U" and inv: "node_inv E U s bs" and nb: "get_next_commit_block (ns_cache s) = Ok (Some b)"
    and v: "validate_block E (cf_bad_blocks cf) (ns_store s) (ns_tree s) b = Ok ()"
  shows "ledger E U s bs" and "extends_chain E U (ns_store s) (ns_tree s) bs b"
    and "chain_ok (bs @ [b])" and "set (chain_outputs (bs @ [b])) \<subseteq> U" and "validated E U (bs @ [b])"
proof -
  note n = next_block [OF inv nb]
  show led: "ledger E U s bs" using inv by (simp add: node_inv_def)
  show ext: "extends_chain E U (ns_store s) (ns_tree s) bs b" by (rule next_extends [OF su led n(1,2) v])
  show "chain_ok (bs @ [b])" "set (chain_outputs (bs @ [b])) \<subseteq> U" "validated E U (bs @ [b])"
    using chain_ok_extend(1) [OF _ _ _ ext] validated_snoc [OF _ _ _ ext] led n(2) by (simp_all add: ledger_def del: block_leaves)
qed

lemma run_node_inv:
  assumes su: "node_setup E cf U" and "node_run E cf U s"
  shows "\<exists>bs. node_inv E U s bs"
  using assms(2)
proof (induction rule: node_run.induct)
  case (run_start io s)
  obtain d where "load_db_and_smirk E io True store_create [] = Ok d" "loads_chain E d []" using load_start by blast
  then show ?case using node_new_inv [OF su, of io True store_create "[]" d "[]"] run_start by (auto simp: chain_ok_def)
next
  case (run_proposal s b s')
  moreover have "hash_fixes_height E" using su by (simp add: node_setup_def)
  ultimately show ?case using node_receive_proposal_inv by blast
next
  case (run_listener s ch)
  then show ?case by (auto simp: node_inv_def)
next
  case (run_round s io op s' out re)
  then show ?case using round_cases [OF su] by metis
next
  case (run_tick s ios eths op s' out te)
  then show ?case using node_tick_inv [OF su] by metis
next
  case (run_restart s io s')
  then obtain bs where bs: "node_inv E U s bs" by blast
  then have led: "ledger E U s bs" "chain_ok bs" "set (chain_outputs bs) \<subseteq> U" "validated E U bs"
    by (simp_all add: node_inv_def ledger_def)
  then show ?case using load_restart [OF led(1), of io] node_new_inv [OF su _ _ led(2-4)] run_restart.hyps(2) by fastforce
next
  case (run_crash s b ts db io s')
  then obtain bs where bs: "node_inv E U s bs" by blast
  note c = crash_inv [OF su bs run_crash.hyps(2,3)]
  have "\<exists>d. load_db_and_smirk E io True db (pe_db (ns_tree s)) = Ok d \<and> loads_chain E d (bs @ [b])"
    using load_crash [OF su c(1,2) run_crash.hyps(4,5,6)] run_crash.hyps(7) by (auto simp: node_new_def split: if_splits)
  then show ?case using node_new_inv [OF su _ _ c(3-5)] run_crash.hyps(7) by fastforce
qed (blast intro: receive_transaction_inv submit_enqueue_inv)+

section \<open>Answers to the callers of a committed transaction\<close>

lemma commit_loop_results:
  "\<forall>kr \<in> set krs. snd kr = R \<Longrightarrow> x \<in> set (snd (commit_loop l s krs)) \<Longrightarrow> snd x = R"
  by (induction l s krs rule: commit_loop.induct)
     (auto simp: commit_key_def split: prod.splits option.splits)

lemma commit_loop_answers:
  "\<forall>kr \<in> set krs. snd kr = R \<Longrightarrow> k \<in> fst ` set krs \<Longrightarrow> map_of (mp_txns s) k = Some t \<Longrightarrow> mt_sender t = Some ch \<Longrightarrow>
     (ch, R) \<in> set (snd (commit_loop l s krs))"
proof (induction l s krs rule: commit_loop.induct)
  case (2 lease s key result rest)
  obtain s1 out1 where c: "commit_key lease s key result = (s1, out1)" by fastforce
  have s1: "map_of (mp_txns s1) = (map_of (mp_txns s))(key := None)"
    using commit_key_txns(1) [of lease s key result] c by simp
  show ?case
  proof (cases "k = key")
    case True
    then have "(ch, R) \<in> set out1" using 2 c by (auto simp: commit_key_def)
    then show ?thesis using c by (auto split: prod.splits)
  next
    case False
    then have "(ch, R) \<in> set (snd (commit_loop lease s1 rest))" using 2 s1 c by auto
    then show ?thesis using c by (auto split: prod.splits)
  qed
qed simp

lemma mp_commit_answers:
  assumes "mp_commit mp l (map (\<lambda>t. (h t, R)) ts) = (mp', sent)"
  shows "\<forall>x \<in> set sent. snd x = R" and "\<forall>t \<in> set ts. map_of (mp_txns mp') (h t) = None"
    and "\<forall>t \<in> set ts. \<forall>m ch. map_of (mp_txns mp) (h t) = Some m \<longrightarrow> mt_sender m = Some ch \<longrightarrow> (ch, R) \<in> set sent"
proof -
  let ?krs = "map (\<lambda>t. (h t, R)) ts"
  have sent: "sent = snd (commit_loop l mp ?krs)" and mp': "mp_txns mp' = mp_txns (fst (commit_loop l mp ?krs))"
    using assms by (auto simp: mp_commit_def mp_free_def Let_def split: prod.splits)
  have R: "\<forall>kr \<in> set ?krs. snd kr = R" by simp
  show "\<forall>x \<in> set sent. snd x = R" unfolding sent by (rule ballI) (rule commit_loop_results [OF R])
  show "\<forall>t \<in> set ts. map_of (mp_txns mp') (h t) = None"
    using commit_loop_txns [of l mp ?krs] by (simp add: mp' restrict_map_def image_image)
  show "\<forall>t \<in> set ts. \<forall>m ch. map_of (mp_txns mp) (h t) = Some m \<longrightarrow> mt_sender m = Some ch \<longrightarrow> (ch, R) \<in> set sent"
    unfolding sent by (intro ballI allI impI) (rule commit_loop_answers [OF R], auto simp: image_image)
qed

section \<open>A run with two blocks\<close>

text \<open>
  A hash of nodes that is zero exactly for two empty subtrees, and a block hash that is the height.
\<close>

definition demo_run_env :: node_env where
  "demo_run_env = \<lparr>ne_poseidon = (\<lambda>bs. if list_all (\<lambda>b. b = 0) bs then 0 else 1),
     ne_keccak = (\<lambda>bs. take 32 (drop 32 bs @ replicate 32 0)), ne_borsh_header = (\<lambda>_. []),
     ne_verify_proof = (\<lambda>_. True), ne_compact_ok = (\<lambda>_. True), ne_recover = (\<lambda>_ _ _. Some [1]),
     ne_validators = (\<lambda>_. [[1]])\<rparr>"

definition demo_node_config :: node_config where
  "demo_node_config = \<lparr>cf_mode = ModeNode, cf_bad_blocks = [], cf_block_txns_count = 8, cf_safe_eth_height_offset = 0,
     cf_address = [2], cf_min_block_duration = 1000, cf_sign_ecdsa = (\<lambda>_. replicate 65 0)\<rparr>"

definition demo_io :: commit_io where
  "demo_io = \<lparr>ci_now = 0, ci_unix_s = 0, ci_write_ok = True, ci_temp_noir = True\<rparr>"

definition demo_chain_block :: "u64 \<Rightarrow> utxo_proof list \<Rightarrow> element \<Rightarrow> block" where
  "demo_chain_block h ts r = \<lparr>bk_content = \<lparr>bc_header = demo_header\<lparr>bh_height := h\<rparr>,
     bc_state = \<lparr>bs_root_hash = r, bs_txns = ts\<rparr>\<rparr>, bk_signature = replicate 65 0\<rparr>"

lemma demo_chain_block_sel [simp]:
  "block_height (demo_chain_block h ts r) = h" "bc_state (bk_content (demo_chain_block h ts r)) = \<lparr>bs_root_hash = r, bs_txns = ts\<rparr>"
  by (simp_all add: demo_chain_block_def demo_header_def)

abbreviation demo_U :: "element set" where
  "demo_U \<equiv> {3, 5, 6, 9}"

lemma demo_setup: "node_setup demo_run_env demo_node_config demo_U"
proof -
  have h: "block_hash demo_run_env b = to_be_bytes (ucast (block_height b))" for b
    by (simp add: block_hash_def content_hash_def demo_run_env_def length_to_be_bytes)
  have "ucast h = (ucast h' :: element) \<longleftrightarrow> h = h'" for h h' :: u64 by (metis ucast_up_ucast_id_64)
  then have "hash_fixes_height demo_run_env"
    unfolding hash_fixes_height_def h by (metis from_to_be_bytes)
  moreover have "length (ne_keccak demo_run_env bs) = 32" for bs by (simp add: demo_run_env_def)
  ultimately show ?thesis using demo_slots by (simp add: node_setup_def demo_node_config_def)
qed

lemma cache_insert_room:
  assumes "cache_inv E c" and "hash_fixes_height E" and "length (ca_blocks c) < ca_max_cache_size c" and "ca_height c \<le> block_height b"
  shows "get_by_height (cache_insert E b c) k = (if k = block_height b then Some b else get_by_height c k)"
    and "ca_height (cache_insert E b c) = ca_height c" and "cache_inv E (cache_insert E b c)"
    and "length (ca_blocks (cache_insert E b c)) \<le> Suc (length (ca_blocks c))"
    and "ca_max_cache_size (cache_insert E b c) = ca_max_cache_size c"
proof -
  let ?c = "c\<lparr>ca_max_height := max (ca_max_height c) (block_height b)\<rparr>"
  have ins: "cache_insert E b c = put_block E b ?c" using assms(3,4) by (simp add: cache_insert_eq Let_def)
  have inv: "cache_inv E ?c" using assms(1) by simp
  show "get_by_height (cache_insert E b c) k = (if k = block_height b then Some b else get_by_height c k)"
    "cache_inv E (cache_insert E b c)"
    unfolding ins using put_block_ok [OF inv assms(2)] by simp_all
  show "ca_height (cache_insert E b c) = ca_height c" "ca_max_cache_size (cache_insert E b c) = ca_max_cache_size c"
    "length (ca_blocks (cache_insert E b c)) \<le> Suc (length (ca_blocks c))"
    by (simp_all add: ins put_block_def length_alist_update)
qed

lemma demo_start:
  assumes su: "node_setup E demo_node_config demo_U"
  shows "\<exists>s. node_run E demo_node_config demo_U s \<and> node_inv E demo_U s [] \<and>
     ns_cache s = cache_new E block_genesis 10000"
proof -
  obtain d where d: "load_db_and_smirk E demo_io True store_create [] = Ok d" "loads_chain E d []"
    using load_start by blast
  obtain s where s: "node_new E demo_io True store_create [] = Ok s" "node_inv E demo_U s []"
    using node_new_inv [OF su d] by (auto simp: chain_ok_def)
  have "ns_cache s = cache_new E block_genesis 10000"
    using s(1) d by (auto simp: node_new_def bind_o_Ok_iff loads_chain_def)
  then show ?thesis using s run_start by blast
qed

text \<open>Two blocks received in a fresh node wait in its cache.\<close>

lemma demo_received:
  assumes "set (outs b1) \<subseteq> demo_U" "set (outs b2) \<subseteq> demo_U" "block_height b1 = 1" "block_height b2 = 2"
    and su: "node_setup E demo_node_config demo_U"
  shows "\<exists>s. node_run E demo_node_config demo_U s \<and> node_inv E demo_U s [] \<and>
     ca_height (ns_cache s) = 0 \<and> get_by_height (ns_cache s) 1 = Some b1 \<and> get_by_height (ns_cache s) 2 = Some b2"
proof -
  obtain s where s: "node_run E demo_node_config demo_U s" "node_inv E demo_U s []"
    "ns_cache s = cache_new E block_genesis 10000" using demo_start [OF su] by blast
  have hf: "hash_fixes_height E" using su by (simp add: node_setup_def)
  have c: "cache_inv E (ns_cache s)" using s(2) by (simp add: node_inv_def cache_within_def)
  have "block_height block_genesis = 0" by (simp add: block_genesis_def content_genesis_def)
  then have c0: "ca_height (ns_cache s) = 0" "length (ca_blocks (ns_cache s)) = 1" "ca_max_cache_size (ns_cache s) = 10000"
    by (simp_all add: s(3) cache_new_def cache_insert_eq Let_def put_block_def)
  let ?c1 = "cache_insert E b1 (ns_cache s)"
  have c1: "ca_height ?c1 = 0" "length (ca_blocks ?c1) \<le> 2" "ca_max_cache_size ?c1 = 10000" "cache_inv E ?c1"
    "get_by_height ?c1 1 = Some b1"
    using cache_insert_room [OF c hf, of b1] c0 assms(3) by simp_all
  let ?c2 = "cache_insert E b2 ?c1"
  have c2: "ca_height ?c2 = 0" "get_by_height ?c2 1 = Some b1" "get_by_height ?c2 2 = Some b2"
    using cache_insert_room [OF c1(4) hf, of b2] c1 assms(4) by simp_all
  obtain s1 where s1: "node_receive_proposal E demo_node_config s b1 = Ok s1" "ns_cache s1 = ?c1"
    by (simp add: node_receive_proposal_def demo_node_config_def)
  obtain s2 where s2: "node_receive_proposal E demo_node_config s1 b2 = Ok s2" "ns_cache s2 = ?c2"
    by (simp add: node_receive_proposal_def demo_node_config_def s1(2))
  have "node_run E demo_node_config demo_U s2"
    using run_proposal [OF run_proposal [OF s(1) assms(1) s1(1)] assms(2) s2(1)] .
  moreover have "node_inv E demo_U s2 []"
    using node_receive_proposal_inv [OF hf node_receive_proposal_inv [OF hf s(2) assms(1) s1(1)] assms(2) s2(1)] .
  ultimately show ?thesis using c2 by (auto simp: s2(2))
qed

lemma demo_run_hash:
  "tree_hash demo_run_env a b = (if to_base a = 0 \<and> to_base b = 0 then 0 else 1)" "to_base 0 = 0" "to_base 1 = 1"
  by (simp_all add: tree_hash_def hash2_def hash_merge_def demo_run_env_def from_base_def to_base_def uint_MODULUS)

lemma demo_root_zero: "(\<And>q. f q = 0) \<Longrightarrow> smt_root (tree_hash demo_run_env) f p d = 0"
  by (induction "tree_hash demo_run_env" f p d rule: smt_root.induct)
     (simp_all add: demo_run_hash)

lemma demo_root_one:
  "length q = d \<Longrightarrow> to_base (f (p @ q)) \<noteq> 0 \<Longrightarrow> to_base (smt_root (tree_hash demo_run_env) f p (Suc d)) \<noteq> 0"
proof (induction d arbitrary: p q)
  case (Suc d)
  obtain b q' where q: "q = b # q'" "length q' = d" using Suc.prems(1) by (cases q) auto
  have "to_base (smt_root (tree_hash demo_run_env) f (p @ [b]) (Suc d)) \<noteq> 0" using Suc.IH [of q' "p @ [b]"] Suc.prems q by simp
  moreover have "smt_root (tree_hash demo_run_env) f p (Suc (Suc d)) =
      (if to_base (smt_root (tree_hash demo_run_env) f (p @ [False]) (Suc d)) = 0 \<and>
          to_base (smt_root (tree_hash demo_run_env) f (p @ [True]) (Suc d)) = 0 then 0 else 1)"
    unfolding smt_root.simps by (rule demo_run_hash(1))
  ultimately show ?case by (cases b) (simp_all add: demo_run_hash(2,3) del: smt_root.simps)
qed simp

lemma demo_roots_differ:
  assumes "tree_chain demo_run_env p bs" and "unspent bs = {}"
    and "tree_chain demo_run_env q bs'" and "3 \<in> unspent bs'"
  shows "root_hash (tree_hash demo_run_env) (pe_tree p) \<noteq> root_hash (tree_hash demo_run_env) (pe_tree q)"
proof -
  let ?H = "tree_hash demo_run_env" and ?d = merkle_tree_depth
  have inv: "tree_inv ?H (simple_inv ?H) ?d (pe_tree p)" "tree_inv ?H (simple_inv ?H) ?d (pe_tree q)"
    using assms(1,3) by (simp_all add: tree_chain_def persistent_inv_def)
  have "root_hash ?H (pe_tree p) = Ok 0"
    using root_hash_spec [OF inv(1)] assms(1,2) demo_root_zero [of "slot ?d []"]
    by (simp add: tree_chain_def slot_def NULL_HASH_def)
  moreover have "slot ?d (tree_elements (pe_tree q)) (lsb 3 (?d - 1)) = 3"
    using slot_unique [OF tree_inv_slots [OF inv(2)]] assms(3,4) by (simp add: tree_chain_def)
  then have "to_base (smt_root ?H (slot ?d (tree_elements (pe_tree q))) [] (Suc (?d - 1))) \<noteq> 0"
    by (intro demo_root_one [of "lsb 3 (?d - 1)"]) (simp_all add: length_lsb merkle_tree_depth_def to_base_def uint_MODULUS)
  then have "root_hash ?H (pe_tree q) \<noteq> Ok 0"
    using root_hash_spec [OF inv(2)] by (auto simp: merkle_tree_depth_def demo_run_hash)
  ultimately show ?thesis by simp
qed

text \<open>A block that mints 3 and 5, or an empty one, is valid as long as the chain has no transactions.\<close>

lemma demo_validates:
  assumes "ts = [] \<or> ts = [demo_mint_txn 3 5]" and "store_chain demo_run_env db bs"
    and "tree_chain demo_run_env p []" and "tree_chain demo_run_env p0 []"
    and "chain_outputs bs = []" "chain_inputs bs = []" "chain_mints bs = {}"
    and "new_root_hash demo_run_env p0 (outputs_of ts) (inputs_of ts) = Ok r"
  shows "validate_block demo_run_env [] db p (demo_chain_block h ts r) = Ok ()"
proof -
  let ?E = demo_run_env and ?st = "\<lparr>bs_root_hash = r, bs_txns = ts\<rparr>"
  have el: "tree_elements (pe_tree p) = []" "tree_elements (pe_tree p0) = []"
    using assms(3,4) by (simp_all add: tree_chain_def unspent_def)
  have leaves: "set (outputs_of ts) \<subseteq> {3, 5}" "inputs_of ts = []" "distinct (outputs_of ts)"
    using assms(1) by (auto simp: demo_leaves non_zero_def simp del: leaves_Cons(1,2))
  have hist: "get_element_history db e = Ok (None, None)" "get_mint_hash db m = Ok None" for e m
    using assms(2,5-7) by (simp_all add: store_chain_def get_element_history_def)
  have "(3 :: element) < MODULUS" "(5 :: element) < MODULUS" "(0 :: element) < MODULUS" by (simp_all add: MODULUS_def)
  then have v: "\<forall>t \<in> set ts. txn_valid ?E db p t"
    using assms(1) by (auto simp: txn_valid_def demo_run_env_def demo_mint_txn_def txn_inputs_def txn_outputs_def
        pair_list_def non_zero_def contains_element_iff el hist)
  have "slots_distinct merkle_tree_depth (set (outputs_of ts))"
    using inj_on_subset [OF demo_slots [unfolded slots_distinct_def], of "set (outputs_of ts)"] leaves(1)
    by (auto simp: slots_distinct_def)
  then have "state_fits p0 ?st" using leaves by (simp add: state_fits_def el)
  then have "new_root_hash ?E p (outputs_of ts) (inputs_of ts) = Ok r"
    using new_root_hash_same [OF assms(4,3), of ?st] assms(8) by simp
  then have "content_validate ?E db p (bk_content (demo_chain_block h ts r)) = Ok ()"
    using v leaves by (simp add: content_validate_Ok)
  moreover have "sig_verify ?E (replicate 65 0) x = Ok (Some [1])" for x
    by (simp add: sig_verify_def demo_run_env_def)
  ultimately show ?thesis
    by (simp add: validate_block_def get_leader_for_block_height_def) (simp add: demo_run_env_def demo_chain_block_def)
qed

text \<open>
  A node with an empty block of height 1 and a mint of height 2 in its cache; a node with the mint
  at height 1; and the first node after it committed the empty block.
\<close>

lemma demo_node:
  "\<exists>s r0 r. node_run demo_run_env demo_node_config demo_U s \<and> node_inv demo_run_env demo_U s [] \<and>
     ca_height (ns_cache s) = 0 \<and>
     get_by_height (ns_cache s) 1 = Some (demo_chain_block 1 ts1 r0) \<and>
     get_by_height (ns_cache s) 2 = Some (demo_chain_block 2 ts r) \<and>
     new_root_hash demo_run_env (persistent_new merkle_tree_depth)
       (outputs_of ts1) (inputs_of ts1) = Ok r0 \<and>
     new_root_hash demo_run_env (persistent_new merkle_tree_depth) (outputs_of ts) (inputs_of ts) = Ok r"
  if ts: "ts = [demo_mint_txn 3 5]" "ts1 = ts \<or> ts1 = []"
proof -
  let ?E = demo_run_env and ?p = "persistent_new merkle_tree_depth :: notes_tree"
  have leaves: "outputs_of ts = [3, 5]" "inputs_of ts = []"
    using ts(1) by (simp_all add: demo_leaves non_zero_def del: leaves_Cons(1,2))
  have "state_fits ?p \<lparr>bs_root_hash = 0, bs_txns = ts'\<rparr>" if "ts' = ts \<or> ts' = []" for ts'
  proof -
    have "slots_distinct merkle_tree_depth (set (outputs_of ts'))"
      using that leaves inj_on_subset [OF demo_slots [unfolded slots_distinct_def], of "set (outputs_of ts')"]
      by (auto simp: slots_distinct_def)
    then show ?thesis using that leaves by (auto simp: state_fits_def demo_notes_empty)
  qed
  then have root: "\<exists>r. new_root_hash ?E ?p (outputs_of ts') (inputs_of ts') = Ok r" if "ts' = ts \<or> ts' = []" for ts'
    using that new_root_hash_ok [OF demo_notes_inv, of "\<lparr>bs_root_hash = 0, bs_txns = ts'\<rparr>" ?E] by auto
  obtain r0 r where r: "new_root_hash ?E ?p (outputs_of ts1) (inputs_of ts1) = Ok r0"
    "new_root_hash ?E ?p (outputs_of ts) (inputs_of ts) = Ok r"
    using root [of ts1] root [of ts] ts(2) by auto
  have "set (outs (demo_chain_block h ts' x)) \<subseteq> demo_U" if "ts' = ts \<or> ts' = []" for h ts' x using that leaves by auto
  then obtain s where "node_run ?E demo_node_config demo_U s" "node_inv ?E demo_U s []" "ca_height (ns_cache s) = 0"
     "get_by_height (ns_cache s) 1 = Some (demo_chain_block 1 ts1 r0)"
     "get_by_height (ns_cache s) 2 = Some (demo_chain_block 2 ts r)"
    using demo_received [OF _ _ _ _ demo_setup, of "demo_chain_block 1 ts1 r0" "demo_chain_block 2 ts r"] ts(2) by auto
  then show ?thesis using r by blast
qed

lemma demo_next:
  "ca_height (ns_cache s) = h \<Longrightarrow> unat h + 1 < 2 ^ 64 \<Longrightarrow> get_next_commit_block (ns_cache s) = Ok (get_by_height (ns_cache s) (h + 1))"
  by (simp add: get_next_commit_block_def height_add_def)

section \<open>Properties\<close>

text \<open>
  C1. Safety of the ledger. In every state a node whose disk writes succeed reaches over messages, slow
  snapshots, ticks, restarts and stops inside a commit, without applying a fast snapshot, the stored
  blocks are one chain with the heights 1 to n; no commitment of the chain is created twice or spent
  twice, every spent one was created in the chain, and no deposit is minted in two blocks. The notes
  tree holds exactly the created and unspent commitments and its root is the one the last block states; the
  cache is confirmed up to n.
\<close>

theorem node_ledger_safe:
  assumes "node_setup E cf U" and "node_run E cf U s"
  shows "\<exists>bs. (\<forall>k. \<exists>f. store_get (ns_store s) k = Ok f \<and> map_option into_block f = chain_at bs k) \<and>
     (\<forall>i < length bs. unat (block_height (bs ! i)) = Suc i) \<and>
     distinct (chain_outputs bs) \<and> distinct (chain_inputs bs) \<and> set (chain_inputs bs) \<subseteq> set (chain_outputs bs) \<and>
     (\<forall>i < length bs. \<forall>j < i. block_mints (bs ! i) \<inter> block_mints (bs ! j) = {}) \<and>
     set (tree_elements (pe_tree (ns_tree s))) = set (chain_outputs bs) - set (chain_inputs bs) \<and>
     (bs \<noteq> [] \<longrightarrow> root_hash (tree_hash E) (pe_tree (ns_tree s)) = Ok (block_root (last bs))) \<and>
     unat (ca_height (ns_cache s)) = length bs"
proof -
  obtain bs where "node_inv E U s bs" using run_node_inv [OF assms] by blast
  then show ?thesis
    unfolding node_inv_def ledger_def chain_ok_def store_chain_def tree_chain_def unspent_def by blast
qed

theorem node_ledger_safe_witness:
  "\<exists>s bs. node_run demo_run_env demo_node_config demo_U s \<and> get_by_height (ns_cache s) 1 \<noteq> None \<and>
     set (tree_elements (pe_tree (ns_tree s))) = set (chain_outputs bs) - set (chain_inputs bs) \<and>
     unat (ca_height (ns_cache s)) = length bs"
proof -
  obtain s r where s: "node_run demo_run_env demo_node_config demo_U s"
    "get_by_height (ns_cache s) 1 = Some (demo_chain_block 1 [] r)"
    using demo_node [OF HOL.refl, of "[]"] by auto
  then show ?thesis using node_ledger_safe [OF demo_setup s(1)] by auto
qed

text \<open>
  C4. Committing a validated block. When the next block passed validation and the writes succeed,
  \<open>commit_proposal\<close> returns without an error or a panic: the block is stored under its height with the
  commit time, the tree has the root the block states and its unspent commitments, none of the
  transactions of the block is left in the mempool, every caller that waits for one of them is sent
  the block, and every open commit listener is.
\<close>

theorem commit_validated_block:
  assumes "node_setup E cf U" and "node_run E cf U s" and "ci_write_ok io"
    and "unat (block_height b) = Suc (unat (ca_height (ns_cache s)))" and "set (outs b) \<subseteq> U"
    and "validate_block E (cf_bad_blocks cf) (ns_store s) (ns_tree s) b = Ok ()"
  shows "\<exists>s' out. commit_proposal E io op s b = (s', out, Ok ()) \<and>
     store_get (ns_store s') (block_height b) = Ok (Some (BlockV2 b (Some (ci_unix_s io)))) \<and>
     root_hash (tree_hash E) (pe_tree (ns_tree s')) = Ok (block_root b) \<and>
     set (tree_elements (pe_tree (ns_tree s'))) = set (tree_elements (pe_tree (ns_tree s))) \<union> set (outs b) - set (ins b) \<and>
     (\<forall>t \<in> set (block_txns b). map_of (mp_txns (ns_mempool s')) (txn_hash E t) = None \<and>
        (\<forall>m ch. map_of (mp_txns (ns_mempool s)) (txn_hash E t) = Some m \<longrightarrow> mt_sender m = Some ch \<longrightarrow>
           TxnResult ch (Inr b) \<in> set out)) \<and>
     (\<forall>ch \<in> set (ns_listeners s). op ch \<longrightarrow> Committed ch b \<in> set out)"
proof -
  obtain bs where inv: "node_inv E U s bs" using run_node_inv [OF assms(1,2)] by blast
  then have led: "ledger E U s bs" and h: "unat (block_height b) = Suc (length bs)" using assms(4) by (simp_all add: node_inv_def)
  have ext: "extends_chain E U (ns_store s) (ns_tree s) bs b" by (rule next_extends [OF assms(1) led h assms(5,6)])
  obtain s' out sent where s': "commit_proposal E io op s b = (s', out, Ok ())" "ledger E U s' (bs @ [b])"
    "mp_commit (ns_mempool s) (block_height b) (map (\<lambda>t. (txn_hash E t, Inr b)) (block_txns b)) = (ns_mempool s', sent)"
    "out = map (\<lambda>(ch, r). TxnResult ch r) sent @ map (\<lambda>ch. Committed ch b) (filter op (ns_listeners s))"
    "store_get (ns_store s') (block_height b) = Ok (Some (BlockV2 b (Some (ci_unix_s io))))"
    using commit_ok [OF assms(1) led assms(3) ext, of op] by blast
  have "unspent (bs @ [b]) = unspent bs \<union> set (outs b) - set (ins b)"
    using led ext by (intro chain_ok_extend(2)) (auto simp: ledger_def)
  then have tree: "root_hash (tree_hash E) (pe_tree (ns_tree s')) = Ok (block_root b)"
    "set (tree_elements (pe_tree (ns_tree s'))) = set (tree_elements (pe_tree (ns_tree s))) \<union> set (outs b) - set (ins b)"
    using s'(2) led by (simp_all add: ledger_def tree_chain_def del: block_leaves)
  have "TxnResult ch (Inr b) \<in> set out" if "(ch, Inr b) \<in> set sent" for ch using that by (force simp: s'(4))
  then show ?thesis
    using s'(1,5) tree mp_commit_answers(2,3) [OF s'(3)] by (intro exI conjI) (auto simp: s'(4))
qed

text \<open>The demo node with the mint as its first block, ready to commit it.\<close>

lemma demo_first_mint:
  "\<exists>s r. node_run demo_run_env demo_node_config demo_U s \<and> node_inv demo_run_env demo_U s [] \<and> ca_height (ns_cache s) = 0 \<and>
     get_next_commit_block (ns_cache s) = Ok (Some (demo_chain_block 1 [demo_mint_txn 3 5] r)) \<and>
     validate_block demo_run_env (cf_bad_blocks demo_node_config) (ns_store s) (ns_tree s) (demo_chain_block 1 [demo_mint_txn 3 5] r) = Ok ()"
proof -
  obtain s r where s: "node_run demo_run_env demo_node_config demo_U s" "node_inv demo_run_env demo_U s []" "ca_height (ns_cache s) = 0"
    "get_by_height (ns_cache s) 1 = Some (demo_chain_block 1 [demo_mint_txn 3 5] r)"
    "new_root_hash demo_run_env demo_notes (outputs_of [demo_mint_txn 3 5]) (inputs_of [demo_mint_txn 3 5]) = Ok r"
    using demo_node [OF HOL.refl, of "[demo_mint_txn 3 5]"] by blast
  have "validate_block demo_run_env [] (ns_store s) (ns_tree s) (demo_chain_block 1 [demo_mint_txn 3 5] r) = Ok ()"
    by (rule demo_validates [OF _ _ _ tree_chain_new _ _ _ s(5), where bs = "[]"])
       (use s(2) in \<open>auto simp: node_inv_def ledger_def\<close>)
  moreover have "get_next_commit_block (ns_cache s) = Ok (Some (demo_chain_block 1 [demo_mint_txn 3 5] r))"
    using demo_next [OF s(3)] s(4) by simp
  ultimately show ?thesis using s(1-3) by (auto simp: demo_node_config_def)
qed

lemma demo_mint_leaves [simp]:
  "non_zero (txn_outputs (demo_mint_txn 3 5)) = [3, 5]" "non_zero (txn_inputs (demo_mint_txn 3 5)) = []"
  by (simp_all add: demo_mint_txn_def txn_inputs_def txn_outputs_def pair_list_def non_zero_def)

theorem commit_validated_block_witness:
  "\<exists>s s' b out. commit_proposal demo_run_env demo_io (\<lambda>_. True) s b = (s', out, Ok ()) \<and>
     set (tree_elements (pe_tree (ns_tree s'))) = {3, 5} \<and> store_get (ns_store s') 1 = Ok (Some (BlockV2 b (Some 0)))"
proof -
  obtain s r where s: "node_run demo_run_env demo_node_config demo_U s" "node_inv demo_run_env demo_U s []" "ca_height (ns_cache s) = 0"
    "validate_block demo_run_env (cf_bad_blocks demo_node_config) (ns_store s) (ns_tree s) (demo_chain_block 1 [demo_mint_txn 3 5] r) = Ok ()"
    using demo_first_mint by blast
  have "tree_elements (pe_tree (ns_tree s)) = []"
    using s(2) by (simp add: node_inv_def ledger_def tree_chain_def unspent_def)
  moreover let ?b = "demo_chain_block 1 [demo_mint_txn 3 5] r"
  have io: "ci_write_ok demo_io" "ci_unix_s demo_io = 0" and h: "unat (block_height ?b) = Suc (unat (ca_height (ns_cache s)))"
    and o: "set (outs ?b) \<subseteq> demo_U"
    using s(3) by (simp_all add: demo_io_def)
  obtain s' out where "commit_proposal demo_run_env demo_io (\<lambda>_. True) s ?b = (s', out, Ok ())"
    "store_get (ns_store s') (block_height ?b) = Ok (Some (BlockV2 ?b (Some (ci_unix_s demo_io))))"
    "set (tree_elements (pe_tree (ns_tree s'))) = set (tree_elements (pe_tree (ns_tree s))) \<union> set (outs ?b) - set (ins ?b)"
    using commit_validated_block [OF demo_setup s(1) io(1) h o s(4), of "\<lambda>_. True"] by blast
  ultimately show ?thesis using io(2) by (intro exI conjI) simp_all
qed

text \<open>
  C10. Recovery, for every block but the first of the chain. When a node whose confirmed height is not
  zero stops after the block store has the next block and before the notes tree has it, the
  next start applies the block to the tree: it loads the block as the last one, and the tree then has
  the root the block states and the commitments it leaves unspent. The block changes the root when it has
  commitments. (For the first block the start panics: \<open>first_block_crash_panics\<close> below.)
\<close>

theorem load_recovers_crash:
  assumes "node_setup E cf U" and "node_run E cf U s" and "get_next_commit_block (ns_cache s) = Ok (Some b)"
    and "validate_block E (cf_bad_blocks cf) (ns_store s) (ns_tree s) b = Ok ()"
    and "store_set (node_trait E) (BlockV2 b ts) (ns_store s) = Ok db" and "ci_write_ok io" and "ca_height (ns_cache s) \<noteq> 0"
    and "root_hash (tree_hash E) (pe_tree (ns_tree s)) = Ok (block_root b) \<longrightarrow> outs b = [] \<and> ins b = []"
  shows "\<exists>d. load_db_and_smirk E io True db (pe_db (ns_tree s)) = Ok d \<and> ld_store d = db \<and> ld_block d = b \<and>
     persistent_inv merkle_tree_depth (tree_hash E) (ld_tree d) \<and>
     root_hash (tree_hash E) (pe_tree (ld_tree d)) = Ok (block_root b) \<and>
     set (tree_elements (pe_tree (ld_tree d))) = set (tree_elements (pe_tree (ns_tree s))) \<union> set (outs b) - set (ins b)"
proof -
  obtain bs where inv: "node_inv E U s bs" using run_node_inv [OF assms(1,2)] by blast
  have "bs \<noteq> []" using inv assms(7) by (auto simp: node_inv_def unat_eq_zero)
  note c = crash_inv [OF assms(1) inv assms(3,4)]
  have l: "chain_ok bs" "store_chain E (ns_store s) bs" "tree_chain E (ns_tree s) bs" using c(1) by (simp_all add: ledger_def)
  have "unat (block_height b) = Suc (length bs)" using c(2) by (simp add: extends_chain_def)
  then have "store_chain E db (bs @ [b])" using store_chain_set [OF node_trait_ok [OF assms(1)] l(2,1), of b ts] assms(5) by auto
  from load_crashed [OF l(2,3,1) c(2) this \<open>bs \<noteq> []\<close> assms(6,8), of True]
  show ?thesis using l(3) chain_ok_extend(2) [OF l c(2)] by (auto simp: tree_chain_def)
qed

text \<open>
  The first block has no such recovery. When a node stops between the two writes of the commit
  of block 1, and the block changes the root of the empty tree, every later start panics: the
  recovery reads the block below, and the genesis block is never stored.
\<close>

lemma first_block_crash_panics:
  assumes "node_setup E cf U" and "node_run E cf U s" and "get_next_commit_block (ns_cache s) = Ok (Some b)"
    and "validate_block E (cf_bad_blocks cf) (ns_store s) (ns_tree s) b = Ok ()"
    and "store_set (node_trait E) (BlockV2 b ts) (ns_store s) = Ok db" and "ca_height (ns_cache s) = 0"
    and "root_hash (tree_hash E) (pe_tree (ns_tree s)) \<noteq> Ok (block_root b)"
  shows "node_new E io renamed db (pe_db (ns_tree s)) = Panic"
proof -
  obtain bs where inv: "node_inv E U s bs" using run_node_inv [OF assms(1,2)] by blast
  then have bs: "bs = []" using assms(6) by (simp add: node_inv_def)
  note c = crash_inv [OF assms(1) inv assms(3,4)]
  have l: "chain_ok []" "store_chain E (ns_store s) []" "tree_chain E (ns_tree s) []" using c(1) by (simp_all add: ledger_def bs)
  have "unat (block_height b) = Suc 0" using c(2) by (simp add: extends_chain_def bs)
  then have "store_chain E db [b]" using store_chain_set [OF node_trait_ok [OF assms(1)] l(2,1), of b ts] assms(5) by auto
  from load_first_crashed [OF l(3) _ this assms(7)] c(3) show ?thesis by (simp add: bs node_new_def)
qed

text \<open>The demo node after it committed the empty block, ready to commit the mint.\<close>

lemma commit_round:
  assumes su: "node_setup E cf U" and inv: "node_inv E U s bs" and io: "ci_write_ok io"
    and nb: "get_next_commit_block (ns_cache s) = Ok (Some b)"
    and v: "validate_block E (cf_bad_blocks cf) (ns_store s) (ns_tree s) b = Ok ()"
  shows "\<exists>s' out. tick_round E cf io op s = (s', out, RoundAgain) \<and> node_inv E U s' (bs @ [b]) \<and>
     ns_cache s' = confirm (block_height b) (ns_cache s) \<and> pending_blocks s' < pending_blocks s"
proof -
  note n = next_block [OF inv nb]
  have hf: "hash_fixes_height E" and cw: "cache_within E U (ns_cache s)" using su inv by (simp_all add: node_setup_def node_inv_def)
  obtain s' out where s': "commit_proposal E io op (s\<lparr>ns_cache := confirm (block_height b) (ns_cache s)\<rparr>) b = (s', out, Ok ())"
    "node_inv E U s' (bs @ [b])" "ns_cache s' = confirm (block_height b) (ns_cache s)"
    using commit_inv [OF su inv io n(1,2) v confirm_within [OF cw hf], of op] by blast
  then have t: "tick_round E cf io op s = (s', out, RoundAgain)" using nb v by (simp add: tick_round_def)
  then show ?thesis using s'(2,3) round_cases [OF su inv io t] by blast
qed

lemma demo_second_mint:
  "\<exists>s r. node_run demo_run_env demo_node_config demo_U s \<and>
     ca_height (ns_cache s) = 1 \<and> get_next_commit_block (ns_cache s) = Ok (Some (demo_chain_block 2 [demo_mint_txn 3 5] r)) \<and>
     validate_block demo_run_env (cf_bad_blocks demo_node_config) (ns_store s) (ns_tree s) (demo_chain_block 2 [demo_mint_txn 3 5] r) = Ok () \<and>
     root_hash (tree_hash demo_run_env) (pe_tree (ns_tree s)) \<noteq> Ok r"
proof -
  let ?E = demo_run_env and ?ts = "[demo_mint_txn 3 5]"
  obtain s r0 r where s: "node_run ?E demo_node_config demo_U s" "node_inv ?E demo_U s []" "ca_height (ns_cache s) = 0"
    "get_by_height (ns_cache s) 1 = Some (demo_chain_block 1 [] r0)" "get_by_height (ns_cache s) 2 = Some (demo_chain_block 2 ?ts r)"
    "new_root_hash ?E demo_notes (outputs_of []) (inputs_of []) = Ok r0"
    "new_root_hash ?E demo_notes (outputs_of ?ts) (inputs_of ?ts) = Ok r"
    using demo_node [OF HOL.refl, of "[]"] by blast
  let ?b = "demo_chain_block 1 [] r0" and ?b2 = "demo_chain_block 2 ?ts r"
  have nb: "get_next_commit_block (ns_cache s) = Ok (Some ?b)" using demo_next [OF s(3)] s(4) by simp
  have bad: "cf_bad_blocks demo_node_config = []" and io: "ci_write_ok demo_io" by (simp_all add: demo_node_config_def demo_io_def)
  have v: "validate_block ?E (cf_bad_blocks demo_node_config) (ns_store s) (ns_tree s) ?b = Ok ()"
    unfolding bad by (rule demo_validates [OF _ _ _ tree_chain_new _ _ _ s(6), where bs = "[]"])
      (use s(2) in \<open>auto simp: node_inv_def ledger_def\<close>)
  obtain s1 out where s1: "tick_round ?E demo_node_config demo_io (\<lambda>_. True) s = (s1, out, RoundAgain)"
    "node_inv ?E demo_U s1 [?b]" "ns_cache s1 = confirm 1 (ns_cache s)"
    using commit_round [OF demo_setup s(2) io nb v, of "\<lambda>_. True"] by auto
  have run: "node_run ?E demo_node_config demo_U s1" using run_round [OF s(1) io s1(1)] .
  have hf: "hash_fixes_height ?E" and c: "cache_inv ?E (ns_cache s)"
    using demo_setup s(2) by (simp_all add: node_setup_def node_inv_def cache_within_def)
  note k = confirm_ok [OF c hf, of 1]
  have n1: "ca_height (ns_cache s1) = 1" "get_next_commit_block (ns_cache s1) = Ok (Some ?b2)"
    using k(3) k(2) [of 2] demo_next [of s1 1] s(5) by (simp_all add: s1(3))
  have leaves: "chain_outputs [?b] = []" "chain_inputs [?b] = []" "chain_mints [?b] = {}"
    by (simp_all add: chain_outputs_def chain_inputs_def chain_mints_def block_mints_def)
  have l: "store_chain ?E (ns_store s1) [?b]" "tree_chain ?E (ns_tree s1) [?b]" using s1(2) by (simp_all add: node_inv_def ledger_def)
  have t: "tree_chain ?E (ns_tree s1) []" using l(2) leaves by (simp add: tree_chain_def unspent_def)
  have v2: "validate_block ?E (cf_bad_blocks demo_node_config) (ns_store s1) (ns_tree s1) ?b2 = Ok ()"
    unfolding bad by (rule demo_validates [OF _ l(1) t tree_chain_new leaves s(7)]) simp
  note c2 = crash_inv [OF demo_setup s1(2) n1(2) v2]
  obtain q where q: "tree_chain ?E q ([?b] @ [?b2])"
    using tree_chain_apply [OF l(2) c2(2) _ l(1), of True 2] c2(1) by (auto simp: ledger_def)
  have "3 \<in> unspent ([?b] @ [?b2])" by (simp add: unspent_def chain_outputs_def chain_inputs_def)
  from demo_roots_differ [OF t _ q this] q have "root_hash (tree_hash ?E) (pe_tree (ns_tree s1)) \<noteq> Ok r"
    by (simp add: unspent_def tree_chain_def)
  then show ?thesis using run n1 v2 by blast
qed

theorem load_recovers_crash_witness:
  "\<exists>(s :: node_state) r db d. store_set (node_trait demo_run_env) (BlockV2 (demo_chain_block 2 [demo_mint_txn 3 5] r) None) (ns_store s) = Ok db \<and>
     load_db_and_smirk demo_run_env demo_io True db (pe_db (ns_tree s)) = Ok d \<and>
     root_hash (tree_hash demo_run_env) (pe_tree (ld_tree d)) = Ok r"
proof -
  obtain s r where s: "node_run demo_run_env demo_node_config demo_U s" "ca_height (ns_cache s) = 1"
    "get_next_commit_block (ns_cache s) = Ok (Some (demo_chain_block 2 [demo_mint_txn 3 5] r))"
    "validate_block demo_run_env (cf_bad_blocks demo_node_config) (ns_store s) (ns_tree s) (demo_chain_block 2 [demo_mint_txn 3 5] r) = Ok ()"
    "root_hash (tree_hash demo_run_env) (pe_tree (ns_tree s)) \<noteq> Ok r"
    using demo_second_mint by blast
  let ?b = "demo_chain_block 2 [demo_mint_txn 3 5] r"
  obtain bs where inv: "node_inv demo_run_env demo_U s bs" using run_node_inv [OF demo_setup s(1)] by blast
  have "unat (block_height ?b) = Suc (length bs)" using next_block(1) [OF inv s(3)] .
  then obtain db where db: "store_set (node_trait demo_run_env) (BlockV2 ?b None) (ns_store s) = Ok db"
    using store_chain_set [OF node_trait_ok [OF demo_setup], of "ns_store s" bs ?b None] inv by (auto simp: node_inv_def ledger_def)
  have io: "ci_write_ok demo_io" and h: "ca_height (ns_cache s) \<noteq> 0" using s(2) by (simp_all add: demo_io_def)
  have "\<exists>d. load_db_and_smirk demo_run_env demo_io True db (pe_db (ns_tree s)) = Ok d \<and>
     root_hash (tree_hash demo_run_env) (pe_tree (ld_tree d)) = Ok r"
    using load_recovers_crash [OF demo_setup s(1,3,4) db io h] s(5) by auto
  with db show ?thesis by blast
qed

lemma tick_stores_next:
  assumes "node_setup E cf U" and inv: "node_inv E U s bs" and io: "\<And>i. ci_write_ok (ios i)"
    and t: "node_tick E cf eths ios op s = (s', out, e)"
    and v: "\<not> is_validator_for_height E cf (ca_height (ns_cache s) + 1)"
    and nx: "get_next_commit_block (ns_cache s) = Ok (Some b)"
    and ok: "validate_block E (cf_bad_blocks cf) (ns_store s) (ns_tree s) b = Ok ()"
  shows "\<exists>f. store_get (ns_store s') (block_height b) = Ok (Some f) \<and> into_block f = b \<and>
     ca_height (ns_cache s) < ca_height (ns_cache s')"
proof -
  let ?n = "length (ca_hash_heights (ns_cache s))"
  obtain s1 out1 where s1: "tick_round E cf (ios ?n) op s = (s1, out1, RoundAgain)" "node_inv E U s1 (bs @ [b])"
    "pending_blocks s1 < pending_blocks s" using commit_round [OF assms(1) inv io nx ok] by blast
  obtain s2 out2 r where l: "tick_loop ?n E cf ios op s1 = (s2, out2, r)" by (metis prod_cases3)
  then obtain bs' where s2: "node_inv E U s2 ((bs @ [b]) @ bs')"
    using tick_loop_cases [OF assms(1) io s1(2) _ l] s1(3) pending_fuel [of s] by (auto simp: tick_fuel_def)
  have loop: "tick_loop (tick_fuel s) E cf ios op s = (s2, out1 @ out2, r)" by (simp add: tick_fuel_def s1(1) l)
  have "height_add (ca_height (ns_cache s)) 1 = Ok (ca_height (ns_cache s) + 1)"
    using nx by (auto simp: get_next_commit_block_def bind_o_Ok_iff height_add_def split: if_splits)
  then have "s' = s2" using t v loop
    by (auto simp: node_tick_def split: outcome.splits round_end.splits bool.splits)
  moreover have h: "unat (block_height b) = Suc (length bs)" using next_block(1) [OF inv nx] .
  then have at: "chain_at ((bs @ [b]) @ bs') (block_height b) = Some b"
    using next_block(4) [OF inv nx] by (auto simp: chain_at_def nth_append word_gt_0)
  have "store_chain E (ns_store s2) ((bs @ [b]) @ bs')" using s2 by (simp add: node_inv_def ledger_def)
  from store_chain_get [OF this at] obtain f where "store_get (ns_store s2) (block_height b) = Ok (Some f)" "into_block f = b" .
  moreover have "ca_height (ns_cache s) < ca_height (ns_cache s2)"
    using inv s2 by (simp add: node_inv_def word_less_nat_alt)
  ultimately show ?thesis by blast
qed

text \<open>
  C11. Progress of the worker. The commit loop inside a tick of a reachable node needs at most one round more than there are heights
  in the cache: a tick never runs out of that fuel (it may panic, on a block with a malformed signature for
  instance). When the node is not the validator of the next height, the next block waits in the cache
  and passes validation, the tick commits it, whatever happens to the blocks after it: it is stored under its
  height and the confirmed height of the cache grows.
\<close>

theorem tick_commits_next:
  assumes "node_setup E cf U" and "node_run E cf U s" and "\<forall>i. ci_write_ok (ios i)"
  shows "\<exists>s' out e. node_tick E cf eths ios op s = (s', out, e) \<and> e \<noteq> TickOutOfFuel \<and>
     (\<forall>b. \<not> is_validator_for_height E cf (ca_height (ns_cache s) + 1) \<and> get_next_commit_block (ns_cache s) = Ok (Some b) \<and>
        validate_block E (cf_bad_blocks cf) (ns_store s) (ns_tree s) b = Ok () \<longrightarrow>
        (\<exists>f. store_get (ns_store s') (block_height b) = Ok (Some f) \<and> into_block f = b) \<and>
        ca_height (ns_cache s) < ca_height (ns_cache s'))"
proof -
  obtain bs where inv: "node_inv E U s bs" using run_node_inv [OF assms(1,2)] by blast
  have io: "\<And>i. ci_write_ok (ios i)" using assms(3) by blast
  obtain s' out e where t: "node_tick E cf eths ios op s = (s', out, e)" by (metis prod_cases3)
  have e: "e \<noteq> TickOutOfFuel" using node_tick_inv [OF assms(1) inv io t] by blast
  have "(\<exists>f. store_get (ns_store s') (block_height b) = Ok (Some f) \<and> into_block f = b) \<and>
        ca_height (ns_cache s) < ca_height (ns_cache s')"
    if "\<not> is_validator_for_height E cf (ca_height (ns_cache s) + 1)" "get_next_commit_block (ns_cache s) = Ok (Some b)"
      "validate_block E (cf_bad_blocks cf) (ns_store s) (ns_tree s) b = Ok ()" for b
    using tick_stores_next [OF assms(1) inv io t that] by blast
  then show ?thesis using t e by blast
qed

theorem tick_commits_next_witness:
  "\<exists>s s' out e f. node_tick demo_run_env demo_node_config (\<lambda>_. \<lparr>ev_block_number = None, ev_get_mint = \<lambda>_ _. None\<rparr>)
     (\<lambda>_. demo_io) (\<lambda>_. True) s = (s', out, e) \<and> e \<noteq> TickOutOfFuel \<and> store_get (ns_store s') 1 = Ok (Some f)"
proof -
  obtain s r where s: "node_run demo_run_env demo_node_config demo_U s" "ca_height (ns_cache s) = 0"
    "get_next_commit_block (ns_cache s) = Ok (Some (demo_chain_block 1 [demo_mint_txn 3 5] r))"
    "validate_block demo_run_env (cf_bad_blocks demo_node_config) (ns_store s) (ns_tree s) (demo_chain_block 1 [demo_mint_txn 3 5] r) = Ok ()"
    using demo_first_mint by blast
  have io: "\<forall>i :: nat. ci_write_ok demo_io" and v: "\<not> is_validator_for_height demo_run_env demo_node_config (ca_height (ns_cache s) + 1)"
    by (simp_all add: demo_io_def is_validator_for_height_def demo_node_config_def)
  obtain s' out e where t: "node_tick demo_run_env demo_node_config (\<lambda>_. \<lparr>ev_block_number = None, ev_get_mint = \<lambda>_ _. None\<rparr>)
      (\<lambda>_. demo_io) (\<lambda>_. True) s = (s', out, e)" "e \<noteq> TickOutOfFuel"
    "\<exists>f. store_get (ns_store s') (block_height (demo_chain_block 1 [demo_mint_txn 3 5] r)) = Ok (Some f)"
    using tick_commits_next [OF demo_setup s(1) io] v s(3,4) by blast
  then show ?thesis by (simp only: demo_chain_block_sel) blast
qed

end
