(* ===== verification/Node_Sync.thy ===== *)
theory Node_Sync
  imports Node_Theorems
begin

text \<open>
  Synchronisation with peers (\<open>node/src/sync.rs\<close>, \<open>node/snapshot.rs\<close>, \<open>network.rs\<close>, \<open>network_handler.rs\<close>):
  requests, offers and accepts of snapshots, slow chunks of blocks and fast chunks of elements, and
  the dispatch of network events. Random identifiers, time-outs and the height of the contract are
  arguments. Hash sets are lists; their iteration order, which the source leaves open, is the
  order of the list.
\<close>

section \<open>Serving a snapshot\<close>

definition handle_snapshot_request ::
    "node_state \<Rightarrow> peer_id \<Rightarrow> snapshot_request \<Rightarrow> (node_out list, node_error) outcome" where
  "handle_snapshot_request s peer rq =
     bind_o (is_out_of_sync (ns_cache s)) (\<lambda>oos.
       if oos \<or> ca_height (ns_cache s) < sq_from_height rq then Ok []
       else Ok [SendTo peer (NetSnapshotOffer (sq_snapshot_id rq))])"

definition send_snapshot_chunk_slow ::
    "node_state \<Rightarrow> peer_id \<Rightarrow> u64 \<Rightarrow> u64 \<Rightarrow> u64 \<Rightarrow> (node_out list, node_error) outcome" where
  "send_snapshot_chunk_slow s peer snapshot_id from_height to_height =
     bind_o (height_add (ca_height (ns_cache s)) 1) (\<lambda>next.
     let to_height = min to_height next
     in bind_o (collect_results (map (\<lambda>r. bind_o r (\<lambda>f. Ok (into_block f)))
                  (fetch_blocks s (Included from_height, Excluded to_height) LowestToHighest))) (\<lambda>blocks.
        bind_o (get_range (ns_cache s) from_height to_height) (\<lambda>pending_proposals.
        Ok [SendTo peer (NetSnapshotChunk (ChunkSlow snapshot_id (blocks @ pending_proposals)))])))"

definition send_snapshot_chunk_fast ::
    "node_state \<Rightarrow> peer_id \<Rightarrow> u64 \<Rightarrow> u64 \<Rightarrow> (node_out list, node_error) outcome" where
  "send_snapshot_chunk_fast s peer snapshot_id to_height =
     bind_o (node_get_block s to_height) (\<lambda>f.
     let elements = map fst (filter (\<lambda>(e, inserted_in). inserted_in \<le> to_height) (tr_entries (pe_tree (ns_tree s))))
     in Ok [SendTo peer (NetSnapshotChunk (ChunkFast snapshot_id (map_option into_block f) elements))])"

definition handle_snapshot_accept ::
    "node_state \<Rightarrow> peer_id \<Rightarrow> snapshot_request \<Rightarrow> (node_out list, node_error) outcome" where
  "handle_snapshot_accept s peer rq =
     (case sq_kind rq of
        Slow \<Rightarrow> send_snapshot_chunk_slow s peer (sq_snapshot_id rq) (sq_from_height rq) (sq_to_height rq)
      | Fast \<Rightarrow> send_snapshot_chunk_fast s peer (sq_snapshot_id rq) (sq_to_height rq))"

section \<open>Requesting a snapshot\<close>

record sync_config =
  sy_chunk_size :: u64
  sy_fast_sync_threshold :: u64

text \<open>
  The three receive loops of the worker, over the messages still in its channel: messages that do
  not fit are dropped, \<open>None\<close> is a loop that waits for more.
\<close>

fun wait_for_out_of_sync :: "sync_message list \<Rightarrow> (u64 \<times> sync_message list) option" where
  "wait_for_out_of_sync [] = None"
| "wait_for_out_of_sync (MsgOutOfSync max_seen_height # msgs) = Some (max_seen_height, msgs)"
| "wait_for_out_of_sync (_ # msgs) = wait_for_out_of_sync msgs"

fun wait_for_snapshot_offer :: "u64 \<Rightarrow> sync_message list \<Rightarrow> (peer_id \<times> sync_message list) option" where
  "wait_for_snapshot_offer snapshot_id [] = None"
| "wait_for_snapshot_offer snapshot_id (MsgSnapshotOffer peer i # msgs) =
     (if i = snapshot_id then Some (peer, msgs) else wait_for_snapshot_offer snapshot_id msgs)"
| "wait_for_snapshot_offer snapshot_id (_ # msgs) = wait_for_snapshot_offer snapshot_id msgs"

fun chunk_id :: "snapshot_chunk \<Rightarrow> u64" where
  "chunk_id (ChunkSlow i _) = i"
| "chunk_id (ChunkFast i _ _) = i"

fun wait_for_snapshot_chunk ::
    "peer_id \<Rightarrow> u64 \<Rightarrow> sync_message list \<Rightarrow> (snapshot_chunk \<times> sync_message list) option" where
  "wait_for_snapshot_chunk peer snapshot_id [] = None"
| "wait_for_snapshot_chunk peer snapshot_id (MsgSnapshotChunk sc_peer sc # msgs) =
     (if sc_peer = peer \<and> chunk_id sc = snapshot_id then Some (sc, msgs)
      else wait_for_snapshot_chunk peer snapshot_id msgs)"
| "wait_for_snapshot_chunk peer snapshot_id (_ # msgs) = wait_for_snapshot_chunk peer snapshot_id msgs"

text \<open>
  The request of \<open>handle_out_of_sync\<close>; \<open>contract\<close> is the height the rollup contract reports, if the
  call succeeds. The difference of the heights is checked for underflow.
\<close>

definition snapshot_request_for ::
    "mode \<Rightarrow> sync_config \<Rightarrow> node_state \<Rightarrow> u64 \<Rightarrow> u64 \<Rightarrow> u64 option \<Rightarrow> (snapshot_request option, node_error) outcome" where
  "snapshot_request_for node_mode sy s snapshot_id max_seen_height contract =
     bind_o (is_out_of_sync (ns_cache s)) (\<lambda>oos.
     if \<not> oos then Ok None
     else bind_o (height_add (ca_height (ns_cache s)) 1) (\<lambda>from_height.
          bind_o (height_add from_height (sy_chunk_size sy)) (\<lambda>to_height.
          if max_seen_height < ca_height (ns_cache s) then Panic
          else let far = (sy_fast_sync_threshold sy < max_seen_height - ca_height (ns_cache s));
                   slow = \<lparr>sq_snapshot_id = snapshot_id, sq_from_height = from_height, sq_to_height = to_height, sq_kind = Slow\<rparr>
               in Ok (Some (if is_prover node_mode \<and> far then
                              (case contract of
                                 Some contract_height \<Rightarrow>
                                   if to_height < contract_height
                                   then slow\<lparr>sq_to_height := contract_height, sq_kind := Fast\<rparr> else slow
                               | None \<Rightarrow> slow)
                            else slow)))))"

definition accept_snapshot_offer ::
    "node_state \<Rightarrow> snapshot_request \<Rightarrow> peer_id \<Rightarrow> (node_out list, node_error) outcome" where
  "accept_snapshot_offer s rq peer =
     bind_o (height_add (ca_height (ns_cache s)) 1) (\<lambda>from_height.
       Ok [SendTo peer (NetSnapshotAccept (rq\<lparr>sq_from_height := from_height\<rparr>))])"

section \<open>Applying a snapshot\<close>

text \<open>The loop over the sorted blocks of a slow chunk; the worker is woken after each.\<close>

fun receive_chunk ::
    "node_env \<Rightarrow> node_config \<Rightarrow> node_state \<Rightarrow> block list \<Rightarrow> node_state \<times> node_out list \<times> (unit, node_error) outcome" where
  "receive_chunk E cf s [] = (s, [], Ok ())"
| "receive_chunk E cf s (b # bs) =
     (case node_receive_proposal E cf s b of
        Panic \<Rightarrow> (s, [], Panic)
      | Err _ \<Rightarrow> (case receive_chunk E cf s bs of (s, out, r) \<Rightarrow> (s, Tick # out, r))
      | Ok s1 \<Rightarrow> (case receive_chunk E cf s1 bs of (s, out, r) \<Rightarrow> (s, Tick # out, r)))"

definition handle_snapshot_chunk_slow ::
    "node_env \<Rightarrow> node_config \<Rightarrow> node_state \<Rightarrow> block list \<Rightarrow> node_state \<times> node_out list \<times> (unit, node_error) outcome" where
  "handle_snapshot_chunk_slow E cf s chunk =
     (case receive_chunk E cf s (sort_key block_height chunk) of
        (s, out, Ok _) \<Rightarrow>
          (case is_out_of_sync (ns_cache s) of
             Ok True \<Rightarrow> (s, out @ [SyncChannel (MsgOutOfSync (ca_max_height (ns_cache s)))], Ok ())
           | Ok False \<Rightarrow> (s, out, Ok ())
           | Err e \<Rightarrow> (s, out, Err e)
           | Panic \<Rightarrow> (s, out, Panic))
      | (s, out, r) \<Rightarrow> (s, out, r))"

definition last_block_elements :: "block \<Rightarrow> (element \<times> bool) list" where
  "last_block_elements b =
     fold (\<lambda>t m. fold (\<lambda>e. AList.update e True) (txn_outputs t) (fold (\<lambda>e. AList.update e False) (txn_inputs t) m))
       (block_txns b) []"

type_synonym fast_state = "u64 batch \<times> (element \<times> bool) list"

definition fast_insert ::
    "(element \<times> bool) list \<Rightarrow> fast_state \<Rightarrow> element \<Rightarrow> (fast_state, node_error) outcome" where
  "fast_insert lbe bl e =
     (if e = ZERO then Ok bl
      else if map_of lbe e = Some True then Ok (fst bl, AList.delete e (snd bl))
      else bind_o (map_err SmirkCollision (batch_insert merkle_tree_depth (fst bl) e 0)) (\<lambda>b. Ok (b, snd bl)))"

definition fast_remove ::
    "(element \<times> bool) list \<Rightarrow> fast_state \<Rightarrow> element \<Rightarrow> (fast_state, node_error) outcome" where
  "fast_remove lbe bl e =
     (if e = ZERO then Ok bl
      else if map_of lbe e = Some False then Ok (fst bl, AList.delete e (snd bl))
      else bind_o (map_err SmirkCollision (batch_remove merkle_tree_depth (fst bl) e)) (\<lambda>b. Ok (b, snd bl)))"

definition apply_fast_snapshot_chunk ::
    "bool \<Rightarrow> bool \<Rightarrow> node_env \<Rightarrow> notes_tree \<Rightarrow> block \<Rightarrow> element list \<Rightarrow> notes_tree \<times> (unit, node_error) outcome" where
  "apply_fast_snapshot_chunk write_ok tn E p b elements =
     (let lbe = last_block_elements b;
          new_elements = filter (\<lambda>e. e \<notin> set (tree_elements (pe_tree p))) (remdups elements);
          missing_elements = filter (\<lambda>e. e \<notin> set elements) (tree_elements (pe_tree p))
      in case bind_o (unwrap (root_hash_with merkle_tree_depth (tree_hash E) (simple_hash (tree_hash E)) (pe_tree p)
                        new_elements missing_elements)) (\<lambda>(r, _).
                if r \<noteq> block_root b then Ok None
                else bind_o (fold_o (fast_insert lbe) (batch_new, lbe) new_elements) (\<lambda>bl.
                     bind_o (fold_o (fast_remove lbe) bl missing_elements) (\<lambda>(batch, left).
                     Ok (if left \<noteq> [] then None else Some batch)))) of
           Panic \<Rightarrow> (p, Panic)
         | Err e \<Rightarrow> (p, Err e)
         | Ok None \<Rightarrow> (p, Ok ())
         | Ok (Some batch) \<Rightarrow>
             (case persistent_insert_batch write_ok tn merkle_tree_depth (tree_hash E) p batch of
                (p', r) \<Rightarrow> (p', map_err SmirkError r)))"

definition handle_snapshot_chunk_fast ::
    "node_env \<Rightarrow> node_config \<Rightarrow> commit_io \<Rightarrow> node_state \<Rightarrow> block option \<Rightarrow> element list \<Rightarrow>
     node_state \<times> node_out list \<times> (unit, node_error) outcome" where
  "handle_snapshot_chunk_fast E cf io s block elements =
     (case block of
        None \<Rightarrow> (s, [], Ok ())
      | Some b \<Rightarrow>
          (case apply_fast_snapshot_chunk (ci_write_ok io) (ci_temp_noir io) E (ns_tree s) b elements of
             (p, Panic) \<Rightarrow> (s\<lparr>ns_tree := p\<rparr>, [], Panic)
           | (p, Err e) \<Rightarrow> (s\<lparr>ns_tree := p\<rparr>, [], Err e)
           | (p, Ok _) \<Rightarrow>
               if block_height b = 0 then (s\<lparr>ns_tree := p\<rparr>, [], Panic)
               else let s = s\<lparr>ns_tree := p, ns_cache := confirm (block_height b - 1) (ns_cache s)\<rparr>
                    in (case node_receive_proposal E cf s b of
                          Panic \<Rightarrow> (s, [], Panic)
                        | Err e \<Rightarrow> (s, [], Err e)
                        | Ok s \<Rightarrow> (s, [Tick], Ok ()))))"

definition handle_snapshot_chunk ::
    "node_env \<Rightarrow> node_config \<Rightarrow> commit_io \<Rightarrow> node_state \<Rightarrow> snapshot_chunk \<Rightarrow>
     node_state \<times> node_out list \<times> (unit, node_error) outcome" where
  "handle_snapshot_chunk E cf io s sc =
     (case sc of
        ChunkSlow _ chunk \<Rightarrow> handle_snapshot_chunk_slow E cf s chunk
      | ChunkFast _ block elements \<Rightarrow> handle_snapshot_chunk_fast E cf io s block elements)"

section \<open>Network events\<close>

definition outputs_only ::
    "node_state \<Rightarrow> (node_out list, node_error) outcome \<Rightarrow> node_state \<times> node_out list \<times> (unit, node_error) outcome" where
  "outputs_only s r = (case r of Ok out \<Rightarrow> (s, out, Ok ()) | Err e \<Rightarrow> (s, [], Err e) | Panic \<Rightarrow> (s, [], Panic))"

fun handle_event ::
    "node_env \<Rightarrow> node_config \<Rightarrow> eth_view \<Rightarrow> node_state \<Rightarrow> peer_id \<Rightarrow> network_event \<Rightarrow>
     node_state \<times> node_out list \<times> (unit, node_error) outcome" where
  "handle_event E cf eth s peer (NetApproval a) = outputs_only s (node_receive_accept E cf a)"
| "handle_event E cf eth s peer (NetBlock b) =
     (case node_receive_proposal E cf s b of
        Ok s' \<Rightarrow> (s', [Tick], Ok ()) | Err e \<Rightarrow> (s, [], Err e) | Panic \<Rightarrow> (s, [], Panic))"
| "handle_event E cf eth s peer (NetTransaction t) =
     (case receive_transaction E cf eth s t of (s', r) \<Rightarrow> (s', [], r))"
| "handle_event E cf eth s peer (NetSnapshotRequest rq) = outputs_only s (handle_snapshot_request s peer rq)"
| "handle_event E cf eth s peer (NetSnapshotOffer i) = (s, [SyncChannel (MsgSnapshotOffer peer i)], Ok ())"
| "handle_event E cf eth s peer (NetSnapshotChunk sc) = (s, [SyncChannel (MsgSnapshotChunk peer sc)], Ok ())"
| "handle_event E cf eth s peer (NetSnapshotAccept rq) = outputs_only s (handle_snapshot_accept s peer rq)"

section \<open>Lemmas\<close>

lemma cache_insert_height: "ca_height (cache_insert E b c) = ca_height c"
  by (simp add: cache_insert_eq Let_def cache_remove_height put_block_def)

lemma confirm_height: "ca_height (confirm h c) = h"
proof -
  have "ca_height (fold drop_height ks c) = ca_height c" for ks c
    by (induction ks arbitrary: c) (simp_all add: drop_height_blocks(2))
  then show ?thesis by (simp add: confirm_def)
qed

lemma fast_keeps_zero:
  "fast_insert lbe bl e = Ok bl' \<Longrightarrow> ZERO \<in> fst ` set (snd bl) \<Longrightarrow> ZERO \<in> fst ` set (snd bl')"
  "fast_remove lbe bl e = Ok bl' \<Longrightarrow> ZERO \<in> fst ` set (snd bl) \<Longrightarrow> ZERO \<in> fst ` set (snd bl')"
  by (auto simp: fast_insert_def fast_remove_def bind_o_Ok_iff AList.delete_eq split: if_splits)

lemma last_block_elements_keys:
  "fst ` set (last_block_elements b) = (\<Union>t \<in> set (block_txns b). set (txn_inputs t @ txn_outputs t))"
proof -
  have upd: "fst ` set (fold (\<lambda>e. AList.update e v) es m) = fst ` set m \<union> set es" for es v and m :: "(element \<times> bool) list"
    by (induction es arbitrary: m) (auto simp: dom_update)
  have "fst ` set (fold (\<lambda>t m. fold (\<lambda>e. AList.update e True) (txn_outputs t) (fold (\<lambda>e. AList.update e False) (txn_inputs t) m)) ts m)
      = fst ` set m \<union> (\<Union>t \<in> set ts. set (txn_inputs t @ txn_outputs t))" for ts m
    by (induction ts arbitrary: m) (auto simp: upd)
  then show ?thesis by (simp add: last_block_elements_def)
qed

lemma fast_chunk_zero:
  assumes "t \<in> set (block_txns b)" and "ZERO \<in> set (txn_inputs t @ txn_outputs t)"
  shows "fst (apply_fast_snapshot_chunk wok tn E p b elements) = p"
proof -
  let ?lbe = "last_block_elements b"
  have z: "ZERO \<in> fst ` set ?lbe" using assms unfolding last_block_elements_keys by blast
  have ne: False
    if "fold_o (fast_insert ?lbe) (batch_new, ?lbe) xs = Ok bl" "fold_o (fast_remove ?lbe) bl ys = Ok (x, [])" for xs ys bl x
  proof -
    have "ZERO \<in> fst ` set (snd bl)"
      by (rule fold_o_invariant [where P = "\<lambda>bl. ZERO \<in> fst ` set (snd bl)", OF that(1)]) (use z fast_keeps_zero(1) in auto)
    then show False
      using fold_o_invariant [where P = "\<lambda>bl. ZERO \<in> fst ` set (snd bl)", OF that(2)] fast_keeps_zero(2) by fastforce
  qed
  show ?thesis
    by (auto simp: apply_fast_snapshot_chunk_def Let_def bind_o_Ok_iff split: outcome.splits option.splits if_splits dest: ne)
qed

lemma store_get_height:
  assumes "store_inv T db" and "store_get db i = Ok (Some f)"
  shows "bl_height T f = i"
proof -
  have "stored db (KBlock i) = Some (VBlock f)"
    using assms(2) by (auto simp: store_get_def stored_def bind_o_Ok_iff elim: block_from_bytes.elims split: option.splits)
  from store_inv_matches [OF assms(1) this] show ?thesis by simp
qed

lemma fetch_chain:
  assumes "store_chain E (ns_store s) bs"
  shows "\<exists>xs. collect_results (map (\<lambda>r. bind_o r (\<lambda>f. Ok (into_block f)))
       (fetch_blocks s (Included h, Excluded k) LowestToHighest)) = Ok xs \<and>
     sorted_wrt (<) (map block_height xs) \<and> set xs = {b. \<exists>i. h \<le> i \<and> i < k \<and> chain_at bs i = Some b}"
proof -
  have inv: "store_inv (node_trait E) (ns_store s)" using assms by (simp add: store_chain_def)
  obtain xs where xs: "list_blocks (ns_store s) (Included h, Excluded k) LowestToHighest = map Ok xs"
    "sorted_wrt (<) (map fst xs)"
    "\<forall>i b. (i, b) \<in> set xs \<longleftrightarrow> store_get (ns_store s) i = Ok (Some b) \<and> in_range (Included h, Excluded k) i"
    using list_blocks_range [OF inv, of "(Included h, Excluded k)"] by blast
  have "collect_results (map (\<lambda>r. bind_o r (\<lambda>f. Ok (into_block f)))
       (fetch_blocks s (Included h, Excluded k) LowestToHighest)) = Ok (map (into_block \<circ> snd) xs)"
    by (simp add: fetch_blocks_def xs(1) comp_def case_prod_beta' collect_results_map_Ok)
  moreover have get: "(\<exists>f. store_get (ns_store s) i = Ok (Some f) \<and> into_block f = b) \<longleftrightarrow> chain_at bs i = Some b" for i b
  proof -
    obtain f where f: "store_get (ns_store s) i = Ok f" "map_option into_block f = chain_at bs i"
      using assms unfolding store_chain_def by blast
    then show ?thesis by (cases f) (auto simp: f(2) [symmetric])
  qed
  moreover have rng: "in_range (Included h, Excluded k) i \<longleftrightarrow> h \<le> i \<and> i < k" for i by (simp add: in_range_def)
  have mem: "b \<in> into_block ` snd ` set xs \<longleftrightarrow> (\<exists>i. h \<le> i \<and> i < k \<and> chain_at bs i = Some b)" for b
  proof -
    have "b \<in> into_block ` snd ` set xs \<longleftrightarrow> (\<exists>i f. (i, f) \<in> set xs \<and> into_block f = b)" by force
    also have "\<dots> \<longleftrightarrow> (\<exists>i f. h \<le> i \<and> i < k \<and> store_get (ns_store s) i = Ok (Some f) \<and> into_block f = b)"
      using xs(3) rng by blast
    also have "\<dots> \<longleftrightarrow> (\<exists>i. h \<le> i \<and> i < k \<and> chain_at bs i = Some b)"
      using get by blast
    finally show ?thesis .
  qed
  have "set (map (into_block \<circ> snd) xs) = {b. \<exists>i. h \<le> i \<and> i < k \<and> chain_at bs i = Some b}"
    unfolding set_map image_comp [symmetric] using mem by blast
  moreover have "block_height (into_block f) = i" if "(i, f) \<in> set xs" for i f
    using that xs(3) store_get_height [OF inv, of i f] by (simp add: node_trait_def)
  then have "map block_height (map (into_block \<circ> snd) xs) = map fst xs" by auto
  then have "sorted_wrt (<) (map block_height (map (into_block \<circ> snd) xs))" using xs(2) by (simp only:)
  ultimately show ?thesis by blast
qed

text \<open>The cached blocks of a range, in the order of their heights.\<close>

lemma get_range_spec:
  assumes "cache_inv E c" and "h \<le> k"
  shows "\<exists>ys. get_range c h k = Ok ys \<and> sorted_wrt (<) (map block_height ys) \<and>
     set ys = {b. \<exists>i. h \<le> i \<and> i < k \<and> get_by_height c i = Some b}"
proof -
  let ?P = "\<lambda>(i, _). h \<le> i \<and> i < k" and ?f = "\<lambda>(i, hash). if h \<le> i \<and> i < k then map_of (ca_blocks c) hash else None"
  let ?ys = "List.map_filter ?f (ca_hash_heights c)"
  have bt: "bt_inv (ca_hash_heights c)" using assms(1) by (simp add: cache_inv_def)
  then have get: "bt_get (ca_hash_heights c) i = Some hash \<longleftrightarrow> (i, hash) \<in> set (ca_hash_heights c)" for i hash
    using bt_distinct_keys by (auto simp: bt_get_def bt_keys_def intro: map_of_is_SomeI dest: map_of_SomeD)
  have blk: "\<exists>b. map_of (ca_blocks c) hash = Some b \<and> block_height b = i" if "(i, hash) \<in> set (ca_hash_heights c)" for i hash
    using cache_invD [OF assms(1), of i hash] that get by blast
  have "map block_height (List.map_filter ?f m) = map fst (filter ?P m)" if "set m \<subseteq> set (ca_hash_heights c)" for m
    using that
  proof (induction m)
    case (Cons a m)
    then show ?case using blk [of "fst a" "snd a"] by (cases a) (auto simp: List.map_filter_simps)
  qed (simp add: List.map_filter_simps)
  then have "map block_height ?ys = map fst (filter ?P (ca_hash_heights c))" by simp
  moreover have "sorted_wrt (<) (map fst (filter ?P (ca_hash_heights c)))"
    using bt by (simp add: bt_inv_def bt_keys_def sorted_wrt_map sorted_wrt_filter)
  moreover have "set ?ys = {b. \<exists>i. h \<le> i \<and> i < k \<and> get_by_height c i = Some b}"
  proof (intro set_eqI iffI)
    fix b assume "b \<in> set ?ys"
    then obtain i hash where "(i, hash) \<in> set (ca_hash_heights c)" "h \<le> i" "i < k" "map_of (ca_blocks c) hash = Some b"
      by (auto simp: List.map_filter_def split: if_splits)
    then show "b \<in> {b. \<exists>i. h \<le> i \<and> i < k \<and> get_by_height c i = Some b}"
      using get by (auto simp: get_by_height_def bind_eq_Some_conv)
  next
    fix b assume "b \<in> {b. \<exists>i. h \<le> i \<and> i < k \<and> get_by_height c i = Some b}"
    then obtain i hash where "h \<le> i" "i < k" "(i, hash) \<in> set (ca_hash_heights c)" "map_of (ca_blocks c) hash = Some b"
      using get by (auto simp: get_by_height_def bind_eq_Some_conv)
    then show "b \<in> set ?ys" by (force simp: List.map_filter_def)
  qed
  ultimately show ?thesis using assms(2) by (simp add: get_range_def not_less)
qed

section \<open>Properties\<close>

text \<open>
  C33. A slow snapshot serves the chain: for a range that is not reversed, a node answers an accepted
  offer with one message, whose blocks are exactly the stored blocks of the range up to its confirmed
  height, in increasing order of height, followed by exactly the blocks its cache holds in that
  range, in increasing order of height too.
\<close>

theorem slow_snapshot_serves_chain:
  assumes "node_setup E cf U" and "node_run E cf U s" and "height_add (ca_height (ns_cache s)) 1 = Ok next_height"
    and "sq_kind rq = Slow" and "sq_from_height rq \<le> min (sq_to_height rq) next_height"
  shows "\<exists>bs xs ys. length bs = unat (ca_height (ns_cache s)) \<and> (\<forall>k. \<exists>f. store_get (ns_store s) k = Ok f \<and> map_option into_block f = chain_at bs k) \<and>
     handle_event E cf eth s peer (NetSnapshotAccept rq) =
       (s, [SendTo peer (NetSnapshotChunk (ChunkSlow (sq_snapshot_id rq) (xs @ ys)))], Ok ()) \<and>
     sorted_wrt (<) (map block_height xs) \<and>
     set xs = {b. \<exists>k. sq_from_height rq \<le> k \<and> k < min (sq_to_height rq) next_height \<and> chain_at bs k = Some b} \<and>
     sorted_wrt (<) (map block_height ys) \<and>
     set ys = {b. \<exists>k. sq_from_height rq \<le> k \<and> k < min (sq_to_height rq) next_height \<and>
        get_by_height (ns_cache s) k = Some b}"
proof -
  let ?to = "min (sq_to_height rq) next_height" and ?from = "sq_from_height rq"
  obtain bs where inv: "node_inv E U s bs" using run_node_inv [OF assms(1,2)] by blast
  then have c: "store_chain E (ns_store s) bs" "cache_inv E (ns_cache s)"
    by (simp_all add: node_inv_def ledger_def cache_within_def)
  obtain xs where xs: "collect_results (map (\<lambda>r. bind_o r (\<lambda>f. Ok (into_block f)))
       (fetch_blocks s (Included ?from, Excluded ?to) LowestToHighest)) = Ok xs"
     "sorted_wrt (<) (map block_height xs)" "set xs = {b. \<exists>i. ?from \<le> i \<and> i < ?to \<and> chain_at bs i = Some b}"
    using fetch_chain [OF c(1)] by blast
  obtain ys where ys: "get_range (ns_cache s) ?from ?to = Ok ys" "sorted_wrt (<) (map block_height ys)"
     "set ys = {b. \<exists>i. ?from \<le> i \<and> i < ?to \<and> get_by_height (ns_cache s) i = Some b}"
    using get_range_spec [OF c(2) assms(5)] by blast
  have "handle_event E cf eth s peer (NetSnapshotAccept rq) =
      (s, [SendTo peer (NetSnapshotChunk (ChunkSlow (sq_snapshot_id rq) (xs @ ys)))], Ok ())"
    using xs(1) ys(1) by (simp add: handle_snapshot_accept_def assms(4) send_snapshot_chunk_slow_def assms(3) Let_def outputs_only_def)
  moreover have "\<forall>k. \<exists>f. store_get (ns_store s) k = Ok f \<and> map_option into_block f = chain_at bs k"
    using c(1) by (simp add: store_chain_def)
  moreover have "length bs = unat (ca_height (ns_cache s))" using inv by (simp add: node_inv_def)
  ultimately show ?thesis using xs(2,3) ys(2,3) by blast
qed

definition demo_eth :: eth_view where
  "demo_eth = \<lparr>ev_block_number = None, ev_get_mint = (\<lambda>_ _. None)\<rparr>"

definition demo_request :: "u64 \<Rightarrow> u64 \<Rightarrow> snapshot_request" where
  "demo_request from_height to_height =
     \<lparr>sq_snapshot_id = 9, sq_from_height = from_height, sq_to_height = to_height, sq_kind = Slow\<rparr>"

theorem slow_snapshot_serves_chain_witness:
  "\<exists>s xs ys b. ca_height (ns_cache s) = 1 \<and> handle_event demo_run_env demo_node_config demo_eth s 7 (NetSnapshotAccept (demo_request 1 5)) =
     (s, [SendTo 7 (NetSnapshotChunk (ChunkSlow 9 (xs @ ys)))], Ok ()) \<and> store_get (ns_store s) 1 = Ok (Some b) \<and> xs = [into_block b]"
proof -
  obtain s where s: "node_run demo_run_env demo_node_config demo_U s" "ca_height (ns_cache s) = 1" using demo_second_mint by blast
  have h: "height_add (ca_height (ns_cache s)) 1 = Ok 2" by (simp add: s(2) height_add_def)
  have rq: "sq_kind (demo_request 1 5) = Slow" "sq_from_height (demo_request 1 5) = 1" "sq_to_height (demo_request 1 5) = 5"
    "sq_snapshot_id (demo_request 1 5) = 9" "1 \<le> min (5::u64) 2" "min (5::u64) 2 = 2"
    by (simp_all add: demo_request_def)
  obtain bs xs ys where w: "length bs = unat (ca_height (ns_cache s))"
    "\<forall>k. \<exists>f. store_get (ns_store s) k = Ok f \<and> map_option into_block f = chain_at bs k"
    "handle_event demo_run_env demo_node_config demo_eth s 7 (NetSnapshotAccept (demo_request 1 5)) =
       (s, [SendTo 7 (NetSnapshotChunk (ChunkSlow 9 (xs @ ys)))], Ok ())"
    "sorted_wrt (<) (map block_height xs)" "set xs = {b. \<exists>k. 1 \<le> k \<and> k < 2 \<and> chain_at bs k = Some b}"
    using slow_snapshot_serves_chain [OF demo_setup s(1) h rq(1), of demo_eth 7] rq by auto
  have k: "1 \<le> k \<and> k < 2 \<longleftrightarrow> k = 1" for k :: u64
    by (auto simp: word_le_nat_alt word_less_nat_alt intro: word_unat_eq_iff [THEN iffD2])
  have one: "set xs = {b. chain_at bs 1 = Some b}" unfolding w(5) conj_assoc [symmetric] k by simp
  have "chain_at bs 1 \<noteq> None" using w(1) s(2) by (simp add: chain_at_def)
  then obtain b where b: "store_get (ns_store s) 1 = Ok (Some b)" "chain_at bs 1 = Some (into_block b)"
    using spec [OF w(2), of 1] by auto
  then have "set xs = {into_block b}" using one by auto
  then have "xs = [into_block b]" using w(4) by (cases xs; cases "tl xs") auto
  then show ?thesis using w(3) s(2) b by blast
qed

text \<open>
  A peer can stop the event loop of a node. An accept of a snapshot whose start is above its
  end, or above the block after the confirmed one, reaches a range query of the cache that panics.
\<close>

lemma snapshot_accept_panics:
  assumes "node_setup E cf U" and "node_run E cf U s" and "sq_kind rq = Slow"
    and "min (sq_to_height rq) (ca_height (ns_cache s) + 1) < sq_from_height rq"
  shows "handle_event E cf eth s peer (NetSnapshotAccept rq) = (s, [], Panic)"
proof (cases "height_add (ca_height (ns_cache s)) 1")
  case (Ok n)
  then have n: "n = ca_height (ns_cache s) + 1" by (simp add: height_add_def split: if_splits)
  obtain bs where "node_inv E U s bs" using run_node_inv [OF assms(1,2)] by blast
  then have "store_chain E (ns_store s) bs" by (simp add: node_inv_def ledger_def)
  from fetch_chain [OF this, of "sq_from_height rq" "min (sq_to_height rq) n"] show ?thesis
    using assms(3,4) Ok
    by (auto simp: handle_snapshot_accept_def send_snapshot_chunk_slow_def Let_def outputs_only_def get_range_def n)
qed (use assms(3) in \<open>auto simp: handle_snapshot_accept_def send_snapshot_chunk_slow_def outputs_only_def height_add_def split: if_splits\<close>)

text \<open>
  The handlers of the network and slow snapshots stay within the runs of \<open>node_run\<close>, so what holds in
  every run holds after them. Only a fast chunk that has a block leaves the runs: it changes the tree and
  confirms the cache with no block stored (the lemma after these).
\<close>

fun event_within :: "element set \<Rightarrow> network_event \<Rightarrow> bool" where
  "event_within U (NetBlock b) \<longleftrightarrow> set (outs b) \<subseteq> U"
| "event_within U (NetTransaction t) \<longleftrightarrow> set (non_zero (txn_outputs t)) \<subseteq> U"
| "event_within U _ \<longleftrightarrow> True"

fun chunk_within :: "element set \<Rightarrow> snapshot_chunk \<Rightarrow> bool" where
  "chunk_within U (ChunkSlow _ bs) \<longleftrightarrow> (\<forall>b \<in> set bs. set (outs b) \<subseteq> U)"
| "chunk_within U (ChunkFast _ b _) \<longleftrightarrow> b = None"

lemma run_event:
  assumes "node_run E cf U s" and "event_within U ev" and "handle_event E cf eth s peer ev = (s', out, r)"
  shows "node_run E cf U s'"
proof (cases ev)
  case (NetBlock b)
  then show ?thesis
    using assms run_proposal [OF assms(1), of b s'] by (auto split: outcome.splits)
next
  case (NetTransaction t)
  then show ?thesis
    using assms run_transaction [OF assms(1), of t eth s' r] by (auto split: prod.splits)
qed (use assms in \<open>auto simp: outputs_only_def split: outcome.splits\<close>)

lemma run_receive_chunk:
  "node_run E cf U s \<Longrightarrow> \<forall>b \<in> set bs. set (outs b) \<subseteq> U \<Longrightarrow> receive_chunk E cf s bs = (s', out, r) \<Longrightarrow> node_run E cf U s'"
proof (induction bs arbitrary: s out)
  case (Cons b bs)
  have more: "node_run E cf U s1" if "node_receive_proposal E cf s b = Ok s1" for s1
    using run_proposal [OF Cons.prems(1) _ that] Cons.prems(2) by simp
  show ?case
  proof (cases "node_receive_proposal E cf s b")
    case (Ok s1)
    obtain out1 where "receive_chunk E cf s1 bs = (s', out1, r)"
      using Cons.prems(3) Ok by (auto split: prod.splits)
    then show ?thesis using Cons.IH [OF more [OF Ok]] Cons.prems(2) by simp
  next
    case (Err e)
    obtain out1 where "receive_chunk E cf s bs = (s', out1, r)"
      using Cons.prems(3) Err by (auto split: prod.splits)
    then show ?thesis using Cons.IH [OF Cons.prems(1)] Cons.prems(2) by simp
  qed (use Cons.prems in simp)
qed simp

lemma run_snapshot_chunk:
  assumes "node_run E cf U s" and "chunk_within U sc" and "handle_snapshot_chunk E cf io s sc = (s', out, r)"
  shows "node_run E cf U s'"
proof (cases sc)
  case (ChunkSlow i bs)
  obtain s1 out1 r1 where c: "receive_chunk E cf s (sort_key block_height bs) = (s1, out1, r1)" by (metis prod_cases3)
  have "node_run E cf U s1" using run_receive_chunk [OF assms(1) _ c] assms(2) ChunkSlow by simp
  moreover have "s' = s1"
    using assms(3) ChunkSlow c
    by (auto simp: handle_snapshot_chunk_def handle_snapshot_chunk_slow_def split: outcome.splits bool.splits)
  ultimately show ?thesis by simp
next
  case (ChunkFast i b es)
  then show ?thesis using assms by (simp add: handle_snapshot_chunk_def handle_snapshot_chunk_fast_def)
qed

text \<open>
  Fast synchronisation does not work with padded transactions. When a transaction of the last
  block of a fast chunk has a zero commitment, as every mint has, the chunk never changes the notes
  tree, whatever its elements are; the cache is confirmed up to the block below all the same.
\<close>

lemma fast_snapshot_zero_padding:
  assumes "t \<in> set (block_txns b)" and "ZERO \<in> set (txn_inputs t @ txn_outputs t)"
    and "handle_snapshot_chunk_fast E cf io s (Some b) elements = (s', out, r)"
  shows "ns_tree s' = ns_tree s \<and> ns_store s' = ns_store s \<and>
     (r = Ok () \<longrightarrow> ca_height (ns_cache s') = block_height b - 1)"
proof -
  obtain p r1 where p: "apply_fast_snapshot_chunk (ci_write_ok io) (ci_temp_noir io) E (ns_tree s) b elements = (p, r1)"
    by fastforce
  have "p = ns_tree s"
    using fast_chunk_zero [OF assms(1,2), of "ci_write_ok io" "ci_temp_noir io" E "ns_tree s" elements] by (simp add: p)
  then show ?thesis
    using assms(3) p by (auto simp: handle_snapshot_chunk_fast_def node_receive_proposal_def Let_def cache_insert_height
        confirm_height split: outcome.splits if_splits)
qed

end
