(* ===== verification/Solid_Config.thy ===== *)
theory Solid_Config
  imports Prelude
begin

text \<open>
  The accept thresholds of the consensus (\<open>solid/src/config.rs\<close>) and the quorum systems they form.
  The counts are lengths of vectors, so \<open>peers * 2\<close> stays far below the width of \<open>usize\<close> and they
  are natural numbers here; the subtraction that can go below zero is a panic.
\<close>

datatype accept_threshold = MoreThanTwoThirds | Majority

fun threshold :: "accept_threshold \<Rightarrow> nat \<Rightarrow> nat" where
  "threshold MoreThanTwoThirds peers = peers * 2 div 3 + 1"
| "threshold Majority peers = peers div 2 + 1"

definition is_exact_breach :: "accept_threshold \<Rightarrow> nat \<Rightarrow> nat \<Rightarrow> bool" where
  "is_exact_breach t accepts peers \<longleftrightarrow> threshold t peers = accepts"

definition inverse_exceeded :: "accept_threshold \<Rightarrow> nat \<Rightarrow> nat \<Rightarrow> (bool, 'e) outcome" where
  "inverse_exceeded t accepts peers =
     (if peers < threshold t peers then Panic else Ok (accepts > peers - threshold t peers))"

definition is_exceeded :: "accept_threshold \<Rightarrow> nat \<Rightarrow> nat \<Rightarrow> bool" where
  "is_exceeded t accepts peers \<longleftrightarrow> accepts \<ge> threshold t peers"

record solid_config =
  max_proposal_history :: "64 word"
  accept_threshold_of :: accept_threshold
  missing_proposal_timeout :: nat
  skip_timeout :: nat
  out_of_sync_timeout :: nat

text \<open>
  A threshold makes a quorum system when a full set of peers is a quorum and more than half of the
  peers are needed: then two quorums share a peer, and a set of peers that is as large as the
  complement of no quorum can be (\<open>blocking\<close>) meets every quorum.
\<close>

locale quorum_threshold =
  fixes thr :: "nat \<Rightarrow> nat"
  assumes reachable: "0 < n \<Longrightarrow> thr n \<le> n"
    and half: "n < 2 * thr n"
begin

definition quorum :: "'p set \<Rightarrow> 'p set \<Rightarrow> bool" where
  "quorum V Q \<longleftrightarrow> Q \<subseteq> V \<and> thr (card V) \<le> card Q"

definition blocking :: "'p set \<Rightarrow> 'p set \<Rightarrow> bool" where
  "blocking V B \<longleftrightarrow> B \<subseteq> V \<and> card V - thr (card V) < card B"

lemma card_union_bound:
  assumes "finite V" and "A \<subseteq> V" and "B \<subseteq> V"
  shows "card A + card B \<le> card V + card (A \<inter> B)"
proof -
  have "finite A" "finite B" using assms finite_subset by blast+
  then have "card A + card B = card (A \<union> B) + card (A \<inter> B)" by (rule card_Un_Int)
  moreover have "card (A \<union> B) \<le> card V" using assms by (simp add: card_mono)
  ultimately show ?thesis by simp
qed

lemma quorums_overlap:
  assumes "finite V" and "quorum V Q" and "quorum V Q'"
  shows "2 * thr (card V) \<le> card V + card (Q \<inter> Q')"
  using card_union_bound [OF assms(1), of Q Q'] assms(2,3) unfolding quorum_def by linarith

lemma quorums_meet:
  assumes "finite V" and "quorum V Q" and "quorum V Q'"
  shows "Q \<inter> Q' \<noteq> {}"
  using quorums_overlap [OF assms] half [of "card V"] by (metis add.right_neutral card.empty not_le)

lemma blocking_meets_quorum:
  assumes "finite V" and "quorum V Q" and "blocking V B"
  shows "Q \<inter> B \<noteq> {}"
  using card_union_bound [OF assms(1), of Q B] assms(2,3) unfolding quorum_def blocking_def
  by (cases "Q \<inter> B = {}") auto

lemma not_blocking_leaves_quorum:
  assumes "finite V" and "V \<noteq> {}" and "B \<subseteq> V" and "\<not> blocking V B"
  shows "quorum V (V - B)"
proof -
  have "0 < card V" using assms(1,2) by (simp add: card_gt_0_iff)
  then have "thr (card V) \<le> card V" by (rule reachable)
  moreover have "card (V - B) = card V - card B"
    using assms(1,3) by (simp add: card_Diff_subset finite_subset)
  ultimately show ?thesis using assms(3,4) unfolding quorum_def blocking_def by auto
qed

end

lemma threshold_reachable: "0 < n \<Longrightarrow> threshold t n \<le> n"
  by (cases t) auto

lemma threshold_half: "n < 2 * threshold t n"
  by (cases t) auto

interpretation qt: quorum_threshold "threshold t" for t
  by unfold_locales (simp_all add: threshold_reachable threshold_half)

lemma quorum_iff_exceeded:
  "qt.quorum t V Q \<longleftrightarrow> Q \<subseteq> V \<and> is_exceeded t (card Q) (card V)"
  unfolding qt.quorum_def is_exceeded_def ..

lemma inverse_exceeded_iff:
  assumes "0 < n"
  shows "inverse_exceeded t k n = Ok (n - threshold t n < k)"
  using threshold_reachable [OF assms, of t] by (simp add: inverse_exceeded_def)

lemma inverse_exceeded_zero: "inverse_exceeded t k 0 = Panic"
  by (cases t) (simp_all add: inverse_exceeded_def)

lemma two_thirds_overlap:
  assumes "finite V" and "qt.quorum MoreThanTwoThirds V Q" and "qt.quorum MoreThanTwoThirds V Q'"
  shows "card V < 3 * card (Q \<inter> Q')"
  using qt.quorums_overlap [OF assms] by simp

section \<open>Properties\<close>

text \<open>
  The thresholds are quorums: two accepting sets of validators always share a validator, with
  two thirds more than a third of them; a set of validators that exceeds the inverse threshold meets
  every accepting set, and when it does not exceed it the validators outside of it can accept alone.
\<close>

lemma threshold_quorums:
  assumes "finite V" and "V \<noteq> {}" and "Q \<subseteq> V" and "Q' \<subseteq> V" and "B \<subseteq> V"
    and "is_exceeded t (card Q) (card V)" and "is_exceeded t (card Q') (card V)"
  shows "Q \<inter> Q' \<noteq> {} \<and> (t = MoreThanTwoThirds \<longrightarrow> card V < 3 * card (Q \<inter> Q')) \<and>
    (inverse_exceeded t (card B) (card V) = (Ok True :: (bool, 'e) outcome) \<longrightarrow> Q \<inter> B \<noteq> {}) \<and>
    (inverse_exceeded t (card B) (card V) = (Ok False :: (bool, 'e) outcome) \<longrightarrow>
       is_exceeded t (card (V - B)) (card V))"
proof -
  have pos: "0 < card V" using assms(1,2) by (simp add: card_gt_0_iff)
  have q: "qt.quorum t V Q" "qt.quorum t V Q'" using assms by (simp_all add: quorum_iff_exceeded)
  have "Q \<inter> B \<noteq> {}" if "inverse_exceeded t (card B) (card V) = (Ok True :: (bool, 'e) outcome)"
    using qt.blocking_meets_quorum [OF assms(1) q(1), of B] that assms(5)
    by (simp add: inverse_exceeded_iff [OF pos] qt.blocking_def)
  moreover have "is_exceeded t (card (V - B)) (card V)"
    if "inverse_exceeded t (card B) (card V) = (Ok False :: (bool, 'e) outcome)"
    using qt.not_blocking_leaves_quorum [OF assms(1,2,5), of t] that
    by (simp add: inverse_exceeded_iff [OF pos] qt.blocking_def quorum_iff_exceeded)
  ultimately show ?thesis
    using qt.quorums_meet [OF assms(1) q] two_thirds_overlap [OF assms(1)] q by auto
qed

end
