(* ===== verification/Solid_Proposal.thy ===== *)
theory Solid_Proposal
  imports Solid_Config Utxo
begin

text \<open>
  Proposals, accepts and their validation (\<open>solid/src/proposal\<close>, \<open>solid/src/traits.rs\<close>). The
  application, the peers and the hash functions are generic in the source: they are the fields of
  \<open>solid_env\<close>. Peers are ordered (the maps of accepts are \<open>BTreeMap\<close>s over them), heights and
  skips are 64-bit words, and a hash is its bytes.
\<close>

section \<open>Data\<close>

type_synonym proposal_hash = "u8 list"

record proposal_header =
  ph_hash :: proposal_hash
  ph_height :: u64
  ph_skips :: u64

record 'p proposal_accept =
  pa_leader_id :: 'p
  pa_proposal :: proposal_header
  pa_skips :: u64
  pa_from :: 'p
  pa_signature :: "u8 list"

record ('p, 's) manifest_content =
  mc_last_proposal_hash :: proposal_hash
  mc_skips :: u64
  mc_height :: u64
  mc_leader_id :: 'p
  mc_state :: 's
  mc_validators :: "'p list"
  mc_accepts :: "'p proposal_accept list"

record ('p, 's) manifest =
  mf_content :: "('p, 's) manifest_content"
  mf_signature :: "u8 list"

record ('p, 's) solid_env =
  app_hash :: "('p, 's) manifest_content \<Rightarrow> proposal_hash"
  app_validate_structure :: "('p, 's) manifest_content \<Rightarrow> bool"
  app_validate_contents :: "('p, 's) manifest_content \<Rightarrow> ('p, 's) manifest_content \<Rightarrow> bool"
  app_genesis :: 's
  peer_verify :: "'p \<Rightarrow> u8 list \<Rightarrow> u8 list \<Rightarrow> bool"
  peer_to_u256 :: "'p \<Rightarrow> element"
  signer_peer :: 'p
  signer_sign :: "u8 list \<Rightarrow> u8 list"
  keccak_256 :: "u8 list \<Rightarrow> u8 list"
  sha_256 :: "u8 list \<Rightarrow> u8 list"

text \<open>
  The errors of \<open>solid/src/errors.rs\<close>. \<open>OutOfFuel\<close> is not one of them: it is the result of a model
  loop that has used up its fuel, that is, of a call that does not return.
\<close>

datatype 'p solid_error =
    InvalidAcceptSignature | InvalidAcceptProposalHash | InvalidAcceptValidator | InvalidProposalLeader
  | InvalidAcceptLeader 'p 'p | InsufficientAcceptsForProposal | InvalidProposalSignature
  | ProposalAlreadyExists proposal_hash | ProposalHeightTooLow | ProposalPeerThresholdNotMet
  | ProposalInvalidDecendent | ProposalInvalidAppStructure | ProposalInvalidAppContent
  | OutOfFuel

definition add_u64 :: "u64 \<Rightarrow> u64 \<Rightarrow> (u64, 'e) outcome" where
  "add_u64 a b = (if uint a + uint b < 2 ^ 64 then Ok (a + b) else Panic)"

lemma add_u64_nat: "add_u64 a b = (if unat a + unat b < 2 ^ 64 then Ok (a + b) else Panic)"
proof -
  have "uint a + uint b < 2 ^ 64 \<longleftrightarrow> int (unat a + unat b) < int (2 ^ 64)" by simp
  also have "\<dots> \<longleftrightarrow> unat a + unat b < 2 ^ 64" by (rule of_nat_less_iff)
  finally show ?thesis unfolding add_u64_def by (rule if_cong) (rule refl)+
qed

lemma add_u64_Ok_iff: "add_u64 a b = Ok c \<longleftrightarrow> unat c = unat a + unat b"
proof -
  have "unat (a + b) = unat a + unat b" if "unat a + unat b < 2 ^ 64"
    using that by (subst unat_add_lem [THEN iffD1]) simp_all
  moreover have "unat c < 2 ^ 64" using unsigned_less [of c, where ?'a = nat] by simp
  ultimately show ?thesis by (auto simp: add_u64_nat word_unat_eq_iff)
qed

lemma add_u64_not_Err [simp]: "add_u64 a b \<noteq> Err e"
  by (simp add: add_u64_def)

section \<open>Hashes, leaders and signatures\<close>

definition genesis_hash :: proposal_hash where
  "genesis_hash = replicate 32 0"

definition ordering_hash :: "('p, 's) solid_env \<Rightarrow> u64 \<Rightarrow> u64 \<Rightarrow> element" where
  "ordering_hash E height skips = from_le_bytes (sha_256 E (u64_be_bytes height @ u64_be_bytes skips))"

definition distance :: "('p, 's) solid_env \<Rightarrow> 'p \<Rightarrow> element \<Rightarrow> element" where
  "distance E peer other = xor other (peer_to_u256 E peer)"

definition ordered_validators :: "('p, 's) solid_env \<Rightarrow> ('p, 's) manifest_content \<Rightarrow> 'p list" where
  "ordered_validators E m =
     sort_key (\<lambda>a. distance E a (ordering_hash E (mc_height m) (mc_skips m))) (mc_validators m)"

definition leader_at :: "u64 \<Rightarrow> 'p list \<Rightarrow> ('p, 'p solid_error) outcome" where
  "leader_at skip validators =
     (if validators = [] then Panic else Ok (validators ! (unat skip mod length validators)))"

definition get_leader_for_skip ::
    "('p, 's) solid_env \<Rightarrow> ('p, 's) manifest_content \<Rightarrow> u64 \<Rightarrow> ('p, 'p solid_error) outcome" where
  "get_leader_for_skip E m skip = leader_at skip (ordered_validators E m)"

definition content_genesis_of ::
    "('p, 's) solid_env \<Rightarrow> 'p list \<Rightarrow> (('p, 's) manifest_content, 'p solid_error) outcome" where
  "content_genesis_of E validators =
     bind_o (leader_at 0 validators) (\<lambda>leader_id.
       Ok \<lparr>mc_last_proposal_hash = genesis_hash, mc_skips = 0, mc_height = 0, mc_leader_id = leader_id,
           mc_state = app_genesis E, mc_validators = validators, mc_accepts = []\<rparr>)"

definition manifest_genesis ::
    "('p, 's) solid_env \<Rightarrow> 'p list \<Rightarrow> (('p, 's) manifest, 'p solid_error) outcome" where
  "manifest_genesis E validators =
     bind_o (content_genesis_of E validators) (\<lambda>c. Ok \<lparr>mf_content = c, mf_signature = []\<rparr>)"

definition manifest_verify :: "('p, 's) solid_env \<Rightarrow> ('p, 's) manifest \<Rightarrow> 'p \<Rightarrow> bool" where
  "manifest_verify E m signer = peer_verify E signer (mf_signature m) (app_hash E (mf_content m))"

definition accept_sig_hash :: "('p, 's) solid_env \<Rightarrow> proposal_header \<Rightarrow> u64 \<Rightarrow> u8 list" where
  "accept_sig_hash E header skips = keccak_256 E (ph_hash header @ u64_be_bytes skips)"

definition accept_sign :: "('p, 's) solid_env \<Rightarrow> proposal_header \<Rightarrow> u64 \<Rightarrow> u8 list" where
  "accept_sign E header skips = signer_sign E (accept_sig_hash E header skips)"

definition verify_signature ::
    "('p, 's) solid_env \<Rightarrow> 'p proposal_accept \<Rightarrow> (unit, 'p solid_error) outcome" where
  "verify_signature E a =
     (if peer_verify E (pa_from a) (pa_signature a) (accept_sig_hash E (pa_proposal a) (pa_skips a))
      then Ok () else Err InvalidAcceptSignature)"

section \<open>Proposals\<close>

record ('p, 's) proposal =
  pr_incoming_accepts :: "(u64, ('p, 'p proposal_accept) btree) btree"
  pr_hash :: proposal_hash
  pr_manifest :: "('p, 's) manifest"
  pr_ordered_validators :: "'p list"
  pr_initial_accept_sent :: bool
  pr_skips_sent :: u64
  pr_is_validated :: bool

abbreviation pr_content :: "('p, 's) proposal \<Rightarrow> ('p, 's) manifest_content" where
  "pr_content p \<equiv> mf_content (pr_manifest p)"

abbreviation pr_height :: "('p, 's) proposal \<Rightarrow> u64" where
  "pr_height p \<equiv> mc_height (pr_content p)"

abbreviation pr_skips :: "('p, 's) proposal \<Rightarrow> u64" where
  "pr_skips p \<equiv> mc_skips (pr_content p)"

abbreviation pr_last_hash :: "('p, 's) proposal \<Rightarrow> proposal_hash" where
  "pr_last_hash p \<equiv> mc_last_proposal_hash (pr_content p)"

definition proposal_new :: "('p, 's) solid_env \<Rightarrow> ('p, 's) manifest \<Rightarrow> ('p, 's) proposal" where
  "proposal_new E m =
     \<lparr>pr_incoming_accepts = [], pr_hash = app_hash E (mf_content m), pr_manifest = m,
      pr_ordered_validators = ordered_validators E (mf_content m), pr_initial_accept_sent = False,
      pr_skips_sent = 0, pr_is_validated = False\<rparr>"

definition accepts_at :: "('p, 's) proposal \<Rightarrow> u64 \<Rightarrow> ('p, 'p proposal_accept) btree" where
  "accepts_at p skips = (case bt_get (pr_incoming_accepts p) skips of None \<Rightarrow> [] | Some m \<Rightarrow> m)"

definition accepts_for_skip :: "('p, 's) proposal \<Rightarrow> u64 \<Rightarrow> 'p proposal_accept list option" where
  "accepts_for_skip p skips = map_option (map snd) (bt_get (pr_incoming_accepts p) skips)"

definition accept_threshold_breached :: "('p, 's) proposal \<Rightarrow> u64 \<Rightarrow> accept_threshold \<Rightarrow> bool" where
  "accept_threshold_breached p skips t =
     is_exact_breach t (case bt_get (pr_incoming_accepts p) skips of None \<Rightarrow> 0 | Some m \<Rightarrow> length m)
       (length (pr_ordered_validators p))"

fun find_inverse ::
    "accept_threshold \<Rightarrow> nat \<Rightarrow> (u64 \<times> ('p, 'p proposal_accept) btree) list \<Rightarrow> (u64 option, 'e) outcome" where
  "find_inverse t peers [] = Ok None"
| "find_inverse t peers ((skip, accepts) # rest) =
     bind_o (inverse_exceeded t (length accepts) peers) (\<lambda>exceeded.
       if exceeded then Ok (Some skip) else find_inverse t peers rest)"

definition highest_skip_with_inverse :: "('p, 's) proposal \<Rightarrow> accept_threshold \<Rightarrow> (u64 option, 'e) outcome" where
  "highest_skip_with_inverse p t =
     find_inverse t (max (length (pr_ordered_validators p)) 1) (rev (pr_incoming_accepts p))"

definition next_accept_skip :: "('p, 's) proposal \<Rightarrow> accept_threshold \<Rightarrow> bool \<Rightarrow> (u64, 'e) outcome" where
  "next_accept_skip p t skip =
     (if \<not> pr_initial_accept_sent p \<and> pr_skips_sent p = 0 then Ok 0
      else bind_o (if skip then add_u64 (pr_skips_sent p) 1 else Ok (pr_skips_sent p)) (\<lambda>sent.
        bind_o (highest_skip_with_inverse p t) (\<lambda>h.
          case h of
            Some highest \<Rightarrow> if highest > sent then Ok highest else Ok sent
          | None \<Rightarrow> Ok sent)))"

definition validate_manifest_accept ::
    "('p, 's) solid_env \<Rightarrow> ('p, 's) manifest_content \<Rightarrow> unit \<Rightarrow> 'p proposal_accept \<Rightarrow> (unit, 'p solid_error) outcome" where
  "validate_manifest_accept E m u a =
     bind_o (verify_signature E a) (\<lambda>_.
       if pa_leader_id a \<noteq> mc_leader_id m then Err (InvalidAcceptLeader (mc_leader_id m) (pa_leader_id a))
       else if ph_hash (pa_proposal a) \<noteq> mc_last_proposal_hash m then Err InvalidAcceptProposalHash
       else Ok ())"

definition validate_structure ::
    "('p, 's) solid_env \<Rightarrow> ('p, 's) proposal \<Rightarrow> accept_threshold \<Rightarrow> (unit, 'p solid_error) outcome" where
  "validate_structure E p t =
     (if \<not> is_exceeded t (length (mc_accepts (pr_content p))) (length (pr_ordered_validators p))
      then Err InsufficientAcceptsForProposal
      else if \<not> manifest_verify E (pr_manifest p) (mc_leader_id (pr_content p)) then Err InvalidProposalSignature
      else bind_o (fold_o (validate_manifest_accept E (pr_content p)) () (mc_accepts (pr_content p))) (\<lambda>_.
        if \<not> app_validate_structure E (pr_content p) then Err ProposalInvalidAppStructure else Ok ()))"

definition validate_contents ::
    "('p, 's) solid_env \<Rightarrow> ('p, 's) proposal \<Rightarrow> ('p, 's) proposal \<Rightarrow> (unit, 'p solid_error) outcome" where
  "validate_contents E p last_confirmed =
     (if pr_hash last_confirmed \<noteq> pr_last_hash p then Err ProposalInvalidDecendent
      else bind_o (get_leader_for_skip E (pr_content last_confirmed) (pr_skips p)) (\<lambda>leader.
        if leader \<noteq> mc_leader_id (pr_content p) then Err InvalidProposalLeader
        else if \<not> app_validate_contents E (pr_content p) (pr_content last_confirmed) then Err ProposalInvalidAppContent
        else if \<not> list_all (\<lambda>a. pa_from a \<in> set (mc_validators (pr_content last_confirmed)))
                   (mc_accepts (pr_content p)) then Err InvalidAcceptValidator
        else Ok ()))"

definition validate_accept ::
    "('p, 's) solid_env \<Rightarrow> ('p, 's) proposal \<Rightarrow> 'p proposal_accept \<Rightarrow> (unit, 'p solid_error) outcome" where
  "validate_accept E p a =
     bind_o (verify_signature E a) (\<lambda>_.
       bind_o (get_leader_for_skip E (pr_content p) (pa_skips a)) (\<lambda>leader.
         if leader \<noteq> pa_leader_id a then Err (InvalidAcceptLeader leader (pa_leader_id a))
         else if pa_from a \<notin> set (mc_validators (pr_content p)) then Err InvalidAcceptValidator
         else Ok ()))"

definition proposal_add_accept ::
    "('p::linorder, 's) solid_env \<Rightarrow> ('p, 's) proposal \<Rightarrow> 'p proposal_accept \<Rightarrow> accept_threshold \<Rightarrow>
     (('p, 's) proposal \<times> bool, 'p solid_error) outcome" where
  "proposal_add_accept E p a t =
     (case validate_accept E p a of
        Panic \<Rightarrow> Panic
      | Err _ \<Rightarrow> Ok (p, False)
      | Ok _ \<Rightarrow>
          let skips = pa_skips a;
              added = bt_get (accepts_at p skips) (pa_from a);
              p' = p\<lparr>pr_incoming_accepts :=
                       bt_insert skips (bt_insert (pa_from a) a (accepts_at p skips)) (pr_incoming_accepts p)\<rparr>
          in Ok (p', added = None \<and> accept_threshold_breached p' skips t))"

end
