(* ===== verification/Solid_Cache.thy ===== *)
theory Solid_Cache
  imports Solid_Proposal "HOL-Library.AList"
begin

text \<open>
  The proposal cache (\<open>solid/src/proposal/cache.rs\<close>): the proposals by hash, the last confirmed one
  among them, and the walks along \<open>last_proposal_hash\<close>. The \<open>HashMap\<close> is an association list whose
  order stands for the iteration order. A walk that checks heights ends by itself; the walks that do
  not are given one step more than the cache has entries, so that a walk that exhausts it has visited
  an entry twice and would never end.
\<close>

section \<open>Operations\<close>

record ('p, 's) proposal_cache =
  pc_last_confirmed :: proposal_hash
  pc_proposals :: "(proposal_hash \<times> ('p, 's) proposal) list"
  pc_cache_size :: u64

definition pc_new :: "('p, 's) proposal \<Rightarrow> u64 \<Rightarrow> ('p, 's) proposal_cache" where
  "pc_new p sz = \<lparr>pc_last_confirmed = pr_hash p, pc_proposals = [(pr_hash p, p)], pc_cache_size = sz\<rparr>"

definition pc_get :: "('p, 's) proposal_cache \<Rightarrow> proposal_hash \<Rightarrow> ('p, 's) proposal option" where
  "pc_get c h = map_of (pc_proposals c) h"

definition pc_contains :: "('p, 's) proposal_cache \<Rightarrow> proposal_hash \<Rightarrow> bool" where
  "pc_contains c h \<longleftrightarrow> pc_get c h \<noteq> None"

definition pc_insert :: "('p, 's) proposal \<Rightarrow> ('p, 's) proposal_cache \<Rightarrow> ('p, 's) proposal_cache" where
  "pc_insert p c = c\<lparr>pc_proposals := AList.update (pr_hash p) p (pc_proposals c)\<rparr>"

definition pc_remove :: "proposal_hash \<Rightarrow> ('p, 's) proposal_cache \<Rightarrow> ('p, 's) proposal_cache" where
  "pc_remove h c = c\<lparr>pc_proposals := AList.delete h (pc_proposals c)\<rparr>"

text \<open>An update through \<open>get_mut\<close>.\<close>

definition pc_update :: "proposal_hash \<Rightarrow> ('p, 's) proposal \<Rightarrow> ('p, 's) proposal_cache \<Rightarrow> ('p, 's) proposal_cache" where
  "pc_update h p c = c\<lparr>pc_proposals := AList.update h p (pc_proposals c)\<rparr>"

definition last_confirmed_proposal :: "('p, 's) proposal_cache \<Rightarrow> (('p, 's) proposal, 'e) outcome" where
  "last_confirmed_proposal c = (case pc_get c (pc_last_confirmed c) of None \<Rightarrow> Panic | Some p \<Rightarrow> Ok p)"

definition pc_height :: "('p, 's) proposal_cache \<Rightarrow> (u64, 'e) outcome" where
  "pc_height c = (case pc_get c (pc_last_confirmed c) of None \<Rightarrow> Panic | Some p \<Rightarrow> Ok (pr_height p))"

definition proposals_from :: "('p, 's) proposal_cache \<Rightarrow> u64 \<Rightarrow> ('p, 's) proposal list" where
  "proposals_from c from_height = filter (\<lambda>p. from_height \<le> pr_height p) (map snd (pc_proposals c))"

fun confirmed_walk ::
    "nat \<Rightarrow> ('p, 's) proposal_cache \<Rightarrow> u64 \<Rightarrow> ('p, 's) proposal \<Rightarrow> (('p, 's) proposal list, 'p solid_error) outcome" where
  "confirmed_walk 0 c from_height p = Err OutOfFuel"
| "confirmed_walk (Suc n) c from_height p =
     (if from_height \<le> pr_height p
      then (case pc_get c (pr_last_hash p) of
              Some q \<Rightarrow> bind_o (confirmed_walk n c from_height q) (\<lambda>ps. Ok (q # ps))
            | None \<Rightarrow> Ok [])
      else Ok [])"

definition confirmed_proposals_from ::
    "('p, 's) proposal_cache \<Rightarrow> u64 \<Rightarrow> (('p, 's) proposal list, 'p solid_error) outcome" where
  "confirmed_proposals_from c from_height =
     bind_o (last_confirmed_proposal c) (\<lambda>p.
       bind_o (confirmed_walk (Suc (length (pc_proposals c))) c from_height p) (\<lambda>ps. Ok (p # ps)))"

function is_decendent_walk ::
    "('p, 's) proposal_cache \<Rightarrow> proposal_hash \<Rightarrow> ('p, 's) proposal \<Rightarrow> (bool, 'p solid_error) outcome" where
  "is_decendent_walk c decendent_hash p =
     (if pr_hash p = decendent_hash then Ok True
      else case pc_get c (pr_last_hash p) of
             None \<Rightarrow> Ok False
           | Some q \<Rightarrow> bind_o (add_u64 (pr_height q) 1) (\<lambda>h.
               if h \<noteq> pr_height p then Ok False else is_decendent_walk c decendent_hash q))"
  by pat_completeness auto
termination by (relation "measure (\<lambda>(c, d, p). unat (pr_height p))") (auto simp: add_u64_Ok_iff)

declare is_decendent_walk.simps [simp del]

definition is_decendent ::
    "('p, 's) proposal_cache \<Rightarrow> proposal_hash \<Rightarrow> proposal_hash \<Rightarrow> (bool, 'p solid_error) outcome" where
  "is_decendent c decendent_hash parent_hash =
     (case pc_get c parent_hash of None \<Rightarrow> Ok False | Some p \<Rightarrow> is_decendent_walk c decendent_hash p)"

fun filter_o :: "('a \<Rightarrow> (bool, 'e) outcome) \<Rightarrow> 'a list \<Rightarrow> ('a list, 'e) outcome" where
  "filter_o f [] = Ok []"
| "filter_o f (x # xs) = bind_o (f x) (\<lambda>b. bind_o (filter_o f xs) (\<lambda>ys. Ok (if b then x # ys else ys)))"

definition proposal_le :: "('p, 's) proposal \<Rightarrow> ('p, 's) proposal \<Rightarrow> bool" where
  "proposal_le a b \<longleftrightarrow> pr_height a < pr_height b \<or> pr_height a = pr_height b \<and> pr_skips a \<le> pr_skips b"

text \<open>\<open>Iterator::max_by\<close>: of equal elements the last one is returned.\<close>

definition max_proposal :: "('p, 's) proposal list \<Rightarrow> ('p, 's) proposal option" where
  "max_proposal ps =
     (case ps of [] \<Rightarrow> None | p # ps' \<Rightarrow> Some (fold (\<lambda>b a. if proposal_le a b then b else a) ps' p))"

definition max_continuous_proposal ::
    "('p, 's) proposal_cache \<Rightarrow> (('p, 's) proposal option, 'p solid_error) outcome" where
  "max_continuous_proposal c =
     bind_o (pc_height c) (\<lambda>from_height.
       bind_o (filter_o (\<lambda>p. if from_height < pr_height p then is_decendent c (pc_last_confirmed c) (pr_hash p) else Ok False)
                (map snd (pc_proposals c))) (\<lambda>ps. Ok (max_proposal ps)))"

fun pending_walk ::
    "nat \<Rightarrow> ('p, 's) proposal_cache \<Rightarrow> u64 \<Rightarrow> ('p, 's) proposal \<Rightarrow> (('p, 's) proposal option, 'p solid_error) outcome" where
  "pending_walk 0 c target p = Err OutOfFuel"
| "pending_walk (Suc n) c target p =
     (if target < pr_height p
      then (case pc_get c (pr_last_hash p) of None \<Rightarrow> Ok None | Some q \<Rightarrow> pending_walk n c target q)
      else Ok (Some p))"

definition next_pending_proposal ::
    "('p, 's) proposal_cache \<Rightarrow> u64 \<Rightarrow> (('p, 's) proposal option, 'p solid_error) outcome" where
  "next_pending_proposal c offset =
     bind_o (max_continuous_proposal c) (\<lambda>m.
       case m of
         None \<Rightarrow> Ok None
       | Some p \<Rightarrow>
           bind_o (pc_height c) (\<lambda>height.
           bind_o (add_u64 height 1) (\<lambda>next.
           bind_o (add_u64 next offset) (\<lambda>target.
             if pr_height p < target then Ok None
             else pending_walk (Suc (length (pc_proposals c))) c target p))))"

definition purge_entry ::
    "('p, 's) proposal_cache \<Rightarrow> u64 \<Rightarrow> proposal_hash \<times> ('p, 's) proposal \<Rightarrow> (bool, 'p solid_error) outcome" where
  "purge_entry c confirmed_height = (\<lambda>(k, p).
     if pr_height p < confirmed_height then
       bind_o (add_u64 (pr_height p) (pc_cache_size c)) (\<lambda>h. Ok (h < confirmed_height))
     else if confirmed_height < pr_height p then
       bind_o (is_decendent c (pc_last_confirmed c) (pr_hash p)) (\<lambda>b. Ok (\<not> b))
     else Ok (pr_hash p \<noteq> pc_last_confirmed c))"

definition purge :: "('p, 's) proposal_cache \<Rightarrow> (('p, 's) proposal_cache, 'p solid_error) outcome" where
  "purge c =
     bind_o (pc_height c) (\<lambda>confirmed_height.
       bind_o (filter_o (purge_entry c confirmed_height) (pc_proposals c)) (\<lambda>entries.
         Ok (c\<lparr>pc_proposals := fold AList.delete (map fst entries) (pc_proposals c)\<rparr>)))"

definition pc_confirm ::
    "proposal_hash \<Rightarrow> ('p, 's) proposal_cache \<Rightarrow> (('p, 's) proposal_cache, 'p solid_error) outcome" where
  "pc_confirm h c = purge (c\<lparr>pc_last_confirmed := h\<rparr>)"

fun decendents_walk ::
    "nat \<Rightarrow> ('p, 's) proposal_cache \<Rightarrow> proposal_hash \<Rightarrow> ('p, 's) proposal list \<Rightarrow> ('p, 's) proposal \<Rightarrow>
     (('p, 's) proposal list, 'p solid_error) outcome" where
  "decendents_walk 0 c decendent_hash acc p = Err OutOfFuel"
| "decendents_walk (Suc n) c decendent_hash acc p =
     (if pr_hash p = decendent_hash then Ok acc
      else case pc_get c (pr_last_hash p) of
             None \<Rightarrow> Ok []
           | Some q \<Rightarrow> decendents_walk n c decendent_hash (acc @ [p]) q)"

definition decendents ::
    "('p, 's) proposal_cache \<Rightarrow> proposal_hash \<Rightarrow> proposal_hash \<Rightarrow> (('p, 's) proposal list, 'p solid_error) outcome" where
  "decendents c decendent_hash parent_hash =
     (case pc_get c parent_hash of
        None \<Rightarrow> Ok []
      | Some p \<Rightarrow> decendents_walk (Suc (length (pc_proposals c))) c decendent_hash [] p)"

end
