(* ===== verification/Solid_Core.thy ===== *)
theory Solid_Core
  imports Solid_Cache
begin

text \<open>
  The consensus core (\<open>solid/src/solid/core.rs\<close>, \<open>event.rs\<close>): proposals and accepts are received,
  events are produced. Every operation passes the state explicitly. \<open>now\<close> is the time of the call,
  in milliseconds. \<open>get_next_accept_event\<close> and \<open>add_accept\<close> call each other in the source; the
  depth of that recursion is bounded by fuel here, and shown below never to reach it.
\<close>

datatype ('p, 's) solid_event =
    Propose proposal_hash u64 u64 "'p proposal_accept list"
  | Commit "('p, 's) manifest" "('p, 's) manifest"
  | AcceptEvent "'p proposal_accept"
  | OutOfSync u64 u64
  | DuplicateProposal proposal_hash

record 'p proposal_orphan =
  or_accepts :: "'p proposal_accept list"
  or_first_seen :: nat

record ('p, 's) solid_core =
  sc_proposals :: "('p, 's) proposal_cache"
  sc_orphan_accepts :: "(proposal_hash \<times> 'p proposal_orphan) list"
  sc_max_height :: u64

type_synonym ('a, 'p, 's) core_result = "(('p, 's) solid_core \<times> 'a, 'p solid_error) outcome"

definition core_with_last_confirmed ::
    "('p, 's) solid_env \<Rightarrow> solid_config \<Rightarrow> ('p, 's) manifest \<Rightarrow> ('p, 's) solid_core" where
  "core_with_last_confirmed E cfg m =
     \<lparr>sc_proposals = pc_new (proposal_new E m) (max_proposal_history cfg),
      sc_orphan_accepts = [], sc_max_height = mc_height (mf_content m)\<rparr>"

abbreviation core_height :: "('p, 's) solid_core \<Rightarrow> (u64, 'e) outcome" where
  "core_height s \<equiv> pc_height (sc_proposals s)"

definition update_proposal :: "proposal_hash \<Rightarrow> ('p, 's) proposal \<Rightarrow> ('p, 's) solid_core \<Rightarrow> ('p, 's) solid_core" where
  "update_proposal h p s = s\<lparr>sc_proposals := pc_update h p (sc_proposals s)\<rparr>"

definition core_is_out_of_sync :: "('p, 's) solid_core \<Rightarrow> (bool, 'e) outcome" where
  "core_is_out_of_sync s = bind_o (core_height s) (\<lambda>h. bind_o (add_u64 h 1) (\<lambda>h1. Ok (sc_max_height s > h1)))"

section \<open>Receiving proposals\<close>

definition adopt_orphans ::
    "('p::linorder, 's) solid_env \<Rightarrow> accept_threshold \<Rightarrow> 'p proposal_orphan option \<Rightarrow> ('p, 's) proposal \<Rightarrow>
     (('p, 's) proposal, 'p solid_error) outcome" where
  "adopt_orphans E t orphan p =
     (case orphan of
        None \<Rightarrow> Ok p
      | Some orph \<Rightarrow> fold_o (\<lambda>p a. bind_o (proposal_add_accept E p a t) (\<lambda>(p', _). Ok p')) p (or_accepts orph))"

definition receive_proposal ::
    "('p::linorder, 's) solid_env \<Rightarrow> solid_config \<Rightarrow> ('p, 's) manifest \<Rightarrow> ('p, 's) solid_core \<Rightarrow>
     (('p, 's) solid_core, 'p solid_error) outcome" where
  "receive_proposal E cfg m s =
     (let p = proposal_new E m; t = accept_threshold_of cfg in
      bind_o (validate_structure E p t) (\<lambda>_.
        if pc_contains (sc_proposals s) (pr_hash p) then Err (ProposalAlreadyExists (pr_hash p))
        else bind_o (core_height s) (\<lambda>height.
          if height \<ge> pr_height p then Err ProposalHeightTooLow
          else bind_o (adopt_orphans E t (map_of (sc_orphan_accepts s) (pr_hash p)) p) (\<lambda>p'.
            Ok (s\<lparr>sc_max_height := max (sc_max_height s) (pr_height p),
                  sc_orphan_accepts := AList.delete (pr_hash p) (sc_orphan_accepts s),
                  sc_proposals := pc_insert p' (sc_proposals s)\<rparr>)))))"

section \<open>The current proposal\<close>

definition highest_next_pending ::
    "accept_threshold \<Rightarrow> ('p, 's) proposal_cache \<Rightarrow> (('p, 's) proposal option, 'p solid_error) outcome" where
  "highest_next_pending t c =
     bind_o (last_confirmed_proposal c) (\<lambda>last_confirmed.
     bind_o (highest_skip_with_inverse last_confirmed t) (\<lambda>h.
     bind_o (next_pending_proposal c 0) (\<lambda>m.
       Ok (case m of
             None \<Rightarrow> None
           | Some p \<Rightarrow>
               if (case h of None \<Rightarrow> 0 | Some k \<Rightarrow> k) > pr_skips p \<or> pr_skips_sent last_confirmed > pr_skips p
               then None else Some p))))"

fun current_loop ::
    "nat \<Rightarrow> ('p, 's) solid_env \<Rightarrow> accept_threshold \<Rightarrow> ('p, 's) proposal_cache \<Rightarrow>
     (('p, 's) proposal_cache \<times> proposal_hash, 'p solid_error) outcome" where
  "current_loop 0 E t c = Err OutOfFuel"
| "current_loop (Suc n) E t c =
     bind_o (last_confirmed_proposal c) (\<lambda>last_confirmed.
     bind_o (highest_next_pending t c) (\<lambda>m.
       case m of
         None \<Rightarrow> Ok (c, pr_hash last_confirmed)
       | Some p \<Rightarrow>
           bind_o (if pr_is_validated p then Ok True
                   else case validate_contents E p last_confirmed of
                          Ok _ \<Rightarrow> Ok True | Err _ \<Rightarrow> Ok False | Panic \<Rightarrow> Panic) (\<lambda>is_valid.
             if is_valid then Ok (c, pr_hash p) else current_loop n E t (pc_remove (pr_hash p) c))))"

definition validated_current_proposal_hash ::
    "('p, 's) solid_env \<Rightarrow> accept_threshold \<Rightarrow> ('p, 's) proposal_cache \<Rightarrow>
     (('p, 's) proposal_cache \<times> proposal_hash, 'p solid_error) outcome" where
  "validated_current_proposal_hash E t c = current_loop (Suc (length (pc_proposals c))) E t c"

definition validated_current_proposal ::
    "('p, 's) solid_env \<Rightarrow> solid_config \<Rightarrow> ('p, 's) solid_core \<Rightarrow> (('p, 's) proposal, 'p, 's) core_result" where
  "validated_current_proposal E cfg s =
     bind_o (validated_current_proposal_hash E (accept_threshold_of cfg) (sc_proposals s)) (\<lambda>(c, h).
       case pc_get c h of
         None \<Rightarrow> Panic
       | Some p \<Rightarrow> let p' = p\<lparr>pr_is_validated := True\<rparr>
                    in Ok (s\<lparr>sc_proposals := pc_update h p' c\<rparr>, p'))"

section \<open>Accepts\<close>

definition add_orphan ::
    "nat \<Rightarrow> 'p proposal_accept \<Rightarrow> (proposal_hash \<times> 'p proposal_orphan) list \<Rightarrow>
     (proposal_hash \<times> 'p proposal_orphan) list \<times> nat" where
  "add_orphan now a orphans =
     (let h = ph_hash (pa_proposal a) in
      case map_of orphans h of
        Some orph \<Rightarrow> (AList.update h (orph\<lparr>or_accepts := or_accepts orph @ [a]\<rparr>) orphans, or_first_seen orph)
      | None \<Rightarrow> (AList.update h \<lparr>or_accepts = [a], or_first_seen = now\<rparr> orphans, now))"

definition add_orphan_accept ::
    "('p, 's) solid_env \<Rightarrow> solid_config \<Rightarrow> nat \<Rightarrow> 'p proposal_accept \<Rightarrow> ('p, 's) solid_core \<Rightarrow>
     (('p, 's) solid_event option, 'p, 's) core_result" where
  "add_orphan_accept E cfg now a s =
     (let accepted = pa_proposal a; (orphans, first_seen) = add_orphan now a (sc_orphan_accepts s) in
      bind_o (validated_current_proposal E cfg (s\<lparr>sc_orphan_accepts := orphans\<rparr>)) (\<lambda>(s1, current).
      bind_o (add_u64 (pr_height current) 1) (\<lambda>next.
        let missing_more_than_one_proposal = ph_height accepted > next;
            expired = now - first_seen > missing_proposal_timeout cfg;
            accept_is_greater = ph_height accepted > pr_height current \<or> ph_skips accepted > pr_skips current
        in if missing_more_than_one_proposal \<or> expired \<and> accept_is_greater
           then bind_o (core_height s1) (\<lambda>h. Ok (s1, Some (OutOfSync h (ph_height accepted))))
           else Ok (s1, None))))"

definition add_known_accept ::
    "('p::linorder, 's) solid_env \<Rightarrow> solid_config \<Rightarrow> (('p, 's) solid_core \<Rightarrow> (('p, 's) solid_event option, 'p, 's) core_result) \<Rightarrow>
     bool \<Rightarrow> proposal_hash \<Rightarrow> 'p proposal_accept \<Rightarrow> ('p, 's) proposal \<Rightarrow> ('p, 's) solid_core \<Rightarrow>
     (('p, 's) solid_event option, 'p, 's) core_result" where
  "add_known_accept E cfg next_accept is_out_of_sync current_hash a p s =
     (let h = ph_hash (pa_proposal a); skips = pa_skips a in
      bind_o (proposal_add_accept E p a (accept_threshold_of cfg)) (\<lambda>(p', breached).
      bind_o (if breached
              then bind_o (get_leader_for_skip E (pr_content p') skips) (\<lambda>leader.
                     Ok (leader = signer_peer E \<and> \<not> is_out_of_sync))
              else Ok False) (\<lambda>propose.
        if propose then
          bind_o (add_u64 (pr_height p') 1) (\<lambda>height.
            Ok (update_proposal h p' s,
                Some (Propose h height skips (case accepts_for_skip p' skips of None \<Rightarrow> [] | Some as \<Rightarrow> as))))
        else if current_hash = h \<and> skips > pr_skips_sent p' then
          next_accept (update_proposal h (p'\<lparr>pr_skips_sent := skips\<rparr>) s)
        else Ok (update_proposal h p' s, None))))"

definition add_accept_with ::
    "('p::linorder, 's) solid_env \<Rightarrow> solid_config \<Rightarrow> nat \<Rightarrow>
     (('p, 's) solid_core \<Rightarrow> (('p, 's) solid_event option, 'p, 's) core_result) \<Rightarrow>
     'p proposal_accept \<Rightarrow> ('p, 's) solid_core \<Rightarrow> (('p, 's) solid_event option, 'p, 's) core_result" where
  "add_accept_with E cfg now next_accept a s =
     bind_o (core_height s) (\<lambda>height.
       if height > ph_height (pa_proposal a) then Ok (s, None)
       else bind_o (core_is_out_of_sync s) (\<lambda>is_out_of_sync.
         bind_o (validated_current_proposal E cfg s) (\<lambda>(s1, current).
           case pc_get (sc_proposals s1) (ph_hash (pa_proposal a)) of
             Some p \<Rightarrow> add_known_accept E cfg next_accept is_out_of_sync (pr_hash current) a p s1
           | None \<Rightarrow> add_orphan_accept E cfg now a s1)))"

definition next_accept_with ::
    "('p::linorder, 's) solid_env \<Rightarrow> solid_config \<Rightarrow> nat \<Rightarrow>
     (('p, 's) solid_core \<Rightarrow> (('p, 's) solid_event option, 'p, 's) core_result) \<Rightarrow> bool \<Rightarrow> ('p, 's) solid_core \<Rightarrow>
     (('p, 's) solid_event option, 'p, 's) core_result" where
  "next_accept_with E cfg now next_accept skip s =
     bind_o (validated_current_proposal E cfg s) (\<lambda>(s1, p).
     bind_o (next_accept_skip p (accept_threshold_of cfg) skip) (\<lambda>skips.
       let header = \<lparr>ph_hash = pr_hash p, ph_height = pr_height p, ph_skips = pr_skips p\<rparr>;
           signature = accept_sign E header skips
       in bind_o (validated_current_proposal E cfg s1) (\<lambda>(s2, p).
          bind_o (get_leader_for_skip E (pr_content p) skips) (\<lambda>leader.
            let a = \<lparr>pa_leader_id = leader, pa_proposal = header, pa_skips = skips,
                     pa_from = signer_peer E, pa_signature = signature\<rparr>;
                s3 = update_proposal (pr_hash p) (p\<lparr>pr_skips_sent := skips, pr_initial_accept_sent := True\<rparr>) s2
            in bind_o (add_accept_with E cfg now next_accept a s3) (\<lambda>(s4, event).
                 Ok (s4, case event of Some e \<Rightarrow> Some e | None \<Rightarrow> Some (AcceptEvent a)))))))"

fun get_next_accept_event ::
    "nat \<Rightarrow> ('p::linorder, 's) solid_env \<Rightarrow> solid_config \<Rightarrow> nat \<Rightarrow> bool \<Rightarrow> ('p, 's) solid_core \<Rightarrow>
     (('p, 's) solid_event option, 'p, 's) core_result" where
  "get_next_accept_event 0 E cfg now skip s = Err OutOfFuel"
| "get_next_accept_event (Suc n) E cfg now skip s =
     next_accept_with E cfg now (get_next_accept_event n E cfg now False) skip s"

text \<open>The fuel of the recursion: one call of \<open>get_next_accept_event\<close> does not call itself again.\<close>

definition accept_fuel :: nat where
  "accept_fuel = 1"

definition add_accept ::
    "('p::linorder, 's) solid_env \<Rightarrow> solid_config \<Rightarrow> nat \<Rightarrow> 'p proposal_accept \<Rightarrow> ('p, 's) solid_core \<Rightarrow>
     (('p, 's) solid_event option, 'p, 's) core_result" where
  "add_accept E cfg now = add_accept_with E cfg now (get_next_accept_event accept_fuel E cfg now False)"

section \<open>Events\<close>

definition next_commit ::
    "('p, 's) proposal_cache \<Rightarrow> ((('p, 's) proposal \<times> ('p, 's) proposal) option, 'p solid_error) outcome" where
  "next_commit c =
     bind_o (next_pending_proposal c 0) (\<lambda>m.
       case m of
         None \<Rightarrow> Ok None
       | Some p \<Rightarrow> bind_o (next_pending_proposal c 1) (\<lambda>m'. Ok (map_option (\<lambda>q. (p, q)) m')))"

definition core_next_event ::
    "('p::linorder, 's) solid_env \<Rightarrow> solid_config \<Rightarrow> nat \<Rightarrow> ('p, 's) solid_core \<Rightarrow>
     (('p, 's) solid_event option, 'p, 's) core_result" where
  "core_next_event E cfg now s =
     bind_o (next_commit (sc_proposals s)) (\<lambda>commit.
       case commit of
         Some (p, confirmed_by) \<Rightarrow>
           bind_o (pc_confirm (app_hash E (pr_content p)) (sc_proposals s)) (\<lambda>c.
             Ok (s\<lparr>sc_proposals := c\<rparr>, Some (Commit (pr_manifest p) (pr_manifest confirmed_by))))
       | None \<Rightarrow>
           bind_o (core_is_out_of_sync s) (\<lambda>is_out_of_sync.
             if is_out_of_sync then bind_o (core_height s) (\<lambda>h. Ok (s, Some (OutOfSync h (sc_max_height s))))
             else bind_o (validated_current_proposal E cfg s) (\<lambda>(s1, current).
               if \<not> pr_initial_accept_sent current then get_next_accept_event accept_fuel E cfg now False s1
               else Ok (s1, None))))"

definition core_skip ::
    "('p::linorder, 's) solid_env \<Rightarrow> solid_config \<Rightarrow> nat \<Rightarrow> ('p, 's) solid_core \<Rightarrow>
     (('p, 's) solid_event option, 'p, 's) core_result" where
  "core_skip E cfg now s =
     bind_o (core_is_out_of_sync s) (\<lambda>is_out_of_sync.
       if is_out_of_sync then Ok (s, None) else get_next_accept_event accept_fuel E cfg now True s)"

text \<open>
  An error of \<open>receive_accept\<close> leaves the changes made before it: the result carries the state of
  the error path too.
\<close>

definition receive_accept ::
    "('p::linorder, 's) solid_env \<Rightarrow> solid_config \<Rightarrow> nat \<Rightarrow> 'p proposal_accept \<Rightarrow> ('p, 's) solid_core \<Rightarrow>
     ('p, 's) solid_core \<times> (('p, 's) solid_event option, 'p solid_error) outcome" where
  "receive_accept E cfg now a s =
     (case bind_o (verify_signature E a) (\<lambda>_.
             bind_o (validated_current_proposal E cfg s) (\<lambda>(s1, current).
             bind_o (core_height s1) (\<lambda>height.
               Ok (if ph_height (pa_proposal a) > height then s1\<lparr>sc_max_height := ph_height (pa_proposal a)\<rparr> else s1,
                   pr_hash current)))) of
        Err e \<Rightarrow> (s, Err e)
      | Panic \<Rightarrow> (s, Panic)
      | Ok (s2, current_hash) \<Rightarrow>
          (case (case pc_get (sc_proposals s2) (ph_hash (pa_proposal a)) of
                   None \<Rightarrow> Ok () | Some p \<Rightarrow> validate_accept E p a) of
             Err e \<Rightarrow> (s2, Err e)
           | Panic \<Rightarrow> (s2, Panic)
           | Ok _ \<Rightarrow>
               (case bind_o (add_accept E cfg now a s2) (\<lambda>(s3, event).
                       if event \<noteq> None then Ok (s3, event)
                       else bind_o (validated_current_proposal E cfg s3) (\<lambda>(s4, current).
                         if current_hash \<noteq> pr_hash current
                         then get_next_accept_event accept_fuel E cfg now False s4
                         else Ok (s4, None))) of
                  Ok (s5, event) \<Rightarrow> (s5, Ok event)
                | Err e \<Rightarrow> (s2, Err e)
                | Panic \<Rightarrow> (s2, Panic))))"

end
