(* ===== verification/Solid_Proposal_Props.thy ===== *)
theory Solid_Proposal_Props
  imports Solid_Proposal
begin

text \<open>
  The state of a proposal: its cached hash and order of validators agree with its manifest, and the
  accepts it collected are valid accepts of distinct validators, filed under their skip.
\<close>

definition accepts_ok :: "('p::linorder, 's) solid_env \<Rightarrow> ('p, 's) proposal \<Rightarrow> bool" where
  "accepts_ok E p \<longleftrightarrow> bt_inv (pr_incoming_accepts p) \<and>
     (\<forall>skips m. bt_get (pr_incoming_accepts p) skips = Some m \<longrightarrow> bt_inv m \<and>
        (\<forall>from a. bt_get m from = Some a \<longrightarrow> pa_from a = from \<and> pa_skips a = skips \<and>
           ph_hash (pa_proposal a) = pr_hash p \<and> validate_accept E p a = Ok ()))"

definition proposal_ok :: "('p::linorder, 's) solid_env \<Rightarrow> proposal_hash \<Rightarrow> ('p, 's) proposal \<Rightarrow> bool" where
  "proposal_ok E h p \<longleftrightarrow> pr_hash p = h \<and> app_hash E (pr_content p) = h \<and>
     pr_ordered_validators p = ordered_validators E (pr_content p) \<and> accepts_ok E p"

lemma length_ordered_validators [simp]: "length (ordered_validators E m) = length (mc_validators m)"
  by (simp add: ordered_validators_def)

lemma set_ordered_validators [simp]: "set (ordered_validators E m) = set (mc_validators m)"
  by (simp add: ordered_validators_def)

lemma get_leader_not_Err [simp]: "get_leader_for_skip E m k \<noteq> Err e"
  by (simp add: get_leader_for_skip_def leader_at_def)

lemma get_leader_mem:
  assumes "get_leader_for_skip E m k = Ok l"
  shows "l \<in> set (mc_validators m)"
proof -
  let ?vs = "ordered_validators E m"
  have "?vs \<noteq> []" "l = ?vs ! (unat k mod length ?vs)"
    using assms by (simp_all add: get_leader_for_skip_def leader_at_def split: if_splits)
  moreover have "unat k mod length ?vs < length ?vs" using calculation(1) by (intro mod_less_divisor) (cases ?vs, auto)
  ultimately have "l \<in> set ?vs" by (metis nth_mem)
  then show ?thesis by simp
qed

lemma validate_accept_content: "pr_content p' = pr_content p \<Longrightarrow> validate_accept E p' a = validate_accept E p a"
  by (simp add: validate_accept_def)

lemma validate_accept_Ok:
  "validate_accept E p a = Ok () \<longleftrightarrow>
     verify_signature E a = Ok () \<and> get_leader_for_skip E (pr_content p) (pa_skips a) = Ok (pa_leader_id a) \<and>
     pa_from a \<in> set (mc_validators (pr_content p))"
  by (auto simp: validate_accept_def bind_o_Ok_iff split: if_splits)

lemma accepts_at_ok:
  assumes "accepts_ok E p"
  shows "bt_inv (accepts_at p k)"
    "bt_get (accepts_at p k) from = Some a \<Longrightarrow> pa_from a = from \<and> pa_skips a = k \<and>
       ph_hash (pa_proposal a) = pr_hash p \<and> validate_accept E p a = Ok ()"
  using assms by (auto simp: accepts_ok_def accepts_at_def bt_get_def split: option.splits)

lemma proposal_new_ok: "proposal_ok E (app_hash E (mf_content m)) (proposal_new E m)"
  by (simp add: proposal_ok_def proposal_new_def accepts_ok_def bt_get_def)

lemma proposal_new_fields [simp]:
  "pr_content (proposal_new E m) = mf_content m" "pr_manifest (proposal_new E m) = m"
  "pr_hash (proposal_new E m) = app_hash E (mf_content m)"
  "\<not> pr_initial_accept_sent (proposal_new E m)" "pr_skips_sent (proposal_new E m) = 0"
  "\<not> pr_is_validated (proposal_new E m)" "pr_incoming_accepts (proposal_new E m) = []"
  by (simp_all add: proposal_new_def)

text \<open>Fields that the operations on the bookkeeping of a proposal leave alone.\<close>

definition same_proposal :: "('p, 's) proposal \<Rightarrow> ('p, 's) proposal \<Rightarrow> bool" where
  "same_proposal p q \<longleftrightarrow> pr_hash p = pr_hash q \<and> pr_manifest p = pr_manifest q \<and>
     pr_ordered_validators p = pr_ordered_validators q"

lemma same_proposal_refl [simp]: "same_proposal p p"
  by (simp add: same_proposal_def)

lemma same_proposal_trans: "same_proposal p q \<Longrightarrow> same_proposal q r \<Longrightarrow> same_proposal p r"
  by (simp add: same_proposal_def)

lemma same_proposal_update [simp]:
  "same_proposal (p\<lparr>pr_skips_sent := k\<rparr>) p" "same_proposal (p\<lparr>pr_initial_accept_sent := b\<rparr>) p"
  "same_proposal (p\<lparr>pr_skips_sent := k, pr_initial_accept_sent := b\<rparr>) p"
  "same_proposal (p\<lparr>pr_is_validated := b\<rparr>) p" "same_proposal (p\<lparr>pr_incoming_accepts := m\<rparr>) p"
  by (simp_all add: same_proposal_def)

lemma proposal_ok_flags [simp]:
  "proposal_ok E h (p\<lparr>pr_skips_sent := k\<rparr>) \<longleftrightarrow> proposal_ok E h p"
  "proposal_ok E h (p\<lparr>pr_initial_accept_sent := b\<rparr>) \<longleftrightarrow> proposal_ok E h p"
  "proposal_ok E h (p\<lparr>pr_skips_sent := k, pr_initial_accept_sent := b\<rparr>) \<longleftrightarrow> proposal_ok E h p"
  "proposal_ok E h (p\<lparr>pr_is_validated := b\<rparr>) \<longleftrightarrow> proposal_ok E h p"
  by (simp_all add: proposal_ok_def accepts_ok_def validate_accept_def)

lemma accepts_at_insert [simp]:
  "accepts_at (p\<lparr>pr_incoming_accepts := bt_insert k m (pr_incoming_accepts p)\<rparr>) k = m"
  by (simp add: accepts_at_def bt_get_insert)

lemma threshold_breached_accepts:
  "accept_threshold_breached p k t \<longleftrightarrow> length (accepts_at p k) = threshold t (length (pr_ordered_validators p))"
  by (auto simp: accept_threshold_breached_def is_exact_breach_def accepts_at_def split: option.splits)

lemma proposal_add_accept_cases:
  assumes "proposal_add_accept E p a t = Ok (p', breached)"
  obtains (invalid) e where "validate_accept E p a = Err e" "p' = p" "\<not> breached"
  | (added) "validate_accept E p a = Ok ()"
      "p' = p\<lparr>pr_incoming_accepts := bt_insert (pa_skips a) (bt_insert (pa_from a) a (accepts_at p (pa_skips a)))
                (pr_incoming_accepts p)\<rparr>"
      "breached \<longleftrightarrow> bt_get (accepts_at p (pa_skips a)) (pa_from a) = None \<and>
         length (accepts_at p' (pa_skips a)) = threshold t (length (pr_ordered_validators p))"
  using assms
  by (auto simp: proposal_add_accept_def Let_def threshold_breached_accepts split: outcome.splits)

lemma proposal_add_accept_not_Err [simp]: "proposal_add_accept E p a t \<noteq> Err e"
  by (simp add: proposal_add_accept_def Let_def split: outcome.splits)

lemma proposal_add_accept_same:
  "proposal_add_accept E p a t = Ok (p', b) \<Longrightarrow> same_proposal p' p \<and> pr_skips_sent p' = pr_skips_sent p \<and>
     pr_initial_accept_sent p' = pr_initial_accept_sent p \<and> pr_is_validated p' = pr_is_validated p"
  by (auto simp: same_proposal_def elim: proposal_add_accept_cases)

lemma proposal_add_accept_ok:
  assumes "proposal_ok E h p" and "ph_hash (pa_proposal a) = h" and "proposal_add_accept E p a t = Ok (p', b)"
  shows "proposal_ok E h p'"
  using assms(3)
proof (cases rule: proposal_add_accept_cases)
  case invalid
  then show ?thesis using assms(1) by simp
next
  case added
  have ok: "accepts_ok E p" "pr_hash p = h" using assms(1) by (simp_all add: proposal_ok_def)
  let ?m = "bt_insert (pa_from a) a (accepts_at p (pa_skips a))"
  have m: "bt_inv ?m" using accepts_at_ok(1) [OF ok(1)] by simp
  have eq: "validate_accept E p' x = validate_accept E p x" for x
    by (rule validate_accept_content) (simp add: added(2))
  have new: "pa_from x = from \<and> pa_skips x = pa_skips a \<and> ph_hash (pa_proposal x) = pr_hash p \<and> validate_accept E p' x = Ok ()"
    if "bt_get ?m from = Some x" for "from" x
    unfolding eq using that accepts_at_ok(2) [OF ok(1), of "pa_skips a" "from" x] added(1) assms(2) ok(2)
    by (auto simp: bt_get_insert split: if_splits)
  have "bt_inv (pr_incoming_accepts p')" "pr_hash p' = pr_hash p"
    using ok(1) by (simp_all add: added(2) accepts_ok_def)
  moreover have "bt_inv m \<and> (\<forall>from x. bt_get m from = Some x \<longrightarrow> pa_from x = from \<and> pa_skips x = k \<and>
      ph_hash (pa_proposal x) = pr_hash p' \<and> validate_accept E p' x = Ok ())"
    if k: "bt_get (pr_incoming_accepts p') k = Some m" for k m
  proof (cases "k = pa_skips a")
    case True
    then have eq_m: "m = ?m" using k by (simp add: added(2) bt_get_insert)
    show ?thesis unfolding eq_m True \<open>pr_hash p' = pr_hash p\<close> using \<open>bt_inv ?m\<close> new by blast
  next
    case False
    then have "bt_get (pr_incoming_accepts p) k = Some m" using k by (simp add: added(2) bt_get_insert)
    then show ?thesis using ok(1) unfolding accepts_ok_def eq \<open>pr_hash p' = pr_hash p\<close> by blast
  qed
  ultimately have "accepts_ok E p'" unfolding accepts_ok_def by blast
  then show ?thesis using assms(1) by (simp add: proposal_ok_def added(2))
qed

lemma find_inverse_result:
  assumes "0 < n"
  obtains r where "find_inverse t n xs = Ok r" "\<And>e. r = Some e \<Longrightarrow> e \<in> fst ` set xs"
proof -
  have "\<exists>r. find_inverse t n xs = Ok r \<and> (\<forall>e. r = Some e \<longrightarrow> e \<in> fst ` set xs)"
  proof (induction xs)
    case (Cons x xs)
    then show ?case
      by (cases x) (auto simp: inverse_exceeded_iff [OF assms])
  qed simp
  then show ?thesis using that by blast
qed

lemma highest_skip_result:
  obtains r where "highest_skip_with_inverse p t = Ok r"
  by (rule find_inverse_result [of "max (length (pr_ordered_validators p)) 1" t "rev (pr_incoming_accepts p)"])
     (auto simp: highest_skip_with_inverse_def)

definition raised_skip :: "u64 \<Rightarrow> u64 option \<Rightarrow> u64" where
  "raised_skip sent h = (case h of None \<Rightarrow> sent | Some k \<Rightarrow> max sent k)"

lemma next_accept_skip_eq:
  assumes "highest_skip_with_inverse p t = (Ok h :: (u64 option, 'e) outcome)"
  shows "next_accept_skip p t skip =
    (if \<not> pr_initial_accept_sent p \<and> pr_skips_sent p = 0 then Ok 0
     else if skip then bind_o (add_u64 (pr_skips_sent p) 1) (\<lambda>sent. Ok (raised_skip sent h))
     else (Ok (raised_skip (pr_skips_sent p) h) :: (u64, 'e) outcome))"
proof -
  have "(case h of Some highest \<Rightarrow> if highest > sent then Ok highest else Ok sent | None \<Rightarrow> Ok sent) =
      (Ok (raised_skip sent h) :: (u64, 'e) outcome)" for sent
    by (cases h) (auto simp: raised_skip_def max_def)
  then show ?thesis by (simp add: next_accept_skip_def assms)
qed

lemma raised_skip_ge [simp]: "sent \<le> raised_skip sent h"
  by (simp add: raised_skip_def split: option.splits)

lemma next_accept_skip_not_Err [simp]: "next_accept_skip p t skip \<noteq> Err e"
proof -
  obtain h where "highest_skip_with_inverse p t = (Ok h :: (u64 option, 'a) outcome)"
    by (rule highest_skip_result)
  then show ?thesis by (simp add: next_accept_skip_eq bind_o_Err_iff)
qed

lemma next_accept_skip_mono:
  fixes p :: "('p, 's) proposal"
  assumes "next_accept_skip p t skip = (Ok k :: (u64, 'e) outcome)"
  shows "pr_skips_sent p \<le> k" and "skip \<Longrightarrow> pr_initial_accept_sent p \<Longrightarrow> pr_skips_sent p < k"
proof -
  obtain h where h: "highest_skip_with_inverse p t = (Ok h :: (u64 option, 'e) outcome)"
    by (rule highest_skip_result)
  have up: "pr_skips_sent p < raised_skip c h" if "add_u64 (pr_skips_sent p) 1 = (Ok c :: (u64, 'e) outcome)" for c
    using that raised_skip_ge [of c h] by (simp add: add_u64_Ok_iff word_less_nat_alt word_le_nat_alt)
  show "pr_skips_sent p \<le> k"
    using assms up by (auto simp: next_accept_skip_eq [OF h] bind_o_Ok_iff less_imp_le split: if_splits)
  show "pr_skips_sent p < k" if "skip" "pr_initial_accept_sent p"
    using assms that up by (auto simp: next_accept_skip_eq [OF h] bind_o_Ok_iff)
qed

lemma accept_lists:
  assumes "accepts_ok E p" and "accepts_for_skip p k = Some as"
  shows "distinct (map pa_from as)" "length as = length (accepts_at p k)"
    "\<And>a. a \<in> set as \<Longrightarrow> pa_skips a = k \<and> ph_hash (pa_proposal a) = pr_hash p \<and> validate_accept E p a = Ok ()"
proof -
  obtain m where m: "bt_get (pr_incoming_accepts p) k = Some m" and as: "as = map snd m"
    using assms(2) by (auto simp: accepts_for_skip_def)
  then have inv: "bt_inv m" and at: "accepts_at p k = m" using assms(1) by (auto simp: accepts_ok_def accepts_at_def)
  then have d: "distinct (map fst m)" using bt_distinct_keys [OF inv] by (simp add: bt_keys_def)
  have entry: "pa_from a = from \<and> pa_skips a = k \<and> ph_hash (pa_proposal a) = pr_hash p \<and> validate_accept E p a = Ok ()"
    if "(from, a) \<in> set m" for "from" a
    using accepts_at_ok(2) [OF assms(1), of k "from" a] that d by (simp add: at bt_get_def)
  then have "map pa_from as = map fst m" by (auto simp: as)
  then show "distinct (map pa_from as)" "length as = length (accepts_at p k)"
    using d by (simp_all only: as at length_map)
  show "pa_skips a = k \<and> ph_hash (pa_proposal a) = pr_hash p \<and> validate_accept E p a = Ok ()" if "a \<in> set as" for a
    using that entry by (auto simp: as)
qed

end
