(* ===== verification/Solid_Cache_Props.thy ===== *)
theory Solid_Cache_Props
  imports Solid_Cache Solid_Proposal_Props
begin

text \<open>
  What the walks of the proposal cache compute. \<open>descends c p q\<close> is the reference: the links of the
  cache lead from \<open>p\<close> to \<open>q\<close>, one height lower at each step. A well-formed cache keeps each proposal
  under its own hash and contains the last confirmed one.
\<close>

section \<open>Well-formed caches\<close>

definition pc_inv :: "('p::linorder, 's) solid_env \<Rightarrow> ('p, 's) proposal_cache \<Rightarrow> bool" where
  "pc_inv E c \<longleftrightarrow> distinct (map fst (pc_proposals c)) \<and>
     (\<forall>h p. pc_get c h = Some p \<longrightarrow> proposal_ok E h p) \<and> pc_get c (pc_last_confirmed c) \<noteq> None"

lemma pc_get_values: "pc_get c h = Some p \<Longrightarrow> p \<in> set (map snd (pc_proposals c))"
  unfolding pc_get_def using map_of_SomeD by force

lemma pc_inv_entry: "pc_inv E c \<Longrightarrow> pc_get c h = Some p \<Longrightarrow> proposal_ok E h p"
  unfolding pc_inv_def by blast

lemma pc_inv_hash: "pc_inv E c \<Longrightarrow> pc_get c h = Some p \<Longrightarrow> pr_hash p = h"
  using pc_inv_entry unfolding proposal_ok_def by blast

lemma pc_inv_value:
  assumes "pc_inv E c" and "p \<in> set (map snd (pc_proposals c))"
  shows "pc_get c (pr_hash p) = Some p"
proof -
  obtain k where "(k, p) \<in> set (pc_proposals c)" using assms(2) by auto
  then have "pc_get c k = Some p" using assms(1) by (simp add: pc_get_def pc_inv_def map_of_is_SomeI)
  then show ?thesis using pc_inv_hash [OF assms(1)] by simp
qed

lemma pc_inv_confirmed:
  assumes "pc_inv E c"
  obtains p where "pc_get c (pc_last_confirmed c) = Some p" "pr_hash p = pc_last_confirmed c"
proof -
  obtain p where p: "pc_get c (pc_last_confirmed c) = Some p" using assms unfolding pc_inv_def by auto
  show ?thesis by (rule that [OF p pc_inv_hash [OF assms p]])
qed

lemma confirmed_results:
  assumes "pc_get c (pc_last_confirmed c) = Some p"
  shows "last_confirmed_proposal c = Ok p" "pc_height c = Ok (pr_height p)"
  by (simp_all add: last_confirmed_proposal_def pc_height_def assms)

lemma pc_get_update: "pc_get (pc_update h p c) = (pc_get c)(h \<mapsto> p)"
  by (simp add: pc_get_def pc_update_def update_conv' fun_eq_iff)

lemma pc_get_insert: "pc_get (pc_insert p c) = (pc_get c)(pr_hash p \<mapsto> p)"
  by (simp add: pc_get_def pc_insert_def update_conv' fun_eq_iff)

lemma pc_get_remove: "pc_get (pc_remove h c) = (pc_get c)(h := None)"
  by (simp add: pc_get_def pc_remove_def delete_conv' fun_eq_iff)

lemma pc_fields [simp]:
  "pc_last_confirmed (pc_update h p c) = pc_last_confirmed c" "pc_last_confirmed (pc_insert p c) = pc_last_confirmed c"
  "pc_last_confirmed (pc_remove h c) = pc_last_confirmed c" "pc_cache_size (pc_update h p c) = pc_cache_size c"
  by (simp_all add: pc_update_def pc_insert_def pc_remove_def)

lemma pc_inv_update:
  assumes "pc_inv E c" and "proposal_ok E h p"
  shows "pc_inv E (pc_update h p c)"
  using assms unfolding pc_inv_def pc_get_update by (auto simp: pc_update_def distinct_update)

lemma pc_inv_insert:
  assumes "pc_inv E c" and "proposal_ok E (pr_hash p) p"
  shows "pc_inv E (pc_insert p c)"
  using pc_inv_update [OF assms] unfolding pc_update_def pc_insert_def .

lemma pc_inv_remove:
  assumes "pc_inv E c" and "h \<noteq> pc_last_confirmed c"
  shows "pc_inv E (pc_remove h c)"
  using assms unfolding pc_inv_def pc_get_remove by (auto simp: pc_remove_def distinct_delete)

lemma pc_inv_new: "proposal_ok E (pr_hash p) p \<Longrightarrow> pc_inv E (pc_new p sz)"
  by (auto simp: pc_inv_def pc_new_def pc_get_def)

section \<open>Walks\<close>

inductive descends :: "('p, 's) proposal_cache \<Rightarrow> ('p, 's) proposal \<Rightarrow> ('p, 's) proposal \<Rightarrow> bool" for c where
  here: "descends c p p"
| down: "pc_get c (pr_last_hash p) = Some q \<Longrightarrow> unat (pr_height p) = Suc (unat (pr_height q)) \<Longrightarrow>
         descends c q r \<Longrightarrow> descends c p r"

inductive_cases descendsE: "descends c p r"

lemma descends_height: "descends c p q \<Longrightarrow> unat (pr_height q) \<le> unat (pr_height p)"
  by (induction rule: descends.induct) auto

lemma descends_same_height: "descends c p q \<Longrightarrow> pr_height p = pr_height q \<Longrightarrow> p = q"
  by (erule descendsE) (auto dest: descends_height)

lemma descends_trans: "descends c p q \<Longrightarrow> descends c q r \<Longrightarrow> descends c p r"
  by (induction rule: descends.induct) (auto intro: descends.down)

lemma walk_iff_descends:
  "is_decendent_walk c d p = Ok True \<longleftrightarrow> (\<exists>q. descends c p q \<and> pr_hash q = d)"
proof (induction c d p rule: is_decendent_walk.induct)
  case (1 c d p)
  show ?case
  proof (cases "pr_hash p = d")
    case True
    then show ?thesis by (auto simp: is_decendent_walk.simps intro: descends.here)
  next
    case False
    note * = 1 [OF False]
    show ?thesis
    proof
      assume "is_decendent_walk c d p = Ok True"
      then obtain q h where "pc_get c (pr_last_hash p) = Some q" "add_u64 (pr_height q) 1 = (Ok h :: (u64, 'a solid_error) outcome)"
        "h = pr_height p" "is_decendent_walk c d q = Ok True"
        using False by (subst (asm) is_decendent_walk.simps) (auto simp: bind_o_Ok_iff split: option.splits if_splits)
      then show "\<exists>q. descends c p q \<and> pr_hash q = d"
        using * by (auto simp: add_u64_Ok_iff intro: descends.down)
    next
      assume "\<exists>q. descends c p q \<and> pr_hash q = d"
      then obtain q where "pc_get c (pr_last_hash p) = Some q" "unat (pr_height p) = Suc (unat (pr_height q))"
        "\<exists>r. descends c q r \<and> pr_hash r = d"
        using False by (auto elim: descendsE)
      moreover then have "add_u64 (pr_height q) 1 = (Ok (pr_height p) :: (u64, 'a solid_error) outcome)"
        by (simp add: add_u64_Ok_iff)
      ultimately show "is_decendent_walk c d p = Ok True"
        using * False by (subst is_decendent_walk.simps) auto
    qed
  qed
qed

lemma walk_not_Err [simp]: "is_decendent_walk c d p \<noteq> Err e"
  by (induction c d p rule: is_decendent_walk.induct)
     (subst is_decendent_walk.simps, auto simp: bind_o_Err_iff split: option.splits)

lemma is_decendent_not_Err [simp]: "is_decendent c d h \<noteq> Err e"
  by (simp add: is_decendent_def split: option.splits)

lemma is_decendent_iff:
  assumes "pc_inv E c" and "p \<in> set (map snd (pc_proposals c))"
  shows "is_decendent c d (pr_hash p) = Ok True \<longleftrightarrow> (\<exists>q. descends c p q \<and> pr_hash q = d)"
  by (simp add: is_decendent_def pc_inv_value [OF assms] walk_iff_descends)

lemma descends_value:
  "descends c p q \<Longrightarrow> p \<in> set (map snd (pc_proposals c)) \<Longrightarrow> q \<in> set (map snd (pc_proposals c))"
  by (induction rule: descends.induct) (auto dest: pc_get_values)

lemma descends_at_height:
  assumes "descends c p q" and "unat (pr_height q) \<le> h" and "h \<le> unat (pr_height p)"
  shows "\<exists>r. descends c p r \<and> descends c r q \<and> unat (pr_height r) = h"
  using assms
proof (induction rule: descends.induct)
  case (down p q r)
  show ?case
  proof (cases "h \<le> unat (pr_height q)")
    case True
    then show ?thesis using down by (meson descends.down)
  next
    case False
    then have "unat (pr_height p) = h" using down.hyps(2) down.prems by simp
    moreover have "descends c p r" using down.hyps by (rule descends.down)
    ultimately show ?thesis using descends.here by blast
  qed
qed (use descends.here in fastforce)

lemma descends_length:
  assumes "descends c p q" and "p \<in> set (map snd (pc_proposals c))"
  shows "unat (pr_height p) - unat (pr_height q) < length (pc_proposals c)"
proof -
  let ?hs = "map (unat \<circ> pr_height) (map snd (pc_proposals c))"
  have "{unat (pr_height q)..unat (pr_height p)} \<subseteq> set ?hs"
    using descends_at_height [OF assms(1)] descends_value [OF _ assms(2)] by fastforce
  then have "card {unat (pr_height q)..unat (pr_height p)} \<le> card (set ?hs)" by (rule card_mono [rotated]) simp
  also have "\<dots> \<le> length ?hs" by (rule card_length)
  finally show ?thesis using descends_height [OF assms(1)] by simp
qed

text \<open>Two proposals that the same walk passes are on one line.\<close>

lemma descends_linear:
  assumes "descends c p q" and "descends c p r" and "unat (pr_height r) \<le> unat (pr_height q)"
  shows "descends c q r"
  using assms
proof (induction rule: descends.induct)
  case (down p q' q)
  have "unat (pr_height q) \<le> unat (pr_height q')" by (rule descends_height [OF down.hyps(3)])
  then have "p \<noteq> r" using down.hyps(2) down.prems(2) by auto
  then have "descends c q' r" using down.prems(1) down.hyps(1) by (auto elim: descendsE)
  then show ?case using down by simp
qed

lemma descends_unique:
  "descends c p q \<Longrightarrow> descends c p r \<Longrightarrow> pr_height q = pr_height r \<Longrightarrow> q = r"
  using descends_linear [of c p q r] descends_same_height by fastforce

lemma filter_o_Ok:
  "filter_o f xs = Ok ys \<Longrightarrow> ys = filter (\<lambda>x. f x = Ok True) xs \<and> (\<forall>x \<in> set xs. \<exists>b. f x = Ok b)"
  by (induction xs arbitrary: ys) (auto simp: bind_o_Ok_iff)

lemma filter_o_not_Err: "(\<And>x e. x \<in> set xs \<Longrightarrow> f x \<noteq> Err e) \<Longrightarrow> filter_o f xs \<noteq> Err e"
  by (induction xs) (auto simp: bind_o_Err_iff)

lemma proposal_le_trans: "proposal_le a b \<Longrightarrow> proposal_le b c \<Longrightarrow> proposal_le a c"
  by (auto simp: proposal_le_def)

lemma proposal_le_total: "proposal_le a b \<or> proposal_le b a"
  by (auto simp: proposal_le_def)

lemma fold_max:
  fixes ps :: "('p, 's) proposal list"
  defines "m \<equiv> \<lambda>(b :: ('p, 's) proposal) a. if proposal_le a b then b else a"
  shows "fold m ps p \<in> insert p (set ps) \<and> (\<forall>x \<in> insert p (set ps). proposal_le x (fold m ps p))"
proof (induction ps arbitrary: p)
  case Nil
  then show ?case using proposal_le_total by auto
next
  case (Cons x ps)
  have "proposal_le x (m x p)" "proposal_le p (m x p)"
    using proposal_le_total [of x p] proposal_le_total [of x x] proposal_le_total [of p p] by (auto simp: m_def)
  moreover have "m x p \<in> {x, p}" by (simp add: m_def)
  ultimately show ?case using Cons.IH [of "m x p"] by (auto intro: proposal_le_trans)
qed

lemma max_proposal_Some:
  assumes "max_proposal ps = Some p"
  shows "p \<in> set ps" "x \<in> set ps \<Longrightarrow> proposal_le x p"
  using assms fold_max by (cases ps; force simp: max_proposal_def)+

lemma max_proposal_None [simp]: "max_proposal ps = None \<longleftrightarrow> ps = []"
  by (simp add: max_proposal_def split: list.splits)

definition pending :: "('p, 's) proposal_cache \<Rightarrow> ('p, 's) proposal \<Rightarrow> ('p, 's) proposal set" where
  "pending c lc = {p. p \<in> set (map snd (pc_proposals c)) \<and> pr_height lc < pr_height p \<and> descends c p lc}"

lemma max_continuous_spec:
  assumes inv: "pc_inv E c" and lc: "pc_get c (pc_last_confirmed c) = Some lc"
    and m: "max_continuous_proposal c = Ok m"
  shows "m = None \<longleftrightarrow> pending c lc = {}"
    and "m = Some p \<Longrightarrow> p \<in> pending c lc \<and> (\<forall>q \<in> pending c lc. proposal_le q p)"
proof -
  let ?f = "\<lambda>p. if pr_height lc < pr_height p then is_decendent c (pc_last_confirmed c) (pr_hash p) else Ok False"
  obtain ps where ps: "filter_o ?f (map snd (pc_proposals c)) = Ok ps" "m = max_proposal ps"
    using m by (auto simp: max_continuous_proposal_def bind_o_Ok_iff confirmed_results [OF lc])
  have "q = lc" if "p \<in> set (map snd (pc_proposals c))" "descends c p q" "pr_hash q = pc_last_confirmed c" for p q
    using pc_inv_value [OF inv descends_value [OF that(2,1)]] that(3) lc by simp
  then have *: "is_decendent c (pc_last_confirmed c) (pr_hash p) = Ok True \<longleftrightarrow> descends c p lc"
    if "p \<in> set (map snd (pc_proposals c))" for p
    using is_decendent_iff [OF inv that, of "pc_last_confirmed c"] pc_inv_hash [OF inv lc] that by blast
  have "ps = filter (\<lambda>p. ?f p = Ok True) (map snd (pc_proposals c))" using filter_o_Ok [OF ps(1)] by blast
  also have "\<dots> = filter (\<lambda>p. pr_height lc < pr_height p \<and> descends c p lc) (map snd (pc_proposals c))"
    using * by (intro filter_cong) simp_all
  finally have "set ps = pending c lc" by (auto simp: pending_def)
  then show "m = None \<longleftrightarrow> pending c lc = {}" by (auto simp: ps(2))
  show "p \<in> pending c lc \<and> (\<forall>q \<in> pending c lc. proposal_le q p)" if "m = Some p"
    using that max_proposal_Some [of ps p] \<open>set ps = pending c lc\<close> by (simp add: ps(2))
qed

lemma max_continuous_not_Err [simp]: "max_continuous_proposal c \<noteq> Err e"
proof -
  have "filter_o (\<lambda>p. if h < pr_height p then is_decendent c k (pr_hash p) else Ok False) ps \<noteq> Err e" for h k ps
    by (rule filter_o_not_Err) simp
  then show ?thesis
    by (auto simp: max_continuous_proposal_def bind_o_Err_iff pc_height_def split: option.splits)
qed

text \<open>The walk down to a height on the line to the last confirmed proposal ends there.\<close>

lemma pending_walk_spec:
  assumes "descends c p lc" and "unat (pr_height lc) \<le> unat target" and "unat target \<le> unat (pr_height p)"
    and "unat (pr_height p) - unat target < n"
  shows "\<exists>r. pending_walk n c target p = Ok (Some r) \<and> descends c p r \<and> descends c r lc \<and> pr_height r = target"
  using assms
proof (induction n arbitrary: p)
  case (Suc n)
  show ?case
  proof (cases "target < pr_height p")
    case True
    then have lt: "unat target < unat (pr_height p)" by (simp add: word_less_nat_alt)
    then obtain q where q: "pc_get c (pr_last_hash p) = Some q" "unat (pr_height p) = Suc (unat (pr_height q))" "descends c q lc"
      using Suc.prems(1,2) by (auto elim: descendsE)
    have "unat target \<le> unat (pr_height q)" "unat (pr_height q) - unat target < n"
      using q(2) lt Suc.prems(4) by simp_all
    then obtain r where "pending_walk n c target q = Ok (Some r)" "descends c q r" "descends c r lc" "pr_height r = target"
      using Suc.IH [OF q(3) Suc.prems(2)] by blast
    then show ?thesis using True q by (auto intro: descends.down)
  next
    case False
    then have "pr_height p = target" using Suc.prems(3) by (simp add: word_le_nat_alt [symmetric])
    then show ?thesis using False Suc.prems(1) by (auto intro: descends.here)
  qed
qed simp

section \<open>Pending proposals\<close>

lemma next_pending_cases:
  assumes inv: "pc_inv E c" and lc: "pc_get c (pc_last_confirmed c) = Some lc"
    and m: "max_continuous_proposal c = Ok (Some m)"
    and off: "unat (pr_height lc) + 1 + unat off \<le> unat (pr_height m)"
  shows "\<exists>p. next_pending_proposal c off = Ok (Some p) \<and> descends c m p \<and> descends c p lc \<and>
     unat (pr_height p) = unat (pr_height lc) + 1 + unat off"
proof -
  have mp: "m \<in> set (map snd (pc_proposals c))" "descends c m lc"
    using max_continuous_spec(2) [OF inv lc m] by (auto simp: pending_def)
  have lt: "unat (pr_height m) < 2 ^ 64" using unsigned_less [of "pr_height m", where ?'a = nat] by simp
  define t1 where "t1 = (of_nat (unat (pr_height lc) + 1) :: u64)"
  define t where "t = (of_nat (unat (pr_height lc) + 1 + unat off) :: u64)"
  have n: "unat t1 = unat (pr_height lc) + 1" "unat t = unat (pr_height lc) + 1 + unat off"
    unfolding t1_def t_def using off lt by (simp_all only: unsigned_of_nat take_bit_nat_eq_self_iff) (simp_all add: take_bit_nat_eq_self_iff)
  have "add_u64 (pr_height lc) 1 = (Ok t1 :: (u64, 'a solid_error) outcome)" "add_u64 t1 off = (Ok t :: (u64, 'a solid_error) outcome)"
    using n by (simp_all add: add_u64_Ok_iff)
  moreover have "\<not> pr_height m < t" using off n(2) by (simp add: word_less_nat_alt)
  moreover have "unat (pr_height lc) \<le> unat t" "unat t \<le> unat (pr_height m)"
    "unat (pr_height m) - unat t < Suc (length (pc_proposals c))"
    using descends_length [OF mp(2,1)] off n(2) by linarith+
  then obtain p where "pending_walk (Suc (length (pc_proposals c))) c t m = Ok (Some p)" "descends c m p" "descends c p lc"
      "pr_height p = t"
    using pending_walk_spec [OF mp(2)] by blast
  ultimately show ?thesis
    using n(2) by (simp add: next_pending_proposal_def m confirmed_results [OF lc] del: pending_walk.simps)
qed

lemma next_pending_spec:
  assumes inv: "pc_inv E c" and lc: "pc_get c (pc_last_confirmed c) = Some lc"
    and m: "max_continuous_proposal c = Ok (Some m)" and p: "next_pending_proposal c off = Ok r"
  shows "r \<noteq> None \<longleftrightarrow> unat (pr_height lc) + 1 + unat off \<le> unat (pr_height m)"
    and "r = Some p \<Longrightarrow> descends c m p \<and> descends c p lc \<and> unat (pr_height p) = unat (pr_height lc) + 1 + unat off"
proof -
  have none: "r = None" if "\<not> unat (pr_height lc) + 1 + unat off \<le> unat (pr_height m)"
    using p that by (auto simp: next_pending_proposal_def m confirmed_results [OF lc] bind_o_Ok_iff add_u64_Ok_iff
        word_less_nat_alt split: if_splits simp del: pending_walk.simps)
  show "r \<noteq> None \<longleftrightarrow> unat (pr_height lc) + 1 + unat off \<le> unat (pr_height m)"
    using none next_pending_cases [OF inv lc m] p by fastforce
  show "descends c m p \<and> descends c p lc \<and> unat (pr_height p) = unat (pr_height lc) + 1 + unat off" if "r = Some p"
  proof -
    have "unat (pr_height lc) + 1 + unat off \<le> unat (pr_height m)" using none that by blast
    then show ?thesis using next_pending_cases [OF inv lc m] p that by fastforce
  qed
qed

lemma next_pending_max:
  assumes "next_pending_proposal c off = Ok r"
  obtains "max_continuous_proposal c = Ok None" "r = None" | m where "max_continuous_proposal c = Ok (Some m)"
proof -
  obtain x where x: "max_continuous_proposal c = Ok x"
    using assms by (auto simp: next_pending_proposal_def bind_o_Ok_iff)
  show ?thesis using x assms that by (cases x) (auto simp: next_pending_proposal_def)
qed

lemma next_pending_not_Err:
  assumes "pc_inv E c"
  shows "next_pending_proposal c off \<noteq> Err e"
proof
  assume err: "next_pending_proposal c off = Err e"
  obtain lc where lc: "pc_get c (pc_last_confirmed c) = Some lc" by (rule pc_inv_confirmed [OF assms])
  obtain m where m: "max_continuous_proposal c = Ok (Some m)"
    using err by (auto simp: next_pending_proposal_def bind_o_Err_iff split: option.splits)
  have "unat (pr_height lc) + 1 + unat off \<le> unat (pr_height m)"
    using err by (auto simp: next_pending_proposal_def m confirmed_results [OF lc] bind_o_Err_iff add_u64_Ok_iff
        word_less_nat_alt split: if_splits simp del: pending_walk.simps)
  then show False using next_pending_cases [OF assms lc m] err by fastforce
qed

lemma next_pending_mem:
  assumes inv: "pc_inv E c" and lc: "pc_get c (pc_last_confirmed c) = Some lc"
    and p: "next_pending_proposal c off = Ok (Some p)"
  shows "p \<in> set (map snd (pc_proposals c))" "descends c p lc"
    "unat (pr_height p) = unat (pr_height lc) + 1 + unat off" "pc_get c (pr_hash p) = Some p"
proof -
  obtain m where m: "max_continuous_proposal c = Ok (Some m)" using p by (rule next_pending_max) auto
  have "m \<in> set (map snd (pc_proposals c))" using max_continuous_spec(2) [OF inv lc m] by (auto simp: pending_def)
  then show "p \<in> set (map snd (pc_proposals c))" "descends c p lc"
    "unat (pr_height p) = unat (pr_height lc) + 1 + unat off"
    using next_pending_spec(2) [OF inv lc m p, of p] descends_value by blast+
  then show "pc_get c (pr_hash p) = Some p" using pc_inv_value [OF inv] by blast
qed

lemma descends_parent:
  assumes "descends c p q" and "unat (pr_height p) = Suc (unat (pr_height q))"
  shows "pc_get c (pr_last_hash p) = Some q"
proof -
  obtain r where r: "pc_get c (pr_last_hash p) = Some r" "unat (pr_height p) = Suc (unat (pr_height r))" "descends c r q"
    using assms by (auto elim: descendsE)
  then have "pr_height r = pr_height q" using assms(2) by (simp add: word_unat_eq_iff)
  then show ?thesis using r descends_same_height by blast
qed

lemma next_pending_parent:
  assumes inv: "pc_inv E c" and lc: "pc_get c (pc_last_confirmed c) = Some lc"
    and p: "next_pending_proposal c 0 = Ok (Some p)"
  shows "pr_last_hash p = pc_last_confirmed c" "pc_get c (pr_last_hash p) = Some lc"
proof -
  have "unat (pr_height p) = Suc (unat (pr_height lc))" using next_pending_mem(3) [OF inv lc p] by simp
  then show "pc_get c (pr_last_hash p) = Some lc" using descends_parent next_pending_mem(2) [OF inv lc p] by blast
  then show "pr_last_hash p = pc_last_confirmed c" using pc_inv_hash [OF inv] lc by metis
qed

text \<open>
  A proposal is committed when the line of the highest pending proposal is two long: its first two
  proposals are the committed one and the one that confirms it.
\<close>

lemma next_pending_pair:
  assumes inv: "pc_inv E c" and lc: "pc_get c (pc_last_confirmed c) = Some lc"
    and p: "next_pending_proposal c 0 = Ok (Some p)" and q: "next_pending_proposal c 1 = Ok (Some q)"
  shows "pc_get c (pr_last_hash q) = Some p" "pr_last_hash q = pr_hash p"
    "unat (pr_height q) = Suc (unat (pr_height p))" "descends c q p"
proof -
  obtain m where m: "max_continuous_proposal c = Ok (Some m)" using p by (rule next_pending_max) auto
  note P = next_pending_spec(2) [OF inv lc m p refl] and Q = next_pending_spec(2) [OF inv lc m q refl]
  show h: "unat (pr_height q) = Suc (unat (pr_height p))" using P Q by simp
  then show "descends c q p" using descends_linear [of c m q p] P Q by simp
  then show "pc_get c (pr_last_hash q) = Some p" using h by (rule descends_parent)
  then show "pr_last_hash q = pr_hash p" using pc_inv_hash [OF inv] by metis
qed

lemma pending_deep_iff:
  assumes inv: "pc_inv E c" and lc: "pc_get c (pc_last_confirmed c) = Some lc"
    and p: "next_pending_proposal c 0 = Ok r" and q: "next_pending_proposal c off = Ok r'"
  shows "r' \<noteq> None \<longleftrightarrow> (\<exists>x \<in> pending c lc. unat (pr_height lc) + 1 + unat off \<le> unat (pr_height x))"
proof (rule next_pending_max [OF q])
  assume "max_continuous_proposal c = Ok None" "r' = None"
  then show ?thesis using max_continuous_spec(1) [OF inv lc, of None] by simp
next
  fix m assume m: "max_continuous_proposal c = Ok (Some m)"
  have max: "m \<in> pending c lc" "\<And>x. x \<in> pending c lc \<Longrightarrow> unat (pr_height x) \<le> unat (pr_height m)"
    using max_continuous_spec(2) [OF inv lc m refl] by (auto simp: proposal_le_def word_le_nat_alt [symmetric])
  show ?thesis unfolding next_pending_spec(1) [OF inv lc m q] using max by (meson le_trans)
qed

section \<open>Confirming\<close>

lemma map_of_deletes: "map_of (fold AList.delete ks xs) = (map_of xs) |` (- set ks)"
  by (induction ks arbitrary: xs) (auto simp: delete_conv' restrict_map_def fun_eq_iff)

lemma distinct_deletes: "distinct (map fst xs) \<Longrightarrow> distinct (map fst (fold AList.delete ks xs))"
  by (induction ks arbitrary: xs) (auto simp: distinct_delete)

definition kept :: "('p, 's) proposal_cache \<Rightarrow> ('p, 's) proposal \<Rightarrow> ('p, 's) proposal \<Rightarrow> bool" where
  "kept c lc p \<longleftrightarrow>
     (if pr_height p < pr_height lc then unat (pr_height lc) \<le> unat (pr_height p) + unat (pc_cache_size c)
      else if pr_height lc < pr_height p then descends c p lc
      else p = lc)"

lemma purge_entry_iff:
  assumes inv: "pc_inv E c" and lc: "pc_get c (pc_last_confirmed c) = Some lc"
    and p: "pc_get c k = Some p" and ok: "purge_entry c (pr_height lc) (k, p) = Ok b"
  shows "b \<longleftrightarrow> \<not> kept c lc p"
proof -
  have hash: "pr_hash p = pc_last_confirmed c \<longleftrightarrow> p = lc"
    using pc_inv_hash [OF inv p] pc_inv_hash [OF inv lc] p lc by auto
  have "is_decendent c (pc_last_confirmed c) (pr_hash p) = Ok True \<longleftrightarrow> descends c p lc"
  proof -
    have "q = lc" if "descends c p q" "pr_hash q = pc_last_confirmed c" for q
      using pc_inv_value [OF inv descends_value [OF that(1) pc_get_values [OF p]]] that(2) lc by simp
    then show ?thesis
      using is_decendent_iff [OF inv pc_get_values [OF p], of "pc_last_confirmed c"] pc_inv_hash [OF inv lc] by blast
  qed
  then show ?thesis
    using ok hash by (auto simp: purge_entry_def kept_def bind_o_Ok_iff add_u64_Ok_iff word_less_nat_alt split: if_splits)
qed

lemma purge_spec:
  assumes inv: "pc_inv E c" and lc: "pc_get c (pc_last_confirmed c) = Some lc" and ok: "purge c = Ok c'"
  shows "pc_get c' h = (case pc_get c h of None \<Rightarrow> None | Some p \<Rightarrow> if kept c lc p then Some p else None)"
    "pc_last_confirmed c' = pc_last_confirmed c" "pc_cache_size c' = pc_cache_size c" "pc_inv E c'"
proof -
  obtain es where es: "filter_o (purge_entry c (pr_height lc)) (pc_proposals c) = Ok es"
    and c': "c' = c\<lparr>pc_proposals := fold AList.delete (map fst es) (pc_proposals c)\<rparr>"
    using ok by (auto simp: purge_def confirmed_results [OF lc] bind_o_Ok_iff)
  have d: "distinct (map fst (pc_proposals c))" using inv unfolding pc_inv_def by blast
  have "k \<in> set (map fst es) \<longleftrightarrow> \<not> kept c lc p" if p: "pc_get c k = Some p" for k p
  proof -
    have mem: "(k, p) \<in> set (pc_proposals c)" using p by (simp add: pc_get_def map_of_SomeD)
    then obtain b where b: "purge_entry c (pr_height lc) (k, p) = Ok b" using filter_o_Ok [OF es] by blast
    have "k \<in> set (map fst es) \<longleftrightarrow> (k, p) \<in> set es"
    proof
      assume "k \<in> set (map fst es)"
      then obtain p' where p': "(k, p') \<in> set es" by auto
      then have "(k, p') \<in> set (pc_proposals c)" using filter_o_Ok [OF es] by simp
      then show "(k, p) \<in> set es" using eq_key_imp_eq_value [OF d mem] p' by simp
    qed force
    also have "\<dots> \<longleftrightarrow> b" using filter_o_Ok [OF es] mem b by simp
    finally show ?thesis using purge_entry_iff [OF inv lc p b] by simp
  qed
  then show get: "pc_get c' h = (case pc_get c h of None \<Rightarrow> None | Some p \<Rightarrow> if kept c lc p then Some p else None)" for h
    by (auto simp: c' pc_get_def map_of_deletes restrict_map_def split: option.splits)
  show "pc_last_confirmed c' = pc_last_confirmed c" "pc_cache_size c' = pc_cache_size c" by (simp_all add: c')
  then show "pc_inv E c'"
    using inv lc unfolding pc_inv_def get
    by (auto simp: c' distinct_deletes kept_def split: option.splits if_splits)
qed

section \<open>Bookkeeping does not move the walks\<close>

text \<open>
  The walks look at the hash and the manifest of a proposal only. \<open>bare\<close> erases the rest; caches
  that agree after the erasure have the same pending proposals.
\<close>

definition bare :: "('p, 's) proposal \<Rightarrow> ('p, 's) proposal" where
  "bare p = p\<lparr>pr_incoming_accepts := [], pr_initial_accept_sent := False, pr_skips_sent := 0, pr_is_validated := False\<rparr>"

definition bare_cache :: "('p, 's) proposal_cache \<Rightarrow> ('p, 's) proposal_cache" where
  "bare_cache c = c\<lparr>pc_proposals := map (\<lambda>(k, p). (k, bare p)) (pc_proposals c)\<rparr>"

lemma bare_fields [simp]:
  "pr_hash (bare p) = pr_hash p" "pr_manifest (bare p) = pr_manifest p"
  "pr_ordered_validators (bare p) = pr_ordered_validators p"
  by (simp_all add: bare_def)

lemma bare_eq_iff: "bare p = bare q \<longleftrightarrow> same_proposal p q"
  by (cases p; cases q) (auto simp: bare_def same_proposal_def)

lemma pc_get_bare: "pc_get (bare_cache c) h = map_option bare (pc_get c h)"
  by (simp add: pc_get_def bare_cache_def map_of_map)

lemma bare_cache_fields [simp]:
  "pc_last_confirmed (bare_cache c) = pc_last_confirmed c" "length (pc_proposals (bare_cache c)) = length (pc_proposals c)"
  "map snd (pc_proposals (bare_cache c)) = map bare (map snd (pc_proposals c))"
  by (simp_all add: bare_cache_def comp_def case_prod_beta)

lemma pc_height_bare: "pc_height (bare_cache c) = pc_height c"
  by (simp add: pc_height_def pc_get_bare split: option.splits)

lemma walk_bare: "is_decendent_walk (bare_cache c) d (bare p) = is_decendent_walk c d p"
proof (induction c d p rule: is_decendent_walk.induct)
  case (1 c d p)
  show ?case
    by (subst (1 2) is_decendent_walk.simps)
       (auto simp: pc_get_bare 1 intro!: bind_o_cong split: option.splits)
qed

lemma is_decendent_bare: "is_decendent (bare_cache c) d h = is_decendent c d h"
  by (simp add: is_decendent_def pc_get_bare walk_bare split: option.splits)

lemma map_outcome_bind: "map_outcome g id (bind_o m f) = bind_o m (\<lambda>x. map_outcome g id (f x))"
  by (cases m) simp_all

lemma bind_map_outcome: "bind_o (map_outcome g id m) f = bind_o m (\<lambda>x. f (g x))"
  by (cases m) simp_all

lemma filter_o_map: "filter_o f (map g xs) = map_outcome (map g) id (filter_o (\<lambda>x. f (g x)) xs)"
proof (induction xs)
  case (Cons x xs)
  then show ?case by (cases "f (g x)"; cases "filter_o (\<lambda>x. f (g x)) xs") simp_all
qed simp

lemma proposal_le_bare [simp]: "proposal_le (bare a) (bare b) \<longleftrightarrow> proposal_le a b"
  by (simp add: proposal_le_def)

lemma max_proposal_bare: "max_proposal (map bare ps) = map_option bare (max_proposal ps)"
proof -
  have "fold (\<lambda>b a. if proposal_le a b then b else a) (map bare qs) (bare p) =
      bare (fold (\<lambda>b a. if proposal_le a b then b else a) qs p)" for qs p
    by (induction qs arbitrary: p) simp_all
  then show ?thesis by (cases ps) (simp_all add: max_proposal_def)
qed

lemma max_continuous_bare:
  "max_continuous_proposal (bare_cache c) = map_outcome (map_option bare) id (max_continuous_proposal c)"
  by (simp add: max_continuous_proposal_def pc_height_bare filter_o_map [of _ bare] max_proposal_bare is_decendent_bare
      map_outcome_bind bind_map_outcome del: map_map cong: if_cong)

lemma pending_walk_bare:
  "pending_walk n (bare_cache c) t (bare p) = map_outcome (map_option bare) id (pending_walk n c t p)"
  by (induction n arbitrary: p) (auto simp: pc_get_bare split: option.splits)

lemma next_pending_bare:
  "next_pending_proposal (bare_cache c) off = map_outcome (map_option bare) id (next_pending_proposal c off)"
  unfolding next_pending_proposal_def max_continuous_bare bind_map_outcome map_outcome_bind
  by (rule bind_o_cong [OF refl])
     (auto simp: pc_height_bare pending_walk_bare map_outcome_bind simp del: pending_walk.simps
       intro!: bind_o_cong split: option.splits)

lemma next_pending_similar:
  assumes "bare_cache c = bare_cache c'" and "next_pending_proposal c off = Ok m"
  shows "\<exists>m'. next_pending_proposal c' off = Ok m' \<and> map_option bare m' = map_option bare m"
proof -
  have "map_outcome (map_option bare) id (next_pending_proposal c' off) = Ok (map_option bare m)"
    using next_pending_bare [of c off] next_pending_bare [of c' off] assms by simp
  then show ?thesis by (cases "next_pending_proposal c' off") auto
qed

lemma bare_cache_update:
  assumes "pc_get c h = Some p" and "same_proposal p' p" and "distinct (map fst (pc_proposals c))"
  shows "bare_cache (pc_update h p' c) = bare_cache c"
proof -
  have "map (\<lambda>(k, p). (k, bare p)) (AList.update h p' xs) = map (\<lambda>(k, p). (k, bare p)) xs"
    if "map_of xs h = Some p" for xs
    using that assms(2) by (induction xs) (auto simp: bare_eq_iff [symmetric] split: if_splits)
  then show ?thesis using assms(1) by (simp add: bare_cache_def pc_update_def pc_get_def)
qed

end
