(* ===== verification/Solid_Core_Props.thy ===== *)
theory Solid_Core_Props
  imports Solid_Core Solid_Cache_Props
begin

text \<open>
  The invariant of the consensus core, what every operation keeps of it, and that no operation runs
  out of fuel. \<open>evolves\<close> says how the proposals of a core change between two confirmations: none is
  added by the bookkeeping, none is replaced, and the skips sent never go back.
\<close>

section \<open>Invariant\<close>

definition orphans_ok :: "(proposal_hash \<times> 'p proposal_orphan) list \<Rightarrow> bool" where
  "orphans_ok os \<longleftrightarrow> (\<forall>h orph. map_of os h = Some orph \<longrightarrow> (\<forall>a \<in> set (or_accepts orph). ph_hash (pa_proposal a) = h))"

definition core_inv :: "('p::linorder, 's) solid_env \<Rightarrow> ('p, 's) solid_core \<Rightarrow> bool" where
  "core_inv E s \<longleftrightarrow> pc_inv E (sc_proposals s) \<and> orphans_ok (sc_orphan_accepts s)"

definition evolves :: "('p, 's) proposal_cache \<Rightarrow> ('p, 's) proposal_cache \<Rightarrow> bool" where
  "evolves c c' \<longleftrightarrow> pc_last_confirmed c' = pc_last_confirmed c \<and>
     (\<forall>h p'. pc_get c' h = Some p' \<longrightarrow> (\<exists>p. pc_get c h = Some p \<and> same_proposal p' p \<and>
        pr_skips_sent p \<le> pr_skips_sent p' \<and> (pr_initial_accept_sent p \<longrightarrow> pr_initial_accept_sent p')))"

lemma evolves_refl [simp]: "evolves c c"
  by (simp add: evolves_def)

lemma evolves_trans:
  assumes "evolves c c'" and "evolves c' c''"
  shows "evolves c c''"
proof -
  have "\<exists>p. pc_get c h = Some p \<and> same_proposal p'' p \<and> pr_skips_sent p \<le> pr_skips_sent p'' \<and>
      (pr_initial_accept_sent p \<longrightarrow> pr_initial_accept_sent p'')" if p'': "pc_get c'' h = Some p''" for h p''
  proof -
    obtain p' where p': "pc_get c' h = Some p'" "same_proposal p'' p'" "pr_skips_sent p' \<le> pr_skips_sent p''"
        "pr_initial_accept_sent p' \<longrightarrow> pr_initial_accept_sent p''"
      using assms(2) p'' unfolding evolves_def by blast
    then obtain p where p: "pc_get c h = Some p" "same_proposal p' p" "pr_skips_sent p \<le> pr_skips_sent p'"
        "pr_initial_accept_sent p \<longrightarrow> pr_initial_accept_sent p'"
      using assms(1) unfolding evolves_def by blast
    have "same_proposal p'' p" using p'(2) p(2) by (rule same_proposal_trans)
    moreover have "pr_skips_sent p \<le> pr_skips_sent p''" using p(3) p'(3) by (rule order_trans)
    ultimately show ?thesis using p p' by blast
  qed
  then show ?thesis using assms unfolding evolves_def by simp
qed

lemma evolves_remove: "evolves c (pc_remove h c)"
  by (auto simp: evolves_def pc_get_remove)

lemma evolves_update:
  assumes "pc_get c h = Some p" and "same_proposal p' p" and "pr_skips_sent p \<le> pr_skips_sent p'"
    and "pr_initial_accept_sent p \<longrightarrow> pr_initial_accept_sent p'"
  shows "evolves c (pc_update h p' c)"
  using assms by (auto simp: evolves_def pc_get_update)

lemma evolves_confirmed:
  assumes "pc_inv E c'" and "evolves c c'"
  shows "pc_height c' = pc_height c"
proof -
  obtain lc' where lc': "pc_get c' (pc_last_confirmed c') = Some lc'" by (rule pc_inv_confirmed [OF assms(1)])
  then obtain lc where lc: "pc_get c (pc_last_confirmed c) = Some lc" "same_proposal lc' lc"
    using assms(2) unfolding evolves_def by metis
  show ?thesis using lc(2) unfolding confirmed_results [OF lc(1)] confirmed_results [OF lc'] by (simp add: same_proposal_def)
qed

section \<open>The current proposal\<close>

lemma highest_next_pending_eq:
  assumes "pc_get c (pc_last_confirmed c) = Some lc"
    and "highest_skip_with_inverse lc t = (Ok h :: (u64 option, 'p solid_error) outcome)"
  shows "highest_next_pending t c = bind_o (next_pending_proposal c 0) (\<lambda>m.
     Ok (case m of None \<Rightarrow> None
         | Some p \<Rightarrow> if (case h of None \<Rightarrow> 0 | Some k \<Rightarrow> k) > pr_skips p \<or> pr_skips_sent lc > pr_skips p then None
                      else Some (p :: ('p, 's) proposal)))"
  by (simp add: highest_next_pending_def confirmed_results [OF assms(1)] assms(2))

lemma highest_next_pending_not_Err:
  assumes "pc_inv E c"
  shows "highest_next_pending t c \<noteq> Err e"
proof -
  obtain lc where lc: "pc_get c (pc_last_confirmed c) = Some lc" by (rule pc_inv_confirmed [OF assms])
  obtain h where h: "highest_skip_with_inverse lc t = (Ok h :: (u64 option, 'a solid_error) outcome)"
    by (rule highest_skip_result)
  show ?thesis
    using next_pending_not_Err [OF assms] unfolding highest_next_pending_eq [OF lc h] by (simp add: bind_o_Err_iff)
qed

lemma highest_next_pending_Some:
  assumes inv: "pc_inv E c" and lc: "pc_get c (pc_last_confirmed c) = Some lc"
    and "highest_next_pending t c = Ok (Some p)"
  shows "next_pending_proposal c 0 = Ok (Some p)" "pc_get c (pr_hash p) = Some p" "pr_hash p \<noteq> pc_last_confirmed c"
proof -
  obtain h where h: "highest_skip_with_inverse lc t = (Ok h :: (u64 option, 'a solid_error) outcome)"
    by (rule highest_skip_result)
  show n: "next_pending_proposal c 0 = Ok (Some p)"
    using assms(3) unfolding highest_next_pending_eq [OF lc h] by (auto simp: bind_o_Ok_iff split: option.splits if_splits)
  show get: "pc_get c (pr_hash p) = Some p" by (rule next_pending_mem(4) [OF inv lc n])
  show "pr_hash p \<noteq> pc_last_confirmed c"
  proof
    assume "pr_hash p = pc_last_confirmed c"
    then have "p = lc" using get lc by simp
    then show False using next_pending_mem(3) [OF inv lc n] by simp
  qed
qed

definition settled :: "('p, 's) solid_env \<Rightarrow> accept_threshold \<Rightarrow> ('p, 's) proposal_cache \<Rightarrow> proposal_hash \<Rightarrow> bool" where
  "settled E t c h \<longleftrightarrow>
     highest_next_pending t c = Ok None \<and> h = pc_last_confirmed c \<or>
     (\<exists>p lc. highest_next_pending t c = Ok (Some p) \<and> h = pr_hash p \<and> pc_get c (pc_last_confirmed c) = Some lc \<and>
        (pr_is_validated p \<or> validate_contents E p lc = Ok ()))"

lemma length_delete_less: "map_of xs k \<noteq> None \<Longrightarrow> length (AList.delete k xs) < length xs"
  by (induction xs) (auto simp: AList.delete_eq less_Suc_eq_le length_filter_le split: if_splits)

lemma current_loop_spec:
  assumes "pc_inv E c"
  shows "current_loop n E t c = Ok (c', h) \<Longrightarrow> pc_inv E c' \<and> evolves c c' \<and> settled E t c' h \<and> pc_get c' h \<noteq> None"
    and "length (pc_proposals c) < n \<Longrightarrow> current_loop n E t c \<noteq> Err e"
proof -
  have "(current_loop n E t c = Ok (c', h) \<longrightarrow> pc_inv E c' \<and> evolves c c' \<and> settled E t c' h \<and> pc_get c' h \<noteq> None) \<and>
      (length (pc_proposals c) < n \<longrightarrow> current_loop n E t c \<noteq> Err e)"
    using assms
  proof (induction n arbitrary: c)
    case (Suc n)
    note inv = Suc.prems
    obtain lc where lc: "pc_get c (pc_last_confirmed c) = Some lc" "pr_hash lc = pc_last_confirmed c"
      by (rule pc_inv_confirmed [OF inv])
    show ?case
    proof (cases "highest_next_pending t c")
      case (Ok m)
      show ?thesis
      proof (cases m)
        case None
        then show ?thesis using lc inv Ok by (auto simp: confirmed_results [OF lc(1)] settled_def)
      next
        case (Some p)
        note p = highest_next_pending_Some [OF inv lc(1) Ok [unfolded Some]]
        have inv': "pc_inv E (pc_remove (pr_hash p) c)" using inv p(3) by (rule pc_inv_remove)
        have "length (pc_proposals (pc_remove (pr_hash p) c)) < length (pc_proposals c)"
          using p(2) unfolding pc_remove_def by (simp add: pc_get_def length_delete_less)
        note less = this
        show ?thesis
        proof (cases "pr_is_validated p \<or> validate_contents E p lc = Ok ()")
          case True
          then have "current_loop (Suc n) E t c = Ok (c, pr_hash p)"
            by (auto simp: confirmed_results [OF lc(1)] Ok Some)
          then show ?thesis using True inv p(2) lc(1) Ok Some by (simp add: settled_def del: current_loop.simps) blast
        next
          case False
          then have "current_loop (Suc n) E t c = Panic \<or>
              current_loop (Suc n) E t c = current_loop n E t (pc_remove (pr_hash p) c)"
            by (auto simp: confirmed_results [OF lc(1)] Ok Some split: outcome.splits)
          then show ?thesis
            using Suc.IH [OF inv'] evolves_trans [OF evolves_remove] less by (auto simp del: current_loop.simps)
        qed
      qed
    qed (use highest_next_pending_not_Err [OF inv] in \<open>auto simp: confirmed_results [OF lc(1)]\<close>)
  qed simp
  then show "current_loop n E t c = Ok (c', h) \<Longrightarrow> pc_inv E c' \<and> evolves c c' \<and> settled E t c' h \<and> pc_get c' h \<noteq> None"
    and "length (pc_proposals c) < n \<Longrightarrow> current_loop n E t c \<noteq> Err e" by blast+
qed

lemma settled_loop:
  assumes "pc_inv E c" and "settled E t c h"
  shows "current_loop (Suc n) E t c = Ok (c, h)"
proof -
  obtain lc where lc: "pc_get c (pc_last_confirmed c) = Some lc" "pr_hash lc = pc_last_confirmed c"
    by (rule pc_inv_confirmed [OF assms(1)])
  show ?thesis using assms(2) lc by (auto simp: settled_def confirmed_results [OF lc(1)])
qed

lemma settled_validated:
  assumes inv: "pc_inv E c" and s: "settled E t c h" and p: "pc_get c h = Some p"
  shows "settled E t (pc_update h (p\<lparr>pr_is_validated := True\<rparr>) c) h"
proof -
  let ?p = "p\<lparr>pr_is_validated := True\<rparr>" and ?c = "pc_update h (p\<lparr>pr_is_validated := True\<rparr>) c"
  obtain lc where lc: "pc_get c (pc_last_confirmed c) = Some lc" by (rule pc_inv_confirmed [OF inv])
  have bare: "bare_cache c = bare_cache ?c"
    using inv by (intro bare_cache_update [symmetric, OF p]) (auto simp: pc_inv_def)
  have lc': "pc_get ?c (pc_last_confirmed ?c) = Some (if h = pc_last_confirmed c then ?p else lc)"
    using lc by (simp add: pc_get_update)
  let ?lc = "if h = pc_last_confirmed c then ?p else lc"
  obtain k where k: "highest_skip_with_inverse lc t = (Ok k :: (u64 option, 'a solid_error) outcome)"
    by (rule highest_skip_result)
  have sent: "pr_skips_sent ?lc = pr_skips_sent lc" and k': "highest_skip_with_inverse ?lc t = (Ok k :: (u64 option, 'a solid_error) outcome)"
    using lc p k by (auto simp: highest_skip_with_inverse_def)
  obtain m where m: "next_pending_proposal c 0 = Ok m"
    using s by (auto simp: settled_def highest_next_pending_eq [OF lc k] bind_o_Ok_iff)
  obtain m' where m': "next_pending_proposal ?c 0 = Ok m'" "map_option bare m' = map_option bare m"
    using next_pending_similar [OF bare m] by blast
  show ?thesis
  proof (cases "highest_next_pending t c = Ok None")
    case True
    then have "h = pc_last_confirmed c" using s by (simp add: settled_def)
    moreover have "highest_next_pending t ?c = Ok None"
      using True m m' unfolding highest_next_pending_eq [OF lc k] highest_next_pending_eq [OF lc' k'] sent
      by (cases m; cases m') (auto simp: bare_eq_iff same_proposal_def split: if_splits)
    ultimately show ?thesis by (simp add: settled_def)
  next
    case False
    then obtain q where q: "highest_next_pending t c = Ok (Some q)" "h = pr_hash q" using s by (auto simp: settled_def)
    then have "m = Some q" using highest_next_pending_Some(1) [OF inv lc q(1)] m by simp
    then obtain q' where q': "m' = Some q'" "same_proposal q' q" using m'(2) by (auto simp: bare_eq_iff)
    then have hn: "highest_next_pending t ?c = Ok (Some q')"
      using q(1) m \<open>m = Some q\<close> m' unfolding highest_next_pending_eq [OF lc k] highest_next_pending_eq [OF lc' k'] sent
      by (auto simp: same_proposal_def split: if_splits)
    have "pc_inv E ?c" using pc_inv_update [OF inv] pc_inv_entry [OF inv p] by simp
    then have "pc_get ?c (pr_hash q') = Some q'" using highest_next_pending_Some(2) [OF _ lc' hn] by blast
    then have "q' = ?p" using q(2) q'(2) by (simp add: pc_get_update same_proposal_def)
    then show ?thesis using hn lc' q(2) q'(2) unfolding settled_def by (auto simp: same_proposal_def)
  qed
qed

lemma pc_update_same: "pc_get c h = Some p \<Longrightarrow> pc_update h p c = c"
proof -
  have "map_of xs h = Some p \<Longrightarrow> AList.update h p xs = xs" for xs by (induction xs) (auto split: if_splits)
  then show "pc_get c h = Some p \<Longrightarrow> pc_update h p c = c" by (simp add: pc_update_def pc_get_def)
qed

lemma validated_current_spec:
  assumes inv: "core_inv E s" and ok: "validated_current_proposal E cfg s = Ok (s', p)"
  shows "core_inv E s'" "evolves (sc_proposals s) (sc_proposals s')" "pc_get (sc_proposals s') (pr_hash p) = Some p"
    "sc_orphan_accepts s' = sc_orphan_accepts s" "sc_max_height s' = sc_max_height s"
    "settled E (accept_threshold_of cfg) (sc_proposals s') (pr_hash p)" "pr_is_validated p"
proof -
  let ?t = "accept_threshold_of cfg"
  have pcinv: "pc_inv E (sc_proposals s)" using inv by (simp add: core_inv_def)
  obtain c h q where loop: "current_loop (Suc (length (pc_proposals (sc_proposals s)))) E ?t (sc_proposals s) = Ok (c, h)"
    and q: "pc_get c h = Some q" and p: "p = q\<lparr>pr_is_validated := True\<rparr>"
    and s': "s' = s\<lparr>sc_proposals := pc_update h p c\<rparr>"
    using ok by (auto simp: validated_current_proposal_def validated_current_proposal_hash_def bind_o_Ok_iff Let_def
        split: option.splits simp del: current_loop.simps)
  have c: "pc_inv E c" "evolves (sc_proposals s) c" "settled E ?t c h" using current_loop_spec(1) [OF pcinv loop] by blast+
  have hash: "pr_hash p = h" using pc_inv_hash [OF c(1) q] p by simp
  have "pc_inv E (pc_update h p c)" using pc_inv_update [OF c(1)] pc_inv_entry [OF c(1) q] p by simp
  then show "core_inv E s'" using inv by (simp add: core_inv_def s')
  have "evolves c (pc_update h p c)" using q by (rule evolves_update) (simp_all add: p)
  then show "evolves (sc_proposals s) (sc_proposals s')" using evolves_trans [OF c(2)] by (simp add: s')
  show "pc_get (sc_proposals s') (pr_hash p) = Some p" by (simp add: s' hash pc_get_update)
  show "settled E ?t (sc_proposals s') (pr_hash p)" using settled_validated [OF c(1,3) q] unfolding hash by (simp add: s' p)
qed (use ok in \<open>auto simp: validated_current_proposal_def bind_o_Ok_iff Let_def split: option.splits\<close>)

lemma validated_current_not_Err:
  assumes "core_inv E s"
  shows "validated_current_proposal E cfg s \<noteq> Err e"
  using assms current_loop_spec(2) [of E "sc_proposals s" "Suc (length (pc_proposals (sc_proposals s)))"]
  by (auto simp: core_inv_def validated_current_proposal_def validated_current_proposal_hash_def bind_o_Err_iff Let_def
      split: option.splits simp del: current_loop.simps)

lemma validated_current_idem:
  assumes inv: "core_inv E s" and ok: "validated_current_proposal E cfg s = Ok (s', p)"
  shows "validated_current_proposal E cfg s' = Ok (s', p)"
proof -
  note v = validated_current_spec [OF inv ok]
  have "pc_inv E (sc_proposals s')" using v(1) by (simp add: core_inv_def)
  note loop = settled_loop [OF this v(6), of "length (pc_proposals (sc_proposals s'))"]
  have "p\<lparr>pr_is_validated := True\<rparr> = p" using v(7) by simp
  then show ?thesis
    using v(3) pc_update_same [OF v(3)]
    by (simp add: validated_current_proposal_def validated_current_proposal_hash_def loop Let_def del: current_loop.simps)
qed

end
