(* ===== verification/Solid_Accept_Props.thy ===== *)
theory Solid_Accept_Props
  imports Solid_Core_Props
begin

text \<open>
  Sending and collecting accepts: the recursion between \<open>get_next_accept_event\<close> and \<open>add_accept\<close>
  ends after one call, a \<open>Propose\<close> event carries a quorum of valid accepts, and an accept of the node
  itself never goes back in skips.
\<close>

section \<open>What the events carry\<close>

definition propose_ok ::
    "('p::linorder, 's) solid_env \<Rightarrow> solid_config \<Rightarrow> ('p, 's) proposal_cache \<Rightarrow> proposal_hash \<Rightarrow> u64 \<Rightarrow> u64 \<Rightarrow>
     'p proposal_accept list \<Rightarrow> bool" where
  "propose_ok E cfg c h height skips as \<longleftrightarrow>
     (\<exists>p. pc_get c h = Some p \<and> unat height = Suc (unat (pr_height p)) \<and>
        get_leader_for_skip E (pr_content p) skips = Ok (signer_peer E) \<and>
        distinct (map pa_from as) \<and>
        length as = threshold (accept_threshold_of cfg) (length (mc_validators (pr_content p))) \<and>
        (\<forall>a \<in> set as. pa_skips a = skips \<and> ph_hash (pa_proposal a) = h \<and> validate_accept E p a = Ok ()))"

definition own_accept_ok :: "('p::linorder, 's) solid_env \<Rightarrow> ('p, 's) proposal_cache \<Rightarrow> 'p proposal_accept \<Rightarrow> bool" where
  "own_accept_ok E c a \<longleftrightarrow>
     (\<exists>p. pc_get c (ph_hash (pa_proposal a)) = Some p \<and> ph_height (pa_proposal a) = pr_height p \<and>
        ph_skips (pa_proposal a) = pr_skips p \<and> pa_from a = signer_peer E \<and>
        get_leader_for_skip E (pr_content p) (pa_skips a) = Ok (pa_leader_id a) \<and> pr_skips_sent p \<le> pa_skips a)"

definition accept_recorded :: "('p, 's) proposal_cache \<Rightarrow> 'p proposal_accept \<Rightarrow> bool" where
  "accept_recorded c a \<longleftrightarrow> (\<forall>p. pc_get c (ph_hash (pa_proposal a)) = Some p \<longrightarrow>
     pr_initial_accept_sent p \<and> pa_skips a \<le> pr_skips_sent p)"

text \<open>The events of the accept operations; \<open>c\<close> is the cache before, \<open>c'\<close> the cache after.\<close>

fun event_ok ::
    "('p::linorder, 's) solid_env \<Rightarrow> solid_config \<Rightarrow> ('p, 's) proposal_cache \<Rightarrow> ('p, 's) proposal_cache \<Rightarrow>
     ('p, 's) solid_event option \<Rightarrow> bool" where
  "event_ok E cfg c c' (Some (Propose h height skips as)) = propose_ok E cfg c' h height skips as"
| "event_ok E cfg c c' (Some (AcceptEvent a)) = (own_accept_ok E c a \<and> accept_recorded c' a)"
| "event_ok E cfg c c' (Some (Commit m m')) = False"
| "event_ok E cfg c c' (Some (OutOfSync h h')) = True"
| "event_ok E cfg c c' (Some (DuplicateProposal h)) = False"
| "event_ok E cfg c c' None = True"

definition step_ok ::
    "('p::linorder, 's) solid_env \<Rightarrow> solid_config \<Rightarrow> ('p, 's) solid_core \<Rightarrow> ('p, 's) solid_core \<times> ('p, 's) solid_event option \<Rightarrow> bool" where
  "step_ok E cfg s = (\<lambda>(s', ev). core_inv E s' \<and> evolves (sc_proposals s) (sc_proposals s') \<and> sc_max_height s' = sc_max_height s \<and>
     event_ok E cfg (sc_proposals s) (sc_proposals s') ev)"

lemma own_accept_pre:
  assumes "evolves c c'" and "own_accept_ok E c' a"
  shows "own_accept_ok E c a"
proof -
  obtain p' where p': "pc_get c' (ph_hash (pa_proposal a)) = Some p'" "ph_height (pa_proposal a) = pr_height p'"
      "ph_skips (pa_proposal a) = pr_skips p'" "pa_from a = signer_peer E"
      "get_leader_for_skip E (pr_content p') (pa_skips a) = Ok (pa_leader_id a)" "pr_skips_sent p' \<le> pa_skips a"
    using assms(2) by (auto simp: own_accept_ok_def)
  then obtain p where p: "pc_get c (ph_hash (pa_proposal a)) = Some p" "same_proposal p' p" "pr_skips_sent p \<le> pr_skips_sent p'"
    using assms(1) unfolding evolves_def by blast
  have "pr_manifest p' = pr_manifest p" "pr_skips_sent p \<le> pa_skips a"
    using p(2) order_trans [OF p(3) p'(6)] by (simp_all add: same_proposal_def)
  then show ?thesis using p(1) p'(2-5) unfolding own_accept_ok_def by auto
qed

lemma step_ok_pre:
  assumes "evolves (sc_proposals s) (sc_proposals s1)" and "sc_max_height s1 = sc_max_height s" and "step_ok E cfg s1 r"
  shows "step_ok E cfg s r"
proof -
  obtain s' ev where r: "r = (s', ev)" by (cases r)
  have "event_ok E cfg (sc_proposals s) (sc_proposals s') ev"
    using assms own_accept_pre [OF assms(1)] by (cases "(E, cfg, sc_proposals s, sc_proposals s', ev)" rule: event_ok.cases)
      (auto simp: step_ok_def r)
  then show ?thesis using assms evolves_trans unfolding step_ok_def r by auto
qed

section \<open>Collecting accepts\<close>

lemma update_proposal_ok:
  assumes inv: "core_inv E s" and p: "pc_get (sc_proposals s) h = Some p" and ok: "proposal_ok E h p'"
    and "same_proposal p' p" and "pr_skips_sent p \<le> pr_skips_sent p'"
    and "pr_initial_accept_sent p \<longrightarrow> pr_initial_accept_sent p'"
  shows "core_inv E (update_proposal h p' s)" "evolves (sc_proposals s) (sc_proposals (update_proposal h p' s))"
    "sc_max_height (update_proposal h p' s) = sc_max_height s"
  using assms pc_inv_update [of E "sc_proposals s"] evolves_update [OF p]
  by (simp_all add: core_inv_def update_proposal_def)

lemma propose_collected:
  assumes ok: "proposal_ok E h p'" and add: "proposal_add_accept E p a t = Ok (p', True)"
    and "as = (case accepts_for_skip p' (pa_skips a) of None \<Rightarrow> [] | Some as \<Rightarrow> as)"
  shows "distinct (map pa_from as)" "length as = threshold t (length (mc_validators (pr_content p')))"
    "\<And>x. x \<in> set as \<Longrightarrow> pa_skips x = pa_skips a \<and> ph_hash (pa_proposal x) = h \<and> validate_accept E p' x = Ok ()"
proof -
  have len: "length (accepts_at p' (pa_skips a)) = threshold t (length (pr_ordered_validators p))"
    and some: "accepts_for_skip p' (pa_skips a) = Some as"
    using add assms(3)
    by (auto elim!: proposal_add_accept_cases simp: accepts_for_skip_def bt_get_insert)
  have "accepts_ok E p'" "pr_hash p' = h" "length (pr_ordered_validators p') = length (mc_validators (pr_content p'))"
    using ok by (simp_all add: proposal_ok_def)
  moreover have "pr_ordered_validators p' = pr_ordered_validators p"
    using proposal_add_accept_same [OF add] by (simp add: same_proposal_def)
  ultimately show "distinct (map pa_from as)" "length as = threshold t (length (mc_validators (pr_content p')))"
    "\<And>x. x \<in> set as \<Longrightarrow> pa_skips x = pa_skips a \<and> ph_hash (pa_proposal x) = h \<and> validate_accept E p' x = Ok ()"
    using accept_lists [OF _ some] len by metis+
qed

lemma add_known_accept_ok:
  assumes inv: "core_inv E s" and p: "pc_get (sc_proposals s) (ph_hash (pa_proposal a)) = Some p"
    and na: "\<And>s r. core_inv E s \<Longrightarrow> next_accept s = Ok r \<Longrightarrow> step_ok E cfg s r"
    and ok: "add_known_accept E cfg next_accept oos cur a p s = Ok r"
  shows "step_ok E cfg s r"
proof -
  let ?h = "ph_hash (pa_proposal a)" and ?t = "accept_threshold_of cfg"
  obtain p' b where add: "proposal_add_accept E p a ?t = Ok (p', b)"
    using ok by (auto simp: add_known_accept_def Let_def bind_o_Ok_iff)
  have pok: "proposal_ok E ?h p" using inv p by (auto simp: core_inv_def intro: pc_inv_entry)
  have p': "proposal_ok E ?h p'" "same_proposal p' p" "pr_skips_sent p' = pr_skips_sent p"
      "pr_initial_accept_sent p' = pr_initial_accept_sent p"
    using proposal_add_accept_ok [OF pok _ add] proposal_add_accept_same [OF add] by simp_all
  have u: "core_inv E (update_proposal ?h p' s)" "evolves (sc_proposals s) (sc_proposals (update_proposal ?h p' s))"
    "sc_max_height (update_proposal ?h p' s) = sc_max_height s"
    using update_proposal_ok [OF inv p p'(1,2)] p'(3,4) by simp_all
  consider (propose) height where "b" "get_leader_for_skip E (pr_content p') (pa_skips a) = Ok (signer_peer E)"
      "add_u64 (pr_height p') 1 = (Ok height :: (u64, 'a solid_error) outcome)"
      "r = (update_proposal ?h p' s, Some (Propose ?h height (pa_skips a)
             (case accepts_for_skip p' (pa_skips a) of None \<Rightarrow> [] | Some as \<Rightarrow> as)))"
    | (more) "pa_skips a > pr_skips_sent p'" "next_accept (update_proposal ?h (p'\<lparr>pr_skips_sent := pa_skips a\<rparr>) s) = Ok r"
    | (none) "r = (update_proposal ?h p' s, None)"
    using ok by (auto simp: add_known_accept_def Let_def bind_o_Ok_iff add split: if_splits)
  then show ?thesis
  proof cases
    case propose
    then have "proposal_add_accept E p a ?t = Ok (p', True)" using add by simp
    note c = propose_collected [OF p'(1) this refl]
    have "pc_get (sc_proposals (update_proposal ?h p' s)) ?h = Some p'" by (simp add: update_proposal_def pc_get_update)
    moreover have "unat height = Suc (unat (pr_height p'))" using propose(3) by (simp add: add_u64_Ok_iff)
    ultimately have "propose_ok E cfg (sc_proposals (update_proposal ?h p' s)) ?h height (pa_skips a)
        (case accepts_for_skip p' (pa_skips a) of None \<Rightarrow> [] | Some as \<Rightarrow> as)"
      unfolding propose_ok_def using propose(2) c by blast
    then show ?thesis using u by (simp add: step_ok_def propose(4))
  next
    case more
    let ?p = "p'\<lparr>pr_skips_sent := pa_skips a\<rparr>"
    have "same_proposal ?p p" using p'(2) by (simp add: same_proposal_def)
    then have "core_inv E (update_proposal ?h ?p s)" "evolves (sc_proposals s) (sc_proposals (update_proposal ?h ?p s))"
      "sc_max_height (update_proposal ?h ?p s) = sc_max_height s"
      using update_proposal_ok [OF inv p, of ?p] p' more(1) by simp_all
    then show ?thesis using assms(3) [OF _ more(2)] step_ok_pre by blast
  next
    case none
    then show ?thesis using u by (simp add: step_ok_def)
  qed
qed

lemma add_orphan_ok: "orphans_ok os \<Longrightarrow> orphans_ok (fst (add_orphan now a os))"
  by (auto simp: orphans_ok_def add_orphan_def Let_def update_conv' split: option.splits if_splits)

lemma core_inv_orphan:
  "core_inv E s \<Longrightarrow> core_inv E (s\<lparr>sc_orphan_accepts := fst (add_orphan now a (sc_orphan_accepts s))\<rparr>)"
  by (simp add: core_inv_def add_orphan_ok)

lemma core_inv_update_proposal:
  "core_inv E s \<Longrightarrow> proposal_ok E h p \<Longrightarrow> core_inv E (update_proposal h p s)"
  by (simp add: core_inv_def update_proposal_def pc_inv_update)

lemma add_orphan_accept_ok:
  assumes inv: "core_inv E s" and ok: "add_orphan_accept E cfg now a s = Ok r"
  shows "step_ok E cfg s r"
proof -
  let ?s = "s\<lparr>sc_orphan_accepts := fst (add_orphan now a (sc_orphan_accepts s))\<rparr>"
  obtain s1 cur where v: "validated_current_proposal E cfg ?s = Ok (s1, cur)" and "fst r = s1"
      "snd r = None \<or> (\<exists>h h'. snd r = Some (OutOfSync h h'))"
    using ok by (auto simp: add_orphan_accept_def Let_def case_prod_beta bind_o_Ok_iff split: if_splits)
  moreover note validated_current_spec [OF core_inv_orphan [OF inv] v]
  ultimately show ?thesis by (cases r) (auto simp: step_ok_def)
qed

lemma add_accept_with_ok:
  assumes inv: "core_inv E s"
    and na: "\<And>s r. core_inv E s \<Longrightarrow> next_accept s = Ok r \<Longrightarrow> step_ok E cfg s r"
    and ok: "add_accept_with E cfg now next_accept a s = Ok r"
  shows "step_ok E cfg s r"
proof (cases "r = (s, None)")
  case True
  then show ?thesis using inv by (simp add: step_ok_def)
next
  case False
  then obtain oos s1 cur where v: "validated_current_proposal E cfg s = Ok (s1, cur)" and
      r: "(case pc_get (sc_proposals s1) (ph_hash (pa_proposal a)) of
             Some p \<Rightarrow> add_known_accept E cfg next_accept oos (pr_hash cur) a p s1
           | None \<Rightarrow> add_orphan_accept E cfg now a s1) = Ok r"
    using ok by (auto simp: add_accept_with_def bind_o_Ok_iff split: if_splits)
  note s1 = validated_current_spec [OF inv v]
  have "step_ok E cfg s1 r"
    using r add_known_accept_ok [OF s1(1) _ na] add_orphan_accept_ok [OF s1(1)] by (auto split: option.splits)
  then show ?thesis by (rule step_ok_pre [OF s1(2,5)])
qed

lemma add_known_accept_not_Err:
  assumes "\<And>s. core_inv E s \<Longrightarrow> next_accept s \<noteq> Err e" and inv: "core_inv E s"
    and p: "pc_get (sc_proposals s) (ph_hash (pa_proposal a)) = Some p"
  shows "add_known_accept E cfg next_accept oos cur a p s \<noteq> Err e"
proof
  let ?h = "ph_hash (pa_proposal a)"
  assume err: "add_known_accept E cfg next_accept oos cur a p s = Err e"
  obtain p' b where add: "proposal_add_accept E p a (accept_threshold_of cfg) = Ok (p', b)"
    using err by (auto simp: add_known_accept_def Let_def bind_o_Err_iff)
  have "proposal_ok E ?h p" using inv p by (auto simp: core_inv_def intro: pc_inv_entry)
  then have "proposal_ok E ?h p'" using proposal_add_accept_ok [OF _ _ add] by simp
  then have "core_inv E (update_proposal ?h (p'\<lparr>pr_skips_sent := pa_skips a\<rparr>) s)"
    using inv by (intro core_inv_update_proposal) simp_all
  then show False
    using err assms(1) by (auto simp: add_known_accept_def Let_def bind_o_Err_iff add split: if_splits)
qed

lemma core_height_not_Err [simp]: "pc_height c \<noteq> Err e"
  by (simp add: pc_height_def split: option.splits)

lemma core_is_out_of_sync_not_Err [simp]: "core_is_out_of_sync s \<noteq> Err e"
  by (simp add: core_is_out_of_sync_def bind_o_Err_iff)

lemma add_orphan_accept_not_Err:
  assumes "core_inv E s"
  shows "add_orphan_accept E cfg now a s \<noteq> Err e"
  using validated_current_not_Err [OF core_inv_orphan [OF assms], of cfg now a e]
  by (auto simp: add_orphan_accept_def Let_def case_prod_beta bind_o_Err_iff split: if_splits)

lemma add_accept_with_not_Err:
  assumes "\<And>s. core_inv E s \<Longrightarrow> next_accept s \<noteq> Err e" and inv: "core_inv E s"
  shows "add_accept_with E cfg now next_accept a s \<noteq> Err e"
proof
  assume "add_accept_with E cfg now next_accept a s = Err e"
  then obtain oos s1 cur where v: "validated_current_proposal E cfg s = Ok (s1, cur)" and
      err: "(case pc_get (sc_proposals s1) (ph_hash (pa_proposal a)) of
             Some p \<Rightarrow> add_known_accept E cfg next_accept oos (pr_hash cur) a p s1
           | None \<Rightarrow> add_orphan_accept E cfg now a s1) = Err e"
    using validated_current_not_Err [OF inv] by (auto simp: add_accept_with_def bind_o_Err_iff split: if_splits)
  have s1: "core_inv E s1" by (rule validated_current_spec(1) [OF inv v])
  show False
    using err add_known_accept_not_Err [OF assms(1) s1] add_orphan_accept_not_Err [OF s1] by (auto split: option.splits)
qed

section \<open>Sending accepts\<close>

text \<open>
  The continuation of \<open>add_accept_with\<close> is not called when the proposal has already sent the skips of
  the accept, which is the case for the node's own accepts.
\<close>

lemma add_accept_with_cont:
  assumes inv: "core_inv E s"
    and sent: "\<And>p. pc_get (sc_proposals s) (ph_hash (pa_proposal a)) = Some p \<Longrightarrow> pa_skips a \<le> pr_skips_sent p"
  shows "add_accept_with E cfg now k a s = add_accept_with E cfg now k' a s"
proof -
  let ?h = "ph_hash (pa_proposal a)"
  have eq: "add_known_accept E cfg k oos cur a p s1 = add_known_accept E cfg k' oos cur a p s1"
    if "pa_skips a \<le> pr_skips_sent p" for oos cur p s1
  proof (cases "proposal_add_accept E p a (accept_threshold_of cfg)")
    case (Ok r)
    obtain p' b where r: "r = (p', b)" by (cases r)
    have "\<not> pa_skips a > pr_skips_sent p'"
      using proposal_add_accept_same [OF Ok [unfolded r]] that by (simp add: not_less)
    then show ?thesis by (simp add: add_known_accept_def Let_def Ok r)
  qed (simp_all add: add_known_accept_def Let_def)
  have le: "pa_skips a \<le> pr_skips_sent p"
    if v: "validated_current_proposal E cfg s = Ok (s1, cur)" and p: "pc_get (sc_proposals s1) ?h = Some p" for s1 cur p
  proof -
    obtain p0 where "pc_get (sc_proposals s) ?h = Some p0" "pr_skips_sent p0 \<le> pr_skips_sent p"
      using validated_current_spec(2) [OF inv v] p unfolding evolves_def by blast
    then show ?thesis using sent by (blast intro: order_trans)
  qed
  show ?thesis
    unfolding add_accept_with_def
    by (intro bind_o_cong refl) (auto simp: eq le split: option.splits intro!: bind_o_cong)
qed

definition own_accept :: "('p, 's) solid_env \<Rightarrow> ('p, 's) proposal \<Rightarrow> u64 \<Rightarrow> 'p \<Rightarrow> 'p proposal_accept" where
  "own_accept E p skips leader =
     (let header = \<lparr>ph_hash = pr_hash p, ph_height = pr_height p, ph_skips = pr_skips p\<rparr>
      in \<lparr>pa_leader_id = leader, pa_proposal = header, pa_skips = skips, pa_from = signer_peer E,
          pa_signature = accept_sign E header skips\<rparr>)"

definition mark_sent :: "('p, 's) proposal \<Rightarrow> u64 \<Rightarrow> ('p, 's) solid_core \<Rightarrow> ('p, 's) solid_core" where
  "mark_sent p skips = update_proposal (pr_hash p) (p\<lparr>pr_skips_sent := skips, pr_initial_accept_sent := True\<rparr>)"

lemma own_accept_fields [simp]:
  "ph_hash (pa_proposal (own_accept E p k l)) = pr_hash p" "ph_height (pa_proposal (own_accept E p k l)) = pr_height p"
  "ph_skips (pa_proposal (own_accept E p k l)) = pr_skips p" "pa_skips (own_accept E p k l) = k"
  "pa_from (own_accept E p k l) = signer_peer E" "pa_leader_id (own_accept E p k l) = l"
  by (simp_all add: own_accept_def Let_def)

lemma next_accept_with_unfold:
  assumes "core_inv E s"
  shows "next_accept_with E cfg now k skip s =
    bind_o (validated_current_proposal E cfg s) (\<lambda>(s1, p).
    bind_o (next_accept_skip p (accept_threshold_of cfg) skip) (\<lambda>skips.
    bind_o (get_leader_for_skip E (pr_content p) skips) (\<lambda>leader.
    bind_o (add_accept_with E cfg now k (own_accept E p skips leader) (mark_sent p skips s1)) (\<lambda>(s4, event).
      Ok (s4, case event of Some e \<Rightarrow> Some e | None \<Rightarrow> Some (AcceptEvent (own_accept E p skips leader)))))))"
proof (cases "validated_current_proposal E cfg s")
  case (Ok r)
  obtain s1 p where r: "r = (s1, p)" by (cases r)
  note idem = validated_current_idem [OF assms Ok [unfolded r]]
  show ?thesis
    unfolding next_accept_with_def own_accept_def mark_sent_def Let_def Ok r bind_o.simps prod.case idem ..
qed (simp_all add: next_accept_with_def)

lemma mark_sent_ok:
  assumes inv: "core_inv E s" and v: "validated_current_proposal E cfg s = Ok (s1, p)"
    and k: "next_accept_skip p t skip = (Ok skips :: (u64, 'e) outcome)"
  shows "core_inv E (mark_sent p skips s1)" "evolves (sc_proposals s) (sc_proposals (mark_sent p skips s1))"
    "pc_get (sc_proposals (mark_sent p skips s1)) (pr_hash p) = Some (p\<lparr>pr_skips_sent := skips, pr_initial_accept_sent := True\<rparr>)"
    "sc_max_height (mark_sent p skips s1) = sc_max_height s"
proof -
  note s1 = validated_current_spec [OF inv v]
  have "proposal_ok E (pr_hash p) p" using s1(1,3) by (auto simp: core_inv_def intro: pc_inv_entry)
  then have "core_inv E (mark_sent p skips s1) \<and> evolves (sc_proposals s1) (sc_proposals (mark_sent p skips s1))"
    unfolding mark_sent_def using update_proposal_ok [OF s1(1,3)] next_accept_skip_mono(1) [OF k] by simp
  then show "core_inv E (mark_sent p skips s1)" "evolves (sc_proposals s) (sc_proposals (mark_sent p skips s1))"
    using evolves_trans [OF s1(2)] by blast+
  show "pc_get (sc_proposals (mark_sent p skips s1)) (pr_hash p) = Some (p\<lparr>pr_skips_sent := skips, pr_initial_accept_sent := True\<rparr>)"
    by (simp add: mark_sent_def update_proposal_def pc_get_update)
  show "sc_max_height (mark_sent p skips s1) = sc_max_height s" using s1(5) by (simp add: mark_sent_def update_proposal_def)
qed

lemma own_add_cont:
  assumes "core_inv E s" and "validated_current_proposal E cfg s = Ok (s1, p)"
    and "next_accept_skip p t skip = (Ok skips :: (u64, 'e) outcome)"
  shows "add_accept_with E cfg now k (own_accept E p skips l) (mark_sent p skips s1) =
    add_accept_with E cfg now k' (own_accept E p skips l) (mark_sent p skips s1)"
  using mark_sent_ok(3) [OF assms] by (intro add_accept_with_cont [OF mark_sent_ok(1) [OF assms]]) auto

lemma next_accept_with_cont:
  assumes "core_inv E s"
  shows "next_accept_with E cfg now k skip s = next_accept_with E cfg now k' skip s"
  unfolding next_accept_with_unfold [OF assms]
  by (intro bind_o_cong refl) (auto intro!: bind_o_cong own_add_cont [OF assms])

lemma next_accept_with_ok:
  assumes inv: "core_inv E s" and ok: "next_accept_with E cfg now k skip s = Ok r"
  shows "step_ok E cfg s r"
proof -
  let ?k = "\<lambda>s. Ok (s, None)"
  obtain s1 p skips l s4 ev where v: "validated_current_proposal E cfg s = Ok (s1, p)"
    and sk: "next_accept_skip p (accept_threshold_of cfg) skip = (Ok skips :: (u64, 'a solid_error) outcome)"
    and l: "get_leader_for_skip E (pr_content p) skips = Ok l"
    and add: "add_accept_with E cfg now k (own_accept E p skips l) (mark_sent p skips s1) = Ok (s4, ev)"
    and r: "r = (s4, case ev of Some e \<Rightarrow> Some e | None \<Rightarrow> Some (AcceptEvent (own_accept E p skips l)))"
    using ok unfolding next_accept_with_unfold [OF inv] by (auto simp: bind_o_Ok_iff)
  note m = mark_sent_ok [OF inv v sk] and s1 = validated_current_spec [OF inv v]
  have "step_ok E cfg (mark_sent p skips s1) (s4, ev)"
    using add unfolding own_add_cont [OF inv v sk, of now k _ ?k]
    by (rule add_accept_with_ok [OF m(1), rotated]) (auto simp: step_ok_def)
  note add_step = this
  then have step: "step_ok E cfg s (s4, ev)" by (rule step_ok_pre [OF m(2,4)])
  have "accept_recorded (sc_proposals s4) (own_accept E p skips l)"
    using add_step m(3) unfolding step_ok_def accept_recorded_def evolves_def by fastforce
  have "own_accept_ok E (sc_proposals s1) (own_accept E p skips l)"
    using s1(3) l next_accept_skip_mono(1) [OF sk] by (auto simp: own_accept_ok_def)
  then have "own_accept_ok E (sc_proposals s) (own_accept E p skips l)" by (rule own_accept_pre [OF s1(2)])
  then show ?thesis using step \<open>accept_recorded _ _\<close> by (cases ev) (simp_all add: step_ok_def r)
qed

lemma next_accept_with_not_Err:
  assumes inv: "core_inv E s"
  shows "next_accept_with E cfg now k skip s \<noteq> Err e"
proof
  let ?k = "\<lambda>s. Ok (s, None)"
  assume "next_accept_with E cfg now k skip s = Err e"
  then obtain s1 p skips l where v: "validated_current_proposal E cfg s = Ok (s1, p)"
    and sk: "next_accept_skip p (accept_threshold_of cfg) skip = (Ok skips :: (u64, 'a solid_error) outcome)"
    and err: "add_accept_with E cfg now k (own_accept E p skips l) (mark_sent p skips s1) = Err e"
    using validated_current_not_Err [OF inv] unfolding next_accept_with_unfold [OF inv] by (auto simp: bind_o_Err_iff)
  show False
    using err add_accept_with_not_Err [of E ?k e, OF _ mark_sent_ok(1) [OF inv v sk]]
    unfolding own_add_cont [OF inv v sk, of now k _ ?k] by simp
qed

lemma get_next_accept_event_ok: "core_inv E s \<Longrightarrow> get_next_accept_event (Suc n) E cfg now skip s = Ok r \<Longrightarrow> step_ok E cfg s r"
  using next_accept_with_ok by simp

lemma get_next_accept_event_not_Err: "core_inv E s \<Longrightarrow> get_next_accept_event (Suc n) E cfg now skip s \<noteq> Err e"
  using next_accept_with_not_Err by simp

lemma get_next_accept_event_fuel:
  "core_inv E s \<Longrightarrow> get_next_accept_event (Suc n) E cfg now skip s = get_next_accept_event (Suc 0) E cfg now skip s"
  by (simp, rule next_accept_with_cont)

lemma accept_fuel_Suc: "accept_fuel = Suc 0"
  by (simp add: accept_fuel_def)

lemma add_accept_ok: "core_inv E s \<Longrightarrow> add_accept E cfg now a s = Ok r \<Longrightarrow> step_ok E cfg s r"
  unfolding add_accept_def accept_fuel_Suc by (rule add_accept_with_ok [OF _ get_next_accept_event_ok])

lemma add_accept_not_Err: "core_inv E s \<Longrightarrow> add_accept E cfg now a s \<noteq> Err e"
  unfolding add_accept_def accept_fuel_Suc by (rule add_accept_with_not_Err [OF get_next_accept_event_not_Err])

end
