(* ===== verification/Solid_Theorems.thy ===== *)
theory Solid_Theorems
  imports Solid_Accept_Props
begin

text \<open>
  Runs of the consensus core and the properties of every core that a run reaches: the commits form a
  chain, every call returns, proposals carry a quorum, accepts do not go back, and a line of pending
  proposals is committed. The last section shows what the core does not check.
\<close>

section \<open>Operations\<close>

lemma adopt_orphans_ok:
  assumes "proposal_ok E h p" and "\<And>orph a. orphan = Some orph \<Longrightarrow> a \<in> set (or_accepts orph) \<Longrightarrow> ph_hash (pa_proposal a) = h"
    and "adopt_orphans E t orphan p = Ok p'"
  shows "proposal_ok E h p' \<and> same_proposal p' p \<and> pr_is_validated p' = pr_is_validated p"
proof (cases orphan)
  case None
  then show ?thesis using assms by (simp add: adopt_orphans_def)
next
  case (Some orph)
  let ?f = "\<lambda>p a. bind_o (proposal_add_accept E p a t) (\<lambda>(p', _). Ok p')"
  have "fold_o ?f p (or_accepts orph) = Ok p'" using assms(3) by (simp add: adopt_orphans_def Some)
  then show ?thesis
  proof (rule fold_o_invariant)
    fix q a q' assume "a \<in> set (or_accepts orph)"
      "proposal_ok E h q \<and> same_proposal q p \<and> pr_is_validated q = pr_is_validated p" "?f q a = Ok q'"
    then show "proposal_ok E h q' \<and> same_proposal q' p \<and> pr_is_validated q' = pr_is_validated p"
      using assms(2) [OF Some] proposal_add_accept_ok [of E h q a t q'] proposal_add_accept_same [of E q a t q']
      by (auto simp: bind_o_Ok_iff same_proposal_def)
  qed (use assms(1) in simp)
qed

lemma receive_proposal_cases:
  fixes E :: "('p::linorder, 's) solid_env"
  assumes inv: "core_inv E s" and ok: "receive_proposal E cfg m s = Ok s'"
  obtains p height where "validate_structure E (proposal_new E m) (accept_threshold_of cfg) = Ok ()"
    "pc_get (sc_proposals s) (app_hash E (mf_content m)) = None" "pc_height (sc_proposals s) = (Ok height :: (u64, 'p solid_error) outcome)"
    "height < mc_height (mf_content m)" "same_proposal p (proposal_new E m)" "proposal_ok E (app_hash E (mf_content m)) p"
    "sc_proposals s' = pc_insert p (sc_proposals s)" "sc_max_height s' = max (sc_max_height s) (mc_height (mf_content m))"
    "core_inv E s'"
proof -
  let ?p = "proposal_new E m" and ?t = "accept_threshold_of cfg"
  obtain p height where st: "validate_structure E ?p ?t = Ok ()" "\<not> pc_contains (sc_proposals s) (pr_hash ?p)"
    and h: "pc_height (sc_proposals s) = (Ok height :: (u64, 'p solid_error) outcome)" "height < pr_height ?p"
    and p: "adopt_orphans E ?t (map_of (sc_orphan_accepts s) (pr_hash ?p)) ?p = Ok p"
    and s': "s' = s\<lparr>sc_max_height := max (sc_max_height s) (pr_height ?p),
       sc_orphan_accepts := AList.delete (pr_hash ?p) (sc_orphan_accepts s), sc_proposals := pc_insert p (sc_proposals s)\<rparr>"
    using ok by (auto simp: receive_proposal_def Let_def bind_o_Ok_iff not_le split: if_splits)
  have orphans: "orphans_ok (sc_orphan_accepts s)" using inv by (simp add: core_inv_def)
  then have "ph_hash (pa_proposal a) = app_hash E (mf_content m)"
    if "map_of (sc_orphan_accepts s) (pr_hash ?p) = Some orph" "a \<in> set (or_accepts orph)" for orph a
    using that by (auto simp: orphans_ok_def)
  then have pok: "proposal_ok E (app_hash E (mf_content m)) p" "same_proposal p ?p"
    using adopt_orphans_ok [OF proposal_new_ok _ p] by blast+
  then have "pr_hash p = app_hash E (mf_content m)" by (simp add: same_proposal_def)
  then have "pc_inv E (pc_insert p (sc_proposals s))"
    using pc_inv_insert [of E "sc_proposals s" p] inv pok(1) by (simp add: core_inv_def)
  moreover have "orphans_ok (AList.delete (pr_hash ?p) (sc_orphan_accepts s))"
    using orphans by (auto simp: orphans_ok_def delete_conv')
  ultimately have "core_inv E s'" by (simp add: core_inv_def s')
  then show ?thesis
    using that [of height p] st h pok by (simp add: s' pc_contains_def)
qed

lemma receive_proposal_not_OutOfFuel: "receive_proposal E cfg m s \<noteq> Err OutOfFuel"
proof -
  have a: "fold_o (validate_manifest_accept E c) () as \<noteq> Err OutOfFuel" for c as
    by (induction as) (auto simp: validate_manifest_accept_def verify_signature_def bind_o_Err_iff)
  have "validate_structure E p t \<noteq> Err OutOfFuel" for p t
    using a by (auto simp: validate_structure_def bind_o_Err_iff)
  moreover have "fold_o (\<lambda>p a. bind_o (proposal_add_accept E p a t) (\<lambda>(p', _). Ok p')) p as \<noteq> Err OutOfFuel" for t p as
    by (induction as arbitrary: p) (auto simp: bind_o_Err_iff)
  then have "adopt_orphans E t orphan p \<noteq> Err OutOfFuel" for t orphan p
    by (simp add: adopt_orphans_def split: option.splits)
  ultimately show ?thesis by (auto simp: receive_proposal_def Let_def bind_o_Err_iff split: if_splits)
qed

lemma next_commit_cases:
  assumes inv: "pc_inv E c" and lc: "pc_get c (pc_last_confirmed c) = Some lc" and ok: "next_commit c = Ok (Some (p, q))"
  shows "pc_get c (pr_hash p) = Some p" "pc_get c (pr_hash q) = Some q" "pr_last_hash p = pc_last_confirmed c"
    "unat (pr_height p) = Suc (unat (pr_height lc))" "pr_last_hash q = pr_hash p"
    "unat (pr_height q) = Suc (unat (pr_height p))"
proof -
  have p: "next_pending_proposal c 0 = Ok (Some p)" and q: "next_pending_proposal c 1 = Ok (Some q)"
    using ok by (auto simp: next_commit_def bind_o_Ok_iff split: option.splits)
  show "pc_get c (pr_hash p) = Some p" "pc_get c (pr_hash q) = Some q" "pr_last_hash p = pc_last_confirmed c"
    "unat (pr_height p) = Suc (unat (pr_height lc))" "pr_last_hash q = pr_hash p" "unat (pr_height q) = Suc (unat (pr_height p))"
    using next_pending_mem [OF inv lc p] next_pending_mem [OF inv lc q] next_pending_parent [OF inv lc p]
      next_pending_pair [OF inv lc p q] by simp_all
qed

lemma pc_inv_reconfirm: "pc_inv E c \<Longrightarrow> pc_get c h \<noteq> None \<Longrightarrow> pc_inv E (c\<lparr>pc_last_confirmed := h\<rparr>)"
  by (simp add: pc_inv_def pc_get_def)

lemma pc_confirm_spec:
  assumes inv: "pc_inv E c" and p: "pc_get c h = Some p" and ok: "pc_confirm h c = Ok c'"
  shows "pc_inv E c'" "pc_last_confirmed c' = h" "pc_get c' h = Some p" "\<And>k q. pc_get c' k = Some q \<Longrightarrow> pc_get c k = Some q"
proof -
  let ?c = "c\<lparr>pc_last_confirmed := h\<rparr>"
  have inv': "pc_inv E ?c" using pc_inv_reconfirm [OF inv] p by simp
  have get: "pc_get ?c k = pc_get c k" for k by (simp add: pc_get_def)
  have lc: "pc_get ?c (pc_last_confirmed ?c) = Some p" using p by (simp add: get)
  note pu = purge_spec [OF inv' lc ok [unfolded pc_confirm_def]]
  show "pc_inv E c'" "pc_last_confirmed c' = h" using pu by simp_all
  show "pc_get c' h = Some p" using p by (simp add: pu(1) get kept_def)
  show "pc_get c k = Some q" if "pc_get c' k = Some q" for k q
    using that by (simp add: pu(1) get split: option.splits if_splits)
qed

lemma core_next_event_cases:
  assumes inv: "core_inv E s" and ok: "core_next_event E cfg now s = Ok (s', ev)"
  obtains (commit) p q where "ev = Some (Commit (pr_manifest p) (pr_manifest q))" "next_commit (sc_proposals s) = Ok (Some (p, q))"
      "pc_confirm (pr_hash p) (sc_proposals s) = Ok (sc_proposals s')" "sc_orphan_accepts s' = sc_orphan_accepts s"
  | (other) "step_ok E cfg s (s', ev)"
proof -
  have pinv: "pc_inv E (sc_proposals s)" using inv by (simp add: core_inv_def)
  obtain lc where lc: "pc_get (sc_proposals s) (pc_last_confirmed (sc_proposals s)) = Some lc"
    by (rule pc_inv_confirmed [OF pinv])
  obtain m where m: "next_commit (sc_proposals s) = Ok m" using ok by (auto simp: core_next_event_def bind_o_Ok_iff)
  show ?thesis
  proof (cases m)
    case (Some pq)
    obtain p q where pq: "pq = (p, q)" by (cases pq)
    note n = next_commit_cases [OF pinv lc m [unfolded Some pq]]
    have "app_hash E (pr_content p) = pr_hash p" using pc_inv_entry [OF pinv n(1)] by (simp add: proposal_ok_def)
    then show ?thesis
      using commit [of p q] ok m by (auto simp: core_next_event_def Some pq bind_o_Ok_iff)
  next
    case None
    consider "s' = s" "\<exists>h h'. ev = Some (OutOfSync h h')"
      | s1 cur where "validated_current_proposal E cfg s = Ok (s1, cur)" "s' = s1" "ev = None"
      | s1 cur where "validated_current_proposal E cfg s = Ok (s1, cur)" "get_next_accept_event accept_fuel E cfg now False s1 = Ok (s', ev)"
      using ok by (auto simp: core_next_event_def m None bind_o_Ok_iff split: if_splits)
    then have "step_ok E cfg s (s', ev)"
    proof cases
      case 1
      then show ?thesis using inv by (auto simp: step_ok_def)
    next
      case 2
      then show ?thesis using validated_current_spec [OF inv 2(1)] by (simp add: step_ok_def)
    next
      case 3
      note v = validated_current_spec [OF inv 3(1)]
      show ?thesis using step_ok_pre [OF v(2,5)] get_next_accept_event_ok [OF v(1)] 3(2) by (simp add: accept_fuel_Suc)
    qed
    then show ?thesis by (rule other)
  qed
qed

lemma core_skip_ok: "core_inv E s \<Longrightarrow> core_skip E cfg now s = Ok r \<Longrightarrow> step_ok E cfg s r"
  using get_next_accept_event_ok [of E s 0 cfg now True r]
  by (auto simp: core_skip_def bind_o_Ok_iff accept_fuel_Suc step_ok_def split: if_splits)

text \<open>\<open>receive_accept\<close> in two parts: the checks, which may change the maximum height, and the rest.\<close>

definition accept_checks ::
    "('p, 's) solid_env \<Rightarrow> solid_config \<Rightarrow> 'p proposal_accept \<Rightarrow> ('p, 's) solid_core \<Rightarrow> (proposal_hash, 'p, 's) core_result" where
  "accept_checks E cfg a s =
     bind_o (verify_signature E a) (\<lambda>_.
     bind_o (validated_current_proposal E cfg s) (\<lambda>(s1, current).
     bind_o (core_height s1) (\<lambda>height.
       Ok (if ph_height (pa_proposal a) > height then s1\<lparr>sc_max_height := ph_height (pa_proposal a)\<rparr> else s1,
           pr_hash current))))"

definition accept_rest ::
    "('p::linorder, 's) solid_env \<Rightarrow> solid_config \<Rightarrow> nat \<Rightarrow> 'p proposal_accept \<Rightarrow> proposal_hash \<Rightarrow> ('p, 's) solid_core \<Rightarrow>
     (('p, 's) solid_event option, 'p, 's) core_result" where
  "accept_rest E cfg now a current_hash s =
     bind_o (add_accept E cfg now a s) (\<lambda>(s3, event).
       if event \<noteq> None then Ok (s3, event)
       else bind_o (validated_current_proposal E cfg s3) (\<lambda>(s4, current).
         if current_hash \<noteq> pr_hash current then get_next_accept_event accept_fuel E cfg now False s4
         else Ok (s4, None)))"

lemma receive_accept_eq:
  "receive_accept E cfg now a s =
     (case accept_checks E cfg a s of
        Err e \<Rightarrow> (s, Err e)
      | Panic \<Rightarrow> (s, Panic)
      | Ok (s2, h) \<Rightarrow>
          (case (case pc_get (sc_proposals s2) (ph_hash (pa_proposal a)) of None \<Rightarrow> Ok () | Some p \<Rightarrow> validate_accept E p a) of
             Err e \<Rightarrow> (s2, Err e)
           | Panic \<Rightarrow> (s2, Panic)
           | Ok _ \<Rightarrow> (case accept_rest E cfg now a h s2 of
                         Ok (s5, event) \<Rightarrow> (s5, Ok event) | Err e \<Rightarrow> (s2, Err e) | Panic \<Rightarrow> (s2, Panic))))"
  unfolding receive_accept_def accept_checks_def accept_rest_def ..

lemma accept_checks_spec:
  fixes E :: "('p::linorder, 's) solid_env"
  assumes inv: "core_inv E s" and ok: "accept_checks E cfg a s = Ok (s2, h)"
  shows "core_inv E s2" "evolves (sc_proposals s) (sc_proposals s2)" "verify_signature E a = Ok ()"
    "\<And>height. pc_height (sc_proposals s) = (Ok height :: (u64, 'p solid_error) outcome) \<Longrightarrow> height < ph_height (pa_proposal a) \<Longrightarrow>
       sc_max_height s2 = ph_height (pa_proposal a)"
proof -
  obtain s1 cur height where v: "validated_current_proposal E cfg s = Ok (s1, cur)" and sig: "verify_signature E a = Ok ()"
    and hh: "pc_height (sc_proposals s1) = (Ok height :: (u64, 'p solid_error) outcome)"
    and s2: "s2 = (if ph_height (pa_proposal a) > height then s1\<lparr>sc_max_height := ph_height (pa_proposal a)\<rparr> else s1)"
    using ok by (auto simp: accept_checks_def bind_o_Ok_iff)
  note s1 = validated_current_spec [OF inv v]
  show "core_inv E s2" "evolves (sc_proposals s) (sc_proposals s2)" "verify_signature E a = Ok ()"
    using s1 sig by (simp_all add: s2 core_inv_def)
  have "pc_height (sc_proposals s1) = (pc_height (sc_proposals s) :: (u64, 'p solid_error) outcome)"
    using s1(1,2) by (intro evolves_confirmed [of E]) (simp_all add: core_inv_def)
  then show "sc_max_height s2 = ph_height (pa_proposal a)"
    if "pc_height (sc_proposals s) = (Ok height :: (u64, 'p solid_error) outcome)" "height < ph_height (pa_proposal a)" for height
    using that hh by (simp add: s2)
qed

lemma accept_checks_not_OutOfFuel: "core_inv E s \<Longrightarrow> accept_checks E cfg a s \<noteq> Err OutOfFuel"
  using validated_current_not_Err [of E s cfg OutOfFuel]
  by (auto simp: accept_checks_def bind_o_Err_iff verify_signature_def)

lemma accept_rest_ok:
  assumes inv: "core_inv E s" and ok: "accept_rest E cfg now a h s = Ok r"
  shows "step_ok E cfg s r"
proof -
  obtain s3 ev where add: "add_accept E cfg now a s = Ok (s3, ev)" using ok by (auto simp: accept_rest_def bind_o_Ok_iff)
  have s3: "step_ok E cfg s (s3, ev)" by (rule add_accept_ok [OF inv add])
  then have s3': "core_inv E s3" "evolves (sc_proposals s) (sc_proposals s3)" "sc_max_height s3 = sc_max_height s"
    by (simp_all add: step_ok_def)
  consider "r = (s3, ev)" | s4 cur where "validated_current_proposal E cfg s3 = Ok (s4, cur)" "r = (s4, None)"
    | s4 cur where "validated_current_proposal E cfg s3 = Ok (s4, cur)" "get_next_accept_event accept_fuel E cfg now False s4 = Ok r"
    using ok by (auto simp: accept_rest_def add bind_o_Ok_iff split: if_splits)
  then have "step_ok E cfg s r \<or> step_ok E cfg s3 r"
  proof cases
    case 2
    then show ?thesis using validated_current_spec [OF s3'(1) 2(1)] by (simp add: step_ok_def)
  next
    case 3
    note v = validated_current_spec [OF s3'(1) 3(1)]
    show ?thesis using step_ok_pre [OF v(2,5)] get_next_accept_event_ok [OF v(1)] 3(2) by (simp add: accept_fuel_Suc)
  qed (use s3 in simp)
  then show ?thesis using step_ok_pre [OF s3'(2,3)] by blast
qed

lemma accept_rest_not_Err:
  assumes inv: "core_inv E s"
  shows "accept_rest E cfg now a h s \<noteq> Err e"
proof
  assume err: "accept_rest E cfg now a h s = Err e"
  then obtain s3 where add: "add_accept E cfg now a s = Ok (s3, None)"
    using add_accept_not_Err [OF inv] by (auto simp: accept_rest_def bind_o_Err_iff split: if_splits)
  have s3: "core_inv E s3" using add_accept_ok [OF inv add] by (simp add: step_ok_def)
  then obtain s4 cur where v: "validated_current_proposal E cfg s3 = Ok (s4, cur)"
      "get_next_accept_event accept_fuel E cfg now False s4 = Err e"
    using err validated_current_not_Err [OF s3] by (auto simp: accept_rest_def add bind_o_Err_iff split: if_splits)
  then show False
    using get_next_accept_event_not_Err [OF validated_current_spec(1) [OF s3 v(1)]] by (simp add: accept_fuel_Suc)
qed

lemma receive_accept_spec:
  assumes inv: "core_inv E s" and r: "receive_accept E cfg now a s = (s', res)"
  shows "core_inv E s'" "evolves (sc_proposals s) (sc_proposals s')"
    "res = Ok ev \<Longrightarrow> event_ok E cfg (sc_proposals s) (sc_proposals s') ev" "res \<noteq> Err OutOfFuel"
proof -
  have "core_inv E s' \<and> evolves (sc_proposals s) (sc_proposals s') \<and>
      (\<forall>ev. res = Ok ev \<longrightarrow> event_ok E cfg (sc_proposals s) (sc_proposals s') ev) \<and> res \<noteq> Err OutOfFuel"
  proof (cases "accept_checks E cfg a s")
    case (Ok x)
    obtain s2 h where x: "x = (s2, h)" by (cases x)
    note s2 = accept_checks_spec [OF inv Ok [unfolded x]]
    let ?v = "case pc_get (sc_proposals s2) (ph_hash (pa_proposal a)) of None \<Rightarrow> Ok () | Some p \<Rightarrow> validate_accept E p a"
    have ve: "?v \<noteq> Err OutOfFuel"
      by (auto simp: validate_accept_def verify_signature_def bind_o_Err_iff split: option.splits)
    show ?thesis
    proof (cases "\<exists>y. ?v = Ok y \<and> (\<exists>s5 ev. accept_rest E cfg now a h s2 = Ok (s5, ev))")
      case True
      then obtain s5 ev where rest: "accept_rest E cfg now a h s2 = Ok (s5, ev)" "s' = s5" "res = Ok ev"
        using r by (auto simp: receive_accept_eq Ok x)
      have "step_ok E cfg s2 (s5, ev)" by (rule accept_rest_ok [OF s2(1) rest(1)])
      moreover have "event_ok E cfg (sc_proposals s) (sc_proposals s5) ev"
        if "event_ok E cfg (sc_proposals s2) (sc_proposals s5) ev"
        using that own_accept_pre [OF s2(2)]
        by (cases "(E, cfg, sc_proposals s, sc_proposals s5, ev)" rule: event_ok.cases) auto
      ultimately show ?thesis using evolves_trans [OF s2(2)] by (auto simp: step_ok_def rest)
    next
      case False
      then have "s' = s2 \<and> (\<forall>ev. res \<noteq> Ok ev) \<and> res \<noteq> Err OutOfFuel"
        using r ve accept_rest_not_Err [OF s2(1), of cfg now a h] by (auto simp: receive_accept_eq Ok x split: outcome.splits)
      then show ?thesis using s2 by simp
    qed
  qed (use r inv accept_checks_not_OutOfFuel [OF inv] in \<open>auto simp: receive_accept_eq\<close>)
  then show "core_inv E s'" "evolves (sc_proposals s) (sc_proposals s')"
    "res = Ok ev \<Longrightarrow> event_ok E cfg (sc_proposals s) (sc_proposals s') ev" "res \<noteq> Err OutOfFuel" by blast+
qed

section \<open>Runs\<close>

text \<open>
  \<open>solid_run E cfg m0 s log\<close>: the core \<open>s\<close> is reached from the confirmed manifest \<open>m0\<close> by calls that did
  not panic, in any order; \<open>log\<close> lists the manifests of the commit events after \<open>m0\<close>.
\<close>

fun log_event :: "('p, 's) solid_event option \<Rightarrow> ('p, 's) manifest list \<Rightarrow> ('p, 's) manifest list" where
  "log_event (Some (Commit m m')) log = log @ [m]"
| "log_event ev log = log"

inductive solid_run ::
    "('p::linorder, 's) solid_env \<Rightarrow> solid_config \<Rightarrow> ('p, 's) manifest \<Rightarrow> ('p, 's) solid_core \<Rightarrow> ('p, 's) manifest list \<Rightarrow> bool"
  for E cfg m0 where
  start: "solid_run E cfg m0 (core_with_last_confirmed E cfg m0) [m0]"
| proposal: "solid_run E cfg m0 s log \<Longrightarrow> receive_proposal E cfg m s = Ok s' \<Longrightarrow> solid_run E cfg m0 s' log"
| accept: "solid_run E cfg m0 s log \<Longrightarrow> receive_accept E cfg now a s = (s', Ok ev) \<Longrightarrow>
    solid_run E cfg m0 s' (log_event ev log)"
| refused: "solid_run E cfg m0 s log \<Longrightarrow> receive_accept E cfg now a s = (s', Err e) \<Longrightarrow> solid_run E cfg m0 s' log"
| event: "solid_run E cfg m0 s log \<Longrightarrow> core_next_event E cfg now s = Ok (s', ev) \<Longrightarrow>
    solid_run E cfg m0 s' (log_event ev log)"
| skip: "solid_run E cfg m0 s log \<Longrightarrow> core_skip E cfg now s = Ok (s', ev) \<Longrightarrow>
    solid_run E cfg m0 s' (log_event ev log)"

definition extends :: "('p, 's) solid_env \<Rightarrow> ('p, 's) manifest \<Rightarrow> ('p, 's) manifest \<Rightarrow> bool" where
  "extends E m m' \<longleftrightarrow> mc_last_proposal_hash (mf_content m') = app_hash E (mf_content m) \<and>
     unat (mc_height (mf_content m')) = Suc (unat (mc_height (mf_content m)))"

definition structured :: "('p, 's) solid_env \<Rightarrow> solid_config \<Rightarrow> ('p, 's) manifest \<Rightarrow> bool" where
  "structured E cfg m \<longleftrightarrow> validate_structure E (proposal_new E m) (accept_threshold_of cfg) = Ok ()"

definition run_inv :: "('p::linorder, 's) solid_env \<Rightarrow> solid_config \<Rightarrow> ('p, 's) manifest \<Rightarrow> ('p, 's) solid_core \<Rightarrow>
    ('p, 's) manifest list \<Rightarrow> bool" where
  "run_inv E cfg m0 s log \<longleftrightarrow> core_inv E s \<and> log \<noteq> [] \<and> hd log = m0 \<and> successively (extends E) log \<and>
     (\<forall>m \<in> set (tl log). structured E cfg m) \<and>
     unat (mc_height (mf_content m0)) \<le> unat (mc_height (mf_content (last log))) \<and>
     (\<exists>lc. pc_get (sc_proposals s) (pc_last_confirmed (sc_proposals s)) = Some lc \<and> pr_manifest lc = last log) \<and>
     (\<forall>h p. pc_get (sc_proposals s) h = Some p \<longrightarrow> pr_manifest p = m0 \<or> structured E cfg (pr_manifest p))"

lemma run_inv_evolves:
  assumes inv: "run_inv E cfg m0 s log" and c: "core_inv E s'" and evo: "evolves (sc_proposals s) (sc_proposals s')"
  shows "run_inv E cfg m0 s' log"
proof -
  have origin: "\<exists>q. pc_get (sc_proposals s) h = Some q \<and> pr_manifest q = pr_manifest p"
    if "pc_get (sc_proposals s') h = Some p" for h p
    using evo that unfolding evolves_def same_proposal_def by metis
  obtain lc' where lc': "pc_get (sc_proposals s') (pc_last_confirmed (sc_proposals s')) = Some lc'"
    using c pc_inv_confirmed unfolding core_inv_def by blast
  have "pc_last_confirmed (sc_proposals s') = pc_last_confirmed (sc_proposals s)" using evo by (simp add: evolves_def)
  then have "pr_manifest lc' = last log" using origin [OF lc'] inv by (auto simp: run_inv_def)
  moreover have "pr_manifest p = m0 \<or> structured E cfg (pr_manifest p)" if "pc_get (sc_proposals s') h = Some p" for h p
    using origin [OF that] inv unfolding run_inv_def by metis
  ultimately show ?thesis using inv c lc' unfolding run_inv_def by blast
qed

lemma event_ok_log: "event_ok E cfg c c' ev \<Longrightarrow> log_event ev log = log"
  by (cases "(E, cfg, c, c', ev)" rule: event_ok.cases) auto

lemma run_inv_step:
  assumes "run_inv E cfg m0 s log" and "step_ok E cfg s (s', ev)"
  shows "run_inv E cfg m0 s' (log_event ev log)"
proof -
  have "core_inv E s'" "evolves (sc_proposals s) (sc_proposals s')" "event_ok E cfg (sc_proposals s) (sc_proposals s') ev"
    using assms(2) by (simp_all add: step_ok_def)
  then show ?thesis using run_inv_evolves [OF assms(1)] event_ok_log by metis
qed

lemma run_inv_start: "run_inv E cfg m0 (core_with_last_confirmed E cfg m0) [m0]"
proof -
  have "pc_inv E (pc_new (proposal_new E m0) (max_proposal_history cfg))"
    using proposal_new_ok [of E m0] by (intro pc_inv_new) simp
  then show ?thesis
    by (auto simp: run_inv_def core_inv_def core_with_last_confirmed_def orphans_ok_def pc_new_def pc_get_def split: if_splits)
qed

lemma run_inv_proposal:
  assumes inv: "run_inv E cfg m0 s log" and ok: "receive_proposal E cfg m s = Ok s'"
  shows "run_inv E cfg m0 s' log"
proof -
  have c: "core_inv E s" using inv by (simp add: run_inv_def)
  show ?thesis
  proof (rule receive_proposal_cases [OF c ok])
    fix p
    let ?h = "app_hash E (mf_content m)"
    assume st: "validate_structure E (proposal_new E m) (accept_threshold_of cfg) = Ok ()"
      and new: "pc_get (sc_proposals s) ?h = None" and p: "same_proposal p (proposal_new E m)"
      and s': "sc_proposals s' = pc_insert p (sc_proposals s)" and c': "core_inv E s'"
    have get: "pc_get (sc_proposals s') = (pc_get (sc_proposals s))(?h \<mapsto> p)" "pr_manifest p = m"
      using p by (simp_all add: s' pc_get_insert same_proposal_def)
    obtain lc where lc: "pc_get (sc_proposals s) (pc_last_confirmed (sc_proposals s)) = Some lc" "pr_manifest lc = last log"
      using inv by (auto simp: run_inv_def)
    have "pc_get (sc_proposals s') (pc_last_confirmed (sc_proposals s')) = Some lc"
      using lc new by (auto simp: get(1)) (simp_all add: s')
    moreover have "pr_manifest q = m0 \<or> structured E cfg (pr_manifest q)" if "pc_get (sc_proposals s') k = Some q" for k q
      using that inv st get unfolding run_inv_def structured_def by (auto split: if_splits)
    ultimately show ?thesis using inv c' lc unfolding run_inv_def by blast
  qed
qed

lemma run_inv_commit:
  assumes inv: "run_inv E cfg m0 s log" and n: "next_commit (sc_proposals s) = Ok (Some (p, q))"
    and conf: "pc_confirm (pr_hash p) (sc_proposals s) = Ok (sc_proposals s')" and orph: "sc_orphan_accepts s' = sc_orphan_accepts s"
  shows "run_inv E cfg m0 s' (log @ [pr_manifest p])"
proof -
  have c: "core_inv E s" and pinv: "pc_inv E (sc_proposals s)" using inv by (simp_all add: run_inv_def core_inv_def)
  obtain lc where lc: "pc_get (sc_proposals s) (pc_last_confirmed (sc_proposals s)) = Some lc" "pr_manifest lc = last log"
    using inv by (auto simp: run_inv_def)
  note nc = next_commit_cases [OF pinv lc(1) n]
  note cs = pc_confirm_spec [OF pinv nc(1) conf]
  have "app_hash E (pr_content lc) = pc_last_confirmed (sc_proposals s)"
    using pc_inv_entry [OF pinv lc(1)] by (simp add: proposal_ok_def)
  then have ext: "extends E (last log) (pr_manifest p)" using nc(3,4) lc(2) by (simp add: extends_def)
  have "pr_manifest p \<noteq> m0" using ext inv by (auto simp: extends_def run_inv_def)
  then have "structured E cfg (pr_manifest p)" using inv nc(1) unfolding run_inv_def by blast
  moreover have "core_inv E s'" using cs(1) c orph by (simp add: core_inv_def)
  moreover have "pr_manifest x = m0 \<or> structured E cfg (pr_manifest x)" if "pc_get (sc_proposals s') k = Some x" for k x
    using cs(4) [OF that] inv unfolding run_inv_def by blast
  moreover have "successively (extends E) (log @ [pr_manifest p])"
    using inv ext by (auto simp: run_inv_def successively_append_iff)
  moreover have "unat (mc_height (mf_content m0)) \<le> unat (pr_height p)"
    using inv ext by (simp add: run_inv_def extends_def)
  ultimately show ?thesis using inv cs(2,3) unfolding run_inv_def by auto
qed

lemma run_inv: "solid_run E cfg m0 s log \<Longrightarrow> run_inv E cfg m0 s log"
proof (induction rule: solid_run.induct)
  case start
  then show ?case by (rule run_inv_start)
next
  case (proposal s log m s')
  then show ?case by (blast intro: run_inv_proposal)
next
  case (accept s log now a s' ev)
  have "core_inv E s" using accept.IH by (simp add: run_inv_def)
  note r = receive_accept_spec [OF this accept.hyps(2)]
  show ?case using run_inv_evolves [OF accept.IH r(1,2)] event_ok_log [OF r(3)] by simp
next
  case (refused s log now a s' e)
  have "core_inv E s" using refused.IH by (simp add: run_inv_def)
  note r = receive_accept_spec [OF this refused.hyps(2)]
  show ?case by (rule run_inv_evolves [OF refused.IH r(1,2)])
next
  case (event s log now s' ev)
  have c: "core_inv E s" using event.IH by (simp add: run_inv_def)
  show ?case using c event.hyps(2)
  proof (cases rule: core_next_event_cases)
    case (commit p q)
    then show ?thesis using run_inv_commit [OF event.IH] by simp
  next
    case other
    then show ?thesis by (rule run_inv_step [OF event.IH])
  qed
next
  case (skip s log now s' ev)
  have c: "core_inv E s" using skip.IH by (simp add: run_inv_def)
  show ?case by (rule run_inv_step [OF skip.IH core_skip_ok [OF c skip.hyps(2)]])
qed

end
