(* ===== verification/Solid_Progress.thy ===== *)
theory Solid_Progress
  imports Solid_Theorems
begin

text \<open>
  Progress of the core. The only panics of the walks are overflows of heights; with heights away from
  the end of the 64-bit range every walk returns, and a line of two pending proposals is committed.
\<close>

definition sane :: "('p, 's) proposal_cache \<Rightarrow> bool" where
  "sane c \<longleftrightarrow> (\<forall>h p. pc_get c h = Some p \<longrightarrow> unat (pr_height p) + max 2 (unat (pc_cache_size c)) < 2 ^ 64)"

lemma sane_add:
  assumes "sane c" and "pc_get c h = Some p" and "unat k \<le> 2 \<or> k = pc_cache_size c"
  shows "\<exists>x. add_u64 (pr_height p) k = Ok x"
  using assms unfolding sane_def add_u64_nat by force

lemma walk_total:
  assumes "sane c"
  shows "\<exists>b. is_decendent_walk c d p = Ok b"
  using assms
proof (induction c d p rule: is_decendent_walk.induct)
  case (1 c d p)
  show ?case
  proof (cases "pr_hash p \<noteq> d \<and> pc_get c (pr_last_hash p) \<noteq> None")
    case True
    then obtain q where q: "pr_hash p \<noteq> d" "pc_get c (pr_last_hash p) = Some q" by auto
    then obtain h where h: "add_u64 (pr_height q) 1 = (Ok h :: (u64, 'a solid_error) outcome)"
      using sane_add [OF 1(2) q(2), of 1] by auto
    then show ?thesis
      using 1(1) [OF q h] 1(2) by (subst is_decendent_walk.simps) (auto simp: q)
  qed (subst is_decendent_walk.simps, auto)
qed

lemma is_decendent_total: "sane c \<Longrightarrow> \<exists>b. is_decendent c d h = Ok b"
  using walk_total by (auto simp: is_decendent_def split: option.splits)

lemma filter_o_total: "(\<And>x. x \<in> set xs \<Longrightarrow> \<exists>b. f x = Ok b) \<Longrightarrow> \<exists>ys. filter_o f xs = Ok ys"
proof (induction xs)
  case (Cons x xs)
  then obtain b ys where "f x = Ok b" "filter_o f xs = Ok ys" by (metis list.set_intros)
  then show ?case by simp
qed simp

lemma max_continuous_total:
  assumes "pc_inv E c" and "sane c"
  shows "\<exists>m. max_continuous_proposal c = Ok m"
proof -
  obtain lc where lc: "pc_get c (pc_last_confirmed c) = Some lc" by (rule pc_inv_confirmed [OF assms(1)])
  have "\<exists>ys. filter_o (\<lambda>p. if pr_height lc < pr_height p then is_decendent c (pc_last_confirmed c) (pr_hash p) else Ok False)
      (map snd (pc_proposals c)) = Ok ys"
    using is_decendent_total [OF assms(2)] by (intro filter_o_total) auto
  then show ?thesis by (auto simp: max_continuous_proposal_def confirmed_results [OF lc])
qed

lemma next_pending_total:
  assumes inv: "pc_inv E c" and sane: "sane c" and off: "off = 0 \<or> off = 1"
  shows "\<exists>r. next_pending_proposal c off = Ok r"
proof -
  obtain lc where lc: "pc_get c (pc_last_confirmed c) = Some lc" by (rule pc_inv_confirmed [OF inv])
  obtain m where m: "max_continuous_proposal c = Ok m" using max_continuous_total [OF inv sane] by blast
  have "unat (pr_height lc) + 2 < 2 ^ 64" using sane lc unfolding sane_def by force
  then obtain t1 where t1: "add_u64 (pr_height lc) 1 = (Ok t1 :: (u64, 'a solid_error) outcome)" "unat t1 = unat (pr_height lc) + 1"
    using sane_add [OF sane lc, of 1] by (metis add_u64_Ok_iff less_or_eq_imp_le one_le_numeral unsigned_1)
  then obtain t where t: "add_u64 t1 off = (Ok t :: (u64, 'a solid_error) outcome)"
    using \<open>unat (pr_height lc) + 2 < 2 ^ 64\<close> off by (auto simp: add_u64_nat)
  show ?thesis
  proof (cases m)
    case (Some p)
    show ?thesis
    proof (cases "unat (pr_height lc) + 1 + unat off \<le> unat (pr_height p)")
      case True
      then show ?thesis using next_pending_cases [OF inv lc m [unfolded Some]] by blast
    next
      case False
      then have "pr_height p < t" using t t1 by (simp add: add_u64_Ok_iff word_less_nat_alt)
      then show ?thesis by (simp add: next_pending_proposal_def m Some confirmed_results [OF lc] t1 t)
    qed
  qed (simp add: next_pending_proposal_def m)
qed

lemma pc_confirm_total:
  assumes inv: "pc_inv E c" and sane: "sane c" and p: "pc_get c h = Some p"
  shows "\<exists>c'. pc_confirm h c = Ok c'"
proof -
  let ?c = "c\<lparr>pc_last_confirmed := h\<rparr>"
  have get: "pc_get ?c k = pc_get c k" for k by (simp add: pc_get_def)
  have sane': "sane ?c" using sane by (simp add: sane_def get)
  have d: "distinct (map fst (pc_proposals c))" using inv by (simp add: pc_inv_def)
  have "\<exists>b. purge_entry ?c (pr_height p) x = Ok b" if x: "x \<in> set (pc_proposals c)" for x
  proof -
    obtain k q where kq: "x = (k, q)" by (cases x)
    have "pc_get ?c k = Some q" using x d by (simp add: get kq pc_get_def map_of_is_SomeI)
    then obtain y where "add_u64 (pr_height q) (pc_cache_size ?c) = (Ok y :: (u64, 'a solid_error) outcome)"
      using sane_add [OF sane', of k q "pc_cache_size ?c"] by blast
    moreover obtain b where "is_decendent ?c (pc_last_confirmed ?c) (pr_hash q) = Ok b"
      using is_decendent_total [OF sane'] by blast
    ultimately show ?thesis by (auto simp: purge_entry_def kq)
  qed
  then obtain es where "filter_o (purge_entry ?c (pr_height p)) (pc_proposals c) = Ok es"
    using filter_o_total [of "pc_proposals c"] by blast
  then show ?thesis using p by (simp add: pc_confirm_def purge_def pc_height_def get)
qed

lemma ready_commits:
  assumes inv: "core_inv E s" and sane: "sane (sc_proposals s)"
    and lc: "pc_get (sc_proposals s) (pc_last_confirmed (sc_proposals s)) = Some lc"
    and x: "x \<in> pending (sc_proposals s) lc" "unat (pr_height lc) + 2 \<le> unat (pr_height x)"
  shows "\<exists>s' p q. core_next_event E cfg now s = Ok (s', Some (Commit (pr_manifest p) (pr_manifest q))) \<and>
     next_commit (sc_proposals s) = Ok (Some (p, q)) \<and> pc_confirm (pr_hash p) (sc_proposals s) = Ok (sc_proposals s')"
proof -
  let ?c = "sc_proposals s"
  have pinv: "pc_inv E ?c" using inv by (simp add: core_inv_def)
  obtain r where r: "next_pending_proposal ?c 0 = Ok r" using next_pending_total [OF pinv sane] by blast
  obtain r' where r': "next_pending_proposal ?c 1 = Ok r'" using next_pending_total [OF pinv sane] by blast
  obtain p where p: "r = Some p" using pending_deep_iff [OF pinv lc r r] x by fastforce
  obtain q where q: "r' = Some q" using pending_deep_iff [OF pinv lc r r'] x by fastforce
  have n: "next_commit ?c = Ok (Some (p, q))" using r r' p q by (simp add: next_commit_def)
  note nc = next_commit_cases [OF pinv lc n]
  have "app_hash E (pr_content p) = pr_hash p" using pc_inv_entry [OF pinv nc(1)] by (simp add: proposal_ok_def)
  moreover obtain c' where "pc_confirm (pr_hash p) ?c = Ok c'" using pc_confirm_total [OF pinv sane nc(1)] by blast
  ultimately show ?thesis using n by (auto simp: core_next_event_def)
qed

section \<open>Two proposals on a fresh core\<close>

lemma receive_fresh:
  assumes "structured E cfg m" and "pc_get (sc_proposals s) (app_hash E (mf_content m)) = None"
    and "pc_height (sc_proposals s) = (Ok h :: (u64, 'p solid_error) outcome)" and "h < mc_height (mf_content m)"
    and "sc_orphan_accepts s = []"
  shows "receive_proposal (E :: ('p::linorder, 's) solid_env) cfg m s =
    Ok (s\<lparr>sc_max_height := max (sc_max_height s) (mc_height (mf_content m)),
          sc_proposals := pc_insert (proposal_new E m) (sc_proposals s)\<rparr>)"
  using assms by (simp add: receive_proposal_def structured_def Let_def pc_contains_def adopt_orphans_def)

lemma extends_less: "extends E m m' \<Longrightarrow> mc_height (mf_content m) < mc_height (mf_content m')"
  by (simp add: extends_def word_less_nat_alt)

lemma two_proposals:
  fixes E :: "('p::linorder, 's) solid_env"
  assumes e: "extends E m0 m1" "extends E m1 m2" and st: "structured E cfg m1" "structured E cfg m2"
    and d: "distinct [app_hash E (mf_content m0), app_hash E (mf_content m1), app_hash E (mf_content m2)]"
    and bound: "unat (mc_height (mf_content m2)) + max 2 (unat (max_proposal_history cfg)) < 2 ^ 64"
  shows "\<exists>s1 s2 s3. receive_proposal E cfg m1 (core_with_last_confirmed E cfg m0) = Ok s1 \<and>
     receive_proposal E cfg m2 s1 = Ok s2 \<and> core_next_event E cfg now s2 = Ok (s3, Some (Commit m1 m2)) \<and>
     solid_run E cfg m0 s2 [m0] \<and> solid_run E cfg m0 s3 [m0, m1] \<and> sane (sc_proposals s2) \<and>
     pc_get (sc_proposals s2) (pc_last_confirmed (sc_proposals s2)) = Some (proposal_new E m0) \<and>
     proposal_new E m2 \<in> pending (sc_proposals s2) (proposal_new E m0)"
proof -
  let ?p0 = "proposal_new E m0" and ?p1 = "proposal_new E m1" and ?p2 = "proposal_new E m2"
  let ?h = "\<lambda>m. app_hash E (mf_content m)" and ?s0 = "core_with_last_confirmed E cfg m0"
  let ?c0 = "pc_new ?p0 (max_proposal_history cfg)"
  let ?c1 = "pc_insert ?p1 ?c0" and ?c2 = "pc_insert ?p2 (pc_insert ?p1 ?c0)"
  have get0: "pc_get ?c0 = [?h m0 \<mapsto> ?p0]" by (auto simp: pc_get_def pc_new_def)
  then have get1: "pc_get ?c1 = [?h m0 \<mapsto> ?p0, ?h m1 \<mapsto> ?p1]" and
    get2: "pc_get ?c2 = [?h m0 \<mapsto> ?p0, ?h m1 \<mapsto> ?p1, ?h m2 \<mapsto> ?p2]"
    by (simp_all add: pc_get_insert)
  have last: "pc_last_confirmed ?c0 = ?h m0" by (simp add: pc_new_def)
  obtain s1 where s1: "receive_proposal E cfg m1 ?s0 = Ok s1" "sc_proposals s1 = ?c1" "sc_orphan_accepts s1 = []"
    using receive_fresh [OF st(1), where s = ?s0 and h = "mc_height (mf_content m0)"] d extends_less [OF e(1)] get0 last
    by (auto simp: core_with_last_confirmed_def pc_height_def)
  obtain s2 where s2: "receive_proposal E cfg m2 s1 = Ok s2" "sc_proposals s2 = ?c2"
    using receive_fresh [OF st(2), where s = s1 and h = "mc_height (mf_content m0)"] d extends_less [OF e(1)]
      extends_less [OF e(2)] get1 last s1(2,3)
    by (auto simp: pc_height_def)
  have run: "solid_run E cfg m0 s2 [m0]"
    by (rule solid_run.proposal [OF solid_run.proposal [OF solid_run.start s1(1)] s2(1)])
  then have inv: "core_inv E s2" using run_inv unfolding run_inv_def by blast
  have lc: "pc_get ?c2 (pc_last_confirmed ?c2) = Some ?p0" using d by (simp add: get2 last)
  have n: "unat (pr_height ?p1) = Suc (unat (pr_height ?p0))" "unat (pr_height ?p2) = Suc (unat (pr_height ?p1))"
    using e by (simp_all add: extends_def)
  have l: "pr_last_hash ?p1 = ?h m0" "pr_last_hash ?p2 = ?h m1" using e by (simp_all add: extends_def)
  have "pc_get ?c2 (pr_last_hash ?p1) = Some ?p0" "pc_get ?c2 (pr_last_hash ?p2) = Some ?p1"
    using d unfolding l get2 by simp_all
  then have "descends ?c2 ?p2 ?p0" using n by (blast intro: descends.intros)
  moreover have "pc_get ?c2 (?h m2) = Some ?p2" by (simp add: get2)
  ultimately have pend: "?p2 \<in> pending ?c2 ?p0"
    using n pc_get_values [of ?c2 "?h m2" ?p2] by (simp add: pending_def word_less_nat_alt)
  have size2: "pc_cache_size ?c2 = max_proposal_history cfg" by (simp add: pc_insert_def pc_new_def)
  have "unat (pr_height p) \<le> unat (pr_height ?p2)" if "pc_get ?c2 k = Some p" for k p
    using that n by (auto simp: get2 split: if_splits)
  then have sane2: "sane ?c2" using bound unfolding sane_def size2 by (fastforce dest: order.strict_trans1 [rotated])
  obtain s3 p q where ev: "core_next_event E cfg now s2 = Ok (s3, Some (Commit (pr_manifest p) (pr_manifest q)))"
    and nc: "next_commit ?c2 = Ok (Some (p, q))"
    using ready_commits [OF inv, of ?p0 ?p2 cfg now] lc pend n sane2 unfolding s2(2) by auto
  have "pc_inv E ?c2" using inv s2(2) by (simp add: core_inv_def)
  note nc = next_commit_cases [OF this lc nc]
  have "p = ?p1" "q = ?p2" using nc n by (auto simp: get2 split: if_splits)
  then have "core_next_event E cfg now s2 = Ok (s3, Some (Commit m1 m2))" using ev by simp
  moreover from this have "solid_run E cfg m0 s3 [m0, m1]" using solid_run.event [OF run] by fastforce
  ultimately show ?thesis using s1(1) s2(1) run sane2 lc pend unfolding s2(2) [symmetric] by blast
qed

section \<open>A core with its confirmed proposal only\<close>

definition fresh :: "solid_config \<Rightarrow> (proposal_hash \<times> 'p proposal_orphan) list \<Rightarrow> ('p, 's) proposal \<Rightarrow> u64 \<Rightarrow> ('p, 's) solid_core" where
  "fresh cfg os p h = \<lparr>sc_proposals = pc_new p (max_proposal_history cfg), sc_orphan_accepts = os, sc_max_height = h\<rparr>"

lemma fresh_get: "pc_get (sc_proposals (fresh cfg os p h)) k = (if k = pr_hash p then Some p else None)"
  by (simp add: fresh_def pc_get_def pc_new_def)

lemma fresh_confirmed: "pc_get (pc_new p sz) (pc_last_confirmed (pc_new p sz)) = Some p"
  by (simp add: pc_get_def pc_new_def)

lemma fresh_pending: "next_pending_proposal (pc_new p sz) off = Ok None"
  by (simp add: next_pending_proposal_def max_continuous_proposal_def confirmed_results [OF fresh_confirmed])
     (simp add: pc_new_def max_proposal_def)

lemma fresh_commit: "next_commit (sc_proposals (fresh cfg os p h)) = Ok None"
  by (simp add: next_commit_def fresh_def fresh_pending)

lemma fresh_update: "pr_hash q = pr_hash p \<Longrightarrow> update_proposal (pr_hash p) q (fresh cfg os p h) = fresh cfg os q h"
  by (simp add: update_proposal_def fresh_def pc_update_def pc_new_def)

lemma fresh_height: "core_height (fresh cfg os p h) = Ok (pr_height p)"
  by (simp add: fresh_def confirmed_results [OF fresh_confirmed])

lemma fresh_core: "core_with_last_confirmed E cfg m = fresh cfg [] (proposal_new E m) (mc_height (mf_content m))"
  by (simp add: core_with_last_confirmed_def fresh_def)

lemma fresh_current:
  fixes p :: "('p, 's) proposal"
  shows "validated_current_proposal E cfg (fresh cfg os p h) =
    Ok (fresh cfg os (p\<lparr>pr_is_validated := True\<rparr>) h, p\<lparr>pr_is_validated := True\<rparr>)"
proof -
  let ?c = "pc_new p (max_proposal_history cfg)"
  obtain r where r: "highest_skip_with_inverse p (accept_threshold_of cfg) = (Ok r :: (u64 option, 'p solid_error) outcome)"
    by (rule highest_skip_result)
  have "highest_next_pending (accept_threshold_of cfg) ?c = (Ok None :: (('p, 's) proposal option, 'p solid_error) outcome)"
    unfolding highest_next_pending_eq [OF fresh_confirmed r] by (simp add: fresh_pending)
  then show ?thesis
    by (simp add: validated_current_proposal_def validated_current_proposal_hash_def fresh_def confirmed_results [OF fresh_confirmed] Let_def)
       (simp add: pc_get_def pc_new_def pc_update_def Let_def)
qed

text \<open>The first event after genesis: an accept of the confirmed proposal, counted at once.\<close>

lemma fresh_event:
  fixes E :: "('p::linorder, 's) solid_env" and m :: "('p, 's) manifest"
  assumes m: "mc_height (mf_content m) = 0" and leader: "get_leader_for_skip E (mf_content m) 0 = Ok l"
    and vote: "validate_accept E (proposal_new E m) (own_accept E (proposal_new E m) 0 l) = Ok ()"
  shows "\<exists>s. core_next_event E cfg now (core_with_last_confirmed E cfg m) =
    Ok (s, Some (if threshold (accept_threshold_of cfg) (length (mc_validators (mf_content m))) = 1 \<and> l = signer_peer E
                 then Propose (app_hash E (mf_content m)) 1 0 [own_accept E (proposal_new E m) 0 l]
                 else AcceptEvent (own_accept E (proposal_new E m) 0 l)))"
proof -
  let ?p = "proposal_new E m" and ?a = "own_accept E (proposal_new E m) 0 l"
  let ?v = "?p\<lparr>pr_is_validated := True\<rparr>"
  let ?q = "?v\<lparr>pr_skips_sent := 0, pr_initial_accept_sent := True\<rparr>"
  let ?r = "?q\<lparr>pr_incoming_accepts := [(0, [(signer_peer E, ?a)])]\<rparr>"
  have one: "add_u64 0 1 = (Ok 1 :: (u64, 'p solid_error) outcome)" by (simp add: add_u64_Ok_iff)
  have sync: "core_is_out_of_sync (fresh cfg [] p 0) = (Ok False :: (bool, 'p solid_error) outcome)" if "pr_height p = 0" for p :: "('p, 's) proposal"
    using one that by (simp add: core_is_out_of_sync_def fresh_height) (simp add: fresh_def)
  have own: "own_accept E ?v 0 l = ?a" by (simp add: own_accept_def)
  have vq: "validate_accept E ?q ?a = Ok ()" using vote validate_accept_content [of ?q ?p E ?a] by simp
  have add: "proposal_add_accept E ?q ?a t = Ok (?r, threshold t (length (mc_validators (mf_content m))) = 1)" for t
    by (simp add: proposal_add_accept_def vq accepts_at_def Let_def accept_threshold_breached_def is_exact_breach_def bt_get_def)
       (simp add: proposal_new_def)
  have "get_next_accept_event accept_fuel E cfg now False (fresh cfg [] ?v 0) =
      bind_o (add_accept_with E cfg now (get_next_accept_event 0 E cfg now False) ?a (fresh cfg [] ?q 0)) (\<lambda>(s4, event).
        Ok (s4, case event of Some e \<Rightarrow> Some e | None \<Rightarrow> Some (AcceptEvent ?a)))"
    using leader fresh_update [of ?q ?v]
    by (simp add: accept_fuel_Suc next_accept_with_def fresh_current next_accept_skip_def own_accept_def Let_def
        cong: option.case_cong)
  moreover have "validated_current_proposal E cfg (fresh cfg [] ?q 0) = Ok (fresh cfg [] ?q 0, ?q)"
  proof -
    have "?q\<lparr>pr_is_validated := True\<rparr> = ?q" by (rule proposal.equality) simp_all
    then show ?thesis using fresh_current [of E cfg "[]" ?q 0] by (simp only:)
  qed
  then have "add_accept_with E cfg now k ?a (fresh cfg [] ?q 0) =
      add_known_accept E cfg k False (pr_hash ?q) ?a ?q (fresh cfg [] ?q 0)" for k
    using m by (simp add: add_accept_with_def fresh_height sync fresh_get)
  moreover have "add_known_accept E cfg k False (pr_hash ?q) ?a ?q (fresh cfg [] ?q 0) =
      Ok (fresh cfg [] ?r 0, if threshold (accept_threshold_of cfg) (length (mc_validators (mf_content m))) = 1 \<and> l = signer_peer E
           then Some (Propose (app_hash E (mf_content m)) 1 0 [?a]) else None)" for k
    using m leader one fresh_update [of ?r ?q cfg "[]" 0]
    by (auto simp: add_known_accept_def add Let_def accepts_for_skip_def bt_get_def)
  ultimately show ?thesis
    using m by (simp add: fresh_core core_next_event_def fresh_commit sync fresh_current)
qed

section \<open>An example network\<close>

definition demo_solid :: "bool \<Rightarrow> (nat, unit) solid_env" where
  "demo_solid contents =
     \<lparr>app_hash = (\<lambda>m. [ucast (mc_height m), ucast (mc_skips m)]), app_validate_structure = (\<lambda>_. True),
      app_validate_contents = (\<lambda>_ _. contents), app_genesis = (), peer_verify = (\<lambda>_ _ _. True),
      peer_to_u256 = of_nat, signer_peer = 1, signer_sign = id, keccak_256 = id, sha_256 = id\<rparr>"

definition demo_config :: solid_config where
  "demo_config = \<lparr>max_proposal_history = 1024, accept_threshold_of = MoreThanTwoThirds, missing_proposal_timeout = 5000,
     skip_timeout = 5000, out_of_sync_timeout = 60000\<rparr>"

definition demo_vote :: "nat \<Rightarrow> u64 \<Rightarrow> nat proposal_accept" where
  "demo_vote v h = \<lparr>pa_leader_id = v, pa_proposal = \<lparr>ph_hash = [ucast h, 0], ph_height = h, ph_skips = 0\<rparr>,
     pa_skips = 0, pa_from = v, pa_signature = []\<rparr>"

definition demo_manifest :: "nat \<Rightarrow> nat list \<Rightarrow> u64 \<Rightarrow> (nat, unit) manifest" where
  "demo_manifest leader vs h = \<lparr>mf_content = \<lparr>mc_last_proposal_hash = [ucast (h - 1), 0], mc_skips = 0, mc_height = h,
     mc_leader_id = leader, mc_state = (), mc_validators = vs, mc_accepts = map (\<lambda>v. (demo_vote v (h - 1))\<lparr>pa_leader_id := leader\<rparr>) vs\<rparr>,
     mf_signature = []\<rparr>"

lemma demo_structured: "structured (demo_solid b) demo_config (demo_manifest 9 [9] h)"
  by (simp add: structured_def validate_structure_def proposal_new_def demo_manifest_def demo_vote_def demo_config_def
      is_exceeded_def ordered_validators_def manifest_verify_def validate_manifest_accept_def verify_signature_def demo_solid_def)

lemma demo_chain:
  "extends (demo_solid b) (demo_manifest 1 vs 0) (demo_manifest 9 [9] 1)"
  "extends (demo_solid b) (demo_manifest 9 [9] 1) (demo_manifest 9 [9] 2)"
  "distinct [app_hash (demo_solid b) (mf_content (demo_manifest 1 vs 0)),
     app_hash (demo_solid b) (mf_content (demo_manifest 9 [9] 1)), app_hash (demo_solid b) (mf_content (demo_manifest 9 [9] 2))]"
  "unat (mc_height (mf_content (demo_manifest 9 [9] 2))) + max 2 (unat (max_proposal_history demo_config)) < 2 ^ 64"
  by (simp_all add: extends_def demo_solid_def demo_manifest_def demo_config_def)

lemmas demo_two = two_proposals [OF demo_chain(1,2) demo_structured demo_structured demo_chain(3,4)]

lemma demo_run: "\<exists>s. solid_run (demo_solid b) demo_config (demo_manifest 1 vs 0) s [demo_manifest 1 vs 0, demo_manifest 9 [9] 1]"
  using demo_two by blast

lemma demo_first:
  assumes "vs \<noteq> []" and "1 \<in> set vs"
  shows "mc_height (mf_content (demo_manifest v vs 0)) = 0"
    "get_leader_for_skip (demo_solid b) (mf_content (demo_manifest v vs 0)) 0 = Ok (ordered_validators (demo_solid b) (mf_content (demo_manifest v vs 0)) ! 0)"
    "validate_accept (demo_solid b) (proposal_new (demo_solid b) (demo_manifest v vs 0))
       (own_accept (demo_solid b) (proposal_new (demo_solid b) (demo_manifest v vs 0)) 0
          (ordered_validators (demo_solid b) (mf_content (demo_manifest v vs 0)) ! 0)) = Ok ()"
proof -
  show h: "mc_height (mf_content (demo_manifest v vs 0)) = 0" by (simp add: demo_manifest_def)
  have "length (ordered_validators (demo_solid b) (mf_content (demo_manifest v vs 0))) = length vs"
    unfolding length_ordered_validators by (simp add: demo_manifest_def)
  then have "ordered_validators (demo_solid b) (mf_content (demo_manifest v vs 0)) \<noteq> []"
    using assms(1) by (metis length_0_conv)
  then show l: "get_leader_for_skip (demo_solid b) (mf_content (demo_manifest v vs 0)) 0 =
      Ok (ordered_validators (demo_solid b) (mf_content (demo_manifest v vs 0)) ! 0)"
    by (simp add: get_leader_for_skip_def leader_at_def)
  show "validate_accept (demo_solid b) (proposal_new (demo_solid b) (demo_manifest v vs 0))
       (own_accept (demo_solid b) (proposal_new (demo_solid b) (demo_manifest v vs 0)) 0
          (ordered_validators (demo_solid b) (mf_content (demo_manifest v vs 0)) ! 0)) = Ok ()"
    using assms(2) l by (simp add: validate_accept_Ok verify_signature_def) (simp add: demo_solid_def demo_manifest_def)
qed

lemmas demo_event = fresh_event [OF demo_first, where cfg = demo_config and now = 0]

lemma demo_first_simps:
  "accept_threshold_of demo_config = MoreThanTwoThirds" "mc_validators (mf_content (demo_manifest v vs 0)) = vs"
  "signer_peer (demo_solid b) = 1" "ordered_validators (demo_solid b) (mf_content (demo_manifest v [x] 0)) = [x]"
  by (simp_all add: demo_config_def demo_manifest_def demo_solid_def ordered_validators_def)

text \<open>The calls of a core that answer with an event.\<close>

inductive core_call ::
    "('p::linorder, 's) solid_env \<Rightarrow> solid_config \<Rightarrow> ('p, 's) solid_core \<Rightarrow> ('p, 's) solid_core \<Rightarrow> ('p, 's) solid_event \<Rightarrow> bool"
  for E cfg where
  "receive_accept E cfg now a s = (s', Ok (Some ev)) \<Longrightarrow> core_call E cfg s s' ev"
| "core_next_event E cfg now s = Ok (s', Some ev) \<Longrightarrow> core_call E cfg s s' ev"
| "core_skip E cfg now s = Ok (s', Some ev) \<Longrightarrow> core_call E cfg s s' ev"

inductive_cases core_callE: "core_call E cfg s s' ev"

lemma core_call_event_ok:
  assumes "core_inv E s" and "core_call E cfg s s' ev" and "\<And>m m'. ev \<noteq> Commit m m'"
  shows "event_ok E cfg (sc_proposals s) (sc_proposals s') (Some ev)" "evolves (sc_proposals s) (sc_proposals s')"
proof -
  have "event_ok E cfg (sc_proposals s) (sc_proposals s') (Some ev) \<and> evolves (sc_proposals s) (sc_proposals s')"
    using assms(2)
  proof (cases rule: core_call.cases)
    case (1 now a)
    then show ?thesis using receive_accept_spec(2,3) [OF assms(1) 1] by blast
  next
    case (2 now)
    show ?thesis using assms(1) 2 by (cases rule: core_next_event_cases) (use assms(3) in \<open>auto simp: step_ok_def\<close>)
  next
    case (3 now)
    then show ?thesis using core_skip_ok [OF assms(1) 3] by (simp add: step_ok_def)
  qed
  then show "event_ok E cfg (sc_proposals s) (sc_proposals s') (Some ev)" "evolves (sc_proposals s) (sc_proposals s')" by blast+
qed

section \<open>Properties\<close>

text \<open>
  C3. Whatever proposals, accepts and timeouts a core sees, the proposals it commits form one chain
  from the proposal it started with: each commit extends the previous one by its hash and is one
  height above it, the last confirmed proposal is the last commit, and every committed manifest passed
  the structural checks.
\<close>

theorem solid_commits_chain:
  assumes "solid_run E cfg m0 s log"
  shows "hd log = m0 \<and> successively (extends E) log \<and> list_all (structured E cfg) (tl log) \<and>
     (\<exists>lc. last_confirmed_proposal (sc_proposals s) = (Ok lc :: (('p::linorder, 's) proposal, 'p solid_error) outcome) \<and>
        pr_manifest lc = last log)"
  using run_inv [OF assms] confirmed_results(1) unfolding run_inv_def list_all_iff by blast

theorem solid_commits_chain_witness:
  "\<exists>s. solid_run (demo_solid True) demo_config (demo_manifest 1 [1] 0) s [demo_manifest 1 [1] 0, demo_manifest 9 [9] 1] \<and>
     extends (demo_solid True) (demo_manifest 1 [1] 0) (demo_manifest 9 [9] 1)"
proof -
  obtain s where s: "solid_run (demo_solid True) demo_config (demo_manifest 1 [1] 0) s [demo_manifest 1 [1] 0, demo_manifest 9 [9] 1]"
    using demo_run by blast
  then show ?thesis using solid_commits_chain [OF s] by auto
qed

text \<open>
  C24. Every call on a reachable core returns: no loop of the core goes on for ever, and the recursion
  between sending an accept and counting it ends after one call, since more fuel changes nothing.
\<close>

theorem solid_calls_return:
  assumes "solid_run E cfg m0 s log"
  shows "core_next_event E cfg now s \<noteq> Err e \<and> core_skip E cfg now s \<noteq> Err e \<and> add_accept E cfg now a s \<noteq> Err e \<and>
     receive_proposal E cfg m s \<noteq> Err OutOfFuel \<and> snd (receive_accept E cfg now a s) \<noteq> Err OutOfFuel \<and>
     get_next_accept_event (accept_fuel + n) E cfg now b s = get_next_accept_event accept_fuel E cfg now b s"
proof -
  have inv: "core_inv E s" using run_inv [OF assms] by (simp add: run_inv_def)
  then have pinv: "pc_inv E (sc_proposals s)" by (simp add: core_inv_def)
  have "core_next_event E cfg now s \<noteq> Err e"
  proof
    assume err: "core_next_event E cfg now s = Err e"
    have "next_commit (sc_proposals s) \<noteq> Err e"
      using next_pending_not_Err [OF pinv] by (auto simp: next_commit_def bind_o_Err_iff split: option.splits)
    moreover have "pc_confirm h c \<noteq> Err e" for h and c :: "('a, 'b) proposal_cache"
    proof -
      have "filter_o (purge_entry c' k) xs \<noteq> Err e" for c' k and xs :: "(proposal_hash \<times> ('a, 'b) proposal) list"
        by (rule filter_o_not_Err) (auto simp: purge_entry_def bind_o_Err_iff split: if_splits)
      then show ?thesis by (auto simp: pc_confirm_def purge_def bind_o_Err_iff)
    qed
    ultimately obtain s1 cur where "validated_current_proposal E cfg s = Ok (s1, cur)"
        "get_next_accept_event accept_fuel E cfg now False s1 = Err e"
      using err validated_current_not_Err [OF inv]
      by (auto simp: core_next_event_def bind_o_Err_iff split: option.splits if_splits)
    then show False
      using get_next_accept_event_not_Err [OF validated_current_spec(1) [OF inv]] by (simp add: accept_fuel_Suc)
  qed
  moreover have "core_skip E cfg now s \<noteq> Err e"
    using get_next_accept_event_not_Err [OF inv, of 0]
    by (auto simp: core_skip_def bind_o_Err_iff accept_fuel_Suc split: if_splits)
  moreover have "snd (receive_accept E cfg now a s) \<noteq> Err OutOfFuel"
    using receive_accept_spec(4) [OF inv] by (metis prod.collapse)
  ultimately show ?thesis
    using add_accept_not_Err [OF inv] receive_proposal_not_OutOfFuel get_next_accept_event_fuel [OF inv, of n cfg now b]
    by (simp add: accept_fuel_Suc)
qed

theorem solid_calls_return_witness:
  "\<exists>s. solid_run (demo_solid True) demo_config (demo_manifest 1 [1] 0) s [demo_manifest 1 [1] 0, demo_manifest 9 [9] 1] \<and>
     core_next_event (demo_solid True) demo_config 0 s \<noteq> Err OutOfFuel"
proof -
  obtain s where s: "solid_run (demo_solid True) demo_config (demo_manifest 1 [1] 0) s [demo_manifest 1 [1] 0, demo_manifest 9 [9] 1]"
    using demo_run by blast
  then show ?thesis using solid_calls_return [OF s] by blast
qed

text \<open>
  C23. A core asks to propose only with a quorum: the accepts of a \<open>Propose\<close> event come from as many
  different validators of the accepted proposal as the threshold asks for, each is signed, names the
  same proposal and the same skips and was sent to the leader of these skips, which is the node itself.
\<close>

theorem solid_propose_quorum:
  assumes "solid_run E cfg m0 s log" and "core_call E cfg s s' (Propose h height skips accepts)"
  shows "\<exists>p. pc_get (sc_proposals s') h = Some p \<and> unat height = Suc (unat (pr_height p)) \<and>
     get_leader_for_skip E (pr_content p) skips = Ok (signer_peer E) \<and>
     pa_from ` set accepts \<subseteq> set (mc_validators (pr_content p)) \<and>
     is_exceeded (accept_threshold_of cfg) (card (pa_from ` set accepts)) (length (mc_validators (pr_content p))) \<and>
     list_all (\<lambda>a. verify_signature E a = Ok () \<and> ph_hash (pa_proposal a) = h \<and> pa_skips a = skips \<and>
        pa_leader_id a = signer_peer E) accepts"
proof -
  have inv: "core_inv E s" using run_inv [OF assms(1)] by (simp add: run_inv_def)
  have "propose_ok E cfg (sc_proposals s') h height skips accepts"
    using core_call_event_ok(1) [OF inv assms(2)] by simp
  then obtain p where p: "pc_get (sc_proposals s') h = Some p" "unat height = Suc (unat (pr_height p))"
      "get_leader_for_skip E (pr_content p) skips = Ok (signer_peer E)" "distinct (map pa_from accepts)"
      "length accepts = threshold (accept_threshold_of cfg) (length (mc_validators (pr_content p)))"
    and a: "\<And>a. a \<in> set accepts \<Longrightarrow> pa_skips a = skips \<and> ph_hash (pa_proposal a) = h \<and> validate_accept E p a = Ok ()"
    unfolding propose_ok_def by blast
  have "card (pa_from ` set accepts) = length accepts" using distinct_card [OF p(4)] by simp
  then have "is_exceeded (accept_threshold_of cfg) (card (pa_from ` set accepts)) (length (mc_validators (pr_content p)))"
    by (simp add: is_exceeded_def p(5))
  moreover have "pa_from ` set accepts \<subseteq> set (mc_validators (pr_content p))" using a by (auto simp: validate_accept_Ok)
  moreover have "verify_signature E x = Ok () \<and> ph_hash (pa_proposal x) = h \<and> pa_skips x = skips \<and> pa_leader_id x = signer_peer E"
    if "x \<in> set accepts" for x
    using a [OF that] p(3) by (auto simp: validate_accept_Ok)
  ultimately show ?thesis using p(1-3) unfolding list_all_iff by blast
qed

theorem solid_propose_quorum_witness:
  "\<exists>s' h height skips accepts. core_call (demo_solid True) demo_config
      (core_with_last_confirmed (demo_solid True) demo_config (demo_manifest 1 [1] 0)) s' (Propose h height skips accepts) \<and>
     pa_from ` set accepts \<noteq> {}"
proof -
  let ?E = "demo_solid True" and ?m = "demo_manifest 1 [1] 0"
  obtain s' where ev: "core_next_event ?E demo_config 0 (core_with_last_confirmed ?E demo_config ?m) =
      Ok (s', Some (Propose (app_hash ?E (mf_content ?m)) 1 0 [own_accept ?E (proposal_new ?E ?m) 0 1]))"
    using demo_event [where vs = "[1]" and v = 1 and b = True] by (auto simp: demo_first_simps)
  then have call: "core_call ?E demo_config (core_with_last_confirmed ?E demo_config ?m) s'
      (Propose (app_hash ?E (mf_content ?m)) 1 0 [own_accept ?E (proposal_new ?E ?m) 0 1])"
    by (rule core_call.intros(2))
  show ?thesis using call solid_propose_quorum [OF solid_run.start call] by fastforce
qed

text \<open>
  The votes of a node do not go back: an accept it sends is for a proposal of its cache, with the
  height and the skips of that proposal, addressed to the leader its skips select; the skips are at
  least those it sent before for this proposal, and what it sent is remembered for the next time.
\<close>

lemma solid_accepts_monotone:
  assumes "solid_run E cfg m0 s log" and "core_call E cfg s s' (AcceptEvent a)"
  shows "(\<exists>p. pc_get (sc_proposals s) (ph_hash (pa_proposal a)) = Some p \<and> ph_height (pa_proposal a) = pr_height p \<and>
        get_leader_for_skip E (pr_content p) (pa_skips a) = Ok (pa_leader_id a) \<and> pr_skips_sent p \<le> pa_skips a) \<and>
     pa_from a = signer_peer E \<and>
     (\<forall>p'. pc_get (sc_proposals s') (ph_hash (pa_proposal a)) = Some p' \<longrightarrow>
        pr_initial_accept_sent p' \<and> pa_skips a \<le> pr_skips_sent p') \<and>
     (\<forall>h p'. pc_get (sc_proposals s') h = Some p' \<longrightarrow>
        (\<exists>p. pc_get (sc_proposals s) h = Some p \<and> pr_manifest p' = pr_manifest p \<and> pr_skips_sent p \<le> pr_skips_sent p'))"
proof -
  have inv: "core_inv E s" using run_inv [OF assms(1)] by (simp add: run_inv_def)
  have "own_accept_ok E (sc_proposals s) a" "accept_recorded (sc_proposals s') a"
    using core_call_event_ok(1) [OF inv assms(2)] by simp_all
  moreover have "evolves (sc_proposals s) (sc_proposals s')" using core_call_event_ok(2) [OF inv assms(2)] by simp
  ultimately show ?thesis
    unfolding own_accept_ok_def accept_recorded_def evolves_def same_proposal_def by blast
qed

text \<open>
  C25. A core makes progress: when a proposal two or more heights above the last confirmed one is linked
  to it by proposals of the cache, the next event commits the proposal right above the confirmed one,
  and the confirmed height grows by one (heights being away from the end of their range).
\<close>

theorem solid_ready_commits:
  assumes "solid_run E cfg m0 s log" and "sane (sc_proposals s)"
    and "pc_get (sc_proposals s) (pc_last_confirmed (sc_proposals s)) = Some lc"
    and "x \<in> pending (sc_proposals s) lc" and "unat (pr_height lc) + 2 \<le> unat (pr_height x)"
  shows "\<exists>s' p m. core_next_event E cfg now s = Ok (s', Some (Commit (pr_manifest p) m)) \<and>
     extends E (pr_manifest lc) (pr_manifest p) \<and> extends E (pr_manifest p) m \<and>
     pc_get (sc_proposals s') (pc_last_confirmed (sc_proposals s')) = Some p"
proof -
  have inv: "core_inv E s" "pc_inv E (sc_proposals s)" using run_inv [OF assms(1)] by (simp_all add: run_inv_def core_inv_def)
  obtain s' p q where ev: "core_next_event E cfg now s = Ok (s', Some (Commit (pr_manifest p) (pr_manifest q)))"
    and n: "next_commit (sc_proposals s) = Ok (Some (p, q))" and c: "pc_confirm (pr_hash p) (sc_proposals s) = Ok (sc_proposals s')"
    using ready_commits [OF inv(1) assms(2-5)] by blast
  note nc = next_commit_cases [OF inv(2) assms(3) n]
  have "app_hash E (pr_content lc) = pc_last_confirmed (sc_proposals s)" "app_hash E (pr_content p) = pr_hash p"
    using pc_inv_entry [OF inv(2) assms(3)] pc_inv_entry [OF inv(2) nc(1)] by (simp_all add: proposal_ok_def)
  then have "extends E (pr_manifest lc) (pr_manifest p)" "extends E (pr_manifest p) (pr_manifest q)"
    using nc by (simp_all add: extends_def)
  moreover have "pc_get (sc_proposals s') (pc_last_confirmed (sc_proposals s')) = Some p"
    using pc_confirm_spec(2,3) [OF inv(2) nc(1) c] by simp
  ultimately show ?thesis using ev by blast
qed

theorem solid_ready_commits_witness:
  "\<exists>s s' p m. solid_run (demo_solid True) demo_config (demo_manifest 1 [1] 0) s [demo_manifest 1 [1] 0] \<and>
     core_next_event (demo_solid True) demo_config 0 s = Ok (s', Some (Commit (pr_manifest p) m)) \<and>
     extends (demo_solid True) (demo_manifest 1 [1] 0) (pr_manifest p) \<and>
     pc_get (sc_proposals s') (pc_last_confirmed (sc_proposals s')) = Some p"
proof -
  let ?E = "demo_solid True" and ?m0 = "demo_manifest 1 [1] 0"
  obtain s where s: "solid_run ?E demo_config ?m0 s [?m0]" "sane (sc_proposals s)"
    "pc_get (sc_proposals s) (pc_last_confirmed (sc_proposals s)) = Some (proposal_new ?E ?m0)"
    "proposal_new ?E (demo_manifest 9 [9] 2) \<in> pending (sc_proposals s) (proposal_new ?E ?m0)"
    using demo_two by blast
  show ?thesis using solid_ready_commits [OF s, of 0] s(1) by (fastforce simp: demo_manifest_def)
qed

text \<open>
  C39. A commit does not look at the validators or the contents: two linked proposals that pass the
  structural checks, whose quorum is counted against the validators they name themselves, are enough
  to commit the first of them.
\<close>

theorem solid_commit_unvalidated:
  assumes "extends E m0 m1" and "extends E m1 m2" and "structured E cfg m1" and "structured E cfg m2"
    and "distinct [app_hash E (mf_content m0), app_hash E (mf_content m1), app_hash E (mf_content m2)]"
    and "unat (mc_height (mf_content m2)) + max 2 (unat (max_proposal_history cfg)) < 2 ^ 64"
  shows "\<exists>s1 s2 s3. receive_proposal E cfg m1 (core_with_last_confirmed E cfg m0) = Ok s1 \<and>
     receive_proposal E cfg m2 s1 = Ok s2 \<and> core_next_event E cfg now s2 = Ok (s3, Some (Commit m1 m2))"
  using two_proposals [OF assms] by blast

theorem solid_commit_unvalidated_witness:
  "validate_contents (demo_solid False) (proposal_new (demo_solid False) (demo_manifest 9 [9] 1))
       (proposal_new (demo_solid False) (demo_manifest 1 [1, 2, 3, 4] 0)) \<noteq> Ok () \<and>
   (\<exists>s1 s2 s3. receive_proposal (demo_solid False) demo_config (demo_manifest 9 [9] 1)
        (core_with_last_confirmed (demo_solid False) demo_config (demo_manifest 1 [1, 2, 3, 4] 0)) = Ok s1 \<and>
      receive_proposal (demo_solid False) demo_config (demo_manifest 9 [9] 2) s1 = Ok s2 \<and>
      core_next_event (demo_solid False) demo_config 0 s2 = Ok (s3, Some (Commit (demo_manifest 9 [9] 1) (demo_manifest 9 [9] 2))))"
proof
  show "validate_contents (demo_solid False) (proposal_new (demo_solid False) (demo_manifest 9 [9] 1))
      (proposal_new (demo_solid False) (demo_manifest 1 [1, 2, 3, 4] 0)) \<noteq> Ok ()"
    by (auto simp: validate_contents_def demo_solid_def bind_o_Ok_iff split: if_splits)
  show "\<exists>s1 s2 s3. receive_proposal (demo_solid False) demo_config (demo_manifest 9 [9] 1)
        (core_with_last_confirmed (demo_solid False) demo_config (demo_manifest 1 [1, 2, 3, 4] 0)) = Ok s1 \<and>
      receive_proposal (demo_solid False) demo_config (demo_manifest 9 [9] 2) s1 = Ok s2 \<and>
      core_next_event (demo_solid False) demo_config 0 s2 = Ok (s3, Some (Commit (demo_manifest 9 [9] 1) (demo_manifest 9 [9] 2)))"
    by (rule solid_commit_unvalidated [OF demo_chain(1,2) demo_structured demo_structured demo_chain(3,4)])
qed

text \<open>
  An accept for an unknown proposal sets the height the network is believed to have, whoever signed
  it: when that height is two or more above the confirmed one, the core counts as out of sync and a
  timeout no longer makes it vote.
\<close>

lemma solid_accept_stalls:
  fixes E :: "('p::linorder, 's) solid_env"
  assumes "solid_run E cfg m0 s log" and "verify_signature E a = Ok ()"
    and "pc_get (sc_proposals s) (ph_hash (pa_proposal a)) = None"
    and "pc_height (sc_proposals s) = (Ok h :: (u64, 'p solid_error) outcome)" and "unat h + 1 < unat (ph_height (pa_proposal a))"
    and "receive_accept E cfg now a s = (s', r)" and "r \<noteq> Panic"
  shows "(\<exists>ev. r = Ok ev) \<and> sc_max_height s' = ph_height (pa_proposal a) \<and> core_skip E cfg now' s' = Ok (s', None)"
proof -
  have inv: "core_inv E s" using run_inv [OF assms(1)] by (simp add: run_inv_def)
  obtain s2 k where chk: "accept_checks E cfg a s = Ok (s2, k)"
    using assms(2,6,7) validated_current_not_Err [OF inv]
    by (cases "accept_checks E cfg a s") (auto simp: receive_accept_eq accept_checks_def bind_o_Err_iff)
  note s2 = accept_checks_spec [OF inv chk]
  have unknown: "pc_get (sc_proposals s2) (ph_hash (pa_proposal a)) = None"
  proof (rule ccontr)
    assume "pc_get (sc_proposals s2) (ph_hash (pa_proposal a)) \<noteq> None"
    then show False using s2(2) assms(3) unfolding evolves_def by fastforce
  qed
  have max2: "sc_max_height s2 = ph_height (pa_proposal a)" using s2(4) [OF assms(4)] assms(5) by (simp add: word_less_nat_alt)
  obtain ev where rest: "accept_rest E cfg now a k s2 = Ok (s', ev)" "r = Ok ev"
    using assms(6,7) accept_rest_not_Err [OF s2(1)] by (cases "accept_rest E cfg now a k s2") (auto simp: receive_accept_eq chk unknown)
  note step = accept_rest_ok [OF s2(1) rest(1), unfolded step_ok_def, simplified]
  have evo: "evolves (sc_proposals s) (sc_proposals s')" using step evolves_trans [OF s2(2)] by blast
  have "pc_inv E (sc_proposals s')" using step by (simp add: core_inv_def)
  then have h: "pc_height (sc_proposals s') = (Ok h :: (u64, 'p solid_error) outcome)"
    using evolves_confirmed [OF _ evo] assms(4) by metis
  have "unat (ph_height (pa_proposal a)) < 2 ^ 64"
    using unsigned_less [of "ph_height (pa_proposal a)", where ?'a = nat] by simp
  then have "unat h + unat (1 :: u64) < 2 ^ 64" using assms(5) by simp
  then obtain h1 where h1: "add_u64 h 1 = (Ok h1 :: (u64, 'p solid_error) outcome)" "unat h1 = unat h + 1"
    using add_u64_Ok_iff [of h 1 "h + 1"] by (auto simp: add_u64_nat)
  then have "core_is_out_of_sync s' = (Ok True :: (bool, 'p solid_error) outcome)"
    using step max2 assms(5) by (simp add: core_is_out_of_sync_def h word_less_nat_alt)
  then show ?thesis using rest step max2 by (simp add: core_skip_def)
qed

end
