(* ===== verification/Wallet_Address.thy ===== *)
theory Wallet_Address
  imports Note_Url
begin

text \<open>
  Tokens, payment addresses, note links and units of the command-line wallet
  (\<open>cli/src/address.rs\<close>, \<open>cli/src/note_url.rs\<close>, \<open>cli/src/units.rs\<close>). Base58 and the Poseidon hash
  are fields of \<open>url_env\<close>. Tickers are ASCII. Where the code draws random bytes, the drawn element is
  an argument.
\<close>

section \<open>Tokens\<close>

definition citrea_wcbtc_note_kind :: element where
  "citrea_wcbtc_note_kind = generate_note_kind_bridge_evm 5115
     [0x8d, 0x0c, 0x9d, 0x1c, 0x17, 0xae, 0x5e, 0x40, 0xff, 0xf9,
      0xbe, 0x35, 0x0f, 0x57, 0x84, 0x0e, 0x9e, 0x66, 0xcd, 0x93]"

definition citrea_usdc_note_kind :: element where
  "citrea_usdc_note_kind = generate_note_kind_bridge_evm 5115
     [0x52, 0xf7, 0x4a, 0x8f, 0x9b, 0xdd, 0x29, 0xf7, 0x7a, 0x5e,
      0xfd, 0x7f, 0x6c, 0xb4, 0x4d, 0xcf, 0x69, 0x06, 0xa4, 0xb6]"

definition to_uppercase :: "string \<Rightarrow> string" where
  "to_uppercase s =
     map (\<lambda>c. let n = of_char c :: nat in if 97 \<le> n \<and> n \<le> 122 then char_of (n - 32) else c) s"

text \<open>The calls of this file that reach \<open>unreachable!\<close> panic; none returns an error value.\<close>

definition citrea_token_data :: "string \<Rightarrow> (element \<times> element, 'e) outcome" where
  "citrea_token_data ticker =
     (if to_uppercase ticker = ''WCBTC'' then Ok (el_new 2, citrea_wcbtc_note_kind)
      else if to_uppercase ticker = ''USDC'' then Ok (el_new 2, citrea_usdc_note_kind)
      else Panic)"

definition citrea_ticker_from_code :: "u8 \<Rightarrow> (string, 'e) outcome" where
  "citrea_ticker_from_code currency =
     (if currency = 1 then Ok ''WCBTC'' else if currency = 2 then Ok ''USDC'' else Panic)"

definition citrea_currency_from_contract :: "element \<Rightarrow> (u8, 'e) outcome" where
  "citrea_currency_from_contract contract =
     (if contract = citrea_wcbtc_note_kind then Ok 1
      else if contract = citrea_usdc_note_kind then Ok 2 else Panic)"

definition citrea_ticker_from_contract :: "element \<Rightarrow> (string, 'e) outcome" where
  "citrea_ticker_from_contract contract =
     (if contract = citrea_wcbtc_note_kind then Ok ''WCBTC''
      else if contract = citrea_usdc_note_kind then Ok ''USDC'' else Panic)"

definition currency_contract :: "u8 \<Rightarrow> (element, 'e) outcome" where
  "currency_contract currency =
     (if currency = 1 then Ok citrea_wcbtc_note_kind
      else if currency = 2 then Ok citrea_usdc_note_kind else Panic)"

section \<open>Payment addresses\<close>

record ciphera_address =
  a_version :: u8
  a_currency :: u8
  a_public_key :: element
  a_psi :: "element option"
  a_value :: element

definition note_of_address :: "element \<Rightarrow> ciphera_address \<Rightarrow> (Note, 'e) outcome" where
  "note_of_address random_element a =
     (let psi = (case a_psi a of Some psi \<Rightarrow> psi | None \<Rightarrow> random_element)
      in bind_o (currency_contract (a_currency a)) (\<lambda>contract.
         Ok \<lparr>n_kind = el_new 2, n_contract = contract, n_address = a_public_key a, n_psi = psi,
             n_value = a_value a\<rparr>))"

definition address_of_note :: "Note \<Rightarrow> (ciphera_address, 'e) outcome" where
  "address_of_note n =
     bind_o (citrea_currency_from_contract (n_contract n)) (\<lambda>currency.
     Ok \<lparr>a_version = 0, a_currency = currency, a_public_key = n_address n, a_psi = Some (n_psi n),
         a_value = n_value n\<rparr>)"

definition addr_address :: "element \<Rightarrow> ciphera_address \<Rightarrow> (element, 'e) outcome" where
  "addr_address random_element a = bind_o (note_of_address random_element a) (\<lambda>n. Ok (n_address n))"

definition addr_commitment ::
    "(base list \<Rightarrow> base) \<Rightarrow> element \<Rightarrow> ciphera_address \<Rightarrow> (element, 'e) outcome" where
  "addr_commitment P random_element a =
     bind_o (note_of_address random_element a) (\<lambda>n. Ok (commitment P n))"

definition addr_psi :: "ciphera_address \<Rightarrow> element checked" where
  "addr_psi a = (if a_version a = 0 then unwrap_opt (a_psi a) else Panic)"

definition encode_address :: "url_env \<Rightarrow> ciphera_address \<Rightarrow> string" where
  "encode_address E a = bs58_encode E (
     [a_version a] @ [a_currency a] @ to_be_bytes (a_public_key a) @
     (case a_psi a of Some psi \<Rightarrow> if a_version a = 0 then to_be_bytes psi else [] | None \<Rightarrow> []) @
     encode_value (a_value a))"

text \<open>
  \<open>rest[0]\<close> and \<open>rest[1]\<close> are read before the slice advances; bytes after the value are ignored.
\<close>

definition decode_address :: "url_env \<Rightarrow> string \<Rightarrow> ciphera_address checked" where
  "decode_address E address =
     bind_o (unwrap_opt (bs58_decode E address)) (\<lambda>rest.
     bind_o (split_byte rest) (\<lambda>(version, rest).
     bind_o (split_byte rest) (\<lambda>(currency, rest).
     bind_o (split_slice 32 rest) (\<lambda>(public_key_bytes, rest).
     bind_o (if version = 0
             then bind_o (split_slice 32 rest) (\<lambda>(psi, rest). Ok (Some (from_be_bytes psi), rest))
             else Panic) (\<lambda>(psi, rest).
     bind_o (decode_value rest) (\<lambda>(v, rest).
     Ok \<lparr>a_version = version, a_currency = currency, a_public_key = from_be_bytes public_key_bytes,
         a_psi = psi, a_value = v\<rparr>))))))"

section \<open>Note links\<close>

record ciphera_url =
  l_currency :: u8
  l_private_key :: element
  l_value :: element

definition input_note_of_url ::
    "(base list \<Rightarrow> base) \<Rightarrow> ciphera_url \<Rightarrow> (InputNote, 'e) outcome" where
  "input_note_of_url P l =
     bind_o (currency_contract (l_currency l)) (\<lambda>contract.
     Ok \<lparr>in_note = \<lparr>n_kind = el_new 2, n_contract = contract,
           n_address = hash_merge P [l_private_key l, ZERO],
           n_psi = hash_merge P [l_private_key l, l_private_key l], n_value = l_value l\<rparr>,
         in_secret_key = l_private_key l\<rparr>)"

definition url_of_input_note :: "InputNote \<Rightarrow> (ciphera_url, 'e) outcome" where
  "url_of_input_note i =
     bind_o (citrea_currency_from_contract (n_contract (in_note i))) (\<lambda>currency.
     Ok \<lparr>l_currency = currency, l_private_key = in_secret_key i, l_value = n_value (in_note i)\<rparr>)"

definition url_commitment :: "(base list \<Rightarrow> base) \<Rightarrow> ciphera_url \<Rightarrow> (element, 'e) outcome" where
  "url_commitment P l = bind_o (input_note_of_url P l) (\<lambda>i. Ok (commitment P (in_note i)))"

definition encode_url :: "url_env \<Rightarrow> ciphera_url \<Rightarrow> string" where
  "encode_url E l = bs58_encode E (
     [l_currency l] @ to_be_bytes (l_private_key l) @ encode_value (l_value l))"

definition decode_url :: "url_env \<Rightarrow> string \<Rightarrow> ciphera_url checked" where
  "decode_url E address =
     bind_o (unwrap_opt (bs58_decode E address)) (\<lambda>rest.
     bind_o (split_byte rest) (\<lambda>(currency, rest).
     bind_o (split_slice 32 rest) (\<lambda>(private_key_bytes, rest).
     bind_o (decode_value rest) (\<lambda>(v, rest).
     Ok \<lparr>l_currency = currency, l_private_key = from_be_bytes private_key_bytes, l_value = v\<rparr>))))"

section \<open>Units\<close>

definition SATS_PER_BTC :: u64 where
  "SATS_PER_BTC = 100000000"

definition WEI_PER_SAT :: u64 where
  "WEI_PER_SAT = 10000000000"

definition sats_to_wei :: "u64 \<Rightarrow> (u64, 'e) outcome" where
  "sats_to_wei sats =
     (if uint sats * uint WEI_PER_SAT < 2 ^ 64 then Ok (sats * WEI_PER_SAT) else Panic)"

definition wei_to_sats :: "u64 \<Rightarrow> u64" where
  "wei_to_sats wei = wei div WEI_PER_SAT"

definition sats_to_wei_u128 :: "u128 \<Rightarrow> (u128, 'e) outcome" where
  "sats_to_wei_u128 sats =
     (if uint sats * uint WEI_PER_SAT < 2 ^ 128 then Ok (sats * ucast WEI_PER_SAT) else Panic)"

definition wei_to_sats_u128 :: "u128 \<Rightarrow> u128" where
  "wei_to_sats_u128 wei = wei div ucast WEI_PER_SAT"

section \<open>Lemmas\<close>

lemma token_kinds_differ: "citrea_wcbtc_note_kind \<noteq> citrea_usdc_note_kind"
proof
  assume "citrea_wcbtc_note_kind = citrea_usdc_note_kind"
  then have "to_be_bytes citrea_wcbtc_note_kind ! 10 = to_be_bytes citrea_usdc_note_kind ! 10" by simp
  then show False
    by (simp add: citrea_wcbtc_note_kind_def citrea_usdc_note_kind_def generate_note_kind_bridge_evm_def
        to_from_be_bytes u64_be_bytes_def nth_append)
qed

lemma contract_of_currency:
  "citrea_currency_from_contract c = Ok k \<Longrightarrow> currency_contract k = Ok c"
  by (auto simp: citrea_currency_from_contract_def currency_contract_def split: if_splits)

lemma currency_not_Err: "citrea_currency_from_contract c \<noteq> Err e"
  by (simp add: citrea_currency_from_contract_def)

lemma ticker_iff_currency:
  "(\<exists>t. citrea_ticker_from_contract c = Ok t) \<longleftrightarrow> (\<exists>k. citrea_currency_from_contract c = Ok k)"
  by (simp add: citrea_currency_from_contract_def citrea_ticker_from_contract_def)

lemma to_uppercase_tickers [simp]:
  "to_uppercase ''WCBTC'' = ''WCBTC''" "to_uppercase ''USDC'' = ''USDC''"
  by (simp_all add: to_uppercase_def)

lemma ticker_token_data:
  "citrea_ticker_from_contract c = Ok t \<Longrightarrow> citrea_token_data t = Ok (el_new 2, c)"
  by (auto simp: citrea_ticker_from_contract_def citrea_token_data_def split: if_splits)

lemma decode_encode_address:
  assumes "url_env_ok E" and "a_version a = 0" and "a_psi a \<noteq> None"
  shows "decode_address E (encode_address E a) = Ok a"
proof -
  have dec: "bs58_decode E (bs58_encode E bs) = Some bs" for bs
    using assms(1) by (simp add: url_env_ok_def)
  obtain psi where psi: "a_psi a = Some psi" using assms(3) by blast
  show ?thesis
    using decode_value_encoded [of "a_value a" "[]"] assms(2) psi
    by (simp add: decode_address_def encode_address_def dec unwrap_opt_def)
qed

lemma decode_encode_url:
  assumes "url_env_ok E"
  shows "decode_url E (encode_url E l) = Ok l"
proof -
  have dec: "bs58_decode E (bs58_encode E bs) = Some bs" for bs
    using assms(1) by (simp add: url_env_ok_def)
  show ?thesis
    using decode_value_encoded [of "l_value l" "[]"]
    by (simp add: decode_url_def encode_url_def dec unwrap_opt_def)
qed

text \<open>
  The limit of the conversion: 1,844,674,407 satoshis are 18.4 bitcoin.
\<close>

lemma sats_to_wei_limit: "sats_to_wei s = Panic \<longleftrightarrow> 1844674407 < uint s"
  by (simp add: sats_to_wei_def WEI_PER_SAT_def)

lemma sats_roundtrip: "sats_to_wei s = Ok w \<Longrightarrow> wei_to_sats w = s"
proof -
  assume "sats_to_wei s = Ok w"
  then have w: "w = s * WEI_PER_SAT" and lt: "uint s * uint WEI_PER_SAT < 2 ^ 64"
    by (auto simp: sats_to_wei_def split: if_splits)
  have "uint w = uint s * uint WEI_PER_SAT"
    using lt by (simp add: w uint_word_ariths WEI_PER_SAT_def)
  then show "wei_to_sats w = s"
    by (simp add: wei_to_sats_def WEI_PER_SAT_def word_div_def)
qed

text \<open>
  A note link keeps the token, the key and the value; the psi is derived again from the key, so a
  note whose psi was drawn at random (as those of requested addresses are) comes back as another note.
\<close>

lemma url_keeps_key_and_value:
  assumes "url_env_ok E" and "url_of_input_note i = Ok l"
  shows "bind_o (decode_url E (encode_url E l)) (\<lambda>l. input_note_of_url P l) =
    Ok \<lparr>in_note = \<lparr>n_kind = el_new 2, n_contract = n_contract (in_note i),
         n_address = hash_merge P [in_secret_key i, ZERO], n_psi = hash_merge P [in_secret_key i, in_secret_key i],
         n_value = n_value (in_note i)\<rparr>, in_secret_key = in_secret_key i\<rparr>"
  using assms(2) contract_of_currency [of "n_contract (in_note i)"]
  by (auto simp: decode_encode_url [OF assms(1)] url_of_input_note_def input_note_of_url_def outcome_simps)

section \<open>Properties\<close>

text \<open>
  C36. A note of a supported token survives its payment address: encoding the address of the note,
  decoding the text and building the note of the decoded address gives the note back, whatever
  element the conversion would draw at random.
\<close>

theorem address_roundtrip:
  assumes "url_env_ok E" and "n_kind n = el_new 2"
    and "n_contract n = citrea_wcbtc_note_kind \<or> n_contract n = citrea_usdc_note_kind"
  shows "bind_o (address_of_note n) (\<lambda>a. bind_o (decode_address E (encode_address E a)) (note_of_address r)) = Ok n"
proof -
  obtain k where k: "citrea_currency_from_contract (n_contract n) = (Ok k :: u8 checked)"
    using assms(3) token_kinds_differ by (auto simp: citrea_currency_from_contract_def)
  have "address_of_note n = (Ok \<lparr>a_version = 0, a_currency = k, a_public_key = n_address n, a_psi = Some (n_psi n),
      a_value = n_value n\<rparr> :: ciphera_address checked)"
    by (simp add: address_of_note_def k)
  then show ?thesis
    using contract_of_currency [of "n_contract n" k] k assms(2)
    by (simp add: decode_encode_address [OF assms(1)] note_of_address_def citrea_currency_from_contract_def
        currency_contract_def split: if_splits)
qed

theorem address_roundtrip_witness:
  "bind_o (address_of_note (note_new_with_psi 5 30 8 \<lparr>n_contract := citrea_usdc_note_kind\<rparr>))
     (\<lambda>a. bind_o (decode_address demo_env (encode_address demo_env a)) (note_of_address 0)) =
   Ok (note_new_with_psi 5 30 8 \<lparr>n_contract := citrea_usdc_note_kind\<rparr>)"
  by (rule address_roundtrip) (simp_all add: demo_env_ok note_new_with_psi_def)

end
