(* ===== verification/Wallet.thy ===== *)
theory Wallet
  imports Wallet_Address "HOL-Library.AList"
begin

text \<open>
  The command-line wallet (\<open>cli/src/wallet.rs\<close>): the notes it holds, the selection of inputs and the
  operations that stage a changed wallet beside a transaction. \<open>P\<close> is the Poseidon hash; where
  \<open>gen_pk\<close> draws a random key, the key is an argument. A \<open>HashMap\<close> is an association list whose
  order is arbitrary; \<open>u64\<close> arithmetic panics on overflow. The wallet file and the commands are in
  \<open>Wallet_Commands\<close>.
\<close>

section \<open>State and errors\<close>

datatype wallet_error =
    IoError
  | SerializationError
  | FileNotFound string
  | WalletExists string
  | KeyNotFound Note
  | LowBalance string
  | CantPullNote
  | CantReadNoteValue
  | NoKey
  | MissingStoragePath

type_synonym 'a wallet_result = "('a, wallet_error) outcome"

type_synonym note_map = "(string \<times> InputNote list) list"

record wallet =
  w_pk :: element
  w_pending :: note_map
  w_avail :: note_map
  w_name :: "string option"
  w_balance :: u64
  w_chain_id :: "u64 option"
  w_storage_path :: "string option"

definition wallet_new :: "u64 \<Rightarrow> string option \<Rightarrow> element \<Rightarrow> wallet" where
  "wallet_new chain_id name pk = \<lparr>w_pk = pk, w_pending = [], w_avail = [], w_name = name,
     w_balance = 0, w_chain_id = Some chain_id, w_storage_path = None\<rparr>"

definition gen_pk :: "u8 list \<Rightarrow> element" where
  "gen_pk bytes = from_be_bytes bytes"

definition wallet_random :: "u8 list \<Rightarrow> u64 \<Rightarrow> string option \<Rightarrow> wallet" where
  "wallet_random bytes chain_id name = \<lparr>w_pk = from_be_bytes bytes, w_pending = [], w_avail = [],
     w_name = name, w_balance = 0, w_chain_id = Some chain_id, w_storage_path = None\<rparr>"

definition with_storage_path :: "string \<Rightarrow> wallet \<Rightarrow> wallet" where
  "with_storage_path path w = w\<lparr>w_storage_path := Some path\<rparr>"

definition stage :: "(wallet \<Rightarrow> (wallet \<times> 'r) wallet_result) \<Rightarrow> wallet \<Rightarrow> (wallet \<times> 'r) wallet_result" where
  "stage apply_to w =
     (let staged = w in bind_o (apply_to staged) (\<lambda>(staged, v). Ok (staged, v)))"

section \<open>Amounts and the available notes\<close>

definition value_u64 :: "Note \<Rightarrow> u64" where
  "value_u64 n = fst (to_u64_array (n_value n))"

definition get_note_amount :: "Note \<Rightarrow> u64 wallet_result" where
  "get_note_amount n = Ok (value_u64 n)"

definition push_to_avail :: "string \<Rightarrow> InputNote \<Rightarrow> wallet \<Rightarrow> (wallet \<times> u64) wallet_result" where
  "push_to_avail ticker i w =
     (let notes = (case map_of (w_avail w) ticker of Some notes \<Rightarrow> notes | None \<Rightarrow> []);
          avail = AList.update ticker (notes @ [i]) (w_avail w);
          note_amount = value_u64 (in_note i)
      in if uint (w_balance w) + uint note_amount < 2 ^ 64
         then Ok (w\<lparr>w_avail := avail, w_balance := w_balance w + note_amount\<rparr>, w_balance w + note_amount)
         else Panic)"

text \<open>\<open>Vec::remove\<close> at the first position whose note is the wanted one.\<close>

fun take_note :: "Note \<Rightarrow> InputNote list \<Rightarrow> (InputNote \<times> InputNote list) option" where
  "take_note n [] = None"
| "take_note n (i # is) =
     (if in_note i = n then Some (i, is)
      else case take_note n is of Some (r, rest) \<Rightarrow> Some (r, i # rest) | None \<Rightarrow> None)"

definition pull_from_avail :: "string \<Rightarrow> InputNote \<Rightarrow> wallet \<Rightarrow> (wallet \<times> u64) wallet_result" where
  "pull_from_avail ticker i w =
     (case map_of (w_avail w) ticker of
        None \<Rightarrow> Err CantPullNote
      | Some notes \<Rightarrow>
          (case take_note (in_note i) notes of
             None \<Rightarrow> Err CantPullNote
           | Some (removed, notes) \<Rightarrow>
               let note_amount = value_u64 (in_note removed)
               in if note_amount \<le> w_balance w
                  then Ok (w\<lparr>w_avail := AList.update ticker notes (w_avail w),
                            w_balance := w_balance w - note_amount\<rparr>, w_balance w - note_amount)
                  else Panic))"

definition make_change_note :: "(base list \<Rightarrow> base) \<Rightarrow> element \<Rightarrow> Note \<Rightarrow> u64 \<Rightarrow> InputNote" where
  "make_change_note P pk origin_note change_amount =
     \<lparr>in_note = \<lparr>n_kind = n_kind origin_note, n_contract = n_contract origin_note,
        n_address = hash_merge P [pk, ZERO], n_psi = hash_merge P [pk, pk],
        n_value = ucast change_amount\<rparr>, in_secret_key = pk\<rparr>"

section \<open>Input selection\<close>

type_synonym selection = "InputNote list \<times> u64"

definition consider_candidate :: "u64 \<Rightarrow> selection \<Rightarrow> selection option \<Rightarrow> selection option" where
  "consider_candidate amount candidate best =
     (case candidate of (notes, tot) \<Rightarrow>
        if tot < amount then best
        else if (case best of
                   None \<Rightarrow> True
                 | Some (best_notes, best_total) \<Rightarrow>
                     let excess = tot - amount; best_excess = best_total - amount
                     in excess < best_excess \<or> (excess = best_excess \<and> length notes < length best_notes))
             then Some (notes, tot) else best)"

definition consider_pair ::
    "u64 \<Rightarrow> InputNote \<times> u64 \<Rightarrow> InputNote \<times> u64 \<Rightarrow> selection option \<Rightarrow> selection option" where
  "consider_pair amount x y best =
     (if uint (snd x) + uint (snd y) < 2 ^ 64
      then consider_candidate amount ([fst x, fst y], snd x + snd y) best
      else best)"

fun select_loop :: "u64 \<Rightarrow> (InputNote \<times> u64) list \<Rightarrow> selection option \<Rightarrow> selection option" where
  "select_loop amount [] best = best"
| "select_loop amount (x # xs) best =
     select_loop amount xs
       (fold (consider_pair amount x) xs (consider_candidate amount ([fst x], snd x) best))"

definition wallet_label :: "wallet \<Rightarrow> string" where
  "wallet_label w = (case w_name w of Some name \<Rightarrow> name | None \<Rightarrow> ''Noname'')"

definition asset_notes :: "string \<Rightarrow> wallet \<Rightarrow> InputNote list wallet_result" where
  "asset_notes ticker w =
     (case map_of (w_avail w) ticker of
        Some (i # is) \<Rightarrow> Ok (i # is)
      | _ \<Rightarrow> Err (LowBalance (''Wallet '' @ wallet_label w @ '' has 0 balance'')))"

fun selected_inputs :: "InputNote list \<Rightarrow> (InputNote \<times> InputNote) wallet_result" where
  "selected_inputs [note1] = Ok (note1, padding_input_note)"
| "selected_inputs [note1, note2] = Ok (note1, note2)"
| "selected_inputs _ = Panic"

definition select_input_notes ::
    "(base list \<Rightarrow> base) \<Rightarrow> element \<Rightarrow> string \<Rightarrow> u64 \<Rightarrow> wallet \<Rightarrow>
     (wallet \<times> (InputNote \<times> InputNote) \<times> Note) wallet_result" where
  "select_input_notes P pk ticker amount w =
     bind_o (asset_notes ticker w) (\<lambda>notes.
     case select_loop amount (map (\<lambda>i. (i, value_u64 (in_note i))) notes) None of
       None \<Rightarrow> Err (LowBalance ''Insufficient balance even with two notes, consolidate'')
     | Some (selected_notes, total_input) \<Rightarrow>
         bind_o (fold_o (\<lambda>w i. bind_o (pull_from_avail ticker i w) (\<lambda>(w, _). Ok w)) w selected_notes) (\<lambda>w.
         bind_o (if total_input = amount then Ok (w, padding_note)
                 else let change_note =
                            make_change_note P pk (in_note (hd selected_notes)) (total_input - amount)
                      in bind_o (push_to_avail ticker change_note w) (\<lambda>(w, _). Ok (w, in_note change_note)))
         (\<lambda>(w, change).
         bind_o (selected_inputs selected_notes) (\<lambda>inputs. Ok (w, inputs, change)))))"

text \<open>\<open>min_by_key\<close> keeps the first of equal minima.\<close>

definition abs_diff :: "u64 \<Rightarrow> u64 \<Rightarrow> u64" where
  "abs_diff a b = (if a < b then b - a else a - b)"

definition closer_note :: "u64 \<Rightarrow> InputNote \<Rightarrow> InputNote \<Rightarrow> InputNote" where
  "closer_note amount i best =
     (if abs_diff (value_u64 (in_note i)) amount < abs_diff (value_u64 (in_note best)) amount
      then i else best)"

definition find_note :: "u64 \<Rightarrow> string \<Rightarrow> wallet \<Rightarrow> InputNote wallet_result" where
  "find_note amount ticker w =
     bind_o (asset_notes ticker w) (\<lambda>notes.
     case notes of
       i # is \<Rightarrow> Ok (fold (closer_note amount) is i)
     | [] \<Rightarrow> Err (LowBalance ''No notes found''))"

section \<open>Operations\<close>

fun show_nat :: "nat \<Rightarrow> string" where
  "show_nat n = (if n < 10 then [char_of (48 + n)] else show_nat (n div 10) @ [char_of (48 + n mod 10)])"

declare show_nat.simps [simp del]

definition spend_to :: "(base list \<Rightarrow> base) \<Rightarrow> element \<Rightarrow> Note \<Rightarrow> wallet \<Rightarrow> (wallet \<times> utxo) wallet_result" where
  "spend_to P pk n w =
     bind_o (citrea_ticker_from_contract (n_contract n)) (\<lambda>ticker.
     bind_o (get_note_amount n) (\<lambda>amount.
     if w_balance w < amount
     then Err (LowBalance (''Wallet '' @ wallet_label w @ '' has only '' @ show_nat (unat (w_balance w)) @
                           '' while '' @ show_nat (unat amount) @ '' requested''))
     else bind_o (select_input_notes P pk ticker amount w) (\<lambda>(w, inputs, change).
          Ok (w, new_send inputs (n, change)))))"

definition receive_note ::
    "(base list \<Rightarrow> base) \<Rightarrow> element \<Rightarrow> u64 \<Rightarrow> string \<Rightarrow> wallet \<Rightarrow> (wallet \<times> InputNote) wallet_result" where
  "receive_note P pk amount ticker w =
     bind_o (citrea_token_data ticker) (\<lambda>(kind, contract).
     Ok (w, \<lparr>in_note = \<lparr>n_kind = kind, n_contract = contract, n_address = hash_merge P [pk, ZERO],
               n_psi = hash_merge P [pk, pk], n_value = ucast amount\<rparr>, in_secret_key = pk\<rparr>))"

definition wallet_receive ::
    "(base list \<Rightarrow> base) \<Rightarrow> element \<Rightarrow> InputNote \<Rightarrow> wallet \<Rightarrow> (wallet \<times> utxo) wallet_result" where
  "wallet_receive P pk input_note w =
     bind_o (citrea_ticker_from_contract (n_contract (in_note input_note))) (\<lambda>ticker.
     bind_o (get_note_amount (in_note input_note)) (\<lambda>amount.
     bind_o (receive_note P pk amount ticker w) (\<lambda>(w, received_note).
     bind_o (push_to_avail ticker received_note w) (\<lambda>(w, b).
     Ok (w, new_send (input_note, padding_input_note) (in_note received_note, padding_note))))))"

definition wallet_mint ::
    "(base list \<Rightarrow> base) \<Rightarrow> element \<Rightarrow> u64 \<Rightarrow> string \<Rightarrow> wallet \<Rightarrow> (wallet \<times> utxo) wallet_result" where
  "wallet_mint P pk amount ticker w =
     bind_o (receive_note P pk amount ticker w) (\<lambda>(w, received_note).
     bind_o (push_to_avail ticker received_note w) (\<lambda>(w, b).
     Ok (w, new_mint (in_note received_note, padding_note))))"

definition wallet_burn ::
    "InputNote \<Rightarrow> element \<Rightarrow> bool \<Rightarrow> wallet \<Rightarrow> (wallet \<times> utxo) wallet_result" where
  "wallet_burn burner_note evm_address natively_substitute w =
     bind_o (citrea_ticker_from_contract (n_contract (in_note burner_note))) (\<lambda>ticker.
     bind_o (pull_from_avail ticker burner_note w) (\<lambda>(w, b).
     if natively_substitute
     then Ok (w, new_burn (burner_note, padding_input_note) evm_address)
     else Ok (w, new_burn_no_sub (burner_note, padding_input_note) evm_address)))"

text \<open>The loop over the tickers of \<open>pending\<close>: the first one with a note of that address.\<close>

fun take_address :: "element \<Rightarrow> InputNote list \<Rightarrow> (InputNote \<times> InputNote list) option" where
  "take_address a [] = None"
| "take_address a (i # is) =
     (if n_address (in_note i) = a then Some (i, is)
      else case take_address a is of Some (r, rest) \<Rightarrow> Some (r, i # rest) | None \<Rightarrow> None)"

fun find_pending :: "element \<Rightarrow> note_map \<Rightarrow> (string \<times> InputNote \<times> InputNote list) option" where
  "find_pending a [] = None"
| "find_pending a ((ticker, notes) # m) =
     (case take_address a notes of
        Some (i, rest) \<Rightarrow> Some (ticker, i, rest)
      | None \<Rightarrow> find_pending a m)"

definition import_note :: "Note \<Rightarrow> wallet \<Rightarrow> (wallet \<times> unit) wallet_result" where
  "import_note n w =
     (case find_pending (n_address n) (w_pending w) of
        Some (ticker, pending_note, rest) \<Rightarrow>
          let w = w\<lparr>w_pending := AList.update ticker rest (w_pending w)\<rparr>
          in bind_o (get_note_amount n) (\<lambda>amount.
             bind_o (push_to_avail ticker \<lparr>in_note = n, in_secret_key = in_secret_key pending_note\<rparr> w) (\<lambda>(w, b).
             Ok (w, ())))
      | None \<Rightarrow> Err (KeyNotFound n))"

definition add_to_avail :: "InputNote \<Rightarrow> wallet \<Rightarrow> (wallet \<times> unit) wallet_result" where
  "add_to_avail input_note w =
     bind_o (citrea_ticker_from_contract (n_contract (in_note input_note))) (\<lambda>ticker.
     bind_o (push_to_avail ticker input_note w) (\<lambda>(w, _). Ok (w, ())))"

definition get_address ::
    "(base list \<Rightarrow> base) \<Rightarrow> element \<Rightarrow> element \<Rightarrow> u64 \<Rightarrow> string \<Rightarrow> wallet \<Rightarrow> (wallet \<times> ciphera_address) wallet_result" where
  "get_address P pk psi amount ticker w =
     bind_o (citrea_token_data ticker) (\<lambda>(kind, contract).
     let n = \<lparr>n_kind = kind, n_contract = contract, n_address = hash_merge P [pk, ZERO], n_psi = psi,
               n_value = el_new amount\<rparr>;
         w = w\<lparr>w_pending := AList.update ticker [\<lparr>in_note = n, in_secret_key = pk\<rparr>] (w_pending w)\<rparr>
     in bind_o (address_of_note n) (\<lambda>a. Ok (w, a)))"

section \<open>Synchronisation\<close>

text \<open>
  The pending notes whose commitment is \<open>c\<close> leave \<open>pending\<close> (their indices are removed from the
  highest down) and are pushed, in the order of the iteration, under the ticker of their contract.
\<close>

definition matching :: "(base list \<Rightarrow> base) \<Rightarrow> element \<Rightarrow> InputNote \<Rightarrow> bool" where
  "matching P c i \<longleftrightarrow> c = commitment P (in_note i)"

definition match_indices :: "(base list \<Rightarrow> base) \<Rightarrow> element \<Rightarrow> InputNote list \<Rightarrow> nat list" where
  "match_indices P c notes = filter (\<lambda>i. matching P c (notes ! i)) [0..<length notes]"

definition remove_at :: "nat \<Rightarrow> 'a list \<Rightarrow> 'a list" where
  "remove_at j xs = take j xs @ drop (Suc j) xs"

definition remove_matching :: "(base list \<Rightarrow> base) \<Rightarrow> element \<Rightarrow> InputNote list \<Rightarrow> InputNote list" where
  "remove_matching P c notes = fold remove_at (rev (match_indices P c notes)) notes"

definition sync_commitment ::
    "(base list \<Rightarrow> base) \<Rightarrow> wallet \<Rightarrow> element \<Rightarrow> wallet wallet_result" where
  "sync_commitment P w c =
     (if c = ZERO then Ok w
      else
        let new_notes = concat (map (\<lambda>(t, notes). map ((!) notes) (match_indices P c notes)) (w_pending w));
            w = w\<lparr>w_pending := map (\<lambda>(t, notes). (t, remove_matching P c notes)) (w_pending w)\<rparr>
        in fold_o (\<lambda>w i.
             bind_o (citrea_ticker_from_contract (n_contract (in_note i))) (\<lambda>ticker.
             bind_o (push_to_avail ticker i w) (\<lambda>(w, b). Ok w))) w new_notes)"

definition sync_txn :: "(base list \<Rightarrow> base) \<Rightarrow> wallet \<Rightarrow> utxo_proof \<Rightarrow> wallet wallet_result" where
  "sync_txn P w txn =
     (case output_commitments (up_public_inputs txn) of (c1, c2) \<Rightarrow>
        fold_o (sync_commitment P) w [c1, c2])"

definition wallet_sync :: "(base list \<Rightarrow> base) \<Rightarrow> utxo_proof list \<Rightarrow> wallet \<Rightarrow> (wallet \<times> unit) wallet_result" where
  "wallet_sync P txns w = bind_o (fold_o (sync_txn P) w txns) (\<lambda>w. Ok (w, ()))"

section \<open>Staged operations\<close>

definition prepare_spend_to :: "(base list \<Rightarrow> base) \<Rightarrow> element \<Rightarrow> Note \<Rightarrow> wallet \<Rightarrow> (wallet \<times> utxo) wallet_result" where
  "prepare_spend_to P pk n = stage (spend_to P pk n)"

definition prepare_receive ::
    "(base list \<Rightarrow> base) \<Rightarrow> element \<Rightarrow> InputNote \<Rightarrow> wallet \<Rightarrow> (wallet \<times> utxo) wallet_result" where
  "prepare_receive P pk input_note = stage (wallet_receive P pk input_note)"

definition prepare_mint ::
    "(base list \<Rightarrow> base) \<Rightarrow> element \<Rightarrow> u64 \<Rightarrow> string \<Rightarrow> wallet \<Rightarrow> (wallet \<times> utxo) wallet_result" where
  "prepare_mint P pk amount ticker = stage (wallet_mint P pk amount ticker)"

definition prepare_burn :: "InputNote \<Rightarrow> element \<Rightarrow> bool \<Rightarrow> wallet \<Rightarrow> (wallet \<times> utxo) wallet_result" where
  "prepare_burn burner_note evm_address natively_substitute =
     stage (wallet_burn burner_note evm_address natively_substitute)"

definition prepare_receive_note ::
    "(base list \<Rightarrow> base) \<Rightarrow> element \<Rightarrow> u64 \<Rightarrow> string \<Rightarrow> wallet \<Rightarrow> (wallet \<times> InputNote) wallet_result" where
  "prepare_receive_note P pk amount ticker = stage (receive_note P pk amount ticker)"

definition prepare_import_note :: "Note \<Rightarrow> wallet \<Rightarrow> (wallet \<times> unit) wallet_result" where
  "prepare_import_note n = stage (import_note n)"

definition prepare_add_to_avail :: "InputNote \<Rightarrow> wallet \<Rightarrow> (wallet \<times> unit) wallet_result" where
  "prepare_add_to_avail input_note = stage (add_to_avail input_note)"

definition prepare_get_address ::
    "(base list \<Rightarrow> base) \<Rightarrow> element \<Rightarrow> element \<Rightarrow> u64 \<Rightarrow> string \<Rightarrow> wallet \<Rightarrow> (wallet \<times> ciphera_address) wallet_result" where
  "prepare_get_address P pk psi amount ticker = stage (get_address P pk psi amount ticker)"

definition prepare_sync :: "(base list \<Rightarrow> base) \<Rightarrow> utxo_proof list \<Rightarrow> wallet \<Rightarrow> (wallet \<times> unit) wallet_result" where
  "prepare_sync P txns = stage (wallet_sync P txns)"

lemma stage_eq [simp]: "stage f w = f w"
  by (cases "f w") (auto simp: stage_def)

lemmas prepare_defs = prepare_spend_to_def prepare_receive_def prepare_mint_def prepare_burn_def
  prepare_receive_note_def prepare_import_note_def prepare_add_to_avail_def prepare_get_address_def
  prepare_sync_def

end
