(* ===== verification/Wallet_Props.thy ===== *)
theory Wallet_Props
  imports Wallet "HOL-Library.Multiset"
begin

text \<open>
  Lemmas about the wallet: what each operation does to the multiset of notes the wallet holds and
  to its balance, the selection of inputs as a minimum over all candidate pairs, and the invariant
  that the balance is the sum of the amounts held and that every note is spendable with the key
  stored beside it.
\<close>

section \<open>Notes held\<close>

definition all_notes :: "note_map \<Rightarrow> InputNote multiset" where
  "all_notes m = mset (concat (map snd m))"

definition notes_at :: "note_map \<Rightarrow> string \<Rightarrow> InputNote list" where
  "notes_at m t = (case map_of m t of Some notes \<Rightarrow> notes | None \<Rightarrow> [])"

definition amount_of :: "InputNote \<Rightarrow> nat" where
  "amount_of i = unat (value_u64 (in_note i))"

definition total_of :: "InputNote multiset \<Rightarrow> nat" where
  "total_of M = (\<Sum>i\<in>#M. amount_of i)"

definition owned :: "(base list \<Rightarrow> base) \<Rightarrow> InputNote \<Rightarrow> bool" where
  "owned P i \<longleftrightarrow> n_address (in_note i) = hash_merge P [in_secret_key i, ZERO]"

definition balance_ok :: "wallet \<Rightarrow> bool" where
  "balance_ok w \<longleftrightarrow> distinct (map fst (w_avail w)) \<and>
     unat (w_balance w) = total_of (all_notes (w_avail w))"

definition wallet_inv :: "(base list \<Rightarrow> base) \<Rightarrow> wallet \<Rightarrow> bool" where
  "wallet_inv P w \<longleftrightarrow> balance_ok w \<and> distinct (map fst (w_pending w)) \<and>
     (\<forall>i \<in># all_notes (w_avail w) + all_notes (w_pending w). owned P i)"

lemma total_of_simps [simp]:
  "total_of {#} = 0" "total_of (add_mset i M) = amount_of i + total_of M"
  "total_of (M + N) = total_of M + total_of N"
  by (simp_all add: total_of_def)

lemma total_of_mono: "M \<subseteq># N \<Longrightarrow> total_of M \<le> total_of N"
  by (auto simp: mset_subset_eq_exists_conv)

lemma all_notes_simps [simp]:
  "all_notes [] = {#}" "all_notes ((t, ns) # m) = mset ns + all_notes m"
  by (simp_all add: all_notes_def)

lemma notes_at_Nil [simp]: "notes_at [] t = []"
  by (simp add: notes_at_def)

lemma notes_at_Cons: "notes_at ((k, ns) # m) t = (if t = k then ns else notes_at m t)"
  by (simp add: notes_at_def)

lemma notes_at_None: "t \<notin> fst ` set m \<Longrightarrow> notes_at m t = []"
  by (auto simp: notes_at_def split: option.splits dest: map_of_SomeD) (metis fst_conv image_eqI map_of_SomeD)

lemma all_notes_update:
  "distinct (map fst m) \<Longrightarrow> all_notes (AList.update t ns m) + mset (notes_at m t) = all_notes m + mset ns"
  by (induction m) (auto simp: notes_at_Cons notes_at_None ac_simps)

lemma notes_at_sub: "mset (notes_at m t) \<subseteq># all_notes m"
  by (induction m) (auto simp: notes_at_Cons subset_mset.add_increasing subset_mset.add_increasing2)

lemma in_notes_at: "i \<in> set (notes_at m t) \<Longrightarrow> i \<in># all_notes m"
  using mset_subset_eqD [OF notes_at_sub, of i m t] by simp

lemma distinct_update_keys [simp]: "distinct (map fst m) \<Longrightarrow> distinct (map fst (AList.update t ns m))"
  by (rule distinct_update)

section \<open>Adding and taking a note\<close>

lemma uint_add_less_iff:
  fixes a b :: u64
  shows "uint a + uint b < 18446744073709551616 \<longleftrightarrow> unat a + unat b < 18446744073709551616"
  using of_nat_less_iff [of "unat a + unat b" 18446744073709551616, where ?'a = int] by simp

lemma unat_add_u64:
  fixes a b :: u64
  shows "unat a + unat b < 18446744073709551616 \<Longrightarrow> unat (a + b) = unat a + unat b"
  using unat_add_lem [of a b] by simp

lemma push_to_avail_cases:
  "push_to_avail t i w =
     (if unat (w_balance w) + amount_of i < 2 ^ 64
      then Ok (w\<lparr>w_avail := AList.update t (notes_at (w_avail w) t @ [i]) (w_avail w),
                 w_balance := w_balance w + value_u64 (in_note i)\<rparr>, w_balance w + value_u64 (in_note i))
      else Panic)"
  by (simp add: push_to_avail_def Let_def notes_at_def amount_of_def uint_add_less_iff)

lemma push_to_avail_spec:
  assumes "push_to_avail t i w = Ok (w', b)" and "balance_ok w"
  shows "balance_ok w'" and "all_notes (w_avail w') = add_mset i (all_notes (w_avail w))"
    and "w_pending w' = w_pending w" and "w_name w' = w_name w" and "w_pk w' = w_pk w"
    and "w_chain_id w' = w_chain_id w" and "w_storage_path w' = w_storage_path w"
proof -
  have lt: "unat (w_balance w) + amount_of i < 2 ^ 64"
    and w': "w' = w\<lparr>w_avail := AList.update t (notes_at (w_avail w) t @ [i]) (w_avail w),
                 w_balance := w_balance w + value_u64 (in_note i)\<rparr>"
    using assms(1) by (auto simp: push_to_avail_cases split: if_splits)
  have d: "distinct (map fst (w_avail w))" using assms(2) by (simp add: balance_ok_def)
  show held: "all_notes (w_avail w') = add_mset i (all_notes (w_avail w))"
    using all_notes_update [OF d, of t "notes_at (w_avail w) t @ [i]"] by (simp add: w' ac_simps)
  have "unat (w_balance w') = unat (w_balance w) + amount_of i"
    using lt by (simp add: w' amount_of_def unat_add_u64)
  then show "balance_ok w'" using assms(2) d held by (simp add: balance_ok_def w')
qed (use assms(1) in \<open>auto simp: push_to_avail_cases split: if_splits\<close>)

lemma take_note_Some:
  "take_note n is = Some (r, rest) \<Longrightarrow> in_note r = n \<and> mset is = add_mset r (mset rest)"
  by (induction "is" arbitrary: rest) (auto split: if_splits option.splits)

lemma take_note_None: "take_note n is = None \<longleftrightarrow> n \<notin> in_note ` set is"
  by (induction "is") (auto split: option.splits)

lemma pull_from_avail_cases:
  assumes "balance_ok w"
  shows "pull_from_avail t i w =
    (case take_note (in_note i) (notes_at (w_avail w) t) of
       None \<Rightarrow> Err CantPullNote
     | Some (r, rest) \<Rightarrow> Ok (w\<lparr>w_avail := AList.update t rest (w_avail w),
          w_balance := w_balance w - value_u64 (in_note r)\<rparr>, w_balance w - value_u64 (in_note r)))"
proof (cases "take_note (in_note i) (notes_at (w_avail w) t)")
  case None
  then show ?thesis by (auto simp: pull_from_avail_def notes_at_def split: option.splits)
next
  case (Some p)
  obtain r rest where p: "p = (r, rest)" by fastforce
  have "mset (notes_at (w_avail w) t) = add_mset r (mset rest)"
    using take_note_Some Some p by blast
  then have "r \<in># all_notes (w_avail w)" using notes_at_sub [of "w_avail w" t]
    by (metis in_notes_at set_mset_mset union_single_eq_member)
  then have "amount_of r \<le> total_of (all_notes (w_avail w))"
    using total_of_mono [of "{#r#}" "all_notes (w_avail w)"] by simp
  then have "value_u64 (in_note r) \<le> w_balance w"
    using assms by (simp add: balance_ok_def amount_of_def word_le_nat_alt)
  then show ?thesis
    using Some p by (auto simp: pull_from_avail_def notes_at_def Let_def split: option.splits)
qed

lemma pull_from_avail_spec:
  assumes "pull_from_avail t i w = Ok (w', b)" and "balance_ok w"
  shows "\<exists>r. in_note r = in_note i \<and> all_notes (w_avail w) = add_mset r (all_notes (w_avail w')) \<and>
    mset (notes_at (w_avail w) t) = add_mset r (mset (notes_at (w_avail w') t)) \<and>
    balance_ok w' \<and> w_pending w' = w_pending w \<and> w_name w' = w_name w"
proof -
  obtain r rest where take: "take_note (in_note i) (notes_at (w_avail w) t) = Some (r, rest)"
    and w': "w' = w\<lparr>w_avail := AList.update t rest (w_avail w),
          w_balance := w_balance w - value_u64 (in_note r)\<rparr>"
    using assms(1) by (auto simp: pull_from_avail_cases [OF assms(2)] split: option.splits)
  note r = take_note_Some [OF take]
  have d: "distinct (map fst (w_avail w))" using assms(2) by (simp add: balance_ok_def)
  have held: "all_notes (w_avail w) = add_mset r (all_notes (w_avail w'))"
    using all_notes_update [OF d, of t rest] r by (simp add: w')
  have "amount_of r \<le> unat (w_balance w)"
    using assms(2) by (simp add: balance_ok_def held)
  then have "unat (w_balance w') + amount_of r = unat (w_balance w)"
    by (simp add: w' amount_of_def unat_sub word_le_nat_alt)
  then have "balance_ok w'" using assms(2) d held by (simp add: balance_ok_def w')
  moreover have "notes_at (w_avail w') t = rest"
    by (simp add: w' notes_at_def update_conv')
  ultimately show ?thesis using r held by (auto simp: w')
qed

section \<open>Selection\<close>

text \<open>The candidates in the order in which the loops offer them.\<close>

fun candidates :: "(InputNote \<times> u64) list \<Rightarrow> selection list" where
  "candidates [] = []"
| "candidates (x # xs) =
     ([fst x], snd x) #
     map (\<lambda>y. ([fst x, fst y], snd x + snd y)) (filter (\<lambda>y. uint (snd x) + uint (snd y) < 2 ^ 64) xs) @
     candidates xs"

lemma fold_consider_pair:
  "fold (consider_pair amount x) ys best =
   fold (consider_candidate amount)
     (map (\<lambda>y. ([fst x, fst y], snd x + snd y)) (filter (\<lambda>y. uint (snd x) + uint (snd y) < 2 ^ 64) ys)) best"
  by (induction ys arbitrary: best) (auto simp: consider_pair_def)

lemma select_loop_fold: "select_loop amount xs best = fold (consider_candidate amount) (candidates xs) best"
  by (induction amount xs best rule: select_loop.induct) (simp_all add: fold_consider_pair)

text \<open>\<open>beats\<close> orders candidates by excess and then by the number of notes.\<close>

definition at_least_as_good :: "selection \<Rightarrow> selection \<Rightarrow> bool" where
  "at_least_as_good b c \<longleftrightarrow> snd b < snd c \<or> (snd b = snd c \<and> length (fst b) \<le> length (fst c))"

definition best_of :: "u64 \<Rightarrow> selection set \<Rightarrow> selection option \<Rightarrow> bool" where
  "best_of amount C r = (case r of
     None \<Rightarrow> \<forall>c \<in> C. snd c < amount
   | Some b \<Rightarrow> b \<in> C \<and> amount \<le> snd b \<and> (\<forall>c \<in> C. amount \<le> snd c \<longrightarrow> at_least_as_good b c))"

lemma sub_less_iff:
  fixes a b c :: u64
  shows "c \<le> a \<Longrightarrow> c \<le> b \<Longrightarrow> a - c < b - c \<longleftrightarrow> a < b"
  unfolding word_less_nat_alt word_le_nat_alt by (simp add: unat_sub word_le_nat_alt) linarith

lemma good_trans: "at_least_as_good a b \<Longrightarrow> at_least_as_good b c \<Longrightarrow> at_least_as_good a c"
  by (auto simp: at_least_as_good_def)

lemma consider_best:
  assumes "best_of amount C r"
  shows "best_of amount (insert c C) (consider_candidate amount c r)"
proof (cases r)
  case None
  then show ?thesis using assms
    by (cases c) (auto simp: best_of_def consider_candidate_def at_least_as_good_def not_less)
next
  case (Some b)
  have b: "b \<in> C" "amount \<le> snd b" "\<And>c. c \<in> C \<Longrightarrow> amount \<le> snd c \<Longrightarrow> at_least_as_good b c"
    using assms Some by (auto simp: best_of_def)
  show ?thesis
  proof (cases "snd c < amount")
    case True
    then show ?thesis using b Some by (cases c) (auto simp: best_of_def consider_candidate_def)
  next
    case False
    then have c: "amount \<le> snd c" by simp
    have step: "consider_candidate amount c r =
        (if snd c < snd b \<or> (snd c = snd b \<and> length (fst c) < length (fst b)) then Some c else Some b)"
      using False b(2) c Some sub_less_iff [OF c b(2)]
      by (cases c, cases b) (auto simp: consider_candidate_def Let_def)
    show ?thesis
    proof (cases "snd c < snd b \<or> (snd c = snd b \<and> length (fst c) < length (fst b))")
      case True
      then have "at_least_as_good c b" by (auto simp: at_least_as_good_def)
      then have "at_least_as_good c d" if "d \<in> C" "amount \<le> snd d" for d
        using good_trans b(3) that by blast
      moreover have "at_least_as_good c c" by (simp add: at_least_as_good_def)
      ultimately show ?thesis using step True c by (simp add: best_of_def)
    next
      case False
      then have "at_least_as_good b c" by (auto simp: at_least_as_good_def)
      then show ?thesis using step False b by (simp add: best_of_def)
    qed
  qed
qed

lemma fold_consider_best:
  "best_of amount C r \<Longrightarrow> best_of amount (C \<union> set cs) (fold (consider_candidate amount) cs r)"
proof (induction cs arbitrary: C r)
  case (Cons c cs)
  show ?case using Cons.IH [OF consider_best [OF Cons.prems, of c]] by simp
qed simp

lemma select_loop_best: "best_of amount (set (candidates xs)) (select_loop amount xs None)"
  using fold_consider_best [of amount "{}" None "candidates xs"]
  by (simp add: select_loop_fold best_of_def)

abbreviation priced :: "InputNote list \<Rightarrow> (InputNote \<times> u64) list" where
  "priced ns \<equiv> map (\<lambda>i. (i, value_u64 (in_note i))) ns"

lemma candidate_sound:
  "c \<in> set (candidates (priced ns)) \<Longrightarrow>
     mset (fst c) \<subseteq># mset ns \<and> unat (snd c) = total_of (mset (fst c)) \<and>
     (\<exists>a. fst c = [a] \<or> (\<exists>b. fst c = [a, b]))"
proof (induction ns)
  case (Cons a ns)
  then consider "c = ([a], value_u64 (in_note a))"
    | b where "b \<in> set ns" "uint (value_u64 (in_note a)) + uint (value_u64 (in_note b)) < 2 ^ 64"
        "c = ([a, b], value_u64 (in_note a) + value_u64 (in_note b))"
    | "c \<in> set (candidates (priced ns))" by auto
  then show ?case
  proof cases
    case 3
    then show ?thesis using Cons.IH subset_mset.order_trans by fastforce
  qed (auto simp: amount_of_def unat_add_u64 uint_add_less_iff)
qed simp

lemma candidate_single: "i \<in> set ns \<Longrightarrow> ([i], value_u64 (in_note i)) \<in> set (candidates (priced ns))"
  by (induction ns) auto

lemma candidate_head:
  assumes "q \<in> set ns" and "amount_of p + amount_of q < 2 ^ 64"
  shows "([p, q], value_u64 (in_note p) + value_u64 (in_note q)) \<in> set (candidates (priced (p # ns)))"
proof -
  have "(q, value_u64 (in_note q)) \<in> set (filter (\<lambda>y. uint (value_u64 (in_note p)) + uint (snd y) < 2 ^ 64) (priced ns))"
    using assms by (simp add: amount_of_def uint_add_less_iff)
  then show ?thesis by (force simp del: set_filter)
qed

lemma candidate_pair:
  assumes "{#a, b#} \<subseteq># mset ns" and "amount_of a + amount_of b < 2 ^ 64"
  shows "\<exists>c \<in> set (candidates (priced ns)). unat (snd c) = amount_of a + amount_of b \<and> length (fst c) = 2"
  using assms(1)
proof (induction ns)
  case (Cons x ns)
  have pair: ?case if "x = p" "q \<in> set ns" "(p, q) = (a, b) \<or> (p, q) = (b, a)" for p q
    using that assms(2) candidate_head [of q ns p]
    by (intro bexI [of _ "([p, q], value_u64 (in_note p) + value_u64 (in_note q))"])
      (auto simp: amount_of_def unat_add_u64)
  consider "{#a, b#} \<subseteq># mset ns" | "x = a" "b \<in> set ns" | "x = b" "a \<in> set ns"
    using Cons.prems by (cases "x = a"; cases "x = b")
      (auto simp: insert_subset_eq_iff subset_mset.diff_add_assoc2 split: if_splits)
  then show ?case
  proof cases
    case 1
    then show ?thesis using Cons.IH by auto
  qed (use pair in blast)+
qed simp

section \<open>Spending\<close>

definition held :: "wallet \<Rightarrow> Note multiset" where
  "held w = image_mset in_note (all_notes (w_avail w))"

definition held_at :: "wallet \<Rightarrow> string \<Rightarrow> Note multiset" where
  "held_at w t = image_mset in_note (mset (notes_at (w_avail w) t))"

definition worth :: "Note multiset \<Rightarrow> nat" where
  "worth N = (\<Sum>n\<in>#N. unat (value_u64 n))"

text \<open>One or two notes that cover \<open>amount\<close> without overflowing 64 bits.\<close>

definition payable :: "nat \<Rightarrow> Note multiset \<Rightarrow> bool" where
  "payable amount N \<longleftrightarrow> size N \<in> {1, 2} \<and> amount \<le> worth N \<and> worth N < 2 ^ 64"

definition best_payment :: "nat \<Rightarrow> Note multiset \<Rightarrow> Note multiset \<Rightarrow> bool" where
  "best_payment amount H N \<longleftrightarrow> N \<subseteq># H \<and> payable amount N \<and>
     (\<forall>M. M \<subseteq># H \<and> payable amount M \<longrightarrow> worth N < worth M \<or> (worth N = worth M \<and> size N \<le> size M))"

definition input_notes_are :: "InputNote \<times> InputNote \<Rightarrow> Note multiset \<Rightarrow> bool" where
  "input_notes_are ins N \<longleftrightarrow>
     (N = {#in_note (fst ins)#} \<and> snd ins = padding_input_note) \<or>
     N = {#in_note (fst ins), in_note (snd ins)#}"

lemma worth_simps [simp]:
  "worth {#} = 0" "worth (add_mset n N) = unat (value_u64 n) + worth N" "worth (M + N) = worth M + worth N"
  by (simp_all add: worth_def)

lemma total_worth: "total_of M = worth (image_mset in_note M)"
  by (induction M) (simp_all add: amount_of_def)

lemma worth_mono: "M \<subseteq># N \<Longrightarrow> worth M \<le> worth N"
  by (auto simp: mset_subset_eq_exists_conv)

lemma balance_worth: "balance_ok w \<Longrightarrow> unat (w_balance w) = worth (held w)"
  by (simp add: balance_ok_def held_def total_worth)

lemma held_at_sub: "held_at w t \<subseteq># held w"
  unfolding held_at_def held_def by (rule image_mset_subseteq_mono [OF notes_at_sub])

lemma pull_selected:
  assumes "balance_ok w" and "image_mset in_note (mset ss) \<subseteq># held_at w t"
  shows "\<exists>w'. fold_o (\<lambda>w i. bind_o (pull_from_avail t i w) (\<lambda>(w, _). Ok w)) w ss = Ok w' \<and>
    held w = held w' + image_mset in_note (mset ss) \<and> balance_ok w' \<and>
    all_notes (w_avail w') \<subseteq># all_notes (w_avail w) \<and> w_pending w' = w_pending w"
  using assms
proof (induction ss arbitrary: w)
  case (Cons i ss)
  have "in_note i \<in># held_at w t" using Cons.prems(2) by (simp add: insert_subset_eq_iff)
  then have "take_note (in_note i) (notes_at (w_avail w) t) \<noteq> None"
    by (auto simp: take_note_None held_at_def)
  then obtain w1 b where pull: "pull_from_avail t i w = Ok (w1, b)"
    by (auto simp: pull_from_avail_cases [OF Cons.prems(1)])
  obtain r where r: "in_note r = in_note i" "all_notes (w_avail w) = add_mset r (all_notes (w_avail w1))"
    "mset (notes_at (w_avail w) t) = add_mset r (mset (notes_at (w_avail w1) t))"
    "balance_ok w1" "w_pending w1 = w_pending w"
    using pull_from_avail_spec [OF pull Cons.prems(1)] by blast
  have "image_mset in_note (mset ss) \<subseteq># held_at w1 t"
    using Cons.prems(2) r(1,3) by (simp add: held_at_def)
  from Cons.IH [OF r(4) this] obtain w' where
    "fold_o (\<lambda>w i. bind_o (pull_from_avail t i w) (\<lambda>(w, _). Ok w)) w1 ss = Ok w'"
    "held w1 = held w' + image_mset in_note (mset ss)" "balance_ok w'"
    "all_notes (w_avail w') \<subseteq># all_notes (w_avail w1)" "w_pending w' = w_pending w1" by blast
  then show ?case
    using pull r subset_mset.order_trans [of "all_notes (w_avail w')" "all_notes (w_avail w1)" "all_notes (w_avail w)"]
    by (simp add: held_def)
qed simp

lemma size_two_mset: "size M = 2 \<Longrightarrow> \<exists>a b. M = {#a, b#}"
  by (metis Suc_1 size_1_singleton_mset size_add_mset size_eq_Suc_imp_eq_union add_left_cancel plus_1_eq_Suc)

lemma payable_candidate:
  assumes "N \<subseteq># image_mset in_note (mset ns)" and "payable amount N"
  shows "\<exists>c \<in> set (candidates (priced ns)). unat (snd c) = worth N \<and> length (fst c) = size N"
proof -
  obtain M where M: "M \<subseteq># mset ns" "N = image_mset in_note M"
    using assms(1) by (metis image_mset_eq_plusD mset_subset_eq_exists_conv)
  have "size M = 1 \<or> size M = 2" using assms(2) M(2) by (auto simp: payable_def)
  then consider i where "M = {#i#}" | a b where "M = {#a, b#}"
    using size_1_singleton_mset size_two_mset by blast
  then show ?thesis
  proof cases
    case (1 i)
    then have "([i], value_u64 (in_note i)) \<in> set (candidates (priced ns))"
      using M(1) by (intro candidate_single) simp
    then show ?thesis using 1 M(2) by (intro bexI) simp_all
  next
    case (2 a b)
    then show ?thesis
      using candidate_pair [of a b ns] M assms(2) by (auto simp: payable_def amount_of_def)
  qed
qed

lemma selected_inputs_ok:
  assumes "\<exists>a. ss = [a] \<or> (\<exists>b. ss = [a, b])"
  shows "\<exists>ins. selected_inputs ss = Ok ins \<and> input_notes_are ins (image_mset in_note (mset ss)) \<and> fst ins = hd ss"
  using assms by (auto simp: input_notes_are_def)

lemma select_loop_payment:
  assumes "map_of (w_avail w) t = Some ns"
  shows "case select_loop amount (priced ns) None of
      None \<Rightarrow> \<forall>N. N \<subseteq># held_at w t \<longrightarrow> \<not> payable (unat amount) N
    | Some (ss, tot) \<Rightarrow> best_payment (unat amount) (held_at w t) (image_mset in_note (mset ss)) \<and>
        unat tot = worth (image_mset in_note (mset ss)) \<and> (\<exists>a. ss = [a] \<or> (\<exists>b. ss = [a, b]))"
proof -
  have H: "held_at w t = image_mset in_note (mset ns)" using assms by (simp add: held_at_def notes_at_def)
  note best = select_loop_best [of amount "priced ns"]
  show ?thesis
  proof (cases "select_loop amount (priced ns) None")
    case None
    have "\<not> payable (unat amount) N" if sub: "N \<subseteq># held_at w t" for N
    proof
      assume p: "payable (unat amount) N"
      obtain c where "c \<in> set (candidates (priced ns))" "unat (snd c) = worth N"
        using payable_candidate [OF sub [unfolded H] p] by blast
      moreover have "snd c < amount" using best None calculation(1) by (auto simp: best_of_def)
      ultimately show False using p by (simp add: payable_def word_less_nat_alt)
    qed
    then show ?thesis by (simp add: None)
  next
    case (Some p)
    obtain ss tot where p: "p = (ss, tot)" by fastforce
    have c: "(ss, tot) \<in> set (candidates (priced ns))" "amount \<le> tot"
      and min: "\<And>c. c \<in> set (candidates (priced ns)) \<Longrightarrow> amount \<le> snd c \<Longrightarrow> at_least_as_good (ss, tot) c"
      using best Some p by (auto simp: best_of_def)
    note sound = candidate_sound [OF c(1)]
    let ?N = "image_mset in_note (mset ss)"
    have tot: "unat tot = worth ?N" using sound by (simp add: total_worth)
    have "payable (unat amount) ?N"
      using sound c(2) tot unsigned_less [of tot, where ?'a = nat] by (auto simp: payable_def word_le_nat_alt)
    moreover have "worth ?N < worth M \<or> (worth ?N = worth M \<and> size ?N \<le> size M)"
      if sub: "M \<subseteq># held_at w t" and pay: "payable (unat amount) M" for M
    proof -
      obtain d where d: "d \<in> set (candidates (priced ns))" "unat (snd d) = worth M" "length (fst d) = size M"
        using payable_candidate [OF sub [unfolded H] pay] by blast
      have "amount \<le> snd d" using pay d(2) by (simp add: payable_def word_le_nat_alt)
      from min [OF d(1) this] show ?thesis
        using d tot by (auto simp: at_least_as_good_def word_less_nat_alt)
    qed
    moreover have "?N \<subseteq># held_at w t" using sound H by (simp add: image_mset_subseteq_mono)
    ultimately show ?thesis using Some p tot sound by (simp add: best_payment_def)
  qed
qed

end
