(* ===== verification/Wallet_Theorems.thy ===== *)
theory Wallet_Theorems
  imports Wallet_Props
begin

text \<open>
  The properties of the wallet: what a payment spends, what it leaves, that the balance is the sum
  of the notes held and every note has its key along every run of the wallet, what synchronisation
  moves, and where requesting an address or importing a note loses track of a note.
\<close>

section \<open>Payments\<close>

definition spends ::
    "(base list \<Rightarrow> base) \<Rightarrow> element \<Rightarrow> string \<Rightarrow> u64 \<Rightarrow> wallet \<Rightarrow> wallet \<Rightarrow> InputNote \<times> InputNote \<Rightarrow> Note \<Rightarrow> bool" where
  "spends P pk t amount w w' ins change \<longleftrightarrow> (\<exists>N.
     best_payment (unat amount) (held_at w t) N \<and> input_notes_are ins N \<and>
     (if worth N = unat amount then change = padding_note \<and> held w = held w' + N
      else change = in_note (make_change_note P pk (in_note (fst ins)) (of_nat (worth N - unat amount))) \<and>
        held w + {#change#} = held w' + N))"

lemma make_change_owned: "owned P (make_change_note P pk origin amount)"
  by (simp add: owned_def make_change_note_def)

lemma value_u64_ucast [simp]: "fst (to_u64_array (ucast (a :: u64))) = a"
  by (simp add: to_u64_array_def to_words_def, rule bit_word_eqI, simp add: bit_ucast_iff)

lemma amount_make_change [simp]: "amount_of (make_change_note P pk origin a) = unat a"
  by (simp add: amount_of_def value_u64_def make_change_note_def)

lemma asset_notes_empty:
  assumes "asset_notes t w = Err e"
  shows "(\<exists>m. e = LowBalance m) \<and> held_at w t = {#}"
  using assms by (auto simp: asset_notes_def held_at_def notes_at_def split: option.splits list.splits)

lemma change_step:
  fixes P :: "base list \<Rightarrow> base" and pk :: element and origin :: Note
  assumes bal: "balance_ok w1" and fit: "unat amount \<le> unat tot" and ne: "tot \<noteq> amount"
    and le: "worth (held w1) + unat tot < 2 ^ 64"
  defines "c \<equiv> make_change_note P pk origin (tot - amount)"
  shows "\<exists>w' b. push_to_avail t c w1 = Ok (w', b) \<and> balance_ok w' \<and> held w' = add_mset (in_note c) (held w1) \<and>
    all_notes (w_avail w') = add_mset c (all_notes (w_avail w1)) \<and> w_pending w' = w_pending w1"
proof -
  have "unat (w_balance w1) + amount_of c < 2 ^ 64"
    using le fit balance_worth [OF bal] by (simp add: c_def unat_sub word_le_nat_alt)
  then obtain w' b where push: "push_to_avail t c w1 = Ok (w', b)" by (simp add: push_to_avail_cases)
  show ?thesis
    using push push_to_avail_spec [OF push bal] by (simp add: held_def)
qed

lemma select_spec:
  assumes bal: "balance_ok w"
  shows "case select_input_notes P pk t amount w of
      Ok (w', ins, change) \<Rightarrow> spends P pk t amount w w' ins change \<and> balance_ok w' \<and>
        w_pending w' = w_pending w \<and> (\<forall>i \<in># all_notes (w_avail w'). i \<in># all_notes (w_avail w) \<or> owned P i)
    | Err e \<Rightarrow> (\<exists>m. e = LowBalance m) \<and> (\<forall>N. N \<subseteq># held_at w t \<longrightarrow> \<not> payable (unat amount) N)
    | Panic \<Rightarrow> False"
proof (cases "asset_notes t w")
  case (Err e)
  then show ?thesis using asset_notes_empty [OF Err] by (auto simp: select_input_notes_def payable_def)
next
  case Panic
  then show ?thesis by (simp add: asset_notes_def split: option.splits list.splits)
next
  case (Ok ns)
  then have ns: "map_of (w_avail w) t = Some ns" by (auto simp: asset_notes_def split: option.splits list.splits)
  note sel = select_loop_payment [OF ns, of amount]
  show ?thesis
  proof (cases "select_loop amount (priced ns) None")
    case None
    then show ?thesis using sel Ok by (simp add: select_input_notes_def)
  next
    case (Some p)
    obtain ss tot where p: "p = (ss, tot)" by fastforce
    let ?N = "image_mset in_note (mset ss)"
    have best: "best_payment (unat amount) (held_at w t) ?N" and tot: "unat tot = worth ?N"
      and shape: "\<exists>a. ss = [a] \<or> (\<exists>b. ss = [a, b])"
      using sel by (simp_all add: Some p)
    have fit: "unat amount \<le> unat tot" using best tot by (simp add: best_payment_def payable_def)
    obtain w1 where pull: "fold_o (\<lambda>w i. bind_o (pull_from_avail t i w) (\<lambda>(w, _). Ok w)) w ss = Ok w1"
      and w1: "held w = held w1 + ?N" "balance_ok w1" "all_notes (w_avail w1) \<subseteq># all_notes (w_avail w)"
        "w_pending w1 = w_pending w"
      using pull_selected [OF bal, of ss t] best unfolding best_payment_def by blast
    obtain ins where ins: "selected_inputs ss = Ok ins" "input_notes_are ins ?N" "fst ins = hd ss"
      using selected_inputs_ok [OF shape] by blast
    show ?thesis
    proof (cases "tot = amount")
      case True
      then show ?thesis
        using Ok Some p pull ins best tot w1 mset_subset_eqD [OF w1(3)]
        by (auto simp: select_input_notes_def spends_def)
    next
      case False
      have "worth (held w1) + unat tot < 2 ^ 64"
        using w1(1) tot balance_worth [OF bal] unsigned_less [of "w_balance w", where ?'a = nat] by simp
      from change_step [OF w1(2) fit False this, of t P pk "in_note (hd ss)"]
      obtain w' b where w': "push_to_avail t (make_change_note P pk (in_note (hd ss)) (tot - amount)) w1 = Ok (w', b)"
        "balance_ok w'" "held w' = add_mset (in_note (make_change_note P pk (in_note (hd ss)) (tot - amount))) (held w1)"
        "all_notes (w_avail w') = add_mset (make_change_note P pk (in_note (hd ss)) (tot - amount)) (all_notes (w_avail w1))"
        "w_pending w' = w_pending w1"
        by blast
      have diff: "of_nat (worth ?N - unat amount) = tot - amount"
        using fit tot [symmetric] by (simp add: of_nat_diff)
      have "worth ?N \<noteq> unat amount" using False tot [symmetric] by (simp add: unsigned_word_eqI word_unat_eq_iff)
      then have "spends P pk t amount w w' ins (in_note (make_change_note P pk (in_note (hd ss)) (tot - amount)))"
        unfolding spends_def using best ins w1(1) w'(3) diff by (intro exI [of _ ?N]) simp
      then show ?thesis
        using Ok Some p pull ins False w' w1(4) mset_subset_eqD [OF w1(3)] make_change_owned
        by (auto simp: select_input_notes_def Let_def)
    qed
  qed
qed

section \<open>Synchronisation\<close>

lemma fold_remove_at_filter:
  "fold remove_at (rev (filter (\<lambda>i. p (xs ! i)) [0..<length xs])) xs = filter (\<lambda>x. \<not> p x) xs"
proof (induction xs rule: rev_induct)
  case (snoc x xs)
  have idx: "filter (\<lambda>i. p ((xs @ [x]) ! i)) [0..<length xs] = filter (\<lambda>i. p (xs ! i)) [0..<length xs]"
    by (rule filter_cong) (auto simp: nth_append)
  have app: "fold remove_at js (ys @ [x]) = fold remove_at js ys @ [x]"
    if "sorted_wrt (>) js" "\<forall>j \<in> set js. j < length ys" for js ys
    using that
  proof (induction js arbitrary: ys)
    case (Cons j js)
    have "length (remove_at j ys) = length ys - 1" using Cons.prems by (simp add: remove_at_def)
    then have "\<forall>i \<in> set js. i < length (remove_at j ys)" using Cons.prems by fastforce
    moreover have "remove_at j (ys @ [x]) = remove_at j ys @ [x]" using Cons.prems by (simp add: remove_at_def)
    ultimately show ?case using Cons by simp
  qed simp
  have "sorted_wrt (<) (filter (\<lambda>i. p (xs ! i)) [0..<length xs])" by (intro sorted_wrt_filter) simp
  then have desc: "sorted_wrt (>) (rev (filter (\<lambda>i. p (xs ! i)) [0..<length xs]))" by (simp add: sorted_wrt_rev)
  have "remove_at (length xs) (xs @ [x]) = xs" by (simp add: remove_at_def)
  then show ?case using snoc.IH app [OF desc, of xs] by (simp add: idx)
qed simp

lemma remove_matching_filter: "remove_matching P c ns = filter (\<lambda>i. \<not> matching P c i) ns"
  unfolding remove_matching_def match_indices_def by (rule fold_remove_at_filter)

lemma nth_match_indices: "map ((!) ns) (match_indices P c ns) = filter (matching P c) ns"
  unfolding match_indices_def by (metis (no_types, lifting) filter_cong filter_map map_nth o_apply)

lemma all_notes_concat: "mset (concat (map (\<lambda>(t, ns). filter q ns) m)) = filter_mset q (all_notes m)"
  by (induction m) (auto simp: mset_filter)

lemma all_notes_map_filter: "all_notes (map (\<lambda>(t, ns). (t, filter q ns)) m) = filter_mset q (all_notes m)"
  by (induction m) (auto simp: mset_filter)

lemma push_all_spec:
  assumes "fold_o (\<lambda>w i. bind_o (citrea_ticker_from_contract (n_contract (in_note i))) (\<lambda>ticker.
             bind_o (push_to_avail ticker i w) (\<lambda>(w, b). Ok w))) w ns = Ok w'"
    and "balance_ok w"
  shows "balance_ok w' \<and> w_pending w' = w_pending w \<and> all_notes (w_avail w') = all_notes (w_avail w) + mset ns"
  using assms
proof (induction ns arbitrary: w)
  case (Cons i ns)
  obtain t w1 b where step: "push_to_avail t i w = Ok (w1, b)"
    and rest: "fold_o (\<lambda>w i. bind_o (citrea_ticker_from_contract (n_contract (in_note i))) (\<lambda>ticker.
             bind_o (push_to_avail ticker i w) (\<lambda>(w, b). Ok w))) w1 ns = Ok w'"
    using Cons.prems(1) by (auto simp: outcome_simps)
  note s = push_to_avail_spec [OF step Cons.prems(2)]
  show ?case using Cons.IH [OF rest s(1)] s by simp
qed simp

lemma sync_commitment_spec:
  assumes "sync_commitment P w c = Ok w'" and "balance_ok w"
  shows "balance_ok w' \<and> map fst (w_pending w') = map fst (w_pending w) \<and>
    all_notes (w_pending w') = filter_mset (\<lambda>i. commitment P (in_note i) = ZERO \<or> commitment P (in_note i) \<noteq> c) (all_notes (w_pending w)) \<and>
    all_notes (w_avail w') = all_notes (w_avail w) +
      filter_mset (\<lambda>i. \<not> (commitment P (in_note i) = ZERO \<or> commitment P (in_note i) \<noteq> c)) (all_notes (w_pending w))"
proof (cases "c = ZERO")
  case True
  then show ?thesis using assms by (auto simp: sync_commitment_def filter_mset_eq_conv)
next
  case False
  define w1 where "w1 = w\<lparr>w_pending := map (\<lambda>(t, ns). (t, filter (\<lambda>i. \<not> matching P c i) ns)) (w_pending w)\<rparr>"
  have push: "fold_o (\<lambda>w i. bind_o (citrea_ticker_from_contract (n_contract (in_note i))) (\<lambda>ticker.
             bind_o (push_to_avail ticker i w) (\<lambda>(w, b). Ok w))) w1
      (concat (map (\<lambda>(t, ns). filter (matching P c) ns) (w_pending w))) = Ok w'"
    using assms(1) False unfolding sync_commitment_def w1_def remove_matching_filter nth_match_indices
    by (simp add: Let_def)
  have "balance_ok w1" using assms(2) by (simp add: balance_ok_def w1_def)
  from push_all_spec [OF push this] show ?thesis
    using False by (auto simp: w1_def all_notes_concat all_notes_map_filter matching_def comp_def case_prod_beta
        intro!: filter_mset_cong)
qed

definition confirmed_by :: "(base list \<Rightarrow> base) \<Rightarrow> utxo_proof list \<Rightarrow> InputNote \<Rightarrow> bool" where
  "confirmed_by P txns i \<longleftrightarrow> commitment P (in_note i) \<noteq> ZERO \<and>
     (\<exists>t \<in> set txns. commitment P (in_note i) \<in> {fst (output_commitments (up_public_inputs t)),
                                               snd (output_commitments (up_public_inputs t))})"

definition output_list :: "utxo_proof list \<Rightarrow> element list" where
  "output_list txns = concat (map (\<lambda>t. [fst (output_commitments (up_public_inputs t)),
                                         snd (output_commitments (up_public_inputs t))]) txns)"

lemma wallet_sync_fold: "fold_o (sync_txn P) w txns = fold_o (sync_commitment P) w (output_list txns)"
proof (induction txns arbitrary: w)
  case (Cons t txns)
  then show ?case
    by (simp add: output_list_def sync_txn_def fold_o_append bind_o_assoc case_prod_beta del: fold_o.simps)
      (simp add: bind_o_assoc)
qed (simp add: output_list_def)

lemma sync_outputs_spec:
  assumes "fold_o (sync_commitment P) w cs = Ok w'" and "balance_ok w"
  shows "balance_ok w' \<and> map fst (w_pending w') = map fst (w_pending w) \<and>
    all_notes (w_pending w') = filter_mset (\<lambda>i. commitment P (in_note i) = ZERO \<or> commitment P (in_note i) \<notin> set cs) (all_notes (w_pending w)) \<and>
    all_notes (w_avail w') = all_notes (w_avail w) +
      filter_mset (\<lambda>i. \<not> (commitment P (in_note i) = ZERO \<or> commitment P (in_note i) \<notin> set cs)) (all_notes (w_pending w))"
  using assms
proof (induction cs arbitrary: w)
  case Nil
  then show ?case by simp
next
  case (Cons c cs)
  obtain w1 where step: "sync_commitment P w c = Ok w1" and rest: "fold_o (sync_commitment P) w1 cs = Ok w'"
    using Cons.prems(1) by (auto simp: outcome_simps)
  note one = sync_commitment_spec [OF step Cons.prems(2)]
  have "balance_ok w1" using one by blast
  note IH = Cons.IH [OF rest this]
  let ?Q = "all_notes (w_pending w)"
  have split: "filter_mset (\<lambda>i. \<not> (p i \<or> q i)) M + filter_mset (\<lambda>i. \<not> (p i \<or> r i)) (filter_mset (\<lambda>i. p i \<or> q i) M)
      = filter_mset (\<lambda>i. \<not> (p i \<or> (q i \<and> r i))) M" for p q r and M :: "InputNote multiset"
    by (induction M) auto
  show ?case
    using one IH split [of "\<lambda>i. commitment P (in_note i) = ZERO" "\<lambda>i. commitment P (in_note i) \<noteq> c"
        ?Q "\<lambda>i. commitment P (in_note i) \<notin> set cs"]
    by (auto simp: filter_filter_mset add.assoc intro!: filter_mset_cong)
qed

lemma wallet_sync_spec:
  assumes "wallet_sync P txns w = Ok (w', u)" and "balance_ok w"
  shows "balance_ok w' \<and> map fst (w_pending w') = map fst (w_pending w) \<and>
    all_notes (w_pending w') = filter_mset (\<lambda>i. \<not> confirmed_by P txns i) (all_notes (w_pending w)) \<and>
    all_notes (w_avail w') = all_notes (w_avail w) + filter_mset (confirmed_by P txns) (all_notes (w_pending w))"
proof -
  have "fold_o (sync_commitment P) w (output_list txns) = Ok w'"
    using assms(1) by (auto simp: wallet_sync_def wallet_sync_fold outcome_simps)
  moreover have "confirmed_by P txns =
      (\<lambda>i. \<not> (commitment P (in_note i) = ZERO \<or> commitment P (in_note i) \<notin> set (output_list txns)))"
    by (auto simp: confirmed_by_def output_list_def fun_eq_iff)
  ultimately show ?thesis using sync_outputs_spec [of P w "output_list txns" w'] assms(2) by simp
qed

section \<open>Runs of the wallet\<close>

lemma take_address_Some:
  "take_address a is = Some (r, rest) \<Longrightarrow> n_address (in_note r) = a \<and> r \<in> set is \<and> mset is = add_mset r (mset rest)"
  by (induction "is" arbitrary: rest) (auto split: if_splits option.splits)

lemma take_address_None: "take_address a is = None \<longleftrightarrow> (\<forall>i \<in> set is. n_address (in_note i) \<noteq> a)"
  by (induction "is") (auto split: option.splits)

lemma find_pending_Some:
  assumes "find_pending a m = Some (t, r, rest)" and "distinct (map fst m)"
  shows "n_address (in_note r) = a \<and> mset (notes_at m t) = add_mset r (mset rest)"
  using assms
proof (induction m)
  case (Cons x m)
  obtain k ns where x: "x = (k, ns)" by fastforce
  show ?case
  proof (cases "take_address a ns")
    case None
    then have "find_pending a m = Some (t, r, rest)" using Cons.prems(1) x by simp
    moreover from this have "t \<in> fst ` set m"
      by (induction m) (auto split: option.splits)
    ultimately show ?thesis using Cons x by (auto simp: notes_at_Cons)
  next
    case (Some p)
    then show ?thesis using Cons.prems(1) x take_address_Some [of a ns r rest] by (auto simp: notes_at_Cons)
  qed
qed simp

lemma find_pending_None: "find_pending a m = None \<longleftrightarrow> (\<forall>i \<in># all_notes m. n_address (in_note i) \<noteq> a)"
  by (induction m) (auto simp: take_address_None split: option.splits dest!: take_address_Some)

text \<open>The operations the commands perform, each staged from the wallet loaded from its file.\<close>

inductive wallet_run :: "(base list \<Rightarrow> base) \<Rightarrow> wallet \<Rightarrow> bool" for P where
  run_new: "wallet_run P (wallet_new chain_id name pk)"
| run_mint: "wallet_run P w \<Longrightarrow> prepare_mint P pk amount ticker w = Ok (w', u) \<Longrightarrow> wallet_run P w'"
| run_receive: "wallet_run P w \<Longrightarrow> prepare_receive P pk i w = Ok (w', u) \<Longrightarrow> wallet_run P w'"
| run_spend: "wallet_run P w \<Longrightarrow> prepare_spend_to P pk n w = Ok (w', u) \<Longrightarrow> wallet_run P w'"
| run_burn: "wallet_run P w \<Longrightarrow> prepare_burn i evm sub w = Ok (w', u) \<Longrightarrow> wallet_run P w'"
| run_import: "wallet_run P w \<Longrightarrow> prepare_import_note n w = Ok (w', ()) \<Longrightarrow> wallet_run P w'"
| run_keep: "wallet_run P w \<Longrightarrow> prepare_receive_note P pk amount ticker w = Ok (w1, i) \<Longrightarrow>
    prepare_add_to_avail i w2 = Ok (w', ()) \<Longrightarrow> wallet_run P w2 \<Longrightarrow> wallet_run P w'"
| run_address: "wallet_run P w \<Longrightarrow> prepare_get_address P pk psi amount ticker w = Ok (w', a) \<Longrightarrow> wallet_run P w'"
| run_sync: "wallet_run P w \<Longrightarrow> prepare_sync P txns w = Ok (w', ()) \<Longrightarrow> wallet_run P w'"

lemma wallet_inv_push:
  assumes "push_to_avail t i w = Ok (w', b)" and "wallet_inv P w" and "owned P i"
  shows "wallet_inv P w'"
  using push_to_avail_spec [OF assms(1)] assms(2,3) by (auto simp: wallet_inv_def)

lemma receive_note_owned: "receive_note P pk amount t w = Ok (w', i) \<Longrightarrow> w' = w \<and> owned P i"
  by (auto simp: receive_note_def owned_def outcome_simps)

lemma import_note_inv:
  assumes "import_note n w = Ok (w', u)" and inv: "wallet_inv P w"
  shows "wallet_inv P w'"
proof -
  obtain t r rest b where f: "find_pending (n_address n) (w_pending w) = Some (t, r, rest)"
    and push: "push_to_avail t \<lparr>in_note = n, in_secret_key = in_secret_key r\<rparr>
        (w\<lparr>w_pending := AList.update t rest (w_pending w)\<rparr>) = Ok (w', b)"
    using assms(1) by (auto simp: import_note_def get_note_amount_def outcome_simps split: option.splits)
  have d: "distinct (map fst (w_pending w))" using inv by (simp add: wallet_inv_def)
  note r = find_pending_Some [OF f d]
  have split: "all_notes (w_pending w) = add_mset r (all_notes (AList.update t rest (w_pending w)))"
    using all_notes_update [OF d, of t rest] r by simp
  then have "owned P r" using inv by (simp add: wallet_inv_def)
  moreover have "wallet_inv P (w\<lparr>w_pending := AList.update t rest (w_pending w)\<rparr>)"
    using inv d split by (auto simp: wallet_inv_def balance_ok_def)
  ultimately show ?thesis using wallet_inv_push [OF push] r by (simp add: owned_def)
qed

lemma get_address_inv:
  assumes "get_address P pk psi amount t w = Ok (w', a)" and inv: "wallet_inv P w"
  shows "wallet_inv P w'"
proof -
  obtain i where w': "w' = w\<lparr>w_pending := AList.update t [i] (w_pending w)\<rparr>" and i: "owned P i"
    using assms(1) by (auto simp: get_address_def owned_def Let_def outcome_simps)
  have d: "distinct (map fst (w_pending w))" using inv by (simp add: wallet_inv_def)
  have "all_notes (w_pending w') \<subseteq># add_mset i (all_notes (w_pending w))"
    using all_notes_update [OF d, of t "[i]"] by (metis mset.simps(1,2) add_mset_add_single mset_subset_eq_add_left w'
        wallet.select_convs(2) wallet.surjective wallet.update_convs(2))
  then have "owned P j" if "j \<in># all_notes (w_pending w')" for j
    using that i inv mset_subset_eqD by (fastforce simp: wallet_inv_def)
  then show ?thesis using inv d by (auto simp: wallet_inv_def balance_ok_def w')
qed

lemma spend_to_inv:
  assumes "spend_to P pk n w = Ok (w', u)" and inv: "wallet_inv P w"
  shows "wallet_inv P w'"
proof -
  obtain t a ins c where sel: "select_input_notes P pk t a w = Ok (w', ins, c)"
    using assms(1) by (auto simp: spend_to_def outcome_simps split: if_splits)
  have "balance_ok w" using inv by (simp add: wallet_inv_def)
  from select_spec [OF this, of P pk t a] show ?thesis using inv by (auto simp: sel wallet_inv_def)
qed

lemma wallet_sync_inv:
  assumes "wallet_sync P txns w = Ok (w', u)" and inv: "wallet_inv P w"
  shows "wallet_inv P w'"
proof -
  have "balance_ok w" using inv by (simp add: wallet_inv_def)
  from wallet_sync_spec [OF assms(1) this] show ?thesis using inv by (auto simp: wallet_inv_def)
qed

lemma mint_inv: "wallet_mint P pk amount t w = Ok (w', u) \<Longrightarrow> wallet_inv P w \<Longrightarrow> wallet_inv P w'"
  by (auto simp: wallet_mint_def outcome_simps dest!: receive_note_owned intro: wallet_inv_push)

lemma receive_inv: "wallet_receive P pk i w = Ok (w', u) \<Longrightarrow> wallet_inv P w \<Longrightarrow> wallet_inv P w'"
  by (auto simp: wallet_receive_def outcome_simps dest!: receive_note_owned intro: wallet_inv_push)

lemma burn_inv:
  assumes "wallet_burn i evm sub w = Ok (w', u)" and "wallet_inv P w"
  shows "wallet_inv P w'"
proof -
  obtain t b where "pull_from_avail t i w = Ok (w', b)"
    using assms(1) by (auto simp: wallet_burn_def outcome_simps split: if_splits)
  from pull_from_avail_spec [OF this] assms(2) show ?thesis by (auto simp: wallet_inv_def)
qed

lemma add_inv: "add_to_avail i w = Ok (w', u) \<Longrightarrow> wallet_inv P w \<Longrightarrow> owned P i \<Longrightarrow> wallet_inv P w'"
  by (auto simp: add_to_avail_def outcome_simps intro: wallet_inv_push)

lemmas wallet_step_inv = mint_inv receive_inv spend_to_inv burn_inv import_note_inv get_address_inv wallet_sync_inv

lemma wallet_run_inv: "wallet_run P w \<Longrightarrow> wallet_inv P w"
proof (induction rule: wallet_run.induct)
  case (run_new chain_id name pk)
  then show ?case by (simp add: wallet_inv_def balance_ok_def wallet_new_def)
next
  case (run_keep w pk amount t w1 i w2 w')
  then show ?case by (auto simp: prepare_defs dest!: receive_note_owned intro: add_inv)
qed (auto simp: prepare_defs intro: wallet_step_inv)

section \<open>Properties\<close>

text \<open>A note whose value fits the 64 bits the wallet reads.\<close>

definition small_note :: "Note \<Rightarrow> bool" where
  "small_note n \<longleftrightarrow> n_value n = ucast (value_u64 n)"

lemma unat_ucast_element: "unat (ucast (a :: u64) :: element) = unat a"
proof -
  have "unat a < 2 ^ 256" using unsigned_less [of a, where ?'a = nat] by simp
  then show ?thesis by (simp add: unsigned_ucast_eq take_bit_nat_eq_self)
qed

lemma small_value: "small_note n \<Longrightarrow> unat (n_value n) = unat (value_u64 n)"
  by (metis small_note_def unat_ucast_element)

lemma small_sum:
  assumes "small_note a" and "small_note b" and "unat (value_u64 a) + unat (value_u64 b) = v" and "v < 2 ^ 64"
  shows "el_add (n_value a) (n_value b) = Ok (of_nat v)"
proof -
  have "n_value a + n_value b = of_nat (unat (n_value a) + unat (n_value b))" by simp
  also have "\<dots> = of_nat v" using assms by (simp only: small_value)
  finally show ?thesis using assms by (simp add: el_add_def small_value)
qed

lemma padding_small [simp]: "small_note padding_note" "value_u64 padding_note = 0"
  by (simp_all add: small_note_def value_u64_def padding_note_def to_u64_array_def to_words_def)

lemma value_u64_of_change [simp]: "value_u64 (in_note (make_change_note P pk origin a)) = a"
  by (simp add: value_u64_def make_change_note_def)

lemma change_small: "small_note (in_note (make_change_note P pk origin a))"
  by (simp add: small_note_def) (simp add: make_change_note_def)

lemma spends_conserve:
  assumes sp: "spends P pk t a w w' ins c" and small: "\<forall>m \<in># held w. small_note m"
  shows "\<exists>v. unat (value_u64 (in_note (fst ins))) + unat (value_u64 (in_note (snd ins))) = v \<and> v < 2 ^ 64 \<and>
    v = unat a + unat (value_u64 c) \<and> small_note (in_note (fst ins)) \<and> small_note (in_note (snd ins)) \<and>
    small_note c \<and> worth (held w') + unat a = worth (held w)"
proof -
  obtain N where N: "best_payment (unat a) (held_at w t) N" "input_notes_are ins N"
    and res: "if worth N = unat a then c = padding_note \<and> held w = held w' + N
      else c = in_note (make_change_note P pk (in_note (fst ins)) (of_nat (worth N - unat a))) \<and>
        held w + {#c#} = held w' + N"
    using sp unfolding spends_def by blast
  have le: "unat a \<le> worth N" "worth N < 2 ^ 64" and at: "N \<subseteq># held_at w t"
    using N(1) by (auto simp: best_payment_def payable_def)
  have sub: "N \<subseteq># held w" using subset_mset.order_trans [OF at held_at_sub] .
  have inputs: "unat (value_u64 (in_note (fst ins))) + unat (value_u64 (in_note (snd ins))) = worth N"
    "small_note (in_note (fst ins))" "small_note (in_note (snd ins))"
    using N(2) small mset_subset_eqD [OF sub] by (auto simp: input_notes_are_def padding_input_note_def)
  have "worth N - unat a < 2 ^ 64" using le(2) by simp
  then have diff: "unat (of_nat (worth N - unat a) :: u64) = worth N - unat a"
    by (simp add: unat_of_nat del: of_nat_diff)
  have change: "worth N = unat a + unat (value_u64 c)" "small_note c"
    using res le diff by (auto simp: change_small simp del: of_nat_diff split: if_splits)
  have "worth (held w') + unat a = worth (held w)"
  proof (cases "worth N = unat a")
    case True
    then show ?thesis using res by simp
  next
    case False
    then have "held w + {#c#} = held w' + N" using res unfolding if_not_P [OF False] by blast
    from arg_cong [OF this, of worth] show ?thesis using change(1) by simp
  qed
  then show ?thesis using inputs change le by simp
qed

section \<open>A wallet\<close>

definition demo_coin :: "element \<Rightarrow> u64 \<Rightarrow> InputNote" where
  "demo_coin pk amount = \<lparr>in_note = \<lparr>n_kind = el_new 2, n_contract = citrea_wcbtc_note_kind,
     n_address = hash_merge demo_P [pk, ZERO], n_psi = hash_merge demo_P [pk, pk], n_value = ucast amount\<rparr>,
     in_secret_key = pk\<rparr>"

definition demo_wallet :: wallet where
  "demo_wallet = (wallet_new 5115 (Some ''alice'') 7)\<lparr>
     w_avail := [(''WCBTC'', [demo_coin 11 100, demo_coin 12 60])], w_balance := 160\<rparr>"

definition demo_bill :: Note where
  "demo_bill = in_note (demo_coin 99 120)"

lemma value_demo_coin [simp]: "value_u64 (in_note (demo_coin pk a)) = a"
  by (simp add: value_u64_def demo_coin_def)

lemma demo_coin_ticker [simp]:
  "citrea_ticker_from_contract (n_contract (in_note (demo_coin pk a))) = Ok ''WCBTC''"
  by (simp add: demo_coin_def citrea_ticker_from_contract_def)

lemma demo_mint_coin:
  "receive_note demo_P pk a ''WCBTC'' w = Ok (w, demo_coin pk a)"
  by (simp add: receive_note_def citrea_token_data_def demo_coin_def)

lemma demo_wallet_run: "wallet_run demo_P demo_wallet"
proof -
  define w1 where "w1 = (wallet_new 5115 (Some ''alice'') 7)\<lparr>w_avail := [(''WCBTC'', [demo_coin 11 100])], w_balance := 100\<rparr>"
  have 1: "\<exists>u. prepare_mint demo_P 11 100 ''WCBTC'' (wallet_new 5115 (Some ''alice'') 7) = Ok (w1, u)"
    by (simp add: prepare_defs wallet_mint_def demo_mint_coin push_to_avail_def w1_def wallet_new_def)
  have 2: "\<exists>u. prepare_mint demo_P 12 60 ''WCBTC'' w1 = Ok (demo_wallet, u)"
    by (simp add: prepare_defs wallet_mint_def demo_mint_coin push_to_avail_def w1_def demo_wallet_def wallet_new_def)
  show ?thesis using wallet_run.run_mint 1 2 wallet_run.run_new by blast
qed

lemma demo_coins_differ: "in_note (demo_coin 11 100) \<noteq> in_note (demo_coin 12 60)"
proof
  assume "in_note (demo_coin 11 100) = in_note (demo_coin 12 60)"
  from arg_cong [OF this, of value_u64] show False by simp
qed

lemma demo_spend: "\<exists>w' u. prepare_spend_to demo_P 21 demo_bill demo_wallet = Ok (w', u)"
  using demo_coins_differ [symmetric]
  by (simp add: prepare_defs spend_to_def get_note_amount_def demo_bill_def select_input_notes_def asset_notes_def
      demo_wallet_def wallet_new_def consider_candidate_def consider_pair_def pull_from_avail_def Let_def
      push_to_avail_def)

definition demo_request :: InputNote where
  "demo_request = \<lparr>in_note = \<lparr>n_kind = el_new 2, n_contract = citrea_wcbtc_note_kind,
     n_address = hash_merge demo_P [31, ZERO], n_psi = 5, n_value = el_new 25\<rparr>, in_secret_key = 31\<rparr>"

definition demo_payment :: utxo_proof where
  "demo_payment = \<lparr>up_proof = [], up_public_inputs = \<lparr>input_commitments = (ZERO, ZERO),
     output_commitments = (commitment demo_P (in_note demo_request), ZERO),
     messages = (ZERO, ZERO, ZERO, ZERO, ZERO)\<rparr>\<rparr>"

lemma demo_get_address:
  "\<exists>a. prepare_get_address demo_P 31 5 25 ''WCBTC'' demo_wallet =
     Ok (demo_wallet\<lparr>w_pending := [(''WCBTC'', [demo_request])]\<rparr>, a) \<and>
     a_public_key a = hash_merge demo_P [31, ZERO]"
  by (simp add: prepare_defs get_address_def citrea_token_data_def address_of_note_def demo_request_def
      citrea_currency_from_contract_def demo_wallet_def wallet_new_def)

lemma demo_keys_differ: "hash_merge demo_P [31, ZERO] \<noteq> hash_merge demo_P [32, ZERO]"
  by (simp add: hash_merge_def demo_P_def to_base_def from_base_def uint_MODULUS)

lemma demo_request_commitment: "commitment demo_P (in_note demo_request) \<noteq> ZERO"
  by code_simp

lemma demo_request_simps:
  "citrea_ticker_from_contract (n_contract (in_note demo_request)) = Ok ''WCBTC''"
  "value_u64 (in_note demo_request) = 25"
  by (simp_all add: demo_request_def citrea_ticker_from_contract_def value_u64_def el_new_def)
    (simp add: to_u64_array_def to_words_def)

lemma demo_sync:
  "\<exists>w2. prepare_sync demo_P [demo_payment] (demo_wallet\<lparr>w_pending := [(''WCBTC'', [demo_request])]\<rparr>) = Ok (w2, ())"
  using demo_request_commitment
  by (simp add: prepare_defs wallet_sync_def sync_txn_def demo_payment_def sync_commitment_def nth_match_indices
      matching_def push_to_avail_def demo_wallet_def wallet_new_def demo_request_simps)

section \<open>Theorems\<close>

text \<open>
  Along every run of the wallet (mints, receipts, payments, burns, imports, requested addresses
  and synchronisations in any order), the stored balance is exactly the sum of the amounts of the
  available notes, and every available or pending note is stored beside the secret key of its address.
\<close>

lemma wallet_accounts:
  assumes "wallet_run P w"
  shows "unat (w_balance w) = worth (held w) \<and>
    (\<forall>i \<in># all_notes (w_avail w) + all_notes (w_pending w). owned P i)"
  using wallet_run_inv [OF assms] balance_worth by (auto simp: wallet_inv_def)

text \<open>
  C13. A payment never panics. It succeeds exactly when one or two available notes of the token
  cover the amount within 64 bits; it then spends, among all such choices, one with the least
  excess and among those the fewest notes, returns the excess as one change note under a fresh
  key, and removes exactly the spent notes from the wallet. Otherwise it reports a low balance.
\<close>

theorem spend_pays_best:
  assumes "wallet_run P w" and "citrea_ticker_from_contract (n_contract n) = (Ok t :: string wallet_result)"
  shows "case prepare_spend_to P pk n w of
      Ok (w', u) \<Rightarrow> \<exists>ins change. u = new_send ins (n, change) \<and> spends P pk t (value_u64 n) w w' ins change
    | Err e \<Rightarrow> (\<exists>m. e = LowBalance m) \<and> (\<forall>N. N \<subseteq># held_at w t \<longrightarrow> \<not> payable (unat (value_u64 n)) N)
    | Panic \<Rightarrow> False"
proof -
  have bal: "balance_ok w" using wallet_run_inv [OF assms(1)] by (simp add: wallet_inv_def)
  show ?thesis
  proof (cases "w_balance w < value_u64 n")
    case True
    have "\<not> payable (unat (value_u64 n)) N" if "N \<subseteq># held_at w t" for N
      using worth_mono [OF subset_mset.order_trans [OF that held_at_sub]] True balance_worth [OF bal]
      by (simp add: payable_def word_less_nat_alt)
    then show ?thesis using True assms(2) by (simp add: prepare_defs spend_to_def get_note_amount_def)
  next
    case False
    then show ?thesis
      using select_spec [OF bal, of P pk t "value_u64 n"] assms(2)
      by (cases "select_input_notes P pk t (value_u64 n) w")
        (auto simp: prepare_defs spend_to_def get_note_amount_def, blast)
  qed
qed

theorem spend_pays_best_witness:
  "\<exists>w' u ins change. prepare_spend_to demo_P 21 demo_bill demo_wallet = Ok (w', u) \<and>
     u = new_send ins (demo_bill, change) \<and> spends demo_P 21 ''WCBTC'' 120 demo_wallet w' ins change"
proof -
  obtain w' u where run: "prepare_spend_to demo_P 21 demo_bill demo_wallet = Ok (w', u)" using demo_spend by blast
  have "citrea_ticker_from_contract (n_contract demo_bill) = (Ok ''WCBTC'' :: string wallet_result)"
    by (simp add: demo_bill_def)
  from spend_pays_best [OF demo_wallet_run this, of 21] show ?thesis
    unfolding run by (auto simp: demo_bill_def)
qed


text \<open>
  A payment of a wallet whose notes fit 64 bits neither creates nor destroys value: the inputs
  of the transaction and its outputs add up to the same element without overflow, and the balance
  drops by exactly the amount paid.
\<close>

lemma spend_conserves_value:
  assumes "wallet_run P w" and "prepare_spend_to P pk n w = Ok (w', u)"
    and "\<forall>m \<in># held w. small_note m" and "small_note n"
  shows "\<exists>v. input_value u = Ok v \<and> output_value u = Ok v \<and>
    unat (w_balance w') + unat (value_u64 n) = unat (w_balance w)"
proof -
  obtain t a ins c where sel: "select_input_notes P pk t a w = Ok (w', ins, c)"
    and a: "a = value_u64 n" and u: "u = new_send ins (n, c)"
    using assms(2) by (auto simp: prepare_defs spend_to_def get_note_amount_def outcome_simps split: if_splits)
  have bal: "balance_ok w" using wallet_run_inv [OF assms(1)] by (simp add: wallet_inv_def)
  have sp: "spends P pk t a w w' ins c" and bal': "balance_ok w'"
    using select_spec [OF bal, of P pk t a] by (simp_all add: sel)
  obtain v where v: "unat (value_u64 (in_note (fst ins))) + unat (value_u64 (in_note (snd ins))) = v" "v < 2 ^ 64"
    "v = unat a + unat (value_u64 c)" "small_note (in_note (fst ins))" "small_note (in_note (snd ins))"
    "small_note c" "worth (held w') + unat a = worth (held w)"
    using spends_conserve [OF sp assms(3)] by blast
  have "input_value u = Ok (of_nat v)" "output_value u = Ok (of_nat v)"
    using small_sum [OF v(4,5) v(1,2)] small_sum [OF assms(4) v(6) v(3) [unfolded a, symmetric] v(2)]
    by (simp_all add: u new_send_def input_value_def output_value_def)
  then show ?thesis using v(7) balance_worth [OF bal] balance_worth [OF bal'] a by simp
qed

text \<open>
  Synchronising with a list of transactions moves exactly the pending notes whose commitment is
  a (non-padding) output of one of them, each once, from the pending to the available notes, and
  leaves every other note where it was.
\<close>

lemma sync_moves_confirmed:
  assumes "wallet_run P w" and "prepare_sync P txns w = Ok (w', ())"
  shows "all_notes (w_pending w') = filter_mset (\<lambda>i. \<not> confirmed_by P txns i) (all_notes (w_pending w)) \<and>
    all_notes (w_avail w') = all_notes (w_avail w) + filter_mset (confirmed_by P txns) (all_notes (w_pending w))"
  using wallet_sync_spec [of P txns w w' "()"] assms wallet_run_inv [OF assms(1)]
  by (simp add: prepare_defs wallet_inv_def)

text \<open>
  Requesting a second payment address for the same token discards the note (and with it the
  only copy of the secret key) of the first request: a note paid to the first address can then be
  neither imported nor found by synchronisation.
\<close>

lemma get_address_forgets:
  assumes "wallet_run P w"
    and "prepare_get_address P pk psi amount t w = Ok (w1, x)"
    and "prepare_get_address P pk' psi' amount' t w1 = Ok (w2, x')"
    and "a_public_key x \<noteq> a_public_key x'"
    and "\<forall>i \<in># all_notes (w_pending w). n_address (in_note i) \<noteq> a_public_key x"
    and "n_address n = a_public_key x"
  shows "prepare_import_note n w2 = Err (KeyNotFound n) \<and>
    (\<forall>i \<in># all_notes (w_pending w2). n_address (in_note i) \<noteq> a_public_key x)"
proof -
  obtain i where w1: "w1 = w\<lparr>w_pending := AList.update t [i] (w_pending w)\<rparr>"
    using assms(2) by (auto simp: prepare_defs get_address_def Let_def outcome_simps)
  obtain j where w2: "w2 = w1\<lparr>w_pending := AList.update t [j] (w_pending w1)\<rparr>"
    and j: "n_address (in_note j) = a_public_key x'"
    using assms(3) by (auto simp: prepare_defs get_address_def address_of_note_def Let_def outcome_simps)
  have d: "distinct (map fst (w_pending w))" using wallet_run_inv [OF assms(1)] by (simp add: wallet_inv_def)
  have upd: "w_pending w2 = AList.update t [j] (w_pending w)" by (simp add: w1 w2 update_last)
  have "all_notes (w_pending w2) \<subseteq># add_mset j (all_notes (w_pending w))"
    using all_notes_update [OF d, of t "[j]"] unfolding upd by (metis mset.simps(1,2) add_mset_add_single mset_subset_eq_add_left)
  then have none: "\<forall>i \<in># all_notes (w_pending w2). n_address (in_note i) \<noteq> a_public_key x"
    using assms(4,5) j mset_subset_eqD by fastforce
  then show ?thesis
    using find_pending_None [of "n_address n" "w_pending w2"] assms(6) by (simp add: prepare_defs import_note_def)
qed

end
