(* ===== verification/Wallet_Commands.thy ===== *)
theory Wallet_Commands
  imports Wallet_Theorems
begin

text \<open>
  The commands of the wallet (\<open>cli/src/main.rs\<close>), its files (\<open>create_in\<close>, \<open>load_from\<close>, \<open>save\<close> of
  \<open>cli/src/wallet.rs\<close>) and the client builder (\<open>cli/src/client.rs\<close>). The state is the directory of
  files and the list of proofs handed to the node; JSON, the prover and the parsing of Ethereum
  addresses are the fields of \<open>cli_env\<close>; the keys drawn, the replies of the node and of the Lightning
  swap services and the outcome of writes are the fields of \<open>cli_io\<close>. Printing is left out, and
  with it the commands \<open>contract\<close> and \<open>mints\<close>, which touch neither a file nor the node.
\<close>

section \<open>World and errors\<close>

datatype app_error =
    AppWallet wallet_error
  | AppFileNotFound string
  | AppNotEnoughBalance
  | AppInvalidAddress
  | AppChainId
  | AppSerialization
  | AppNode
  | AppSwap

record cli_env =
  ce_url :: url_env
  ce_dir :: string
  ce_wallet_to_json :: "wallet \<Rightarrow> string option"
  ce_wallet_from_json :: "string \<Rightarrow> wallet option"
  ce_note_to_json :: "Note \<Rightarrow> string option"
  ce_note_from_json :: "string \<Rightarrow> Note option"
  ce_input_to_json :: "InputNote \<Rightarrow> string option"
  ce_input_from_json :: "string \<Rightarrow> InputNote option"
  ce_prove :: "utxo \<Rightarrow> utxo_proof option"
  ce_h160 :: "string \<Rightarrow> element option"

text \<open>
  What becomes of a submission: the node answers with success, the node has it but no success
  arrives (a time-out, an error status, an unreadable answer), or it never reaches the node.
\<close>

datatype delivery = Accepted | NoAnswer | Unreachable

text \<open>
  The parsed answers of the swap services. \<open>None\<close> in a field of \<open>cli_io\<close> below stands for an answer that
  did not arrive, had an error status or could not be parsed.
\<close>

record onramp_init =
  oi_invoice :: "string option"
  oi_id :: "string option"

record OnrampResponse =
  or_state :: "32 word"
  or_amount :: u64

datatype quote_amount = AmountText string | AmountNumber u64 | AmountMissing

record offramp_quote =
  oq_id :: "string option"
  oq_input_amount_wei :: quote_amount

record cli_io =
  io_key :: "nat \<Rightarrow> element"
  io_bytes :: "u8 list"
  io_reply :: "nat \<Rightarrow> delivery"
  io_healthy :: bool
  io_listed :: "utxo_proof list option"
  io_writable :: "string \<Rightarrow> bool"
  io_onramp_init :: "onramp_init option"
  io_onramp_status :: "nat \<Rightarrow> OnrampResponse option"
  io_claimed :: bool
  io_offramp_quote :: "offramp_quote option"
  io_offramp_state :: "nat \<Rightarrow> 32 word option"

record world =
  wo_files :: "(string \<times> string) list"
  wo_sent :: "utxo_proof list"

type_synonym 'a command = "world \<Rightarrow> world \<times> ('a, app_error) outcome"

definition return_c :: "'a \<Rightarrow> 'a command" where
  "return_c x = (\<lambda>s. (s, Ok x))"

definition fail_c :: "app_error \<Rightarrow> 'a command" where
  "fail_c e = (\<lambda>s. (s, Err e))"

definition bind_c :: "'a command \<Rightarrow> ('a \<Rightarrow> 'b command) \<Rightarrow> 'b command" where
  "bind_c m f = (\<lambda>s. case m s of (s, Ok x) \<Rightarrow> f x s | (s, Err e) \<Rightarrow> (s, Err e) | (s, Panic) \<Rightarrow> (s, Panic))"

definition lift_c :: "('e \<Rightarrow> app_error) \<Rightarrow> ('a, 'e) outcome \<Rightarrow> 'a command" where
  "lift_c f r = (\<lambda>s. (s, map_err f r))"

section \<open>Wallet files\<close>

text \<open>\<open>Path::join\<close>; relative paths are resolved against the current directory \<open>ce_dir\<close>.\<close>

definition path_join :: "string \<Rightarrow> string \<Rightarrow> string" where
  "path_join base p =
     (if p \<noteq> [] \<and> hd p = CHR ''/'' then p
      else if base = [] \<or> last base = CHR ''/'' then base @ p
      else base @ ''/'' @ p)"

definition wallet_path_in :: "string \<Rightarrow> string \<Rightarrow> string" where
  "wallet_path_in base_dir name = path_join base_dir (name @ ''.json'')"

definition write_file :: "cli_io \<Rightarrow> string \<Rightarrow> string \<Rightarrow> unit command" where
  "write_file io path contents = (\<lambda>s.
     if io_writable io path then (s\<lparr>wo_files := AList.update path contents (wo_files s)\<rparr>, Ok ())
     else (s, Err (AppWallet IoError)))"

definition save_to :: "cli_env \<Rightarrow> cli_io \<Rightarrow> string \<Rightarrow> wallet \<Rightarrow> unit command" where
  "save_to E io path w =
     (case ce_wallet_to_json E w of
        None \<Rightarrow> fail_c (AppWallet SerializationError)
      | Some json_str \<Rightarrow> write_file io path json_str)"

definition wallet_save :: "cli_env \<Rightarrow> cli_io \<Rightarrow> wallet \<Rightarrow> unit command" where
  "wallet_save E io w =
     (case w_storage_path w of
        None \<Rightarrow> fail_c (AppWallet MissingStoragePath)
      | Some path \<Rightarrow> save_to E io path w)"

definition create_in :: "cli_env \<Rightarrow> cli_io \<Rightarrow> string \<Rightarrow> u64 \<Rightarrow> string \<Rightarrow> wallet command" where
  "create_in E io base_dir chain_id name = (\<lambda>s.
     let wallet_path = wallet_path_in base_dir name
     in if map_of (wo_files s) wallet_path \<noteq> None then (s, Err (AppWallet (WalletExists wallet_path)))
        else let w = with_storage_path wallet_path (wallet_random (io_bytes io) chain_id (Some name))
             in bind_c (wallet_save E io w) (\<lambda>_. return_c w) s)"

definition load_from :: "cli_env \<Rightarrow> string \<Rightarrow> string \<Rightarrow> wallet command" where
  "load_from E base_dir name = (\<lambda>s.
     let wallet_path = wallet_path_in base_dir name
     in case map_of (wo_files s) wallet_path of
          None \<Rightarrow> (s, Err (AppWallet (FileNotFound wallet_path)))
        | Some json_str \<Rightarrow>
            (case ce_wallet_from_json E json_str of
               None \<Rightarrow> (s, Err (AppWallet SerializationError))
             | Some w \<Rightarrow> (s, Ok (with_storage_path wallet_path w))))"

definition build_client :: "cli_env \<Rightarrow> cli_io \<Rightarrow> string \<Rightarrow> u64 \<Rightarrow> bool \<Rightarrow> wallet command" where
  "build_client E io name chain_id create_wallet =
     (if create_wallet then create_in E io (ce_dir E) chain_id name
      else bind_c (load_from E (ce_dir E) name) (\<lambda>loaded_wallet.
        case w_chain_id loaded_wallet of
          Some loaded_chain_id \<Rightarrow>
            if loaded_chain_id \<noteq> chain_id then fail_c AppChainId else return_c loaded_wallet
        | None \<Rightarrow> return_c loaded_wallet))"

section \<open>The node\<close>

definition prove_c :: "cli_env \<Rightarrow> utxo \<Rightarrow> utxo_proof command" where
  "prove_c E u = (\<lambda>s. case ce_prove E u of Some snark \<Rightarrow> (s, Ok snark) | None \<Rightarrow> (s, Panic))"

text \<open>\<open>k\<close> numbers the submissions of a command.\<close>

definition transaction_c :: "cli_io \<Rightarrow> nat \<Rightarrow> utxo_proof \<Rightarrow> unit command" where
  "transaction_c io k snark = (\<lambda>s.
     case io_reply io k of
       Accepted \<Rightarrow> (s\<lparr>wo_sent := wo_sent s @ [snark]\<rparr>, Ok ())
     | NoAnswer \<Rightarrow> (s\<lparr>wo_sent := wo_sent s @ [snark]\<rparr>, Err AppNode)
     | Unreachable \<Rightarrow> (s, Err AppNode))"

section \<open>Commands\<close>

abbreviation pos :: "cli_env \<Rightarrow> base list \<Rightarrow> base" where
  "pos E \<equiv> poseidon (ce_url E)"

definition handle_create :: "cli_env \<Rightarrow> cli_io \<Rightarrow> u64 \<Rightarrow> string \<Rightarrow> unit command" where
  "handle_create E io chain name = bind_c (create_in E io (ce_dir E) chain name) (\<lambda>_. return_c ())"

definition handle_sync :: "cli_env \<Rightarrow> cli_io \<Rightarrow> u64 \<Rightarrow> string \<Rightarrow> unit command" where
  "handle_sync E io chain name =
     bind_c (build_client E io name chain False) (\<lambda>w.
     if \<not> io_healthy io then fail_c AppNode
     else case io_listed io of
            None \<Rightarrow> return_c ()
          | Some txns \<Rightarrow>
              bind_c (lift_c AppWallet (prepare_sync (pos E) txns w)) (\<lambda>(synced_wallet, _).
              wallet_save E io (synced_wallet\<lparr>w_chain_id := Some chain\<rparr>)))"

definition handle_address :: "cli_env \<Rightarrow> cli_io \<Rightarrow> string \<Rightarrow> u64 \<Rightarrow> string \<Rightarrow> string command" where
  "handle_address E io name amount_wei ticker =
     bind_c (load_from E (ce_dir E) name) (\<lambda>w.
     bind_c (lift_c AppWallet (prepare_get_address (pos E) (io_key io 0) (io_key io 1) amount_wei ticker w)) (\<lambda>(w, a).
     bind_c (wallet_save E io w) (\<lambda>_.
     return_c (encode_address (ce_url E) a))))"

definition handle_note_spend :: "cli_env \<Rightarrow> cli_io \<Rightarrow> u64 \<Rightarrow> string \<Rightarrow> u64 \<Rightarrow> string \<Rightarrow> string command" where
  "handle_note_spend E io chain name amount_wei ticker =
     bind_c (build_client E io name chain False) (\<lambda>w.
     bind_c (lift_c AppWallet (prepare_receive_note (pos E) (io_key io 0) amount_wei ticker w)) (\<lambda>(w1, transfer_note).
     bind_c (lift_c AppWallet (prepare_spend_to (pos E) (io_key io 1) (in_note transfer_note) w1)) (\<lambda>(prepared_wallet, transfer_utxo).
     bind_c (prove_c E transfer_utxo) (\<lambda>snark.
     bind_c (transaction_c io 0 snark) (\<lambda>_.
     bind_c (wallet_save E io prepared_wallet) (\<lambda>_.
     bind_c (lift_c AppWallet (url_of_input_note transfer_note)) (\<lambda>payload.
     case ce_input_to_json E transfer_note of
       None \<Rightarrow> fail_c AppSerialization
     | Some json_str \<Rightarrow>
         bind_c (write_file io (path_join (ce_dir E) (name @ ''-note.json'')) json_str) (\<lambda>_.
         return_c (encode_url (ce_url E) payload)))))))))"

definition handle_spend_to :: "cli_env \<Rightarrow> cli_io \<Rightarrow> u64 \<Rightarrow> string \<Rightarrow> string \<Rightarrow> unit command" where
  "handle_spend_to E io chain name address =
     bind_c (build_client E io name chain False) (\<lambda>w.
     bind_c (lift_c (\<lambda>_. AppSerialization) (decode_address (ce_url E) address)) (\<lambda>a.
     bind_c (lift_c AppWallet (note_of_address (io_key io 0) a)) (\<lambda>n.
     bind_c (lift_c AppWallet (citrea_ticker_from_contract (n_contract n))) (\<lambda>ticker.
     bind_c (lift_c AppWallet (prepare_spend_to (pos E) (io_key io 1) n w)) (\<lambda>(prepared_wallet, u).
     bind_c (prove_c E u) (\<lambda>snark.
     bind_c (transaction_c io 0 snark) (\<lambda>_.
     bind_c (wallet_save E io prepared_wallet) (\<lambda>_.
     case ce_note_to_json E (fst (u_output_notes u)) of
       None \<Rightarrow> fail_c AppSerialization
     | Some json_str \<Rightarrow> write_file io (path_join (ce_dir E) (''from-'' @ name @ ''-note.json'')) json_str))))))))"

definition read_input_note :: "cli_env \<Rightarrow> string option \<Rightarrow> string option \<Rightarrow> InputNote command" where
  "read_input_note E notefile notelink = (\<lambda>s.
     case (notefile, notelink) of
       (Some path, None) \<Rightarrow>
         (case map_of (wo_files s) (path_join (ce_dir E) path) of
            None \<Rightarrow> (s, Err (AppFileNotFound path))
          | Some json_str \<Rightarrow>
              (case ce_input_from_json E json_str of
                 None \<Rightarrow> (s, Err AppSerialization)
               | Some i \<Rightarrow> (s, Ok i)))
     | (None, Some link) \<Rightarrow>
         bind_c (lift_c (\<lambda>_. AppSerialization) (decode_url (ce_url E) link)) (\<lambda>l.
         lift_c AppWallet (input_note_of_url (pos E) l)) s
     | _ \<Rightarrow> (s, Err AppNotEnoughBalance))"

definition handle_receive ::
    "cli_env \<Rightarrow> cli_io \<Rightarrow> u64 \<Rightarrow> string \<Rightarrow> string option \<Rightarrow> string option \<Rightarrow> unit command" where
  "handle_receive E io chain name notefile notelink =
     bind_c (build_client E io name chain False) (\<lambda>w.
     if \<not> io_healthy io then fail_c AppNode
     else
       bind_c (read_input_note E notefile notelink) (\<lambda>input_note.
       bind_c (lift_c AppWallet (citrea_ticker_from_contract (n_contract (in_note input_note)))) (\<lambda>ticker.
       bind_c (lift_c AppWallet (prepare_receive (pos E) (io_key io 0) input_note w)) (\<lambda>(prepared_wallet, u).
       bind_c (prove_c E u) (\<lambda>snark.
       bind_c (transaction_c io 0 snark) (\<lambda>_.
       wallet_save E io prepared_wallet))))))"

definition handle_import :: "cli_env \<Rightarrow> cli_io \<Rightarrow> string \<Rightarrow> string \<Rightarrow> unit command" where
  "handle_import E io name notefile = (\<lambda>s.
     case map_of (wo_files s) (path_join (ce_dir E) notefile) of
       None \<Rightarrow> (s, Err (AppFileNotFound notefile))
     | Some json_str \<Rightarrow>
         (case ce_note_from_json E json_str of
            None \<Rightarrow> (s, Err AppSerialization)
          | Some n \<Rightarrow>
              bind_c (load_from E (ce_dir E) name) (\<lambda>w.
              bind_c (lift_c AppWallet (prepare_import_note n w)) (\<lambda>(w, _).
              wallet_save E io w)) s))"

text \<open>\<open>io_reply io 1\<close> is the outcome of the Ethereum calls of \<open>admin_mint\<close>.\<close>

definition handle_mint ::
    "cli_env \<Rightarrow> cli_io \<Rightarrow> u64 \<Rightarrow> string \<Rightarrow> u64 \<Rightarrow> string \<Rightarrow> bool \<Rightarrow> unit command" where
  "handle_mint E io chain name amount_wei ticker only_snark =
     bind_c (build_client E io name chain False) (\<lambda>w.
     bind_c (lift_c AppWallet (prepare_mint (pos E) (io_key io 0) amount_wei ticker w)) (\<lambda>(prepared_wallet, u).
     bind_c (prove_c E u) (\<lambda>snark.
     bind_c (if \<not> only_snark \<and> io_reply io 1 \<noteq> Accepted then fail_c AppNode else return_c ()) (\<lambda>_.
     bind_c (transaction_c io 0 snark) (\<lambda>_.
     wallet_save E io prepared_wallet)))))"

definition handle_burn ::
    "cli_env \<Rightarrow> cli_io \<Rightarrow> u64 \<Rightarrow> string \<Rightarrow> string \<Rightarrow> u64 \<Rightarrow> string \<Rightarrow> bool \<Rightarrow> unit command" where
  "handle_burn E io chain name address amount_wei ticker natively_substitute =
     bind_c (build_client E io name chain False) (\<lambda>w.
     bind_c (lift_c AppWallet (prepare_receive_note (pos E) (io_key io 0) amount_wei ticker w)) (\<lambda>(w, burner_note).
     bind_c (lift_c AppWallet (prepare_spend_to (pos E) (io_key io 1) (in_note burner_note) w)) (\<lambda>(w, u).
     bind_c (prove_c E u) (\<lambda>snark.
     bind_c (transaction_c io 0 snark) (\<lambda>_.
     bind_c (wallet_save E io w) (\<lambda>_.
     bind_c (lift_c AppWallet (prepare_add_to_avail burner_note w)) (\<lambda>(w, _).
     bind_c (wallet_save E io w) (\<lambda>_.
     case ce_h160 E address of
       None \<Rightarrow> fail_c AppInvalidAddress
     | Some evm_address \<Rightarrow>
         bind_c (lift_c AppWallet (prepare_burn burner_note evm_address natively_substitute w)) (\<lambda>(w, u).
         bind_c (prove_c E u) (\<lambda>snark.
         bind_c (transaction_c io 1 snark) (\<lambda>_.
         wallet_save E io w)))))))))))"

section \<open>Lightning swaps\<close>

definition MAX_POLL_ATTEMPTS :: nat where
  "MAX_POLL_ATTEMPTS = 150"

text \<open>The polling loops; the argument is the counter \<open>attempts\<close> before the round.\<close>

function poll_onramp :: "cli_io \<Rightarrow> nat \<Rightarrow> (u64, app_error) outcome" where
  "poll_onramp io k =
     (let attempts = k + 1
      in if attempts > MAX_POLL_ATTEMPTS then Err AppSwap
         else case io_onramp_status io attempts of
                None \<Rightarrow> Err AppSwap
              | Some response \<Rightarrow>
                  if or_state response = 2 then sats_to_wei (or_amount response)
                  else if or_state response > 2 then Err AppSwap
                  else poll_onramp io attempts)"
  by pat_completeness auto
termination
  by (relation "measure (\<lambda>(_, k). MAX_POLL_ATTEMPTS - k)") auto

function poll_offramp :: "cli_io \<Rightarrow> nat \<Rightarrow> (unit, app_error) outcome" where
  "poll_offramp io k =
     (let attempts = k + 1
      in if attempts > MAX_POLL_ATTEMPTS then Err AppSwap
         else case io_offramp_state io attempts of
                None \<Rightarrow> Err AppSwap
              | Some state \<Rightarrow>
                  if sint state = 2 \<or> sint state = 3 then Ok ()
                  else if sint state = -2 \<or> sint state = -3 then Err AppSwap
                  else poll_offramp io attempts)"
  by pat_completeness auto
termination
  by (relation "measure (\<lambda>(_, k). MAX_POLL_ATTEMPTS - k)") auto

declare poll_onramp.simps [simp del] poll_offramp.simps [simp del]

text \<open>
  The requested amount only names the swap: the note is minted for the amount of the answer which
  settled it. The claim, which reveals the preimage, comes before the transaction.
\<close>

definition handle_depo_ln :: "cli_env \<Rightarrow> cli_io \<Rightarrow> u64 \<Rightarrow> string \<Rightarrow> u64 \<Rightarrow> unit command" where
  "handle_depo_ln E io chain name amount_sat =
     bind_c (build_client E io name chain False) (\<lambda>w.
     case io_onramp_init io of
       None \<Rightarrow> fail_c AppSwap
     | Some init \<Rightarrow>
         if oi_invoice init = None \<or> oi_id init = None then fail_c AppSwap
         else
           bind_c (lift_c id (poll_onramp io 0)) (\<lambda>amount_out_wei.
           bind_c (lift_c AppWallet (prepare_mint (pos E) (io_key io 0) amount_out_wei ''WCBTC'' w)) (\<lambda>(prepared_wallet, u).
           bind_c (prove_c E u) (\<lambda>snark.
           bind_c (if \<not> io_claimed io then fail_c AppSwap else return_c ()) (\<lambda>_.
           bind_c (transaction_c io 0 snark) (\<lambda>_.
           wallet_save E io prepared_wallet))))))"

text \<open>\<open>u128::from_str\<close>: an optional plus sign and at least one digit.\<close>

fun parse_digits :: "string \<Rightarrow> nat \<Rightarrow> nat option" where
  "parse_digits [] n = Some n"
| "parse_digits (c # cs) n =
     (if 48 \<le> (of_char c :: nat) \<and> (of_char c :: nat) \<le> 57 \<and> 10 * n + (of_char c - 48) < 2 ^ 128
      then parse_digits cs (10 * n + (of_char c - 48)) else None)"

definition parse_u128 :: "string \<Rightarrow> nat option" where
  "parse_u128 s =
     (let digits = (case s of c # cs \<Rightarrow> if c = CHR ''+'' then cs else s | [] \<Rightarrow> [])
      in if digits = [] then None else parse_digits digits 0)"

definition quoted_wei :: "quote_amount \<Rightarrow> nat option" where
  "quoted_wei v = (case v of AmountText s \<Rightarrow> parse_u128 s | AmountNumber n \<Rightarrow> Some (unat n) | AmountMissing \<Rightarrow> None)"

definition handle_withdraw_ln :: "cli_env \<Rightarrow> cli_io \<Rightarrow> u64 \<Rightarrow> string \<Rightarrow> string \<Rightarrow> unit command" where
  "handle_withdraw_ln E io chain name address =
     (case io_offramp_quote io of
        None \<Rightarrow> fail_c AppSwap
      | Some quote \<Rightarrow>
          if oq_id quote = None then fail_c AppSwap
          else case quoted_wei (oq_input_amount_wei quote) of
                 None \<Rightarrow> fail_c AppSwap
               | Some input_amount_wei \<Rightarrow>
                   if input_amount_wei \<ge> 2 ^ 64 then fail_c AppSwap
                   else
                     bind_c (handle_burn E io chain name address (of_nat input_amount_wei) ''WCBTC'' False) (\<lambda>_.
                     lift_c id (poll_offramp io 0)))"

section \<open>The command line\<close>

datatype cli_call =
    Create
  | Sync
  | Address u64 string
  | Mint_Cmd u64 string bool
  | Burn_Cmd string u64 string
  | Spend u64 string
  | SpendTo string
  | Receive "string option" "string option"
  | Import string
  | DepoLn u64
  | WithdrawLn string

definition run_command :: "cli_env \<Rightarrow> cli_io \<Rightarrow> u64 \<Rightarrow> string \<Rightarrow> cli_call \<Rightarrow> unit command" where
  "run_command E io chain name call = (case call of
     Create \<Rightarrow> handle_create E io chain name
   | Sync \<Rightarrow> handle_sync E io chain name
   | Address amount_sat ticker \<Rightarrow>
       bind_c (lift_c AppWallet (sats_to_wei amount_sat)) (\<lambda>amount_wei.
       bind_c (handle_address E io name amount_wei (to_uppercase ticker)) (\<lambda>_. return_c ()))
   | Spend amount_sat ticker \<Rightarrow>
       bind_c (lift_c AppWallet (sats_to_wei amount_sat)) (\<lambda>amount_wei.
       bind_c (handle_note_spend E io chain name amount_wei (to_uppercase ticker)) (\<lambda>_. return_c ()))
   | SpendTo address \<Rightarrow> handle_spend_to E io chain name address
   | Receive notefile notelink \<Rightarrow> handle_receive E io chain name notefile notelink
   | Import notefile \<Rightarrow> handle_import E io name notefile
   | Mint_Cmd amount_sat ticker only_snark \<Rightarrow>
       bind_c (lift_c AppWallet (sats_to_wei amount_sat)) (\<lambda>amount_wei.
       handle_mint E io chain name amount_wei (to_uppercase ticker) only_snark)
   | Burn_Cmd address amount_sat ticker \<Rightarrow>
       bind_c (lift_c AppWallet (sats_to_wei amount_sat)) (\<lambda>amount_wei.
       handle_burn E io chain name address amount_wei (to_uppercase ticker) True)
   | DepoLn amount_sat \<Rightarrow> handle_depo_ln E io chain name amount_sat
   | WithdrawLn address \<Rightarrow> handle_withdraw_ln E io chain name address)"

end
