(* ===== verification/Wallet_Files.thy ===== *)
theory Wallet_Files
  imports Wallet_Commands
begin

text \<open>
  Properties of the wallet's commands: every wallet file they ever write accounts for its notes,
  saving and loading agree, and what a lost answer of the node costs. The proofs use a small
  Hoare logic of commands: \<open>keeps\<close> says that a command preserves the files' invariant and what it
  returns.
\<close>

named_theorems keeps_intros \<open>rules of the logic of commands\<close>

section \<open>JSON and files\<close>

text \<open>
  What the commands rely on of \<open>serde_json\<close>: reading back the text of a wallet gives its fields
  (the order of a \<open>HashMap\<close> is not kept and the storage path is skipped), and the text of a note is
  not that of a wallet.
\<close>

definition same_wallet :: "wallet \<Rightarrow> wallet \<Rightarrow> bool" where
  "same_wallet w v \<longleftrightarrow> w_pk v = w_pk w \<and> mset (w_pending v) = mset (w_pending w) \<and>
     mset (w_avail v) = mset (w_avail w) \<and> w_name v = w_name w \<and> w_balance v = w_balance w \<and>
     w_chain_id v = w_chain_id w"

definition json_ok :: "cli_env \<Rightarrow> bool" where
  "json_ok E \<longleftrightarrow>
     (\<forall>w s. ce_wallet_to_json E w = Some s \<longrightarrow> (\<exists>v. ce_wallet_from_json E s = Some v \<and> same_wallet w v)) \<and>
     (\<forall>i s. ce_input_to_json E i = Some s \<longrightarrow> ce_wallet_from_json E s = None) \<and>
     (\<forall>n s. ce_note_to_json E n = Some s \<longrightarrow> ce_wallet_from_json E s = None)"

definition files_ok :: "cli_env \<Rightarrow> world \<Rightarrow> bool" where
  "files_ok E s \<longleftrightarrow> (\<forall>p c w. map_of (wo_files s) p = Some c \<and> ce_wallet_from_json E c = Some w \<longrightarrow>
     wallet_inv (pos E) w)"

lemma all_notes_mset: "all_notes m = (\<Sum>x\<in>#mset m. mset (snd x))"
  by (induction m) auto

lemma same_wallet_notes:
  assumes "same_wallet w v"
  shows "all_notes (w_avail v) = all_notes (w_avail w)" and "all_notes (w_pending v) = all_notes (w_pending w)"
  using assms by (simp_all add: same_wallet_def all_notes_mset)

lemma distinct_keys_mset: "mset m = mset m' \<Longrightarrow> distinct (map fst m) \<longleftrightarrow> distinct (map fst m')"
  by (metis mset_eq_imp_distinct_iff mset_map)

lemma same_wallet_inv: "same_wallet w v \<Longrightarrow> wallet_inv P w \<Longrightarrow> wallet_inv P v"
  using same_wallet_notes [of w v] distinct_keys_mset [of "w_avail v" "w_avail w"]
    distinct_keys_mset [of "w_pending v" "w_pending w"]
  by (simp add: wallet_inv_def balance_ok_def same_wallet_def)

lemma wallet_inv_fields [simp]:
  "wallet_inv P (w\<lparr>w_chain_id := c\<rparr>) = wallet_inv P w"
  "wallet_inv P (with_storage_path p w) = wallet_inv P w"
  by (simp_all add: wallet_inv_def balance_ok_def with_storage_path_def)

section \<open>A logic of commands\<close>

definition keeps :: "cli_env \<Rightarrow> 'a command \<Rightarrow> ('a \<Rightarrow> bool) \<Rightarrow> bool" where
  "keeps E m Q \<longleftrightarrow> (\<forall>s s' r. files_ok E s \<longrightarrow> m s = (s', r) \<longrightarrow> files_ok E s' \<and> (\<forall>x. r = Ok x \<longrightarrow> Q x))"

lemma keepsI:
  "(\<And>s s' r. files_ok E s \<Longrightarrow> m s = (s', r) \<Longrightarrow> files_ok E s' \<and> (\<forall>x. r = Ok x \<longrightarrow> Q x)) \<Longrightarrow> keeps E m Q"
  by (simp add: keeps_def)

lemma keeps_bind [keeps_intros]:
  assumes "keeps E m Q" and "\<And>x. Q x \<Longrightarrow> keeps E (f x) R"
  shows "keeps E (bind_c m f) R"
proof (rule keepsI)
  fix s s' r assume s: "files_ok E s" and run: "bind_c m f s = (s', r)"
  obtain s1 r1 where m: "m s = (s1, r1)" by fastforce
  have 1: "files_ok E s1" "\<And>x. r1 = Ok x \<Longrightarrow> Q x" using assms(1) s m by (auto simp: keeps_def)
  show "files_ok E s' \<and> (\<forall>x. r = Ok x \<longrightarrow> R x)"
    using run m 1 assms(2) by (cases r1) (auto simp: bind_c_def keeps_def)
qed

lemma keeps_return [keeps_intros]: "Q x \<Longrightarrow> keeps E (return_c x) Q"
  by (simp add: keeps_def return_c_def)

lemma keeps_fail [keeps_intros]: "keeps E (fail_c e) Q"
  by (simp add: keeps_def fail_c_def)

lemma keeps_lift [keeps_intros]: "keeps E (lift_c f r) (\<lambda>x. r = Ok x)"
  by (cases r) (simp_all add: keeps_def lift_c_def)

lemma keeps_prod [keeps_intros]:
  "(\<And>a b. x = (a, b) \<Longrightarrow> keeps E (f a b) Q) \<Longrightarrow> keeps E (case x of (a, b) \<Rightarrow> f a b) Q"
  by (cases x) simp

lemma keeps_option [keeps_intros]:
  "(x = None \<Longrightarrow> keeps E m Q) \<Longrightarrow> (\<And>a. x = Some a \<Longrightarrow> keeps E (f a) Q) \<Longrightarrow>
   keeps E (case x of None \<Rightarrow> m | Some a \<Rightarrow> f a) Q"
  by (cases x) simp_all

lemma keeps_if [keeps_intros]:
  "(b \<Longrightarrow> keeps E m Q) \<Longrightarrow> (\<not> b \<Longrightarrow> keeps E m' Q) \<Longrightarrow> keeps E (if b then m else m') Q"
  by simp

lemma keeps_prove [keeps_intros]: "keeps E (prove_c E' u) (\<lambda>_. True)"
  by (cases "ce_prove E' u") (simp_all add: keeps_def prove_c_def)

lemma keeps_transaction [keeps_intros]: "keeps E (transaction_c io k snark) (\<lambda>_. True)"
  by (auto simp: keeps_def transaction_c_def files_ok_def split: delivery.splits)

lemma keeps_write:
  assumes "\<And>w. ce_wallet_from_json E c = Some w \<Longrightarrow> wallet_inv (pos E) w"
  shows "keeps E (write_file io p c) (\<lambda>_. True)"
  using assms by (auto simp: keeps_def write_file_def files_ok_def update_conv' split: if_splits)

lemma keeps_save [keeps_intros]:
  assumes "json_ok E" and "wallet_inv (pos E) w"
  shows "keeps E (wallet_save E io w) (\<lambda>_. True)"
proof (cases "w_storage_path w")
  case None
  then show ?thesis by (simp add: wallet_save_def keeps_fail)
next
  case (Some p)
  show ?thesis
  proof (cases "ce_wallet_to_json E w")
    case None
    then show ?thesis using Some by (simp add: wallet_save_def save_to_def keeps_fail)
  next
    case (Some c)
    then have "wallet_inv (pos E) v" if "ce_wallet_from_json E c = Some v" for v
      using assms that same_wallet_inv by (fastforce simp: json_ok_def)
    then show ?thesis using Some \<open>w_storage_path w = Some p\<close> by (simp add: wallet_save_def save_to_def keeps_write)
  qed
qed

lemma keeps_load [keeps_intros]: "keeps E (load_from E dir name) (wallet_inv (pos E))"
  by (auto simp: keeps_def load_from_def files_ok_def Let_def split: option.splits)

lemma keeps_build [keeps_intros]: "keeps E (build_client E io name chain False) (wallet_inv (pos E))"
  unfolding build_client_def
  by simp (rule keeps_intros | assumption)+

lemma keeps_input_file [keeps_intros]:
  assumes "json_ok E" and "ce_wallet_from_json E c = None"
  shows "keeps E (write_file io p c) (\<lambda>_. True)"
  using assms by (intro keeps_write) simp

lemma keeps_weaken: "keeps E m Q \<Longrightarrow> (\<And>x. Q x \<Longrightarrow> R x) \<Longrightarrow> keeps E m R"
  by (auto simp: keeps_def)

section \<open>Every command keeps the files in order\<close>

lemma keeps_create:
  assumes "json_ok E"
  shows "keeps E (handle_create E io chain name) (\<lambda>_. True)"
proof -
  define w where "w = with_storage_path (wallet_path_in (ce_dir E) name) (wallet_random (io_bytes io) chain (Some name))"
  have "wallet_inv (pos E) w" by (simp add: w_def wallet_random_def wallet_inv_def balance_ok_def with_storage_path_def)
  then have "keeps E (bind_c (wallet_save E io w) (\<lambda>_. return_c w)) (\<lambda>_. True)"
    using assms by - (rule keeps_intros | assumption | simp)+
  then have "keeps E (create_in E io (ce_dir E) chain name) (\<lambda>_. True)"
    unfolding keeps_def create_in_def Let_def w_def by (auto split: if_splits)
  then show ?thesis unfolding handle_create_def by - (rule keeps_bind, assumption, rule keeps_return, simp)
qed

lemma keeps_sync: "json_ok E \<Longrightarrow> keeps E (handle_sync E io chain name) (\<lambda>_. True)"
  unfolding handle_sync_def by (rule keeps_intros | (auto simp: prepare_defs json_ok_def intro: wallet_step_inv)[1])+

lemma keeps_address: "json_ok E \<Longrightarrow> keeps E (handle_address E io name amount ticker) (\<lambda>_. True)"
  unfolding handle_address_def by (rule keeps_intros | (auto simp: prepare_defs json_ok_def intro: wallet_step_inv)[1])+

lemma keeps_note_spend: "json_ok E \<Longrightarrow> keeps E (handle_note_spend E io chain name amount ticker) (\<lambda>_. True)"
  unfolding handle_note_spend_def
  by (rule keeps_intros | (auto simp: prepare_defs json_ok_def dest!: receive_note_owned intro: wallet_step_inv)[1])+

lemma keeps_spend_to: "json_ok E \<Longrightarrow> keeps E (handle_spend_to E io chain name address) (\<lambda>_. True)"
  unfolding handle_spend_to_def
  by (rule keeps_intros | (auto simp: prepare_defs json_ok_def intro: wallet_step_inv)[1])+

lemma keeps_read_input [keeps_intros]: "keeps E (read_input_note E notefile notelink) (\<lambda>_. True)"
  by (auto simp: keeps_def read_input_note_def bind_c_def lift_c_def split: option.splits outcome.splits prod.splits)

lemma keeps_receive: "json_ok E \<Longrightarrow> keeps E (handle_receive E io chain name notefile notelink) (\<lambda>_. True)"
  unfolding handle_receive_def
  by (rule keeps_intros | (auto simp: prepare_defs json_ok_def intro: wallet_step_inv)[1])+

lemma keeps_import:
  assumes "json_ok E"
  shows "keeps E (handle_import E io name notefile) (\<lambda>_. True)"
proof -
  have "keeps E (bind_c (load_from E (ce_dir E) name) (\<lambda>w. bind_c (lift_c AppWallet (prepare_import_note n w)) (\<lambda>(w, _).
      wallet_save E io w))) (\<lambda>_. True)" for n
    using assms by - (rule keeps_intros | (auto simp: prepare_defs json_ok_def intro: wallet_step_inv)[1])+
  then show ?thesis unfolding keeps_def handle_import_def by (auto split: option.splits)
qed

lemma keeps_guard: "keeps E (if b then fail_c e else return_c ()) (\<lambda>_. True)"
  by (simp add: keeps_fail keeps_return)

lemma keeps_mint: "json_ok E \<Longrightarrow> keeps E (handle_mint E io chain name amount ticker only) (\<lambda>_. True)"
  unfolding handle_mint_def prepare_defs stage_eq
  by (rule keeps_guard keeps_intros | assumption | blast intro: mint_inv)+

lemma keeps_burn: "json_ok E \<Longrightarrow> keeps E (handle_burn E io chain name address amount ticker sub) (\<lambda>_. True)"
  unfolding handle_burn_def prepare_defs stage_eq
  by (rule keeps_intros | assumption | blast dest: receive_note_owned intro: burn_inv add_inv spend_to_inv)+

lemma keeps_lift_any: "keeps E (lift_c f r) (\<lambda>_. True)"
  by (rule keeps_weaken [OF keeps_lift]) simp

lemma keeps_depo_ln: "json_ok E \<Longrightarrow> keeps E (handle_depo_ln E io chain name amount) (\<lambda>_. True)"
  unfolding handle_depo_ln_def prepare_defs stage_eq
  by (rule keeps_guard keeps_intros | assumption | blast intro: mint_inv)+

lemma keeps_withdraw_ln: "json_ok E \<Longrightarrow> keeps E (handle_withdraw_ln E io chain name address) (\<lambda>_. True)"
  unfolding handle_withdraw_ln_def
  by (rule keeps_option keeps_if keeps_fail keeps_bind keeps_burn keeps_lift_any | assumption)+

lemmas keeps_commands = keeps_create keeps_sync keeps_address keeps_note_spend keeps_spend_to keeps_receive
  keeps_import keeps_mint keeps_burn keeps_depo_ln keeps_withdraw_ln

lemma keeps_run_command: "json_ok E \<Longrightarrow> keeps E (run_command E io chain name call) (\<lambda>_. True)"
  unfolding run_command_def
  by (cases call) (simp_all, (rule keeps_intros keeps_commands | simp)+)

section \<open>Runs of the command line\<close>

text \<open>
  Commands in any order, for any wallet names, with any keys, answers and failed writes, and files
  that arrive from elsewhere as long as they are not wallets.
\<close>

inductive cli_run :: "cli_env \<Rightarrow> world \<Rightarrow> bool" for E where
  cli_start: "cli_run E \<lparr>wo_files = [], wo_sent = []\<rparr>"
| cli_step: "cli_run E s \<Longrightarrow> run_command E io chain name call s = (s', r) \<Longrightarrow> cli_run E s'"
| cli_file: "cli_run E s \<Longrightarrow> ce_wallet_from_json E c = None \<Longrightarrow>
    cli_run E (s\<lparr>wo_files := AList.update p c (wo_files s)\<rparr>)"

lemma cli_run_files:
  assumes "cli_run E s" and "json_ok E"
  shows "files_ok E s"
  using assms(1)
proof (induction rule: cli_run.induct)
  case cli_start
  then show ?case by (simp add: files_ok_def)
next
  case (cli_step s io chain name call s' r)
  then show ?case using keeps_run_command [OF assms(2), of io chain name call] by (auto simp: keeps_def)
next
  case (cli_file s c p)
  then show ?case by (auto simp: files_ok_def update_conv')
qed

lemma save_load:
  assumes "wallet_save E io w s = (s', Ok ())" and "w_storage_path w = Some (wallet_path_in dir name)" and "json_ok E"
  shows "\<exists>v. load_from E dir name s' = (s', Ok v) \<and> same_wallet w v \<and> w_storage_path v = w_storage_path w"
proof -
  let ?p = "wallet_path_in dir name"
  obtain c where c: "ce_wallet_to_json E w = Some c" and s': "s' = s\<lparr>wo_files := AList.update ?p c (wo_files s)\<rparr>"
    using assms(1,2) by (auto simp: wallet_save_def save_to_def write_file_def fail_c_def split: option.splits if_splits)
  obtain v where "ce_wallet_from_json E c = Some v" "same_wallet w v" using c assms(3) unfolding json_ok_def by blast
  then show ?thesis
    using assms(2) by (auto simp: load_from_def s' update_conv' with_storage_path_def same_wallet_def Let_def)
qed

section \<open>A world with one wallet\<close>

definition demo_created :: wallet where
  "demo_created = with_storage_path ''./alice.json'' (wallet_random (replicate 32 0) 5115 (Some ''alice''))"

definition demo_minted :: wallet where
  "demo_minted = demo_created\<lparr>w_avail := [(''WCBTC'', [demo_coin 11 50000000000])], w_balance := 50000000000\<rparr>"

definition demo_cli :: cli_env where
  "demo_cli = \<lparr>ce_url = demo_env, ce_dir = ''.'',
     ce_wallet_to_json = (\<lambda>w. if w = demo_created then Some ''0'' else if w = demo_minted then Some ''1'' else None),
     ce_wallet_from_json = (\<lambda>s. if s = ''0'' then Some (demo_created\<lparr>w_storage_path := None\<rparr>)
        else if s = ''1'' then Some (demo_minted\<lparr>w_storage_path := None\<rparr>) else None),
     ce_note_to_json = (\<lambda>_. Some ''n''), ce_note_from_json = (\<lambda>_. None),
     ce_input_to_json = (\<lambda>_. Some ''i''), ce_input_from_json = (\<lambda>_. None),
     ce_prove = (\<lambda>_. Some demo_payment), ce_h160 = (\<lambda>_. None)\<rparr>"

definition demo_io :: cli_io where
  "demo_io = \<lparr>io_key = (\<lambda>k. 11 + of_nat k), io_bytes = replicate 32 0, io_reply = (\<lambda>_. Accepted), io_healthy = True,
     io_listed = None, io_writable = (\<lambda>_. True), io_onramp_init = Some \<lparr>oi_invoice = Some ''lnbc'', oi_id = Some ''7''\<rparr>,
     io_onramp_status = (\<lambda>k. Some \<lparr>or_state = of_nat k, or_amount = 5\<rparr>), io_claimed = True,
     io_offramp_quote = None, io_offramp_state = (\<lambda>_. None)\<rparr>"

definition demo_world :: "string \<Rightarrow> utxo_proof list \<Rightarrow> world" where
  "demo_world c sent = \<lparr>wo_files = [(''./alice.json'', c)], wo_sent = sent\<rparr>"

lemma demo_json_ok: "json_ok demo_cli"
  by (auto simp: json_ok_def demo_cli_def same_wallet_def)

lemma demo_poseidon: "pos demo_cli = demo_P"
  by (simp add: demo_cli_def demo_env_def)

lemma demo_path: "wallet_path_in (ce_dir demo_cli) ''alice'' = ''./alice.json''"
  by (simp add: wallet_path_in_def path_join_def demo_cli_def)

lemma demo_create:
  "run_command demo_cli demo_io 5115 ''alice'' Create \<lparr>wo_files = [], wo_sent = []\<rparr> = (demo_world ''0'' [], Ok ())"
proof -
  have "with_storage_path ''./alice.json'' (wallet_random (io_bytes demo_io) 5115 (Some ''alice'')) = demo_created"
    by (simp add: demo_created_def demo_io_def)
  moreover have "w_storage_path demo_created = Some ''./alice.json''"
    by (simp add: demo_created_def with_storage_path_def)
  moreover have "ce_wallet_to_json demo_cli demo_created = Some ''0''" by (simp add: demo_cli_def)
  ultimately show ?thesis
    by (simp add: run_command_def handle_create_def create_in_def demo_path bind_c_def wallet_save_def save_to_def
        write_file_def return_c_def demo_world_def demo_io_def)
qed

lemma demo_wallet_fields:
  "w_storage_path demo_created = Some ''./alice.json''" "w_chain_id demo_created = Some 5115" "w_avail demo_created = []"
  "w_balance demo_created = 0" "w_storage_path demo_minted = Some ''./alice.json''" "w_chain_id demo_minted = Some 5115"
  by (simp_all add: demo_created_def demo_minted_def with_storage_path_def wallet_random_def)

lemma demo_load: "load_from demo_cli (ce_dir demo_cli) ''alice'' (demo_world c sent) =
  (demo_world c sent, if c = ''0'' then Ok demo_created else if c = ''1'' then Ok demo_minted
     else Err (AppWallet SerializationError))"
proof -
  have "with_storage_path ''./alice.json'' (demo_created\<lparr>w_storage_path := None\<rparr>) = demo_created"
    "with_storage_path ''./alice.json'' (demo_minted\<lparr>w_storage_path := None\<rparr>) = demo_minted"
    by (simp_all add: with_storage_path_def demo_created_def demo_minted_def)
  then show ?thesis by (auto simp: load_from_def demo_path demo_world_def Let_def) (simp_all add: demo_cli_def)
qed

lemma demo_build: "build_client demo_cli io ''alice'' 5115 False (demo_world ''0'' sent) = (demo_world ''0'' sent, Ok demo_created)"
  "build_client demo_cli io ''alice'' 5115 False (demo_world ''1'' sent) = (demo_world ''1'' sent, Ok demo_minted)"
  by (simp_all add: build_client_def bind_c_def demo_load demo_wallet_fields return_c_def)

lemma demo_mint_step: "prepare_mint demo_P 11 50000000000 ''WCBTC'' demo_created =
  Ok (demo_minted, new_mint (in_note (demo_coin 11 50000000000), padding_note))"
  by (simp add: prepare_defs wallet_mint_def demo_mint_coin push_to_avail_def demo_wallet_fields demo_minted_def)

lemma demo_poll: "poll_onramp demo_io 0 = Ok 50000000000"
proof -
  have "io_onramp_status demo_io k = Some \<lparr>or_state = of_nat k, or_amount = 5\<rparr>" for k by (simp add: demo_io_def)
  then show ?thesis
    by (simp add: poll_onramp.simps [of demo_io] MAX_POLL_ATTEMPTS_def sats_to_wei_def WEI_PER_SAT_def)
qed

lemma demo_deposit:
  "run_command demo_cli demo_io 5115 ''alice'' (DepoLn 5) (demo_world ''0'' []) =
   (demo_world ''1'' [demo_payment], Ok ())"
proof -
  have ne: "demo_minted \<noteq> demo_created"
  proof
    assume "demo_minted = demo_created"
    from arg_cong [OF this, of w_balance] show False by (simp add: demo_minted_def demo_wallet_fields)
  qed
  have "ce_wallet_to_json demo_cli demo_minted = Some ''1''" "ce_prove demo_cli u = Some demo_payment"
    "io_key demo_io 0 = 11" "io_reply demo_io 0 = Accepted" "io_writable demo_io p" "io_claimed demo_io"
    "io_onramp_init demo_io = Some \<lparr>oi_invoice = Some ''lnbc'', oi_id = Some ''7''\<rparr>" for u p
    using ne by (simp_all add: demo_cli_def demo_io_def)
  then show ?thesis
    using demo_mint_step demo_build(1)
    by (simp add: run_command_def handle_depo_ln_def demo_poll bind_c_def lift_c_def demo_poseidon
        prove_c_def transaction_c_def return_c_def wallet_save_def save_to_def write_file_def demo_wallet_fields demo_world_def)
qed

lemma demo_cli_run: "cli_run demo_cli (demo_world ''1'' [demo_payment])"
  using cli_step [OF cli_step [OF cli_start demo_create] demo_deposit] .

section \<open>Theorems\<close>

text \<open>
  C12. Whatever commands ran, with whatever answers of the node, failed writes and interruptions
  between them, every wallet that loads from its file has a balance equal to the sum of its
  available notes, and holds the key of each of its available and pending notes.
\<close>

theorem wallet_files_account:
  assumes "json_ok E" and "cli_run E s" and "load_from E (ce_dir E) name s = (s', Ok w)"
  shows "unat (w_balance w) = worth (held w) \<and>
    (\<forall>i \<in># all_notes (w_avail w) + all_notes (w_pending w). owned (pos E) i)"
proof -
  have "wallet_inv (pos E) w"
    using cli_run_files [OF assms(2,1)] keeps_load [of E "ce_dir E" name] assms(3) unfolding keeps_def by blast
  then show ?thesis using balance_worth by (auto simp: wallet_inv_def)
qed

theorem wallet_files_account_witness:
  "load_from demo_cli (ce_dir demo_cli) ''alice'' (demo_world ''1'' [demo_payment]) =
     (demo_world ''1'' [demo_payment], Ok demo_minted) \<and> worth (held demo_minted) = 50000000000"
proof -
  have load: "load_from demo_cli (ce_dir demo_cli) ''alice'' (demo_world ''1'' [demo_payment]) =
      (demo_world ''1'' [demo_payment], Ok demo_minted)" by (simp add: demo_load)
  from wallet_files_account [OF demo_json_ok demo_cli_run load] load show ?thesis by (simp add: demo_minted_def)
qed

text \<open>
  When the node has the transaction of a \<open>spend\<close> but its answer is lost, the command ends with an
  error and writes no file: the reloaded wallet still counts the notes the transaction spends, and the
  keys drawn for this command, those of the change and of the transferred note, are not stored.
\<close>

lemma spend_answer_lost:
  assumes "json_ok E" and "cli_run E s" and "build_client E io name chain False s = (s, Ok w)"
    and "prepare_receive_note (pos E) (io_key io 0) amount ticker w = Ok (w1, i)"
    and "prepare_spend_to (pos E) (io_key io 1) (in_note i) w1 = Ok (w2, u)"
    and "ce_prove E u = Some snark" and "io_reply io 0 = NoAnswer"
  shows "\<exists>s'. handle_note_spend E io chain name amount ticker s = (s', Err AppNode) \<and>
    wo_files s' = wo_files s \<and> snark \<in> set (wo_sent s') \<and>
    build_client E io name chain False s' = (s', Ok w) \<and>
    in_note (fst (u_input_notes u)) \<in># held w"
proof -
  let ?s = "s\<lparr>wo_sent := wo_sent s @ [snark]\<rparr>"
  have run: "handle_note_spend E io chain name amount ticker s = (?s, Err AppNode)"
    using assms(3-7) by (simp add: handle_note_spend_def bind_c_def lift_c_def prove_c_def transaction_c_def)
  have again: "build_client E io name chain False ?s = (?s, Ok w)"
    using assms(3) by (auto simp: build_client_def load_from_def bind_c_def return_c_def fail_c_def Let_def
        split: option.splits if_splits)
  have w1: "w1 = w" using assms(4) by (auto simp: prepare_defs dest: receive_note_owned)
  have "wallet_inv (pos E) w"
    using keeps_build [of E io name chain] cli_run_files [OF assms(2,1)] assms(3) unfolding keeps_def by blast
  then have bal: "balance_ok w" by (simp add: wallet_inv_def)
  obtain t a ins c where sel: "select_input_notes (pos E) (io_key io 1) t a w = Ok (w2, ins, c)" and u: "u = new_send ins (in_note i, c)"
    using assms(5) by (auto simp: w1 prepare_defs spend_to_def outcome_simps split: if_splits)
  have "spends (pos E) (io_key io 1) t a w w2 ins c"
    using select_spec [OF bal, of "pos E" "io_key io 1" t a] unfolding sel by simp
  then obtain N where N: "N \<subseteq># held_at w t" "input_notes_are ins N" by (auto simp: spends_def best_payment_def)
  have "in_note (fst ins) \<in># N" using N(2) by (auto simp: input_notes_are_def)
  then have "in_note (fst ins) \<in># held w"
    using mset_subset_eqD [OF subset_mset.order_trans [OF N(1) held_at_sub]] by blast
  then show ?thesis using run again u by (auto simp: new_send_def)
qed

text \<open>
  A Lightning deposit reveals its preimage before the proof reaches the node and saves the wallet only
  after the node's answer: without that answer the deposit is claimed, no file has changed, and the key
  of the note it minted is gone.
\<close>

lemma deposit_answer_lost:
  assumes "build_client E io name chain False s = (s, Ok w)" and "poll_onramp io 0 = Ok amount"
    and "prepare_mint (pos E) (io_key io 0) amount ''WCBTC'' w = Ok (w', u)" and "ce_prove E u = Some snark"
    and "io_claimed io" and "io_reply io 0 \<noteq> Accepted"
    and "io_onramp_init io = Some \<lparr>oi_invoice = Some invoice, oi_id = Some swap_id\<rparr>"
  shows "\<exists>s'. handle_depo_ln E io chain name amount_sat s = (s', Err AppNode) \<and> wo_files s' = wo_files s"
  using assms by (cases "io_reply io 0")
    (auto simp: handle_depo_ln_def bind_c_def lift_c_def prove_c_def transaction_c_def return_c_def)

end
