(* ===== verification/Doomslug.thy ===== *)
theory Doomslug
  imports Node_State
begin

text \<open>
  The Doomslug block-production logic (\<open>doomslug/src/doomslug.rs\<close>): the trackers that count the stake
  behind each approval, the timer that decides when to endorse and when to skip, and the entry
  points \<open>on_block\<close>, \<open>on_approval\<close>, \<open>process_timer\<close> and \<open>ready_to_produce_block\<close>. Instants and
  durations are nanoseconds; \<open>Balance\<close> is a natural number below \<open>2 ^ 128\<close> and its operations panic on
  overflow, as those of \<open>Duration\<close> and \<open>Instant\<close> do. The clocks the debug history reads
  (\<open>Instant::now\<close> through \<open>elapsed\<close>, \<open>chrono::Utc::now\<close>) are arguments.
\<close>

section \<open>Numbers and time\<close>

type_synonym 'a ds = "('a, node_error) outcome"

type_synonym instant = nat

type_synonym duration = nat

definition bal_add :: "nat \<Rightarrow> nat \<Rightarrow> nat ds" where
  "bal_add a b = (if a + b < 2 ^ 128 then Ok (a + b) else Panic)"

definition bal_sub :: "nat \<Rightarrow> nat \<Rightarrow> nat ds" where
  "bal_sub a b = (if b \<le> a then Ok (a - b) else Panic)"

definition bal_sum :: "nat list \<Rightarrow> nat ds" where
  "bal_sum bs = fold_o bal_add 0 bs"

definition two_thirds :: "nat \<Rightarrow> nat ds" where
  "two_thirds a = (if a * 2 < 2 ^ 128 then Ok (a * 2 div 3) else Panic)"

text \<open>A \<open>Duration\<close> is 64 bits of seconds and below a second of nanoseconds; an \<open>Instant\<close> has 63 bits of seconds.\<close>

definition dur_add :: "duration \<Rightarrow> duration \<Rightarrow> duration ds" where
  "dur_add a b = (if a + b < 2 ^ 64 * 10 ^ 9 then Ok (a + b) else Panic)"

definition dur_mul :: "duration \<Rightarrow> nat \<Rightarrow> duration ds" where
  "dur_mul a n = (if a * n < 2 ^ 64 * 10 ^ 9 then Ok (a * n) else Panic)"

definition inst_add :: "instant \<Rightarrow> duration \<Rightarrow> instant ds" where
  "inst_add a d = (if a + d < 2 ^ 63 * 10 ^ 9 then Ok (a + d) else Panic)"

definition as_millis_u64 :: "duration \<Rightarrow> u64" where
  "as_millis_u64 d = of_nat (d div 10 ^ 6)"

definition h_saturating_sub :: "u64 \<Rightarrow> u64 \<Rightarrow> u64" where
  "h_saturating_sub a b = (if b \<le> a then a - b else 0)"

definition MAX_TIMER_ITERS :: nat where
  "MAX_TIMER_ITERS = 20"

definition MAX_HEIGHTS_AHEAD_TO_STORE_APPROVALS :: u64 where
  "MAX_HEIGHTS_AHEAD_TO_STORE_APPROVALS = 10000"

definition MAX_HEIGHTS_BEFORE_TO_STORE_APPROVALS :: u64 where
  "MAX_HEIGHTS_BEFORE_TO_STORE_APPROVALS = 20"

definition MAX_HISTORY_SIZE :: nat where
  "MAX_HISTORY_SIZE = 1000"

section \<open>State\<close>

datatype threshold_mode = NoApprovals | TwoThirds

datatype readiness = NotReady | ReadySince instant

record ds_timer =
  ti_started :: instant
  ti_last_endorsement_sent :: instant
  ti_height :: u64
  ti_endorsement_delay :: duration
  ti_min_delay :: duration
  ti_delay_step :: duration
  ti_max_delay :: duration

record ds_tip =
  tip_block_hash :: crypto_hash
  tip_height :: u64

type_synonym stake_map = "(address \<times> (nat \<times> nat)) list"

record tracker =
  tr_witness :: "(address \<times> (approval_validated \<times> nat)) list"
  tr_account_id_to_stakes :: stake_map
  tr_total_this :: nat
  tr_approved_this :: nat
  tr_total_next :: nat
  tr_approved_next :: nat
  tr_time_passed_threshold :: "instant option"
  tr_threshold_mode :: threshold_mode

record trackers_at_height =
  ta_trackers :: "(approval_inner \<times> tracker) list"
  ta_last_approval :: "(address \<times> approval_inner) list"

record history_entry =
  hi_parent_height :: u64
  hi_target_height :: u64
  hi_creation_time :: nat
  hi_timer_started_ago_millis :: u64
  hi_expected_delay_millis :: u64

record approval_status =
  st_approvals :: "(address \<times> (approval_inner \<times> nat)) list"
  st_ready_at :: "int option"

record doomslug =
  ds_approval_tracking :: "(u64 \<times> trackers_at_height) list"
  ds_largest_sent :: u64
  ds_largest_final :: u64
  ds_largest_threshold :: u64
  ds_largest_approval :: u64
  ds_tip :: ds_tip
  ds_endorsement_pending :: bool
  ds_timer :: ds_timer
  ds_threshold_mode :: threshold_mode
  ds_history :: "history_entry list"

section \<open>Timer delays\<close>

definition get_delay :: "ds_timer \<Rightarrow> u64 \<Rightarrow> duration ds" where
  "get_delay t n =
     (let n32 = min (unat n) (2 ^ 32 - 1)
      in bind_o (dur_mul (ti_delay_step t) (n32 - 2)) (\<lambda>d.
         bind_o (dur_add (ti_min_delay t) d) (\<lambda>d. Ok (min (ti_max_delay t) d))))"

section \<open>One tracker\<close>

definition tracker_new :: "stake_map \<Rightarrow> threshold_mode \<Rightarrow> tracker ds" where
  "tracker_new stakes mode =
     bind_o (bal_sum (map (fst \<circ> snd) stakes)) (\<lambda>total_this.
     bind_o (bal_sum (map (snd \<circ> snd) stakes)) (\<lambda>total_next.
     Ok \<lparr>tr_witness = [], tr_account_id_to_stakes = stakes, tr_total_this = total_this,
         tr_approved_this = 0, tr_total_next = total_next, tr_approved_next = 0,
         tr_time_passed_threshold = None, tr_threshold_mode = mode\<rparr>))"

definition stakes_of :: "tracker \<Rightarrow> address \<Rightarrow> nat \<times> nat" where
  "stakes_of tr a = (case map_of (tr_account_id_to_stakes tr) a of Some s \<Rightarrow> s | None \<Rightarrow> (0, 0))"

text \<open>The connectives of the condition evaluate their right operand only when they need it.\<close>

definition threshold_met :: "tracker \<Rightarrow> bool ds" where
  "threshold_met tr =
     bind_o (two_thirds (tr_total_this tr)) (\<lambda>t1.
     bind_o (if t1 < tr_approved_this tr
             then bind_o (two_thirds (tr_total_next tr)) (\<lambda>t2.
                  Ok (t2 < tr_approved_next tr \<or> tr_total_next tr = 0))
             else Ok False) (\<lambda>enough.
     Ok (enough \<or> tr_threshold_mode tr = NoApprovals)))"

definition get_block_production_readiness :: "instant \<Rightarrow> tracker \<Rightarrow> (tracker \<times> readiness) ds" where
  "get_block_production_readiness now tr =
     bind_o (threshold_met tr) (\<lambda>met.
     if met then
       (case tr_time_passed_threshold tr of
          None \<Rightarrow> Ok (tr\<lparr>tr_time_passed_threshold := Some now\<rparr>, ReadySince now)
        | Some t \<Rightarrow> Ok (tr, ReadySince t))
     else Ok (tr, NotReady))"

definition tracker_process_approval ::
    "instant \<Rightarrow> nat \<Rightarrow> approval_validated \<Rightarrow> tracker \<Rightarrow> (tracker \<times> readiness) ds" where
  "tracker_process_approval now utc a tr =
     bind_o (case map_of (tr_witness tr) (av_validator a) of
         Some _ \<Rightarrow> Ok tr
       | None \<Rightarrow>
           let tr = tr\<lparr>tr_witness := AList.update (av_validator a) (a, utc) (tr_witness tr)\<rparr>;
               s = stakes_of tr (av_validator a)
           in bind_o (bal_add (tr_approved_this tr) (fst s)) (\<lambda>this.
              bind_o (bal_add (tr_approved_next tr) (snd s)) (\<lambda>nxt.
              Ok (tr\<lparr>tr_approved_this := this, tr_approved_next := nxt\<rparr>))))
     (get_block_production_readiness now)"

definition withdraw_approval :: "address \<Rightarrow> tracker \<Rightarrow> tracker ds" where
  "withdraw_approval validator tr =
     (case map_of (tr_witness tr) validator of
        None \<Rightarrow> Ok tr
      | Some (a, _) \<Rightarrow>
          let tr = tr\<lparr>tr_witness := AList.delete validator (tr_witness tr)\<rparr>;
              s = stakes_of tr (av_validator a)
          in bind_o (bal_sub (tr_approved_this tr) (fst s)) (\<lambda>this.
             bind_o (bal_sub (tr_approved_next tr) (snd s)) (\<lambda>nxt.
             Ok (tr\<lparr>tr_approved_this := this, tr_approved_next := nxt\<rparr>))))"

definition get_witnesses :: "tracker \<Rightarrow> (address \<times> nat) list" where
  "get_witnesses tr = map (\<lambda>(key, (_, arrival_time)). (key, arrival_time)) (tr_witness tr)"

section \<open>The trackers of a height\<close>

definition trackers_new :: trackers_at_height where
  "trackers_new = \<lparr>ta_trackers = [], ta_last_approval = []\<rparr>"

definition withdraw_last :: "address \<Rightarrow> trackers_at_height \<Rightarrow> trackers_at_height ds" where
  "withdraw_last validator ta =
     (case map_of (ta_last_approval ta) validator of
        None \<Rightarrow> Ok ta
      | Some last_parent \<Rightarrow>
          (case map_of (ta_trackers ta) last_parent of
             None \<Rightarrow> Ok ta
           | Some x \<Rightarrow> bind_o (withdraw_approval validator x) (\<lambda>x.
               if tr_witness x = []
               then Ok (ta\<lparr>ta_trackers := AList.delete last_parent (ta_trackers ta)\<rparr>)
               else Ok (ta\<lparr>ta_trackers := AList.update last_parent x (ta_trackers ta)\<rparr>))))"

definition unslashed_stakes :: "(approval_stake \<times> bool) list \<Rightarrow> stake_map" where
  "unslashed_stakes stakes = fold
     (\<lambda>(x, is_slashed) m. if is_slashed then m
        else AList.update (as_validator x) (as_stake_this_epoch x, as_stake_next_epoch x) m) stakes []"

definition process_approval ::
    "instant \<Rightarrow> nat \<Rightarrow> approval_validated \<Rightarrow> (approval_stake \<times> bool) list \<Rightarrow> threshold_mode \<Rightarrow>
     trackers_at_height \<Rightarrow> (trackers_at_height \<times> readiness) ds" where
  "process_approval now utc a stakes mode ta =
     bind_o (withdraw_last (av_validator a) ta) (\<lambda>ta.
     let account_id_to_stakes = unslashed_stakes stakes; i = ap_inner (av_content a)
     in bind_o (assert_o (length account_id_to_stakes = length stakes)) (\<lambda>_.
        if map_of account_id_to_stakes (av_validator a) = None then Ok (ta, NotReady)
        else
          let ta = ta\<lparr>ta_last_approval := AList.update (av_validator a) i (ta_last_approval ta)\<rparr>
          in bind_o (case map_of (ta_trackers ta) i of
                Some tr \<Rightarrow> Ok tr
              | None \<Rightarrow> tracker_new account_id_to_stakes mode) (\<lambda>tr.
             bind_o (tracker_process_approval now utc a tr) (\<lambda>(tr, r).
             Ok (ta\<lparr>ta_trackers := AList.update i tr (ta_trackers ta)\<rparr>, r)))))"

text \<open>
  \<open>from_std\<close> is \<open>chrono::Duration::from_std\<close>, which fails beyond its range; \<open>utc_now\<close> and \<open>inst_now\<close> are
  the clocks when the status is asked.
\<close>

definition trackers_status ::
    "(duration \<Rightarrow> int option) \<Rightarrow> int \<Rightarrow> instant \<Rightarrow> trackers_at_height \<Rightarrow> approval_status" where
  "trackers_status from_std utc_now inst_now ta =
     (let approvals = fold (\<lambda>(i, tr) m. fold (\<lambda>(account, t) m. AList.update account (i, t) m) (get_witnesses tr) m)
                        (ta_trackers ta) [];
          passed = List.map_filter (\<lambda>(_, tr). tr_time_passed_threshold tr) (ta_trackers ta)
      in \<lparr>st_approvals = approvals,
          st_ready_at = (case passed of [] \<Rightarrow> None
            | t # ts \<Rightarrow> Some (utc_now - (case from_std (inst_now - fold min ts t) of
                Some d \<Rightarrow> d | None \<Rightarrow> 24 * 60 * 60 * 10 ^ 9)))\<rparr>)"

section \<open>Doomslug\<close>

definition doomslug_new ::
    "instant \<Rightarrow> instant \<Rightarrow> u64 \<Rightarrow> duration \<Rightarrow> duration \<Rightarrow> duration \<Rightarrow> duration \<Rightarrow> threshold_mode \<Rightarrow> doomslug" where
  "doomslug_new now1 now2 largest_sent endorsement_delay min_delay delay_step max_delay mode =
     \<lparr>ds_approval_tracking = [], ds_largest_sent = largest_sent, ds_largest_final = 0,
      ds_largest_threshold = 0, ds_largest_approval = 0,
      ds_tip = \<lparr>tip_block_hash = replicate 32 0, tip_height = 0\<rparr>, ds_endorsement_pending = False,
      ds_timer = \<lparr>ti_started = now1, ti_last_endorsement_sent = now2, ti_height = 0,
        ti_endorsement_delay = endorsement_delay, ti_min_delay = min_delay, ti_delay_step = delay_step,
        ti_max_delay = max_delay\<rparr>,
      ds_threshold_mode = mode, ds_history = []\<rparr>"

definition update_history :: "history_entry \<Rightarrow> doomslug \<Rightarrow> doomslug" where
  "update_history e d =
     d\<lparr>ds_history := drop (Suc (length (ds_history d)) - MAX_HISTORY_SIZE) (ds_history d) @ [e]\<rparr>"

definition create_approval :: "doomslug \<Rightarrow> u64 \<Rightarrow> approval_content ds" where
  "create_approval d target_height =
     approval_content_new (tip_block_hash (ds_tip d)) (tip_height (ds_tip d)) target_height"

record clock_read =
  cr_now :: instant
  cr_utc :: nat

text \<open>The body of the loop: the delayed endorsement of the tip, then the skip when the timer ran out.\<close>

definition timer_endorse ::
    "clock_read \<Rightarrow> instant \<Rightarrow> doomslug \<Rightarrow> (doomslug \<times> approval_content list) ds" where
  "timer_endorse cr cur_time d =
     (let t = ds_timer d; tip_h = tip_height (ds_tip d)
      in if \<not> ds_endorsement_pending d then Ok (d, [])
         else bind_o (inst_add (ti_last_endorsement_sent t) (ti_endorsement_delay t)) (\<lambda>due.
           if cur_time < due then Ok (d, [])
           else
             bind_o (if tip_h < ds_largest_sent d then Ok (d, [])
                     else bind_o (height_add tip_h 1) (\<lambda>target.
                          let d = d\<lparr>ds_largest_sent := target\<rparr>
                          in bind_o (create_approval d target) (\<lambda>approval.
                             Ok (update_history \<lparr>hi_parent_height = tip_h, hi_target_height = target,
                                   hi_creation_time = cr_utc cr,
                                   hi_timer_started_ago_millis =
                                     as_millis_u64 (cr_now cr - ti_last_endorsement_sent t),
                                   hi_expected_delay_millis = as_millis_u64 (ti_endorsement_delay t)\<rparr> d,
                                 [approval])))) (\<lambda>(d, ret).
             Ok (d\<lparr>ds_timer := (ds_timer d)\<lparr>ti_last_endorsement_sent := cur_time\<rparr>,
                   ds_endorsement_pending := False\<rparr>, ret))))"

definition timer_skip ::
    "clock_read \<Rightarrow> duration \<Rightarrow> doomslug \<Rightarrow> (doomslug \<times> approval_content list) ds" where
  "timer_skip cr skip_delay d =
     (let t = ds_timer d
      in bind_o (assert_o (\<not> ds_endorsement_pending d)) (\<lambda>_.
         bind_o (height_add (ti_height t) 1) (\<lambda>target.
         let d = d\<lparr>ds_largest_sent := max target (ds_largest_sent d)\<rparr>
         in bind_o (create_approval d target) (\<lambda>approval.
            let d = update_history \<lparr>hi_parent_height = tip_height (ds_tip d), hi_target_height = target,
                      hi_creation_time = cr_utc cr,
                      hi_timer_started_ago_millis = as_millis_u64 (cr_now cr - ti_started t),
                      hi_expected_delay_millis = as_millis_u64 skip_delay\<rparr> d
            in bind_o (inst_add (ti_started t) skip_delay) (\<lambda>started.
               Ok (d\<lparr>ds_timer := (ds_timer d)\<lparr>ti_started := started, ti_height := target\<rparr>\<rparr>, [approval]))))))"

fun timer_loop ::
    "nat \<Rightarrow> (nat \<Rightarrow> bool \<Rightarrow> clock_read) \<Rightarrow> instant \<Rightarrow> doomslug \<Rightarrow> (doomslug \<times> approval_content list) ds" where
  "timer_loop 0 clk cur_time d = Ok (d, [])"
| "timer_loop (Suc k) clk cur_time d =
     bind_o (get_delay (ds_timer d) (h_saturating_sub (ti_height (ds_timer d)) (ds_largest_final d))) (\<lambda>skip_delay.
     bind_o (dur_mul (ti_endorsement_delay (ds_timer d)) 2) (\<lambda>twice.
     bind_o (assert_o (twice \<le> skip_delay)) (\<lambda>_.
     bind_o (timer_endorse (clk k False) cur_time d) (\<lambda>(d, ret1).
     bind_o (inst_add (ti_started (ds_timer d)) skip_delay) (\<lambda>due.
     if due \<le> cur_time
     then bind_o (timer_skip (clk k True) skip_delay d) (\<lambda>(d, ret2).
          bind_o (timer_loop k clk cur_time d) (\<lambda>(d, ret3). Ok (d, ret1 @ ret2 @ ret3)))
     else Ok (d, ret1))))))"

definition process_timer ::
    "(nat \<Rightarrow> bool \<Rightarrow> clock_read) \<Rightarrow> instant \<Rightarrow> doomslug \<Rightarrow> (doomslug \<times> approval_content list) ds" where
  "process_timer clk cur_time d = timer_loop MAX_TIMER_ITERS clk cur_time d"

definition stake_sum :: "bool list \<Rightarrow> (nat \<times> bool) list \<Rightarrow> nat ds" where
  "stake_sum approvals stakes =
     bal_sum (map (\<lambda>(approved, (stake, _)). if approved then stake else 0)
       (filter (\<lambda>(_, (_, is_slashed)). \<not> is_slashed) (zip approvals stakes)))"

definition can_approved_block_be_produced ::
    "threshold_mode \<Rightarrow> bool list \<Rightarrow> (nat \<times> nat \<times> bool) list \<Rightarrow> bool ds" where
  "can_approved_block_be_produced mode approvals stakes =
     (if mode = NoApprovals then Ok True
      else
        bind_o (bind_o (bal_sum (map (\<lambda>(x, _, _). x) stakes)) two_thirds) (\<lambda>threshold1.
        bind_o (bind_o (bal_sum (map (\<lambda>(_, x, _). x) stakes)) two_thirds) (\<lambda>threshold2.
        bind_o (stake_sum approvals (map (\<lambda>(x, _, s). (x, s)) stakes)) (\<lambda>approved_stake1.
        bind_o (stake_sum approvals (map (\<lambda>(_, x, s). (x, s)) stakes)) (\<lambda>approved_stake2.
        Ok ((threshold1 < approved_stake1 \<or> threshold1 = 0) \<and>
            (threshold2 < approved_stake2 \<or> threshold2 = 0)))))))"

definition get_witness ::
    "crypto_hash \<Rightarrow> u64 \<Rightarrow> u64 \<Rightarrow> doomslug \<Rightarrow> (address \<times> (approval_validated \<times> nat)) list ds" where
  "get_witness prev_hash parent_height target_height d =
     bind_o (approval_inner_new prev_hash parent_height target_height) (\<lambda>i.
     Ok (case map_of (ds_approval_tracking d) target_height of
           None \<Rightarrow> []
         | Some ta \<Rightarrow> (case map_of (ta_trackers ta) i of None \<Rightarrow> [] | Some tr \<Rightarrow> tr_witness tr)))"

text \<open>
  \<open>retain\<close> computes the upper bound only for the entries that pass the lower one.
\<close>

definition on_block :: "instant \<Rightarrow> crypto_hash \<Rightarrow> u64 \<Rightarrow> u64 \<Rightarrow> doomslug \<Rightarrow> doomslug ds" where
  "on_block now new_hash height last_final_height d =
     bind_o (assert_o (tip_height (ds_tip d) < height \<or> tip_height (ds_tip d) = 0)) (\<lambda>_.
     bind_o (height_add height 1) (\<lambda>timer_height.
     bind_o (let recent = filter (\<lambda>(h, _). h_saturating_sub height MAX_HEIGHTS_BEFORE_TO_STORE_APPROVALS < h)
                            (ds_approval_tracking d)
             in if recent = [] then Ok []
                else bind_o (height_add height MAX_HEIGHTS_AHEAD_TO_STORE_APPROVALS) (\<lambda>ahead.
                     Ok (filter (\<lambda>(h, _). h \<le> ahead) recent))) (\<lambda>tracking.
     Ok (d\<lparr>ds_tip := \<lparr>tip_block_hash = new_hash, tip_height = height\<rparr>,
           ds_largest_final := last_final_height,
           ds_timer := (ds_timer d)\<lparr>ti_height := timer_height, ti_started := now\<rparr>,
           ds_approval_tracking := tracking, ds_endorsement_pending := True\<rparr>))))"

definition on_approval_internal ::
    "instant \<Rightarrow> nat \<Rightarrow> approval_validated \<Rightarrow> (approval_stake \<times> bool) list \<Rightarrow> doomslug \<Rightarrow> (doomslug \<times> readiness) ds" where
  "on_approval_internal now utc a stakes d =
     (let h = ap_target_height (av_content a);
          ta = (case map_of (ds_approval_tracking d) h of Some ta \<Rightarrow> ta | None \<Rightarrow> trackers_new)
      in bind_o (process_approval now utc a stakes (ds_threshold_mode d) ta) (\<lambda>(ta, ret).
         let d = d\<lparr>ds_approval_tracking := AList.update h ta (ds_approval_tracking d)\<rparr>;
             d = (if ds_largest_approval d < h then d\<lparr>ds_largest_approval := h\<rparr> else d);
             d = (if ret \<noteq> NotReady \<and> ds_largest_threshold d < h then d\<lparr>ds_largest_threshold := h\<rparr> else d)
         in Ok (d, ret)))"

definition on_approval ::
    "instant \<Rightarrow> nat \<Rightarrow> approval_validated \<Rightarrow> (approval_stake \<times> bool) list \<Rightarrow> doomslug \<Rightarrow> doomslug ds" where
  "on_approval now utc a stakes d =
     (let h = ap_target_height (av_content a); tip_h = tip_height (ds_tip d)
      in if h < tip_h then Ok d
         else bind_o (height_add tip_h MAX_HEIGHTS_AHEAD_TO_STORE_APPROVALS) (\<lambda>ahead.
           if ahead < h then Ok d
           else bind_o (on_approval_internal now utc a stakes d) (\<lambda>(d, _). Ok d)))"

definition approval_status_at_height ::
    "(duration \<Rightarrow> int option) \<Rightarrow> int \<Rightarrow> instant \<Rightarrow> u64 \<Rightarrow> doomslug \<Rightarrow> approval_status" where
  "approval_status_at_height from_std utc_now inst_now height d =
     (case map_of (ds_approval_tracking d) height of
        Some it \<Rightarrow> trackers_status from_std utc_now inst_now it
      | None \<Rightarrow> \<lparr>st_approvals = [], st_ready_at = None\<rparr>)"

definition ready_to_produce_block ::
    "instant \<Rightarrow> u64 \<Rightarrow> bool \<Rightarrow> doomslug \<Rightarrow> (doomslug \<times> bool) ds" where
  "ready_to_produce_block now target_height has_enough_chunks d =
     bind_o (approval_inner_new (tip_block_hash (ds_tip d)) (tip_height (ds_tip d)) target_height) (\<lambda>i.
     case map_of (ds_approval_tracking d) target_height of
       None \<Rightarrow> Ok (d, False)
     | Some ta \<Rightarrow>
         (case map_of (ta_trackers ta) i of
            None \<Rightarrow> Ok (d, False)
          | Some tr \<Rightarrow>
              bind_o (get_block_production_readiness now tr) (\<lambda>(tr, r).
              let d = d\<lparr>ds_approval_tracking := AList.update target_height
                          (ta\<lparr>ta_trackers := AList.update i tr (ta_trackers ta)\<rparr>) (ds_approval_tracking d)\<rparr>
              in case r of
                   NotReady \<Rightarrow> Ok (d, False)
                 | ReadySince since \<Rightarrow>
                     if has_enough_chunks then Ok (d, True)
                     else
                       bind_o (get_delay (ds_timer d)
                                 (h_saturating_sub (ti_height (ds_timer d)) (ds_largest_final d))) (\<lambda>delay.
                       bind_o (inst_add since (delay div 6)) (\<lambda>due. Ok (d, due < now))))))"

section \<open>The instance of the node\<close>

text \<open>
  The constants of \<open>node/src/constants.rs\<close> and the delays \<open>NodeShared::new\<close> makes of them: the middle
  one is read as seconds.
\<close>

definition MIN_BLOCK_PRODUCTION_DELAY :: nat where
  "MIN_BLOCK_PRODUCTION_DELAY = 1000"

definition MAX_BLOCK_PRODUCTION_DELAY :: nat where
  "MAX_BLOCK_PRODUCTION_DELAY = 4000"

definition MAX_BLOCK_WAIT_DELAY :: nat where
  "MAX_BLOCK_WAIT_DELAY = 12000"

definition from_millis :: "nat \<Rightarrow> duration" where
  "from_millis n = n * 10 ^ 6"

definition from_secs :: "nat \<Rightarrow> duration" where
  "from_secs n = n * 10 ^ 9"

definition node_doomslug :: "instant \<Rightarrow> instant \<Rightarrow> u64 \<Rightarrow> doomslug" where
  "node_doomslug now1 now2 initial_height =
     (let min_block_production_delay = from_millis MIN_BLOCK_PRODUCTION_DELAY;
          max_block_production_delay = from_secs MAX_BLOCK_PRODUCTION_DELAY;
          max_block_wait_delay = from_millis MAX_BLOCK_WAIT_DELAY
      in doomslug_new now1 now2 initial_height min_block_production_delay max_block_production_delay
           (max_block_production_delay div 10) max_block_wait_delay TwoThirds)"

end
