(* ===== verification/Doomslug_Props.thy ===== *)
theory Doomslug_Props
  imports Doomslug
begin

text \<open>
  Lemmas about Doomslug: the stake a tracker counts is the stake of the accounts it witnesses, each
  account is counted for one approval per height, and the timer's bookkeeping of heights and times.
\<close>

section \<open>Sums of stakes\<close>

lemma bal_sum_Ok: "bal_sum bs = Ok t \<Longrightarrow> t = sum_list bs"
proof -
  have "fold_o bal_add a bs = Ok t \<Longrightarrow> t = a + sum_list bs" for a
    by (induction bs arbitrary: a) (fastforce simp: outcome_simps bal_add_def split: if_splits)+
  then show "bal_sum bs = Ok t \<Longrightarrow> t = sum_list bs" unfolding bal_sum_def by fastforce
qed

lemma bal_add_Ok: "bal_add a b = Ok c \<longleftrightarrow> c = a + b \<and> a + b < 2 ^ 128"
  by (auto simp: bal_add_def)

lemma bal_sub_Ok: "bal_sub a b = Ok c \<longleftrightarrow> c = a - b \<and> b \<le> a"
  by (auto simp: bal_sub_def)

definition stake_of :: "(nat \<times> nat \<Rightarrow> nat) \<Rightarrow> stake_map \<Rightarrow> address \<Rightarrow> nat" where
  "stake_of f S a = f (case map_of S a of Some s \<Rightarrow> s | None \<Rightarrow> (0, 0))"

definition stake_in :: "(nat \<times> nat \<Rightarrow> nat) \<Rightarrow> stake_map \<Rightarrow> address set \<Rightarrow> nat" where
  "stake_in f S A = (\<Sum>a\<in>A. stake_of f S a)"

lemma stakes_of_proj: "f (stakes_of tr a) = stake_of f (tr_account_id_to_stakes tr) a"
  by (simp add: stakes_of_def stake_of_def)

lemma stake_total:
  assumes "distinct (map fst S)"
  shows "stake_in f S (fst ` set S) = sum_list (map (f \<circ> snd) S)"
proof -
  have "stake_in f S (fst ` set S) = sum_list (map (stake_of f S) (map fst S))"
    using sum_list_distinct_conv_sum_set [OF assms, of "stake_of f S"] by (simp add: stake_in_def)
  also have "\<dots> = sum_list (map (f \<circ> snd) S)"
    unfolding map_map using assms by (intro arg_cong [of _ _ sum_list] map_cong)
      (auto simp: stake_of_def)
  finally show ?thesis .
qed

lemma stake_in_mono: "finite B \<Longrightarrow> A \<subseteq> B \<Longrightarrow> stake_in f S A \<le> stake_in f S B"
  unfolding stake_in_def by (rule sum_mono2) auto

lemma stake_in_disjoint:
  "finite A \<Longrightarrow> finite B \<Longrightarrow> A \<inter> B = {} \<Longrightarrow> stake_in f S (A \<union> B) = stake_in f S A + stake_in f S B"
  unfolding stake_in_def by (rule sum.union_disjoint)

text \<open>Accounts without a stake add nothing.\<close>

lemma stake_in_total:
  assumes "distinct (map fst S)" and "finite A" and "f (0, 0) = 0"
  shows "stake_in f S A \<le> sum_list (map (f \<circ> snd) S)"
proof -
  have "stake_of f S a = 0" if "a \<notin> fst ` set S" for a
  proof -
    have "map_of S a = None" using that by (simp add: map_of_eq_None_iff)
    then show ?thesis using assms(3) by (simp add: stake_of_def)
  qed
  then have "stake_in f S A = stake_in f S (A \<inter> fst ` set S)"
    unfolding stake_in_def using assms(2) by (intro sum.mono_neutral_right) auto
  also have "\<dots> \<le> stake_in f S (fst ` set S)" by (rule stake_in_mono) auto
  finally show ?thesis by (simp add: stake_total [OF assms(1)])
qed

section \<open>Trackers\<close>

definition voters :: "tracker \<Rightarrow> address set" where
  "voters tr = fst ` set (tr_witness tr)"

text \<open>
  \<open>V\<close> has the stakes a tracker may have been made with: the tracker keeps those of the first approval, while
  every later one is checked against the stakes passed along with it.
\<close>

definition tracker_ok :: "stake_map set \<Rightarrow> threshold_mode \<Rightarrow> u64 \<Rightarrow> approval_inner \<Rightarrow> tracker \<Rightarrow> bool" where
  "tracker_ok V mode h i tr \<longleftrightarrow>
     distinct (map fst (tr_witness tr)) \<and>
     (\<forall>(k, (a, t)) \<in> set (tr_witness tr). av_validator a = k \<and> ap_inner (av_content a) = i \<and>
        ap_target_height (av_content a) = h) \<and>
     voters tr \<subseteq> (\<Union>S \<in> V. fst ` set S) \<and>
     tr_account_id_to_stakes tr \<in> V \<and> tr_threshold_mode tr = mode \<and>
     tr_total_this tr = sum_list (map (fst \<circ> snd) (tr_account_id_to_stakes tr)) \<and>
     tr_total_next tr = sum_list (map (snd \<circ> snd) (tr_account_id_to_stakes tr)) \<and>
     tr_approved_this tr = stake_in fst (tr_account_id_to_stakes tr) (voters tr) \<and>
     tr_approved_next tr = stake_in snd (tr_account_id_to_stakes tr) (voters tr)"

lemma finite_voters [simp]: "finite (voters tr)"
  by (simp add: voters_def)

lemma voters_empty_iff [simp]: "voters tr = {} \<longleftrightarrow> tr_witness tr = []"
  by (simp add: voters_def)

lemma tracker_new_ok:
  assumes "tracker_new S mode = Ok tr" and "S \<in> V"
  shows "tracker_ok V mode h i tr" and "voters tr = {}"
  using assms by (auto simp: tracker_new_def tracker_ok_def voters_def stake_in_def outcome_simps dest!: bal_sum_Ok)

lemma readiness_cases:
  assumes "get_block_production_readiness now tr = Ok (tr', r)"
  shows "(\<exists>t. tr' = tr\<lparr>tr_time_passed_threshold := t\<rparr>) \<and> (r \<noteq> NotReady \<longleftrightarrow> threshold_met tr = Ok True)"
proof -
  obtain met where met: "threshold_met tr = Ok met"
    using assms by (auto simp: get_block_production_readiness_def outcome_simps)
  show ?thesis
    using assms met by (cases tr) (auto simp: get_block_production_readiness_def split: if_splits option.splits)
qed

lemma tracker_time [simp]:
  "tracker_ok V mode h i (tr\<lparr>tr_time_passed_threshold := t\<rparr>) = tracker_ok V mode h i tr"
  "voters (tr\<lparr>tr_time_passed_threshold := t\<rparr>) = voters tr"
  by (simp_all add: tracker_ok_def voters_def)

lemma readiness_fields:
  assumes "get_block_production_readiness now tr = Ok (tr', r)"
  shows "voters tr' = voters tr" and "tracker_ok V mode h i tr \<Longrightarrow> tracker_ok V mode h i tr'"
    and "r \<noteq> NotReady \<longleftrightarrow> threshold_met tr = Ok True"
  using readiness_cases [OF assms] by auto

lemma tracker_process_ok:
  assumes "tracker_process_approval now utc a tr = Ok (tr', r)"
    and ok: "tracker_ok V mode h i tr" and a: "ap_inner (av_content a) = i" "ap_target_height (av_content a) = h"
    and mem: "av_validator a \<in> (\<Union>S \<in> V. fst ` set S)"
  shows "tracker_ok V mode h i tr' \<and> voters tr' = insert (av_validator a) (voters tr)"
proof (cases "map_of (tr_witness tr) (av_validator a)")
  case (Some x)
  then have "get_block_production_readiness now tr = Ok (tr', r)" "av_validator a \<in> voters tr"
    using assms(1) map_of_SomeD [OF Some] by (force simp: tracker_process_approval_def voters_def)+
  then show ?thesis using readiness_fields [of now tr tr' r] ok by auto
next
  case None
  let ?S = "tr_account_id_to_stakes tr"
  define tr1 where "tr1 = tr\<lparr>tr_witness := AList.update (av_validator a) (a, utc) (tr_witness tr),
     tr_approved_this := tr_approved_this tr + stake_of fst ?S (av_validator a),
     tr_approved_next := tr_approved_next tr + stake_of snd ?S (av_validator a)\<rparr>"
  have step: "get_block_production_readiness now tr1 = Ok (tr', r)"
    using assms(1) None
    by (auto simp: tracker_process_approval_def tr1_def Let_def outcome_simps bal_add_Ok stakes_of_def stake_of_def)
  have fresh: "av_validator a \<notin> voters tr" using None by (simp add: voters_def map_of_eq_None_iff)
  have voters: "voters tr1 = insert (av_validator a) (voters tr)"
    using None by (auto simp: tr1_def voters_def dom_update)
  have upd: "AList.update (av_validator a) (a, utc) (tr_witness tr) = tr_witness tr @ [(av_validator a, (a, utc))]"
    using None by (rule alist_update_fresh)
  have "tracker_ok V mode h i tr1"
    using ok a mem fresh voters None
    by (auto simp: tracker_ok_def tr1_def distinct_update stake_in_def upd)
  then show ?thesis using readiness_fields [OF step] voters by auto
qed

lemma withdraw_ok:
  assumes "withdraw_approval v tr = Ok tr'" and ok: "tracker_ok V mode h i tr"
  shows "tracker_ok V mode h i tr' \<and> voters tr' = voters tr - {v}"
proof (cases "map_of (tr_witness tr) v")
  case None
  then have "tr' = tr" "v \<notin> voters tr"
    using assms(1) by (simp_all add: withdraw_approval_def voters_def map_of_eq_None_iff [symmetric])
  then show ?thesis using ok by simp
next
  case (Some x)
  obtain a t where x: "x = (a, t)" by fastforce
  have mem: "(v, (a, t)) \<in> set (tr_witness tr)" using map_of_SomeD [OF Some] x by simp
  then have a: "av_validator a = v" using ok by (auto simp: tracker_ok_def)
  let ?S = "tr_account_id_to_stakes tr"
  have v: "v \<in> voters tr" using mem by (force simp: voters_def)
  have tr': "tr' = tr\<lparr>tr_witness := AList.delete v (tr_witness tr),
      tr_approved_this := tr_approved_this tr - stake_of fst ?S v,
      tr_approved_next := tr_approved_next tr - stake_of snd ?S v\<rparr>"
    using assms(1) Some x a
    by (auto simp: withdraw_approval_def Let_def outcome_simps bal_sub_Ok stakes_of_def stake_of_def)
  have voters: "voters tr' = voters tr - {v}" by (auto simp: tr' voters_def AList.delete_eq)
  have diff: "stake_in f ?S (voters tr) - stake_of f ?S v = stake_in f ?S (voters tr - {v})" for f
    using v by (simp add: stake_in_def sum_diff1_nat)
  have "distinct (map fst (tr_witness tr'))" using ok by (simp add: tr' tracker_ok_def distinct_delete)
  moreover have "set (tr_witness tr') \<subseteq> set (tr_witness tr)" by (auto simp: tr' AList.delete_eq)
  then have "\<forall>x \<in> set (tr_witness tr'). case x of (k, (a, t)) \<Rightarrow> av_validator a = k \<and>
      ap_inner (av_content a) = i \<and> ap_target_height (av_content a) = h"
    using ok unfolding tracker_ok_def by blast
  moreover have "voters tr' \<subseteq> (\<Union>S \<in> V. fst ` set S)" using ok voters unfolding tracker_ok_def by blast
  moreover have "tr_approved_this tr' = stake_in fst ?S (voters tr')" "tr_approved_next tr' = stake_in snd ?S (voters tr')"
    using ok voters diff by (simp_all add: tr' tracker_ok_def)
  ultimately show ?thesis using ok voters by (simp add: tracker_ok_def tr')
qed

section \<open>The trackers of a height\<close>

definition ta_ok :: "stake_map set \<Rightarrow> threshold_mode \<Rightarrow> u64 \<Rightarrow> trackers_at_height \<Rightarrow> bool" where
  "ta_ok V mode h ta \<longleftrightarrow>
     (\<forall>i tr. map_of (ta_trackers ta) i = Some tr \<longrightarrow>
        tracker_ok V mode h i tr \<and> (\<forall>k \<in> voters tr. map_of (ta_last_approval ta) k = Some i))"

lemma ta_ok_new: "ta_ok V mode h trackers_new"
  by (simp add: ta_ok_def trackers_new_def)

lemma ta_ok_tracker:
  assumes "ta_ok V mode h ta" and "map_of (ta_trackers ta) i = Some tr"
  shows "tracker_ok V mode h i tr" and "k \<in> voters tr \<Longrightarrow> map_of (ta_last_approval ta) k = Some i"
  using assms by (auto simp: ta_ok_def)

lemma ta_voters_disjoint:
  assumes "ta_ok V mode h ta" and "map_of (ta_trackers ta) i = Some tr" and "map_of (ta_trackers ta) j = Some tr'"
    and "i \<noteq> j"
  shows "voters tr \<inter> voters tr' = {}"
  using ta_ok_tracker(2) [OF assms(1,2)] ta_ok_tracker(2) [OF assms(1,3)] assms(4) by fastforce

lemma withdraw_last_ok:
  assumes w: "withdraw_last v ta = Ok ta'" and ok: "ta_ok V mode h ta"
  shows "ta_ok V mode h ta'" and "map_of (ta_trackers ta') i = Some tr \<Longrightarrow> v \<notin> voters tr"
proof -
  have "ta_ok V mode h ta' \<and> (\<forall>i tr. map_of (ta_trackers ta') i = Some tr \<longrightarrow> v \<notin> voters tr)"
  proof (cases "map_of (ta_last_approval ta) v")
    case None
    then show ?thesis using w ok ta_ok_tracker(2) [OF ok] by (fastforce simp: withdraw_last_def)
  next
    case (Some i)
    show ?thesis
    proof (cases "map_of (ta_trackers ta) i")
      case None
      then show ?thesis using w ok Some ta_ok_tracker(2) [OF ok] by (fastforce simp: withdraw_last_def)
    next
      case (Some x)
      obtain x' where x': "withdraw_approval v x = Ok x'"
        and ta': "ta' = ta\<lparr>ta_trackers := if tr_witness x' = [] then AList.delete i (ta_trackers ta)
                    else AList.update i x' (ta_trackers ta)\<rparr>"
        using w Some \<open>map_of (ta_last_approval ta) v = Some i\<close> by (auto simp: withdraw_last_def outcome_simps split: if_splits)
      note ok' = withdraw_ok [OF x' ta_ok_tracker(1) [OF ok Some]]
      have other: "v \<notin> voters tr" if "map_of (ta_trackers ta) j = Some tr" "j \<noteq> i" for j tr
        using ta_ok_tracker(2) [OF ok that(1), of v] that(2) \<open>map_of (ta_last_approval ta) v = Some i\<close> by auto
      show ?thesis
        using ok ok' other ta_ok_tracker(2) [OF ok Some]
        by (auto simp: ta' ta_ok_def update_conv' delete_conv' split: if_splits)
    qed
  qed
  then show "ta_ok V mode h ta'" and "map_of (ta_trackers ta') i = Some tr \<Longrightarrow> v \<notin> voters tr" by auto
qed

lemma process_approval_ok:
  assumes "process_approval now utc a stakes mode ta = Ok (ta', r)"
    and ok: "ta_ok V mode (ap_target_height (av_content a)) ta" and V: "unslashed_stakes stakes \<in> V"
  shows "ta_ok V mode (ap_target_height (av_content a)) ta'"
proof -
  let ?S = "unslashed_stakes stakes" and ?h = "ap_target_height (av_content a)" and ?i = "ap_inner (av_content a)"
  obtain ta1 where ta1: "withdraw_last (av_validator a) ta = Ok ta1"
    using assms(1) by (auto simp: process_approval_def outcome_simps)
  note w = withdraw_last_ok [OF ta1 ok]
  show ?thesis
  proof (cases "map_of ?S (av_validator a)")
    case None
    then show ?thesis using assms(1) ta1 w(1) by (auto simp: process_approval_def outcome_simps)
  next
    case (Some s)
    then have mem: "av_validator a \<in> (\<Union>S \<in> V. fst ` set S)" using map_of_SomeD V by force
    obtain tr tr' where tr: "(case map_of (ta_trackers ta1) ?i of Some tr \<Rightarrow> Ok tr | None \<Rightarrow> tracker_new ?S mode) = Ok tr"
      and tr': "tracker_process_approval now utc a tr = Ok (tr', r)"
      and ta': "ta' = ta1\<lparr>ta_last_approval := AList.update (av_validator a) ?i (ta_last_approval ta1),
                      ta_trackers := AList.update ?i tr' (ta_trackers ta1)\<rparr>"
      using assms(1) ta1 Some by (auto simp: process_approval_def Let_def outcome_simps)
    have tok: "tracker_ok V mode ?h ?i tr \<and> (\<forall>k \<in> voters tr. map_of (ta_last_approval ta1) k = Some ?i)"
      using tr ta_ok_tracker [OF w(1)] tracker_new_ok [OF _ V, of mode tr]
      by (cases "map_of (ta_trackers ta1) ?i") (simp_all add: voters_def)
    have tok': "tracker_ok V mode ?h ?i tr' \<and> voters tr' = insert (av_validator a) (voters tr)"
      using tracker_process_ok [OF tr' _ refl refl mem] tok by blast
    have "tracker_ok V mode ?h j u \<and> (\<forall>k \<in> voters u. map_of (ta_last_approval ta') k = Some j)"
      if u: "map_of (ta_trackers ta') j = Some u" for j u
    proof (cases "j = ?i")
      case True
      then show ?thesis using u tok tok' by (auto simp: ta' update_conv')
    next
      case False
      then have "map_of (ta_trackers ta1) j = Some u" using u by (simp add: ta' update_conv')
      then show ?thesis using ta_ok_tracker [OF w(1)] w(2) by (auto simp: ta' update_conv')
    qed
    then show ?thesis by (simp add: ta_ok_def)
  qed
qed

end
