(* ===== verification/Doomslug_Theorems.thy ===== *)
theory Doomslug_Theorems
  imports Doomslug_Props
begin

text \<open>
  The properties of Doomslug along every run of its entry points under a clock that does not go
  back: at most one block of a height is ready, the timer never panics and what it sends, and what
  the delays of the node amount to.
\<close>

section \<open>The timer\<close>

lemma height_add_Ok: "height_add a b = Ok c \<longleftrightarrow> c = a + b \<and> unat a + unat b < 2 ^ 64"
  by (auto simp: height_add_def split: if_splits)

definition timer_inv :: "instant \<Rightarrow> doomslug \<Rightarrow> bool" where
  "timer_inv t d \<longleftrightarrow> ti_started (ds_timer d) \<le> t \<and> ti_last_endorsement_sent (ds_timer d) \<le> t \<and>
     tip_height (ds_tip d) \<le> ti_height (ds_timer d) \<and>
     (ds_endorsement_pending d \<longrightarrow>
        ti_last_endorsement_sent (ds_timer d) \<le> ti_started (ds_timer d) \<and>
        tip_height (ds_tip d) < ti_height (ds_timer d))"

text \<open>What the timer leaves alone.\<close>

definition same_chain :: "doomslug \<Rightarrow> doomslug \<Rightarrow> bool" where
  "same_chain d d' \<longleftrightarrow> ds_approval_tracking d' = ds_approval_tracking d \<and> ds_tip d' = ds_tip d \<and>
     ds_largest_final d' = ds_largest_final d \<and> ds_threshold_mode d' = ds_threshold_mode d \<and>
     ti_endorsement_delay (ds_timer d') = ti_endorsement_delay (ds_timer d) \<and>
     ti_min_delay (ds_timer d') = ti_min_delay (ds_timer d) \<and>
     ti_delay_step (ds_timer d') = ti_delay_step (ds_timer d) \<and>
     ti_max_delay (ds_timer d') = ti_max_delay (ds_timer d) \<and>
     ds_largest_sent d \<le> ds_largest_sent d'"

lemma same_chain_trans: "same_chain a b \<Longrightarrow> same_chain b c \<Longrightarrow> same_chain a c"
  by (auto simp: same_chain_def)

definition about_tip :: "doomslug \<Rightarrow> approval_content \<Rightarrow> bool" where
  "about_tip d a \<longleftrightarrow>
     approval_content_new (tip_block_hash (ds_tip d)) (tip_height (ds_tip d)) (ap_target_height a) = Ok a"

lemma create_approval_Ok:
  "create_approval d h = Ok a \<Longrightarrow> ap_target_height a = h \<and> about_tip d a"
  by (auto simp: create_approval_def about_tip_def approval_content_new_def outcome_simps)

lemma less_plus_one:
  fixes a :: u64
  shows "unat a + unat (1 :: u64) < 2 ^ 64 \<Longrightarrow> a < a + 1"
  by (simp add: word_less_nat_alt unat_word_ariths)

lemma timer_endorse_spec:
  assumes "timer_endorse cr cur d = Ok (d', out)" and "timer_inv cur d"
  shows "timer_inv cur d' \<and> same_chain d d' \<and> ti_height (ds_timer d') = ti_height (ds_timer d) \<and>
    ti_started (ds_timer d') = ti_started (ds_timer d) \<and> (ds_endorsement_pending d' \<longrightarrow> ds_endorsement_pending d \<and> out = [] \<and> d' = d) \<and>
    (\<not> ds_endorsement_pending d \<longrightarrow> out = []) \<and>
    (out = [] \<or> (\<exists>a. out = [a] \<and> about_tip d a \<and> ap_target_height a = tip_height (ds_tip d) + 1 \<and>
        tip_height (ds_tip d) < ap_target_height a \<and> ds_largest_sent d' = ap_target_height a))"
proof (cases "ds_endorsement_pending d")
  case False
  then show ?thesis using assms by (simp add: timer_endorse_def same_chain_def Let_def)
next
  case True
  obtain due where due: "inst_add (ti_last_endorsement_sent (ds_timer d)) (ti_endorsement_delay (ds_timer d)) = Ok due"
    using assms(1) True by (auto simp: timer_endorse_def Let_def outcome_simps)
  show ?thesis
  proof (cases "cur < due")
    case True
    then show ?thesis
      using assms due \<open>ds_endorsement_pending d\<close> by (simp add: timer_endorse_def same_chain_def Let_def)
  next
    case False
    show ?thesis
    proof (cases "tip_height (ds_tip d) < ds_largest_sent d")
      case True
      then show ?thesis
        using assms due False \<open>ds_endorsement_pending d\<close>
        by (auto simp: timer_endorse_def same_chain_def timer_inv_def Let_def)
    next
      case old: False
      have inv: "timer_inv cur d" by (rule assms(2))
      from assms(1) obtain a where a: "create_approval (d\<lparr>ds_largest_sent := tip_height (ds_tip d) + 1\<rparr>) (tip_height (ds_tip d) + 1) = Ok a"
        and h: "unat (tip_height (ds_tip d)) + unat (1 :: u64) < 2 ^ 64" and out: "out = [a]"
        and d': "\<exists>e. d' = (update_history e (d\<lparr>ds_largest_sent := tip_height (ds_tip d) + 1\<rparr>))\<lparr>
             ds_timer := (ds_timer d)\<lparr>ti_last_endorsement_sent := cur\<rparr>, ds_endorsement_pending := False\<rparr>"
        using due False old \<open>ds_endorsement_pending d\<close>
        by (auto simp: timer_endorse_def Let_def outcome_simps height_add_Ok update_history_def)
      have "ds_largest_sent d \<le> tip_height (ds_tip d) + 1"
        using old less_plus_one [OF h] by simp
      then show ?thesis
        using d' out create_approval_Ok [OF a] less_plus_one [OF h] inv \<open>ds_endorsement_pending d\<close>
        by (auto simp: update_history_def same_chain_def timer_inv_def about_tip_def)
    qed
  qed
qed

lemma timer_skip_spec:
  assumes "timer_skip cr s d = Ok (d', out)" and inv: "timer_inv cur d"
    and due: "ti_started (ds_timer d) + s \<le> cur"
  shows "timer_inv cur d' \<and> same_chain d d' \<and> \<not> ds_endorsement_pending d' \<and>
    ti_height (ds_timer d') = ti_height (ds_timer d) + 1 \<and> ti_height (ds_timer d) < ti_height (ds_timer d') \<and>
    (\<exists>a. out = [a] \<and> about_tip d a \<and> ap_target_height a = ti_height (ds_timer d) + 1 \<and>
        ap_target_height a \<le> ds_largest_sent d')"
proof -
  from assms(1) obtain a e where np: "\<not> ds_endorsement_pending d"
    and h: "unat (ti_height (ds_timer d)) + unat (1 :: u64) < 2 ^ 64"
    and a: "create_approval (d\<lparr>ds_largest_sent := max (ti_height (ds_timer d) + 1) (ds_largest_sent d)\<rparr>) (ti_height (ds_timer d) + 1) = Ok a"
    and out: "out = [a]" and st: "inst_add (ti_started (ds_timer d)) s = Ok (ti_started (ds_timer d) + s)"
    and d': "d' = (update_history e (d\<lparr>ds_largest_sent := max (ti_height (ds_timer d) + 1) (ds_largest_sent d)\<rparr>))\<lparr>
       ds_timer := (ds_timer d)\<lparr>ti_started := ti_started (ds_timer d) + s, ti_height := ti_height (ds_timer d) + 1\<rparr>\<rparr>"
    by (auto simp: timer_skip_def Let_def outcome_simps height_add_Ok update_history_def inst_add_def split: if_splits)
  have "tip_height (ds_tip d) \<le> ti_height (ds_timer d) + 1"
    using inv order.strict_implies_order [OF less_plus_one [OF h]] order_trans unfolding timer_inv_def by blast
  then show ?thesis
    using np out create_approval_Ok [OF a] less_plus_one [OF h] inv due
    by (auto simp: d' update_history_def same_chain_def timer_inv_def about_tip_def)
qed

lemma timer_loop_spec:
  assumes "timer_loop k clk cur d = Ok (d', out)" and "timer_inv cur d"
  shows "timer_inv cur d' \<and> same_chain d d' \<and>
    length out \<le> (if ds_endorsement_pending d then Suc k else k) \<and>
    sorted_wrt (<) (map ap_target_height out) \<and>
    (\<forall>a \<in> set out. about_tip d a \<and> tip_height (ds_tip d) < ap_target_height a \<and>
       ap_target_height a \<le> ds_largest_sent d' \<and>
       (\<not> ds_endorsement_pending d \<longrightarrow> ti_height (ds_timer d) < ap_target_height a))"
  using assms
proof (induction k arbitrary: d d' out)
  case 0
  then show ?case by (simp add: same_chain_def)
next
  case (Suc k)
  from Suc.prems(1) obtain s d1 out1 where s: "get_delay (ds_timer d) (h_saturating_sub (ti_height (ds_timer d)) (ds_largest_final d)) = Ok s"
    and endo: "timer_endorse (clk k False) cur d = Ok (d1, out1)"
    and rest: "bind_o (inst_add (ti_started (ds_timer d1)) s) (\<lambda>due.
       if due \<le> cur then bind_o (timer_skip (clk k True) s d1) (\<lambda>(d, ret2).
          bind_o (timer_loop k clk cur d) (\<lambda>(d, ret3). Ok (d, out1 @ ret2 @ ret3))) else Ok (d1, out1)) = Ok (d', out)"
    by (auto simp: outcome_simps)
  note E = timer_endorse_spec [OF endo Suc.prems(2)]
  have first: "\<forall>a \<in> set out1. about_tip d a \<and> tip_height (ds_tip d) < ap_target_height a \<and>
      ap_target_height a = tip_height (ds_tip d) + 1 \<and> ap_target_height a \<le> ds_largest_sent d1"
    and len1: "length out1 \<le> (if ds_endorsement_pending d then 1 else 0)" and srt1: "sorted_wrt (<) (map ap_target_height out1)"
    using E by auto
  show ?case
  proof (cases "ti_started (ds_timer d1) + s \<le> cur")
    case False
    then have "d' = d1" "out = out1" using rest by (auto simp: inst_add_def split: if_splits)
    then show ?thesis using E first len1 srt1 by auto
  next
    case True
    then obtain d2 out2 d3 out3 where skip: "timer_skip (clk k True) s d1 = Ok (d2, out2)"
      and loop: "timer_loop k clk cur d2 = Ok (d3, out3)" and res: "d' = d3" "out = out1 @ out2 @ out3"
      using rest by (auto simp: outcome_simps inst_add_def split: if_splits)
    have inv1: "timer_inv cur d1" using E by blast
    note K = timer_skip_spec [OF skip inv1 True]
    have "timer_inv cur d2" using K by blast
    note L = Suc.IH [OF loop this]
    have chain: "same_chain d d1" "same_chain d1 d2" "same_chain d2 d3" using E K L by blast+
    then have tips: "about_tip d1 = about_tip d" "about_tip d2 = about_tip d" "ds_tip d2 = ds_tip d"
      by (auto simp: same_chain_def about_tip_def fun_eq_iff)
    obtain a where a: "out2 = [a]" "about_tip d a" "ap_target_height a = ti_height (ds_timer d2)"
      "ap_target_height a \<le> ds_largest_sent d2" "ti_height (ds_timer d) < ap_target_height a"
      using K E tips by auto
    have tip: "tip_height (ds_tip d) \<le> ti_height (ds_timer d)" "out1 \<noteq> [] \<longrightarrow> tip_height (ds_tip d) + 1 \<le> ti_height (ds_timer d)"
      using Suc.prems(2) E by (auto simp: timer_inv_def inc_le)
    have grow: "ds_largest_sent d1 \<le> ds_largest_sent d3" "ds_largest_sent d2 \<le> ds_largest_sent d3"
      using chain by (auto simp: same_chain_def)
    have third: "\<forall>b \<in> set out3. about_tip d b \<and> ap_target_height a < ap_target_height b \<and> ap_target_height b \<le> ds_largest_sent d3"
      and len3: "length out3 \<le> k" and srt3: "sorted_wrt (<) (map ap_target_height out3)"
      using L K a(3) tips by auto
    have low: "\<forall>b \<in> set out1. ap_target_height b < ap_target_height a"
      using first tip(2) a(5) by (metis empty_iff list.set(1) order.strict_trans1)
    have "sorted_wrt (<) (map ap_target_height out)"
      using srt1 srt3 low third a(1) less_trans by (fastforce simp: res sorted_wrt_append)
    moreover have "\<forall>b \<in> set out. about_tip d b \<and> tip_height (ds_tip d) < ap_target_height b \<and> ap_target_height b \<le> ds_largest_sent d3"
      using first third a tip(1) grow less_trans order_trans unfolding res(2) by fastforce
    moreover have "\<not> ds_endorsement_pending d \<longrightarrow> (\<forall>b \<in> set out. ti_height (ds_timer d) < ap_target_height b)"
      using E third a less_trans unfolding res(2) by fastforce
    moreover have "length out \<le> (if ds_endorsement_pending d then Suc (Suc k) else Suc k)"
      using len1 len3 a(1) by (auto simp: res split: if_splits)
    ultimately show ?thesis
      using L same_chain_trans [OF chain(1) same_chain_trans [OF chain(2,3)]] by (simp add: res)
  qed
qed

text \<open>
  Delays for which the timer's own assertion holds and no sum of durations overflows.
\<close>

definition timer_config_ok :: "ds_timer \<Rightarrow> bool" where
  "timer_config_ok t \<longleftrightarrow> 2 * ti_endorsement_delay t \<le> ti_min_delay t \<and> 2 * ti_endorsement_delay t \<le> ti_max_delay t \<and>
     ti_min_delay t + ti_delay_step t * (2 ^ 32 - 3) < 2 ^ 64 * 10 ^ 9 \<and> ti_max_delay t < 2 ^ 64 * 10 ^ 9"

lemma get_delay_ok:
  assumes "timer_config_ok t"
  shows "\<exists>s. get_delay t n = Ok s \<and> 2 * ti_endorsement_delay t \<le> s \<and> s \<le> ti_max_delay t"
proof -
  define m where "m = min (unat n) (2 ^ 32 - 1) - 2"
  have "m \<le> 2 ^ 32 - 3" unfolding m_def by linarith
  then have "ti_delay_step t * m \<le> ti_delay_step t * (2 ^ 32 - 3)" by (rule mult_le_mono2)
  then have lt: "ti_min_delay t + ti_delay_step t * m < 2 ^ 64 * 10 ^ 9"
    using assms unfolding timer_config_ok_def by linarith
  then have "get_delay t n = Ok (min (ti_max_delay t) (ti_min_delay t + ti_delay_step t * m))"
    unfolding get_delay_def Let_def m_def [symmetric] by (simp add: dur_mul_def dur_add_def)
  then show ?thesis using assms by (auto simp: timer_config_ok_def)
qed

lemma timer_endorse_total:
  assumes "timer_inv cur d" and "timer_config_ok (ds_timer d)"
    and "cur + ti_max_delay (ds_timer d) < 2 ^ 63 * 10 ^ 9"
    and "unat (ti_height (ds_timer d)) < 2 ^ 64 - 1"
  shows "\<exists>d' out. timer_endorse cr cur d = Ok (d', out) \<and>
    (ds_endorsement_pending d' \<longrightarrow> cur < ti_last_endorsement_sent (ds_timer d) + ti_endorsement_delay (ds_timer d))"
proof (cases "ds_endorsement_pending d")
  case False
  then show ?thesis by (simp add: timer_endorse_def Let_def)
next
  case True
  let ?t = "ds_timer d"
  have due: "inst_add (ti_last_endorsement_sent ?t) (ti_endorsement_delay ?t) =
      Ok (ti_last_endorsement_sent ?t + ti_endorsement_delay ?t)"
    using assms by (simp add: inst_add_def timer_inv_def timer_config_ok_def)
  have "unat (tip_height (ds_tip d)) \<le> unat (ti_height ?t)"
    using assms(1) by (simp add: timer_inv_def word_le_nat_alt)
  then have "height_add (tip_height (ds_tip d)) 1 = Ok (tip_height (ds_tip d) + 1)"
    using assms(4) by (simp add: height_add_def)
  then show ?thesis
    using True due by (auto simp: timer_endorse_def Let_def create_approval_def approval_content_new_def
        approval_inner_new_def)
qed

lemma timer_loop_total:
  assumes "timer_inv cur d" and "timer_config_ok (ds_timer d)"
    and "cur + ti_max_delay (ds_timer d) < 2 ^ 63 * 10 ^ 9"
    and "unat (ti_height (ds_timer d)) + k < 2 ^ 64 - 1"
  shows "\<exists>d' out. timer_loop k clk cur d = Ok (d', out)"
  using assms
proof (induction k arbitrary: d)
  case (Suc k)
  let ?t = "ds_timer d"
  obtain s where s: "get_delay ?t (h_saturating_sub (ti_height ?t) (ds_largest_final d)) = Ok s"
    "2 * ti_endorsement_delay ?t \<le> s" "s \<le> ti_max_delay ?t"
    using get_delay_ok [OF Suc.prems(2)] by blast
  have twice: "dur_mul (ti_endorsement_delay ?t) 2 = Ok (ti_endorsement_delay ?t * 2)"
    using Suc.prems(2) by (simp add: dur_mul_def timer_config_ok_def)
  obtain d1 out1 where d1: "timer_endorse (clk k False) cur d = Ok (d1, out1)"
    and pend: "ds_endorsement_pending d1 \<longrightarrow> cur < ti_last_endorsement_sent ?t + ti_endorsement_delay ?t"
    using timer_endorse_total [OF Suc.prems(1-3)] Suc.prems(4) by fastforce
  note E = timer_endorse_spec [OF d1 Suc.prems(1)]
  have add: "inst_add (ti_started (ds_timer d1)) s = Ok (ti_started ?t + s)"
    using E s(3) Suc.prems(1,3) by (simp add: inst_add_def timer_inv_def)
  show ?case
  proof (cases "ti_started ?t + s \<le> cur")
    case False
    then show ?thesis using s twice d1 add by simp
  next
    case True
    have np: "\<not> ds_endorsement_pending d1"
      using True pend E s(2) Suc.prems(1) by (auto simp: timer_inv_def)
    have h: "ti_height (ds_timer d1) = ti_height ?t" "ti_started (ds_timer d1) = ti_started ?t" using E by blast+
    have hs: "height_add (ti_height (ds_timer d1)) 1 = Ok (ti_height ?t + 1)"
      using Suc.prems(4) by (simp add: height_add_def h(1))
    have tip: "height_add (tip_height (ds_tip d1)) 1 = Ok (tip_height (ds_tip d1) + 1)"
    proof -
      have "unat (tip_height (ds_tip d1)) \<le> unat (ti_height ?t)"
        using E h by (auto simp: timer_inv_def word_le_nat_alt)
      then show ?thesis using Suc.prems(4) by (simp add: height_add_def)
    qed
    obtain d2 out2 where d2: "timer_skip (clk k True) s d1 = Ok (d2, out2)"
      using np hs tip add by (simp add: timer_skip_def Let_def create_approval_def approval_content_new_def
          approval_inner_new_def update_history_def)
    have inv1: "timer_inv cur d1" and due: "ti_started (ds_timer d1) + s \<le> cur" using E True by auto
    note K = timer_skip_spec [OF d2 inv1 due]
    have "unat (ti_height (ds_timer d2)) = Suc (unat (ti_height ?t))"
      using K hs h(1) by (auto simp: height_add_def unat_word_ariths split: if_splits)
    moreover have "same_chain d d2" using E K same_chain_trans by blast
    ultimately obtain d3 out3 where "timer_loop k clk cur d2 = Ok (d3, out3)"
      using Suc.IH [of d2] K Suc.prems(2-4) by (auto simp: timer_config_ok_def same_chain_def)
    then show ?thesis using s twice d1 add True d2 by simp
  qed
qed simp

section \<open>Runs\<close>

text \<open>
  The entry points in any order, under a clock that does not go back. The node passes with each approval
  the validators of its target height, as the contract client knows them at that moment: \<open>V h\<close> has
  the lists of stakes it may pass for the height \<open>h\<close>.
\<close>

type_synonym stake_sets = "u64 \<Rightarrow> (approval_stake \<times> bool) list set"

inductive ds_run :: "stake_sets \<Rightarrow> doomslug \<Rightarrow> instant \<Rightarrow> bool" for V where
  ds_start: "now1 \<le> t \<Longrightarrow> now2 \<le> t \<Longrightarrow>
    ds_run V (doomslug_new now1 now2 largest_sent endorsement_delay min_delay delay_step max_delay TwoThirds) t"
| ds_block: "ds_run V d t \<Longrightarrow> t \<le> now \<Longrightarrow> on_block now new_hash height last_final d = Ok d' \<Longrightarrow> ds_run V d' now"
| ds_approve: "ds_run V d t \<Longrightarrow> t \<le> now \<Longrightarrow> stakes \<in> V (ap_target_height (av_content a)) \<Longrightarrow>
    on_approval now utc a stakes d = Ok d' \<Longrightarrow> ds_run V d' now"
| ds_tick: "ds_run V d t \<Longrightarrow> t \<le> now \<Longrightarrow> process_timer clk now d = Ok (d', out) \<Longrightarrow> ds_run V d' now"
| ds_ready: "ds_run V d t \<Longrightarrow> t \<le> now \<Longrightarrow> ready_to_produce_block now target enough d = Ok (d', ready) \<Longrightarrow>
    ds_run V d' now"

abbreviation stake_maps :: "stake_sets \<Rightarrow> u64 \<Rightarrow> stake_map set" where
  "stake_maps V h \<equiv> unslashed_stakes ` V h"

definition ds_inv :: "stake_sets \<Rightarrow> instant \<Rightarrow> doomslug \<Rightarrow> bool" where
  "ds_inv V t d \<longleftrightarrow> timer_inv t d \<and> ds_threshold_mode d = TwoThirds \<and>
     (\<forall>(h, ta) \<in> set (ds_approval_tracking d). ta_ok (stake_maps V h) TwoThirds h ta)"

lemma timer_inv_later: "timer_inv t d \<Longrightarrow> t \<le> t' \<Longrightarrow> timer_inv t' d"
  by (auto simp: timer_inv_def)

lemma in_alist_update: "(x, y) \<in> set (AList.update k v m) \<Longrightarrow> (x = k \<and> y = v) \<or> (x, y) \<in> set m"
  by (induction m) (auto split: if_splits)

lemma tracked_ok:
  assumes "ds_inv V t d" and "map_of (ds_approval_tracking d) h = Some ta"
  shows "ta_ok (stake_maps V h) TwoThirds h ta"
  using assms map_of_SomeD [OF assms(2)] by (auto simp: ds_inv_def)

lemma on_approval_inv:
  assumes "on_approval now utc a stakes d = Ok d'" and inv: "ds_inv V t d" and V: "stakes \<in> V (ap_target_height (av_content a))"
  shows "ds_inv V t d'"
proof -
  consider "d' = d" | r where "on_approval_internal now utc a stakes d = Ok (d', r)"
    using assms(1) by (auto simp: on_approval_def Let_def outcome_simps split: if_splits)
  then show ?thesis
  proof cases
    case (2 r)
    let ?h = "ap_target_height (av_content a)"
    define ta where "ta = (case map_of (ds_approval_tracking d) ?h of Some ta \<Rightarrow> ta | None \<Rightarrow> trackers_new)"
    obtain ta' where p: "process_approval now utc a stakes TwoThirds ta = Ok (ta', r)"
      and tracking: "ds_approval_tracking d' = AList.update ?h ta' (ds_approval_tracking d)"
      and frame: "ds_timer d' = ds_timer d" "ds_tip d' = ds_tip d" "ds_threshold_mode d' = ds_threshold_mode d"
        "ds_endorsement_pending d' = ds_endorsement_pending d"
      using 2 inv by (auto simp: on_approval_internal_def ta_def ds_inv_def Let_def outcome_simps split: if_splits)
    have "ta_ok (stake_maps V ?h) TwoThirds ?h ta"
      using tracked_ok [OF inv] ta_ok_new by (auto simp: ta_def split: option.splits)
    from process_approval_ok [OF p this imageI [OF V]] show ?thesis
      using inv frame unfolding ds_inv_def tracking by (auto simp: timer_inv_def dest!: in_alist_update)
  qed (use inv in simp)
qed

lemma ready_cases:
  assumes "ready_to_produce_block now target enough d = Ok (d', ready)"
  obtains "d' = d" "\<not> ready"
  | i ta tr tr' r where "approval_inner_new (tip_block_hash (ds_tip d)) (tip_height (ds_tip d)) target = Ok i"
      "map_of (ds_approval_tracking d) target = Some ta"
      "map_of (ta_trackers ta) i = Some tr" "get_block_production_readiness now tr = Ok (tr', r)"
      "d' = d\<lparr>ds_approval_tracking := AList.update target (ta\<lparr>ta_trackers := AList.update i tr' (ta_trackers ta)\<rparr>)
         (ds_approval_tracking d)\<rparr>" "ready \<longrightarrow> r \<noteq> NotReady"
proof -
  obtain i where i: "approval_inner_new (tip_block_hash (ds_tip d)) (tip_height (ds_tip d)) target = Ok i"
    using assms by (auto simp: ready_to_produce_block_def bind_o_Ok_iff)
  show thesis
  proof (cases "map_of (ds_approval_tracking d) target")
    case None
    then show ?thesis using assms i that(1) by (simp add: ready_to_produce_block_def)
  next
    case ta: (Some ta)
    show ?thesis
    proof (cases "map_of (ta_trackers ta) i")
      case None
      then show ?thesis using assms i ta that(1) by (simp add: ready_to_produce_block_def)
    next
      case (Some tr)
      obtain tr' r where r: "get_block_production_readiness now tr = Ok (tr', r)"
        using assms i ta Some by (auto simp: ready_to_produce_block_def bind_o_Ok_iff)
      show ?thesis
        by (rule that(2) [OF i ta Some r])
          (use assms i ta Some r in \<open>auto simp: ready_to_produce_block_def Let_def bind_o_Ok_iff split: readiness.splits if_splits\<close>)
    qed
  qed
qed

lemma ready_inv:
  assumes "ready_to_produce_block now target enough d = Ok (d', ready)" and inv: "ds_inv V t d"
  shows "ds_inv V t d'"
  using assms(1)
proof (cases rule: ready_cases)
  case (2 i ta tr tr' r)
  note ok = tracked_ok [OF inv 2(2)]
  have "ta_ok (stake_maps V target) TwoThirds target (ta\<lparr>ta_trackers := AList.update i tr' (ta_trackers ta)\<rparr>)"
    using ok readiness_fields [OF 2(4)] ta_ok_tracker [OF ok 2(3)] by (auto simp: ta_ok_def update_conv')
  then show ?thesis using inv unfolding ds_inv_def 2(5) by (auto simp: timer_inv_def dest!: in_alist_update)
qed (use inv in simp)

lemma on_block_inv:
  assumes "on_block now new_hash height last_final d = Ok d'" and inv: "ds_inv V t d" and "t \<le> now"
  shows "ds_inv V now d'"
proof -
  obtain tracking where h: "unat height + unat (1 :: u64) < 2 ^ 64"
    and d': "d' = d\<lparr>ds_tip := \<lparr>tip_block_hash = new_hash, tip_height = height\<rparr>, ds_largest_final := last_final,
        ds_timer := (ds_timer d)\<lparr>ti_height := height + 1, ti_started := now\<rparr>,
        ds_approval_tracking := tracking, ds_endorsement_pending := True\<rparr>"
    and sub: "set tracking \<subseteq> set (ds_approval_tracking d)"
    using assms(1) by (fastforce simp: on_block_def Let_def outcome_simps height_add_Ok split: if_splits)
  show ?thesis
    using inv assms(3) sub less_plus_one [OF h] by (auto simp: ds_inv_def d' timer_inv_def)
qed

lemma ds_run_inv: "ds_run V d t \<Longrightarrow> ds_inv V t d"
proof (induction rule: ds_run.induct)
  case (ds_start now1 t now2 largest_sent endorsement_delay min_delay delay_step max_delay)
  then show ?case by (simp add: ds_inv_def timer_inv_def doomslug_new_def)
next
  case (ds_block d t now new_hash height last_final d')
  then show ?case by (blast intro: on_block_inv)
next
  case (ds_approve d t now stakes a utc d')
  then have "ds_inv V t d'" using on_approval_inv by blast
  then show ?case using ds_approve.hyps(2) timer_inv_later by (auto simp: ds_inv_def)
next
  case (ds_tick d t now clk d' out)
  have inv: "timer_inv now d" using ds_tick timer_inv_later by (auto simp: ds_inv_def)
  have "timer_inv now d' \<and> same_chain d d'"
    using timer_loop_spec [OF ds_tick.hyps(3) [unfolded process_timer_def] inv] by blast
  then show ?case using ds_tick.IH by (auto simp: ds_inv_def same_chain_def)
next
  case (ds_ready d t now target enough d' ready)
  then have "ds_inv V t d'" using ready_inv by blast
  then show ?case using ds_ready.hyps(2) timer_inv_later by (auto simp: ds_inv_def)
qed

section \<open>Quorums\<close>

lemma distinct_unslashed: "distinct (map fst (unslashed_stakes stakes))"
proof -
  have "distinct (map fst m) \<Longrightarrow> distinct (map fst (fold (\<lambda>(x, is_slashed) m. if is_slashed then m
        else AList.update (as_validator x) (as_stake_this_epoch x, as_stake_next_epoch x) m) stakes m))" for m
    by (induction stakes arbitrary: m) (auto simp: distinct_update)
  then show ?thesis by (simp add: unslashed_stakes_def)
qed

lemma threshold_met_stake:
  assumes "threshold_met tr = Ok True" and "tracker_ok {S} TwoThirds h i tr"
  shows "2 * sum_list (map (fst \<circ> snd) S) < 3 * stake_in fst S (voters tr)"
proof -
  have "tr_total_this tr * 2 div 3 < tr_approved_this tr"
    using assms by (auto simp: threshold_met_def two_thirds_def tracker_ok_def outcome_simps split: if_splits)
  then show ?thesis using assms(2) by (simp add: tracker_ok_def)
qed

lemma one_quorum:
  assumes S: "distinct (map fst S)" and ta: "ta_ok {S} TwoThirds h ta"
    and tr: "map_of (ta_trackers ta) i = Some tr" "threshold_met tr = Ok True"
    and tr2: "map_of (ta_trackers ta) j = Some tr2" "threshold_met tr2 = Ok True"
  shows "i = j"
proof (rule ccontr)
  assume "i \<noteq> j"
  note ok = ta_ok_tracker(1) [OF ta tr(1)] and ok2 = ta_ok_tracker(1) [OF ta tr2(1)]
  have "stake_in fst S (voters tr) + stake_in fst S (voters tr2) = stake_in fst S (voters tr \<union> voters tr2)"
    using ta_voters_disjoint [OF ta tr(1) tr2(1) \<open>i \<noteq> j\<close>] by (simp add: stake_in_disjoint)
  also have "\<dots> \<le> sum_list (map (fst \<circ> snd) S)" by (rule stake_in_total [OF S]) simp_all
  finally show False
    using threshold_met_stake [OF tr(2) ok] threshold_met_stake [OF tr2(2) ok2] by linarith
qed

section \<open>A run with one validator\<close>

definition demo_stakes :: "(approval_stake \<times> bool) list" where
  "demo_stakes = [(\<lparr>as_validator = [1], as_stake_this_epoch = 1, as_stake_next_epoch = 1\<rparr>, False)]"

definition demo_sets :: stake_sets where
  "demo_sets h = (if h = 2 then {demo_stakes} else {[], demo_stakes})"

definition demo_vote :: approval_validated where
  "demo_vote = \<lparr>av_content = \<lparr>ap_inner = Endorsement [7], ap_target_height = 2\<rparr>, av_signature = [], av_validator = [1]\<rparr>"

definition demo_tracker :: tracker where
  "demo_tracker = \<lparr>tr_witness = [([1], (demo_vote, 50))], tr_account_id_to_stakes = [([1], (1, 1))],
     tr_total_this = 1, tr_approved_this = 1, tr_total_next = 1, tr_approved_next = 1,
     tr_time_passed_threshold = Some 30, tr_threshold_mode = TwoThirds\<rparr>"

definition demo_tip :: doomslug where
  "demo_tip = (node_doomslug 10 10 0)\<lparr>ds_tip := \<lparr>tip_block_hash = [7], tip_height = 1\<rparr>,
     ds_timer := (ds_timer (node_doomslug 10 10 0))\<lparr>ti_height := 2, ti_started := 20\<rparr>, ds_endorsement_pending := True\<rparr>"

definition demo_approved :: doomslug where
  "demo_approved = demo_tip\<lparr>ds_approval_tracking :=
       [(2, \<lparr>ta_trackers = [(Endorsement [7], demo_tracker)], ta_last_approval = [([1], Endorsement [7])]\<rparr>)],
     ds_largest_approval := 2, ds_largest_threshold := 2\<rparr>"

lemma demo_tip_run: "ds_run demo_sets demo_tip 20"
proof -
  have "ds_run demo_sets (node_doomslug 10 10 0) 10"
    unfolding node_doomslug_def Let_def by (rule ds_start) simp_all
  moreover have "on_block 20 [7] 1 0 (node_doomslug 10 10 0) = Ok demo_tip"
    by (simp add: on_block_def node_doomslug_def doomslug_new_def height_add_def demo_tip_def Let_def)
  ultimately show ?thesis using ds_block [of demo_sets "node_doomslug 10 10 0" 10 20] by simp
qed

lemma demo_approved_run: "ds_run demo_sets demo_approved 30"
proof -
  have met: "threshold_met (demo_tracker\<lparr>tr_time_passed_threshold := None\<rparr>) = Ok True"
    by (simp add: threshold_met_def two_thirds_def demo_tracker_def)
  have "on_approval 30 50 demo_vote demo_stakes demo_tip = Ok demo_approved"
    using met by (simp add: on_approval_def on_approval_internal_def process_approval_def withdraw_last_def trackers_new_def
        unslashed_stakes_def demo_stakes_def demo_vote_def demo_tip_def node_doomslug_def doomslug_new_def
        tracker_new_def bal_sum_def bal_add_def tracker_process_approval_def stakes_of_def
        get_block_production_readiness_def demo_tracker_def height_add_def
        MAX_HEIGHTS_AHEAD_TO_STORE_APPROVALS_def demo_approved_def Let_def)
  then show ?thesis using ds_approve [OF demo_tip_run, of 30 demo_stakes] by (simp add: demo_sets_def demo_vote_def)
qed

lemma demo_ready: "\<exists>d'. ready_to_produce_block 40 2 True demo_approved = Ok (d', True)"
proof -
  have met: "threshold_met demo_tracker = Ok True"
    by (simp add: threshold_met_def two_thirds_def demo_tracker_def)
  have "tr_time_passed_threshold demo_tracker = Some 30" by (simp add: demo_tracker_def)
  then show ?thesis
    using met by (simp add: ready_to_produce_block_def approval_inner_new_def height_add_def demo_approved_def demo_tip_def
        get_block_production_readiness_def)
qed

section \<open>Theorems\<close>

text \<open>
  C35. Along every run, whatever validators are passed with the approvals, each tracker is well formed:
  it has the stakes of one list passed for its height, witnesses every account at most once, only
  accounts of a list passed for its height and only approvals of its own parent and height; the
  stakes it counts as approved are those its list gives to exactly these accounts, and never exceed
  its totals.
\<close>

theorem tracked_stake_typed:
  assumes "ds_run V d t" and "map_of (ds_approval_tracking d) h = Some ta"
    and "map_of (ta_trackers ta) i = Some tr"
  shows "tracker_ok (stake_maps V h) TwoThirds h i tr \<and>
    tr_approved_this tr \<le> tr_total_this tr \<and> tr_approved_next tr \<le> tr_total_next tr"
proof -
  have ok: "tracker_ok (stake_maps V h) TwoThirds h i tr"
    using ta_ok_tracker(1) [OF tracked_ok [OF ds_run_inv [OF assms(1)] assms(2)] assms(3)] .
  then obtain stakes where S: "tr_account_id_to_stakes tr = unslashed_stakes stakes" by (auto simp: tracker_ok_def)
  then show ?thesis
    using ok stake_in_total [OF distinct_unslashed [of stakes], of "voters tr"] by (simp add: tracker_ok_def)
qed

theorem tracked_stake_typed_witness:
  "tracker_ok (stake_maps demo_sets 2) TwoThirds 2 (Endorsement [7]) demo_tracker \<and>
   tr_approved_this demo_tracker \<le> tr_total_this demo_tracker"
proof -
  have "map_of (ds_approval_tracking demo_approved) 2 =
      Some \<lparr>ta_trackers = [(Endorsement [7], demo_tracker)], ta_last_approval = [([1], Endorsement [7])]\<rparr>"
    by (simp add: demo_approved_def)
  from tracked_stake_typed [OF demo_approved_run this, of "Endorsement [7]" demo_tracker] show ?thesis by simp
qed

text \<open>
  C15. When Doomslug lets the leader produce a block on its tip at a height for which only one list of
  validators was ever passed, accounts with more than two thirds of the stake have each approved exactly
  that parent for that height, and no other parent of the same height has a quorum: an account that
  approves a second parent is withdrawn from the first. Other heights may have had other lists.
\<close>

theorem ready_block_unique:
  assumes "ds_run V d t" and "V target = {stakes}" and "ready_to_produce_block now target enough d = Ok (d', True)"
  shows "\<exists>i ta tr. approval_inner_new (tip_block_hash (ds_tip d)) (tip_height (ds_tip d)) target = Ok i \<and>
    map_of (ds_approval_tracking d) target = Some ta \<and> map_of (ta_trackers ta) i = Some tr \<and>
    (\<forall>(k, (a, _)) \<in> set (tr_witness tr). av_validator a = k \<and> ap_inner (av_content a) = i \<and>
       ap_target_height (av_content a) = target) \<and>
    2 * sum_list (map (fst \<circ> snd) (unslashed_stakes stakes)) < 3 * stake_in fst (unslashed_stakes stakes) (voters tr) \<and>
    (\<forall>j tr'. map_of (ta_trackers ta) j = Some tr' \<and> threshold_met tr' = Ok True \<longrightarrow> j = i)"
  using assms(3)
proof (cases rule: ready_cases)
  case (2 i ta tr tr' r)
  have ta: "ta_ok {unslashed_stakes stakes} TwoThirds target ta"
    using tracked_ok [OF ds_run_inv [OF assms(1)] 2(2)] assms(2) by simp
  have met: "threshold_met tr = Ok True" using readiness_fields(3) [OF 2(4)] 2(6) by simp
  note ok = ta_ok_tracker(1) [OF ta 2(3)]
  have votes: "\<forall>(k, (a, _)) \<in> set (tr_witness tr). av_validator a = k \<and> ap_inner (av_content a) = i \<and>
       ap_target_height (av_content a) = target"
    using ok by (simp add: tracker_ok_def)
  show ?thesis
    using 2(1-3) votes threshold_met_stake [OF met ok] one_quorum [OF distinct_unslashed ta _ _ 2(3) met] by blast
qed simp

theorem ready_block_unique_witness:
  "\<exists>ta tr. map_of (ds_approval_tracking demo_approved) 2 = Some ta \<and>
     map_of (ta_trackers ta) (Endorsement [7]) = Some tr \<and>
     2 * sum_list (map (fst \<circ> snd) (unslashed_stakes demo_stakes)) < 3 * stake_in fst (unslashed_stakes demo_stakes) (voters tr)"
proof -
  obtain d' where d': "ready_to_produce_block 40 2 True demo_approved = Ok (d', True)" using demo_ready by blast
  have "approval_inner_new (tip_block_hash (ds_tip demo_approved)) (tip_height (ds_tip demo_approved)) 2 = Ok (Endorsement [7])"
    by (simp add: approval_inner_new_def height_add_def demo_approved_def demo_tip_def)
  moreover have "demo_sets 2 = {demo_stakes}" by (simp add: demo_sets_def)
  ultimately show ?thesis using ready_block_unique [OF demo_approved_run _ d'] by fastforce
qed

text \<open>
  C34. The timer. With delays that pass its own assertion and times and heights away from the end of
  their ranges, \<open>process_timer\<close> never panics; it sends at most one endorsement and twenty skips, with
  strictly increasing target heights above the tip, every one about the current tip, and the
  largest height sent covers them all and never decreases.
\<close>

theorem process_timer_safe:
  assumes "ds_run V d t" and "t \<le> now" and "timer_config_ok (ds_timer d)"
    and "now + ti_max_delay (ds_timer d) < 2 ^ 63 * 10 ^ 9" and "unat (ti_height (ds_timer d)) + 20 < 2 ^ 64 - 1"
  shows "\<exists>d' out. process_timer clk now d = Ok (d', out) \<and> length out \<le> 21 \<and>
    sorted_wrt (<) (map ap_target_height out) \<and>
    (\<forall>a \<in> set out. about_tip d a \<and> tip_height (ds_tip d) < ap_target_height a \<and>
       ap_target_height a \<le> ds_largest_sent d') \<and>
    ds_largest_sent d \<le> ds_largest_sent d' \<and> ds_tip d' = ds_tip d"
proof -
  have inv: "timer_inv now d" using ds_run_inv [OF assms(1)] assms(2) timer_inv_later by (auto simp: ds_inv_def)
  obtain d' out where run: "timer_loop MAX_TIMER_ITERS clk now d = Ok (d', out)"
    using timer_loop_total [OF inv assms(3,4)] assms(5) unfolding MAX_TIMER_ITERS_def by blast
  from timer_loop_spec [OF run inv] show ?thesis
    using run by (auto simp: process_timer_def same_chain_def MAX_TIMER_ITERS_def split: if_splits)
qed

theorem process_timer_safe_witness:
  "\<exists>d' out. process_timer (\<lambda>_ _. \<lparr>cr_now = 10 ^ 11, cr_utc = 0\<rparr>) (10 ^ 11) demo_tip = Ok (d', out) \<and>
     length out \<le> 21 \<and> 0 \<le> ds_largest_sent d'"
proof -
  have "timer_config_ok (ds_timer demo_tip)" "10 ^ 11 + ti_max_delay (ds_timer demo_tip) < 2 ^ 63 * 10 ^ 9"
    "unat (ti_height (ds_timer demo_tip)) + 20 < 2 ^ 64 - 1"
    by (simp_all add: demo_tip_def node_doomslug_def doomslug_new_def timer_config_ok_def from_millis_def from_secs_def
        MIN_BLOCK_PRODUCTION_DELAY_def MAX_BLOCK_PRODUCTION_DELAY_def MAX_BLOCK_WAIT_DELAY_def Let_def)
  from process_timer_safe [OF demo_tip_run _ this, of "\<lambda>_ _. \<lparr>cr_now = 10 ^ 11, cr_utc = 0\<rparr>"]
  show ?thesis by auto
qed

text \<open>
  In the node's own instance the delay before a skip never grows: the production delay, given
  in milliseconds, is read as seconds, so the cap of twelve seconds applies from the first height on.
\<close>

lemma node_delay_is_cap:
  "get_delay (ds_timer (node_doomslug now1 now2 height)) n = Ok (from_millis MAX_BLOCK_WAIT_DELAY)"
proof -
  define m where "m = min (unat n) (2 ^ 32 - 1) - 2"
  have "m \<le> 2 ^ 32 - 3" unfolding m_def by linarith
  then show ?thesis
    unfolding get_delay_def Let_def m_def [symmetric]
    by (simp add: node_doomslug_def doomslug_new_def dur_mul_def dur_add_def from_millis_def from_secs_def
        MIN_BLOCK_PRODUCTION_DELAY_def MAX_BLOCK_PRODUCTION_DELAY_def MAX_BLOCK_WAIT_DELAY_def)
qed

text \<open>
  The check over a block's approvals, unlike the tracker, passes with no approval at all while the
  total stake is at most one: its threshold is then zero.
\<close>

lemma no_approval_needed:
  "can_approved_block_be_produced TwoThirds [False] [(1, 1, False)] = Ok True"
  by (simp add: can_approved_block_be_produced_def bal_sum_def bal_add_def two_thirds_def stake_sum_def)

end
