(* ===== verification/Circuits.thy ===== *)
theory Circuits
  imports Utxo Smirk_Theorems
begin

text \<open>
  The circuits of the rollup (\<open>ciphera/noir\<close>): \<open>utxo\<close> proves one transaction, \<open>agg_utxo\<close> three
  transactions against the notes tree, \<open>agg_agg\<close> two such aggregates. A circuit is its list of
  assertions over field elements: \<open>main\<close> gives \<open>Ok\<close> when all of them hold and \<open>Panic\<close> at the first
  one that fails. The Poseidon hash, the hash of a verification key and the recursive verifier
  are code outside the repository and are the fields of \<open>circuit_env\<close>.
\<close>

section \<open>Fields\<close>

type_synonym field = base

definition is_field :: "field \<Rightarrow> bool" where
  "is_field x \<longleftrightarrow> 0 \<le> x \<and> x < uint MODULUS"

definition field_add :: "field \<Rightarrow> field \<Rightarrow> field" where
  "field_add x y = (x + y) mod uint MODULUS"

definition to_le_bits :: "field \<Rightarrow> bool list" where
  "to_le_bits x = map (bit x) [0..<254]"

definition assert_max_bit_size :: "nat \<Rightarrow> field \<Rightarrow> unit checked" where
  "assert_max_bit_size n x = assert_o (x < 2 ^ n)"

text \<open>
  \<open>ce_utxo_key\<close> and \<open>ce_agg_utxo_key\<close> are the verification keys of the compiled circuits, which the prover
  passes on; the circuits do not know them. The verifier \<open>std::verify_proof_with_type\<close> takes a key, a
  proof, public inputs and the hash of the key.
\<close>

record circuit_env =
  ce_poseidon :: "field list \<Rightarrow> field"
  ce_vk_hash :: "field list \<Rightarrow> field"
  ce_utxo_key :: "field list"
  ce_agg_utxo_key :: "field list"
  ce_verify_proof :: "field list \<Rightarrow> field list \<Rightarrow> field list \<Rightarrow> field \<Rightarrow> bool"

section \<open>Notes\<close>

record b_note =
  bn_kind :: field
  bn_value :: field
  bn_address :: field
  bn_psi :: field

record b_input_note =
  bi_note :: b_note
  bi_secret_key :: field

definition get_note_commitment :: "(field list \<Rightarrow> field) \<Rightarrow> b_note \<Rightarrow> field checked" where
  "get_note_commitment P n =
     (if bn_kind n = 0 then bind_o (assert_o (bn_value n = 0)) (\<lambda>_. Ok 0)
      else Ok (P [2, bn_kind n, bn_value n, bn_address n, bn_psi n, 0, 0]))"

definition check_commitment :: "(field list \<Rightarrow> field) \<Rightarrow> b_note \<Rightarrow> field \<Rightarrow> unit checked" where
  "check_commitment P n c = bind_o (get_note_commitment P n) (\<lambda>x. assert_o (x = c))"

definition get_address_c :: "(field list \<Rightarrow> field) \<Rightarrow> field \<Rightarrow> field" where
  "get_address_c P secret_key = P [secret_key, 0]"

definition check_input_note_ownership :: "(field list \<Rightarrow> field) \<Rightarrow> b_input_note \<Rightarrow> unit checked" where
  "check_input_note_ownership P i =
     (if bn_value (bi_note i) \<noteq> 0
      then assert_o (get_address_c P (bi_secret_key i) = bn_address (bi_note i)) else Ok ())"

definition is_one_of :: "field \<Rightarrow> field list \<Rightarrow> bool" where
  "is_one_of v possible = foldl (\<lambda>found x. if x = v then True else found) False possible"

section \<open>One transaction\<close>

record utxo_input =
  ui_input_notes :: "b_input_note \<times> b_input_note"
  ui_output_notes :: "b_note \<times> b_note"
  ui_pmessage4 :: field
  ui_commitments :: "field \<times> field \<times> field \<times> field"
  ui_messages :: "field \<times> field \<times> field \<times> field \<times> field"

definition scan_kind :: "field \<times> bool \<Rightarrow> b_note \<Rightarrow> field \<times> bool" where
  "scan_kind s n = (case s of (first_non_zero_kind, is_multiple_kinds) \<Rightarrow>
     if \<not> is_multiple_kinds \<and> bn_kind n \<noteq> 0
     then if first_non_zero_kind = 0 then (bn_kind n, is_multiple_kinds)
          else if first_non_zero_kind \<noteq> bn_kind n then (first_non_zero_kind, True) else s
     else s)"

definition is_multiple_kinds :: "b_note list \<Rightarrow> bool \<times> field" where
  "is_multiple_kinds ns = (case foldl scan_kind (0, False) ns of (k, m) \<Rightarrow> (m, k))"

definition utxo_kind_checks ::
    "(field list \<Rightarrow> field) \<Rightarrow> utxo_input \<Rightarrow> field \<Rightarrow> field \<Rightarrow> unit checked" where
  "utxo_kind_checks P i in_sum out_sum =
     (case (ui_messages i, ui_output_notes i, ui_commitments i) of
        ((kind, msg_note_kind, msg_value, msg_hash, burn_addr), (o0, o1), (c0, _)) \<Rightarrow>
        if kind = 1 then assert_o (in_sum = out_sum)
        else if kind = 2 then
          bind_o (assert_o (out_sum = field_add in_sum msg_value)) (\<lambda>_.
          bind_o (assert_o (P [bn_psi o0, bn_psi o1] = msg_hash)) (\<lambda>_.
          assert_o (bn_kind o0 = msg_note_kind)))
        else if kind = 3 \<or> kind = 4 then
          bind_o (assert_o (ui_pmessage4 i = burn_addr)) (\<lambda>_.
          bind_o (assert_o (c0 = msg_hash)) (\<lambda>_.
          bind_o (assert_o (in_sum = field_add out_sum msg_value)) (\<lambda>_.
          assert_o (bn_kind (bi_note (fst (ui_input_notes i))) = msg_note_kind))))
        else assert_o False)"

definition utxo_main :: "(field list \<Rightarrow> field) \<Rightarrow> utxo_input \<Rightarrow> unit checked" where
  "utxo_main P i =
     (case (ui_input_notes i, ui_output_notes i, ui_commitments i, ui_messages i) of
        ((i0, i1), (o0, o1), (c0, c1, c2, c3), (_, _, msg_value, _, _)) \<Rightarrow>
        bind_o (check_commitment P (bi_note i0) c0) (\<lambda>_.
        bind_o (check_commitment P (bi_note i1) c1) (\<lambda>_.
        bind_o (check_commitment P o0 c2) (\<lambda>_.
        bind_o (check_commitment P o1 c3) (\<lambda>_.
        bind_o (assert_max_bit_size 240 (bn_value o0)) (\<lambda>_.
        bind_o (assert_max_bit_size 240 (bn_value o1)) (\<lambda>_.
        let in_sum = field_add (bn_value (bi_note i0)) (bn_value (bi_note i1));
            out_sum = field_add (bn_value o0) (bn_value o1)
        in bind_o (assert_o (\<not> fst (is_multiple_kinds [bi_note i0, bi_note i1, o0, o1]))) (\<lambda>_.
           bind_o (assert_max_bit_size 240 msg_value) (\<lambda>_.
           bind_o (utxo_kind_checks P i in_sum out_sum) (\<lambda>_.
           bind_o (check_input_note_ownership P i0) (\<lambda>_.
           check_input_note_ownership P i1)))))))))))"

section \<open>Three transactions against the tree\<close>

text \<open>\<open>UTXO_VERIFICATION_KEY_HASH\<close> and \<open>AGG_UTXO_VERIFICATION_KEY_HASH\<close> of the circuits.\<close>

definition UTXO_VERIFICATION_KEY_HASH :: field where
  "UTXO_VERIFICATION_KEY_HASH =
     13437558190188331359745244003168182966555402200567357761776677508237206900292"

definition AGG_UTXO_VERIFICATION_KEY_HASH :: field where
  "AGG_UTXO_VERIFICATION_KEY_HASH =
     20568466210044186534443751402702726563221429495170229651617041695720756765724"

record agg_utxo_proof_input =
  ap_proof :: "field list"
  ap_input_merkle_paths :: "field list \<times> field list"
  ap_output_merkle_paths :: "field list \<times> field list"
  ap_input_commitments :: "field \<times> field"
  ap_output_commitments :: "field \<times> field"
  ap_utxo_kind :: field

record agg_utxo_input =
  ai_proofs :: "agg_utxo_proof_input \<times> agg_utxo_proof_input \<times> agg_utxo_proof_input"
  ai_messages :: "field list"
  ai_old_root :: field
  ai_new_root :: field
  ai_commit_hash :: field

fun merkle_root_loop :: "(field list \<Rightarrow> field) \<Rightarrow> field \<Rightarrow> (field \<times> bool) list \<Rightarrow> field" where
  "merkle_root_loop P hash [] = hash"
| "merkle_root_loop P hash ((sibling, dir) # rest) =
     merkle_root_loop P (if dir then P [sibling, hash] else P [hash, sibling]) rest"

definition get_merkle_root :: "(field list \<Rightarrow> field) \<Rightarrow> field \<Rightarrow> bool list \<Rightarrow> field list \<Rightarrow> field" where
  "get_merkle_root P leaf dirs merkle_path = merkle_root_loop P leaf (zip merkle_path dirs)"

definition get_null_root :: "(field list \<Rightarrow> field) \<Rightarrow> bool list \<Rightarrow> field list \<Rightarrow> field" where
  "get_null_root P dirs merkle_path = get_merkle_root P 0 dirs merkle_path"

definition validate_inclusion ::
    "(field list \<Rightarrow> field) \<Rightarrow> field \<Rightarrow> bool list \<Rightarrow> field list \<Rightarrow> field \<Rightarrow> unit checked" where
  "validate_inclusion P leaf dirs merkle_path root = assert_o (get_merkle_root P leaf dirs merkle_path = root)"

definition validate_null :: "(field list \<Rightarrow> field) \<Rightarrow> bool list \<Rightarrow> field list \<Rightarrow> field \<Rightarrow> unit checked" where
  "validate_null P dirs merkle_path root = assert_o (get_null_root P dirs merkle_path = root)"

text \<open>The bodies of the two inner loops.\<close>

definition spend_input :: "(field list \<Rightarrow> field) \<Rightarrow> field \<Rightarrow> field \<times> field list \<Rightarrow> field checked" where
  "spend_input P root cp = (case cp of (c, merkle_path) \<Rightarrow>
     if c \<noteq> 0
     then bind_o (validate_inclusion P c (to_le_bits c) merkle_path root) (\<lambda>_.
          Ok (get_null_root P (to_le_bits c) merkle_path))
     else Ok root)"

definition add_output :: "(field list \<Rightarrow> field) \<Rightarrow> field \<Rightarrow> field \<times> field list \<Rightarrow> field checked" where
  "add_output P root cp = (case cp of (c, merkle_path) \<Rightarrow>
     if c \<noteq> 0
     then bind_o (validate_null P (to_le_bits c) merkle_path root) (\<lambda>_.
          Ok (get_merkle_root P c (to_le_bits c) merkle_path))
     else Ok root)"

text \<open>The messages a proof of a kind takes from position \<open>k\<close> of the public messages.\<close>

definition circuit_messages :: "field list \<Rightarrow> nat \<Rightarrow> field \<Rightarrow> (field list \<times> nat) checked" where
  "circuit_messages msgs_pub k utxo_kind =
     bind_o (if is_one_of utxo_kind [2, 3, 4]
             then bind_o (assert_o (msgs_pub ! k = utxo_kind)) (\<lambda>_.
                  Ok ([msgs_pub ! (k + 1), msgs_pub ! (k + 2), msgs_pub ! (k + 3)], k + 4))
             else Ok ([0, 0, 0], k)) (\<lambda>(ms, k).
     if is_one_of utxo_kind [3, 4] then Ok (ms @ [msgs_pub ! k], k + 1) else Ok (ms @ [0], k))"

record agg_utxo_state =
  as_root :: field
  as_utxo_hashes :: "field list"
  as_messages_index :: nat
  as_first :: "field list \<times> field list"

text \<open>
  One round of the loop. The first round stores its proof and public inputs, which stand in for
  those of a padding round.
\<close>

definition agg_utxo_round ::
    "circuit_env \<Rightarrow> field list \<Rightarrow> field \<Rightarrow> field list \<Rightarrow> agg_utxo_state \<Rightarrow> nat \<times> agg_utxo_proof_input \<Rightarrow>
     agg_utxo_state checked" where
  "agg_utxo_round E verification_key verification_key_hash msgs_pub s ip =
     (case ip of (i, p) \<Rightarrow>
      let P = ce_poseidon E; is_padding = (ap_utxo_kind p = 0);
          leaves = [fst (ap_input_commitments p), snd (ap_input_commitments p),
                         fst (ap_output_commitments p), snd (ap_output_commitments p)]
      in bind_o (circuit_messages msgs_pub (as_messages_index s) (ap_utxo_kind p)) (\<lambda>(ms, k).
         let inputs_i = leaves @ [ap_utxo_kind p] @ ms;
             hashes = as_utxo_hashes s @ [P leaves]
         in bind_o (assert_o (i = 0 \<longrightarrow> \<not> is_padding)) (\<lambda>_.
            let first = (if i = 0 then (ap_proof p, inputs_i) else as_first s);
                (proof, inputs) = (if is_padding then first else (ap_proof p, inputs_i))
            in bind_o (assert_o (ce_verify_proof E verification_key proof inputs verification_key_hash)) (\<lambda>_.
               bind_o (if is_padding then Ok (as_root s)
                       else bind_o (spend_input P (as_root s) (fst (ap_input_commitments p), fst (ap_input_merkle_paths p))) (\<lambda>r.
                            bind_o (spend_input P r (snd (ap_input_commitments p), snd (ap_input_merkle_paths p))) (\<lambda>r.
                            bind_o (add_output P r (fst (ap_output_commitments p), fst (ap_output_merkle_paths p))) (\<lambda>r.
                            add_output P r (snd (ap_output_commitments p), snd (ap_output_merkle_paths p)))))) (\<lambda>r.
               Ok \<lparr>as_root = r, as_utxo_hashes = hashes, as_messages_index = k, as_first = first\<rparr>)))))"

text \<open>
  The verification key and its hash are private inputs, chosen by whoever proves. The circuit only
  compares the hash with its constant; that the hash belongs to the key is left to the verifier.
\<close>

definition agg_utxo_main :: "circuit_env \<Rightarrow> field list \<Rightarrow> field \<Rightarrow> agg_utxo_input \<Rightarrow> unit checked" where
  "agg_utxo_main E verification_key verification_key_hash a =
     (case ai_proofs a of (p0, p1, p2) \<Rightarrow>
      bind_o (assert_o (verification_key_hash = UTXO_VERIFICATION_KEY_HASH)) (\<lambda>_.
      bind_o (fold_o (agg_utxo_round E verification_key verification_key_hash (ai_messages a))
                \<lparr>as_root = ai_old_root a, as_utxo_hashes = [], as_messages_index = 0, as_first = ([], [])\<rparr>
                (enumerate 0 [p0, p1, p2])) (\<lambda>s.
      bind_o (assert_o (\<forall>m \<in> set (drop (as_messages_index s) (ai_messages a)). m = 0)) (\<lambda>_.
      bind_o (assert_o (as_root s = ai_new_root a)) (\<lambda>_.
      assert_o (ai_commit_hash a = ce_poseidon E (as_utxo_hashes s)))))))"

section \<open>Two aggregates\<close>

record utxo_agg_proof =
  ua_proof :: "field list"
  ua_old_root :: field
  ua_new_root :: field
  ua_commit_hash :: field

record agg_agg_input =
  gi_proofs :: "utxo_agg_proof \<times> utxo_agg_proof"
  gi_messages :: "field list"
  gi_old_root :: field
  gi_new_root :: field
  gi_commit_hash :: field

definition agg_agg_public :: "field list \<Rightarrow> nat \<Rightarrow> utxo_agg_proof \<Rightarrow> field list" where
  "agg_agg_public msgs_pub i p =
     take 15 (drop (15 * i) msgs_pub) @ [ua_old_root p, ua_new_root p, ua_commit_hash p]"

definition agg_agg_round ::
    "circuit_env \<Rightarrow> field list \<Rightarrow> field \<Rightarrow> agg_agg_input \<Rightarrow> field \<Rightarrow> nat \<times> utxo_agg_proof \<Rightarrow> field checked" where
  "agg_agg_round E verification_key verification_key_hash g root ip =
     (case (ip, gi_proofs g) of ((i, p), (p0, _)) \<Rightarrow>
      let (proof, inputs) =
            (if ua_old_root p \<noteq> 0 then (ua_proof p, agg_agg_public (gi_messages g) i p)
             else (ua_proof p0, agg_agg_public (gi_messages g) 0 p0))
      in bind_o (assert_o (ce_verify_proof E verification_key proof inputs verification_key_hash)) (\<lambda>_.
         if ua_old_root p \<noteq> 0 then bind_o (assert_o (ua_old_root p = root)) (\<lambda>_. Ok (ua_new_root p))
         else Ok root))"

definition agg_agg_main :: "circuit_env \<Rightarrow> field list \<Rightarrow> field \<Rightarrow> agg_agg_input \<Rightarrow> unit checked" where
  "agg_agg_main E verification_key verification_key_hash g =
     (case gi_proofs g of (p0, p1) \<Rightarrow>
      bind_o (assert_o (verification_key_hash = AGG_UTXO_VERIFICATION_KEY_HASH)) (\<lambda>_.
      bind_o (fold_o (agg_agg_round E verification_key verification_key_hash g) (gi_old_root g) (enumerate 0 [p0, p1])) (\<lambda>root.
      bind_o (assert_o (gi_commit_hash g = ce_poseidon E [ua_commit_hash p0, ua_commit_hash p1])) (\<lambda>_.
      assert_o (gi_new_root g = root)))))"

end
