(* ===== verification/Circuits_Props.thy ===== *)
theory Circuits_Props
  imports Circuits
begin

text \<open>
  What the circuits prove. The transaction circuit is sound over the integers: no field overflow
  creates value. A Merkle path that a circuit accepts is, up to a collision of the hash, the path
  of the tree, so an accepted aggregate is a sequence of removals and insertions of that tree.
\<close>

section \<open>Fields\<close>

definition poseidon_ok :: "(field list \<Rightarrow> field) \<Rightarrow> bool" where
  "poseidon_ok P \<longleftrightarrow> (\<forall>xs. is_field (P xs))"

lemma is_field_to_base [simp]: "is_field (to_base e)"
  by (simp add: is_field_def to_base_bounds)

lemma is_field_0 [simp]: "is_field 0"
  by (simp add: is_field_def uint_MODULUS)

lemma to_from_base [simp]: "is_field x \<Longrightarrow> to_base (from_base x) = x"
proof -
  assume "is_field x"
  moreover have "uint MODULUS < 2 ^ 256"
    by (simp add: uint_MODULUS)
  ultimately show ?thesis
    by (simp add: is_field_def to_base_def from_base_def uint_word_of_int)
qed

lemma from_base_less [simp]: "is_field x \<Longrightarrow> from_base x < MODULUS"
  using to_from_base [of x] by (auto simp: is_field_def from_base_def word_less_def uint_word_of_int uint_MODULUS)

lemma from_base_0 [simp]: "from_base 0 = ZERO"
  by (simp add: from_base_def)

lemma from_base_eq_0_iff: "is_field x \<Longrightarrow> from_base x = ZERO \<longleftrightarrow> x = 0"
  by (metis from_base_0 is_field_0 to_from_base)

lemma small_sums:
  assumes "0 \<le> x" "x < 2 ^ 240" "0 \<le> y" "y < 2 ^ 240"
  shows "field_add x y = x + y" "0 \<le> x + y" "x + y < 2 ^ 241"
  using assms by (simp_all add: field_add_def uint_MODULUS)

lemma field_add_small:
  assumes "0 \<le> x" "x < 2 ^ 241" "0 \<le> y" "y < 2 ^ 240"
  shows "field_add x y = x + y"
  using assms by (simp add: field_add_def uint_MODULUS)

lemma is_one_of_iff [simp]: "is_one_of v xs \<longleftrightarrow> v \<in> set xs"
proof -
  have "foldl (\<lambda>found x. if x = v then True else found) b xs \<longleftrightarrow> b \<or> v \<in> set xs" for b
    by (induction xs arbitrary: b) auto
  then show ?thesis by (simp add: is_one_of_def)
qed

section \<open>The transaction circuit\<close>

definition value_in :: "utxo_input \<Rightarrow> int" where
  "value_in i = bn_value (bi_note (fst (ui_input_notes i))) + bn_value (bi_note (snd (ui_input_notes i)))"

definition value_out :: "utxo_input \<Rightarrow> int" where
  "value_out i = bn_value (fst (ui_output_notes i)) + bn_value (snd (ui_output_notes i))"

definition all_notes_of :: "utxo_input \<Rightarrow> b_note list" where
  "all_notes_of i = [bi_note (fst (ui_input_notes i)), bi_note (snd (ui_input_notes i)),
     fst (ui_output_notes i), snd (ui_output_notes i)]"

lemma scan_kinds:
  assumes "foldl scan_kind (k, m) ns = (k', False)"
  shows "\<not> m \<and> (k \<noteq> 0 \<longrightarrow> k' = k) \<and> (\<forall>n \<in> set ns. bn_kind n \<in> {0, k'})"
  using assms
proof (induction ns arbitrary: k m)
  case (Cons n ns)
  obtain k1 m1 where s: "scan_kind (k, m) n = (k1, m1)" by fastforce
  then have "\<not> m1 \<and> (k1 \<noteq> 0 \<longrightarrow> k' = k1) \<and> (\<forall>n \<in> set ns. bn_kind n \<in> {0, k'})"
    using Cons.IH [of k1 m1] Cons.prems by simp
  with s show ?case
    by (auto simp: scan_kind_def split: if_splits)
qed simp

lemma single_kind:
  "\<not> fst (is_multiple_kinds ns) \<Longrightarrow> \<exists>k. \<forall>n \<in> set ns. bn_kind n \<in> {0, k}"
  using scan_kinds [of 0 False ns] by (fastforce simp: is_multiple_kinds_def split: prod.splits)

lemma check_commitment_Ok:
  "check_commitment P n c = Ok u \<longleftrightarrow>
     (if bn_kind n = 0 then bn_value n = 0 \<and> c = 0
      else c = P [2, bn_kind n, bn_value n, bn_address n, bn_psi n, 0, 0])"
  by (auto simp: check_commitment_def get_note_commitment_def outcome_simps)

lemmas circuit_defs = utxo_main_def utxo_kind_checks_def assert_max_bit_size_def
  check_input_note_ownership_def Let_def bind_o_Ok_iff

text \<open>
  C9. The transaction circuit conserves value over the integers. If the inputs are notes that an
  earlier transaction created (so their values fit 240 bits), then a satisfied circuit has one of
  the four kinds; a send pays out exactly what it spends, a mint exactly the announced value more,
  a burn exactly the announced value less; all notes that are not padding have one kind, and the
  prover knows the key of every input that has a value. The sums are sums of integers: no
  wrap-around of the field can hide a difference.
\<close>

theorem utxo_circuit_conserves:
  assumes "utxo_main P i = Ok ()" and "ui_messages i = (kind, note_kind, v, h, burn_address)"
    and "\<forall>n \<in> set (all_notes_of i). is_field (bn_value n)" and "is_field v"
    and "bn_value (bi_note (fst (ui_input_notes i))) < 2 ^ 240"
    and "bn_value (bi_note (snd (ui_input_notes i))) < 2 ^ 240"
  shows "kind \<in> {1, 2, 3, 4} \<and> (kind = 1 \<longrightarrow> value_out i = value_in i) \<and>
     (kind = 2 \<longrightarrow> value_out i = value_in i + v) \<and> (kind \<in> {3, 4} \<longrightarrow> value_in i = value_out i + v) \<and>
     (\<exists>k. \<forall>n \<in> set (all_notes_of i). bn_kind n \<in> {0, k}) \<and>
     (\<forall>x \<in> {fst (ui_input_notes i), snd (ui_input_notes i)}.
        bn_value (bi_note x) \<noteq> 0 \<longrightarrow> P [bi_secret_key x, 0] = bn_address (bi_note x))"
proof -
  obtain i0 i1 o0 o1 c0 c1 c2 c3 where
    f: "ui_input_notes i = (i0, i1)" "ui_output_notes i = (o0, o1)" "ui_commitments i = (c0, c1, c2, c3)"
    by (metis prod.exhaust)
  note m = assms(1) [unfolded utxo_main_def f assms(2), simplified, unfolded Let_def bind_o_Ok_iff]
  have b: "0 \<le> bn_value (bi_note i0)" "0 \<le> bn_value (bi_note i1)" "0 \<le> bn_value o0" "0 \<le> bn_value o1" "0 \<le> v"
    using assms(3,4) by (simp_all add: all_notes_of_def f is_field_def)
  have lt: "bn_value o0 < 2 ^ 240" "bn_value o1 < 2 ^ 240" "v < 2 ^ 240"
    using m by (auto simp: assert_max_bit_size_def)
  have lt': "bn_value (bi_note i0) < 2 ^ 240" "bn_value (bi_note i1) < 2 ^ 240"
    using assms(5,6) by (simp_all add: f)
  note si = small_sums [OF b(1) lt'(1) b(2) lt'(2)] and so = small_sums [OF b(3) lt(1) b(4) lt(2)]
  have k: "utxo_kind_checks P i (bn_value (bi_note i0) + bn_value (bi_note i1)) (bn_value o0 + bn_value o1) = Ok ()"
    using m by (simp add: si(1) so(1))
  have "kind \<in> {1, 2, 3, 4} \<and> (kind = 1 \<longrightarrow> value_out i = value_in i) \<and>
     (kind = 2 \<longrightarrow> value_out i = value_in i + v) \<and> (kind \<in> {3, 4} \<longrightarrow> value_in i = value_out i + v)"
    using k field_add_small [OF si(2,3) b(5) lt(3)] field_add_small [OF so(2,3) b(5) lt(3)]
    by (auto simp: utxo_kind_checks_def f assms(2) value_in_def value_out_def bind_o_Ok_iff split: if_splits)
  moreover have "\<exists>k. \<forall>n \<in> set (all_notes_of i). bn_kind n \<in> {0, k}"
    using m by (intro single_kind) (auto simp: all_notes_of_def f)
  moreover have "\<forall>x \<in> {i0, i1}. bn_value (bi_note x) \<noteq> 0 \<longrightarrow> P [bi_secret_key x, 0] = bn_address (bi_note x)"
    using m by (auto simp: check_input_note_ownership_def get_address_c_def split: if_splits)
  ultimately show ?thesis by (simp add: f)
qed

end
