(* ===== verification/Circuits_Tree.thy ===== *)
theory Circuits_Tree
  imports Circuits_Props
begin

text \<open>
  The aggregate circuit against the notes tree: the steps of the circuit on roots are the removals
  and insertions of the tree. Given a tree with the old root, a satisfied circuit can be replayed
  on the tree; the replay ends at the new root or computes a collision of the Poseidon hash.
\<close>

section \<open>Paths of fields and paths of elements\<close>

lemma hash2_less: "poseidon_ok P \<Longrightarrow> hash2 P a b < MODULUS"
  by (simp add: hash2_def hash_merge_def poseidon_ok_def)

lemma zip_take_right: "zip xs (take (length xs) ys) = zip xs ys"
  by (induction xs arbitrary: ys) (auto simp: zip_Cons1 take_Cons split: list.splits)

lemma merkle_root_loop_field:
  "poseidon_ok P \<Longrightarrow> is_field x \<Longrightarrow> is_field (merkle_root_loop P x sbs)"
  by (induction P x sbs rule: merkle_root_loop.induct) (auto simp: poseidon_ok_def)

lemma merkle_root_loop_elements:
  assumes "poseidon_ok P" and "is_field x" and "\<forall>s \<in> fst ` set sbs. is_field s"
  shows "from_base (merkle_root_loop P x sbs) =
     compute_merkle_root_from_iter (hash2 P) (from_base x) (map (\<lambda>(s, b). (from_base s, b)) sbs)"
  using assms
proof (induction P x sbs rule: merkle_root_loop.induct)
  case (2 P x s b rest)
  let ?y = "if b then P [s, x] else P [x, s]"
  have "from_base ?y = (if b then hash2 P (from_base s) (from_base x) else hash2 P (from_base x) (from_base s))"
    using "2.prems" by (simp add: hash2_def hash_merge_def)
  moreover have "is_field ?y"
    using "2.prems" by (simp add: poseidon_ok_def)
  ultimately show ?case
    using "2.IH" "2.prems" by (auto split: if_splits)
qed simp

lemma to_le_bits_element:
  assumes "is_field c" and "n \<le> 254"
  shows "take n (to_le_bits c) = least_significant_bits (from_base c) n"
proof -
  have "uint (from_base c) = c"
    using to_from_base [OF assms(1)] from_base_less [OF assms(1)] by (simp add: to_base_def word_less_def)
  then have "bit c i = bit (from_base c) i" if "i < n" for i
    using that assms(2) bit_uint_iff [of "from_base c" i] by simp
  then show ?thesis
    using assms(2) by (simp add: to_le_bits_def least_significant_bits_def lsb_eq take_map rev_map)
qed

text \<open>The root a circuit computes for a path of \<open>n\<close> siblings is the root the tree computes.\<close>

lemma get_merkle_root_element:
  assumes "poseidon_ok P" and "is_field x" and "is_field c" and "\<forall>s \<in> set path. is_field s"
    and "length path \<le> 254"
  shows "from_base (get_merkle_root P x (to_le_bits c) path) =
     compute_merkle_root (hash2 P) (from_base x) (from_base c) (map from_base path)"
proof -
  have "zip path (to_le_bits c) = zip path (least_significant_bits (from_base c) (length path))"
    using to_le_bits_element [OF assms(3,5)] zip_take_right [of path "to_le_bits c"] by simp
  moreover have "\<forall>s \<in> fst ` set (zip path bs). is_field s" for bs :: "bool list"
    using assms(4) by (auto dest: set_zip_leftD)
  ultimately show ?thesis
    using merkle_root_loop_elements [OF assms(1,2)]
    by (simp add: get_merkle_root_def compute_merkle_root_def zip_map1)
qed

section \<open>Collisions\<close>

text \<open>
  The first level at which two leaves with two lists of siblings hash different pairs to the same
  value.
\<close>

fun path_collision ::
    "(element \<Rightarrow> element \<Rightarrow> element) \<Rightarrow> element \<Rightarrow> element \<Rightarrow> ((element \<times> element) \<times> bool) list \<Rightarrow>
     ((element \<times> element) \<times> (element \<times> element)) option" where
  "path_collision H x y [] = None"
| "path_collision H x y (((s, t), b) # rest) =
     (let p = (if b then (s, x) else (x, s)); q = (if b then (t, y) else (y, t))
      in if p \<noteq> q \<and> H (fst p) (snd p) = H (fst q) (snd q) then Some (p, q)
         else path_collision H (H (fst p) (snd p)) (H (fst q) (snd q)) rest)"

lemma path_collision_None:
  assumes "path_collision H x y (zip (zip ss ts) bs) = None" and "length ss = length bs" "length ts = length bs"
    and "compute_merkle_root_from_iter H x (zip ss bs) = compute_merkle_root_from_iter H y (zip ts bs)"
  shows "x = y \<and> ss = ts"
  using assms(2,3,1,4)
proof (induction bs arbitrary: ss ts x y)
  case (Cons b bs)
  then obtain s ss' t ts' where s: "ss = s # ss'" "ts = t # ts'"
    by (metis length_Suc_conv)
  let ?p = "if b then (s, x) else (x, s)" and ?q = "if b then (t, y) else (y, t)"
  have "H (fst ?p) (snd ?p) = H (fst ?q) (snd ?q) \<and> ss' = ts'"
    using Cons.prems by (intro Cons.IH) (auto simp: s Let_def split: if_splits)
  moreover from this have "?p = ?q"
    using Cons.prems by (auto simp: s Let_def split: if_splits)
  ultimately show ?case by (simp add: s split: if_splits)
qed simp

lemma path_collision_Some:
  assumes "path_collision H x y sbs = Some (p, q)"
    and "\<And>a b. H a b < m" and "x < m" "y < m" and "\<forall>((s, t), b) \<in> set sbs. s < m \<and> t < m"
  shows "p \<noteq> q \<and> H (fst p) (snd p) = H (fst q) (snd q) \<and> fst p < m \<and> snd p < m \<and> fst q < m \<and> snd q < m"
  using assms(1,3-)
proof (induction sbs arbitrary: x y)
  case (Cons sb rest)
  obtain s t b where sb: "sb = ((s, t), b)" by (metis prod.exhaust)
  let ?p = "if b then (s, x) else (x, s)" and ?q = "if b then (t, y) else (y, t)"
  show ?case
  proof (cases "?p \<noteq> ?q \<and> H (fst ?p) (snd ?p) = H (fst ?q) (snd ?q)")
    case True
    then show ?thesis
      using Cons.prems by (auto simp: sb Let_def split: if_splits)
  next
    case False
    then have "path_collision H (H (fst ?p) (snd ?p)) (H (fst ?q) (snd ?q)) rest = Some (p, q)"
      using Cons.prems(1) by (simp add: sb Let_def split: if_splits)
    then show ?thesis
      using Cons.prems(4) assms(2) by (intro Cons.IH) auto
  qed
qed simp

section \<open>Paths of a tree are unique up to collisions\<close>

lemma smt_root_less:
  assumes "\<And>a b. H a b < m" and "\<And>q. f q < m"
  shows "smt_root H f p d < m"
  using assms by (induction H f p d rule: smt_root.induct) simp_all

lemma sibling_roots_less:
  assumes "\<And>a b. H a b < m" and "\<And>q. f q < m"
  shows "\<forall>s \<in> set (sibling_roots H f p bs). s < m"
  by (induction bs arbitrary: p) (simp_all add: smt_root_less assms)

lemma slot_member: "slot d es q = e \<Longrightarrow> e \<noteq> NULL_HASH \<Longrightarrow> e \<in> set es"
  by (auto simp: slot_def find_Some_iff split: option.splits)

lemma slot_less: "\<forall>e \<in> set es. e < MODULUS \<Longrightarrow> slot d es q < MODULUS"
  using slot_member [of d es q] by (cases "slot d es q = NULL_HASH") (auto simp: NULL_HASH_def MODULUS_def)

definition slot_collision ::
    "(element \<Rightarrow> element \<Rightarrow> element) \<Rightarrow> nat \<Rightarrow> ('v, 'c) smirk_tree \<Rightarrow> element \<Rightarrow> element \<Rightarrow> element list \<Rightarrow>
     ((element \<times> element) \<times> (element \<times> element)) option" where
  "slot_collision H d t c x path =
     (case path_for d H t c of
        Ok p \<Rightarrow> path_collision H x (slot d (tree_elements t) (lsb c (d - 1)))
                  (zip (zip path (siblings p)) (least_significant_bits c (d - 1)))
      | _ \<Rightarrow> None)"

lemma slot_collision_Some:
  assumes inv: "tree_inv H cinv d t" and H: "\<And>a b. H a b < MODULUS"
    and el: "\<forall>e \<in> set (tree_elements t). e < MODULUS" and path: "\<forall>s \<in> set path. s < MODULUS" and "x < MODULUS"
    and col: "slot_collision H d t c x path = Some (p, q)"
  shows "p \<noteq> q \<and> H (fst p) (snd p) = H (fst q) (snd q) \<and>
     fst p < MODULUS \<and> snd p < MODULUS \<and> fst q < MODULUS \<and> snd q < MODULUS"
proof -
  let ?f = "slot d (tree_elements t)"
  obtain w where w: "path_for d H t c = Ok w" "siblings w = rev (sibling_roots H ?f [] (lsb c (d - 1)))"
    using path_for_ok [OF inv, of c] by auto
  have "\<forall>s \<in> set (siblings w). s < MODULUS"
    using sibling_roots_less [of H MODULUS ?f] H slot_less [OF el] by (simp add: w(2))
  then have "\<forall>((s, u), b) \<in> set (zip (zip path (siblings w)) bs). s < MODULUS \<and> u < MODULUS" for bs :: "bool list"
    using path by (force simp: set_zip)
  then show ?thesis
    using path_collision_Some [OF col [unfolded slot_collision_def w(1), simplified] H \<open>x < MODULUS\<close> slot_less [OF el]]
    by blast
qed

lemma slot_collision_None:
  assumes inv: "tree_inv H cinv d t" and r: "root_hash H t = Ok r" and len: "length path = d - 1"
    and root: "compute_merkle_root H x c path = r" and col: "slot_collision H d t c x path = None"
  shows "x = slot d (tree_elements t) (lsb c (d - 1)) \<and>
     (\<exists>p. path_for d H t c = Ok p \<and> siblings p = path \<and> path_element p = c)"
proof -
  let ?f = "slot d (tree_elements t)"
  obtain p where p: "path_for d H t c = Ok p" "path_element p = c" "length (siblings p) = d - 1"
    using path_for_props [OF inv, of c] by blast
  have d: "d - 1 \<le> 256"
    using inv by (auto simp: tree_inv_def valid_depth_def)
  have "compute_root_hash H p (?f (lsb c (d - 1))) = r"
    using compute_root_hash_spec [OF inv p(1)] root_hash_spec [OF inv] r by simp
  then have "compute_merkle_root_from_iter H x (zip path (least_significant_bits c (d - 1))) =
      compute_merkle_root_from_iter H (?f (lsb c (d - 1))) (zip (siblings p) (least_significant_bits c (d - 1)))"
    using root by (simp add: compute_root_hash_def compute_merkle_root_def p len)
  then have "x = ?f (lsb c (d - 1)) \<and> path = siblings p"
    using col d by (intro path_collision_None [where bs = "least_significant_bits c (d - 1)"])
      (simp_all add: slot_collision_def p len least_significant_bits_def)
  then show ?thesis using p by blast
qed

section \<open>Removals and insertions along paths\<close>

lemma tree_elements_get: "set (tree_elements t) = dom (tree_get t)"
  by (simp add: tree_elements_def tree_get_def [abs_def] bt_keys_dom)

lemma remove_path_links:
  assumes inv: "tree_inv H (simple_inv H) d t" and e: "e \<in> set (tree_elements t)"
    and p: "path_for d H t e = Ok p"
  shows "\<exists>t'. tree_remove tn d H (simple_hash H) t e = Ok t' \<and> tree_inv H (simple_inv H) d t' \<and>
     set (tree_elements t') = set (tree_elements t) - {e} \<and> root_hash H t' = Ok (compute_root_hash H p NULL_HASH)"
proof -
  obtain t' where t': "tree_remove tn d H (simple_hash H) t e = Ok t'" "tree_inv H (simple_inv H) d t'"
    "tree_get t' = (tree_get t)(e := None)"
    using simple.tree_remove_ok [OF inv e] by blast
  have el: "set (tree_elements t') = set (tree_elements t) - {e}"
    by (auto simp: tree_elements_get t'(3))
  then have ins: "set (tree_elements t) = insert e (set (tree_elements t'))"
    using e by blast
  have "\<forall>e' \<in> set (tree_elements t'). \<not> collides_with d e' e"
    using tree_inv_slots [OF inv] e el by (auto simp: slots_distinct_def collides_with_def inj_on_def)
  from slot_insert [OF t'(2) inv ins this]
  have "smt_root H (slot d (tree_elements t')) [] d = compute_root_hash H p NULL_HASH"
    using compute_root_hash_spec [OF inv p] by simp
  then show ?thesis
    using t' el root_hash_spec [OF t'(2)] by simp
qed

lemma insert_path_root:
  assumes inv: "tree_inv H (simple_inv H) d t" and "e \<noteq> NULL_HASH"
    and free: "\<forall>e' \<in> set (tree_elements t). \<not> collides_with d e' e" and p: "path_for d H t e = Ok p"
  shows "\<exists>t'. tree_insert tn d H (simple_hash H) t e v = Ok t' \<and> tree_inv H (simple_inv H) d t' \<and>
     set (tree_elements t') = insert e (set (tree_elements t)) \<and> root_hash H t' = Ok (compute_root_hash H p e)"
proof -
  obtain t' where t': "tree_insert tn d H (simple_hash H) t e v = Ok t'" "tree_inv H (simple_inv H) d t'"
    "set (tree_elements t') = insert e (set (tree_elements t))"
    using insert_path_links [OF assms(1-3), of tn v] by blast
  have "slot d (tree_elements t') = (slot d (tree_elements t))(lsb e (d - 1) := e)"
    using slot_insert [OF inv t'(2,3) free] tree_slot [OF t'(2), of e] t'(3) by auto
  then show ?thesis
    using t' compute_root_hash_spec [OF inv p, of e] root_hash_spec [OF t'(2)] by auto
qed

end
