(* ===== verification/Circuits_Theorems.thy ===== *)
theory Circuits_Theorems
  imports Circuits_Tree
begin

text \<open>
  Soundness of the aggregate circuit as a reduction: from a satisfied circuit and a tree with its
  old root, \<open>replay_step\<close> computes the tree after each leaf, or a collision of the hash.
\<close>

section \<open>The leaves of an aggregate\<close>

text \<open>A step is a flag (insertion or removal), a commitment and the Merkle path given for it.\<close>

type_synonym leaf_step = "bool \<times> field \<times> field list"

definition round_steps :: "agg_utxo_proof_input \<Rightarrow> leaf_step list" where
  "round_steps p =
     (if ap_utxo_kind p = 0 then []
      else [(False, fst (ap_input_commitments p), fst (ap_input_merkle_paths p)),
            (False, snd (ap_input_commitments p), snd (ap_input_merkle_paths p)),
            (True, fst (ap_output_commitments p), fst (ap_output_merkle_paths p)),
            (True, snd (ap_output_commitments p), snd (ap_output_merkle_paths p))])"

definition agg_steps :: "agg_utxo_input \<Rightarrow> leaf_step list" where
  "agg_steps a = (case ai_proofs a of (p0, p1, p2) \<Rightarrow> round_steps p0 @ round_steps p1 @ round_steps p2)"

definition circuit_step :: "(field list \<Rightarrow> field) \<Rightarrow> field \<Rightarrow> leaf_step \<Rightarrow> field checked" where
  "circuit_step P root st = (case st of (adds, cp) \<Rightarrow> if adds then add_output P root cp else spend_input P root cp)"

definition replay_step ::
    "(field list \<Rightarrow> field) \<Rightarrow> nat \<Rightarrow> 'v \<Rightarrow> ('v, simple_hash_cache) smirk_tree \<Rightarrow> leaf_step \<Rightarrow>
     (('v, simple_hash_cache) smirk_tree, (element \<times> element) \<times> (element \<times> element)) outcome" where
  "replay_step P d v t st = (case st of (adds, c, path) \<Rightarrow>
     if c = 0 then Ok t
     else case slot_collision (hash2 P) d t (from_base c) (if adds then NULL_HASH else from_base c) (map from_base path) of
       Some pq \<Rightarrow> Err pq
     | None \<Rightarrow> unwrap (if adds then tree_insert False d (hash2 P) (simple_hash (hash2 P)) t (from_base c) v
                       else tree_remove False d (hash2 P) (simple_hash (hash2 P)) t (from_base c)))"

definition step_elements :: "element set \<Rightarrow> leaf_step \<Rightarrow> element set" where
  "step_elements S st = (case st of (adds, c, path) \<Rightarrow>
     if c = 0 then S else if adds then insert (from_base c) S else S - {from_base c})"

fun steps_valid :: "element set \<Rightarrow> leaf_step list \<Rightarrow> bool" where
  "steps_valid S [] \<longleftrightarrow> True"
| "steps_valid S (st # sts) \<longleftrightarrow>
     (case st of (adds, c, path) \<Rightarrow> c = 0 \<or> (if adds then from_base c \<notin> S else from_base c \<in> S)) \<and>
     steps_valid (step_elements S st) sts"

definition hash_collision :: "(field list \<Rightarrow> field) \<Rightarrow> (element \<times> element) \<times> (element \<times> element) \<Rightarrow> bool" where
  "hash_collision P pq \<longleftrightarrow> (case pq of ((a, b), (c, d)) \<Rightarrow>
     (to_base a, to_base b) \<noteq> (to_base c, to_base d) \<and> P [to_base a, to_base b] = P [to_base c, to_base d])"

definition step_ok :: "nat \<Rightarrow> leaf_step \<Rightarrow> bool" where
  "step_ok d st \<longleftrightarrow> (case st of (adds, c, path) \<Rightarrow>
     is_field c \<and> length path = d - 1 \<and> (\<forall>s \<in> set path. is_field s))"

definition root_tree :: "(field list \<Rightarrow> field) \<Rightarrow> nat \<Rightarrow> ('v, simple_hash_cache) smirk_tree \<Rightarrow> field \<Rightarrow> bool" where
  "root_tree P d t r \<longleftrightarrow> tree_inv (hash2 P) (simple_inv (hash2 P)) d t \<and>
     (\<forall>e \<in> set (tree_elements t). e < MODULUS) \<and> is_field r \<and> root_hash (hash2 P) t = Ok (from_base r)"

section \<open>One step\<close>

lemma collision_genuine:
  assumes "poseidon_ok P" and "root_tree P d t r" and "is_field c" "is_field x" "\<forall>s \<in> set path. is_field s"
    and "slot_collision (hash2 P) d t (from_base c) (from_base x) (map from_base path) = Some pq"
  shows "hash_collision P pq"
proof -
  obtain a b e f where pq: "pq = ((a, b), (e, f))" by (metis prod.exhaust)
  have c: "(a, b) \<noteq> (e, f)" "hash2 P a b = hash2 P e f" "a < MODULUS" "b < MODULUS" "e < MODULUS" "f < MODULUS"
    using slot_collision_Some [of "hash2 P" _ d t "map from_base path" "from_base x" "from_base c" "(a, b)" "(e, f)"]
      assms hash2_less [OF assms(1)] by (auto simp: root_tree_def pq)
  have "to_base (from_base (P xs)) = P xs" for xs
    using assms(1) by (simp add: poseidon_ok_def)
  then have "P [to_base a, to_base b] = P [to_base e, to_base f]"
    using c(2) by (metis hash2_def hash_merge_def list.map)
  then show ?thesis
    using c by (auto simp: hash_collision_def pq dest: from_to_base) (metis from_to_base)+
qed

lemma step_cases:
  assumes "poseidon_ok P" and "root_tree P d t r" and "step_ok d (adds, c, path)" and "d \<le> 255" and "c \<noteq> 0"
    and "circuit_step P r (adds, c, path) = Ok r'"
  defines "x \<equiv> if adds then 0 else c" and "y \<equiv> if adds then c else 0"
  shows "compute_merkle_root (hash2 P) (from_base x) (from_base c) (map from_base path) = from_base r \<and>
     compute_merkle_root (hash2 P) (from_base y) (from_base c) (map from_base path) = from_base r' \<and> is_field r'"
proof -
  have s: "is_field c" "length path \<le> 254" "\<forall>s \<in> set path. is_field s"
    using assms(3,4) by (auto simp: step_ok_def)
  have r: "get_merkle_root P x (to_le_bits c) path = r" "get_merkle_root P y (to_le_bits c) path = r'"
    using assms(5,6) by (auto simp: circuit_step_def add_output_def spend_input_def validate_null_def validate_inclusion_def
        get_null_root_def bind_o_Ok_iff x_def y_def split: if_splits)
  have "is_field x" "is_field y" using s by (simp_all add: x_def y_def)
  then show ?thesis
    using get_merkle_root_element [OF assms(1) _ s(1,3,2)] merkle_root_loop_field [OF assms(1)] r
    by (metis get_merkle_root_def)
qed

lemma replay_step_sound:
  assumes P: "poseidon_ok P" and t: "root_tree P d t r" and st: "step_ok d st" and "d \<le> 255"
    and step: "circuit_step P r st = Ok r'"
  shows "(\<exists>pq. replay_step P d v t st = Err pq \<and> hash_collision P pq) \<or>
     (\<exists>t'. replay_step P d v t st = Ok t' \<and> root_tree P d t' r' \<and> steps_valid (set (tree_elements t)) [st] \<and>
       set (tree_elements t') = step_elements (set (tree_elements t)) st)"
proof -
  obtain adds c path where s: "st = (adds, c, path)" by (metis prod.exhaust)
  let ?H = "hash2 P" and ?c = "from_base c"
  have inv: "tree_inv ?H (simple_inv ?H) d t" and el: "\<forall>e \<in> set (tree_elements t). e < MODULUS"
    and r: "root_hash ?H t = Ok (from_base r)"
    using t by (simp_all add: root_tree_def)
  show ?thesis
  proof (cases "c = 0")
    case True
    then have "r' = r" using step by (auto simp: s circuit_step_def add_output_def spend_input_def split: if_splits)
    with True t show ?thesis by (simp add: s replay_step_def step_elements_def)
  next
    case c: False
    have f: "is_field c" "?c \<noteq> NULL_HASH" "length (map from_base path) = d - 1"
      using st c by (simp_all add: s step_ok_def from_base_eq_0_iff NULL_HASH_def)
    note roots = step_cases [OF P t st [unfolded s] assms(4) c step [unfolded s]]
    let ?x = "if adds then 0 else c"
    show ?thesis
    proof (cases "slot_collision ?H d t ?c (from_base ?x) (map from_base path)")
      case (Some pq)
      then have "hash_collision P pq"
        using collision_genuine [OF P t f(1), of ?x path] st by (auto simp: s step_ok_def split: if_splits)
      with Some c show ?thesis
        by (intro disjI1 exI [of _ pq]) (auto simp: s replay_step_def NULL_HASH_def split: if_splits)
    next
      case None
      obtain p where sl: "from_base ?x = slot d (tree_elements t) (lsb ?c (d - 1))"
        and p: "path_for d ?H t ?c = Ok p" "siblings p = map from_base path" "path_element p = ?c"
        using slot_collision_None [OF inv r f(3) _ None] roots by blast
      have root: "compute_root_hash ?H p y = compute_merkle_root ?H y ?c (map from_base path)" for y
        by (simp add: compute_root_hash_def p)
      show ?thesis
      proof (cases adds)
        case True
        have free: "\<forall>e' \<in> set (tree_elements t). \<not> collides_with d e' ?c"
          using sl tree_slot [OF inv] tree_inv_not_null [OF inv] True
          by (auto simp: collides_with_def NULL_HASH_def) metis
        then have new: "?c \<notin> set (tree_elements t)"
          by (auto simp: collides_with_def)
        show ?thesis
          using insert_path_root [OF inv f(2) free p(1), of False v] None roots True c new el from_base_less [OF f(1)]
          by (intro disjI2) (auto simp: s replay_step_def root_tree_def step_elements_def root NULL_HASH_def)
      next
        case False
        then have mem: "?c \<in> set (tree_elements t)"
          using slot_member [of d "tree_elements t" "lsb ?c (d - 1)" ?c] sl f(2) by simp
        show ?thesis
          using remove_path_links [OF inv mem p(1), of False] None roots False c mem el
          by (intro disjI2) (auto simp: s replay_step_def root_tree_def step_elements_def root NULL_HASH_def)
      qed
    qed
  qed
qed

section \<open>All steps\<close>

lemma steps_valid_append:
  "steps_valid S (xs @ ys) \<longleftrightarrow> steps_valid S xs \<and> steps_valid (foldl step_elements S xs) ys"
  by (induction xs arbitrary: S) auto

lemma replay_sound:
  assumes P: "poseidon_ok P" and d: "d \<le> 255"
  shows "root_tree P d t r \<Longrightarrow> \<forall>st \<in> set sts. step_ok d st \<Longrightarrow> fold_o (circuit_step P) r sts = Ok r' \<Longrightarrow>
    (\<exists>pq. fold_o (replay_step P d v) t sts = Err pq \<and> hash_collision P pq) \<or>
    (\<exists>t'. fold_o (replay_step P d v) t sts = Ok t' \<and> root_tree P d t' r' \<and> steps_valid (set (tree_elements t)) sts \<and>
      set (tree_elements t') = foldl step_elements (set (tree_elements t)) sts)"
proof (induction sts arbitrary: t r)
  case (Cons st sts)
  obtain r1 where r1: "circuit_step P r st = Ok r1" "fold_o (circuit_step P) r1 sts = Ok r'"
    using Cons.prems(3) by (auto simp: bind_o_Ok_iff)
  show ?case
  proof (cases "replay_step P d v t st")
    case (Ok t1)
    then have t1: "root_tree P d t1 r1" "steps_valid (set (tree_elements t)) [st]"
      "set (tree_elements t1) = step_elements (set (tree_elements t)) st"
      using replay_step_sound [OF P Cons.prems(1) _ d r1(1), of v] Cons.prems(2) by auto
    show ?thesis
      using Cons.IH [OF t1(1) _ r1(2)] Cons.prems(2) Ok t1(2,3) by auto
  next
    case (Err pq)
    then show ?thesis
      using replay_step_sound [OF P Cons.prems(1) _ d r1(1), of v] Cons.prems(2) by auto
  next
    case Panic
    then show ?thesis
      using replay_step_sound [OF P Cons.prems(1) _ d r1(1), of v] Cons.prems(2) by auto
  qed
qed simp

definition leaves_of :: "agg_utxo_proof_input \<Rightarrow> field list" where
  "leaves_of p = [fst (ap_input_commitments p), snd (ap_input_commitments p),
     fst (ap_output_commitments p), snd (ap_output_commitments p)]"

definition round_verified :: "circuit_env \<Rightarrow> field list \<Rightarrow> field \<Rightarrow> agg_utxo_proof_input \<Rightarrow> bool" where
  "round_verified E k h p \<longleftrightarrow> ap_utxo_kind p = 0 \<or>
     (\<exists>ms. length ms = 4 \<and> ce_verify_proof E k (ap_proof p) (leaves_of p @ [ap_utxo_kind p] @ ms) h)"

lemma circuit_messages_length: "circuit_messages ms k kd = Ok (ms', k') \<Longrightarrow> length ms' = 4"
  by (auto simp: circuit_messages_def bind_o_Ok_iff split: if_splits)

lemma agg_utxo_round_Ok:
  assumes "agg_utxo_round E k h ms s (i, p) = Ok s'"
  shows "fold_o (circuit_step (ce_poseidon E)) (as_root s) (round_steps p) = Ok (as_root s') \<and> round_verified E k h p"
proof -
  obtain m j where m: "circuit_messages ms (as_messages_index s) (ap_utxo_kind p) = Ok (m, j)"
    using assms by (auto simp: agg_utxo_round_def Let_def bind_o_Ok_iff)
  show ?thesis
  proof (cases "ap_utxo_kind p = 0")
    case True
    then show ?thesis
      using assms by (cases "as_first s")
        (auto simp: agg_utxo_round_def Let_def bind_o_Ok_iff round_steps_def round_verified_def split: if_splits)
  next
    case False
    have "ce_verify_proof E k (ap_proof p) (leaves_of p @ [ap_utxo_kind p] @ m) h"
      using assms False by (auto simp: agg_utxo_round_def Let_def bind_o_Ok_iff m leaves_of_def)
    moreover have "fold_o (circuit_step (ce_poseidon E)) (as_root s) (round_steps p) = Ok (as_root s')"
      using assms False by (auto simp: agg_utxo_round_def Let_def bind_o_Ok_iff m round_steps_def circuit_step_def)
    ultimately show ?thesis
      using circuit_messages_length [OF m] by (auto simp: round_verified_def)
  qed
qed

lemma agg_utxo_main_Ok:
  assumes "agg_utxo_main E k h a = Ok ()"
  shows "h = UTXO_VERIFICATION_KEY_HASH \<and> fold_o (circuit_step (ce_poseidon E)) (ai_old_root a) (agg_steps a) = Ok (ai_new_root a) \<and>
     (case ai_proofs a of (p0, p1, p2) \<Rightarrow> round_verified E k h p0 \<and> round_verified E k h p1 \<and> round_verified E k h p2)"
proof -
  obtain p0 p1 p2 where p: "ai_proofs a = (p0, p1, p2)" by (metis prod.exhaust)
  let ?s0 = "\<lparr>as_root = ai_old_root a, as_utxo_hashes = [], as_messages_index = 0, as_first = ([], [])\<rparr>"
  obtain s1 s2 s3 where s: "h = UTXO_VERIFICATION_KEY_HASH"
    "agg_utxo_round E k h (ai_messages a) ?s0 (0, p0) = Ok s1"
    "agg_utxo_round E k h (ai_messages a) s1 (Suc 0, p1) = Ok s2"
    "agg_utxo_round E k h (ai_messages a) s2 (Suc (Suc 0), p2) = Ok s3" "as_root s3 = ai_new_root a"
    using assms by (auto simp: agg_utxo_main_def p bind_o_Ok_iff)
  show ?thesis
    using s(1,5) s(2-4) [THEN agg_utxo_round_Ok] by (simp add: p agg_steps_def fold_o_append)
qed

text \<open>
  Soundness of the aggregate circuit. Let a tree of depth 161 have the old root of a satisfied
  circuit. Replaying the leaves of the circuit on the tree never fails: either it ends with a tree
  that has the new root, in which every spent commitment was present when it was removed, every new
  commitment was absent when it was inserted, and nothing else changed; or it computes two different
  pairs of field elements with the same Poseidon hash. Every transaction that is not padding carries a
  proof that the recursive verifier accepted for its commitments and its kind.
\<close>

lemma agg_utxo_circuit_sound:
  assumes "agg_utxo_main E k h a = Ok ()" and "poseidon_ok (ce_poseidon E)"
    and "root_tree (ce_poseidon E) 161 t (ai_old_root a)" and "\<forall>st \<in> set (agg_steps a). step_ok 161 st"
  shows "(case fold_o (replay_step (ce_poseidon E) 161 v) t (agg_steps a) of
       Ok t' \<Rightarrow> root_hash (hash2 (ce_poseidon E)) t' = Ok (from_base (ai_new_root a)) \<and>
         steps_valid (set (tree_elements t)) (agg_steps a) \<and>
         set (tree_elements t') = foldl step_elements (set (tree_elements t)) (agg_steps a)
     | Err pq \<Rightarrow> hash_collision (ce_poseidon E) pq
     | Panic \<Rightarrow> False) \<and>
     (case ai_proofs a of (p0, p1, p2) \<Rightarrow> \<forall>p \<in> {p0, p1, p2}. round_verified E k h p)"
  using agg_utxo_main_Ok [OF assms(1)] replay_sound [OF assms(2) _ assms(3,4), of "ai_new_root a" v]
  by (auto simp: root_tree_def split: prod.splits)

section \<open>The whole rollup proof\<close>

definition utxo_public :: "utxo_input \<Rightarrow> field list" where
  "utxo_public i = (case (ui_commitments i, ui_messages i) of
     ((c0, c1, c2, c3), (m0, m1, m2, m3, m4)) \<Rightarrow> [c0, c1, c2, c3, m0, m1, m2, m3, m4])"

definition agg_public :: "agg_utxo_input \<Rightarrow> field list" where
  "agg_public a = ai_messages a @ [ai_old_root a, ai_new_root a, ai_commit_hash a]"

definition agg_fields_ok :: "agg_utxo_input \<Rightarrow> bool" where
  "agg_fields_ok a \<longleftrightarrow> is_field (ai_new_root a) \<and> (\<forall>st \<in> set (agg_steps a). step_ok 161 st)"

text \<open>
  What the recursive verifier promises, whatever key it is given: it only accepts the hash of that
  key, and a proof accepted for the key of a compiled circuit has private inputs that satisfy this
  circuit with the given public inputs. Of other keys nothing is assumed. \<open>keys_match\<close>: the constants
  in the circuits are the hashes of the two keys.
\<close>

definition verifier_sound :: "circuit_env \<Rightarrow> bool" where
  "verifier_sound E \<longleftrightarrow>
     (\<forall>k pr pi h. ce_verify_proof E k pr pi h \<longrightarrow> ce_vk_hash E k = h) \<and>
     (\<forall>pr pi h. ce_verify_proof E (ce_utxo_key E) pr pi h \<longrightarrow>
        (\<exists>i. utxo_main (ce_poseidon E) i = Ok () \<and> utxo_public i = pi)) \<and>
     (\<forall>pr pi h. ce_verify_proof E (ce_agg_utxo_key E) pr pi h \<longrightarrow>
        (\<exists>k' h' a. agg_utxo_main E k' h' a = Ok () \<and> agg_public a = pi \<and> agg_fields_ok a))"

definition keys_match :: "circuit_env \<Rightarrow> bool" where
  "keys_match E \<longleftrightarrow> ce_vk_hash E (ce_utxo_key E) = UTXO_VERIFICATION_KEY_HASH \<and>
     ce_vk_hash E (ce_agg_utxo_key E) = AGG_UTXO_VERIFICATION_KEY_HASH"

definition key_collision :: "circuit_env \<Rightarrow> field list \<Rightarrow> field list \<Rightarrow> bool" where
  "key_collision E k k' \<longleftrightarrow> k \<noteq> k' \<and> ce_vk_hash E k = ce_vk_hash E k'"

definition rounds_of :: "agg_utxo_input \<Rightarrow> agg_utxo_proof_input list" where
  "rounds_of a = (case ai_proofs a of (p0, p1, p2) \<Rightarrow> [p0, p1, p2])"

definition proved_round :: "circuit_env \<Rightarrow> agg_utxo_proof_input \<Rightarrow> bool" where
  "proved_round E p \<longleftrightarrow> ap_utxo_kind p = 0 \<or>
     (\<exists>i. utxo_main (ce_poseidon E) i = Ok () \<and> take 5 (utxo_public i) = leaves_of p @ [ap_utxo_kind p])"

text \<open>
  An aggregate with inputs that satisfy its circuit for some key. Every transaction in it is proved,
  unless that key is another one with the hash of the transaction circuit's key.
\<close>

definition agg_accepted :: "circuit_env \<Rightarrow> agg_utxo_input \<Rightarrow> bool" where
  "agg_accepted E a \<longleftrightarrow> (\<exists>k h. agg_utxo_main E k h a = Ok () \<and>
     (key_collision E k (ce_utxo_key E) \<or> (\<forall>p \<in> set (rounds_of a). proved_round E p)))"

lemma agg_proved_rounds:
  assumes "agg_utxo_main E k h a = Ok ()" and "verifier_sound E" and "keys_match E"
  shows "key_collision E k (ce_utxo_key E) \<or> (\<forall>p \<in> set (rounds_of a). proved_round E p)"
proof (cases "\<exists>p \<in> set (rounds_of a). ap_utxo_kind p \<noteq> 0")
  case True
  have v: "round_verified E k h p" if "p \<in> set (rounds_of a)" for p
    using agg_utxo_main_Ok [OF assms(1)] that by (auto simp: rounds_of_def split: prod.splits)
  with True obtain pr pi where "ce_verify_proof E k pr pi h" unfolding round_verified_def by blast
  then have hash: "ce_vk_hash E k = ce_vk_hash E (ce_utxo_key E)"
    using agg_utxo_main_Ok [OF assms(1)] assms(2,3) by (auto simp: verifier_sound_def keys_match_def)
  have "proved_round E p" if mem: "p \<in> set (rounds_of a)" and k: "k = ce_utxo_key E" for p
  proof (cases "ap_utxo_kind p = 0")
    case False
    then obtain ms where "ce_verify_proof E (ce_utxo_key E) (ap_proof p) (leaves_of p @ [ap_utxo_kind p] @ ms) h"
      using v [OF mem] k by (auto simp: round_verified_def)
    then obtain i where "utxo_main (ce_poseidon E) i = Ok ()" "utxo_public i = leaves_of p @ [ap_utxo_kind p] @ ms"
      using assms(2) unfolding verifier_sound_def by metis
    then show ?thesis by (auto simp: proved_round_def leaves_of_def)
  qed (simp add: proved_round_def)
  then show ?thesis using hash by (auto simp: key_collision_def)
qed (simp add: proved_round_def)

fun agg_chain :: "field \<Rightarrow> agg_utxo_input list \<Rightarrow> field \<Rightarrow> bool" where
  "agg_chain r [] r' \<longleftrightarrow> r = r'"
| "agg_chain r (a # as) r' \<longleftrightarrow> ai_old_root a = r \<and> agg_chain (ai_new_root a) as r'"

lemma agg_chain_append: "agg_chain r (xs @ ys) r' \<longleftrightarrow> (\<exists>m. agg_chain r xs m \<and> agg_chain m ys r')"
  by (induction xs arbitrary: r) auto

lemma agg_agg_round_Ok:
  assumes "agg_agg_round E (ce_agg_utxo_key E) h g root (i, p) = Ok root'" and "verifier_sound E" and "keys_match E"
  shows "\<exists>as. length as \<le> 1 \<and> agg_chain root as root' \<and> (\<forall>a \<in> set as. agg_accepted E a \<and> agg_fields_ok a)"
proof (cases "ua_old_root p = 0")
  case True
  then show ?thesis
    using assms(1) by (intro exI [of _ "[]"]) (auto simp: agg_agg_round_def bind_o_Ok_iff split: prod.splits)
next
  case False
  then have v: "ce_verify_proof E (ce_agg_utxo_key E) (ua_proof p) (agg_agg_public (gi_messages g) i p) h"
    and r: "ua_old_root p = root" "root' = ua_new_root p"
    using assms(1) by (auto simp: agg_agg_round_def bind_o_Ok_iff split: prod.splits)
  then obtain k' h' a where a: "agg_utxo_main E k' h' a = Ok ()" "agg_fields_ok a"
    "rev (agg_public a) = rev (agg_agg_public (gi_messages g) i p)"
    using assms(2) by (metis verifier_sound_def)
  then have "ai_old_root a = root" "ai_new_root a = root'"
    using r by (simp_all add: agg_public_def agg_agg_public_def)
  moreover have "agg_accepted E a"
    using a(1) agg_proved_rounds [OF a(1) assms(2,3)] by (auto simp: agg_accepted_def)
  ultimately show ?thesis using a(2) by (intro exI [of _ "[a]"]) simp
qed

text \<open>The first round always verifies a proof, so the key has the hash the circuit states.\<close>

lemma agg_agg_key:
  assumes "agg_agg_main E k h g = Ok ()" and "verifier_sound E" and "keys_match E"
  shows "ce_vk_hash E k = ce_vk_hash E (ce_agg_utxo_key E)"
proof -
  obtain p0 p1 where p: "gi_proofs g = (p0, p1)" by (metis prod.exhaust)
  obtain r where "agg_agg_round E k h g (gi_old_root g) (0, p0) = Ok r" and h: "h = AGG_UTXO_VERIFICATION_KEY_HASH"
    using assms(1) by (auto simp: agg_agg_main_def p bind_o_Ok_iff)
  then have "\<exists>pr pi. ce_verify_proof E k pr pi h"
    by (auto simp: agg_agg_round_def bind_o_Ok_iff split: prod.splits if_splits)
  then show ?thesis using assms(2,3) h by (auto simp: verifier_sound_def keys_match_def)
qed

lemma agg_agg_main_Ok:
  assumes "agg_agg_main E (ce_agg_utxo_key E) h g = Ok ()" and "verifier_sound E" and "keys_match E"
  shows "\<exists>as. length as \<le> 2 \<and> agg_chain (gi_old_root g) as (gi_new_root g) \<and>
     (\<forall>a \<in> set as. agg_accepted E a \<and> agg_fields_ok a)"
proof -
  obtain p0 p1 where p: "gi_proofs g = (p0, p1)" by (metis prod.exhaust)
  obtain r where r: "agg_agg_round E (ce_agg_utxo_key E) h g (gi_old_root g) (0, p0) = Ok r"
    "agg_agg_round E (ce_agg_utxo_key E) h g r (Suc 0, p1) = Ok (gi_new_root g)"
    using assms(1) by (auto simp: agg_agg_main_def p bind_o_Ok_iff)
  obtain xs ys where x: "length xs \<le> 1" "agg_chain (gi_old_root g) xs r"
      "\<forall>a \<in> set xs. agg_accepted E a \<and> agg_fields_ok a"
    and y: "length ys \<le> 1" "agg_chain r ys (gi_new_root g)"
      "\<forall>a \<in> set ys. agg_accepted E a \<and> agg_fields_ok a"
    using agg_agg_round_Ok [OF r(1) assms(2,3)] agg_agg_round_Ok [OF r(2) assms(2,3)] by blast
  then show ?thesis by (intro exI [of _ "xs @ ys"]) (auto simp: agg_chain_append)
qed

lemma chain_steps:
  assumes "agg_chain r as r'" and "\<forall>a \<in> set as. agg_accepted E a"
  shows "fold_o (circuit_step (ce_poseidon E)) r (concat (map agg_steps as)) = Ok r'"
  using assms
proof (induction as arbitrary: r)
  case (Cons a as)
  then obtain k h where "agg_utxo_main E k h a = Ok ()" by (auto simp: agg_accepted_def)
  from agg_utxo_main_Ok [OF this] Cons show ?case by (auto simp: fold_o_append)
qed simp

text \<open>
  C5. Soundness of a rollup proof. The verification key and its hash are inputs of whoever proves, in
  the outer circuit and in each aggregate. Assume that the recursive verifier accepts only the hash of
  the key it is given, and for the keys of the two compiled circuits only proofs that have a witness.
  If the outer circuit is satisfied, with any key, and a tree has its old root, then that key is the
  aggregate circuit's or a different key with the same hash; in the first case there are at most two
  aggregates, chained from the old root to the new one, whose leaves can be replayed on the tree:
  the replay ends with a tree that has the new root, after removing only commitments that were
  present and inserting only commitments that were absent, or it computes a collision of the Poseidon
  hash. Every transaction in them satisfies the transaction circuit for the commitments it moves,
  unless the aggregate was satisfied with a different key of the same hash.
\<close>

theorem rollup_proof_sound:
  assumes "agg_agg_main E k h g = Ok ()" and "verifier_sound E" and "keys_match E" and "poseidon_ok (ce_poseidon E)"
    and "root_tree (ce_poseidon E) 161 t (gi_old_root g)"
  shows "key_collision E k (ce_agg_utxo_key E) \<or> k = ce_agg_utxo_key E \<and>
     (\<exists>as. length as \<le> 2 \<and> agg_chain (gi_old_root g) as (gi_new_root g) \<and>
     (\<forall>a \<in> set as. agg_accepted E a) \<and>
     (case fold_o (replay_step (ce_poseidon E) 161 v) t (concat (map agg_steps as)) of
        Ok t' \<Rightarrow> root_hash (hash2 (ce_poseidon E)) t' = Ok (from_base (gi_new_root g)) \<and>
          steps_valid (set (tree_elements t)) (concat (map agg_steps as)) \<and>
          set (tree_elements t') = foldl step_elements (set (tree_elements t)) (concat (map agg_steps as))
      | Err pq \<Rightarrow> hash_collision (ce_poseidon E) pq
      | Panic \<Rightarrow> False))"
proof (cases "k = ce_agg_utxo_key E")
  case False
  then show ?thesis using agg_agg_key [OF assms(1-3)] by (simp add: key_collision_def)
next
  case True
  obtain as where as: "length as \<le> 2" "agg_chain (gi_old_root g) as (gi_new_root g)"
    "\<forall>a \<in> set as. agg_accepted E a \<and> agg_fields_ok a"
    using agg_agg_main_Ok [OF assms(1) [unfolded True] assms(2,3)] by blast
  have "\<forall>st \<in> set (concat (map agg_steps as)). step_ok 161 st"
    using as(3) by (auto simp: agg_fields_ok_def)
  note replay = replay_sound [OF assms(4) _ assms(5) this chain_steps [OF as(2)], of v]
  show ?thesis
    using as True replay
    by (intro disjI2 conjI exI [of _ as]) (auto simp: root_tree_def split: outcome.splits)
qed

end
