(* ===== verification/Eth_Client.thy ===== *)
theory Eth_Client
  imports Element
begin

text \<open>
  The Ethereum client (\<open>contracts/src/client.rs\<close>, \<open>fees.rs\<close>), the generic retries
  (\<open>primitives/src/retry.rs\<close>) and the wait for a rollup transaction (\<open>Prover::rollup\<close> of
  \<open>prover/src/lib.rs\<close>). The n-th answer of the remote node is \<open>f n\<close>; time is in milliseconds and is
  part of the answers. A loop that may wait for ever is a partial function.
\<close>

section \<open>Errors\<close>

text \<open>The errors of the \<open>web3\<close> crate, as far as the code tells them apart.\<close>

datatype web3_error = Web3Transport | Web3Rpc string | Web3InvalidResponse | Web3Other

datatype web3_contract_error = Web3Api web3_error | InvalidOutputType string | Web3ContractOther

datatype contracts_error =
    UnknownTransaction element
  | CeWeb3 web3_error
  | CeWeb3Contract web3_contract_error
  | CeWeb3Ethabi
  | CeSerdeJson
  | CeFromHex
  | CeTokioJoin
  | CeInvalidAddress string

fun web3_network_failure :: "web3_error \<Rightarrow> bool" where
  "web3_network_failure Web3Transport = True"
| "web3_network_failure _ = False"

fun contract_network_failure :: "web3_contract_error \<Rightarrow> bool" where
  "contract_network_failure (Web3Api e) = web3_network_failure e"
| "contract_network_failure _ = False"

section \<open>Retries\<close>

definition DELAYS :: "nat list" where
  "DELAYS = [1000, 5000, 10000]"

text \<open>The result and the time slept; the loop over the delays falls through only when there are none.\<close>

fun retry_loop :: "('e \<Rightarrow> bool) \<Rightarrow> (nat \<Rightarrow> ('a, 'e) outcome) \<Rightarrow> nat \<Rightarrow> nat list \<Rightarrow> ('a, 'e) outcome \<times> nat" where
  "retry_loop nf f i [] = (Panic, 0)"
| "retry_loop nf f i (delay # rest) =
     (case f i of
        Err e \<Rightarrow> if nf e then if i = length DELAYS then (Err e, 0)
                            else (case retry_loop nf f (Suc i) rest of (r, t) \<Rightarrow> (r, delay + t))
                else (Err e, 0)
      | r \<Rightarrow> (r, 0))"

definition retry_on_network_failure :: "('e \<Rightarrow> bool) \<Rightarrow> (nat \<Rightarrow> ('a, 'e) outcome) \<Rightarrow> ('a, 'e) outcome \<times> nat" where
  "retry_on_network_failure nf f = retry_loop nf f 0 (DELAYS @ [0])"

text \<open>\<open>Retry::exec\<close>, with the errors handed to the error handler, and \<open>exec_forever\<close>.\<close>

fun exec_loop :: "(nat \<Rightarrow> ('a, 'e) outcome) \<Rightarrow> nat \<Rightarrow> nat \<Rightarrow> 'e option \<Rightarrow> ('a, 'e) outcome \<times> 'e list" where
  "exec_loop f i 0 last_error = (case last_error of Some e \<Rightarrow> (Err e, []) | None \<Rightarrow> (Panic, []))"
| "exec_loop f i (Suc n) last_error =
     (case f i of
        Ok v \<Rightarrow> (Ok v, [])
      | Err e \<Rightarrow> (case exec_loop f (Suc i) n (Some e) of (r, es) \<Rightarrow> (r, e # es))
      | Panic \<Rightarrow> (Panic, []))"

definition retry_exec :: "(nat \<Rightarrow> ('a, 'e) outcome) \<Rightarrow> nat \<Rightarrow> ('a, 'e) outcome \<times> 'e list" where
  "retry_exec f attempts = exec_loop f 0 attempts None"

partial_function (option) exec_forever :: "(nat \<Rightarrow> ('a, 'e) outcome) \<Rightarrow> nat \<Rightarrow> ('a, 'e) outcome option" where
  "exec_forever f i = (case f i of Ok v \<Rightarrow> Some (Ok v) | Err _ \<Rightarrow> exec_forever f (Suc i) | Panic \<Rightarrow> Some Panic)"

section \<open>Fees\<close>

type_synonym u256 = "256 word"

record eip1559_fees =
  fe_base_fee :: u256
  fe_priority_fee :: u256
  fe_max_fee :: u256

datatype fee_strategy = Lowest | SlowFee | Standard | FastFee

text \<open>\<open>percentile\<close> selects what the remote node reports; the numbers are whole percents.\<close>

fun percentile :: "fee_strategy \<Rightarrow> nat" where
  "percentile Lowest = 1"
| "percentile SlowFee = 25"
| "percentile Standard = 50"
| "percentile FastFee = 90"

fun base_fee_buffer_percent :: "fee_strategy \<Rightarrow> u64" where
  "base_fee_buffer_percent Lowest = 101"
| "base_fee_buffer_percent SlowFee = 110"
| "base_fee_buffer_percent Standard = 125"
| "base_fee_buffer_percent FastFee = 150"

definition saturating_mul :: "u256 \<Rightarrow> u256 \<Rightarrow> u256" where
  "saturating_mul a b = (if unat a * unat b < 2 ^ 256 then a * b else - 1)"

definition saturating_add :: "u256 \<Rightarrow> u256 \<Rightarrow> u256" where
  "saturating_add a b = (if unat a + unat b < 2 ^ 256 then a + b else - 1)"

record fee_history =
  fh_base_fee_per_gas :: "u256 list"
  fh_reward :: "u256 list list option"

definition estimate_eip1559_fees ::
    "u256 option \<Rightarrow> fee_strategy \<Rightarrow> (fee_history, web3_error) outcome \<Rightarrow> (eip1559_fees, web3_error) outcome" where
  "estimate_eip1559_fees minimum_gas_price strategy answer =
     bind_o answer (\<lambda>fee_history.
     let fees = fh_base_fee_per_gas fee_history
     in if length fees < 2 then Err Web3InvalidResponse
        else let base_fee = max (fees ! (length fees - 2)) (fees ! (length fees - 1))
        in case fh_reward fee_history of
             None \<Rightarrow> Err Web3InvalidResponse
           | Some reward \<Rightarrow>
               if reward = [] \<or> last reward = [] then Err Web3InvalidResponse
               else let priority_fee = hd (last reward);
                        buffered_base_fee = saturating_mul base_fee (ucast (base_fee_buffer_percent strategy)) div 100;
                        max_fee = saturating_add buffered_base_fee priority_fee
                    in Ok \<lparr>fe_base_fee = base_fee, fe_priority_fee = priority_fee,
                            fe_max_fee = (case minimum_gas_price of
                              Some min_price \<Rightarrow> if max_fee < min_price then min_price else max_fee
                            | None \<Rightarrow> max_fee)\<rparr>)"

text \<open>The gas limit of a call: the estimate (of the state difference, when the chain has one) and a tenth.\<close>

definition gas_limit :: "(u256, web3_contract_error) outcome \<Rightarrow> (u256, web3_contract_error) outcome \<Rightarrow>
     (u256, web3_contract_error) outcome" where
  "gas_limit diff_size estimate =
     bind_o (case diff_size of
               Ok g \<Rightarrow> if g \<noteq> 0 then Ok g else estimate
             | Err _ \<Rightarrow> estimate
             | Panic \<Rightarrow> Panic) (\<lambda>gas. Ok (saturating_add gas (gas div 10)))"

section \<open>Waiting for a transaction\<close>

datatype confirmation_type = Latest | LatestPlus u64 | Finalised

text \<open>
  The n-th look at the chain: the time, the transaction (absent, pending or in a block), the latest and
  the finalised block. The answers are those after the retries of the client.
\<close>

record chain_poll =
  cp_now :: nat
  cp_transaction :: "(u64 option option, web3_error) outcome"
  cp_latest :: "(u64, web3_error) outcome"
  cp_finalized :: "(u64 option, web3_error) outcome"

partial_function (option) inclusion_loop ::
    "element \<Rightarrow> (nat \<Rightarrow> chain_poll) \<Rightarrow> nat \<Rightarrow> nat \<Rightarrow> (u64 \<times> nat, contracts_error) outcome option" where
  "inclusion_loop txn_hash polls unknown_timeout n =
     (case cp_transaction (polls n) of
        Panic \<Rightarrow> Some Panic
      | Err e \<Rightarrow> Some (Err (CeWeb3 e))
      | Ok None \<Rightarrow> if cp_now (polls n) > unknown_timeout then Some (Err (UnknownTransaction txn_hash))
                  else inclusion_loop txn_hash polls unknown_timeout (Suc n)
      | Ok (Some None) \<Rightarrow> inclusion_loop txn_hash polls unknown_timeout (Suc n)
      | Ok (Some (Some block_number)) \<Rightarrow> Some (Ok (block_number, Suc n)))"

definition wait_for_transaction_inclusion ::
    "element \<Rightarrow> (nat \<Rightarrow> chain_poll) \<Rightarrow> nat \<Rightarrow> (u64 \<times> nat, contracts_error) outcome option" where
  "wait_for_transaction_inclusion txn_hash polls start = inclusion_loop txn_hash polls (start + 60000) 0"

text \<open>\<open>U64 + U64\<close> panics on overflow.\<close>

partial_function (option) confirmations_loop ::
    "(nat \<Rightarrow> chain_poll) \<Rightarrow> u64 \<Rightarrow> nat \<Rightarrow> (unit, contracts_error) outcome option" where
  "confirmations_loop polls required n =
     (case cp_latest (polls n) of
        Panic \<Rightarrow> Some Panic
      | Err e \<Rightarrow> Some (Err (CeWeb3 e))
      | Ok latest_block \<Rightarrow> if required \<le> latest_block then Some (Ok ()) else confirmations_loop polls required (Suc n))"

definition wait_for_additional_confirmations ::
    "(nat \<Rightarrow> chain_poll) \<Rightarrow> u64 \<Rightarrow> u64 \<Rightarrow> nat \<Rightarrow> (unit, contracts_error) outcome option" where
  "wait_for_additional_confirmations polls block_number additional_blocks n =
     (if unat block_number + unat additional_blocks < 2 ^ 64
      then confirmations_loop polls (block_number + additional_blocks) n else Some Panic)"

partial_function (option) wait_for_finalized_confirmation ::
    "(nat \<Rightarrow> chain_poll) \<Rightarrow> u64 \<Rightarrow> nat \<Rightarrow> (unit, contracts_error) outcome option" where
  "wait_for_finalized_confirmation polls block_number n =
     (case cp_finalized (polls n) of
        Panic \<Rightarrow> Some Panic
      | Err e \<Rightarrow> Some (Err (CeWeb3 e))
      | Ok (Some finalized) \<Rightarrow> if block_number \<le> finalized then Some (Ok ())
                             else wait_for_finalized_confirmation polls block_number (Suc n)
      | Ok None \<Rightarrow> wait_for_finalized_confirmation polls block_number (Suc n))"

definition wait_for_confirm ::
    "element \<Rightarrow> (nat \<Rightarrow> chain_poll) \<Rightarrow> nat \<Rightarrow> confirmation_type \<Rightarrow> (u64, contracts_error) outcome option" where
  "wait_for_confirm txn_hash polls start ct =
     (case wait_for_transaction_inclusion txn_hash polls start of
        None \<Rightarrow> None
      | Some Panic \<Rightarrow> Some Panic
      | Some (Err e) \<Rightarrow> Some (Err e)
      | Some (Ok (block_number, n)) \<Rightarrow>
          map_option (\<lambda>r. bind_o r (\<lambda>_. Ok block_number))
            (case ct of
               Latest \<Rightarrow> Some (Ok ())
             | LatestPlus additional_blocks \<Rightarrow> wait_for_additional_confirmations polls block_number additional_blocks n
             | Finalised \<Rightarrow> wait_for_finalized_confirmation polls block_number n))"

section \<open>Properties\<close>

text \<open>Retries: the first answer that is no network failure, or the fourth answer.\<close>

lemma retry_on_network_failure_spec:
  "\<exists>k \<le> 3. retry_on_network_failure nf f = (f k, sum_list (take k DELAYS)) \<and>
     (\<forall>j < k. \<exists>e. f j = Err e \<and> nf e) \<and> (k = 3 \<or> (\<nexists>e. f k = Err e \<and> nf e))"
proof -
  have stop: "retry_loop nf f i (d # ds) = (f i, 0)" if "(\<nexists>e. f i = Err e \<and> nf e) \<or> i = 3" for i d ds
    using that by (cases "f i") (auto simp: DELAYS_def)
  have go: "retry_loop nf f i (d # ds) = (fst (retry_loop nf f (Suc i) ds), d + snd (retry_loop nf f (Suc i) ds))"
    if "\<exists>e. f i = Err e \<and> nf e" "i < 3" for i d ds
    using that by (auto simp: DELAYS_def split: prod.splits)
  let ?bad = "\<lambda>j. \<exists>e. f j = Err e \<and> nf e"
  have start: "retry_on_network_failure nf f = retry_loop nf f 0 [1000, 5000, 10000, 0]"
    by (simp add: retry_on_network_failure_def DELAYS_def)
  consider "\<not> ?bad 0" | "?bad 0" "\<not> ?bad 1" | "?bad 0" "?bad 1" "\<not> ?bad 2" | "?bad 0" "?bad 1" "?bad 2"
    by blast
  then show ?thesis
  proof cases
    case 1
    then show ?thesis using stop [of 0] by (intro exI [of _ 0]) (simp add: start)
  next
    case 2
    then show ?thesis using stop [of 1] go [of 0]
      by (intro exI [of _ 1]) (simp add: start DELAYS_def)
  next
    case 3
    then show ?thesis using stop [of 2] go [of 0] go [of 1]
      by (intro exI [of _ 2]) (simp add: start DELAYS_def less_Suc_eq numeral_2_eq_2)
  next
    case 4
    then show ?thesis using stop [of 3] go [of 0] go [of 1] go [of 2]
      by (intro exI [of _ 3]) (simp add: start DELAYS_def less_Suc_eq numeral_3_eq_3 numeral_2_eq_2)
  qed
qed

lemma exec_loop_spec:
  assumes "\<forall>i. f i \<noteq> Panic"
  shows "exec_loop f i n le =
     (case find (\<lambda>k. \<exists>v. f k = Ok v) [i..<i + n] of
        Some k \<Rightarrow> (f k, map (\<lambda>j. case f j of Err e \<Rightarrow> e) [i..<k])
      | None \<Rightarrow> (if n = 0 then case le of Some e \<Rightarrow> Err e | None \<Rightarrow> Panic else f (i + n - 1),
                 map (\<lambda>j. case f j of Err e \<Rightarrow> e) [i..<i + n]))"
proof (induction n arbitrary: i le)
  case (Suc n)
  have u: "[i..<i + Suc n] = i # [Suc i..<Suc i + n]" by (simp add: upt_conv_Cons)
  show ?case
  proof (cases "f i")
    case (Err e)
    have k: "Suc i \<le> k" if "find (\<lambda>k. \<exists>v. f k = Ok v) [Suc i..<Suc i + n] = Some k" for k
    proof -
      have "k \<in> set [Suc i..<Suc i + n]" using that unfolding find_Some_iff by (metis nth_mem)
      then show ?thesis by auto
    qed
    show ?thesis
      using Suc [of "Suc i" "Some e"] k Err unfolding u
      by (auto simp: upt_conv_Cons split: option.splits)
  qed (use assms u in \<open>auto simp: upt_conv_Cons\<close>)
qed (simp split: option.splits)

text \<open>Fees: the tip always fits under the cap, and the cap covers the base fee unless that is above \<open>2^248\<close>.\<close>

lemma saturating_add_bounds: "a \<le> saturating_add a b" "b \<le> saturating_add a b"
proof -
  have "unat (a + b) = unat a + unat b" if "unat a + unat b < 2 ^ 256"
    using that by (simp add: unat_word_ariths(1))
  then show "a \<le> saturating_add a b" "b \<le> saturating_add a b"
    by (cases "unat a + unat b < 2 ^ 256"; simp add: saturating_add_def word_le_nat_alt;
        simp add: saturating_add_def word_order.extremum flip: word_le_nat_alt)+
qed

lemma buffered_fee:
  assumes "unat b < 2 ^ 248" and "100 \<le> unat p" "unat p < 256"
  shows "b \<le> saturating_mul b p div 100"
proof -
  have "unat b * unat p < 2 ^ 248 * 256"
    using assms(1,3) by (intro mult_strict_mono) auto
  then have m: "unat b * unat p < 2 ^ 256" by simp
  then have "unat (saturating_mul b p) = unat b * unat p"
    by (simp add: saturating_mul_def unat_word_ariths(2))
  moreover have "unat b * 100 \<le> unat b * unat p" using assms(2) by simp
  then have "unat b \<le> unat b * unat p div 100" by linarith
  ultimately show ?thesis by (simp add: word_le_nat_alt unat_div)
qed

lemma estimate_fees_bounds:
  assumes "estimate_eip1559_fees mp st (Ok h) = Ok f"
  shows "fe_priority_fee f \<le> fe_max_fee f" and "unat (fe_base_fee f) < 2 ^ 248 \<Longrightarrow> fe_base_fee f \<le> fe_max_fee f"
    and "\<forall>m. mp = Some m \<longrightarrow> m \<le> fe_max_fee f"
    and "\<forall>b \<in> set (drop (length (fh_base_fee_per_gas h) - 2) (fh_base_fee_per_gas h)). b \<le> fe_base_fee f"
proof -
  let ?fs = "fh_base_fee_per_gas h"
  let ?x = "\<lambda>b pr. saturating_add (saturating_mul b (ucast (base_fee_buffer_percent st)) div 100) pr"
  obtain b pr where f: "fe_base_fee f = b" "fe_priority_fee f = pr" "b = max (?fs ! (length ?fs - 2)) (?fs ! (length ?fs - 1))"
    "fe_max_fee f = (case mp of Some m \<Rightarrow> if ?x b pr < m then m else ?x b pr | None \<Rightarrow> ?x b pr)" and len: "2 \<le> length ?fs"
    using assms by (auto simp: estimate_eip1559_fees_def Let_def split: if_splits option.splits)
  have x: "?x b pr \<le> fe_max_fee f" by (auto simp: f(4) split: option.splits)
  show "fe_priority_fee f \<le> fe_max_fee f"
    using saturating_add_bounds(2) x order_trans unfolding f(2) by blast
  show "fe_base_fee f \<le> fe_max_fee f" if "unat (fe_base_fee f) < 2 ^ 248"
  proof -
    have "b \<le> saturating_mul b (ucast (base_fee_buffer_percent st)) div 100"
      using that f(1) by (intro buffered_fee) (cases st; simp)+
    also have "\<dots> \<le> fe_max_fee f" using saturating_add_bounds(1) x order_trans by blast
    finally show ?thesis by (simp add: f(1))
  qed
  show "\<forall>m. mp = Some m \<longrightarrow> m \<le> fe_max_fee f" by (auto simp: f(4) not_less)
  have "drop (length ?fs - 2) ?fs = [?fs ! (length ?fs - 2), ?fs ! (length ?fs - 1)]"
    using len Cons_nth_drop_Suc [of "length ?fs - 2" ?fs] Cons_nth_drop_Suc [of "length ?fs - 1" ?fs]
    by (simp add: Suc_diff_Suc numeral_2_eq_2)
  then show "\<forall>b \<in> set (drop (length ?fs - 2) ?fs). b \<le> fe_base_fee f" by (simp add: f(1,3))
qed

text \<open>
  Waiting: a confirmed transaction was seen in the returned block, and the confirmations of the chosen
  kind were seen afterwards.
\<close>

lemma inclusion_loop_Ok:
  assumes "inclusion_loop h polls t n = Some (Ok (b, m))"
  shows "\<exists>k \<ge> n. m = Suc k \<and> cp_transaction (polls k) = Ok (Some (Some b))"
proof -
  have "case r of Ok (b, m) \<Rightarrow> \<exists>k \<ge> n. m = Suc k \<and> cp_transaction (polls k) = Ok (Some (Some b)) | _ \<Rightarrow> True"
    if "inclusion_loop h polls t n = Some r" for r
    using that
  proof (induction rule: inclusion_loop.raw_induct [rotated, consumes 1])
    case (1 loop txn_hash polls t n r)
    have up: "\<exists>k \<ge> n. P k" if "\<exists>k \<ge> Suc n. P k" for P :: "nat \<Rightarrow> bool" using that Suc_leD by blast
    show ?case
      using 1(2) 1(1) [of txn_hash polls t "Suc n" r] up
      by (auto split: outcome.splits option.splits if_splits)
  qed
  from this [OF assms] show ?thesis by simp
qed

lemma confirmations_loop_Ok:
  assumes "confirmations_loop polls req n = Some (Ok u)"
  shows "\<exists>k \<ge> n. \<exists>l. cp_latest (polls k) = Ok l \<and> req \<le> l"
proof -
  have "r = Ok u \<Longrightarrow> \<exists>k \<ge> n. \<exists>l. cp_latest (polls k) = Ok l \<and> req \<le> l"
    if "confirmations_loop polls req n = Some r" for r
    using that
  proof (induction rule: confirmations_loop.raw_induct [rotated, consumes 1])
    case (1 loop polls req n r)
    have up: "\<exists>k \<ge> n. P k" if "\<exists>k \<ge> Suc n. P k" for P :: "nat \<Rightarrow> bool" using that Suc_leD by blast
    show ?case
      using 1(2,3) 1(1) [of polls req "Suc n" r] up by (auto split: outcome.splits if_splits)
  qed
  from this [OF assms] show ?thesis by simp
qed

lemma finalized_loop_Ok:
  assumes "wait_for_finalized_confirmation polls b n = Some (Ok u)"
  shows "\<exists>k \<ge> n. \<exists>l. cp_finalized (polls k) = Ok (Some l) \<and> b \<le> l"
proof -
  have "r = Ok u \<Longrightarrow> \<exists>k \<ge> n. \<exists>l. cp_finalized (polls k) = Ok (Some l) \<and> b \<le> l"
    if "wait_for_finalized_confirmation polls b n = Some r" for r
    using that
  proof (induction rule: wait_for_finalized_confirmation.raw_induct [rotated, consumes 1])
    case (1 loop polls b n r)
    have up: "\<exists>k \<ge> n. P k" if "\<exists>k \<ge> Suc n. P k" for P :: "nat \<Rightarrow> bool" using that Suc_leD by blast
    show ?case
      using 1(2,3) 1(1) [of polls b "Suc n" r] up by (auto split: outcome.splits if_splits option.splits)
  qed
  from this [OF assms] show ?thesis by simp
qed

lemma wait_for_confirm_Ok:
  assumes "wait_for_confirm h polls start ct = Some (Ok b)"
  shows "\<exists>k. cp_transaction (polls k) = Ok (Some (Some b)) \<and>
     (case ct of
        Latest \<Rightarrow> True
      | LatestPlus m \<Rightarrow> \<exists>j > k. \<exists>l. cp_latest (polls j) = Ok l \<and> unat b + unat m \<le> unat l
      | Finalised \<Rightarrow> \<exists>j > k. \<exists>l. cp_finalized (polls j) = Ok (Some l) \<and> b \<le> l)"
proof -
  obtain n r where n: "wait_for_transaction_inclusion h polls start = Some (Ok (b, n))"
    and r: "(case ct of Latest \<Rightarrow> Some (Ok ())
             | LatestPlus m \<Rightarrow> wait_for_additional_confirmations polls b m n
             | Finalised \<Rightarrow> wait_for_finalized_confirmation polls b n) = Some (Ok r)"
    using assms by (auto simp: wait_for_confirm_def bind_o_Ok_iff split: option.splits outcome.splits)
  obtain k where k: "n = Suc k" "cp_transaction (polls k) = Ok (Some (Some b))"
    using inclusion_loop_Ok [OF n [unfolded wait_for_transaction_inclusion_def]] by blast
  show ?thesis
  proof (cases ct)
    case (LatestPlus m)
    then have s: "unat b + unat m < 2 ^ 64" "confirmations_loop polls (b + m) n = Some (Ok r)"
      using r by (auto simp: wait_for_additional_confirmations_def split: if_splits)
    have u: "unat (b + m) = unat b + unat m" using s(1) by (simp add: unat_word_ariths(1))
    show ?thesis
      using confirmations_loop_Ok [OF s(2)] k LatestPlus u by (auto simp: word_le_nat_alt Suc_le_eq)
  next
    case Finalised
    then show ?thesis using finalized_loop_Ok [of polls b n r] r k by (auto simp: Suc_le_eq)
  qed (use k in auto)
qed

text \<open>The wait ends when the transaction gets into a block and the block is buried or finalised.\<close>

lemma inclusion_loop_ends:
  assumes "cp_transaction (polls (n + d)) = Ok (Some (Some b))"
  shows "\<exists>r. inclusion_loop h polls t n = Some r"
  using assms
proof (induction d arbitrary: n)
  case 0
  then show ?case by (subst inclusion_loop.simps) simp
next
  case (Suc d)
  then have "\<exists>r. inclusion_loop h polls t (Suc n) = Some r" by simp
  then show ?case by (subst inclusion_loop.simps) (auto split: outcome.splits option.splits)
qed

text \<open>
  The time limit for an unknown transaction runs from the start of the wait, not from the first miss: a
  transaction that was pending for a minute is given up at its first absence.
\<close>

lemma pending_then_unknown:
  assumes "\<forall>k < n. cp_transaction (polls k) = Ok (Some None)" and "cp_transaction (polls n) = Ok None"
    and "start + 60000 < cp_now (polls n)"
  shows "wait_for_transaction_inclusion h polls start = Some (Err (UnknownTransaction h))"
proof -
  have "inclusion_loop h polls (start + 60000) (n - d) = Some (Err (UnknownTransaction h))" if "d \<le> n" for d
    using that
  proof (induction d)
    case 0
    then show ?case using assms(2,3) by (subst inclusion_loop.simps) simp
  next
    case (Suc d)
    then have "n - Suc d < n" "Suc (n - Suc d) = n - d" by simp_all
    then show ?case using Suc assms(1) by (subst inclusion_loop.simps) simp
  qed
  from this [of n] show ?thesis by (simp add: wait_for_transaction_inclusion_def)
qed

end
