(* ===== verification/Prover.thy ===== *)
theory Prover
  imports Circuits_Theorems Node_Block_Props Eth_Client
begin

text \<open>
  The prover: conversion of transactions and aggregates to circuit inputs and of the bytes of the
  proof system to proofs (\<open>barretenberg/src/circuits\<close>), the aggregate of aggregates
  (\<open>zk-primitives/src/agg_agg.rs\<close>) and the aggregation of a block (\<open>prover/src/lib.rs\<close>). The proof
  system is a parameter: a function from a program and its named inputs to the bytes of the public
  inputs followed by the proof, or an error text.
\<close>

section \<open>Named inputs\<close>

datatype input_value = FieldV field | VecV "input_value list" | StructV "(string \<times> input_value) list"

type_synonym input_map = "(string \<times> input_value) list"

datatype program = UtxoProgram | AggUtxoProgram | AggAggProgram

type_synonym backend = "program \<Rightarrow> input_map \<Rightarrow> (u8 list, string) outcome"

definition fields_v :: "field list \<Rightarrow> input_value" where
  "fields_v xs = VecV (map FieldV xs)"

definition pair_v :: "('a \<Rightarrow> input_value) \<Rightarrow> 'a \<times> 'a \<Rightarrow> input_value" where
  "pair_v f p = VecV [f (fst p), f (snd p)]"

section \<open>Transactions\<close>

definition b_note_of :: "Note \<Rightarrow> b_note" where
  "b_note_of n = \<lparr>bn_kind = to_base (n_contract n), bn_value = to_base (n_value n),
     bn_address = to_base (n_address n), bn_psi = to_base (n_psi n)\<rparr>"

definition b_input_note_of :: "InputNote \<Rightarrow> b_input_note" where
  "b_input_note_of i = \<lparr>bi_note = b_note_of (in_note i), bi_secret_key = to_base (in_secret_key i)\<rparr>"

definition note_v :: "b_note \<Rightarrow> input_value" where
  "note_v n = StructV [(''kind'', FieldV (bn_kind n)), (''value'', FieldV (bn_value n)),
     (''address'', FieldV (bn_address n)), (''psi'', FieldV (bn_psi n))]"

definition input_note_v :: "b_input_note \<Rightarrow> input_value" where
  "input_note_v i = StructV [(''note'', note_v (bi_note i)), (''secret_key'', FieldV (bi_secret_key i))]"

definition utxo_input_of :: "(base list \<Rightarrow> base) \<Rightarrow> utxo \<Rightarrow> utxo_input checked" where
  "utxo_input_of P u =
     bind_o (utxo_messages P u) (\<lambda>(m0, m1, m2, m3, m4). Ok \<lparr>
       ui_input_notes = map_prod b_input_note_of b_input_note_of (u_input_notes u),
       ui_output_notes = map_prod b_note_of b_note_of (u_output_notes u),
       ui_pmessage4 = to_base m4,
       ui_commitments = (to_base (commitment P (in_note (fst (u_input_notes u)))),
                         to_base (commitment P (in_note (snd (u_input_notes u)))),
                         to_base (commitment P (fst (u_output_notes u))), to_base (commitment P (snd (u_output_notes u)))),
       ui_messages = (to_base m0, to_base m1, to_base m2, to_base m3, to_base m4)\<rparr>)"

definition utxo_input_map :: "utxo_input \<Rightarrow> input_map" where
  "utxo_input_map i = (case (ui_commitments i, ui_messages i) of
     ((c0, c1, c2, c3), (m0, m1, m2, m3, m4)) \<Rightarrow>
       [(''input_notes'', pair_v input_note_v (ui_input_notes i)),
        (''output_notes'', pair_v note_v (ui_output_notes i)),
        (''pmessage4'', FieldV (ui_pmessage4 i)),
        (''commitments'', fields_v [c0, c1, c2, c3]),
        (''messages'', fields_v [m0, m1, m2, m3, m4])])"

definition UTXO_PUBLIC_INPUTS_COUNT :: nat where "UTXO_PUBLIC_INPUTS_COUNT = 9"
definition UTXO_PROOF_SIZE :: nat where "UTXO_PROOF_SIZE = 508"
definition AGG_UTXO_PUBLIC_INPUTS_COUNT :: nat where "AGG_UTXO_PUBLIC_INPUTS_COUNT = 18"
definition AGG_AGG_PUBLIC_INPUTS_COUNT :: nat where "AGG_AGG_PUBLIC_INPUTS_COUNT = 33"

text \<open>
  The slices at the start of every \<open>prove\<close>: the public inputs as elements and the raw proof. A slice
  past the end and a raw proof of another length than 508 elements panic.
\<close>

definition split_proof :: "nat \<Rightarrow> u8 list \<Rightarrow> (element list \<times> u8 list, string) outcome" where
  "split_proof n bytes =
     (if length bytes < n * 32 then Panic
      else bind_o (unwrap (bytes_to_elements (take (n * 32) bytes))) (\<lambda>pi.
           if length (drop (n * 32) bytes) = UTXO_PROOF_SIZE * 32 then Ok (pi, drop (n * 32) bytes) else Panic))"

definition prove_utxo :: "backend \<Rightarrow> (base list \<Rightarrow> base) \<Rightarrow> utxo \<Rightarrow> (utxo_proof, string) outcome" where
  "prove_utxo B P u =
     bind_o (unwrap (utxo_input_of P u)) (\<lambda>i.
     bind_o (B UtxoProgram (utxo_input_map i)) (\<lambda>bytes.
     bind_o (split_proof UTXO_PUBLIC_INPUTS_COUNT bytes) (\<lambda>(pi, raw).
     Ok \<lparr>up_proof = raw, up_public_inputs = \<lparr>input_commitments = (pi ! 0, pi ! 1),
          output_commitments = (pi ! 2, pi ! 3), messages = (pi ! 4, pi ! 5, pi ! 6, pi ! 7, pi ! 8)\<rparr>\<rparr>)))"

section \<open>Three transactions\<close>

definition proof_fields :: "u8 list \<Rightarrow> field list checked" where
  "proof_fields bs = bind_o (bytes_to_elements bs) (\<lambda>es.
     if length es = UTXO_PROOF_SIZE then Ok (map to_base es) else Panic)"

definition path_fields :: "element list \<Rightarrow> field list checked" where
  "path_fields sibs =
     (if length sibs \<le> 160 then Ok (map to_base sibs @ replicate (160 - length sibs) 0) else Panic)"

definition agg_utxo_proof_input_of :: "proof_bundle \<Rightarrow> agg_utxo_proof_input checked" where
  "agg_utxo_proof_input_of b =
     (let pi = up_public_inputs (b_utxo_proof b)
      in bind_o (proof_fields (up_proof (b_utxo_proof b))) (\<lambda>pr.
         bind_o (path_fields (fst (b_input_merkle_paths b))) (\<lambda>i0.
         bind_o (path_fields (snd (b_input_merkle_paths b))) (\<lambda>i1.
         bind_o (path_fields (fst (b_output_merkle_paths b))) (\<lambda>o0.
         bind_o (path_fields (snd (b_output_merkle_paths b))) (\<lambda>o1.
         Ok \<lparr>ap_proof = pr, ap_input_merkle_paths = (i0, i1), ap_output_merkle_paths = (o0, o1),
              ap_input_commitments = map_prod to_base to_base (input_commitments pi),
              ap_output_commitments = map_prod to_base to_base (output_commitments pi),
              ap_utxo_kind = to_base (kind_to_element (pi_kind pi))\<rparr>))))))"

definition agg_utxo_input_of :: "(base list \<Rightarrow> base) \<Rightarrow> agg_utxo \<Rightarrow> agg_utxo_input checked" where
  "agg_utxo_input_of P a = (case ag_proofs a of (b0, b1, b2) \<Rightarrow>
     bind_o (agg_utxo_proof_input_of b0) (\<lambda>p0.
     bind_o (agg_utxo_proof_input_of b1) (\<lambda>p1.
     bind_o (agg_utxo_proof_input_of b2) (\<lambda>p2.
     bind_o (agg_messages a) (\<lambda>ms.
     Ok \<lparr>ai_proofs = (p0, p1, p2), ai_messages = map to_base ms, ai_old_root = to_base (ag_old_root a),
          ai_new_root = to_base (ag_new_root a), ai_commit_hash = to_base (agg_commit_hash P a)\<rparr>)))))"

definition agg_utxo_proof_v :: "agg_utxo_proof_input \<Rightarrow> input_value" where
  "agg_utxo_proof_v p = StructV
     [(''proof'', fields_v (ap_proof p)),
      (''input_merkle_paths'', pair_v fields_v (ap_input_merkle_paths p)),
      (''output_merkle_paths'', pair_v fields_v (ap_output_merkle_paths p)),
      (''input_commitments'', pair_v FieldV (ap_input_commitments p)),
      (''output_commitments'', pair_v FieldV (ap_output_commitments p)),
      (''utxo_kind'', FieldV (ap_utxo_kind p))]"

definition agg_utxo_input_map :: "circuit_env \<Rightarrow> agg_utxo_input \<Rightarrow> input_map" where
  "agg_utxo_input_map E a = (case ai_proofs a of (p0, p1, p2) \<Rightarrow>
     [(''verification_key'', fields_v (ce_utxo_key E)),
      (''verification_key_hash'', FieldV (ce_vk_hash E (ce_utxo_key E))),
      (''proofs'', VecV (map agg_utxo_proof_v [p0, p1, p2])),
      (''messages'', fields_v (ai_messages a)),
      (''old_root'', FieldV (ai_old_root a)),
      (''new_root'', FieldV (ai_new_root a)),
      (''commit_hash'', FieldV (ai_commit_hash a))])"

record agg_utxo_public_input =
  ap_messages :: "element list"
  ap_old_root :: element
  ap_new_root :: element
  ap_commit_hash :: element

record agg_utxo_proof =
  au_proof :: "u8 list"
  au_public_inputs :: agg_utxo_public_input

definition agg_utxo_proof_default :: agg_utxo_proof where
  "agg_utxo_proof_default = \<lparr>au_proof = replicate (508 * 32) 0,
     au_public_inputs = \<lparr>ap_messages = replicate 15 ZERO, ap_old_root = ZERO, ap_new_root = ZERO, ap_commit_hash = ZERO\<rparr>\<rparr>"

definition agg_is_padding :: "agg_utxo_public_input \<Rightarrow> bool" where
  "agg_is_padding pi \<longleftrightarrow> ap_old_root pi = ZERO"

definition agg_utxo_public_bytes :: "agg_utxo_public_input \<Rightarrow> u8 list" where
  "agg_utxo_public_bytes pi = concat (map to_be_bytes
     (ap_messages pi @ [ap_old_root pi, ap_new_root pi, ap_commit_hash pi]))"

definition prove_agg_utxo :: "backend \<Rightarrow> circuit_env \<Rightarrow> agg_utxo \<Rightarrow> (agg_utxo_proof, string) outcome" where
  "prove_agg_utxo B E a =
     bind_o (unwrap (agg_utxo_input_of (ce_poseidon E) a)) (\<lambda>i.
     bind_o (B AggUtxoProgram (agg_utxo_input_map E i)) (\<lambda>bytes.
     bind_o (split_proof AGG_UTXO_PUBLIC_INPUTS_COUNT bytes) (\<lambda>(pi, raw).
     if length pi = AGG_UTXO_PUBLIC_INPUTS_COUNT
     then Ok \<lparr>au_proof = raw, au_public_inputs = \<lparr>ap_messages = take 15 pi, ap_old_root = pi ! 15,
               ap_new_root = pi ! 16, ap_commit_hash = pi ! 17\<rparr>\<rparr>
     else Panic)))"

section \<open>Two aggregates\<close>

type_synonym agg_agg = "agg_utxo_proof \<times> agg_utxo_proof"

definition aa_old_root :: "agg_agg \<Rightarrow> element" where
  "aa_old_root g = ap_old_root (au_public_inputs (fst g))"

definition aa_new_root :: "agg_agg \<Rightarrow> element" where
  "aa_new_root g =
     (if agg_is_padding (au_public_inputs (snd g)) then ap_new_root (au_public_inputs (fst g))
      else ap_new_root (au_public_inputs (snd g)))"

definition aa_messages :: "agg_agg \<Rightarrow> element list" where
  "aa_messages g = ap_messages (au_public_inputs (fst g)) @ ap_messages (au_public_inputs (snd g))"

definition aa_commit_hash :: "(base list \<Rightarrow> base) \<Rightarrow> agg_agg \<Rightarrow> element" where
  "aa_commit_hash P g =
     hash_merge P [ap_commit_hash (au_public_inputs (fst g)), ap_commit_hash (au_public_inputs (snd g))]"

record agg_agg_public_input =
  aa_pi_old_root :: element
  aa_pi_new_root :: element
  aa_pi_commit_hash :: element
  aa_pi_messages :: "element list"

definition aa_public_inputs :: "(base list \<Rightarrow> base) \<Rightarrow> agg_agg \<Rightarrow> agg_agg_public_input" where
  "aa_public_inputs P g = \<lparr>aa_pi_old_root = aa_old_root g, aa_pi_new_root = aa_new_root g,
     aa_pi_commit_hash = aa_commit_hash P g, aa_pi_messages = aa_messages g\<rparr>"

definition aa_public_bytes :: "agg_agg_public_input \<Rightarrow> u8 list" where
  "aa_public_bytes pi = to_be_bytes (aa_pi_old_root pi) @ to_be_bytes (aa_pi_new_root pi) @
     to_be_bytes (aa_pi_commit_hash pi) @ concat (map to_be_bytes (aa_pi_messages pi))"

record agg_agg_proof =
  aa_proof :: "u8 list"
  aa_pi :: agg_agg_public_input
  aa_kzg :: "element list"

definition agg_agg_proof_bytes :: "agg_agg_proof \<Rightarrow> u8 list" where
  "agg_agg_proof_bytes p = aa_public_bytes (aa_pi p) @ concat (map to_be_bytes (aa_kzg p)) @ aa_proof p"

definition utxo_agg_proof_of :: "agg_utxo_proof \<Rightarrow> utxo_agg_proof checked" where
  "utxo_agg_proof_of p = bind_o (proof_fields (au_proof p)) (\<lambda>pr.
     Ok \<lparr>ua_proof = pr, ua_old_root = to_base (ap_old_root (au_public_inputs p)),
          ua_new_root = to_base (ap_new_root (au_public_inputs p)),
          ua_commit_hash = to_base (ap_commit_hash (au_public_inputs p))\<rparr>)"

definition extract_messages :: "agg_agg \<Rightarrow> field list checked" where
  "extract_messages g = (if length (aa_messages g) = 30 then Ok (map to_base (aa_messages g)) else Panic)"

definition agg_agg_input_of :: "(base list \<Rightarrow> base) \<Rightarrow> agg_agg \<Rightarrow> agg_agg_input checked" where
  "agg_agg_input_of P g =
     bind_o (utxo_agg_proof_of (fst g)) (\<lambda>p0.
     bind_o (utxo_agg_proof_of (snd g)) (\<lambda>p1.
     bind_o (extract_messages g) (\<lambda>ms.
     Ok \<lparr>gi_proofs = (p0, p1), gi_messages = ms, gi_old_root = to_base (aa_old_root g),
          gi_new_root = to_base (aa_new_root g), gi_commit_hash = to_base (aa_commit_hash P g)\<rparr>)))"

definition utxo_agg_proof_v :: "utxo_agg_proof \<Rightarrow> input_value" where
  "utxo_agg_proof_v p = StructV [(''proof'', fields_v (ua_proof p)), (''old_root'', FieldV (ua_old_root p)),
     (''new_root'', FieldV (ua_new_root p)), (''commit_hash'', FieldV (ua_commit_hash p))]"

definition agg_agg_input_map :: "circuit_env \<Rightarrow> agg_agg_input \<Rightarrow> input_map" where
  "agg_agg_input_map E g =
     [(''verification_key'', fields_v (ce_agg_utxo_key E)),
      (''verification_key_hash'', FieldV (ce_vk_hash E (ce_agg_utxo_key E))),
      (''utxo_agg_proofs'', pair_v utxo_agg_proof_v (gi_proofs g)),
      (''messages'', fields_v (gi_messages g)),
      (''old_root'', FieldV (gi_old_root g)),
      (''new_root'', FieldV (gi_new_root g)),
      (''commit_hash'', FieldV (gi_commit_hash g))]"

definition prove_agg_agg :: "backend \<Rightarrow> circuit_env \<Rightarrow> agg_agg \<Rightarrow> (agg_agg_proof, string) outcome" where
  "prove_agg_agg B E g =
     bind_o (unwrap (agg_agg_input_of (ce_poseidon E) g)) (\<lambda>i.
     bind_o (B AggAggProgram (agg_agg_input_map E i)) (\<lambda>bytes.
     bind_o (split_proof AGG_AGG_PUBLIC_INPUTS_COUNT bytes) (\<lambda>(pi, raw).
     if length pi = AGG_AGG_PUBLIC_INPUTS_COUNT
     then Ok \<lparr>aa_proof = raw, aa_pi = \<lparr>aa_pi_old_root = pi ! 0, aa_pi_new_root = pi ! 1,
               aa_pi_commit_hash = pi ! 2, aa_pi_messages = take 30 (drop 3 pi)\<rparr>, aa_kzg = []\<rparr>
     else Panic)))"

section \<open>Aggregating a block\<close>

datatype prover_error =
    ConvertH256ToBn256Fr element
  | RollupTransactionTimeout
  | RollupTransactionDropped element
  | RollupTransactionReverted element
  | FromHexP
  | Web3P web3_error
  | EthAbiP
  | TryFromSliceP
  | Web3ContractP web3_contract_error
  | SerdeJsonP
  | Secp256k1P
  | SmirkP storage_error
  | SmirkCollisionP collision_error
  | ContractP contracts_error
  | TokioTaskJoinP
  | BarretenbergProve string
  | VecToArrayConversion nat nat

type_synonym prover_tree = "(u64, simple_hash_cache) smirk_tree"

definition MERKLE_TREE_PATH_DEPTH :: nat where "MERKLE_TREE_PATH_DEPTH = 160"
definition UTXO_AGGREGATIONS :: nat where "UTXO_AGGREGATIONS = 2"
definition UTXO_AGG_NUMBER :: nat where "UTXO_AGG_NUMBER = 3"
definition UTXO_AGG_LEAVES :: nat where "UTXO_AGG_LEAVES = UTXO_AGG_NUMBER * (2 + 2)"
definition MAXIMUM_TXNS :: nat where "MAXIMUM_TXNS = UTXO_AGG_NUMBER * UTXO_AGGREGATIONS"

definition utxo_proof_default :: utxo_proof where
  "utxo_proof_default = \<lparr>up_proof = replicate (32 * UTXO_PROOF_SIZE) 0,
     up_public_inputs = \<lparr>input_commitments = (ZERO, ZERO), output_commitments = (ZERO, ZERO),
       messages = (ZERO, ZERO, ZERO, ZERO, ZERO)\<rparr>\<rparr>"

definition proof_is_padding :: "utxo_proof \<Rightarrow> bool" where
  "proof_is_padding t \<longleftrightarrow> pi_kind (up_public_inputs t) = Null"

definition bundle_default :: proof_bundle where
  "bundle_default = (let p = merkle_path_default merkle_tree_depth
     in \<lparr>b_utxo_proof = utxo_proof_default, b_input_merkle_paths = (p, p), b_output_merkle_paths = (p, p)\<rparr>)"

definition path_to_merkle_path :: "path \<Rightarrow> (element list, prover_error) outcome" where
  "path_to_merkle_path p = unwrap (merkle_path_new merkle_tree_depth (take MERKLE_TREE_PATH_DEPTH (siblings p)))"

text \<open>The two inner loops of \<open>gen_merkle_paths\<close>; the state is the tree and the paths so far.\<close>

definition path_of_input ::
    "bool \<Rightarrow> (element \<Rightarrow> element \<Rightarrow> element) \<Rightarrow> prover_tree \<times> element list list \<Rightarrow> element \<Rightarrow>
     (prover_tree \<times> element list list, prover_error) outcome" where
  "path_of_input tn H s leaf = (case s of (tree, merkle_paths) \<Rightarrow>
     if leaf = ZERO then Ok (tree, merkle_paths @ [merkle_path_default merkle_tree_depth])
     else bind_o (unwrap (path_for merkle_tree_depth H tree leaf)) (\<lambda>p.
          bind_o (path_to_merkle_path p) (\<lambda>mp.
          bind_o (map_err SmirkCollisionP (tree_remove tn merkle_tree_depth H (simple_hash H) tree leaf)) (\<lambda>tree'.
          Ok (tree', merkle_paths @ [mp])))))"

definition path_of_output ::
    "bool \<Rightarrow> (element \<Rightarrow> element \<Rightarrow> element) \<Rightarrow> u64 \<Rightarrow> prover_tree \<times> element list list \<Rightarrow> element \<Rightarrow>
     (prover_tree \<times> element list list, prover_error) outcome" where
  "path_of_output tn H current_block s leaf = (case s of (tree, merkle_paths) \<Rightarrow>
     if leaf = ZERO then Ok (tree, merkle_paths @ [merkle_path_default merkle_tree_depth])
     else bind_o (map_err SmirkCollisionP (tree_insert tn merkle_tree_depth H (simple_hash H) tree leaf current_block)) (\<lambda>tree'.
          bind_o (unwrap (path_for merkle_tree_depth H tree' leaf)) (\<lambda>p.
          bind_o (path_to_merkle_path p) (\<lambda>mp.
          Ok (tree', merkle_paths @ [mp])))))"

definition paths_of_txn ::
    "bool \<Rightarrow> (element \<Rightarrow> element \<Rightarrow> element) \<Rightarrow> u64 \<Rightarrow> prover_tree \<times> element list list \<Rightarrow> utxo_proof \<Rightarrow>
     (prover_tree \<times> element list list, prover_error) outcome" where
  "paths_of_txn tn H current_block s t =
     bind_o (fold_o (path_of_input tn H) s (txn_inputs t)) (\<lambda>s.
     fold_o (path_of_output tn H current_block) s (txn_outputs t))"

definition gen_merkle_paths ::
    "bool \<Rightarrow> (element \<Rightarrow> element \<Rightarrow> element) \<Rightarrow> prover_tree \<Rightarrow> utxo_proof list \<Rightarrow> u64 \<Rightarrow>
     (prover_tree \<times> nat \<times> element \<times> element \<times> element list list, prover_error) outcome" where
  "gen_merkle_paths tn H tree txns current_block =
     bind_o (unwrap (root_hash H tree)) (\<lambda>old_tree.
     bind_o (fold_o (paths_of_txn tn H current_block) (tree, []) txns) (\<lambda>(tree', merkle_paths).
     bind_o (unwrap (root_hash H tree')) (\<lambda>new_tree.
     if length merkle_paths = UTXO_AGG_LEAVES
     then Ok (tree', length merkle_paths, old_tree, new_tree, merkle_paths)
     else Err (VecToArrayConversion UTXO_AGG_LEAVES (length merkle_paths)))))"

text \<open>The loop over the chunks: \<open>utxos[i]\<close> and the indices into a chunk panic out of range.\<close>

definition bundle_of_chunk :: "utxo_proof \<Rightarrow> element list list \<Rightarrow> (proof_bundle, prover_error) outcome" where
  "bundle_of_chunk t chunk =
     (if proof_is_padding t then Ok bundle_default
      else case chunk of
        [c0, c1, c2, c3] \<Rightarrow> Ok (bundle_new t (c0, c1, c2, c3))
      | _ \<Rightarrow> Panic)"

fun bundles_of :: "utxo_proof list \<Rightarrow> element list list list \<Rightarrow> (proof_bundle list, prover_error) outcome" where
  "bundles_of ts [] = Ok []"
| "bundles_of (t # ts) (c # cs) =
     bind_o (bundle_of_chunk t c) (\<lambda>b. bind_o (bundles_of ts cs) (\<lambda>bs. Ok (b # bs)))"
| "bundles_of [] (c # cs) = Panic"

definition aggregate_utxo ::
    "backend \<Rightarrow> circuit_env \<Rightarrow> bool \<Rightarrow> prover_tree \<Rightarrow> utxo_proof list \<Rightarrow> u64 \<Rightarrow>
     (prover_tree \<times> agg_utxo_proof, prover_error) outcome" where
  "aggregate_utxo B E tn tree utxos current_block =
     (if \<forall>t \<in> set utxos. proof_is_padding t then Ok (tree, agg_utxo_proof_default)
      else bind_o (gen_merkle_paths tn (hash2 (ce_poseidon E)) tree utxos current_block)
             (\<lambda>(tree', _, old_tree, new_tree, merkle_paths).
           bind_o (bundles_of utxos (chunks 4 merkle_paths)) (\<lambda>bundles.
           case bundles of
             [b0, b1, b2] \<Rightarrow>
               bind_o (map_err BarretenbergProve (prove_agg_utxo B E
                  \<lparr>ag_proofs = (b0, b1, b2), ag_old_root = old_tree, ag_new_root = new_tree\<rparr>)) (\<lambda>p. Ok (tree', p))
           | _ \<Rightarrow> Err (VecToArrayConversion UTXO_AGG_NUMBER (length bundles)))))"

text \<open>\<open>for _i in 0..UTXO_AGGREGATIONS\<close> over the shared iterator of transactions.\<close>

fun aggregate_rounds ::
    "backend \<Rightarrow> circuit_env \<Rightarrow> bool \<Rightarrow> u64 \<Rightarrow> nat \<Rightarrow> prover_tree \<Rightarrow> utxo_proof list \<Rightarrow>
     (agg_utxo_proof list, prover_error) outcome" where
  "aggregate_rounds B E tn current_block 0 tree txns = Ok []"
| "aggregate_rounds B E tn current_block (Suc n) tree txns =
     (if length (take 3 txns) \<noteq> UTXO_AGG_NUMBER then Panic
      else bind_o (aggregate_utxo B E tn tree (take 3 txns) current_block) (\<lambda>(tree', p).
           bind_o (aggregate_rounds B E tn current_block n tree' (drop 3 txns)) (\<lambda>ps. Ok (p # ps))))"

definition generate_aggregate_proof ::
    "backend \<Rightarrow> circuit_env \<Rightarrow> bool \<Rightarrow> prover_tree \<Rightarrow> utxo_proof option list \<Rightarrow> u64 \<Rightarrow>
     (agg_agg_proof, prover_error) outcome" where
  "generate_aggregate_proof B E tn tree txns current_block =
     (let txns = map (\<lambda>t. case t of Some t \<Rightarrow> t | None \<Rightarrow> utxo_proof_default) txns
      in bind_o (aggregate_rounds B E tn current_block UTXO_AGGREGATIONS tree txns) (\<lambda>aggs.
         case aggs of
           [a0, a1] \<Rightarrow> map_err BarretenbergProve (prove_agg_agg B E (a0, a1))
         | _ \<Rightarrow> Err (VecToArrayConversion UTXO_AGGREGATIONS (length aggs))))"

end
