(* ===== verification/Prover_Props.thy ===== *)
theory Prover_Props
  imports Prover
begin

text \<open>
  The prover meets the circuits: the paths it collects while it changes its tree are the paths the
  aggregate circuit asks for, step by step, and the inputs it builds satisfy both circuits.
\<close>

section \<open>Paths of the leaves\<close>

lemma path_root_field:
  assumes "poseidon_ok P" and "length path \<le> 254" and "\<forall>s \<in> set path. s < MODULUS" and "x < MODULUS" "c < MODULUS"
  shows "get_merkle_root P (to_base x) (to_le_bits (to_base c)) (map to_base path) =
     to_base (compute_merkle_root (hash2 P) x c path)"
proof -
  have f: "is_field (get_merkle_root P (to_base x) (to_le_bits (to_base c)) (map to_base path))"
    by (simp add: get_merkle_root_def merkle_root_loop_field assms(1))
  have "map from_base (map to_base path) = path"
    using assms(3) by (auto simp: from_to_base intro: map_idI)
  then have "from_base (get_merkle_root P (to_base x) (to_le_bits (to_base c)) (map to_base path)) =
      compute_merkle_root (hash2 P) x c path"
    using get_merkle_root_element [OF assms(1) is_field_to_base is_field_to_base, of "map to_base path" x c] assms
    by (simp add: from_to_base)
  then show ?thesis
    using to_from_base [OF f] by simp
qed

lemma to_base_zero_iff: "e < MODULUS \<Longrightarrow> to_base e = 0 \<longleftrightarrow> e = ZERO"
  using from_to_base [of e] by (auto simp: from_base_def to_base_def)

lemma tree_path_siblings:
  assumes P: "poseidon_ok P" and t: "root_tree P d t r" and p: "path_for d (hash2 P) t e = Ok p"
  shows "length (siblings p) = d - 1 \<and> (\<forall>s \<in> set (siblings p). s < MODULUS) \<and> path_element p = e \<and>
     compute_root_hash (hash2 P) p x = compute_merkle_root (hash2 P) x e (siblings p)"
proof -
  have inv: "tree_inv (hash2 P) (simple_inv (hash2 P)) d t" and el: "\<forall>e \<in> set (tree_elements t). e < MODULUS"
    using t by (simp_all add: root_tree_def)
  have "siblings p = rev (sibling_roots (hash2 P) (slot d (tree_elements t)) [] (lsb e (d - 1)))" "path_element p = e"
    using path_for_ok [OF inv, of e] p by auto
  then show ?thesis
    using sibling_roots_less [of "hash2 P" MODULUS "slot d (tree_elements t)"] hash2_less [OF P] slot_less [OF el]
      path_for_props [OF inv, of e] p by (auto simp: compute_root_hash_def)
qed

lemma merkle_path_take:
  "length sibs = 160 \<Longrightarrow> unwrap (merkle_path_new merkle_tree_depth (take MERKLE_TREE_PATH_DEPTH sibs)) = Ok sibs"
  by (simp add: merkle_path_new_def merkle_tree_depth_def MERKLE_TREE_PATH_DEPTH_def)

text \<open>What a loop body adds: a path, with which the circuit makes the same step from root to root.\<close>

definition leaf_done ::
    "(field list \<Rightarrow> field) \<Rightarrow> field \<Rightarrow> bool \<Rightarrow> element \<Rightarrow> element list \<Rightarrow> prover_tree \<Rightarrow> field \<Rightarrow> bool" where
  "leaf_done P r adds leaf mp t' r' \<longleftrightarrow> length mp = 160 \<and> (\<forall>s \<in> set mp. s < MODULUS) \<and>
     root_tree P merkle_tree_depth t' r' \<and> circuit_step P r (adds, to_base leaf, map to_base mp) = Ok r'"

lemma padding_leaf:
  "root_tree P merkle_tree_depth t r \<Longrightarrow>
   leaf_done P r adds ZERO (merkle_path_default merkle_tree_depth) t r"
  by (simp add: leaf_done_def merkle_path_default_def merkle_tree_depth_def circuit_step_def add_output_def
      spend_input_def to_base_def MODULUS_def)

lemma path_of_input_ok:
  assumes P: "poseidon_ok P" and t: "root_tree P merkle_tree_depth t r"
    and leaf: "leaf = ZERO \<or> leaf \<in> set (tree_elements t)"
  shows "\<exists>t' mp r'. path_of_input tn (hash2 P) (t, ps) leaf = Ok (t', ps @ [mp]) \<and> leaf_done P r False leaf mp t' r' \<and>
     set (tree_elements t') = set (tree_elements t) - set (non_zero [leaf])"
proof (cases "leaf = ZERO")
  case True
  then show ?thesis
    using padding_leaf [OF t, of False] by (auto simp: path_of_input_def non_zero_def)
next
  case False
  let ?H = "hash2 P" and ?d = merkle_tree_depth
  have inv: "tree_inv ?H (simple_inv ?H) ?d t" and mem: "leaf \<in> set (tree_elements t)" and lt: "leaf < MODULUS"
    and el: "\<forall>e \<in> set (tree_elements t). e < MODULUS"
    and r: "root_hash ?H t = Ok (from_base r)" "is_field r"
    using t leaf False by (auto simp: root_tree_def)
  obtain p where p: "path_for ?d ?H t leaf = Ok p" "proves ?H p leaf" "actual_root_hash p = from_base r"
    using path_for_props [OF inv, of leaf] mem r by auto
  note s = tree_path_siblings [OF P t p(1)]
  obtain t' where t': "tree_remove tn ?d ?H (simple_hash ?H) t leaf = Ok t'" "tree_inv ?H (simple_inv ?H) ?d t'"
    "set (tree_elements t') = set (tree_elements t) - {leaf}" "root_hash ?H t' = Ok (compute_root_hash ?H p NULL_HASH)"
    using remove_path_links [OF inv mem p(1)] by blast
  have len: "length (siblings p) = 160" using s by (simp add: merkle_tree_depth_def)
  have root: "get_merkle_root P (to_base x) (to_le_bits (to_base leaf)) (map to_base (siblings p)) =
      to_base (compute_root_hash ?H p x)" if "x < MODULUS" for x
    using path_root_field [OF P, of "siblings p" x leaf] s len lt that by (simp add: compute_root_hash_def)
  let ?r' = "to_base (compute_root_hash ?H p NULL_HASH)"
  have c0: "compute_root_hash ?H p NULL_HASH < MODULUS"
    using hash2_less [OF P] root_hash_spec [OF t'(2)] t'(2-4) el smt_root_less [of ?H MODULUS "slot ?d (tree_elements t')"]
      slot_less [of "tree_elements t'" ?d] by simp
  have "circuit_step P r (False, to_base leaf, map to_base (siblings p)) = Ok ?r'"
    using root [of leaf] root [of ZERO] lt p(2,3) r(2) False to_base_zero_iff [OF lt]
    by (simp add: circuit_step_def spend_input_def validate_inclusion_def get_null_root_def proves_def NULL_HASH_def
        MODULUS_def to_base_def [of 0])
  then have "leaf_done P r False leaf (siblings p) t' ?r'"
    using s len t' el c0 by (auto simp: leaf_done_def root_tree_def from_to_base)
  moreover have "path_of_input tn ?H (t, ps) leaf = Ok (t', ps @ [siblings p])"
    using False p(1) t'(1) len by (simp add: path_of_input_def path_to_merkle_path_def merkle_path_take)
  ultimately show ?thesis
    using t'(3) False by (auto simp: non_zero_def)
qed

lemma path_of_output_ok:
  assumes P: "poseidon_ok P" and t: "root_tree P merkle_tree_depth t r" and lt: "leaf < MODULUS"
    and free: "leaf = ZERO \<or> (\<forall>e \<in> set (tree_elements t). \<not> collides_with merkle_tree_depth e leaf)"
  shows "\<exists>t' mp r'. path_of_output tn (hash2 P) h (t, ps) leaf = Ok (t', ps @ [mp]) \<and> leaf_done P r True leaf mp t' r' \<and>
     set (tree_elements t') = set (tree_elements t) \<union> set (non_zero [leaf])"
proof (cases "leaf = ZERO")
  case True
  then show ?thesis
    using padding_leaf [OF t, of True] by (auto simp: path_of_output_def non_zero_def)
next
  case False
  let ?H = "hash2 P" and ?d = merkle_tree_depth
  have inv: "tree_inv ?H (simple_inv ?H) ?d t" and el: "\<forall>e \<in> set (tree_elements t). e < MODULUS"
    and r: "root_hash ?H t = Ok (from_base r)" "is_field r"
    using t by (auto simp: root_tree_def)
  obtain t' p where t': "tree_insert tn ?d ?H (simple_hash ?H) t leaf h = Ok t'" "tree_inv ?H (simple_inv ?H) ?d t'"
    "set (tree_elements t') = insert leaf (set (tree_elements t))" "path_for ?d ?H t' leaf = Ok p"
    "compute_root_hash ?H p NULL_HASH = from_base r" "proves ?H p leaf" "root_hash ?H t' = Ok (actual_root_hash p)"
    using insert_path_links [OF inv, of leaf tn h] free False r(1) by (auto simp: NULL_HASH_def)
  have c1: "actual_root_hash p < MODULUS"
    using hash2_less [OF P] root_hash_spec [OF t'(2)] t'(3,7) el lt smt_root_less [of ?H MODULUS "slot ?d (tree_elements t')"]
      slot_less [of "tree_elements t'" ?d] by simp
  then have t1: "root_tree P ?d t' (to_base (actual_root_hash p))"
    using t' el lt by (auto simp: root_tree_def from_to_base)
  note s = tree_path_siblings [OF P t1 t'(4)]
  have len: "length (siblings p) = 160" using s by (simp add: merkle_tree_depth_def)
  have root: "get_merkle_root P (to_base x) (to_le_bits (to_base leaf)) (map to_base (siblings p)) =
      to_base (compute_root_hash ?H p x)" if "x < MODULUS" for x
    using path_root_field [OF P, of "siblings p" x leaf] s len lt that by (simp add: compute_root_hash_def)
  have "circuit_step P r (True, to_base leaf, map to_base (siblings p)) = Ok (to_base (actual_root_hash p))"
    using root [of leaf] root [of ZERO] lt t'(5,6) r(2) False to_base_zero_iff [OF lt]
    by (simp add: circuit_step_def add_output_def validate_null_def get_null_root_def proves_def NULL_HASH_def
        MODULUS_def to_base_def [of 0])
  then have "leaf_done P r True leaf (siblings p) t' (to_base (actual_root_hash p))"
    using s len t1 by (auto simp: leaf_done_def)
  moreover have "path_of_output tn ?H h (t, ps) leaf = Ok (t', ps @ [siblings p])"
    using False t'(1,4) len by (simp add: path_of_output_def path_to_merkle_path_def merkle_path_take)
  ultimately show ?thesis
    using t'(3) False by (auto simp: non_zero_def)
qed

section \<open>Paths of transactions\<close>

definition txns_fit :: "element set \<Rightarrow> utxo_proof list \<Rightarrow> bool" where
  "txns_fit S ts \<longleftrightarrow> distinct (outputs_of ts @ inputs_of ts) \<and> set (outputs_of ts) \<inter> S = {} \<and>
     set (inputs_of ts) \<subseteq> S \<and> slots_distinct merkle_tree_depth (S \<union> set (outputs_of ts)) \<and>
     (\<forall>e \<in> set (outputs_of ts). e < MODULUS)"

definition after_txns :: "element set \<Rightarrow> utxo_proof list \<Rightarrow> element set" where
  "after_txns S ts = S \<union> set (outputs_of ts) - set (inputs_of ts)"

definition steps_of :: "bool \<Rightarrow> element list \<Rightarrow> element list list \<Rightarrow> leaf_step list" where
  "steps_of adds es ps = map (\<lambda>(e, p). (adds, to_base e, map to_base p)) (zip es ps)"

definition txn_leaf_steps :: "utxo_proof \<Rightarrow> element list list \<Rightarrow> leaf_step list" where
  "txn_leaf_steps t ps = steps_of False (txn_inputs t) (take 2 ps) @ steps_of True (txn_outputs t) (drop 2 ps)"

lemma non_zero_simps [simp]:
  "non_zero [] = []" "non_zero (x # xs) = (if x = ZERO then [] else [x]) @ non_zero xs"
  by (simp_all add: non_zero_def)

lemma slots_free:
  "slots_distinct d (S \<union> T) \<Longrightarrow> e \<in> T \<Longrightarrow> e \<notin> S \<Longrightarrow> \<forall>e' \<in> S. \<not> collides_with d e' e"
  by (auto simp: slots_distinct_def collides_with_def inj_on_def)

lemma txns_fit_split:
  assumes "txns_fit S (t # ts)"
  shows "txns_fit S [t]" "txns_fit (after_txns S [t]) ts"
proof -
  show "txns_fit S [t]"
    using assms by (auto simp: txns_fit_def slots_distinct_def intro: inj_on_subset)
  have "after_txns S [t] \<union> set (outputs_of ts) \<subseteq> S \<union> set (outputs_of (t # ts))"
    by (auto simp: after_txns_def)
  then have "slots_distinct merkle_tree_depth (after_txns S [t] \<union> set (outputs_of ts))"
    using assms by (auto simp: txns_fit_def slots_distinct_def intro: inj_on_subset)
  then show "txns_fit (after_txns S [t]) ts"
    using assms by (auto simp: txns_fit_def after_txns_def)
qed

lemma after_txns_Cons: "txns_fit S (t # ts) \<Longrightarrow> after_txns S (t # ts) = after_txns (after_txns S [t]) ts"
  by (auto simp: txns_fit_def after_txns_def)

lemma outputs_less: "txns_fit S [t] \<Longrightarrow> leaf \<in> set (txn_outputs t) \<Longrightarrow> leaf < MODULUS"
  by (cases "leaf = ZERO") (auto simp: txns_fit_def MODULUS_def outputs_of_def non_zero_def)

lemma txn_leaves:
  "txn_inputs t = [fst (input_commitments (up_public_inputs t)), snd (input_commitments (up_public_inputs t))]"
  "txn_outputs t = [fst (output_commitments (up_public_inputs t)), snd (output_commitments (up_public_inputs t))]"
  by (simp_all add: txn_inputs_def txn_outputs_def pair_list_def)

lemma paths_of_inputs_ok:
  assumes P: "poseidon_ok P"
  shows "root_tree P merkle_tree_depth t r \<Longrightarrow> set (non_zero es) \<subseteq> set (tree_elements t) \<Longrightarrow> distinct (non_zero es) \<Longrightarrow>
    \<exists>t' mps r'. fold_o (path_of_input tn (hash2 P)) (t, ps) es = Ok (t', ps @ mps) \<and> length mps = length es \<and>
      (\<forall>mp \<in> set mps. length mp = 160) \<and> root_tree P merkle_tree_depth t' r' \<and>
      fold_o (circuit_step P) r (steps_of False es mps) = Ok r' \<and>
      set (tree_elements t') = set (tree_elements t) - set (non_zero es)"
proof (induction es arbitrary: t r ps)
  case (Cons e es)
  obtain t1 p1 r1 where 1: "path_of_input tn (hash2 P) (t, ps) e = Ok (t1, ps @ [p1])" "leaf_done P r False e p1 t1 r1"
    "set (tree_elements t1) = set (tree_elements t) - set (non_zero [e])"
    using path_of_input_ok [OF P Cons.prems(1), of e tn ps] Cons.prems(2) by (fastforce split: if_splits)
  have "set (non_zero es) \<subseteq> set (tree_elements t1)" "distinct (non_zero es)"
    using 1(3) Cons.prems(2,3) by (auto split: if_splits)
  then obtain t' mps r' where "fold_o (path_of_input tn (hash2 P)) (t1, ps @ [p1]) es = Ok (t', (ps @ [p1]) @ mps)"
    "length mps = length es" "\<forall>mp \<in> set mps. length mp = 160" "root_tree P merkle_tree_depth t' r'"
    "fold_o (circuit_step P) r1 (steps_of False es mps) = Ok r'"
    "set (tree_elements t') = set (tree_elements t1) - set (non_zero es)"
    using Cons.IH [of t1 r1 "ps @ [p1]"] 1(2) by (auto simp: leaf_done_def)
  with 1 show ?case
    by (intro exI [of _ t'] exI [of _ "p1 # mps"] exI [of _ r']) (auto simp: leaf_done_def steps_of_def)
qed (auto simp: steps_of_def)

lemma paths_of_outputs_ok:
  assumes P: "poseidon_ok P"
  shows "root_tree P merkle_tree_depth t r \<Longrightarrow> set (non_zero es) \<inter> set (tree_elements t) = {} \<Longrightarrow> distinct (non_zero es) \<Longrightarrow>
    slots_distinct merkle_tree_depth (set (tree_elements t) \<union> set (non_zero es)) \<Longrightarrow> \<forall>e \<in> set es. e < MODULUS \<Longrightarrow>
    \<exists>t' mps r'. fold_o (path_of_output tn (hash2 P) h) (t, ps) es = Ok (t', ps @ mps) \<and> length mps = length es \<and>
      (\<forall>mp \<in> set mps. length mp = 160) \<and> root_tree P merkle_tree_depth t' r' \<and>
      fold_o (circuit_step P) r (steps_of True es mps) = Ok r' \<and>
      set (tree_elements t') = set (tree_elements t) \<union> set (non_zero es)"
proof (induction es arbitrary: t r ps)
  case (Cons e es)
  have "e = ZERO \<or> (\<forall>e' \<in> set (tree_elements t). \<not> collides_with merkle_tree_depth e' e)"
    using slots_free [OF Cons.prems(4), of e] Cons.prems(2) by auto
  then obtain t1 p1 r1 where 1: "path_of_output tn (hash2 P) h (t, ps) e = Ok (t1, ps @ [p1])" "leaf_done P r True e p1 t1 r1"
    "set (tree_elements t1) = set (tree_elements t) \<union> set (non_zero [e])"
    using path_of_output_ok [OF P Cons.prems(1), of e tn h ps] Cons.prems(5) by fastforce
  have "set (non_zero es) \<inter> set (tree_elements t1) = {}" "distinct (non_zero es)"
    "set (tree_elements t1) \<union> set (non_zero es) = set (tree_elements t) \<union> set (non_zero (e # es))"
    using 1(3) Cons.prems(2,3) by (auto split: if_splits)
  then obtain t' mps r' where "fold_o (path_of_output tn (hash2 P) h) (t1, ps @ [p1]) es = Ok (t', (ps @ [p1]) @ mps)"
    "length mps = length es" "\<forall>mp \<in> set mps. length mp = 160" "root_tree P merkle_tree_depth t' r'"
    "fold_o (circuit_step P) r1 (steps_of True es mps) = Ok r'"
    "set (tree_elements t') = set (tree_elements t1) \<union> set (non_zero es)"
    using Cons.IH [of t1 r1 "ps @ [p1]"] 1(2) Cons.prems(4,5) by (auto simp: leaf_done_def)
  with 1 show ?case
    by (intro exI [of _ t'] exI [of _ "p1 # mps"] exI [of _ r']) (auto simp: leaf_done_def steps_of_def)
qed (auto simp: steps_of_def)

lemma paths_of_txn_ok:
  assumes P: "poseidon_ok P" and t: "root_tree P merkle_tree_depth t r" and fit: "txns_fit (set (tree_elements t)) [x]"
  shows "\<exists>t' mps r'. paths_of_txn tn (hash2 P) h (t, ps) x = Ok (t', ps @ mps) \<and> length mps = 4 \<and>
     (\<forall>mp \<in> set mps. length mp = 160) \<and> root_tree P merkle_tree_depth t' r' \<and>
     fold_o (circuit_step P) r (txn_leaf_steps x mps) = Ok r' \<and>
     set (tree_elements t') = after_txns (set (tree_elements t)) [x]"
proof -
  let ?S = "set (tree_elements t)" and ?ins = "non_zero (txn_inputs x)" and ?outs = "non_zero (txn_outputs x)"
  have f: "distinct ?outs" "distinct ?ins" "set ?outs \<inter> set ?ins = {}" "set ?outs \<inter> ?S = {}" "set ?ins \<subseteq> ?S"
    "slots_distinct merkle_tree_depth (?S \<union> set ?outs)"
    using fit by (auto simp: txns_fit_def)
  obtain t1 m1 r1 where 1: "fold_o (path_of_input tn (hash2 P)) (t, ps) (txn_inputs x) = Ok (t1, ps @ m1)"
    "length m1 = length (txn_inputs x)" "\<forall>mp \<in> set m1. length mp = 160" "root_tree P merkle_tree_depth t1 r1"
    "fold_o (circuit_step P) r (steps_of False (txn_inputs x) m1) = Ok r1" "set (tree_elements t1) = ?S - set ?ins"
    using paths_of_inputs_ok [OF P t f(5,2), of tn ps] by blast
  have f1: "set ?outs \<inter> set (tree_elements t1) = {}" using f(4) 1(6) by blast
  have f2: "slots_distinct merkle_tree_depth (set (tree_elements t1) \<union> set ?outs)"
    using f(6) 1(6) by (auto simp: slots_distinct_def intro: inj_on_subset)
  have f3: "\<forall>e \<in> set (txn_outputs x). e < MODULUS" using outputs_less [OF fit] by blast
  obtain t2 m2 r2 where 2: "fold_o (path_of_output tn (hash2 P) h) (t1, ps @ m1) (txn_outputs x) = Ok (t2, (ps @ m1) @ m2)"
    "length m2 = length (txn_outputs x)" "\<forall>mp \<in> set m2. length mp = 160" "root_tree P merkle_tree_depth t2 r2"
    "fold_o (circuit_step P) r1 (steps_of True (txn_outputs x) m2) = Ok r2"
    "set (tree_elements t2) = set (tree_elements t1) \<union> set ?outs"
    using paths_of_outputs_ok [OF P 1(4) f1 f(1) f2 f3, of tn h "ps @ m1"] by blast
  have "set (tree_elements t2) = after_txns ?S [x]"
    using f(3) by (auto simp: 2(6) 1(6) after_txns_def)
  then show ?thesis
    using 1 2 by (intro exI [of _ t2] exI [of _ "m1 @ m2"] exI [of _ r2])
      (auto simp: paths_of_txn_def txn_leaf_steps_def fold_o_append txn_leaves)
qed

text \<open>All transactions of an aggregate: four paths each, in order.\<close>

fun block_leaf_steps :: "utxo_proof list \<Rightarrow> element list list \<Rightarrow> leaf_step list" where
  "block_leaf_steps [] ps = []"
| "block_leaf_steps (t # ts) ps = txn_leaf_steps t (take 4 ps) @ block_leaf_steps ts (drop 4 ps)"

lemma paths_of_txns_ok:
  assumes P: "poseidon_ok P"
  shows "root_tree P merkle_tree_depth t r \<Longrightarrow> txns_fit (set (tree_elements t)) ts \<Longrightarrow>
    \<exists>t' mps r'. fold_o (paths_of_txn tn (hash2 P) h) (t, ps) ts = Ok (t', ps @ mps) \<and> length mps = 4 * length ts \<and>
     (\<forall>mp \<in> set mps. length mp = 160) \<and> root_tree P merkle_tree_depth t' r' \<and>
     fold_o (circuit_step P) r (block_leaf_steps ts mps) = Ok r' \<and>
     set (tree_elements t') = after_txns (set (tree_elements t)) ts"
proof (induction ts arbitrary: t r ps)
  case Nil
  then show ?case by (auto simp: after_txns_def)
next
  case (Cons x ts)
  obtain t1 m1 r1 where 1: "paths_of_txn tn (hash2 P) h (t, ps) x = Ok (t1, ps @ m1)" "length m1 = 4"
    "\<forall>mp \<in> set m1. length mp = 160" "root_tree P merkle_tree_depth t1 r1"
    "fold_o (circuit_step P) r (txn_leaf_steps x m1) = Ok r1"
    "set (tree_elements t1) = after_txns (set (tree_elements t)) [x]"
    using paths_of_txn_ok [OF P Cons.prems(1) txns_fit_split(1) [OF Cons.prems(2)]] by blast
  obtain t2 m2 r2 where 2: "fold_o (paths_of_txn tn (hash2 P) h) (t1, ps @ m1) ts = Ok (t2, (ps @ m1) @ m2)"
    "length m2 = 4 * length ts" "\<forall>mp \<in> set m2. length mp = 160" "root_tree P merkle_tree_depth t2 r2"
    "fold_o (circuit_step P) r1 (block_leaf_steps ts m2) = Ok r2"
    "set (tree_elements t2) = after_txns (set (tree_elements t1)) ts"
    using Cons.IH [OF 1(4), of "ps @ m1"] txns_fit_split(2) [OF Cons.prems(2)] by (auto simp: 1(6))
  have "fold_o (circuit_step P) r (block_leaf_steps (x # ts) (m1 @ m2)) = Ok r2"
    using 1(2,5) 2(5) by (simp add: fold_o_append)
  moreover have "set (tree_elements t2) = after_txns (set (tree_elements t)) (x # ts)"
    using 2(6) 1(6) after_txns_Cons [OF Cons.prems(2)] by simp
  ultimately show ?case
    using 1 2 by (intro exI [of _ t2] exI [of _ "m1 @ m2"] exI [of _ r2]) auto
qed

end
