(* ===== verification/Prover_Rounds.thy ===== *)
theory Prover_Rounds
  imports Prover_Props
begin

text \<open>
  The inputs the prover builds satisfy the circuits: one round of the aggregate circuit for each
  transaction, the whole aggregate, and the aggregate of aggregates.
\<close>

section \<open>Bytes\<close>

lemma length_chunks:
  assumes "0 < n" and "n dvd length xs"
  shows "length (chunks n xs) = length xs div n"
  using assms(2)
proof (induction n xs rule: chunks.induct)
  case (2 n x xs)
  have "n \<le> length (x # xs)" using "2.prems" by (auto dest: dvd_imp_le)
  moreover from this have "n dvd length (drop n (x # xs))"
    using "2.prems" by (metis dvd_diff_nat dvd_refl length_drop)
  ultimately show ?case
    using "2.IH" assms(1) by (simp add: le_div_geq)
qed simp

definition raw_fields :: "u8 list \<Rightarrow> field list" where
  "raw_fields bs = map (to_base \<circ> from_be_bytes) (chunks 32 bs)"

definition field_bytes :: "field list \<Rightarrow> u8 list" where
  "field_bytes xs = concat (map to_be_bytes (map from_base xs))"

lemma length_field_bytes [simp]: "length (field_bytes xs) = 32 * length xs"
  by (induction xs) (simp_all add: field_bytes_def)

lemma proof_fields_raw: "length raw = 508 * 32 \<Longrightarrow> proof_fields raw = Ok (raw_fields raw)"
  using length_chunks [of 32 raw] by (simp add: proof_fields_def bytes_to_elements_def raw_fields_def UTXO_PROOF_SIZE_def comp_def)

lemma field_bytes_elements: "bytes_to_elements (field_bytes xs) = Ok (map from_base xs)"
  unfolding field_bytes_def by (rule bytes_to_elements_concat)

lemma split_field_bytes:
  "length xs = n \<Longrightarrow> length raw = 508 * 32 \<Longrightarrow> split_proof n (field_bytes xs @ raw) = Ok (map from_base xs, raw)"
  using field_bytes_elements [of xs] by (simp add: split_proof_def UTXO_PROOF_SIZE_def mult.commute)

lemma path_fields_160: "length sibs = 160 \<Longrightarrow> path_fields sibs = Ok (map to_base sibs)"
  by (simp add: path_fields_def)

section \<open>Provable transactions\<close>

text \<open>
  What a transaction needs to be part of an aggregate: a kind, messages that its kind does not use
  are zero, and a proof of the right size that the recursive verifier accepts.
\<close>

abbreviation utxo_accepts :: "circuit_env \<Rightarrow> field list \<Rightarrow> field list \<Rightarrow> bool" where
  "utxo_accepts E pr pi \<equiv> ce_verify_proof E (ce_utxo_key E) pr pi (ce_vk_hash E (ce_utxo_key E))"

abbreviation agg_accepts :: "circuit_env \<Rightarrow> field list \<Rightarrow> field list \<Rightarrow> bool" where
  "agg_accepts E pr pi \<equiv> ce_verify_proof E (ce_agg_utxo_key E) pr pi (ce_vk_hash E (ce_agg_utxo_key E))"

text \<open>The circuits at the keys and hashes that the prover passes.\<close>

abbreviation own_round :: "circuit_env \<Rightarrow> field list \<Rightarrow> agg_utxo_state \<Rightarrow> nat \<times> agg_utxo_proof_input \<Rightarrow> agg_utxo_state checked" where
  "own_round E \<equiv> agg_utxo_round E (ce_utxo_key E) (ce_vk_hash E (ce_utxo_key E))"

abbreviation own_agg_utxo :: "circuit_env \<Rightarrow> agg_utxo_input \<Rightarrow> unit checked" where
  "own_agg_utxo E \<equiv> agg_utxo_main E (ce_utxo_key E) (ce_vk_hash E (ce_utxo_key E))"

abbreviation own_agg_round :: "circuit_env \<Rightarrow> agg_agg_input \<Rightarrow> field \<Rightarrow> nat \<times> utxo_agg_proof \<Rightarrow> field checked" where
  "own_agg_round E \<equiv> agg_agg_round E (ce_agg_utxo_key E) (ce_vk_hash E (ce_agg_utxo_key E))"

abbreviation own_agg_agg :: "circuit_env \<Rightarrow> agg_agg_input \<Rightarrow> unit checked" where
  "own_agg_agg E \<equiv> agg_agg_main E (ce_agg_utxo_key E) (ce_vk_hash E (ce_agg_utxo_key E))"

definition messages_canonical :: "public_input \<Rightarrow> bool" where
  "messages_canonical pi \<longleftrightarrow> (case messages pi of (m0, m1, m2, m3, m4) \<Rightarrow>
     m0 = kind_to_element (pi_kind pi) \<and>
     (pi_kind pi = Send \<longrightarrow> m1 = ZERO \<and> m2 = ZERO \<and> m3 = ZERO \<and> m4 = ZERO) \<and> (pi_kind pi = Mint \<longrightarrow> m4 = ZERO))"

definition txn_provable :: "circuit_env \<Rightarrow> utxo_proof \<Rightarrow> bool" where
  "txn_provable E t \<longleftrightarrow> pi_kind (up_public_inputs t) \<noteq> Null \<and> messages_canonical (up_public_inputs t) \<and>
     length (up_proof t) = 508 * 32 \<and>
     utxo_accepts E (raw_fields (up_proof t)) (map to_base (pi_fields (up_public_inputs t)))"

lemma to_base_kind [simp]:
  "to_base (kind_to_element k) = (case k of Null \<Rightarrow> 0 | Send \<Rightarrow> 1 | Mint \<Rightarrow> 2 | Burn \<Rightarrow> 3 | NoSub \<Rightarrow> 4)"
  by (cases k) (simp_all add: to_base_def kind_to_element_def uint_MODULUS)

lemma to_base_0 [simp]: "to_base 0 = 0"
  by (simp add: to_base_def)

lemma default_kind [simp]: "pi_kind (up_public_inputs utxo_proof_default) = Null"
  by (simp add: utxo_proof_default_def pi_kind_def last_be_byte kind_from_u8_def)

text \<open>The bundle of a transaction and its four paths, as the circuit sees it.\<close>

definition round_input :: "utxo_proof \<Rightarrow> element list list \<Rightarrow> agg_utxo_proof_input \<Rightarrow> bool" where
  "round_input u ps ap \<longleftrightarrow> ap_utxo_kind ap = to_base (kind_to_element (pi_kind (up_public_inputs u))) \<and>
     leaves_of ap = map to_base (commitments (up_public_inputs u)) \<and> ap_proof ap = raw_fields (up_proof u) \<and>
     round_steps ap = (if proof_is_padding u then [] else txn_leaf_steps u ps)"

lemma list4_cases: "length ps = 4 \<Longrightarrow> \<exists>a b c d. ps = [a, b, c, d]"
  by (auto simp: length_Suc_conv eval_nat_numeral)

lemma bundle_input:
  assumes "u = utxo_proof_default \<or> txn_provable E u" and "length ps = 4" and "\<forall>p \<in> set ps. length p = 160"
  shows "\<exists>b ap. bundle_of_chunk u ps = Ok b \<and> b_utxo_proof b = u \<and> agg_utxo_proof_input_of b = Ok ap \<and> round_input u ps ap"
proof (cases "proof_is_padding u")
  case True
  then have u: "u = utxo_proof_default"
    using assms(1) by (auto simp: txn_provable_def proof_is_padding_def)
  have "length (merkle_path_default merkle_tree_depth) = 160"
    by (simp add: merkle_path_default_def merkle_tree_depth_def)
  then show ?thesis
    using True by (simp add: bundle_of_chunk_def u bundle_default_def Let_def agg_utxo_proof_input_of_def path_fields_160
        proof_fields_raw round_input_def round_steps_def leaves_of_def commitments_def utxo_proof_default_def
        UTXO_PROOF_SIZE_def pi_kind_def last_be_byte kind_from_u8_def)
next
  case False
  then have len: "length (up_proof u) = 508 * 32" and k: "pi_kind (up_public_inputs u) \<noteq> Null"
    using assms(1) by (auto simp: txn_provable_def proof_is_padding_def)
  obtain a b c d where ps: "ps = [a, b, c, d]" using list4_cases [OF assms(2)] by blast
  have p: "path_fields a = Ok (map to_base a)" "path_fields b = Ok (map to_base b)"
    "path_fields c = Ok (map to_base c)" "path_fields d = Ok (map to_base d)"
    using assms(3) by (simp_all add: ps path_fields_160)
  have "(case pi_kind (up_public_inputs u) of Null \<Rightarrow> 0 | Send \<Rightarrow> 1 | Mint \<Rightarrow> 2 | Burn \<Rightarrow> 3 | NoSub \<Rightarrow> 4) \<noteq> (0 :: int)"
    using k by (cases "pi_kind (up_public_inputs u)") simp_all
  then show ?thesis
    using False p proof_fields_raw [OF len]
    by (simp add: bundle_of_chunk_def ps bundle_new_def agg_utxo_proof_input_of_def Let_def round_input_def
        round_steps_def leaves_of_def commitments_def txn_leaf_steps_def steps_of_def txn_leaves)
qed

section \<open>One round\<close>

lemma circuit_messages_ok:
  assumes m: "messages_canonical pi" and t: "up_public_inputs t = pi" and "pi_kind pi \<noteq> Null"
    and ms: "ms = pre @ map to_base (proof_messages t) @ post"
  shows "circuit_messages ms (length pre) (to_base (kind_to_element (pi_kind pi))) =
     Ok (drop 5 (map to_base (pi_fields pi)), length pre + length (proof_messages t))"
proof -
  obtain m0 m1 m2 m3 m4 where f: "messages pi = (m0, m1, m2, m3, m4)" by (metis prod.exhaust)
  obtain i0 i1 o0 o1 where g: "input_commitments pi = (i0, i1)" "output_commitments pi = (o0, o1)" by (metis prod.exhaust)
  have n: "(pre @ y) ! (length pre + i) = y ! i" for y :: "field list" and i
    by (simp add: nth_append)
  have n0: "(pre @ y) ! length pre = y ! 0" for y :: "field list"
    by (simp add: nth_append)
  show ?thesis
    using m assms(3) by (cases "pi_kind pi")
      (simp_all add: circuit_messages_def ms proof_messages_def t f g pi_fields_def messages_canonical_def n n0 n [of _ 1, simplified] n [of _ 2, simplified] add.assoc)
qed

lemma bind_o_Ok_right [simp]: "bind_o m Ok = m"
  by (cases m) simp_all

lemma agg_utxo_round_real:
  assumes "ap_utxo_kind p \<noteq> 0"
  shows "own_round E ms s (i, p) =
     bind_o (circuit_messages ms (as_messages_index s) (ap_utxo_kind p)) (\<lambda>(m, k).
     let pub = leaves_of p @ [ap_utxo_kind p] @ m
     in bind_o (assert_o (utxo_accepts E (ap_proof p) pub)) (\<lambda>_.
        bind_o (fold_o (circuit_step (ce_poseidon E)) (as_root s) (round_steps p)) (\<lambda>r.
        Ok \<lparr>as_root = r, as_utxo_hashes = as_utxo_hashes s @ [ce_poseidon E (leaves_of p)],
             as_messages_index = k, as_first = (if i = 0 then (ap_proof p, pub) else as_first s)\<rparr>)))"
  using assms by (cases "i = 0") (simp_all add: agg_utxo_round_def Let_def leaves_of_def round_steps_def circuit_step_def)

lemma pi_fields_split: "map to_base (pi_fields pi) =
  map to_base (commitments pi) @ [to_base (fst (messages pi))] @ drop 5 (map to_base (pi_fields pi))"
  by (simp add: pi_fields_def commitments_def split: prod.splits)

lemma round_real:
  assumes t: "txn_provable E u" and ap: "round_input u ps ap"
    and ms: "ms = pre @ map to_base (proof_messages u) @ post" and k: "as_messages_index s = length pre"
    and step: "fold_o (circuit_step (ce_poseidon E)) (as_root s) (txn_leaf_steps u ps) = Ok r"
  shows "own_round E ms s (i, ap) = Ok \<lparr>as_root = r,
     as_utxo_hashes = as_utxo_hashes s @ [ce_poseidon E (map to_base (commitments (up_public_inputs u)))],
     as_messages_index = length pre + length (proof_messages u),
     as_first = (if i = 0 then (raw_fields (up_proof u), map to_base (pi_fields (up_public_inputs u))) else as_first s)\<rparr>"
proof -
  let ?pi = "up_public_inputs u"
  have c: "messages_canonical ?pi" "pi_kind ?pi \<noteq> Null"
    and v: "utxo_accepts E (raw_fields (up_proof u)) (map to_base (pi_fields ?pi))"
    using t by (simp_all add: txn_provable_def)
  have ap': "ap_utxo_kind ap = to_base (kind_to_element (pi_kind ?pi))" "leaves_of ap = map to_base (commitments ?pi)"
    "ap_proof ap = raw_fields (up_proof u)" "round_steps ap = txn_leaf_steps u ps"
    using ap c(2) by (simp_all add: round_input_def proof_is_padding_def)
  have k0: "ap_utxo_kind ap \<noteq> 0"
    using c(2) by (cases "pi_kind ?pi") (simp_all add: ap'(1))
  have pub: "leaves_of ap @ [ap_utxo_kind ap] @ drop 5 (map to_base (pi_fields ?pi)) = map to_base (pi_fields ?pi)"
    using c(1) by (subst (2) pi_fields_split) (simp add: ap' messages_canonical_def split: prod.splits)
  have m: "circuit_messages ms (as_messages_index s) (ap_utxo_kind ap) =
      Ok (drop 5 (map to_base (pi_fields ?pi)), length pre + length (proof_messages u))"
    unfolding k ap'(1) by (rule circuit_messages_ok [OF c(1) _ c(2) ms]) simp
  have fold: "fold_o (circuit_step (ce_poseidon E)) (as_root s) (round_steps ap) = Ok r"
    using step ap'(4) by simp
  show ?thesis
    unfolding agg_utxo_round_real [OF k0] m Let_def bind_o.simps prod.case pub fold
    using v by (simp add: ap'(2,3))
qed

lemma round_padding:
  assumes "round_input utxo_proof_default ps ap" and "0 < i"
    and "as_first s = (pr, pub)" and "utxo_accepts E pr pub"
  shows "own_round E ms s (i, ap) =
     Ok (s\<lparr>as_utxo_hashes := as_utxo_hashes s @ [ce_poseidon E (map to_base (commitments (up_public_inputs utxo_proof_default)))]\<rparr>)"
  using assms by (simp add: agg_utxo_round_def Let_def round_input_def circuit_messages_def leaves_of_def)

section \<open>All rounds\<close>

lemma default_txn [simp]:
  "proof_messages utxo_proof_default = []" "txn_inputs utxo_proof_default = [ZERO, ZERO]"
  "txn_outputs utxo_proof_default = [ZERO, ZERO]"
  using default_kind by (simp_all add: proof_messages_def txn_leaves split: prod.splits) (simp_all add: utxo_proof_default_def)

lemma default_steps: "fold_o (circuit_step P) r (txn_leaf_steps utxo_proof_default ps) = Ok r"
proof -
  have "fold_o (circuit_step P) r (steps_of adds [ZERO, ZERO] qs) = Ok r" for adds qs
    by (cases qs; cases "tl qs") (simp_all add: steps_of_def circuit_step_def spend_input_def add_output_def)
  then show ?thesis by (simp add: txn_leaf_steps_def fold_o_append)
qed

definition first_verified :: "circuit_env \<Rightarrow> agg_utxo_state \<Rightarrow> bool" where
  "first_verified E s \<longleftrightarrow> utxo_accepts E (fst (as_first s)) (snd (as_first s))"

definition round_hash :: "circuit_env \<Rightarrow> utxo_proof \<Rightarrow> field" where
  "round_hash E u = ce_poseidon E (map to_base (commitments (up_public_inputs u)))"

lemma one_round:
  assumes u: "u = utxo_proof_default \<or> txn_provable E u" and ps: "length ps = 4" "\<forall>p \<in> set ps. length p = 160"
    and first: "if i = 0 then txn_provable E u else first_verified E s"
    and ms: "ms = pre @ map to_base (proof_messages u) @ post" and k: "as_messages_index s = length pre"
    and step: "fold_o (circuit_step (ce_poseidon E)) (as_root s) (txn_leaf_steps u ps) = Ok r"
  shows "\<exists>b ap s'. bundle_of_chunk u ps = Ok b \<and> b_utxo_proof b = u \<and> agg_utxo_proof_input_of b = Ok ap \<and>
     own_round E ms s (i, ap) = Ok s' \<and> as_root s' = r \<and> as_utxo_hashes s' = as_utxo_hashes s @ [round_hash E u] \<and>
     as_messages_index s' = length pre + length (proof_messages u) \<and> first_verified E s'"
proof -
  obtain b ap where b: "bundle_of_chunk u ps = Ok b" "b_utxo_proof b = u" "agg_utxo_proof_input_of b = Ok ap"
    "round_input u ps ap"
    using bundle_input [OF u ps] by blast
  show ?thesis
  proof (cases "txn_provable E u")
    case True
    then show ?thesis
      using round_real [OF True b(4) ms k step, of i] b first
      by (auto simp: first_verified_def txn_provable_def round_hash_def)
  next
    case False
    then have d: "u = utxo_proof_default" "0 < i" "first_verified E s"
      using u first by (auto split: if_splits)
    have "as_root s = r" using step default_steps [of "ce_poseidon E" "as_root s" ps] d(1) by simp
    then show ?thesis
      using round_padding [of ps ap i s "fst (as_first s)" "snd (as_first s)" E ms] b d k
      by (auto simp: first_verified_def round_hash_def)
  qed
qed

lemma chunks_4: "length m = 4 \<Longrightarrow> chunks 4 (m @ ms) = m # chunks 4 ms"
  using list4_cases [of m] by auto

lemma rounds_ok:
  assumes "\<forall>u \<in> set us. u = utxo_proof_default \<or> txn_provable E u"
    and "us \<noteq> [] \<longrightarrow> (if i = 0 then txn_provable E (hd us) else first_verified E s)"
    and "ms = pre @ map to_base (concat (map proof_messages us)) @ post" and "as_messages_index s = length pre"
    and "length mps = 4 * length us" and "\<forall>p \<in> set mps. length p = 160"
    and "fold_o (circuit_step (ce_poseidon E)) (as_root s) (block_leaf_steps us mps) = Ok r"
  shows "\<exists>bs aps s'. bundles_of us (chunks 4 mps) = Ok bs \<and> map b_utxo_proof bs = us \<and>
     map agg_utxo_proof_input_of bs = map Ok aps \<and> fold_o (own_round E ms) s (enumerate i aps) = Ok s' \<and>
     as_root s' = r \<and> as_utxo_hashes s' = as_utxo_hashes s @ map (round_hash E) us \<and>
     as_messages_index s' = length pre + length (concat (map proof_messages us))"
  using assms
proof (induction us arbitrary: i s pre mps)
  case (Cons u us)
  let ?m = "take 4 mps" and ?rest = "drop 4 mps"
  obtain r1 where r1: "fold_o (circuit_step (ce_poseidon E)) (as_root s) (txn_leaf_steps u ?m) = Ok r1"
    "fold_o (circuit_step (ce_poseidon E)) r1 (block_leaf_steps us ?rest) = Ok r"
    using Cons.prems(7) by (auto simp: fold_o_append bind_o_Ok_iff)
  have u: "u = utxo_proof_default \<or> txn_provable E u" "if i = 0 then txn_provable E u else first_verified E s"
    using Cons.prems(1,2) by auto
  have m: "length ?m = 4" "\<forall>p \<in> set ?m. length p = 160" and rest: "length ?rest = 4 * length us" "\<forall>p \<in> set ?rest. length p = 160"
    using Cons.prems(5,6) by (auto dest: in_set_takeD in_set_dropD)
  let ?pre = "pre @ map to_base (proof_messages u)"
  have ms: "ms = pre @ map to_base (proof_messages u) @ (map to_base (concat (map proof_messages us)) @ post)"
    and ms': "ms = ?pre @ map to_base (concat (map proof_messages us)) @ post"
    using Cons.prems(3) by simp_all
  obtain b ap s1 where 1: "bundle_of_chunk u ?m = Ok b" "b_utxo_proof b = u" "agg_utxo_proof_input_of b = Ok ap"
    "own_round E ms s (i, ap) = Ok s1" "as_root s1 = r1" "as_utxo_hashes s1 = as_utxo_hashes s @ [round_hash E u]"
    "as_messages_index s1 = length ?pre" "first_verified E s1"
    using one_round [OF u(1) m u(2) ms Cons.prems(4) r1(1)] by auto
  obtain bs aps s' where 2: "bundles_of us (chunks 4 ?rest) = Ok bs" "map b_utxo_proof bs = us"
    "map agg_utxo_proof_input_of bs = map Ok aps" "fold_o (own_round E ms) s1 (enumerate (Suc i) aps) = Ok s'"
    "as_root s' = r" "as_utxo_hashes s' = as_utxo_hashes s1 @ map (round_hash E) us"
    "as_messages_index s' = length ?pre + length (concat (map proof_messages us))"
    using Cons.IH [of "Suc i" s1, OF _ _ ms' 1(7) rest] Cons.prems(1) 1(5,8) r1(2) by auto
  have "chunks 4 mps = ?m # chunks 4 ?rest"
    using chunks_4 [OF m(1), of ?rest] by simp
  then show ?case
    using 1 2 by (intro exI [of _ "b # bs"] exI [of _ "ap # aps"] exI [of _ s']) simp
qed simp

end
