(* ===== verification/Prover_Theorems.thy ===== *)
theory Prover_Theorems
  imports Prover_Rounds
begin

text \<open>
  The prover proves what the node validates: the aggregate proof of a validated block leads from the
  root of the tree to the root the block states. The proof system is assumed complete for the two
  circuits; everything the prover hands to it is shown to satisfy them.
\<close>

section \<open>The proof system\<close>

definition agg_agg_pub :: "agg_agg_input \<Rightarrow> field list" where
  "agg_agg_pub g = gi_old_root g # gi_new_root g # gi_commit_hash g # gi_messages g"

text \<open>
  Completeness: for inputs that satisfy the circuit the proof system returns the public inputs in the
  order of the circuit followed by a proof of 508 elements, which the recursive verifier accepts.
\<close>

definition backend_complete :: "circuit_env \<Rightarrow> backend \<Rightarrow> bool" where
  "backend_complete E B \<longleftrightarrow>
     (\<forall>a. own_agg_utxo E a = Ok () \<longrightarrow> (\<exists>raw. length raw = 508 * 32 \<and>
        B AggUtxoProgram (agg_utxo_input_map E a) = Ok (field_bytes (agg_public a) @ raw) \<and>
        agg_accepts E (raw_fields raw) (agg_public a))) \<and>
     (\<forall>g. own_agg_agg E g = Ok () \<longrightarrow> (\<exists>raw. length raw = 508 * 32 \<and>
        B AggAggProgram (agg_agg_input_map E g) = Ok (field_bytes (agg_agg_pub g) @ raw)))"

section \<open>Roots of sets of notes\<close>

definition notes_root :: "(field list \<Rightarrow> field) \<Rightarrow> element set \<Rightarrow> element" where
  "notes_root P S = smt_root (hash2 P) (slot merkle_tree_depth (sorted_list_of_set S)) [] merkle_tree_depth"

lemma notes_root_tree:
  assumes "tree_inv (hash2 P) cinv merkle_tree_depth t"
  shows "root_hash (hash2 P) t = Ok (notes_root P (set (tree_elements t)))"
  using root_hash_spec [OF assms] tree_inv_sorted [OF assms]
  by (simp add: notes_root_def sorted_list_of_set.idem_if_sorted_distinct)

lemma root_tree_notes: "root_tree P merkle_tree_depth t r \<Longrightarrow> from_base r = notes_root P (set (tree_elements t))"
  using notes_root_tree [of P _ t] by (auto simp: root_tree_def)

lemma root_tree_root: "root_tree P merkle_tree_depth t r \<Longrightarrow> r = to_base (notes_root P (set (tree_elements t)))"
  using root_tree_notes [of P t r] by (metis root_tree_def to_from_base)

section \<open>One aggregate\<close>

definition padded :: "nat \<Rightarrow> element list \<Rightarrow> element list" where
  "padded n ms = ms @ replicate (n - length ms) ZERO"

definition agg_proved :: "circuit_env \<Rightarrow> agg_utxo_proof \<Rightarrow> element list \<Rightarrow> element \<Rightarrow> element \<Rightarrow> bool" where
  "agg_proved E p ms old new \<longleftrightarrow> length (au_proof p) = 508 * 32 \<and>
     ap_messages (au_public_inputs p) = map (from_base \<circ> to_base) ms \<and>
     ap_old_root (au_public_inputs p) = old \<and> ap_new_root (au_public_inputs p) = new \<and>
     is_field (to_base (ap_commit_hash (au_public_inputs p))) \<and>
     agg_accepts E (raw_fields (au_proof p))
       (map to_base ms @ [to_base old, to_base new, to_base (ap_commit_hash (au_public_inputs p))])"

lemma agg_messages_padded: "agg_messages a = Ok (padded 15 (concat (map proof_messages (agg_proofs a))))"
  by (simp add: agg_messages_packed Let_def padded_def)

lemma length_agg_messages: "length us = 3 \<Longrightarrow> length (concat (map proof_messages us)) \<le> 15"
proof -
  assume "length us = 3"
  then obtain a b c where us: "us = [a, b, c]"
    by (auto simp: length_Suc_conv eval_nat_numeral)
  show ?thesis
    using length_proof_messages [of a] length_proof_messages [of b] length_proof_messages [of c] by (simp add: us)
qed

lemma prove_agg_utxo_ok:
  assumes B: "backend_complete E B" and i: "agg_utxo_input_of (ce_poseidon E) a = Ok i"
    and main: "own_agg_utxo E i = Ok ()" and len: "length (ai_messages i) = 15"
  shows "\<exists>raw. prove_agg_utxo B E a = Ok \<lparr>au_proof = raw, au_public_inputs = \<lparr>ap_messages = map from_base (ai_messages i),
       ap_old_root = from_base (ai_old_root i), ap_new_root = from_base (ai_new_root i),
       ap_commit_hash = from_base (ai_commit_hash i)\<rparr>\<rparr> \<and> length raw = 508 * 32 \<and>
     agg_accepts E (raw_fields raw) (agg_public i)"
proof -
  obtain raw where raw: "length raw = 508 * 32"
    "B AggUtxoProgram (agg_utxo_input_map E i) = Ok (field_bytes (agg_public i) @ raw)"
    "agg_accepts E (raw_fields raw) (agg_public i)"
    using B main unfolding backend_complete_def by blast
  have "length (agg_public i) = AGG_UTXO_PUBLIC_INPUTS_COUNT"
    using len by (simp add: agg_public_def AGG_UTXO_PUBLIC_INPUTS_COUNT_def)
  note split = split_field_bytes [OF this raw(1)]
  have "map from_base (agg_public i) ! 15 = from_base (ai_old_root i)" "map from_base (agg_public i) ! 16 = from_base (ai_new_root i)"
    "map from_base (agg_public i) ! 17 = from_base (ai_commit_hash i)" "take 15 (map from_base (agg_public i)) = map from_base (ai_messages i)"
    using len by (simp_all add: agg_public_def nth_append)
  then show ?thesis
    using raw split \<open>length (agg_public i) = AGG_UTXO_PUBLIC_INPUTS_COUNT\<close>
    by (intro exI [of _ raw]) (simp add: prove_agg_utxo_def i)
qed

lemma commit_hash_field: "poseidon_ok P \<Longrightarrow> to_base (hash_merge P es) = P (map to_base es)"
  by (simp add: hash_merge_def poseidon_ok_def)

text \<open>The inputs built from the paths of three transactions satisfy the aggregate circuit.\<close>

lemma aggregate_satisfies:
  assumes P: "poseidon_ok (ce_poseidon E)" and keys: "keys_match E" and us: "length us = 3"
    and ok: "\<forall>u \<in> set us. u = utxo_proof_default \<or> txn_provable E u" "txn_provable E (hd us)"
    and mps: "length mps = 12" "\<forall>mp \<in> set mps. length mp = 160"
    and steps: "fold_o (circuit_step (ce_poseidon E)) r (block_leaf_steps us mps) = Ok r'" and r: "is_field r" "is_field r'"
  shows "\<exists>b0 b1 b2 i. bundles_of us (chunks 4 mps) = Ok [b0, b1, b2] \<and> agg_utxo_input_of (ce_poseidon E)
       \<lparr>ag_proofs = (b0, b1, b2), ag_old_root = from_base r, ag_new_root = from_base r'\<rparr> = Ok i \<and>
     own_agg_utxo E i = Ok () \<and> ai_messages i = map to_base (padded 15 (concat (map proof_messages us))) \<and>
     ai_old_root i = r \<and> ai_new_root i = r' \<and> is_field (ai_commit_hash i)"
proof -
  let ?P = "ce_poseidon E" and ?ms = "concat (map proof_messages us)"
  let ?s0 = "\<lparr>as_root = r, as_utxo_hashes = [], as_messages_index = 0, as_first = ([], [])\<rparr>"
  obtain bs aps s' where 2: "bundles_of us (chunks 4 mps) = Ok bs" "map b_utxo_proof bs = us"
    "map agg_utxo_proof_input_of bs = map Ok aps"
    "fold_o (own_round E (map to_base (padded 15 ?ms))) ?s0 (enumerate 0 aps) = Ok s'" "as_root s' = r'"
    "as_utxo_hashes s' = map (round_hash E) us" "as_messages_index s' = length ?ms"
    using rounds_ok [OF ok(1), of 0 ?s0 "map to_base (padded 15 ?ms)" "[]" "map to_base (replicate (15 - length ?ms) ZERO)" mps r']
      ok(2) mps steps us by (auto simp: padded_def)
  have "length bs = 3" "length aps = 3" using 2(2,3) us by (metis length_map)+
  then obtain b0 b1 b2 p0 p1 p2 where b: "bs = [b0, b1, b2]" "aps = [p0, p1, p2]"
    by (auto simp: length_Suc_conv eval_nat_numeral)
  let ?a = "\<lparr>ag_proofs = (b0, b1, b2), ag_old_root = from_base r, ag_new_root = from_base r'\<rparr>"
  let ?i = "\<lparr>ai_proofs = (p0, p1, p2), ai_messages = map to_base (padded 15 ?ms), ai_old_root = r, ai_new_root = r',
      ai_commit_hash = to_base (agg_commit_hash ?P ?a)\<rparr>"
  have pr: "agg_proofs ?a = us" using 2(2) by (simp add: agg_proofs_def b)
  have i: "agg_utxo_input_of ?P ?a = Ok ?i"
    using 2(3) agg_messages_padded [of ?a] r by (simp add: agg_utxo_input_of_def b pr)
  have "to_base (agg_commit_hash ?P ?a) = ?P (map (round_hash E) us)"
    by (simp add: agg_commit_hash_def pr commit_hash_field [OF P] comp_def commit_hash_def round_hash_def [abs_def])
  then have "own_agg_utxo E ?i = Ok ()"
    using 2(4-7) keys by (simp add: agg_utxo_main_def b keys_match_def padded_def)
  then show ?thesis
    using 2(1) i b by (intro exI [of _ b0] exI [of _ b1] exI [of _ b2] exI [of _ ?i]) simp
qed

lemma aggregate_utxo_ok:
  assumes P: "poseidon_ok (ce_poseidon E)" and keys: "keys_match E" and B: "backend_complete E B"
    and t: "root_tree (ce_poseidon E) merkle_tree_depth t r" and us: "length us = 3"
    and ok: "\<forall>u \<in> set us. u = utxo_proof_default \<or> txn_provable E u" "txn_provable E (hd us)"
    and fit: "txns_fit (set (tree_elements t)) us"
  shows "\<exists>t' p r'. aggregate_utxo B E tn t us h = Ok (t', p) \<and> root_tree (ce_poseidon E) merkle_tree_depth t' r' \<and>
     set (tree_elements t') = after_txns (set (tree_elements t)) us \<and>
     agg_proved E p (padded 15 (concat (map proof_messages us))) (from_base r) (from_base r')"
proof -
  let ?P = "ce_poseidon E" and ?ms = "concat (map proof_messages us)"
  obtain t' mps r' where 1: "fold_o (paths_of_txn tn (hash2 ?P) h) (t, []) us = Ok (t', mps)" "length mps = 12"
    "\<forall>mp \<in> set mps. length mp = 160" "root_tree ?P merkle_tree_depth t' r'"
    "fold_o (circuit_step ?P) r (block_leaf_steps us mps) = Ok r'"
    "set (tree_elements t') = after_txns (set (tree_elements t)) us"
    using paths_of_txns_ok [OF P t fit, of tn h "[]"] us by auto
  have r: "root_hash (hash2 ?P) t = Ok (from_base r)" "root_hash (hash2 ?P) t' = Ok (from_base r')" "is_field r" "is_field r'"
    using t 1(4) by (simp_all add: root_tree_def)
  have gen: "gen_merkle_paths tn (hash2 ?P) t us h = Ok (t', 12, from_base r, from_base r', mps)"
    using 1(1,2) r by (simp add: gen_merkle_paths_def UTXO_AGG_LEAVES_def UTXO_AGG_NUMBER_def)
  have hd: "hd us \<in> set us" using us by (cases us) simp_all
  obtain b0 b1 b2 i where 2: "bundles_of us (chunks 4 mps) = Ok [b0, b1, b2]"
    "agg_utxo_input_of ?P \<lparr>ag_proofs = (b0, b1, b2), ag_old_root = from_base r, ag_new_root = from_base r'\<rparr> = Ok i"
    "own_agg_utxo E i = Ok ()" "ai_messages i = map to_base (padded 15 ?ms)" "ai_old_root i = r" "ai_new_root i = r'"
    "is_field (ai_commit_hash i)"
    using aggregate_satisfies [OF P keys us ok 1(2,3,5) r(3,4)] by blast
  have "length (ai_messages i) = 15" using length_agg_messages [OF us] by (simp add: 2(4) padded_def)
  from prove_agg_utxo_ok [OF B 2(2,3) this] obtain raw where raw:
    "prove_agg_utxo B E \<lparr>ag_proofs = (b0, b1, b2), ag_old_root = from_base r, ag_new_root = from_base r'\<rparr> =
       Ok \<lparr>au_proof = raw, au_public_inputs = \<lparr>ap_messages = map from_base (ai_messages i),
         ap_old_root = from_base r, ap_new_root = from_base r', ap_commit_hash = from_base (ai_commit_hash i)\<rparr>\<rparr>"
    "length raw = 508 * 32" "agg_accepts E (raw_fields raw) (agg_public i)"
    by (auto simp: 2(5,6))
  have "aggregate_utxo B E tn t us h = Ok (t', \<lparr>au_proof = raw, au_public_inputs = \<lparr>ap_messages = map from_base (ai_messages i),
       ap_old_root = from_base r, ap_new_root = from_base r', ap_commit_hash = from_base (ai_commit_hash i)\<rparr>\<rparr>)"
    using ok(2) hd gen 2(1) raw(1) by (auto simp: aggregate_utxo_def txn_provable_def proof_is_padding_def)
  then show ?thesis
    using 1(4,6) raw(2,3) r 2(4-7) by (intro exI [of _ t'] exI exI [of _ r']) (auto simp: agg_proved_def agg_public_def)
qed

section \<open>Two aggregates\<close>

lemma utxo_agg_proof_ok:
  "length (au_proof p) = 508 * 32 \<Longrightarrow> utxo_agg_proof_of p = Ok \<lparr>ua_proof = raw_fields (au_proof p),
     ua_old_root = to_base (ap_old_root (au_public_inputs p)), ua_new_root = to_base (ap_new_root (au_public_inputs p)),
     ua_commit_hash = to_base (ap_commit_hash (au_public_inputs p))\<rparr>"
  by (simp add: utxo_agg_proof_of_def proof_fields_raw)

lemma prove_agg_agg_ok:
  assumes B: "backend_complete E B" and i: "agg_agg_input_of (ce_poseidon E) g = Ok i" and main: "own_agg_agg E i = Ok ()"
  shows "\<exists>raw. prove_agg_agg B E g = Ok \<lparr>aa_proof = raw, aa_pi = \<lparr>aa_pi_old_root = from_base (gi_old_root i),
     aa_pi_new_root = from_base (gi_new_root i), aa_pi_commit_hash = from_base (gi_commit_hash i),
     aa_pi_messages = map from_base (gi_messages i)\<rparr>, aa_kzg = []\<rparr>"
proof -
  obtain raw where raw: "length raw = 508 * 32" "B AggAggProgram (agg_agg_input_map E i) = Ok (field_bytes (agg_agg_pub i) @ raw)"
    using B main unfolding backend_complete_def by blast
  have "length (gi_messages i) = 30"
    using i by (auto simp: agg_agg_input_of_def bind_o_Ok_iff extract_messages_def split: if_splits)
  then have len: "length (agg_agg_pub i) = AGG_AGG_PUBLIC_INPUTS_COUNT"
    by (simp add: agg_agg_pub_def AGG_AGG_PUBLIC_INPUTS_COUNT_def)
  show ?thesis
    using split_field_bytes [OF len raw(1)] raw(2) len \<open>length (gi_messages i) = 30\<close>
    by (intro exI [of _ raw]) (simp add: prove_agg_agg_def i agg_agg_pub_def AGG_AGG_PUBLIC_INPUTS_COUNT_def)
qed

text \<open>The second aggregate continues the first, or it is the padding aggregate.\<close>

lemma agg_agg_ok:
  assumes P: "poseidon_ok (ce_poseidon E)" and keys: "keys_match E" and B: "backend_complete E B"
    and p0: "agg_proved E p0 ms0 r0 r1" "length ms0 = 15" "r0 \<noteq> ZERO" and lt: "r0 < MODULUS" "r1 < MODULUS" "r2 < MODULUS"
    and p1: "agg_proved E p1 ms1 r1 r2 \<and> r1 \<noteq> ZERO \<or> p1 = agg_utxo_proof_default \<and> r2 = r1 \<and> ms1 = replicate 15 ZERO"
    and len: "length ms1 = 15"
  shows "\<exists>q. prove_agg_agg B E (p0, p1) = Ok q \<and> aa_pi_old_root (aa_pi q) = r0 \<and> aa_pi_new_root (aa_pi q) = r2 \<and>
     aa_pi_messages (aa_pi q) = map (from_base \<circ> to_base) (ms0 @ ms1)"
proof -
  let ?P = "ce_poseidon E" and ?u0 = "au_public_inputs p0" and ?u1 = "au_public_inputs p1"
  have u0: "length (au_proof p0) = 508 * 32" "ap_messages ?u0 = map (from_base \<circ> to_base) ms0" "ap_old_root ?u0 = r0" "ap_new_root ?u0 = r1"
    "agg_accepts E (raw_fields (au_proof p0)) (map to_base ms0 @ [to_base r0, to_base r1, to_base (ap_commit_hash ?u0)])"
    using p0(1) by (simp_all add: agg_proved_def)
  have u1: "length (au_proof p1) = 508 * 32" "ap_messages ?u1 = map (from_base \<circ> to_base) ms1"
    using p1 by (auto simp: agg_proved_def agg_utxo_proof_default_def map_replicate_const)
  have z0: "to_base r0 \<noteq> 0" using p0(3) to_base_zero_iff [OF lt(1)] by blast
  have new: "aa_new_root (p0, p1) = r2"
    using p1 u0(4) by (auto simp: aa_new_root_def agg_is_padding_def agg_proved_def agg_utxo_proof_default_def)
  let ?pr = "\<lambda>p. \<lparr>ua_proof = raw_fields (au_proof p), ua_old_root = to_base (ap_old_root (au_public_inputs p)),
     ua_new_root = to_base (ap_new_root (au_public_inputs p)), ua_commit_hash = to_base (ap_commit_hash (au_public_inputs p))\<rparr>"
  let ?i = "\<lparr>gi_proofs = (?pr p0, ?pr p1), gi_messages = map to_base (ms0 @ ms1), gi_old_root = to_base r0,
     gi_new_root = to_base r2, gi_commit_hash = to_base (aa_commit_hash ?P (p0, p1))\<rparr>"
  have "map to_base (map (from_base \<circ> to_base) xs) = map to_base xs" for xs
    by simp
  then have i: "agg_agg_input_of ?P (p0, p1) = Ok ?i"
    using p0(2) len u0 u1 new utxo_agg_proof_ok [OF u0(1)] utxo_agg_proof_ok [OF u1(1)]
    by (simp add: agg_agg_input_of_def extract_messages_def aa_messages_def aa_old_root_def comp_def)
  have first: "own_agg_round E ?i (to_base r0) (0, ?pr p0) = Ok (to_base r1)"
    using u0 z0 p0(2) by (simp add: agg_agg_round_def agg_agg_public_def)
  have second: "own_agg_round E ?i (to_base r1) (Suc 0, ?pr p1) = Ok (to_base r2)"
    using p1
  proof
    assume "agg_proved E p1 ms1 r1 r2 \<and> r1 \<noteq> ZERO"
    then show ?thesis
      using p0(2) len to_base_zero_iff [OF lt(2)] by (simp add: agg_agg_round_def agg_agg_public_def agg_proved_def)
  next
    assume "p1 = agg_utxo_proof_default \<and> r2 = r1 \<and> ms1 = replicate 15 ZERO"
    then show ?thesis
      using u0 p0(2) by (simp add: agg_agg_round_def agg_agg_public_def agg_utxo_proof_default_def)
  qed
  have "own_agg_agg E ?i = Ok ()"
    using first second keys by (simp add: agg_agg_main_def keys_match_def aa_commit_hash_def commit_hash_field [OF P])
  from prove_agg_agg_ok [OF B i this] show ?thesis
    using lt by (auto simp: from_to_base comp_def)
qed

section \<open>A block\<close>

lemma leaves_append [simp]:
  "outputs_of (xs @ ys) = outputs_of xs @ outputs_of ys" "inputs_of (xs @ ys) = inputs_of xs @ inputs_of ys"
  by (simp_all add: outputs_of_def inputs_of_def non_zero_def)

lemma leaves_default [simp]:
  "outputs_of (replicate k utxo_proof_default) = []" "inputs_of (replicate k utxo_proof_default) = []"
  by (induction k) simp_all

lemma txns_fit_append:
  "txns_fit S (xs @ ys) \<Longrightarrow> txns_fit S xs \<and> txns_fit (after_txns S xs) ys \<and> after_txns S (xs @ ys) = after_txns (after_txns S xs) ys"
proof -
  assume fit: "txns_fit S (xs @ ys)"
  have "txns_fit S xs"
    using fit by (auto simp: txns_fit_def slots_distinct_def intro: inj_on_subset)
  moreover have "slots_distinct merkle_tree_depth (after_txns S xs \<union> set (outputs_of ys))"
    using fit unfolding txns_fit_def slots_distinct_def after_txns_def by (elim conjE) (erule inj_on_subset, auto)
  then have "txns_fit (after_txns S xs) ys"
    using fit by (auto simp: txns_fit_def after_txns_def)
  moreover have "after_txns S (xs @ ys) = after_txns (after_txns S xs) ys"
    using fit by (auto simp: txns_fit_def after_txns_def)
  ultimately show ?thesis by blast
qed

lemma txns_fit_pad: "txns_fit S (ts @ replicate k utxo_proof_default) \<longleftrightarrow> txns_fit S ts"
  by (simp add: txns_fit_def)

lemma after_txns_pad: "after_txns S (ts @ replicate k utxo_proof_default) = after_txns S ts"
  by (simp add: after_txns_def)

text \<open>One aggregate of up to three transactions, filled up with padding.\<close>

lemma group_ok:
  assumes "poseidon_ok (ce_poseidon E)" and "keys_match E" and "backend_complete E B"
    and t: "root_tree (ce_poseidon E) merkle_tree_depth t r" and len: "ts \<noteq> []" "length ts \<le> 3"
    and ok: "\<forall>u \<in> set ts. txn_provable E u" and fit: "txns_fit (set (tree_elements t)) ts"
  shows "\<exists>t' p r'. aggregate_utxo B E tn t (ts @ replicate (3 - length ts) utxo_proof_default) h = Ok (t', p) \<and>
     root_tree (ce_poseidon E) merkle_tree_depth t' r' \<and> set (tree_elements t') = after_txns (set (tree_elements t)) ts \<and>
     agg_proved E p (padded 15 (concat (map proof_messages ts)))
       (notes_root (ce_poseidon E) (set (tree_elements t))) (notes_root (ce_poseidon E) (after_txns (set (tree_elements t)) ts))"
proof -
  let ?us = "ts @ replicate (3 - length ts) utxo_proof_default"
  have us: "length ?us = 3" "\<forall>u \<in> set ?us. u = utxo_proof_default \<or> txn_provable E u" "txn_provable E (hd ?us)"
    using len ok by (auto simp: hd_append)
  have ms: "concat (map proof_messages ?us) = concat (map proof_messages ts)"
    by simp
  obtain t' p r' where "aggregate_utxo B E tn t ?us h = Ok (t', p)" and t': "root_tree (ce_poseidon E) merkle_tree_depth t' r'"
    and el: "set (tree_elements t') = after_txns (set (tree_elements t)) ts"
    and "agg_proved E p (padded 15 (concat (map proof_messages ?us))) (from_base r) (from_base r')"
    using aggregate_utxo_ok [OF assms(1-4) us, of tn h] fit unfolding txns_fit_pad after_txns_pad by blast
  then show ?thesis
    using root_tree_notes [OF t] root_tree_notes [OF t'] ms
    by (intro exI [of _ t'] exI [of _ p] exI [of _ r']) (simp add: el)
qed

lemma padding_group: "aggregate_utxo B E tn t (replicate 3 utxo_proof_default) h = Ok (t, agg_utxo_proof_default)"
  by (simp add: aggregate_utxo_def proof_is_padding_def)

lemma notes_root_less:
  assumes "poseidon_ok P" and "root_tree P merkle_tree_depth t r"
  shows "notes_root P (set (tree_elements t)) < MODULUS"
  using root_tree_notes [OF assms(2)] from_base_less [of r] assms(2) by (simp add: root_tree_def)

lemma two_rounds:
  "length us = 6 \<Longrightarrow> aggregate_rounds B E tn h UTXO_AGGREGATIONS t us =
     bind_o (aggregate_utxo B E tn t (take 3 us) h) (\<lambda>(t', p).
     bind_o (aggregate_utxo B E tn t' (drop 3 us) h) (\<lambda>x. Ok [p, snd x]))"
  by (cases "aggregate_utxo B E tn t (take 3 us) h")
    (auto simp: UTXO_AGGREGATIONS_def UTXO_AGG_NUMBER_def numeral_2_eq_2 bind_o_assoc case_prod_beta)

lemma group_or_padding:
  assumes "poseidon_ok (ce_poseidon E)" and "keys_match E" and "backend_complete E B"
    and t: "root_tree (ce_poseidon E) merkle_tree_depth t r" and len: "length ts \<le> 3"
    and ok: "\<forall>u \<in> set ts. txn_provable E u" and fit: "txns_fit (set (tree_elements t)) ts"
    and z: "r1 = notes_root (ce_poseidon E) (set (tree_elements t))" "r1 \<noteq> ZERO"
      "r2 = notes_root (ce_poseidon E) (after_txns (set (tree_elements t)) ts)"
  shows "\<exists>t' p. aggregate_utxo B E tn t (ts @ replicate (3 - length ts) utxo_proof_default) h = Ok (t', p) \<and> r2 < MODULUS \<and>
     (agg_proved E p (padded 15 (concat (map proof_messages ts))) r1 r2 \<and> r1 \<noteq> ZERO \<or>
      p = agg_utxo_proof_default \<and> r2 = r1 \<and> padded 15 (concat (map proof_messages ts)) = replicate 15 ZERO)"
proof (cases "ts = []")
  case True
  then show ?thesis
    using padding_group [of B E tn t h] notes_root_less [OF assms(1) t] z by (auto simp: padded_def after_txns_def)
next
  case False
  then show ?thesis
    using group_ok [OF assms(1-4) False len ok fit, of tn h] notes_root_less [OF assms(1)] z by fastforce
qed

lemma generate_ok:
  assumes P: "poseidon_ok (ce_poseidon E)" and k: "keys_match E" and B: "backend_complete E B"
    and t: "root_tree (ce_poseidon E) merkle_tree_depth t r" and len: "ts \<noteq> []" "length ts \<le> 6"
    and ok: "\<forall>u \<in> set ts. txn_provable E u" and fit: "txns_fit (set (tree_elements t)) ts"
    and z: "notes_root (ce_poseidon E) (set (tree_elements t)) \<noteq> ZERO"
      "notes_root (ce_poseidon E) (after_txns (set (tree_elements t)) (take 3 ts)) \<noteq> ZERO"
  shows "\<exists>q. generate_aggregate_proof B E tn t (map Some ts @ replicate (6 - length ts) None) h = Ok q \<and>
     aa_pi_old_root (aa_pi q) = notes_root (ce_poseidon E) (set (tree_elements t)) \<and>
     aa_pi_new_root (aa_pi q) = notes_root (ce_poseidon E) (after_txns (set (tree_elements t)) ts) \<and>
     aa_pi_messages (aa_pi q) = map (from_base \<circ> to_base)
       (padded 15 (concat (map proof_messages (take 3 ts))) @ padded 15 (concat (map proof_messages (drop 3 ts))))"
proof -
  let ?P = "ce_poseidon E" and ?S = "set (tree_elements t)" and ?a = "take 3 ts" and ?b = "drop 3 ts"
  let ?us = "ts @ replicate (6 - length ts) utxo_proof_default"
  have us: "length ?us = 6" "take 3 ?us = ?a @ replicate (3 - length ?a) utxo_proof_default"
    "drop 3 ?us = ?b @ replicate (3 - length ?b) utxo_proof_default"
    using len by auto
  have f: "txns_fit ?S ?a" "txns_fit (after_txns ?S ?a) ?b" "after_txns ?S ts = after_txns (after_txns ?S ?a) ?b"
    using txns_fit_append [of ?S ?a ?b] fit by simp_all
  have pad: "length (padded 15 (concat (map proof_messages xs))) = 15" if "length xs \<le> 3" for xs
    using length_agg_messages [of "xs @ replicate (3 - length xs) utxo_proof_default"] that by (simp add: padded_def)
  have la: "?a \<noteq> []" "length ?a \<le> 3" "\<forall>u \<in> set ?a. txn_provable E u" and lb: "length ?b \<le> 3" "\<forall>u \<in> set ?b. txn_provable E u"
    using len ok by (auto dest: in_set_takeD in_set_dropD)
  obtain t1 p r1 where 1: "aggregate_utxo B E tn t (take 3 ?us) h = Ok (t1, p)" "root_tree ?P merkle_tree_depth t1 r1"
    "set (tree_elements t1) = after_txns ?S ?a"
    "agg_proved E p (padded 15 (concat (map proof_messages ?a))) (notes_root ?P ?S) (notes_root ?P (after_txns ?S ?a))"
    using group_ok [OF P k B t la f(1)] unfolding us(2) by blast
  obtain t2 q where 2: "aggregate_utxo B E tn t1 (drop 3 ?us) h = Ok (t2, q)" "notes_root ?P (after_txns ?S ts) < MODULUS"
      "agg_proved E q (padded 15 (concat (map proof_messages ?b))) (notes_root ?P (after_txns ?S ?a)) (notes_root ?P (after_txns ?S ts)) \<and>
         notes_root ?P (after_txns ?S ?a) \<noteq> ZERO \<or>
       q = agg_utxo_proof_default \<and> notes_root ?P (after_txns ?S ts) = notes_root ?P (after_txns ?S ?a) \<and>
       padded 15 (concat (map proof_messages ?b)) = replicate 15 ZERO"
    using group_or_padding [OF P k B 1(2) lb f(2) [folded 1(3)] _ z(2), of "notes_root ?P (after_txns ?S ts)" tn h]
    unfolding us(3) 1(3) f(3) by blast
  have lt: "notes_root ?P ?S < MODULUS" "notes_root ?P (after_txns ?S ?a) < MODULUS"
    using notes_root_less [OF P t] notes_root_less [OF P 1(2)] by (simp_all add: 1(3))
  have "aggregate_rounds B E tn h UTXO_AGGREGATIONS t ?us = Ok [p, q]"
    using two_rounds [OF us(1), of B E tn h t] 1(1) 2(1) by simp
  then have "generate_aggregate_proof B E tn t (map Some ts @ replicate (6 - length ts) None) h =
      map_err BarretenbergProve (prove_agg_agg B E (p, q))"
    by (simp add: generate_aggregate_proof_def Let_def comp_def)
  then show ?thesis
    using agg_agg_ok [OF P k B 1(4) pad [OF la(2)] z(1) lt 2(2,3) pad [OF lb(1)]] by auto
qed

section \<open>Properties\<close>

text \<open>
  What the node validates, the prover can prove. Take a validated block of one to six transactions,
  whose unused messages are zero and whose proofs the recursive verifier accepts, and a prover whose
  tree holds the notes of the node. With a proof system that proves satisfied circuits, the aggregation
  of the block succeeds; the public inputs of its proof are the root of the tree before the block, the
  root the block states, and the messages of its transactions.
\<close>

lemma validated_block_provable:
  assumes "validate_block N bad_blocks db p b = Ok ()" and "block_height b \<notin> set bad_blocks"
    and "persistent_inv merkle_tree_depth (tree_hash N) p"
    and "slots_distinct merkle_tree_depth (set (tree_elements (pe_tree p)) \<union> set (block_outputs (bc_state (bk_content b))))"
    and "ts = bs_txns (bc_state (bk_content b))" and "ts \<noteq> []" and "length ts \<le> MAXIMUM_TXNS" and "\<forall>u \<in> set ts. txn_provable E u"
    and "ne_poseidon N = ce_poseidon E" and "poseidon_ok (ce_poseidon E)" and "keys_match E" and "backend_complete E B"
    and "root_tree (ce_poseidon E) merkle_tree_depth t r" and "set (tree_elements t) = set (tree_elements (pe_tree p))"
    and "notes_root (ce_poseidon E) (set (tree_elements t)) \<noteq> ZERO"
    and "notes_root (ce_poseidon E) (after_txns (set (tree_elements t)) (take 3 ts)) \<noteq> ZERO"
  shows "\<exists>q. generate_aggregate_proof B E tn t (map Some ts @ replicate (MAXIMUM_TXNS - length ts) None) (block_height b) = Ok q \<and>
     root_hash (tree_hash N) (pe_tree p) = Ok (aa_pi_old_root (aa_pi q)) \<and> aa_pi_new_root (aa_pi q) = block_root b \<and>
     aa_pi_messages (aa_pi q) = map (from_base \<circ> to_base)
       (padded 15 (concat (map proof_messages (take 3 ts))) @ padded 15 (concat (map proof_messages (drop 3 ts))))"
proof -
  let ?s = "bc_state (bk_content b)" and ?P = "ce_poseidon E"
  have H: "tree_hash N = hash2 ?P" using assms(9) by (simp add: tree_hash_def)
  have v: "content_validate N db p (bk_content b) = Ok ()"
    using assms(1,2) by (auto simp: validate_block_def bind_o_Ok_iff split: if_splits)
  note fits = content_validate_fits [OF v assms(4)]
  have "\<forall>e \<in> set (outputs_of ts). e < MODULUS"
    using v unfolding content_validate_Ok assms(5) by (auto simp: txn_valid_def outputs_of_def non_zero_def)
  then have fit: "txns_fit (set (tree_elements t)) ts"
    using fits assms(5,14) by (simp add: state_fits_def txns_fit_def)
  obtain p' :: notes_tree where p': "persistent_inv merkle_tree_depth (tree_hash N) p'"
    "root_hash (tree_hash N) (pe_tree p') = Ok (block_root b)"
    "set (tree_elements (pe_tree p')) = set (tree_elements (pe_tree p)) \<union> set (block_outputs ?s) - set (block_inputs ?s)"
    using apply_block_ok [OF assms(3) fits v [unfolded content_validate_Ok, THEN conjunct2, THEN conjunct2], of tn "block_height b"]
    by blast
  have root: "root_hash (hash2 ?P) (pe_tree x) = Ok (notes_root ?P (set (tree_elements (pe_tree x))))"
    if "persistent_inv merkle_tree_depth (tree_hash N) x" for x :: notes_tree
    using notes_root_tree [of ?P _ "pe_tree x"] that by (auto simp: persistent_inv_def H)
  have new: "notes_root ?P (after_txns (set (tree_elements t)) ts) = block_root b"
    using root [OF p'(1)] p'(2,3) assms(5,14) by (simp add: H after_txns_def)
  have six: "MAXIMUM_TXNS = 6" by (simp add: MAXIMUM_TXNS_def UTXO_AGG_NUMBER_def UTXO_AGGREGATIONS_def)
  show ?thesis
    using generate_ok [OF assms(10-13,6) _ assms(8) fit assms(15,16), of tn "block_height b"] assms(7)
      root [OF assms(3)] assms(14) new unfolding six H by metis
qed

subsection \<open>A proof system that only repeats its inputs\<close>

definition demo_circuits :: circuit_env where
  "demo_circuits = \<lparr>ce_poseidon = (\<lambda>_. 7), ce_vk_hash = (\<lambda>k. if k = [1] then UTXO_VERIFICATION_KEY_HASH else AGG_UTXO_VERIFICATION_KEY_HASH),
     ce_utxo_key = [1], ce_agg_utxo_key = [2], ce_verify_proof = (\<lambda>_ _ _ _. True)\<rparr>"

fun field_of :: "input_value \<Rightarrow> field" where
  "field_of (FieldV x) = x"
| "field_of _ = 0"

fun vec_of :: "input_value \<Rightarrow> field list" where
  "vec_of (VecV xs) = map field_of xs"
| "vec_of _ = []"

definition named :: "input_map \<Rightarrow> string \<Rightarrow> input_value" where
  "named m n = (case map_of m n of Some v \<Rightarrow> v | None \<Rightarrow> VecV [])"

fun demo_backend :: backend where
  "demo_backend AggUtxoProgram m = Ok (field_bytes (vec_of (named m ''messages'') @
     [field_of (named m ''old_root''), field_of (named m ''new_root''), field_of (named m ''commit_hash'')]) @ replicate (508 * 32) 0)"
| "demo_backend AggAggProgram m = Ok (field_bytes ([field_of (named m ''old_root''), field_of (named m ''new_root''),
     field_of (named m ''commit_hash'')] @ vec_of (named m ''messages'')) @ replicate (508 * 32) 0)"
| "demo_backend UtxoProgram m = Err ''not used''"

lemma demo_backend_complete: "backend_complete demo_circuits demo_backend"
  by (auto simp: backend_complete_def agg_utxo_input_map_def agg_agg_input_map_def named_def fields_v_def comp_def
      agg_public_def agg_agg_pub_def demo_circuits_def split: prod.splits)

definition demo_seven_env :: node_env where
  "demo_seven_env = demo_node_env\<lparr>ne_poseidon := (\<lambda>_. 7)\<rparr>"

definition demo_proved_txn :: utxo_proof where
  "demo_proved_txn = (demo_mint_txn 3 5)\<lparr>up_proof := replicate (508 * 32) 0\<rparr>"

lemma demo_seven_roots:
  "hash2 (\<lambda>_. 7) = (\<lambda>_ _. 7)" "notes_root (\<lambda>_. 7) S = 7" "poseidon_ok (\<lambda>_. 7)" "is_field 7" "from_base 7 = 7"
proof -
  show h: "hash2 (\<lambda>_. 7) = (\<lambda>_ _. 7)"
    by (simp add: fun_eq_iff hash2_def hash_merge_def from_base_def)
  have "smt_root (\<lambda>_ _. 7) f q (Suc (Suc n)) = 7" for f q n by simp
  from this [of _ _ 159] show "notes_root (\<lambda>_. 7) S = 7"
    by (simp add: notes_root_def h merkle_tree_depth_def)
qed (simp_all add: poseidon_ok_def is_field_def uint_MODULUS from_base_def)

lemma demo_proved_leaves:
  "outputs_of [demo_proved_txn] = [3, 5]" "inputs_of [demo_proved_txn] = []" "txn_provable demo_circuits demo_proved_txn"
  by (simp_all add: demo_proved_txn_def demo_mint_txn_def txn_leaves txn_provable_def messages_canonical_def pi_kind_def
      last_be_byte kind_from_u8_def kind_to_element_def demo_circuits_def)

lemma demo_prover_root: "root_tree (\<lambda>_. 7) merkle_tree_depth (pe_tree demo_notes) 7"
proof -
  have "tree_inv (hash2 (\<lambda>_. 7)) (simple_inv (hash2 (\<lambda>_. 7))) merkle_tree_depth (pe_tree demo_notes)"
    using demo_notes_inv [of demo_seven_env] by (simp add: persistent_inv_def demo_seven_env_def tree_hash_def)
  then show ?thesis
    using notes_root_tree [of "\<lambda>_. 7" _ "pe_tree demo_notes"] demo_seven_roots
    by (auto simp: root_tree_def demo_notes_empty)
qed

lemma demo_proved_block:
  "\<exists>r. validate_block demo_seven_env [] [] demo_notes (demo_block [demo_proved_txn] r) = Ok ()"
proof -
  have "txn_valid demo_node_env [] demo_notes (demo_mint_txn 3 5)"
    by (rule demo_txn_valid) (simp_all add: MODULUS_def)
  then have v: "txn_valid demo_seven_env [] demo_notes demo_proved_txn"
    by (simp add: txn_valid_def demo_seven_env_def demo_node_env_def demo_proved_txn_def txn_leaves txn_mint_hash_def)
  have "slots_distinct merkle_tree_depth {3, 5}"
    using demo_slots by (auto simp: slots_distinct_def intro: inj_on_subset)
  then have "state_fits demo_notes \<lparr>bs_root_hash = 0, bs_txns = [demo_proved_txn]\<rparr>"
    using demo_proved_leaves by (simp add: state_fits_def demo_notes_empty insert_commute)
  then obtain r where "new_root_hash demo_seven_env demo_notes [3, 5] [] = Ok r"
    using new_root_hash_ok [OF demo_notes_inv, of "\<lparr>bs_root_hash = 0, bs_txns = [demo_proved_txn]\<rparr>" demo_seven_env]
      demo_proved_leaves by auto
  then have "content_validate demo_seven_env [] demo_notes (bk_content (demo_block [demo_proved_txn] r)) = Ok ()"
    using v demo_proved_leaves by (simp add: content_validate_Ok)
  then show ?thesis
    by (intro exI [of _ r]) (simp add: validate_block_def get_leader_for_block_height_def demo_block_def sig_verify_def
        demo_seven_env_def demo_node_env_def)
qed

subsection \<open>Messages the aggregate cannot carry\<close>

lemma send_round:
  assumes "own_round E ms s (i, p) = Ok s'" and "ap_utxo_kind p = 1"
  shows "utxo_accepts E (ap_proof p) (leaves_of p @ [1, 0, 0, 0, 0])"
  using assms agg_utxo_round_real [of p E ms s i]
  by (auto simp: circuit_messages_def bind_o_Ok_iff Let_def)

lemma send_input:
  assumes "agg_utxo_proof_input_of b = Ok p" and "pi_kind (up_public_inputs (b_utxo_proof b)) = Send"
    and "length (up_proof (b_utxo_proof b)) = 508 * 32"
  shows "ap_utxo_kind p = 1 \<and> ap_proof p = raw_fields (up_proof (b_utxo_proof b)) \<and>
     leaves_of p = map to_base (commitments (up_public_inputs (b_utxo_proof b)))"
  using assms by (auto simp: agg_utxo_proof_input_of_def Let_def bind_o_Ok_iff proof_fields_raw leaves_of_def commitments_def)

definition stray_send :: utxo_input where
  "stray_send = (let n = \<lparr>bn_kind = 0, bn_value = 0, bn_address = 0, bn_psi = 0\<rparr>; i = \<lparr>bi_note = n, bi_secret_key = 0\<rparr>
     in \<lparr>ui_input_notes = (i, i), ui_output_notes = (n, n), ui_pmessage4 = 0, ui_commitments = (0, 0, 0, 0),
         ui_messages = (1, 99, 0, 0, 0)\<rparr>)"

text \<open>
  C38. The transaction circuit does not constrain the messages of a send: it is satisfied with a stray
  value in them, so such a transaction has a valid proof and the node accepts it. The aggregate
  circuit verifies a send for zero messages only. A block with a send whose proof is not a proof for
  zero messages therefore has no aggregate: the inputs the prover builds never satisfy the circuit.
\<close>

theorem stray_message_unprovable:
  assumes "b \<in> {b0, b1, b2}" and "b_utxo_proof b = u" and "pi_kind (up_public_inputs u) = Send"
    and "length (up_proof u) = 508 * 32"
    and "\<not> utxo_accepts E (raw_fields (up_proof u))
       (map to_base (commitments (up_public_inputs u)) @ [1, 0, 0, 0, 0])"
  shows "utxo_main P stray_send = Ok () \<and>
     (\<forall>old new i. agg_utxo_input_of (ce_poseidon E) \<lparr>ag_proofs = (b0, b1, b2), ag_old_root = old, ag_new_root = new\<rparr> = Ok i \<longrightarrow>
        own_agg_utxo E i \<noteq> Ok ())"
proof -
  have "utxo_main P stray_send = Ok ()"
    by (simp add: stray_send_def Let_def utxo_main_def check_commitment_def get_note_commitment_def assert_max_bit_size_def
        is_multiple_kinds_def scan_kind_def utxo_kind_checks_def field_add_def check_input_note_ownership_def)
  moreover have False if i: "agg_utxo_input_of (ce_poseidon E) \<lparr>ag_proofs = (b0, b1, b2), ag_old_root = old, ag_new_root = new\<rparr> = Ok i"
      and m: "own_agg_utxo E i = Ok ()" for old new i
  proof -
    obtain p0 p1 p2 where p: "agg_utxo_proof_input_of b0 = Ok p0" "agg_utxo_proof_input_of b1 = Ok p1"
      "agg_utxo_proof_input_of b2 = Ok p2" "ai_proofs i = (p0, p1, p2)"
      using i by (auto simp: agg_utxo_input_of_def bind_o_Ok_iff)
    obtain s0 s1 s2 s3 where s: "own_round E (ai_messages i) s0 (0, p0) = Ok s1"
      "own_round E (ai_messages i) s1 (Suc 0, p1) = Ok s2" "own_round E (ai_messages i) s2 (Suc (Suc 0), p2) = Ok s3"
      using m by (auto simp: agg_utxo_main_def p(4) bind_o_Ok_iff)
    show False
      using assms s [THEN send_round] p(1-3) [THEN send_input] by auto
  qed
  ultimately show ?thesis by blast
qed

definition demo_stray_txn :: utxo_proof where
  "demo_stray_txn = \<lparr>up_proof = replicate (508 * 32) 0, up_public_inputs = \<lparr>input_commitments = (0, 0),
     output_commitments = (0, 0), messages = (1, 99, 0, 0, 0)\<rparr>\<rparr>"

definition demo_strict :: circuit_env where
  "demo_strict = demo_circuits\<lparr>ce_verify_proof := (\<lambda>_ _ pi _. pi = [0, 0, 0, 0, 1, 99, 0, 0, 0])\<rparr>"

theorem stray_message_unprovable_witness:
  "utxo_accepts demo_strict (raw_fields (up_proof demo_stray_txn))
       (map to_base (pi_fields (up_public_inputs demo_stray_txn))) \<and>
   bind_o (agg_utxo_input_of (ce_poseidon demo_strict) \<lparr>ag_proofs = (bundle_default\<lparr>b_utxo_proof := demo_stray_txn\<rparr>, bundle_default, bundle_default),
       ag_old_root = 7, ag_new_root = 7\<rparr>) (own_agg_utxo demo_strict) \<noteq> Ok ()"
proof -
  have k: "pi_kind (up_public_inputs demo_stray_txn) = Send" "length (up_proof demo_stray_txn) = 508 * 32"
    by (simp_all add: demo_stray_txn_def pi_kind_def last_be_byte kind_from_u8_def)
  have v: "to_base (1 :: element) = 1" "to_base (99 :: element) = 99"
    by (simp_all add: to_base_def uint_MODULUS)
  show ?thesis
    using stray_message_unprovable [of "bundle_default\<lparr>b_utxo_proof := demo_stray_txn\<rparr>" "bundle_default\<lparr>b_utxo_proof := demo_stray_txn\<rparr>"
        bundle_default bundle_default demo_stray_txn demo_strict] k v
    by (auto simp: bind_o_Ok_iff demo_strict_def pi_fields_def commitments_def demo_stray_txn_def)
qed

end
