(* ===== verification/Prover_Demo.thy ===== *)
theory Prover_Demo
  imports Prover_Theorems
begin

text \<open>
  The soundness theorems of the circuits at concrete inputs: a mint of one note of value 8, its
  aggregate with two padding rounds and the rollup proof of that aggregate, for a hash with the
  constant value 7 and a verifier that accepts exactly the public inputs of these two proofs.
\<close>

section \<open>A mint\<close>

definition demo_note :: "field \<Rightarrow> field \<Rightarrow> b_note" where
  "demo_note k v = \<lparr>bn_kind = k, bn_value = v, bn_address = k, bn_psi = k\<rparr>"

definition demo_mint_input :: utxo_input where
  "demo_mint_input = (let i = \<lparr>bi_note = demo_note 0 0, bi_secret_key = 0\<rparr>
     in \<lparr>ui_input_notes = (i, i), ui_output_notes = (demo_note 1 8, demo_note 0 0), ui_pmessage4 = 0,
         ui_commitments = (0, 0, 7, 0), ui_messages = (2, 1, 8, 7, 0)\<rparr>)"

lemma demo_mint_main: "utxo_main (\<lambda>_. 7) demo_mint_input = Ok ()"
  by (simp add: demo_mint_input_def demo_note_def Let_def utxo_main_def check_commitment_def get_note_commitment_def
      assert_max_bit_size_def is_multiple_kinds_def scan_kind_def utxo_kind_checks_def field_add_def uint_MODULUS
      check_input_note_ownership_def)

lemma demo_mint_public: "utxo_public demo_mint_input = [0, 0, 7, 0, 2, 1, 8, 7, 0]"
  by (simp add: demo_mint_input_def Let_def utxo_public_def)

theorem utxo_circuit_conserves_witness:
  "utxo_main (\<lambda>_. 7) demo_mint_input = Ok () \<and> value_in demo_mint_input = 0 \<and> value_out demo_mint_input = 8 \<and>
   value_out demo_mint_input = value_in demo_mint_input + 8 \<and>
   (\<exists>k. \<forall>n \<in> set (all_notes_of demo_mint_input). bn_kind n \<in> {0, k})"
proof -
  have n: "\<forall>n \<in> set (all_notes_of demo_mint_input). is_field (bn_value n)" "is_field 8"
    by (simp_all add: all_notes_of_def demo_mint_input_def demo_note_def Let_def is_field_def uint_MODULUS)
  have m: "ui_messages demo_mint_input = (2, 1, 8, 7, 0)"
    by (simp add: demo_mint_input_def Let_def)
  have v: "value_in demo_mint_input = 0" "value_out demo_mint_input = 8"
    by (simp_all add: value_in_def value_out_def demo_mint_input_def demo_note_def Let_def)
  show ?thesis
    using utxo_circuit_conserves [OF demo_mint_main m n] demo_mint_main v
    by (simp add: demo_mint_input_def demo_note_def Let_def)
qed

section \<open>Its aggregate\<close>

definition demo_round :: agg_utxo_proof_input where
  "demo_round = \<lparr>ap_proof = [], ap_input_merkle_paths = (replicate 160 0, replicate 160 0),
     ap_output_merkle_paths = (replicate 160 7, replicate 160 0), ap_input_commitments = (0, 0),
     ap_output_commitments = (7, 0), ap_utxo_kind = 2\<rparr>"

definition demo_padding :: agg_utxo_proof_input where
  "demo_padding = demo_round\<lparr>ap_output_commitments := (0, 0), ap_utxo_kind := 0\<rparr>"

definition demo_messages :: "field list" where
  "demo_messages = [2, 1, 8, 7] @ replicate 11 0"

definition demo_aggregate :: agg_utxo_input where
  "demo_aggregate = \<lparr>ai_proofs = (demo_round, demo_padding, demo_padding), ai_messages = demo_messages,
     ai_old_root = 7, ai_new_root = 7, ai_commit_hash = 7\<rparr>"

definition demo_sound :: circuit_env where
  "demo_sound = demo_circuits\<lparr>ce_verify_proof := (\<lambda>k _ pi h. ce_vk_hash demo_circuits k = h \<and>
     (k = [1] \<and> pi = [0, 0, 7, 0, 2, 1, 8, 7, 0] \<or> k = [2] \<and> pi = demo_messages @ [7, 7, 7]))\<rparr>"

lemma demo_sound_simps:
  "ce_poseidon demo_sound = (\<lambda>_. 7)" "ce_utxo_key demo_sound = [1]" "ce_agg_utxo_key demo_sound = [2]"
  "ce_vk_hash demo_sound k = (if k = [1] then UTXO_VERIFICATION_KEY_HASH else AGG_UTXO_VERIFICATION_KEY_HASH)"
  "ce_verify_proof demo_sound k pr pi h \<longleftrightarrow> ce_vk_hash demo_sound k = h \<and>
     (k = [1] \<and> pi = [0, 0, 7, 0, 2, 1, 8, 7, 0] \<or> k = [2] \<and> pi = demo_messages @ [7, 7, 7])"
  by (simp_all add: demo_sound_def demo_circuits_def)

lemma constant_root: "sps \<noteq> [] \<Longrightarrow> merkle_root_loop (\<lambda>_. 7) x sps = 7"
proof (induction sps arbitrary: x)
  case (Cons sp sps)
  then show ?case by (cases sp; cases sps) auto
qed simp

lemma demo_insert: "add_output (\<lambda>_. 7) 7 (7, replicate 160 7) = Ok 7"
proof -
  have "zip (replicate 160 7) (to_le_bits 7) \<noteq> []" by (simp add: to_le_bits_def flip: length_0_conv)
  then show ?thesis
    by (simp add: add_output_def validate_null_def get_null_root_def get_merkle_root_def constant_root)
qed

lemma demo_skip: "add_output P r (0, path) = Ok r"
  by (simp add: add_output_def)

lemma demo_aggregate_main: "agg_utxo_main demo_sound [1] UTXO_VERIFICATION_KEY_HASH demo_aggregate = Ok ()"
  by (simp add: agg_utxo_main_def demo_aggregate_def agg_utxo_round_def demo_sound_simps Let_def demo_round_def
      demo_padding_def circuit_messages_def demo_messages_def spend_input_def demo_insert demo_skip)

lemma demo_aggregate_steps: "\<forall>st \<in> set (agg_steps demo_aggregate). step_ok 161 st"
  by (simp add: agg_steps_def demo_aggregate_def round_steps_def demo_round_def demo_padding_def step_ok_def
      demo_seven_roots)

lemma demo_aggregate_tree:
  "root_tree (ce_poseidon demo_sound) 161 (pe_tree demo_notes) 7"
  using demo_prover_root by (simp add: demo_sound_simps merkle_tree_depth_def)

section \<open>The rollup proof\<close>

definition demo_rollup :: agg_agg_input where
  "demo_rollup = (let p = \<lparr>ua_proof = [], ua_old_root = 7, ua_new_root = 7, ua_commit_hash = 7\<rparr>
     in \<lparr>gi_proofs = (p, p\<lparr>ua_old_root := 0\<rparr>), gi_messages = demo_messages @ replicate 15 0,
         gi_old_root = 7, gi_new_root = 7, gi_commit_hash = 7\<rparr>)"

lemma demo_rollup_main: "agg_agg_main demo_sound [2] AGG_UTXO_VERIFICATION_KEY_HASH demo_rollup = Ok ()"
  by (simp add: agg_agg_main_def demo_rollup_def Let_def agg_agg_round_def demo_sound_simps agg_agg_public_def
      demo_messages_def)

lemma demo_verifier_sound: "verifier_sound demo_sound"
proof -
  have "agg_public demo_aggregate = demo_messages @ [7, 7, 7]" "agg_fields_ok demo_aggregate"
    using demo_aggregate_steps by (simp_all add: agg_public_def agg_fields_ok_def demo_aggregate_def demo_seven_roots)
  then show ?thesis
    using demo_mint_main demo_mint_public demo_aggregate_main
    unfolding verifier_sound_def demo_sound_simps(1-3,5) by auto
qed

lemma demo_keys_match: "keys_match demo_sound"
  by (simp add: keys_match_def demo_sound_simps)

lemma demo_key_collision: "\<not> key_collision demo_sound k (ce_utxo_key demo_sound)"
  by (simp add: key_collision_def demo_sound_simps UTXO_VERIFICATION_KEY_HASH_def AGG_UTXO_VERIFICATION_KEY_HASH_def)

text \<open>
  No key collides with that of the transaction circuit here, so every transaction of the
  aggregates is proved.
\<close>

theorem rollup_proof_sound_witness:
  "agg_agg_main demo_sound [2] AGG_UTXO_VERIFICATION_KEY_HASH demo_rollup = Ok () \<and> verifier_sound demo_sound \<and>
   (\<exists>as. length as \<le> 2 \<and> agg_chain 7 as 7 \<and>
      (\<forall>a \<in> set as. \<forall>p \<in> set (rounds_of a). proved_round demo_sound p) \<and>
      (case fold_o (replay_step (ce_poseidon demo_sound) 161 9) (pe_tree demo_notes) (concat (map agg_steps as)) of
         Ok t' \<Rightarrow> set (tree_elements t') = foldl step_elements {} (concat (map agg_steps as))
       | Err pq \<Rightarrow> hash_collision (ce_poseidon demo_sound) pq | Panic \<Rightarrow> False))"
proof -
  have r: "gi_old_root demo_rollup = 7" "gi_new_root demo_rollup = 7"
    by (simp_all add: demo_rollup_def Let_def)
  have p: "poseidon_ok (ce_poseidon demo_sound)"
    by (simp add: demo_sound_simps demo_seven_roots)
  have "\<not> key_collision demo_sound [2] (ce_agg_utxo_key demo_sound)"
    by (simp add: key_collision_def demo_sound_simps)
  then obtain as where as: "length as \<le> 2" "agg_chain 7 as 7" "\<forall>a \<in> set as. agg_accepted demo_sound a"
    "case fold_o (replay_step (ce_poseidon demo_sound) 161 9) (pe_tree demo_notes) (concat (map agg_steps as)) of
       Ok t' \<Rightarrow> root_hash (hash2 (ce_poseidon demo_sound)) t' = Ok (from_base 7) \<and>
         steps_valid {} (concat (map agg_steps as)) \<and> set (tree_elements t') = foldl step_elements {} (concat (map agg_steps as))
     | Err pq \<Rightarrow> hash_collision (ce_poseidon demo_sound) pq | Panic \<Rightarrow> False"
    using rollup_proof_sound [OF demo_rollup_main demo_verifier_sound demo_keys_match p demo_aggregate_tree [folded r(1)], of 9]
    unfolding r demo_notes_empty list.set by blast
  then show ?thesis
    using demo_rollup_main demo_verifier_sound demo_key_collision
    by (intro conjI exI [of _ as]) (auto simp: agg_accepted_def split: outcome.splits)
qed

end
