(* ===== verification/Prover_Worker.thy ===== *)
theory Prover_Worker
  imports Prover_Theorems Node_State
begin

text \<open>
  The prover of a node (\<open>node/src/prover\<close>): its database, the worker that proves every committed
  block and the worker that submits the proofs to the rollup contract. What the disk, the postgres
  server, the Ethereum client and the clock answer are arguments. A write that fails ends the worker
  with the state reached so far; a stop of the process between two writes leaves the same state.
  Advisory locks are released by background tasks and appear only through the answers of postgres.
\<close>

section \<open>Database\<close>

datatype pdb_error = PdbInvalidKey | PdbInvalidValue | PdbRocksDB | PdbWireMessage | PdbIo

datatype pdb_key = PKLastSeenBlock | PKRollup u64 | PKProverVersion

record last_seen_block =
  ls_height :: u64
  ls_root_hash :: element

record rollup_input =
  ri_proof :: agg_agg_proof
  ri_height :: u64
  ri_other_hash :: crypto_hash
  ri_signatures :: "signature list"

datatype pdb_value = PVLastSeenBlock last_seen_block | PVRollup rollup_input | PVProverVersion u64

type_synonym prover_db = "(u8 list, pdb_value) btree"

definition ri_old_root :: "rollup_input \<Rightarrow> element" where
  "ri_old_root r = aa_pi_old_root (aa_pi (ri_proof r))"

definition ri_new_root :: "rollup_input \<Rightarrow> element" where
  "ri_new_root r = aa_pi_new_root (aa_pi (ri_proof r))"

fun pdb_kind :: "pdb_key \<Rightarrow> u8" where
  "pdb_kind PKLastSeenBlock = 0"
| "pdb_kind (PKRollup _) = 1"
| "pdb_kind PKProverVersion = 2"

fun pdb_serialize :: "pdb_key \<Rightarrow> u8 list" where
  "pdb_serialize (PKRollup height) = pdb_kind (PKRollup height) # u64_to_be_bytes height"
| "pdb_serialize k = [pdb_kind k]"

text \<open>\<open>bytes[1..9]\<close> panics on a short slice.\<close>

fun pdb_deserialize :: "u8 list \<Rightarrow> (pdb_key, pdb_error) outcome" where
  "pdb_deserialize [] = Err PdbInvalidKey"
| "pdb_deserialize (kind # bs) =
     (if kind = 0 then Ok PKLastSeenBlock
      else if kind = 1 then (if 8 \<le> length bs then Ok (PKRollup (u64_from_be_bytes (take 8 bs))) else Panic)
      else if kind = 2 then Ok PKProverVersion
      else Err PdbInvalidKey)"

definition pdb_LATEST_VERSION :: u64 where "pdb_LATEST_VERSION = 1"

definition pdb_get :: "prover_db \<Rightarrow> pdb_key \<Rightarrow> pdb_value option" where
  "pdb_get db k = bt_get db (pdb_serialize k)"

definition pdb_set :: "bool \<Rightarrow> pdb_key \<Rightarrow> pdb_value \<Rightarrow> prover_db \<Rightarrow> prover_db \<times> (unit, pdb_error) outcome" where
  "pdb_set write_ok k v db =
     (if write_ok then (bt_insert (pdb_serialize k) v db, Ok ()) else (db, Err PdbRocksDB))"

definition get_last_seen_block :: "prover_db \<Rightarrow> (last_seen_block option, pdb_error) outcome" where
  "get_last_seen_block db = (case pdb_get db PKLastSeenBlock of
     None \<Rightarrow> Ok None
   | Some (PVLastSeenBlock v) \<Rightarrow> Ok (Some v)
   | Some _ \<Rightarrow> Err PdbInvalidValue)"

definition set_last_seen_block :: "bool \<Rightarrow> last_seen_block \<Rightarrow> prover_db \<Rightarrow> prover_db \<times> (unit, pdb_error) outcome" where
  "set_last_seen_block write_ok l db = pdb_set write_ok PKLastSeenBlock (PVLastSeenBlock l) db"

definition set_rollup :: "bool \<Rightarrow> u64 \<Rightarrow> rollup_input \<Rightarrow> prover_db \<Rightarrow> prover_db \<times> (unit, pdb_error) outcome" where
  "set_rollup write_ok height r db = pdb_set write_ok (PKRollup height) (PVRollup r) db"

definition rollup_entry :: "u8 list \<times> pdb_value \<Rightarrow> (u64 \<times> rollup_input, pdb_error) outcome" where
  "rollup_entry kv = (case pdb_deserialize (fst kv) of
     Panic \<Rightarrow> Panic
   | Err _ \<Rightarrow> Err PdbInvalidKey
   | Ok (PKRollup height) \<Rightarrow> (case snd kv of PVRollup r \<Rightarrow> Ok (height, r) | _ \<Rightarrow> Err PdbInvalidValue)
   | Ok _ \<Rightarrow> Err PdbInvalidKey)"

text \<open>The iterator within a lower (inclusive) and an upper (exclusive) bound of the bytes of the keys.\<close>

definition list_rollups :: "prover_db \<Rightarrow> u64 \<Rightarrow> u64 \<Rightarrow> (u64 \<times> rollup_input, pdb_error) outcome list" where
  "list_rollups db lo hi =
     map rollup_entry (filter (\<lambda>kv. pdb_serialize (PKRollup lo) \<le> fst kv \<and> fst kv < pdb_serialize (PKRollup hi)) db)"

definition get_version :: "prover_db \<Rightarrow> (u64 option, pdb_error) outcome" where
  "get_version db = (case pdb_get db PKProverVersion of
     None \<Rightarrow> Ok None
   | Some (PVProverVersion v) \<Rightarrow> Ok (Some v)
   | Some _ \<Rightarrow> Err PdbInvalidValue)"

definition set_version :: "bool \<Rightarrow> u64 \<Rightarrow> prover_db \<Rightarrow> prover_db \<times> (unit, pdb_error) outcome" where
  "set_version write_ok v db = pdb_set write_ok PKProverVersion (PVProverVersion v) db"

text \<open>\<open>create_or_load\<close>: \<open>None\<close> is a missing or empty directory.\<close>

definition pdb_create_or_load :: "bool \<Rightarrow> prover_db option \<Rightarrow> prover_db \<times> (unit, pdb_error) outcome" where
  "pdb_create_or_load write_ok on_disk = (case on_disk of
     None \<Rightarrow> set_version write_ok pdb_LATEST_VERSION []
   | Some db \<Rightarrow> (db, Ok ()))"

section \<open>The proving worker\<close>

datatype worker_error =
    FailedToPeekNextCommit
  | ProverTreeRootDoesNotMatchBlockStateRoot element element
  | ProverSkippedBlock u64
  | RootMismatch element element
  | InvalidProverVersion u64
  | FailedToGetNonce web3_error
  | PDbError pdb_error
  | PNodeError node_error
  | PContractError contracts_error
  | PProverError prover_error
  | PSmirkStorage storage_error
  | PSmirkCollision collision_error
  | PIoError
  | PRocksdbError
  | PParseIntError
  | PTokioMpscError
  | PPostgresError

record worker_config =
  wc_mode :: mode
  wc_bad_blocks :: "u64 list"
  wc_postgres :: bool

text \<open>
  What the environment answers while one commit is handled: the row of the lock query (\<open>None\<close> in it
  is SQL's \<open>NULL\<close>) and the outcome of each write.
\<close>

record worker_io =
  wi_lock :: "(bool option, worker_error) outcome"
  wi_rollup_ok :: bool
  wi_tree_ok :: bool
  wi_seen_ok :: bool
  wi_insert_ok :: bool
  wi_temp_noir :: bool

record worker_state =
  ws_db :: prover_db
  ws_tree :: notes_tree

text \<open>The migration at the start of \<open>run_prover\<close>; \<open>copied h\<close> is the answer of postgres to the copy of a proof.\<close>

definition migrate_prover_db ::
    "worker_config \<Rightarrow> bool \<Rightarrow> (u64, worker_error) outcome \<Rightarrow> (u64 \<Rightarrow> bool) \<Rightarrow> prover_db \<Rightarrow>
     prover_db \<times> (unit, worker_error) outcome" where
  "migrate_prover_db cfg write_ok contract_height copied db = (case get_version db of
     Panic \<Rightarrow> (db, Panic)
   | Err e \<Rightarrow> (db, Err (PDbError e))
   | Ok None \<Rightarrow>
       (case bind_o contract_height (\<lambda>h.
             fold_o (\<lambda>_ p. bind_o (map_err PDbError p) (\<lambda>(height, _).
                       if wc_postgres cfg \<and> \<not> copied height then Err PPostgresError else Ok ()))
               () (list_rollups db h (- 1))) of
          Ok _ \<Rightarrow> (case set_version write_ok 1 db of (db', r) \<Rightarrow> (db', map_err PDbError r))
        | Err e \<Rightarrow> (db, Err e)
        | Panic \<Rightarrow> (db, Panic))
   | Ok (Some v) \<Rightarrow> (db, if v = 1 then Ok () else Err (InvalidProverVersion v)))"

definition first_last_seen :: "node_env \<Rightarrow> (last_seen_block, worker_error) outcome" where
  "first_last_seen E = bind_o (empty_tree_hash (tree_hash E) merkle_tree_depth) (\<lambda>r.
     Ok \<lparr>ls_height = 0, ls_root_hash = r\<rparr>)"

text \<open>
  The start of \<open>run_prover_worker\<close>, up to the height from which commits are read. When the tree does
  not have the root of the last seen block, the database is reset, the tree is deleted (\<open>removed\<close> says
  whether the directory could be removed) and the process panics.
\<close>

definition worker_start ::
    "node_env \<Rightarrow> bool \<Rightarrow> bool \<Rightarrow> worker_state \<Rightarrow> worker_state \<times> (u64, worker_error) outcome" where
  "worker_start E seen_ok removed s =
     (case bind_o (map_err PDbError (get_last_seen_block (ws_db s))) (\<lambda>l.
           bind_o (first_last_seen E) (\<lambda>l0.
           bind_o (unwrap (root_hash (tree_hash E) (pe_tree (ws_tree s)))) (\<lambda>r.
           Ok (l, l0, r)))) of
        Panic \<Rightarrow> (s, Panic)
      | Err e \<Rightarrow> (s, Err e)
      | Ok (l, l0, r) \<Rightarrow>
          let last_seen_block = (case l of Some l \<Rightarrow> l | None \<Rightarrow> l0)
          in if ls_root_hash last_seen_block \<noteq> r
             then (case set_last_seen_block seen_ok l0 (ws_db s) of
                     (db, Ok _) \<Rightarrow>
                       if removed then (s\<lparr>ws_db := db, ws_tree := persistent_new merkle_tree_depth\<rparr>, Panic)
                       else (s\<lparr>ws_db := db\<rparr>, Err PIoError)
                   | (db, Err e) \<Rightarrow> (s\<lparr>ws_db := db\<rparr>, Err (PDbError e))
                   | (db, Panic) \<Rightarrow> (s\<lparr>ws_db := db\<rparr>, Panic))
             else (s, map_err PNodeError (height_add (ls_height last_seen_block) 1)))"

text \<open>\<open>run_prover\<close> loads the tree of the prover before the worker starts.\<close>

definition worker_boot ::
    "node_env \<Rightarrow> bool \<Rightarrow> bool \<Rightarrow> bool \<Rightarrow> worker_state \<Rightarrow> worker_state \<times> (u64, worker_error) outcome" where
  "worker_boot E tn seen_ok removed s =
     (case load_smirk E tn (pe_db (ws_tree s)) of
        Ok p \<Rightarrow> worker_start E seen_ok removed (s\<lparr>ws_tree := p\<rparr>)
      | Err e \<Rightarrow> (s, Err (PNodeError e))
      | Panic \<Rightarrow> (s, Panic))"

text \<open>
  \<open>commit_stream\<close>: the stored blocks below the first commit that arrives, that commit and the later ones.
\<close>

definition commit_stream ::
    "node_state \<Rightarrow> u64 option \<Rightarrow> block \<Rightarrow> block list \<Rightarrow> (block, node_error) outcome list" where
  "commit_stream s from_height first_commit later =
     (case from_height of
        None \<Rightarrow> map Ok (first_commit # later)
      | Some h \<Rightarrow>
          filter (\<lambda>r. case r of Ok b \<Rightarrow> h \<le> block_height b | _ \<Rightarrow> True)
            (map (\<lambda>r. bind_o r (\<lambda>f. Ok (into_block f)))
                (fetch_blocks s (Included h, Excluded (block_height first_commit)) LowestToHighest) @
              [Ok first_commit] @ map Ok later))"

text \<open>The proof of \<open>Mode::MockProver\<close>: \<open>messages[index]\<close> panics past thirty messages.\<close>

definition mock_proof :: "element \<Rightarrow> block \<Rightarrow> (agg_agg_proof, worker_error) outcome" where
  "mock_proof old_root b =
     (let ms = concat (map proof_messages (block_txns b))
      in if 30 < length ms then Panic
         else Ok \<lparr>aa_proof = [], aa_pi = \<lparr>aa_pi_old_root = old_root, aa_pi_new_root = block_root b,
                     aa_pi_commit_hash = ZERO, aa_pi_messages = padded 30 ms\<rparr>, aa_kzg = []\<rparr>)"

definition prove_commit ::
    "backend \<Rightarrow> circuit_env \<Rightarrow> bool \<Rightarrow> worker_config \<Rightarrow> node_env \<Rightarrow> notes_tree \<Rightarrow> block \<Rightarrow>
     (agg_agg_proof, worker_error) outcome" where
  "prove_commit B C tn cfg E p b =
     (if wc_mode cfg = ModeMockProver
      then bind_o (unwrap (root_hash (tree_hash E) (pe_tree p))) (\<lambda>r. mock_proof r b)
      else let txns = map Some (block_txns b) @ replicate (MAXIMUM_TXNS - length (block_txns b)) None
           in if length txns \<noteq> MAXIMUM_TXNS then Panic
              else map_err PProverError (generate_aggregate_proof B C tn (pe_tree p) txns (block_height b)))"

definition we_are_the_prover :: "worker_config \<Rightarrow> worker_io \<Rightarrow> (bool, worker_error) outcome" where
  "we_are_the_prover cfg io =
     (if \<not> wc_postgres cfg then Ok True else bind_o (wi_lock io) (\<lambda>row. Ok (row = Some True)))"

definition seen_of :: "block \<Rightarrow> last_seen_block" where
  "seen_of b = \<lparr>ls_height = block_height b, ls_root_hash = block_root b\<rparr>"

definition save_seen :: "worker_io \<Rightarrow> block \<Rightarrow> worker_state \<Rightarrow> worker_state \<times> (unit, worker_error) outcome" where
  "save_seen io b s = (case set_last_seen_block (wi_seen_ok io) (seen_of b) (ws_db s) of
     (db, r) \<Rightarrow> (s\<lparr>ws_db := db\<rparr>, map_err PDbError r))"

text \<open>\<open>apply_block_to_tree\<close> followed by \<open>set_last_seen_block\<close>.\<close>

definition apply_and_save :: "node_env \<Rightarrow> worker_io \<Rightarrow> block \<Rightarrow> worker_state \<Rightarrow> worker_state \<times> (unit, worker_error) outcome" where
  "apply_and_save E io b s =
     (case apply_block_to_tree (wi_tree_ok io) (wi_temp_noir io) E (ws_tree s) (bc_state (bk_content b)) (block_height b) of
        (p, Ok _) \<Rightarrow> save_seen io b (s\<lparr>ws_tree := p\<rparr>)
      | (p, Err e) \<Rightarrow> (s\<lparr>ws_tree := p\<rparr>, Err (PNodeError e))
      | (p, Panic) \<Rightarrow> (s\<lparr>ws_tree := p\<rparr>, Panic))"

text \<open>
  The part of the loop body that proves a block. \<open>next_commit\<close> is what \<open>peek\<close> gives: nothing at the end
  of the stream, an error, or the next block, whose header carries the approvals of this one.
\<close>

definition prove_and_save ::
    "backend \<Rightarrow> circuit_env \<Rightarrow> worker_config \<Rightarrow> node_env \<Rightarrow> worker_io \<Rightarrow> block \<Rightarrow> (block, node_error) outcome option \<Rightarrow>
     worker_state \<Rightarrow> worker_state \<times> (bool, worker_error) outcome" where
  "prove_and_save B C cfg E io b next_commit s =
     (case next_commit of
        None \<Rightarrow> (s, Panic)
      | Some Panic \<Rightarrow> (s, Panic)
      | Some (Err _) \<Rightarrow> (s, Err FailedToPeekNextCommit)
      | Some (Ok n) \<Rightarrow>
          (case prove_commit B C (wi_temp_noir io) cfg E (ws_tree s) b of
             Panic \<Rightarrow> (s, Panic)
           | Err e \<Rightarrow> (s, Err e)
           | Ok proof \<Rightarrow>
               if aa_pi_new_root (aa_pi proof) \<noteq> block_root b
               then (s, Err (RootMismatch (aa_pi_new_root (aa_pi proof)) (block_root b)))
               else let rollup_input = \<lparr>ri_proof = proof, ri_height = block_height b,
                          ri_other_hash = header_hash E (bk_content b),
                          ri_signatures = bh_approvals (bc_header (bk_content n))\<rparr>
                    in (case set_rollup (wi_rollup_ok io) (block_height b) rollup_input (ws_db s) of
                          (db, Err e) \<Rightarrow> (s\<lparr>ws_db := db\<rparr>, Err (PDbError e))
                        | (db, Panic) \<Rightarrow> (s\<lparr>ws_db := db\<rparr>, Panic)
                        | (db, Ok _) \<Rightarrow>
                            (case apply_and_save E io b (s\<lparr>ws_db := db\<rparr>) of
                               (s', Err e) \<Rightarrow> (s', Err e)
                             | (s', Panic) \<Rightarrow> (s', Panic)
                             | (s', Ok _) \<Rightarrow>
                                 if wc_postgres cfg \<and> \<not> wi_insert_ok io then (s', Panic)
                                 else (s', bind_o (unwrap (root_hash (tree_hash E) (pe_tree (ws_tree s')))) (\<lambda>r.
                                        if block_root b \<noteq> r
                                        then Err (ProverTreeRootDoesNotMatchBlockStateRoot r (block_root b))
                                        else Ok True))))))"

text \<open>The body of the loop of \<open>run_prover_worker\<close>; \<open>Ok True\<close> notifies the rollup worker.\<close>

definition worker_commit ::
    "backend \<Rightarrow> circuit_env \<Rightarrow> worker_config \<Rightarrow> node_env \<Rightarrow> u64 \<Rightarrow> worker_io \<Rightarrow> block \<Rightarrow>
     (block, node_error) outcome option \<Rightarrow> worker_state \<Rightarrow> worker_state \<times> (bool, worker_error) outcome" where
  "worker_commit B C cfg E contract_height io b next_commit s =
     (if block_txns b = [] then (case save_seen io b s of (s', r) \<Rightarrow> (s', bind_o r (\<lambda>_. Ok False)))
      else if block_height b \<le> contract_height \<or> block_height b \<in> set (wc_bad_blocks cfg)
      then (case apply_and_save E io b s of (s', r) \<Rightarrow> (s', bind_o r (\<lambda>_. Ok False)))
      else case we_are_the_prover cfg io of
        Panic \<Rightarrow> (s, Panic)
      | Err e \<Rightarrow> (s, Err e)
      | Ok False \<Rightarrow> (case apply_and_save E io b s of (s', r) \<Rightarrow> (s', bind_o r (\<lambda>_. Ok False)))
      | Ok True \<Rightarrow> prove_and_save B C cfg E io b next_commit s)"

text \<open>
  The loop over the stream as far as the node has committed: every block but the last has a successor
  to look at.
\<close>

fun worker_loop ::
    "backend \<Rightarrow> circuit_env \<Rightarrow> worker_config \<Rightarrow> node_env \<Rightarrow> u64 \<Rightarrow> (block \<Rightarrow> worker_io) \<Rightarrow> block list \<Rightarrow>
     worker_state \<Rightarrow> worker_state \<times> (unit, worker_error) outcome" where
  "worker_loop B C cfg E contract_height io (b # n # rest) s =
     (case worker_commit B C cfg E contract_height (io b) b (Some (Ok n)) s of
        (s', Ok _) \<Rightarrow> worker_loop B C cfg E contract_height io (n # rest) s'
      | (s', Err e) \<Rightarrow> (s', Err e)
      | (s', Panic) \<Rightarrow> (s', Panic))"
| "worker_loop B C cfg E contract_height io _ s = (s, Ok ())"

end
