(* ===== verification/Rollup_Worker.thy ===== *)
theory Rollup_Worker
  imports Prover_Worker "HOL-Library.Sublist"
begin

text \<open>
  The submission of proofs: \<open>Prover::rollup\<close> (\<open>prover/src/lib.rs\<close>), the call data of \<open>verify_block\<close>
  (\<open>contracts/src/rollup.rs\<close>), and the loop of \<open>run_rollup_worker\<close> (\<open>node/src/prover/worker.rs\<close>) that
  retries and watches the contract.
\<close>

section \<open>One submission\<close>

record verify_call =
  vc_height :: u64
  vc_proof :: "u8 list"
  vc_public_inputs :: "element list"
  vc_other_hash :: crypto_hash
  vc_signatures :: "(u8 list \<times> u8 list \<times> u8) list"

definition UTXO_N :: nat where "UTXO_N = 6"
definition UTXO_INPUTS :: nat where "UTXO_INPUTS = 5"

text \<open>\<open>sig[0..32]\<close>, \<open>sig[32..64]\<close> and \<open>sig[64]\<close> panic on a short signature.\<close>

definition split_signature :: "signature \<Rightarrow> (u8 list \<times> u8 list \<times> u8) checked" where
  "split_signature sig =
     (if length sig < 65 then Panic
      else let v = sig ! 64 in Ok (take 32 sig, take 32 (drop 32 sig), if v < 27 then v + 27 else v))"

definition verify_block :: "rollup_input \<Rightarrow> verify_call checked" where
  "verify_block r =
     (let pi = aa_pi (ri_proof r)
      in bind_o (assert_o (length (aa_pi_messages pi) = UTXO_N * UTXO_INPUTS)) (\<lambda>_.
         bind_o (fold_o (\<lambda>acc sig. bind_o (split_signature sig) (\<lambda>x. Ok (acc @ [x]))) [] (ri_signatures r)) (\<lambda>sigs.
         Ok \<lparr>vc_height = ri_height r, vc_proof = aa_proof (ri_proof r),
              vc_public_inputs = [aa_pi_old_root pi, aa_pi_new_root pi, aa_pi_commit_hash pi] @
                aa_pi_messages pi @ aa_kzg (ri_proof r),
              vc_other_hash = ri_other_hash r, vc_signatures = sigs\<rparr>)))"

text \<open>
  The n-th look at the transaction: the time, the receipt with its status, and whether the remote node
  knows the transaction. The clock is read once per look.
\<close>

record rollup_poll =
  rp_now :: nat
  rp_receipt :: "(nat option option, web3_error) outcome"
  rp_known :: "(bool, web3_error) outcome"

partial_function (option) rollup_loop ::
    "element \<Rightarrow> (nat \<Rightarrow> rollup_poll) \<Rightarrow> nat \<Rightarrow> nat option \<Rightarrow> nat \<Rightarrow> (element, prover_error) outcome option" where
  "rollup_loop tx polls wait_start unknown_deadline n =
     (case rp_receipt (polls n) of
        Panic \<Rightarrow> Some Panic
      | Err e \<Rightarrow> Some (Err (Web3P e))
      | Ok (Some status) \<Rightarrow> Some (if status = Some 0 then Err (RollupTransactionReverted tx) else Ok tx)
      | Ok None \<Rightarrow>
          (case rp_known (polls n) of
             Panic \<Rightarrow> Some Panic
           | Err e \<Rightarrow> Some (Err (Web3P e))
           | Ok known \<Rightarrow>
               let now = rp_now (polls n);
                   deadline = (if known then unknown_deadline
                               else Some (case unknown_deadline of Some d \<Rightarrow> d | None \<Rightarrow> now + 15000))
               in if \<not> known \<and> now > the deadline then Some (Err (RollupTransactionDropped tx))
                  else if now - wait_start > 5 * 60 * 1000 then Some (Err RollupTransactionTimeout)
                  else rollup_loop tx polls wait_start deadline (Suc n)))"

text \<open>\<open>sent\<close> is the answer of the remote node to the transaction.\<close>

definition prover_rollup ::
    "rollup_input \<Rightarrow> (element, contracts_error) outcome \<Rightarrow> (nat \<Rightarrow> rollup_poll) \<Rightarrow> nat \<Rightarrow>
     (element, prover_error) outcome option" where
  "prover_rollup r sent polls wait_start =
     (case verify_block r of
        Panic \<Rightarrow> Some Panic
      | Err _ \<Rightarrow> Some Panic
      | Ok _ \<Rightarrow> (case sent of
          Panic \<Rightarrow> Some Panic
        | Err e \<Rightarrow> Some (Err (ContractP e))
        | Ok tx \<Rightarrow> rollup_loop tx polls wait_start None 0))"

section \<open>Classifying a submission\<close>

record contract_rollup_state =
  cr_height :: u64
  cr_root_hash :: element

datatype rollup_progress = Applied | AdvancedElsewhere | Unchanged

definition classify_rollup_progress ::
    "contract_rollup_state \<Rightarrow> contract_rollup_state \<Rightarrow> rollup_input \<Rightarrow> rollup_progress" where
  "classify_rollup_progress before after rollup =
     (if cr_height after \<ge> ri_height rollup \<and> cr_root_hash after = ri_new_root rollup then Applied
      else if after \<noteq> before then AdvancedElsewhere
      else Unchanged)"

fun is_transport_rollup_error :: "prover_error \<Rightarrow> bool" where
  "is_transport_rollup_error (Web3P Web3Transport) = True"
| "is_transport_rollup_error (Web3ContractP (Web3Api Web3Transport)) = True"
| "is_transport_rollup_error (ContractP (CeWeb3 Web3Transport)) = True"
| "is_transport_rollup_error (ContractP (CeWeb3Contract (Web3Api Web3Transport))) = True"
| "is_transport_rollup_error _ = False"

text \<open>The \<open>Display\<close> texts of \<open>prover::Error\<close>; how hashes and numbers are written is a parameter.\<close>

record text_env =
  te_h256 :: "element \<Rightarrow> string"
  te_usize :: "nat \<Rightarrow> string"

fun error_text :: "text_env \<Rightarrow> prover_error \<Rightarrow> string" where
  "error_text T (ConvertH256ToBn256Fr _) = ''failed to convert H256 to bn256::Fr''"
| "error_text T RollupTransactionTimeout = ''rollup transaction timed out''"
| "error_text T (RollupTransactionDropped h) = ''rollup transaction dropped from mempool: '' @ te_h256 T h"
| "error_text T (RollupTransactionReverted h) = ''rollup transaction reverted: '' @ te_h256 T h"
| "error_text T FromHexP = ''from hex error''"
| "error_text T (Web3P _) = ''web3 error''"
| "error_text T EthAbiP = ''ethabi error''"
| "error_text T TryFromSliceP = ''TryFromSlice error''"
| "error_text T (Web3ContractP _) = ''web3 contract error''"
| "error_text T SerdeJsonP = ''serde_json error''"
| "error_text T Secp256k1P = ''secp256k1 error''"
| "error_text T (SmirkP _) = ''smirk storage error''"
| "error_text T (SmirkCollisionP _) = ''smirk collision error''"
| "error_text T (ContractP _) = ''contract error''"
| "error_text T TokioTaskJoinP = ''tokio task join error''"
| "error_text T (BarretenbergProve m) = ''barretenberg prove error: '' @ m"
| "error_text T (VecToArrayConversion e a) =
     ''vec to array conversion failed, expected '' @ te_usize T e @ '', got '' @ te_usize T a"

definition to_ascii_lowercase :: "string \<Rightarrow> string" where
  "to_ascii_lowercase s = map (\<lambda>c. if 65 \<le> (of_char c :: nat) \<and> (of_char c :: nat) \<le> 90
     then char_of (of_char c + 32 :: nat) else c) s"

definition nonce_patterns :: "string list" where
  "nonce_patterns = [''nonce too low'', ''nonce too high'', ''nonce has already been used'',
     ''replacement transaction underpriced'']"

definition is_nonce_conflict_error :: "text_env \<Rightarrow> prover_error \<Rightarrow> bool" where
  "is_nonce_conflict_error T e =
     list_ex (\<lambda>pattern. sublist pattern (to_ascii_lowercase (error_text T e))) nonce_patterns"

definition is_retryable_rollup_error :: "text_env \<Rightarrow> prover_error \<Rightarrow> bool" where
  "is_retryable_rollup_error T e \<longleftrightarrow> is_transport_rollup_error e \<or> is_nonce_conflict_error T e"

section \<open>One round of the rollup worker\<close>

text \<open>
  What the environment answers in one round. The subscriber is optional; the flag says whether its
  channel is open.
\<close>

record rollup_io =
  ro_contract_height :: "(u64, contracts_error) outcome"
  ro_root_hash :: "(element, contracts_error) outcome"
  ro_postgres_row :: "(rollup_input option, worker_error) outcome"
  ro_pending_nonce :: "(nat, web3_error) outcome"
  ro_latest_nonce :: "(nat, web3_error) outcome"
  ro_pre_state :: "(contract_rollup_state, contracts_error) outcome"
  ro_result :: "(element, prover_error) outcome"
  ro_post_state :: "(contract_rollup_state, contracts_error) outcome"
  ro_subscriber :: "bool option"

record rollup_worker =
  rw_skip_waiting :: bool
  rw_retried_height :: "u64 option"

definition choose_rollup ::
    "bool \<Rightarrow> rollup_io \<Rightarrow> element \<Rightarrow> rollup_input \<Rightarrow> (rollup_input option, worker_error) outcome" where
  "choose_rollup postgres io contract_root rollup =
     (if ri_old_root rollup \<noteq> contract_root
      then if postgres then ro_postgres_row io else Ok None
      else Ok (Some rollup))"

text \<open>The result is the state of the loop and the rollup that was submitted.\<close>

definition after_submission ::
    "text_env \<Rightarrow> rollup_io \<Rightarrow> u64 \<Rightarrow> u64 option \<Rightarrow> rollup_input \<Rightarrow> contract_rollup_state \<Rightarrow> contract_rollup_state \<Rightarrow>
     (rollup_worker, worker_error) outcome" where
  "after_submission T io height retried rollup pre_state post_state =
     (case classify_rollup_progress pre_state post_state rollup of
        Applied \<Rightarrow>
          if ro_subscriber io = Some False then Err PTokioMpscError
          else Ok \<lparr>rw_skip_waiting = True, rw_retried_height = None\<rparr>
      | AdvancedElsewhere \<Rightarrow> Ok \<lparr>rw_skip_waiting = True, rw_retried_height = None\<rparr>
      | Unchanged \<Rightarrow> (case ro_result io of
          Panic \<Rightarrow> Panic
        | Ok tx \<Rightarrow> Ok \<lparr>rw_skip_waiting = False, rw_retried_height = None\<rparr>
        | Err e \<Rightarrow>
            if e = RollupTransactionTimeout then Err (PProverError e)
            else if is_retryable_rollup_error T e \<and> retried \<noteq> Some height
            then Ok \<lparr>rw_skip_waiting = True, rw_retried_height = Some height\<rparr>
            else Ok \<lparr>rw_skip_waiting = False, rw_retried_height = None\<rparr>))"

definition rollup_round ::
    "text_env \<Rightarrow> bool \<Rightarrow> prover_db \<Rightarrow> rollup_io \<Rightarrow> rollup_worker \<Rightarrow> (rollup_worker \<times> rollup_input option, worker_error) outcome" where
  "rollup_round T postgres db io w =
     bind_o (map_err PContractError (ro_contract_height io)) (\<lambda>contract_height.
     bind_o (map_err PNodeError (height_add contract_height 1)) (\<lambda>lo.
     case list_rollups db lo (- 1) of
       [] \<Rightarrow> Ok (\<lparr>rw_skip_waiting = False, rw_retried_height = None\<rparr>, None)
     | first # _ \<Rightarrow>
         bind_o (map_err PDbError first) (\<lambda>(height, rollup).
         let retried = (case rw_retried_height w of
                          Some h \<Rightarrow> if h \<noteq> height then None else Some h
                        | None \<Rightarrow> None)
         in bind_o (map_err PContractError (ro_root_hash io)) (\<lambda>root.
            bind_o (choose_rollup postgres io root rollup) (\<lambda>chosen.
            case chosen of
              None \<Rightarrow> Ok (\<lparr>rw_skip_waiting = False, rw_retried_height = retried\<rparr>, None)
            | Some rollup \<Rightarrow>
                bind_o (map_err FailedToGetNonce (ro_pending_nonce io)) (\<lambda>pending_nonce.
                bind_o (map_err FailedToGetNonce (ro_latest_nonce io)) (\<lambda>latest_nonce.
                if pending_nonce > latest_nonce then Ok (\<lparr>rw_skip_waiting = False, rw_retried_height = retried\<rparr>, None)
                else bind_o (map_err PContractError (ro_pre_state io)) (\<lambda>pre_state.
                     if ro_result io = Panic then Panic
                     else bind_o (map_err PContractError (ro_post_state io)) (\<lambda>post_state.
                          bind_o (after_submission T io height retried rollup pre_state post_state) (\<lambda>w'.
                          Ok (w', Some rollup)))))))))))"

end
