(* ===== verification/Prover_Worker_Props.thy ===== *)
theory Prover_Worker_Props
  imports Rollup_Worker Node_Theorems
begin

text \<open>
  The proving worker follows the chain of the node: on the blocks of a validated chain, and with stops
  at any point, the rollups it stores link the roots of consecutive blocks.
\<close>

section \<open>The chain the worker follows\<close>

definition root_at :: "node_env \<Rightarrow> block list \<Rightarrow> nat \<Rightarrow> element" where
  "root_at E bs k = notes_root (ne_poseidon E) (unspent (take k bs))"

text \<open>A validated chain with room for one more height.\<close>

definition chain_validated :: "node_env \<Rightarrow> element set \<Rightarrow> block list \<Rightarrow> bool" where
  "chain_validated E U bs \<longleftrightarrow> validated E U bs \<and> length bs < 2 ^ 64 - 1"

lemma chain_validated_at:
  assumes "chain_validated E U bs"
  shows "\<And>i. i \<le> length bs \<Longrightarrow> chain_ok (take i bs)"
    and "\<And>i. i < length bs \<Longrightarrow> \<exists>db p. store_chain E db (take i bs) \<and> tree_chain E p (take i bs) \<and>
      extends_chain E U db p (take i bs) (bs ! i)"
  using assms validated_chain_ok by (auto simp: chain_validated_def validated_def)

text \<open>The chain a reachable node has stored is one.\<close>

lemma chain_at_unique:
  assumes "chain_at bs = chain_at bs'" and "length bs < 2 ^ 64" "length bs' < 2 ^ 64"
  shows "bs = bs'"
proof -
  have at: "chain_at cs (word_of_nat (Suc i)) = (if i < length cs then Some (cs ! i) else None)"
    if "Suc i < 2 ^ 64" for cs :: "block list" and i
  proof -
    have "unat (word_of_nat (Suc i) :: u64) = Suc i" using that by (simp add: unat_of_nat del: of_nat_Suc)
    moreover from this have "(word_of_nat (Suc i) :: u64) \<noteq> 0" by (metis nat.distinct(1) unat_0)
    ultimately show ?thesis by (simp add: chain_at_def word_gt_0 del: of_nat_Suc)
  qed
  have le: "length cs \<le> length ds" if "chain_at cs = chain_at ds" "length cs < 2 ^ 64" for cs ds :: "block list"
  proof (rule ccontr)
    assume "\<not> length cs \<le> length ds"
    then show False using that at [of "length ds" cs] at [of "length ds" ds] by (simp del: of_nat_Suc)
  qed
  then have len: "length bs = length bs'" using assms by (metis le_antisym)
  have "bs ! i = bs' ! i" if "i < length bs" for i
    using at [of i bs] at [of i bs'] that assms len by simp
  with len show ?thesis by (rule nth_equalityI)
qed

definition node_chain :: "node_state \<Rightarrow> block list \<Rightarrow> bool" where
  "node_chain n bs \<longleftrightarrow> length bs < 2 ^ 64 - 1 \<and>
     (\<forall>k. \<exists>f. store_get (ns_store n) k = Ok f \<and> map_option into_block f = chain_at bs k)"

lemma node_chain_ledger:
  assumes "node_setup E cf U" and "node_run E cf U n" and "node_chain n bs"
  shows "ledger E U n bs"
proof -
  obtain bs' where bs': "node_inv E U n bs'" using run_node_inv [OF assms(1,2)] by blast
  then have l: "ledger E U n bs'" and len: "length bs' < 2 ^ 64"
    using unsigned_less [of "ca_height (ns_cache n)", where ?'a = nat] by (auto simp: node_inv_def)
  have "chain_at bs k = chain_at bs' k" for k
    using assms(3) l unfolding node_chain_def ledger_def store_chain_def by (metis outcome.inject(1))
  then have "bs = bs'" using assms(3) len by (intro chain_at_unique) (auto simp: node_chain_def)
  then show ?thesis using l by simp
qed

lemma node_chain_validated:
  assumes "node_setup E cf U" and "node_run E cf U n" and "node_chain n bs"
  shows "chain_validated E U bs"
  using node_chain_ledger [OF assms] assms(3) by (simp add: chain_validated_def ledger_def node_chain_def)

text \<open>No two prefixes of the chain with different notes have the same root.\<close>

definition roots_faithful :: "node_env \<Rightarrow> block list \<Rightarrow> bool" where
  "roots_faithful E bs \<longleftrightarrow> (\<forall>i \<le> length bs. \<forall>j \<le> length bs.
     root_at E bs i = root_at E bs j \<longrightarrow> unspent (take i bs) = unspent (take j bs))"

lemma tree_chain_root_at:
  assumes "tree_chain E p (take k bs)"
  shows "root_hash (tree_hash E) (pe_tree p) = Ok (root_at E bs k)"
  using assms notes_root_tree [of "ne_poseidon E" _ "pe_tree p"]
  by (auto simp: tree_chain_def persistent_inv_def tree_hash_def root_at_def)

lemma smt_root_all_null: "(\<And>q. f q = NULL_HASH) \<Longrightarrow> smt_root H f p d = empty_hash H d"
  by (induction H f p d rule: smt_root.induct) auto

lemma root_at_0: "root_at E bs 0 = empty_hash (tree_hash E) merkle_tree_depth"
  unfolding root_at_def notes_root_def tree_hash_def
  by (rule smt_root_all_null) (simp add: unspent_def slot_def)

lemma chain_heights:
  assumes "chain_validated E U bs" and "i < length bs"
  shows "unat (block_height (bs ! i)) = Suc i"
  using chain_validated_at(1) [OF assms(1) le_refl] assms(2) by (simp add: chain_ok_def)

lemma worker_extends:
  assumes "chain_validated E U bs" and "i < length bs" and "tree_chain E p (take i bs)"
  shows "\<exists>db. store_chain E db (take i bs) \<and> extends_chain E U db p (take i bs) (bs ! i)"
  using chain_validated_at(2) [OF assms(1,2)] assms(3) extends_same by blast

lemma worker_apply:
  assumes "chain_validated E U bs" and "i < length bs" and "tree_chain E p (take i bs)"
  shows "\<exists>p'. apply_block_to_tree True tn E p (bc_state (bk_content (bs ! i))) h = (p', Ok ()) \<and>
     tree_chain E p' (take (Suc i) bs)"
proof -
  obtain db where "store_chain E db (take i bs)" "extends_chain E U db p (take i bs) (bs ! i)"
    using worker_extends [OF assms] by blast
  moreover have "chain_ok (take i bs)" using chain_validated_at(1) [OF assms(1)] assms(2) by simp
  ultimately show ?thesis
    using tree_chain_apply [OF assms(3), of U db "bs ! i" tn h] assms(2) by (simp add: take_Suc_conv_app_nth)
qed

lemma root_at_Suc:
  assumes "chain_validated E U bs" and "i < length bs"
  shows "root_at E bs (Suc i) = block_root (bs ! i)"
proof -
  obtain p where "tree_chain E p (take i bs)" using chain_validated_at(2) [OF assms] by blast
  then obtain p' :: notes_tree where p': "tree_chain E p' (take (Suc i) bs)"
    using worker_apply [OF assms, of p True 0] by blast
  then have "root_hash (tree_hash E) (pe_tree p') = Ok (block_root (last (take (Suc i) bs)))"
    using assms(2) by (auto simp: tree_chain_def)
  then show ?thesis
    using tree_chain_root_at [OF p'] assms(2) by (simp add: take_Suc_conv_app_nth)
qed

text \<open>A tree write that fails leaves the database of the tree as it was.\<close>

lemma apply_block_write:
  assumes "apply_block_to_tree w tn E p st h = (p', r)" and "apply_block_to_tree True tn E p st h = (q, Ok ())"
  shows "(r = Ok () \<longrightarrow> p' = q) \<and> (r \<noteq> Ok () \<longrightarrow> pe_db p' = pe_db p)"
  using assms by (auto simp: apply_block_to_tree_def persistent_insert_batch_def Let_def
      split: outcome.splits prod.splits if_splits)

section \<open>Proofs of the blocks of the chain\<close>

text \<open>What the transactions and the proof system have to provide for the worker to prove a chain.\<close>

definition chain_provable :: "node_env \<Rightarrow> circuit_env \<Rightarrow> backend \<Rightarrow> block list \<Rightarrow> bool" where
  "chain_provable E C B bs \<longleftrightarrow> poseidon_ok (ce_poseidon C) \<and> keys_match C \<and> backend_complete C B \<and>
     ne_poseidon E = ce_poseidon C \<and>
     (\<forall>i < length bs. (\<forall>u \<in> set (block_txns (bs ! i)). txn_provable C u) \<and> root_at E bs i \<noteq> ZERO \<and>
        notes_root (ce_poseidon C) (after_txns (unspent (take i bs)) (take 3 (block_txns (bs ! i)))) \<noteq> ZERO)"

lemma notes_root_field: "poseidon_ok P \<Longrightarrow> \<exists>r. is_field r \<and> notes_root P S = from_base r"
proof -
  assume P: "poseidon_ok P"
  have "\<exists>xs. smt_root (hash2 P) f q (Suc (Suc n)) = from_base (P xs)" for f q n
    by (auto simp: hash2_def hash_merge_def)
  from this [of _ _ 159] show ?thesis
    using P by (simp add: notes_root_def merkle_tree_depth_def poseidon_ok_def) metis
qed

lemma chain_outputs_field:
  assumes "chain_validated E U bs" and "k \<le> length bs" and "e \<in> set (chain_outputs (take k bs))"
  shows "e < MODULUS"
proof -
  obtain b where "b \<in> set (take k bs)" "e \<in> set (outs b)" using assms(3) by (auto simp: chain_outputs_def)
  then obtain i where i: "i < length bs" "e \<in> set (outs (bs ! i))"
    by (metis in_set_conv_nth in_set_takeD)
  then obtain db p where "extends_chain E U db p (take i bs) (bs ! i)"
    using chain_validated_at(2) [OF assms(1)] by blast
  then show ?thesis
    using i(2) unfolding extends_chain_def content_validate_Ok txn_valid_def by (auto simp: outputs_of_def non_zero_def)
qed

lemma length_padded_messages: "length ts \<le> 3 \<Longrightarrow> length (padded 15 (concat (map proof_messages ts))) = 15"
  using length_agg_messages [of "ts @ replicate (3 - length ts) utxo_proof_default"] by (simp add: padded_def)

lemma prove_commit_ok:
  assumes v: "chain_validated E U bs" and pr: "chain_provable E C B bs" and i: "i < length bs"
    and p: "tree_chain E p (take i bs)" and ts: "block_txns (bs ! i) \<noteq> []"
    and m: "wc_mode cfg \<noteq> ModeMockProver" and six: "length (block_txns (bs ! i)) \<le> MAXIMUM_TXNS"
  shows "\<exists>q. prove_commit B C tn cfg E p (bs ! i) = Ok q \<and> aa_pi_old_root (aa_pi q) = root_at E bs i \<and>
     aa_pi_new_root (aa_pi q) = block_root (bs ! i) \<and> length (aa_pi_messages (aa_pi q)) = UTXO_N * UTXO_INPUTS"
proof -
  let ?P = "ce_poseidon C" and ?ts = "block_txns (bs ! i)"
  have P: "poseidon_ok ?P" "keys_match C" "backend_complete C B" and n: "ne_poseidon E = ?P"
    using pr by (simp_all add: chain_provable_def)
  have ok: "\<forall>u \<in> set ?ts. txn_provable C u" and z: "root_at E bs i \<noteq> ZERO"
    "notes_root ?P (after_txns (unspent (take i bs)) (take 3 ?ts)) \<noteq> ZERO"
    using pr i by (simp_all add: chain_provable_def)
  have el: "set (tree_elements (pe_tree p)) = unspent (take i bs)" and inv: "tree_inv (hash2 ?P) (simple_inv (hash2 ?P)) merkle_tree_depth (pe_tree p)"
    using p n by (simp_all add: tree_chain_def persistent_inv_def tree_hash_def)
  have field: "\<forall>e \<in> unspent (take i bs). e < MODULUS"
    using chain_outputs_field [OF v, of i] i by (auto simp: unspent_def)
  obtain r where r: "is_field r" "notes_root ?P (unspent (take i bs)) = from_base r"
    using notes_root_field [OF P(1)] by blast
  have t: "root_tree ?P merkle_tree_depth (pe_tree p) r"
    using inv field r notes_root_tree [OF inv] el by (simp add: root_tree_def)
  obtain db where st: "store_chain E db (take i bs)" and e: "extends_chain E U db p (take i bs) (bs ! i)"
    using worker_extends [OF v i p] by blast
  have "\<forall>e \<in> set (outputs_of ?ts). e < MODULUS"
    using chain_outputs_field [OF v, of "Suc i"] i by (auto simp: take_Suc_conv_app_nth)
  then have fit: "txns_fit (set (tree_elements (pe_tree p))) ?ts"
    using extends_fits [OF p e] by (simp add: state_fits_def txns_fit_def)
  have "chain_ok (take i bs)" using chain_validated_at(1) [OF v] i by simp
  from chain_ok_extend(2) [OF this st p e]
  have after: "after_txns (unspent (take i bs)) ?ts = unspent (take (Suc i) bs)"
    using i by (simp add: after_txns_def take_Suc_conv_app_nth)
  have len: "length (map Some ?ts @ replicate (MAXIMUM_TXNS - length ?ts) None) = MAXIMUM_TXNS" using six by simp
  have M: "MAXIMUM_TXNS = 6" by (simp add: MAXIMUM_TXNS_def UTXO_AGG_NUMBER_def UTXO_AGGREGATIONS_def)
  have roots: "root_at E bs i = notes_root ?P (unspent (take i bs))" "block_root (bs ! i) = notes_root ?P (unspent (take (Suc i) bs))"
    using root_at_Suc [OF v i] n by (simp_all add: root_at_def)
  have n30: "length (padded 15 (concat (map proof_messages (take 3 ?ts)))) = 15" "length (padded 15 (concat (map proof_messages (drop 3 ?ts)))) = 15"
    using length_padded_messages [of "take 3 ?ts"] length_padded_messages [of "drop 3 ?ts"] six M by simp_all
  show ?thesis
    using generate_ok [OF P t ts _ ok fit, of tn "block_height (bs ! i)"] six z m len n30
    unfolding prove_commit_def Let_def el after M roots by (auto simp: roots UTXO_N_def UTXO_INPUTS_def)
qed

section \<open>The database of the prover\<close>

lemma pdb_roundtrip [simp]: "pdb_deserialize (pdb_serialize k) = Ok k"
  by (cases k) simp_all

lemma pdb_serialize_inj [simp]: "pdb_serialize k = pdb_serialize k' \<longleftrightarrow> k = k'"
  by (metis pdb_roundtrip outcome.inject(1))

lemma pdb_get_insert [simp]: "pdb_get (bt_insert (pdb_serialize k) v db) k' = (if k = k' then Some v else pdb_get db k')"
  by (simp add: pdb_get_def bt_get_insert)

lemma pdb_set_Ok: "pdb_set w k v db = (db', Ok u) \<longleftrightarrow> w \<and> db' = bt_insert (pdb_serialize k) v db"
  by (auto simp: pdb_set_def)

text \<open>Rollups are listed by increasing height, and the list holds exactly those of the range.\<close>

definition pdb_inv :: "prover_db \<Rightarrow> bool" where
  "pdb_inv db \<longleftrightarrow> bt_inv db \<and> (\<forall>kb \<in> set (bt_keys db). \<exists>k. kb = pdb_serialize k) \<and>
     (\<forall>h v. pdb_get db (PKRollup h) = Some v \<longrightarrow> (\<exists>r. v = PVRollup r))"

lemma pdb_inv_insert:
  assumes "pdb_inv db" and "\<And>h. k = PKRollup h \<Longrightarrow> \<exists>r. v = PVRollup r"
  shows "pdb_inv (bt_insert (pdb_serialize k) v db)"
  using assms by (auto simp: pdb_inv_def split: if_splits)

lemma rollup_key_le [simp]:
  "pdb_serialize (PKRollup g) \<le> pdb_serialize (PKRollup h) \<longleftrightarrow> g \<le> h"
  "pdb_serialize (PKRollup g) < pdb_serialize (PKRollup h) \<longleftrightarrow> g < h"
proof -
  have l: "pdb_serialize (PKRollup g) < pdb_serialize (PKRollup h) \<longleftrightarrow> g < h" for g h by simp
  show "pdb_serialize (PKRollup g) < pdb_serialize (PKRollup h) \<longleftrightarrow> g < h" by (rule l)
  show "pdb_serialize (PKRollup g) \<le> pdb_serialize (PKRollup h) \<longleftrightarrow> g \<le> h"
    using l [of h g] by (metis linorder_not_le)
qed

lemma between_rollups:
  assumes "pdb_serialize (PKRollup lo) \<le> pdb_serialize k" and "pdb_serialize k < pdb_serialize (PKRollup hi)"
  obtains h where "k = PKRollup h" "lo \<le> h" "h < hi"
proof (cases k)
  case (PKRollup h)
  then show ?thesis using that assms unfolding PKRollup rollup_key_le by blast
qed (use assms in \<open>auto simp: list_le_def\<close>)

lemma list_rollups_spec:
  assumes "pdb_inv db"
  shows "\<exists>hrs. list_rollups db lo hi = map Ok hrs \<and> sorted_wrt (<) (map fst hrs) \<and>
     set hrs = {(h, r). lo \<le> h \<and> h < hi \<and> pdb_get db (PKRollup h) = Some (PVRollup r)}"
proof -
  let ?in = "\<lambda>kv. pdb_serialize (PKRollup lo) \<le> fst kv \<and> fst kv < pdb_serialize (PKRollup hi)"
  let ?f = "\<lambda>kv. (case pdb_deserialize (fst kv) of Ok (PKRollup h) \<Rightarrow> h, case snd kv of PVRollup r \<Rightarrow> r)"
  have inv: "bt_inv db" "\<And>kb. kb \<in> set (bt_keys db) \<Longrightarrow> \<exists>k. kb = pdb_serialize k"
    "\<And>h v. pdb_get db (PKRollup h) = Some v \<Longrightarrow> \<exists>r. v = PVRollup r"
    using assms by (simp_all add: pdb_inv_def)
  have mem: "kv \<in> set db \<longleftrightarrow> bt_get db (fst kv) = Some (snd kv)" for kv
    using bt_distinct_keys [OF inv(1)] by (cases kv) (simp add: bt_get_def bt_keys_def)
  have entry: "\<exists>h r. kv = (pdb_serialize (PKRollup h), PVRollup r) \<and> lo \<le> h \<and> h < hi \<and> pdb_get db (PKRollup h) = Some (PVRollup r)"
    if "kv \<in> set db" "?in kv" for kv
  proof -
    note kv = that
    obtain k where k: "fst kv = pdb_serialize k" using inv(2) [of "fst kv"] imageI [OF kv(1), of fst] by (auto simp: bt_keys_def)
    then obtain h where h: "k = PKRollup h" "lo \<le> h" "h < hi" using kv(2) between_rollups [of lo k hi] by metis
    then obtain r where "snd kv = PVRollup r" using inv(3) [of h "snd kv"] kv(1) k by (auto simp: mem pdb_get_def)
    then show ?thesis using h k that(1) by (cases kv) (auto simp: mem pdb_get_def)
  qed
  let ?hrs = "map ?f (filter ?in db)"
  have "list_rollups db lo hi = map Ok ?hrs"
    unfolding list_rollups_def map_map using entry by (intro map_cong) (fastforce simp: rollup_entry_def)+
  moreover have "sorted_wrt (<) (map fst ?hrs)"
  proof -
    have "sorted_wrt (<) (map fst (filter ?in db))"
      using inv(1) by (simp add: bt_inv_def bt_keys_def sorted_wrt_map sorted_wrt_filter)
    then have "sorted_wrt (\<lambda>a b. fst a < fst b) (filter ?in db)" by (simp add: sorted_wrt_map)
    then have "sorted_wrt (\<lambda>a b. fst (?f a) < fst (?f b)) (filter ?in db)"
    proof (rule sorted_wrt_mono_rel [rotated])
      fix a b assume "a \<in> set (filter ?in db)" "b \<in> set (filter ?in db)" "fst a < fst b"
      then show "fst (?f a) < fst (?f b)" using entry [of a] entry [of b] by fastforce
    qed
    then show ?thesis by (simp add: sorted_wrt_map)
  qed
  moreover have "set ?hrs = {(h, r). lo \<le> h \<and> h < hi \<and> pdb_get db (PKRollup h) = Some (PVRollup r)}"
  proof (intro set_eqI iffI)
    fix x assume "x \<in> set ?hrs"
    then show "x \<in> {(h, r). lo \<le> h \<and> h < hi \<and> pdb_get db (PKRollup h) = Some (PVRollup r)}"
      using entry by fastforce
  next
    fix x assume "x \<in> {(h, r). lo \<le> h \<and> h < hi \<and> pdb_get db (PKRollup h) = Some (PVRollup r)}"
    then obtain h r where x: "x = (h, r)" "lo \<le> h" "h < hi" "pdb_get db (PKRollup h) = Some (PVRollup r)" by blast
    let ?kv = "(pdb_serialize (PKRollup h), PVRollup r)"
    have "?kv \<in> set (filter ?in db)" using x by (simp add: mem pdb_get_def del: pdb_serialize.simps)
    moreover have "?f ?kv = x" by (simp add: x(1) del: pdb_serialize.simps)
    ultimately have "x \<in> ?f ` set (filter ?in db)" by (intro image_eqI [where x = ?kv]) (rule sym)
    then show "x \<in> set ?hrs" by (simp only: set_map)
  qed
  ultimately show ?thesis by blast
qed

section \<open>Runs of the worker\<close>

text \<open>
  A process starts by loading the tree from disk; it handles the commits of the chain in order; it may
  stop after any operation, and inside one by a write that fails. \<open>peeked\<close> is what the stream of commits
  shows behind a block: the end of the stream, an error, or the next block.
\<close>

datatype phase = Stopped | Running u64 u64

definition peeked :: "block list \<Rightarrow> u64 \<Rightarrow> (block, node_error) outcome option \<Rightarrow> bool" where
  "peeked bs h nc \<longleftrightarrow> (case nc of
     None \<Rightarrow> True
   | Some (Ok n) \<Rightarrow> unat h < length bs \<and> n = bs ! unat h
   | Some _ \<Rightarrow> True)"

inductive prover_run ::
    "backend \<Rightarrow> circuit_env \<Rightarrow> worker_config \<Rightarrow> node_env \<Rightarrow> block list \<Rightarrow> worker_state \<Rightarrow> phase \<Rightarrow> bool"
  for B C cfg E bs where
  fresh: "prover_run B C cfg E bs \<lparr>ws_db = fst (pdb_create_or_load True None), ws_tree = persistent_new merkle_tree_depth\<rparr> Stopped"
| boot: "prover_run B C cfg E bs s Stopped \<Longrightarrow> worker_boot E tn seen_ok removed s = (s', r) \<Longrightarrow>
     prover_run B C cfg E bs s' (case r of Ok h \<Rightarrow> Running contract_height h | _ \<Rightarrow> Stopped)"
| commit: "prover_run B C cfg E bs s (Running contract_height h) \<Longrightarrow> chain_at bs h = Some b \<Longrightarrow> peeked bs h nc \<Longrightarrow>
     worker_commit B C cfg E contract_height io b nc s = (s', r) \<Longrightarrow>
     prover_run B C cfg E bs s' (case r of Ok _ \<Rightarrow> Running contract_height (h + 1) | _ \<Rightarrow> Stopped)"
| stop: "prover_run B C cfg E bs s (Running contract_height h) \<Longrightarrow> prover_run B C cfg E bs s Stopped"

definition rollup_ok :: "node_env \<Rightarrow> block list \<Rightarrow> u64 \<Rightarrow> rollup_input \<Rightarrow> bool" where
  "rollup_ok E bs h r \<longleftrightarrow> 0 < unat h \<and> unat h < length bs \<and> ri_height r = h \<and>
     ri_old_root r = root_at E bs (unat h - 1) \<and> ri_new_root r = root_at E bs (unat h) \<and>
     ri_other_hash r = header_hash E (bk_content (bs ! (unat h - 1))) \<and>
     ri_signatures r = bh_approvals (bc_header (bk_content (bs ! unat h))) \<and>
     length (aa_pi_messages (aa_pi (ri_proof r))) = UTXO_N * UTXO_INPUTS"

definition rollups_ok :: "node_env \<Rightarrow> block list \<Rightarrow> prover_db \<Rightarrow> bool" where
  "rollups_ok E bs db \<longleftrightarrow> pdb_inv db \<and> (\<forall>h r. pdb_get db (PKRollup h) = Some (PVRollup r) \<longrightarrow> rollup_ok E bs h r)"

definition seen_at :: "node_env \<Rightarrow> block list \<Rightarrow> prover_db \<Rightarrow> nat \<Rightarrow> bool" where
  "seen_at E bs db k \<longleftrightarrow> k \<le> length bs \<and> (case get_last_seen_block db of
     Ok None \<Rightarrow> k = 0
   | Ok (Some l) \<Rightarrow> unat (ls_height l) = k \<and> ls_root_hash l = root_at E bs k
   | _ \<Rightarrow> False)"

definition disk_inv :: "node_env \<Rightarrow> block list \<Rightarrow> worker_state \<Rightarrow> bool" where
  "disk_inv E bs s \<longleftrightarrow> rollups_ok E bs (ws_db s) \<and> (\<exists>k. seen_at E bs (ws_db s) k) \<and>
     (\<exists>p m. m \<le> length bs \<and> pe_db p = pe_db (ws_tree s) \<and> tree_chain E p (take m bs))"

definition up_inv :: "node_env \<Rightarrow> block list \<Rightarrow> nat \<Rightarrow> worker_state \<Rightarrow> bool" where
  "up_inv E bs k s \<longleftrightarrow> rollups_ok E bs (ws_db s) \<and> seen_at E bs (ws_db s) k \<and> tree_chain E (ws_tree s) (take k bs)"

lemma up_disk: "up_inv E bs k s \<Longrightarrow> disk_inv E bs s"
  unfolding up_inv_def disk_inv_def by (auto simp: seen_at_def)

definition result_inv :: "node_env \<Rightarrow> block list \<Rightarrow> nat \<Rightarrow> worker_state \<times> ('a, worker_error) outcome \<Rightarrow> bool" where
  "result_inv E bs k sr \<longleftrightarrow> (case sr of (s, Ok _) \<Rightarrow> up_inv E bs k s | (s, _) \<Rightarrow> disk_inv E bs s)"

lemma rollups_ok_set:
  assumes "rollups_ok E bs db" and "\<And>h. k \<noteq> PKRollup h"
  shows "rollups_ok E bs (bt_insert (pdb_serialize k) v db)"
  using assms pdb_inv_insert [of db k v] by (auto simp: rollups_ok_def split: if_splits)

lemma save_seen_inv:
  assumes v: "chain_validated E U bs" and i: "i < length bs" and db: "rollups_ok E bs (ws_db s)"
    and old: "seen_at E bs (ws_db s) k" and t: "tree_chain E (ws_tree s) (take (Suc i) bs)"
  shows "result_inv E bs (Suc i) (save_seen io (bs ! i) s)"
proof (cases "wi_seen_ok io")
  case True
  let ?db = "bt_insert (pdb_serialize PKLastSeenBlock) (PVLastSeenBlock (seen_of (bs ! i))) (ws_db s)"
  have "rollups_ok E bs ?db" by (rule rollups_ok_set [OF db]) simp
  moreover have "seen_at E bs ?db (Suc i)"
    using i root_at_Suc [OF v i] chain_heights [OF v i]
    by (simp add: seen_at_def get_last_seen_block_def seen_of_def del: pdb_serialize.simps)
  ultimately show ?thesis
    using True t by (simp add: save_seen_def set_last_seen_block_def pdb_set_def result_inv_def up_inv_def)
next
  case False
  have "disk_inv E bs s" using db old t i unfolding disk_inv_def by (metis Suc_leI)
  then show ?thesis using False by (simp add: save_seen_def set_last_seen_block_def pdb_set_def result_inv_def)
qed

lemma apply_and_save_inv:
  assumes v: "chain_validated E U bs" and i: "i < length bs" and db: "rollups_ok E bs (ws_db s)"
    and old: "seen_at E bs (ws_db s) i" and t: "tree_chain E (ws_tree s) (take i bs)"
  shows "result_inv E bs (Suc i) (apply_and_save E io (bs ! i) s)"
proof -
  let ?st = "bc_state (bk_content (bs ! i))" and ?h = "block_height (bs ! i)"
  obtain q :: notes_tree where q: "apply_block_to_tree True (wi_temp_noir io) E (ws_tree s) ?st ?h = (q, Ok ())"
    "tree_chain E q (take (Suc i) bs)" using worker_apply [OF v i t] by blast
  obtain p' r where p': "apply_block_to_tree (wi_tree_ok io) (wi_temp_noir io) E (ws_tree s) ?st ?h = (p', r)" by fastforce
  note w = apply_block_write [OF p' q(1)]
  show ?thesis
  proof (cases "r = Ok ()")
    case True
    then show ?thesis
      using w p' q(2) save_seen_inv [OF v i, of "s\<lparr>ws_tree := q\<rparr>"] db old by (simp add: apply_and_save_def)
  next
    case False
    then have "disk_inv E bs (s\<lparr>ws_tree := p'\<rparr>)"
      using w db old t i unfolding disk_inv_def by (auto intro!: exI [of _ "ws_tree s"] exI [of _ i])
    then show ?thesis using False p' by (cases r) (auto simp: apply_and_save_def result_inv_def)
  qed
qed

lemma prove_commit_roots:
  assumes v: "chain_validated E U bs" and pr: "chain_provable E C B bs" and i: "i < length bs"
    and p: "tree_chain E p (take i bs)" and ts: "block_txns (bs ! i) \<noteq> []"
    and q: "prove_commit B C tn cfg E p (bs ! i) = Ok q"
  shows "aa_pi_old_root (aa_pi q) = root_at E bs i \<and> length (aa_pi_messages (aa_pi q)) = UTXO_N * UTXO_INPUTS"
proof (cases "wc_mode cfg = ModeMockProver")
  case True
  then show ?thesis
    using q tree_chain_root_at [OF p]
    by (auto simp: prove_commit_def mock_proof_def Let_def padded_def UTXO_N_def UTXO_INPUTS_def split: if_splits)
next
  case False
  then have "length (block_txns (bs ! i)) \<le> MAXIMUM_TXNS"
    using q by (auto simp: prove_commit_def Let_def split: if_splits)
  then show ?thesis using prove_commit_ok [OF v pr i p ts False, of tn] q by auto
qed

lemma prove_and_save_inv:
  assumes v: "chain_validated E U bs" and pr: "chain_provable E C B bs" and i: "i < length bs" and up: "up_inv E bs i s"
    and ts: "block_txns (bs ! i) \<noteq> []" and nc: "peeked bs (block_height (bs ! i)) nc"
  shows "result_inv E bs (Suc i) (prove_and_save B C cfg E io (bs ! i) nc s)"
proof -
  have t: "tree_chain E (ws_tree s) (take i bs)" and db: "rollups_ok E bs (ws_db s)" and old: "seen_at E bs (ws_db s) i"
    using up by (simp_all add: up_inv_def)
  have d: "disk_inv E bs s" by (rule up_disk [OF up])
  have h: "unat (block_height (bs ! i)) = Suc i" by (rule chain_heights [OF v i])
  show ?thesis
  proof (cases "\<exists>n q. nc = Some (Ok n) \<and> prove_commit B C (wi_temp_noir io) cfg E (ws_tree s) (bs ! i) = Ok q \<and>
      aa_pi_new_root (aa_pi q) = block_root (bs ! i) \<and> wi_rollup_ok io")
    case False
    then show ?thesis
      using d by (auto simp: prove_and_save_def result_inv_def set_rollup_def pdb_set_def Let_def
          split: option.splits outcome.splits)
  next
    case True
    then obtain n q where n: "nc = Some (Ok n)" and q: "prove_commit B C (wi_temp_noir io) cfg E (ws_tree s) (bs ! i) = Ok q"
      "aa_pi_new_root (aa_pi q) = block_root (bs ! i)" and ok: "wi_rollup_ok io" by blast
    let ?r = "\<lparr>ri_proof = q, ri_height = block_height (bs ! i), ri_other_hash = header_hash E (bk_content (bs ! i)),
       ri_signatures = bh_approvals (bc_header (bk_content n))\<rparr>"
    let ?s = "s\<lparr>ws_db := bt_insert (pdb_serialize (PKRollup (block_height (bs ! i)))) (PVRollup ?r) (ws_db s)\<rparr>"
    have "rollup_ok E bs (block_height (bs ! i)) ?r"
      using nc n h q(2) prove_commit_roots [OF v pr i t ts q(1)] root_at_Suc [OF v i]
      by (simp add: rollup_ok_def ri_old_root_def ri_new_root_def peeked_def)
    then have db': "rollups_ok E bs (ws_db ?s)"
      using db pdb_inv_insert [of "ws_db s" "PKRollup (block_height (bs ! i))" "PVRollup ?r"]
      by (auto simp: rollups_ok_def simp del: pdb_serialize.simps split: if_splits)
    have seen': "seen_at E bs (ws_db ?s) i"
      using old by (simp add: seen_at_def get_last_seen_block_def del: pdb_serialize.simps)
    have a: "result_inv E bs (Suc i) (apply_and_save E io (bs ! i) ?s)"
      by (rule apply_and_save_inv [OF v i db' seen']) (simp add: t)
    have root: "root_hash (tree_hash E) (pe_tree (ws_tree s')) = Ok (block_root (bs ! i))" if "up_inv E bs (Suc i) s'" for s'
      using that tree_chain_root_at [of E "ws_tree s'" "Suc i" bs] root_at_Suc [OF v i] by (simp add: up_inv_def)
    show ?thesis
      using a root q ok unfolding prove_and_save_def n set_rollup_def pdb_set_def
      by (auto simp: Let_def result_inv_def up_disk simp del: pdb_serialize.simps split: outcome.splits prod.splits if_splits)
  qed
qed

lemma worker_commit_inv:
  assumes v: "chain_validated E U bs" and pr: "chain_provable E C B bs" and i: "i < length bs" and up: "up_inv E bs i s"
    and nc: "peeked bs (block_height (bs ! i)) nc"
  shows "result_inv E bs (Suc i) (worker_commit B C cfg E ch io (bs ! i) nc s)"
proof -
  have t: "tree_chain E (ws_tree s) (take i bs)" and db: "rollups_ok E bs (ws_db s)" and old: "seen_at E bs (ws_db s) i"
    using up by (simp_all add: up_inv_def)
  have drop_result: "result_inv E bs k (case x of (s', r) \<Rightarrow> (s', bind_o r (\<lambda>_. Ok False)))"
    if "result_inv E bs k x" for k and x :: "worker_state \<times> (unit, worker_error) outcome"
    using that by (cases x; cases "snd x") (auto simp: result_inv_def)
  have a: "result_inv E bs (Suc i) (apply_and_save E io (bs ! i) s)"
    by (rule apply_and_save_inv [OF v i db old t])
  show ?thesis
  proof (cases "block_txns (bs ! i) = []")
    case True
    obtain q :: notes_tree where q: "apply_block_to_tree True True E (ws_tree s) (bc_state (bk_content (bs ! i))) 0 = (q, Ok ())"
      "tree_chain E q (take (Suc i) bs)" using worker_apply [OF v i t] by blast
    have "q = ws_tree s"
      using q(1) True by (simp add: apply_block_to_tree_def block_outputs_def block_inputs_def non_zero_def from_entries_def
          persistent_insert_batch_def batch_is_empty_def batch_new_def split: prod.splits outcome.splits if_splits)
    then show ?thesis
      using True drop_result [OF save_seen_inv [OF v i db old]] q(2) by (simp add: worker_commit_def)
  next
    case False
    then show ?thesis
      using drop_result [OF a] prove_and_save_inv [OF v pr i up False nc] up_disk [OF up]
      by (auto simp: worker_commit_def result_inv_def split: outcome.splits bool.splits)
  qed
qed

lemma worker_start_inv:
  assumes v: "chain_validated E U bs" and f: "roots_faithful E bs" and db: "rollups_ok E bs (ws_db s)"
    and seen: "seen_at E bs (ws_db s) k" and t: "tree_chain E (ws_tree s) (take m bs)" and m: "m \<le> length bs"
    and st: "worker_start E seen_ok removed s = (s', r)"
  shows "case r of Ok h \<Rightarrow> \<exists>k. unat h = Suc k \<and> up_inv E bs k s' | _ \<Rightarrow> disk_inv E bs s'"
proof -
  obtain l where l: "get_last_seen_block (ws_db s) = Ok l" using seen by (auto simp: seen_at_def split: outcome.splits)
  let ?first = "\<lparr>ls_height = 0, ls_root_hash = root_at E bs 0\<rparr>"
  let ?l = "case l of Some l \<Rightarrow> l | None \<Rightarrow> ?first"
  have k: "k \<le> length bs" "unat (ls_height ?l) = k" "ls_root_hash ?l = root_at E bs k"
    using seen l by (auto simp: seen_at_def split: option.splits)
  have l0: "first_last_seen E = Ok ?first"
    by (simp add: first_last_seen_def root_at_0 empty_tree_hash_pos merkle_tree_depth_def)
  have d: "disk_inv E bs s" using db seen t m unfolding disk_inv_def by blast
  show ?thesis
  proof (cases "root_at E bs k = root_at E bs m")
    case True
    then have "unspent (take k bs) = unspent (take m bs)" using f k(1) m unfolding roots_faithful_def by blast
    moreover have "root_at E bs k = block_root (last (take k bs))" if ne: "take k bs \<noteq> []"
    proof -
      obtain i where i: "k = Suc i" "i < length bs" using ne k(1) by (cases k) auto
      then show ?thesis using root_at_Suc [OF v i(2)] by (simp add: take_Suc_conv_app_nth)
    qed
    ultimately have "tree_chain E (ws_tree s) (take k bs)"
      using t True tree_chain_root_at [OF t] by (auto simp: tree_chain_def)
    then have up: "up_inv E bs k s" using db seen by (simp add: up_inv_def)
    have "unat (ls_height ?l) + unat (1 :: u64) < 2 ^ 64" using v k by (simp add: chain_validated_def)
    then have "r = Ok (ls_height ?l + 1)" "s' = s" "unat (ls_height ?l + 1) = Suc k"
      using st l l0 tree_chain_root_at [OF t] True k(2,3)
      by (auto simp: worker_start_def Let_def height_add_def unat_word_ariths(1))
    with up show ?thesis by auto
  next
    case False
    let ?db = "bt_insert (pdb_serialize PKLastSeenBlock) (PVLastSeenBlock ?first) (ws_db s)"
    have db': "rollups_ok E bs ?db" by (rule rollups_ok_set [OF db]) simp
    have seen': "seen_at E bs ?db 0" by (simp add: seen_at_def get_last_seen_block_def del: pdb_serialize.simps)
    have d1: "disk_inv E bs (s\<lparr>ws_db := ?db\<rparr>)" using db' seen' t m unfolding disk_inv_def by auto
    have "tree_chain E (persistent_new merkle_tree_depth) (take 0 bs)" by (simp add: tree_chain_new)
    then have d2: "disk_inv E bs (s\<lparr>ws_db := ?db, ws_tree := persistent_new merkle_tree_depth\<rparr>)"
      using db' seen' unfolding disk_inv_def by fastforce
    show ?thesis
      using st l l0 tree_chain_root_at [OF t] False k(3) d d1 d2
      by (auto simp: worker_start_def Let_def set_last_seen_block_def pdb_set_def simp del: pdb_serialize.simps split: if_splits)
  qed
qed

lemma worker_boot_inv:
  assumes v: "chain_validated E U bs" and f: "roots_faithful E bs" and d: "disk_inv E bs s"
  shows "case worker_boot E tn seen_ok removed s of
     (s', Ok h) \<Rightarrow> \<exists>k. unat h = Suc k \<and> up_inv E bs k s' | (s', _) \<Rightarrow> disk_inv E bs s'"
proof -
  obtain k q m where d: "rollups_ok E bs (ws_db s)" "seen_at E bs (ws_db s) k" "m \<le> length bs"
    "pe_db q = pe_db (ws_tree s)" "tree_chain E q (take m bs)"
    using assms(3) by (auto simp: disk_inv_def)
  then obtain p where p: "load_smirk E tn (pe_db (ws_tree s)) = Ok p" "tree_chain E p (take m bs)"
    using tree_chain_load [OF d(5), of tn] by auto
  show ?thesis
    using worker_start_inv [OF v f, of "s\<lparr>ws_tree := p\<rparr>" k m seen_ok removed] d p
    by (cases "worker_start E seen_ok removed (s\<lparr>ws_tree := p\<rparr>)") (auto simp: worker_boot_def split: outcome.splits)
qed

definition phase_inv :: "node_env \<Rightarrow> block list \<Rightarrow> worker_state \<Rightarrow> phase \<Rightarrow> bool" where
  "phase_inv E bs s ph \<longleftrightarrow> (case ph of
     Stopped \<Rightarrow> disk_inv E bs s
   | Running ch h \<Rightarrow> \<exists>k. unat h = Suc k \<and> up_inv E bs k s)"

lemma fresh_inv: "disk_inv E bs \<lparr>ws_db = fst (pdb_create_or_load True None), ws_tree = persistent_new merkle_tree_depth\<rparr>"
proof -
  let ?db = "bt_insert (pdb_serialize PKProverVersion) (PVProverVersion pdb_LATEST_VERSION) []"
  have db: "fst (pdb_create_or_load True None) = ?db"
    by (simp add: pdb_create_or_load_def set_version_def pdb_set_def)
  have "pdb_inv []" by (simp add: pdb_inv_def pdb_get_def bt_get_def)
  then have "rollups_ok E bs []" by (simp add: rollups_ok_def pdb_get_def bt_get_def)
  then have "rollups_ok E bs ?db" by (rule rollups_ok_set) simp
  moreover have "seen_at E bs ?db 0"
    by (simp add: seen_at_def get_last_seen_block_def pdb_get_def bt_get_def)
  moreover have "tree_chain E (persistent_new merkle_tree_depth) (take 0 bs)" by (simp add: tree_chain_new)
  ultimately show ?thesis unfolding disk_inv_def db by fastforce
qed

lemma prover_run_inv:
  assumes "prover_run B C cfg E bs s ph"
    and v: "chain_validated E U bs" and f: "roots_faithful E bs" and pr: "chain_provable E C B bs"
  shows "phase_inv E bs s ph"
  using assms(1)
proof induction
  case fresh
  show ?case using fresh_inv by (simp add: phase_inv_def)
next
  case (boot s tn seen_ok removed s' r contract_height)
  then show ?case
    using worker_boot_inv [OF v f, of s tn seen_ok removed] by (auto simp: phase_inv_def split: outcome.splits)
next
  case (commit s contract_height h b nc io s' r)
  obtain k where k: "unat h = Suc k" "up_inv E bs k s" using commit.IH by (auto simp: phase_inv_def)
  have b: "k < length bs" "b = bs ! k" using commit.hyps(2) k(1) by (auto simp: chain_at_def split: if_splits)
  have "block_height b = h" using chain_heights [OF v b(1)] k(1) b(2) by (metis word_unat_eq_iff)
  then have inv: "result_inv E bs (Suc k) (s', r)"
    using worker_commit_inv [OF v pr b(1) k(2), of nc cfg contract_height io] commit.hyps(3,4) b(2) by simp
  have "unat h + 1 < 2 ^ 64" using v k(1) b(1) by (simp add: chain_validated_def)
  then have "unat (h + 1) = Suc (Suc k)" using k(1) by (simp add: unat_word_ariths(1))
  then show ?case using inv by (auto simp: phase_inv_def result_inv_def split: outcome.splits)
next
  case (stop s contract_height h)
  then show ?case using up_disk by (auto simp: phase_inv_def)
qed

end
