(* ===== verification/Prover_Worker_Theorems.thy ===== *)
theory Prover_Worker_Theorems
  imports Prover_Worker_Props
begin

text \<open>
  What the two workers of the prover achieve together: the stored rollups link the roots of the chain,
  the prover catches up after a stop, and the submission loop waits, retries once and never loops
  without waiting.
\<close>

section \<open>The stream of commits\<close>

lemma sorted_fst_unique:
  fixes xs ys :: "('k::linorder \<times> 'v) list"
  assumes "sorted_wrt (<) (map fst xs)" "sorted_wrt (<) (map fst ys)" "set xs = set ys"
  shows "xs = ys"
proof (rule map_sorted_distinct_set_unique [where f = fst])
  show "inj_on fst (set xs \<union> set ys)"
    using assms by (metis distinct_map strict_sorted_iff sup.idem)
qed (use assms in \<open>auto simp: strict_sorted_iff distinct_map\<close>)

lemma list_chain_blocks:
  assumes st: "store_chain E db bs" and len: "length bs < 2 ^ 64" and k: "unat k \<le> Suc (length bs)" and h: "0 < unat h"
  shows "\<exists>fs. list_blocks db (Included h, Excluded k) LowestToHighest = map Ok fs \<and>
     map (into_block \<circ> snd) fs = map (nth bs) [unat h - 1..<unat k - 1]"
proof -
  have inv: "store_inv (node_trait E) db" using st by (simp add: store_chain_def)
  obtain fs where fs: "list_blocks db (Included h, Excluded k) LowestToHighest = map Ok fs" "sorted_wrt (<) (map fst fs)"
    "\<forall>i b. (i, b) \<in> set fs \<longleftrightarrow> store_get db i = Ok (Some b) \<and> in_range (Included h, Excluded k) i"
    using list_blocks_range [OF inv, of "(Included h, Excluded k)"] by blast
  have get: "(\<exists>f. store_get db i = Ok (Some f) \<and> into_block f = b) \<longleftrightarrow> chain_at bs i = Some b" for i b
  proof -
    obtain f where f: "store_get db i = Ok f" "map_option into_block f = chain_at bs i"
      using st unfolding store_chain_def by blast
    then show ?thesis by (cases f) (auto simp: f(2) [symmetric])
  qed
  let ?xs = "map (\<lambda>(i, f). (i, into_block f)) fs"
  let ?ys = "map (\<lambda>i. (word_of_nat (Suc i) :: u64, bs ! i)) [unat h - 1..<unat k - 1]"
  have small: "Suc i < 2 ^ 64" if "i < unat k - 1" for i
    using that k len unsigned_less [of k, where ?'a = nat] by simp
  have "set ?xs = {(i, b). h \<le> i \<and> i < k \<and> chain_at bs i = Some b}"
  proof (intro set_eqI)
    fix x :: "u64 \<times> block"
    obtain i b where x: "x = (i, b)" by (cases x)
    have rng: "in_range (Included h, Excluded k) i \<longleftrightarrow> h \<le> i \<and> i < k" by (simp add: in_range_def)
    have "x \<in> set ?xs \<longleftrightarrow> (\<exists>f. (i, f) \<in> set fs \<and> into_block f = b)" by (auto simp: x image_iff) force
    also have "\<dots> \<longleftrightarrow> x \<in> {(i, b). h \<le> i \<and> i < k \<and> chain_at bs i = Some b}"
      using fs(3) get [of i b] rng unfolding x by blast
    finally show "x \<in> set ?xs \<longleftrightarrow> x \<in> {(i, b). h \<le> i \<and> i < k \<and> chain_at bs i = Some b}" .
  qed
  also have "\<dots> = set ?ys"
  proof (intro set_eqI iffI)
    fix x assume "x \<in> {(i, b). h \<le> i \<and> i < k \<and> chain_at bs i = Some b}"
    then obtain i where x: "x = (i, bs ! (unat i - 1))" "h \<le> i" "i < k" "0 < unat i"
      by (auto simp: chain_at_def word_neq_0_conv unat_gt_0 split: if_splits)
    then have "x = (word_of_nat (Suc (unat i - 1)), bs ! (unat i - 1))" by simp
    moreover have "unat i - 1 \<in> set [unat h - 1..<unat k - 1]" using x by (auto simp: word_le_nat_alt word_less_nat_alt)
    ultimately show "x \<in> set ?ys" unfolding set_map by (intro image_eqI [where x = "unat i - 1"])
  next
    fix x assume "x \<in> set ?ys"
    then obtain i where i: "x = (word_of_nat (Suc i), bs ! i)" "unat h - 1 \<le> i" "i < unat k - 1" by auto
    have u: "unat (word_of_nat (Suc i) :: u64) = Suc i" using small [OF i(3)] by (simp add: unat_of_nat del: of_nat_Suc)
    show "x \<in> {(i, b). h \<le> i \<and> i < k \<and> chain_at bs i = Some b}"
      using i u k h by (auto simp: chain_at_def word_le_nat_alt word_less_nat_alt)
  qed
  finally have eq: "set ?xs = set ?ys" .
  have lt: "(word_of_nat (Suc i) :: u64) < word_of_nat (Suc j)" if "i < j" "j < unat k - 1" for i j
    using that small [of i] small [of j] by (simp add: word_less_nat_alt unat_of_nat del: of_nat_Suc)
  have "sorted_wrt (<) (map fst ?ys)"
    unfolding sorted_wrt_map map_map comp_def fst_conv
    by (rule sorted_wrt_mono_rel [OF _ sorted_wrt_upt]) (auto intro: lt simp del: of_nat_Suc)
  moreover have "sorted_wrt (<) (map fst ?xs)" using fs(2) by (simp add: comp_def case_prod_beta')
  ultimately have "?xs = ?ys" using sorted_fst_unique eq by blast
  then have "map snd ?xs = map snd ?ys" by (rule arg_cong)
  then show ?thesis using fs(1) by (auto simp: comp_def case_prod_beta')
qed

text \<open>The stream shows the blocks of the chain from the given height on, each once and in order.\<close>

lemma commit_stream_chain:
  assumes st: "store_chain E (ns_store s) (take m bs)" and v: "chain_validated E U bs"
    and j: "j < m" "m \<le> length bs" and n: "j < n" "n \<le> length bs" and h: "0 < unat h" "unat h \<le> Suc j"
  shows "commit_stream s (Some h) (bs ! j) (drop (Suc j) (take n bs)) = map Ok (drop (unat h - 1) (take n bs))"
proof -
  let ?k = "block_height (bs ! j)"
  have k: "unat ?k = Suc j" using chain_heights [OF v, of j] j by simp
  obtain fs where fs: "list_blocks (ns_store s) (Included h, Excluded ?k) LowestToHighest = map Ok fs"
    "map (into_block \<circ> snd) fs = map (nth (take m bs)) [unat h - 1..<j]"
    using list_chain_blocks [OF st, of ?k h] v j h k by (auto simp: chain_validated_def)
  have before: "map (\<lambda>r. bind_o r (\<lambda>f. Ok (into_block f))) (fetch_blocks s (Included h, Excluded ?k) LowestToHighest) =
      map Ok (map (nth bs) [unat h - 1..<j])"
  proof -
    have "map (\<lambda>r. bind_o r (\<lambda>f. Ok (into_block f))) (fetch_blocks s (Included h, Excluded ?k) LowestToHighest) =
        map Ok (map (into_block \<circ> snd) fs)"
      by (simp add: fetch_blocks_def fs(1) case_prod_beta')
    also have "\<dots> = map Ok (map (nth bs) [unat h - 1..<j])" unfolding fs(2) using j by simp
    finally show ?thesis .
  qed
  let ?all = "map (nth bs) [unat h - 1..<j] @ [bs ! j] @ drop (Suc j) (take n bs)"
  have all: "?all = drop (unat h - 1) (take n bs)"
  proof -
    have "bs ! j # drop (Suc j) (take n bs) = drop j (take n bs)"
      using Cons_nth_drop_Suc [of j "take n bs"] n by simp
    moreover have "map (nth bs) [unat h - 1..<j] = take (j - (unat h - 1)) (drop (unat h - 1) (take n bs))"
      using n by (intro nth_equalityI) auto
    moreover have "drop j (take n bs) = drop (j - (unat h - 1)) (drop (unat h - 1) (take n bs))"
      using h by simp
    ultimately show ?thesis by (metis append_Cons append_Nil append_take_drop_id)
  qed
  have "h \<le> block_height b" if b: "b \<in> set ?all" for b
  proof -
    obtain i where i: "i < n - (unat h - 1)" "b = bs ! (unat h - 1 + i)"
      using b n unfolding all by (auto simp: in_set_conv_nth)
    then show ?thesis using chain_heights [OF v, of "unat h - 1 + i"] n h by (simp add: word_le_nat_alt)
  qed
  then have "filter (\<lambda>r. case r of Ok b \<Rightarrow> h \<le> block_height b | _ \<Rightarrow> True) (map Ok ?all) = map Ok ?all"
    by (intro filter_True) auto
  then have "commit_stream s (Some h) (bs ! j) (drop (Suc j) (take n bs)) = map Ok ?all"
    unfolding commit_stream_def option.case before map_append list.map by (simp only: append_Cons append_Nil)
  then show ?thesis unfolding all .
qed

section \<open>Catching up\<close>

definition io_good :: "worker_config \<Rightarrow> worker_io \<Rightarrow> bool" where
  "io_good cfg io \<longleftrightarrow> wi_rollup_ok io \<and> wi_tree_ok io \<and> wi_seen_ok io \<and> wi_insert_ok io \<and>
     (wc_postgres cfg \<longrightarrow> wi_lock io = Ok (Some True))"

lemma apply_and_save_good:
  assumes "chain_validated E U bs" and "i < length bs" and "tree_chain E (ws_tree s) (take i bs)" and "io_good cfg io"
  shows "\<exists>s'. apply_and_save E io (bs ! i) s = (s', Ok ()) \<and>
     ws_db s' = bt_insert (pdb_serialize PKLastSeenBlock) (PVLastSeenBlock (seen_of (bs ! i))) (ws_db s)"
  using worker_apply [OF assms(1-3), of "wi_temp_noir io" "block_height (bs ! i)"] assms(4)
  by (auto simp: apply_and_save_def save_seen_def set_last_seen_block_def pdb_set_def io_good_def)

lemma prove_and_save_good:
  assumes v: "chain_validated E U bs" and pr: "chain_provable E C B bs" and i: "Suc i < length bs" and up: "up_inv E bs i s"
    and ts: "block_txns (bs ! i) \<noteq> []" and m: "wc_mode cfg \<noteq> ModeMockProver"
    and six: "length (block_txns (bs ! i)) \<le> MAXIMUM_TXNS" and io: "io_good cfg io"
  shows "\<exists>s' r. prove_and_save B C cfg E io (bs ! i) (Some (Ok (bs ! Suc i))) s = (s', Ok True) \<and>
     ws_db s' = bt_insert (pdb_serialize PKLastSeenBlock) (PVLastSeenBlock (seen_of (bs ! i)))
       (bt_insert (pdb_serialize (PKRollup (block_height (bs ! i)))) (PVRollup r) (ws_db s))"
proof -
  have i': "i < length bs" using i by simp
  have t: "tree_chain E (ws_tree s) (take i bs)" using up by (simp add: up_inv_def)
  obtain q where q: "prove_commit B C (wi_temp_noir io) cfg E (ws_tree s) (bs ! i) = Ok q" "aa_pi_new_root (aa_pi q) = block_root (bs ! i)"
    using prove_commit_ok [OF v pr i' t ts m six] by blast
  let ?r = "\<lparr>ri_proof = q, ri_height = block_height (bs ! i), ri_other_hash = header_hash E (bk_content (bs ! i)),
     ri_signatures = bh_approvals (bc_header (bk_content (bs ! Suc i)))\<rparr>"
  let ?s = "s\<lparr>ws_db := bt_insert (pdb_serialize (PKRollup (block_height (bs ! i)))) (PVRollup ?r) (ws_db s)\<rparr>"
  obtain s' where s': "apply_and_save E io (bs ! i) ?s = (s', Ok ())"
    "ws_db s' = bt_insert (pdb_serialize PKLastSeenBlock) (PVLastSeenBlock (seen_of (bs ! i))) (ws_db ?s)"
    using apply_and_save_good [OF v i', of ?s cfg io] t io by auto
  have db: "(if wi_rollup_ok io then (bt_insert (pdb_serialize (PKRollup (block_height (bs ! i)))) (PVRollup ?r) (ws_db s), Ok ())
      else (ws_db s, Err PdbRocksDB)) = (bt_insert (pdb_serialize (PKRollup (block_height (bs ! i)))) (PVRollup ?r) (ws_db s), Ok ())"
    using io by (simp add: io_good_def)
  have root: "root_hash (tree_hash E) (pe_tree (ws_tree s')) = Ok (block_root (bs ! i))"
  proof -
    obtain p where "apply_block_to_tree True (wi_temp_noir io) E (ws_tree s) (bc_state (bk_content (bs ! i))) (block_height (bs ! i)) = (p, Ok ())"
      "tree_chain E p (take (Suc i) bs)" using worker_apply [OF v i' t] by blast
    moreover from this have "ws_tree s' = p"
      using s'(1) io by (auto simp: apply_and_save_def save_seen_def set_last_seen_block_def pdb_set_def io_good_def)
    ultimately show ?thesis using tree_chain_root_at [of E p "Suc i" bs] root_at_Suc [OF v i'] by simp
  qed
  show ?thesis
    using q s' root io unfolding prove_and_save_def set_rollup_def pdb_set_def
    by (auto simp: db Let_def io_good_def simp del: pdb_serialize.simps)
qed

lemma worker_commit_good:
  assumes v: "chain_validated E U bs" and pr: "chain_provable E C B bs" and i: "Suc i < length bs" and up: "up_inv E bs i s"
    and m: "wc_mode cfg \<noteq> ModeMockProver" and six: "length (block_txns (bs ! i)) \<le> MAXIMUM_TXNS" and io: "io_good cfg io"
  shows "\<exists>s' n. worker_commit B C cfg E ch io (bs ! i) (Some (Ok (bs ! Suc i))) s = (s', Ok n) \<and> up_inv E bs (Suc i) s' \<and>
     (block_txns (bs ! i) \<noteq> [] \<and> ch < block_height (bs ! i) \<and> block_height (bs ! i) \<notin> set (wc_bad_blocks cfg) \<longrightarrow>
        pdb_get (ws_db s') (PKRollup (block_height (bs ! i))) \<noteq> None) \<and>
     (\<forall>h. pdb_get (ws_db s) (PKRollup h) \<noteq> None \<longrightarrow> pdb_get (ws_db s') (PKRollup h) \<noteq> None)"
proof -
  have i': "i < length bs" using i by simp
  have t: "tree_chain E (ws_tree s) (take i bs)" using up by (simp add: up_inv_def)
  let ?step = "worker_commit B C cfg E ch io (bs ! i) (Some (Ok (bs ! Suc i))) s"
  have we: "we_are_the_prover cfg io = Ok True" using io by (simp add: we_are_the_prover_def io_good_def)
  have "\<exists>s' n. ?step = (s', Ok n) \<and>
     (block_txns (bs ! i) \<noteq> [] \<and> ch < block_height (bs ! i) \<and> block_height (bs ! i) \<notin> set (wc_bad_blocks cfg) \<longrightarrow>
        pdb_get (ws_db s') (PKRollup (block_height (bs ! i))) \<noteq> None) \<and>
     (\<forall>h. pdb_get (ws_db s) (PKRollup h) \<noteq> None \<longrightarrow> pdb_get (ws_db s') (PKRollup h) \<noteq> None)"
  proof (cases "block_txns (bs ! i) = []")
    case True
    then show ?thesis
      using io by (auto simp: worker_commit_def save_seen_def set_last_seen_block_def pdb_set_def io_good_def simp del: pdb_serialize.simps)
  next
    case False
    show ?thesis
      using apply_and_save_good [OF v i' t io] prove_and_save_good [OF v pr i up False m six io] False we
      by (cases "block_height (bs ! i) \<le> ch \<or> block_height (bs ! i) \<in> set (wc_bad_blocks cfg)")
        (auto simp: worker_commit_def simp del: pdb_serialize.simps)
  qed
  moreover have "peeked bs (block_height (bs ! i)) (Some (Ok (bs ! Suc i)))"
    using chain_heights [OF v i'] i by (simp add: peeked_def)
  from worker_commit_inv [OF v pr i' up this] have "result_inv E bs (Suc i) ?step" .
  ultimately show ?thesis by (auto simp: result_inv_def)
qed

lemma worker_loop_good:
  assumes v: "chain_validated E U bs" and pr: "chain_provable E C B bs" and m: "wc_mode cfg \<noteq> ModeMockProver"
    and six: "\<forall>b \<in> set bs. length (block_txns b) \<le> MAXIMUM_TXNS" and io: "\<forall>b. io_good cfg (io b)"
  shows "up_inv E bs i s \<Longrightarrow> i + d = length bs - 1 \<Longrightarrow> bs \<noteq> [] \<Longrightarrow>
    \<exists>s'. worker_loop B C cfg E ch io (drop i bs) s = (s', Ok ()) \<and> up_inv E bs (length bs - 1) s' \<and>
     (\<forall>j. i \<le> j \<and> Suc j < length bs \<and> block_txns (bs ! j) \<noteq> [] \<and> ch < block_height (bs ! j) \<and>
        block_height (bs ! j) \<notin> set (wc_bad_blocks cfg) \<longrightarrow> pdb_get (ws_db s') (PKRollup (block_height (bs ! j))) \<noteq> None) \<and>
     (\<forall>h. pdb_get (ws_db s) (PKRollup h) \<noteq> None \<longrightarrow> pdb_get (ws_db s') (PKRollup h) \<noteq> None)"
proof (induction d arbitrary: i s)
  case 0
  then have "drop i bs = [bs ! i]" using Cons_nth_drop_Suc [of i bs] by simp
  then show ?case using 0 by auto
next
  case (Suc d)
  then have i: "Suc i < length bs" by simp
  then have dr: "drop i bs = bs ! i # bs ! Suc i # drop (Suc (Suc i)) bs" "drop (Suc i) bs = bs ! Suc i # drop (Suc (Suc i)) bs"
    by (simp_all add: Cons_nth_drop_Suc)
  have s6: "length (block_txns (bs ! i)) \<le> MAXIMUM_TXNS" using six i by simp
  obtain s1 n where s1: "worker_commit B C cfg E ch (io (bs ! i)) (bs ! i) (Some (Ok (bs ! Suc i))) s = (s1, Ok n)" "up_inv E bs (Suc i) s1"
    "block_txns (bs ! i) \<noteq> [] \<and> ch < block_height (bs ! i) \<and> block_height (bs ! i) \<notin> set (wc_bad_blocks cfg) \<longrightarrow>
        pdb_get (ws_db s1) (PKRollup (block_height (bs ! i))) \<noteq> None"
    "\<forall>h. pdb_get (ws_db s) (PKRollup h) \<noteq> None \<longrightarrow> pdb_get (ws_db s1) (PKRollup h) \<noteq> None"
    using worker_commit_good [OF v pr i Suc.prems(1) m s6, of "io (bs ! i)" ch] io by blast
  obtain s' where s': "worker_loop B C cfg E ch io (drop (Suc i) bs) s1 = (s', Ok ())" "up_inv E bs (length bs - 1) s'"
    "\<forall>j. Suc i \<le> j \<and> Suc j < length bs \<and> block_txns (bs ! j) \<noteq> [] \<and> ch < block_height (bs ! j) \<and>
        block_height (bs ! j) \<notin> set (wc_bad_blocks cfg) \<longrightarrow> pdb_get (ws_db s') (PKRollup (block_height (bs ! j))) \<noteq> None"
    "\<forall>h. pdb_get (ws_db s1) (PKRollup h) \<noteq> None \<longrightarrow> pdb_get (ws_db s') (PKRollup h) \<noteq> None"
    using Suc.IH [OF s1(2)] Suc.prems(2,3) by auto
  have "worker_loop B C cfg E ch io (drop i bs) s = (s', Ok ())"
    using s1(1) s'(1) unfolding dr by simp
  moreover have "pdb_get (ws_db s') (PKRollup (block_height (bs ! j))) \<noteq> None"
    if "i \<le> j \<and> Suc j < length bs \<and> block_txns (bs ! j) \<noteq> [] \<and> ch < block_height (bs ! j) \<and>
        block_height (bs ! j) \<notin> set (wc_bad_blocks cfg)" for j
    using that s1(3) s'(3,4) by (cases "j = i") auto
  ultimately show ?case using s'(2,4) s1(4) by auto
qed

lemma worker_start_good:
  assumes v: "chain_validated E U bs" and db: "rollups_ok E bs (ws_db s)" and seen: "seen_at E bs (ws_db s) k"
    and t: "tree_chain E (ws_tree s) (take m bs)" and m: "m \<le> length bs" and eq: "root_at E bs k = root_at E bs m"
  shows "\<exists>h. worker_start E True True s = (s, Ok h)"
proof -
  obtain l where l: "get_last_seen_block (ws_db s) = Ok l" using seen by (auto simp: seen_at_def split: outcome.splits)
  let ?first = "\<lparr>ls_height = 0, ls_root_hash = root_at E bs 0\<rparr>"
  let ?l = "case l of Some l \<Rightarrow> l | None \<Rightarrow> ?first"
  have k: "unat (ls_height ?l) = k" "ls_root_hash ?l = root_at E bs k" "k \<le> length bs"
    using seen l by (auto simp: seen_at_def split: option.splits)
  have "first_last_seen E = Ok ?first"
    by (simp add: first_last_seen_def root_at_0 empty_tree_hash_pos merkle_tree_depth_def)
  then show ?thesis
    using l k eq tree_chain_root_at [OF t] v
    by (auto simp: worker_start_def Let_def height_add_def chain_validated_def)
qed

lemma worker_boots:
  assumes v: "chain_validated E U bs" and f: "roots_faithful E bs" and d: "disk_inv E bs s"
  shows "\<exists>s1 h. (worker_boot E tn True True s = (s1, Ok h) \<or>
     (\<exists>s0. worker_boot E tn True True s = (s0, Panic) \<and> worker_boot E tn True True s0 = (s1, Ok h)))"
proof -
  obtain k q m where d: "rollups_ok E bs (ws_db s)" "seen_at E bs (ws_db s) k" "m \<le> length bs"
    "pe_db q = pe_db (ws_tree s)" "tree_chain E q (take m bs)"
    using assms(3) by (auto simp: disk_inv_def)
  then obtain p where p: "load_smirk E tn (pe_db (ws_tree s)) = Ok p" "tree_chain E p (take m bs)"
    using tree_chain_load [OF d(5), of tn] by auto
  show ?thesis
  proof (cases "root_at E bs k = root_at E bs m")
    case True
    then show ?thesis
      using worker_start_good [OF v, of "s\<lparr>ws_tree := p\<rparr>" k m] d p by (auto simp: worker_boot_def)
  next
    case False
    obtain l where l: "get_last_seen_block (ws_db s) = Ok l" using d(2) by (auto simp: seen_at_def split: outcome.splits)
    let ?first = "\<lparr>ls_height = 0, ls_root_hash = root_at E bs 0\<rparr>"
    let ?db = "bt_insert (pdb_serialize PKLastSeenBlock) (PVLastSeenBlock ?first) (ws_db s)"
    let ?s0 = "s\<lparr>ws_db := ?db, ws_tree := persistent_new merkle_tree_depth\<rparr>"
    have first: "first_last_seen E = Ok ?first"
      by (simp add: first_last_seen_def root_at_0 empty_tree_hash_pos merkle_tree_depth_def)
    have lr: "ls_root_hash (case l of Some l \<Rightarrow> l | None \<Rightarrow> ?first) = root_at E bs k"
      using d(2) l by (auto simp: seen_at_def split: option.splits)
    have s0: "worker_boot E tn True True s = (?s0, Panic)"
      using p(1) l first tree_chain_root_at [OF p(2)] False lr
      by (simp add: worker_boot_def worker_start_def Let_def set_last_seen_block_def pdb_set_def del: pdb_serialize.simps)
    have db: "rollups_ok E bs ?db" by (rule rollups_ok_set [OF d(1)]) simp
    have seen: "seen_at E bs ?db 0" by (simp add: seen_at_def get_last_seen_block_def del: pdb_serialize.simps)
    have n: "tree_chain E (persistent_new merkle_tree_depth) (take 0 bs)" by (simp add: tree_chain_new)
    obtain p0 where p0: "load_smirk E tn (pe_db (ws_tree ?s0)) = Ok p0" "tree_chain E p0 (take 0 bs)"
      using tree_chain_load [OF n, of tn] by auto
    have "\<exists>h. worker_start E True True (?s0\<lparr>ws_tree := p0\<rparr>) = (?s0\<lparr>ws_tree := p0\<rparr>, Ok h)"
      by (rule worker_start_good [OF v, of "?s0\<lparr>ws_tree := p0\<rparr>" 0 0]) (use db seen p0 in \<open>simp_all del: pdb_serialize.simps\<close>)
    then show ?thesis using s0 p0(1) by (auto simp: worker_boot_def simp del: pdb_serialize.simps)
  qed
qed

lemma prover_run_rollups:
  assumes "prover_run B C cfg E bs s ph" and "chain_validated E U bs" and "roots_faithful E bs" and "chain_provable E C B bs"
  shows "rollups_ok E bs (ws_db s)"
  using prover_run_inv [OF assms] by (auto simp: phase_inv_def disk_inv_def up_inv_def split: phase.splits)

section \<open>No gap below the last seen block\<close>

text \<open>
  The runs of a prover that works alone: it never loses the lock to another prover, and the contract is never
  above the height \<open>H\<close> when the prover starts.
\<close>

inductive sole_prover_run ::
    "backend \<Rightarrow> circuit_env \<Rightarrow> worker_config \<Rightarrow> node_env \<Rightarrow> block list \<Rightarrow> u64 \<Rightarrow> worker_state \<Rightarrow> phase \<Rightarrow> bool"
  for B C cfg E bs H where
  sole_fresh: "sole_prover_run B C cfg E bs H
     \<lparr>ws_db = fst (pdb_create_or_load True None), ws_tree = persistent_new merkle_tree_depth\<rparr> Stopped"
| sole_boot: "sole_prover_run B C cfg E bs H s Stopped \<Longrightarrow> worker_boot E tn seen_ok removed s = (s', r) \<Longrightarrow>
     contract_height \<le> H \<Longrightarrow> sole_prover_run B C cfg E bs H s' (case r of Ok h \<Rightarrow> Running contract_height h | _ \<Rightarrow> Stopped)"
| sole_commit: "sole_prover_run B C cfg E bs H s (Running contract_height h) \<Longrightarrow> chain_at bs h = Some b \<Longrightarrow>
     peeked bs h nc \<Longrightarrow> we_are_the_prover cfg io \<noteq> Ok False \<Longrightarrow>
     worker_commit B C cfg E contract_height io b nc s = (s', r) \<Longrightarrow>
     sole_prover_run B C cfg E bs H s' (case r of Ok _ \<Rightarrow> Running contract_height (h + 1) | _ \<Rightarrow> Stopped)"
| sole_stop: "sole_prover_run B C cfg E bs H s (Running contract_height h) \<Longrightarrow> sole_prover_run B C cfg E bs H s Stopped"

lemma sole_prover: "sole_prover_run B C cfg E bs H s ph \<Longrightarrow> prover_run B C cfg E bs s ph"
  by (induction rule: sole_prover_run.induct) (auto intro: prover_run.intros)

lemma sole_contract_height: "sole_prover_run B C cfg E bs H s ph \<Longrightarrow> ph = Running ch h \<Longrightarrow> ch \<le> H"
  by (induction arbitrary: ch h rule: sole_prover_run.induct) (auto split: outcome.splits)

text \<open>The blocks that get no rollup, and the absence of gaps among the others up to the last seen block.\<close>

definition needs_rollup :: "worker_config \<Rightarrow> u64 \<Rightarrow> block \<Rightarrow> bool" where
  "needs_rollup cfg H b \<longleftrightarrow> block_txns b \<noteq> [] \<and> H < block_height b \<and> block_height b \<notin> set (wc_bad_blocks cfg)"

definition has_rollup :: "prover_db \<Rightarrow> block \<Rightarrow> bool" where
  "has_rollup db b \<longleftrightarrow> pdb_get db (PKRollup (block_height b)) \<noteq> None"

definition no_gap :: "worker_config \<Rightarrow> u64 \<Rightarrow> block list \<Rightarrow> prover_db \<Rightarrow> bool" where
  "no_gap cfg H bs db \<longleftrightarrow> (\<forall>l j. get_last_seen_block db = Ok (Some l) \<and> j < unat (ls_height l) \<and> j < length bs \<and>
     needs_rollup cfg H (bs ! j) \<longrightarrow> has_rollup db (bs ! j))"

abbreviation put_seen :: "last_seen_block \<Rightarrow> prover_db \<Rightarrow> prover_db" where
  "put_seen l db \<equiv> bt_insert (pdb_serialize PKLastSeenBlock) (PVLastSeenBlock l) db"

abbreviation put_rollup :: "u64 \<Rightarrow> rollup_input \<Rightarrow> prover_db \<Rightarrow> prover_db" where
  "put_rollup h r db \<equiv> bt_insert (pdb_serialize (PKRollup h)) (PVRollup r) db"

lemma seen_put [simp]:
  "get_last_seen_block (put_seen l db) = Ok (Some l)" "get_last_seen_block (put_rollup h r db) = get_last_seen_block db"
  by (simp_all add: get_last_seen_block_def del: pdb_serialize.simps)

lemma has_rollup_put [simp]:
  "has_rollup (put_seen l db) b = has_rollup db b"
  "has_rollup (put_rollup h r db) b \<longleftrightarrow> h = block_height b \<or> has_rollup db b"
  by (auto simp: has_rollup_def simp del: pdb_serialize.simps)

lemma no_gap_rollup: "no_gap cfg H bs db \<Longrightarrow> no_gap cfg H bs (put_rollup h r db)"
  unfolding no_gap_def seen_put(2) has_rollup_put by blast

lemma no_gap_reset: "ls_height l = 0 \<Longrightarrow> no_gap cfg H bs (put_seen l db)"
  unfolding no_gap_def by (simp del: pdb_serialize.simps)

lemma no_gap_seen:
  assumes "no_gap cfg H bs db" and "seen_at E bs db k" and "unat (block_height (bs ! k)) = Suc k"
    and "needs_rollup cfg H (bs ! k) \<longrightarrow> has_rollup db (bs ! k)"
  shows "no_gap cfg H bs (put_seen (seen_of (bs ! k)) db)"
  unfolding no_gap_def
proof (intro allI impI, elim conjE)
  fix l j
  assume l: "get_last_seen_block (put_seen (seen_of (bs ! k)) db) = Ok (Some l)" "j < unat (ls_height l)"
    and j: "j < length bs" "needs_rollup cfg H (bs ! j)"
  have "j < Suc k" using l assms(3) by (auto simp: seen_of_def simp del: pdb_serialize.simps)
  then consider "j = k" | "j < k" by linarith
  then show "has_rollup (put_seen (seen_of (bs ! k)) db) (bs ! j)"
  proof cases
    case 2
    then obtain l0 where "get_last_seen_block db = Ok (Some l0)" "unat (ls_height l0) = k"
      using assms(2) by (auto simp: seen_at_def split: outcome.splits option.splits)
    then have "has_rollup db (bs ! j)" using assms(1) 2 j unfolding no_gap_def by simp
    then show ?thesis unfolding has_rollup_put .
  qed (use assms(4) j in \<open>simp del: pdb_serialize.simps\<close>)
qed

text \<open>What the operations do to the database: the rollup of a block is there before the block is marked as seen.\<close>

lemma apply_and_save_db:
  assumes "apply_and_save E io b s = (s', r)"
  shows "ws_db s' = ws_db s \<or> ws_db s' = put_seen (seen_of b) (ws_db s)"
  using assms
  by (auto simp: apply_and_save_def save_seen_def set_last_seen_block_def pdb_set_def simp del: pdb_serialize.simps
      split: prod.splits outcome.splits if_splits)

lemma prove_and_save_db:
  assumes "prove_and_save B C cfg E io b nc s = (s', r)"
  shows "ws_db s' = ws_db s \<or> (\<exists>q. ws_db s' = put_rollup (block_height b) q (ws_db s)) \<or>
    (\<exists>q. ws_db s' = put_seen (seen_of b) (put_rollup (block_height b) q (ws_db s)))"
  using assms
  by (auto simp: prove_and_save_def set_rollup_def pdb_set_def Let_def simp del: pdb_serialize.simps
      split: option.splits outcome.splits prod.splits if_splits dest!: apply_and_save_db)

lemma worker_commit_db:
  assumes "worker_commit B C cfg E ch io b nc s = (s', r)" and "ch \<le> H" and "we_are_the_prover cfg io \<noteq> Ok False"
  shows "ws_db s' = ws_db s \<or> (\<not> needs_rollup cfg H b \<and> ws_db s' = put_seen (seen_of b) (ws_db s)) \<or>
    (\<exists>q. ws_db s' = put_rollup (block_height b) q (ws_db s)) \<or>
    (\<exists>q. ws_db s' = put_seen (seen_of b) (put_rollup (block_height b) q (ws_db s)))"
proof -
  consider "block_txns b = []" | "block_txns b \<noteq> []" "block_height b \<le> ch \<or> block_height b \<in> set (wc_bad_blocks cfg)"
    | "block_txns b \<noteq> []" "\<not> (block_height b \<le> ch \<or> block_height b \<in> set (wc_bad_blocks cfg))" by blast
  then show ?thesis
  proof cases
    case 1
    then show ?thesis
      using assms(1) by (auto simp: worker_commit_def needs_rollup_def save_seen_def set_last_seen_block_def pdb_set_def
          simp del: pdb_serialize.simps split: prod.splits if_splits)
  next
    case 2
    have "\<not> needs_rollup cfg H b" using 2 assms(2) by (auto simp: needs_rollup_def)
    then show ?thesis
      using assms(1) 2 by (auto simp: worker_commit_def split: prod.splits dest!: apply_and_save_db)
  next
    case 3
    show ?thesis
    proof (cases "we_are_the_prover cfg io")
      case (Ok w)
      then have "prove_and_save B C cfg E io b nc s = (s', r)" using assms 3 by (auto simp: worker_commit_def split: if_splits)
      from prove_and_save_db [OF this] show ?thesis by blast
    qed (use assms 3 in \<open>auto simp: worker_commit_def split: if_splits\<close>)
  qed
qed

lemma worker_boot_db:
  assumes "worker_boot E tn seen_ok removed s = (s', r)"
  shows "ws_db s' = ws_db s \<or> (\<exists>x. ws_db s' = put_seen \<lparr>ls_height = 0, ls_root_hash = x\<rparr> (ws_db s))"
  using assms
  by (auto simp: worker_boot_def worker_start_def first_last_seen_def set_last_seen_block_def pdb_set_def Let_def bind_o_Ok_iff
      simp del: pdb_serialize.simps split: outcome.splits prod.splits if_splits)

lemma no_gap_commit:
  assumes "no_gap cfg H bs (ws_db s)" and "up_inv E bs k s" and "unat (block_height (bs ! k)) = Suc k"
    and "worker_commit B C cfg E ch io (bs ! k) nc s = (s', r)" and "ch \<le> H" and "we_are_the_prover cfg io \<noteq> Ok False"
  shows "no_gap cfg H bs (ws_db s')"
proof -
  have old: "seen_at E bs (ws_db s) k" using assms(2) by (simp add: up_inv_def)
  consider "ws_db s' = ws_db s"
    | "\<not> needs_rollup cfg H (bs ! k)" "ws_db s' = put_seen (seen_of (bs ! k)) (ws_db s)"
    | q where "ws_db s' = put_rollup (block_height (bs ! k)) q (ws_db s)"
    | q where "ws_db s' = put_seen (seen_of (bs ! k)) (put_rollup (block_height (bs ! k)) q (ws_db s))"
    using worker_commit_db [OF assms(4-6)] by blast
  then show ?thesis
  proof cases
    case 4
    have "seen_at E bs (put_rollup (block_height (bs ! k)) q (ws_db s)) k"
      using old unfolding seen_at_def seen_put(2) .
    then show ?thesis
      using no_gap_seen [OF no_gap_rollup [OF assms(1)]] assms(3) unfolding 4 by (simp del: pdb_serialize.simps)
  qed (use assms(1) no_gap_seen [OF assms(1) old assms(3)] no_gap_rollup [OF assms(1)] in \<open>simp_all del: pdb_serialize.simps\<close>)
qed

lemma sole_prover_no_gap:
  assumes "sole_prover_run B C cfg E bs H s ph"
    and v: "chain_validated E U bs" and f: "roots_faithful E bs" and pr: "chain_provable E C B bs"
  shows "no_gap cfg H bs (ws_db s)"
  using assms(1)
proof (induction rule: sole_prover_run.induct)
  case sole_fresh
  show ?case
    by (simp add: no_gap_def pdb_create_or_load_def set_version_def pdb_set_def get_last_seen_block_def pdb_get_def bt_get_def)
next
  case (sole_boot s tn seen_ok removed s' r contract_height)
  then show ?case
    using worker_boot_db [OF sole_boot.hyps(2)] no_gap_reset [of "\<lparr>ls_height = 0, ls_root_hash = _\<rparr>" cfg H bs]
    by (auto simp del: pdb_serialize.simps)
next
  case (sole_commit s contract_height h b nc io s' r)
  obtain k where k: "unat h = Suc k" "up_inv E bs k s"
    using prover_run_inv [OF sole_prover [OF sole_commit.hyps(1)] v f pr] by (auto simp: phase_inv_def)
  have b: "k < length bs" "b = bs ! k" using sole_commit.hyps(2) k(1) by (auto simp: chain_at_def split: if_splits)
  show ?case
    using no_gap_commit [OF sole_commit.IH k(2) chain_heights [OF v b(1)]] sole_commit.hyps(4,5) b(2)
      sole_contract_height [OF sole_commit.hyps(1)] by blast
qed

lemma no_gap_below:
  assumes "no_gap cfg H bs db" and "seen_at E bs db k" and "j < k" and "needs_rollup cfg H (bs ! j)"
  shows "has_rollup db (bs ! j)"
proof -
  obtain l where "get_last_seen_block db = Ok (Some l)" "unat (ls_height l) = k" "k \<le> length bs"
    using assms(2,3) by (auto simp: seen_at_def split: outcome.splits option.splits)
  then show ?thesis using assms(1,3,4) unfolding no_gap_def by (metis less_le_trans)
qed

lemma worker_loop_no_gap:
  assumes v: "chain_validated E U bs" and pr: "chain_provable E C B bs" and m: "wc_mode cfg \<noteq> ModeMockProver"
    and six: "\<forall>b \<in> set bs. length (block_txns b) \<le> MAXIMUM_TXNS" and io: "\<forall>b. io_good cfg (io b)" and ne: "bs \<noteq> []"
    and up: "up_inv E bs k s" and gap: "no_gap cfg H bs (ws_db s)" and ch: "ch \<le> H"
  shows "\<exists>s'. worker_loop B C cfg E ch io (drop k bs) s = (s', Ok ()) \<and> rollups_ok E bs (ws_db s') \<and>
     (\<forall>i. Suc i < length bs \<and> needs_rollup cfg H (bs ! i) \<longrightarrow> has_rollup (ws_db s') (bs ! i))"
proof (cases "k < length bs")
  case True
  then have "k + (length bs - 1 - k) = length bs - 1" by simp
  from worker_loop_good [OF v pr m six io up this ne, of ch]
  obtain s' where s': "worker_loop B C cfg E ch io (drop k bs) s = (s', Ok ())" "up_inv E bs (length bs - 1) s'"
    "\<forall>j. k \<le> j \<and> Suc j < length bs \<and> block_txns (bs ! j) \<noteq> [] \<and> ch < block_height (bs ! j) \<and>
        block_height (bs ! j) \<notin> set (wc_bad_blocks cfg) \<longrightarrow> pdb_get (ws_db s') (PKRollup (block_height (bs ! j))) \<noteq> None"
    "\<forall>h. pdb_get (ws_db s) (PKRollup h) \<noteq> None \<longrightarrow> pdb_get (ws_db s') (PKRollup h) \<noteq> None" by blast
  have "has_rollup (ws_db s') (bs ! i)" if "Suc i < length bs" "needs_rollup cfg H (bs ! i)" for i
  proof (cases "k \<le> i")
    case True
    then show ?thesis using s'(3) that ch by (auto simp: needs_rollup_def has_rollup_def)
  next
    case False
    then have "has_rollup (ws_db s) (bs ! i)"
      using no_gap_below [OF gap, of E k i] up that(2) by (simp add: up_inv_def)
    then show ?thesis using s'(4) by (simp add: has_rollup_def)
  qed
  then show ?thesis using s'(1,2) by (auto simp: up_inv_def)
next
  case False
  have "has_rollup (ws_db s) (bs ! i)" if "Suc i < length bs" "needs_rollup cfg H (bs ! i)" for i
    using no_gap_below [OF gap, of E k i] up that False by (simp add: up_inv_def)
  then show ?thesis using False up by (simp add: up_inv_def)
qed

section \<open>Properties of the proving worker\<close>

text \<open>
  C6. The rollups of the prover link the chain. Let a node reach any state by its own operations, and let
  its prover read the chain of blocks stored there. However often the prover is stopped and restarted, and
  whichever of its writes fail, every rollup in its database belongs to a block of that chain: it has the
  height of that block, its public inputs lead from the root before the block to the root of the block,
  and it carries the hash of the header and the approvals in the header of the next block.
\<close>

theorem prover_rollups_link:
  assumes "node_setup E cf U" and "node_run E cf U n" and "node_chain n bs"
    and "roots_faithful E bs" and "chain_provable E C B bs"
    and "prover_run B C cfg E bs s ph" and "pdb_get (ws_db s) (PKRollup h) = Some v"
  shows "\<exists>r i. v = PVRollup r \<and> Suc i < length bs \<and> unat h = Suc i \<and> ri_height r = h \<and>
     ri_old_root r = (if i = 0 then empty_hash (tree_hash E) merkle_tree_depth else block_root (bs ! (i - 1))) \<and>
     ri_new_root r = block_root (bs ! i) \<and> ri_other_hash r = header_hash E (bk_content (bs ! i)) \<and>
     ri_signatures r = bh_approvals (bc_header (bk_content (bs ! Suc i)))"
proof -
  note val = node_chain_validated [OF assms(1-3)]
  have db: "rollups_ok E bs (ws_db s)" by (rule prover_run_rollups [OF assms(6) val assms(4,5)])
  then obtain r where r: "v = PVRollup r" "rollup_ok E bs h r"
    using assms(7) unfolding rollups_ok_def pdb_inv_def by blast
  then obtain i where i: "unat h = Suc i" "Suc i < length bs" by (cases "unat h") (auto simp: rollup_ok_def)
  have "root_at E bs i = block_root (bs ! (i - 1))" if "i \<noteq> 0"
    using that i root_at_Suc [OF val, of "i - 1"] by simp
  then show ?thesis
    using r i root_at_Suc [OF val, of i] root_at_0 [of E bs] by (auto simp: rollup_ok_def)
qed

text \<open>
  C7. The prover catches up. Let a prover work alone (it never loses the lock to another one), let the
  contract never be above the height \<open>H\<close> when it starts, and let it be stopped and restarted at any
  point, with writes that fail. Whatever state a stop leaves behind, it starts at the latest at the second attempt
  (the first one may delete a tree that is ahead of the database). With a working disk and lock it then
  handles the commits from the block after the last seen one up to the last but one of the chain, and afterwards no block is left out: a rollup
  with the root of the block is stored for every block before the last that has transactions, is above \<open>H\<close> and is
  not exempt. The prover is not a mock and blocks have at most six transactions.
\<close>

theorem prover_catches_up:
  assumes "node_setup E cf U" and "node_run E cf U n" and "node_chain n bs"
    and "roots_faithful E bs" and "chain_provable E C B bs" and "bs \<noteq> []"
    and "sole_prover_run B C cfg E bs H s Stopped" and "wc_mode cfg \<noteq> ModeMockProver"
    and "\<forall>b \<in> set bs. length (block_txns b) \<le> MAXIMUM_TXNS" and "\<forall>b. io_good cfg (io b)" and "contract_height \<le> H"
  shows "\<exists>s1 h s2. (worker_boot E tn True True s = (s1, Ok h) \<or>
       (\<exists>s0. worker_boot E tn True True s = (s0, Panic) \<and> worker_boot E tn True True s0 = (s1, Ok h))) \<and>
     worker_loop B C cfg E contract_height io (drop (unat h - 1) bs) s1 = (s2, Ok ()) \<and>
     (\<forall>i. Suc i < length bs \<and> block_txns (bs ! i) \<noteq> [] \<and> H < block_height (bs ! i) \<and>
        block_height (bs ! i) \<notin> set (wc_bad_blocks cfg) \<longrightarrow>
        (\<exists>r. pdb_get (ws_db s2) (PKRollup (block_height (bs ! i))) = Some (PVRollup r) \<and> ri_new_root r = block_root (bs ! i)))"
proof -
  note val = node_chain_validated [OF assms(1-3)]
  have d: "disk_inv E bs s"
    using prover_run_inv [OF sole_prover [OF assms(7)] val assms(4,5)] by (simp add: phase_inv_def)
  obtain s1 h where b: "worker_boot E tn True True s = (s1, Ok h) \<or>
       (\<exists>s0. worker_boot E tn True True s = (s0, Panic) \<and> worker_boot E tn True True s0 = (s1, Ok h))"
    using worker_boots [OF val assms(4) d] by blast
  then have run: "sole_prover_run B C cfg E bs H s1 (Running contract_height h)"
    using sole_boot [OF assms(7) _ assms(11)] sole_boot [OF sole_boot [OF assms(7) _ assms(11), where r = Panic, simplified] _ assms(11)]
    by fastforce
  have gap: "no_gap cfg H bs (ws_db s1)" by (rule sole_prover_no_gap [OF run val assms(4,5)])
  obtain k where k: "unat h = Suc k" "up_inv E bs k s1"
    using prover_run_inv [OF sole_prover [OF run] val assms(4,5)] by (auto simp: phase_inv_def)
  have seen: "seen_at E bs (ws_db s1) k" using k(2) by (simp add: up_inv_def)
  have "\<exists>s2. worker_loop B C cfg E contract_height io (drop k bs) s1 = (s2, Ok ()) \<and> rollups_ok E bs (ws_db s2) \<and>
     (\<forall>i. Suc i < length bs \<and> needs_rollup cfg H (bs ! i) \<longrightarrow> has_rollup (ws_db s2) (bs ! i))"
    by (rule worker_loop_no_gap [OF val assms(5,8-10,6) k(2) gap assms(11)])
  then obtain s2 where s2: "worker_loop B C cfg E contract_height io (drop k bs) s1 = (s2, Ok ())" "rollups_ok E bs (ws_db s2)"
    "\<forall>i. Suc i < length bs \<and> needs_rollup cfg H (bs ! i) \<longrightarrow> has_rollup (ws_db s2) (bs ! i)" by blast
  have "\<exists>r. pdb_get (ws_db s2) (PKRollup (block_height (bs ! i))) = Some (PVRollup r) \<and> ri_new_root r = block_root (bs ! i)"
    if "Suc i < length bs" and has: "has_rollup (ws_db s2) (bs ! i)" for i
  proof -
    obtain r where "pdb_get (ws_db s2) (PKRollup (block_height (bs ! i))) = Some (PVRollup r)" "rollup_ok E bs (block_height (bs ! i)) r"
      using s2(2) has unfolding has_rollup_def rollups_ok_def pdb_inv_def by blast
    then show ?thesis
      using chain_heights [OF val, of i] root_at_Suc [OF val, of i] \<open>Suc i < length bs\<close> by (auto simp: rollup_ok_def)
  qed
  then show ?thesis using b s2(1,3) k(1) by (auto simp: needs_rollup_def)
qed

end
