(* ===== verification/Rollup_Chain.thy ===== *)
theory Rollup_Chain
  imports Prover_Worker_Theorems
begin

text \<open>
  The rollup worker and the contract: what \<open>verifyRollup\<close> (\<open>RollupV1.sol\<close>) does with a submission, how
  long the worker waits for one, and how far the contract comes.
\<close>

section \<open>The contract\<close>

text \<open>
  The part of \<open>verifyRollup\<close> that decides over the root and the height; \<open>A\<close> stands for the other checks
  (the caller, the verifier and its proof, the signatures, the messages). \<open>None\<close> is a revert.
\<close>

definition verifyRollup :: "(verify_call \<Rightarrow> bool) \<Rightarrow> verify_call \<Rightarrow> contract_rollup_state \<Rightarrow> contract_rollup_state option" where
  "verifyRollup A call c =
     (if vc_public_inputs call ! 0 \<noteq> cr_root_hash c \<or> \<not> A call then None
      else if vc_height call > cr_height c
      then Some \<lparr>cr_height = vc_height call, cr_root_hash = vc_public_inputs call ! 1\<rparr>
      else None)"

text \<open>The state of the contract after a submission was mined.\<close>

definition mined :: "(verify_call \<Rightarrow> bool) \<Rightarrow> rollup_input \<Rightarrow> contract_rollup_state \<Rightarrow> contract_rollup_state" where
  "mined A r c = (case verify_block r of
     Ok call \<Rightarrow> (case verifyRollup A call c of Some c' \<Rightarrow> c' | None \<Rightarrow> c)
   | _ \<Rightarrow> c)"

definition next_rollup :: "prover_db \<Rightarrow> contract_rollup_state \<Rightarrow> rollup_input option" where
  "next_rollup db c = (case list_rollups db (cr_height c + 1) (- 1) of Ok (_, r) # _ \<Rightarrow> Some r | _ \<Rightarrow> None)"

text \<open>A round in which no other transaction of the prover is pending and the submission is mined.\<close>

definition mined_io :: "element \<Rightarrow> nat \<Rightarrow> contract_rollup_state \<Rightarrow> contract_rollup_state \<Rightarrow> rollup_io" where
  "mined_io tx nonce c c' = \<lparr>ro_contract_height = Ok (cr_height c), ro_root_hash = Ok (cr_root_hash c), ro_postgres_row = Ok None,
     ro_pending_nonce = Ok nonce, ro_latest_nonce = Ok nonce, ro_pre_state = Ok c, ro_result = Ok tx, ro_post_state = Ok c',
     ro_subscriber = None\<rparr>"

fun submit_rounds ::
    "text_env \<Rightarrow> (verify_call \<Rightarrow> bool) \<Rightarrow> prover_db \<Rightarrow> element \<Rightarrow> nat \<Rightarrow> nat \<Rightarrow> contract_rollup_state \<Rightarrow> rollup_worker \<Rightarrow>
     (contract_rollup_state \<times> rollup_worker, worker_error) outcome" where
  "submit_rounds T A db tx nonce 0 c w = Ok (c, w)"
| "submit_rounds T A db tx nonce (Suc n) c w =
     (let c' = (case next_rollup db c of Some r \<Rightarrow> mined A r c | None \<Rightarrow> c)
      in bind_o (rollup_round T False db (mined_io tx nonce c c') w) (\<lambda>(w', _).
         submit_rounds T A db tx (Suc nonce) n c' w'))"

section \<open>The contract follows the chain\<close>

lemma root_at_empty:
  assumes "i < length bs" and "block_txns (bs ! i) = []"
  shows "root_at E bs (Suc i) = root_at E bs i"
  using assms by (simp add: root_at_def unspent_def take_Suc_conv_app_nth)

lemma root_at_gap:
  assumes "i \<le> j" and "j \<le> length bs" and "\<forall>l. i \<le> l \<and> l < j \<longrightarrow> block_txns (bs ! l) = []"
  shows "root_at E bs j = root_at E bs i"
  using assms(1-3)
proof (induction rule: dec_induct)
  case (step l)
  then show ?case using root_at_empty [of l bs E] by simp
qed simp

text \<open>Every block with transactions above a height has its rollup.\<close>

definition rollups_complete :: "block list \<Rightarrow> nat \<Rightarrow> prover_db \<Rightarrow> bool" where
  "rollups_complete bs k db \<longleftrightarrow> (\<forall>i. k \<le> i \<and> Suc i < length bs \<and> block_txns (bs ! i) \<noteq> [] \<longrightarrow>
     pdb_get db (PKRollup (block_height (bs ! i))) \<noteq> None)"

definition contract_at :: "node_env \<Rightarrow> block list \<Rightarrow> nat \<Rightarrow> contract_rollup_state \<Rightarrow> bool" where
  "contract_at E bs k c \<longleftrightarrow> unat (cr_height c) = k \<and> k < length bs \<and> cr_root_hash c = root_at E bs k"

lemma next_stored:
  assumes v: "chain_validated E U bs" and db: "rollups_ok E bs db" and full: "rollups_complete bs k db" and c: "contract_at E bs k c"
  shows "(list_rollups db (cr_height c + 1) (- 1) = [] \<and> root_at E bs (length bs - 1) = root_at E bs k) \<or>
    (\<exists>h r rest. list_rollups db (cr_height c + 1) (- 1) = Ok (h, r) # rest \<and> k < unat h \<and> rollup_ok E bs h r \<and>
       root_at E bs (unat h - 1) = root_at E bs k)"
proof -
  have k: "unat (cr_height c) = k" "k < length bs" and len: "length bs < 2 ^ 64 - 1"
    using c v by (simp_all add: contract_at_def chain_validated_def)
  then have lo: "unat (cr_height c + 1) = Suc k" by (simp add: unat_word_ariths)
  obtain hrs where hrs: "list_rollups db (cr_height c + 1) (- 1) = map Ok hrs" "sorted_wrt (<) (map fst hrs)"
    "set hrs = {(h, r). cr_height c + 1 \<le> h \<and> h < - 1 \<and> pdb_get db (PKRollup h) = Some (PVRollup r)}"
    using list_rollups_spec [of db "cr_height c + 1" "- 1"] db unfolding rollups_ok_def by blast
  have mem: "\<exists>r. (block_height (bs ! i), r) \<in> set hrs"
    if i: "k \<le> i" "Suc i < length bs" "block_txns (bs ! i) \<noteq> []" for i
  proof -
    have h: "unat (block_height (bs ! i)) = Suc i" using chain_heights [OF v] i by simp
    have "unat (- 1 :: u64) = 2 ^ 64 - 1" by (simp add: unsigned_minus_1_eq_mask mask_eq_exp_minus_1)
    then have "cr_height c + 1 \<le> block_height (bs ! i) \<and> block_height (bs ! i) < - 1"
      using h lo i len by (simp add: word_le_nat_alt word_less_nat_alt)
    moreover obtain r where "pdb_get db (PKRollup (block_height (bs ! i))) = Some (PVRollup r)"
      using full i db unfolding rollups_complete_def rollups_ok_def pdb_inv_def by blast
    ultimately show ?thesis using hrs(3) by blast
  qed
  show ?thesis
  proof (cases hrs)
    case Nil
    then have "\<forall>l. k \<le> l \<and> l < length bs - 1 \<longrightarrow> block_txns (bs ! l) = []" using mem by fastforce
    then show ?thesis using root_at_gap [of k "length bs - 1" bs E] k(2) hrs(1) Nil by simp
  next
    case (Cons hr rest)
    obtain h r where hr: "hr = (h, r)" by (cases hr)
    have in_hrs: "cr_height c + 1 \<le> h" "pdb_get db (PKRollup h) = Some (PVRollup r)" using hrs(3) Cons hr by auto
    then have ok: "rollup_ok E bs h r" and kh: "k < unat h" using db lo by (auto simp: rollups_ok_def word_le_nat_alt)
    have "block_txns (bs ! l) = []" if l: "k \<le> l" "l < unat h - 1" for l
    proof (rule ccontr)
      assume ne: "block_txns (bs ! l) \<noteq> []"
      have "unat h < length bs" using ok by (simp add: rollup_ok_def)
      then have "Suc l < length bs" using l by linarith
      then obtain r' where "(block_height (bs ! l), r') \<in> set hrs" "unat (block_height (bs ! l)) = Suc l"
        using mem [OF l(1) _ ne] chain_heights [OF v, of l] by auto
      moreover have "h \<le> x" if "x \<in> set (map fst hrs)" for x using hrs(2) that by (auto simp: Cons hr)
      ultimately show False using l(2) by (force simp: word_le_nat_alt)
    qed
    moreover have "k \<le> unat h - 1" "unat h - 1 \<le> length bs"
      using kh ok unfolding rollup_ok_def by linarith+
    ultimately have "root_at E bs (unat h - 1) = root_at E bs k" by (intro root_at_gap) blast+
    then show ?thesis using hrs(1) Cons hr ok kh by simp
  qed
qed

text \<open>
  The contract accepts the proofs, signatures and messages of the stored rollups, and the signatures have
  their 65 bytes.
\<close>

definition contract_accepts :: "(verify_call \<Rightarrow> bool) \<Rightarrow> prover_db \<Rightarrow> bool" where
  "contract_accepts A db \<longleftrightarrow> (\<forall>h r. pdb_get db (PKRollup h) = Some (PVRollup r) \<longrightarrow>
     (\<forall>sig \<in> set (ri_signatures r). length sig = 65) \<and> (\<forall>call. verify_block r = Ok call \<longrightarrow> A call))"

lemma split_signatures:
  "\<forall>sig \<in> set sigs. length sig = 65 \<Longrightarrow>
     \<exists>xs. fold_o (\<lambda>acc sig. bind_o (split_signature sig) (\<lambda>x. Ok (acc @ [x]))) acc sigs = Ok xs"
  by (induction sigs arbitrary: acc) (auto simp: split_signature_def Let_def)

lemma verify_block_ok:
  assumes "rollup_ok E bs h r" and "\<forall>sig \<in> set (ri_signatures r). length sig = 65"
  shows "\<exists>call. verify_block r = Ok call"
  using assms split_signatures [OF assms(2), of "[]"] by (auto simp: verify_block_def rollup_ok_def Let_def)

lemma verify_block_inputs:
  "verify_block r = Ok call \<Longrightarrow> vc_height call = ri_height r \<and> vc_public_inputs call ! 0 = ri_old_root r \<and> vc_public_inputs call ! 1 = ri_new_root r"
  by (auto simp: verify_block_def Let_def bind_o_Ok_iff ri_old_root_def ri_new_root_def)

lemma submit_step:
  assumes v: "chain_validated E U bs" and db: "rollups_ok E bs db" and full: "rollups_complete bs k db"
    and A: "contract_accepts A db" and c: "contract_at E bs k c"
  shows "(\<forall>n nonce w. submit_rounds T A db tx nonce (Suc n) c w = Ok (c, \<lparr>rw_skip_waiting = False, rw_retried_height = None\<rparr>)) \<and>
       root_at E bs (length bs - 1) = root_at E bs k \<or>
     (\<exists>k' c' w'. k < k' \<and> contract_at E bs k' c' \<and>
       (\<forall>n nonce w. submit_rounds T A db tx nonce (Suc n) c w = submit_rounds T A db tx (Suc nonce) n c' w'))"
proof -
  have ht: "height_add (cr_height c) 1 = Ok (cr_height c + 1)"
    using c v by (simp add: height_add_def contract_at_def chain_validated_def)
  consider "list_rollups db (cr_height c + 1) (- 1) = []" "root_at E bs (length bs - 1) = root_at E bs k"
    | h r rest where "list_rollups db (cr_height c + 1) (- 1) = Ok (h, r) # rest" "k < unat h" "rollup_ok E bs h r"
      "root_at E bs (unat h - 1) = root_at E bs k" using next_stored [OF v db full c] by blast
  then show ?thesis
  proof cases
    case 1
    let ?idle = "\<lparr>rw_skip_waiting = False, rw_retried_height = None\<rparr> :: rollup_worker"
    have "submit_rounds T A db tx nonce (Suc n) c w = Ok (c, ?idle)" for n nonce w
    proof (induction n arbitrary: nonce w)
      case 0
      then show ?case using 1 ht by (simp add: next_rollup_def rollup_round_def mined_io_def)
    next
      case (Suc n)
      then show ?case using 1 ht
        by (subst submit_rounds.simps) (simp add: next_rollup_def rollup_round_def mined_io_def del: submit_rounds.simps)
    qed
    then show ?thesis using 1 by blast
  next
    case 2
    then have ok: "ri_height r = h" "ri_old_root r = cr_root_hash c" "ri_new_root r = root_at E bs (unat h)" "unat h < length bs"
      using c by (simp_all add: rollup_ok_def contract_at_def)
    have "pdb_get db (PKRollup h) = Some (PVRollup r)" using 2(1) list_rollups_spec [of db "cr_height c + 1" "- 1"] db
      by (fastforce simp: rollups_ok_def map_eq_Cons_conv)
    then obtain call where call: "verify_block r = Ok call" "A call"
      using A verify_block_ok [OF 2(3)] unfolding contract_accepts_def by blast
    have gt: "cr_height c < h" using c 2(2) by (simp add: contract_at_def word_less_nat_alt)
    let ?c = "\<lparr>cr_height = h, cr_root_hash = root_at E bs (unat h)\<rparr>"
    have m: "mined A r c = ?c"
      using call verify_block_inputs [OF call(1)] ok gt by (simp add: mined_def verifyRollup_def)
    have "submit_rounds T A db tx nonce (Suc n) c w =
        submit_rounds T A db tx (Suc nonce) n ?c \<lparr>rw_skip_waiting = True, rw_retried_height = None\<rparr>" for n nonce w
      using 2(1) ht ok m by (simp add: next_rollup_def rollup_round_def mined_io_def choose_rollup_def after_submission_def
          classify_rollup_progress_def)
    moreover have "contract_at E bs (unat h) ?c" using ok(4) by (simp add: contract_at_def)
    ultimately show ?thesis using 2(2) by blast
  qed
qed

lemma submit_all:
  assumes v: "chain_validated E U bs" and db: "rollups_ok E bs db" and A: "contract_accepts A db"
  shows "contract_at E bs k c \<Longrightarrow> rollups_complete bs k db \<Longrightarrow> length bs \<le> n + k \<Longrightarrow>
    \<exists>c' w'. submit_rounds T A db tx nonce n c w = Ok (c', w') \<and> cr_root_hash c' = root_at E bs (length bs - 1) \<and> \<not> rw_skip_waiting w'"
proof (induction n arbitrary: k c nonce w)
  case 0
  then show ?case by (simp add: contract_at_def)
next
  case (Suc n)
  from submit_step [OF v db Suc.prems(2) A Suc.prems(1), of T tx]
  consider "\<And>nonce w. submit_rounds T A db tx nonce (Suc n) c w = Ok (c, \<lparr>rw_skip_waiting = False, rw_retried_height = None\<rparr>)"
      "root_at E bs (length bs - 1) = root_at E bs k"
    | k' c' w' where "k < k'" "contract_at E bs k' c'"
      "\<And>nonce w. submit_rounds T A db tx nonce (Suc n) c w = submit_rounds T A db tx (Suc nonce) n c' w'" by blast
  then show ?case
  proof cases
    case 1
    then show ?thesis using Suc.prems(1) by (simp add: contract_at_def del: submit_rounds.simps)
  next
    case 2
    have "rollups_complete bs k' db" using Suc.prems(2) 2(1) by (simp add: rollups_complete_def)
    then show ?thesis using Suc.IH [OF 2(2)] Suc.prems(3) 2 by (simp del: submit_rounds.simps)
  qed
qed

section \<open>Waiting and retrying\<close>

text \<open>A look past the five minutes is the last one.\<close>

lemma rollup_loop_ends:
  assumes "wait_start + 300000 < rp_now (polls (n + d))" and "\<forall>i \<le> n + d. polls' i = polls i"
  shows "\<exists>r. rollup_loop tx polls wait_start deadline n = Some r \<and> rollup_loop tx polls' wait_start deadline n = Some r"
  using assms
proof (induction d arbitrary: n deadline)
  case 0
  then have "\<not> rp_now (polls n) - wait_start \<le> 5 * 60 * 1000" "polls' n = polls n" by simp_all
  then show ?case
    by (subst (1 2) rollup_loop.simps) (auto simp: Let_def not_le split: outcome.splits option.splits)
next
  case (Suc d)
  then have "\<exists>r. rollup_loop tx polls wait_start dl (Suc n) = Some r \<and> rollup_loop tx polls' wait_start dl (Suc n) = Some r" for dl
    by simp
  moreover have "polls' n = polls n" using Suc.prems(2) by simp
  ultimately show ?case
    by (subst (1 2) rollup_loop.simps) (auto simp: Let_def split: outcome.splits option.splits)
qed

text \<open>No answer of a remote node about a nonce is recognised: the text of the error does not contain it.\<close>

lemma nonce_conflict_unseen:
  "\<not> is_nonce_conflict_error T (ContractP e)" "\<not> is_nonce_conflict_error T (Web3P e')"
  by (simp_all add: is_nonce_conflict_error_def nonce_patterns_def to_ascii_lowercase_def sublist_code)

text \<open>A submission that leaves the contract as it was is repeated at once only the first time.\<close>

lemma retry_once:
  assumes "after_submission T io height retried r pre post = Ok w" and "rw_skip_waiting w"
    and "classify_rollup_progress pre post r = Unchanged"
  shows "retried \<noteq> Some height \<and> rw_retried_height w = Some height"
  using assms by (auto simp: after_submission_def split: outcome.splits if_splits)

section \<open>Properties of the rollup worker\<close>

text \<open>
  C8. The contract catches up with the chain. Let a node be in any state it can reach, and its prover in
  any state in which every block with transactions above the height of the contract has its rollup. When
  the submissions are mined, at most one round of the rollup worker per block brings the contract to the
  root of the last block that can be proved; no round fails, and the worker then waits.
\<close>

theorem contract_catches_up:
  assumes "node_setup E cf U" and "node_run E cf U n" and "node_chain n bs" and "2 \<le> length bs"
    and "roots_faithful E bs" and "chain_provable E C B bs" and "prover_run B C cfg E bs s ph"
    and "contract_at E bs k c" and "rollups_complete bs k (ws_db s)" and "contract_accepts A (ws_db s)"
  shows "\<exists>c' w'. submit_rounds T A (ws_db s) tx nonce (length bs) c w = Ok (c', w') \<and>
     cr_root_hash c' = block_root (bs ! (length bs - 2)) \<and> \<not> rw_skip_waiting w'"
proof -
  note val = node_chain_validated [OF assms(1-3)]
  have db: "rollups_ok E bs (ws_db s)" by (rule prover_run_rollups [OF assms(7) val assms(5,6)])
  have "root_at E bs (length bs - 1) = block_root (bs ! (length bs - 2))"
    using root_at_Suc [OF val, of "length bs - 2"] assms(4) by (simp add: numeral_2_eq_2 Suc_diff_Suc)
  then show ?thesis
    using submit_all [OF val db assms(10,8,9), of "length bs" T tx nonce w] by simp
qed

text \<open>
  C27. Waiting for a submission ends. With a clock that advances by the second the worker sleeps between two
  looks, \<open>Prover::rollup\<close> returns whatever the remote node answers, and it looks at most 302 times: the
  result is the same for any other later answers.
\<close>

theorem rollup_wait_ends:
  assumes "\<forall>i. wait_start + 1000 * i \<le> rp_now (polls i)" and "\<forall>i \<le> 301. polls' i = polls i"
  shows "\<exists>res. prover_rollup r sent polls wait_start = Some res \<and> prover_rollup r sent polls' wait_start = Some res"
proof -
  have "wait_start + 300000 < rp_now (polls (0 + 301))" using spec [OF assms(1), of 301] by simp
  then show ?thesis
    using rollup_loop_ends [of wait_start polls 0 301 polls'] assms(2) by (auto simp: prover_rollup_def split: outcome.splits)
qed

end
