(* ===== verification/Prover_Worker_Demo.thy ===== *)
theory Prover_Worker_Demo
  imports Rollup_Chain
begin

text \<open>
  The properties of the proving worker at a concrete node: it has committed a block with a transaction
  and an empty block, and its prover starts with an empty database.
\<close>

section \<open>A node with two blocks\<close>

definition seven_env :: node_env where
  "seven_env = demo_run_env\<lparr>ne_poseidon := (\<lambda>_. 7)\<rparr>"

text \<open>A transaction of kind \<open>Send\<close> that neither spends nor creates a note.\<close>

definition idle_txn :: utxo_proof where
  "idle_txn = \<lparr>up_proof = replicate (508 * 32) 0, up_public_inputs = \<lparr>input_commitments = (0, 0),
     output_commitments = (0, 0), messages = (1, 0, 0, 0, 0)\<rparr>\<rparr>"

definition seven_chain :: "block list" where
  "seven_chain = [demo_chain_block 1 [idle_txn] 7, demo_chain_block 2 [] 7]"

lemma seven_setup: "node_setup seven_env demo_node_config demo_U"
  using demo_setup
  by (simp add: node_setup_def seven_env_def hash_fixes_height_def block_hash_def content_hash_def header_hash_def)

lemma idle_leaves: "outputs_of [idle_txn] = []" "inputs_of [idle_txn] = []" "txn_mint_hash idle_txn = None"
  by (simp_all add: idle_txn_def txn_leaves txn_mint_hash_def kind_messages_def pi_kind_def last_be_byte kind_from_u8_def)

lemma seven_root: "root_at seven_env bs k = 7"
  by (simp add: root_at_def seven_env_def demo_seven_roots)

lemma seven_validates:
  assumes "ts = [] \<or> ts = [idle_txn]" and "tree_chain seven_env p (take k bs)"
  shows "validate_block seven_env [] db p (demo_chain_block h ts 7) = Ok ()"
proof -
  have l: "outputs_of ts = []" "inputs_of ts = []" using assms(1) idle_leaves by auto
  have "txn_valid seven_env db p idle_txn"
    using idle_leaves by (simp add: txn_valid_def seven_env_def demo_run_env_def idle_txn_def txn_inputs_def txn_outputs_def
        pair_list_def non_zero_def MODULUS_def)
  then have "content_validate seven_env db p (bk_content (demo_chain_block h ts 7)) = Ok ()"
    using assms(1) l tree_chain_root_at [OF assms(2)] seven_root by (auto simp: content_validate_Ok new_root_hash_def)
  moreover have "sig_verify seven_env (replicate 65 0) x = Ok (Some [1])" for x
    by (simp add: sig_verify_def seven_env_def demo_run_env_def)
  ultimately show ?thesis
    by (simp add: validate_block_def get_leader_for_block_height_def) (simp add: seven_env_def demo_run_env_def demo_chain_block_def)
qed

lemma seven_node: "\<exists>n. node_run seven_env demo_node_config demo_U n \<and> node_chain n seven_chain"
proof -
  let ?E = seven_env and ?b1 = "demo_chain_block 1 [idle_txn] 7" and ?b2 = "demo_chain_block 2 [] 7"
  have "set (outs ?b1) \<subseteq> demo_U" "set (outs ?b2) \<subseteq> demo_U" using idle_leaves by (simp_all del: leaves_Cons(1,2))
  then obtain s where s: "node_run ?E demo_node_config demo_U s" "node_inv ?E demo_U s []" "ca_height (ns_cache s) = 0"
    "get_by_height (ns_cache s) 1 = Some ?b1" "get_by_height (ns_cache s) 2 = Some ?b2"
    using demo_received [OF _ _ _ _ seven_setup, of ?b1 ?b2] by auto
  have bad: "cf_bad_blocks demo_node_config = []" and io: "ci_write_ok demo_io" by (simp_all add: demo_node_config_def demo_io_def)
  have t: "tree_chain ?E (ns_tree s) (take 0 [])" using s(2) by (simp add: node_inv_def ledger_def)
  have nb: "get_next_commit_block (ns_cache s) = Ok (Some ?b1)" using demo_next [OF s(3)] s(4) by simp
  obtain s1 out where s1: "tick_round ?E demo_node_config demo_io (\<lambda>_. True) s = (s1, out, RoundAgain)"
    "node_inv ?E demo_U s1 [?b1]" "ns_cache s1 = confirm 1 (ns_cache s)"
    using commit_round [OF seven_setup s(2) io nb, of "\<lambda>_. True"] seven_validates [OF _ t, of "[idle_txn]"] bad by auto
  have c: "cache_inv ?E (ns_cache s)" and hf: "hash_fixes_height ?E"
    using seven_setup s(2) by (simp_all add: node_setup_def node_inv_def cache_within_def)
  note k = confirm_ok [OF c hf, of 1]
  have nb1: "get_next_commit_block (ns_cache s1) = Ok (Some ?b2)"
    using k(3) k(2) [of 2] demo_next [of s1 1] s(5) by (simp add: s1(3))
  have t1: "tree_chain ?E (ns_tree s1) (take 1 [?b1])" using s1(2) by (simp add: node_inv_def ledger_def)
  obtain s2 out2 where s2: "tick_round ?E demo_node_config demo_io (\<lambda>_. True) s1 = (s2, out2, RoundAgain)"
    "node_inv ?E demo_U s2 seven_chain"
    using commit_round [OF seven_setup s1(2) io nb1, of "\<lambda>_. True"] seven_validates [OF _ t1, of "[]"] bad
    by (auto simp: seven_chain_def)
  have "node_run ?E demo_node_config demo_U s2" using run_round [OF run_round [OF s(1) io s1(1)] io s2(1)] .
  moreover have "node_chain s2 seven_chain"
    using s2(2) by (simp add: node_chain_def node_inv_def ledger_def store_chain_def seven_chain_def)
  ultimately show ?thesis by blast
qed

section \<open>Its prover\<close>

lemma seven_faithful: "roots_faithful seven_env seven_chain"
proof -
  have "unspent (take i seven_chain) = {}" for i
    using idle_leaves by (auto simp: seven_chain_def unspent_def chain_outputs_def take_Cons' simp del: leaves_Cons(1,2))
  then show ?thesis by (simp add: roots_faithful_def)
qed

lemma seven_provable: "chain_provable seven_env demo_circuits demo_backend seven_chain"
proof -
  have "txn_provable demo_circuits idle_txn"
    by (simp add: idle_txn_def txn_provable_def messages_canonical_def pi_kind_def last_be_byte kind_from_u8_def
        kind_to_element_def demo_circuits_def)
  moreover have "keys_match demo_circuits" by (simp add: keys_match_def demo_circuits_def)
  moreover have P: "ce_poseidon demo_circuits = (\<lambda>_. 7)" "ne_poseidon seven_env = (\<lambda>_. 7)"
    by (simp_all add: demo_circuits_def seven_env_def)
  ultimately show ?thesis
    using demo_backend_complete demo_seven_roots seven_root
    by (auto simp: chain_provable_def P seven_chain_def nth_Cons split: nat.splits)
qed

abbreviation seven_config :: worker_config where
  "seven_config \<equiv> \<lparr>wc_mode = ModeProver, wc_bad_blocks = [], wc_postgres = False\<rparr>"

abbreviation seven_io :: worker_io where
  "seven_io \<equiv> \<lparr>wi_lock = Ok None, wi_rollup_ok = True, wi_tree_ok = True, wi_seen_ok = True, wi_insert_ok = True,
     wi_temp_noir = True\<rparr>"

abbreviation seven_fresh :: worker_state where
  "seven_fresh \<equiv> \<lparr>ws_db = fst (pdb_create_or_load True None), ws_tree = persistent_new merkle_tree_depth\<rparr>"

lemma seven_boot: "\<exists>s. worker_boot seven_env True True True seven_fresh = (s, Ok 1)"
proof -
  obtain p where p: "load_smirk seven_env True (pe_db (persistent_new merkle_tree_depth :: notes_tree)) = Ok p" "tree_chain seven_env p []"
    using tree_chain_load [OF tree_chain_new, of seven_env True] by auto
  have "get_last_seen_block (fst (pdb_create_or_load True None)) = Ok None"
    by (simp add: pdb_create_or_load_def get_last_seen_block_def set_version_def pdb_set_def pdb_get_def bt_get_def)
  moreover have "empty_hash (tree_hash seven_env) merkle_tree_depth = 7"
    using root_at_0 [of seven_env "[]"] seven_root by simp
  ultimately show ?thesis
    using p tree_chain_root_at [of seven_env p 0 "[]"] seven_root
    by (auto simp: worker_boot_def worker_start_def first_last_seen_def empty_tree_hash_pos merkle_tree_depth_def Let_def height_add_def)
qed

theorem prover_catches_up_witness:
  "\<exists>n s1 s2 r. node_run seven_env demo_node_config demo_U n \<and> node_chain n seven_chain \<and>
     worker_boot seven_env True True True seven_fresh = (s1, Ok 1) \<and>
     worker_loop demo_backend demo_circuits seven_config seven_env 0 (\<lambda>_. seven_io) seven_chain s1 = (s2, Ok ()) \<and>
     pdb_get (ws_db s2) (PKRollup 1) = Some (PVRollup r) \<and> ri_new_root r = 7"
proof -
  obtain n where n: "node_run seven_env demo_node_config demo_U n" "node_chain n seven_chain" using seven_node by blast
  obtain s where s: "worker_boot seven_env True True True seven_fresh = (s, Ok 1)" using seven_boot by blast
  have six: "\<forall>b \<in> set seven_chain. length (block_txns b) \<le> MAXIMUM_TXNS" and ne: "seven_chain \<noteq> []"
    by (simp_all add: seven_chain_def MAXIMUM_TXNS_def UTXO_AGG_NUMBER_def UTXO_AGGREGATIONS_def)
  have io: "\<forall>b :: block. io_good seven_config seven_io" and m: "wc_mode seven_config \<noteq> ModeMockProver"
    by (simp_all add: io_good_def)
  have zero: "(0 :: u64) \<le> 0" by simp
  from prover_catches_up [OF seven_setup n seven_faithful seven_provable ne sole_fresh m six io zero, of True] s
  obtain s2 where "worker_loop demo_backend demo_circuits seven_config seven_env 0 (\<lambda>_. seven_io) seven_chain s = (s2, Ok ())"
    "\<forall>i. Suc i < length seven_chain \<and> block_txns (seven_chain ! i) \<noteq> [] \<and> 0 < block_height (seven_chain ! i) \<longrightarrow>
       (\<exists>r. pdb_get (ws_db s2) (PKRollup (block_height (seven_chain ! i))) = Some (PVRollup r) \<and> ri_new_root r = block_root (seven_chain ! i))"
    by (auto simp: seven_chain_def)
  from this(1) spec [OF this(2), of 0] n s show ?thesis by (auto simp: seven_chain_def)
qed

text \<open>The prover after the first block.\<close>

lemma seven_proved:
  assumes "node_run seven_env demo_node_config demo_U n" and "node_chain n seven_chain"
  shows "\<exists>s v. prover_run demo_backend demo_circuits seven_config seven_env seven_chain s (Running 0 2) \<and>
     pdb_get (ws_db s) (PKRollup 1) = Some v"
proof -
  let ?run = "prover_run demo_backend demo_circuits seven_config seven_env seven_chain"
  note val = node_chain_validated [OF seven_setup assms]
  obtain s where s: "worker_boot seven_env True True True seven_fresh = (s, Ok 1)" using seven_boot by blast
  have run: "?run s (Running 0 1)" using boot [OF fresh s] by simp
  have up: "up_inv seven_env seven_chain 0 s"
    using prover_run_inv [OF run val seven_faithful seven_provable] by (simp add: phase_inv_def)
  let ?step = "worker_commit demo_backend demo_circuits seven_config seven_env 0 seven_io (seven_chain ! 0) (Some (Ok (seven_chain ! Suc 0))) s"
  have "Suc 0 < length seven_chain" "length (block_txns (seven_chain ! 0)) \<le> MAXIMUM_TXNS" "io_good seven_config seven_io"
    by (simp_all add: seven_chain_def MAXIMUM_TXNS_def UTXO_AGG_NUMBER_def UTXO_AGGREGATIONS_def io_good_def)
  then obtain s' k where s': "?step = (s', Ok k)" "pdb_get (ws_db s') (PKRollup 1) \<noteq> None"
    using worker_commit_good [OF val seven_provable _ up, of seven_config seven_io 0] by (auto simp: seven_chain_def)
  have "?run s' (Running 0 2)"
    using commit [OF run _ _ s'(1)] by (simp add: seven_chain_def chain_at_def peeked_def)
  then show ?thesis using s'(2) by blast
qed

theorem prover_rollups_link_witness:
  "\<exists>n s v r. node_run seven_env demo_node_config demo_U n \<and> node_chain n seven_chain \<and>
     prover_run demo_backend demo_circuits seven_config seven_env seven_chain s (Running 0 2) \<and>
     pdb_get (ws_db s) (PKRollup 1) = Some v \<and> v = PVRollup r \<and> ri_height r = 1 \<and> ri_new_root r = 7"
proof -
  obtain n where n: "node_run seven_env demo_node_config demo_U n" "node_chain n seven_chain" using seven_node by blast
  obtain s v where s: "prover_run demo_backend demo_circuits seven_config seven_env seven_chain s (Running 0 2)"
    "pdb_get (ws_db s) (PKRollup 1) = Some v" using seven_proved [OF n] by blast
  from prover_rollups_link [OF seven_setup n seven_faithful seven_provable s] s n show ?thesis
    by (auto simp: seven_chain_def)
qed

section \<open>Its contract\<close>

abbreviation seven_contract :: contract_rollup_state where
  "seven_contract \<equiv> \<lparr>cr_height = 0, cr_root_hash = 7\<rparr>"

abbreviation seven_texts :: text_env where
  "seven_texts \<equiv> \<lparr>te_h256 = (\<lambda>_. ''0x''), te_usize = (\<lambda>_. ''0'')\<rparr>"

theorem contract_catches_up_witness:
  "\<exists>n s c w. node_run seven_env demo_node_config demo_U n \<and> node_chain n seven_chain \<and>
     prover_run demo_backend demo_circuits seven_config seven_env seven_chain s (Running 0 2) \<and>
     submit_rounds seven_texts (\<lambda>call. vc_height call = 1) (ws_db s) 5 0 (length seven_chain) seven_contract
       \<lparr>rw_skip_waiting = True, rw_retried_height = None\<rparr> = Ok (c, w) \<and> cr_root_hash c = 7 \<and> \<not> rw_skip_waiting w"
proof -
  obtain n where n: "node_run seven_env demo_node_config demo_U n" "node_chain n seven_chain" using seven_node by blast
  obtain s v where s: "prover_run demo_backend demo_circuits seven_config seven_env seven_chain s (Running 0 2)"
    "pdb_get (ws_db s) (PKRollup 1) = Some v" using seven_proved [OF n] by blast
  have len: "2 \<le> length seven_chain" by (simp add: seven_chain_def)
  have at: "contract_at seven_env seven_chain 0 seven_contract"
    using seven_root by (simp add: contract_at_def seven_chain_def)
  have full: "rollups_complete seven_chain 0 (ws_db s)"
    using s(2) by (auto simp: rollups_complete_def seven_chain_def)
  have ok: "rollups_ok seven_env seven_chain (ws_db s)"
    by (rule prover_run_rollups [OF s(1) node_chain_validated [OF seven_setup n] seven_faithful seven_provable])
  have "contract_accepts (\<lambda>call. vc_height call = 1) (ws_db s)"
    unfolding contract_accepts_def
  proof (intro allI impI)
    fix h r assume "pdb_get (ws_db s) (PKRollup h) = Some (PVRollup r)"
    then have r: "rollup_ok seven_env seven_chain h r" using ok by (simp add: rollups_ok_def)
    then have h: "unat h = 1" by (auto simp: rollup_ok_def seven_chain_def)
    then have "h = 1" by (metis unat_1 word_unat_eq_iff)
    with r h show "(\<forall>sig \<in> set (ri_signatures r). length sig = 65) \<and> (\<forall>call. verify_block r = Ok call \<longrightarrow> vc_height call = 1)"
      using verify_block_inputs [of r] by (auto simp: rollup_ok_def seven_chain_def demo_chain_block_def demo_header_def)
  qed
  from contract_catches_up [OF seven_setup n len seven_faithful seven_provable s(1) at full this,
      of seven_texts 5 0 "\<lparr>rw_skip_waiting = True, rw_retried_height = None\<rparr>"] n s(1)
  show ?thesis by (auto simp: seven_chain_def)
qed

text \<open>A transaction that is never mined: the wait ends after five minutes.\<close>

abbreviation pending_polls :: "nat \<Rightarrow> rollup_poll" where
  "pending_polls \<equiv> \<lambda>i. \<lparr>rp_now = 1000 * i, rp_receipt = Ok None, rp_known = Ok True\<rparr>"

abbreviation late_polls :: "nat \<Rightarrow> rollup_poll" where
  "late_polls \<equiv> \<lambda>i. if i \<le> 301 then pending_polls i else (pending_polls i)\<lparr>rp_receipt := Ok (Some (Some 1))\<rparr>"

definition idle_rollup :: rollup_input where
  "idle_rollup = \<lparr>ri_proof = \<lparr>aa_proof = [], aa_pi = \<lparr>aa_pi_old_root = 7, aa_pi_new_root = 7, aa_pi_commit_hash = 0,
       aa_pi_messages = replicate 30 0\<rparr>, aa_kzg = []\<rparr>, ri_height = 1, ri_other_hash = replicate 32 0, ri_signatures = []\<rparr>"

theorem rollup_wait_ends_witness:
  "\<exists>res. prover_rollup idle_rollup (Ok 5) pending_polls 0 = Some res \<and> prover_rollup idle_rollup (Ok 5) late_polls 0 = Some res"
  by (rule rollup_wait_ends) simp_all

end
