(* ===== verification/Rollup_Contract.thy ===== *)
theory Rollup_Contract
  imports Eth_Client Node_Block
begin

text \<open>
  The client of the rollup contract (\<open>contracts/src/rollup.rs\<close>): the values that cross the interface of
  the contract as tokens, the calls and their arguments, the scans for events, and the list of
  validator sets with the worker that keeps it current. The answers of the remote node are arguments.
\<close>

section \<open>Tokens\<close>

text \<open>The tokens of \<open>ethabi\<close>; a 256-bit hash is its 32 bytes.\<close>

datatype token =
    TAddress address | TFixedBytes "u8 list" | TBytes "u8 list" | TInt u256 | TUint u256 | TBool bool
  | TString string | TFixedArray "token list" | TArray "token list" | TTuple "token list"

type_synonym h256 = "u8 list"
type_synonym 'a decoded = "('a, web3_contract_error) outcome"

text \<open>The conversions of the \<open>web3\<close> crate, and what its documentation says of them.\<close>

record abi_env =
  ab_h256 :: "token \<Rightarrow> h256 decoded"
  ab_u256 :: "token \<Rightarrow> u256 decoded"
  ab_bool :: "token \<Rightarrow> bool decoded"
  ab_addresses :: "token \<Rightarrow> address list decoded"

definition abi_ok :: "abi_env \<Rightarrow> bool" where
  "abi_ok A \<longleftrightarrow> (\<forall>h. length h = 32 \<longrightarrow> ab_h256 A (TFixedBytes h) = Ok h) \<and> (\<forall>n. ab_u256 A (TUint n) = Ok n) \<and>
     (\<forall>b. ab_bool A (TBool b) = Ok b) \<and> (\<forall>xs. ab_addresses A (TArray (map TAddress xs)) = Ok xs)"

definition convert_element_to_h256 :: "element \<Rightarrow> h256" where
  "convert_element_to_h256 e = to_be_bytes e"

record validator_set =
  vs_validators :: "address list"
  vs_valid_from :: u256

record burn =
  bu_to :: h256
  bu_amount :: u256
  bu_kind :: h256

record mint =
  mi_note_kind :: element
  mi_amount :: element
  mi_spent :: bool

definition mint_into_tokens :: "mint \<Rightarrow> token list" where
  "mint_into_tokens m = [TUint (mi_note_kind m), TUint (mi_amount m)]"

definition mint_from_tokens :: "abi_env \<Rightarrow> token list \<Rightarrow> mint decoded" where
  "mint_from_tokens A ts = (case ts of
     [] \<Rightarrow> Panic
   | TTuple inner_tokens # _ \<Rightarrow>
       if length inner_tokens \<noteq> 3 then Err (InvalidOutputType ''expected tuple with 3 elements'')
       else bind_o (ab_h256 A (inner_tokens ! 0)) (\<lambda>note_kind.
            bind_o (ab_u256 A (inner_tokens ! 1)) (\<lambda>amount.
            bind_o (ab_bool A (inner_tokens ! 2)) (\<lambda>spent.
            Ok \<lparr>mi_note_kind = from_be_bytes note_kind, mi_amount = amount, mi_spent = spent\<rparr>)))
   | _ # _ \<Rightarrow> Err (InvalidOutputType ''expected tuple token''))"

definition burn_of_pair :: "address \<times> u256 \<Rightarrow> burn" where
  "burn_of_pair item = \<lparr>bu_to = replicate 12 0 @ fst item, bu_amount = snd item, bu_kind = replicate 32 0\<rparr>"

definition burn_of_triple :: "h256 \<times> u256 \<times> h256 \<Rightarrow> burn" where
  "burn_of_triple item = (case item of (t, a, k) \<Rightarrow> \<lparr>bu_to = t, bu_amount = a, bu_kind = k\<rparr>)"

definition burn_from_token :: "abi_env \<Rightarrow> token \<Rightarrow> burn decoded" where
  "burn_from_token A token = (case token of
     TTuple tokens \<Rightarrow>
       if length tokens \<noteq> 3 then Err (InvalidOutputType ''expected tuple of length 3'')
       else bind_o (ab_h256 A (tokens ! 0)) (\<lambda>to.
            bind_o (ab_u256 A (tokens ! 1)) (\<lambda>amount.
            bind_o (ab_h256 A (tokens ! 2)) (\<lambda>kind.
            Ok \<lparr>bu_to = to, bu_amount = amount, bu_kind = kind\<rparr>)))
   | _ \<Rightarrow> Err (InvalidOutputType ''expected tuple''))"

definition burn_into_token :: "burn \<Rightarrow> token" where
  "burn_into_token b = TTuple [TFixedBytes (bu_to b), TUint (bu_amount b), TFixedBytes (bu_kind b)]"

definition validator_set_from_token :: "abi_env \<Rightarrow> token \<Rightarrow> validator_set decoded" where
  "validator_set_from_token A token = (case token of
     TTuple tokens \<Rightarrow>
       if length tokens \<noteq> 2 then Err (InvalidOutputType ''expected tuple of length 2'')
       else bind_o (ab_addresses A (tokens ! 0)) (\<lambda>validators.
            bind_o (ab_u256 A (tokens ! 1)) (\<lambda>valid_from.
            Ok \<lparr>vs_validators = validators, vs_valid_from = valid_from\<rparr>))
   | _ \<Rightarrow> Err (InvalidOutputType ''expected tuple''))"

definition validator_set_into_token :: "validator_set \<Rightarrow> token" where
  "validator_set_into_token v = TTuple [TArray (map TAddress (vs_validators v)), TUint (vs_valid_from v)]"

lemma token_roundtrips:
  assumes "abi_ok A"
  shows "length (bu_to b) = 32 \<Longrightarrow> length (bu_kind b) = 32 \<Longrightarrow> burn_from_token A (burn_into_token b) = Ok b"
    and "validator_set_from_token A (validator_set_into_token v) = Ok v"
  using assms by (simp_all add: abi_ok_def burn_from_token_def burn_into_token_def validator_set_from_token_def
      validator_set_into_token_def)

text \<open>What \<open>Mint\<close> writes it cannot read: it writes two numbers and reads one tuple of three values.\<close>

lemma mint_tokens_one_way: "mint_from_tokens A (mint_into_tokens m) = Err (InvalidOutputType ''expected tuple token'')"
  by (simp add: mint_from_tokens_def mint_into_tokens_def)

section \<open>Calls\<close>

record contract_call =
  cc_func :: string
  cc_params :: "token list"

abbreviation h256_token :: "element \<Rightarrow> token" where
  "h256_token e \<equiv> TFixedBytes (convert_element_to_h256 e)"

definition call_mint :: "element \<Rightarrow> element \<Rightarrow> element \<Rightarrow> contract_call" where
  "call_mint mint_key value note_kind =
     \<lparr>cc_func = ''mint'', cc_params = [h256_token mint_key, h256_token value, h256_token note_kind]\<rparr>"

definition call_burn_to_address ::
    "element \<Rightarrow> element \<Rightarrow> u8 list \<Rightarrow> element \<Rightarrow> element \<Rightarrow> element \<Rightarrow> element \<Rightarrow> contract_call" where
  "call_burn_to_address kind to pr nullifier value source sig =
     \<lparr>cc_func = ''burnToAddress'', cc_params = [h256_token kind, h256_token to, TBytes pr, h256_token nullifier,
        h256_token value, h256_token source, h256_token sig]\<rparr>"

definition call_substitute_burn :: "address \<Rightarrow> element \<Rightarrow> element \<Rightarrow> element \<Rightarrow> u64 \<Rightarrow> contract_call" where
  "call_substitute_burn burn_address note_kind hash amount burn_block_height =
     \<lparr>cc_func = ''substituteBurn'', cc_params = [TAddress burn_address, h256_token note_kind, h256_token hash,
        TUint amount, TUint (ucast burn_block_height)]\<rparr>"

definition query_was_burn_substituted :: "address \<Rightarrow> element \<Rightarrow> element \<Rightarrow> element \<Rightarrow> u64 \<Rightarrow> contract_call" where
  "query_was_burn_substituted burn_address note_kind hash amount burn_block_height =
     \<lparr>cc_func = ''wasBurnSubstituted'', cc_params = [TAddress burn_address, h256_token note_kind, h256_token hash,
        TUint amount, TUint (ucast burn_block_height)]\<rparr>"

definition call_add_prover :: "address \<Rightarrow> contract_call" where
  "call_add_prover a = \<lparr>cc_func = ''addProver'', cc_params = [TAddress a]\<rparr>"

definition call_set_validators :: "u64 \<Rightarrow> address list \<Rightarrow> contract_call" where
  "call_set_validators valid_from addresses =
     \<lparr>cc_func = ''setValidators'', cc_params = [TUint (ucast valid_from), TArray (map TAddress addresses)]\<rparr>"

definition call_set_root :: "element \<Rightarrow> contract_call" where
  "call_set_root new_root = \<lparr>cc_func = ''setRoot'', cc_params = [h256_token new_root]\<rparr>"

definition get_mint :: "(mint, contracts_error) outcome \<Rightarrow> (mint option, contracts_error) outcome" where
  "get_mint answer = bind_o answer (\<lambda>m.
     Ok (if mi_note_kind m = ZERO \<and> mi_amount m = ZERO then None else Some m))"

text \<open>The substitutor asks for exactly the burn it substitutes.\<close>

lemma substitute_query_params:
  "cc_params (query_was_burn_substituted a k h v n) = cc_params (call_substitute_burn a k h v n)"
  by (simp add: query_was_burn_substituted_def call_substitute_burn_def)

section \<open>Events\<close>

definition MAX_SCAN_DEPTH :: u64 where "MAX_SCAN_DEPTH = 1000"

record eth_log =
  lg_topics :: "h256 list"
  lg_data :: "u8 list"
  lg_txn :: "h256 option"
  lg_block :: "u64 option"

datatype block_number = Earliest | LatestBlock | NumberBlock u64

record log_filter =
  fi_from :: block_number
  fi_to :: block_number
  fi_topics :: "h256 list option list"

record mint_added_event =
  me_mint_hash :: h256
  me_value :: u256
  me_note_kind :: h256
  me_transaction_hash :: h256
  me_block_number :: u64

record burned_event =
  be_token :: address
  be_burn_hash :: h256
  be_substitute :: bool
  be_recipient :: address
  be_success :: bool
  be_block_number :: "u64 option"
  be_txn_hash :: "h256 option"

definition saturating_sub :: "u64 \<Rightarrow> u64 \<Rightarrow> u64" where
  "saturating_sub a b = (if a \<le> b then 0 else a - b)"

definition mint_event_of :: "h256 \<Rightarrow> eth_log \<Rightarrow> mint_added_event list" where
  "mint_event_of mint_key log =
     (if length (lg_data log) \<ge> 64
      then case (lg_txn log, lg_block log) of
             (Some t, Some b) \<Rightarrow> [\<lparr>me_mint_hash = mint_key, me_value = from_be_bytes (take 32 (lg_data log)),
                me_note_kind = take 32 (drop 32 (lg_data log)), me_transaction_hash = t, me_block_number = b\<rparr>]
           | _ \<Rightarrow> []
      else [])"

text \<open>The signature of the event is its hash, an argument; so is the answer to a filter.\<close>

definition get_mint_added_events ::
    "h256 \<Rightarrow> (u64, web3_error) outcome \<Rightarrow> (log_filter \<Rightarrow> (eth_log list, web3_error) outcome) \<Rightarrow> element \<Rightarrow> block_number \<Rightarrow>
     (mint_added_event list, contracts_error) outcome" where
  "get_mint_added_events event_signature latest_block logs mint_key to_block =
     bind_o (case to_block of NumberBlock n \<Rightarrow> Ok n | _ \<Rightarrow> map_err CeWeb3 latest_block) (\<lambda>to_block_num.
     bind_o (map_err CeWeb3 (logs \<lparr>fi_from = NumberBlock (saturating_sub to_block_num (MAX_SCAN_DEPTH - 1)),
        fi_to = NumberBlock to_block_num,
        fi_topics = [Some [event_signature], Some [convert_element_to_h256 mint_key], None, None]\<rparr>)) (\<lambda>ls.
     Ok (concat (map (mint_event_of (convert_element_to_h256 mint_key)) ls))))"

definition get_all_mint_added_events ::
    "h256 \<Rightarrow> (u64, web3_error) outcome \<Rightarrow> (log_filter \<Rightarrow> (eth_log list, web3_error) outcome) \<Rightarrow>
     (mint_added_event list, contracts_error) outcome" where
  "get_all_mint_added_events event_signature latest_block logs =
     bind_o (map_err CeWeb3 latest_block) (\<lambda>latest.
     bind_o (map_err CeWeb3 (logs \<lparr>fi_from = NumberBlock (saturating_sub latest (MAX_SCAN_DEPTH - 1)),
        fi_to = NumberBlock latest, fi_topics = [Some [event_signature], None, None, None]\<rparr>)) (\<lambda>ls.
     Ok (concat (map (\<lambda>log. if length (lg_topics log) \<ge> 2 then mint_event_of (lg_topics log ! 1) log else []) ls))))"

definition burned_event_of :: "h256 \<Rightarrow> eth_log \<Rightarrow> burned_event list" where
  "burned_event_of burn_key log =
     (if length (lg_topics log) \<ge> 4 \<and> length (lg_data log) \<ge> 64
      then [\<lparr>be_token = drop 12 (lg_topics log ! 1), be_burn_hash = burn_key, be_substitute = (lg_data log ! 31 \<noteq> 0),
              be_recipient = drop 12 (lg_topics log ! 3), be_success = (lg_data log ! 63 \<noteq> 0),
              be_block_number = lg_block log, be_txn_hash = lg_txn log\<rparr>]
      else [])"

definition get_burned_events ::
    "h256 \<Rightarrow> (log_filter \<Rightarrow> (eth_log list, web3_error) outcome) \<Rightarrow> element \<Rightarrow> block_number option \<Rightarrow>
     (burned_event list, contracts_error) outcome" where
  "get_burned_events event_signature logs burn_key upto_block =
     bind_o (map_err CeWeb3 (logs \<lparr>fi_from = Earliest, fi_to = (case upto_block of Some b \<Rightarrow> b | None \<Rightarrow> LatestBlock),
        fi_topics = [Some [event_signature], None, Some [convert_element_to_h256 burn_key], None]\<rparr>)) (\<lambda>ls.
     Ok (concat (map (burned_event_of (convert_element_to_h256 burn_key)) ls)))"

definition was_burn_successful ::
    "h256 \<Rightarrow> (log_filter \<Rightarrow> (eth_log list, web3_error) outcome) \<Rightarrow> element \<Rightarrow> block_number option \<Rightarrow>
     (bool, contracts_error) outcome" where
  "was_burn_successful event_signature logs burn_key to_block =
     bind_o (get_burned_events event_signature logs burn_key to_block) (\<lambda>burned_events.
     Ok (burned_events \<noteq> [] \<and> list_ex be_success burned_events))"

text \<open>A burn counts as successful when some log of it has the flag set.\<close>

lemma was_burn_successful_iff:
  assumes "logs \<lparr>fi_from = Earliest, fi_to = LatestBlock, fi_topics = [Some [sg], None, Some [convert_element_to_h256 h], None]\<rparr> = Ok ls"
  shows "was_burn_successful sg logs h None = Ok (\<exists>l \<in> set ls. length (lg_topics l) \<ge> 4 \<and> length (lg_data l) \<ge> 64 \<and> lg_data l ! 63 \<noteq> 0)"
  using assms by (auto simp: was_burn_successful_def get_burned_events_def burned_event_of_def list_ex_iff split: if_splits)

text \<open>The scan covers at most a thousand blocks, which end with the last one.\<close>

lemma scan_depth: "unat n - unat (saturating_sub n (MAX_SCAN_DEPTH - 1)) \<le> 999" "saturating_sub n (MAX_SCAN_DEPTH - 1) \<le> n"
  by (auto simp: saturating_sub_def MAX_SCAN_DEPTH_def word_le_nat_alt unat_sub)

section \<open>Validator sets\<close>

text \<open>
  \<open>filter(..).next_back()\<close> looks at the sets from the last one; \<open>as_u64\<close> panics on a height that does not
  fit in 64 bits.
\<close>

fun last_valid :: "u64 \<Rightarrow> validator_set list \<Rightarrow> (validator_set option, contracts_error) outcome" where
  "last_valid height [] = Ok None"
| "last_valid height (v # vs) =
     (if 2 ^ 64 \<le> unat (vs_valid_from v) then Panic
      else if unat (vs_valid_from v) \<le> unat height then Ok (Some v)
      else last_valid height vs)"

definition readonly_validators_for_height :: "validator_set list \<Rightarrow> u64 \<Rightarrow> (address list, contracts_error) outcome" where
  "readonly_validators_for_height sets height =
     bind_o (last_valid height (rev sets)) (\<lambda>v. Ok (case v of Some vs \<Rightarrow> vs_validators vs | None \<Rightarrow> []))"

definition signed_validators_for_height :: "address \<Rightarrow> validator_set list \<Rightarrow> u64 \<Rightarrow> (address list, contracts_error) outcome" where
  "signed_validators_for_height signer_address sets height =
     bind_o (readonly_validators_for_height sets height) (\<lambda>validators.
     Ok (if validators = [] then [signer_address] else validators))"

subsection \<open>The listener\<close>

text \<open>
  The windows of \<open>listen_for_validator_set_added\<close>: from the block at the start on, one per tick in which
  the chain has grown.
\<close>

definition saturating_add64 :: "u64 \<Rightarrow> u64 \<Rightarrow> u64" where
  "saturating_add64 a b = (if unat a + unat b < 2 ^ 64 then a + b else - 1)"

fun poll_windows :: "u64 \<Rightarrow> u64 list \<Rightarrow> (u64 \<times> u64) list" where
  "poll_windows start [] = []"
| "poll_windows start (latest # ticks) =
     (if latest < start then poll_windows start ticks
      else (start, latest) # poll_windows (saturating_add64 latest 1) ticks)"

subsection \<open>The worker\<close>

definition MAX_CONSECUTIVE_TRANSPORT_ERRORS :: nat where "MAX_CONSECUTIVE_TRANSPORT_ERRORS = 5"

record validator_worker =
  vw_sets :: "validator_set list"
  vw_errors :: nat

text \<open>
  What the contract answers while one event is handled: the attempts to listen again, and the sets from
  an index on, for the event and for the reload.
\<close>

record validator_io =
  vi_listen :: "nat \<Rightarrow> (unit, web3_error) outcome"
  vi_sets :: "u64 \<Rightarrow> (validator_set list, contracts_error) outcome"

function relisten :: "(nat \<Rightarrow> (unit, web3_error) outcome) \<Rightarrow> nat \<Rightarrow> nat \<Rightarrow> (nat, contracts_error) outcome" where
  "relisten listen n errors =
     (case listen n of
        Ok _ \<Rightarrow> Ok errors
      | Panic \<Rightarrow> Panic
      | Err e \<Rightarrow>
          if e = Web3Transport
          then if errors + 1 > MAX_CONSECUTIVE_TRANSPORT_ERRORS then Err (CeWeb3 e)
               else relisten listen (Suc n) (errors + 1)
          else Err (CeWeb3 e))"
  by pat_completeness auto
termination
  by (relation "measure (\<lambda>(listen, n, errors). MAX_CONSECUTIVE_TRANSPORT_ERRORS - errors)") auto

declare relisten.simps [simp del]

definition load_all_validators :: "validator_io \<Rightarrow> validator_worker \<Rightarrow> (validator_worker, contracts_error) outcome" where
  "load_all_validators io w = bind_o (vi_sets io 0) (\<lambda>all_validators. Ok (w\<lparr>vw_sets := all_validators\<rparr>))"

definition handle_set_added :: "validator_io \<Rightarrow> eth_log \<Rightarrow> validator_worker \<Rightarrow> (validator_worker, contracts_error) outcome" where
  "handle_set_added io event w =
     (if length (lg_data event) < 64 \<or> vw_sets w = [] then Panic
      else let index = from_be_bytes (take 32 (lg_data event)) :: u256;
               current_last_index = length (vw_sets w) - 1
           in if 2 ^ 64 \<le> unat index then Panic
              else if unat index > current_last_index
              then bind_o (vi_sets io (of_nat (current_last_index + 1))) (\<lambda>new_validators.
                   Ok (w\<lparr>vw_sets := vw_sets w @ new_validators\<rparr>))
              else Ok w)"

definition validator_event ::
    "validator_io \<Rightarrow> (eth_log, web3_error) outcome \<Rightarrow> validator_worker \<Rightarrow> (validator_worker, contracts_error) outcome" where
  "validator_event io event w =
     (case event of
        Ok ev \<Rightarrow> handle_set_added io ev (w\<lparr>vw_errors := 0\<rparr>)
      | Panic \<Rightarrow> Panic
      | Err e \<Rightarrow>
          if e = Web3Transport
          then if vw_errors w + 1 > MAX_CONSECUTIVE_TRANSPORT_ERRORS then Err (CeWeb3 e)
               else bind_o (relisten (vi_listen io) 0 (vw_errors w + 1)) (\<lambda>errors.
                    load_all_validators io (w\<lparr>vw_errors := errors\<rparr>))
          else Err (CeWeb3 e))"

subsection \<open>The sets of the contract\<close>

text \<open>
  \<open>validatorSets\<close> and \<open>validatorSetIndex\<close> of \<open>RollupV1.sol\<close>. \<open>None\<close> is a revert. The mapping of a set is its
  array, whose entries differ.
\<close>

record validator_registry =
  vr_sets :: "validator_set list"
  vr_index :: nat

definition MAX_FUTURE_BLOCKS :: nat where "MAX_FUTURE_BLOCKS = 2592000"

definition setValidators ::
    "u256 \<Rightarrow> u256 \<Rightarrow> address list \<Rightarrow> validator_registry \<Rightarrow> validator_registry option" where
  "setValidators number validFrom validators r =
     (if vr_sets r \<noteq> [] \<and> \<not> vs_valid_from (last (vr_sets r)) < validFrom then None
      else if validFrom \<noteq> 0 \<and> (2 ^ 256 \<le> unat number + MAX_FUTURE_BLOCKS \<or> unat number + MAX_FUTURE_BLOCKS < unat validFrom)
      then None
      else if \<not> distinct validators then None
      else Some (r\<lparr>vr_sets := vr_sets r @ [\<lparr>vs_validators = validators, vs_valid_from = validFrom\<rparr>]\<rparr>))"

definition initial_registry :: "u256 \<Rightarrow> address list \<Rightarrow> validator_registry option" where
  "initial_registry number initialValidators = setValidators number 0 initialValidators \<lparr>vr_sets = [], vr_index = 0\<rparr>"

text \<open>The loop over the sets after the current one; it stops at the first that is not valid yet.\<close>

fun index_loop :: "u256 \<Rightarrow> nat \<Rightarrow> validator_set list \<Rightarrow> nat" where
  "index_loop height index [] = index"
| "index_loop height index (v # vs) = (if vs_valid_from v > height then index else index_loop height (index + 1) vs)"

definition updateValidatorSetIndex :: "u256 \<Rightarrow> validator_registry \<Rightarrow> validator_registry" where
  "updateValidatorSetIndex height r =
     r\<lparr>vr_index := index_loop height (vr_index r) (drop (vr_index r + 1) (vr_sets r))\<rparr>"

definition getValidators :: "validator_registry \<Rightarrow> validator_set option" where
  "getValidators r = (if vr_index r < length (vr_sets r) then Some (vr_sets r ! vr_index r) else None)"

definition getValidatorSets :: "u256 \<Rightarrow> validator_registry \<Rightarrow> validator_set list option" where
  "getValidatorSets from r = (if length (vr_sets r) < unat from then None else Some (drop (unat from) (vr_sets r)))"

end
