(* ===== verification/Rollup_Contract_Props.thy ===== *)
theory Rollup_Contract_Props
  imports Rollup_Contract "HOL-Library.Sublist"
begin

text \<open>
  The validator sets of the node and those of the contract: the scan for events leaves no block out, the
  list of the node stays a prefix of the list of the contract, and the validators the contract asks
  signatures of are those the node names, for every height that no unknown set covers.
\<close>

section \<open>The scan for events\<close>

definition window_blocks :: "u64 \<times> u64 \<Rightarrow> nat list" where
  "window_blocks = (\<lambda>(a, b). [unat a..<Suc (unat b)])"

text \<open>Every block from the start up to the latest one seen is asked for exactly once, in order.\<close>

lemma poll_windows_cover:
  assumes "\<forall>t \<in> set ticks. t < - 1"
  shows "concat (map window_blocks (poll_windows start ticks)) =
    [unat start..<foldl (\<lambda>m t. max m (Suc (unat t))) (unat start) ticks]"
  using assms
proof (induction ticks arbitrary: start)
  case (Cons latest ticks)
  have tip: "unat (- 1 :: u64) = 2 ^ 64 - 1" by (simp add: unsigned_minus_1_eq_mask mask_eq_exp_minus_1)
  show ?case
  proof (cases "latest < start")
    case True
    then have "max (unat start) (Suc (unat latest)) = unat start" by (simp add: word_less_nat_alt)
    then show ?thesis using Cons True by simp
  next
    case False
    have "unat latest < 2 ^ 64 - 1" using Cons.prems tip by (simp add: word_less_nat_alt)
    then have nx: "unat (saturating_add64 latest 1) = Suc (unat latest)"
      by (simp add: saturating_add64_def unat_word_ariths)
    have le: "unat start \<le> Suc (unat latest)" using False by (simp add: word_less_nat_alt)
    have mono: "m \<le> foldl (\<lambda>m t. max m (Suc (unat t))) m ts" for m and ts :: "u64 list"
      by (induction ts arbitrary: m) (auto intro: order_trans [OF max.cobounded1])
    have "concat (map window_blocks (poll_windows start (latest # ticks))) = [unat start..<Suc (unat latest)] @
        [Suc (unat latest)..<foldl (\<lambda>m t. max m (Suc (unat t))) (Suc (unat latest)) ticks]"
      using Cons False nx by (simp add: window_blocks_def del: upt_Suc)
    also have "\<dots> = [unat start..<foldl (\<lambda>m t. max m (Suc (unat t))) (Suc (unat latest)) ticks]"
      using upt_add_eq_append [OF le, of "foldl (\<lambda>m t. max m (Suc (unat t))) (Suc (unat latest)) ticks - Suc (unat latest)"]
        mono [of "Suc (unat latest)" ticks] by (simp del: upt_Suc)
    finally show ?thesis using le by (simp add: max_absorb2)
  qed
qed simp

section \<open>Validators of a height\<close>

lemma last_valid_skip:
  "\<forall>v \<in> set vs. unat (vs_valid_from v) < 2 ^ 64 \<and> unat h < unat (vs_valid_from v) \<Longrightarrow> last_valid h (vs @ ws) = last_valid h ws"
  by (induction vs) auto

lemma validators_prefix:
  assumes "\<forall>v \<in> set D. unat (vs_valid_from v) < 2 ^ 64 \<and> unat h < unat (vs_valid_from v)"
  shows "readonly_validators_for_height (S @ D) h = readonly_validators_for_height S h"
  using last_valid_skip [of "rev D" h "rev S"] assms by (simp add: readonly_validators_for_height_def)

text \<open>With increasing heights the answer is the newest set that is valid at the height.\<close>

lemma validators_newest:
  assumes "sorted_wrt (\<lambda>a b. unat (vs_valid_from a) < unat (vs_valid_from b)) sets"
    and "\<forall>v \<in> set sets. unat (vs_valid_from v) < 2 ^ 64"
    and "v \<in> set sets" and "unat (vs_valid_from v) \<le> unat h"
    and "\<forall>x \<in> set sets. unat (vs_valid_from x) \<le> unat h \<longrightarrow> unat (vs_valid_from x) \<le> unat (vs_valid_from v)"
  shows "readonly_validators_for_height sets h = Ok (vs_validators v)"
proof -
  obtain S D where sets: "sets = S @ v # D" using split_list [OF assms(3)] by blast
  have "unat h < unat (vs_valid_from x)" if x: "x \<in> set D" for x
  proof (rule ccontr)
    assume "\<not> unat h < unat (vs_valid_from x)"
    then have "unat (vs_valid_from x) \<le> unat (vs_valid_from v)" using assms(5) x by (simp add: sets)
    moreover have "unat (vs_valid_from v) < unat (vs_valid_from x)" using assms(1) x by (simp add: sets sorted_wrt_append)
    ultimately show False by simp
  qed
  then have "\<forall>x \<in> set D. unat (vs_valid_from x) < 2 ^ 64 \<and> unat h < unat (vs_valid_from x)"
    using assms(2) by (simp add: sets)
  from validators_prefix [OF this, of "S @ [v]"] show ?thesis
    using assms(2,4) by (simp add: sets readonly_validators_for_height_def)
qed

section \<open>The set the contract chooses\<close>

text \<open>
  The contract from its initialisation on: the owner adds sets, at block numbers that fit in 64 bits, and
  \<open>verifyRollup\<close> moves the index for heights that increase. \<open>tip\<close> is the height of the last rollup.
\<close>

inductive registry_run :: "validator_registry \<Rightarrow> u256 \<Rightarrow> bool" where
  registry_init: "initial_registry number vs = Some r \<Longrightarrow> registry_run r 0"
| registry_set: "registry_run r tip \<Longrightarrow> setValidators number validFrom vs r = Some r' \<Longrightarrow>
    unat number + MAX_FUTURE_BLOCKS < 2 ^ 64 \<Longrightarrow> registry_run r' tip"
| registry_verify: "registry_run r tip \<Longrightarrow> tip < height \<Longrightarrow> registry_run (updateValidatorSetIndex height r) height"

definition registry_ok :: "validator_registry \<Rightarrow> u256 \<Rightarrow> bool" where
  "registry_ok r tip \<longleftrightarrow> sorted_wrt (\<lambda>a b. unat (vs_valid_from a) < unat (vs_valid_from b)) (vr_sets r) \<and>
     (\<forall>v \<in> set (vr_sets r). unat (vs_valid_from v) < 2 ^ 64) \<and> vr_index r < length (vr_sets r) \<and>
     vs_valid_from (vr_sets r ! vr_index r) \<le> tip"

lemma index_loop_spec:
  assumes "k < length S" and "vs_valid_from (S ! k) \<le> h"
  shows "k \<le> index_loop h k (drop (Suc k) S) \<and> index_loop h k (drop (Suc k) S) < length S \<and>
    vs_valid_from (S ! index_loop h k (drop (Suc k) S)) \<le> h \<and>
    (Suc (index_loop h k (drop (Suc k) S)) < length S \<longrightarrow> h < vs_valid_from (S ! Suc (index_loop h k (drop (Suc k) S))))"
  using assms
proof (induction "length S - k" arbitrary: k rule: less_induct)
  case less
  show ?case
  proof (cases "Suc k < length S")
    case True
    then have d: "drop (Suc k) S = S ! Suc k # drop (Suc (Suc k)) S" by (rule Cons_nth_drop_Suc [symmetric])
    show ?thesis
    proof (cases "h < vs_valid_from (S ! Suc k)")
      case True
      then show ?thesis using less.prems d by simp
    next
      case False
      have "length S - Suc k < length S - k" using less.prems(1) by simp
      moreover have "vs_valid_from (S ! Suc k) \<le> h" using False by simp
      ultimately show ?thesis using less.hyps [OF _ \<open>Suc k < length S\<close>] d False by (auto dest: Suc_leD)
    qed
  qed (use less.prems in simp)
qed

lemma registry_index:
  assumes "registry_ok r tip" and "tip \<le> h"
  defines "j \<equiv> vr_index (updateValidatorSetIndex h r)"
  shows "j < length (vr_sets r)" and "vs_valid_from (vr_sets r ! j) \<le> h"
    and "\<forall>x \<in> set (vr_sets r). unat (vs_valid_from x) \<le> unat h \<longrightarrow>
       unat (vs_valid_from x) \<le> unat (vs_valid_from (vr_sets r ! j))"
proof -
  let ?S = "vr_sets r"
  have k: "vr_index r < length ?S" "vs_valid_from (?S ! vr_index r) \<le> h"
    using assms(1,2) by (auto simp: registry_ok_def)
  note j = index_loop_spec [OF k]
  show "j < length ?S" "vs_valid_from (?S ! j) \<le> h"
    using j by (simp_all add: j_def updateValidatorSetIndex_def)
  have nxt: "Suc j < length ?S \<Longrightarrow> h < vs_valid_from (?S ! Suc j)"
    using j by (simp add: j_def updateValidatorSetIndex_def)
  show "\<forall>x \<in> set ?S. unat (vs_valid_from x) \<le> unat h \<longrightarrow> unat (vs_valid_from x) \<le> unat (vs_valid_from (?S ! j))"
  proof (intro ballI impI, rule ccontr)
    fix x
    assume x: "x \<in> set ?S" "unat (vs_valid_from x) \<le> unat h" "\<not> unat (vs_valid_from x) \<le> unat (vs_valid_from (?S ! j))"
    obtain i where i: "i < length ?S" "x = ?S ! i" using x(1) by (auto simp: in_set_conv_nth)
    have lt: "unat (vs_valid_from (?S ! a)) < unat (vs_valid_from (?S ! b))" if "a < b" "b < length ?S" for a b
      using assms(1) that by (auto simp: registry_ok_def sorted_wrt_iff_nth_less)
    have "j < i" using x(3) i lt [of i j] \<open>j < length ?S\<close> by (cases i j rule: linorder_cases) auto
    then have "unat (vs_valid_from (?S ! Suc j)) \<le> unat (vs_valid_from x)"
      using i lt [of "Suc j" i] by (cases "Suc j = i") auto
    then show False using nxt \<open>j < i\<close> i(1) x(2) by (simp add: word_less_nat_alt)
  qed
qed

lemma registry_run_ok: "registry_run r tip \<Longrightarrow> registry_ok r tip"
proof (induction rule: registry_run.induct)
  case (registry_init number vs r)
  then show ?case by (auto simp: initial_registry_def setValidators_def registry_ok_def split: if_splits)
next
  case (registry_set r tip number validFrom vs r')
  let ?v = "\<lparr>vs_validators = vs, vs_valid_from = validFrom\<rparr>"
  have r': "r' = r\<lparr>vr_sets := vr_sets r @ [?v]\<rparr>" "vr_sets r \<noteq> []" "vs_valid_from (last (vr_sets r)) < validFrom"
    "unat validFrom < 2 ^ 64"
    using registry_set by (auto simp: setValidators_def registry_ok_def split: if_splits)
  have "unat (vs_valid_from x) < unat validFrom" if "x \<in> set (vr_sets r)" for x
  proof -
    have "vr_sets r = butlast (vr_sets r) @ [last (vr_sets r)]" using r'(2) by simp
    then have "x = last (vr_sets r) \<or> unat (vs_valid_from x) < unat (vs_valid_from (last (vr_sets r)))"
      using registry_set.IH that unfolding registry_ok_def
      by (metis (no_types, lifting) Un_iff append_Nil2 empty_iff list.set(1) list.set_intros(1) set_ConsD set_append sorted_wrt_append)
    then show ?thesis using r'(3) by (auto simp: word_less_nat_alt)
  qed
  then show ?case using registry_set.IH r' by (simp add: registry_ok_def sorted_wrt_append nth_append)
next
  case (registry_verify r tip height)
  then show ?case
    using registry_index [OF registry_verify.IH, of height]
    by (simp add: registry_ok_def updateValidatorSetIndex_def)
qed

lemma unat_ucast_u256: "unat (ucast (h :: u64) :: u256) = unat h"
proof -
  have "unat h < 2 ^ 64" using unsigned_less [of h, where ?'a = nat] by simp
  then have "unat h < 2 ^ 256" by simp
  then show ?thesis by (simp add: unsigned_ucast_eq take_bit_nat_eq_self)
qed

text \<open>The validators whose signatures the contract asks for at a height.\<close>

definition contract_validators :: "u256 \<Rightarrow> validator_registry \<Rightarrow> address list option" where
  "contract_validators height r = map_option vs_validators (getValidators (updateValidatorSetIndex height r))"

lemma contract_validators_newest:
  assumes "registry_ok r tip" and "tip \<le> ucast h"
  shows "\<exists>vs. contract_validators (ucast h) r = Some vs \<and> readonly_validators_for_height (vr_sets r) h = Ok vs"
proof -
  let ?j = "vr_index (updateValidatorSetIndex (ucast h) r)"
  note j = registry_index [OF assms]
  note h = unat_ucast_u256 [of h]
  have "readonly_validators_for_height (vr_sets r) h = Ok (vs_validators (vr_sets r ! ?j))"
    using validators_newest [of "vr_sets r" "vr_sets r ! ?j" h] assms(1) j h
    by (simp add: registry_ok_def word_le_nat_alt)
  moreover have "contract_validators (ucast h) r = Some (vs_validators (vr_sets r ! ?j))"
    using j(1) by (simp add: contract_validators_def getValidators_def updateValidatorSetIndex_def)
  ultimately show ?thesis by blast
qed

section \<open>The worker follows the contract\<close>

text \<open>The answers to the worker are those of \<open>getValidatorSets\<close>, or an error.\<close>

definition serves :: "validator_registry \<Rightarrow> validator_io \<Rightarrow> bool" where
  "serves r io \<longleftrightarrow> (\<forall>from. (\<exists>e. vi_sets io from = Err e) \<or> (\<exists>xs. getValidatorSets (ucast from) r = Some xs \<and> vi_sets io from = Ok xs))"

definition announces :: "validator_set list \<Rightarrow> eth_log \<Rightarrow> nat \<Rightarrow> bool" where
  "announces C l i \<longleftrightarrow> 64 \<le> length (lg_data l) \<and> unat (from_be_bytes (take 32 (lg_data l)) :: u256) = i \<and> i < length C"

text \<open>The worker beside the contract, whose sets and index change at any time.\<close>

inductive validator_run :: "validator_registry \<Rightarrow> u256 \<Rightarrow> validator_worker \<Rightarrow> bool" where
  loaded: "registry_run r tip \<Longrightarrow> validator_run r tip \<lparr>vw_sets = vr_sets r, vw_errors = 0\<rparr>"
| added: "validator_run r tip w \<Longrightarrow> setValidators number validFrom vs r = Some r' \<Longrightarrow>
    unat number + MAX_FUTURE_BLOCKS < 2 ^ 64 \<Longrightarrow> validator_run r' tip w"
| verified: "validator_run r tip w \<Longrightarrow> tip < height \<Longrightarrow> validator_run (updateValidatorSetIndex height r) height w"
| event: "validator_run r tip w \<Longrightarrow> serves r io \<Longrightarrow> (\<And>l. ev = Ok l \<Longrightarrow> \<exists>i. announces (vr_sets r) l i) \<Longrightarrow>
    validator_event io ev w = Ok w' \<Longrightarrow> validator_run r tip w'"

lemma validator_run_registry: "validator_run r tip w \<Longrightarrow> registry_run r tip"
  by (induction rule: validator_run.induct) (auto intro: registry_run.intros)

lemma serves_drop: "serves r io \<Longrightarrow> vi_sets io n = Ok xs \<Longrightarrow> xs = drop (unat n) (vr_sets r)"
  unfolding serves_def getValidatorSets_def
  by (drule spec [where x = n]) (auto simp: unat_ucast_u256 split: if_splits)

lemma setValidators_extends: "setValidators number validFrom vs r = Some r' \<Longrightarrow> prefix (vr_sets r) (vr_sets r')"
  by (auto simp: setValidators_def split: if_splits)

lemma relisten_errors: "relisten listen n errors = Ok errors' \<Longrightarrow> errors \<le> MAX_CONSECUTIVE_TRANSPORT_ERRORS \<Longrightarrow>
    errors' \<le> MAX_CONSECUTIVE_TRANSPORT_ERRORS"
proof (induction listen n errors rule: relisten.induct)
  case (1 listen n errors)
  then show ?case by (subst (asm) (2) relisten.simps) (auto split: outcome.splits if_splits)
qed

lemma handle_set_added_prefix:
  assumes "prefix (vw_sets w) (vr_sets r)" and "serves r io" and "announces (vr_sets r) l i"
    and "handle_set_added io l w = Ok w'"
  shows "prefix (vw_sets w') (vr_sets r) \<and> vw_sets w' \<noteq> [] \<and> vw_errors w' = vw_errors w \<and> i < length (vw_sets w')"
proof (cases "length (vw_sets w) \<le> i")
  case False
  then show ?thesis using assms by (auto simp: handle_set_added_def announces_def Let_def split: if_splits)
next
  case True
  let ?C = "vr_sets r"
  have i: "unat (from_be_bytes (take 32 (lg_data l)) :: u256) = i" "i < length ?C" using assms(3) by (simp_all add: announces_def)
  have ne: "vw_sets w \<noteq> []" and small: "i < 2 ^ 64"
    using assms(4) i by (auto simp: handle_set_added_def Let_def split: if_splits)
  then have n: "unat (of_nat (length (vw_sets w)) :: u64) = length (vw_sets w)" using True by (simp add: unat_of_nat)
  have "length (vw_sets w) - 1 < i" "Suc (length (vw_sets w) - 1) = length (vw_sets w)" using True ne by (cases "vw_sets w"; simp)+
  then have "bind_o (vi_sets io (of_nat (length (vw_sets w)))) (\<lambda>new. Ok (w\<lparr>vw_sets := vw_sets w @ new\<rparr>)) = Ok w'"
    using assms(4) i by (auto simp: handle_set_added_def Let_def simp del: of_nat_Suc split: if_splits)
  then have "w' = w\<lparr>vw_sets := vw_sets w @ drop (length (vw_sets w)) ?C\<rparr>"
    using serves_drop [OF assms(2), of "of_nat (length (vw_sets w))"] n by (auto simp: bind_o_Ok_iff)
  moreover have "vw_sets w @ drop (length (vw_sets w)) ?C = ?C" using assms(1) by (auto simp: prefix_def)
  ultimately show ?thesis using i(2) by auto
qed

lemma validator_run_inv:
  "validator_run r tip w \<Longrightarrow> prefix (vw_sets w) (vr_sets r) \<and> vw_sets w \<noteq> [] \<and> vw_errors w \<le> MAX_CONSECUTIVE_TRANSPORT_ERRORS"
proof (induction rule: validator_run.induct)
  case (loaded r tip)
  then show ?case using registry_run_ok [OF loaded] by (auto simp: registry_ok_def)
next
  case (added r tip w number validFrom vs r')
  then show ?case using setValidators_extends [OF added.hyps(2)] by (auto intro: prefix_order.trans)
next
  case (event r tip w io ev w')
  show ?case
  proof (cases ev)
    case (Ok l)
    then obtain i where i: "announces (vr_sets r) l i" using event.hyps(3) by blast
    have h: "handle_set_added io l (w\<lparr>vw_errors := 0\<rparr>) = Ok w'" using event.hyps(4) Ok by (simp add: validator_event_def)
    show ?thesis using handle_set_added_prefix [OF _ event.hyps(2) i h] event.IH by simp
  next
    case (Err e)
    then obtain errors where e: "relisten (vi_listen io) 0 (vw_errors w + 1) = Ok errors"
      "load_all_validators io (w\<lparr>vw_errors := errors\<rparr>) = Ok w'" "vw_errors w + 1 \<le> MAX_CONSECUTIVE_TRANSPORT_ERRORS"
      using event.hyps(4) by (auto simp: validator_event_def bind_o_Ok_iff split: if_splits)
    have "w' = w\<lparr>vw_errors := errors, vw_sets := vr_sets r\<rparr>"
      using e(2) serves_drop [OF event.hyps(2), of 0] by (auto simp: load_all_validators_def bind_o_Ok_iff)
    moreover have "vr_sets r \<noteq> []" using event.IH by auto
    ultimately show ?thesis using relisten_errors [OF e(1,3)] by simp
  qed (use event.hyps(4) in \<open>simp add: validator_event_def\<close>)
qed (auto simp: updateValidatorSetIndex_def)

section \<open>Properties\<close>

text \<open>
  C26. The validator sets of a node follow the contract. In every run of the worker, over events, transport
  errors and reconnections, beside a contract whose owner adds sets and which verifies rollups, the
  sets the node has are the first sets of the contract, in order. For every height from that of the
  last verified rollup on at which no set unknown to the node is valid yet, the validators the node names
  are those whose signatures the contract asks for, by its own index over the sets. Handling the event
  that announces a set makes that set known.
\<close>

theorem validator_sets_follow:
  assumes "validator_run r tip w"
  shows "(\<exists>D. vr_sets r = vw_sets w @ D \<and>
       (\<forall>h. tip \<le> ucast h \<and> (\<forall>v \<in> set D. unat h < unat (vs_valid_from v)) \<longrightarrow>
          (\<exists>vs. contract_validators (ucast h) r = Some vs \<and> readonly_validators_for_height (vw_sets w) h = Ok vs))) \<and>
     (\<forall>io l i w'. serves r io \<and> announces (vr_sets r) l i \<and> validator_event io (Ok l) w = Ok w' \<longrightarrow> i < length (vw_sets w'))"
proof -
  have ok: "registry_ok r tip" by (rule registry_run_ok [OF validator_run_registry [OF assms]])
  obtain D where D: "vr_sets r = vw_sets w @ D" using validator_run_inv [OF assms] by (auto simp: prefix_def)
  have "i < length (vw_sets w')" if "serves r io \<and> announces (vr_sets r) l i \<and> validator_event io (Ok l) w = Ok w'" for io l i w'
    using that handle_set_added_prefix [of "w\<lparr>vw_errors := 0\<rparr>" r io l i w'] validator_run_inv [OF assms]
    by (simp add: validator_event_def)
  moreover have "\<exists>vs. contract_validators (ucast h) r = Some vs \<and> readonly_validators_for_height (vw_sets w) h = Ok vs"
    if "tip \<le> ucast h" "\<forall>v \<in> set D. unat h < unat (vs_valid_from v)" for h
    using contract_validators_newest [OF ok that(1)] validators_prefix [of D h "vw_sets w"] that(2) ok
    by (auto simp: D registry_ok_def)
  ultimately show ?thesis using D by blast
qed

abbreviation demo_set :: "u8 \<Rightarrow> u256 \<Rightarrow> validator_set" where
  "demo_set a h \<equiv> \<lparr>vs_validators = [[a]], vs_valid_from = h\<rparr>"

text \<open>
  A contract with a second set, valid from height 10, which the node knows, and a third, valid from height 20, which it
  does not know yet: they agree at height 9 and at height 10.
\<close>

definition demo_registry :: validator_registry where
  "demo_registry = \<lparr>vr_sets = [demo_set 1 0, demo_set 2 10, demo_set 3 20], vr_index = 0\<rparr>"

lemma demo_validator_run: "validator_run demo_registry 0 \<lparr>vw_sets = [demo_set 1 0, demo_set 2 10], vw_errors = 0\<rparr>"
proof -
  let ?r1 = "\<lparr>vr_sets = [demo_set 1 0], vr_index = 0\<rparr>"
  have "registry_run ?r1 0"
    by (rule registry_init [where number = 0 and vs = "[[1]]"]) (simp add: initial_registry_def setValidators_def)
  then have "registry_run (?r1\<lparr>vr_sets := [demo_set 1 0, demo_set 2 10]\<rparr>) 0"
    by (rule registry_set [where number = 0 and vs = "[[2]]" and validFrom = 10]) (simp_all add: setValidators_def MAX_FUTURE_BLOCKS_def)
  from loaded [OF this]
  have "validator_run (?r1\<lparr>vr_sets := [demo_set 1 0, demo_set 2 10]\<rparr>) 0 \<lparr>vw_sets = [demo_set 1 0, demo_set 2 10], vw_errors = 0\<rparr>"
    by simp
  then show ?thesis
    by (rule added [where number = 0 and vs = "[[3]]" and validFrom = 20])
       (simp_all add: setValidators_def MAX_FUTURE_BLOCKS_def demo_registry_def)
qed

theorem validator_sets_follow_witness:
  "(\<exists>vs. contract_validators 9 demo_registry = Some vs \<and>
      readonly_validators_for_height [demo_set 1 0, demo_set 2 10] 9 = Ok vs) \<and>
   (\<exists>vs. contract_validators 10 demo_registry = Some vs \<and>
      readonly_validators_for_height [demo_set 1 0, demo_set 2 10] 10 = Ok vs) \<and>
   contract_validators 10 demo_registry = Some [[2]]"
proof -
  obtain D where D: "vr_sets demo_registry = [demo_set 1 0, demo_set 2 10] @ D"
    "\<And>h :: u64. 0 \<le> (ucast h :: u256) \<and> (\<forall>v \<in> set D. unat h < unat (vs_valid_from v)) \<Longrightarrow>
       \<exists>vs. contract_validators (ucast h) demo_registry = Some vs \<and>
         readonly_validators_for_height [demo_set 1 0, demo_set 2 10] h = Ok vs"
    using validator_sets_follow [OF demo_validator_run] by auto
  have "D = [demo_set 3 20]" using D(1) by (simp add: demo_registry_def)
  moreover have "contract_validators 10 demo_registry = Some [[2]]"
    by (simp add: contract_validators_def demo_registry_def updateValidatorSetIndex_def getValidators_def)
  ultimately show ?thesis using D(2) [of 9] D(2) [of 10] by simp
qed

end
