(* ===== verification/Node_Rpc.thy ===== *)
theory Node_Rpc
  imports Node_State
begin

text \<open>
  The read side of the node: the routes of \<open>node/src/rpc\<close> (\<open>routes/txn.rs\<close>, \<open>blocks.rs\<close>, \<open>element.rs\<close>,
  \<open>merkle.rs\<close>, \<open>smirk.rs\<close>, \<open>height.rs\<close>, \<open>health.rs\<close>, \<open>stats.rs\<close>) over the state of the node, with the
  cursors and the paginator of \<open>primitives/src/pagination.rs\<close>. The clock and the parser of elements are
  arguments; serialisation of requests and answers is left out.
\<close>

section \<open>Cursors and pages\<close>

record 'p cursor =
  cu_after :: "'p cursor_after option"
  cu_before :: "'p cursor_before option"

fun after_inner :: "'p cursor_after \<Rightarrow> 'p" where
  "after_inner (After p) = p"
| "after_inner (AfterInclusive p) = p"

fun after_inclusive :: "'p cursor_after \<Rightarrow> 'p cursor_after" where
  "after_inclusive (After p) = AfterInclusive p"
| "after_inclusive (AfterInclusive p) = AfterInclusive p"

fun after_map_pos :: "('p \<Rightarrow> 'q) \<Rightarrow> 'p cursor_after \<Rightarrow> 'q cursor_after" where
  "after_map_pos f (After p) = After (f p)"
| "after_map_pos f (AfterInclusive p) = AfterInclusive (f p)"

fun before_inner :: "'p cursor_before \<Rightarrow> 'p" where
  "before_inner (Before p) = p"
| "before_inner (BeforeInclusive p) = p"

fun before_inclusive :: "'p cursor_before \<Rightarrow> 'p cursor_before" where
  "before_inclusive (Before p) = BeforeInclusive p"
| "before_inclusive (BeforeInclusive p) = BeforeInclusive p"

fun before_map_pos :: "('p \<Rightarrow> 'q) \<Rightarrow> 'p cursor_before \<Rightarrow> 'q cursor_before" where
  "before_map_pos f (Before p) = Before (f p)"
| "before_map_pos f (BeforeInclusive p) = BeforeInclusive (f p)"

fun choice_inner :: "'p cursor_choice \<Rightarrow> 'p" where
  "choice_inner (CursorAfter a) = after_inner a"
| "choice_inner (CursorBefore b) = before_inner b"

fun choice_map_pos :: "('p \<Rightarrow> 'q) \<Rightarrow> 'p cursor_choice \<Rightarrow> 'q cursor_choice" where
  "choice_map_pos f (CursorAfter a) = CursorAfter (after_map_pos f a)"
| "choice_map_pos f (CursorBefore b) = CursorBefore (before_map_pos f b)"

fun choice_inclusive :: "'p cursor_choice \<Rightarrow> 'p cursor_choice" where
  "choice_inclusive (CursorAfter a) = CursorAfter (after_inclusive a)"
| "choice_inclusive (CursorBefore b) = CursorBefore (before_inclusive b)"

text \<open>\<open>Paginator::next\<close> for each item in turn; \<open>collect\<close> gives the cursor and the items.\<close>

definition paginator_next :: "('i \<Rightarrow> 'p option) \<Rightarrow> 'i \<Rightarrow> 'p cursor \<Rightarrow> 'p cursor" where
  "paginator_next item_to_pos item c = (case item_to_pos item of
     None \<Rightarrow> c
   | Some pos \<Rightarrow> \<lparr>cu_after = Some (After pos),
                 cu_before = (case cu_before c of None \<Rightarrow> Some (Before pos) | Some b \<Rightarrow> Some b)\<rparr>)"

definition paginate :: "('i \<Rightarrow> 'p option) \<Rightarrow> 'i list \<Rightarrow> 'p cursor \<times> 'i list" where
  "paginate item_to_pos items =
     (fold (paginator_next item_to_pos) items \<lparr>cu_after = None, cu_before = None\<rparr>, items)"

section \<open>Errors\<close>

datatype rpc_error =
    RpcNode node_error
  | RpcInvalidProof
  | RpcBlockNotFound u64
  | RpcBlockHashNotFound crypto_hash
  | RpcElementNotFound element
  | RpcElementNotInTxn element u64
  | RpcTxnNotFound element
  | RpcInvalidElement string
  | RpcOutOfSync
  | RpcStatisticsNotReady

section \<open>Transactions\<close>

record txn_with_info =
  ti_proof :: utxo_proof
  ti_index_in_block :: u64
  ti_hash :: element
  ti_block_height :: u64
  ti_time :: u64

record list_txns_position =
  lp_block :: u64
  lp_txn :: u64

datatype list_txn_order = NewestToOldest | OldestToNewest

fun to_block_list_order :: "list_txn_order \<Rightarrow> block_list_order" where
  "to_block_list_order NewestToOldest = HighestToLowest"
| "to_block_list_order OldestToNewest = LowestToHighest"

record list_txns_query =
  lq_limit :: "nat option"
  lq_cursor :: "list_txns_position cursor_choice option"
  lq_order :: list_txn_order
  lq_poll :: bool

definition fetch_blocks_paginated ::
    "node_state \<Rightarrow> u64 cursor_choice option \<Rightarrow> block_list_order \<Rightarrow> nat \<Rightarrow>
     ((block_format, node_error) outcome list, node_error) outcome" where
  "fetch_blocks_paginated s cursor order limit =
     bind_o (map_err BlockStoreError (list_paginated (ns_store s) cursor order limit)) (\<lambda>rs.
     Ok (map (\<lambda>r. bind_o (map_err BlockStoreError r) (\<lambda>(_, f). Ok f)) rs))"

definition fetch_blocks_non_empty_paginated ::
    "node_state \<Rightarrow> u64 cursor_choice option \<Rightarrow> block_list_order \<Rightarrow> nat \<Rightarrow>
     ((block_format, node_error) outcome list, node_error) outcome" where
  "fetch_blocks_non_empty_paginated s cursor order limit =
     bind_o (map_err BlockStoreError (list_non_empty_paginated (ns_store s) cursor order limit)) (\<lambda>rs.
     Ok (map (\<lambda>r. bind_o (map_err BlockStoreError r) (\<lambda>(_, f). Ok f)) rs))"

text \<open>The time in the metadata, or an estimate, which is computed in any case.\<close>

definition block_time :: "u64 \<Rightarrow> u64 \<Rightarrow> block_format \<Rightarrow> (u64, rpc_error) outcome" where
  "block_time now max_height f =
     bind_o (map_err RpcNode (estimate_block_time now (block_height (into_block f)) max_height)) (\<lambda>estimate.
     Ok (case format_metadata f of Some t \<Rightarrow> t | None \<Rightarrow> estimate))"

definition txn_info :: "node_env \<Rightarrow> u64 \<Rightarrow> u64 \<Rightarrow> block_format \<Rightarrow> nat \<times> utxo_proof \<Rightarrow> (txn_with_info, rpc_error) outcome" where
  "txn_info E now max_height f = (\<lambda>(i, txn).
     bind_o (block_time now max_height f) (\<lambda>time.
     Ok \<lparr>ti_proof = txn, ti_index_in_block = of_nat i, ti_hash = proof_hash (ne_poseidon E) txn,
          ti_block_height = block_height (into_block f), ti_time = time\<rparr>))"

text \<open>\<open>flatten_ok\<close>: a block becomes its transactions, an error stays.\<close>

definition block_items ::
    "node_env \<Rightarrow> u64 \<Rightarrow> u64 \<Rightarrow> (block_format, node_error) outcome \<Rightarrow> (txn_with_info, rpc_error) outcome list" where
  "block_items E now max_height r = (case r of
     Ok f \<Rightarrow> map (txn_info E now max_height f) (enumerate 0 (block_txns (into_block f)))
   | Err e \<Rightarrow> [Err (RpcNode e)]
   | Panic \<Rightarrow> [Panic])"

text \<open>The range of the transactions of the previous page in the block of the cursor.\<close>

definition txn_skipped :: "list_txns_position cursor_choice option \<Rightarrow> (txn_with_info, rpc_error) outcome \<Rightarrow> bool" where
  "txn_skipped cursor r = (case (cursor, r) of
     (Some c, Ok txn) \<Rightarrow> ti_block_height txn = lp_block (choice_inner c) \<and> ti_index_in_block txn \<le> lp_txn (choice_inner c)
   | _ \<Rightarrow> False)"

definition txn_pos :: "(txn_with_info, rpc_error) outcome \<Rightarrow> list_txns_position option" where
  "txn_pos r = (case r of
     Ok txn \<Rightarrow> Some \<lparr>lp_block = ti_block_height txn, lp_txn = ti_index_in_block txn\<rparr>
   | _ \<Rightarrow> None)"

definition list_txns_inner ::
    "node_env \<Rightarrow> u64 \<Rightarrow> node_state \<Rightarrow> list_txns_query \<Rightarrow> u64 \<Rightarrow>
     (list_txns_position cursor \<times> txn_with_info list, rpc_error) outcome" where
  "list_txns_inner E now s query max_height =
     (let txn_limit = min (case lq_limit query of Some n \<Rightarrow> n | None \<Rightarrow> 10) 100
      in bind_o (map_err RpcNode (fetch_blocks_non_empty_paginated s
             (map_option (choice_map_pos lp_block) (lq_cursor query)) (to_block_list_order (lq_order query)) (txn_limit + 1))) (\<lambda>blocks.
         let transactions = take txn_limit (filter (\<lambda>r. \<not> txn_skipped (lq_cursor query) r)
               (concat (map (block_items E now max_height) blocks)));
             (cursor, items) = paginate txn_pos transactions
         in bind_o (collect_results items) (\<lambda>txns.
            Ok (\<lparr>cu_after = map_option after_inclusive (cu_after cursor),
                 cu_before = map_option before_inclusive (cu_before cursor)\<rparr>, txns))))"

text \<open>
  With \<open>poll\<close> an empty answer waits: for nothing in particular, or for the next block with transactions
  above the cursor. \<open>arrived\<close> is the state in which such a block came before the time was up.
\<close>

definition rpc_list_txns ::
    "node_env \<Rightarrow> u64 \<Rightarrow> node_state \<Rightarrow> list_txns_query \<Rightarrow> node_state option \<Rightarrow>
     (list_txns_position cursor \<times> txn_with_info list, rpc_error) outcome" where
  "rpc_list_txns E now s query arrived =
     (let max_height = ca_max_height (ns_cache s)
      in bind_o (list_txns_inner E now s query max_height) (\<lambda>(cursor, transactions).
         if transactions = [] \<and> lq_poll query
         then let towards_newer_height = (case (lq_order query, lq_cursor query) of
                    (NewestToOldest, Some (CursorBefore before)) \<Rightarrow> Some (lp_block (before_inner before))
                  | (OldestToNewest, Some (CursorAfter after)) \<Rightarrow> Some (lp_block (after_inner after))
                  | _ \<Rightarrow> None)
              in case towards_newer_height of
                   None \<Rightarrow> Ok (cursor, transactions)
                 | Some height \<Rightarrow>
                     bind_o (map_err RpcNode (height_add height 1)) (\<lambda>_.
                     case arrived of
                       None \<Rightarrow> Ok (cursor, transactions)
                     | Some s' \<Rightarrow> list_txns_inner E now s' query max_height)
         else Ok (cursor, transactions)))"

definition rpc_get_txn :: "u64 \<Rightarrow> node_state \<Rightarrow> element \<Rightarrow> (txn_with_info, rpc_error) outcome" where
  "rpc_get_txn now s hash =
     bind_o (map_err RpcNode (get_txn s (to_be_bytes hash))) (\<lambda>found.
     bind_o (ok_or (RpcTxnNotFound hash) found) (\<lambda>(txn, metadata).
     bind_o (case tm_block_time metadata of
               Some t \<Rightarrow> Ok t
             | None \<Rightarrow> map_err RpcNode (estimate_block_time now (tm_block_height metadata) (ca_max_height (ns_cache s)))) (\<lambda>time.
     Ok \<lparr>ti_proof = txn, ti_index_in_block = ucast (tm_block_txn_index metadata), ti_hash = hash,
          ti_block_height = tm_block_height metadata, ti_time = time\<rparr>)))"

section \<open>Blocks\<close>

datatype block_identifier = HashId crypto_hash | HeightId u64

text \<open>The texts of hashes and heights are read by the arguments \<open>hash_of\<close> and \<open>height_of\<close>.\<close>

definition block_identifier_of ::
    "(string \<Rightarrow> crypto_hash option) \<Rightarrow> (string \<Rightarrow> u64 option) \<Rightarrow> string \<Rightarrow> block_identifier option" where
  "block_identifier_of hash_of height_of value =
     (if length value = 32 * 2 then map_option HashId (hash_of value) else map_option HeightId (height_of value))"

record block_with_info =
  bi_block :: block
  bi_txns :: "txn_with_info list"
  bi_hash :: crypto_hash
  bi_time :: u64

definition from_node_block :: "node_env \<Rightarrow> block \<Rightarrow> u64 \<Rightarrow> block_with_info" where
  "from_node_block E b time = \<lparr>bi_block = b,
     bi_txns = map (\<lambda>(i, txn). \<lparr>ti_proof = txn, ti_index_in_block = of_nat i, ti_hash = proof_hash (ne_poseidon E) txn,
        ti_block_height = block_height b, ti_time = time\<rparr>) (enumerate 0 (block_txns b)),
     bi_hash = block_hash E b, bi_time = time\<rparr>"

definition block_info :: "node_env \<Rightarrow> u64 \<Rightarrow> u64 \<Rightarrow> block_format \<Rightarrow> (block_with_info, rpc_error) outcome" where
  "block_info E now max_height f =
     bind_o (block_time now max_height f) (\<lambda>time. Ok (from_node_block E (into_block f) time))"

definition rpc_get_block :: "node_env \<Rightarrow> u64 \<Rightarrow> node_state \<Rightarrow> block_identifier \<Rightarrow> (block_with_info, rpc_error) outcome" where
  "rpc_get_block E now s ident =
     bind_o (case ident of
               HeightId height \<Rightarrow> bind_o (map_err RpcNode (node_get_block s height)) (ok_or (RpcBlockNotFound height))
             | HashId hash \<Rightarrow> bind_o (map_err RpcNode (get_block_by_hash s hash)) (ok_or (RpcBlockHashNotFound hash))) (\<lambda>f.
     block_info E now (ca_max_height (ns_cache s)) f)"

record list_blocks_query =
  bq_limit :: "nat option"
  bq_cursor :: "u64 cursor_choice option"
  bq_order :: block_list_order
  bq_skip_empty :: bool

definition rpc_list_blocks ::
    "node_env \<Rightarrow> u64 \<Rightarrow> node_state \<Rightarrow> list_blocks_query \<Rightarrow> (u64 cursor \<times> block_with_info list, rpc_error) outcome" where
  "rpc_list_blocks E now s query =
     (let limit = min (case bq_limit query of Some n \<Rightarrow> n | None \<Rightarrow> 10) 100
      in bind_o (map_err RpcNode ((if bq_skip_empty query then fetch_blocks_non_empty_paginated else fetch_blocks_paginated)
             s (bq_cursor query) (bq_order query) limit)) (\<lambda>blocks.
         let items = map (\<lambda>r. bind_o (map_err RpcNode r) (block_info E now (ca_max_height (ns_cache s)))) blocks;
             (cursor, items) = paginate (\<lambda>r. case r of Ok b \<Rightarrow> Some (block_height (bi_block b)) | _ \<Rightarrow> None) items
         in bind_o (collect_results items) (\<lambda>bs. Ok (cursor, bs))))"

section \<open>Elements\<close>

record element_response =
  er_element :: element
  er_height :: u64
  er_root_hash :: element
  er_txn_hash :: element
  er_spent :: bool

definition txn_commitments :: "utxo_proof \<Rightarrow> element list" where
  "txn_commitments t = txn_inputs t @ txn_outputs t"

definition get_element_response_unspent :: "node_env \<Rightarrow> node_state \<Rightarrow> element \<Rightarrow> (element_response, rpc_error) outcome" where
  "get_element_response_unspent E s e =
     bind_o (ok_or (RpcElementNotFound e) (tree_get (pe_tree (ns_tree s)) e)) (\<lambda>inserted_in.
     bind_o (map_err RpcNode (node_get_block s inserted_in)) (\<lambda>f.
     bind_o (ok_or (RpcBlockNotFound inserted_in) f) (\<lambda>f.
     bind_o (ok_or (RpcElementNotInTxn e (block_height (into_block f)))
               (find (\<lambda>t. e \<in> set (txn_commitments t)) (block_txns (into_block f)))) (\<lambda>txn.
     Ok \<lparr>er_element = e, er_height = inserted_in, er_root_hash = block_root (into_block f),
          er_txn_hash = proof_hash (ne_poseidon E) txn, er_spent = False\<rparr>))))"

definition get_element_response_from_history :: "node_env \<Rightarrow> node_state \<Rightarrow> element \<Rightarrow> (element_response, rpc_error) outcome" where
  "get_element_response_from_history E s e =
     bind_o (map_err RpcNode (get_element_seen_info s e)) (\<lambda>info.
     bind_o (ok_or (RpcElementNotFound e) info) (\<lambda>info.
     bind_o (map_err RpcNode (get_block_by_hash s (si_output_block_hash info))) (\<lambda>f.
     bind_o (ok_or (RpcBlockNotFound (si_output_height info)) f) (\<lambda>f.
     bind_o (ok_or (RpcElementNotInTxn e (si_output_height info))
               (find (\<lambda>t. e \<in> set (txn_commitments t)) (block_txns (into_block f)))) (\<lambda>txn.
     Ok \<lparr>er_element = e, er_height = si_output_height info, er_root_hash = block_root (into_block f),
          er_txn_hash = proof_hash (ne_poseidon E) txn, er_spent = si_spent info\<rparr>)))))"

definition get_element_response ::
    "node_env \<Rightarrow> node_state \<Rightarrow> element \<Rightarrow> bool \<Rightarrow> (element_response, rpc_error) outcome" where
  "get_element_response E s e include_spent =
     (case get_element_response_unspent E s e of
        Err (RpcElementNotFound x) \<Rightarrow>
          if include_spent then get_element_response_from_history E s e else Err (RpcElementNotFound x)
      | r \<Rightarrow> r)"

definition rpc_get_element :: "node_env \<Rightarrow> node_state \<Rightarrow> element \<Rightarrow> (element_response, rpc_error) outcome" where
  "rpc_get_element E s e = get_element_response E s e False"

fun split_comma :: "string \<Rightarrow> string list" where
  "split_comma [] = [[]]"
| "split_comma (c # cs) =
     (if c = CHR '','' then [] # split_comma cs
      else case split_comma cs of w # ws \<Rightarrow> (c # w) # ws | [] \<Rightarrow> [[c]])"

definition parse_elements :: "(string \<Rightarrow> element option) \<Rightarrow> string \<Rightarrow> (element list, rpc_error) outcome" where
  "parse_elements parse text = collect_results (map (\<lambda>c. ok_or (RpcInvalidElement c) (parse c)) (split_comma text))"

text \<open>Elements that are not found are left out of the answer; any other error ends it.\<close>

definition rpc_list_elements ::
    "node_env \<Rightarrow> node_state \<Rightarrow> (string \<Rightarrow> element option) \<Rightarrow> string \<Rightarrow> bool \<Rightarrow> (element_response list, rpc_error) outcome" where
  "rpc_list_elements E s parse text include_spent =
     (if text = [] then Ok []
      else bind_o (parse_elements parse text) (\<lambda>es.
           collect_results (filter (\<lambda>r. case r of Err (RpcElementNotFound _) \<Rightarrow> False | _ \<Rightarrow> True)
             (map (\<lambda>e. get_element_response E s e include_spent) es))))"

definition rpc_get_merkle_paths ::
    "node_env \<Rightarrow> node_state \<Rightarrow> (string \<Rightarrow> element option) \<Rightarrow> string \<Rightarrow> (element list list, rpc_error) outcome" where
  "rpc_get_merkle_paths E s parse text =
     bind_o (parse_elements parse text) (\<lambda>es. map_err RpcNode (get_merkle_paths E s es))"

definition get_all_smirk_elements :: "node_state \<Rightarrow> (element \<times> u64) list" where
  "get_all_smirk_elements s = map (\<lambda>e. (e, the (tree_get (pe_tree (ns_tree s)) e))) (tree_elements (pe_tree (ns_tree s)))"

section \<open>Height, health and statistics\<close>

definition get_height :: "node_env \<Rightarrow> node_state \<Rightarrow> (u64 \<times> element, rpc_error) outcome" where
  "get_height E s = bind_o (unwrap (root_hash (tree_hash E) (pe_tree (ns_tree s)))) (\<lambda>r. Ok (ca_height (ns_cache s), r))"

text \<open>\<open>now\<close> and the time of the last commit are in seconds.\<close>

definition get_health :: "nat \<Rightarrow> nat \<Rightarrow> node_state \<Rightarrow> (u64, rpc_error) outcome" where
  "get_health now interval_sec s =
     bind_o (map_err RpcNode (is_out_of_sync (ns_cache s))) (\<lambda>oos.
     if oos then Err RpcOutOfSync
     else case ns_last_commit s of
            None \<Rightarrow> Err RpcOutOfSync
          | Some t \<Rightarrow> if now - t > interval_sec then Err RpcOutOfSync else Ok (ca_height (ns_cache s)))"

record txn_stats =
  ts_ready :: bool
  ts_last_7_days :: "(int \<times> u64) list"

text \<open>
  The loop over the blocks from the newest down to the first one before \<open>earliest\<close>; \<open>date_of\<close> gives the
  day of a time, or nothing when it is out of range.
\<close>

fun count_days ::
    "(u64 \<Rightarrow> int option) \<Rightarrow> u64 \<Rightarrow> u64 \<Rightarrow> int \<Rightarrow> (block_format, node_error) outcome list \<Rightarrow> (int \<times> u64) list \<Rightarrow>
     ((int \<times> u64) list, node_error) outcome" where
  "count_days date_of now max_height earliest [] counts = Ok counts"
| "count_days date_of now max_height earliest (r # rs) counts =
     bind_o r (\<lambda>f.
     bind_o (case format_metadata f of
               Some t \<Rightarrow> Ok t
             | None \<Rightarrow> estimate_block_time now (block_height (into_block f)) max_height) (\<lambda>time.
     case date_of time of
       None \<Rightarrow> Panic
     | Some date \<Rightarrow>
         if date < earliest then Ok counts
         else let n = of_nat (length (block_txns (into_block f)));
                  old = (case map_of counts date of Some k \<Rightarrow> k | None \<Rightarrow> 0)
              in if 2 ^ 64 \<le> unat old + unat n then Panic
                 else count_days date_of now max_height earliest rs (AList.update date (old + n) counts)))"

definition refresh_last_7_days ::
    "(u64 \<Rightarrow> int option) \<Rightarrow> u64 \<Rightarrow> node_state \<Rightarrow> int \<Rightarrow> txn_stats \<Rightarrow> txn_stats \<times> (unit, node_error) outcome" where
  "refresh_last_7_days date_of now s last_day st =
     (case count_days date_of now (ca_max_height (ns_cache s)) (last_day - 7)
             (fetch_blocks_non_empty s (Unbounded, Unbounded) HighestToLowest) [] of
        Ok counts \<Rightarrow> (st\<lparr>ts_last_7_days := map (\<lambda>i. let date = last_day - i
            in (date, case map_of counts date of Some k \<Rightarrow> k | None \<Rightarrow> 0)) [6, 5, 4, 3, 2, 1, 0]\<rparr>, Ok ())
      | Err e \<Rightarrow> (st, Err e)
      | Panic \<Rightarrow> (st, Panic))"

text \<open>One round of the worker: an error is logged, and the statistics count as ready.\<close>

definition stats_round :: "(u64 \<Rightarrow> int option) \<Rightarrow> u64 \<Rightarrow> node_state \<Rightarrow> int \<Rightarrow> txn_stats \<Rightarrow> (txn_stats, node_error) outcome" where
  "stats_round date_of now s today st = (case refresh_last_7_days date_of now s (today - 1) st of
     (st', Panic) \<Rightarrow> Panic
   | (st', _) \<Rightarrow> Ok (st'\<lparr>ts_ready := True\<rparr>))"

definition get_stats :: "txn_stats \<Rightarrow> ((int \<times> u64) list, rpc_error) outcome" where
  "get_stats st = (if ts_ready st then Ok (ts_last_7_days st) else Err RpcStatisticsNotReady)"

section \<open>Submitting a transaction\<close>

record submit_response =
  sr_height :: u64
  sr_root_hash :: element
  sr_txn_hash :: element

text \<open>\<open>committed\<close> is what \<open>submit_transaction_and_wait\<close> returns.\<close>

definition submit_txn ::
    "node_env \<Rightarrow> utxo_proof \<Rightarrow> (block, node_error) outcome \<Rightarrow> (submit_response, rpc_error) outcome" where
  "submit_txn E t committed =
     (if \<not> ne_verify_proof E t then Err RpcInvalidProof
      else bind_o (map_err RpcNode committed) (\<lambda>b.
           Ok \<lparr>sr_height = block_height b, sr_root_hash = block_root b, sr_txn_hash = proof_hash (ne_poseidon E) t\<rparr>))"

end
