(* ===== verification/Node_Rpc_Props.thy ===== *)
theory Node_Rpc_Props
  imports Node_Rpc Prover_Worker_Demo
begin

text \<open>
  Correctness of the listing of transactions: on every node that has run, the pages a client gets by
  following the \<open>after\<close> cursors tile the transactions of the committed chain, in either order. The
  \<open>before\<close> cursors lose transactions.
\<close>

section \<open>Lists of lists\<close>

lemma concat_position:
  "k < length (concat xss) \<Longrightarrow> \<exists>pre xs post i. xss = pre @ xs # post \<and> i < length xs \<and> k = length (concat pre) + i"
proof (induction xss arbitrary: k)
  case (Cons ys yss)
  show ?case
  proof (cases "k < length ys")
    case True
    then show ?thesis by (intro exI [of _ "[]"] exI [of _ ys] exI [of _ yss] exI [of _ k]) simp
  next
    case False
    then have "k - length ys < length (concat yss)" using Cons.prems by simp
    from Cons.IH [OF this] obtain pre xs post i where
      *: "yss = pre @ xs # post" "i < length xs" "k - length ys = length (concat pre) + i" by blast
    then show ?thesis using False
      by (intro exI [of _ "ys # pre"] exI [of _ xs] exI [of _ post] exI [of _ i]) simp
  qed
qed simp

lemma take_concat_take: "[] \<notin> set xss \<Longrightarrow> n \<le> m \<Longrightarrow> take n (concat (take m xss)) = take n (concat xss)"
proof (induction xss arbitrary: n m)
  case (Cons xs xss)
  show ?case
  proof (cases m)
    case (Suc m')
    have "0 < length xs" using Cons.prems(1) by (cases xs) auto
    then have "n - length xs \<le> m'" using Cons.prems(2) Suc by linarith
    then show ?thesis using Cons.IH Cons.prems(1) by (simp add: Suc)
  qed (use Cons.prems(2) in simp)
qed simp

lemma filter_after_index:
  assumes "\<And>j. j < length xs \<Longrightarrow> P (xs ! j) \<longleftrightarrow> i < j"
  shows "filter P xs = drop (Suc i) xs"
proof -
  have "filter P (take (Suc i) xs) = []"
    using assms by (fastforce simp: filter_empty_conv in_set_conv_nth)
  moreover have "filter P (drop (Suc i) xs) = drop (Suc i) xs"
    using assms by (intro filter_True) (fastforce simp: in_set_conv_nth)
  ultimately show ?thesis by (metis append_Nil append_take_drop_id filter_append)
qed

text \<open>
  The page that starts inside a group: enough groups are fetched, and what precedes the start is
  dropped from the first of them.
\<close>

lemma page_of_groups:
  assumes "[] \<notin> g ` set (x # post)" and "i < length (g x)"
    and "filter P (g x) = drop (Suc i) (g x)" and "\<And>y. y \<in> set post \<Longrightarrow> filter P (g y) = g y"
  shows "take n (filter P (concat (map g (take (Suc n) (x # post))))) =
     take n (drop (Suc (length (concat (map g pre)) + i)) (concat (map g (pre @ x # post))))"
proof -
  have "filter P (concat (map g (take n post))) = concat (map g (take n post))"
    using assms(4) by (force simp: filter_concat dest: in_set_takeD intro!: arg_cong [of _ _ concat])
  then have "take n (filter P (concat (map g (take (Suc n) (x # post))))) =
      take n (drop (Suc i) (g x) @ concat (take n (map g post)))"
    using assms(3) by (simp add: take_map)
  also have "\<dots> = take n (drop (Suc i) (g x) @ concat (map g post))"
    using take_concat_take [of "map g post" "n - length (drop (Suc i) (g x))" n] assms(1)
    by (simp only: take_append) simp
  also have "drop (Suc i) (g x) @ concat (map g post) =
      drop (Suc (length (concat (map g pre)) + i)) (concat (map g (pre @ x # post)))"
    using assms(2) by simp
  finally show ?thesis .
qed

lemma filter_from:
  assumes "sorted_wrt R (map fst (pre @ e # post))" and "\<And>x y. R x y \<Longrightarrow> Q x y" and "\<And>x. Q x x"
    and "\<And>x y. R x y \<Longrightarrow> \<not> Q y x"
  shows "filter (\<lambda>(h, _). Q (fst e) h) (pre @ e # post) = e # post"
proof -
  have "filter (\<lambda>(h, _). Q (fst e) h) pre = []"
    using assms(1,4) by (fastforce simp: filter_empty_conv sorted_wrt_append)
  moreover have "filter (\<lambda>(h, _). Q (fst e) h) post = post"
    using assms(1,2) by (intro filter_True) (fastforce simp: sorted_wrt_append)
  ultimately show ?thesis using assms(3) by (simp add: case_prod_beta')
qed

lemma sorted_key_unique:
  fixes key :: "'a \<Rightarrow> 'k::linorder"
  assumes "sorted_wrt (<) (map key xs)" and "sorted_wrt (<) (map key ys)" and "set xs = set ys"
  shows "xs = ys"
proof -
  have "map key xs = map key ys" using assms by (intro strict_sorted_equal) auto
  moreover have "inj_on key (set xs)"
    using assms(1) strict_sorted_iff distinct_map by blast
  ultimately show ?thesis using assms(3) by (metis map_inj_on sup.idem)
qed

section \<open>The non-empty blocks of a node\<close>

lemma fetch_non_empty:
  assumes "store_inv (node_trait E) (ns_store s)"
  shows "fetch_blocks_non_empty_paginated s cursor order limit =
     Ok (map (\<lambda>e. Ok (snd e)) (page (height_entries 6 (ns_store s)) cursor order limit))"
proof -
  have hk: "height_key KNonEmptyBlock 6" by (simp add: height_key_def)
  have "select_key select_non_empty (KNonEmptyBlock h, b) = Ok (h, b)" for h and b :: block_format
    by (simp add: select_key_def)
  then show ?thesis
    unfolding fetch_blocks_non_empty_paginated_def list_non_empty_paginated_def key_list_paginated_spec [OF hk assms]
    by (simp add: case_prod_beta' comp_def)
qed

text \<open>The index of non-empty blocks holds the blocks of the chain that have transactions.\<close>

lemma chain_sorted:
  assumes "chain_ok bs"
  shows "sorted_wrt (<) (map block_height bs)"
  using assms by (auto simp: chain_ok_def sorted_wrt_iff_nth_less word_less_nat_alt)

lemma non_empty_mem:
  assumes "chain_ok bs" and "length bs < 2 ^ 64"
  shows "non_empty_at bs k = Some b \<longleftrightarrow> b \<in> set bs \<and> block_txns b \<noteq> [] \<and> block_height b = k"
proof -
  have h: "unat (block_height (bs ! i)) = Suc i" if "i < length bs" for i
    using assms(1) that by (simp add: chain_ok_def)
  have "chain_at bs k = Some b \<longleftrightarrow> b \<in> set bs \<and> block_height b = k"
  proof
    assume "chain_at bs k = Some b"
    then have k: "0 < unat k" "unat k \<le> length bs" "b = bs ! (unat k - 1)"
      by (auto simp: chain_at_def unat_gt_0 word_neq_0_conv split: if_splits)
    then have "unat (block_height b) = unat k" using h [of "unat k - 1"] by simp
    then show "b \<in> set bs \<and> block_height b = k" using k by (simp add: word_unat_eq_iff)
  next
    assume b: "b \<in> set bs \<and> block_height b = k"
    then obtain i where i: "i < length bs" "b = bs ! i" by (auto simp: in_set_conv_nth)
    then have k: "unat k = Suc i" using b h by auto
    then have "0 < k" by (metis unat_gt_0 word_neq_0_conv zero_less_Suc)
    then show "chain_at bs k = Some b" using i k by (simp add: chain_at_def)
  qed
  then show ?thesis by (auto simp: non_empty_at_def split: option.splits if_splits)
qed

lemma entry_block:
  assumes "store_inv (node_trait E) db" and "e \<in> set (height_entries 6 db)"
  shows "block_height (into_block (snd e)) = fst e"
  using height_entries_stored [of KNonEmptyBlock 6 "node_trait E" db "fst e" "snd e"] assms
    store_inv_matches [OF assms(1), of "KNonEmptyBlock (fst e)" "VBlock (snd e)"]
  by (simp add: node_trait_def height_key_def)

lemma non_empty_blocks:
  assumes c: "store_chain E db bs" and ok: "chain_ok bs" and len: "length bs < 2 ^ 64"
  shows "map (\<lambda>e. into_block (snd e)) (height_entries 6 db) = filter (\<lambda>b. block_txns b \<noteq> []) bs"
proof (rule sorted_key_unique [of block_height])
  have hk: "height_key KNonEmptyBlock 6" by (simp add: height_key_def)
  have inv: "store_inv (node_trait E) db" using c by (simp add: store_chain_def)
  have mem: "(h, f) \<in> set (height_entries 6 db) \<longleftrightarrow> stored db (KNonEmptyBlock h) = Some (VBlock f)" for h f
    by (rule height_entries_stored [OF hk inv])
  have "map block_height (map (\<lambda>e. into_block (snd e)) (height_entries 6 db)) = map fst (height_entries 6 db)"
    using entry_block [OF inv] by simp
  then show "sorted_wrt (<) (map block_height (map (\<lambda>e. into_block (snd e)) (height_entries 6 db)))"
    using height_entries_sorted [OF hk inv] by (simp only:)
  show "sorted_wrt (<) (map block_height (filter (\<lambda>b. block_txns b \<noteq> []) bs))"
    using chain_sorted [OF ok] by (simp add: sorted_wrt_map sorted_wrt_filter)
  have "b \<in> (\<lambda>e. into_block (snd e)) ` set (height_entries 6 db) \<longleftrightarrow> (\<exists>k. non_empty_at bs k = Some b)" for b
  proof -
    have st: "\<exists>f. stored db (KNonEmptyBlock k) = map_option VBlock f \<and> map_option into_block f = non_empty_at bs k" for k
      using c unfolding store_chain_def by blast
    have "(\<exists>f. (k, f) \<in> set (height_entries 6 db) \<and> b = into_block f) \<longleftrightarrow> non_empty_at bs k = Some b" for k
    proof -
      obtain f where "stored db (KNonEmptyBlock k) = map_option VBlock f" "map_option into_block f = non_empty_at bs k"
        using st [of k] by blast
      then show ?thesis by (cases f) (auto simp: mem)
    qed
    then show ?thesis by (force simp: image_iff)
  qed
  then show "set (map (\<lambda>e. into_block (snd e)) (height_entries 6 db)) = set (filter (\<lambda>b. block_txns b \<noteq> []) bs)"
    using non_empty_mem [OF ok len] by auto
qed

section \<open>The items of a page\<close>

definition stamp :: "u64 \<Rightarrow> u64 \<Rightarrow> block_format \<Rightarrow> u64" where
  "stamp now max_height f = (let h = block_height (into_block f) in
     case format_metadata f of Some t \<Rightarrow> t | None \<Rightarrow> now - (if max_height < h then 0 else max_height - h))"

definition txn_infos :: "node_env \<Rightarrow> u64 \<Rightarrow> u64 \<Rightarrow> block_format \<Rightarrow> txn_with_info list" where
  "txn_infos E now max_height f = map (\<lambda>(i, txn).
     \<lparr>ti_proof = txn, ti_index_in_block = of_nat i, ti_hash = proof_hash (ne_poseidon E) txn,
      ti_block_height = block_height (into_block f), ti_time = stamp now max_height f\<rparr>)
     (enumerate 0 (block_txns (into_block f)))"

lemma block_items_ok:
  assumes "max_height \<le> now"
  shows "block_items E now max_height (Ok f) = map Ok (txn_infos E now max_height f)"
proof -
  let ?h = "block_height (into_block f)"
  have "\<not> now < (if max_height < ?h then 0 else max_height - ?h)"
    using assms by (auto simp: word_less_nat_alt word_le_nat_alt unat_sub_if')
  then have "block_time now max_height f = Ok (stamp now max_height f)"
    by (simp add: block_time_def estimate_block_time_def stamp_def Let_def split: option.splits)
  then show ?thesis by (simp add: block_items_def txn_info_def txn_infos_def case_prod_beta' comp_def)
qed

abbreviation info_pos :: "txn_with_info \<Rightarrow> list_txns_position" where
  "info_pos t \<equiv> \<lparr>lp_block = ti_block_height t, lp_txn = ti_index_in_block t\<rparr>"

lemma txn_infos_simps:
  "length (txn_infos E now mh f) = length (block_txns (into_block f))"
  "t \<in> set (txn_infos E now mh f) \<Longrightarrow> ti_block_height t = block_height (into_block f)"
  "j < length (block_txns (into_block f)) \<Longrightarrow> ti_index_in_block (txn_infos E now mh f ! j) = of_nat j"
  "j < length (block_txns (into_block f)) \<Longrightarrow> ti_block_height (txn_infos E now mh f ! j) = block_height (into_block f)"
  by (auto simp: txn_infos_def nth_enumerate_eq)

lemma txn_infos_Nil: "[] = txn_infos E now mh f \<longleftrightarrow> block_txns (into_block f) = []"
  by (auto simp: txn_infos_def enumerate_eq_zip)

text \<open>What \<open>txns_to_skip\<close> leaves of the block of the cursor, and of the other blocks.\<close>

lemma skip_same_block:
  assumes "length (block_txns (into_block f)) < 2 ^ 64" and "i < length (block_txns (into_block f))"
    and "choice_inner c = info_pos (txn_infos E now mh f ! i)"
  shows "filter (\<lambda>t. \<not> txn_skipped (Some c) (Ok t)) (txn_infos E now mh f) = drop (Suc i) (txn_infos E now mh f)"
proof (rule filter_after_index)
  fix j assume "j < length (txn_infos E now mh f)"
  then have j: "j < length (block_txns (into_block f))" by (simp add: txn_infos_simps)
  then have "(of_nat j :: u64) \<le> of_nat i \<longleftrightarrow> j \<le> i"
    using assms(1,2) by (simp add: word_le_nat_alt unat_of_nat take_bit_nat_eq_self)
  then show "\<not> txn_skipped (Some c) (Ok (txn_infos E now mh f ! j)) \<longleftrightarrow> i < j"
    using j assms(2,3) by (auto simp: txn_skipped_def txn_infos_simps)
qed

lemma skip_other_block:
  assumes "block_height (into_block f) \<noteq> lp_block (choice_inner c)"
  shows "filter (\<lambda>t. \<not> txn_skipped (Some c) (Ok t)) (txn_infos E now mh f) = txn_infos E now mh f"
  using assms by (intro filter_True) (auto simp: txn_skipped_def txn_infos_simps)

lemma paginate_Ok:
  "cu_after (fold (paginator_next txn_pos) (map Ok ts) c) =
     (if ts = [] then cu_after c else Some (After (info_pos (last ts))))"
  by (induction ts arbitrary: c) (simp_all add: paginator_next_def txn_pos_def)

text \<open>The answer as a function of the blocks that were fetched.\<close>

lemma list_txns_inner_ok:
  assumes "store_inv (node_trait E) (ns_store s)" and "max_height \<le> now"
  defines "txns \<equiv> \<lambda>n cursor order. take (min n 100) (filter (\<lambda>t. \<not> txn_skipped cursor (Ok t))
     (concat (map (\<lambda>e. txn_infos E now max_height (snd e)) (page (height_entries 6 (ns_store s))
       (map_option (choice_map_pos lp_block) cursor) (to_block_list_order order) (Suc (min n 100))))))"
  shows "\<exists>c. list_txns_inner E now s \<lparr>lq_limit = Some n, lq_cursor = cursor, lq_order = order, lq_poll = poll\<rparr> max_height =
       Ok (c, txns n cursor order) \<and>
     cu_after c = (if txns n cursor order = [] then None else Some (AfterInclusive (info_pos (last (txns n cursor order)))))"
proof -
  let ?es = "page (height_entries 6 (ns_store s)) (map_option (choice_map_pos lp_block) cursor)
    (to_block_list_order order) (Suc (min n 100))"
  have "concat (map (block_items E now max_height) (map (\<lambda>e. Ok (snd e)) ?es)) =
      map Ok (concat (map (\<lambda>e. txn_infos E now max_height (snd e)) ?es))"
    by (simp add: block_items_ok [OF assms(2)] map_concat comp_def)
  then have "take (min n 100) (filter (\<lambda>r. \<not> txn_skipped cursor r)
      (concat (map (block_items E now max_height) (map (\<lambda>e. Ok (snd e)) ?es)))) = map Ok (txns n cursor order)"
    by (simp only: txns_def filter_map take_map comp_def)
  then show ?thesis
    unfolding list_txns_inner_def
    by (simp add: fetch_non_empty [OF assms(1)] Let_def paginate_def paginate_Ok del: map_map)
qed

lemma page_from:
  assumes "sorted_wrt (<) (map fst es)" and "(if is_indexed_order order then es else rev es) = pre @ e # post"
  shows "page es (Some (CursorAfter (AfterInclusive (fst e)))) order limit = take limit (e # post)"
proof (cases order)
  case LowestToHighest
  then show ?thesis using filter_from [of "(<)" pre e post "(\<le>)"] assms by (simp add: page_def beyond_def)
next
  case HighestToLowest
  have "sorted_wrt (>) (map fst (rev es))" using assms(1) by (simp add: rev_map [symmetric] sorted_wrt_rev)
  then show ?thesis
    using filter_from [of "(>)" pre e post "(\<ge>)"] assms HighestToLowest by (simp add: page_def beyond_def)
qed

text \<open>The cursor of a client that has read the first \<open>k\<close> transactions of a listing.\<close>

definition read_cursor :: "txn_with_info list \<Rightarrow> nat \<Rightarrow> list_txns_position cursor_choice option" where
  "read_cursor listing k = (if k = 0 then None else Some (CursorAfter (AfterInclusive (info_pos (listing ! (k - 1))))))"

lemma groups_page:
  fixes es :: "(u64 \<times> block_format) list" and order :: block_list_order and E :: node_env and now mh :: u64
  assumes sorted: "sorted_wrt (<) (map fst es)"
    and all: "\<forall>e \<in> set es. block_height (into_block (snd e)) = fst e \<and> block_txns (into_block (snd e)) \<noteq> [] \<and>
      length (block_txns (into_block (snd e))) < 2 ^ 64"
  defines "g \<equiv> \<lambda>e. txn_infos E now mh (snd e)"
  defines "listed \<equiv> if is_indexed_order order then es else rev es"
  assumes k: "k \<le> length (concat (map g listed))"
  defines "cursor \<equiv> read_cursor (concat (map g listed)) k"
  shows "take n (filter (\<lambda>t. \<not> txn_skipped cursor (Ok t))
      (concat (map g (page es (map_option (choice_map_pos lp_block) cursor) order (Suc n))))) =
    take n (drop k (concat (map g listed)))"
proof (cases "k = 0")
  case True
  note blocks = bspec [OF all]
  have "[] \<notin> set (map g listed)"
    using blocks by (auto simp: g_def listed_def txn_infos_Nil split: if_splits)
  from take_concat_take [OF this, of n "Suc n"]
  have "take n (concat (map g (take (Suc n) listed))) = take n (concat (map g listed))" by (simp add: take_map)
  moreover have "cursor = None" by (simp add: cursor_def read_cursor_def True)
  moreover have "page es None order (Suc n) = take (Suc n) listed" by (simp add: page_def listed_def)
  moreover have "txn_skipped None r = False" for r by (simp add: txn_skipped_def)
  ultimately show ?thesis using True by simp
next
  case False
  note blocks = bspec [OF all]
  from False have "k - 1 < length (concat (map g listed))" using k by simp
  from concat_position [OF this] obtain pre' xs post' i where
    split: "map g listed = pre' @ xs # post'" "i < length xs" "k - 1 = length (concat pre') + i" by blast
  then obtain pre e post where l: "listed = pre @ e # post" "pre' = map g pre" "xs = g e" "post' = map g post"
    by (auto simp: map_eq_append_conv map_eq_Cons_conv)
  have at: "concat (map g listed) ! (k - 1) = g e ! i" using split(2,3) by (simp add: l nth_append)
  have es: "set es = set (pre @ e # post)" using l(1) by (metis listed_def set_rev)
  have i: "i < length (block_txns (into_block (snd e)))" using split(2) by (simp add: l(3) g_def txn_infos_simps)
  have c: "cursor = Some (CursorAfter (AfterInclusive (info_pos (g e ! i))))"
    using False at by (simp add: cursor_def read_cursor_def)
  have he: "ti_block_height (g e ! i) = fst e" using i blocks [of e] es by (simp add: g_def txn_infos_simps)
  have "g y \<noteq> []" if "y \<in> set es" for y
    using blocks [OF that] txn_infos_Nil [of E now mh "snd y"] by (auto simp: g_def)
  then have ne: "[] \<notin> g ` set (e # post)" using es by (metis (no_types, lifting) Un_iff imageE set_append)
  have "distinct (map fst listed)"
    using sorted strict_sorted_iff [of "map fst es"] by (auto simp: listed_def rev_map [symmetric])
  then have "filter (\<lambda>t. \<not> txn_skipped cursor (Ok t)) (g y) = g y" if "y \<in> set post" for y
    unfolding c g_def using that blocks [of y] es he
    by (intro skip_other_block) (auto simp: l(1) g_def image_iff)
  moreover have "filter (\<lambda>t. \<not> txn_skipped cursor (Ok t)) (g e) = drop (Suc i) (g e)"
    unfolding c g_def using i blocks [of e] es by (intro skip_same_block) (auto simp: g_def)
  moreover have "page es (map_option (choice_map_pos lp_block) cursor) order (Suc n) = take (Suc n) (e # post)"
    using page_from [OF sorted, of order pre e post] l(1) he by (simp add: c listed_def)
  moreover have "k = Suc (length (concat (map g pre)) + i)" using False split(3) l(2) by simp
  ultimately show ?thesis
    using page_of_groups [OF ne, of i "\<lambda>t. \<not> txn_skipped cursor (Ok t)" n pre] split(2) l(1,3) by simp
qed

section \<open>Pages over the chain of a node\<close>

definition block_places :: "block \<Rightarrow> (utxo_proof \<times> u64 \<times> u64) list" where
  "block_places b = map (\<lambda>(i, txn). (txn, block_height b, of_nat i)) (enumerate 0 (block_txns b))"

text \<open>The transactions of a chain with their places, the newest block first or the oldest.\<close>

definition chain_places :: "list_txn_order \<Rightarrow> block list \<Rightarrow> (utxo_proof \<times> u64 \<times> u64) list" where
  "chain_places order bs = concat (map block_places (if order = OldestToNewest then bs else rev bs))"

abbreviation txn_place :: "txn_with_info \<Rightarrow> utxo_proof \<times> u64 \<times> u64" where
  "txn_place t \<equiv> (ti_proof t, ti_block_height t, ti_index_in_block t)"

lemma infos_places: "map txn_place (txn_infos E now mh f) = block_places (into_block f)"
  by (simp add: txn_infos_def block_places_def case_prod_beta' comp_def)

lemma places_non_empty: "concat (map block_places (filter (\<lambda>b. block_txns b \<noteq> []) bs)) = concat (map block_places bs)"
  by (induction bs) (simp_all add: block_places_def)

lemma listing_places:
  fixes es :: "(u64 \<times> block_format) list"
  assumes "map (\<lambda>e. into_block (snd e)) es = filter (\<lambda>b. block_txns b \<noteq> []) bs"
  shows "map txn_place (concat (map (\<lambda>e. txn_infos E now mh (snd e))
     (if is_indexed_order (to_block_list_order order) then es else rev es))) = chain_places order bs"
proof -
  have *: "map txn_place (concat (map (\<lambda>e. txn_infos E now mh (snd e)) xs)) =
      concat (map block_places (map (\<lambda>e. into_block (snd e)) xs))" for xs :: "(u64 \<times> block_format) list"
    by (simp add: map_concat infos_places comp_def)
  have "filter (\<lambda>b. block_txns b \<noteq> []) (rev bs) = map (\<lambda>e. into_block (snd e)) (rev es)"
    using assms by (simp flip: rev_filter rev_map)
  then show ?thesis
    unfolding * chain_places_def using assms places_non_empty [of bs] places_non_empty [of "rev bs"]
    by (cases order) (simp_all only: * to_block_list_order.simps is_indexed_order.simps list_txn_order.simps simp_thms if_True if_False)
qed

lemma stretch_cursor:
  assumes "cu_after c = (if stretch = [] then None else Some (AfterInclusive (info_pos (last stretch))))"
    and "stretch = take m (drop k listing)"
  shows "map_option CursorAfter (cu_after c) = (if stretch = [] then None else read_cursor listing (k + length stretch))"
proof (cases "stretch = []")
  case False
  then have "last stretch = listing ! (k + length stretch - 1)"
    using assms(2) by (simp add: last_conv_nth min_def split: if_splits)
  then show ?thesis using False assms(1) by (simp add: read_cursor_def)
qed (use assms(1) in simp)

text \<open>
  C28. A client that reads the transactions of a node with \<open>list_txns\<close> and follows the \<open>after\<close> cursors gets
  every transaction of the committed chain exactly once: for either order there is one listing, the
  transactions of the chain with their heights and places in their blocks, such that with any limit the
  answer after the first \<open>k\<close> transactions is the next stretch of it, up to 100 transactions, and the
  cursor of the answer is the one after that stretch.
\<close>

theorem txn_pages_tile:
  assumes "node_setup E cf U" and "node_run E cf U s" and "node_chain s bs"
    and "max_height \<le> now" and "\<forall>b \<in> set bs. length (block_txns b) < 2 ^ 64"
  shows "\<exists>listing. map txn_place listing = chain_places order bs \<and>
     (\<forall>k n poll. k \<le> length listing \<longrightarrow>
       (let stretch = take (min n 100) (drop k listing) in
        \<exists>c. list_txns_inner E now s
              \<lparr>lq_limit = Some n, lq_cursor = read_cursor listing k, lq_order = order, lq_poll = poll\<rparr> max_height = Ok (c, stretch) \<and>
            map_option CursorAfter (cu_after c) = (if stretch = [] then None else read_cursor listing (k + length stretch))))"
proof -
  let ?es = "height_entries 6 (ns_store s)" and ?order = "to_block_list_order order"
  let ?g = "\<lambda>e. txn_infos E now max_height (snd e)"
  let ?L = "concat (map ?g (if is_indexed_order ?order then ?es else rev ?es))"
  have hk: "height_key KNonEmptyBlock 6" by (simp add: height_key_def)
  have l: "chain_ok bs" "store_chain E (ns_store s) bs" "length bs < 2 ^ 64"
    using node_chain_ledger [OF assms(1-3)] assms(3) by (simp_all add: ledger_def node_chain_def)
  have inv: "store_inv (node_trait E) (ns_store s)" using l(2) by (simp add: store_chain_def)
  note ne = non_empty_blocks [OF l(2,1,3)]
  have "block_height (into_block (snd e)) = fst e \<and> block_txns (into_block (snd e)) \<noteq> [] \<and>
      length (block_txns (into_block (snd e))) < 2 ^ 64" if "e \<in> set ?es" for e
    using entry_block [OF inv that] arg_cong [OF ne, of set] that assms(5) by auto
  then have blocks: "\<forall>e \<in> set ?es. block_height (into_block (snd e)) = fst e \<and> block_txns (into_block (snd e)) \<noteq> [] \<and>
      length (block_txns (into_block (snd e))) < 2 ^ 64" by blast
  have "map txn_place ?L = chain_places order bs" by (rule listing_places [OF ne])
  moreover have "\<exists>c. list_txns_inner E now s
        \<lparr>lq_limit = Some n, lq_cursor = read_cursor ?L k, lq_order = order, lq_poll = poll\<rparr> max_height =
          Ok (c, take (min n 100) (drop k ?L)) \<and>
      map_option CursorAfter (cu_after c) = (if take (min n 100) (drop k ?L) = [] then None
        else read_cursor ?L (k + length (take (min n 100) (drop k ?L))))" if k: "k \<le> length ?L" for k n poll
  proof -
    let ?st = "take (min n 100) (drop k ?L)"
    obtain c where "list_txns_inner E now s
        \<lparr>lq_limit = Some n, lq_cursor = read_cursor ?L k, lq_order = order, lq_poll = poll\<rparr> max_height = Ok (c, ?st)"
      "cu_after c = (if ?st = [] then None else Some (AfterInclusive (info_pos (last ?st))))"
      using list_txns_inner_ok [OF inv assms(4), of n "read_cursor ?L k" order poll]
      unfolding groups_page [OF height_entries_sorted [OF hk inv] blocks k] by blast
    then show ?thesis using stretch_cursor [OF _ refl] by blast
  qed
  ultimately show ?thesis unfolding Let_def by blast
qed

theorem txn_pages_tile_witness:
  "\<exists>s listing c. node_run seven_env demo_node_config demo_U s \<and> node_chain s seven_chain \<and>
     map txn_place listing = [(idle_txn, 1, 0)] \<and>
     list_txns_inner seven_env 5 s \<lparr>lq_limit = Some 4, lq_cursor = None, lq_order = OldestToNewest, lq_poll = False\<rparr> 2 =
       Ok (c, listing)"
proof -
  obtain s where s: "node_run seven_env demo_node_config demo_U s" "node_chain s seven_chain" using seven_node by blast
  have len: "\<forall>b \<in> set seven_chain. length (block_txns b) < 2 ^ 64" by (simp add: seven_chain_def demo_chain_block_def)
  have places: "chain_places OldestToNewest seven_chain = [(idle_txn, 1, 0)]"
    by (simp add: chain_places_def block_places_def seven_chain_def demo_chain_block_def)
  have "(2 :: u64) \<le> 5" by simp
  from txn_pages_tile [OF seven_setup s this len, of OldestToNewest]
  obtain listing where l: "map txn_place listing = [(idle_txn, 1, 0)] \<and>
     (\<forall>k n poll. k \<le> length listing \<longrightarrow>
       (let stretch = take (min n 100) (drop k listing) in
        \<exists>c. list_txns_inner seven_env 5 s
              \<lparr>lq_limit = Some n, lq_cursor = read_cursor listing k, lq_order = OldestToNewest, lq_poll = poll\<rparr> 2 = Ok (c, stretch) \<and>
            map_option CursorAfter (cu_after c) = (if stretch = [] then None else read_cursor listing (k + length stretch))))"
    unfolding places ..
  note place = conjunct1 [OF l] and page = conjunct2 [OF l, rule_format, of 0 4 False, unfolded Let_def]
  have "length listing = 1" using arg_cong [OF place, of length] by simp
  then have "take (min 4 100) (drop 0 listing) = listing" by simp
  then obtain c where "list_txns_inner seven_env 5 s
      \<lparr>lq_limit = Some 4, lq_cursor = None, lq_order = OldestToNewest, lq_poll = False\<rparr> 2 = Ok (c, listing)"
    using page by (auto simp: read_cursor_def)
  with s place show ?thesis by (intro exI conjI)
qed

section \<open>Going back\<close>

lemma collect_results_Ok_iff: "collect_results rs = Ok xs \<longleftrightarrow> rs = map Ok xs"
proof (induction rs arbitrary: xs)
  case (Cons r rs)
  then show ?case by (cases r; cases xs) (auto simp: bind_o_Ok_iff)
qed auto

text \<open>
  Asked for the transactions before one of a block, the node leaves out the earlier transactions of that
  block, and the later ones stay: the range it skips is the one for going forward.
\<close>

lemma before_page_loses:
  assumes "list_txns_inner E now s q max_height = Ok (c, txns)" and "lq_cursor q = Some (CursorBefore before)"
    and "t \<in> set txns" and "ti_block_height t = lp_block (before_inner before)"
  shows "lp_txn (before_inner before) < ti_index_in_block t"
proof -
  obtain n blocks where page: "take n (filter (\<lambda>r. \<not> txn_skipped (lq_cursor q) r)
      (concat (map (block_items E now max_height) blocks))) = map Ok txns"
    using assms(1) by (auto simp: list_txns_inner_def Let_def paginate_def bind_o_Ok_iff collect_results_Ok_iff)
  have "Ok t \<in> set (map Ok txns :: (txn_with_info, rpc_error) outcome list)" using assms(3) by simp
  then have "\<not> txn_skipped (lq_cursor q) (Ok t)" unfolding page [symmetric] by (auto dest!: in_set_takeD)
  then show ?thesis using assms(2,4) by (auto simp: txn_skipped_def)
qed

section \<open>Going forward\<close>

text \<open>A page read forward is in the order of the chain, and all of it lies after the cursor.\<close>

definition pos_less :: "list_txns_position \<Rightarrow> list_txns_position \<Rightarrow> bool" where
  "pos_less p q \<longleftrightarrow> lp_block p < lp_block q \<or> lp_block p = lp_block q \<and> lp_txn p < lp_txn q"

lemma pos_less_trans: "pos_less p q \<Longrightarrow> pos_less q r \<Longrightarrow> pos_less p r"
  by (auto simp: pos_less_def)

lemma sorted_wrt_concat:
  "\<forall>xs \<in> set xss. sorted_wrt R xs \<Longrightarrow> sorted_wrt (\<lambda>xs ys. \<forall>x \<in> set xs. \<forall>y \<in> set ys. R x y) xss \<Longrightarrow>
     sorted_wrt R (concat xss)"
  by (induction xss) (auto simp: sorted_wrt_append)

lemma infos_sorted:
  assumes "length (block_txns (into_block f)) < 2 ^ 64"
  shows "sorted_wrt (\<lambda>t u. pos_less (info_pos t) (info_pos u)) (txn_infos E now mh f)"
  using assms by (auto simp: sorted_wrt_iff_nth_less txn_infos_simps pos_less_def word_less_nat_alt unat_of_nat take_bit_nat_eq_self)

lemma forward_page:
  assumes inv: "store_inv (node_trait E) (ns_store s)" and now: "max_height \<le> now"
    and len: "\<forall>e \<in> set (height_entries 6 (ns_store s)). length (block_txns (into_block (snd e))) < 2 ^ 64"
    and res: "list_txns_inner E now s \<lparr>lq_limit = Some n, lq_cursor = Some (CursorAfter a), lq_order = OldestToNewest, lq_poll = poll\<rparr>
      max_height = Ok (c, ts)"
  shows "sorted_wrt (\<lambda>t u. pos_less (info_pos t) (info_pos u)) ts" and "t \<in> set ts \<Longrightarrow> pos_less (after_inner a) (info_pos t)"
    and "cu_after c = (if ts = [] then None else Some (AfterInclusive (info_pos (last ts))))"
proof -
  let ?es = "height_entries 6 (ns_store s)" and ?g = "\<lambda>e. txn_infos E now max_height (snd e)"
  let ?page = "page ?es (Some (CursorAfter (after_map_pos lp_block a))) LowestToHighest (Suc (min n 100))"
  let ?skip = "txn_skipped (Some (CursorAfter a))"
  have ts: "ts = take (min n 100) (filter (\<lambda>t. \<not> ?skip (Ok t)) (concat (map ?g ?page)))"
    and "cu_after c = (if ts = [] then None else Some (AfterInclusive (info_pos (last ts))))"
    using list_txns_inner_ok [OF inv now, of n "Some (CursorAfter a)" OldestToNewest poll] res by auto
  then show "cu_after c = (if ts = [] then None else Some (AfterInclusive (info_pos (last ts))))" by blast
  have page: "?page = take (Suc (min n 100)) (filter (\<lambda>(h, _). in_lower (after_to_bound (after_map_pos lp_block a)) h) ?es)"
    by (simp add: page_def beyond_def)
  have mem: "e \<in> set ?es \<and> in_lower (after_to_bound (after_map_pos lp_block a)) (fst e)" if "e \<in> set ?page" for e
    using that unfolding page by (auto dest!: in_set_takeD)
  have height: "ti_block_height u = fst e" if "e \<in> set ?page" "u \<in> set (?g e)" for e u
    using entry_block [OF inv] mem [OF that(1)] that(2) by (simp add: txn_infos_simps)
  have "sorted_wrt (\<lambda>e e'. fst e < fst e') ?es"
    using height_entries_sorted [of KNonEmptyBlock 6, OF _ inv] by (simp add: height_key_def sorted_wrt_map)
  then have "sorted_wrt (\<lambda>e e'. fst e < fst e') ?page"
    unfolding page by (intro sorted_wrt_take sorted_wrt_filter)
  then have "sorted_wrt (\<lambda>e e'. \<forall>x \<in> set (?g e). \<forall>y \<in> set (?g e'). pos_less (info_pos x) (info_pos y)) ?page"
    by (rule sorted_wrt_mono_rel [rotated]) (use height in \<open>auto simp: pos_less_def\<close>)
  moreover have "\<forall>e \<in> set ?page. sorted_wrt (\<lambda>t u. pos_less (info_pos t) (info_pos u)) (?g e)"
    using mem len infos_sorted by blast
  ultimately have "sorted_wrt (\<lambda>t u. pos_less (info_pos t) (info_pos u)) (concat (map ?g ?page))"
    by (intro sorted_wrt_concat) (auto simp: sorted_wrt_map)
  then show "sorted_wrt (\<lambda>t u. pos_less (info_pos t) (info_pos u)) ts"
    unfolding ts by (intro sorted_wrt_take sorted_wrt_filter)
  assume "t \<in> set ts"
  then obtain e where e: "e \<in> set ?page" "t \<in> set (?g e)" "\<not> ?skip (Ok t)"
    unfolding ts by (auto dest!: in_set_takeD)
  have "in_lower (after_to_bound (after_map_pos lp_block a)) (ti_block_height t)"
    using mem [OF e(1)] height [OF e(1,2)] by simp
  then show "pos_less (after_inner a) (info_pos t)"
    using e(3) by (cases a) (auto simp: pos_less_def txn_skipped_def)
qed

lemma default_limit:
  "list_txns_inner E now s \<lparr>lq_limit = None, lq_cursor = cursor, lq_order = order, lq_poll = poll\<rparr> max_height =
   list_txns_inner E now s \<lparr>lq_limit = Some 10, lq_cursor = cursor, lq_order = order, lq_poll = poll\<rparr> max_height"
  by (simp add: list_txns_inner_def)

end
