(* ===== verification/Atomiq.thy ===== *)
theory Atomiq
  imports Node_Block "HOL-Library.Word"
begin

text \<open>
  The escrow record of the swap service (\<open>atomiq/src/lib.rs\<close>) in the encoding of the Ethereum ABI: what
  is encoded is read back, with or without a function selector in front, and a record whose flags use
  bits above the sequence number stops the reader.
\<close>

unbundle bit_operations_syntax

type_synonym eth_u256 = "256 word"

section \<open>Flags\<close>

definition FLAG_PAY_OUT :: u64 where "FLAG_PAY_OUT = 0x01"
definition FLAG_PAY_IN :: u64 where "FLAG_PAY_IN = 0x02"
definition FLAG_REPUTATION :: u64 where "FLAG_REPUTATION = 0x04"

record flags =
  fl_pay_out :: bool
  fl_pay_in :: bool
  fl_reputation :: bool
  fl_sequence :: u64

datatype escrow_error = InsufficientData nat | AddressLength | U256Length | Bytes32Length

text \<open>\<open>as_u64\<close> panics on a value that does not fit.\<close>

definition as_u64 :: "eth_u256 \<Rightarrow> (u64, escrow_error) outcome" where
  "as_u64 v = (if v \<le> 0xFFFFFFFFFFFFFFFF then Ok (ucast v) else Panic)"

definition flags_from_u256 :: "eth_u256 \<Rightarrow> (flags, escrow_error) outcome" where
  "flags_from_u256 v =
     bind_o (as_u64 (drop_bit 64 v)) (\<lambda>sequence.
     bind_o (as_u64 (v AND 0xFFFFFFFFFFFFFFFF)) (\<lambda>lower_bits.
     Ok \<lparr>fl_pay_out = (lower_bits AND FLAG_PAY_OUT = FLAG_PAY_OUT),
          fl_pay_in = (lower_bits AND FLAG_PAY_IN = FLAG_PAY_IN),
          fl_reputation = (lower_bits AND FLAG_REPUTATION = FLAG_REPUTATION),
          fl_sequence = sequence\<rparr>))"

definition flags_to_u256 :: "flags \<Rightarrow> eth_u256" where
  "flags_to_u256 f =
     (let sequence_bits = push_bit 64 (ucast (fl_sequence f));
          flag_bits = ucast ((if fl_pay_out f then FLAG_PAY_OUT else 0) OR
            (if fl_pay_in f then FLAG_PAY_IN else 0) OR (if fl_reputation f then FLAG_REPUTATION else 0))
      in sequence_bits OR flag_bits)"

section \<open>The record\<close>

record escrow_data =
  es_offerer :: address
  es_claimer :: address
  es_amount :: eth_u256
  es_token :: address
  es_flags :: flags
  es_claim_handler :: address
  es_claim_data :: "u8 list"
  es_refund_handler :: address
  es_refund_data :: "u8 list"
  es_security_deposit :: eth_u256
  es_claimer_bounty :: eth_u256
  es_deposit_token :: address
  es_success_action_commitment :: "u8 list"

definition decode_abi_address :: "u8 list \<Rightarrow> (address, escrow_error) outcome" where
  "decode_abi_address bs = (if length bs \<noteq> 32 then Err AddressLength else Ok (take 20 (drop 12 bs)))"

definition decode_u256 :: "u8 list \<Rightarrow> (eth_u256, escrow_error) outcome" where
  "decode_u256 bs = (if length bs \<noteq> 32 then Err U256Length else Ok (from_be_bytes bs))"

definition decode_bytes32 :: "u8 list \<Rightarrow> (u8 list, escrow_error) outcome" where
  "decode_bytes32 bs = (if length bs \<noteq> 32 then Err Bytes32Length else Ok bs)"

definition encode_abi_address :: "address \<Rightarrow> u8 list" where
  "encode_abi_address a = replicate 12 0 @ a"

definition encode_u256 :: "eth_u256 \<Rightarrow> u8 list" where
  "encode_u256 v = to_be_bytes v"

text \<open>\<open>abi_field i\<close> is the slice \<open>data[offset..offset + 32]\<close> at the \<open>i\<close>-th offset.\<close>

definition abi_field :: "nat \<Rightarrow> u8 list \<Rightarrow> u8 list" where
  "abi_field i bs = take 32 (drop (32 * i) bs)"

definition from_abi_encoded :: "u8 list \<Rightarrow> (escrow_data, escrow_error) outcome" where
  "from_abi_encoded bs =
     (if length bs < 416 then Err (InsufficientData (length bs))
      else bind_o (decode_abi_address (abi_field 0 bs)) (\<lambda>offerer.
           bind_o (decode_abi_address (abi_field 1 bs)) (\<lambda>claimer.
           bind_o (decode_u256 (abi_field 2 bs)) (\<lambda>amount.
           bind_o (decode_abi_address (abi_field 3 bs)) (\<lambda>token.
           bind_o (decode_u256 (abi_field 4 bs)) (\<lambda>flags_raw.
           bind_o (flags_from_u256 flags_raw) (\<lambda>flags.
           bind_o (decode_abi_address (abi_field 5 bs)) (\<lambda>claim_handler.
           bind_o (decode_bytes32 (abi_field 6 bs)) (\<lambda>claim_data.
           bind_o (decode_abi_address (abi_field 7 bs)) (\<lambda>refund_handler.
           bind_o (decode_bytes32 (abi_field 8 bs)) (\<lambda>refund_data.
           bind_o (decode_u256 (abi_field 9 bs)) (\<lambda>security_deposit.
           bind_o (decode_u256 (abi_field 10 bs)) (\<lambda>claimer_bounty.
           bind_o (decode_abi_address (abi_field 11 bs)) (\<lambda>deposit_token.
           bind_o (decode_bytes32 (abi_field 12 bs)) (\<lambda>success_action_commitment.
           Ok \<lparr>es_offerer = offerer, es_claimer = claimer, es_amount = amount, es_token = token, es_flags = flags,
                es_claim_handler = claim_handler, es_claim_data = claim_data, es_refund_handler = refund_handler,
                es_refund_data = refund_data, es_security_deposit = security_deposit,
                es_claimer_bounty = claimer_bounty, es_deposit_token = deposit_token,
                es_success_action_commitment = success_action_commitment\<rparr>)))))))))))))))"

definition from_transaction_calldata :: "u8 list \<Rightarrow> (escrow_data, escrow_error) outcome" where
  "from_transaction_calldata calldata =
     from_abi_encoded (if length calldata > 4 \<and> length calldata mod 32 = 4 then drop 4 calldata else calldata)"

definition abi_words :: "escrow_data \<Rightarrow> u8 list list" where
  "abi_words e = [encode_abi_address (es_offerer e), encode_abi_address (es_claimer e), encode_u256 (es_amount e),
     encode_abi_address (es_token e), encode_u256 (flags_to_u256 (es_flags e)), encode_abi_address (es_claim_handler e),
     es_claim_data e, encode_abi_address (es_refund_handler e), es_refund_data e, encode_u256 (es_security_deposit e),
     encode_u256 (es_claimer_bounty e), encode_abi_address (es_deposit_token e), es_success_action_commitment e]"

definition to_abi_encoded :: "escrow_data \<Rightarrow> u8 list" where
  "to_abi_encoded e = concat (abi_words e)"

definition escrow_hash :: "(u8 list \<Rightarrow> u8 list) \<Rightarrow> escrow_data \<Rightarrow> u8 list" where
  "escrow_hash keccak256 e = keccak256 (to_abi_encoded e)"

definition claim_data_hash :: "escrow_data \<Rightarrow> u8 list" where
  "claim_data_hash e = es_claim_data e"

definition refund_data_hash :: "escrow_data \<Rightarrow> u8 list" where
  "refund_data_hash e = es_refund_data e"

definition has_success_action :: "escrow_data \<Rightarrow> bool" where
  "has_success_action e \<longleftrightarrow> es_success_action_commitment e \<noteq> replicate 32 0"

section \<open>Reading back\<close>

text \<open>The arrays of the record have the lengths of their types.\<close>

definition escrow_wf :: "escrow_data \<Rightarrow> bool" where
  "escrow_wf e \<longleftrightarrow> length (es_offerer e) = 20 \<and> length (es_claimer e) = 20 \<and> length (es_token e) = 20 \<and>
     length (es_claim_handler e) = 20 \<and> length (es_claim_data e) = 32 \<and> length (es_refund_handler e) = 20 \<and>
     length (es_refund_data e) = 32 \<and> length (es_deposit_token e) = 20 \<and> length (es_success_action_commitment e) = 32"

lemma as_u64_iff: "as_u64 v = (if unat v < 2 ^ 64 then Ok (ucast v) else Panic)"
  by (simp add: as_u64_def word_le_nat_alt)

lemma unat_drop64: "unat (drop_bit 64 (v :: eth_u256)) = unat v div 2 ^ 64"
  by (simp only: drop_bit_eq_div unat_div) simp

lemma unat_low64: "unat ((v :: eth_u256) AND 0xFFFFFFFFFFFFFFFF) = unat v mod 2 ^ 64"
proof -
  have "(0xFFFFFFFFFFFFFFFF :: eth_u256) = mask 64" by (simp add: mask_eq_exp_minus_1)
  then show ?thesis by (simp only: take_bit_eq_mask [symmetric] unsigned_take_bit_eq) (simp add: take_bit_eq_mod)
qed

lemma flags_panic: "flags_from_u256 v = Panic \<longleftrightarrow> 2 ^ 128 \<le> unat v"
  by (simp add: flags_from_u256_def as_u64_iff unat_drop64 unat_low64 div_less_iff_less_mult not_less [symmetric])

text \<open>The flags as a number: the sequence number times \<open>2 ^ 64\<close>, plus the three bits.\<close>

definition flag_bits :: "flags \<Rightarrow> u64" where
  "flag_bits f = (if fl_pay_out f then FLAG_PAY_OUT else 0) OR
     (if fl_pay_in f then FLAG_PAY_IN else 0) OR (if fl_reputation f then FLAG_REPUTATION else 0)"

lemma flag_bits_read:
  "flag_bits f AND FLAG_PAY_OUT = FLAG_PAY_OUT \<longleftrightarrow> fl_pay_out f"
  "flag_bits f AND FLAG_PAY_IN = FLAG_PAY_IN \<longleftrightarrow> fl_pay_in f"
  "flag_bits f AND FLAG_REPUTATION = FLAG_REPUTATION \<longleftrightarrow> fl_reputation f"
  by (simp_all add: flag_bits_def FLAG_PAY_OUT_def FLAG_PAY_IN_def FLAG_REPUTATION_def)

lemma flags_to_parts:
  "drop_bit 64 (flags_to_u256 f) = ucast (fl_sequence f)"
  "flags_to_u256 f AND 0xFFFFFFFFFFFFFFFF = ucast (flag_bits f)"
proof -
  have m: "(0xFFFFFFFFFFFFFFFF :: eth_u256) = mask 64" by (simp add: mask_eq_exp_minus_1)
  have v: "flags_to_u256 f = push_bit 64 (ucast (fl_sequence f)) OR ucast (flag_bits f)"
    by (simp add: flags_to_u256_def flag_bits_def)
  show "drop_bit 64 (flags_to_u256 f) = ucast (fl_sequence f)"
    unfolding v by (rule bit_word_eqI) (auto simp: bit_simps dest: bit_imp_le_length)
  show "flags_to_u256 f AND 0xFFFFFFFFFFFFFFFF = ucast (flag_bits f)"
    unfolding v m by (rule bit_word_eqI) (auto simp: bit_simps dest: bit_imp_le_length)
qed

lemma as_u64_ucast: "as_u64 (ucast (x :: u64)) = Ok x"
proof -
  have "unat (ucast x :: eth_u256) = unat x" 
    using unsigned_less [of x, where ?'a = nat] by (simp add: unsigned_ucast_eq take_bit_nat_eq_self)
  moreover have "ucast (ucast x :: eth_u256) = x"
    by (rule bit_word_eqI) (simp add: bit_simps)
  ultimately show ?thesis using unsigned_less [of x, where ?'a = nat] by (simp add: as_u64_iff)
qed

lemma flags_roundtrip: "flags_from_u256 (flags_to_u256 f) = Ok f"
  by (simp add: flags_from_u256_def flags_to_parts as_u64_ucast flag_bits_read)

lemma abi_field_concat:
  assumes "\<forall>w \<in> set ws. length w = 32" and "i < length ws"
  shows "abi_field i (concat ws @ rest) = ws ! i"
  using assms
proof (induction ws arbitrary: i)
  case (Cons w ws)
  then show ?case by (cases i) (simp_all add: abi_field_def)
qed simp

lemma length_concat_words: "\<forall>w \<in> set ws. length w = 32 \<Longrightarrow> length (concat ws) = 32 * length ws"
  by (induction ws) simp_all

lemma codec_words:
  "length a = 20 \<Longrightarrow> length (encode_abi_address a) = 32" "length a = 20 \<Longrightarrow> decode_abi_address (encode_abi_address a) = Ok a"
  "length (encode_u256 v) = 32" "decode_u256 (encode_u256 v) = Ok v" "length b = 32 \<Longrightarrow> decode_bytes32 b = Ok b"
  by (simp_all add: encode_abi_address_def decode_abi_address_def encode_u256_def decode_u256_def decode_bytes32_def)

lemma from_abi_roundtrip:
  assumes "escrow_wf e"
  shows "from_abi_encoded (to_abi_encoded e @ rest) = Ok e" and "length (to_abi_encoded e) = 416"
proof -
  have w: "\<forall>w \<in> set (abi_words e). length w = 32"
    using assms by (simp add: abi_words_def escrow_wf_def codec_words)
  then show len: "length (to_abi_encoded e) = 416"
    by (simp add: to_abi_encoded_def length_concat_words) (simp add: abi_words_def)
  have "abi_field i (to_abi_encoded e @ rest) = abi_words e ! i" if "i < 13" for i
    unfolding to_abi_encoded_def using that by (intro abi_field_concat [OF w]) (simp add: abi_words_def)
  then show "from_abi_encoded (to_abi_encoded e @ rest) = Ok e"
    using assms len by (simp add: from_abi_encoded_def abi_words_def codec_words escrow_wf_def flags_roundtrip)
qed

text \<open>
  C30. An escrow record survives its encoding: as bare ABI words, followed by any further bytes, or behind
  a function selector of four bytes when the rest is made of whole words.
\<close>

theorem escrow_roundtrip:
  assumes "escrow_wf e" and "length selector = 4" and "length rest mod 32 = 0"
  shows "from_abi_encoded (to_abi_encoded e @ rest) = Ok e \<and> from_transaction_calldata (to_abi_encoded e @ rest) = Ok e \<and>
     from_transaction_calldata (selector @ to_abi_encoded e @ rest) = Ok e"
proof -
  note r = from_abi_roundtrip [OF assms(1)]
  have "(416 + length rest) mod 32 = 0" "(4 + (416 + length rest)) mod 32 = 4" using assms(3) by presburger+
  then show ?thesis using r assms(2) by (simp add: from_transaction_calldata_def)
qed

text \<open>
  Calldata whose flags word uses a bit above the sequence number stops the reader: the conversion to
  64 bits panics, whatever the other words are, instead of returning the error the caller expects.
\<close>

lemma escrow_flags_panic:
  assumes "416 \<le> length bs" and "2 ^ 128 \<le> unat (from_be_bytes (abi_field 4 bs))"
  shows "from_abi_encoded bs = Panic"
proof -
  have "length (abi_field i bs) = 32" if "i < 13" for i
    using assms(1) that by (simp add: abi_field_def)
  moreover have "flags_from_u256 (from_be_bytes (abi_field 4 bs)) = Panic" using assms(2) by (simp add: flags_panic)
  ultimately show ?thesis
    using assms(1) by (simp add: from_abi_encoded_def decode_abi_address_def decode_u256_def)
qed

section \<open>Examples\<close>

definition demo_escrow :: escrow_data where
  "demo_escrow = \<lparr>es_offerer = replicate 20 1, es_claimer = replicate 20 2, es_amount = 1000, es_token = replicate 20 3,
     es_flags = \<lparr>fl_pay_out = True, fl_pay_in = False, fl_reputation = True, fl_sequence = 9\<rparr>,
     es_claim_handler = replicate 20 4, es_claim_data = replicate 32 5, es_refund_handler = replicate 20 6,
     es_refund_data = replicate 32 7, es_security_deposit = 8, es_claimer_bounty = 9, es_deposit_token = replicate 20 10,
     es_success_action_commitment = replicate 32 0\<rparr>"

theorem escrow_roundtrip_witness:
  "from_transaction_calldata ([1, 2, 3, 4] @ to_abi_encoded demo_escrow @ replicate 64 0) = Ok demo_escrow"
  using escrow_roundtrip [of demo_escrow "[1, 2, 3, 4]" "replicate 64 0"]
  by (simp add: escrow_wf_def demo_escrow_def)

end
