(* ===== verification/Burn_Substitutor.thy ===== *)
theory Burn_Substitutor
  imports Node_Rpc Rollup_Contract Atomiq Rollup_Worker
begin

text \<open>
  The burn substitutor (\<open>burn-substitutor/src/lib.rs\<close> and its binary): it reads the transactions of a node
  page by page, pays out burns ahead of their rollup, and commits the escrow of the swap that belongs to a
  burn without substitution. The contract, the token, the node and the swap service are operations on a
  world, each of which may fail; time passes inside them.
\<close>

section \<open>Operations on the world\<close>

datatype sub_error =
    FetchHeight | FetchTransactions | QuerySubstituted | FetchBalance | SubstituteBurn | WaitSubstitution
  | QuerySwaps | SwapsStatus nat | ParseSwaps | QueryOfframp | OfframpStatus nat | ParseOfframp
  | ParseTo | DecodeData | ParseValue | ParseGasLimit | ParseMaxFee | ParsePriorityFee
  | SignCommit | SendCommit | WaitCommit

type_synonym ('w, 'a) sub = "'w \<Rightarrow> 'w \<times> ('a, sub_error) outcome"

definition sub_ret :: "'a \<Rightarrow> ('w, 'a) sub" where
  "sub_ret x = (\<lambda>w. (w, Ok x))"

definition sub_lift :: "('a, sub_error) outcome \<Rightarrow> ('w, 'a) sub" where
  "sub_lift r = (\<lambda>w. (w, r))"

definition sub_bind :: "('w, 'a) sub \<Rightarrow> ('a \<Rightarrow> ('w, 'b) sub) \<Rightarrow> ('w, 'b) sub" where
  "sub_bind m f = (\<lambda>w. case m w of
     (w', Ok x) \<Rightarrow> f x w'
   | (w', Err e) \<Rightarrow> (w', Err e)
   | (w', Panic) \<Rightarrow> (w', Panic))"

section \<open>Messages of the swap service\<close>

record swap_entry =
  sw_id :: string
  sw_state :: int
  sw_input_address :: string
  sw_output_address :: string
  sw_amount :: string

record commit_tx =
  ct_to :: string
  ct_data :: string
  ct_value :: string
  ct_gas_limit :: "string option"
  ct_max_fee_per_gas :: "string option"
  ct_max_priority_fee_per_gas :: "string option"
  ct_nonce :: "u64 option"

record offramp_response =
  of_state :: int
  of_commit_txs :: "commit_tx list"
  of_preimage :: "string option"

text \<open>An HTTP answer: the status, and the body if it could be parsed.\<close>

type_synonym 'a http_answer = "nat \<times> 'a option"

record transaction_parameters =
  tp_nonce :: "u256 option"
  tp_to :: address
  tp_gas :: u256
  tp_value :: u256
  tp_data :: "u8 list"
  tp_transaction_type :: u64
  tp_max_fee_per_gas :: "u256 option"
  tp_max_priority_fee_per_gas :: "u256 option"

record 'w sub_env =
  se_height :: "('w, u64) sub"
  se_transactions :: "list_txns_query \<Rightarrow> ('w, list_txns_position cursor \<times> txn_with_info list) sub"
  se_was_substituted :: "contract_call \<Rightarrow> ('w, bool) sub"
  se_balance :: "contract_call \<Rightarrow> ('w, u256) sub"
  se_call :: "contract_call \<Rightarrow> ('w, h256) sub"
  se_confirm :: "sub_error \<Rightarrow> h256 \<Rightarrow> ('w, unit) sub"
  se_swaps :: "u256 \<Rightarrow> string \<Rightarrow> ('w, swap_entry list http_answer) sub"
  se_offramp :: "string \<Rightarrow> ('w, offramp_response http_answer) sub"
  se_sign :: "transaction_parameters \<Rightarrow> ('w, u8 list) sub"
  se_send_raw :: "u8 list \<Rightarrow> ('w, h256) sub"
  se_signer_address :: address
  se_address :: address
  se_address_text :: "address \<Rightarrow> string"
  se_parse_dec :: "string \<Rightarrow> u256 option"
  se_parse_address :: "string \<Rightarrow> address option"
  se_hex_decode :: "string \<Rightarrow> u8 list option"

section \<open>Retries\<close>

definition MAX_ATTEMPTS :: nat where "MAX_ATTEMPTS = 3"

text \<open>\<open>n\<close> attempts are left, \<open>attempt\<close> is the number of the next one.\<close>

fun retry_loop_some :: "nat \<Rightarrow> nat \<Rightarrow> (nat \<Rightarrow> ('w, 'a option) sub) \<Rightarrow> ('w, 'a option) sub" where
  "retry_loop_some 0 attempt op = sub_ret None"
| "retry_loop_some (Suc n) attempt op =
     sub_bind (op attempt) (\<lambda>r. case r of
       Some value \<Rightarrow> sub_ret (Some value)
     | None \<Rightarrow> retry_loop_some n (attempt + 1) op)"

definition retry_until_some :: "nat \<Rightarrow> (nat \<Rightarrow> ('w, 'a option) sub) \<Rightarrow> ('w, 'a option) sub" where
  "retry_until_some max_attempts op = retry_loop_some max_attempts 1 op"

section \<open>Burns without substitution\<close>

definition swap_matches :: "'w sub_env \<Rightarrow> u256 \<Rightarrow> string \<Rightarrow> swap_entry \<Rightarrow> bool" where
  "swap_matches S burn_value burner_addr s \<longleftrightarrow>
     to_ascii_lowercase (sw_input_address s) = to_ascii_lowercase burner_addr \<and>
     (case se_parse_dec S (sw_amount s) of Some a \<Rightarrow> a = burn_value | None \<Rightarrow> False) \<and>
     sw_state s \<in> {0, - 1}"

definition query_swap :: "'w sub_env \<Rightarrow> u256 \<Rightarrow> string \<Rightarrow> ('w, swap_entry option) sub" where
  "query_swap S burn_value burner_addr =
     sub_bind (se_swaps S burn_value burner_addr) (\<lambda>(status, body).
     if status \<noteq> 200 then sub_lift (Err (SwapsStatus status))
     else sub_bind (sub_lift (ok_or ParseSwaps body)) (\<lambda>swaps.
          sub_ret (find (swap_matches S burn_value burner_addr) swaps)))"

definition commit_ready :: "offramp_response \<Rightarrow> bool" where
  "commit_ready r \<longleftrightarrow> of_state r \<in> {0, - 1} \<and> of_commit_txs r \<noteq> []"

definition claimed_with_preimage :: "offramp_response \<Rightarrow> bool" where
  "claimed_with_preimage r \<longleftrightarrow> of_state r \<in> {2, 3} \<and> of_preimage r \<noteq> None"

definition query_offramp :: "'w sub_env \<Rightarrow> string \<Rightarrow> ('w, offramp_response option) sub" where
  "query_offramp S swap_id =
     sub_bind (se_offramp S swap_id) (\<lambda>(status, body).
     if 500 \<le> status \<and> status < 600 then sub_ret None
     else if status \<noteq> 200 then sub_lift (Err (OfframpStatus status))
     else sub_bind (sub_lift (ok_or ParseOfframp body)) (\<lambda>r.
          sub_ret (if \<not> commit_ready r \<and> \<not> claimed_with_preimage r then None else Some r)))"

fun trim_start_0x :: "string \<Rightarrow> string" where
  "trim_start_0x (a # b # s) = (if a = CHR ''0'' \<and> b = CHR ''x'' then trim_start_0x s else a # b # s)"
| "trim_start_0x s = s"

definition parse_optional :: "'w sub_env \<Rightarrow> sub_error \<Rightarrow> string option \<Rightarrow> (u256 option, sub_error) outcome" where
  "parse_optional S e text = (case text of
     None \<Rightarrow> Ok None
   | Some t \<Rightarrow> bind_o (ok_or e (se_parse_dec S t)) (\<lambda>v. Ok (Some v)))"

text \<open>The parameters of the transaction: \<open>None\<close> when the escrow is not the burn's, and the loop ends.\<close>

definition commit_parameters ::
    "'w sub_env \<Rightarrow> u256 \<Rightarrow> commit_tx \<Rightarrow> (transaction_parameters option, sub_error) outcome" where
  "commit_parameters S burn_value ct =
     bind_o (ok_or ParseTo (se_parse_address S (ct_to ct))) (\<lambda>to.
     bind_o (ok_or DecodeData (se_hex_decode S (trim_start_0x (ct_data ct)))) (\<lambda>data_bytes.
     case from_transaction_calldata data_bytes of
       Panic \<Rightarrow> Panic
     | Err _ \<Rightarrow> Ok None
     | Ok escrow \<Rightarrow>
         if es_offerer escrow \<noteq> se_address S then Ok None
         else if es_amount escrow \<noteq> burn_value then Ok None
         else
           bind_o (ok_or ParseValue (se_parse_dec S (ct_value ct))) (\<lambda>value.
           bind_o (parse_optional S ParseGasLimit (ct_gas_limit ct)) (\<lambda>gas.
           bind_o (parse_optional S ParseMaxFee (ct_max_fee_per_gas ct)) (\<lambda>max_fee_per_gas.
           bind_o (parse_optional S ParsePriorityFee (ct_max_priority_fee_per_gas ct)) (\<lambda>max_priority_fee_per_gas.
           Ok (Some \<lparr>tp_nonce = map_option ucast (ct_nonce ct), tp_to = to,
                tp_gas = (case gas of Some g \<Rightarrow> g | None \<Rightarrow> 1000000), tp_value = value, tp_data = data_bytes,
                tp_transaction_type = 2, tp_max_fee_per_gas = max_fee_per_gas,
                tp_max_priority_fee_per_gas = max_priority_fee_per_gas\<rparr>)))))))"

fun send_commits :: "'w sub_env \<Rightarrow> u256 \<Rightarrow> commit_tx list \<Rightarrow> ('w, unit) sub" where
  "send_commits S burn_value [] = sub_ret ()"
| "send_commits S burn_value (ct # cts) =
     sub_bind (sub_lift (commit_parameters S burn_value ct)) (\<lambda>params. case params of
       None \<Rightarrow> sub_ret ()
     | Some tx_params \<Rightarrow>
         sub_bind (se_sign S tx_params) (\<lambda>signed.
         sub_bind (se_send_raw S signed) (\<lambda>tx_hash.
         sub_bind (se_confirm S WaitCommit tx_hash) (\<lambda>_.
         send_commits S burn_value cts))))"

definition handle_nosub_burn :: "'w sub_env \<Rightarrow> element \<Rightarrow> ('w, unit) sub" where
  "handle_nosub_burn S amount =
     (let burn_value = amount; burner_addr = se_address_text S (se_address S)
      in sub_bind (retry_until_some MAX_ATTEMPTS (\<lambda>_. query_swap S burn_value burner_addr)) (\<lambda>swap.
         case swap of
           None \<Rightarrow> sub_ret ()
         | Some swap \<Rightarrow>
             sub_bind (retry_until_some MAX_ATTEMPTS (\<lambda>_. query_offramp S (sw_id swap))) (\<lambda>resp.
             case resp of
               None \<Rightarrow> sub_ret ()
             | Some r \<Rightarrow>
                 if of_state r \<in> {2, 3} then sub_ret ()
                 else send_commits S burn_value (of_commit_txs r))))"

section \<open>One tick\<close>

definition erc20_balance :: "address \<Rightarrow> contract_call" where
  "erc20_balance owner = \<lparr>cc_func = ''balanceOf'', cc_params = [TAddress owner]\<rparr>"

definition burn_recipient :: "burn_msgs \<Rightarrow> address" where
  "burn_recipient b = take 20 (drop 12 (to_be_bytes (bm_burn_address b)))"

definition burn_query :: "txn_with_info \<Rightarrow> burn_msgs \<Rightarrow> contract_call" where
  "burn_query t b = query_was_burn_substituted (burn_recipient b) (bm_note_kind b) (bm_burn_hash b) (bm_value b) (ti_block_height t)"

definition burn_call :: "txn_with_info \<Rightarrow> burn_msgs \<Rightarrow> contract_call" where
  "burn_call t b = call_substitute_burn (burn_recipient b) (bm_note_kind b) (bm_burn_hash b) (bm_value b) (ti_block_height t)"

text \<open>What the loop does with a transaction; the result is the hash of the burn that was substituted, if any.\<close>

definition process_txn :: "'w sub_env \<Rightarrow> txn_with_info \<Rightarrow> ('w, element list) sub" where
  "process_txn S t = (case kind_messages (up_public_inputs (ti_proof t)) of
     BurnMessages b \<Rightarrow>
       if kind_from_u8 (to_be_bytes (bm_utxo_kind b) ! 31) = Burn
       then
         sub_bind (se_was_substituted S (burn_query t b)) (\<lambda>substituted.
         if substituted then sub_ret []
         else sub_bind (se_balance S (erc20_balance (se_signer_address S))) (\<lambda>token_balance.
              if bm_value b > token_balance then sub_ret []
              else sub_bind (se_call S (burn_call t b)) (\<lambda>txn.
                   sub_bind (se_confirm S WaitSubstitution txn) (\<lambda>_.
                   sub_ret [bm_burn_hash b]))))
       else sub_bind (handle_nosub_burn S (bm_value b)) (\<lambda>_. sub_ret [])
   | _ \<Rightarrow> sub_ret [])"

fun process_txns :: "'w sub_env \<Rightarrow> txn_with_info list \<Rightarrow> element list \<Rightarrow> ('w, element list) sub" where
  "process_txns S [] substituted_burns = sub_ret substituted_burns"
| "process_txns S (t # ts) substituted_burns =
     sub_bind (process_txn S t) (\<lambda>hs. process_txns S ts (substituted_burns @ hs))"

definition fetch_transactions ::
    "'w sub_env \<Rightarrow> nat option \<Rightarrow> list_txns_position cursor_choice option \<Rightarrow> bool \<Rightarrow>
     ('w, list_txns_position cursor \<times> txn_with_info list) sub" where
  "fetch_transactions S limit cursor poll =
     se_transactions S \<lparr>lq_limit = limit, lq_cursor = cursor, lq_order = OldestToNewest, lq_poll = poll\<rparr>"

definition start_cursor :: "u64 \<Rightarrow> list_txns_position cursor_choice" where
  "start_cursor last_rollup = CursorAfter (After \<lparr>lp_block = last_rollup, lp_txn = - 1\<rparr>)"

definition tick_page ::
    "'w sub_env \<Rightarrow> list_txns_position cursor_choice \<Rightarrow> ('w, list_txns_position cursor_choice option \<times> element list) sub" where
  "tick_page S c =
     sub_bind (fetch_transactions S None (Some c) False) (\<lambda>(cursor, txns).
     sub_bind (process_txns S txns []) (\<lambda>substituted_burns.
     sub_ret (if txns = [] then Some c else map_option CursorAfter (cu_after cursor), substituted_burns)))"

text \<open>The cursor is the state of the substitutor; the first tick sets it.\<close>

definition tick_start ::
    "'w sub_env \<Rightarrow> list_txns_position cursor_choice option \<Rightarrow> ('w, list_txns_position cursor_choice) sub" where
  "tick_start S cursor = (case cursor of
     Some c \<Rightarrow> sub_ret c
   | None \<Rightarrow> sub_bind (se_height S) (\<lambda>last_rollup. sub_ret (start_cursor last_rollup)))"

definition sub_tick ::
    "'w sub_env \<Rightarrow> list_txns_position cursor_choice option \<Rightarrow> 'w \<Rightarrow>
     'w \<times> list_txns_position cursor_choice option \<times> (element list, sub_error) outcome" where
  "sub_tick S cursor w = (case tick_start S cursor w of
     (w1, Err e) \<Rightarrow> (w1, cursor, Err e)
   | (w1, Panic) \<Rightarrow> (w1, cursor, Panic)
   | (w1, Ok c) \<Rightarrow>
       (case tick_page S c w1 of
          (w2, Ok (cursor', hs)) \<Rightarrow> (w2, cursor', Ok hs)
        | (w2, Err e) \<Rightarrow> (w2, Some c, Err e)
        | (w2, Panic) \<Rightarrow> (w2, Some c, Panic)))"

text \<open>The loop of \<open>main\<close> for \<open>n\<close> ticks: an error ends the program.\<close>

fun sub_ticks ::
    "'w sub_env \<Rightarrow> nat \<Rightarrow> list_txns_position cursor_choice option \<Rightarrow> 'w \<Rightarrow>
     'w \<times> list_txns_position cursor_choice option \<times> (unit, sub_error) outcome" where
  "sub_ticks S 0 cursor w = (w, cursor, Ok ())"
| "sub_ticks S (Suc n) cursor w = (case sub_tick S cursor w of
     (w', cursor', Ok _) \<Rightarrow> sub_ticks S n cursor' w'
   | (w', cursor', Err e) \<Rightarrow> (w', cursor', Err e)
   | (w', cursor', Panic) \<Rightarrow> (w', cursor', Panic))"

section \<open>Start\<close>

definition MAX_APPROVE_RETRIES :: nat where "MAX_APPROVE_RETRIES = 10"

datatype approve_error = ApproveFailed nat string | ApproveUnconfirmed

text \<open>
  The loop that asks for the allowance: the answers to the attempts are given, an error by its text;
  the fuel is the number of retries that are left.
\<close>

fun approve_loop ::
    "(nat \<Rightarrow> (h256, string) outcome) \<Rightarrow> (h256 \<Rightarrow> bool) \<Rightarrow> nat \<Rightarrow> nat \<Rightarrow> (unit, approve_error) outcome" where
  "approve_loop approve confirmed retries 0 = Panic"
| "approve_loop approve confirmed retries (Suc fuel) = (case approve retries of
     Ok txn \<Rightarrow> if confirmed txn then Ok () else Err ApproveUnconfirmed
   | Panic \<Rightarrow> Panic
   | Err e \<Rightarrow>
       let is_transient = sublist ''insufficient funds'' (to_ascii_lowercase e); retries' = retries + 1
       in if \<not> is_transient \<or> retries' \<ge> MAX_APPROVE_RETRIES then Err (ApproveFailed retries' e)
          else approve_loop approve confirmed retries' fuel)"

definition approve_start ::
    "u256 \<Rightarrow> (nat \<Rightarrow> (h256, string) outcome) \<Rightarrow> (h256 \<Rightarrow> bool) \<Rightarrow> (unit, approve_error) outcome" where
  "approve_start allowance approve confirmed =
     (if allowance \<noteq> - 1 then approve_loop approve confirmed 0 MAX_APPROVE_RETRIES else Ok ())"

text \<open>The fuel is never used up.\<close>

lemma approve_loop_ends:
  assumes "retries + fuel = MAX_APPROVE_RETRIES" and "0 < fuel" and "\<And>i. approve i \<noteq> Panic"
  shows "approve_loop approve confirmed retries fuel \<noteq> Panic"
  using assms(1,2)
proof (induction fuel arbitrary: retries)
  case (Suc fuel)
  have "approve_loop approve confirmed (retries + 1) fuel \<noteq> Panic" if "retries + 1 < MAX_APPROVE_RETRIES"
    using Suc.IH [of "retries + 1"] Suc.prems(1) that by simp
  then show ?case using assms(3) [of retries] by (auto simp: Let_def split: outcome.split)
qed simp

end
