(* ===== verification/Burn_Substitutor_Props.thy ===== *)
theory Burn_Substitutor_Props
  imports Burn_Substitutor Node_Rpc_Props
begin

text \<open>
  The substitutor against a node: while it runs it reads every transaction at most once, in the order of
  the chain, and sends at most one substitution for it. A burn without substitution whose swap is not
  there yet is passed over for good.
\<close>

section \<open>What leaves a log alone\<close>

text \<open>\<open>sent\<close> reads the calls sent to the contract off the world.\<close>

definition silent :: "('w \<Rightarrow> contract_call list) \<Rightarrow> ('w, 'a) sub \<Rightarrow> bool" where
  "silent sent m \<longleftrightarrow> (\<forall>w. sent (fst (m w)) = sent w)"

lemma silent_ret [simp]: "silent sent (sub_ret x)" "silent sent (sub_lift r)"
  by (simp_all add: silent_def sub_ret_def sub_lift_def)

lemma silent_bind: "silent sent m \<Longrightarrow> (\<And>x. silent sent (f x)) \<Longrightarrow> silent sent (sub_bind m f)"
  by (auto simp: silent_def sub_bind_def split: prod.split outcome.split) (metis fst_conv)+

text \<open>Only calls of the contract are logged; one that fails may not be.\<close>

definition calls_logged :: "'w sub_env \<Rightarrow> ('w \<Rightarrow> contract_call list) \<Rightarrow> bool" where
  "calls_logged S sent \<longleftrightarrow> silent sent (se_height S) \<and> (\<forall>q. silent sent (se_transactions S q)) \<and>
     (\<forall>c. silent sent (se_was_substituted S c)) \<and> (\<forall>c. silent sent (se_balance S c)) \<and> (\<forall>e h. silent sent (se_confirm S e h)) \<and>
     (\<forall>v a. silent sent (se_swaps S v a)) \<and> (\<forall>i. silent sent (se_offramp S i)) \<and> (\<forall>p. silent sent (se_sign S p)) \<and>
     (\<forall>b. silent sent (se_send_raw S b)) \<and>
     (\<forall>c w. sent (fst (se_call S c w)) = sent w @ [c] \<or>
        sent (fst (se_call S c w)) = sent w \<and> (\<nexists>h. snd (se_call S c w) = Ok h))"

lemma silent_retry: "(\<And>a. silent sent (op a)) \<Longrightarrow> silent sent (retry_loop_some n k op)"
  by (induction n arbitrary: k) (auto intro!: silent_bind split: option.split)

lemma silent_commits: "calls_logged S sent \<Longrightarrow> silent sent (send_commits S v cts)"
  by (induction cts) (auto simp: calls_logged_def intro!: silent_bind split: option.split)

lemma silent_nosub:
  assumes "calls_logged S sent"
  shows "silent sent (handle_nosub_burn S amount)"
proof -
  have "silent sent (query_swap S v a)" "silent sent (query_offramp S i)" for v a i
    using assms by (auto simp: query_swap_def query_offramp_def calls_logged_def intro!: silent_bind split: prod.split)
  then show ?thesis
    using silent_commits [OF assms]
    by (auto simp: handle_nosub_burn_def retry_until_some_def Let_def intro!: silent_bind silent_retry split: option.split)
qed

section \<open>The calls of a run\<close>

text \<open>The substitution a transaction asks for.\<close>

definition txn_calls :: "txn_with_info \<Rightarrow> contract_call list" where
  "txn_calls t = (case kind_messages (up_public_inputs (ti_proof t)) of
     BurnMessages b \<Rightarrow> if kind_from_u8 (to_be_bytes (bm_utxo_kind b) ! 31) = Burn then [burn_call t b] else []
   | _ \<Rightarrow> [])"

definition adds_calls :: "('w \<Rightarrow> contract_call list) \<Rightarrow> contract_call list \<Rightarrow> ('w, 'a) sub \<Rightarrow> bool" where
  "adds_calls sent cs m \<longleftrightarrow> (\<forall>w. \<exists>cs'. sent (fst (m w)) = sent w @ cs' \<and> subseq cs' cs)"

lemma adds_silent: "silent sent m \<Longrightarrow> adds_calls sent cs m"
  by (auto simp: adds_calls_def silent_def)

lemma adds_ret [simp]: "adds_calls sent cs (sub_ret x)"
  by (rule adds_silent) simp

lemma adds_bind:
  assumes "adds_calls sent cs m" and "\<And>x. adds_calls sent ds (f x)"
  shows "adds_calls sent (cs @ ds) (sub_bind m f)"
  unfolding adds_calls_def
proof
  fix w
  obtain cs' where c: "sent (fst (m w)) = sent w @ cs'" "subseq cs' cs" using assms(1) unfolding adds_calls_def by blast
  have e: "subseq cs' (cs @ ds)" using c(2) by (rule list_emb_prefix)
  show "\<exists>cs'. sent (fst (sub_bind m f w)) = sent w @ cs' \<and> subseq cs' (cs @ ds)"
  proof (cases "snd (m w)")
    case (Ok x)
    obtain ds' where "sent (fst (f x (fst (m w)))) = sent (fst (m w)) @ ds'" "subseq ds' ds"
      using assms(2) unfolding adds_calls_def by blast
    then show ?thesis
      using Ok c by (intro exI [of _ "cs' @ ds'"]) (auto simp: sub_bind_def list_emb_append_mono split: prod.splits)
  qed (use c e in \<open>auto simp: sub_bind_def split: prod.splits\<close>)
qed

lemma adds_bind_silent:
  "silent sent m \<Longrightarrow> (\<And>x. adds_calls sent cs (f x)) \<Longrightarrow> adds_calls sent cs (sub_bind m f)"
  "adds_calls sent cs m \<Longrightarrow> (\<And>x. silent sent (f x)) \<Longrightarrow> adds_calls sent cs (sub_bind m f)"
  using adds_bind [of sent "[]" m cs f] adds_bind [of sent cs m "[]" f] by (simp_all add: adds_silent)

lemma adds_process:
  assumes "calls_logged S sent"
  shows "adds_calls sent (txn_calls t) (process_txn S t)"
proof -
  note l = assms [unfolded calls_logged_def]
  have "adds_calls sent [c] (se_call S c)" for c
    using l unfolding adds_calls_def by (metis append_Nil2 list_emb_Nil subseq_order.order_refl)
  then have "adds_calls sent [c] (sub_bind (se_call S c) (\<lambda>h. sub_bind (se_confirm S e h) (\<lambda>_. sub_ret hs)))"
    for c e and hs :: "element list" using l by (intro adds_bind_silent(2) silent_bind) auto
  then have "adds_calls sent [c] (sub_bind (se_was_substituted S d) (\<lambda>b. if b then sub_ret []
      else sub_bind (se_balance S k) (\<lambda>balance. if v > balance then sub_ret []
      else sub_bind (se_call S c) (\<lambda>h. sub_bind (se_confirm S e h) (\<lambda>_. sub_ret hs)))))" for c d k v e and hs :: "element list"
    using l by (auto intro!: adds_bind_silent(1) intro: adds_silent)
  then show ?thesis
    using silent_nosub [OF assms]
    by (auto simp: process_txn_def txn_calls_def intro!: adds_silent silent_bind split: kind_msgs.split)
qed

lemma adds_processes:
  assumes "calls_logged S sent"
  shows "adds_calls sent (concat (map txn_calls ts)) (process_txns S ts hs)"
  by (induction ts arbitrary: hs) (auto intro: adds_silent adds_bind adds_process [OF assms])

section \<open>The transactions of a run\<close>

text \<open>The page a tick fetches, and the pages of a run.\<close>

definition tick_read :: "'w sub_env \<Rightarrow> list_txns_position cursor_choice option \<Rightarrow> 'w \<Rightarrow> txn_with_info list" where
  "tick_read S cursor w = (case sub_bind (tick_start S cursor) (\<lambda>c. fetch_transactions S None (Some c) False) w of
     (_, Ok (_, ts)) \<Rightarrow> ts
   | _ \<Rightarrow> [])"

fun pages_read :: "'w sub_env \<Rightarrow> nat \<Rightarrow> list_txns_position cursor_choice option \<Rightarrow> 'w \<Rightarrow> txn_with_info list" where
  "pages_read S 0 cursor w = []"
| "pages_read S (Suc n) cursor w = tick_read S cursor w @ (case sub_tick S cursor w of
     (w', cursor', Ok _) \<Rightarrow> pages_read S n cursor' w'
   | _ \<Rightarrow> [])"

lemma tick_calls:
  assumes "calls_logged S sent"
  shows "\<exists>cs. sent (fst (sub_tick S cursor w)) = sent w @ cs \<and> subseq cs (concat (map txn_calls (tick_read S cursor w)))"
proof -
  have start: "silent sent (tick_start S cursor)" and fetch: "silent sent (fetch_transactions S None c False)" for c
    using assms by (auto simp: tick_start_def fetch_transactions_def calls_logged_def intro!: silent_bind split: option.split)
  show ?thesis
  proof (cases "tick_start S cursor w")
    case (Pair w1 r)
    then have s1: "sent w1 = sent w" using start unfolding silent_def by (metis fst_conv)
    show ?thesis
    proof (cases r)
      case (Ok c)
      obtain w2 r2 where f: "fetch_transactions S None (Some c) False w1 = (w2, r2)" by fastforce
      then have s2: "sent w2 = sent w" using fetch [of "Some c"] s1 unfolding silent_def by (metis fst_conv)
      show ?thesis
      proof (cases r2)
        case r2: (Ok x)
        obtain k ts where x: "x = (k, ts)" by fastforce
        obtain cs where "sent (fst (process_txns S ts [] w2)) = sent w2 @ cs" "subseq cs (concat (map txn_calls ts))"
          using adds_processes [OF assms, of ts "[]"] unfolding adds_calls_def by blast
        then show ?thesis
          using Pair Ok f r2 x s2
          by (auto simp: sub_tick_def tick_page_def tick_read_def sub_bind_def sub_ret_def split: prod.splits outcome.splits)
      qed (use Pair Ok f s2 in \<open>auto simp: sub_tick_def tick_page_def sub_bind_def\<close>)
    qed (use Pair s1 in \<open>auto simp: sub_tick_def\<close>)
  qed
qed

lemma ticks_calls:
  assumes "calls_logged S sent"
  shows "\<exists>cs. sent (fst (sub_ticks S n cursor w)) = sent w @ cs \<and> subseq cs (concat (map txn_calls (pages_read S n cursor w)))"
proof (induction n arbitrary: cursor w)
  case (Suc n)
  obtain w' cursor' r where t: "sub_tick S cursor w = (w', cursor', r)" by (metis prod_cases3)
  obtain cs where cs: "sent w' = sent w @ cs" "subseq cs (concat (map txn_calls (tick_read S cursor w)))"
    using tick_calls [OF assms, of cursor w] t by auto
  obtain ds where ds: "sent (fst (sub_ticks S n cursor' w')) = sent w' @ ds"
    "subseq ds (concat (map txn_calls (pages_read S n cursor' w')))"
    using Suc.IH by blast
  show ?case
  proof (cases r)
    case (Ok hs)
    then show ?thesis using t cs ds by (intro exI [of _ "cs @ ds"]) (simp add: list_emb_append_mono)
  qed (use t cs in auto)
qed simp

section \<open>The order of a run\<close>

text \<open>The transactions come from a node, whose state may change from one request to the next.\<close>

definition node_answers :: "'w sub_env \<Rightarrow> bool" where
  "node_answers S \<longleftrightarrow> (\<forall>q w w' c ts. se_transactions S q w = (w', Ok (c, ts)) \<longrightarrow>
     (\<exists>E now s max_height. store_inv (node_trait E) (ns_store s) \<and> max_height \<le> now \<and>
        (\<forall>e \<in> set (height_entries 6 (ns_store s)). length (block_txns (into_block (snd e))) < 2 ^ 64) \<and>
        list_txns_inner E now s q max_height = Ok (c, ts)))"

abbreviation in_order :: "txn_with_info list \<Rightarrow> bool" where
  "in_order ts \<equiv> sorted_wrt (\<lambda>t u. pos_less (info_pos t) (info_pos u)) ts"

lemma fetch_order:
  assumes "node_answers S" and "fetch_transactions S None (Some (CursorAfter a)) False w = (w', Ok (c, ts))"
  shows "in_order ts" and "t \<in> set ts \<Longrightarrow> pos_less (after_inner a) (info_pos t)"
    and "cu_after c = (if ts = [] then None else Some (AfterInclusive (info_pos (last ts))))"
proof -
  obtain E now s max_height where n: "store_inv (node_trait E) (ns_store s)" "max_height \<le> now"
    "\<forall>e \<in> set (height_entries 6 (ns_store s)). length (block_txns (into_block (snd e))) < 2 ^ 64"
    "list_txns_inner E now s \<lparr>lq_limit = None, lq_cursor = Some (CursorAfter a), lq_order = OldestToNewest, lq_poll = False\<rparr>
       max_height = Ok (c, ts)"
    using assms unfolding node_answers_def fetch_transactions_def by metis
  note p = forward_page [OF n(1-3), OF n(4) [unfolded default_limit]]
  show "in_order ts" "t \<in> set ts \<Longrightarrow> pos_less (after_inner a) (info_pos t)"
    "cu_after c = (if ts = [] then None else Some (AfterInclusive (info_pos (last ts))))" by (rule p, assumption?)+
qed

lemma tick_order:
  assumes "node_answers S"
  shows "in_order (tick_read S (Some (CursorAfter a)) w)"
    and "t \<in> set (tick_read S (Some (CursorAfter a)) w) \<Longrightarrow> pos_less (after_inner a) (info_pos t)"
    and "sub_tick S (Some (CursorAfter a)) w = (w', cursor', Ok hs) \<Longrightarrow>
      cursor' = Some (CursorAfter (if tick_read S (Some (CursorAfter a)) w = [] then a
        else AfterInclusive (info_pos (last (tick_read S (Some (CursorAfter a)) w)))))"
proof -
  obtain w1 r where f: "fetch_transactions S None (Some (CursorAfter a)) False w = (w1, r)" by fastforce
  have read: "tick_read S (Some (CursorAfter a)) w = (case r of Ok (c, ts) \<Rightarrow> ts | _ \<Rightarrow> [])"
    by (simp add: tick_read_def tick_start_def sub_bind_def sub_ret_def f split: outcome.split)
  show "in_order (tick_read S (Some (CursorAfter a)) w)"
    "t \<in> set (tick_read S (Some (CursorAfter a)) w) \<Longrightarrow> pos_less (after_inner a) (info_pos t)"
    using fetch_order(1,2) [OF assms, of a w w1] f unfolding read by (auto split: outcome.splits)
  assume t: "sub_tick S (Some (CursorAfter a)) w = (w', cursor', Ok hs)"
  then obtain c ts where r: "r = Ok (c, ts)"
    by (cases r) (auto simp: sub_tick_def tick_start_def tick_page_def sub_bind_def sub_ret_def f split: prod.splits)
  then have "cursor' = (if ts = [] then Some (CursorAfter a) else map_option CursorAfter (cu_after c))"
    using t by (auto simp: sub_tick_def tick_start_def tick_page_def sub_bind_def sub_ret_def f split: prod.splits outcome.splits)
  then show "cursor' = Some (CursorAfter (if tick_read S (Some (CursorAfter a)) w = [] then a
      else AfterInclusive (info_pos (last (tick_read S (Some (CursorAfter a)) w)))))"
    using fetch_order(3) [OF assms, of a w w1 c ts] f r unfolding read by simp
qed

lemma in_order_append:
  assumes "in_order ts" and "in_order us" and "ts \<noteq> [] \<longrightarrow> (\<forall>u \<in> set us. pos_less (info_pos (last ts)) (info_pos u))"
  shows "in_order (ts @ us)"
proof -
  have "pos_less (info_pos t) (info_pos u)" if "t \<in> set ts" "u \<in> set us" for t u
  proof -
    have ne: "ts \<noteq> []" using that(1) by auto
    have l: "in_order (butlast ts @ [last ts])" using assms(1) ne by simp
    show ?thesis
    proof (cases "t = last ts")
      case False
      then have "t \<in> set (butlast ts)" using that(1) ne by (metis append_butlast_last_id in_set_butlastD set_ConsD rotate1.simps(2) set_rotate1)
      then have "pos_less (info_pos t) (info_pos (last ts))" using l by (simp add: sorted_wrt_append)
      then show ?thesis using assms(3) that(2) ne pos_less_trans by blast
    qed (use assms(3) that(2) ne in blast)
  qed
  then show ?thesis using assms(1,2) by (simp add: sorted_wrt_append)
qed

lemma pages_order:
  assumes "node_answers S"
  shows "in_order (pages_read S n (Some (CursorAfter a)) w) \<and>
     (\<forall>t \<in> set (pages_read S n (Some (CursorAfter a)) w). pos_less (after_inner a) (info_pos t))"
proof (induction n arbitrary: a w)
  case (Suc n)
  let ?ts = "tick_read S (Some (CursorAfter a)) w"
  note o' = tick_order [OF assms, where a = a and w = w]
  obtain w' cursor' r where t: "sub_tick S (Some (CursorAfter a)) w = (w', cursor', r)" by (metis prod_cases3)
  show ?case
  proof (cases r)
    case (Ok hs)
    let ?a = "if ?ts = [] then a else AfterInclusive (info_pos (last ?ts))"
    let ?us = "pages_read S n (Some (CursorAfter ?a)) w'"
    have c: "cursor' = Some (CursorAfter ?a)" using o'(3) t Ok by blast
    have us: "in_order ?us" "\<forall>u \<in> set ?us. pos_less (after_inner ?a) (info_pos u)" using Suc.IH by blast+
    have "in_order (?ts @ ?us)" using o'(1) us by (intro in_order_append) auto
    moreover have "pos_less (after_inner a) (info_pos u)" if "u \<in> set ?us" for u
      using us(2) that o'(2) [of "last ?ts"] pos_less_trans by (cases "?ts = []") fastforce+
    ultimately show ?thesis using t Ok c o'(2) by auto
  qed (use t o'(1,2) in auto)
qed simp

text \<open>
  C29. From its start until it stops, for any number of ticks and also when one of them fails, the
  substitutor reads each transaction of the node at most once, in the order of the chain, although the
  node commits blocks in the meantime; and the substitutions it sends are a subsequence of those its
  transactions ask for, so that no burn is paid out twice by one run.
\<close>

theorem substitutor_once:
  assumes "node_answers S" and "calls_logged S sent" and "sub_ticks S n None w = (w', cursor', r)"
  shows "in_order (pages_read S n None w) \<and>
     (\<exists>cs. sent w' = sent w @ cs \<and> subseq cs (concat (map txn_calls (pages_read S n None w))))"
proof
  show "\<exists>cs. sent w' = sent w @ cs \<and> subseq cs (concat (map txn_calls (pages_read S n None w)))"
    using ticks_calls [OF assms(2), of n None w] assms(3) by simp
  show "in_order (pages_read S n None w)"
  proof (cases n)
    case (Suc m)
    obtain w1 h where st: "se_height S w = (w1, h)" by fastforce
    show ?thesis
    proof (cases h)
      case (Ok last_rollup)
      have "tick_start S None w = (w1, Ok (start_cursor last_rollup))"
        "tick_start S (Some c) w1 = (w1, Ok c)" for c
        by (simp_all add: tick_start_def sub_bind_def sub_ret_def st Ok)
      then have "sub_tick S None w = sub_tick S (Some (start_cursor last_rollup)) w1"
        "tick_read S None w = tick_read S (Some (start_cursor last_rollup)) w1"
        by (simp_all add: sub_tick_def tick_read_def sub_bind_def)
      then have "pages_read S n None w = pages_read S n (Some (start_cursor last_rollup)) w1" by (simp add: Suc)
      then show ?thesis using pages_order [OF assms(1)] by (simp add: start_cursor_def)
    qed (simp_all add: Suc tick_read_def tick_start_def sub_bind_def sub_tick_def st)
  qed simp
qed

section \<open>A run\<close>

text \<open>A substitutor on a node, with a world that is the list of the calls of the contract.\<close>

definition demo_sub :: "node_state \<Rightarrow> contract_call list sub_env" where
  "demo_sub s = \<lparr>se_height = sub_ret 0,
     se_transactions = (\<lambda>q. sub_lift (map_err (\<lambda>_. FetchTransactions) (list_txns_inner seven_env 5 s q 2))),
     se_was_substituted = (\<lambda>_. sub_ret False), se_balance = (\<lambda>_. sub_ret 1000),
     se_call = (\<lambda>c w. (w @ [c], Ok (replicate 32 0))), se_confirm = (\<lambda>_ _. sub_ret ()),
     se_swaps = (\<lambda>_ _. sub_ret (200, Some [])), se_offramp = (\<lambda>_. sub_ret (404, None)),
     se_sign = (\<lambda>_. sub_ret []), se_send_raw = (\<lambda>_. sub_ret (replicate 32 1)), se_signer_address = replicate 20 1, se_address = replicate 20 1,
     se_address_text = (\<lambda>_. ''0x01''), se_parse_dec = (\<lambda>_. None), se_parse_address = (\<lambda>_. None),
     se_hex_decode = (\<lambda>_. None)\<rparr>"

lemma demo_sub_logged: "calls_logged (demo_sub s) (\<lambda>w. w)"
  by (simp add: calls_logged_def demo_sub_def)

lemma demo_sub_answers:
  assumes "node_run seven_env demo_node_config demo_U s" and "node_chain s seven_chain"
  shows "node_answers (demo_sub s)"
proof -
  have l: "chain_ok seven_chain" "store_chain seven_env (ns_store s) seven_chain" "length seven_chain < 2 ^ 64"
    using node_chain_ledger [OF seven_setup assms] assms(2) by (simp_all add: ledger_def node_chain_def)
  have "length (block_txns b) < 2 ^ 64" if "b \<in> set seven_chain" for b
    using that by (auto simp: seven_chain_def demo_chain_block_def)
  then have "\<forall>e \<in> set (height_entries 6 (ns_store s)). length (block_txns (into_block (snd e))) < 2 ^ 64"
    using arg_cong [OF non_empty_blocks [OF l(2,1,3)], of set] by auto
  moreover have "store_inv (node_trait seven_env) (ns_store s)" using l(2) by (simp add: store_chain_def)
  moreover have "(2 :: u64) \<le> 5" by simp
  ultimately show ?thesis
    unfolding node_answers_def demo_sub_def by (fastforce simp: sub_lift_def map_err_Ok_iff)
qed

theorem substitutor_once_witness:
  "\<exists>s. node_chain s seven_chain \<and> in_order (pages_read (demo_sub s) 2 None []) \<and>
     (\<exists>cs. fst (sub_ticks (demo_sub s) 2 None []) = [] @ cs \<and>
       subseq cs (concat (map txn_calls (pages_read (demo_sub s) 2 None []))))"
proof -
  obtain s where s: "node_run seven_env demo_node_config demo_U s" "node_chain s seven_chain" using seven_node by blast
  obtain w cursor r where "sub_ticks (demo_sub s) 2 None [] = (w, cursor, r)" by (metis prod_cases3)
  from substitutor_once [OF demo_sub_answers [OF s] demo_sub_logged this] s(2) this show ?thesis by auto
qed

text \<open>
  A burn without substitution for which the service lists no swap counts as done, and the tick goes on:
  by the order of the pages it is not read again in this run.
\<close>

lemma unmatched_burn_passed:
  assumes "kind_messages (up_public_inputs (ti_proof t)) = BurnMessages b"
    and "kind_from_u8 (to_be_bytes (bm_utxo_kind b) ! 31) \<noteq> Burn"
    and "\<forall>w v a. se_swaps S v a w = (w, Ok (200, Some []))"
  shows "process_txn S t w = (w, Ok [])"
proof -
  have "query_swap S v a = sub_ret None" for v a
    using assms(3) by (simp add: query_swap_def sub_bind_def sub_ret_def sub_lift_def fun_eq_iff)
  then have "handle_nosub_burn S v = sub_ret ()" for v
    by (simp add: handle_nosub_burn_def retry_until_some_def MAX_ATTEMPTS_def numeral_3_eq_3 sub_bind_def sub_ret_def)
  then show ?thesis using assms(1,2) by (simp add: process_txn_def sub_bind_def sub_ret_def)
qed

end
