(* ===== verification/Spec2Isabelle.thy ===== *)
theory Spec2Isabelle
  imports Smirk_Theorems Smirk_Storage Block_Store_Props Node_Mempool Note_Url Signed_Element
    Node_Sync Solid_Progress Wallet_Files Doomslug_Theorems Prover_Demo Prover_Worker_Demo
    Rollup_Contract_Props Node_Rpc_Props Burn_Substitutor_Props
begin

text \<open>
  Verification of the core of Zerosats (Ciphera), a UTXO rollup: a node keeps a sparse Merkle tree
  of note commitments (\<open>smirk\<close>), a store of committed blocks (\<open>block-store\<close>), a pool of pending
  transactions and a cache of proposed blocks (\<open>node\<close>); transactions are zero-knowledge proofs
  about notes (\<open>zk-primitives\<close>) over 256-bit elements (\<open>element\<close>, \<open>hash\<close>). Paths below are relative
  to \<open>src/ciphera/pkg\<close>.

  \<^bold>\<open>Conventions.\<close> A fallible operation returns an \<open>outcome\<close>: \<open>Ok\<close>, \<open>Err\<close> with the error of the
  source, or \<open>Panic\<close>. The build with debug assertions is modelled: a failed assertion, an
  overflow of a checked integer, an \<open>unwrap\<close> of nothing and an index out of range are \<open>Panic\<close>.
  Machine integers are words of their width. A \<open>HashMap\<close> is an association list or a map, a
  \<open>BTreeMap\<close> a sorted association list, a database its ordered entries; interior mutability and
  locks become explicit state, one step per locked region. Code outside the repository (the
  Poseidon sponge, SHA3, keccak, base58, ECDSA recovery, proof verification, the serialisation of
  headers) is a parameter of the definitions that use it, with named hypotheses where a theorem
  relies on more than its type.

  \<^bold>\<open>Theories.\<close>
  \<^item> \<open>Prelude\<close>: outcomes and their bind, folds that stop at an error, sorted maps, bit lists.
  \<^item> \<open>Element\<close>, \<open>Merkle_Hash\<close>: \<open>element/src\<close> and \<open>hash/src\<close>: conversions, bit views, hashing of
    bytes, Merkle roots and paths.
  \<^item> \<open>Smirk_Cache\<close>, \<open>Smirk_Node\<close>, \<open>Smirk_Node_Props\<close>, \<open>Smirk_Batch\<close>, \<open>Smirk_Tree\<close>, \<open>Smirk_Path\<close>,
    \<open>Smirk_Theorems\<close>: \<open>smirk/src\<close>, the sparse Merkle tree. The locale \<open>hash_cache\<close> is the contract
    of the hash caches, interpreted on both caches of the code. The tree refines a finite map from
    elements to values, its root hash depends on the elements only, \<open>root_hash_with\<close> predicts the
    root of an insertion, and paths are complete and sound up to a collision of the hash.
  \<^item> \<open>Smirk_Storage\<close>: \<open>smirk/src/storage\<close>, the tree with its database. Batches reach tree and
    database together, and loading the database gives the tree back.
  \<^item> \<open>Block_Store\<close>, \<open>Block_Store_Props\<close>: \<open>block-store/src\<close> with \<open>primitives/src/pagination.rs\<close>: keys and
    their byte order, reading and writing blocks and indexes, range lists, pages, migration.
  \<^item> \<open>Node_Mempool\<close>: \<open>node/src/mempool.rs\<close>. Runs of the pool, with any keys, are the inductive predicate
    \<open>mp_run\<close>: every listener is answered at most once. Where leases are taken of keys in the pool
    (\<open>mp_reachable\<close>), they follow insertion order.
  \<^item> \<open>Utxo\<close>, \<open>Note_Url\<close>: \<open>zk-primitives/src\<close>: notes, transactions, their public inputs and messages,
    aggregates, note links.
  \<^item> \<open>Signed_Element\<close>: \<open>element/src/signed_element.rs\<close> as exact integer arithmetic.
  \<^item> \<open>Node_Block\<close>, \<open>Node_Block_Props\<close>: \<open>node/src/block.rs\<close>, \<open>utxo.rs\<close>, \<open>node/block.rs\<close> and the stored
    formats: what validation accepts and that an accepted block can be applied.
  \<^item> \<open>Node_Cache\<close>: \<open>node/src/cache.rs\<close> as a bounded map from heights to blocks.
  \<^item> \<open>Node_State\<close>: the operations of a node on its shared state (\<open>node/src/node.rs\<close>, \<open>node/proposal.rs\<close>,
    \<open>node/transaction.rs\<close>, \<open>node/tick_worker.rs\<close>, \<open>node/load.rs\<close>, \<open>doomslug/src/approval.rs\<close>): commit,
    propose, receive, tick, load, queries. \<open>Node_Ledger\<close> relates the two databases to a chain of
    blocks, \<open>Node_Run\<close> shows that the operations above keep that relation, and \<open>Node_Theorems\<close> has the runs
    of a node, with restarts and stops inside a commit, as the inductive predicate \<open>node_run\<close>: the ledger
    has no double spend; the commit loop of a tick ends, and commits the next block when a valid one waits
    in the cache and the node is not its proposer; a restart recovers from a stop inside any commit but that of the
    first block, where it panics.
  \<^item> \<open>Node_Sync\<close>: \<open>node/src/sync.rs\<close>, \<open>network.rs\<close>, \<open>network_handler.rs\<close>: both sides of a snapshot and the
    dispatch of network events. Handling a network event or a chunk of a slow snapshot stays within
    \<open>node_run\<close>; applying a fast snapshot does not: it writes the tree and confirms the cache without storing
    blocks, which breaks the relation of \<open>Node_Ledger\<close>.
  \<^item> \<open>Solid_Config\<close>, \<open>Solid_Proposal\<close>, \<open>Solid_Cache\<close>, \<open>Solid_Core\<close>: the consensus core (\<open>solid/src\<close>): quorum
    thresholds, proposals with their accepts, the proposal cache and the state machine of a
    validator. The locale \<open>quorum_threshold\<close> is what the core needs of a threshold, interpreted on the
    thresholds of the code. \<open>Solid_Proposal_Props\<close>, \<open>Solid_Cache_Props\<close>, \<open>Solid_Core_Props\<close>,
    \<open>Solid_Accept_Props\<close>, \<open>Solid_Theorems\<close> and \<open>Solid_Progress\<close> show, over an inductive predicate of runs,
    that commits form a chain, proposals carry a quorum, accepts never go back, calls return and a
    ready proposal is committed.

  \<^item> \<open>Doomslug\<close>, \<open>Doomslug_Props\<close>, \<open>Doomslug_Theorems\<close>: \<open>doomslug/src\<close> and \<open>node/src/node.rs\<close> (the delays the
    node configures): approvals, their tracking by height and parent, the timer. Over an inductive
    predicate of runs: tracked stakes are sums of distinct approvers, two parents are never both
    ready for one height, the timer keeps its clocks in order. Each approval is processed with the list of
    validators passed with it, as the node does; that only one parent is ready holds for a height for
    which one list was passed.
  \<^item> \<open>Wallet_Address\<close>: \<open>cli/src/address.rs\<close>, \<open>note_url.rs\<close>, \<open>units.rs\<close>: payment addresses, links, units.
  \<^item> \<open>Wallet\<close>, \<open>Wallet_Props\<close>, \<open>Wallet_Theorems\<close>: \<open>cli/src/wallet.rs\<close>, all operations of a wallet on its
    notes. A wallet accounts for its balance in every run (\<open>wallet_run\<close>), selection finds the payment
    with the least excess among its candidates, spending conserves value, syncing moves the notes
    the node has confirmed.
  \<^item> \<open>Wallet_Commands\<close>, \<open>Wallet_Files\<close>: \<open>cli/src/main.rs\<close> and \<open>client.rs\<close>: the commands as programs over a world of
    files, a node that answers, loses or refuses a request, and the Lightning swap services. The rules of \<open>keeps\<close>, a partial
    correctness logic for these programs, show that the files of every wallet account for its
    balance after any sequence of commands (\<open>cli_run\<close>), also those that fail half way.

  \<^item> \<open>Circuits\<close>, \<open>Circuits_Props\<close>, \<open>Circuits_Tree\<close>, \<open>Circuits_Theorems\<close>: the circuits of \<open>../noir\<close> as lists of
    assertions over field elements. The transaction circuit conserves value over the integers; the
    Merkle paths of the circuits are the paths of the tree; a satisfied aggregate of aggregates is a
    sequence of removals and insertions on a tree with the old root, or gives a collision of Poseidon, or
    of the hash of verification keys, which are inputs of the circuits.
  \<^item> \<open>Prover\<close>, \<open>Prover_Props\<close>, \<open>Prover_Rounds\<close>, \<open>Prover_Theorems\<close>: \<open>barretenberg/src/circuits\<close>, the aggregates of
    \<open>zk-primitives/src\<close> and \<open>prover/src/lib.rs\<close>: circuit inputs, Merkle paths and the two levels of
    aggregation. A block the node validates has an aggregate with the roots and messages of the block.
    \<open>Prover_Demo\<close> applies the theorems about the circuits to a mint.
  \<^item> \<open>Eth_Client\<close>: \<open>contracts/src/client.rs\<close>, \<open>fees.rs\<close> and \<open>primitives/src/retry.rs\<close>: retries, fees, waiting for
    confirmations. \<open>Rollup_Contract\<close>, \<open>Rollup_Contract_Props\<close>: \<open>contracts/src/rollup.rs\<close>: tokens, calls, event scans
    and the validator sets; of \<open>RollupV1.sol\<close> the sets of validators and the index of the current one. From
    the last verified rollup on, node and contract choose the same set for every height whose set the node
    has been told of.
  \<^item> \<open>Prover_Worker\<close>, \<open>Prover_Worker_Props\<close>, \<open>Prover_Worker_Theorems\<close>: \<open>node/src/prover\<close>: the database of the prover
    and the loop that proves the commits of the node. Runs with stops and failing writes are an
    inductive predicate over the chain of a reachable node; the stored rollups link the roots of that
    chain, and a sole prover catches up with every block without a gap. \<open>Rollup_Worker\<close>, \<open>Rollup_Chain\<close>: the submission loop and the contract it
    drives, which reaches the last provable block. \<open>Prover_Worker_Demo\<close> has a node with two blocks, its
    prover and its contract.

  \<^item> \<open>Node_Rpc\<close>, \<open>Node_Rpc_Props\<close>: \<open>node/src/rpc\<close> and \<open>primitives/src/pagination.rs\<close>: the routes as functions of the state of
    the node. On every node that has run, the pages of transactions a client gets by following the \<open>after\<close>
    cursors tile the committed chain, and pages read while the chain grows never go back; pages read
    with \<open>before\<close> cursors lose transactions.
  \<^item> \<open>Atomiq\<close>: \<open>atomiq/src/lib.rs\<close>: the escrow record of the swap service and its ABI encoding, which is read back.
  \<^item> \<open>Burn_Substitutor\<close>, \<open>Burn_Substitutor_Props\<close>: \<open>burn-substitutor/src\<close>: the service that pays out burns early, over a world
    of fallible operations. Against the routes of the node it handles every transaction at most once.

  \<^bold>\<open>Interfaces.\<close> Locales state what a client relies on: \<open>hash_cache\<close> (both hash caches), the ordered
  map behind B-trees and databases, \<open>quorum_threshold\<close>. Each is interpreted on the definitions of the
  code, and the lemmas of its clients go through the interpretation.

  \<^bold>\<open>Bounds.\<close> Trees are proved for every depth above zero and every hash function; the demos of
  the witnesses use small depths, or depth 161 of the node where the definition fixes it. Fuel is
  used in five places and proved to suffice: \<open>migrate_loop\<close> (the number of versions left), \<open>approve_loop\<close> (the
  retries left), the
  walks of the Solid cache (one more than the number of proposals; running out is the error
  \<open>OutOfFuel\<close>, which no call of the core returns), \<open>accept_fuel\<close> (one nested call), and \<open>tick_fuel\<close>
  (one more than the heights of the cache; \<open>TickOutOfFuel\<close> does not occur).

  \<^bold>\<open>Assumptions of the node theorems.\<close> \<open>node_setup\<close>: block hashes have 32 bytes and determine the height,
  the commitments in use fall into different slots of the tree, no height is exempt from validation.
  Concurrent handlers are interleaved at the granularity of whole operations and single rounds of
  the commit loop.

  \<^bold>\<open>Assumptions of the wallet theorems.\<close> \<open>json_ok\<close>: reading a wallet that was written gives it back. Token
  names are ASCII; random keys and the clock are arguments of the operations that draw them.

  \<^bold>\<open>Assumptions of the circuit and prover theorems.\<close> \<open>poseidon_ok\<close>: the hash gives field elements. \<open>verifier_sound\<close>:
  the recursive verifier accepts, for any key, only the hash of that key, and a proof it accepts for the
  key of a compiled circuit has private inputs that satisfy this circuit; \<open>keys_match\<close>: the
  keys of the compiled circuits have the hashes the circuits fix; \<open>backend_complete\<close>: the proof system proves satisfied circuits and puts
  their public inputs first. Collisions of the hash are computed by the reduction, never assumed away.
  For the workers of the prover, \<open>roots_faithful\<close>: prefixes of the chain with different notes have different
  roots; \<open>chain_provable\<close>: each transaction has a proof the circuits accept and no root is zero;
  \<open>contract_accepts\<close>: the contract accepts the proofs, signatures and messages of the stored rollups.

  \<^bold>\<open>Assumptions of the substitutor theorem.\<close> \<open>node_answers\<close>: the transactions come from the route of a node whose store
  is well formed, at any state of it; \<open>calls_logged\<close>: only calls of the contract are recorded as such.

  \<^bold>\<open>Not modelled.\<close> The proof system and its backend, sockets and the peer-to-peer layer, the HTTP
  server around the routes, configuration files and the byte encoding of values
  (borsh, serde): they are calls of third-party code, or plumbing around the operations modelled
  here. Of the node, the loop of the sync worker with its time-outs is left out; of the contract, everything
  but the validator sets and, in \<open>verifyRollup\<close>, the root and the height, its other checks being one parameter; of the
  block store, input and output errors of the database; of Solid, the event stream and the timers around
  the core; of the command line, the two commands that print the state of the contract, all printed
  output, and the HTTP and JSON of the swap services, whose parsed answers are inputs.
\<close>

end
